(* ===== verification/Prelude.thy ===== *)
theory Prelude
  imports Main "HOL-Library.Word" "HOL-Library.Sublist"
begin

unbundle bit_operations_syntax

text \<open>
  What the components share: the names of the C types, C strings and character classes on byte
  lists, writes into a fixed buffer, and the generic facts on them.

  A C \<^verbatim>\<open>char *\<close> or \<^verbatim>\<open>uint8_t *\<close> with a known length is the list of its bytes; a NUL-terminated
  string is the list of the bytes before the NUL, and a pointer into it is the suffix it points
  at, so that \<open>peek\<close> (a read through the pointer) gives 0 at the end.  A C \<^verbatim>\<open>int\<close> is an
  \<open>int\<close>; unsigned types keep their width as words.
\<close>

section \<open>Types\<close>

type_synonym u8 = "8 word"
type_synonym u32 = "32 word"
type_synonym u64 = "64 word"
type_synonym bytes = "8 word list"

named_theorems lit_simps \<open>evaluation of string literals as bytes\<close>
named_theorems codec_simps \<open>lengths and read-after-write facts of the byte encodings\<close>
named_theorems frame_simps \<open>what an operation leaves unchanged\<close>

section \<open>C strings\<close>

definition str :: "string \<Rightarrow> bytes" where
  "str s = map of_char s"

lemmas [lit_simps] = str_def of_char_def

lemma length_str [simp]: "length (str s) = length s"
  by (simp add: str_def)

definition peek :: "bytes \<Rightarrow> u8" where
  "peek s = (case s of [] \<Rightarrow> 0 | c # _ \<Rightarrow> c)"

lemma peek_simps [simp]: "peek [] = 0" "peek (c # s) = c"
  by (simp_all add: peek_def)

text \<open>\<^verbatim>\<open>strncmp(s, lit, strlen(lit)) == 0\<close> and \<^verbatim>\<open>memcmp\<close> against the front of a buffer.\<close>

definition starts_with :: "bytes \<Rightarrow> bytes \<Rightarrow> bool" where
  "starts_with p s \<longleftrightarrow> length p \<le> length s \<and> take (length p) s = p"

lemma starts_with_Nil [simp]: "starts_with [] s"
  by (simp add: starts_with_def)

lemma starts_with_Cons [simp]:
  "starts_with (c # p) [] \<longleftrightarrow> False"
  "starts_with (c # p) (d # s) \<longleftrightarrow> c = d \<and> starts_with p s"
  by (auto simp: starts_with_def)

lemma starts_with_append [simp]: "starts_with p (p @ s)"
  by (simp add: starts_with_def)

lemma starts_with_iff_prefix: "starts_with p s \<longleftrightarrow> prefix p s"
  by (metis append_eq_conv_conj prefix_def starts_with_def starts_with_append)

lemma starts_withE:
  assumes "starts_with p s"
  obtains r where "s = p @ r"
  using assms by (auto simp: starts_with_iff_prefix prefix_def)

text \<open>\<^verbatim>\<open>strstr\<close>: the first occurrence.\<close>

fun strstr :: "bytes \<Rightarrow> bytes \<Rightarrow> nat option" where
  "strstr [] needle = (if needle = [] then Some 0 else None)"
| "strstr (c # s) needle = (if starts_with needle (c # s) then Some 0 else map_option Suc (strstr s needle))"

lemma strstr_found: "strstr s needle = Some n \<Longrightarrow> starts_with needle (drop n s)"
  by (induction s arbitrary: n) (auto split: if_splits)

lemma strstr_bound: "strstr s needle = Some n \<Longrightarrow> n + length needle \<le> length s"
  by (induction s arbitrary: n) (auto simp: starts_with_def split: if_splits)

section \<open>Character classes (the C locale)\<close>

definition isspace :: "u8 \<Rightarrow> bool" where
  "isspace c \<longleftrightarrow> c = 32 \<or> (9 \<le> c \<and> c \<le> 13)"

definition isdigit :: "u8 \<Rightarrow> bool" where
  "isdigit c \<longleftrightarrow> 48 \<le> c \<and> c \<le> 57"

definition isxdigit :: "u8 \<Rightarrow> bool" where
  "isxdigit c \<longleftrightarrow> isdigit c \<or> (97 \<le> c \<and> c \<le> 102) \<or> (65 \<le> c \<and> c \<le> 70)"

definition tolower :: "u8 \<Rightarrow> u8" where
  "tolower c = (if 65 \<le> c \<and> c \<le> 90 then c + 32 else c)"

lemmas ctype_defs = isspace_def isdigit_def isxdigit_def tolower_def

section \<open>Decimal digits\<close>

definition dec_step :: "nat \<Rightarrow> u8 \<Rightarrow> nat" where
  "dec_step a c = a * 10 + unat (c - 48)"

lemma dec_step_ge: "a \<le> foldl dec_step a t"
proof (induction t arbitrary: a)
  case (Cons c t)
  have "a \<le> dec_step a c" by (simp add: dec_step_def)
  also have "\<dots> \<le> foldl dec_step (dec_step a c) t" by (rule Cons.IH)
  finally show ?case by simp
qed simp

section \<open>Writes into a buffer\<close>

definition poke :: "nat \<Rightarrow> 'a list \<Rightarrow> 'a list \<Rightarrow> 'a list" where
  "poke off bs buf = take off buf @ bs @ drop (off + length bs) buf"

lemma length_poke [simp]:
  "off + length bs \<le> length buf \<Longrightarrow> length (poke off bs buf) = length buf"
  by (simp add: poke_def)

lemma take_poke [simp]: "off \<le> length buf \<Longrightarrow> take off (poke off bs buf) = take off buf"
  by (simp add: poke_def)

section \<open>Lists\<close>

lemma take_drop_append_cancel [simp]:
  "length xs = n \<Longrightarrow> take n (xs @ ys) = xs" "length xs = n \<Longrightarrow> drop n (xs @ ys) = ys"
  by auto

lemma append_len_inject:
  "length xs = length ys \<Longrightarrow> xs @ us = ys @ vs \<longleftrightarrow> xs = ys \<and> us = vs"
  by auto

lemma foldl_append_snoc: "foldl (\<lambda>a x. a @ [f x]) a xs = a @ map f xs"
  by (induction xs arbitrary: a) auto

text \<open>\<^verbatim>\<open>memmove(a + i, a + i + 1, ...)\<close> and \<^verbatim>\<open>len--\<close>: an array without its \<open>i\<close>-th entry.\<close>

definition remove_at :: "nat \<Rightarrow> 'a list \<Rightarrow> 'a list" where
  "remove_at i xs = take i xs @ drop (Suc i) xs"

lemma remove_at_split:
  "i < length xs \<Longrightarrow> \<exists>ys zs. xs = ys @ xs ! i # zs \<and> remove_at i xs = ys @ zs"
  by (metis id_take_nth_drop remove_at_def)

lemma length_remove_at [simp]: "i < length xs \<Longrightarrow> length (remove_at i xs) = length xs - 1"
  by (simp add: remove_at_def)

lemma set_remove_at: "set (remove_at i xs) \<subseteq> set xs"
  by (auto simp: remove_at_def dest: in_set_takeD in_set_dropD)

lemma map_remove_at: "map f (remove_at i xs) = remove_at i (map f xs)"
  by (simp add: remove_at_def take_map drop_map)

lemma distinct_remove_at: "distinct xs \<Longrightarrow> distinct (remove_at i xs)"
  using set_take_disj_set_drop_if_distinct [of xs i "Suc i"] by (simp add: remove_at_def)

lemma sum_list_remove_at:
  fixes f :: "'a \<Rightarrow> nat"
  assumes "i < length xs"
  shows "sum_list (map f xs) = f (xs ! i) + sum_list (map f (remove_at i xs))"
proof -
  obtain ys zs where "xs = ys @ xs ! i # zs" "remove_at i xs = ys @ zs"
    using remove_at_split [OF assms] by blast
  then have "map f xs = map f ys @ f (xs ! i) # map f zs"
    by (metis list.simps(9) map_append)
  with \<open>remove_at i xs = ys @ zs\<close> show ?thesis by simp
qed

lemma remove_at_filter:
  "distinct (map f xs) \<Longrightarrow> i < length xs \<Longrightarrow> remove_at i xs = filter (\<lambda>x. f x \<noteq> f (xs ! i)) xs"
proof (induction xs arbitrary: i)
  case (Cons x xs)
  show ?case
  proof (cases i)
    case 0
    have "filter (\<lambda>y. f y \<noteq> f x) xs = xs"
      using Cons.prems by (simp add: filter_id_conv image_iff) metis
    with 0 show ?thesis by (simp add: remove_at_def)
  next
    case (Suc j)
    then have "f x \<noteq> f (xs ! j)"
      using Cons.prems by (metis image_eqI length_Cons list.simps(9) distinct.simps(2)
          not_less_eq nth_mem set_map)
    with Suc Cons show ?thesis by (simp add: remove_at_def)
  qed
qed simp

text \<open>A sum accumulated in a machine word is the sum of naturals while that one fits.\<close>

lemma unat_foldl_add:
  fixes f :: "'b \<Rightarrow> 'a :: len word"
  shows "unat a + sum_list (map (\<lambda>x. unat (f x)) xs) < 2 ^ LENGTH('a) \<Longrightarrow>
    unat (foldl (\<lambda>t x. t + f x) a xs) = unat a + sum_list (map (\<lambda>x. unat (f x)) xs)"
proof (induction xs arbitrary: a)
  case (Cons x xs)
  then have "unat (a + f x) = unat a + unat (f x)"
    by (intro unat_add_lem [THEN iffD1]) simp
  with Cons show ?case by simp
qed simp

text \<open>The rule for a counting loop \<^verbatim>\<open>for (i = m; i < n; i++)\<close> written as a fold.\<close>

lemma foldl_upt_invariant:
  assumes "P m a" and "m \<le> n"
    and "\<And>i a. m \<le> i \<Longrightarrow> i < n \<Longrightarrow> P i a \<Longrightarrow> P (Suc i) (f a i)"
  shows "P n (foldl f a [m..<n])"
  using assms(2,1,3)
proof (induction n rule: dec_induct)
  case (step k)
  then have "P k (foldl f a [m..<k])" by simp
  with step show ?case by simp
qed simp

lemma foldl_invariant:
  "P a \<Longrightarrow> (\<And>a x. x \<in> set xs \<Longrightarrow> P a \<Longrightarrow> P (f a x)) \<Longrightarrow> P (foldl f a xs)"
  by (induction xs arbitrary: a) auto

lemma dropWhile_Cons_shorter: "dropWhile P s = c # t \<Longrightarrow> length t < length s"
  using length_dropWhile_le [of P s] by simp

section \<open>Words\<close>

lemma unat_add_le_max:
  fixes a b :: "'a :: len word"
  assumes "b \<le> - 1 - a"
  shows "unat (a + b) = unat a + unat b"
proof -
  have "unat b \<le> unat (- 1 - a)"
    using assms by (simp only: word_le_nat_alt)
  also have "\<dots> = unat (- 1 :: 'a word) - unat a"
    by (rule unat_sub) (rule word_order.extremum)
  also have "unat (- 1 :: 'a word) = 2 ^ LENGTH('a) - 1"
    by (simp add: unsigned_minus_1_eq_mask mask_eq_exp_minus_1)
  finally have "unat a + unat b < 2 ^ LENGTH('a)"
    using unsigned_less [of a, where 'a = nat] by linarith
  then show ?thesis
    by (simp add: unat_word_ariths)
qed

lemma unat_word_of_nat_small:
  "n < 2 ^ LENGTH('a) \<Longrightarrow> unat (word_of_nat n :: 'a :: len word) = n"
  by (simp add: unat_of_nat take_bit_nat_eq_self)

lemma unat_ucast_up:
  fixes w :: "'a :: len word"
  assumes "LENGTH('a) \<le> LENGTH('b)"
  shows "unat (ucast w :: 'b :: len word) = unat w"
proof -
  have "unat w < 2 ^ LENGTH('a)" using unsigned_less [of w, where 'a = nat] by simp
  also have "\<dots> \<le> 2 ^ LENGTH('b)" using assms by simp
  finally show ?thesis by (simp add: unsigned_ucast_eq take_bit_nat_eq_self)
qed

text \<open>
  The overflow test \<^verbatim>\<open>UINT64_MAX - a < b\<close> on words is the comparison on naturals, and a sum
  that passes it is the sum of naturals.
\<close>

lemma max_sub_less_iff:
  fixes a b :: "'a :: len word"
  shows "- 1 - a < b \<longleftrightarrow> 2 ^ LENGTH('a) \<le> unat a + unat b"
proof -
  have "unat (- 1 - a) = 2 ^ LENGTH('a) - 1 - unat a"
    using unat_sub [of a "- 1"] by (simp add: unsigned_minus_1_eq_mask mask_eq_exp_minus_1)
  moreover have "unat a < 2 ^ LENGTH('a)"
    using unsigned_less [of a, where 'a = nat] by simp
  ultimately show ?thesis
    unfolding word_less_nat_alt by linarith
qed

lemma unat_add_no_overflow:
  fixes a b :: "'a :: len word"
  shows "unat a + unat b < 2 ^ LENGTH('a) \<Longrightarrow> unat (a + b) = unat a + unat b"
  by (simp add: unat_word_ariths)

end
