(* ===== verification/Codec.thy ===== *)
theory Codec
  imports Prelude
begin

text \<open>
  The fixed-width integer encodings of the on-disk and wire formats: the little-endian fields of
  the KV checkpoint header (\<^verbatim>\<open>q36_kvstore_le_put32\<close> and its companions in \<^verbatim>\<open>q36_kvstore.c\<close>) and
  the network-order words of the pipeline protocol (\<^verbatim>\<open>dist_put\<close>, \<^verbatim>\<open>dist_get\<close> in
  \<^verbatim>\<open>q36_distributed.c\<close>).  The locale \<open>codec\<close> is the contract their clients rely on; every
  encoding interprets it.
\<close>

section \<open>The encodings\<close>

definition le_put32 :: "u32 \<Rightarrow> bytes" where
  "le_put32 v = [ucast v, ucast (drop_bit 8 v), ucast (drop_bit 16 v), ucast (drop_bit 24 v)]"

definition le_get32 :: "bytes \<Rightarrow> u32" where
  "le_get32 p = ucast (p ! 0) OR push_bit 8 (ucast (p ! 1)) OR
     push_bit 16 (ucast (p ! 2)) OR push_bit 24 (ucast (p ! 3))"

definition le_put64 :: "u64 \<Rightarrow> bytes" where
  "le_put64 v = map (\<lambda>i. ucast (drop_bit (8 * i) v)) [0..<8]"

definition le_get64 :: "bytes \<Rightarrow> u64" where
  "le_get64 p = foldl (\<lambda>v i. push_bit 8 v OR ucast (p ! i)) 0 [7, 6, 5, 4, 3, 2, 1, 0]"

definition dist_put :: "u32 \<Rightarrow> bytes" where
  "dist_put v = [ucast (drop_bit 24 v), ucast (drop_bit 16 v), ucast (drop_bit 8 v), ucast v]"

definition dist_get :: "bytes \<Rightarrow> u32" where
  "dist_get p = push_bit 24 (ucast (p ! 0)) OR push_bit 16 (ucast (p ! 1)) OR
     push_bit 8 (ucast (p ! 2)) OR ucast (p ! 3)"

section \<open>The contract\<close>

locale codec =
  fixes put :: "'a \<Rightarrow> bytes" and get :: "bytes \<Rightarrow> 'a" and width :: nat
  assumes length_put [codec_simps]: "length (put v) = width"
    and get_put: "get (put v @ rest) = v"
begin

lemma get_put_alone [codec_simps]: "get (put v) = v"
  using get_put [of v "[]"] by simp

lemmas get_put_append [codec_simps] = get_put

lemma put_inject: "put v = put w \<longleftrightarrow> v = w"
  by (metis get_put_alone)

lemma put_append_inject: "put v @ r = put w @ s \<longleftrightarrow> v = w \<and> r = s"
  by (metis append_len_inject length_put put_inject)

lemma drop_put [codec_simps]: "drop width (put v @ rest) = rest"
  by (simp add: length_put)

lemma take_put [codec_simps]: "take width (put v @ rest) = put v"
  by (simp add: length_put)

text \<open>A table of words is read back entry by entry.\<close>

lemma length_concat_put: "length (concat (map put vs)) = width * length vs"
  by (induction vs) (simp_all add: length_put)

lemma get_nth:
  "i < length vs \<Longrightarrow> get (drop (width * i) (concat (map put vs) @ rest)) = vs ! i"
proof (induction vs arbitrary: i)
  case (Cons v vs)
  show ?case
  proof (cases i)
    case 0
    then show ?thesis by (simp add: get_put)
  next
    case (Suc j)
    have "drop (width * i) (concat (map put (v # vs)) @ rest)
        = drop (width * j) (concat (map put vs) @ rest)"
      by (simp add: Suc length_put)
    with Cons Suc show ?thesis by simp
  qed
qed simp

lemma concat_put_inject: "length vs = length ws \<Longrightarrow>
    concat (map put vs) = concat (map put ws) \<longleftrightarrow> vs = ws"
  by (induction vs ws rule: list_induct2) (auto simp: put_append_inject)

end

text \<open>An encoding that reaches every byte string of its width.\<close>

locale codec_onto = codec +
  assumes put_get: "length bs = width \<Longrightarrow> put (get bs) = bs"
begin

lemma put_get_take: "width \<le> length bs \<Longrightarrow> put (get (take width bs)) @ drop width bs = bs"
  by (simp add: put_get)

lemma get_take: "width \<le> length bs \<Longrightarrow> get (take width bs) = get bs"
  using get_put [of "get (take width bs)" "drop width bs"] by (simp add: put_get)

lemma exists_put: "length bs = width \<Longrightarrow> \<exists>v. bs = put v"
  by (metis put_get)

end

section \<open>The encodings satisfy it\<close>

text \<open>One byte of a word, put back at its place, is the word restricted to those eight bits.\<close>

lemma bit_byte_at:
  fixes v :: "'a :: len word"
  shows "bit (push_bit k (ucast (ucast (drop_bit k v) :: u8) :: 'a word)) n \<longleftrightarrow>
    k \<le> n \<and> n < k + 8 \<and> bit v n"
proof (cases "k \<le> n \<and> n < LENGTH('a)")
  case True
  then have "k + (n - k) = n" by simp
  with True show ?thesis
    by (auto simp: bit_simps)
next
  case False
  then show ?thesis
    using bit_imp_le_length [of v n] by (auto simp: bit_simps)
qed

lemmas bit_byte_0 = bit_byte_at [where k = 0, simplified]

lemma le_get32_put32: "le_get32 (le_put32 v @ rest) = v"
proof (rule bit_word_eqI)
  fix n assume "n < LENGTH(32)"
  then show "bit (le_get32 (le_put32 v @ rest)) n = bit v n"
    by (auto simp: le_get32_def le_put32_def bit_or_iff bit_byte_at bit_byte_0)
qed

lemma dist_get_put: "dist_get (dist_put v @ rest) = v"
proof (rule bit_word_eqI)
  fix n assume "n < LENGTH(32)"
  then show "bit (dist_get (dist_put v @ rest)) n = bit v n"
    by (auto simp: dist_get_def dist_put_def bit_or_iff bit_byte_at bit_byte_0)
qed

lemma le_get64_unfold:
  "le_get64 p = push_bit 56 (ucast (p ! 7)) OR push_bit 48 (ucast (p ! 6)) OR
     push_bit 40 (ucast (p ! 5)) OR push_bit 32 (ucast (p ! 4)) OR
     push_bit 24 (ucast (p ! 3)) OR push_bit 16 (ucast (p ! 2)) OR
     push_bit 8 (ucast (p ! 1)) OR ucast (p ! 0)"
  by (simp add: le_get64_def push_bit_or or.assoc)

lemma le_put64_unfold:
  "le_put64 v = [ucast v, ucast (drop_bit 8 v), ucast (drop_bit 16 v), ucast (drop_bit 24 v),
     ucast (drop_bit 32 v), ucast (drop_bit 40 v), ucast (drop_bit 48 v), ucast (drop_bit 56 v)]"
  by (simp add: le_put64_def upt_rec)

lemma le_get64_put64: "le_get64 (le_put64 v @ rest) = v"
proof (rule bit_word_eqI)
  fix n assume "n < LENGTH(64)"
  then show "bit (le_get64 (le_put64 v @ rest)) n = bit v n"
    by (auto simp: le_get64_unfold le_put64_unfold bit_or_iff bit_byte_at bit_byte_0)
qed

text \<open>The other direction: every byte string of the right length is the encoding of its value.\<close>

lemma length_4E: "length bs = 4 \<Longrightarrow> \<exists>a b c d. bs = [a, b, c, d]"
  by (auto simp: numeral_eq_Suc length_Suc_conv)

lemma length_8E: "length bs = 8 \<Longrightarrow> \<exists>a b c d e f g h. bs = [a, b, c, d, e, f, g, h]"
  by (auto simp: numeral_eq_Suc length_Suc_conv)

lemma bit_u8_high: "8 \<le> n \<Longrightarrow> \<not> bit (b :: u8) n"
  using bit_imp_le_length [of b n] by auto

lemma bit_byte_of:
  fixes w :: "'a :: len word"
  assumes "k + 8 \<le> LENGTH('a)"
  shows "bit (ucast (drop_bit k w) :: u8) n \<longleftrightarrow> n < 8 \<and> bit w (n + k)"
  using assms by (auto simp: bit_simps add.commute)

lemma bit_placed_byte:
  assumes "k + 8 \<le> LENGTH('a)"
  shows "bit (push_bit k (ucast (b :: u8)) :: 'a :: len word) n \<longleftrightarrow> k \<le> n \<and> n < k + 8 \<and> bit b (n - k)"
  using assms by (auto simp: bit_simps dest: bit_imp_le_length)

lemmas bit_byte_of_0 = bit_byte_of [where k = 0, simplified]
lemmas bit_placed_byte_0 = bit_placed_byte [where k = 0, simplified]
lemmas byte_bits = bit_byte_of bit_byte_of_0 bit_placed_byte bit_placed_byte_0 bit_or_iff bit_drop_bit_eq

lemma le_put32_get32: "length bs = 4 \<Longrightarrow> le_put32 (le_get32 bs) = bs"
  by (drule length_4E)
    (auto simp: le_put32_def le_get32_def byte_bits bit_u8_high intro!: bit_word_eqI)

lemma dist_put_get: "length bs = 4 \<Longrightarrow> dist_put (dist_get bs) = bs"
  by (drule length_4E)
    (auto simp: dist_put_def dist_get_def byte_bits bit_u8_high intro!: bit_word_eqI)

lemma le_put64_get64: "length bs = 8 \<Longrightarrow> le_put64 (le_get64 bs) = bs"
  by (drule length_8E)
    (auto simp: le_put64_unfold le_get64_unfold byte_bits bit_u8_high intro!: bit_word_eqI)

interpretation le32: codec_onto le_put32 le_get32 4
  by unfold_locales (simp add: le_put32_def, rule le_get32_put32, rule le_put32_get32)

interpretation le64: codec_onto le_put64 le_get64 8
  by unfold_locales (simp add: le_put64_def, rule le_get64_put64, rule le_put64_get64)

interpretation be32: codec_onto dist_put dist_get 4
  by unfold_locales (simp add: dist_put_def, rule dist_get_put, rule dist_put_get)

end
