(* ===== verification/Kv_Sha1.thy ===== *)
theory Kv_Sha1
  imports Codec
begin

text \<open>
  The SHA-1 of \<^verbatim>\<open>q36_kvstore.c\<close> (\<^verbatim>\<open>sha1_transform\<close>, \<^verbatim>\<open>sha1_init\<close>, \<^verbatim>\<open>sha1_update\<close>,
  \<^verbatim>\<open>sha1_final\<close>, \<^verbatim>\<open>hex20\<close>): the streaming context with its 64-byte block buffer, and its
  refinement to the one-shot definition that pads the message and folds the compression
  function over its blocks.
\<close>

section \<open>The code\<close>

record sha1_ctx =
  sh_h :: "u32 list"
  sh_bytes :: u64
  sh_block :: bytes
  sh_used :: nat

definition rol32 :: "u32 \<Rightarrow> nat \<Rightarrow> u32" where
  "rol32 v n = push_bit n v OR drop_bit (32 - n) v"

definition sha1_words :: "bytes \<Rightarrow> u32 list" where
  "sha1_words block = map (\<lambda>i.
     push_bit 24 (ucast (block ! (i * 4))) OR push_bit 16 (ucast (block ! (i * 4 + 1))) OR
     push_bit 8 (ucast (block ! (i * 4 + 2))) OR ucast (block ! (i * 4 + 3))) [0..<16]"

definition sha1_expand :: "u32 list \<Rightarrow> u32 list" where
  "sha1_expand w = foldl (\<lambda>w i.
     w @ [rol32 (w ! (i - 3) XOR w ! (i - 8) XOR w ! (i - 14) XOR w ! (i - 16)) 1]) w [16..<80]"

definition sha1_fk :: "nat \<Rightarrow> u32 \<Rightarrow> u32 \<Rightarrow> u32 \<Rightarrow> u32 \<times> u32" where
  "sha1_fk i b cc d =
     (if i < 20 then ((b AND cc) OR (NOT b AND d), 0x5a827999)
      else if i < 40 then (b XOR cc XOR d, 0x6ed9eba1)
      else if i < 60 then ((b AND cc) OR (b AND d) OR (cc AND d), 0x8f1bbcdc)
      else (b XOR cc XOR d, 0xca62c1d6))"

definition sha1_round ::
  "u32 list \<Rightarrow> u32 \<times> u32 \<times> u32 \<times> u32 \<times> u32 \<Rightarrow> nat \<Rightarrow> u32 \<times> u32 \<times> u32 \<times> u32 \<times> u32" where
  "sha1_round w = (\<lambda>(a, b, cc, d, e) i.
     let (f, k) = sha1_fk i b cc d;
         tmp = rol32 a 5 + f + e + k + w ! i
     in (tmp, a, rol32 b 30, cc, d))"

definition sha1_transform :: "u32 list \<Rightarrow> bytes \<Rightarrow> u32 list" where
  "sha1_transform h block =
     (let w = sha1_expand (sha1_words block);
          (a, b, cc, d, e) = foldl (sha1_round w) (h ! 0, h ! 1, h ! 2, h ! 3, h ! 4) [0..<80]
      in [h ! 0 + a, h ! 1 + b, h ! 2 + cc, h ! 3 + d, h ! 4 + e])"

definition sha1_iv :: "u32 list" where
  "sha1_iv = [0x67452301, 0xefcdab89, 0x98badcfe, 0x10325476, 0xc3d2e1f0]"

definition sha1_init :: "bytes \<Rightarrow> sha1_ctx" where
  "sha1_init block = \<lparr>sh_h = sha1_iv, sh_bytes = 0, sh_block = block, sh_used = 0\<rparr>"

text \<open>
  The copy loop of \<^verbatim>\<open>sha1_update\<close>.  The code never has a full block on entry; with one the C loop
  would copy nothing for ever, and the model stops instead (\<open>sha1_ok\<close> below excludes it).
\<close>

function sha1_feed :: "sha1_ctx \<Rightarrow> bytes \<Rightarrow> sha1_ctx" where
  "sha1_feed c p =
     (if p = [] \<or> 64 \<le> sh_used c then c
      else let n = min (64 - sh_used c) (length p);
               c' = c\<lparr>sh_block := poke (sh_used c) (take n p) (sh_block c),
                      sh_used := sh_used c + n\<rparr>;
               c'' = (if sh_used c' = 64
                      then c'\<lparr>sh_h := sha1_transform (sh_h c') (sh_block c'), sh_used := 0\<rparr>
                      else c')
           in sha1_feed c'' (drop n p))"
  by pat_completeness auto
termination
  by (relation "measure (\<lambda>(c, p). length p)") auto

declare sha1_feed.simps [simp del]

definition sha1_update :: "sha1_ctx \<Rightarrow> bytes \<Rightarrow> sha1_ctx" where
  "sha1_update c p = sha1_feed (c\<lparr>sh_bytes := sh_bytes c + word_of_nat (length p)\<rparr>) p"

text \<open>\<^verbatim>\<open>while (c->used != 56) sha1_update(c, &zero, 1)\<close>: at most 63 rounds reach 56.\<close>

fun sha1_pad_zeros :: "nat \<Rightarrow> sha1_ctx \<Rightarrow> sha1_ctx option" where
  "sha1_pad_zeros 0 c = (if sh_used c = 56 then Some c else None)"
| "sha1_pad_zeros (Suc fuel) c =
     (if sh_used c = 56 then Some c else sha1_pad_zeros fuel (sha1_update c [0]))"

definition be_put64 :: "u64 \<Rightarrow> bytes" where
  "be_put64 v = map (\<lambda>i. ucast (drop_bit (8 * (7 - i)) v)) [0..<8]"

definition sha1_out :: "u32 list \<Rightarrow> bytes" where
  "sha1_out h = concat (map (\<lambda>i.
     [ucast (drop_bit 24 (h ! i)), ucast (drop_bit 16 (h ! i)), ucast (drop_bit 8 (h ! i)),
      ucast (h ! i)]) [0..<5])"

definition sha1_final :: "sha1_ctx \<Rightarrow> bytes option" where
  "sha1_final c =
     (let bits = sh_bytes c * 8;
          c1 = sha1_update c [0x80]
      in case sha1_pad_zeros 63 c1 of
           None \<Rightarrow> None
         | Some c2 \<Rightarrow> Some (sha1_out (sh_h (sha1_update c2 (be_put64 bits)))))"

definition hex_digit :: "u8 \<Rightarrow> u8" where
  "hex_digit n = str ''0123456789abcdef'' ! unat n"

definition hex20 :: "bytes \<Rightarrow> bytes" where
  "hex20 b = concat (map (\<lambda>c. [hex_digit (drop_bit 4 c), hex_digit (c AND 15)]) b)"

text \<open>The block of a fresh context is uninitialised stack memory: any 64 bytes.\<close>

definition q36_kvstore_sha1_bytes_hex :: "bytes \<Rightarrow> bytes" where
  "q36_kvstore_sha1_bytes_hex m =
     (case sha1_final (sha1_update (sha1_init (replicate 64 0)) m) of
        None \<Rightarrow> [] | Some digest \<Rightarrow> hex20 digest)"

section \<open>One-shot SHA-1\<close>

fun sha1_blocks :: "u32 list \<Rightarrow> bytes \<Rightarrow> u32 list" where
  "sha1_blocks h xs =
     (if length xs < 64 then h else sha1_blocks (sha1_transform h (take 64 xs)) (drop 64 xs))"

declare sha1_blocks.simps [simp del]

definition sha1_pad :: "bytes \<Rightarrow> bytes" where
  "sha1_pad m = m @ [0x80] @ replicate ((119 - length m mod 64) mod 64) 0 @
     be_put64 (word_of_nat (length m) * 8)"

section \<open>The streaming context refines it\<close>

definition sha1_pend :: "sha1_ctx \<Rightarrow> bytes" where
  "sha1_pend c = take (sh_used c) (sh_block c)"

definition sha1_ok :: "sha1_ctx \<Rightarrow> bool" where
  "sha1_ok c \<longleftrightarrow> sh_used c < 64 \<and> length (sh_block c) = 64"

definition sha1_tail :: "bytes \<Rightarrow> bytes" where
  "sha1_tail xs = drop (64 * (length xs div 64)) xs"

lemma sha1_blocks_short [simp]: "length xs < 64 \<Longrightarrow> sha1_blocks h xs = h"
  by (simp add: sha1_blocks.simps)

lemma sha1_blocks_step:
  "length b = 64 \<Longrightarrow> sha1_blocks h (b @ xs) = sha1_blocks (sha1_transform h b) xs"
  by (subst sha1_blocks.simps) simp

lemma sha1_tail_short [simp]: "length xs < 64 \<Longrightarrow> sha1_tail xs = xs"
  by (simp add: sha1_tail_def)

lemma sha1_tail_step: "length b = 64 \<Longrightarrow> sha1_tail (b @ xs) = sha1_tail xs"
  by (simp add: sha1_tail_def div_add_self1 distrib_left)

lemma sha1_feed_Nil [simp]: "sha1_feed c [] = c"
  by (simp add: sha1_feed.simps)

lemma length_sha1_tail [simp]: "length (sha1_tail xs) = length xs mod 64"
  by (simp add: sha1_tail_def minus_mult_div_eq_mod)

lemma length_sha1_pend [simp]: "sha1_ok c \<Longrightarrow> length (sha1_pend c) = sh_used c"
  by (simp add: sha1_pend_def sha1_ok_def)

lemma sha1_feed_refines:
  "sha1_ok c \<Longrightarrow>
     sha1_ok (sha1_feed c p) \<and> sh_bytes (sha1_feed c p) = sh_bytes c \<and>
     sh_h (sha1_feed c p) = sha1_blocks (sh_h c) (sha1_pend c @ p) \<and>
     sha1_pend (sha1_feed c p) = sha1_tail (sha1_pend c @ p)"
proof (induction c p rule: sha1_feed.induct)
  case (1 c p)
  show ?case
  proof (cases "p = []")
    case True
    with "1.prems" show ?thesis
      by (simp add: sha1_ok_def)
  next
    case False
    let ?u = "sh_used c"
    let ?n = "min (64 - ?u) (length p)"
    let ?c1 = "c\<lparr>sh_block := poke ?u (take ?n p) (sh_block c), sh_used := ?u + ?n\<rparr>"
    let ?c2 = "if sh_used ?c1 = 64
       then ?c1\<lparr>sh_h := sha1_transform (sh_h ?c1) (sh_block ?c1), sh_used := 0\<rparr> else ?c1"
    from "1.prems" have u: "?u < 64" and len: "length (sh_block c) = 64"
      by (simp_all add: sha1_ok_def)
    then have guard: "\<not> (p = [] \<or> 64 \<le> ?u)" using False by simp
    then have feed: "sha1_feed c p = sha1_feed ?c2 (drop ?n p)"
      by (simp add: sha1_feed.simps [of c p] Let_def)
    have blk: "sh_block ?c1 = sha1_pend c @ take ?n p @ drop (?u + ?n) (sh_block c)"
      using u by (simp add: poke_def sha1_pend_def)
    have ok2: "sha1_ok ?c2"
      using u len by (auto simp: sha1_ok_def)
    have IH: "sha1_ok (sha1_feed ?c2 (drop ?n p)) \<and>
       sh_bytes (sha1_feed ?c2 (drop ?n p)) = sh_bytes ?c2 \<and>
       sh_h (sha1_feed ?c2 (drop ?n p)) = sha1_blocks (sh_h ?c2) (sha1_pend ?c2 @ drop ?n p) \<and>
       sha1_pend (sha1_feed ?c2 (drop ?n p)) = sha1_tail (sha1_pend ?c2 @ drop ?n p)"
      by (rule "1.IH" [OF guard refl refl refl ok2])
    show ?thesis
    proof (cases "sh_used ?c1 = 64")
      case True
      then have n: "?n = 64 - ?u" using u by simp
      let ?b = "sha1_pend c @ take ?n p"
      have full: "length ?b = 64"
        using "1.prems" n True u by simp
      have c2: "?c2 = ?c1\<lparr>sh_h := sha1_transform (sh_h c) ?b, sh_used := 0\<rparr>"
        using blk True len by simp
      have p: "sha1_pend c @ p = ?b @ drop ?n p" by simp
      show ?thesis
        unfolding feed p sha1_blocks_step [OF full] sha1_tail_step [OF full]
        using IH unfolding c2 by (simp add: sha1_pend_def)
    next
      case no: False
      then have short: "length p < 64 - ?u" and n: "?n = length p" using u by auto
      have "sha1_pend ?c2 = sha1_pend c @ p"
        using no n blk u len "1.prems" by (simp add: sha1_pend_def)
      with IH no n show ?thesis
        unfolding feed by simp
    qed
  qed
qed

lemma sha1_update_refines:
  assumes "sha1_ok c"
  shows "sha1_ok (sha1_update c p)"
    and "sh_bytes (sha1_update c p) = sh_bytes c + word_of_nat (length p)"
    and "sh_h (sha1_update c p) = sha1_blocks (sh_h c) (sha1_pend c @ p)"
    and "sha1_pend (sha1_update c p) = sha1_tail (sha1_pend c @ p)"
  using assms sha1_feed_refines [of "c\<lparr>sh_bytes := sh_bytes c + word_of_nat (length p)\<rparr>" p]
  by (simp_all add: sha1_update_def sha1_ok_def sha1_pend_def)

text \<open>How many zero bytes are still missing when \<open>u\<close> bytes of the block are used.\<close>

lemma pad_count: "u < 64 \<Longrightarrow> (120 - u) mod 64 = (if u \<le> 56 then 56 - u else 120 - u :: nat)"
proof -
  assume "u < 64"
  show ?thesis
  proof (cases "u \<le> 56")
    case True
    then have "120 - u = 64 + (56 - u)" by simp
    with True show ?thesis by (simp only: mod_add_self1) simp
  qed simp
qed

lemma wrap_count: "u < 64 \<Longrightarrow> Suc u mod 64 = (if u = 63 then 0 else Suc u)"
  by simp

lemma pad_count_step:
  assumes "u < 64" "u \<noteq> 56"
  shows "(120 - u) mod 64 = Suc ((120 - Suc u mod 64) mod (64 :: nat))"
proof (cases "u = 63")
  case False
  with assms(1) have u: "Suc u < 64" by simp
  then have "Suc u mod 64 = Suc u" by simp
  moreover have "(if u \<le> 56 then 56 - u else 120 - u)
      = Suc (if Suc u \<le> 56 then 56 - Suc u else 120 - Suc u)"
    using assms u by auto
  ultimately show ?thesis by (simp only: pad_count [OF assms(1)] pad_count [OF u])
qed simp

lemma pad_count_message: "(120 - Suc n mod 64) mod 64 = (119 - n mod 64) mod (64 :: nat)"
proof -
  define r where "r = n mod 64"
  have r: "r < 64" "Suc n mod 64 = Suc r mod 64"
    by (simp_all add: r_def mod_simps)
  show ?thesis
  proof (cases "r = 63")
    case True
    then show ?thesis by (simp add: r(2) flip: r_def)
  next
    case False
    with r(1) have "Suc r mod 64 = Suc r" by simp
    then show ?thesis by (simp add: r(2) flip: r_def)
  qed
qed

lemma pad_count_total: "64 dvd n + 9 + (119 - n mod 64) mod (64 :: nat)"
proof -
  define r where "r = n mod 64"
  have r: "r < 64" "n = 64 * (n div 64) + r"
    by (simp_all add: r_def)
  have "64 dvd r + 9 + (119 - r) mod 64"
  proof (cases "r \<le> 55")
    case True
    then have "(119 - r) mod 64 = 55 - r"
      using pad_count [of "Suc r"] by simp
    with True have "r + 9 + (119 - r) mod 64 = 64" by linarith
    then show ?thesis by (simp only: dvd_refl)
  next
    case False
    with r(1) have "r + 9 + (119 - r) mod 64 = 128" by simp
    moreover have "(64 :: nat) dvd 128" by simp
    ultimately show ?thesis by (simp only:)
  qed
  then have "64 dvd 64 * (n div 64) + (r + 9 + (119 - r) mod 64)" by (rule dvd_add [OF dvd_triv_left])
  then show ?thesis
    unfolding r_def by (simp add: add.assoc [symmetric])
qed

text \<open>The zero padding reaches 56 bytes within its 63 rounds, whatever the starting point.\<close>

lemma sha1_tail_snoc: "sha1_tail (sha1_tail xs @ ys) = sha1_tail (xs @ ys)"
proof -
  let ?k = "64 * (length xs div 64)"
  have "xs @ ys = take ?k xs @ sha1_tail xs @ ys"
    by (simp add: sha1_tail_def)
  moreover have "length (take ?k xs) = ?k"
    by (simp add: times_div_less_eq_dividend)
  then have "sha1_tail (take ?k xs @ zs) = sha1_tail zs" for zs
    by (simp add: sha1_tail_def distrib_left)
  ultimately show ?thesis by metis
qed

lemma sha1_blocks_append:
  "sha1_blocks h (xs @ ys) = sha1_blocks (sha1_blocks h xs) (sha1_tail xs @ ys)"
proof (induction h xs rule: sha1_blocks.induct)
  case (1 h xs)
  show ?case
  proof (cases "length xs < 64")
    case False
    then have split: "xs = take 64 xs @ drop 64 xs" and len: "length (take 64 xs) = 64" by simp_all
    have "sha1_blocks h (xs @ ys) = sha1_blocks (sha1_transform h (take 64 xs)) (drop 64 xs @ ys)"
      by (subst split) (simp only: append_assoc sha1_blocks_step [OF len])
    also have "\<dots> = sha1_blocks (sha1_blocks (sha1_transform h (take 64 xs)) (drop 64 xs))
        (sha1_tail (drop 64 xs) @ ys)"
      using "1.IH" False by blast
    also have "sha1_blocks (sha1_transform h (take 64 xs)) (drop 64 xs) = sha1_blocks h xs"
      using False by (simp add: sha1_blocks.simps [of h xs])
    also have "sha1_tail (drop 64 xs) = sha1_tail xs"
      using sha1_tail_step [OF len, of "drop 64 xs"] by simp
    finally show ?thesis .
  qed simp
qed

lemma sha1_used_pend: "sha1_ok c \<Longrightarrow> sh_used c = length (sha1_pend c)"
  by simp

lemma sha1_update_cat:
  assumes "sha1_ok c"
  shows "sh_h (sha1_update (sha1_update c p) q) = sh_h (sha1_update c (p @ q))"
    and "sha1_pend (sha1_update (sha1_update c p) q) = sha1_pend (sha1_update c (p @ q))"
    and "sh_bytes (sha1_update (sha1_update c p) q) = sh_bytes (sha1_update c (p @ q))"
  using assms
  by (simp_all add: sha1_update_refines sha1_blocks_append [of _ "sha1_pend c @ p" q, simplified]
      sha1_tail_snoc)

lemma sha1_pad_zeros_reaches:
  assumes "sha1_ok c" "(120 - sh_used c) mod 64 \<le> fuel"
  shows "\<exists>c'. sha1_pad_zeros fuel c = Some c' \<and> sha1_ok c' \<and>
     sh_h c' = sha1_blocks (sh_h c) (sha1_pend c @ replicate ((120 - sh_used c) mod 64) 0) \<and>
     sha1_pend c' = sha1_tail (sha1_pend c @ replicate ((120 - sh_used c) mod 64) 0)"
  using assms
proof (induction fuel arbitrary: c)
  case 0
  then have "sh_used c < 64" "(120 - sh_used c) mod 64 = 0" by (simp_all add: sha1_ok_def)
  then have "sh_used c = 56" by (auto simp: pad_count split: if_splits)
  with 0 show ?case by simp
next
  case (Suc fuel)
  show ?case
  proof (cases "sh_used c = 56")
    case True
    with Suc.prems show ?thesis by simp
  next
    case False
    let ?c = "sha1_update c [0]"
    have u: "sh_used c < 64" using Suc.prems by (simp add: sha1_ok_def)
    have ok: "sha1_ok ?c" using Suc.prems by (simp add: sha1_update_refines)
    have used: "sh_used ?c = Suc (sh_used c) mod 64"
      unfolding sha1_used_pend [OF ok] sha1_update_refines(4) [OF Suc.prems(1)]
      using Suc.prems(1) by simp
    define z where "z = (120 - sh_used ?c) mod 64"
    have z: "(120 - sh_used c) mod 64 = Suc z"
      unfolding z_def used by (rule pad_count_step [OF u False])
    have "(120 - sh_used ?c) mod 64 \<le> fuel"
      using Suc.prems(2) unfolding z z_def [symmetric] by (simp only: Suc_le_mono)
    from Suc.IH [OF ok this] obtain c' where c': "sha1_pad_zeros fuel ?c = Some c'" "sha1_ok c'"
      "sh_h c' = sha1_blocks (sh_h ?c) (sha1_pend ?c @ replicate z 0)"
      "sha1_pend c' = sha1_tail (sha1_pend ?c @ replicate z 0)"
      unfolding z_def [symmetric] by (elim exE conjE) (rule that)
    have "sha1_blocks (sh_h ?c) (sha1_pend ?c @ replicate z 0)
        = sha1_blocks (sh_h c) (sha1_pend c @ replicate (Suc z) 0)"
      using sha1_blocks_append [of "sh_h c" "sha1_pend c @ [0]" "replicate z 0"] Suc.prems
      by (simp add: sha1_update_refines)
    moreover have "sha1_tail (sha1_pend ?c @ replicate z 0)
        = sha1_tail (sha1_pend c @ replicate (Suc z) 0)"
      using sha1_tail_snoc [of "sha1_pend c @ [0]" "replicate z 0"] Suc.prems
      by (simp add: sha1_update_refines)
    ultimately show ?thesis
      using c' z False by simp
  qed
qed

lemma sha1_ok_init: "length block = 64 \<Longrightarrow> sha1_ok (sha1_init block)"
  by (simp add: sha1_ok_def sha1_init_def)

lemma length_be_put64 [simp]: "length (be_put64 v) = 8"
  by (simp add: be_put64_def)

lemma sha1_final_refines:
  assumes ok: "sha1_ok c" and h: "sh_h c = sha1_blocks sha1_iv m" and pend: "sha1_pend c = sha1_tail m"
    and bytes: "sh_bytes c = word_of_nat (length m)"
  shows "sha1_final c = Some (sha1_out (sha1_blocks sha1_iv (sha1_pad m)))"
proof -
  let ?c1 = "sha1_update c [0x80]"
  let ?z = "(120 - sh_used ?c1) mod 64"
  have ok1: "sha1_ok ?c1" using ok by (simp add: sha1_update_refines)
  have "sh_used ?c1 = Suc (length m) mod 64"
    unfolding sha1_used_pend [OF ok1] sha1_update_refines(4) [OF ok] pend
    by (simp add: mod_simps)
  then have z: "?z = (119 - length m mod 64) mod 64" by (simp only: pad_count_message)
  have "?z \<le> 63" using mod_less_divisor [of 64 "120 - sh_used ?c1"] by linarith
  from sha1_pad_zeros_reaches [OF ok1 this] obtain c2 where
    c2: "sha1_pad_zeros 63 ?c1 = Some c2" "sha1_ok c2"
      "sh_h c2 = sha1_blocks (sh_h ?c1) (sha1_pend ?c1 @ replicate ?z 0)"
      "sha1_pend c2 = sha1_tail (sha1_pend ?c1 @ replicate ?z 0)" by blast
  let ?bits = "word_of_nat (length m) * 8 :: u64"
  have h1: "sh_h ?c1 = sha1_blocks sha1_iv (m @ [0x80])" "sha1_pend ?c1 = sha1_tail (m @ [0x80])"
    using ok h pend by (simp_all add: sha1_update_refines sha1_tail_snoc
        sha1_blocks_append [of sha1_iv m "[0x80]"])
  have h2: "sh_h c2 = sha1_blocks sha1_iv ((m @ [0x80]) @ replicate ?z 0)"
      "sha1_pend c2 = sha1_tail ((m @ [0x80]) @ replicate ?z 0)"
    unfolding c2(3,4) h1 sha1_tail_snoc sha1_blocks_append [of sha1_iv "m @ [0x80]"] by simp_all
  have "sh_h (sha1_update c2 (be_put64 ?bits))
      = sha1_blocks sha1_iv (((m @ [0x80]) @ replicate ?z 0) @ be_put64 ?bits)"
    unfolding sha1_blocks_append [of sha1_iv "(m @ [0x80]) @ replicate ?z 0"]
    using c2(2) h2 by (simp add: sha1_update_refines)
  with c2(1) bytes z show ?thesis
    by (simp add: sha1_final_def sha1_pad_def)
qed

lemma length_sha1_pad: "64 dvd length (sha1_pad m)"
proof -
  have "length (sha1_pad m) = length m + 9 + (119 - length m mod 64) mod 64"
    by (simp add: sha1_pad_def)
  then show ?thesis by (simp only: pad_count_total)
qed

lemma sha1_hex_one_shot:
  "q36_kvstore_sha1_bytes_hex m = hex20 (sha1_out (sha1_blocks sha1_iv (sha1_pad m)))"
proof -
  let ?c = "sha1_init (replicate 64 0)"
  have ok: "sha1_ok ?c" by (simp add: sha1_ok_init)
  have init: "sh_h ?c = sha1_iv" "sha1_pend ?c = []" "sh_bytes ?c = 0"
    by (simp_all add: sha1_init_def sha1_pend_def)
  have "sha1_final (sha1_update ?c m) = Some (sha1_out (sha1_blocks sha1_iv (sha1_pad m)))"
    by (rule sha1_final_refines) (simp_all add: sha1_update_refines [OF ok] init)
  then show ?thesis by (simp add: q36_kvstore_sha1_bytes_hex_def)
qed

lemma length_hex20 [simp]: "length (hex20 b) = 2 * length b"
  by (induction b) (simp_all add: hex20_def)

lemma length_sha1_hex [simp]: "length (q36_kvstore_sha1_bytes_hex m) = 40"
  by (simp add: sha1_hex_one_shot sha1_out_def upt_rec)

lemma sha1_fold_refines:
  assumes "length block = 64"
  defines "c \<equiv> \<lambda>ps. foldl sha1_update (sha1_init block) ps"
  shows "sha1_ok (c ps) \<and> sh_h (c ps) = sha1_blocks sha1_iv (concat ps) \<and>
    sha1_pend (c ps) = sha1_tail (concat ps) \<and> sh_bytes (c ps) = word_of_nat (length (concat ps))"
proof (induction ps rule: rev_induct)
  case Nil
  then show ?case
    using assms by (simp add: c_def sha1_ok_init) (simp add: sha1_init_def sha1_pend_def)
next
  case (snoc p ps)
  then have ok: "sha1_ok (c ps)" by simp
  have "c (ps @ [p]) = sha1_update (c ps) p" by (simp add: c_def)
  with snoc show ?case
    by (simp add: sha1_update_refines [OF ok] sha1_tail_snoc sha1_blocks_append [of sha1_iv "concat ps" p])
qed

text \<open>
  C7. The streaming hash is SHA-1 of the whole message: however a message is split over
  \<^verbatim>\<open>sha1_update\<close> calls, and whatever the uninitialised block of the fresh context holds,
  \<^verbatim>\<open>sha1_final\<close> terminates with the digest of the padded message processed block by block.
\<close>

theorem sha1_streamed:
  assumes "length block = 64"
  shows "sha1_final (foldl sha1_update (sha1_init block) pieces)
    = Some (sha1_out (sha1_blocks sha1_iv (sha1_pad (concat pieces))))"
  using sha1_final_refines sha1_fold_refines [OF assms, of pieces] by blast

theorem sha1_streamed_witness:
  "sha1_final (foldl sha1_update (sha1_init (replicate 64 7)) [str ''a'', [], str ''bc''])
    = Some (sha1_out (sha1_blocks sha1_iv (sha1_pad (str ''abc''))))"
  using sha1_streamed [of "replicate 64 7" "[str ''a'', [], str ''bc'']"] by (simp add: str_def)

end
