(* ===== verification/Kv_Format.thy ===== *)
theory Kv_Format
  imports Kv_Sha1
begin

text \<open>
  The on-disk checkpoint format of \<^verbatim>\<open>q36_kvstore.c\<close>: the 48-byte header and the text length
  behind it, the file names derived from the SHA-1 of the rendered text, the save reasons, and
  the size arithmetic that decides whether a file fits the budget.
\<close>

section \<open>Reasons, flags and quantisation widths\<close>

datatype q36_kvstore_reason =
    REASON_UNKNOWN | REASON_COLD | REASON_CONTINUED | REASON_EVICT | REASON_SHUTDOWN
  | REASON_AGENT_SYSTEM | REASON_AGENT_SESSION

fun reason_byte :: "q36_kvstore_reason \<Rightarrow> u8" where
  "reason_byte REASON_UNKNOWN = 0"
| "reason_byte REASON_COLD = 1"
| "reason_byte REASON_CONTINUED = 2"
| "reason_byte REASON_EVICT = 3"
| "reason_byte REASON_SHUTDOWN = 4"
| "reason_byte REASON_AGENT_SYSTEM = 5"
| "reason_byte REASON_AGENT_SESSION = 6"

definition q36_kvstore_reason_code :: "bytes option \<Rightarrow> u8" where
  "q36_kvstore_reason_code reason = reason_byte
     (case reason of None \<Rightarrow> REASON_UNKNOWN
      | Some r \<Rightarrow>
          if r = str ''cold'' then REASON_COLD
          else if r = str ''continued'' then REASON_CONTINUED
          else if r = str ''evict'' then REASON_EVICT
          else if r = str ''shutdown'' then REASON_SHUTDOWN
          else if r = str ''agent-system'' then REASON_AGENT_SYSTEM
          else if r = str ''agent-session'' then REASON_AGENT_SESSION
          else REASON_UNKNOWN)"

definition EXT_TOOL_MAP :: u8 where "EXT_TOOL_MAP = push_bit 0 1"
definition EXT_RESPONSES_VISIBLE :: u8 where "EXT_RESPONSES_VISIBLE = push_bit 1 1"
definition EXT_THINKING_VISIBLE :: u8 where "EXT_THINKING_VISIBLE = push_bit 2 1"
definition EXT_SESSION_TITLE :: u8 where "EXT_SESSION_TITLE = push_bit 3 1"

definition q36_kvstore_key_kind :: "u8 \<Rightarrow> bytes" where
  "q36_kvstore_key_kind ext_flags =
     (if ext_flags AND EXT_RESPONSES_VISIBLE \<noteq> 0 then str ''responses-visible''
      else if ext_flags AND EXT_THINKING_VISIBLE \<noteq> 0 then str ''thinking-visible''
      else str ''token-text'')"

definition q36_kvstore_quant_bits_valid :: "int \<Rightarrow> bool" where
  "q36_kvstore_quant_bits_valid q \<longleftrightarrow> q \<in> {1, 2, 3, 4, 5, 6, 8}"

section \<open>The entry and the header\<close>

record q36_kvstore_entry =
  e_sha :: bytes
  e_path :: bytes
  e_quant_bits :: u8
  e_model_id :: u8
  e_reason :: u8
  e_tokens :: u32
  e_hits :: u32
  e_ctx_size :: u32
  e_ext_flags :: u8
  e_created_at :: u64
  e_last_used :: u64
  e_payload_bytes :: u64
  e_text_bytes :: u64
  e_file_size :: u64

definition kv_entry0 :: q36_kvstore_entry where
  "kv_entry0 = \<lparr>e_sha = [], e_path = [], e_quant_bits = 0, e_model_id = 0, e_reason = 0,
     e_tokens = 0, e_hits = 0, e_ctx_size = 0, e_ext_flags = 0, e_created_at = 0,
     e_last_used = 0, e_payload_bytes = 0, e_text_bytes = 0, e_file_size = 0\<rparr>"

definition KV_HEADER :: nat where "KV_HEADER = 48"
definition KV_CACHE_VERSION :: u8 where "KV_CACHE_VERSION = 1"
definition KV_CACHE_PAYLOAD_ABI :: u8 where "KV_CACHE_PAYLOAD_ABI = 2"

definition q36_kvstore_fill_header ::
  "u8 \<Rightarrow> u8 \<Rightarrow> u8 \<Rightarrow> u8 \<Rightarrow> u32 \<Rightarrow> u32 \<Rightarrow> u32 \<Rightarrow> u64 \<Rightarrow> u64 \<Rightarrow> u64 \<Rightarrow> bytes" where
  "q36_kvstore_fill_header model_id quant_bits reason ext_flags tokens hits ctx_size
     created_at last_used payload_bytes =
     (let h = replicate KV_HEADER 0;
          h = poke 0 (str ''KVC'' @ [KV_CACHE_VERSION]) h;
          h = poke 4 [quant_bits, reason, ext_flags, model_id] h;
          h = poke 8 (le_put32 tokens) h;
          h = poke 12 (le_put32 hits) h;
          h = poke 16 (le_put32 ctx_size) h;
          h = poke 20 [KV_CACHE_PAYLOAD_ABI] h;
          h = poke 24 (le_put64 created_at) h;
          h = poke 32 (le_put64 last_used) h
      in poke 40 (le_put64 payload_bytes) h)"

text \<open>
  \<^verbatim>\<open>fread(buf, 1, n, fp) == n\<close>: the stream is the bytes from the file position on.
\<close>

definition fread :: "nat \<Rightarrow> bytes \<Rightarrow> (bytes \<times> bytes) option" where
  "fread n fp = (if n \<le> length fp then Some (take n fp, drop n fp) else None)"

definition q36_kvstore_read_header ::
  "bytes \<Rightarrow> q36_kvstore_entry \<Rightarrow> (q36_kvstore_entry \<times> u32 \<times> bytes) option" where
  "q36_kvstore_read_header fp e =
     (case fread KV_HEADER fp of None \<Rightarrow> None
      | Some (h, fp1) \<Rightarrow>
          if take 4 h \<noteq> str ''KVC'' @ [KV_CACHE_VERSION] then None
          else if h ! 20 \<noteq> KV_CACHE_PAYLOAD_ABI then None
          else
            (case fread 4 fp1 of None \<Rightarrow> None
             | Some (tb, fp2) \<Rightarrow>
                 let e' = e\<lparr>e_quant_bits := h ! 4,
                            e_reason := (if h ! 5 \<le> reason_byte REASON_AGENT_SESSION then h ! 5
                                         else reason_byte REASON_UNKNOWN),
                            e_ext_flags := h ! 6, e_model_id := h ! 7,
                            e_tokens := le_get32 (drop 8 h), e_hits := le_get32 (drop 12 h),
                            e_ctx_size := le_get32 (drop 16 h),
                            e_created_at := le_get64 (drop 24 h),
                            e_last_used := le_get64 (drop 32 h),
                            e_payload_bytes := le_get64 (drop 40 h),
                            e_text_bytes := ucast (le_get32 tb)\<rparr>
                 in if e_tokens e' \<noteq> 0 \<and> q36_kvstore_quant_bits_valid (uint (e_quant_bits e'))
                    then Some (e', le_get32 tb, fp2) else None))"

section \<open>File names\<close>

definition q36_kvstore_sha_hex_name :: "bytes \<Rightarrow> bytes option" where
  "q36_kvstore_sha_hex_name name =
     (if length name \<noteq> 43 \<or> drop 40 name \<noteq> str ''.kv'' then None
      else if \<not> (\<forall>c \<in> set (take 40 name). isxdigit c) then None
      else Some (map tolower (take 40 name)))"

definition q36_kvstore_path_join :: "bytes \<Rightarrow> bytes \<Rightarrow> bytes" where
  "q36_kvstore_path_join dir name =
     dir @ (if dir = [] \<or> last dir \<noteq> 0x2F then [0x2F] else []) @ name"

definition q36_kvstore_path_for_sha :: "bytes \<Rightarrow> bytes \<Rightarrow> bytes" where
  "q36_kvstore_path_for_sha dir sha = q36_kvstore_path_join dir (take 40 sha @ str ''.kv'')"

section \<open>Sizes\<close>

definition kv_cache_file_size_bytes :: "u64 \<Rightarrow> u64 \<Rightarrow> u64 \<Rightarrow> u64 option" where
  "kv_cache_file_size_bytes text_bytes payload_bytes trailer_bytes =
     (let fixed = 48 + 4
      in if - 1 - fixed < text_bytes \<or> - 1 - fixed - text_bytes < payload_bytes \<or>
            - 1 - fixed - text_bytes - payload_bytes < trailer_bytes
         then None else Some (fixed + text_bytes + payload_bytes + trailer_bytes))"

definition kv_cache_budget_required :: "u64 \<Rightarrow> u64 option" where
  "kv_cache_budget_required file_bytes =
     (let slack = file_bytes div 100 + (if file_bytes mod 100 \<noteq> 0 then 1 else 0)
      in if - 1 - file_bytes < slack then None else Some (file_bytes + slack))"

text \<open>
  The result with the two out-parameters, which the callers set to 0 before the call.  The
  budget argument is \<^verbatim>\<open>kc->budget_bytes\<close>.
\<close>

definition q36_kvstore_file_size_fits ::
  "u64 \<Rightarrow> u64 \<Rightarrow> u64 \<Rightarrow> u64 \<Rightarrow> bool \<times> u64 \<times> u64" where
  "q36_kvstore_file_size_fits budget text_bytes payload_bytes trailer_bytes =
     (case kv_cache_file_size_bytes text_bytes payload_bytes trailer_bytes of
        None \<Rightarrow> (False, 0, 0)
      | Some file_bytes \<Rightarrow>
          if budget = 0 then (True, file_bytes, 0)
          else (case kv_cache_budget_required file_bytes of
                  None \<Rightarrow> (False, file_bytes, 0)
                | Some required \<Rightarrow> (required \<le> budget, file_bytes, required)))"

section \<open>The header is a codec\<close>

definition kv_header_layout ::
  "u8 \<Rightarrow> u8 \<Rightarrow> u8 \<Rightarrow> u8 \<Rightarrow> u32 \<Rightarrow> u32 \<Rightarrow> u32 \<Rightarrow> u64 \<Rightarrow> u64 \<Rightarrow> u64 \<Rightarrow> bytes" where
  "kv_header_layout model_id quant_bits reason ext_flags tokens hits ctx_size
     created_at last_used payload_bytes =
     (str ''KVC'' @ [KV_CACHE_VERSION]) @ [quant_bits, reason, ext_flags, model_id] @
     le_put32 tokens @ le_put32 hits @ le_put32 ctx_size @ [KV_CACHE_PAYLOAD_ABI] @ [0, 0, 0] @
     le_put64 created_at @ le_put64 last_used @ le_put64 payload_bytes"

text \<open>A write right behind what has been filled so far extends the filled part.\<close>

lemma poke_next:
  "length a = off \<Longrightarrow> poke off bs (a @ replicate n 0) = (a @ bs) @ replicate (n - length bs) 0"
  by (simp add: poke_def)

lemma replicate_skip: "n \<ge> k \<Longrightarrow> a @ replicate n 0 = (a @ replicate k 0) @ replicate (n - k) 0"
  by (simp flip: replicate_add)

lemma fill_header_layout:
  "q36_kvstore_fill_header m q r x t h c cr lu pb = kv_header_layout m q r x t h c cr lu pb"
proof -
  note [simp] = le32.length_put le64.length_put
  let ?a = "str ''KVC'' @ [KV_CACHE_VERSION]"
  have 0: "poke 0 ?a (replicate 48 0) = ?a @ replicate 44 0"
    by (simp add: poke_def)
  have skip: "a @ replicate 27 0 = (a @ [0, 0, 0]) @ replicate 24 (0 :: u8)" for a
    using replicate_skip [of 3 27 a] by (simp add: numeral_eq_Suc)
  show ?thesis
    unfolding q36_kvstore_fill_header_def KV_HEADER_def Let_def 0
    by (simp add: poke_next skip kv_header_layout_def del: append_assoc)
qed

lemma length_fill_header [simp]: "length (q36_kvstore_fill_header m q r x t h c cr lu pb) = 48"
  by (simp add: fill_header_layout kv_header_layout_def codec_simps)

text \<open>What the header says, with an out-of-range reason read as unknown.\<close>

definition kv_header_entry ::
  "u8 \<Rightarrow> u8 \<Rightarrow> u8 \<Rightarrow> u8 \<Rightarrow> u32 \<Rightarrow> u32 \<Rightarrow> u32 \<Rightarrow> u64 \<Rightarrow> u64 \<Rightarrow> u64 \<Rightarrow> u32 \<Rightarrow>
   q36_kvstore_entry \<Rightarrow> q36_kvstore_entry" where
  "kv_header_entry m q r x t h c cr lu pb tb e =
     e\<lparr>e_quant_bits := q, e_reason := (if r \<le> 6 then r else 0), e_ext_flags := x,
       e_model_id := m, e_tokens := t, e_hits := h, e_ctx_size := c, e_created_at := cr,
       e_last_used := lu, e_payload_bytes := pb, e_text_bytes := ucast tb\<rparr>"

lemma read_fill_header:
  "q36_kvstore_read_header
     (q36_kvstore_fill_header m q r x t h c cr lu pb @ le_put32 tb @ rest) e =
   (if t \<noteq> 0 \<and> q36_kvstore_quant_bits_valid (uint q)
    then Some (kv_header_entry m q r x t h c cr lu pb tb e, tb, rest) else None)"
proof -
  let ?h = "q36_kvstore_fill_header m q r x t h c cr lu pb"
  note [simp] = le32.length_put le64.length_put
  have h: "?h = (str ''KVC'' @ [KV_CACHE_VERSION]) @ [q, r, x, m] @
     le_put32 t @ le_put32 h @ le_put32 c @ [KV_CACHE_PAYLOAD_ABI] @ [0, 0, 0] @
     le_put64 cr @ le_put64 lu @ le_put64 pb"
    by (simp only: fill_header_layout kv_header_layout_def)
  have fields: "take 4 ?h = str ''KVC'' @ [KV_CACHE_VERSION]" "?h ! 20 = KV_CACHE_PAYLOAD_ABI"
    "?h ! 4 = q" "?h ! 5 = r" "?h ! 6 = x" "?h ! 7 = m"
    "le_get32 (drop 8 ?h) = t" "le_get32 (drop 12 ?h) = h" "le_get32 (drop 16 ?h) = c"
    "le_get64 (drop 24 ?h) = cr" "le_get64 (drop 32 ?h) = lu" "le_get64 (drop 40 ?h) = pb"
    unfolding h by (simp_all add: nth_append le32.get_put le64.get_put le64.get_put_alone)
  have fread: "fread KV_HEADER (?h @ z) = Some (?h, z)" for z
    by (simp add: fread_def KV_HEADER_def)
  have fread4: "fread 4 (le_put32 tb @ rest) = Some (le_put32 tb, rest)"
    by (simp add: fread_def)
  show ?thesis
    unfolding q36_kvstore_read_header_def fread option.case prod.case fields fread4 Let_def
    by (simp add: kv_header_entry_def le32.get_put_alone)
qed

section \<open>Sizes over the naturals\<close>

lemma file_size_bytes_nat:
  "kv_cache_file_size_bytes t p r =
     (if 52 + unat t + unat p + unat r < 2 ^ 64 then Some (52 + t + p + r) else None)"
proof -
  have 1: "- 1 - (48 + 4) < t \<longleftrightarrow> 2 ^ 64 \<le> 52 + unat t"
    using max_sub_less_iff [of "48 + 4" t] by simp
  have e: "- 1 - (48 + 4) - t = - 1 - (52 + t)" "- 1 - (48 + 4) - t - p = - 1 - (52 + t + p)"
    by (simp_all add: algebra_simps)
  have 2: "- 1 - (48 + 4) - t < p \<longleftrightarrow> 2 ^ 64 \<le> 52 + unat t + unat p" if "52 + unat t < 2 ^ 64"
    using that unat_add_no_overflow [of 52 t] unfolding e max_sub_less_iff by simp
  have 3: "- 1 - (48 + 4) - t - p < r \<longleftrightarrow> 2 ^ 64 \<le> 52 + unat t + unat p + unat r"
    if "52 + unat t + unat p < 2 ^ 64"
    using that unat_add_no_overflow [of 52 t] unat_add_no_overflow [of "52 + t" p]
    unfolding e(2) max_sub_less_iff by simp
  show ?thesis
    unfolding kv_cache_file_size_bytes_def Let_def using 1 2 3 by auto
qed

lemma file_size_bytes_Some:
  "kv_cache_file_size_bytes t p r = Some n \<Longrightarrow> unat n = 52 + unat t + unat p + unat r"
  using unat_add_no_overflow [of 52 t] unat_add_no_overflow [of "52 + t" p]
    unat_add_no_overflow [of "52 + t + p" r]
  by (auto simp: file_size_bytes_nat split: if_splits)

lemma div_100_up: "(n + 99) div 100 = n div 100 + (if n mod 100 = 0 then 0 else 1 :: nat)"
proof (cases "n mod 100 = 0")
  case False
  then have "n mod 100 + 99 = 100 + (n mod 100 - 1)" by simp
  moreover have "n mod 100 - 1 < 100" by (simp add: less_imp_diff_less)
  ultimately have "(n mod 100 + 99) div 100 = 1" by simp
  with False show ?thesis by (simp add: div_add1_eq [of n 99])
qed (simp add: div_add1_eq [of n 99])

lemma budget_slack:
  "unat (f div 100 + (if f mod 100 \<noteq> 0 then 1 else 0) :: u64) = (unat f + 99) div 100"
proof -
  have m: "unat (f mod 100) = unat f mod 100" and d: "unat (f div 100) = unat f div 100"
    by (simp_all add: unat_mod_distrib unat_div_distrib)
  have z: "f mod 100 = 0 \<longleftrightarrow> unat f mod 100 = 0"
    unfolding m [symmetric] by (simp add: unat_eq_0)
  have "unat f < 2 ^ 64" using unsigned_less [of f, where 'a = nat] by simp
  then have "unat f div 100 + 1 < 2 ^ 64" by simp
  then have "unat (f div 100 + 1) = unat f div 100 + 1"
    using unat_add_no_overflow [of "f div 100" 1] by (simp add: d)
  moreover have "(unat f + 99) div 100 = unat f div 100 + (if unat f mod 100 = 0 then 0 else 1)"
    by (rule div_100_up)
  ultimately show ?thesis
    by (simp add: z d)
qed

lemma budget_required_nat:
  "kv_cache_budget_required f =
     (if unat f + (unat f + 99) div 100 < 2 ^ 64
      then Some (f + (f div 100 + (if f mod 100 \<noteq> 0 then 1 else 0))) else None)"
  unfolding kv_cache_budget_required_def Let_def max_sub_less_iff budget_slack by simp

lemma budget_required_Some:
  "kv_cache_budget_required f = Some r \<Longrightarrow> unat r = unat f + (unat f + 99) div 100"
  using unat_add_no_overflow [of f "f div 100 + (if f mod 100 \<noteq> 0 then 1 else 0)"]
  by (simp add: budget_required_nat budget_slack split: if_splits)

lemma file_size_fits_nat:
  "fst (q36_kvstore_file_size_fits budget t p r) \<longleftrightarrow>
     (let n = 52 + unat t + unat p + unat r
      in n < 2 ^ 64 \<and> (budget = 0 \<or> n + (n + 99) div 100 \<le> unat budget))"
proof (cases "kv_cache_file_size_bytes t p r")
  case None
  then have "\<not> 52 + unat t + unat p + unat r < 2 ^ 64"
    by (simp add: file_size_bytes_nat split: if_splits)
  with None show ?thesis by (simp add: q36_kvstore_file_size_fits_def Let_def)
next
  case (Some f)
  then have f: "unat f = 52 + unat t + unat p + unat r" "unat f < 2 ^ 64"
    using unsigned_less [of f, where 'a = nat] by (simp_all add: file_size_bytes_Some)
  have b: "unat budget < 2 ^ 64" using unsigned_less [of budget, where 'a = nat] by simp
  show ?thesis
  proof (cases "kv_cache_budget_required f")
    case None
    then have "\<not> unat f + (unat f + 99) div 100 < 2 ^ 64"
      by (simp add: budget_required_nat split: if_splits)
    with b have "\<not> unat f + (unat f + 99) div 100 \<le> unat budget" by linarith
    with Some None f show ?thesis
      by (simp add: q36_kvstore_file_size_fits_def Let_def)
  next
    case (Some r')
    then have "unat r' = unat f + (unat f + 99) div 100" by (rule budget_required_Some)
    with Some f \<open>kv_cache_file_size_bytes t p r = Some f\<close> show ?thesis
      by (simp add: q36_kvstore_file_size_fits_def Let_def word_le_nat_alt)
  qed
qed

section \<open>File names\<close>

lemma hex_digit_char:
  assumes "unat n < 16"
  shows "isxdigit (hex_digit n) \<and> tolower (hex_digit n) = hex_digit n"
proof -
  let ?P = "\<lambda>c. isxdigit c \<and> tolower c = c"
  have "\<forall>c \<in> set (str ''0123456789abcdef''). ?P c"
    by (simp add: lit_simps ctype_defs)
  moreover have "hex_digit n \<in> set (str ''0123456789abcdef'')"
    using assms by (simp add: hex_digit_def)
  ultimately show ?thesis by blast
qed

lemma hex20_chars: "c \<in> set (hex20 b) \<Longrightarrow> isxdigit c \<and> tolower c = c"
proof -
  assume "c \<in> set (hex20 b)"
  then obtain x where "c = hex_digit (drop_bit 4 x) \<or> c = hex_digit (x AND 15)"
    by (auto simp: hex20_def)
  moreover have "unat (drop_bit 4 x) < 16" "unat (x AND 15) < 16" for x :: u8
  proof -
    have "unat x < 256" using unsigned_less [of x, where 'a = nat] by simp
    then show "unat (drop_bit 4 x) < 16"
      by (simp add: drop_bit_eq_div unat_div_distrib less_mult_imp_div_less)
    have "unat (x AND 15) \<le> unat (15 :: u8)"
      using word_and_le1 word_le_nat_alt by blast
    then show "unat (x AND 15) < 16" by simp
  qed
  ultimately show ?thesis using hex_digit_char by blast
qed

lemma sha1_hex_chars:
  "c \<in> set (q36_kvstore_sha1_bytes_hex m) \<Longrightarrow> isxdigit c \<and> tolower c = c"
  by (simp add: sha1_hex_one_shot hex20_chars)

text \<open>The file name of a checkpoint is read back as its hash.\<close>

lemma sha_hex_name_of_sha:
  "q36_kvstore_sha_hex_name (q36_kvstore_sha1_bytes_hex m @ str ''.kv'')
     = Some (q36_kvstore_sha1_bytes_hex m)"
proof -
  have "map tolower (q36_kvstore_sha1_bytes_hex m) = q36_kvstore_sha1_bytes_hex m"
    by (rule map_idI) (simp add: sha1_hex_chars)
  then show ?thesis
    by (simp add: q36_kvstore_sha_hex_name_def sha1_hex_chars)
qed

lemma sha_hex_name_Some:
  "q36_kvstore_sha_hex_name name = Some sha \<Longrightarrow>
     length sha = 40 \<and> (\<forall>c \<in> set sha. isxdigit c) \<and> drop 40 name = str ''.kv''"
proof -
  assume "q36_kvstore_sha_hex_name name = Some sha"
  then have n: "length name = 43" "drop 40 name = str ''.kv''"
    "\<forall>c \<in> set (take 40 name). isxdigit c" "sha = map tolower (take 40 name)"
    by (auto simp: q36_kvstore_sha_hex_name_def split: if_splits)
  moreover have "isxdigit (tolower c)" if "isxdigit c" for c
    using that unfolding ctype_defs by (auto simp: word_le_nat_alt unat_word_ariths)
  ultimately show ?thesis by auto
qed

lemma path_join_inject: "q36_kvstore_path_join dir a = q36_kvstore_path_join dir b \<longleftrightarrow> a = b"
  by (simp add: q36_kvstore_path_join_def)

end
