(* ===== verification/Os.thy ===== *)
theory Os
  imports Prelude "HOL-Library.AList"
begin

text \<open>
  The operating system as the KV store sees it: the files of the cache directory as an
  association list from paths to contents (its order is the order in which \<^verbatim>\<open>readdir\<close> returns
  the names), the directories that exist, the wall clock, and, for every kind of system call
  and path, whether that call fails.  The failing calls are arbitrary and fixed during one
  operation, so every error return of the code is a branch of the model.  A failing write
  leaves a prefix of its data in the file, as many bytes as \<open>os_short\<close> says; \<open>os_pid\<close> is the
  process id in decimal.
\<close>

datatype sysop =
  Op_stat | Op_open | Op_create | Op_write | Op_truncate | Op_unlink | Op_rename | Op_mkdir | Op_opendir

record os =
  os_fs :: "(bytes \<times> bytes) list"
  os_dirs :: "bytes list"
  os_now :: u64
  os_pid :: bytes
  os_fail :: "sysop \<Rightarrow> bytes \<Rightarrow> bool"
  os_short :: "bytes \<Rightarrow> nat"

definition os_read :: "os \<Rightarrow> bytes \<Rightarrow> bytes option" where
  "os_read s path = (if os_fail s Op_open path then None else map_of (os_fs s) path)"

definition os_stat_size :: "os \<Rightarrow> bytes \<Rightarrow> nat option" where
  "os_stat_size s path =
     (if os_fail s Op_stat path then None else map_option length (map_of (os_fs s) path))"

definition os_unlink :: "os \<Rightarrow> bytes \<Rightarrow> bool \<times> os" where
  "os_unlink s path =
     (if os_fail s Op_unlink path \<or> map_of (os_fs s) path = None then (False, s)
      else (True, s\<lparr>os_fs := AList.delete path (os_fs s)\<rparr>))"

definition os_put :: "os \<Rightarrow> bytes \<Rightarrow> bytes \<Rightarrow> os" where
  "os_put s path data = s\<lparr>os_fs := AList.update path data (os_fs s)\<rparr>"

definition os_rename :: "os \<Rightarrow> bytes \<Rightarrow> bytes \<Rightarrow> bool \<times> os" where
  "os_rename s old new =
     (case map_of (os_fs s) old of
        None \<Rightarrow> (False, s)
      | Some data \<Rightarrow>
          if os_fail s Op_rename new then (False, s)
          else (True, s\<lparr>os_fs := AList.update new data (AList.delete old (os_fs s))\<rparr>))"

text \<open>\<^verbatim>\<open>mkdir\<close>, with \<^verbatim>\<open>EEXIST\<close> counted as success as the callers do.\<close>

definition os_mkdir :: "os \<Rightarrow> bytes \<Rightarrow> bool \<times> os" where
  "os_mkdir s path =
     (if path \<in> set (os_dirs s) \<or> map_of (os_fs s) path \<noteq> None then (True, s)
      else if os_fail s Op_mkdir path then (False, s)
      else (True, s\<lparr>os_dirs := path # os_dirs s\<rparr>))"

text \<open>The names in a directory: what follows its path and one slash, without a further slash.\<close>

definition dir_prefix :: "bytes \<Rightarrow> bytes" where
  "dir_prefix dir = dir @ (if dir = [] \<or> last dir \<noteq> 0x2F then [0x2F] else [])"

definition dir_entry :: "bytes \<Rightarrow> bytes \<Rightarrow> bytes option" where
  "dir_entry dir p =
     (let n = length (dir_prefix dir)
      in if starts_with (dir_prefix dir) p \<and> 0x2F \<notin> set (drop n p) then Some (drop n p) else None)"

definition dir_names :: "bytes \<Rightarrow> (bytes \<times> bytes) list \<Rightarrow> bytes list" where
  "dir_names dir fs = List.map_filter (\<lambda>f. dir_entry dir (fst f)) fs"

definition os_readdir :: "os \<Rightarrow> bytes \<Rightarrow> bytes list option" where
  "os_readdir s dir =
     (if os_fail s Op_opendir dir \<or> dir \<notin> set (os_dirs s) then None
      else Some (dir_names dir (os_fs s)))"

text \<open>
  Writing \<open>data\<close> at an offset of an existing file, and writing a new file from the start: the
  answer says whether every byte reached it.
\<close>

definition os_pwrite :: "os \<Rightarrow> bytes \<Rightarrow> nat \<Rightarrow> bytes \<Rightarrow> bool \<times> os" where
  "os_pwrite s path off data =
     (case map_of (os_fs s) path of None \<Rightarrow> (False, s)
      | Some old \<Rightarrow>
          if os_fail s Op_write path
          then (False, os_put s path (poke off (take (os_short s path) data) old))
          else (True, os_put s path (poke off data old)))"

section \<open>What the calls leave alone\<close>

lemma os_put_frame [frame_simps]:
  "os_dirs (os_put s p d) = os_dirs s" "os_now (os_put s p d) = os_now s"
  "os_pid (os_put s p d) = os_pid s" "os_fail (os_put s p d) = os_fail s"
  "os_short (os_put s p d) = os_short s"
  by (simp_all add: os_put_def)

lemma os_put_map [simp]: "map_of (os_fs (os_put s p d)) = (map_of (os_fs s))(p \<mapsto> d)"
  by (simp add: os_put_def update_conv')

lemma os_pwrite_frame [frame_simps]:
  "os_dirs (snd (os_pwrite s p off d)) = os_dirs s"
  "os_now (snd (os_pwrite s p off d)) = os_now s"
  "os_pid (snd (os_pwrite s p off d)) = os_pid s"
  "os_fail (snd (os_pwrite s p off d)) = os_fail s"
  "os_short (snd (os_pwrite s p off d)) = os_short s"
  by (simp_all add: os_pwrite_def frame_simps split: option.split)

lemma os_pwrite_other:
  "q \<noteq> p \<Longrightarrow> map_of (os_fs (snd (os_pwrite s p off d))) q = map_of (os_fs s) q"
  by (simp add: os_pwrite_def split: option.split)

lemma os_rename_frame [frame_simps]:
  "os_dirs (snd (os_rename s p q)) = os_dirs s"
  "os_now (snd (os_rename s p q)) = os_now s"
  "os_pid (snd (os_rename s p q)) = os_pid s"
  "os_fail (snd (os_rename s p q)) = os_fail s"
  "os_short (snd (os_rename s p q)) = os_short s"
  by (simp_all add: os_rename_def split: option.split)

lemma os_unlink_frame [frame_simps]:
  "os_dirs (snd (os_unlink s p)) = os_dirs s"
  "os_now (snd (os_unlink s p)) = os_now s"
  "os_pid (snd (os_unlink s p)) = os_pid s"
  "os_fail (snd (os_unlink s p)) = os_fail s"
  "os_short (snd (os_unlink s p)) = os_short s"
  by (simp_all add: os_unlink_def)

lemma os_unlink_other: "q \<noteq> p \<Longrightarrow> map_of (os_fs (snd (os_unlink s p))) q = map_of (os_fs s) q"
  by (simp add: os_unlink_def delete_conv')

lemma os_unlink_ok:
  "fst (os_unlink s p) \<Longrightarrow> os_fs (snd (os_unlink s p)) = AList.delete p (os_fs s)"
  by (auto simp: os_unlink_def split: if_splits)

lemma os_unlink_fst:
  "fst (os_unlink s p) \<longleftrightarrow> \<not> os_fail s Op_unlink p \<and> p \<in> fst ` set (os_fs s)"
  by (auto simp: os_unlink_def map_of_eq_None_iff)

lemma dir_entry_Some: "dir_entry dir p = Some n \<longleftrightarrow> p = dir_prefix dir @ n \<and> 0x2F \<notin> set n"
  by (auto simp: dir_entry_def Let_def elim: starts_withE)

lemma dir_entry_prefix [simp]:
  "dir_entry dir (dir_prefix dir @ n) = (if 0x2F \<in> set n then None else Some n)"
  by (simp add: dir_entry_def)

lemma dir_names_delete:
  "dir_names dir (AList.delete p fs) = filter (\<lambda>n. dir_prefix dir @ n \<noteq> p) (dir_names dir fs)"
proof (induction fs)
  case (Cons f fs)
  then show ?case
    by (cases f; cases "dir_entry dir (fst f)") (auto simp: dir_names_def dir_entry_Some split: option.splits)
qed (simp add: dir_names_def)

lemma dir_names_path:
  "n \<in> set (dir_names dir fs) \<longleftrightarrow> dir_prefix dir @ n \<in> fst ` set fs \<and> 0x2F \<notin> set n"
  by (induction fs) (auto simp: dir_names_def dir_entry_Some split: option.split)

lemma distinct_dir_names: "distinct (map fst fs) \<Longrightarrow> distinct (dir_names dir fs)"
proof (induction fs)
  case (Cons f fs)
  then show ?case
    using dir_names_path [of _ dir fs]
    by (cases "dir_entry dir (fst f)") (auto simp: dir_names_def dir_entry_Some)
qed (simp add: dir_names_def)

end
