(* ===== verification/Kv_Index.thy ===== *)
theory Kv_Index
  imports Kv_Format Os "HOL-Library.Signed_Division"
begin

text \<open>
  The in-memory index of the KV checkpoint cache and its policy (\<^verbatim>\<open>q36_kvstore.c\<close>): opening
  and scanning the directory, the boundary and frontier rules that say which prefix is stored,
  the eviction score and loop, and the lookup of the longest stored prefix of a prompt.
\<close>

section \<open>State\<close>

record q36_kvstore_options =
  min_tokens :: int
  cold_max_tokens :: int
  continued_interval_tokens :: int
  boundary_trim_tokens :: int
  boundary_align_tokens :: int

record q36_kvstore =
  kc_enabled :: bool
  kc_dir :: bytes
  kc_budget_bytes :: u64
  kc_reject_different_quant :: bool
  kc_opt :: q36_kvstore_options
  kc_continued_last_store_tokens :: int
  kc_entry :: "q36_kvstore_entry list"

record q36_kvstore_eviction_context =
  ic_text :: "bytes option"
  ic_model_id :: u8
  ic_quant_bits :: u8
  ic_ctx_size :: u32
  ic_reject_different_quant :: bool

definition q36_kvstore_default_options :: q36_kvstore_options where
  "q36_kvstore_default_options = \<lparr>min_tokens = 512, cold_max_tokens = 30000,
     continued_interval_tokens = 10000, boundary_trim_tokens = 32, boundary_align_tokens = 2048\<rparr>"

definition kv_zero :: q36_kvstore where
  "kv_zero = \<lparr>kc_enabled = False, kc_dir = [], kc_budget_bytes = 0,
     kc_reject_different_quant = False,
     kc_opt = \<lparr>min_tokens = 0, cold_max_tokens = 0, continued_interval_tokens = 0,
       boundary_trim_tokens = 0, boundary_align_tokens = 0\<rparr>,
     kc_continued_last_store_tokens = 0, kc_entry = []\<rparr>"

section \<open>Scanning the directory\<close>

definition q36_kvstore_read_entry_file :: "os \<Rightarrow> bytes \<Rightarrow> bytes \<Rightarrow> q36_kvstore_entry option" where
  "q36_kvstore_read_entry_file s path sha =
     (case os_stat_size s path of None \<Rightarrow> None
      | Some sz \<Rightarrow>
          if sz < KV_HEADER + 4 then None
          else (case os_read s path of None \<Rightarrow> None
           | Some data \<Rightarrow>
               (case q36_kvstore_read_header data kv_entry0 of None \<Rightarrow> None
                | Some (e, text_bytes, _) \<Rightarrow>
                    let fixed = 48 + 4 :: u64; tb = ucast text_bytes :: u64
                    in if - 1 - fixed < tb \<or> - 1 - fixed - tb < e_payload_bytes e then None
                       else let expected = fixed + tb + e_payload_bytes e
                            in if word_of_nat sz < expected then None
                               else Some (e\<lparr>e_sha := sha, e_path := path,
                                            e_file_size := word_of_nat sz\<rparr>))))"

definition kv_scan_name :: "os \<Rightarrow> bytes \<Rightarrow> bytes \<Rightarrow> q36_kvstore_entry option" where
  "kv_scan_name s dir name =
     (case q36_kvstore_sha_hex_name name of None \<Rightarrow> None
      | Some sha \<Rightarrow> q36_kvstore_read_entry_file s (q36_kvstore_path_join dir name) sha)"

definition q36_kvstore_clear :: "q36_kvstore \<Rightarrow> q36_kvstore" where
  "q36_kvstore_clear kc = kc\<lparr>kc_entry := []\<rparr>"

definition kv_cache_push :: "q36_kvstore \<Rightarrow> q36_kvstore_entry \<Rightarrow> q36_kvstore" where
  "kv_cache_push kc e = kc\<lparr>kc_entry := kc_entry kc @ [e]\<rparr>"

definition kv_cache_refresh :: "os \<Rightarrow> q36_kvstore \<Rightarrow> q36_kvstore" where
  "kv_cache_refresh s kc =
     (if \<not> kc_enabled kc then kc
      else let kc = q36_kvstore_clear kc
           in case os_readdir s (kc_dir kc) of None \<Rightarrow> kc
              | Some names \<Rightarrow>
                  foldl (\<lambda>kc name. case kv_scan_name s (kc_dir kc) name of
                           None \<Rightarrow> kc | Some e \<Rightarrow> kv_cache_push kc e) kc names)"

section \<open>Which prefix to store\<close>

text \<open>\<^verbatim>\<open>%\<close> and \<^verbatim>\<open>/\<close> on \<^verbatim>\<open>int\<close> truncate towards zero: \<open>smod\<close> and \<open>sdiv\<close>.\<close>

definition q36_kvstore_store_len :: "q36_kvstore \<Rightarrow> int \<Rightarrow> int" where
  "q36_kvstore_store_len kc tokens =
     (let trim = boundary_trim_tokens (kc_opt kc);
          align = boundary_align_tokens (kc_opt kc)
      in if tokens > min_tokens (kc_opt kc) + trim
         then let stable = tokens - trim;
                  stable = (if align > 0 then stable - stable smod align else stable)
              in if stable \<ge> min_tokens (kc_opt kc) then stable else tokens
         else tokens)"

fun kv_last_user :: "int \<Rightarrow> int \<Rightarrow> int \<Rightarrow> int \<Rightarrow> int list \<Rightarrow> int" where
  "kv_last_user user assistant i last_user [] = last_user"
| "kv_last_user user assistant i last_user (token # v) =
     (if token = assistant then last_user
      else kv_last_user user assistant (i + 1) (if token = user then i else last_user) v)"

definition q36_kvstore_chat_anchor_pos ::
  "q36_kvstore \<Rightarrow> int list option \<Rightarrow> int \<Rightarrow> int \<Rightarrow> int" where
  "q36_kvstore_chat_anchor_pos kc prompt user_token_id assistant_token_id =
     (case prompt of None \<Rightarrow> - 1
      | Some v \<Rightarrow>
          if user_token_id < 0 \<or> assistant_token_id < 0 then - 1
          else let last_user = kv_last_user user_token_id assistant_token_id 0 (- 1) v
               in if last_user \<ge> min_tokens (kc_opt kc) then last_user else - 1)"

definition kv_cache_continued_step :: "q36_kvstore \<Rightarrow> int" where
  "kv_cache_continued_step kc =
     (if \<not> kc_enabled kc \<or> continued_interval_tokens (kc_opt kc) \<le> 0 then 0
      else let step = continued_interval_tokens (kc_opt kc);
               align = boundary_align_tokens (kc_opt kc)
           in if align > 0
              then let step = ((step + align - 1) sdiv align) * align
                   in if step \<le> 0 then align else step
              else step)"

definition q36_kvstore_continued_store_target :: "q36_kvstore \<Rightarrow> int \<Rightarrow> int" where
  "q36_kvstore_continued_store_target kc live_tokens =
     (let step = kv_cache_continued_step kc
      in if step \<le> 0 then 0
         else if live_tokens < min_tokens (kc_opt kc) then 0
         else if live_tokens smod step \<noteq> 0 then 0
         else if live_tokens \<le> kc_continued_last_store_tokens kc then 0
         else live_tokens)"

definition q36_kvstore_note_store :: "q36_kvstore \<Rightarrow> int \<Rightarrow> q36_kvstore" where
  "q36_kvstore_note_store kc tokens =
     (if tokens > kc_continued_last_store_tokens kc
      then kc\<lparr>kc_continued_last_store_tokens := tokens\<rparr> else kc)"

definition q36_kvstore_suppress_continued_store :: "q36_kvstore \<Rightarrow> int \<Rightarrow> int \<times> q36_kvstore" where
  "q36_kvstore_suppress_continued_store kc tokens =
     (if q36_kvstore_continued_store_target kc tokens \<noteq> tokens then (- 1, kc)
      else (kc_continued_last_store_tokens kc, q36_kvstore_note_store kc tokens))"

definition q36_kvstore_restore_suppressed_continued ::
  "q36_kvstore \<Rightarrow> int \<Rightarrow> int \<Rightarrow> q36_kvstore" where
  "q36_kvstore_restore_suppressed_continued kc old_tokens suppressed_tokens =
     (if old_tokens \<ge> 0 \<and> kc_continued_last_store_tokens kc = suppressed_tokens
      then kc\<lparr>kc_continued_last_store_tokens := old_tokens\<rparr> else kc)"

section \<open>The eviction score\<close>

text \<open>
  The code scores entries in \<^verbatim>\<open>double\<close>.  The operations it uses are a parameter of the model,
  so that nothing below depends on how they round: conversion of an unsigned integer, a decimal
  literal as a fraction, the arithmetic, \<^verbatim>\<open>exp2\<close> and the two comparisons.
\<close>

record 'd dbl =
  d_of_nat :: "nat \<Rightarrow> 'd"
  d_lit :: "nat \<Rightarrow> nat \<Rightarrow> 'd"
  d_add :: "'d \<Rightarrow> 'd \<Rightarrow> 'd"
  d_mul :: "'d \<Rightarrow> 'd \<Rightarrow> 'd"
  d_div :: "'d \<Rightarrow> 'd \<Rightarrow> 'd"
  d_neg :: "'d \<Rightarrow> 'd"
  d_exp2 :: "'d \<Rightarrow> 'd"
  d_less :: "'d \<Rightarrow> 'd \<Rightarrow> bool"
  d_eq :: "'d \<Rightarrow> 'd \<Rightarrow> bool"

definition kv_cache_incoming_supersedes_continued ::
  "q36_kvstore_entry \<Rightarrow> q36_kvstore_eviction_context option \<Rightarrow> bool" where
  "kv_cache_incoming_supersedes_continued e incoming =
     (case incoming of None \<Rightarrow> False
      | Some ic \<Rightarrow>
          (case ic_text ic of None \<Rightarrow> False
           | Some text \<Rightarrow>
               if e_reason e \<noteq> reason_byte REASON_CONTINUED then False
               else if e_text_bytes e = 0 then False
               else if unat (e_text_bytes e) \<ge> length text then False
               else if e_model_id e \<noteq> ic_model_id ic then False
               else if ic_reject_different_quant ic \<and> e_quant_bits e \<noteq> ic_quant_bits ic then False
               else if ic_ctx_size ic > e_ctx_size e then False
               else q36_kvstore_sha1_bytes_hex (take (unat (e_text_bytes e)) text) = e_sha e))"

definition kv_cache_reason_is_anchor :: "u8 \<Rightarrow> bool" where
  "kv_cache_reason_is_anchor reason \<longleftrightarrow>
     reason = reason_byte REASON_COLD \<or> reason = reason_byte REASON_EVICT \<or>
     reason = reason_byte REASON_SHUTDOWN"

definition kv_effective_hits :: "'d dbl \<Rightarrow> q36_kvstore_entry \<Rightarrow> u64 \<Rightarrow> 'd" where
  "kv_effective_hits A e now =
     (let effective_hits = d_of_nat A (unat (e_hits e));
          used_at = (if e_last_used e \<noteq> 0 then e_last_used e else e_created_at e)
      in if used_at = 0 then d_lit A 0 1
         else if now > used_at
         then let elapsed = d_of_nat A (unat (now - used_at));
                  h = d_mul A effective_hits
                        (d_exp2 A (d_div A (d_neg A elapsed) (d_of_nat A (6 * 60 * 60))))
              in if d_less A h (d_lit A 1 100) then d_lit A 0 1 else h
         else effective_hits)"

definition q36_kvstore_entry_eviction_score ::
  "'d dbl \<Rightarrow> q36_kvstore_entry \<Rightarrow> u64 \<Rightarrow> q36_kvstore_eviction_context option \<Rightarrow> 'd" where
  "q36_kvstore_entry_eviction_score A e now incoming =
     (if e_file_size e = 0 then d_lit A 0 1
      else let h = kv_effective_hits A e now;
               score = d_div A (d_mul A (d_add A h (d_lit A 1 1)) (d_of_nat A (unat (e_tokens e))))
                         (d_of_nat A (unat (e_file_size e)));
               score = (if kv_cache_reason_is_anchor (e_reason e)
                        then d_mul A score (d_lit A 2 1) else score)
           in if kv_cache_incoming_supersedes_continued e incoming
              then let f = (if d_less A (d_lit A 0 1) h
                            then d_div A h (d_add A h (d_lit A 1 1)) else d_lit A 0 1)
                   in d_mul A score (d_add A (d_lit A 5 100) (d_mul A (d_lit A 45 100) f))
              else score)"

section \<open>Eviction\<close>

definition kv_pick_step ::
  "'d dbl \<Rightarrow> u64 \<Rightarrow> q36_kvstore_eviction_context option \<Rightarrow> q36_kvstore_entry list \<Rightarrow>
   nat \<times> 'd \<Rightarrow> nat \<Rightarrow> nat \<times> 'd" where
  "kv_pick_step A now incoming es best i =
     (let score = q36_kvstore_entry_eviction_score A (es ! i) now incoming
      in if d_less A score (snd best) \<or>
            (d_eq A score (snd best) \<and> e_last_used (es ! i) < e_last_used (es ! fst best))
         then (i, score) else best)"

definition kv_pick_victim ::
  "'d dbl \<Rightarrow> u64 \<Rightarrow> q36_kvstore_eviction_context option \<Rightarrow> q36_kvstore_entry list \<Rightarrow> nat" where
  "kv_pick_victim A now incoming es =
     fst (foldl (kv_pick_step A now incoming es)
       (0, q36_kvstore_entry_eviction_score A (es ! 0) now incoming) [1..<length es])"

lemma kv_pick_victim_bound: "es \<noteq> [] \<Longrightarrow> kv_pick_victim A now incoming es < length es"
  unfolding kv_pick_victim_def
  by (rule foldl_upt_invariant [where P = "\<lambda>_ best. fst best < length es"])
    (auto simp: kv_pick_step_def Let_def Suc_le_eq)

function kv_evict_loop ::
  "'d dbl \<Rightarrow> u64 \<Rightarrow> q36_kvstore_eviction_context option \<Rightarrow> u64 \<Rightarrow> u64 \<Rightarrow>
   q36_kvstore_entry list \<Rightarrow> os \<Rightarrow> q36_kvstore_entry list \<times> os" where
  "kv_evict_loop A now incoming target tot es s =
     (if tot > target \<and> es \<noteq> [] then
        let victim = kv_pick_victim A now incoming es;
            e = es ! victim;
            r = os_unlink s (e_path e);
            tot' = (if fst r
                      then (if tot \<ge> e_file_size e then tot - e_file_size e else 0)
                      else 0)
        in kv_evict_loop A now incoming target tot' (remove_at victim es) (snd r)
      else (es, s))"
  by pat_completeness auto
termination
  by (relation "measure (\<lambda>(A, now, incoming, target, tot, es, s). length es)")
    (simp_all add: kv_pick_victim_bound)

declare kv_evict_loop.simps [simp del]

definition q36_kvstore_evict ::
  "'d dbl \<Rightarrow> q36_kvstore \<Rightarrow> u64 \<Rightarrow> q36_kvstore_eviction_context option \<Rightarrow> os \<Rightarrow> q36_kvstore \<times> os" where
  "q36_kvstore_evict A kc extra_bytes incoming s =
     (if \<not> kc_enabled kc \<or> kc_budget_bytes kc = 0 then (kc, s)
      else if extra_bytes > kc_budget_bytes kc then (kc, s)
      else let kc = kv_cache_refresh s kc;
               tot = foldl (\<lambda>t e. t + e_file_size e) 0 (kc_entry kc);
               target = kc_budget_bytes kc - extra_bytes;
               r = kv_evict_loop A (os_now s) incoming target tot (kc_entry kc) s
           in (kc\<lparr>kc_entry := fst r\<rparr>, snd r))"

section \<open>Opening and closing\<close>

text \<open>The directory and its parents: every prefix that ends before a slash, then the whole path.\<close>

definition kv_mkdir_prefixes :: "bytes \<Rightarrow> bytes list" where
  "kv_mkdir_prefixes path =
     map (\<lambda>i. take i path) (filter (\<lambda>i. path ! i = 0x2F) [1..<length path]) @ [path]"

fun kv_mkdir_all :: "bytes list \<Rightarrow> os \<Rightarrow> bool \<times> os" where
  "kv_mkdir_all [] s = (True, s)"
| "kv_mkdir_all (p # ps) s =
     (case os_mkdir s p of (ok, s') \<Rightarrow> if ok then kv_mkdir_all ps s' else (False, s'))"

definition kv_mkdir_p :: "bytes \<Rightarrow> os \<Rightarrow> bool \<times> os" where
  "kv_mkdir_p path s = (if path = [] then (False, s) else kv_mkdir_all (kv_mkdir_prefixes path) s)"

definition q36_kvstore_open ::
  "'d dbl \<Rightarrow> bytes option \<Rightarrow> u64 \<Rightarrow> bool \<Rightarrow> q36_kvstore_options \<Rightarrow> os \<Rightarrow> bool \<times> q36_kvstore \<times> os" where
  "q36_kvstore_open A dir budget_mb reject_different_quant opt s =
     (case dir of None \<Rightarrow> (False, kv_zero, s)
      | Some dir \<Rightarrow>
          (case kv_mkdir_p dir s of
             (False, s) \<Rightarrow> (False, kv_zero, s)
           | (True, s) \<Rightarrow>
               let budget_mb = (if budget_mb = 0 then 4096 else budget_mb);
                   kc = kv_zero\<lparr>kc_enabled := True, kc_dir := dir,
                          kc_budget_bytes := budget_mb * 1024 * 1024,
                          kc_reject_different_quant := reject_different_quant, kc_opt := opt\<rparr>;
                   r = q36_kvstore_evict A kc 0 None s
               in (True, fst r, snd r)))"

definition q36_kvstore_close :: "q36_kvstore \<Rightarrow> q36_kvstore" where
  "q36_kvstore_close kc = kv_zero"

section \<open>Lookup\<close>

definition kv_find_step ::
  "q36_kvstore \<Rightarrow> bytes \<Rightarrow> int \<Rightarrow> int \<Rightarrow> int \<Rightarrow> nat option \<Rightarrow> nat \<Rightarrow> nat option" where
  "kv_find_step kc prompt model_id quant_bits ctx_size best i =
     (let e = kc_entry kc ! i
      in if unat (e_text_bytes e) > length prompt then best
         else if sint (e_tokens e) < min_tokens (kc_opt kc) then best
         else if e_model_id e \<noteq> word_of_int model_id then best
         else if word_of_int ctx_size < e_ctx_size e then best
         else if kc_reject_different_quant kc \<and> e_quant_bits e \<noteq> word_of_int quant_bits then best
         else if (case best of None \<Rightarrow> False
                  | Some b \<Rightarrow>
                      let be = kc_entry kc ! b
                      in e_text_bytes e < e_text_bytes be \<or>
                         (e_text_bytes e = e_text_bytes be \<and> e_tokens e \<le> e_tokens be))
         then best
         else if q36_kvstore_sha1_bytes_hex (take (unat (e_text_bytes e)) prompt) = e_sha e
         then Some i else best)"

definition q36_kvstore_find_text_prefix ::
  "q36_kvstore \<Rightarrow> bytes option \<Rightarrow> int \<Rightarrow> int \<Rightarrow> int \<Rightarrow> os \<Rightarrow> nat option \<times> q36_kvstore" where
  "q36_kvstore_find_text_prefix kc prompt_text model_id quant_bits ctx_size s =
     (case prompt_text of None \<Rightarrow> (None, kc)
      | Some prompt \<Rightarrow>
          let kc = kv_cache_refresh s kc
          in (foldl (kv_find_step kc prompt model_id quant_bits ctx_size) None
                [0..<length (kc_entry kc)], kc))"

section \<open>What a scan finds\<close>

definition kv_disk :: "os \<Rightarrow> bytes \<Rightarrow> q36_kvstore_entry list" where
  "kv_disk s dir = (case os_readdir s dir of None \<Rightarrow> []
     | Some names \<Rightarrow> List.map_filter (kv_scan_name s dir) names)"

lemma kv_push_fold:
  "foldl (\<lambda>kc name. case kv_scan_name s (kc_dir kc) name of
            None \<Rightarrow> kc | Some e \<Rightarrow> kv_cache_push kc e) kc names
   = kc\<lparr>kc_entry := kc_entry kc @ List.map_filter (kv_scan_name s (kc_dir kc)) names\<rparr>"
  by (induction names arbitrary: kc) (auto simp: kv_cache_push_def split: option.split)

lemma kv_cache_refresh_eq:
  "kv_cache_refresh s kc = (if kc_enabled kc then kc\<lparr>kc_entry := kv_disk s (kc_dir kc)\<rparr> else kc)"
  by (auto simp: kv_cache_refresh_def Let_def kv_push_fold q36_kvstore_clear_def kv_disk_def
      split: option.split)

lemma path_join_prefix: "q36_kvstore_path_join dir name = dir_prefix dir @ name"
  by (simp add: q36_kvstore_path_join_def dir_prefix_def)

lemma read_entry_file_Some:
  assumes "q36_kvstore_read_entry_file s path sha = Some e"
  shows "e_path e = path" "e_sha e = sha"
    "\<exists>data. map_of (os_fs s) path = Some data \<and> e_file_size e = word_of_nat (length data)"
  using assms
  by (auto simp: q36_kvstore_read_entry_file_def os_stat_size_def Let_def
      split: option.splits if_splits)

lemma kv_scan_name_Some:
  assumes "kv_scan_name s dir name = Some e"
  shows "e_path e = dir_prefix dir @ name" "q36_kvstore_sha_hex_name name = Some (e_sha e)"
    "q36_kvstore_read_entry_file s (e_path e) (e_sha e) = Some e"
  using assms read_entry_file_Some(1,2)
  by (fastforce simp: kv_scan_name_def path_join_prefix split: option.splits)+

lemma map_filter_set: "y \<in> set (List.map_filter f xs) \<longleftrightarrow> (\<exists>x \<in> set xs. f x = Some y)"
  by (force simp: List.map_filter_def)

lemma distinct_kv_disk:
  assumes "distinct (map fst (os_fs s))"
  shows "distinct (map e_path (kv_disk s dir))"
proof -
  have "distinct names \<Longrightarrow> distinct (map e_path (List.map_filter (kv_scan_name s dir) names))" for names
  proof (induction names)
    case (Cons n names)
    then show ?case
      by (auto simp: map_filter_set dest!: kv_scan_name_Some(1) split: option.split)
  qed simp
  with distinct_dir_names [OF assms] show ?thesis
    by (simp add: kv_disk_def os_readdir_def)
qed

text \<open>Removing one file removes exactly its entry.\<close>

lemma kv_scan_name_unlink:
  assumes "dir_prefix dir @ n \<noteq> p"
  shows "kv_scan_name (snd (os_unlink s p)) dir n = kv_scan_name s dir n"
  using os_unlink_other [OF assms, of s]
  by (simp add: kv_scan_name_def q36_kvstore_read_entry_file_def os_stat_size_def os_read_def
      path_join_prefix frame_simps split: option.split)

lemma map_filter_filter:
  "(\<And>x. P x \<Longrightarrow> g x = f x) \<Longrightarrow> (\<And>x y. f x = Some y \<Longrightarrow> Q y \<longleftrightarrow> P x) \<Longrightarrow>
     List.map_filter g (filter P xs) = filter Q (List.map_filter f xs)"
  by (induction xs) (auto split: option.split)

lemma kv_disk_unlink:
  assumes "fst (os_unlink s p)"
  shows "kv_disk (snd (os_unlink s p)) dir = filter (\<lambda>e. e_path e \<noteq> p) (kv_disk s dir)"
proof -
  have "List.map_filter (kv_scan_name (snd (os_unlink s p)) dir)
      (filter (\<lambda>n. dir_prefix dir @ n \<noteq> p) names)
    = filter (\<lambda>e. e_path e \<noteq> p) (List.map_filter (kv_scan_name s dir) names)" for names
    by (rule map_filter_filter) (auto simp: kv_scan_name_unlink dest: kv_scan_name_Some(1))
  then show ?thesis
    by (auto simp: kv_disk_def os_readdir_def frame_simps os_unlink_ok [OF assms] dir_names_delete)
qed

lemma kv_disk_paths: "e \<in> set (kv_disk s dir) \<Longrightarrow> e_path e \<in> fst ` set (os_fs s)"
  by (auto simp: kv_disk_def os_readdir_def map_filter_set dir_names_path
      dest!: kv_scan_name_Some(1) split: if_splits)

end
