(* ===== verification/Kv_Lookup.thy ===== *)
theory Kv_Lookup
  imports Kv_Index
begin

text \<open>
  What the policy functions of \<^verbatim>\<open>q36_kvstore.c\<close> compute: the lookup returns the longest stored
  text that the prompt starts with, the store boundary keeps its distance and alignment, and
  the continued frontier never stores the same frontier twice.
\<close>

section \<open>Lookup\<close>

text \<open>An entry that may serve the prompt: every test of the loop but the comparison with the best.\<close>

definition kv_usable :: "q36_kvstore \<Rightarrow> bytes \<Rightarrow> int \<Rightarrow> int \<Rightarrow> int \<Rightarrow> q36_kvstore_entry \<Rightarrow> bool" where
  "kv_usable kc prompt model_id quant_bits ctx_size e \<longleftrightarrow>
     unat (e_text_bytes e) \<le> length prompt \<and>
     min_tokens (kc_opt kc) \<le> sint (e_tokens e) \<and>
     e_model_id e = word_of_int model_id \<and>
     e_ctx_size e \<le> word_of_int ctx_size \<and>
     (kc_reject_different_quant kc \<longrightarrow> e_quant_bits e = word_of_int quant_bits) \<and>
     q36_kvstore_sha1_bytes_hex (take (unat (e_text_bytes e)) prompt) = e_sha e"

definition kv_key :: "q36_kvstore_entry \<Rightarrow> nat \<times> nat" where
  "kv_key e = (unat (e_text_bytes e), unat (e_tokens e))"

definition key_le :: "nat \<times> nat \<Rightarrow> nat \<times> nat \<Rightarrow> bool" where
  "key_le a b \<longleftrightarrow> fst a < fst b \<or> (fst a = fst b \<and> snd a \<le> snd b)"

lemma key_le_trans: "key_le a b \<Longrightarrow> key_le b c \<Longrightarrow> key_le a c"
  by (auto simp: key_le_def)

lemma key_le_total: "key_le a b \<or> key_le b a"
  by (auto simp: key_le_def)

lemma key_le_refl [simp]: "key_le a a"
  by (simp add: key_le_def)

lemma kv_find_step_eq:
  "kv_find_step kc prompt m q c best i =
     (if kv_usable kc prompt m q c (kc_entry kc ! i) \<and>
         (case best of None \<Rightarrow> True
          | Some b \<Rightarrow> \<not> key_le (kv_key (kc_entry kc ! i)) (kv_key (kc_entry kc ! b)))
      then Some i else best)"
  unfolding kv_find_step_def kv_usable_def kv_key_def key_le_def Let_def
  by (cases best) (auto simp: word_less_nat_alt word_le_nat_alt word_unat_eq_iff [of "e_text_bytes _"] not_less)

lemma find_loop:
  fixes kc prompt m q c
  assumes "n \<le> length (kc_entry kc)"
  defines "best \<equiv> foldl (kv_find_step kc prompt m q c) None [0..<n]"
    and "U \<equiv> \<lambda>i. kv_usable kc prompt m q c (kc_entry kc ! i)"
  shows "case best of None \<Rightarrow> \<forall>i < n. \<not> U i
    | Some b \<Rightarrow> b < n \<and> U b \<and> (\<forall>i < n. U i \<longrightarrow> key_le (kv_key (kc_entry kc ! i)) (kv_key (kc_entry kc ! b)))"
  unfolding best_def
proof (rule foldl_upt_invariant [where P = "\<lambda>n best. case best of None \<Rightarrow> \<forall>i < n. \<not> U i
    | Some b \<Rightarrow> b < n \<and> U b \<and>
        (\<forall>i < n. U i \<longrightarrow> key_le (kv_key (kc_entry kc ! i)) (kv_key (kc_entry kc ! b)))"])
  fix i and best :: "nat option"
  let ?k = "\<lambda>i. kv_key (kc_entry kc ! i)"
  assume P: "case best of None \<Rightarrow> \<forall>j < i. \<not> U j
    | Some b \<Rightarrow> b < i \<and> U b \<and> (\<forall>j < i. U j \<longrightarrow> key_le (?k j) (?k b))"
  show "case kv_find_step kc prompt m q c best i of None \<Rightarrow> \<forall>j < Suc i. \<not> U j
    | Some b \<Rightarrow> b < Suc i \<and> U b \<and> (\<forall>j < Suc i. U j \<longrightarrow> key_le (?k j) (?k b))"
  proof (cases best)
    case None
    with P show ?thesis
      by (auto simp: kv_find_step_eq U_def less_Suc_eq)
  next
    case (Some b)
    show ?thesis
    proof (cases "U i \<and> \<not> key_le (?k i) (?k b)")
      case True
      then have "key_le (?k b) (?k i)" using key_le_total by blast
      then have "key_le (?k j) (?k i)" if "j < i" "U j" for j
        using P Some that key_le_trans [of "?k j" "?k b" "?k i"] by auto
      with True Some show ?thesis
        by (auto simp: kv_find_step_eq U_def less_Suc_eq)
    next
      case False
      with P Some show ?thesis
        by (auto simp: kv_find_step_eq U_def less_Suc_eq)
    qed
  qed
qed simp_all

lemma find_prefix_cases:
  fixes kc prompt m q c s
  defines "r \<equiv> q36_kvstore_find_text_prefix kc (Some prompt) m q c s"
  shows "snd r = kv_cache_refresh s kc"
    and "case fst r of
      None \<Rightarrow> \<forall>e \<in> set (kc_entry (snd r)). \<not> kv_usable (snd r) prompt m q c e
    | Some b \<Rightarrow> b < length (kc_entry (snd r)) \<and> kv_usable (snd r) prompt m q c (kc_entry (snd r) ! b) \<and>
        (\<forall>e \<in> set (kc_entry (snd r)). kv_usable (snd r) prompt m q c e \<longrightarrow>
           key_le (kv_key e) (kv_key (kc_entry (snd r) ! b)))"
proof -
  let ?kc = "kv_cache_refresh s kc"
  show *: "snd r = ?kc"
    by (simp add: r_def q36_kvstore_find_text_prefix_def Let_def)
  have "fst r = foldl (kv_find_step ?kc prompt m q c) None [0..<length (kc_entry ?kc)]"
    by (simp add: r_def q36_kvstore_find_text_prefix_def Let_def)
  with * find_loop [OF order.refl, of ?kc prompt m q c]
  show "case fst r of
      None \<Rightarrow> \<forall>e \<in> set (kc_entry (snd r)). \<not> kv_usable (snd r) prompt m q c e
    | Some b \<Rightarrow> b < length (kc_entry (snd r)) \<and> kv_usable (snd r) prompt m q c (kc_entry (snd r) ! b) \<and>
        (\<forall>e \<in> set (kc_entry (snd r)). kv_usable (snd r) prompt m q c e \<longrightarrow>
           key_le (kv_key e) (kv_key (kc_entry (snd r) ! b)))"
    by (auto simp: in_set_conv_nth split: option.splits)
qed

text \<open>
  C6. The lookup is exact: \<^verbatim>\<open>q36_kvstore_find_text_prefix\<close> returns no entry just when no scanned
  checkpoint is usable for the prompt (model, quantisation, context and minimum length fit and
  the hash of the prompt's first \<^verbatim>\<open>text_bytes\<close> bytes is the file's), and otherwise a usable entry
  that no usable entry exceeds in text length, or in tokens at the same text length.
\<close>

theorem find_text_prefix_longest:
  fixes kc prompt m q c s
  defines "r \<equiv> q36_kvstore_find_text_prefix kc (Some prompt) m q c s"
  shows "case fst r of
      None \<Rightarrow> \<forall>e \<in> set (kc_entry (snd r)). \<not> kv_usable (snd r) prompt m q c e
    | Some b \<Rightarrow> b < length (kc_entry (snd r)) \<and> kv_usable (snd r) prompt m q c (kc_entry (snd r) ! b) \<and>
        (\<forall>e \<in> set (kc_entry (snd r)). kv_usable (snd r) prompt m q c e \<longrightarrow>
           key_le (kv_key e) (kv_key (kc_entry (snd r) ! b)))"
  unfolding r_def by (rule find_prefix_cases(2))

section \<open>Boundaries and frontiers\<close>

lemma smod_nonneg: "0 \<le> (a :: int) \<Longrightarrow> 0 < b \<Longrightarrow> a smod b = a mod b"
  by (cases "a = 0") (simp_all add: smod_int_alt_def)

lemma sdiv_nonneg: "0 \<le> (a :: int) \<Longrightarrow> 0 < b \<Longrightarrow> a sdiv b = a div b"
  by (cases "a = 0") (simp_all add: signed_divide_int_def)

text \<open>
  The store boundary: for non-negative settings \<^verbatim>\<open>q36_kvstore_store_len\<close> either stores all
  tokens, or a prefix of at least \<^verbatim>\<open>min_tokens\<close> tokens that leaves the trimmed tail out, is a
  multiple of the alignment, and drops less than one alignment unit beyond the trim.
\<close>

theorem store_len_boundary:
  fixes kc tokens
  assumes "0 \<le> min_tokens (kc_opt kc)" and "0 \<le> boundary_trim_tokens (kc_opt kc)"
  defines "n \<equiv> q36_kvstore_store_len kc tokens"
    and "trim \<equiv> boundary_trim_tokens (kc_opt kc)" and "align \<equiv> boundary_align_tokens (kc_opt kc)"
  shows "n = tokens \<or>
    (min_tokens (kc_opt kc) \<le> n \<and> n \<le> tokens - trim \<and>
     (align > 0 \<longrightarrow> align dvd n \<and> tokens - trim - n < align) \<and> (align \<le> 0 \<longrightarrow> n = tokens - trim))"
proof (cases "n = tokens")
  case False
  then have big: "tokens - trim > min_tokens (kc_opt kc)"
    and n: "n = (if align > 0 then (tokens - trim) - (tokens - trim) smod align else tokens - trim)"
      "n \<ge> min_tokens (kc_opt kc)"
    by (auto simp: n_def trim_def align_def q36_kvstore_store_len_def Let_def split: if_splits)
  from big assms(1) have pos: "0 \<le> tokens - trim" by simp
  show ?thesis
  proof (cases "align > 0")
    case True
    then have "n = (tokens - trim) - (tokens - trim) mod align"
      using n(1) smod_nonneg [OF pos] by simp
    moreover have "0 \<le> (tokens - trim) mod align" "(tokens - trim) mod align < align"
      using True by simp_all
    moreover have "align dvd (tokens - trim) - (tokens - trim) mod align"
      by (rule dvd_minus_mod)
    ultimately show ?thesis
      using n(2) True by simp
  qed (use n in simp)
qed simp

lemma continued_step_pos:
  "kc_enabled kc \<Longrightarrow> 0 < continued_interval_tokens (kc_opt kc) \<Longrightarrow> 0 < kv_cache_continued_step kc"
  by (auto simp: kv_cache_continued_step_def Let_def)

lemma continued_step_aligned:
  assumes "0 < boundary_align_tokens (kc_opt kc)"
  shows "boundary_align_tokens (kc_opt kc) dvd kv_cache_continued_step kc"
    and "kc_enabled kc \<Longrightarrow> 0 < continued_interval_tokens (kc_opt kc) \<Longrightarrow>
      continued_interval_tokens (kc_opt kc) \<le> kv_cache_continued_step kc \<and>
      kv_cache_continued_step kc < continued_interval_tokens (kc_opt kc) + boundary_align_tokens (kc_opt kc)"
proof -
  let ?s = "continued_interval_tokens (kc_opt kc)" and ?a = "boundary_align_tokens (kc_opt kc)"
  show "?a dvd kv_cache_continued_step kc"
    using assms by (simp add: kv_cache_continued_step_def Let_def)
  assume en: "kc_enabled kc" "0 < ?s"
  then have "kv_cache_continued_step kc = (let t = (?s + ?a - 1) div ?a * ?a in if t \<le> 0 then ?a else t)"
    using assms by (simp add: kv_cache_continued_step_def Let_def sdiv_nonneg)
  moreover have "(?s + ?a - 1) div ?a * ?a = (?s + ?a - 1) - (?s + ?a - 1) mod ?a"
    by (simp add: minus_mod_eq_div_mult)
  moreover have "0 \<le> (?s + ?a - 1) mod ?a" "(?s + ?a - 1) mod ?a < ?a"
    using assms by simp_all
  ultimately show "?s \<le> kv_cache_continued_step kc \<and> kv_cache_continued_step kc < ?s + ?a"
    using en by (auto simp: Let_def)
qed

text \<open>Suppressing a store and restoring it leaves the frontier as it was.\<close>

lemma suppress_restore:
  assumes "0 \<le> kc_continued_last_store_tokens kc"
  shows "q36_kvstore_restore_suppressed_continued
      (snd (q36_kvstore_suppress_continued_store kc tokens))
      (fst (q36_kvstore_suppress_continued_store kc tokens)) tokens = kc"
  using assms
  by (auto simp: q36_kvstore_restore_suppressed_continued_def
      q36_kvstore_suppress_continued_store_def q36_kvstore_note_store_def
      q36_kvstore_continued_store_target_def Let_def split: if_splits)

text \<open>
  The continued frontier: a target is the live length itself, on the step grid and past the
  last stored frontier, and once it is noted as stored the same length is no target again.
\<close>

theorem continued_frontier:
  "(let t = q36_kvstore_continued_store_target kc live
    in t = 0 \<or> (t = live \<and> kc_continued_last_store_tokens kc < t \<and>
                 min_tokens (kc_opt kc) \<le> t \<and> live smod kv_cache_continued_step kc = 0)) \<and>
   q36_kvstore_continued_store_target (q36_kvstore_note_store kc live) live = 0"
  by (auto simp: q36_kvstore_continued_store_target_def q36_kvstore_note_store_def Let_def)

section \<open>The chat anchor\<close>

lemma kv_last_user_cases:
  "(user \<notin> set (takeWhile (\<lambda>t. t \<noteq> assistant) v) \<and> kv_last_user user assistant i0 last0 v = last0) \<or>
   (\<exists>k < length v. kv_last_user user assistant i0 last0 v = i0 + int k \<and> v ! k = user \<and>
      assistant \<notin> set (take (Suc k) v) \<and>
      (\<forall>j. k < j \<and> j < length v \<and> v ! j = user \<longrightarrow> assistant \<in> set (take (Suc j) v)))"
proof (induction v arbitrary: i0 last0)
  case (Cons t v)
  show ?case
  proof (cases "t = assistant")
    case False
    let ?l = "if t = user then i0 else last0"
    consider "user \<notin> set (takeWhile (\<lambda>t. t \<noteq> assistant) v)"
        "kv_last_user user assistant (i0 + 1) ?l v = ?l"
      | k where "k < length v" "kv_last_user user assistant (i0 + 1) ?l v = i0 + 1 + int k"
        "v ! k = user" "assistant \<notin> set (take (Suc k) v)"
        "\<forall>j. k < j \<and> j < length v \<and> v ! j = user \<longrightarrow> assistant \<in> set (take (Suc j) v)"
      using Cons [of "i0 + 1" ?l] by blast
    then show ?thesis
    proof cases
      case 1
      have later: "assistant \<in> set (take (Suc j) v)" if "j < length v" "v ! j = user" for j
        using 1(1) that
      proof (induction v arbitrary: j)
        case (Cons a v)
        then show ?case by (cases j) (auto split: if_splits)
      qed simp
      show ?thesis
      proof (cases "t = user")
        case True
        with False 1 later show ?thesis
          by (intro disjI2 exI [of _ 0]) (auto simp: gr0_conv_Suc)
      qed (use False 1 in auto)
    next
      case (2 k)
      with False show ?thesis
        by (intro disjI2 exI [of _ "Suc k"]) (auto simp: less_Suc_eq_0_disj)
    qed
  qed simp
qed simp

text \<open>
  The chat anchor is the last user marker of the prompt's head: when
  \<^verbatim>\<open>q36_kvstore_chat_anchor_pos\<close> answers a position, it is at least \<^verbatim>\<open>min_tokens\<close>, the prompt has
  the user marker there, no assistant marker occurs up to it, and every later user marker comes
  after an assistant marker.
\<close>

theorem chat_anchor_last_user:
  assumes "0 \<le> min_tokens (kc_opt kc)"
    and "q36_kvstore_chat_anchor_pos kc (Some v) user assistant \<noteq> - 1"
  shows "\<exists>k < length v. q36_kvstore_chat_anchor_pos kc (Some v) user assistant = int k \<and>
    min_tokens (kc_opt kc) \<le> int k \<and> v ! k = user \<and> assistant \<notin> set (take (Suc k) v) \<and>
    (\<forall>j. k < j \<and> j < length v \<and> v ! j = user \<longrightarrow> assistant \<in> set (take (Suc j) v))"
proof -
  have r: "q36_kvstore_chat_anchor_pos kc (Some v) user assistant = kv_last_user user assistant 0 (- 1) v"
    "min_tokens (kc_opt kc) \<le> kv_last_user user assistant 0 (- 1) v"
    using assms(2) by (auto simp: q36_kvstore_chat_anchor_pos_def Let_def split: if_splits)
  with assms(1) have "kv_last_user user assistant 0 (- 1) v \<noteq> - 1" by linarith
  with kv_last_user_cases [of user assistant v 0 "- 1"] r show ?thesis by auto
qed

end
