(* ===== verification/Kv_Evict.thy ===== *)
theory Kv_Evict
  imports Kv_Index Complex_Main
begin

text \<open>
  What eviction guarantees: the checkpoints left on disk fit the budget, only checkpoint files
  are touched, and the file removed in each round has the smallest score (the older one on a
  tie).  The last fact needs the comparisons on \<^verbatim>\<open>double\<close> to order the scores; that contract is
  the locale \<open>dbl_order\<close>.
\<close>

section \<open>The comparison contract\<close>

locale dbl_order =
  fixes A :: "'d dbl"
  assumes less_asym: "d_less A x y \<Longrightarrow> \<not> d_less A y x"
    and not_less_trans: "\<not> d_less A x y \<Longrightarrow> \<not> d_less A y z \<Longrightarrow> \<not> d_less A x z"
    and eq_iff: "d_eq A x y \<longleftrightarrow> \<not> d_less A x y \<and> \<not> d_less A y x"
begin

definition beats :: "'d \<times> u64 \<Rightarrow> 'd \<times> u64 \<Rightarrow> bool" where
  "beats a b \<longleftrightarrow> d_less A (fst a) (fst b) \<or> (d_eq A (fst a) (fst b) \<and> snd a < snd b)"

lemma beats_asym: "beats a b \<Longrightarrow> \<not> beats b a"
  using less_asym by (auto simp: beats_def eq_iff)

lemma not_beats_trans: "\<not> beats a b \<Longrightarrow> \<not> beats b c \<Longrightarrow> \<not> beats a c"
proof
  assume *: "\<not> beats a b" "\<not> beats b c" "beats a c"
  have split: "d_less A x z \<Longrightarrow> d_less A x y \<or> d_less A y z" for x y z
    using not_less_trans by blast
  show False
  proof (cases "d_less A (fst a) (fst c)")
    case True
    with split [of "fst a" "fst c" "fst b"] * show False by (auto simp: beats_def)
  next
    case False
    with * have "\<not> d_less A (fst c) (fst a)" "snd a < snd c" by (auto simp: beats_def eq_iff)
    moreover from this * False have "\<not> d_less A (fst b) (fst a)" "\<not> d_less A (fst c) (fst b)"
      using split [of "fst b" "fst a" "fst c"] split [of "fst c" "fst b" "fst a"]
      by (auto simp: beats_def)
    ultimately show False using * by (auto simp: beats_def eq_iff)
  qed
qed

text \<open>No other entry beats the victim.\<close>

lemma pick_victim_unbeaten:
  fixes now incoming
  assumes "i < length es"
  defines "key \<equiv> \<lambda>i. (q36_kvstore_entry_eviction_score A (es ! i) now incoming, e_last_used (es ! i))"
  shows "\<not> beats (key i) (key (kv_pick_victim A now incoming es))"
proof -
  let ?step = "kv_pick_step A now incoming es"
  let ?P = "\<lambda>k best. snd best = fst (key (fst best)) \<and> (\<forall>j < k. \<not> beats (key j) (key (fst best)))"
  let ?r = "foldl ?step (0, fst (key 0)) [1..<length es]"
  have "?P (length es) ?r"
  proof (rule foldl_upt_invariant [where P = ?P])
    show "?P 1 (0, fst (key 0))"
      using beats_asym [of "key 0" "key 0"] by auto
    show "1 \<le> length es" using assms(1) by simp
  next
    fix k best
    assume P: "?P k best"
    have step: "?step best k = (if beats (key k) (key (fst best)) then (k, fst (key k)) else best)"
      using P by (simp add: kv_pick_step_def beats_def key_def Let_def)
    show "?P (Suc k) (?step best k)"
    proof (cases "beats (key k) (key (fst best))")
      case True
      then have "\<not> beats (key (fst best)) (key k)" "\<not> beats (key k) (key k)"
        using beats_asym by blast+
      with P have "\<not> beats (key j) (key k)" if "j < Suc k" for j
        using that not_beats_trans [of "key j" "key (fst best)" "key k"] by (auto simp: less_Suc_eq)
      with True show ?thesis unfolding step by simp
    next
      case False
      with P show ?thesis unfolding step by (auto simp: less_Suc_eq)
    qed
  qed
  then show ?thesis
    using assms(1) by (simp add: kv_pick_victim_def key_def)
qed

end

text \<open>Exact arithmetic on the reals, the ideal the \<^verbatim>\<open>double\<close> computation approximates.\<close>

definition dbl_real :: "real dbl" where
  "dbl_real = \<lparr>d_of_nat = real, d_lit = (\<lambda>n m. real n / real m), d_add = (+), d_mul = (*),
     d_div = (/), d_neg = uminus, d_exp2 = (\<lambda>x. 2 powr x), d_less = (<), d_eq = (=)\<rparr>"

interpretation dr: dbl_order dbl_real
  by unfold_locales (auto simp: dbl_real_def)

section \<open>The loop\<close>

abbreviation kv_total :: "q36_kvstore_entry list \<Rightarrow> nat" where
  "kv_total es \<equiv> sum_list (map (\<lambda>e. unat (e_file_size e)) es)"

lemma kv_evict_loop_frame:
  "p \<notin> e_path ` set es \<Longrightarrow>
     map_of (os_fs (snd (kv_evict_loop A now incoming target tot es s))) p = map_of (os_fs s) p"
proof (induction A now incoming target tot es s rule: kv_evict_loop.induct)
  case (1 A now incoming target tot es s)
  let ?v = "kv_pick_victim A now incoming es"
  show ?case
  proof (cases "tot > target \<and> es \<noteq> []")
    case True
    then have "?v < length es" by (simp add: kv_pick_victim_bound)
    then have "p \<noteq> e_path (es ! ?v)" "p \<notin> e_path ` set (remove_at ?v es)"
      using "1.prems" set_remove_at [of ?v es] by auto
    then show ?thesis
      using "1.IH" [OF True refl refl refl refl]
      by (simp add: kv_evict_loop.simps [of A now incoming target tot es s] True Let_def
          os_unlink_other)
  next
    case False
    then show ?thesis by (auto simp: kv_evict_loop.simps [of A now incoming target tot es s])
  qed
qed

lemma kv_evict_loop_step:
  assumes "tot > target" "es \<noteq> []"
    and "fst (os_unlink s (e_path (es ! kv_pick_victim A now incoming es)))"
    and "e_file_size (es ! kv_pick_victim A now incoming es) \<le> tot"
  shows "kv_evict_loop A now incoming target tot es s =
    kv_evict_loop A now incoming target (tot - e_file_size (es ! kv_pick_victim A now incoming es))
      (remove_at (kv_pick_victim A now incoming es) es)
      (snd (os_unlink s (e_path (es ! kv_pick_victim A now incoming es))))"
  using assms by (subst kv_evict_loop.simps) (simp add: Let_def)

lemma kv_evict_loop_stop:
  "\<not> (tot > target \<and> es \<noteq> []) \<Longrightarrow> kv_evict_loop A now incoming target tot es s = (es, s)"
  by (subst kv_evict_loop.simps) auto

lemma kv_evict_loop_budget:
  assumes "es = kv_disk s dir" and "unat tot = kv_total es"
    and "distinct (map fst (os_fs s))" and "\<And>p. \<not> os_fail s Op_unlink p"
  shows "fst (kv_evict_loop A now incoming target tot es s)
       = kv_disk (snd (kv_evict_loop A now incoming target tot es s)) dir"
    and "kv_total (fst (kv_evict_loop A now incoming target tot es s)) \<le> unat target"
proof -
  have "fst (kv_evict_loop A now incoming target tot es s)
      = kv_disk (snd (kv_evict_loop A now incoming target tot es s)) dir \<and>
    kv_total (fst (kv_evict_loop A now incoming target tot es s)) \<le> unat target"
    using assms
  proof (induction A now incoming target tot es s rule: kv_evict_loop.induct)
    case (1 A now incoming target tot es s)
    let ?v = "kv_pick_victim A now incoming es"
    let ?p = "e_path (es ! ?v)"
    let ?s = "snd (os_unlink s ?p)"
    show ?case
    proof (cases "tot > target \<and> es \<noteq> []")
      case True
      then have v: "?v < length es" by (simp add: kv_pick_victim_bound)
      then have ok: "fst (os_unlink s ?p)"
        using "1.prems"(1,4) kv_disk_paths [of "es ! ?v" s dir] by (auto simp: os_unlink_fst)
      have tot: "unat tot = unat (e_file_size (es ! ?v)) + kv_total (remove_at ?v es)"
        using sum_list_remove_at [OF v, of "\<lambda>e. unat (e_file_size e)"] "1.prems"(2) by simp
      then have le: "e_file_size (es ! ?v) \<le> tot" by (simp add: word_le_nat_alt)
      have d: "distinct (map e_path es)"
        using distinct_kv_disk [OF "1.prems"(3)] "1.prems"(1) by simp
      have es': "remove_at ?v es = kv_disk ?s dir"
        using remove_at_filter [OF d v] kv_disk_unlink [OF ok] "1.prems"(1) by simp
      have tot': "unat (tot - e_file_size (es ! ?v)) = kv_total (remove_at ?v es)"
        using tot by (simp add: unat_sub [OF le])
      have fs: "distinct (map fst (os_fs ?s))"
        using "1.prems"(3) by (simp add: os_unlink_ok [OF ok] distinct_delete)
      have nofail: "\<not> os_fail ?s Op_unlink p" for p
        using "1.prems"(4) by (simp add: frame_simps)
      have t: "(if fst (os_unlink s ?p)
          then if e_file_size (es ! ?v) \<le> tot then tot - e_file_size (es ! ?v) else 0 else 0)
        = tot - e_file_size (es ! ?v)"
        using ok le by simp
      show ?thesis
        unfolding kv_evict_loop_step [OF conjunct1 [OF True] conjunct2 [OF True] ok le]
        by (rule "1.IH" [OF True refl refl refl refl, unfolded t, OF es' tot' fs nofail])
    next
      case False
      then show ?thesis
        using "1.prems"(1,2)
        unfolding kv_evict_loop_stop [OF False] by (auto simp: word_less_nat_alt)
    qed
  qed
  then show "fst (kv_evict_loop A now incoming target tot es s)
       = kv_disk (snd (kv_evict_loop A now incoming target tot es s)) dir"
    and "kv_total (fst (kv_evict_loop A now incoming target tot es s)) \<le> unat target"
    by (rule conjunct1, rule conjunct2)
qed

lemma unat_sub_le: "(a :: u64) \<le> b \<Longrightarrow> unat (b - a) = unat b - unat a"
  by (rule unat_sub)

section \<open>Eviction\<close>

lemma evict_unfold:
  assumes "kc_enabled kc" "kc_budget_bytes kc \<noteq> 0" "extra \<le> kc_budget_bytes kc"
  shows "q36_kvstore_evict A kc extra incoming s =
    (let es = kv_disk s (kc_dir kc);
         r = kv_evict_loop A (os_now s) incoming (kc_budget_bytes kc - extra)
               (foldl (\<lambda>t e. t + e_file_size e) 0 es) es s
     in (kc\<lparr>kc_entry := fst r\<rparr>, snd r))"
  using assms by (simp add: q36_kvstore_evict_def kv_cache_refresh_eq Let_def not_less)

text \<open>Eviction only removes files.\<close>

lemma os_unlink_map:
  "map_of (os_fs (snd (os_unlink s p))) q = (if fst (os_unlink s p) \<and> q = p then None else map_of (os_fs s) q)"
  by (auto simp: os_unlink_def delete_conv')

lemma kv_evict_loop_os:
  fixes A now incoming target tot es s
  defines "r \<equiv> snd (kv_evict_loop A now incoming target tot es s)"
  shows "os_fail r = os_fail s \<and> os_dirs r = os_dirs s \<and> os_now r = os_now s \<and>
    os_pid r = os_pid s \<and> (\<forall>p. map_of (os_fs r) p = None \<or> map_of (os_fs r) p = map_of (os_fs s) p)"
  unfolding r_def
proof (induction A now incoming target tot es s rule: kv_evict_loop.induct)
  case (1 A now incoming target tot es s)
  show ?case
  proof (cases "tot > target \<and> es \<noteq> []")
    case True
    let ?s = "snd (os_unlink s (e_path (es ! kv_pick_victim A now incoming es)))"
    have m: "map_of (os_fs ?s) p = None \<or> map_of (os_fs ?s) p = map_of (os_fs s) p" for p
      by (simp add: os_unlink_map)
    let ?t = "if fst (os_unlink s (e_path (es ! kv_pick_victim A now incoming es)))
      then if e_file_size (es ! kv_pick_victim A now incoming es) \<le> tot
        then tot - e_file_size (es ! kv_pick_victim A now incoming es) else 0 else 0"
    have eq: "kv_evict_loop A now incoming target tot es s
        = kv_evict_loop A now incoming target ?t (remove_at (kv_pick_victim A now incoming es) es) ?s"
      using True by (subst kv_evict_loop.simps) (simp add: Let_def)
    show ?thesis
      unfolding eq using "1.IH" [OF True refl refl refl refl] m
      by (simp only: frame_simps simp_thms) metis
  next
    case False
    then show ?thesis unfolding kv_evict_loop_stop [OF False] by simp
  qed
qed

lemma evict_os:
  fixes A kc extra incoming s
  defines "r \<equiv> snd (q36_kvstore_evict A kc extra incoming s)"
  shows "os_fail r = os_fail s" "os_dirs r = os_dirs s" "os_now r = os_now s" "os_pid r = os_pid s"
    "map_of (os_fs r) p = None \<or> map_of (os_fs r) p = map_of (os_fs s) p"
  by (simp_all add: r_def q36_kvstore_evict_def Let_def kv_evict_loop_os)

lemma evict_dir [simp]: "kc_dir (fst (q36_kvstore_evict A kc extra incoming s)) = kc_dir kc"
  by (simp add: q36_kvstore_evict_def kv_cache_refresh_eq Let_def)

lemma evict_opt [simp]:
  "kc_opt (fst (q36_kvstore_evict A kc extra incoming s)) = kc_opt kc"
  "kc_enabled (fst (q36_kvstore_evict A kc extra incoming s)) = kc_enabled kc"
  "kc_reject_different_quant (fst (q36_kvstore_evict A kc extra incoming s)) = kc_reject_different_quant kc"
  "kc_budget_bytes (fst (q36_kvstore_evict A kc extra incoming s)) = kc_budget_bytes kc"
  by (simp_all add: q36_kvstore_evict_def kv_cache_refresh_eq Let_def)

text \<open>
  C5. Eviction brings the cache directory under its budget: if no \<^verbatim>\<open>unlink\<close> fails and the
  total size fits 64 bits, then after \<^verbatim>\<open>q36_kvstore_evict\<close> the checkpoint files left on disk
  together with the \<open>extra\<close> bytes about to be written fit \<^verbatim>\<open>budget_bytes\<close>, and the in-memory
  index lists exactly the files left on disk.
\<close>

theorem evict_meets_budget:
  assumes "kc_enabled kc" and "kc_budget_bytes kc \<noteq> 0" and "extra \<le> kc_budget_bytes kc"
    and "distinct (map fst (os_fs s))" and "\<And>p. \<not> os_fail s Op_unlink p"
    and "kv_total (kv_disk s (kc_dir kc)) < 2 ^ 64"
  shows "kv_total (kv_disk (snd (q36_kvstore_evict A kc extra incoming s)) (kc_dir kc)) + unat extra
           \<le> unat (kc_budget_bytes kc) \<and>
         kc_entry (fst (q36_kvstore_evict A kc extra incoming s))
           = kv_disk (snd (q36_kvstore_evict A kc extra incoming s)) (kc_dir kc)"
proof (rule conjI)
  let ?es = "kv_disk s (kc_dir kc)"
  let ?tot = "foldl (\<lambda>t e. t + e_file_size e) 0 ?es"
  have tot: "unat ?tot = kv_total ?es"
    using unat_foldl_add [of 0 e_file_size ?es] assms(6) by simp
  note loop = kv_evict_loop_budget [OF refl tot assms(4,5), of A "os_now s" incoming
      "kc_budget_bytes kc - extra"]
  show "kc_entry (fst (q36_kvstore_evict A kc extra incoming s))
           = kv_disk (snd (q36_kvstore_evict A kc extra incoming s)) (kc_dir kc)"
    using loop(1) by (simp add: evict_unfold [OF assms(1-3)] Let_def)
  have "unat extra \<le> unat (kc_budget_bytes kc)"
    using assms(3) by (simp add: word_le_nat_alt)
  then show "kv_total (kv_disk (snd (q36_kvstore_evict A kc extra incoming s)) (kc_dir kc)) + unat extra
           \<le> unat (kc_budget_bytes kc)"
    using loop unat_sub_le [OF assms(3)] by (simp add: evict_unfold [OF assms(1-3)] Let_def)
qed

text \<open>
  Eviction touches nothing but checkpoints: whatever system calls fail, a file that the scan
  of the cache directory does not list as a checkpoint keeps its contents.
\<close>

lemma evict_keeps:
  assumes "p \<notin> e_path ` set (kv_disk s (kc_dir kc))"
  shows "map_of (os_fs (snd (q36_kvstore_evict A kc extra incoming s))) p = map_of (os_fs s) p"
  using kv_evict_loop_frame [OF assms, of A "os_now s" incoming]
  by (auto simp: q36_kvstore_evict_def kv_cache_refresh_eq Let_def)

text \<open>Nothing is evicted while everything fits.\<close>

lemma evict_idle:
  assumes "kc_enabled kc" and "kv_total (kv_disk s (kc_dir kc)) < 2 ^ 64"
    and "kv_total (kv_disk s (kc_dir kc)) + unat extra \<le> unat (kc_budget_bytes kc)"
  shows "snd (q36_kvstore_evict A kc extra incoming s) = s"
proof (cases "kc_budget_bytes kc = 0")
  case False
  let ?es = "kv_disk s (kc_dir kc)"
  let ?tot = "foldl (\<lambda>t e. t + e_file_size e) 0 ?es"
  have tot: "unat ?tot = kv_total ?es"
    using unat_foldl_add [of 0 e_file_size ?es] assms(2) by simp
  have le: "extra \<le> kc_budget_bytes kc"
    using assms(3) by (simp add: word_le_nat_alt)
  have "\<not> ?tot > kc_budget_bytes kc - extra"
    using tot assms(3) unat_sub_le [OF le] by (simp add: word_less_nat_alt)
  then have "kv_evict_loop A (os_now s) incoming (kc_budget_bytes kc - extra) ?tot ?es s = (?es, s)"
    by (intro kv_evict_loop_stop) simp
  then show ?thesis
    by (simp add: evict_unfold [OF assms(1) False le] Let_def)
qed (simp add: q36_kvstore_evict_def)

end
