(* ===== verification/Tokens.thy ===== *)
theory Tokens
  imports Prelude
begin

text \<open>
  Token lists (\<^verbatim>\<open>q36_tokens\<close> of \<^verbatim>\<open>q36.c\<close>): a growing array of \<^verbatim>\<open>int\<close>, here the list of its entries.
\<close>

definition q36_tokens_push :: "int list \<Rightarrow> int \<Rightarrow> int list" where
  "q36_tokens_push tv token = tv @ [token]"

definition q36_tokens_copy :: "int list \<Rightarrow> int list" where
  "q36_tokens_copy src = foldl q36_tokens_push [] src"

definition q36_tokens_starts_with :: "int list \<Rightarrow> int list \<Rightarrow> bool" where
  "q36_tokens_starts_with tokens pfx \<longleftrightarrow>
     length pfx \<le> length tokens \<and> (\<forall>i \<in> {0..<length pfx}. tokens ! i = pfx ! i)"

lemma tokens_push_all: "foldl q36_tokens_push a ts = a @ ts"
  by (induction ts arbitrary: a) (simp_all add: q36_tokens_push_def)

lemma tokens_copy [simp]: "q36_tokens_copy ts = ts"
  by (simp add: q36_tokens_copy_def tokens_push_all)

lemma tokens_starts_with_iff: "q36_tokens_starts_with v w \<longleftrightarrow> prefix w v"
proof -
  have "(\<forall>i \<in> {0..<length w}. v ! i = w ! i) \<longleftrightarrow> take (length w) v = w" if "length w \<le> length v"
  proof
    assume "\<forall>i \<in> {0..<length w}. v ! i = w ! i"
    then show "take (length w) v = w"
      using that by (intro nth_equalityI) auto
  next
    assume "take (length w) v = w"
    then show "\<forall>i \<in> {0..<length w}. v ! i = w ! i"
      using that by (metis atLeastLessThan_iff nth_take)
  qed
  moreover have "take (length w) v = w \<longleftrightarrow> prefix w v" if "length w \<le> length v"
    using that by (metis append_eq_conv_conj append_take_drop_id prefix_def)
  ultimately show ?thesis
    unfolding q36_tokens_starts_with_def using prefix_length_le by blast
qed

lemma tokens_same:
  "length live = length ts \<and> q36_tokens_starts_with live ts \<longleftrightarrow> live = ts"
  by (auto simp: tokens_starts_with_iff prefix_def)

end
