(* ===== verification/Kv_Store.thy ===== *)
theory Kv_Store
  imports Kv_Lookup Kv_Evict Tokens
begin

text \<open>
  Storing and loading checkpoints (\<^verbatim>\<open>q36_kvstore.c\<close>): \<^verbatim>\<open>q36_kvstore_store_live_prefix_text\<close>
  stages the session, evicts, writes a temporary file and renames it; \<^verbatim>\<open>q36_kvstore_try_load_text\<close>
  finds the longest stored prefix of a prompt, checks it byte by byte and restores the session.

  The engine and the session are used through their functions: the record \<open>kv_engine\<close> lists the
  ones called.  A failing call of the operating system is a branch of \<open>os\<close>; the
  log lines are left out.
\<close>

section \<open>The interfaces\<close>

record 'ss kv_engine =
  en_quant_bits :: int
  en_model_id :: int
  en_token_text :: "int \<Rightarrow> bytes"
  en_tokenize_rendered :: "bytes \<Rightarrow> int list"
  en_ctx :: "'ss \<Rightarrow> int"
  en_tokens :: "'ss \<Rightarrow> int list option"
  en_stage :: "'ss \<Rightarrow> bytes option"
  en_load :: "'ss \<Rightarrow> bytes \<Rightarrow> u64 \<Rightarrow> bool \<times> 'ss \<times> bytes"
  en_invalidate :: "'ss \<Rightarrow> 'ss"

text \<open>
  The trailer hooks.  A hook that is a null pointer is \<open>None\<close>; \<open>th_write\<close> answers its success,
  the bytes it has written and the count it reports; \<open>th_load\<close> reads on from the stream.
\<close>

record 'u kv_hooks =
  th_ext_flag :: u8
  th_size :: "(bytes \<Rightarrow> u64 option) option"
  th_write :: "(bytes \<Rightarrow> bool \<times> bytes \<times> u64) option"
  th_load :: "(bytes \<Rightarrow> 'u \<Rightarrow> 'u) option"

record q36_kvstore_load_result =
  lr_tokens :: int
  lr_text_bytes :: u32
  lr_quant_bits :: u8
  lr_ext_flags :: u8
  lr_path :: bytes

definition load_result0 :: q36_kvstore_load_result where
  "load_result0 = \<lparr>lr_tokens = 0, lr_text_bytes = 0, lr_quant_bits = 0, lr_ext_flags = 0,
     lr_path = []\<rparr>"

section \<open>Tokens and text\<close>

definition q36_kvstore_render_tokens_text :: "'ss kv_engine \<Rightarrow> int list \<Rightarrow> bytes" where
  "q36_kvstore_render_tokens_text en tokens =
     foldl (\<lambda>b t. b @ en_token_text en t) [] tokens"

definition q36_kvstore_byte_prefix_match :: "bytes \<Rightarrow> bytes \<Rightarrow> bool" where
  "q36_kvstore_byte_prefix_match text pfx \<longleftrightarrow>
     length pfx \<le> length text \<and> (length pfx = 0 \<or> take (length pfx) text = pfx)"

definition q36_kvstore_tokens_copy_prefix :: "int list option \<Rightarrow> int \<Rightarrow> int list" where
  "q36_kvstore_tokens_copy_prefix src n =
     (case src of None \<Rightarrow> []
      | Some v \<Rightarrow>
          let n = (if n > int (length v) then int (length v) else n)
          in map (\<lambda>i. v ! i) [0..<nat n])"

definition q36_kvstore_build_prompt_from_exact_prefix_and_text_suffix ::
  "'ss kv_engine \<Rightarrow> int list \<Rightarrow> bytes option \<Rightarrow> int list" where
  "q36_kvstore_build_prompt_from_exact_prefix_and_text_suffix en exact_prefix suffix_text =
     exact_prefix @ en_tokenize_rendered en (case suffix_text of None \<Rightarrow> [] | Some s \<Rightarrow> s)"

section \<open>Files\<close>

definition kv_touch_header :: "q36_kvstore_entry \<Rightarrow> u8 \<Rightarrow> u32 \<Rightarrow> u64 \<Rightarrow> bytes" where
  "kv_touch_header e ext_flags hits now =
     q36_kvstore_fill_header (e_model_id e) (e_quant_bits e) (e_reason e) ext_flags
       (e_tokens e) hits (e_ctx_size e) (e_created_at e) now (e_payload_bytes e)"

text \<open>The answer is that of the write; one that only fails when \<^verbatim>\<open>fclose\<close> flushes it counts as failed here.\<close>

definition q36_kvstore_touch_file :: "bytes \<Rightarrow> u32 \<Rightarrow> os \<Rightarrow> bool \<times> os" where
  "q36_kvstore_touch_file path hits s =
     (case os_read s path of None \<Rightarrow> (False, s)
      | Some data \<Rightarrow>
          (case q36_kvstore_read_header data kv_entry0 of None \<Rightarrow> (False, s)
           | Some (e, text_bytes, _) \<Rightarrow>
               os_pwrite s path 0 (kv_touch_header e (e_ext_flags e) hits (os_now s))))"

definition kv_cache_file_text_matches :: "os \<Rightarrow> bytes \<Rightarrow> bytes \<Rightarrow> bytes \<Rightarrow> bool" where
  "kv_cache_file_text_matches s path sha text =
     (if length text > unat (- 1 :: u32) then False
      else case os_read s path of None \<Rightarrow> False
           | Some data \<Rightarrow>
               (case q36_kvstore_read_header data kv_entry0 of None \<Rightarrow> False
                | Some (hdr, text_bytes, fp) \<Rightarrow>
                    if text_bytes \<noteq> word_of_nat (length text) then False
                    else (case fread (unat text_bytes) fp of None \<Rightarrow> False
                          | Some (stored, _) \<Rightarrow>
                              q36_kvstore_sha1_bytes_hex stored = sha \<and>
                              (length text = 0 \<or> take (length text) stored = text))))"

definition kv_cache_existing_compatible ::
  "q36_kvstore \<Rightarrow> bytes \<Rightarrow> bytes \<Rightarrow> bytes \<Rightarrow> int \<Rightarrow> int \<Rightarrow> int \<Rightarrow> os \<Rightarrow> bool \<times> os" where
  "kv_cache_existing_compatible kc path sha text model_id quant_bits ctx_size s =
     (if map_of (os_fs s) path = None then (False, s)
      else case q36_kvstore_read_entry_file s path sha of None \<Rightarrow> (False, s)
           | Some e \<Rightarrow>
               if e_model_id e = word_of_int model_id \<and>
                  (\<not> kc_reject_different_quant kc \<or> e_quant_bits e = word_of_int quant_bits) \<and>
                  e_ctx_size e \<le> word_of_int ctx_size \<and>
                  kv_cache_file_text_matches s path sha text
               then (True, s) else (False, snd (os_unlink s path)))"

definition kv_trailer_serialized_size :: "'u kv_hooks option \<Rightarrow> bytes \<Rightarrow> u64 option" where
  "kv_trailer_serialized_size hooks text =
     (case hooks of None \<Rightarrow> Some 0
      | Some h \<Rightarrow> (case th_size h of None \<Rightarrow> Some 0 | Some f \<Rightarrow> f text))"

definition kv_trailer_write :: "'u kv_hooks option \<Rightarrow> bytes \<Rightarrow> bool \<times> bytes \<times> u64" where
  "kv_trailer_write hooks text =
     (case hooks of None \<Rightarrow> (True, [], 0)
      | Some h \<Rightarrow> (case th_write h of None \<Rightarrow> (True, [], 0) | Some f \<Rightarrow> f text))"

text \<open>
  \<^verbatim>\<open>ftruncate(fd, end)\<close> cuts the file or fills it with zeros up to \<open>end\<close>.  The offset of the
  trailer is a 64-bit sum, as in the code.
\<close>

definition kv_trailer_base :: "u64 \<Rightarrow> bytes \<Rightarrow> bytes" where
  "kv_trailer_base off data = take (unat off) (data @ replicate (unat off - length data) 0)"

definition kv_cache_rewrite_trailer :: "bytes \<Rightarrow> bytes \<Rightarrow> 'u kv_hooks option \<Rightarrow> os \<Rightarrow> os" where
  "kv_cache_rewrite_trailer path text hooks s =
     (case hooks of None \<Rightarrow> s
      | Some h \<Rightarrow>
          if th_write h = None \<or> th_size h = None then s
          else (case kv_trailer_serialized_size hooks text of None \<Rightarrow> s
           | Some trailer_est \<Rightarrow>
              if trailer_est = 0 then s
              else (case os_read s path of None \<Rightarrow> s
               | Some data \<Rightarrow>
                  (case q36_kvstore_read_header data kv_entry0 of None \<Rightarrow> s
                   | Some (hdr, text_bytes, _) \<Rightarrow>
                      let off = 48 + 4 + ucast text_bytes + e_payload_bytes hdr :: u64
                      in if off \<le> 0x7FFFFFFFFFFFFFFF \<and> \<not> os_fail s Op_truncate path
                         then let s = os_put s path (kv_trailer_base off data);
                                  (wok, out, written) = kv_trailer_write hooks text;
                                  (fok, s) = os_pwrite s path (unat off) out
                              in if wok \<and> fok \<and> written > 0
                                 then snd (os_pwrite s path 0
                                        (kv_touch_header hdr (e_ext_flags hdr OR th_ext_flag h)
                                           (e_hits hdr) (os_now s)))
                                 else s
                         else s))))"

section \<open>Storing\<close>

text \<open>
  The checks before the cache directory is looked at: the tokens to store are the live session's,
  the text is the override or the rendered tokens and its length fits the header, and the size of
  the trailer is known.
\<close>

definition kv_store_admit ::
  "q36_kvstore \<Rightarrow> 'ss kv_engine \<Rightarrow> 'ss \<Rightarrow> int list option \<Rightarrow> int \<Rightarrow> bytes option \<Rightarrow>
   'u kv_hooks option \<Rightarrow> (int list \<times> bool \<times> bytes \<times> u64) option" where
  "kv_store_admit kc en session tokens store_len cache_text_override hooks =
     (if \<not> kc_enabled kc then None
      else if tokens = None \<or> store_len < min_tokens (kc_opt kc) then None
      else let store_tokens = q36_kvstore_tokens_copy_prefix tokens store_len
           in if \<not> q36_kvstore_quant_bits_valid (en_quant_bits en) then None
              else (case en_tokens en session of None \<Rightarrow> None
               | Some live \<Rightarrow>
                  if length live \<noteq> length store_tokens \<or> \<not> q36_tokens_starts_with live store_tokens
                  then None
                  else let (text_override, text) =
                         (case cache_text_override of
                            Some (c # cs) \<Rightarrow> (True, c # cs)
                          | _ \<Rightarrow> (False, q36_kvstore_render_tokens_text en store_tokens))
                       in if length text > unat (- 1 :: u32) then None
                          else (case kv_trailer_serialized_size hooks text of None \<Rightarrow> None
                                | Some trailer_est \<Rightarrow>
                                    Some (store_tokens, text_override, text, trailer_est))))"

definition kv_tmp_path :: "os \<Rightarrow> bytes \<Rightarrow> bytes" where
  "kv_tmp_path s path = path @ str ''.tmp.'' @ os_pid s"

text \<open>
  Writing the temporary file and renaming it.  Every write before the hook's fails as \<open>os_fail s
  Op_write tmp\<close> says (the copy of the staged payload included); what the failing hook has written
  stays in the file, which is then removed.
\<close>

definition kv_store_write ::
  "q36_kvstore \<Rightarrow> bytes \<Rightarrow> bytes \<Rightarrow> bytes \<Rightarrow> bytes \<Rightarrow> 'u kv_hooks option \<Rightarrow> os \<Rightarrow> bool \<times> os" where
  "kv_store_write kc path h text payload hooks s =
     (let tmp = kv_tmp_path s path
      in if os_fail s Op_create tmp then (False, s)
         else let (wok, out, trailer_bytes) = kv_trailer_write hooks text;
                  (fok, s) = os_pwrite (os_put s tmp []) tmp 0
                    (h @ le_put32 (word_of_nat (length text)) @ text @ payload @ out);
                  fits = fst (q36_kvstore_file_size_fits (kc_budget_bytes kc)
                    (word_of_nat (length text)) (word_of_nat (length payload)) trailer_bytes);
                  (ok, s) = (if wok \<and> fok \<and> fits then os_rename s tmp path else (False, s))
              in if ok then (True, s) else (False, snd (os_unlink s tmp)))"

definition q36_kvstore_store_live_prefix_text ::
  "'d dbl \<Rightarrow> q36_kvstore \<Rightarrow> 'ss kv_engine \<Rightarrow> 'ss \<Rightarrow> int list option \<Rightarrow> int \<Rightarrow> bytes option \<Rightarrow>
   bytes option \<Rightarrow> u8 \<Rightarrow> 'u kv_hooks option \<Rightarrow> os \<Rightarrow> bool \<times> q36_kvstore \<times> os" where
  "q36_kvstore_store_live_prefix_text A kc en session tokens store_len reason
     cache_text_override cache_text_ext hooks s =
     (case kv_store_admit kc en session tokens store_len cache_text_override hooks of
        None \<Rightarrow> (False, kc, s)
      | Some (store_tokens, text_override, text, trailer_est) \<Rightarrow>
          let sha = q36_kvstore_sha1_bytes_hex text;
              path = q36_kvstore_path_for_sha (kc_dir kc) sha;
              (same, s) = kv_cache_existing_compatible kc path sha text (en_model_id en)
                            (en_quant_bits en) (en_ctx en session) s
          in if same then (True, kc, kv_cache_rewrite_trailer path text hooks s)
             else (case en_stage en session of None \<Rightarrow> (False, kc, s)
              | Some payload \<Rightarrow>
                  let payload_bytes = word_of_nat (length payload) :: u64;
                      (fits, est_file_bytes, _) = q36_kvstore_file_size_fits (kc_budget_bytes kc)
                        (word_of_nat (length text)) payload_bytes trailer_est
                  in if \<not> fits then (False, kc, s)
                     else let incoming = \<lparr>ic_text = Some text, ic_model_id = word_of_int (en_model_id en),
                                ic_quant_bits = word_of_int (en_quant_bits en),
                                ic_ctx_size = word_of_int (en_ctx en session),
                                ic_reject_different_quant = kc_reject_different_quant kc\<rparr>;
                              (kc, s) = q36_kvstore_evict A kc est_file_bytes (Some incoming) s;
                              ext_flags = (case hooks of
                                  Some h \<Rightarrow> if trailer_est > 0 then th_ext_flag h else 0
                                | None \<Rightarrow> 0);
                              ext_flags = (if text_override then ext_flags OR cache_text_ext else ext_flags);
                              h = q36_kvstore_fill_header (word_of_int (en_model_id en))
                                    (word_of_int (en_quant_bits en)) (q36_kvstore_reason_code reason)
                                    ext_flags (word_of_nat (length store_tokens)) 0
                                    (word_of_int (en_ctx en session)) (os_now s) (os_now s) payload_bytes;
                              (ok, s) = kv_store_write kc path h text payload hooks s
                          in (ok, kc, s)))"

definition q36_kvstore_store_live_prefix ::
  "'d dbl \<Rightarrow> q36_kvstore \<Rightarrow> 'ss kv_engine \<Rightarrow> 'ss \<Rightarrow> int list option \<Rightarrow> int \<Rightarrow> bytes option \<Rightarrow>
   'u kv_hooks option \<Rightarrow> os \<Rightarrow> bool \<times> q36_kvstore \<times> os" where
  "q36_kvstore_store_live_prefix A kc en session tokens store_len reason hooks s =
     q36_kvstore_store_live_prefix_text A kc en session tokens store_len reason None 0 hooks s"

definition q36_kvstore_maybe_store_continued ::
  "'d dbl \<Rightarrow> q36_kvstore \<Rightarrow> 'ss kv_engine \<Rightarrow> 'ss \<Rightarrow> 'u kv_hooks option \<Rightarrow> os \<Rightarrow>
   bool \<times> q36_kvstore \<times> os" where
  "q36_kvstore_maybe_store_continued A kc en session hooks s =
     (case en_tokens en session of None \<Rightarrow> (False, kc, s)
      | Some tokens \<Rightarrow>
          let target = q36_kvstore_continued_store_target kc (int (length tokens))
          in if target = 0 then (False, kc, s)
             else let (ok, kc, s) = q36_kvstore_store_live_prefix A kc en session (Some tokens)
                        target (Some (str ''continued'')) hooks s
                  in if ok then (True, q36_kvstore_note_store kc target, s) else (False, kc, s))"

section \<open>Loading\<close>

text \<open>The checks of the file found: its header, its text and the prompt.\<close>

definition kv_load_check ::
  "bytes \<Rightarrow> bytes \<Rightarrow> bytes \<Rightarrow> u8 \<Rightarrow> (q36_kvstore_entry \<times> u32 \<times> bytes) option" where
  "kv_load_check data sha prompt model_id =
     (case q36_kvstore_read_header data kv_entry0 of None \<Rightarrow> None
      | Some (hdr, text_bytes, fp) \<Rightarrow>
          if e_model_id hdr \<noteq> model_id then None
          else if unat text_bytes > length prompt then None
          else (case fread (unat text_bytes) fp of None \<Rightarrow> None
           | Some (cached_text, fp) \<Rightarrow>
               if q36_kvstore_sha1_bytes_hex cached_text \<noteq> sha then None
               else if \<not> q36_kvstore_byte_prefix_match prompt cached_text then None
               else Some (hdr, text_bytes, fp)))"

record ('ss, 'u) kv_load_state =
  ls_kc :: q36_kvstore
  ls_session :: 'ss
  ls_user :: 'u
  ls_os :: os
  ls_prompt :: "int list"
  ls_result :: q36_kvstore_load_result

definition q36_kvstore_try_load_text ::
  "q36_kvstore \<Rightarrow> 'ss kv_engine \<Rightarrow> 'ss \<Rightarrow> bytes option \<Rightarrow> 'u kv_hooks option \<Rightarrow> 'u \<Rightarrow> os \<Rightarrow>
   int \<times> ('ss, 'u) kv_load_state" where
  "q36_kvstore_try_load_text kc en session prompt_text hooks u s =
     (let st = \<lparr>ls_kc = kc, ls_session = session, ls_user = u, ls_os = s, ls_prompt = [],
                ls_result = load_result0\<rparr>;
          model_id = word_of_int (en_model_id en) :: u8
      in case prompt_text of None \<Rightarrow> (0, st)
         | Some prompt \<Rightarrow>
             if \<not> kc_enabled kc \<or> \<not> q36_kvstore_quant_bits_valid (en_quant_bits en) then (0, st)
             else let (idx, kc) = q36_kvstore_find_text_prefix kc (Some prompt) (en_model_id en)
                        (en_quant_bits en) (en_ctx en session) s;
                      st = st\<lparr>ls_kc := kc\<rparr>
             in (case idx of None \<Rightarrow> (0, st)
              | Some i \<Rightarrow>
                 let e = kc_entry kc ! i; path = e_path e
                 in (case os_read s path of None \<Rightarrow> (0, st)
                  | Some data \<Rightarrow>
                     (case kv_load_check data (e_sha e) prompt model_id of None \<Rightarrow> (0, st)
                      | Some (hdr, text_bytes, fp) \<Rightarrow>
                         let (lok, ss, fp) = en_load en session fp (e_payload_bytes hdr)
                         in if \<not> lok then (0, st\<lparr>ls_session := en_invalidate en ss\<rparr>)
                            else if (case en_tokens en ss of None \<Rightarrow> True
                                     | Some v \<Rightarrow> int (length v) \<noteq> sint (e_tokens hdr))
                            then (0, st\<lparr>ls_session := en_invalidate en ss,
                                        ls_os := snd (os_unlink s path)\<rparr>)
                            else let loaded = sint (e_tokens hdr);
                                     st = st\<lparr>ls_session := ss,
                                       ls_prompt := q36_kvstore_build_prompt_from_exact_prefix_and_text_suffix
                                         en (the (en_tokens en ss)) (Some (drop (unat text_bytes) prompt)),
                                       ls_user := (case hooks of None \<Rightarrow> u
                                         | Some h \<Rightarrow> (case th_load h of None \<Rightarrow> u
                                            | Some f \<Rightarrow> if e_ext_flags hdr AND th_ext_flag h \<noteq> 0
                                                        then f fp u else u))\<rparr>
                                 in if loaded > 0
                                    then (loaded, st\<lparr>ls_kc := kc\<lparr>kc_continued_last_store_tokens := loaded\<rparr>,
                                           ls_os := snd (q36_kvstore_touch_file path (e_hits hdr + 1) s),
                                           ls_result := \<lparr>lr_tokens = loaded, lr_text_bytes = text_bytes,
                                             lr_quant_bits = e_quant_bits hdr,
                                             lr_ext_flags = e_ext_flags hdr, lr_path = path\<rparr>\<rparr>)
                                    else (loaded, st)))))"

definition q36_kvstore_load_result_free :: "q36_kvstore_load_result \<Rightarrow> q36_kvstore_load_result" where
  "q36_kvstore_load_result_free r = load_result0"

section \<open>Copies and prefixes\<close>

lemma render_tokens_text_concat:
  "q36_kvstore_render_tokens_text en ts = concat (map (en_token_text en) ts)"
proof -
  have "foldl (\<lambda>b t. b @ en_token_text en t) b ts = b @ concat (map (en_token_text en) ts)" for b
    by (induction ts arbitrary: b) auto
  then show ?thesis by (simp add: q36_kvstore_render_tokens_text_def)
qed

lemma byte_prefix_match_iff: "q36_kvstore_byte_prefix_match text pfx \<longleftrightarrow> starts_with pfx text"
  by (auto simp: q36_kvstore_byte_prefix_match_def starts_with_def)

lemma tokens_copy_prefix_take:
  "q36_kvstore_tokens_copy_prefix (Some v) n = take (nat n) v"
proof -
  have "map (\<lambda>i. v ! i) [0..<k] = take k v" if "k \<le> length v" for k
    using that by (intro nth_equalityI) auto
  then show ?thesis
    by (simp add: q36_kvstore_tokens_copy_prefix_def Let_def)
qed

text \<open>What an admitted store is about: the live tokens themselves, and their text.\<close>

lemma store_admit_Some:
  assumes "kv_store_admit kc en ss tokens n ovr hooks = Some (ts, b, text, est)"
  shows "kc_enabled kc" "en_tokens en ss = Some ts" "\<exists>v. tokens = Some v \<and> ts = take (nat n) v"
    "q36_kvstore_quant_bits_valid (en_quant_bits en)" "length text < 2 ^ 32"
    "min_tokens (kc_opt kc) \<le> n"
    "text = (case ovr of Some (c # cs) \<Rightarrow> c # cs | _ \<Rightarrow> q36_kvstore_render_tokens_text en ts)"
    "kv_trailer_serialized_size hooks text = Some est"
proof -
  have max: "unat (- 1 :: u32) = 2 ^ 32 - 1"
    by (simp add: unsigned_minus_1_eq_mask mask_eq_exp_minus_1)
  obtain v live where v: "tokens = Some v" "en_tokens en ss = Some live"
    using assms by (cases tokens; cases "en_tokens en ss") (simp_all add: kv_store_admit_def Let_def split: if_splits)
  define t0 where "t0 = (case ovr of Some (c # cs) \<Rightarrow> c # cs
      | _ \<Rightarrow> q36_kvstore_render_tokens_text en (take (nat n) v))"
  obtain b0 where bt: "(case ovr of Some (c # cs) \<Rightarrow> (True, c # cs)
      | _ \<Rightarrow> (False, q36_kvstore_render_tokens_text en (take (nat n) v))) = (b0, t0)"
    unfolding t0_def by (cases ovr; cases "the ovr") fastforce+
  have *: "kc_enabled kc" "min_tokens (kc_opt kc) \<le> n" "q36_kvstore_quant_bits_valid (en_quant_bits en)"
    "length live = length (take (nat n) v) \<and> q36_tokens_starts_with live (take (nat n) v)"
    "length t0 \<le> unat (- 1 :: u32)" "kv_trailer_serialized_size hooks t0 = Some est"
    "ts = take (nat n) v" "text = t0"
    using assms unfolding kv_store_admit_def Let_def v tokens_copy_prefix_take option.case bt prod.case
    by (simp_all only: option.distinct simp_thms not_le not_less not_not split: if_split_asm option.split_asm)
      auto
  show "kc_enabled kc" "en_tokens en ss = Some ts" "\<exists>v. tokens = Some v \<and> ts = take (nat n) v"
    "q36_kvstore_quant_bits_valid (en_quant_bits en)" "length text < 2 ^ 32"
    "min_tokens (kc_opt kc) \<le> n"
    "text = (case ovr of Some (c # cs) \<Rightarrow> c # cs | _ \<Rightarrow> q36_kvstore_render_tokens_text en ts)"
    "kv_trailer_serialized_size hooks text = Some est"
    unfolding *(7,8) using *(1-6) max tokens_same [of live "take (nat n) v"] v
    by (simp_all add: t0_def)
qed

section \<open>A complete checkpoint\<close>

definition kv_file ::
  "u8 \<Rightarrow> u8 \<Rightarrow> u8 \<Rightarrow> u8 \<Rightarrow> u32 \<Rightarrow> u32 \<Rightarrow> u32 \<Rightarrow> u64 \<Rightarrow> u64 \<Rightarrow> bytes \<Rightarrow> bytes \<Rightarrow> bytes \<Rightarrow> bytes" where
  "kv_file m q r x t h c cr lu text payload out =
     q36_kvstore_fill_header m q r x t h c cr lu (word_of_nat (length payload)) @
     le_put32 (word_of_nat (length text)) @ text @ payload @ out"

lemma length_kv_file:
  "length (kv_file m q r x t h c cr lu text payload out)
     = 52 + length text + length payload + length out"
  by (simp add: kv_file_def le32.length_put)

lemma fread_append [simp]: "length a = n \<Longrightarrow> fread n (a @ b) = Some (a, b)"
  by (auto simp: fread_def)

lemma read_header_kv_file:
  assumes "t \<noteq> 0" and "q36_kvstore_quant_bits_valid (uint q)"
  shows "q36_kvstore_read_header (kv_file m q r x t h c cr lu text payload out) e =
    Some (kv_header_entry m q r x t h c cr lu (word_of_nat (length payload))
            (word_of_nat (length text)) e, word_of_nat (length text), text @ payload @ out)"
  using assms by (simp add: kv_file_def read_fill_header)

lemma load_check_kv_file:
  assumes "t \<noteq> 0" and "q36_kvstore_quant_bits_valid (uint q)" and "length text < 2 ^ 32"
  shows "kv_load_check (kv_file m q r x t h c cr lu text payload out)
      (q36_kvstore_sha1_bytes_hex text) (text @ rest) m =
    Some (kv_header_entry m q r x t h c cr lu (word_of_nat (length payload))
            (word_of_nat (length text)) kv_entry0, word_of_nat (length text), payload @ out)"
proof -
  have "unat (word_of_nat (length text) :: u32) = length text"
    by (rule unat_word_of_nat_small) (use assms(3) in simp)
  then show ?thesis
    by (simp add: kv_load_check_def read_header_kv_file [OF assms(1,2)] kv_header_entry_def
        byte_prefix_match_iff)
qed

section \<open>What a store does to the disk\<close>

lemma read_entry_file_cong:
  "map_of (os_fs s') p = map_of (os_fs s) p \<Longrightarrow> os_fail s' = os_fail s \<Longrightarrow>
     q36_kvstore_read_entry_file s' p sha = q36_kvstore_read_entry_file s p sha"
proof -
  assume "map_of (os_fs s') p = map_of (os_fs s) p" "os_fail s' = os_fail s"
  then have "os_stat_size s' p = os_stat_size s p" "os_read s' p = os_read s p"
    by (simp_all add: os_stat_size_def os_read_def)
  then show ?thesis
    unfolding q36_kvstore_read_entry_file_def by (simp only:)
qed

lemma tmp_path_neq [simp]: "kv_tmp_path s path \<noteq> path" "path \<noteq> kv_tmp_path s path"
  by (simp_all add: kv_tmp_path_def str_def)

lemma os_rename_map:
  assumes "old \<noteq> new"
  shows "fst (os_rename s old new) \<Longrightarrow> map_of (os_fs s) old = Some d \<Longrightarrow>
      map_of (os_fs (snd (os_rename s old new))) = (map_of (os_fs s))(old := None, new \<mapsto> d)"
    "\<not> fst (os_rename s old new) \<Longrightarrow> snd (os_rename s old new) = s"
  by (auto simp: os_rename_def update_conv' delete_conv' split: option.splits if_splits)

text \<open>
  Writing the temporary file never leaves a partial checkpoint under the final name: either it
  succeeds and the final name holds the complete file, or the final name is as it was.
\<close>

lemma store_write_cases:
  fixes kc path h tx payload hooks s
  defines "r \<equiv> kv_store_write kc path h tx payload hooks s"
    and "out \<equiv> fst (snd (kv_trailer_write hooks tx))"
  shows "(fst r \<longrightarrow> map_of (os_fs (snd r)) = (map_of (os_fs s))(kv_tmp_path s path := None,
              path \<mapsto> h @ le_put32 (word_of_nat (length tx)) @ tx @ payload @ out) \<and>
            fst (kv_trailer_write hooks tx) \<and>
            fst (q36_kvstore_file_size_fits (kc_budget_bytes kc) (word_of_nat (length tx))
                   (word_of_nat (length payload)) (snd (snd (kv_trailer_write hooks tx))))) \<and>
         (\<not> fst r \<longrightarrow> (\<forall>p. p \<noteq> kv_tmp_path s path \<longrightarrow>
            map_of (os_fs (snd r)) p = map_of (os_fs s) p)) \<and>
         os_dirs (snd r) = os_dirs s \<and> os_fail (snd r) = os_fail s"
proof -
  let ?tmp = "kv_tmp_path s path"
  let ?data = "h @ le_put32 (word_of_nat (length tx)) @ tx @ payload @ out"
  let ?w = "os_pwrite (os_put s ?tmp []) ?tmp 0 ?data"
  obtain wok n where hk: "kv_trailer_write hooks tx = (wok, out, n)"
    by (metis out_def prod.collapse)
  have w: "fst ?w \<Longrightarrow> map_of (os_fs (snd ?w)) = (map_of (os_fs s))(?tmp \<mapsto> ?data)"
    "p \<noteq> ?tmp \<Longrightarrow> map_of (os_fs (snd ?w)) p = map_of (os_fs s) p" for p
    by (auto simp: os_pwrite_def poke_def split: if_splits)
  have fr: "os_dirs (snd ?w) = os_dirs s" "os_fail (snd ?w) = os_fail s"
    by (simp_all add: frame_simps)
  obtain fok s1 where w1: "?w = (fok, s1)" by fastforce
  obtain rok s2 where r1: "os_rename s1 ?tmp path = (rok, s2)" by fastforce
  note [simp] = w [unfolded w1 fst_conv snd_conv] fr [unfolded w1 fst_conv snd_conv]
  have ren: "rok \<Longrightarrow> fok \<Longrightarrow> map_of (os_fs s2) = (map_of (os_fs s))(?tmp := None, path \<mapsto> ?data)"
    "\<not> rok \<Longrightarrow> s2 = s1" "os_dirs s2 = os_dirs s" "os_fail s2 = os_fail s"
    using os_rename_map(1) [of ?tmp path s1 ?data] os_rename_map(2) [of ?tmp path s1] os_rename_frame [of s1 ?tmp path] r1
    by (auto simp: fun_upd_twist)
  show ?thesis
    using ren os_unlink_frame [of s1 ?tmp]
    by (auto simp: r_def kv_store_write_def Let_def hk w1 r1 os_unlink_other)
qed

section \<open>Headers that are read and rewritten\<close>

lemma read_header_Some:
  assumes "q36_kvstore_read_header data kv_entry0 = Some (e, tb, fp)"
  obtains H T where "data = H @ T @ fp" "length H = 48" "length T = 4" "tb = le_get32 T"
    "\<And>fp'. q36_kvstore_read_header (H @ T @ fp') kv_entry0 = Some (e, tb, fp')"
    "e_tokens e \<noteq> 0" "q36_kvstore_quant_bits_valid (uint (e_quant_bits e))" "e_reason e \<le> 6"
    "e_text_bytes e = ucast tb" "e_sha e = []" "e_path e = []" "e_file_size e = 0"
proof -
  let ?H = "take 48 data" and ?T = "take 4 (drop 48 data)"
  have len: "52 \<le> length data" and fp: "fp = drop 52 data"
    using assms by (auto simp: q36_kvstore_read_header_def fread_def KV_HEADER_def Let_def
        split: option.splits if_splits)
  have d: "data = ?H @ ?T @ fp"
    using append_take_drop_id [of 48 data] append_take_drop_id [of 4 "drop 48 data"]
    unfolding fp by simp
  show thesis
  proof (rule that [of ?H ?T])
    show "data = ?H @ ?T @ fp" by (rule d)
    show "length ?H = 48" "length ?T = 4" using len by simp_all
    show "tb = le_get32 ?T" "e_tokens e \<noteq> 0" "q36_kvstore_quant_bits_valid (uint (e_quant_bits e))"
      "e_reason e \<le> 6" "e_text_bytes e = ucast tb" "e_sha e = []" "e_path e = []"
      "e_file_size e = 0"
      using assms by (auto simp: q36_kvstore_read_header_def fread_def KV_HEADER_def Let_def
          kv_entry0_def split: option.splits if_splits)
    show "q36_kvstore_read_header (?H @ ?T @ fp') kv_entry0 = Some (e, tb, fp')" for fp'
      using assms len by (auto simp: q36_kvstore_read_header_def fread_def KV_HEADER_def Let_def
          split: option.splits if_splits)
  qed
qed

lemma length_touch_header [simp]: "length (kv_touch_header e x h now) = 48"
  by (simp add: kv_touch_header_def)

text \<open>A rewritten header says what it said, with the new flags, hits and time.\<close>

lemma read_touch_header:
  assumes "q36_kvstore_read_header (H @ T @ fp) kv_entry0 = Some (e, tb, fp)"
    and "length H = 48" and "length T = 4"
  shows "q36_kvstore_read_header (kv_touch_header e x h now @ T @ fp') kv_entry0 =
    Some (e\<lparr>e_ext_flags := x, e_hits := h, e_last_used := now\<rparr>, tb, fp')"
proof -
  obtain H' T' where p: "H @ T @ fp = H' @ T' @ fp" "length H' = 48" "length T' = 4"
    "tb = le_get32 T'" "e_tokens e \<noteq> 0" "q36_kvstore_quant_bits_valid (uint (e_quant_bits e))"
    "e_reason e \<le> 6" "e_text_bytes e = ucast tb" "e_sha e = []" "e_path e = []" "e_file_size e = 0"
    using assms(1) by (elim read_header_Some) blast
  then have "T = le_put32 tb"
    using assms(2,3) le32.put_get by auto
  with p show ?thesis
    by (simp add: kv_touch_header_def read_fill_header kv_header_entry_def kv_entry0_def)
qed

lemma poke_front: "length a = length b \<Longrightarrow> poke 0 a (b @ c) = a @ c"
  by (simp add: poke_def)

text \<open>What the touch of a hit leaves in the file.\<close>

lemma touch_file_ok:
  assumes "fst (q36_kvstore_touch_file path h s)"
  obtains H T e tb fp where "map_of (os_fs s) path = Some (H @ T @ fp)"
    "length H = 48" "length T = 4"
    "q36_kvstore_read_header (H @ T @ fp) kv_entry0 = Some (e, tb, fp)"
    "map_of (os_fs (snd (q36_kvstore_touch_file path h s))) path
       = Some (kv_touch_header e (e_ext_flags e) h (os_now s) @ T @ fp)"
proof -
  obtain data e tb fp where d: "os_read s path = Some data"
    "q36_kvstore_read_header data kv_entry0 = Some (e, tb, fp)"
    using assms by (auto simp: q36_kvstore_touch_file_def split: option.splits)
  obtain H T where p: "data = H @ T @ fp" "length H = 48" "length T = 4"
    "\<And>fp'. q36_kvstore_read_header (H @ T @ fp') kv_entry0 = Some (e, tb, fp')"
    using d(2) by (elim read_header_Some) blast
  have m: "map_of (os_fs s) path = Some (H @ T @ fp)"
    using d(1) p(1) by (auto simp: os_read_def split: if_splits)
  have "poke 0 (kv_touch_header e (e_ext_flags e) h (os_now s)) (H @ T @ fp)
      = kv_touch_header e (e_ext_flags e) h (os_now s) @ T @ fp"
    by (rule poke_front) (simp add: p(2))
  with assms d p m have "map_of (os_fs (snd (q36_kvstore_touch_file path h s))) path
      = Some (kv_touch_header e (e_ext_flags e) h (os_now s) @ T @ fp)"
    by (auto simp: q36_kvstore_touch_file_def os_pwrite_def split: if_splits)
  with m p show thesis by (intro that [of H T fp e tb]) simp_all
qed

lemma touch_file_frame:
  "os_fail (snd (q36_kvstore_touch_file path h s)) = os_fail s"
  "os_dirs (snd (q36_kvstore_touch_file path h s)) = os_dirs s"
  "os_now (snd (q36_kvstore_touch_file path h s)) = os_now s"
  by (simp_all add: q36_kvstore_touch_file_def frame_simps split: option.split)

text \<open>
  A hit only changes the use counters: after \<^verbatim>\<open>q36_kvstore_touch_file\<close> succeeds, a scan
  reads the same entry as before from the file, with the new hit count and the current time, and
  every other file is untouched.
\<close>

theorem touch_file_entry:
  assumes "fst (q36_kvstore_touch_file path h s)"
    and "q36_kvstore_read_entry_file s path sha = Some e"
  shows "q36_kvstore_read_entry_file (snd (q36_kvstore_touch_file path h s)) path sha
      = Some (e\<lparr>e_hits := h, e_last_used := os_now s\<rparr>) \<and>
    (p \<noteq> path \<longrightarrow> map_of (os_fs (snd (q36_kvstore_touch_file path h s))) p = map_of (os_fs s) p)"
proof (rule conjI)
  obtain H T e0 tb fp where t: "map_of (os_fs s) path = Some (H @ T @ fp)"
    "length H = 48" "length T = 4"
    "q36_kvstore_read_header (H @ T @ fp) kv_entry0 = Some (e0, tb, fp)"
    "map_of (os_fs (snd (q36_kvstore_touch_file path h s))) path
       = Some (kv_touch_header e0 (e_ext_flags e0) h (os_now s) @ T @ fp)"
    using assms(1) by (rule touch_file_ok)
  note r = read_touch_header [OF t(4,2,3), of "e_ext_flags e0" h "os_now s" fp]
  have keep: "e0\<lparr>e_ext_flags := e_ext_flags e0, e_hits := h, e_last_used := os_now s\<rparr>
      = e0\<lparr>e_hits := h, e_last_used := os_now s\<rparr>" by simp
  show "q36_kvstore_read_entry_file (snd (q36_kvstore_touch_file path h s)) path sha
      = Some (e\<lparr>e_hits := h, e_last_used := os_now s\<rparr>)"
    using assms(2) t(1,2,4,5) r
    by (auto simp: q36_kvstore_read_entry_file_def os_stat_size_def os_read_def touch_file_frame
        Let_def split: if_splits)
  show "p \<noteq> path \<longrightarrow> map_of (os_fs (snd (q36_kvstore_touch_file path h s))) p = map_of (os_fs s) p"
    by (auto simp: q36_kvstore_touch_file_def os_pwrite_other split: option.split)
qed

section \<open>Storing publishes the text\<close>

lemma load_check_parts:
  assumes "q36_kvstore_read_header data kv_entry0 = Some (e, tb, tx @ r)"
    and "length tx = unat tb" and "e_model_id e = m"
  shows "kv_load_check data (q36_kvstore_sha1_bytes_hex tx) (tx @ x) m = Some (e, tb, r)"
  using assms by (simp add: kv_load_check_def byte_prefix_match_iff)

text \<open>An existing file that is accepted as compatible holds the very text.\<close>

lemma existing_compatible_True:
  assumes "kv_cache_existing_compatible kc path sha tx m q c s = (True, s')"
  obtains e tb H T r where "s' = s" "map_of (os_fs s) path = Some (H @ T @ tx @ r)"
    "length H = 48" "length T = 4" "length tx = unat tb" "e_model_id e = word_of_int m"
    "\<And>fp. q36_kvstore_read_header (H @ T @ fp) kv_entry0 = Some (e, tb, fp)"
    "52 + unat tb + unat (e_payload_bytes e) < 2 ^ 64"
    "unat (e_payload_bytes e) \<le> length r"
proof -
  from assms obtain e' where ent: "q36_kvstore_read_entry_file s path sha = Some e'"
    and fits: "e_model_id e' = word_of_int m" "kv_cache_file_text_matches s path sha tx" "s' = s"
    by (auto simp: kv_cache_existing_compatible_def split: if_splits option.splits)
  from ent obtain data e tb fp where d: "os_read s path = Some data"
      "q36_kvstore_read_header data kv_entry0 = Some (e, tb, fp)"
    and ov: "\<not> - 1 - (48 + 4) < (ucast tb :: u64)"
      "\<not> - 1 - (48 + 4) - ucast tb < e_payload_bytes e"
      "\<not> word_of_nat (length data) < 48 + 4 + ucast tb + e_payload_bytes e"
    and e': "e' = e\<lparr>e_sha := sha, e_path := path, e_file_size := word_of_nat (length data)\<rparr>"
    by (auto simp: q36_kvstore_read_entry_file_def os_stat_size_def os_read_def Let_def
        split: option.splits if_splits)
  obtain H T where p: "data = H @ T @ fp" "length H = 48" "length T = 4"
    "\<And>fp'. q36_kvstore_read_header (H @ T @ fp') kv_entry0 = Some (e, tb, fp')"
    using d(2) by (elim read_header_Some) blast
  have max: "unat (- 1 :: u32) = 2 ^ 32 - 1"
    by (simp add: unsigned_minus_1_eq_mask mask_eq_exp_minus_1)
  have tx: "length tx < 2 ^ 32" "tb = word_of_nat (length tx)" "take (length tx) fp = tx"
    "length tx \<le> length fp"
    using fits(2) d by (auto simp: kv_cache_file_text_matches_def fread_def max
        unat_word_of_nat_small split: if_splits option.splits)
  then have utb: "length tx = unat tb"
    by (simp add: unat_word_of_nat_small)
  have fpd: "fp = tx @ drop (length tx) fp"
    using tx(3) by (metis append_take_drop_id)
  have uc: "unat (ucast tb :: u64) = unat tb"
    by (rule unat_ucast_up) simp
  have small: "unat tb < 2 ^ 32" using unsigned_less [of tb, where 'a = nat] by simp
  have s52: "unat (48 + 4 + ucast tb :: u64) = 52 + unat tb"
    using unat_add_no_overflow [of "52 :: u64" "ucast tb"] uc small by simp
  have e2: "- 1 - (48 + 4) - ucast tb = - 1 - (48 + 4 + ucast tb :: u64)"
    by (simp add: algebra_simps)
  have lt: "52 + unat tb + unat (e_payload_bytes e) < 2 ^ 64"
    using ov(2) unfolding e2 max_sub_less_iff s52 by simp
  have "unat (48 + 4 + ucast tb + e_payload_bytes e) = 52 + unat tb + unat (e_payload_bytes e)"
    using unat_add_no_overflow [of "48 + 4 + ucast tb" "e_payload_bytes e"] lt s52 by simp
  then have "52 + unat tb + unat (e_payload_bytes e) \<le> unat (word_of_nat (length data) :: u64)"
    using ov(3) by (simp add: word_less_nat_alt)
  also have "\<dots> \<le> length data" by (simp add: unat_of_nat)
  finally have "unat (e_payload_bytes e) \<le> length (drop (length tx) fp)"
    using p utb by simp
  moreover have "map_of (os_fs s) path = Some (H @ T @ tx @ drop (length tx) fp)"
    using d(1) p(1) fpd by (auto simp: os_read_def split: if_splits)
  ultimately show thesis
    using fits(1,3) p utb lt e' by (intro that [of H T "drop (length tx) fp" tb e]) simp_all
qed

text \<open>Rewriting the trailer keeps the text, the payload and all but flags and time of the header.\<close>

lemma rewrite_trailer_keeps:
  assumes disk: "map_of (os_fs s) path = Some (H @ T @ tx @ r)"
    and len: "length H = 48" "length T = 4" "length tx = unat tb"
    and hdr: "\<And>fp. q36_kvstore_read_header (H @ T @ fp) kv_entry0 = Some (e, tb, fp)"
    and fit: "52 + unat tb + unat (e_payload_bytes e) < 2 ^ 64"
      "unat (e_payload_bytes e) \<le> length r"
    and ok: "\<not> os_fail s Op_write path"
  shows "\<exists>H' r' x lu. map_of (os_fs (kv_cache_rewrite_trailer path tx' hooks s)) path = Some (H' @ T @ tx @ r') \<and>
    (\<forall>fp. q36_kvstore_read_header (H' @ T @ fp) kv_entry0
       = Some (e\<lparr>e_ext_flags := x, e_last_used := lu\<rparr>, tb, fp)) \<and>
    take (unat (e_payload_bytes e)) r' = take (unat (e_payload_bytes e)) r"
    (is "?P (kv_cache_rewrite_trailer path tx' hooks s)")
proof -
  let ?pay = "take (unat (e_payload_bytes e)) r"
  have keep: "e = e\<lparr>e_ext_flags := e_ext_flags e, e_last_used := e_last_used e\<rparr>" by simp
  have same: "?P s"
    using disk hdr keep by metis
  show ?thesis
  proof (cases "kv_cache_rewrite_trailer path tx' hooks s = s")
    case False
    let ?off = "52 + ucast tb + e_payload_bytes e :: u64"
    obtain h where hk: "hooks = Some h"
      using False by (cases hooks) (simp_all add: kv_cache_rewrite_trailer_def)
    obtain wok out n where w: "kv_trailer_write (Some h) tx' = (wok, out, n)" by (metis prod.collapse)
    have small: "unat tb < 2 ^ 32" using unsigned_less [of tb, where 'a = nat] by simp
    have uc: "unat (ucast tb :: u64) = unat tb"
      by (rule unat_ucast_up) simp
    have off: "unat ?off = 52 + unat tb + unat (e_payload_bytes e)"
      using unat_add_no_overflow [of "52 :: u64" "ucast tb"] uc small
        unat_add_no_overflow [of "52 + ucast tb" "e_payload_bytes e"] fit(1) by simp
    have base: "kv_trailer_base ?off (H @ T @ tx @ r) = H @ T @ tx @ ?pay"
      unfolding kv_trailer_base_def off using len fit(2) by simp
    have put: "poke (unat ?off) out (H @ T @ tx @ ?pay) = H @ T @ tx @ ?pay @ out"
      unfolding poke_def off using len fit(2) by simp
    let ?s1 = "os_put (os_put s path (H @ T @ tx @ ?pay)) path (H @ T @ tx @ ?pay @ out)"
    have w1: "os_pwrite (os_put s path (H @ T @ tx @ ?pay)) path (unat ?off) out = (True, ?s1)"
      using ok put by (simp add: os_pwrite_def frame_simps)
    let ?h = "\<lambda>x. kv_touch_header e x (e_hits e) (os_now s)"
    have w2: "snd (os_pwrite ?s1 path 0 (?h x)) = os_put ?s1 path (?h x @ T @ tx @ ?pay @ out)" for x
      using ok poke_front [of "?h x" H] len by (simp add: os_pwrite_def frame_simps)
    have rd: "os_read s path = Some (H @ T @ tx @ r) \<or> os_read s path = None"
      using disk by (simp add: os_read_def)
    have "kv_cache_rewrite_trailer path tx' hooks s = ?s1 \<or>
        kv_cache_rewrite_trailer path tx' hooks s = os_put ?s1 path
          (?h (e_ext_flags e OR th_ext_flag h) @ T @ tx @ ?pay @ out)"
      using False rd
      by (auto simp: kv_cache_rewrite_trailer_def hk hdr base w w1 w2 frame_simps Let_def
          split: option.splits if_splits)
    moreover have "?P ?s1"
      by (rule exI [of _ H], rule exI [of _ "?pay @ out"], rule exI [of _ "e_ext_flags e"],
          rule exI [of _ "e_last_used e"]) (use hdr fit(2) in simp)
    moreover have "?P (os_put ?s1 path (?h x @ T @ tx @ ?pay @ out))" for x
      by (rule exI [of _ "?h x"], rule exI [of _ "?pay @ out"], rule exI [of _ x],
          rule exI [of _ "os_now s"])
        (use read_touch_header [OF hdr len(1,2), of x "e_hits e" "os_now s"] fit(2) in simp)
    ultimately show ?thesis by metis
  qed (use same in simp)
qed

lemma existing_compatible_False:
  assumes "kv_cache_existing_compatible kc path sha tx m q c s = (False, s')"
  shows "os_fail s' = os_fail s" "os_dirs s' = os_dirs s" "os_now s' = os_now s" "os_pid s' = os_pid s"
    "map_of (os_fs s') p = None \<or> map_of (os_fs s') p = map_of (os_fs s) p"
  using assms
  by (auto simp: kv_cache_existing_compatible_def frame_simps os_unlink_map
      split: if_splits option.splits)

lemma quant_byte: "q36_kvstore_quant_bits_valid q \<Longrightarrow> q36_kvstore_quant_bits_valid (uint (word_of_int q :: u8))"
  by (auto simp: q36_kvstore_quant_bits_valid_def)

text \<open>The two ways a store succeeds, and what holds when it does not.\<close>

lemma store_True:
  assumes admit: "kv_store_admit kc en ss tokens n ovr hooks = Some (ts, b, tx, est)"
    and st: "q36_kvstore_store_live_prefix_text A kc en ss tokens n reason ovr ext hooks s = (True, kc', s')"
  defines "sha \<equiv> q36_kvstore_sha1_bytes_hex tx"
  defines "path \<equiv> q36_kvstore_path_for_sha (kc_dir kc) sha"
  obtains (existing) "kv_cache_existing_compatible kc path sha tx (en_model_id en) (en_quant_bits en)
        (en_ctx en ss) s = (True, s)"
      "s' = kv_cache_rewrite_trailer path tx hooks s" "kc' = kc"
    | (written) payload x where "en_stage en ss = Some payload"
      "map_of (os_fs s') path = Some (kv_file (word_of_int (en_model_id en))
         (word_of_int (en_quant_bits en)) (q36_kvstore_reason_code reason) x
         (word_of_nat (length ts)) 0 (word_of_int (en_ctx en ss)) (os_now s) (os_now s) tx payload
         (fst (snd (kv_trailer_write hooks tx))))"
      "fst (q36_kvstore_file_size_fits (kc_budget_bytes kc) (word_of_nat (length tx))
         (word_of_nat (length payload)) (snd (snd (kv_trailer_write hooks tx))))"
      "os_fail s' = os_fail s" "os_dirs s' = os_dirs s"
proof -
  obtain same s1 where ex: "kv_cache_existing_compatible kc path sha tx (en_model_id en)
      (en_quant_bits en) (en_ctx en ss) s = (same, s1)" by fastforce
  show thesis
  proof (cases same)
    case True
    moreover have "s1 = s"
      using ex True by (auto simp: kv_cache_existing_compatible_def split: if_splits option.splits)
    ultimately show thesis
      using st ex admit
      by (intro existing) (auto simp: q36_kvstore_store_live_prefix_text_def path_def sha_def Let_def)
  next
    case False
    then have "kv_cache_existing_compatible kc path sha tx (en_model_id en) (en_quant_bits en)
      (en_ctx en ss) s = (False, s1)" using ex by simp
    note s1 = existing_compatible_False [OF this]
    show thesis
    proof (cases "en_stage en ss")
      case None
      with st ex admit False show thesis
        by (auto simp: q36_kvstore_store_live_prefix_text_def path_def sha_def Let_def)
    next
      case (Some payload)
      obtain fits sz rq where f: "q36_kvstore_file_size_fits (kc_budget_bytes kc)
        (word_of_nat (length tx)) (word_of_nat (length payload)) est = (fits, sz, rq)"
        by (metis prod.collapse)
      let ?inc = "\<lparr>ic_text = Some tx, ic_model_id = word_of_int (en_model_id en),
         ic_quant_bits = word_of_int (en_quant_bits en), ic_ctx_size = word_of_int (en_ctx en ss),
         ic_reject_different_quant = kc_reject_different_quant kc\<rparr>"
      obtain kc2 s2 where ev: "q36_kvstore_evict A kc sz (Some ?inc) s1 = (kc2, s2)" by fastforce
      have kc2: "kc_budget_bytes kc2 = kc_budget_bytes kc"
        using evict_opt(4) [of A kc sz "Some ?inc" s1] ev by simp
      have s2: "os_fail s2 = os_fail s1" "os_dirs s2 = os_dirs s1" "os_now s2 = os_now s1"
        using evict_os(1-3) [of A kc sz "Some ?inc" s1] ev by simp_all
      let ?x0 = "case hooks of None \<Rightarrow> 0 | Some h \<Rightarrow> if est > 0 then th_ext_flag h else 0"
      let ?x = "if b then ?x0 OR ext else ?x0"
      let ?h = "q36_kvstore_fill_header (word_of_int (en_model_id en)) (word_of_int (en_quant_bits en))
        (q36_kvstore_reason_code reason) ?x (word_of_nat (length ts)) 0 (word_of_int (en_ctx en ss))
        (os_now s2) (os_now s2) (word_of_nat (length payload))"
      have w: "kv_store_write kc2 path ?h tx payload hooks s2 = (True, s')"
        using st ex admit False Some f ev
        by (auto simp: q36_kvstore_store_live_prefix_text_def path_def sha_def Let_def split: if_splits prod.splits)
      show thesis
        using store_write_cases [of kc2 path ?h tx payload hooks s2] w s1 s2 kc2
        by (intro written [of payload ?x]) (simp_all add: Some kv_file_def)
    qed
  qed
qed

lemma store_text_small: "length (ts :: 'a list) < 2 ^ 32 \<Longrightarrow> ts \<noteq> [] \<Longrightarrow> (word_of_nat (length ts) :: u32) \<noteq> 0"
  using unat_word_of_nat_small [of "length ts", where 'a = 32] by auto

lemma scan_kv_file:
  assumes f: "map_of (os_fs s) path = Some (kv_file m q r x t h c cr lu tx payload out)"
    and "t \<noteq> 0" "q36_kvstore_quant_bits_valid (uint q)" "r \<le> 6" "length tx < 2 ^ 32"
    and sz: "52 + length tx + length payload + length out < 2 ^ 64"
    and "\<not> os_fail s Op_stat path" "\<not> os_fail s Op_open path"
  shows "q36_kvstore_read_entry_file s path sha = Some
    ((kv_header_entry m q r x t h c cr lu (word_of_nat (length payload)) (word_of_nat (length tx)) kv_entry0)
       \<lparr>e_sha := sha, e_path := path, e_file_size := word_of_nat (52 + length tx + length payload + length out)\<rparr>)"
proof -
  let ?data = "kv_file m q r x t h c cr lu tx payload out"
  have len: "length ?data = 52 + length tx + length payload + length out" by (simp add: length_kv_file)
  define T P F :: u64 where "T = ucast (word_of_nat (length tx) :: u32)"
    and "P = word_of_nat (length payload)" and "F = word_of_nat (52 + length tx + length payload + length out)"
  have u: "unat T = length tx" "unat P = length payload" "unat F = 52 + length tx + length payload + length out"
  proof -
    have "unat T = unat (word_of_nat (length tx) :: u32)"
      unfolding T_def by (rule unat_ucast_up) simp
    then show "unat T = length tx"
      using assms(5) by (simp add: unat_word_of_nat_small)
    show "unat P = length payload" "unat F = 52 + length tx + length payload + length out"
      unfolding P_def F_def by (rule unat_word_of_nat_small, use sz in simp)+
  qed
  have a: "unat (52 + T) = 52 + length tx"
    using unat_add_no_overflow [of 52 T] u sz by simp
  have b: "unat (52 + T + P) = 52 + length tx + length payload"
    using unat_add_no_overflow [of "52 + T" P] a u sz by simp
  have e2: "- 1 - 52 - T = - 1 - (52 + T)"
    by (simp add: algebra_simps)
  have c1: "\<not> - 1 - 52 < T"
    unfolding max_sub_less_iff u using sz by simp
  have c2: "\<not> - 1 - 52 - T < P"
    unfolding e2 max_sub_less_iff a u using sz by simp
  have c3: "\<not> F < 52 + T + P"
    unfolding word_less_nat_alt b u by simp
  have f52: "48 + 4 = (52 :: u64)" by simp
  have st: "os_stat_size s path = Some (52 + length tx + length payload + length out)" "os_read s path = Some ?data"
    using f assms(7,8) len by (simp_all add: os_stat_size_def os_read_def)
  have hp: "e_payload_bytes (kv_header_entry m q r x t h c cr lu pb tb kv_entry0) = pb" for pb tb
    by (simp add: kv_header_entry_def)
  show ?thesis
    unfolding q36_kvstore_read_entry_file_def st option.case Let_def
      read_header_kv_file [OF assms(2,3)] prod.case f52
      T_def [symmetric] P_def [symmetric] F_def [symmetric]
    using c1 c2 c3 by (simp add: KV_HEADER_def hp)
qed

lemmas scan_kv_file_plain = scan_kv_file [where out = "[]", unfolded list.size(3) add_0_right]

lemma sint_nat32: "n < 2 ^ 31 \<Longrightarrow> sint (word_of_nat n :: u32) = int n"
proof -
  assume "n < 2 ^ 31"
  then have "int n < 2 ^ 31" by simp
  then have "sint (word_of_int (int n) :: u32) = int n"
    by (simp add: sint_sbintrunc' signed_take_bit_int_eq_self del: of_int_of_nat_eq)
  then show ?thesis by simp
qed

text \<open>The entry that the scan of the cache directory makes of a checkpoint passes the tests of the lookup.\<close>

lemma usable_kv_file:
  assumes "m = word_of_int model" "q = word_of_int quant" "c = word_of_int ctx"
    and "n < 2 ^ 31" "min_tokens (kc_opt kc) \<le> int n" "length tx < 2 ^ 32"
  shows "kv_usable kc (tx @ rest) model quant ctx
    ((kv_header_entry m q r x (word_of_nat n) h c cr lu pb (word_of_nat (length tx)) kv_entry0)
       \<lparr>e_sha := q36_kvstore_sha1_bytes_hex tx, e_path := path, e_file_size := fs\<rparr>)" (is "kv_usable _ _ _ _ _ ?e")
proof -
  have "unat (ucast (word_of_nat (length tx) :: u32) :: u64) = unat (word_of_nat (length tx) :: u32)"
    by (rule unat_ucast_up) simp
  then have un: "unat (ucast (word_of_nat (length tx) :: u32) :: u64) = length tx"
    using assms(6) by (simp add: unat_word_of_nat_small)
  have st: "sint (word_of_nat n :: u32) = int n"
    using assms(4) by (rule sint_nat32)
  have flds: "e_text_bytes ?e = ucast (word_of_nat (length tx) :: u32)" "e_tokens ?e = word_of_nat n"
    "e_model_id ?e = m" "e_quant_bits ?e = q" "e_ctx_size ?e = c" "e_sha ?e = q36_kvstore_sha1_bytes_hex tx"
    by (simp_all add: kv_header_entry_def)
  show ?thesis
    unfolding kv_usable_def flds un st using assms by simp
qed

text \<open>
  C3. What a successful store leaves under the name of the text's hash.  A new checkpoint is the complete
  file: header, text, the staged payload and the trailer; the scan of the directory reads it back as an entry
  that passes the lookup's tests (model, quantization, context, minimum of tokens, prefix) for every prompt
  that starts with the text, and a load then passes its header, model, hash and prefix checks and goes on to
  the payload, with the payload's length and the number of tokens of the session in the header.  If a
  compatible checkpoint of the text was there already, it stays: a load sees the same text, tokens, context,
  quantization and payload bytes as before; only the extension flags, the time and the trailer may change.
\<close>

theorem store_publishes:
  fixes hooks :: "'u kv_hooks option" and en :: "'ss kv_engine"
  defines "sha tx \<equiv> q36_kvstore_sha1_bytes_hex tx"
    and "m8 \<equiv> word_of_int (en_model_id en) :: u8"
    and "out tx \<equiv> fst (snd (kv_trailer_write hooks tx))"
  assumes adm: "kv_store_admit kc en ss tokens n ovr hooks = Some (ts, b, tx, est)"
    and st: "q36_kvstore_store_live_prefix_text A kc en ss tokens n reason ovr ext hooks s = (True, kc', s')"
    and ts: "ts \<noteq> []" "length ts < 2 ^ 31" "min_tokens (kc_opt kc) \<le> int (length ts)"
    and path: "path = q36_kvstore_path_for_sha (kc_dir kc) (sha tx)"
    and io: "\<not> os_fail s Op_write path" "\<not> os_fail s Op_stat path" "\<not> os_fail s Op_open path"
    and small: "\<And>p. en_stage en ss = Some p \<Longrightarrow> 52 + length tx + length p + length (out tx) < 2 ^ 64"
  shows "(\<exists>payload x data. en_stage en ss = Some payload \<and> map_of (os_fs s') path = Some data \<and>
      data = kv_file m8 (word_of_int (en_quant_bits en)) (q36_kvstore_reason_code reason) x
        (word_of_nat (length ts)) 0 (word_of_int (en_ctx en ss)) (os_now s) (os_now s) tx payload (out tx) \<and>
      (\<forall>rest. (\<exists>e. q36_kvstore_read_entry_file s' path (sha tx) = Some e \<and>
          kv_usable kc (tx @ rest) (en_model_id en) (en_quant_bits en) (en_ctx en ss) e) \<and>
        (\<exists>hdr. kv_load_check data (sha tx) (tx @ rest) m8 = Some (hdr, word_of_nat (length tx), payload @ out tx) \<and>
          sint (e_tokens hdr) = int (length ts) \<and> unat (e_payload_bytes hdr) = length payload))) \<or>
    (\<exists>old new e e' tb r r'. kv_cache_existing_compatible kc path (sha tx) tx (en_model_id en)
        (en_quant_bits en) (en_ctx en ss) s = (True, s) \<and>
      map_of (os_fs s) path = Some old \<and> map_of (os_fs s') path = Some new \<and>
      (\<forall>rest. kv_load_check old (sha tx) (tx @ rest) m8 = Some (e, tb, r) \<and>
        kv_load_check new (sha tx) (tx @ rest) m8 = Some (e', tb, r')) \<and>
      e' = e\<lparr>e_ext_flags := e_ext_flags e', e_last_used := e_last_used e'\<rparr> \<and>
      unat (e_payload_bytes e) \<le> length r \<and>
      take (unat (e_payload_bytes e)) r' = take (unat (e_payload_bytes e)) r)" (is "?fresh \<or> ?old")
  using adm st
proof (cases rule: store_True)
  case existing
  from existing(1) obtain e tb H T r where f0: "map_of (os_fs s)
      (q36_kvstore_path_for_sha (kc_dir kc) (q36_kvstore_sha1_bytes_hex tx)) = Some (H @ T @ tx @ r)"
    "length H = 48" "length T = 4" "length tx = unat tb" "e_model_id e = word_of_int (en_model_id en)"
    "\<And>fp. q36_kvstore_read_header (H @ T @ fp) kv_entry0 = Some (e, tb, fp)"
    "52 + unat tb + unat (e_payload_bytes e) < 2 ^ 64" "unat (e_payload_bytes e) \<le> length r"
    by (rule existing_compatible_True) (rule that; assumption)
  note f = f0(1) [folded sha_def, folded path] f0(2-4) f0(5) [folded m8_def] f0(6-8)
  from rewrite_trailer_keeps [OF f(1-4,6-8) io(1), of tx hooks] existing(2)
  obtain H' r' x lu where n: "map_of (os_fs s') path = Some (H' @ T @ tx @ r')"
    "\<And>fp. q36_kvstore_read_header (H' @ T @ fp) kv_entry0
       = Some (e\<lparr>e_ext_flags := x, e_last_used := lu\<rparr>, tb, fp)"
    "take (unat (e_payload_bytes e)) r' = take (unat (e_payload_bytes e)) r"
    unfolding path sha_def by metis
  have "kv_load_check (H @ T @ tx @ r) (sha tx) (tx @ rest) m8 = Some (e, tb, r)"
    "kv_load_check (H' @ T @ tx @ r') (sha tx) (tx @ rest) m8 = Some (e\<lparr>e_ext_flags := x, e_last_used := lu\<rparr>, tb, r')"
    for rest
    unfolding sha_def using f(4,5,6) n(2) by (intro load_check_parts; simp)+
  then have ?old
    using existing(1) f(1,8) n(1,3) unfolding path sha_def
    by (intro exI [of _ "H @ T @ tx @ r"] exI [of _ "H' @ T @ tx @ r'"] exI [of _ e]
        exI [of _ "e\<lparr>e_ext_flags := x, e_last_used := lu\<rparr>"] exI [of _ tb] exI [of _ r] exI [of _ r']) simp
  then show ?thesis ..
next
  case (written payload x)
  let ?data = "kv_file m8 (word_of_int (en_quant_bits en)) (q36_kvstore_reason_code reason) x
        (word_of_nat (length ts)) 0 (word_of_int (en_ctx en ss)) (os_now s) (os_now s) tx payload (out tx)"
  note A = store_admit_Some [OF adm]
  have t0: "(word_of_nat (length ts) :: u32) \<noteq> 0" using ts(1,2) by (intro store_text_small) simp_all
  have q: "q36_kvstore_quant_bits_valid (uint (word_of_int (en_quant_bits en) :: u8))" using quant_byte [OF A(4)] .
  have disk: "map_of (os_fs s') path = Some ?data"
    using written(2) by (simp add: path sha_def m8_def out_def)
  have sz: "52 + length tx + length payload + length (out tx) < 2 ^ 64" using small written(1) by blast
  have stat: "\<not> os_fail s' Op_stat path" "\<not> os_fail s' Op_open path" using io written(4) by simp_all
  have r6: "q36_kvstore_reason_code reason \<le> 6"
    by (simp add: q36_kvstore_reason_code_def split: option.split)
  note scan = scan_kv_file [OF disk t0 q r6 A(5) sz stat, of "sha tx"]
  have use: "\<exists>e. q36_kvstore_read_entry_file s' path (sha tx) = Some e \<and>
      kv_usable kc (tx @ rest) (en_model_id en) (en_quant_bits en) (en_ctx en ss) e" for rest
    unfolding scan unfolding sha_def using usable_kv_file [OF m8_def [THEN meta_eq_to_obj_eq] refl refl ts(2,3) A(5)] by blast
  have "sint (word_of_nat (length ts) :: u32) = int (length ts)"
    using ts(2) by (rule sint_nat32)
  moreover have "unat (word_of_nat (length payload) :: u64) = length payload"
    using sz by (simp add: unat_word_of_nat_small)
  ultimately have check: "\<exists>hdr. kv_load_check ?data (sha tx) (tx @ rest) m8 = Some (hdr, word_of_nat (length tx), payload @ out tx) \<and>
      sint (e_tokens hdr) = int (length ts) \<and> unat (e_payload_bytes hdr) = length payload" for rest
    unfolding sha_def load_check_kv_file [OF t0 q A(5)] by (simp add: kv_header_entry_def)
  have ?fresh using written(1) disk use check by blast
  then show ?thesis ..
qed

lemma existing_incompatible:
  assumes "kv_cache_existing_compatible kc path sha tx m q c s = (False, s1)"
  shows "p \<noteq> path \<Longrightarrow> map_of (os_fs s1) p = map_of (os_fs s) p"
    and "map_of (os_fs s1) path = map_of (os_fs s) path \<or> (map_of (os_fs s1) path = None \<and>
      (\<exists>e. q36_kvstore_read_entry_file s path sha = Some e \<and>
         \<not> (e_model_id e = word_of_int m \<and> (\<not> kc_reject_different_quant kc \<or> e_quant_bits e = word_of_int q) \<and>
            e_ctx_size e \<le> word_of_int c \<and> kv_cache_file_text_matches s path sha tx)))"
  using assms
  by (auto simp: kv_cache_existing_compatible_def os_unlink_map split: if_splits option.splits)

text \<open>A write that fails leaves every file but the temporary one alone, and removes that one.\<close>

lemma store_write_failed:
  assumes "kv_store_write kc path h tx payload hooks s = (False, s')"
  shows "p \<noteq> kv_tmp_path s path \<Longrightarrow> map_of (os_fs s') p = map_of (os_fs s) p"
    and "\<not> os_fail s Op_create (kv_tmp_path s path) \<Longrightarrow> \<not> os_fail s Op_unlink (kv_tmp_path s path) \<Longrightarrow>
      map_of (os_fs s') (kv_tmp_path s path) = None"
proof -
  show "p \<noteq> kv_tmp_path s path \<Longrightarrow> map_of (os_fs s') p = map_of (os_fs s) p"
    using store_write_cases [of kc path h tx payload hooks s] assms by simp
  let ?tmp = "kv_tmp_path s path"
  assume ok: "\<not> os_fail s Op_create ?tmp" "\<not> os_fail s Op_unlink ?tmp"
  then obtain s2 where "s' = snd (os_unlink s2 ?tmp)" "os_fail s2 = os_fail s"
    using assms by (auto simp: kv_store_write_def Let_def frame_simps split: if_splits prod.splits)
      (metis frame_simps snd_conv)+
  then show "map_of (os_fs s') ?tmp = None" using ok by (auto simp: os_unlink_def delete_conv')
qed

text \<open>
  C4. What a failed store can change, whatever system call fails.  A store that is not admitted changes
  nothing.  Otherwise the file under the final name is removed beforehand only if it is a readable checkpoint
  that is not compatible, and no other file is touched by that.  Then either that is all, or the session was
  staged and fits, and every file but the temporary one is as \<^verbatim>\<open>q36_kvstore_evict\<close> leaves it: the files that
  go are checkpoints of the cache directory, and none goes unless they and the new file together exceed the
  budget.  The temporary file is gone if it can be removed.
\<close>

theorem store_failure_keeps:
  fixes hooks :: "'u kv_hooks option" and en :: "'ss kv_engine"
  defines "sha tx \<equiv> q36_kvstore_sha1_bytes_hex tx"
    and "file x \<equiv> map_of (os_fs x)"
  assumes st: "q36_kvstore_store_live_prefix_text A kc en ss tokens n reason ovr ext hooks s = (False, kc', s')"
  shows "case kv_store_admit kc en ss tokens n ovr hooks of
      None \<Rightarrow> s' = s
    | Some (ts, b, tx, est) \<Rightarrow>
        (let path = q36_kvstore_path_for_sha (kc_dir kc) (sha tx); tmp = kv_tmp_path s path;
             s1 = snd (kv_cache_existing_compatible kc path (sha tx) tx (en_model_id en) (en_quant_bits en)
                         (en_ctx en ss) s)
         in (\<forall>p. p \<noteq> path \<longrightarrow> file s1 p = file s p) \<and>
            (file s1 path = file s path \<or> (file s1 path = None \<and>
               (\<exists>e. q36_kvstore_read_entry_file s path (sha tx) = Some e \<and>
                  \<not> (e_model_id e = word_of_int (en_model_id en) \<and>
                     (\<not> kc_reject_different_quant kc \<or> e_quant_bits e = word_of_int (en_quant_bits en)) \<and>
                     e_ctx_size e \<le> word_of_int (en_ctx en ss) \<and>
                     kv_cache_file_text_matches s path (sha tx) tx)))) \<and>
            (s' = s1 \<or>
             (\<exists>payload sz rq inc. en_stage en ss = Some payload \<and>
                q36_kvstore_file_size_fits (kc_budget_bytes kc) (word_of_nat (length tx))
                  (word_of_nat (length payload)) est = (True, sz, rq) \<and>
                (\<forall>p. p \<noteq> tmp \<longrightarrow> file s' p = file (snd (q36_kvstore_evict A kc sz (Some inc) s1)) p) \<and>
                (\<forall>p. p \<noteq> tmp \<and> file s' p \<noteq> file s1 p \<longrightarrow>
                   file s' p = None \<and> p \<in> e_path ` set (kv_disk s1 (kc_dir kc)) \<and>
                   (kv_total (kv_disk s1 (kc_dir kc)) < 2 ^ 64 \<longrightarrow>
                      unat (kc_budget_bytes kc) < kv_total (kv_disk s1 (kc_dir kc)) + unat sz)) \<and>
                (\<not> os_fail s Op_create tmp \<and> \<not> os_fail s Op_unlink tmp \<longrightarrow> file s' tmp = None))))"
proof (cases "kv_store_admit kc en ss tokens n ovr hooks")
  case None
  with st show ?thesis by (simp add: q36_kvstore_store_live_prefix_text_def)
next
  case (Some adm)
  obtain ts b tx est where adm: "adm = (ts, b, tx, est)" by (metis prod.collapse)
  define path where "path = q36_kvstore_path_for_sha (kc_dir kc) (sha tx)"
  obtain same s1 where ex: "kv_cache_existing_compatible kc path (sha tx) tx
      (en_model_id en) (en_quant_bits en) (en_ctx en ss) s = (same, s1)" by fastforce
  have "\<not> same"
    using st ex Some adm by (auto simp: q36_kvstore_store_live_prefix_text_def Let_def path_def sha_def)
  with ex have ex1: "kv_cache_existing_compatible kc path (sha tx) tx
      (en_model_id en) (en_quant_bits en) (en_ctx en ss) s = (False, s1)" by simp
  note s1 = existing_compatible_False(1,4) [OF ex1]
  have rest: "s' = s1 \<or>
      (\<exists>payload sz rq inc. en_stage en ss = Some payload \<and>
         q36_kvstore_file_size_fits (kc_budget_bytes kc) (word_of_nat (length tx))
           (word_of_nat (length payload)) est = (True, sz, rq) \<and>
         (\<forall>p. p \<noteq> kv_tmp_path s path \<longrightarrow> file s' p = file (snd (q36_kvstore_evict A kc sz (Some inc) s1)) p) \<and>
         (\<not> os_fail s Op_create (kv_tmp_path s path) \<and> \<not> os_fail s Op_unlink (kv_tmp_path s path) \<longrightarrow>
            file s' (kv_tmp_path s path) = None))"
  proof (cases "s' = s1")
    case False
    then obtain kc2 s2 sz rq inc h payload where stage: "en_stage en ss = Some payload"
      and fits: "q36_kvstore_file_size_fits (kc_budget_bytes kc) (word_of_nat (length tx))
           (word_of_nat (length payload)) est = (True, sz, rq)"
      and ev: "q36_kvstore_evict A kc sz (Some inc) s1 = (kc2, s2)"
      and w: "kv_store_write kc2 path h tx payload hooks s2 = (False, s')"
      using st ex1 Some adm
      by (auto simp: q36_kvstore_store_live_prefix_text_def Let_def path_def sha_def
          split: if_splits option.splits prod.splits)
    have "os_pid s2 = os_pid s" "os_fail s2 = os_fail s"
      using evict_os(1,4) [of A kc sz "Some inc" s1] ev s1 by simp_all
    then have tmp: "kv_tmp_path s2 path = kv_tmp_path s path" "os_fail s2 = os_fail s"
      by (simp_all add: kv_tmp_path_def)
    show ?thesis
      using stage fits ev store_write_failed [OF w] unfolding tmp file_def
      by (intro disjI2 exI [of _ payload] exI [of _ sz] exI [of _ rq] exI [of _ inc]) simp
  qed simp
  have en: "kc_enabled kc" using store_admit_Some(1) [OF Some [unfolded adm]] .
  have gone: "file s' p = None \<and> p \<in> e_path ` set (kv_disk s1 (kc_dir kc)) \<and>
      (kv_total (kv_disk s1 (kc_dir kc)) < 2 ^ 64 \<longrightarrow>
         unat (kc_budget_bytes kc) < kv_total (kv_disk s1 (kc_dir kc)) + unat sz)"
    if "file s' p = file (snd (q36_kvstore_evict A kc sz (Some inc) s1)) p" "file s' p \<noteq> file s1 p" for p sz inc
    using that evict_os(5) [of A kc sz "Some inc" s1 p] evict_keeps [of p s1 kc A sz "Some inc"]
      evict_idle [OF en, of s1 sz A "Some inc"] unfolding file_def by (metis not_less)
  have s1_eq: "snd (kv_cache_existing_compatible kc path (sha tx) tx
      (en_model_id en) (en_quant_bits en) (en_ctx en ss) s) = s1" by (simp add: ex1)
  have keep: "\<forall>p. p \<noteq> path \<longrightarrow> file s1 p = file s p"
    using existing_incompatible(1) [OF ex1] by (simp add: file_def)
  note old = existing_incompatible(2) [OF ex1, folded file_def]
  show ?thesis
    unfolding Some adm option.case prod.case Let_def path_def [symmetric] s1_eq
    using keep old
  proof (intro conjI; assumption?)
    show "s' = s1 \<or>
      (\<exists>payload sz rq inc. en_stage en ss = Some payload \<and>
         q36_kvstore_file_size_fits (kc_budget_bytes kc) (word_of_nat (length tx))
           (word_of_nat (length payload)) est = (True, sz, rq) \<and>
         (\<forall>p. p \<noteq> kv_tmp_path s path \<longrightarrow> file s' p = file (snd (q36_kvstore_evict A kc sz (Some inc) s1)) p) \<and>
         (\<forall>p. p \<noteq> kv_tmp_path s path \<and> file s' p \<noteq> file s1 p \<longrightarrow>
            file s' p = None \<and> p \<in> e_path ` set (kv_disk s1 (kc_dir kc)) \<and>
            (kv_total (kv_disk s1 (kc_dir kc)) < 2 ^ 64 \<longrightarrow>
               unat (kc_budget_bytes kc) < kv_total (kv_disk s1 (kc_dir kc)) + unat sz)) \<and>
         (\<not> os_fail s Op_create (kv_tmp_path s path) \<and> \<not> os_fail s Op_unlink (kv_tmp_path s path) \<longrightarrow>
            file s' (kv_tmp_path s path) = None))"
      using rest
    proof (elim disjE exE conjE)
      fix payload sz rq inc
      assume stage: "en_stage en ss = Some payload"
        and fits: "q36_kvstore_file_size_fits (kc_budget_bytes kc) (word_of_nat (length tx))
             (word_of_nat (length payload)) est = (True, sz, rq)"
        and ev: "\<forall>p. p \<noteq> kv_tmp_path s path \<longrightarrow> file s' p = file (snd (q36_kvstore_evict A kc sz (Some inc) s1)) p"
        and tmp: "\<not> os_fail s Op_create (kv_tmp_path s path) \<and> \<not> os_fail s Op_unlink (kv_tmp_path s path) \<longrightarrow>
            file s' (kv_tmp_path s path) = None"
      have "file s' p = None \<and> p \<in> e_path ` set (kv_disk s1 (kc_dir kc)) \<and>
          (kv_total (kv_disk s1 (kc_dir kc)) < 2 ^ 64 \<longrightarrow>
             unat (kc_budget_bytes kc) < kv_total (kv_disk s1 (kc_dir kc)) + unat sz)"
        if "p \<noteq> kv_tmp_path s path \<and> file s' p \<noteq> file s1 p" for p
        by (rule gone [of p sz inc]) (use that ev in blast)+
      then show ?thesis
        by (intro disjI2 exI [of _ payload] exI [of _ sz] exI [of _ rq] exI [of _ inc] conjI allI impI stage fits ev tmp)
          simp_all
    qed simp
  qed
qed

section \<open>Loading is safe\<close>

lemma load_check_Some:
  assumes "kv_load_check data sha prompt m = Some (hdr, tb, fp)"
  obtains H T tx where "data = H @ T @ tx @ fp" "length H = 48" "length T = 4"
    "length tx = unat tb" "prompt = tx @ drop (unat tb) prompt"
    "q36_kvstore_sha1_bytes_hex tx = sha" "e_model_id hdr = m" "e_tokens hdr \<noteq> 0"
proof -
  from assms obtain fp0 tx where r: "q36_kvstore_read_header data kv_entry0 = Some (hdr, tb, fp0)"
    and t: "fread (unat tb) fp0 = Some (tx, fp)" "e_model_id hdr = m"
      "q36_kvstore_sha1_bytes_hex tx = sha" "starts_with tx prompt"
    by (auto simp: kv_load_check_def byte_prefix_match_iff split: option.splits if_splits)
  obtain H T where p: "data = H @ T @ fp0" "length H = 48" "length T = 4" "e_tokens hdr \<noteq> 0"
    using r by (elim read_header_Some) blast
  have f: "fp0 = tx @ fp" "length tx = unat tb"
    using t(1) by (auto simp: fread_def split: if_splits)
  obtain w where "prompt = tx @ w"
    using t(4) by (rule starts_withE)
  with p f t show thesis by (intro that [of H T tx]) simp_all
qed

text \<open>
  C2. A loaded checkpoint belongs to the prompt: when \<^verbatim>\<open>q36_kvstore_try_load_text\<close> answers a
  positive count, the file it used was written for this model, its text has the hash the file
  is named after and is byte for byte the front of the prompt, the payload behind that text
  restored a session with exactly that many tokens, and the effective prompt is that session's
  tokens followed by the tokens of the rest of the prompt.
\<close>

theorem try_load_safe:
  assumes "q36_kvstore_try_load_text kc en ss (Some prompt) hooks u s = (loaded, st)" and "0 < loaded"
  shows "\<exists>e H T tx rest fp' v. e \<in> set (kc_entry (kv_cache_refresh s kc)) \<and>
    map_of (os_fs s) (e_path e) = Some (H @ T @ tx @ rest) \<and> length H = 48 \<and> length T = 4 \<and>
    q36_kvstore_sha1_bytes_hex tx = e_sha e \<and> H ! 7 = word_of_int (en_model_id en) \<and>
    starts_with tx prompt \<and>
    en_load en ss rest (le_get64 (drop 40 H)) = (True, ls_session st, fp') \<and>
    en_tokens en (ls_session st) = Some v \<and> loaded = int (length v) \<and>
    ls_prompt st = v @ en_tokenize_rendered en (drop (length tx) prompt)"
proof -
  define r where "r = q36_kvstore_find_text_prefix kc (Some prompt) (en_model_id en) (en_quant_bits en)
    (en_ctx en ss) s"
  have kc': "snd r = kv_cache_refresh s kc"
    by (simp add: r_def q36_kvstore_find_text_prefix_def Let_def)
  obtain i where i: "fst r = Some i"
    using assms by (cases "fst r")
      (auto simp: q36_kvstore_try_load_text_def Let_def r_def split: if_splits prod.splits)
  let ?e = "kc_entry (snd r) ! i"
  obtain data hdr tb fp where d: "os_read s (e_path ?e) = Some data"
    "kv_load_check data (e_sha ?e) prompt (word_of_int (en_model_id en)) = Some (hdr, tb, fp)"
    using assms i by (cases "os_read s (e_path ?e)")
      (auto simp: q36_kvstore_try_load_text_def Let_def r_def
        split: if_splits prod.splits option.splits)
  obtain lok ss' fp' where l: "en_load en ss fp (e_payload_bytes hdr) = (lok, ss', fp')"
    by (metis prod.collapse)
  obtain H T tx where p: "data = H @ T @ tx @ fp" "length H = 48" "length T = 4"
    "length tx = unat tb" "prompt = tx @ drop (unat tb) prompt"
    "q36_kvstore_sha1_bytes_hex tx = e_sha ?e" "e_model_id hdr = word_of_int (en_model_id en)"
    using d(2) by (elim load_check_Some) blast
  have hdr: "H ! 7 = e_model_id hdr" "le_get64 (drop 40 H) = e_payload_bytes hdr"
    using d(2) p(1-3)
    by (auto simp: kv_load_check_def q36_kvstore_read_header_def fread_def KV_HEADER_def Let_def
        split: option.splits if_splits)
  have fin: "lok \<and> (\<exists>v. en_tokens en ss' = Some v \<and> loaded = int (length v) \<and>
      ls_session st = ss' \<and> ls_prompt st = v @ en_tokenize_rendered en (drop (unat tb) prompt))"
    using assms i d l
    by (auto simp: q36_kvstore_try_load_text_def Let_def r_def
        q36_kvstore_build_prompt_from_exact_prefix_and_text_suffix_def
        split: if_splits prod.splits option.splits)
  have "i < length (kc_entry (snd r))"
    using find_prefix_cases(2) [of kc prompt "en_model_id en" "en_quant_bits en" "en_ctx en ss" s] i
    by (simp add: r_def)
  then have "?e \<in> set (kc_entry (kv_cache_refresh s kc))"
    by (simp add: kc')
  moreover have "map_of (os_fs s) (e_path ?e) = Some (H @ T @ tx @ fp)"
    using d(1) p(1) by (simp add: os_read_def split: if_splits)
  moreover have "starts_with tx prompt"
    using p(5) by (metis starts_with_append)
  ultimately show ?thesis
    using fin p hdr l by metis
qed

end
