(* ===== verification/Session.thy ===== *)
theory Session
  imports Codec Tokens
begin

text \<open>
  The inference session of \<^verbatim>\<open>q36.c\<close> on the CPU backend: the token history (\<open>checkpoint\<close>), the
  per-layer caches, prefill in chunks, decode, rewind and rewrite, and the serialised session
  (payload and snapshot).  The forward pass is floating-point code; it enters as the function
  \<open>me_fwd\<close> from the runtime, the tokens and their position to the new runtime and the logits, or
  to a failure.  Cache rows, recurrent states and logits are the bytes they occupy.  Integers in
  the payload are stored in host order, which is little-endian on every supported target.
\<close>

section \<open>Shape, caches, session\<close>

datatype q36_kv_cache_type = F16 | Q8_0 | Q4_0

fun q36_kv_cache_code :: "q36_kv_cache_type \<Rightarrow> u32" where
  "q36_kv_cache_code F16 = 0"
| "q36_kv_cache_code Q8_0 = 1"
| "q36_kv_cache_code Q4_0 = 2"

fun q36_kv_cache_row_bytes :: "q36_kv_cache_type \<Rightarrow> nat \<Rightarrow> nat" where
  "q36_kv_cache_row_bytes F16 n = n * 2"
| "q36_kv_cache_row_bytes Q8_0 n = (n + 32 - 1) div 32 * 34"
| "q36_kv_cache_row_bytes Q4_0 n = (n + 32 - 1) div 32 * 18"

record q36_shape =
  n_layer :: nat
  n_vocab :: nat
  n_head_kv :: nat
  n_head_dim :: nat
  n_value_dim :: nat
  n_ssm_conv :: nat
  n_ssm_state :: nat
  n_ssm_group :: nat
  n_ssm_dt_rank :: nat
  n_ssm_inner :: nat
  full_attention_interval :: nat

record q36_engine =
  eg_shape :: q36_shape
  cache_type_k :: q36_kv_cache_type
  cache_type_v :: q36_kv_cache_type

definition n_ssm_conv_dim :: "q36_shape \<Rightarrow> nat" where
  "n_ssm_conv_dim g = n_ssm_group g * n_ssm_state g * 2 + n_ssm_inner g"

definition q36_layer_is_full_attention :: "q36_shape \<Rightarrow> nat \<Rightarrow> bool" where
  "q36_layer_is_full_attention g il \<longleftrightarrow> (il + 1) mod full_attention_interval g = 0"

text \<open>A layer outside the slice this engine runs has null buffers and capacity 0.\<close>

record q36_full_attn_cache =
  fc_len :: nat
  fc_cap :: nat
  fc_k :: "bytes option"
  fc_v :: "bytes option"

record q36_recurrent_cache =
  rc_conv :: "bytes option"
  rc_state :: "bytes option"

record q36_cpu_runtime =
  rt_full :: "q36_full_attn_cache list"
  rt_recurrent :: "q36_recurrent_cache list"
  rt_prefill_cap :: nat

record q36_session =
  ss_dist :: bool
  ss_ctx_size :: nat
  ss_checkpoint :: "int list"
  ss_checkpoint_valid :: bool
  ss_vision_state :: bool
  ss_logits :: bytes
  ss_logits_host_valid :: bool
  ss_gpu_top2_valid :: bool
  ss_runtime :: q36_cpu_runtime

text \<open>
  What the session calls: the forward pass, the cancel callback asked before each chunk, and the
  pipeline (\<^verbatim>\<open>q36_dist_session_sync\<close>, \<^verbatim>\<open>q36_dist_session_eval\<close>) with its return code and logits.
\<close>

record q36_env =
  me_fwd :: "q36_cpu_runtime \<Rightarrow> int list \<Rightarrow> nat \<Rightarrow> bool \<Rightarrow> (q36_cpu_runtime \<times> bytes) option"
  me_cancel :: "nat \<Rightarrow> bool"
  me_dist_sync :: "int list \<Rightarrow> int list \<Rightarrow> nat \<times> bytes"
  me_dist_eval :: "int list \<Rightarrow> int \<Rightarrow> nat \<times> bytes"

section \<open>Row and state sizes\<close>

definition q36_full_k_bytes :: "q36_engine \<Rightarrow> nat \<Rightarrow> nat" where
  "q36_full_k_bytes e rows =
     rows * q36_kv_cache_row_bytes (cache_type_k e) (n_head_kv (eg_shape e) * n_head_dim (eg_shape e))"

definition q36_full_v_bytes :: "q36_engine \<Rightarrow> nat \<Rightarrow> nat" where
  "q36_full_v_bytes e rows =
     rows * q36_kv_cache_row_bytes (cache_type_v e) (n_head_kv (eg_shape e) * n_value_dim (eg_shape e))"

definition q36_recurrent_conv_bytes :: "q36_shape \<Rightarrow> nat" where
  "q36_recurrent_conv_bytes g = (n_ssm_conv g - 1) * n_ssm_conv_dim g * 4"

definition q36_recurrent_state_bytes :: "q36_shape \<Rightarrow> nat" where
  "q36_recurrent_state_bytes g = n_ssm_state g * n_ssm_state g * n_ssm_dt_rank g * 4"

section \<open>The runtime\<close>

definition q36_kv_initial_cap :: "nat \<Rightarrow> nat" where
  "q36_kv_initial_cap ctx_size = (if ctx_size < 32768 then ctx_size else 32768)"

function q36_kv_next_cap :: "nat \<Rightarrow> nat \<Rightarrow> nat \<Rightarrow> nat" where
  "q36_kv_next_cap next_cap need limit =
     (if next_cap < need then
        if next_cap \<ge> limit then 0
        else let step = next_cap div 4;
                 grown = (if step \<le> limit - next_cap then next_cap + step else limit)
             in if grown \<le> next_cap then 0 else q36_kv_next_cap grown need limit
      else next_cap)"
  by pat_completeness auto
termination
  by (relation "measure (\<lambda>(cap, need, limit). limit - cap)") (auto simp: Let_def split: if_splits)

declare q36_kv_next_cap.simps [simp del]

text \<open>A grown buffer keeps its rows; the rest of it is uninitialised, here zero.\<close>

definition kv_grow_buffer :: "nat \<Rightarrow> nat \<Rightarrow> bytes option \<Rightarrow> bytes option" where
  "kv_grow_buffer used room buf = Some (case buf of None \<Rightarrow> replicate room 0
     | Some b \<Rightarrow> take used b @ replicate (room - used) 0)"

fun q36_cpu_reserve_layers ::
  "q36_engine \<Rightarrow> nat \<Rightarrow> nat \<Rightarrow> nat \<Rightarrow> q36_full_attn_cache list \<Rightarrow> bool \<times> q36_full_attn_cache list" where
  "q36_cpu_reserve_layers e need limit il [] = (True, [])"
| "q36_cpu_reserve_layers e need limit il (c # cs) =
     (if \<not> q36_layer_is_full_attention (eg_shape e) il \<or> fc_cap c = 0 \<or> need \<le> fc_cap c
      then let (ok, cs) = q36_cpu_reserve_layers e need limit (il + 1) cs in (ok, c # cs)
      else let cap = q36_kv_next_cap (fc_cap c) need limit
           in if cap = 0 then (False, c # cs)
              else let c = c\<lparr>fc_k := kv_grow_buffer (q36_full_k_bytes e (fc_len c)) (q36_full_k_bytes e cap) (fc_k c),
                             fc_v := kv_grow_buffer (q36_full_v_bytes e (fc_len c)) (q36_full_v_bytes e cap) (fc_v c),
                             fc_cap := cap\<rparr>;
                       (ok, cs) = q36_cpu_reserve_layers e need limit (il + 1) cs
                   in (ok, c # cs))"

definition q36_session_reserve_kv :: "q36_engine \<Rightarrow> q36_session \<Rightarrow> nat \<Rightarrow> bool \<times> q36_session" where
  "q36_session_reserve_kv e s need =
     (if need > ss_ctx_size s then (False, s)
      else let (ok, full) = q36_cpu_reserve_layers e need (ss_ctx_size s) 0 (rt_full (ss_runtime s))
           in (ok, s\<lparr>ss_runtime := (ss_runtime s)\<lparr>rt_full := full\<rparr>\<rparr>))"

definition q36_cpu_runtime_reset :: "q36_cpu_runtime \<Rightarrow> q36_cpu_runtime" where
  "q36_cpu_runtime_reset rt =
     rt\<lparr>rt_full := map (\<lambda>c. c\<lparr>fc_len := 0\<rparr>) (rt_full rt),
        rt_recurrent := map (\<lambda>c. c\<lparr>rc_conv := map_option (map (\<lambda>_. 0)) (rc_conv c),
                                   rc_state := map_option (map (\<lambda>_. 0)) (rc_state c)\<rparr>) (rt_recurrent rt)\<rparr>"

definition q36_session_reset_runtime :: "q36_session \<Rightarrow> q36_session" where
  "q36_session_reset_runtime s =
     s\<lparr>ss_logits_host_valid := False, ss_gpu_top2_valid := False,
       ss_runtime := q36_cpu_runtime_reset (ss_runtime s)\<rparr>"

definition q36_session_invalidate :: "q36_session \<Rightarrow> q36_session" where
  "q36_session_invalidate s =
     (q36_session_reset_runtime s)\<lparr>ss_checkpoint_valid := False, ss_checkpoint := [],
       ss_vision_state := False\<rparr>"

section \<open>Prefill and decode\<close>

text \<open>
  One chunk of the forward pass; the code's forward functions refuse an empty chunk.  Logits go
  to the host buffer when they are asked for.
\<close>

definition q36_forward_chunk ::
  "q36_env \<Rightarrow> q36_session \<Rightarrow> int list \<Rightarrow> nat \<Rightarrow> bool \<Rightarrow> q36_session option" where
  "q36_forward_chunk m s toks pos compute_logits =
     (if toks = [] then None
      else case me_fwd m (ss_runtime s) toks pos compute_logits of None \<Rightarrow> None
           | Some (rt, logits) \<Rightarrow>
               Some (if compute_logits
                     then s\<lparr>ss_runtime := rt, ss_logits := logits, ss_logits_host_valid := True,
                            ss_gpu_top2_valid := False\<rparr>
                     else s\<lparr>ss_runtime := rt\<rparr>))"

definition q36_prefill_n :: "q36_session \<Rightarrow> int list \<Rightarrow> nat \<Rightarrow> nat" where
  "q36_prefill_n s prompt i =
     (let n = length prompt - i
      in if n > rt_prefill_cap (ss_runtime s) then rt_prefill_cap (ss_runtime s) else n)"

text \<open>
  A chunk that fails leaves the runtime as it was before it; what the forward pass had done to the caches
  by then is not modelled.  The checkpoint is invalid from there on, and a sync or a load resets or replaces
  the runtime before it is read again.
\<close>

function q36_prefill_loop ::
  "q36_engine \<Rightarrow> q36_env \<Rightarrow> q36_session \<Rightarrow> int list \<Rightarrow> nat \<Rightarrow> nat \<times> q36_session" where
  "q36_prefill_loop e m s prompt i =
     (if i < length prompt then
        if me_cancel m i then (2, s)
        else let n = q36_prefill_n s prompt i
             in (case q36_session_reserve_kv e s (i + n) of
                   (False, s) \<Rightarrow> (1, s)
                 | (True, s) \<Rightarrow>
                     (case q36_forward_chunk m s (take n (drop i prompt)) i (i + n = length prompt) of
                        None \<Rightarrow> (1, s\<lparr>ss_checkpoint_valid := False\<rparr>)
                      | Some s \<Rightarrow>
                          if n = 0 then (1, s)
                          else q36_prefill_loop e m
                                 (s\<lparr>ss_checkpoint := ss_checkpoint s @ take n (drop i prompt),
                                    ss_checkpoint_valid := True\<rparr>) prompt (i + n)))
      else (0, s))"
  by pat_completeness auto
termination
  by (relation "measure (\<lambda>(e, m, s, prompt, i). length prompt - i)") auto

declare q36_prefill_loop.simps [simp del]

definition q36_session_prefill_range ::
  "q36_engine \<Rightarrow> q36_env \<Rightarrow> q36_session \<Rightarrow> int list \<Rightarrow> nat \<Rightarrow> nat \<times> q36_session" where
  "q36_session_prefill_range e m s prompt start =
     (if ss_dist s then
        let (rc, logits) = me_dist_sync m (ss_checkpoint s) prompt
        in if rc \<noteq> 0 then (rc, s\<lparr>ss_checkpoint_valid := False\<rparr>)
           else (0, s\<lparr>ss_logits := logits, ss_checkpoint := prompt, ss_checkpoint_valid := True\<rparr>)
      else q36_prefill_loop e m s prompt start)"

definition q36_session_sync ::
  "q36_engine \<Rightarrow> q36_env \<Rightarrow> q36_session \<Rightarrow> int list \<Rightarrow> nat \<times> q36_session" where
  "q36_session_sync e m s prompt =
     (if length prompt = 0 then (1, s)
      else if length prompt \<ge> ss_ctx_size s then (1, s)
      else if \<not> ss_vision_state s \<and> ss_checkpoint_valid s \<and>
              length prompt \<ge> length (ss_checkpoint s) \<and>
              q36_tokens_starts_with prompt (ss_checkpoint s)
      then q36_session_prefill_range e m s prompt (length (ss_checkpoint s))
      else q36_session_prefill_range e m
             ((q36_session_reset_runtime s)\<lparr>ss_vision_state := False, ss_checkpoint := [],
                ss_checkpoint_valid := False\<rparr>) prompt 0)"

definition q36_session_rewrite_requires_rebuild :: "int \<Rightarrow> int \<Rightarrow> int \<Rightarrow> bool" where
  "q36_session_rewrite_requires_rebuild live_len canonical_len common \<longleftrightarrow>
     (if live_len < 0 \<or> canonical_len < 0 \<or> common < 0 then True
      else if common > live_len \<or> common > canonical_len then True
      else common < live_len)"

datatype q36_session_rewrite_result = REWRITE_ERROR | REWRITE_OK | REWRITE_REBUILD_NEEDED

definition q36_session_rewrite_from_common ::
  "q36_engine \<Rightarrow> q36_env \<Rightarrow> q36_session \<Rightarrow> int list \<Rightarrow> int \<Rightarrow> q36_session_rewrite_result \<times> q36_session" where
  "q36_session_rewrite_from_common e m s prompt common =
     (if common < 0 \<or> common > int (length prompt) then (REWRITE_ERROR, s)
      else if q36_session_rewrite_requires_rebuild (int (length (ss_checkpoint s)))
                (int (length prompt)) common
      then (REWRITE_REBUILD_NEEDED, s)
      else if common = int (length (ss_checkpoint s)) \<and> common = int (length prompt)
      then (REWRITE_OK, s)
      else let s = s\<lparr>ss_checkpoint := take (nat common) (ss_checkpoint s), ss_checkpoint_valid := True\<rparr>
           in case q36_session_prefill_range e m s prompt (nat common) of
                (rc, s) \<Rightarrow> if rc \<noteq> 0 then (REWRITE_ERROR, s) else (REWRITE_OK, s))"

function common_prefix_from :: "nat \<Rightarrow> nat \<Rightarrow> int list \<Rightarrow> int list \<Rightarrow> nat" where
  "common_prefix_from i n v w =
     (if i < n \<and> v ! i = w ! i then common_prefix_from (i + 1) n v w else i)"
  by pat_completeness auto
termination by (relation "measure (\<lambda>(i, n, v, w). n - i)") auto

declare common_prefix_from.simps [simp del]

definition q36_session_common_prefix :: "q36_session \<Rightarrow> int list \<Rightarrow> nat" where
  "q36_session_common_prefix s prompt =
     (if \<not> ss_checkpoint_valid s then 0
      else let n = (if length (ss_checkpoint s) < length prompt then length (ss_checkpoint s)
                    else length prompt)
           in common_prefix_from 0 n (ss_checkpoint s) prompt)"

definition q36_session_eval :: "q36_engine \<Rightarrow> q36_env \<Rightarrow> q36_session \<Rightarrow> int \<Rightarrow> nat \<times> q36_session" where
  "q36_session_eval e m s token =
     (if length (ss_checkpoint s) \<ge> ss_ctx_size s then (1, s)
      else if ss_dist s then
        let (rc, logits) = me_dist_eval m (ss_checkpoint s) token
        in if rc \<noteq> 0 then (rc, s\<lparr>ss_checkpoint_valid := False\<rparr>)
           else (0, s\<lparr>ss_logits := logits, ss_checkpoint := q36_tokens_push (ss_checkpoint s) token,
                      ss_checkpoint_valid := True\<rparr>)
      else (case q36_session_reserve_kv e s (length (ss_checkpoint s) + 1) of
              (False, s) \<Rightarrow> (1, s)
            | (True, s) \<Rightarrow>
                (case q36_forward_chunk m s [token] (length (ss_checkpoint s)) True of
                   None \<Rightarrow> (1, s\<lparr>ss_checkpoint_valid := False\<rparr>)
                 | Some s \<Rightarrow> (0, s\<lparr>ss_checkpoint := q36_tokens_push (ss_checkpoint s) token,
                                   ss_checkpoint_valid := True\<rparr>))))"

definition q36_session_rewind :: "q36_engine \<Rightarrow> q36_env \<Rightarrow> q36_session \<Rightarrow> int \<Rightarrow> q36_session" where
  "q36_session_rewind e m s pos =
     (if ss_vision_state s then q36_session_invalidate s
      else let pos = (if pos < 0 then 0 else nat pos);
               pos = (if pos > length (ss_checkpoint s) then length (ss_checkpoint s) else pos)
           in if pos = length (ss_checkpoint s) then s
              else let tokens = take pos (ss_checkpoint s);
                       s = (q36_session_reset_runtime s)\<lparr>ss_checkpoint := [], ss_checkpoint_valid := False\<rparr>
                   in if pos > 0
                      then (case q36_session_sync e m s tokens of
                              (rc, s) \<Rightarrow> if rc \<noteq> 0 then q36_session_invalidate s else s)
                      else s)"

definition q36_session_pos :: "q36_session \<Rightarrow> nat" where
  "q36_session_pos s = length (ss_checkpoint s)"

section \<open>The payload\<close>

definition PAYLOAD_MAGIC :: u32 where "PAYLOAD_MAGIC = 0x51563336"
definition PAYLOAD_VERSION_TOKEN_ONLY :: u32 where "PAYLOAD_VERSION_TOKEN_ONLY = 1"
definition PAYLOAD_VERSION :: u32 where "PAYLOAD_VERSION = 2"
definition PAYLOAD_VERSION_TYPED_KV :: u32 where "PAYLOAD_VERSION_TYPED_KV = 3"
definition PAYLOAD_VERSION_MTP :: u32 where "PAYLOAD_VERSION_MTP = 4"

definition payload_tokens :: "int list \<Rightarrow> bytes" where
  "payload_tokens toks = concat (map (\<lambda>t. le_put32 (word_of_int t)) toks)"

text \<open>The write of a buffer that may be null, and the counted read of the loader.\<close>

definition q36_payload_write_bytes :: "bytes option \<Rightarrow> nat \<Rightarrow> bytes option" where
  "q36_payload_write_bytes p n =
     (if n = 0 then Some [] else case p of None \<Rightarrow> None | Some b \<Rightarrow> Some (take n b))"

definition q36_payload_read_bytes :: "bytes \<Rightarrow> nat \<Rightarrow> nat \<Rightarrow> (bytes \<times> bytes \<times> nat) option" where
  "q36_payload_read_bytes fp n remaining =
     (if n = 0 then Some ([], fp, remaining)
      else if remaining < n \<or> length fp < n then None
      else Some (take n fp, drop n fp, remaining - n))"

definition q36_payload_read_u32 :: "bytes \<Rightarrow> nat \<Rightarrow> (u32 \<times> bytes \<times> nat) option" where
  "q36_payload_read_u32 fp remaining =
     (case q36_payload_read_bytes fp 4 remaining of None \<Rightarrow> None
      | Some (b, fp, remaining) \<Rightarrow> Some (le_get32 b, fp, remaining))"

definition q36_session_payload_bytes :: "q36_engine \<Rightarrow> q36_session \<Rightarrow> nat" where
  "q36_session_payload_bytes e s =
     (if ss_vision_state s then 0
      else let rows = length (ss_checkpoint s)
      in if ss_dist s then 12 + rows * 4
      else let typed = cache_type_k e \<noteq> F16 \<or> cache_type_v e \<noteq> F16
      in foldl (\<lambda>b il. b + (if q36_layer_is_full_attention (eg_shape e) il
                            then 4 + q36_full_k_bytes e rows + q36_full_v_bytes e rows
                            else q36_recurrent_conv_bytes (eg_shape e) + q36_recurrent_state_bytes (eg_shape e)))
           ((if typed then 16 else 14) * 4 + rows * 4 + n_vocab (eg_shape e) * 4)
           [0..<n_layer (eg_shape e)])"

definition payload_fields :: "q36_engine \<Rightarrow> q36_session \<Rightarrow> u32 list" where
  "payload_fields e s =
     (let g = eg_shape e; typed = cache_type_k e \<noteq> F16 \<or> cache_type_v e \<noteq> F16;
          h = [PAYLOAD_MAGIC, if typed then PAYLOAD_VERSION_TYPED_KV else PAYLOAD_VERSION,
               word_of_nat (ss_ctx_size s), word_of_nat (rt_prefill_cap (ss_runtime s)),
               word_of_nat (length (ss_checkpoint s)),
               word_of_nat (n_vocab g), word_of_nat (n_layer g), word_of_nat (n_head_kv g),
               word_of_nat (n_head_dim g), word_of_nat (n_value_dim g), word_of_nat (n_ssm_conv g),
               word_of_nat (n_ssm_conv_dim g), word_of_nat (n_ssm_state g),
               word_of_nat (n_ssm_dt_rank g),
               q36_kv_cache_code (cache_type_k e), q36_kv_cache_code (cache_type_v e)]
      in take (if typed then 16 else 14) h)"

definition payload_save_layer :: "q36_engine \<Rightarrow> nat \<Rightarrow> q36_cpu_runtime \<Rightarrow> nat \<Rightarrow> bytes option" where
  "payload_save_layer e rows rt il =
     (if q36_layer_is_full_attention (eg_shape e) il then
        let c = rt_full rt ! il
        in if fc_k c = None \<or> fc_v c = None \<or> fc_len c < rows then None
           else (case (q36_payload_write_bytes (fc_k c) (q36_full_k_bytes e rows),
                       q36_payload_write_bytes (fc_v c) (q36_full_v_bytes e rows)) of
                   (Some k, Some v) \<Rightarrow> Some (le_put32 (word_of_nat rows) @ k @ v)
                 | _ \<Rightarrow> None)
      else let c = rt_recurrent rt ! il
           in (case (q36_payload_write_bytes (rc_conv c) (q36_recurrent_conv_bytes (eg_shape e)),
                     q36_payload_write_bytes (rc_state c) (q36_recurrent_state_bytes (eg_shape e))) of
                 (Some conv, Some state) \<Rightarrow> Some (conv @ state)
               | _ \<Rightarrow> None))"

fun payload_save_layers :: "q36_engine \<Rightarrow> nat \<Rightarrow> q36_cpu_runtime \<Rightarrow> nat list \<Rightarrow> bytes option" where
  "payload_save_layers e rows rt [] = Some []"
| "payload_save_layers e rows rt (il # ils) =
     (case payload_save_layer e rows rt il of None \<Rightarrow> None
      | Some b \<Rightarrow> (case payload_save_layers e rows rt ils of None \<Rightarrow> None
                   | Some bs \<Rightarrow> Some (b @ bs)))"

definition q36_session_save_payload :: "q36_engine \<Rightarrow> q36_session \<Rightarrow> bytes option" where
  "q36_session_save_payload e s =
     (if \<not> ss_checkpoint_valid s then None
      else if ss_vision_state s then None
      else let rows = length (ss_checkpoint s)
      in if ss_dist s then
        Some (le_put32 PAYLOAD_MAGIC @ le_put32 PAYLOAD_VERSION_TOKEN_ONLY @
              le_put32 (word_of_nat rows) @ payload_tokens (ss_checkpoint s))
      else (case q36_payload_write_bytes (Some (ss_logits s)) (n_vocab (eg_shape e) * 4) of
              None \<Rightarrow> None
            | Some lg \<Rightarrow>
                (case payload_save_layers e rows (ss_runtime s) [0..<n_layer (eg_shape e)] of
                   None \<Rightarrow> None
                 | Some ls \<Rightarrow> Some (concat (map le_put32 (payload_fields e s)) @
                                   payload_tokens (ss_checkpoint s) @ lg @ ls))))"

text \<open>Staging: the saved bytes, provided every system call on the temporary file succeeds.\<close>

definition q36_session_stage_payload :: "bool \<Rightarrow> q36_engine \<Rightarrow> q36_session \<Rightarrow> bytes option" where
  "q36_session_stage_payload file_ok e s =
     (if \<not> ss_checkpoint_valid s \<or> ss_vision_state s then None
      else if \<not> file_ok then None else q36_session_save_payload e s)"

section \<open>Loading a payload\<close>

fun payload_read_u32s :: "nat \<Rightarrow> bytes \<Rightarrow> nat \<Rightarrow> (u32 list \<times> bytes \<times> nat) option" where
  "payload_read_u32s 0 fp remaining = Some ([], fp, remaining)"
| "payload_read_u32s (Suc n) fp remaining =
     (case q36_payload_read_u32 fp remaining of None \<Rightarrow> None
      | Some (w, fp, remaining) \<Rightarrow>
          (case payload_read_u32s n fp remaining of None \<Rightarrow> None
           | Some (ws, fp, remaining) \<Rightarrow> Some (w # ws, fp, remaining)))"

definition payload_read_tokens :: "nat \<Rightarrow> bytes \<Rightarrow> nat \<Rightarrow> (int list \<times> bytes \<times> nat) option" where
  "payload_read_tokens n fp remaining =
     map_option (\<lambda>(ws, r). (map sint ws, r)) (payload_read_u32s n fp remaining)"

text \<open>\<^verbatim>\<open>fread\<close> into the front of a buffer.\<close>

definition buf_fill :: "bytes \<Rightarrow> bytes option \<Rightarrow> bytes option" where
  "buf_fill data = map_option (\<lambda>b. data @ drop (length data) b)"

text \<open>
  What a failed read leaves in the buffer it was filling is unspecified; the model leaves that
  layer alone, and the checkpoint is marked invalid before the first of these reads.  A read into a buffer, which a null buffer fails unless nothing is to be read.\<close>

definition payload_read_into ::
  "bytes option \<Rightarrow> bytes \<Rightarrow> nat \<Rightarrow> nat \<Rightarrow> (bytes option \<times> bytes \<times> nat) option" where
  "payload_read_into buf fp n remaining =
     (if n \<noteq> 0 \<and> buf = None then None
      else case q36_payload_read_bytes fp n remaining of None \<Rightarrow> None
           | Some (b, fp, remaining) \<Rightarrow> Some (buf_fill b buf, fp, remaining))"

definition payload_load_full ::
  "q36_engine \<Rightarrow> nat \<Rightarrow> q36_full_attn_cache \<Rightarrow> bytes \<Rightarrow> nat \<Rightarrow>
   (q36_full_attn_cache \<times> bytes \<times> nat) option" where
  "payload_load_full e n_tokens c fp remaining =
     (case q36_payload_read_u32 fp remaining of None \<Rightarrow> None
      | Some (rows, fp, remaining) \<Rightarrow>
          if unat rows \<noteq> n_tokens \<or> unat rows > fc_cap c then None
          else (case payload_read_into (fc_k c) fp (q36_full_k_bytes e (unat rows)) remaining of
                  None \<Rightarrow> None
                | Some (k, fp, remaining) \<Rightarrow>
                    (case payload_read_into (fc_v c) fp (q36_full_v_bytes e (unat rows)) remaining of
                       None \<Rightarrow> None
                     | Some (v, fp, remaining) \<Rightarrow>
                         Some (c\<lparr>fc_len := unat rows, fc_k := k, fc_v := v\<rparr>, fp, remaining))))"

definition payload_load_recurrent ::
  "q36_shape \<Rightarrow> q36_recurrent_cache \<Rightarrow> bytes \<Rightarrow> nat \<Rightarrow> (q36_recurrent_cache \<times> bytes \<times> nat) option" where
  "payload_load_recurrent g c fp remaining =
     (case payload_read_into (rc_conv c) fp (q36_recurrent_conv_bytes g) remaining of None \<Rightarrow> None
      | Some (conv, fp, remaining) \<Rightarrow>
          (case payload_read_into (rc_state c) fp (q36_recurrent_state_bytes g) remaining of
             None \<Rightarrow> None
           | Some (state, fp, remaining) \<Rightarrow>
               Some (c\<lparr>rc_conv := conv, rc_state := state\<rparr>, fp, remaining)))"

fun payload_load_layers ::
  "q36_engine \<Rightarrow> nat \<Rightarrow> nat list \<Rightarrow> q36_cpu_runtime \<Rightarrow> bytes \<Rightarrow> nat \<Rightarrow>
   bool \<times> q36_cpu_runtime \<times> bytes \<times> nat" where
  "payload_load_layers e n [] rt fp remaining = (True, rt, fp, remaining)"
| "payload_load_layers e n (il # ils) rt fp remaining =
     (if q36_layer_is_full_attention (eg_shape e) il then
        (case payload_load_full e n (rt_full rt ! il) fp remaining of
           None \<Rightarrow> (False, rt, fp, remaining)
         | Some (c, fp, remaining) \<Rightarrow>
             payload_load_layers e n ils (rt\<lparr>rt_full := (rt_full rt)[il := c]\<rparr>) fp remaining)
      else
        (case payload_load_recurrent (eg_shape e) (rt_recurrent rt ! il) fp remaining of
           None \<Rightarrow> (False, rt, fp, remaining)
         | Some (c, fp, remaining) \<Rightarrow>
             payload_load_layers e n ils (rt\<lparr>rt_recurrent := (rt_recurrent rt)[il := c]\<rparr>) fp remaining))"

definition payload_load_token_only ::
  "q36_engine \<Rightarrow> q36_env \<Rightarrow> q36_session \<Rightarrow> bytes \<Rightarrow> nat \<Rightarrow> nat \<Rightarrow> bool \<times> q36_session \<times> bytes" where
  "payload_load_token_only e m s fp remaining n_tokens =
     (if n_tokens \<ge> ss_ctx_size s then (False, s, fp)
      else if remaining \<noteq> n_tokens * 4 then (False, s, fp)
      else (case payload_read_tokens n_tokens fp remaining of None \<Rightarrow> (False, s, fp)
            | Some (prompt, fp, remaining) \<Rightarrow>
                let s = s\<lparr>ss_checkpoint := [], ss_checkpoint_valid := False\<rparr>;
                    (rc, s) = (if prompt \<noteq> [] then q36_session_sync e m s prompt
                               else (0, q36_session_reset_runtime s))
                in if rc \<noteq> 0 then (False, s, fp)
                   else (True, s\<lparr>ss_checkpoint_valid := True\<rparr>, fp)))"

definition payload_fields_ok :: "q36_engine \<Rightarrow> q36_session \<Rightarrow> u32 list \<Rightarrow> bool" where
  "payload_fields_ok e s h \<longleftrightarrow>
     (let g = eg_shape e;
          tk = (if length h = 16 then h ! 14 else q36_kv_cache_code F16);
          tv = (if length h = 16 then h ! 15 else q36_kv_cache_code F16)
      in \<not> (h ! 2 > word_of_nat (ss_ctx_size s) \<or> h ! 4 \<ge> word_of_nat (ss_ctx_size s)) \<and>
         h ! 5 = word_of_nat (n_vocab g) \<and> h ! 6 = word_of_nat (n_layer g) \<and>
         h ! 7 = word_of_nat (n_head_kv g) \<and> h ! 8 = word_of_nat (n_head_dim g) \<and>
         h ! 9 = word_of_nat (n_value_dim g) \<and> h ! 10 = word_of_nat (n_ssm_conv g) \<and>
         h ! 11 = word_of_nat (n_ssm_conv_dim g) \<and> h ! 12 = word_of_nat (n_ssm_state g) \<and>
         h ! 13 = word_of_nat (n_ssm_dt_rank g) \<and>
         tk \<le> q36_kv_cache_code Q4_0 \<and> tv \<le> q36_kv_cache_code Q4_0 \<and>
         q36_kv_cache_code (cache_type_k e) = tk \<and> q36_kv_cache_code (cache_type_v e) = tv)"

definition payload_load_body ::
  "q36_engine \<Rightarrow> q36_session \<Rightarrow> nat \<Rightarrow> bytes \<Rightarrow> nat \<Rightarrow> bool \<times> q36_session \<times> bytes" where
  "payload_load_body e s n_tokens fp remaining =
     (let s = (q36_session_reset_runtime s)\<lparr>ss_checkpoint := [], ss_checkpoint_valid := False\<rparr>
      in case q36_session_reserve_kv e s n_tokens of
           (False, s) \<Rightarrow> (False, s, fp)
         | (True, s) \<Rightarrow>
             (case payload_read_tokens n_tokens fp remaining of None \<Rightarrow> (False, s, fp)
              | Some (toks, fp, remaining) \<Rightarrow>
                  let s = s\<lparr>ss_checkpoint := toks\<rparr>
                  in (case q36_payload_read_bytes fp (n_vocab (eg_shape e) * 4) remaining of
                        None \<Rightarrow> (False, s, fp)
                      | Some (lg, fp, remaining) \<Rightarrow>
                          let s = s\<lparr>ss_logits := lg @ drop (length lg) (ss_logits s),
                                    ss_logits_host_valid := True, ss_gpu_top2_valid := False\<rparr>;
                              (ok, rt, fp, remaining) = payload_load_layers e n_tokens
                                [0..<n_layer (eg_shape e)] (ss_runtime s) fp remaining;
                              s = s\<lparr>ss_runtime := rt\<rparr>
                          in if \<not> ok then (False, s, fp)
                             else if remaining \<noteq> 0 then (False, q36_session_invalidate s, fp)
                             else (True, s\<lparr>ss_checkpoint_valid := True\<rparr>, fp))))"

definition q36_session_load_payload ::
  "q36_engine \<Rightarrow> q36_env \<Rightarrow> q36_session \<Rightarrow> bytes \<Rightarrow> nat \<Rightarrow> bool \<times> q36_session \<times> bytes" where
  "q36_session_load_payload e m s fp payload_bytes =
     (case payload_read_u32s 3 fp payload_bytes of None \<Rightarrow> (False, s, fp)
      | Some ([magic, version, third], fp, remaining) \<Rightarrow>
          if magic \<noteq> PAYLOAD_MAGIC then (False, s, fp)
          else if version = PAYLOAD_VERSION_TOKEN_ONLY
          then payload_load_token_only e m s fp remaining (unat third)
          else if ss_dist s then (False, s, fp)
          else if version \<noteq> PAYLOAD_VERSION \<and> version \<noteq> PAYLOAD_VERSION_TYPED_KV \<and>
                  version \<noteq> PAYLOAD_VERSION_MTP then (False, s, fp)
          else (case payload_read_u32s ((if version \<noteq> PAYLOAD_VERSION then 16 else 14) - 3) fp remaining of
                  None \<Rightarrow> (False, s, fp)
                | Some (ws, fp, remaining) \<Rightarrow>
                    let h = [magic, version, third] @ ws
                    in if \<not> payload_fields_ok e s h then (False, s, fp)
                       else if version = PAYLOAD_VERSION_MTP then (False, s, fp)
                       else payload_load_body e s (unat (h ! 4)) fp remaining)
      | Some _ \<Rightarrow> (False, s, fp))"

section \<open>Snapshots\<close>

definition q36_session_save_snapshot :: "q36_session \<Rightarrow> bytes" where
  "q36_session_save_snapshot s =
     le_put32 PAYLOAD_MAGIC @ le_put32 PAYLOAD_VERSION_TOKEN_ONLY @
     le_put32 (word_of_nat (length (ss_checkpoint s))) @ payload_tokens (ss_checkpoint s)"

definition q36_session_load_snapshot ::
  "q36_engine \<Rightarrow> q36_env \<Rightarrow> q36_session \<Rightarrow> bytes \<Rightarrow> nat \<times> q36_session" where
  "q36_session_load_snapshot e m s snap =
     (if length snap < 12 then (1, s)
      else if le_get32 snap \<noteq> PAYLOAD_MAGIC \<or> le_get32 (drop 4 snap) \<noteq> PAYLOAD_VERSION_TOKEN_ONLY
      then (1, s)
      else let n_tokens = unat (le_get32 (drop 8 snap))
           in if length snap \<noteq> 12 + n_tokens * 4 then (1, s)
              else let toks = map (\<lambda>i. sint (le_get32 (drop (12 + 4 * i) snap))) [0..<n_tokens];
                       s = s\<lparr>ss_checkpoint := [], ss_checkpoint_valid := False\<rparr>
                   in if toks \<noteq> []
                      then (case q36_session_sync e m s toks of
                              (rc, s) \<Rightarrow> if rc \<noteq> 0 then (1, s)
                                          else (0, s\<lparr>ss_checkpoint_valid := True\<rparr>))
                      else (0, (q36_session_reset_runtime s)\<lparr>ss_checkpoint_valid := True\<rparr>))"

end
