(* ===== verification/Session_Inv.thy ===== *)
theory Session_Inv
  imports Session
begin

text \<open>
  The session invariant: whenever the checkpoint is marked valid, the runtime is what the forward
  pass computes for exactly the checkpoint's tokens, chunk after chunk from a reset runtime.  It
  is stated over a step relation with every operation that evaluates tokens; what each operation
  does to the token list is proved beside it.
\<close>

section \<open>Computed runtimes\<close>

text \<open>
  How a runtime comes to hold a token history: a reset, a growth of the cache buffers, which keeps
  the rows, and a run of the forward pass at the position behind the history.  \<open>L\<close> is a set of runtimes
  with token lists that were restored from payloads; without loads it is empty.
\<close>

inductive computed ::
  "q36_env \<Rightarrow> (q36_cpu_runtime \<times> int list) set \<Rightarrow> q36_cpu_runtime \<Rightarrow> int list \<Rightarrow> bool" for m L where
  comp_load: "(rt, toks) \<in> L \<Longrightarrow> computed m L rt toks"
| comp_reset: "computed m L (q36_cpu_runtime_reset rt) []"
| comp_grow: "computed m L rt toks \<Longrightarrow>
    computed m L (rt\<lparr>rt_full := snd (q36_cpu_reserve_layers e need limit 0 (rt_full rt))\<rparr>) toks"
| comp_chunk: "computed m L rt toks \<Longrightarrow> chunk \<noteq> [] \<Longrightarrow>
    me_fwd m rt chunk (length toks) lg = Some (rt', out) \<Longrightarrow> computed m L rt' (toks @ chunk)"

definition session_ok :: "q36_env \<Rightarrow> (q36_cpu_runtime \<times> int list) set \<Rightarrow> q36_session \<Rightarrow> bool" where
  "session_ok m L s \<longleftrightarrow>
     (ss_checkpoint_valid s \<and> \<not> ss_dist s \<longrightarrow> computed m L (ss_runtime s) (ss_checkpoint s)) \<and>
     length (ss_checkpoint s) \<le> ss_ctx_size s"

lemma reserve_kv_frame [frame_simps]:
  "ss_checkpoint (snd (q36_session_reserve_kv e s n)) = ss_checkpoint s"
  "ss_checkpoint_valid (snd (q36_session_reserve_kv e s n)) = ss_checkpoint_valid s"
  "ss_dist (snd (q36_session_reserve_kv e s n)) = ss_dist s"
  "ss_ctx_size (snd (q36_session_reserve_kv e s n)) = ss_ctx_size s"
  "ss_vision_state (snd (q36_session_reserve_kv e s n)) = ss_vision_state s"
  "ss_logits (snd (q36_session_reserve_kv e s n)) = ss_logits s"
  by (simp_all add: q36_session_reserve_kv_def split: prod.split)

lemma reserve_kv_computed:
  "computed m L (ss_runtime s) toks \<Longrightarrow> computed m L (ss_runtime (snd (q36_session_reserve_kv e s n))) toks"
  using comp_grow [of m L "ss_runtime s" toks e n "ss_ctx_size s"]
  by (auto simp: q36_session_reserve_kv_def split: prod.split)

lemma forward_chunk_frame [frame_simps]:
  assumes "q36_forward_chunk m s toks pos b = Some s'"
  shows "ss_checkpoint s' = ss_checkpoint s" "ss_checkpoint_valid s' = ss_checkpoint_valid s"
    "ss_dist s' = ss_dist s" "ss_ctx_size s' = ss_ctx_size s" "ss_vision_state s' = ss_vision_state s"
  using assms by (auto simp: q36_forward_chunk_def split: if_splits option.splits)

lemma forward_chunk_computed:
  assumes "q36_forward_chunk m s chunk (length toks) b = Some s'"
    and "computed m L (ss_runtime s) toks"
  shows "chunk \<noteq> [] \<and> computed m L (ss_runtime s') (toks @ chunk)"
  using assms comp_chunk
  by (auto simp: q36_forward_chunk_def split: if_splits option.splits)

lemma reset_frame [frame_simps]:
  "ss_checkpoint (q36_session_reset_runtime s) = ss_checkpoint s"
  "ss_checkpoint_valid (q36_session_reset_runtime s) = ss_checkpoint_valid s"
  "ss_dist (q36_session_reset_runtime s) = ss_dist s"
  "ss_ctx_size (q36_session_reset_runtime s) = ss_ctx_size s"
  "ss_vision_state (q36_session_reset_runtime s) = ss_vision_state s"
  "ss_runtime (q36_session_reset_runtime s) = q36_cpu_runtime_reset (ss_runtime s)"
  by (simp_all add: q36_session_reset_runtime_def)

lemma invalidate_ok: "session_ok m L (q36_session_invalidate s)"
  by (simp add: session_ok_def q36_session_invalidate_def)

section \<open>Prefill\<close>

text \<open>What the chunk loop guarantees from a runtime that holds the first \<open>i\<close> prompt tokens.\<close>

definition prefill_post ::
  "q36_env \<Rightarrow> (q36_cpu_runtime \<times> int list) set \<Rightarrow> q36_session \<Rightarrow> int list \<Rightarrow> nat \<times> q36_session \<Rightarrow> bool" where
  "prefill_post m L s prompt r \<longleftrightarrow>
     (ss_checkpoint_valid (snd r) \<longrightarrow> computed m L (ss_runtime (snd r)) (ss_checkpoint (snd r))) \<and>
     prefix (ss_checkpoint (snd r)) prompt \<and> ss_dist (snd r) = ss_dist s \<and>
     ss_ctx_size (snd r) = ss_ctx_size s \<and> ss_vision_state (snd r) = ss_vision_state s \<and>
     (fst r = 0 \<longrightarrow> ss_checkpoint (snd r) = prompt \<and>
        (ss_checkpoint s \<noteq> prompt \<or> ss_checkpoint_valid s \<longrightarrow> ss_checkpoint_valid (snd r)))"

lemma prefill_loop_post:
  assumes "computed m L (ss_runtime s) (ss_checkpoint s)"
    and "ss_checkpoint s = take i prompt" and "i \<le> length prompt"
  shows "prefill_post m L s prompt (q36_prefill_loop e m s prompt i)"
  using assms
proof (induction e m s prompt i rule: q36_prefill_loop.induct)
  case (1 e m s prompt i)
  have pre: "prefix (ss_checkpoint s) prompt"
    using "1.prems"(2) by (simp add: take_is_prefix)
  show ?case
  proof (cases "i < length prompt \<and> \<not> me_cancel m i")
    case False
    with 1 pre show ?thesis
      by (subst q36_prefill_loop.simps) (auto simp: prefill_post_def)
  next
    case True
    define n where "n = q36_prefill_n s prompt i"
    define chunk where "chunk = take n (drop i prompt)"
    obtain ok s1 where r: "q36_session_reserve_kv e s (i + n) = (ok, s1)" by fastforce
    have s1: "ss_checkpoint s1 = ss_checkpoint s" "ss_checkpoint_valid s1 = ss_checkpoint_valid s"
      "ss_dist s1 = ss_dist s" "ss_ctx_size s1 = ss_ctx_size s"
      "ss_vision_state s1 = ss_vision_state s" "computed m L (ss_runtime s1) (ss_checkpoint s)"
      using reserve_kv_frame [of e s "i + n"] reserve_kv_computed [OF "1.prems"(1), of e "i + n"]
      by (simp_all add: r)
    have len: "length (ss_checkpoint s) = i"
      using "1.prems"(2,3) by simp
    have unf: "q36_prefill_loop e m s prompt i = (if ok then
        (case q36_forward_chunk m s1 chunk i (i + n = length prompt) of
           None \<Rightarrow> (1, s1\<lparr>ss_checkpoint_valid := False\<rparr>)
         | Some s2 \<Rightarrow> if n = 0 then (1, s2)
             else q36_prefill_loop e m (s2\<lparr>ss_checkpoint := ss_checkpoint s2 @ chunk,
                    ss_checkpoint_valid := True\<rparr>) prompt (i + n)) else (1, s1))"
      unfolding chunk_def using True
      by (subst q36_prefill_loop.simps) (simp add: n_def [symmetric] r split: option.split)
    show ?thesis
    proof (cases "ok \<and> q36_forward_chunk m s1 chunk i (i + n = length prompt) \<noteq> None")
      case False
      with s1 pre show ?thesis
        by (auto simp: unf prefill_post_def)
    next
      case ok: True
      then obtain s2 where f: "q36_forward_chunk m s1 chunk i (i + n = length prompt) = Some s2" by auto
      note s2 = forward_chunk_frame [OF f]
      have c2: "chunk \<noteq> []" "computed m L (ss_runtime s2) (ss_checkpoint s @ chunk)"
        using forward_chunk_computed [of m s1 chunk "ss_checkpoint s"] f s1(6) len by auto
      then have n: "n \<noteq> 0" "i + n \<le> length prompt"
        using True by (auto simp: chunk_def n_def q36_prefill_n_def Let_def)
      let ?s3 = "s2\<lparr>ss_checkpoint := ss_checkpoint s2 @ chunk, ss_checkpoint_valid := True\<rparr>"
      have cp: "ss_checkpoint s2 @ chunk = take (i + n) prompt"
        using "1.prems"(2) s1(1) s2(1) by (simp add: chunk_def take_add)
      have c3: "computed m L (ss_runtime ?s3) (ss_checkpoint ?s3)"
        "ss_checkpoint ?s3 = take (i + n) prompt"
        using c2(2) s2(1) s1(1) cp by simp_all
      have "prefill_post m L ?s3 prompt (q36_prefill_loop e m ?s3 prompt (i + n))"
        using "1.IH" [OF conjunct1 [OF True] conjunct2 [OF True] n_def _ refl, of s1 s2] r ok f n c3
        by (simp add: chunk_def)
      then show ?thesis
        using ok f n(1) s1 s2 by (auto simp: unf prefill_post_def)
    qed
  qed
qed

section \<open>Each operation keeps the invariant\<close>

lemma prefill_range_ok:
  assumes "\<not> ss_dist s \<Longrightarrow> computed m L (ss_runtime s) (ss_checkpoint s)"
    and "ss_checkpoint s = take i prompt" and "i \<le> length prompt" and "length prompt \<le> ss_ctx_size s"
    and "i < length prompt \<or> ss_checkpoint_valid s"
  shows "session_ok m L (snd (q36_session_prefill_range e m s prompt i)) \<and>
    (fst (q36_session_prefill_range e m s prompt i) = 0 \<longrightarrow>
       ss_checkpoint (snd (q36_session_prefill_range e m s prompt i)) = prompt \<and>
       ss_checkpoint_valid (snd (q36_session_prefill_range e m s prompt i)))"
proof (cases "ss_dist s")
  case True
  have "length (ss_checkpoint s) \<le> ss_ctx_size s" using assms(2-4) by simp
  with True assms(4) show ?thesis
    by (auto simp: q36_session_prefill_range_def session_ok_def split: prod.split)
next
  case False
  have "prefill_post m L s prompt (q36_prefill_loop e m s prompt i)"
    by (rule prefill_loop_post) (use assms False in simp_all)
  moreover have "ss_checkpoint s \<noteq> prompt \<or> ss_checkpoint_valid s"
    using assms(2,3,5) by (metis length_take min.absorb2 nat_less_le)
  ultimately show ?thesis
    using False assms(4) prefix_length_le
    by (fastforce simp: prefill_post_def session_ok_def q36_session_prefill_range_def)
qed

lemma sync_ok:
  assumes "session_ok m L s"
  shows "session_ok m L (snd (q36_session_sync e m s prompt)) \<and>
    (fst (q36_session_sync e m s prompt) = 0 \<longrightarrow>
       ss_checkpoint (snd (q36_session_sync e m s prompt)) = prompt \<and>
       ss_checkpoint_valid (snd (q36_session_sync e m s prompt)))"
proof (cases "length prompt = 0 \<or> length prompt \<ge> ss_ctx_size s")
  case True
  with assms show ?thesis by (auto simp: q36_session_sync_def)
next
  case len: False
  show ?thesis
  proof (cases "\<not> ss_vision_state s \<and> ss_checkpoint_valid s \<and>
      length prompt \<ge> length (ss_checkpoint s) \<and> q36_tokens_starts_with prompt (ss_checkpoint s)")
    case True
    then have "ss_checkpoint s = take (length (ss_checkpoint s)) prompt"
      by (metis append_eq_conv_conj prefix_def tokens_starts_with_iff)
    then show ?thesis
      using prefill_range_ok [of s m L "length (ss_checkpoint s)" prompt e] assms True len
      by (auto simp: q36_session_sync_def session_ok_def)
  next
    case False
    let ?s = "(q36_session_reset_runtime s)\<lparr>ss_vision_state := False, ss_checkpoint := [],
      ss_checkpoint_valid := False\<rparr>"
    have "computed m L (ss_runtime ?s) (ss_checkpoint ?s)"
      using comp_reset by (simp add: frame_simps)
    then show ?thesis
      using prefill_range_ok [of ?s m L 0 prompt e] len False
      by (auto simp: q36_session_sync_def frame_simps)
  qed
qed

lemma eval_ok:
  assumes "session_ok m L s" and "ss_checkpoint_valid s"
  shows "session_ok m L (snd (q36_session_eval e m s token)) \<and>
    (fst (q36_session_eval e m s token) = 0 \<longrightarrow>
       ss_checkpoint (snd (q36_session_eval e m s token)) = ss_checkpoint s @ [token] \<and>
       ss_checkpoint_valid (snd (q36_session_eval e m s token))) \<and>
    (fst (q36_session_eval e m s token) \<noteq> 0 \<longrightarrow>
       ss_checkpoint (snd (q36_session_eval e m s token)) = ss_checkpoint s)"
proof (cases "length (ss_checkpoint s) \<ge> ss_ctx_size s \<or> ss_dist s")
  case True
  with assms show ?thesis
    by (auto simp: q36_session_eval_def session_ok_def q36_tokens_push_def split: prod.split)
next
  case False
  obtain ok s1 where r: "q36_session_reserve_kv e s (length (ss_checkpoint s) + 1) = (ok, s1)"
    by fastforce
  have c: "computed m L (ss_runtime s) (ss_checkpoint s)"
    using assms False by (simp add: session_ok_def)
  have s1: "ss_checkpoint s1 = ss_checkpoint s" "ss_checkpoint_valid s1" "ss_dist s1 = ss_dist s"
    "ss_ctx_size s1 = ss_ctx_size s" "computed m L (ss_runtime s1) (ss_checkpoint s)"
    using reserve_kv_frame [of e s "length (ss_checkpoint s) + 1"] assms(2)
      reserve_kv_computed [OF c, of e "length (ss_checkpoint s) + 1"]
    unfolding r by simp_all
  show ?thesis
  proof (cases "q36_forward_chunk m s1 [token] (length (ss_checkpoint s)) True")
    case None
    with False r s1 show ?thesis
      by (cases ok) (auto simp: q36_session_eval_def session_ok_def)
  next
    case (Some s2)
    note s2 = forward_chunk_frame [OF Some]
    have "computed m L (ss_runtime s2) (ss_checkpoint s @ [token])"
      using forward_chunk_computed [OF Some s1(5)] by simp
    with False r s1 s2 Some show ?thesis
      by (cases ok) (auto simp: q36_session_eval_def session_ok_def q36_tokens_push_def)
  qed
qed

text \<open>
  Rewriting trusts the caller that the checkpoint is valid: it marks it so before it evaluates.
\<close>

lemma rewrite_ok:
  assumes "session_ok m L s" and "ss_checkpoint_valid s" and "length prompt \<le> ss_ctx_size s"
    and "common \<le> int (length (ss_checkpoint s)) \<longrightarrow> prefix (take (nat common) (ss_checkpoint s)) prompt"
  shows "session_ok m L (snd (q36_session_rewrite_from_common e m s prompt common)) \<and>
    (fst (q36_session_rewrite_from_common e m s prompt common) = REWRITE_OK \<longrightarrow>
       ss_checkpoint (snd (q36_session_rewrite_from_common e m s prompt common)) = prompt)"
proof (cases "fst (q36_session_rewrite_from_common e m s prompt common) = REWRITE_REBUILD_NEEDED \<or>
    common < 0 \<or> common > int (length prompt)")
  case True
  with assms(1) show ?thesis
    by (auto simp: q36_session_rewrite_from_common_def Let_def split: if_splits prod.splits)
next
  case False
  then have cm: "common = int (length (ss_checkpoint s))" "common \<le> int (length prompt)"
    by (auto simp: q36_session_rewrite_from_common_def q36_session_rewrite_requires_rebuild_def
        split: if_splits)
  then have pre: "ss_checkpoint s = take (nat common) prompt"
    using assms(4) by (auto simp: prefix_def)
  show ?thesis
  proof (cases "common = int (length prompt)")
    case True
    with cm pre assms(1) show ?thesis
      by (auto simp: q36_session_rewrite_from_common_def q36_session_rewrite_requires_rebuild_def)
  next
    case ne: False
    let ?s = "s\<lparr>ss_checkpoint := take (nat common) (ss_checkpoint s), ss_checkpoint_valid := True\<rparr>"
    have unf: "q36_session_rewrite_from_common e m s prompt common =
        (case q36_session_prefill_range e m ?s prompt (nat common) of
           (rc, s) \<Rightarrow> if rc \<noteq> 0 then (REWRITE_ERROR, s) else (REWRITE_OK, s))"
      using cm ne by (simp add: q36_session_rewrite_from_common_def
          q36_session_rewrite_requires_rebuild_def Let_def)
    have "session_ok m L (snd (q36_session_prefill_range e m ?s prompt (nat common))) \<and>
      (fst (q36_session_prefill_range e m ?s prompt (nat common)) = 0 \<longrightarrow>
       ss_checkpoint (snd (q36_session_prefill_range e m ?s prompt (nat common))) = prompt \<and>
       ss_checkpoint_valid (snd (q36_session_prefill_range e m ?s prompt (nat common))))"
    proof (rule prefill_range_ok)
      have full: "take (nat common) (ss_checkpoint s) = ss_checkpoint s"
        using cm(1) by simp
      show "computed m L (ss_runtime ?s) (ss_checkpoint ?s)" if "\<not> ss_dist ?s"
        using assms(1,2) that full by (simp add: session_ok_def)
      show "ss_checkpoint ?s = take (nat common) prompt"
        using full pre by simp
    qed (use assms(3) cm(2) in simp_all)
    then show ?thesis
      unfolding unf by (auto split: prod.split)
  qed
qed

lemma rewind_unfold:
  assumes "\<not> ss_vision_state s" and "nat pos < length (ss_checkpoint s)"
  defines "s0 \<equiv> (q36_session_reset_runtime s)\<lparr>ss_checkpoint := [], ss_checkpoint_valid := False\<rparr>"
  shows "q36_session_rewind e m s pos =
    (if nat pos > 0 then
       (if fst (q36_session_sync e m s0 (take (nat pos) (ss_checkpoint s))) \<noteq> 0
        then q36_session_invalidate (snd (q36_session_sync e m s0 (take (nat pos) (ss_checkpoint s))))
        else snd (q36_session_sync e m s0 (take (nat pos) (ss_checkpoint s))))
     else s0)"
proof -
  have np: "(if pos < 0 then 0 else nat pos) = nat pos" by simp
  show ?thesis
    using assms(1,2) unfolding q36_session_rewind_def Let_def np s0_def
    by (simp add: case_prod_beta)
qed

lemma rewind_ok:
  assumes "session_ok m L s"
  shows "session_ok m L (q36_session_rewind e m s pos) \<and>
    (ss_checkpoint (q36_session_rewind e m s pos) = take (nat pos) (ss_checkpoint s) \<or>
     ss_checkpoint (q36_session_rewind e m s pos) = [])"
proof (cases "\<not> ss_vision_state s \<and> nat pos < length (ss_checkpoint s)")
  case False
  show ?thesis
  proof (cases "ss_vision_state s")
    case True
    with invalidate_ok show ?thesis
      by (simp add: q36_session_rewind_def) (simp add: q36_session_invalidate_def)
  next
    case nv: False
    with False have "q36_session_rewind e m s pos = s"
      by (auto simp: q36_session_rewind_def Let_def)
    with assms False nv show ?thesis by simp
  qed
next
  case True
  let ?s = "(q36_session_reset_runtime s)\<lparr>ss_checkpoint := [], ss_checkpoint_valid := False\<rparr>"
  have s: "session_ok m L ?s"
    by (simp add: session_ok_def)
  have inv: "ss_checkpoint (q36_session_invalidate s') = []" for s'
    by (simp add: q36_session_invalidate_def)
  obtain rc s1 where y: "q36_session_sync e m ?s (take (nat pos) (ss_checkpoint s)) = (rc, s1)"
    by fastforce
  have s1: "session_ok m L s1" "rc = 0 \<Longrightarrow> ss_checkpoint s1 = take (nat pos) (ss_checkpoint s)"
    using sync_ok [OF s, of e "take (nat pos) (ss_checkpoint s)"] unfolding y by auto
  have "q36_session_rewind e m s pos = (if nat pos > 0 then
      (if rc \<noteq> 0 then q36_session_invalidate s1 else s1) else ?s)"
    unfolding rewind_unfold [OF conjunct1 [OF True] conjunct2 [OF True]] y by simp
  with s s1 invalidate_ok [of m L s1] inv show ?thesis
    by (cases "nat pos > 0"; cases "rc = 0") auto
qed

lemma snapshot_ok:
  assumes "session_ok m L s"
  shows "session_ok m L (snd (q36_session_load_snapshot e m s snap))"
proof -
  let ?s = "s\<lparr>ss_checkpoint := [], ss_checkpoint_valid := False\<rparr>"
  let ?toks = "map (\<lambda>i. sint (le_get32 (drop (12 + 4 * i) snap))) [0..<unat (le_get32 (drop 8 snap))]"
  have s: "session_ok m L ?s"
    by (simp add: session_ok_def)
  have r: "session_ok m L ((q36_session_reset_runtime ?s)\<lparr>ss_checkpoint_valid := True\<rparr>)"
    using comp_reset by (simp add: session_ok_def frame_simps)
  obtain rc s1 where y: "q36_session_sync e m ?s ?toks = (rc, s1)" by fastforce
  have s1: "session_ok m L s1" "rc = 0 \<Longrightarrow> s1\<lparr>ss_checkpoint_valid := True\<rparr> = s1"
    using sync_ok [OF s, of e ?toks] unfolding y by auto
  have if_in: "snd (if b then (1 :: nat, x) else y) \<in> A" if "x \<in> A" "snd y \<in> A"
    for b and x :: q36_session and y A
    using that by simp
  have "rc = 0 \<longrightarrow> s1\<lparr>ss_checkpoint_valid := True\<rparr> = s1"
    using s1(2) by blast
  then have "snd (q36_session_load_snapshot e m s snap) \<in>
      {s, s1, (q36_session_reset_runtime ?s)\<lparr>ss_checkpoint_valid := True\<rparr>}"
    unfolding q36_session_load_snapshot_def Let_def y prod.case
    by (intro if_in) (simp_all del: upt.simps)
  with assms s1(1) r show ?thesis by auto
qed

section \<open>Reachable sessions\<close>

lemma common_prefix_from_spec:
  "i \<le> n \<Longrightarrow> i \<le> common_prefix_from i n v w \<and> common_prefix_from i n v w \<le> n \<and>
     (\<forall>j. i \<le> j \<and> j < common_prefix_from i n v w \<longrightarrow> v ! j = w ! j) \<and>
     (common_prefix_from i n v w < n \<longrightarrow>
        v ! common_prefix_from i n v w \<noteq> w ! common_prefix_from i n v w)"
proof (induction i n v w rule: common_prefix_from.induct)
  case (1 i n v w)
  show ?case
  proof (cases "i < n \<and> v ! i = w ! i")
    case True
    then have "common_prefix_from i n v w = common_prefix_from (i + 1) n v w"
      by (subst common_prefix_from.simps) simp
    moreover have "v ! j = w ! j" if "i \<le> j" "j < common_prefix_from (i + 1) n v w" for j
      using "1.IH" [OF True] True that by (cases "j = i") auto
    ultimately show ?thesis
      using "1.IH" [OF True] True by auto
  next
    case False
    then have "common_prefix_from i n v w = i"
      by (subst common_prefix_from.simps) auto
    with False "1.prems" show ?thesis by auto
  qed
qed

lemma common_prefix_prefix:
  "prefix (take (q36_session_common_prefix s prompt) (ss_checkpoint s)) prompt"
  "q36_session_common_prefix s prompt \<le> length (ss_checkpoint s)"
proof -
  let ?n = "if length (ss_checkpoint s) < length prompt then length (ss_checkpoint s) else length prompt"
  let ?c = "common_prefix_from 0 ?n (ss_checkpoint s) prompt"
  have c: "?c \<le> ?n" "\<forall>j < ?c. ss_checkpoint s ! j = prompt ! j"
    using common_prefix_from_spec [of 0 ?n "ss_checkpoint s" prompt] by auto
  have n: "?n \<le> length (ss_checkpoint s)" "?n \<le> length prompt" by simp_all
  have "take ?c (ss_checkpoint s) = take ?c prompt"
    by (rule nth_equalityI) (use c n in auto)
  then have "prefix (take ?c (ss_checkpoint s)) prompt"
    by (simp add: take_is_prefix)
  then show "prefix (take (q36_session_common_prefix s prompt) (ss_checkpoint s)) prompt"
    by (simp add: q36_session_common_prefix_def Let_def)
  have "?c \<le> length (ss_checkpoint s)" using c(1) n(1) by simp
  then show "q36_session_common_prefix s prompt \<le> length (ss_checkpoint s)"
    by (simp add: q36_session_common_prefix_def Let_def)
qed

text \<open>Loading a payload: a token-only one is evaluated anew, the other kind brings its runtime along.\<close>

lemma read_u32s_length: "payload_read_u32s n fp r = Some (ws, x) \<Longrightarrow> length ws = n"
  by (induction n arbitrary: fp r ws x) (auto split: option.splits)

lemma read_tokens_length: "payload_read_tokens n fp r = Some (toks, x) \<Longrightarrow> length toks = n"
  by (auto simp: payload_read_tokens_def dest: read_u32s_length)

lemma load_token_only_ok:
  assumes "session_ok m L s"
  shows "session_ok m L (fst (snd (payload_load_token_only e m s fp remaining n)))"
proof -
  have s: "session_ok m L (s\<lparr>ss_checkpoint := [], ss_checkpoint_valid := False\<rparr>)" by (simp add: session_ok_def)
  have r: "session_ok m L ((q36_session_reset_runtime (s\<lparr>ss_checkpoint := [], ss_checkpoint_valid := False\<rparr>))
      \<lparr>ss_checkpoint_valid := True\<rparr>)"
    using comp_reset by (simp add: session_ok_def frame_simps)
  have sy: "session_ok m L s1 \<and> (rc = 0 \<longrightarrow> s1\<lparr>ss_checkpoint_valid := True\<rparr> = s1)"
    if "q36_session_sync e m (s\<lparr>ss_checkpoint := [], ss_checkpoint_valid := False\<rparr>) prompt = (rc, s1)" for rc s1 prompt
    using sync_ok [OF s, of e prompt] that by auto
  show ?thesis
    using assms r sy
    by (auto simp: payload_load_token_only_def Let_def split: option.split prod.split)
qed

lemma load_body_ok:
  assumes "payload_load_body e s n fp remaining = (ok, s', r)" and "n \<le> ss_ctx_size s"
    and "ok \<Longrightarrow> (ss_runtime s', ss_checkpoint s') \<in> L"
  shows "session_ok m L s'"
proof -
  let ?s = "(q36_session_reset_runtime s)\<lparr>ss_checkpoint := [], ss_checkpoint_valid := False\<rparr>"
  obtain rok s1 where s1: "q36_session_reserve_kv e ?s n = (rok, s1)" by fastforce
  have f: "ss_checkpoint s1 = []" "\<not> ss_checkpoint_valid s1" "ss_ctx_size s1 = ss_ctx_size s"
    using reserve_kv_frame [of e ?s n] unfolding s1 by (simp_all add: frame_simps)
  show ?thesis
    using assms f invalidate_ok
    by (auto simp: payload_load_body_def Let_def s1 session_ok_def dest: read_tokens_length
        intro: comp_load split: option.splits prod.splits if_splits bool.splits)
qed

definition payload_token_only :: "bytes \<Rightarrow> nat \<Rightarrow> bool" where
  "payload_token_only fp n =
     (case payload_read_u32s 3 fp n of
        Some ([magic, version, third], _) \<Rightarrow> version = PAYLOAD_VERSION_TOKEN_ONLY
      | _ \<Rightarrow> False)"

lemma load_payload_ok:
  assumes ok: "session_ok m L s" and ld: "q36_session_load_payload e m s fp n = (res, s', r)"
    and L: "res \<Longrightarrow> \<not> payload_token_only fp n \<Longrightarrow> (ss_runtime s', ss_checkpoint s') \<in> L"
  shows "session_ok m L s'"
proof (cases "s' = s")
  case False
  then obtain magic version third fp1 rem where h: "payload_read_u32s 3 fp n = Some ([magic, version, third], fp1, rem)"
    using ld by (auto simp: q36_session_load_payload_def split: option.splits list.splits prod.splits)
  show ?thesis
  proof (cases "version = PAYLOAD_VERSION_TOKEN_ONLY")
    case True
    then have "s' = fst (snd (payload_load_token_only e m s fp1 rem (unat third)))"
      using ld h False by (auto simp: q36_session_load_payload_def split: if_splits)
    then show ?thesis using load_token_only_ok [OF ok] by simp
  next
    case body: False
    obtain h' fp2 rem2 where b: "payload_fields_ok e s h'" "payload_load_body e s (unat (h' ! 4)) fp2 rem2 = (res, s', r)"
      using ld h False body
      by (auto simp: q36_session_load_payload_def Let_def split: if_splits option.splits prod.splits)
    have "unat (h' ! 4) < unat (word_of_nat (ss_ctx_size s) :: u32)"
      using b(1) by (simp add: payload_fields_ok_def Let_def word_less_nat_alt not_le)
    also have "\<dots> \<le> ss_ctx_size s" by (simp add: unat_of_nat)
    finally show ?thesis
      using load_body_ok [OF b(2), of L m] L body h by (auto simp: payload_token_only_def)
  qed
qed (use ok in simp)

section \<open>Runs of a session\<close>

text \<open>
  The operations that change a session.  \<open>op_allowed\<close> is what every caller of \<^verbatim>\<open>q36_session_eval\<close> and
  \<^verbatim>\<open>q36_session_rewrite_from_common\<close> sees to and the two functions do not check: a token is evaluated, and
  a checkpoint rewritten, only while the checkpoint is valid; a rewrite passes the common prefix and a prompt
  that fits.  All other operations may come in any state.
\<close>

datatype session_op = Op_sync "int list" | Op_eval int | Op_rewind int | Op_invalidate
  | Op_load_snapshot bytes | Op_load_payload bytes nat | Op_rewrite "int list" int

fun session_do :: "q36_engine \<Rightarrow> q36_env \<Rightarrow> session_op \<Rightarrow> q36_session \<Rightarrow> q36_session" where
  "session_do e m (Op_sync prompt) s = snd (q36_session_sync e m s prompt)"
| "session_do e m (Op_eval token) s = snd (q36_session_eval e m s token)"
| "session_do e m (Op_rewind pos) s = q36_session_rewind e m s pos"
| "session_do e m Op_invalidate s = q36_session_invalidate s"
| "session_do e m (Op_load_snapshot snap) s = snd (q36_session_load_snapshot e m s snap)"
| "session_do e m (Op_load_payload fp n) s = fst (snd (q36_session_load_payload e m s fp n))"
| "session_do e m (Op_rewrite prompt common) s = snd (q36_session_rewrite_from_common e m s prompt common)"

fun op_allowed :: "session_op \<Rightarrow> q36_session \<Rightarrow> bool" where
  "op_allowed (Op_eval token) s = ss_checkpoint_valid s"
| "op_allowed (Op_rewrite prompt common) s =
     (ss_checkpoint_valid s \<and> common = int (q36_session_common_prefix s prompt) \<and> length prompt \<le> ss_ctx_size s)"
| "op_allowed _ s = True"

text \<open>The runtimes that the payloads loaded in a run have brought along, with their tokens.\<close>

fun op_loaded :: "q36_engine \<Rightarrow> q36_env \<Rightarrow> session_op \<Rightarrow> q36_session \<Rightarrow> (q36_cpu_runtime \<times> int list) set" where
  "op_loaded e m (Op_load_payload fp n) s =
     (case q36_session_load_payload e m s fp n of (ok, s', r) \<Rightarrow>
        if ok \<and> \<not> payload_token_only fp n then {(ss_runtime s', ss_checkpoint s')} else {})"
| "op_loaded e m _ s = {}"

fun session_run :: "q36_engine \<Rightarrow> q36_env \<Rightarrow> session_op list \<Rightarrow> q36_session \<Rightarrow> q36_session" where
  "session_run e m [] s = s"
| "session_run e m (op # ops) s = session_run e m ops (session_do e m op s)"

fun run_allowed :: "q36_engine \<Rightarrow> q36_env \<Rightarrow> session_op list \<Rightarrow> q36_session \<Rightarrow> bool" where
  "run_allowed e m [] s = True"
| "run_allowed e m (op # ops) s = (op_allowed op s \<and> run_allowed e m ops (session_do e m op s))"

fun run_loaded :: "q36_engine \<Rightarrow> q36_env \<Rightarrow> session_op list \<Rightarrow> q36_session \<Rightarrow> (q36_cpu_runtime \<times> int list) set" where
  "run_loaded e m [] s = {}"
| "run_loaded e m (op # ops) s = op_loaded e m op s \<union> run_loaded e m ops (session_do e m op s)"

lemma session_do_ok:
  assumes "session_ok m L s" "op_allowed op s" "op_loaded e m op s \<subseteq> L"
  shows "session_ok m L (session_do e m op s)"
proof (cases op)
  case (Op_rewrite prompt common)
  have "prefix (take (nat common) (ss_checkpoint s)) prompt"
    using common_prefix_prefix(1) [of s prompt] assms(2) Op_rewrite by simp
  then show ?thesis using rewrite_ok [OF assms(1)] assms(2) Op_rewrite by simp
next
  case (Op_load_payload fp n)
  obtain ok s' r where ld: "q36_session_load_payload e m s fp n = (ok, s', r)" by (metis prod.collapse)
  then have "ok \<Longrightarrow> \<not> payload_token_only fp n \<Longrightarrow> (ss_runtime s', ss_checkpoint s') \<in> L"
    using assms(3) Op_load_payload by simp
  from load_payload_ok [OF assms(1) ld this] show ?thesis using Op_load_payload ld by simp
qed (use assms sync_ok eval_ok rewind_ok invalidate_ok snapshot_ok in auto)

lemma session_run_ok:
  "session_ok m L s \<Longrightarrow> run_allowed e m ops s \<Longrightarrow> run_loaded e m ops s \<subseteq> L \<Longrightarrow>
   session_ok m L (session_run e m ops s)"
  by (induction ops arbitrary: s) (auto intro: session_do_ok)


text \<open>
  C9. A sync that succeeds leaves exactly the prompt: from any session whose valid checkpoint is
  backed by its runtime, \<^verbatim>\<open>q36_session_sync\<close> answers 0 only with the checkpoint equal to the
  prompt, marked valid and backed by a runtime computed for it, whether it extended the live
  prefix or rebuilt from scratch.
\<close>

theorem sync_exact:
  assumes "session_ok m L s" and "q36_session_sync e m s prompt = (0, s')"
  shows "ss_checkpoint s' = prompt \<and> ss_checkpoint_valid s' \<and> session_ok m L s' \<and>
    prompt \<noteq> [] \<and> length prompt < ss_ctx_size s"
  using sync_ok [OF assms(1), of e prompt] assms(2)
  by (auto simp: q36_session_sync_def split: if_splits)

text \<open>
  \<^verbatim>\<open>q36_session_common_prefix\<close> of a valid checkpoint is the length of the longest common
  prefix: the first tokens agree, and behind them one list ends or the tokens differ.
\<close>

theorem common_prefix_longest:
  assumes "ss_checkpoint_valid s"
  shows "let n = q36_session_common_prefix s prompt in
    n \<le> length (ss_checkpoint s) \<and> n \<le> length prompt \<and>
    take n (ss_checkpoint s) = take n prompt \<and>
    (n = length (ss_checkpoint s) \<or> n = length prompt \<or> ss_checkpoint s ! n \<noteq> prompt ! n)"
proof -
  let ?n = "if length (ss_checkpoint s) < length prompt then length (ss_checkpoint s) else length prompt"
  let ?c = "common_prefix_from 0 ?n (ss_checkpoint s) prompt"
  have "q36_session_common_prefix s prompt = ?c"
    using assms by (simp add: q36_session_common_prefix_def Let_def)
  moreover have c: "?c \<le> ?n" "?c < ?n \<longrightarrow> ss_checkpoint s ! ?c \<noteq> prompt ! ?c"
    using common_prefix_from_spec [of 0 ?n "ss_checkpoint s" prompt] by auto
  moreover have "take (q36_session_common_prefix s prompt) (ss_checkpoint s)
      = take (q36_session_common_prefix s prompt) prompt"
    using common_prefix_prefix [of s prompt] by (metis append_eq_conv_conj length_take min.absorb2 prefix_def)
  ultimately show ?thesis
    unfolding Let_def by (auto split: if_splits)
qed

text \<open>
  Rewriting does not look at the valid flag.  From a session whose first forward pass has failed
  (empty checkpoint, not valid, the runtime as the failed pass left it) it starts the prefill on
  that runtime, without the reset that \<^verbatim>\<open>q36_session_sync\<close> makes for an invalid checkpoint.
\<close>

lemma rewrite_ignores_valid:
  assumes "\<not> ss_dist s" and "ss_checkpoint s = []" and "prompt \<noteq> []"
  shows "q36_session_rewrite_from_common e m s prompt 0 =
    (case q36_prefill_loop e m (s\<lparr>ss_checkpoint_valid := True\<rparr>) prompt 0 of
       (rc, s') \<Rightarrow> if rc \<noteq> 0 then (REWRITE_ERROR, s') else (REWRITE_OK, s'))"
  using assms by (cases s) (simp add: q36_session_rewrite_from_common_def
      q36_session_rewrite_requires_rebuild_def q36_session_prefill_range_def Let_def)

end
