(* ===== verification/Session_Payload.thy ===== *)
theory Session_Payload
  imports Session_Inv
begin

text \<open>
  The payload is a faithful copy of the session: loading what \<^verbatim>\<open>q36_session_save_payload\<close> wrote
  restores the tokens, the logits and, layer by layer, the cache rows and recurrent states; the
  token-only forms (pipeline sessions and snapshots) hand exactly the saved tokens to a sync.
\<close>

section \<open>Growing the caches\<close>

lemma kv_next_cap_ok:
  "4 \<le> cap \<or> need \<le> cap \<Longrightarrow> need \<le> limit \<Longrightarrow>
     need \<le> q36_kv_next_cap cap need limit \<and> cap \<le> q36_kv_next_cap cap need limit \<and>
     (cap \<le> limit \<longrightarrow> q36_kv_next_cap cap need limit \<le> limit)"
proof (induction cap need limit rule: q36_kv_next_cap.induct)
  case (1 cap need limit)
  show ?case
  proof (cases "cap < need")
    case False
    then have "q36_kv_next_cap cap need limit = cap"
      by (subst q36_kv_next_cap.simps) simp
    with False 1 show ?thesis by simp
  next
    case True
    with "1.prems" have c: "4 \<le> cap" "cap < limit" by simp_all
    define grown where "grown = (if cap div 4 \<le> limit - cap then cap + cap div 4 else limit)"
    have g: "cap < grown" "grown \<le> limit"
      using c by (auto simp: grown_def)
    have unf: "q36_kv_next_cap cap need limit = q36_kv_next_cap grown need limit"
      using True c g by (subst q36_kv_next_cap.simps) (simp add: grown_def Let_def)
    have "need \<le> q36_kv_next_cap grown need limit \<and> grown \<le> q36_kv_next_cap grown need limit \<and>
        (grown \<le> limit \<longrightarrow> q36_kv_next_cap grown need limit \<le> limit)"
      using "1.IH" [OF True _ refl grown_def] "1.prems" c g by simp
    with g unf show ?thesis by simp
  qed
qed

section \<open>Well-formed runtimes\<close>

definition full_wf :: "q36_engine \<Rightarrow> nat \<Rightarrow> q36_full_attn_cache \<Rightarrow> bool" where
  "full_wf e ctx c \<longleftrightarrow> fc_len c \<le> fc_cap c \<and> fc_cap c \<noteq> 0 \<and> fc_cap c \<le> ctx \<and>
     (4 \<le> fc_cap c \<or> fc_cap c = ctx) \<and>
     (\<exists>k v. fc_k c = Some k \<and> fc_v c = Some v \<and> length k = q36_full_k_bytes e (fc_cap c) \<and>
        length v = q36_full_v_bytes e (fc_cap c))"

definition recurrent_wf :: "q36_shape \<Rightarrow> q36_recurrent_cache \<Rightarrow> bool" where
  "recurrent_wf g c \<longleftrightarrow> (\<exists>conv state. rc_conv c = Some conv \<and> rc_state c = Some state \<and>
     length conv = q36_recurrent_conv_bytes g \<and> length state = q36_recurrent_state_bytes g)"

definition runtime_wf :: "q36_engine \<Rightarrow> nat \<Rightarrow> q36_cpu_runtime \<Rightarrow> bool" where
  "runtime_wf e ctx rt \<longleftrightarrow> length (rt_full rt) = n_layer (eg_shape e) \<and>
     length (rt_recurrent rt) = n_layer (eg_shape e) \<and>
     (\<forall>il < n_layer (eg_shape e).
        if q36_layer_is_full_attention (eg_shape e) il then full_wf e ctx (rt_full rt ! il)
        else recurrent_wf (eg_shape e) (rt_recurrent rt ! il))"

text \<open>Two runtimes hold the same first rows and the same recurrent states.\<close>

definition full_same :: "q36_engine \<Rightarrow> nat \<Rightarrow> q36_full_attn_cache \<Rightarrow> q36_full_attn_cache \<Rightarrow> bool" where
  "full_same e rows c d \<longleftrightarrow> fc_len c = rows \<and>
     map_option (take (q36_full_k_bytes e rows)) (fc_k c) = map_option (take (q36_full_k_bytes e rows)) (fc_k d) \<and>
     map_option (take (q36_full_v_bytes e rows)) (fc_v c) = map_option (take (q36_full_v_bytes e rows)) (fc_v d)"

definition layer_same :: "q36_engine \<Rightarrow> nat \<Rightarrow> q36_cpu_runtime \<Rightarrow> q36_cpu_runtime \<Rightarrow> nat \<Rightarrow> bool" where
  "layer_same e rows rt rt' il \<longleftrightarrow>
     (if q36_layer_is_full_attention (eg_shape e) il
      then full_same e rows (rt_full rt ! il) (rt_full rt' ! il)
      else rc_conv (rt_recurrent rt ! il) = rc_conv (rt_recurrent rt' ! il) \<and>
           rc_state (rt_recurrent rt ! il) = rc_state (rt_recurrent rt' ! il))"

definition cap_ok :: "q36_engine \<Rightarrow> nat \<Rightarrow> q36_cpu_runtime \<Rightarrow> bool" where
  "cap_ok e rows rt \<longleftrightarrow> (\<forall>il < n_layer (eg_shape e). q36_layer_is_full_attention (eg_shape e) il \<longrightarrow>
     rows \<le> fc_cap (rt_full rt ! il))"

lemma k_bytes_mono: "r \<le> r' \<Longrightarrow> q36_full_k_bytes e r \<le> q36_full_k_bytes e r'"
  by (simp add: q36_full_k_bytes_def)

lemma v_bytes_mono: "r \<le> r' \<Longrightarrow> q36_full_v_bytes e r \<le> q36_full_v_bytes e r'"
  by (simp add: q36_full_v_bytes_def)

lemma reset_wf: "runtime_wf e ctx rt \<Longrightarrow> runtime_wf e ctx (q36_cpu_runtime_reset rt)"
  by (auto simp: runtime_wf_def q36_cpu_runtime_reset_def full_wf_def recurrent_wf_def split: if_splits)

lemma reserve_layers_wf:
  assumes "\<And>i. i < length cs \<Longrightarrow> q36_layer_is_full_attention (eg_shape e) (il + i) \<Longrightarrow> full_wf e limit (cs ! i)"
    and "need \<le> limit"
  shows "fst (q36_cpu_reserve_layers e need limit il cs) \<and>
    length (snd (q36_cpu_reserve_layers e need limit il cs)) = length cs \<and>
    (\<forall>i < length cs. q36_layer_is_full_attention (eg_shape e) (il + i) \<longrightarrow>
       full_wf e limit (snd (q36_cpu_reserve_layers e need limit il cs) ! i) \<and>
       need \<le> fc_cap (snd (q36_cpu_reserve_layers e need limit il cs) ! i))"
  using assms(1)
proof (induction cs arbitrary: il)
  case (Cons c cs)
  obtain ok cs' where r: "q36_cpu_reserve_layers e need limit (Suc il) cs = (ok, cs')" by fastforce
  have "fst (q36_cpu_reserve_layers e need limit (Suc il) cs) \<and>
    length (snd (q36_cpu_reserve_layers e need limit (Suc il) cs)) = length cs \<and>
    (\<forall>i < length cs. q36_layer_is_full_attention (eg_shape e) (Suc il + i) \<longrightarrow>
       full_wf e limit (snd (q36_cpu_reserve_layers e need limit (Suc il) cs) ! i) \<and>
       need \<le> fc_cap (snd (q36_cpu_reserve_layers e need limit (Suc il) cs) ! i))"
    by (rule Cons.IH) (use Cons.prems [of "Suc i" for i] in simp)
  then have ih: "ok" "length cs' = length cs"
    "\<And>i. i < length cs \<Longrightarrow> q36_layer_is_full_attention (eg_shape e) (il + Suc i) \<Longrightarrow>
      full_wf e limit (cs' ! i) \<and> need \<le> fc_cap (cs' ! i)"
    by (auto simp: r)
  show ?case
  proof (cases "\<not> q36_layer_is_full_attention (eg_shape e) il \<or> fc_cap c = 0 \<or> need \<le> fc_cap c")
    case True
    have "full_wf e limit c \<and> need \<le> fc_cap c" if "q36_layer_is_full_attention (eg_shape e) il"
      using Cons.prems [of 0] that True by (auto simp: full_wf_def)
    with True ih r show ?thesis
      by (auto simp: nth_Cons split: nat.split)
  next
    case False
    let ?cap = "q36_kv_next_cap (fc_cap c) need limit"
    have wf: "full_wf e limit c" using Cons.prems [of 0] False by simp
    have cap: "need \<le> ?cap" "fc_cap c \<le> ?cap" "?cap \<le> limit"
      using kv_next_cap_ok [of "fc_cap c" need limit] wf assms(2) False by (auto simp: full_wf_def)
    let ?c = "c\<lparr>fc_k := kv_grow_buffer (q36_full_k_bytes e (fc_len c)) (q36_full_k_bytes e ?cap) (fc_k c),
       fc_v := kv_grow_buffer (q36_full_v_bytes e (fc_len c)) (q36_full_v_bytes e ?cap) (fc_v c),
       fc_cap := ?cap\<rparr>"
    have len: "fc_len c \<le> fc_cap c" using wf by (simp add: full_wf_def)
    have "full_wf e limit ?c"
      using wf cap False k_bytes_mono [OF len, of e] v_bytes_mono [OF len, of e]
        k_bytes_mono [OF cap(2), of e] v_bytes_mono [OF cap(2), of e]
      by (auto simp: full_wf_def kv_grow_buffer_def)
    with False cap ih r show ?thesis
      by (auto simp: Let_def nth_Cons split: nat.split)
  qed
qed simp

lemma reserve_kv_wf:
  assumes "runtime_wf e (ss_ctx_size s) (ss_runtime s)" and "need \<le> ss_ctx_size s"
  shows "fst (q36_session_reserve_kv e s need) \<and>
    runtime_wf e (ss_ctx_size s) (ss_runtime (snd (q36_session_reserve_kv e s need))) \<and>
    cap_ok e need (ss_runtime (snd (q36_session_reserve_kv e s need)))"
  using reserve_layers_wf [of "rt_full (ss_runtime s)" e 0 "ss_ctx_size s" need] assms
  by (auto simp: q36_session_reserve_kv_def runtime_wf_def cap_ok_def split: prod.splits)

section \<open>Reading back what was written\<close>

lemma read_bytes_append:
  "length b = n \<Longrightarrow> q36_payload_read_bytes (b @ r) n (n + k) = Some (b, r, k)"
  by (auto simp: q36_payload_read_bytes_def)

lemma read_u32_append: "q36_payload_read_u32 (le_put32 w @ r) (4 + k) = Some (w, r, k)"
  by (simp add: q36_payload_read_u32_def read_bytes_append le32.length_put le32.get_put_alone)

lemma read_u32s_append:
  "payload_read_u32s (length ws) (concat (map le_put32 ws) @ r) (4 * length ws + k) = Some (ws, r, k)"
proof (induction ws)
  case (Cons w ws)
  have "q36_payload_read_u32 (le_put32 w @ concat (map le_put32 ws) @ r) (4 + (4 * length ws + k))
      = Some (w, concat (map le_put32 ws) @ r, 4 * length ws + k)"
    by (rule read_u32_append)
  with Cons show ?case by (simp add: add.assoc)
qed simp

lemma read_u32s_split:
  "length ws = n \<Longrightarrow> payload_read_u32s n (concat (map le_put32 ws) @ r) (4 * n + k) = Some (ws, r, k)"
  using read_u32s_append by blast

definition int32 :: "int \<Rightarrow> bool" where
  "int32 t \<longleftrightarrow> - (2 ^ 31) \<le> t \<and> t < 2 ^ 31"

lemma sint_int32: "int32 t \<Longrightarrow> sint (word_of_int t :: u32) = t"
  by (simp add: int32_def sint_sbintrunc' signed_take_bit_int_eq_self)

lemma payload_tokens_words: "payload_tokens toks = concat (map le_put32 (map word_of_int toks))"
  by (simp add: payload_tokens_def comp_def)

lemma length_payload_tokens [simp]: "length (payload_tokens toks) = 4 * length toks"
  unfolding payload_tokens_words le32.length_concat_put by simp

lemma read_tokens_append:
  assumes "\<forall>t \<in> set toks. int32 t" and "length toks = n"
  shows "payload_read_tokens n (payload_tokens toks @ r) (4 * n + k) = Some (toks, r, k)"
proof -
  have "map sint (map word_of_int toks :: u32 list) = toks"
    using assms(1) by (induction toks) (simp_all add: sint_int32)
  then show ?thesis
    using read_u32s_split [of "map word_of_int toks" n r k] assms(2)
    by (simp add: payload_read_tokens_def payload_tokens_words)
qed

lemma read_into_append:
  assumes "length b = n" and "buf = Some x" and "n \<le> length x"
  shows "payload_read_into buf (b @ r) n (n + k) = Some (Some (b @ drop n x), r, k)"
  using assms by (simp add: payload_read_into_def read_bytes_append buf_fill_def)

lemma write_bytes_Some: "q36_payload_write_bytes (Some b) n = Some (take n b)"
  by (simp add: q36_payload_write_bytes_def)

text \<open>One layer, written from \<open>rt0\<close> and read into \<open>rt\<close>.\<close>

lemma load_full_saved:
  assumes s: "full_wf e ctx0 d" "rows \<le> fc_len d" and l: "full_wf e ctx c" "rows \<le> fc_cap c"
    and rows: "rows < 2 ^ 32"
    and b: "b = le_put32 (word_of_nat rows) @ take (q36_full_k_bytes e rows) (the (fc_k d)) @
      take (q36_full_v_bytes e rows) (the (fc_v d))"
  shows "\<exists>c'. payload_load_full e rows c (b @ r) (length b + k) = Some (c', r, k) \<and>
    full_wf e ctx c' \<and> fc_cap c' = fc_cap c \<and> full_same e rows c' d"
proof -
  obtain dk dv where d: "fc_k d = Some dk" "fc_v d = Some dv"
    "length dk = q36_full_k_bytes e (fc_cap d)" "length dv = q36_full_v_bytes e (fc_cap d)"
    "rows \<le> fc_cap d"
    using s by (auto simp: full_wf_def)
  obtain ck cv where c: "fc_k c = Some ck" "fc_v c = Some cv"
    "length ck = q36_full_k_bytes e (fc_cap c)" "length cv = q36_full_v_bytes e (fc_cap c)"
    using l by (auto simp: full_wf_def)
  let ?kb = "take (q36_full_k_bytes e rows) dk" and ?vb = "take (q36_full_v_bytes e rows) dv"
  have len: "length ?kb = q36_full_k_bytes e rows" "length ?vb = q36_full_v_bytes e rows"
    "q36_full_k_bytes e rows \<le> length ck" "q36_full_v_bytes e rows \<le> length cv"
    using d c l(2) k_bytes_mono v_bytes_mono by simp_all
  have un: "unat (word_of_nat rows :: u32) = rows"
    using rows by (simp add: unat_word_of_nat_small)
  have b': "b @ r = le_put32 (word_of_nat rows) @ ?kb @ ?vb @ r"
    "length b + k = 4 + (q36_full_k_bytes e rows + (q36_full_v_bytes e rows + k))"
    using len by (simp_all add: b d le32.length_put)
  have "payload_load_full e rows c (b @ r) (length b + k)
      = Some (c\<lparr>fc_len := rows, fc_k := Some (?kb @ drop (q36_full_k_bytes e rows) ck),
                fc_v := Some (?vb @ drop (q36_full_v_bytes e rows) cv)\<rparr>, r, k)"
    unfolding b' payload_load_full_def read_u32_append
    using l(2) un
    by (simp add: read_into_append [OF len(1) c(1) len(3)] read_into_append [OF len(2) c(2) len(4)])
  then show ?thesis
    using l len c d by (auto simp: full_wf_def full_same_def)
qed

lemma load_recurrent_saved:
  assumes s: "recurrent_wf g d" and l: "recurrent_wf g c"
    and b: "b = the (rc_conv d) @ the (rc_state d)"
  shows "\<exists>c'. payload_load_recurrent g c (b @ r) (length b + k) = Some (c', r, k) \<and>
    recurrent_wf g c' \<and> rc_conv c' = rc_conv d \<and> rc_state c' = rc_state d"
proof -
  obtain dc ds where d: "rc_conv d = Some dc" "rc_state d = Some ds"
    "length dc = q36_recurrent_conv_bytes g" "length ds = q36_recurrent_state_bytes g"
    using s by (auto simp: recurrent_wf_def)
  obtain cc cs where c: "rc_conv c = Some cc" "rc_state c = Some cs"
    "length cc = q36_recurrent_conv_bytes g" "length cs = q36_recurrent_state_bytes g"
    using l by (auto simp: recurrent_wf_def)
  have b': "b @ r = dc @ ds @ r"
    "length b + k = q36_recurrent_conv_bytes g + (q36_recurrent_state_bytes g + k)"
    using d by (simp_all add: b)
  have "payload_load_recurrent g c (b @ r) (length b + k)
      = Some (c\<lparr>rc_conv := Some dc, rc_state := Some ds\<rparr>, r, k)"
    unfolding b' payload_load_recurrent_def
    using read_into_append [OF d(3) c(1), of "ds @ r" "q36_recurrent_state_bytes g + k"]
      read_into_append [OF d(4) c(2), of r k] c(3,4)
    by simp
  then show ?thesis
    using d by (auto simp: recurrent_wf_def)
qed

definition rows_ok :: "q36_engine \<Rightarrow> nat \<Rightarrow> q36_cpu_runtime \<Rightarrow> bool" where
  "rows_ok e rows rt \<longleftrightarrow> (\<forall>il < n_layer (eg_shape e). q36_layer_is_full_attention (eg_shape e) il \<longrightarrow>
     rows \<le> fc_len (rt_full rt ! il))"

lemma load_layers_saved:
  assumes s: "runtime_wf e ctx0 rt0" "rows_ok e rows rt0" and rows: "rows < 2 ^ 32"
    and "runtime_wf e ctx rt" "cap_ok e rows rt"
    and "\<forall>il \<in> set ils. il < n_layer (eg_shape e)" "distinct ils"
    and "payload_save_layers e rows rt0 ils = Some b"
  shows "\<exists>rt'. payload_load_layers e rows ils rt (b @ r) (length b + k) = (True, rt', r, k) \<and>
    runtime_wf e ctx rt' \<and> cap_ok e rows rt' \<and>
    (\<forall>il \<in> set ils. layer_same e rows rt' rt0 il) \<and>
    (\<forall>il. il \<notin> set ils \<longrightarrow> rt_full rt' ! il = rt_full rt ! il \<and> rt_recurrent rt' ! il = rt_recurrent rt ! il)"
  using assms(4-)
proof (induction ils arbitrary: rt b)
  case (Cons il ils)
  have il: "il < n_layer (eg_shape e)" "il \<notin> set ils" using Cons.prems by simp_all
  obtain b1 b2 where b: "payload_save_layer e rows rt0 il = Some b1"
    "payload_save_layers e rows rt0 ils = Some b2" "b = b1 @ b2"
    using Cons.prems(5) by (auto split: option.splits)
  have lens: "length (rt_full rt) = n_layer (eg_shape e)"
    "length (rt_recurrent rt) = n_layer (eg_shape e)"
    using Cons.prems(1) by (simp_all add: runtime_wf_def)
  have "\<exists>rt1. payload_load_layers e rows (il # ils) rt (b @ r) (length b + k)
        = payload_load_layers e rows ils rt1 (b2 @ r) (length b2 + k) \<and>
      runtime_wf e ctx rt1 \<and> cap_ok e rows rt1 \<and> layer_same e rows rt1 rt0 il \<and>
      (\<forall>j. j \<noteq> il \<longrightarrow> rt_full rt1 ! j = rt_full rt ! j \<and> rt_recurrent rt1 ! j = rt_recurrent rt ! j)"
  proof (cases "q36_layer_is_full_attention (eg_shape e) il")
    case True
    let ?d = "rt_full rt0 ! il" and ?c = "rt_full rt ! il"
    have d: "full_wf e ctx0 ?d" "rows \<le> fc_len ?d" and c: "full_wf e ctx ?c" "rows \<le> fc_cap ?c"
      using s Cons.prems(1,2) il(1) True by (auto simp: runtime_wf_def rows_ok_def cap_ok_def)
    have "b1 = le_put32 (word_of_nat rows) @ take (q36_full_k_bytes e rows) (the (fc_k ?d)) @
        take (q36_full_v_bytes e rows) (the (fc_v ?d))"
      using b(1) True d(1) by (auto simp: payload_save_layer_def full_wf_def Let_def write_bytes_Some
          split: if_splits)
    from load_full_saved [OF d c rows this, of "b2 @ r" "length b2 + k"]
    obtain c' where c': "payload_load_full e rows ?c (b1 @ b2 @ r) (length b1 + (length b2 + k))
        = Some (c', b2 @ r, length b2 + k)" "full_wf e ctx c'" "fc_cap c' = fc_cap ?c" "full_same e rows c' ?d"
      by blast
    let ?rt = "rt\<lparr>rt_full := (rt_full rt)[il := c']\<rparr>"
    have "runtime_wf e ctx ?rt" "cap_ok e rows ?rt"
      using Cons.prems(1,2) c'(2,3) il(1) by (auto simp: runtime_wf_def cap_ok_def nth_list_update)
    then show ?thesis
      using c' True b(3) il(1) lens
      by (intro exI [of _ ?rt]) (simp add: layer_same_def add.assoc)
  next
    case False
    let ?d = "rt_recurrent rt0 ! il" and ?c = "rt_recurrent rt ! il"
    have d: "recurrent_wf (eg_shape e) ?d" and c: "recurrent_wf (eg_shape e) ?c"
      using s Cons.prems(1) il(1) False by (auto simp: runtime_wf_def)
    have "b1 = the (rc_conv ?d) @ the (rc_state ?d)"
      using b(1) False d by (auto simp: payload_save_layer_def recurrent_wf_def Let_def write_bytes_Some)
    from load_recurrent_saved [OF d c this, of "b2 @ r" "length b2 + k"]
    obtain c' where c': "payload_load_recurrent (eg_shape e) ?c (b1 @ b2 @ r) (length b1 + (length b2 + k))
        = Some (c', b2 @ r, length b2 + k)" "recurrent_wf (eg_shape e) c'"
      "rc_conv c' = rc_conv ?d" "rc_state c' = rc_state ?d"
      by blast
    let ?rt = "rt\<lparr>rt_recurrent := (rt_recurrent rt)[il := c']\<rparr>"
    have "runtime_wf e ctx ?rt" "cap_ok e rows ?rt"
      using Cons.prems(1,2) c'(2) il(1) by (auto simp: runtime_wf_def cap_ok_def nth_list_update)
    then show ?thesis
      using c' False b(3) il(1) lens
      by (intro exI [of _ ?rt]) (simp add: layer_same_def add.assoc)
  qed
  then obtain rt1 where rt1: "payload_load_layers e rows (il # ils) rt (b @ r) (length b + k)
        = payload_load_layers e rows ils rt1 (b2 @ r) (length b2 + k)"
    "runtime_wf e ctx rt1" "cap_ok e rows rt1" "layer_same e rows rt1 rt0 il"
    "\<And>j. j \<noteq> il \<Longrightarrow> rt_full rt1 ! j = rt_full rt ! j \<and> rt_recurrent rt1 ! j = rt_recurrent rt ! j"
    by blast
  obtain rt' where rt': "payload_load_layers e rows ils rt1 (b2 @ r) (length b2 + k) = (True, rt', r, k)"
    "runtime_wf e ctx rt'" "cap_ok e rows rt'" "\<forall>il \<in> set ils. layer_same e rows rt' rt0 il"
    "\<forall>il. il \<notin> set ils \<longrightarrow> rt_full rt' ! il = rt_full rt1 ! il \<and> rt_recurrent rt' ! il = rt_recurrent rt1 ! il"
    using Cons.IH [OF rt1(2,3) _ _ b(2)] Cons.prems(3,4) by auto
  have "layer_same e rows rt' rt0 il"
    using rt1(4) rt'(5) il(2) by (simp add: layer_same_def)
  with rt1 rt' show ?case
    by (intro exI [of _ rt']) auto
qed auto

section \<open>The payload\<close>

definition session_wf :: "q36_engine \<Rightarrow> q36_session \<Rightarrow> bool" where
  "session_wf e s \<longleftrightarrow> runtime_wf e (ss_ctx_size s) (ss_runtime s) \<and>
     length (ss_logits s) = n_vocab (eg_shape e) * 4 \<and> ss_ctx_size s < 2 ^ 31 \<and>
     length (ss_checkpoint s) \<le> ss_ctx_size s \<and> (\<forall>t \<in> set (ss_checkpoint s). int32 t)"

lemma save_layers_rows:
  "payload_save_layers e rows rt ils = Some b \<Longrightarrow> il \<in> set ils \<Longrightarrow>
     q36_layer_is_full_attention (eg_shape e) il \<Longrightarrow> rows \<le> fc_len (rt_full rt ! il)"
proof (induction ils arbitrary: b)
  case (Cons j ils)
  then obtain b1 b2 where "payload_save_layer e rows rt j = Some b1" "payload_save_layers e rows rt ils = Some b2"
    by (auto split: option.splits)
  with Cons show ?case
    by (auto simp: payload_save_layer_def Let_def split: if_splits)
qed simp

lemma load_body_saved:
  assumes s: "session_wf e s" and s2: "session_wf e s2"
    and fit: "length (ss_checkpoint s) < ss_ctx_size s2"
    and ls: "payload_save_layers e (length (ss_checkpoint s)) (ss_runtime s) [0..<n_layer (eg_shape e)] = Some ls"
  shows "\<exists>s'. payload_load_body e s2 (length (ss_checkpoint s))
      (payload_tokens (ss_checkpoint s) @ ss_logits s @ ls @ r)
      (4 * length (ss_checkpoint s) + (n_vocab (eg_shape e) * 4 + length ls)) = (True, s', r) \<and>
    ss_checkpoint s' = ss_checkpoint s \<and> ss_checkpoint_valid s' \<and> ss_logits s' = ss_logits s \<and>
    ss_ctx_size s' = ss_ctx_size s2 \<and> session_wf e s' \<and>
    (\<forall>il < n_layer (eg_shape e).
       layer_same e (length (ss_checkpoint s)) (ss_runtime s') (ss_runtime s) il)"
proof -
  let ?rows = "length (ss_checkpoint s)"
  let ?s0 = "(q36_session_reset_runtime s2)\<lparr>ss_checkpoint := [], ss_checkpoint_valid := False\<rparr>"
  have rows: "?rows < 2 ^ 32" using s fit by (simp add: session_wf_def)
  have wf0: "runtime_wf e (ss_ctx_size ?s0) (ss_runtime ?s0)"
    using s2 reset_wf by (simp add: session_wf_def frame_simps)
  obtain s1 where s1: "q36_session_reserve_kv e ?s0 ?rows = (True, s1)"
    "runtime_wf e (ss_ctx_size s2) (ss_runtime s1)" "cap_ok e ?rows (ss_runtime s1)"
    using reserve_kv_wf [OF wf0, of ?rows] fit by (cases "q36_session_reserve_kv e ?s0 ?rows") (auto simp: frame_simps)
  have f1: "ss_ctx_size s1 = ss_ctx_size s2" "ss_logits s1 = ss_logits s2"
    using reserve_kv_frame [of e ?s0 ?rows] s1(1) by (auto simp: q36_session_reset_runtime_def)
  let ?s2 = "s1\<lparr>ss_checkpoint := ss_checkpoint s\<rparr>"
  have lg: "length (ss_logits s) = n_vocab (eg_shape e) * 4" "length (ss_logits s2) = n_vocab (eg_shape e) * 4"
    using s s2 by (simp_all add: session_wf_def)
  have rok: "rows_ok e ?rows (ss_runtime s)"
    using save_layers_rows [OF ls] by (simp add: rows_ok_def)
  have wfs: "runtime_wf e (ss_ctx_size s) (ss_runtime s)"
    using s by (simp add: session_wf_def)
  obtain rt where rt: "payload_load_layers e ?rows [0..<n_layer (eg_shape e)] (ss_runtime s1) (ls @ r) (length ls)
      = (True, rt, r, 0)" "runtime_wf e (ss_ctx_size s2) rt"
    "\<forall>il < n_layer (eg_shape e). layer_same e ?rows rt (ss_runtime s) il"
    using load_layers_saved [OF wfs rok rows s1(2,3) _ _ ls, of r 0] by auto
  let ?s' = "?s2\<lparr>ss_logits := ss_logits s, ss_logits_host_valid := True, ss_gpu_top2_valid := False,
     ss_runtime := rt, ss_checkpoint_valid := True\<rparr>"
  have toks: "payload_read_tokens ?rows (payload_tokens (ss_checkpoint s) @ ss_logits s @ ls @ r)
      (4 * ?rows + (n_vocab (eg_shape e) * 4 + length ls))
    = Some (ss_checkpoint s, ss_logits s @ ls @ r, n_vocab (eg_shape e) * 4 + length ls)"
    by (rule read_tokens_append) (use s in \<open>simp_all add: session_wf_def\<close>)
  have "payload_load_body e s2 ?rows (payload_tokens (ss_checkpoint s) @ ss_logits s @ ls @ r)
      (4 * ?rows + (n_vocab (eg_shape e) * 4 + length ls)) = (True, ?s', r)"
    unfolding payload_load_body_def Let_def s1(1) prod.case bool.case toks option.case
    using lg f1 rt(1) by (simp add: read_bytes_append [OF lg(1)])
  moreover have "session_wf e ?s'"
    using s s2 rt(2) f1 fit by (simp add: session_wf_def)
  ultimately show ?thesis
    using rt(3) f1 by auto
qed

lemma kv_cache_code_le [simp]: "q36_kv_cache_code t \<le> q36_kv_cache_code Q4_0"
  by (cases t) simp_all

lemma kv_cache_code_inject [simp]: "q36_kv_cache_code t = q36_kv_cache_code u \<longleftrightarrow> t = u"
  by (cases t; cases u) simp_all

lemma payload_fields_split:
  "\<exists>ws. payload_fields e s = [PAYLOAD_MAGIC,
       if cache_type_k e \<noteq> F16 \<or> cache_type_v e \<noteq> F16 then PAYLOAD_VERSION_TYPED_KV else PAYLOAD_VERSION,
       word_of_nat (ss_ctx_size s)] @ ws \<and>
     length ws + 3 = (if cache_type_k e \<noteq> F16 \<or> cache_type_v e \<noteq> F16 then 16 else 14)"
  by (intro exI [of _ "drop 3 (payload_fields e s)"]) (simp add: payload_fields_def Let_def)

lemma payload_fields_len:
  "length (payload_fields e s) = (if cache_type_k e \<noteq> F16 \<or> cache_type_v e \<noteq> F16 then 16 else 14)"
  by (simp add: payload_fields_def Let_def)

lemma payload_fields_ok_saved:
  assumes "ss_ctx_size s \<le> ss_ctx_size s2" "length (ss_checkpoint s) < ss_ctx_size s2" "ss_ctx_size s2 < 2 ^ 31"
  shows "payload_fields_ok e s2 (payload_fields e s)"
    and "payload_fields e s ! 4 = word_of_nat (length (ss_checkpoint s))"
proof -
  have u: "unat (word_of_nat n :: u32) = n" if "n < 2 ^ 31" for n
    using that by (simp add: unat_word_of_nat_small)
  have c: "\<not> word_of_nat (ss_ctx_size s) > (word_of_nat (ss_ctx_size s2) :: u32)"
    "\<not> word_of_nat (length (ss_checkpoint s)) \<ge> (word_of_nat (ss_ctx_size s2) :: u32)"
    using assms u [of "ss_ctx_size s"] u [of "ss_ctx_size s2"] u [of "length (ss_checkpoint s)"]
    by (simp_all add: word_less_nat_alt word_le_nat_alt not_less not_le)
  show "payload_fields e s ! 4 = word_of_nat (length (ss_checkpoint s))"
    by (simp add: payload_fields_def Let_def)
  show "payload_fields_ok e s2 (payload_fields e s)"
    using c unfolding payload_fields_ok_def payload_fields_len Let_def
    by (simp add: payload_fields_def Let_def del: q36_kv_cache_code.simps)
qed

lemma payload_load_saved:
  assumes "session_wf e s" and "session_wf e s2" and "\<not> ss_dist s" and "\<not> ss_dist s2"
    and "ss_ctx_size s \<le> ss_ctx_size s2" and "length (ss_checkpoint s) < ss_ctx_size s2"
    and "q36_session_save_payload e s = Some p"
  shows "\<exists>s'. q36_session_load_payload e m s2 (p @ r) (length p) = (True, s', r) \<and>
    ss_checkpoint s' = ss_checkpoint s \<and> ss_checkpoint_valid s' \<and> ss_logits s' = ss_logits s \<and>
    (\<forall>il < n_layer (eg_shape e).
       layer_same e (length (ss_checkpoint s)) (ss_runtime s') (ss_runtime s) il)"
proof -
  let ?rows = "length (ss_checkpoint s)" and ?F = "payload_fields e s"
  obtain ls where ls: "payload_save_layers e ?rows (ss_runtime s) [0..<n_layer (eg_shape e)] = Some ls"
    and p: "p = concat (map le_put32 ?F) @ payload_tokens (ss_checkpoint s) @ ss_logits s @ ls"
    using assms(1,3,7)
    by (auto simp: q36_session_save_payload_def session_wf_def Let_def write_bytes_Some
        split: if_splits option.splits)
  obtain ws where ws: "?F = [PAYLOAD_MAGIC, if cache_type_k e \<noteq> F16 \<or> cache_type_v e \<noteq> F16
       then PAYLOAD_VERSION_TYPED_KV else PAYLOAD_VERSION, word_of_nat (ss_ctx_size s)] @ ws"
    "length ws + 3 = (if cache_type_k e \<noteq> F16 \<or> cache_type_v e \<noteq> F16 then 16 else 14)"
    using payload_fields_split by blast
  let ?v = "if cache_type_k e \<noteq> F16 \<or> cache_type_v e \<noteq> F16 then PAYLOAD_VERSION_TYPED_KV else PAYLOAD_VERSION"
  let ?body = "payload_tokens (ss_checkpoint s) @ ss_logits s @ ls @ r"
  let ?k = "4 * ?rows + (n_vocab (eg_shape e) * 4 + length ls)"
  have lp: "length p = 4 * 3 + (4 * length ws + ?k)"
    using assms(1) unfolding p ws(1)
    by (simp add: le32.length_concat_put session_wf_def le32.length_put)
  have pr: "p @ r = concat (map le_put32 [PAYLOAD_MAGIC, ?v, word_of_nat (ss_ctx_size s)]) @
      concat (map le_put32 ws) @ ?body"
    unfolding p ws(1) by simp
  have r3: "payload_read_u32s 3 (p @ r) (length p) = Some ([PAYLOAD_MAGIC, ?v, word_of_nat (ss_ctx_size s)],
      concat (map le_put32 ws) @ ?body, 4 * length ws + ?k)"
    unfolding lp pr by (rule read_u32s_split) simp
  have rw: "payload_read_u32s ((if ?v \<noteq> PAYLOAD_VERSION then 16 else 14) - 3)
      (concat (map le_put32 ws) @ ?body) (4 * length ws + ?k) = Some (ws, ?body, ?k)"
    using read_u32s_append [of ws ?body ?k] ws(2)
    by (auto simp: PAYLOAD_VERSION_def PAYLOAD_VERSION_TYPED_KV_def split: if_splits)
  have ctx: "ss_ctx_size s2 < 2 ^ 31" using assms(2) by (simp add: session_wf_def)
  note ok = payload_fields_ok_saved [OF assms(5,6) ctx, of e]
  have un: "unat (?F ! 4) = ?rows"
    using ok(2) assms(6) ctx by (simp add: unat_word_of_nat_small)
  have v: "?v \<noteq> PAYLOAD_VERSION_TOKEN_ONLY" "?v \<noteq> PAYLOAD_VERSION_MTP"
    "?v = PAYLOAD_VERSION \<or> ?v = PAYLOAD_VERSION_TYPED_KV"
    by (simp_all add: PAYLOAD_VERSION_def PAYLOAD_VERSION_TYPED_KV_def PAYLOAD_VERSION_TOKEN_ONLY_def
        PAYLOAD_VERSION_MTP_def)
  have "q36_session_load_payload e m s2 (p @ r) (length p) = payload_load_body e s2 ?rows ?body ?k"
    unfolding q36_session_load_payload_def r3 option.case prod.case list.case rw Let_def
      ws(1) [symmetric] un
    using v ok(1) assms(4) by auto
  with load_body_saved [OF assms(1,2,6) ls, of r] show ?thesis by auto
qed

text \<open>
  C10. The session payload round trip: what \<^verbatim>\<open>q36_session_save_payload\<close> writes for a session on
  the CPU backend, \<^verbatim>\<open>q36_session_load_payload\<close> of the same engine reads back into any session
  whose context is large enough, consuming exactly the payload; the loaded session is valid and
  has the saved tokens and logits, and in every layer the saved cache rows or recurrent state.
\<close>

theorem payload_round_trip:
  assumes "session_wf e s" and "session_wf e s2" and "\<not> ss_dist s" and "\<not> ss_dist s2"
    and "ss_ctx_size s \<le> ss_ctx_size s2" and "length (ss_checkpoint s) < ss_ctx_size s2"
    and "q36_session_save_payload e s = Some p"
  shows "\<exists>s'. q36_session_load_payload e m s2 (p @ r) (length p) = (True, s', r) \<and>
    ss_checkpoint s' = ss_checkpoint s \<and> ss_checkpoint_valid s' \<and> ss_logits s' = ss_logits s \<and>
    (\<forall>il < n_layer (eg_shape e).
       layer_same e (length (ss_checkpoint s)) (ss_runtime s') (ss_runtime s) il)"
  using payload_load_saved [OF assms] .

lemma save_layers_length:
  assumes "runtime_wf e ctx rt" "\<forall>il \<in> set ils. il < n_layer (eg_shape e)"
    and "payload_save_layers e rows rt ils = Some b"
  shows "foldl (\<lambda>b il. b + (if q36_layer_is_full_attention (eg_shape e) il
      then 4 + q36_full_k_bytes e rows + q36_full_v_bytes e rows
      else q36_recurrent_conv_bytes (eg_shape e) + q36_recurrent_state_bytes (eg_shape e))) n ils
    = n + length b"
  using assms(2,3)
proof (induction ils arbitrary: n b)
  case (Cons il ils)
  obtain b1 b2 where b: "payload_save_layer e rows rt il = Some b1"
    "payload_save_layers e rows rt ils = Some b2" "b = b1 @ b2"
    using Cons.prems(2) by (auto split: option.splits)
  have il: "il < n_layer (eg_shape e)" using Cons.prems(1) by simp
  have "length b1 = (if q36_layer_is_full_attention (eg_shape e) il
      then 4 + q36_full_k_bytes e rows + q36_full_v_bytes e rows
      else q36_recurrent_conv_bytes (eg_shape e) + q36_recurrent_state_bytes (eg_shape e))"
  proof (cases "q36_layer_is_full_attention (eg_shape e) il")
    case True
    have "full_wf e ctx (rt_full rt ! il)"
      using assms(1) il True by (simp add: runtime_wf_def)
    moreover from b(1) True have "rows \<le> fc_len (rt_full rt ! il)"
      by (auto simp: payload_save_layer_def Let_def split: if_splits)
    ultimately show ?thesis
      using b(1) True k_bytes_mono [of rows "fc_cap (rt_full rt ! il)" e]
        v_bytes_mono [of rows "fc_cap (rt_full rt ! il)" e]
      by (auto simp: payload_save_layer_def full_wf_def Let_def write_bytes_Some le32.length_put
          split: if_splits)
  next
    case False
    have "recurrent_wf (eg_shape e) (rt_recurrent rt ! il)"
      using assms(1) il False by (simp add: runtime_wf_def)
    with b(1) False show ?thesis
      by (auto simp: payload_save_layer_def recurrent_wf_def Let_def write_bytes_Some)
  qed
  with Cons b show ?case by simp
qed simp

text \<open>
  The size announced for a payload is the size written: \<^verbatim>\<open>q36_session_payload_bytes\<close> is the
  length of what \<^verbatim>\<open>q36_session_save_payload\<close> produces, for pipeline sessions too.
\<close>

theorem payload_size_exact:
  assumes "session_wf e s" and "q36_session_save_payload e s = Some p"
  shows "length p = q36_session_payload_bytes e s"
proof (cases "ss_dist s")
  case True
  with assms(2) show ?thesis
    by (auto simp: q36_session_save_payload_def q36_session_payload_bytes_def Let_def le32.length_put
        split: if_splits)
next
  case False
  obtain ls where ls: "payload_save_layers e (length (ss_checkpoint s)) (ss_runtime s)
      [0..<n_layer (eg_shape e)] = Some ls"
    and p: "p = concat (map le_put32 (payload_fields e s)) @ payload_tokens (ss_checkpoint s) @ ss_logits s @ ls"
    and nv: "\<not> ss_vision_state s"
    using assms False
    by (auto simp: q36_session_save_payload_def session_wf_def Let_def write_bytes_Some
        split: if_splits option.splits)
  have wf: "runtime_wf e (ss_ctx_size s) (ss_runtime s)" "length (ss_logits s) = n_vocab (eg_shape e) * 4"
    using assms(1) by (simp_all add: session_wf_def)
  have dom: "\<forall>il \<in> set [0..<n_layer (eg_shape e)]. il < n_layer (eg_shape e)" by simp
  show ?thesis
    using False nv wf(2)
    unfolding q36_session_payload_bytes_def Let_def save_layers_length [OF wf(1) dom ls] p
    by (simp add: le32.length_concat_put payload_fields_len)
qed

end
