(* ===== verification/Kv_Session.thy ===== *)
theory Kv_Session
  imports Kv_Store Session_Payload
begin

text \<open>
  The KV store and the session together.  What the store relies on is the locale \<open>kv_session\<close>: a
  staged payload, loaded into a session that is large enough, restores the tokens and leaves the
  stream behind it.  The session of \<open>Session\<close> interprets it through its payload round trip, so
  that a checkpoint stored by one session is found and restored by another.
\<close>

section \<open>The contract\<close>

locale kv_session =
  fixes en :: "'ss kv_engine" and good :: "'ss \<Rightarrow> bool" and fits :: "'ss \<Rightarrow> 'ss \<Rightarrow> bool"
  assumes load_staged: "good ss \<Longrightarrow> good ss2 \<Longrightarrow> fits ss ss2 \<Longrightarrow> en_stage en ss = Some p \<Longrightarrow>
      length p < 2 ^ 64 \<Longrightarrow>
      \<exists>ss'. en_load en ss2 (p @ r) (word_of_nat (length p)) = (True, ss', r) \<and>
        en_tokens en ss' = en_tokens en ss"
begin

text \<open>A complete checkpoint of a session, loaded for a prompt that starts with its text.\<close>

lemma load_checkpoint:
  assumes "good ss" "good ss2" "fits ss ss2"
    and "en_stage en ss = Some payload" "length payload < 2 ^ 64" "length tx < 2 ^ 32"
    and "en_tokens en ss = Some ts" "ts \<noteq> []" "length ts < 2 ^ 31"
    and "q36_kvstore_quant_bits_valid (en_quant_bits en)" "kc_enabled kc"
    and file0: "os_read s path = Some (kv_file (word_of_int (en_model_id en)) q r0 x
       (word_of_nat (length ts)) h c cr lu tx payload [])"
      "q36_kvstore_quant_bits_valid (uint q)"
    and found: "q36_kvstore_find_text_prefix kc (Some (tx @ rest)) (en_model_id en) (en_quant_bits en)
       (en_ctx en ss2) s = (Some i, kc2)" "e_path (kc_entry kc2 ! i) = path"
      "e_sha (kc_entry kc2 ! i) = q36_kvstore_sha1_bytes_hex tx"
  shows "fst (q36_kvstore_try_load_text kc en ss2 (Some (tx @ rest)) hooks u s) = int (length ts) \<and>
    ls_prompt (snd (q36_kvstore_try_load_text kc en ss2 (Some (tx @ rest)) hooks u s))
      = ts @ en_tokenize_rendered en rest \<and>
    en_tokens en (ls_session (snd (q36_kvstore_try_load_text kc en ss2 (Some (tx @ rest)) hooks u s))) = Some ts"
proof -
  let ?t = "word_of_nat (length ts) :: u32" and ?m = "word_of_int (en_model_id en) :: u8"
  let ?hdr = "kv_header_entry ?m q r0 x ?t h c cr lu (word_of_nat (length payload))
    (word_of_nat (length tx)) kv_entry0"
  have t: "?t \<noteq> 0" "sint ?t = int (length ts)"
  proof -
    show "?t \<noteq> 0"
      using assms(8,9) by (intro store_text_small) simp_all
    have "int (length ts) < 2 ^ 31" using assms(9) by simp
    then show "sint ?t = int (length ts)"
      using sint_int32 [of "int (length ts)"] by (simp add: int32_def)
  qed
  have check: "kv_load_check (kv_file ?m q r0 x ?t h c cr lu tx payload [])
      (q36_kvstore_sha1_bytes_hex tx) (tx @ rest) ?m
    = Some (?hdr, word_of_nat (length tx), payload)"
    using load_check_kv_file [OF t(1) file0(2) assms(6), of ?m r0 x h c cr lu payload "[]" rest] by simp
  obtain ss' where ld: "en_load en ss2 payload (word_of_nat (length payload)) = (True, ss', [])"
    "en_tokens en ss' = Some ts"
    using load_staged [OF assms(1-5), of "[]"] assms(7) by auto
  have hdr: "e_payload_bytes ?hdr = word_of_nat (length payload)" "e_tokens ?hdr = ?t"
    by (simp_all add: kv_header_entry_def)
  have un: "unat (word_of_nat (length tx) :: u32) = length tx"
    using assms(6) by (simp add: unat_word_of_nat_small)
  have pos: "0 < int (length ts)" using assms(8) by simp
  show ?thesis
    unfolding q36_kvstore_try_load_text_def Let_def option.case
    using assms(10,11) found file0(1) check ld hdr t(2) pos un
    by (simp add: q36_kvstore_build_prompt_from_exact_prefix_and_text_suffix_def)
qed

end

section \<open>The session keeps it\<close>

text \<open>
  The functions of \<^verbatim>\<open>q36.c\<close> that the store calls, with the text functions of the engine's
  vocabulary as arguments.
\<close>

definition kv_engine_of ::
  "q36_engine \<Rightarrow> q36_env \<Rightarrow> int \<Rightarrow> int \<Rightarrow> (int \<Rightarrow> bytes) \<Rightarrow> (bytes \<Rightarrow> int list) \<Rightarrow> q36_session kv_engine" where
  "kv_engine_of e m quant_bits model_id token_text tokenize =
     \<lparr>en_quant_bits = quant_bits, en_model_id = model_id, en_token_text = token_text,
      en_tokenize_rendered = tokenize, en_ctx = (\<lambda>s. int (ss_ctx_size s)),
      en_tokens = (\<lambda>s. Some (ss_checkpoint s)),
      en_stage = (\<lambda>s. q36_session_stage_payload True e s),
      en_load = (\<lambda>s fp n. q36_session_load_payload e m s fp (unat n)),
      en_invalidate = q36_session_invalidate\<rparr>"

definition kv_session_good :: "q36_engine \<Rightarrow> q36_session \<Rightarrow> bool" where
  "kv_session_good e s \<longleftrightarrow> session_wf e s \<and> \<not> ss_dist s"

definition kv_session_fits :: "q36_session \<Rightarrow> q36_session \<Rightarrow> bool" where
  "kv_session_fits s s2 \<longleftrightarrow> ss_ctx_size s \<le> ss_ctx_size s2 \<and> length (ss_checkpoint s) < ss_ctx_size s2"

lemma stage_payload_save:
  "q36_session_stage_payload True e s = q36_session_save_payload e s"
  by (simp add: q36_session_stage_payload_def q36_session_save_payload_def)

interpretation ks: kv_session "kv_engine_of e m q model tt tk" "kv_session_good e" kv_session_fits
  for e m q model tt tk
proof
  fix ss ss2 p r
  assume *: "kv_session_good e ss" "kv_session_good e ss2" "kv_session_fits ss ss2"
    "en_stage (kv_engine_of e m q model tt tk) ss = Some p" "length p < 2 ^ 64"
  then have "\<exists>s'. q36_session_load_payload e m ss2 (p @ r) (length p) = (True, s', r) \<and>
      ss_checkpoint s' = ss_checkpoint ss"
    using payload_load_saved [of e ss ss2 p m r]
    by (auto simp: kv_session_good_def kv_session_fits_def kv_engine_of_def stage_payload_save)
  moreover have "unat (word_of_nat (length p) :: u64) = length p"
    using *(5) by (simp add: unat_word_of_nat_small)
  ultimately show "\<exists>ss'. en_load (kv_engine_of e m q model tt tk) ss2 (p @ r) (word_of_nat (length p)) = (True, ss', r) \<and>
      en_tokens (kv_engine_of e m q model tt tk) ss' = en_tokens (kv_engine_of e m q model tt tk) ss"
    by (auto simp: kv_engine_of_def)
qed

section \<open>A stored checkpoint is found again\<close>

lemma hex_no_slash: "c \<in> set (q36_kvstore_sha1_bytes_hex m @ str ''.kv'') \<Longrightarrow> c \<noteq> 0x2F"
  using sha1_hex_chars [of c m] by (auto simp: ctype_defs lit_simps)

lemma path_for_sha_prefix:
  "q36_kvstore_path_for_sha dir (q36_kvstore_sha1_bytes_hex m)
     = dir_prefix dir @ (q36_kvstore_sha1_bytes_hex m @ str ''.kv'')"
  by (simp add: q36_kvstore_path_for_sha_def path_join_prefix)

lemma file_fits_small:
  "fst (q36_kvstore_file_size_fits budget (word_of_nat a) (word_of_nat b) 0) \<Longrightarrow> a < 2 ^ 32 \<Longrightarrow> b < 2 ^ 64 \<Longrightarrow>
     52 + a + b < 2 ^ 64"
  by (simp add: file_size_fits_nat Let_def unat_word_of_nat_small)

text \<open>The scan lists a readable checkpoint under its name.\<close>

lemma kv_disk_member:
  assumes "map_of (os_fs s) (dir_prefix dir @ name) \<noteq> None" and "0x2F \<notin> set name"
    and "kv_scan_name s dir name = Some e" and "dir \<in> set (os_dirs s)" "\<not> os_fail s Op_opendir dir"
  shows "e \<in> set (kv_disk s dir)"
proof -
  have "dir_prefix dir @ name \<in> fst ` set (os_fs s)"
    using assms(1) by (meson map_of_eq_None_iff)
  then have "name \<in> set (dir_names dir (os_fs s))"
    using assms(2) by (simp add: dir_names_path)
  with assms(3-5) show ?thesis
    by (auto simp: kv_disk_def os_readdir_def map_filter_set)
qed

lemma kv_disk_by_path:
  assumes "e \<in> set (kv_disk s dir)" "e_path e = dir_prefix dir @ name"
  shows "kv_scan_name s dir name = Some e"
proof -
  obtain x where x: "kv_scan_name s dir x = Some e"
    using assms(1) by (auto simp: kv_disk_def os_readdir_def map_filter_set split: if_splits)
  with kv_scan_name_Some(1) [OF x] assms(2) show ?thesis by simp
qed

text \<open>The lookup of a prompt that starts with a stored text, when no other entry is usable.\<close>

lemma find_stored:
  assumes f: "map_of (os_fs s) path = Some (kv_file m8 q8 r x (word_of_nat n) h c cr lu tx payload [])"
    and path: "path = q36_kvstore_path_for_sha (kc_dir kc) (q36_kvstore_sha1_bytes_hex tx)"
    and t: "(word_of_nat n :: u32) \<noteq> 0" "n < 2 ^ 31" "min_tokens (kc_opt kc) \<le> int n"
    and q: "q36_kvstore_quant_bits_valid (uint q8)" "r \<le> 6" "length tx < 2 ^ 32"
    and sz: "52 + length tx + length payload < 2 ^ 64"
    and io: "\<not> os_fail s Op_stat path" "\<not> os_fail s Op_open path"
      "kc_dir kc \<in> set (os_dirs s)" "\<not> os_fail s Op_opendir (kc_dir kc)" "kc_enabled kc"
    and us: "m8 = word_of_int model" "q8 = word_of_int quant" "c \<le> word_of_int ctx"
    and only: "\<And>e. e \<in> set (kv_disk s (kc_dir kc)) \<Longrightarrow> e_path e \<noteq> path \<Longrightarrow>
      \<not> kv_usable kc (tx @ rest) model quant ctx e"
  shows "\<exists>i kc2. q36_kvstore_find_text_prefix kc (Some (tx @ rest)) model quant ctx s = (Some i, kc2) \<and>
    e_path (kc_entry kc2 ! i) = path \<and> e_sha (kc_entry kc2 ! i) = q36_kvstore_sha1_bytes_hex tx"
proof -
  let ?name = "q36_kvstore_sha1_bytes_hex tx @ str ''.kv''" and ?dir = "kc_dir kc"
  let ?e = "(kv_header_entry m8 q8 r x (word_of_nat n) h c cr lu (word_of_nat (length payload))
      (word_of_nat (length tx)) kv_entry0)\<lparr>e_sha := q36_kvstore_sha1_bytes_hex tx, e_path := path,
      e_file_size := word_of_nat (52 + length tx + length payload)\<rparr>"
  have pn: "path = dir_prefix ?dir @ ?name" unfolding path by (rule path_for_sha_prefix)
  have scan: "kv_scan_name s ?dir ?name = Some ?e"
    unfolding kv_scan_name_def sha_hex_name_of_sha option.case path_join_prefix pn [symmetric]
    by (rule scan_kv_file_plain [OF f t(1) q sz io(1,2)])
  have mem: "?e \<in> set (kv_disk s ?dir)"
  proof (rule kv_disk_member [OF _ _ scan io(3,4)])
    show "map_of (os_fs s) (dir_prefix ?dir @ ?name) \<noteq> None" using f pn by simp
    show "0x2F \<notin> set ?name" using hex_no_slash by blast
  qed
  have flds: "e_sha ?e = q36_kvstore_sha1_bytes_hex tx" by simp
  have use: "kv_usable kc (tx @ rest) model quant ctx ?e"
    using usable_kv_file [OF us(1,2) refl t(2,3) q(3)] us(3) by (simp add: kv_usable_def kv_header_entry_def)
  let ?kc = "kc\<lparr>kc_entry := kv_disk s ?dir\<rparr>"
  have kcr: "kv_cache_refresh s kc = ?kc" using io(5) by (simp add: kv_cache_refresh_eq)
  have ueq: "kv_usable ?kc p mo qu cx e = kv_usable kc p mo qu cx e" for p mo qu cx e
    by (simp add: kv_usable_def)
  note cs = find_prefix_cases [of kc "tx @ rest" model quant ctx s]
  obtain b where b: "fst (q36_kvstore_find_text_prefix kc (Some (tx @ rest)) model quant ctx s) = Some b"
    "b < length (kv_disk s ?dir)" "kv_usable kc (tx @ rest) model quant ctx (kv_disk s ?dir ! b)"
    using cs(2) mem use unfolding cs(1) kcr ueq by (auto split: option.splits)
  have "kv_disk s ?dir ! b \<in> set (kv_disk s ?dir)" using b(2) by simp
  then have p: "e_path (kv_disk s ?dir ! b) = path"
    using only b(3) by blast
  then have "kv_scan_name s ?dir ?name = Some (kv_disk s ?dir ! b)"
    using kv_disk_by_path [of "kv_disk s ?dir ! b" s ?dir ?name] b(2) pn by simp
  with scan have "kv_disk s ?dir ! b = ?e" by simp
  then have "e_sha (kv_disk s ?dir ! b) = q36_kvstore_sha1_bytes_hex tx"
    using flds by simp
  with b(1) p cs(1) kcr show ?thesis
    by (intro exI [of _ b] exI [of _ ?kc])
      (cases "q36_kvstore_find_text_prefix kc (Some (tx @ rest)) model quant ctx s", simp)
qed

lemma reason_code_le: "q36_kvstore_reason_code r \<le> 6"
  by (simp add: q36_kvstore_reason_code_def split: option.split)

text \<open>
  C1. Store and load round trip: after \<^verbatim>\<open>q36_kvstore_store_live_prefix\<close> has written the checkpoint
  of one session, \<^verbatim>\<open>q36_kvstore_try_load_text\<close> on the same cache, in any session of the engine with
  a large enough context and for any prompt that starts with the stored text, restores exactly
  the stored tokens, and its effective prompt is those tokens followed by the tokens of the rest
  of the prompt (when no other entry is usable for that prompt and the reads succeed).
\<close>

theorem store_load_round_trip:
  fixes e m quant model tt tk ss tx kc
  defines "en \<equiv> kv_engine_of e m quant model tt tk"
    and "ts \<equiv> ss_checkpoint ss"
  defines "path \<equiv> q36_kvstore_path_for_sha (kc_dir kc) (q36_kvstore_sha1_bytes_hex tx)"
  assumes "kv_session_good e ss" and "kv_session_good e ss2" and "kv_session_fits ss ss2"
    and adm: "kv_store_admit kc en ss tokens n None (None :: 'u kv_hooks option) = Some (ts, b, tx, est)"
    and st: "q36_kvstore_store_live_prefix A kc en ss tokens n reason (None :: 'u kv_hooks option) s = (True, kc', s')"
    and fresh: "map_of (os_fs s) path = None"
    and "ts \<noteq> []" and "min_tokens (kc_opt kc) \<le> int (length ts)"
    and pl: "\<And>p. q36_session_save_payload e ss = Some p \<Longrightarrow> length p < 2 ^ 64"
    and "\<And>op p. op \<noteq> Op_write \<Longrightarrow> \<not> os_fail s op p" and "kc_dir kc \<in> set (os_dirs s)"
    and "\<And>e'. e' \<in> set (kv_disk s' (kc_dir kc)) \<Longrightarrow> e_path e' \<noteq> path \<Longrightarrow>
      \<not> kv_usable kc (tx @ rest) model quant (int (ss_ctx_size ss2)) e'"
  shows "fst (q36_kvstore_try_load_text kc en ss2 (Some (tx @ rest)) (hooks :: 'v kv_hooks option) u s')
       = int (length ts) \<and>
    ls_prompt (snd (q36_kvstore_try_load_text kc en ss2 (Some (tx @ rest)) hooks u s')) = ts @ tk rest \<and>
    ss_checkpoint (ls_session (snd (q36_kvstore_try_load_text kc en ss2 (Some (tx @ rest)) hooks u s'))) = ts"
proof -
  have en: "en_model_id en = model" "en_quant_bits en = quant" "\<And>x. en_ctx en x = int (ss_ctx_size x)"
    "\<And>x. en_tokens en x = Some (ss_checkpoint x)" "en_tokenize_rendered en = tk"
    "\<And>x. en_stage en x = q36_session_save_payload e x"
    by (simp_all add: en_def kv_engine_of_def stage_payload_save)
  note A = store_admit_Some [OF adm]
  have st': "q36_kvstore_store_live_prefix_text A kc en ss tokens n reason None 0 (None :: 'u kv_hooks option) s
      = (True, kc', s')"
    using st by (simp add: q36_kvstore_store_live_prefix_def)
  have ctx: "length ts < 2 ^ 31" "ss_ctx_size ss < 2 ^ 31" "ss_ctx_size ss2 < 2 ^ 31"
    "ss_ctx_size ss \<le> ss_ctx_size ss2"
    using assms(4-6) by (auto simp: kv_session_good_def session_wf_def kv_session_fits_def ts_def)
  show ?thesis
    using adm st'
  proof (cases rule: store_True)
    case existing
    with fresh show ?thesis
      by (simp add: kv_cache_existing_compatible_def path_def)
  next
    case (written payload x)
    have f: "map_of (os_fs s') path = Some (kv_file (word_of_int model) (word_of_int quant)
       (q36_kvstore_reason_code reason) x (word_of_nat (length ts)) 0 (word_of_int (int (ss_ctx_size ss)))
       (os_now s) (os_now s) tx payload [])"
      using written(2) by (simp add: path_def en kv_trailer_write_def)
    have pay: "length payload < 2 ^ 64" "q36_session_save_payload e ss = Some payload"
      using pl written(1) by (simp_all add: en)
    have sz: "52 + length tx + length payload < 2 ^ 64"
      using written(3) A(5) pay(1) by (intro file_fits_small) (simp_all add: kv_trailer_write_def)
    have io: "\<not> os_fail s' Op_stat path" "\<not> os_fail s' Op_open path" "kc_dir kc \<in> set (os_dirs s')"
      "\<not> os_fail s' Op_opendir (kc_dir kc)"
      using written(4,5) assms(13,14) by simp_all
    have cle: "(word_of_int (int (ss_ctx_size ss)) :: u32) \<le> word_of_int (int (ss_ctx_size ss2))"
      using ctx by (simp add: word_le_nat_alt unat_word_of_nat_small)
    have t0: "(word_of_nat (length ts) :: u32) \<noteq> 0"
      using assms(10) ctx(1) by (intro store_text_small) simp_all
    have q8: "q36_kvstore_quant_bits_valid (uint (word_of_int quant :: u8))"
      using quant_byte [OF A(4)] by (simp add: en)
    obtain i kc2 where fd: "q36_kvstore_find_text_prefix kc (Some (tx @ rest)) model quant
        (int (ss_ctx_size ss2)) s' = (Some i, kc2)"
      "e_path (kc_entry kc2 ! i) = path" "e_sha (kc_entry kc2 ! i) = q36_kvstore_sha1_bytes_hex tx"
      using find_stored [OF f meta_eq_to_obj_eq [OF path_def] t0 ctx(1) assms(11) q8 reason_code_le A(5) sz io A(1)
          refl refl cle assms(15)] by blast
    have rd: "os_read s' path = Some (kv_file (word_of_int (en_model_id en)) (word_of_int quant)
       (q36_kvstore_reason_code reason) x (word_of_nat (length ts)) 0 (word_of_int (int (ss_ctx_size ss)))
       (os_now s) (os_now s) tx payload [])"
      using f io(2) by (simp add: os_read_def en)
    show ?thesis
      using ks.load_checkpoint [of e ss ss2 m quant model tt tk payload tx ts kc s' path "word_of_int quant"
          "q36_kvstore_reason_code reason" x 0 "word_of_int (int (ss_ctx_size ss))" "os_now s" "os_now s" rest i kc2
          hooks u] assms(4-6,10) written(1) pay A(1,2,4,5) ctx(1) rd q8 fd
      unfolding en_def [symmetric] en by simp
  qed
qed

end
