(* ===== verification/Session_Witness.thy ===== *)
theory Session_Witness
  imports Session_Payload
begin

text \<open>
  A two-layer engine (one recurrent, one attention layer), a session on it, and the session
  properties applied to them.
\<close>

definition sample_engine :: q36_engine where
  "sample_engine = \<lparr>eg_shape = \<lparr>n_layer = 2, n_vocab = 1, n_head_kv = 1, n_head_dim = 1,
     n_value_dim = 1, n_ssm_conv = 2, n_ssm_state = 1, n_ssm_group = 1, n_ssm_dt_rank = 1,
     n_ssm_inner = 1, full_attention_interval = 2\<rparr>,
     cache_type_k = Q8_0, cache_type_v = F16\<rparr>"

definition sample_runtime :: "u8 \<Rightarrow> q36_cpu_runtime" where
  "sample_runtime b = \<lparr>rt_full = [\<lparr>fc_len = 0, fc_cap = 0, fc_k = None, fc_v = None\<rparr>,
       \<lparr>fc_len = 1, fc_cap = 4, fc_k = Some (replicate 136 b), fc_v = Some (replicate 8 b)\<rparr>],
     rt_recurrent = [\<lparr>rc_conv = Some (replicate 12 b), rc_state = Some (replicate 4 b)\<rparr>,
       \<lparr>rc_conv = None, rc_state = None\<rparr>],
     rt_prefill_cap = 2\<rparr>"

definition sample_session :: "u8 \<Rightarrow> int list \<Rightarrow> bool \<Rightarrow> q36_session" where
  "sample_session b toks valid = \<lparr>ss_dist = False, ss_ctx_size = 4, ss_checkpoint = toks,
     ss_checkpoint_valid = valid, ss_vision_state = False, ss_logits = [b, b, b, b],
     ss_logits_host_valid = True, ss_gpu_top2_valid = False, ss_runtime = sample_runtime b\<rparr>"

text \<open>A forward pass that fails on token 9 and otherwise answers fixed logits.\<close>

definition sample_env :: q36_env where
  "sample_env = \<lparr>me_fwd = (\<lambda>rt toks pos lg. if 9 \<in> set toks then None else Some (rt, [0, 0, 0, 1])),
     me_cancel = (\<lambda>_. False), me_dist_sync = (\<lambda>_ _. (0, [])), me_dist_eval = (\<lambda>_ _. (0, []))\<rparr>"

lemma sample_sync:
  "fst (q36_session_sync sample_engine sample_env (sample_session 0 [] False) [1, 2, 3]) = 0"
  by code_simp

text \<open>A sync, a decode step, a snapshot that is refused, and a sync again.\<close>

definition sample_ops :: "session_op list" where
  "sample_ops = [Op_sync [1, 2], Op_eval 3,
     Op_load_snapshot (concat (List.map le_put32 ([PAYLOAD_MAGIC, PAYLOAD_VERSION_TOKEN_ONLY, 4] @ [5, 6, 7, 8]))),
     Op_sync [1, 2, 3]]"


text \<open>
  Why a decode step needs a valid checkpoint.  A snapshot that does not fit the context is refused with an
  empty, invalid checkpoint but the old runtime; \<^verbatim>\<open>q36_session_eval\<close> does not look at the flag, so the next
  decode step runs on that runtime and marks the checkpoint valid.  The forward pass of the example appends
  the tokens it sees to the recurrent state.
\<close>

definition trace_env :: q36_env where
  "trace_env = sample_env\<lparr>me_fwd := (\<lambda>rt toks pos lg.
     Some (rt\<lparr>rt_recurrent := List.map (\<lambda>c. c\<lparr>rc_state :=
       map_option (\<lambda>b. b @ List.map word_of_int toks) (rc_state c)\<rparr>) (rt_recurrent rt)\<rparr>, [0, 0, 0, 0]))\<rparr>"

lemma trace_computed:
  "computed trace_env {} rt toks \<Longrightarrow> c \<in> set (rt_recurrent rt) \<Longrightarrow> rc_state c = Some b \<Longrightarrow>
   \<exists>k. b = replicate k 0 @ List.map word_of_int toks"
proof (induction arbitrary: c b rule: computed.induct)
  case (comp_reset rt)
  then show ?case
    by (auto simp: q36_cpu_runtime_reset_def map_replicate_const) 
next
  case (comp_chunk rt toks chunk lg rt' out)
  from comp_chunk.hyps(3) have rt': "rt' = rt\<lparr>rt_recurrent := List.map (\<lambda>c. c\<lparr>rc_state :=
       map_option (\<lambda>b. b @ List.map word_of_int chunk) (rc_state c)\<rparr>) (rt_recurrent rt)\<rparr>"
    by (simp add: trace_env_def)
  then obtain c0 b0 where c0: "c0 \<in> set (rt_recurrent rt)" "rc_state c0 = Some b0"
      "b = b0 @ List.map word_of_int chunk"
    using comp_chunk.prems by auto
  from comp_chunk.IH [OF c0(1,2)] c0(3) show ?case by auto
qed auto

definition refused_ops :: "session_op list" where
  "refused_ops = [Op_sync [7, 8],
     Op_load_snapshot (concat (List.map le_put32 ([PAYLOAD_MAGIC, PAYLOAD_VERSION_TOKEN_ONLY, 4] @ [5, 6, 7, 8]))),
     Op_eval 5]"

lemma eval_after_refused_snapshot:
  "let s = session_run sample_engine trace_env refused_ops (sample_session 0 [] False)
   in ss_checkpoint s = [5] \<and> ss_checkpoint_valid s \<and> \<not> computed trace_env {} (ss_runtime s) [5]"
proof -
  let ?s = "session_run sample_engine trace_env refused_ops (sample_session 0 [] False)"
  have s: "ss_checkpoint ?s = [5]" "ss_checkpoint_valid ?s" by code_simp+
  have st: "rc_state (hd (rt_recurrent (ss_runtime ?s))) = Some [0, 0, 0, 0, 7, 8, 5]"
    "rt_recurrent (ss_runtime ?s) \<noteq> []" by code_simp+
  have "\<not> computed trace_env {} (ss_runtime ?s) [5]"
  proof
    assume "computed trace_env {} (ss_runtime ?s) [5]"
    from trace_computed [OF this hd_in_set [OF st(2)] st(1)]
    obtain k where k: "[0, 0, 0, 0, 7, 8, 5] = replicate k 0 @ [5 :: u8]" by auto
    from arg_cong [OF k, of length] have "k = 6" by simp
    with arg_cong [OF k, of "\<lambda>l. l ! 4"] have "(7 :: u8) = 0" by (simp add: nth_append)
    then show False by simp
  qed
  with s show ?thesis by simp
qed

theorem sync_exact_witness:
  "ss_checkpoint (snd (q36_session_sync sample_engine sample_env (sample_session 0 [] False) [1, 2, 3])) = [1, 2, 3]"
  using sync_exact [of sample_env "{}" "sample_session 0 [] False" sample_engine "[1, 2, 3]"] sample_sync
  by (cases "q36_session_sync sample_engine sample_env (sample_session 0 [] False) [1, 2, 3]")
    (simp add: session_ok_def sample_session_def)

theorem common_prefix_longest_witness:
  "q36_session_common_prefix (sample_session 0 [1, 2, 3] True) [1, 2, 4] \<le> 3"
  using common_prefix_longest [of "sample_session 0 [1, 2, 3] True" "[1, 2, 4]"]
  by (simp add: sample_session_def Let_def)

lemma sample_wf:
  assumes "length toks \<le> 4" "\<forall>t \<in> set toks. int32 t"
  shows "session_wf sample_engine (sample_session b toks v)"
proof -
  have lt2: "il < 2 \<longleftrightarrow> il = 0 \<or> il = 1" for il :: nat by auto
  have "runtime_wf sample_engine 4 (sample_runtime b)"
    by (auto simp: runtime_wf_def sample_engine_def sample_runtime_def lt2 q36_layer_is_full_attention_def
        full_wf_def recurrent_wf_def q36_full_k_bytes_def q36_full_v_bytes_def n_ssm_conv_dim_def
        q36_recurrent_conv_bytes_def q36_recurrent_state_bytes_def)
  with assms show ?thesis
    by (simp add: session_wf_def sample_session_def) (simp add: sample_engine_def)
qed

lemma sample_save: "\<exists>p. q36_session_save_payload sample_engine (sample_session 5 [7] True) = Some p \<and> length p < 2 ^ 64"
proof -
  have "q36_session_save_payload sample_engine (sample_session 5 [7] True) \<noteq> None \<and>
      length (the (q36_session_save_payload sample_engine (sample_session 5 [7] True))) = 128"
    by code_simp
  then show ?thesis by (cases "q36_session_save_payload sample_engine (sample_session 5 [7] True)") auto
qed

theorem payload_round_trip_witness:
  "\<exists>s'. q36_session_load_payload sample_engine sample_env (sample_session 6 [1, 2] True)
      (the (q36_session_save_payload sample_engine (sample_session 5 [7] True)) @ [1])
      (length (the (q36_session_save_payload sample_engine (sample_session 5 [7] True)))) = (True, s', [1]) \<and>
    ss_checkpoint s' = [7]"
proof -
  obtain p where p: "q36_session_save_payload sample_engine (sample_session 5 [7] True) = Some p"
    using sample_save by blast
  have wf: "session_wf sample_engine (sample_session 5 [7] True)"
    "session_wf sample_engine (sample_session 6 [1, 2] True)"
    by (rule sample_wf; simp add: int32_def)+
  show ?thesis
    using payload_round_trip [OF wf _ _ _ _ p, of sample_env "[1]"] p
    by (auto simp: sample_session_def)
qed

theorem payload_size_exact_witness:
  "length (the (q36_session_save_payload sample_engine (sample_session 5 [7] True)))
     = q36_session_payload_bytes sample_engine (sample_session 5 [7] True)"
proof -
  obtain p where p: "q36_session_save_payload sample_engine (sample_session 5 [7] True) = Some p"
    using sample_save by blast
  have "session_wf sample_engine (sample_session 5 [7] True)"
    by (rule sample_wf; simp add: int32_def)
  from payload_size_exact [OF this p] p show ?thesis by simp
qed

end
