(* ===== verification/Kv_Witness.thy ===== *)
theory Kv_Witness
  imports Kv_Session Session_Witness
begin

text \<open>
  Concrete inputs for the properties of the KV store and the session: a small cache directory, a
  two-layer engine with a session on it, and each property applied there.
\<close>

section \<open>A cache directory\<close>

definition sample_name :: bytes where
  "sample_name = replicate 40 0x30 @ str ''.kv''"

definition sample_file :: bytes where
  "sample_file = kv_file 1 2 1 0 600 0 4096 1 1 (str ''hello'') [1, 2, 3, 4] []"

definition sample_os :: os where
  "sample_os = \<lparr>os_fs = [(str ''c/'' @ sample_name, sample_file), (str ''c/notes'', str ''x'')],
     os_dirs = [str ''c''], os_now = 100, os_pid = str ''7'', os_fail = (\<lambda>_ _. False),
     os_short = (\<lambda>_. 0)\<rparr>"

definition sample_kc :: q36_kvstore where
  "sample_kc = kv_zero\<lparr>kc_enabled := True, kc_dir := str ''c'', kc_budget_bytes := 50,
     kc_opt := q36_kvstore_default_options\<rparr>"

lemma sample_frame [simp]:
  "kc_enabled sample_kc" "kc_dir sample_kc = str ''c''" "kc_budget_bytes sample_kc = 50"
  "kc_opt sample_kc = q36_kvstore_default_options" "\<not> os_fail sample_os op p"
  "os_dirs sample_os = [str ''c'']" "os_now sample_os = 100"
  by (simp_all add: sample_kc_def sample_os_def)

lemma sample_prefix: "dir_prefix (str ''c'') = str ''c/''"
  by (simp add: dir_prefix_def lit_simps)

lemma sample_names: "dir_names (str ''c'') (os_fs sample_os) = [sample_name, str ''notes'']"
proof -
  have "str ''c/notes'' = str ''c/'' @ str ''notes''" by (simp add: str_def)
  moreover have "0x2F \<notin> set sample_name" "0x2F \<notin> set (str ''notes'')"
    by (simp_all add: sample_name_def lit_simps)
  ultimately show ?thesis
    by (simp add: dir_names_def sample_os_def dir_entry_Some sample_prefix
        flip: dir_entry_prefix)
      (simp add: dir_entry_def sample_prefix)
qed

lemma sample_hex: "q36_kvstore_sha_hex_name sample_name = Some (replicate 40 0x30)"
  by (simp add: q36_kvstore_sha_hex_name_def sample_name_def ctype_defs)

definition sample_entry :: q36_kvstore_entry where
  "sample_entry = (kv_header_entry 1 2 1 0 600 0 4096 1 1 4 5 kv_entry0)
     \<lparr>e_sha := replicate 40 0x30, e_path := str ''c/'' @ sample_name, e_file_size := 61\<rparr>"

lemma sample_scan: "kv_scan_name sample_os (str ''c'') sample_name = Some sample_entry"
proof -
  have "q36_kvstore_read_entry_file sample_os (str ''c/'' @ sample_name) (replicate 40 0x30)
      = Some ((kv_header_entry 1 2 1 0 600 0 4096 1 1 (word_of_nat (length [1, 2, 3, 4 :: u8]))
          (word_of_nat (length (str ''hello''))) kv_entry0)
       \<lparr>e_sha := replicate 40 0x30, e_path := str ''c/'' @ sample_name,
        e_file_size := word_of_nat (52 + length (str ''hello'') + length [1, 2, 3, 4 :: u8])\<rparr>)"
    by (rule scan_kv_file_plain)
      (simp_all add: sample_os_def sample_file_def q36_kvstore_quant_bits_valid_def)
  then show ?thesis
    by (simp add: kv_scan_name_def sample_hex path_join_prefix sample_prefix sample_entry_def)
qed

lemma sample_disk: "kv_disk sample_os (str ''c'') = [sample_entry]"
proof -
  have "kv_scan_name sample_os (str ''c'') (str ''notes'') = None"
    by (simp add: kv_scan_name_def q36_kvstore_sha_hex_name_def)
  then show ?thesis
    using sample_scan by (simp add: kv_disk_def os_readdir_def sample_names)
qed

lemma sample_paths: "str ''c/notes'' \<noteq> str ''c/'' @ sample_name"
  by (simp add: sample_name_def lit_simps)

lemma sample_distinct: "distinct (map fst (os_fs sample_os))"
  using sample_paths by (auto simp: sample_os_def)

section \<open>Eviction and lookup\<close>

theorem evict_meets_budget_witness:
  "kv_total (kv_disk (snd (q36_kvstore_evict dbl_real sample_kc 0 None sample_os)) (str ''c'')) \<le> 50"
proof -
  have "kv_total (kv_disk sample_os (str ''c'')) < 2 ^ 64"
    by (simp add: sample_disk sample_entry_def)
  then show ?thesis
    using evict_meets_budget [of sample_kc 0 sample_os dbl_real None] sample_distinct by simp
qed

text \<open>A lookup in a cache whose only entry is too long for the prompt.\<close>

theorem find_text_prefix_longest_witness:
  "fst (q36_kvstore_find_text_prefix sample_kc (Some (str ''hi'')) 1 2 4096 sample_os) = None"
proof -
  let ?r = "q36_kvstore_find_text_prefix sample_kc (Some (str ''hi'')) 1 2 4096 sample_os"
  have "snd ?r = sample_kc\<lparr>kc_entry := [sample_entry]\<rparr>"
    by (simp add: find_prefix_cases(1) kv_cache_refresh_eq sample_disk)
  moreover have "\<not> kv_usable (snd ?r) (str ''hi'') 1 2 4096 sample_entry"
    by (simp add: kv_usable_def sample_entry_def kv_header_entry_def)
  ultimately show ?thesis
    using find_text_prefix_longest [of sample_kc "str ''hi''" 1 2 4096 sample_os]
    by (auto split: option.splits)
qed

theorem store_len_boundary_witness:
  "boundary_align_tokens q36_kvstore_default_options dvd q36_kvstore_store_len sample_kc 5000"
proof -
  have "q36_kvstore_store_len sample_kc 5000 = 4096"
    by code_simp
  with store_len_boundary [of sample_kc 5000] show ?thesis
    by (simp add: q36_kvstore_default_options_def)
qed

theorem chat_anchor_last_user_witness:
  "\<exists>k < length ([9, 1, 5, 1, 6, 2] :: int list).
     q36_kvstore_chat_anchor_pos kv_zero (Some [9, 1, 5, 1, 6, 2]) 1 2 = int k \<and>
     ([9, 1, 5, 1, 6, 2] :: int list) ! k = 1"
proof -
  have "q36_kvstore_chat_anchor_pos kv_zero (Some [9, 1, 5, 1, 6, 2]) 1 2 \<noteq> - 1"
    by code_simp
  with chat_anchor_last_user [of kv_zero "[9, 1, 5, 1, 6, 2]" 1 2] show ?thesis
    by (auto simp: kv_zero_def)
qed

section \<open>Touching a file\<close>

theorem touch_file_entry_witness:
  "q36_kvstore_read_entry_file (snd (q36_kvstore_touch_file (str ''c/'' @ sample_name) 3 sample_os))
     (str ''c/'' @ sample_name) [] = Some (sample_entry\<lparr>e_sha := [], e_hits := 3, e_last_used := 100\<rparr>)"
proof -
  let ?p = "str ''c/'' @ sample_name"
  have rd: "q36_kvstore_read_header sample_file kv_entry0 \<noteq> None"
    using read_header_kv_file [of 600 2 1 1 0 0 4096 1 1 "str ''hello''" "[1, 2, 3, 4]" "[]" kv_entry0]
    by (simp add: sample_file_def q36_kvstore_quant_bits_valid_def)
  have f: "map_of (os_fs sample_os) ?p = Some sample_file"
    by (simp add: sample_os_def)
  then have "fst (q36_kvstore_touch_file ?p 3 sample_os)"
    using rd by (auto simp: q36_kvstore_touch_file_def os_read_def os_pwrite_def split: option.split)
  moreover have "q36_kvstore_read_entry_file sample_os ?p [] = Some (sample_entry\<lparr>e_sha := []\<rparr>)"
  proof -
    have "q36_kvstore_read_entry_file sample_os ?p []
        = Some ((kv_header_entry 1 2 1 0 600 0 4096 1 1 (word_of_nat (length [1, 2, 3, 4 :: u8]))
            (word_of_nat (length (str ''hello''))) kv_entry0)
         \<lparr>e_sha := [], e_path := ?p,
          e_file_size := word_of_nat (52 + length (str ''hello'') + length [1, 2, 3, 4 :: u8])\<rparr>)"
      by (rule scan_kv_file_plain)
        (simp_all add: sample_os_def sample_file_def q36_kvstore_quant_bits_valid_def)
    then show ?thesis by (simp add: sample_entry_def)
  qed
  ultimately show ?thesis
    using touch_file_entry [of ?p 3 sample_os "[]" "sample_entry\<lparr>e_sha := []\<rparr>" undefined] by simp
qed

section \<open>Storing and loading\<close>

definition sample_kv :: "q36_session kv_engine" where
  "sample_kv = kv_engine_of sample_engine sample_env 2 1 (\<lambda>t. [word_of_int t]) (map uint)"

definition empty_kc :: q36_kvstore where
  "empty_kc = kv_zero\<lparr>kc_enabled := True, kc_dir := str ''c'',
     kc_opt := q36_kvstore_default_options\<lparr>min_tokens := 1\<rparr>\<rparr>"

definition empty_os :: "(sysop \<Rightarrow> bytes \<Rightarrow> bool) \<Rightarrow> os" where
  "empty_os fails = \<lparr>os_fs = [], os_dirs = [str ''c''], os_now = 100, os_pid = str ''7'',
     os_fail = fails, os_short = (\<lambda>_. 0)\<rparr>"

definition sample_path :: bytes where
  "sample_path = q36_kvstore_path_for_sha (str ''c'') (q36_kvstore_sha1_bytes_hex [7])"

definition sample_payload :: bytes where
  "sample_payload = the (q36_session_save_payload sample_engine (sample_session 5 [7] True))"

definition stored_file :: bytes where
  "stored_file = kv_file 1 2 1 0 1 0 4 100 100 [7] sample_payload []"

definition stored_os :: os where
  "stored_os = (empty_os (\<lambda>_ _. False))\<lparr>os_fs := [(sample_path, stored_file)]\<rparr>"

lemma sample_stage: "en_stage sample_kv (sample_session 5 [7] True) = Some sample_payload"
  using sample_save by (auto simp: sample_kv_def kv_engine_of_def stage_payload_save sample_payload_def)

lemma sample_kv_simps:
  "en_quant_bits sample_kv = 2" "en_model_id sample_kv = 1" "en_ctx sample_kv s = int (ss_ctx_size s)"
  "en_tokens sample_kv s = Some (ss_checkpoint s)" "en_tokenize_rendered sample_kv = map uint"
  "en_token_text sample_kv t = [word_of_int t]"
  by (simp_all add: sample_kv_def kv_engine_of_def)

lemma sample_admit:
  "kv_store_admit empty_kc sample_kv (sample_session 5 [7] True) (Some [7]) 1 None
     (None :: unit kv_hooks option) = Some ([7], False, [7], 0)"
  by (simp add: kv_store_admit_def sample_kv_simps empty_kc_def tokens_copy_prefix_take Let_def
      render_tokens_text_concat q36_kvstore_quant_bits_valid_def sample_session_def
      tokens_starts_with_iff kv_trailer_serialized_size_def unsigned_minus_1_eq_mask mask_eq_exp_minus_1)

lemma empty_kc_simps [simp]:
  "kc_enabled empty_kc" "kc_dir empty_kc = str ''c''" "kc_budget_bytes empty_kc = 0"
  "kc_reject_different_quant empty_kc = False"
  by (simp_all add: empty_kc_def kv_zero_def)

lemma empty_os_simps [simp]:
  "os_fs (empty_os f) = []" "os_dirs (empty_os f) = [str ''c'']" "os_now (empty_os f) = 100"
  "os_fail (empty_os f) = f"
  by (simp_all add: empty_os_def)

lemma sample_payload_len: "length sample_payload = 128"
  unfolding sample_payload_def by code_simp

lemma sample_store:
  "q36_kvstore_store_live_prefix dbl_real empty_kc sample_kv (sample_session 5 [7] True) (Some [7]) 1
     (Some (str ''cold'')) (None :: unit kv_hooks option) (empty_os (\<lambda>_ _. False)) = (True, empty_kc, stored_os)"
proof -
  have fits: "q36_kvstore_file_size_fits 0 (word_of_nat (length [7 :: u8]))
      (word_of_nat (length sample_payload)) 0 = (True, 181, 0)"
    unfolding sample_payload_len by code_simp
  have reason: "q36_kvstore_reason_code (Some (str ''cold'')) = 1"
    by (simp add: q36_kvstore_reason_code_def)
  have ex: "kv_cache_existing_compatible empty_kc sample_path (q36_kvstore_sha1_bytes_hex [7]) [7] 1 2 4
      (empty_os (\<lambda>_ _. False)) = (False, empty_os (\<lambda>_ _. False))"
    by (simp add: kv_cache_existing_compatible_def)
  have ev: "q36_kvstore_evict dbl_real empty_kc sz inc s = (empty_kc, s)" for sz inc s
    by (simp add: q36_kvstore_evict_def)
  have path: "q36_kvstore_path_for_sha (str ''c'') (q36_kvstore_sha1_bytes_hex [7]) = sample_path"
    by (simp add: sample_path_def)
  have ctx: "ss_ctx_size (sample_session 5 [7] True) = 4" by (simp add: sample_session_def)
  let ?h = "q36_kvstore_fill_header 1 2 1 0 1 0 4 100 100 (word_of_nat (length sample_payload))"
  let ?s = "empty_os (\<lambda>_ _. False)" and ?tmp = "kv_tmp_path (empty_os (\<lambda>_ _. False)) sample_path"
  have "kv_store_write empty_kc sample_path ?h [7] sample_payload (None :: unit kv_hooks option) ?s = (True, stored_os)"
    by (simp add: kv_store_write_def kv_trailer_write_def os_pwrite_def os_put_def os_rename_def
        poke_def stored_os_def stored_file_def kv_file_def fits [simplified])
  then show ?thesis
    unfolding q36_kvstore_store_live_prefix_def q36_kvstore_store_live_prefix_text_def sample_admit
      option.case prod.case Let_def sample_stage sample_kv_simps ctx empty_kc_simps path
    using ex fits ev reason by simp
qed

theorem store_publishes_witness:
  "\<exists>data hdr payload. map_of (os_fs stored_os) sample_path = Some data \<and>
     kv_load_check data (q36_kvstore_sha1_bytes_hex [7]) ([7] @ [8]) 1 = Some (hdr, 1, payload) \<and>
     sint (e_tokens hdr) = 1 \<and> unat (e_payload_bytes hdr) = 128 \<and> length payload = 128"
proof -
  let ?os = "empty_os (\<lambda>_ _. False)"
  have st: "q36_kvstore_store_live_prefix_text dbl_real empty_kc sample_kv (sample_session 5 [7] True) (Some [7]) 1
     (Some (str ''cold'')) None 0 (None :: unit kv_hooks option) ?os = (True, empty_kc, stored_os)"
    using sample_store by (simp add: q36_kvstore_store_live_prefix_def)
  have path: "q36_kvstore_path_for_sha (kc_dir empty_kc) (q36_kvstore_sha1_bytes_hex [7]) = sample_path"
    by (simp add: sample_path_def)
  have none: "fst (kv_cache_existing_compatible empty_kc sample_path sha tx m q c ?os) = False" for sha tx m q c
    by (simp add: kv_cache_existing_compatible_def)
  have min: "min_tokens (kc_opt empty_kc) \<le> int (length [7 :: int])" by (simp add: empty_kc_def)
  have small: "\<And>p. en_stage sample_kv (sample_session 5 [7] True) = Some p \<Longrightarrow>
      52 + length [7 :: u8] + length p + length (fst (snd (kv_trailer_write (None :: unit kv_hooks option) [7]))) < 2 ^ 64"
    using sample_stage sample_payload_len by (auto simp: kv_trailer_write_def)
  have "(\<exists>payload x data. en_stage sample_kv (sample_session 5 [7] True) = Some payload \<and>
      map_of (os_fs stored_os) sample_path = Some data \<and> P payload x data \<and> (\<forall>rest. Q payload data rest)) \<Longrightarrow>
      \<exists>data. map_of (os_fs stored_os) sample_path = Some data \<and> Q sample_payload data [8]" for P Q
    using sample_stage by auto
  note pick = this
  have "\<exists>data. map_of (os_fs stored_os) sample_path = Some data \<and>
      (\<exists>hdr. kv_load_check data (q36_kvstore_sha1_bytes_hex [7]) ([7] @ [8]) 1 =
          Some (hdr, word_of_nat (length [7 :: u8]), sample_payload @ []) \<and>
        sint (e_tokens hdr) = int (length [7 :: int]) \<and> unat (e_payload_bytes hdr) = length sample_payload)"
    using store_publishes [OF sample_admit st _ _ min path [symmetric] _ _ _ small] none sample_stage
    by (fastforce simp: sample_kv_simps kv_trailer_write_def)
  then show ?thesis by (auto simp: sample_payload_len)
qed

text \<open>A store whose rename fails, in a directory with another file.\<close>

definition failing_os :: os where
  "failing_os = (empty_os (\<lambda>op _. op = Op_rename))\<lparr>os_fs := [(str ''c/notes'', str ''x'')]\<rparr>"

lemma failing_path: "sample_path \<noteq> str ''c/notes''" "kv_tmp_path failing_os sample_path \<noteq> str ''c/notes''"
  by (auto simp: sample_path_def path_for_sha_prefix kv_tmp_path_def dir_prefix_def lit_simps
      dest: arg_cong [where f = length])

lemma failing_store:
  "fst (q36_kvstore_store_live_prefix_text dbl_real empty_kc sample_kv (sample_session 5 [7] True) (Some [7]) 1
     (Some (str ''cold'')) None 0 (None :: unit kv_hooks option) failing_os) = False"
proof -
  have fits: "q36_kvstore_file_size_fits 0 (word_of_nat (length [7 :: u8]))
      (word_of_nat (length sample_payload)) 0 = (True, 181, 0)"
    unfolding sample_payload_len by code_simp
  have ex: "kv_cache_existing_compatible empty_kc sample_path sha tx m q c failing_os = (False, failing_os)"
    for sha tx m q c
    using failing_path by (simp add: kv_cache_existing_compatible_def failing_os_def)
  have ev: "q36_kvstore_evict dbl_real empty_kc sz inc s = (empty_kc, s)" for sz inc s
    by (simp add: q36_kvstore_evict_def)
  have path: "q36_kvstore_path_for_sha (str ''c'') (q36_kvstore_sha1_bytes_hex [7]) = sample_path"
    by (simp add: sample_path_def)
  have "fst (kv_store_write empty_kc sample_path h [7] sample_payload (None :: unit kv_hooks option) failing_os) = False"
    for h
    by (simp add: kv_store_write_def kv_trailer_write_def os_pwrite_def os_put_def os_rename_def
        failing_os_def Let_def split: prod.splits)
  then show ?thesis
    unfolding q36_kvstore_store_live_prefix_text_def sample_admit
      option.case prod.case Let_def sample_stage sample_kv_simps empty_kc_simps path
    using ex fits ev by (auto split: prod.splits) (metis fst_conv)
qed

theorem store_failure_keeps_witness:
  "map_of (os_fs (snd (snd (q36_kvstore_store_live_prefix_text dbl_real empty_kc sample_kv
     (sample_session 5 [7] True) (Some [7]) 1 (Some (str ''cold'')) None 0 (None :: unit kv_hooks option) failing_os))))
     (str ''c/notes'') = Some (str ''x'')"
proof -
  let ?r = "q36_kvstore_store_live_prefix_text dbl_real empty_kc sample_kv (sample_session 5 [7] True) (Some [7]) 1
     (Some (str ''cold'')) None 0 (None :: unit kv_hooks option) failing_os"
  have "?r = (False, fst (snd ?r), snd (snd ?r))" using failing_store by (cases ?r) simp
  note keeps = store_failure_keeps [OF this, unfolded sample_admit option.case prod.case Let_def]
  have path: "q36_kvstore_path_for_sha (kc_dir empty_kc) (q36_kvstore_sha1_bytes_hex [7]) = sample_path"
    by (simp add: sample_path_def)
  have ev: "q36_kvstore_evict dbl_real empty_kc sz inc s = (empty_kc, s)" for sz inc s
    by (simp add: q36_kvstore_evict_def)
  have "map_of (os_fs failing_os) (str ''c/notes'') = Some (str ''x'')" by (simp add: failing_os_def)
  then show ?thesis
    using keeps failing_path [symmetric] unfolding path ev snd_conv by metis
qed

theorem store_load_round_trip_witness:
  "fst (q36_kvstore_try_load_text empty_kc sample_kv (sample_session 6 [1, 2] True) (Some ([7] @ [8]))
     (None :: unit kv_hooks option) () stored_os) = 1"
proof -
  have wf: "kv_session_good sample_engine (sample_session 5 [7] True)"
    "kv_session_good sample_engine (sample_session 6 [1, 2] True)"
    using sample_wf [of "[7]" 5 True] sample_wf [of "[1, 2]" 6 True]
    by (simp_all add: kv_session_good_def int32_def sample_session_def)
  have fits: "kv_session_fits (sample_session 5 [7] True) (sample_session 6 [1, 2] True)"
    by (simp add: kv_session_fits_def sample_session_def)
  have cp: "ss_checkpoint (sample_session 5 [7] True) = [7]"
    by (simp add: sample_session_def)
  have small: "length p < 2 ^ 64"
    if "q36_session_save_payload sample_engine (sample_session 5 [7] True) = Some p" for p
    using sample_save that by auto
  have only: "e_path e = sample_path" if "e \<in> set (kv_disk stored_os (str ''c''))" for e
    using kv_disk_paths [OF that] by (simp add: stored_os_def)
  have "fst (q36_kvstore_try_load_text empty_kc (kv_engine_of sample_engine sample_env 2 1 (\<lambda>t. [word_of_int t]) (map uint))
      (sample_session 6 [1, 2] True) (Some ([7] @ [8])) (None :: unit kv_hooks option) () stored_os)
    = int (length (ss_checkpoint (sample_session 5 [7] True)))"
  proof (rule conjunct1 [OF store_load_round_trip [OF wf fits]])
    show "kv_store_admit empty_kc (kv_engine_of sample_engine sample_env 2 1 (\<lambda>t. [word_of_int t]) (map uint))
        (sample_session 5 [7] True) (Some [7]) 1 None (None :: unit kv_hooks option)
      = Some (ss_checkpoint (sample_session 5 [7] True), False, [7], 0)"
      using sample_admit by (simp add: sample_kv_def cp)
    show "q36_kvstore_store_live_prefix dbl_real empty_kc
        (kv_engine_of sample_engine sample_env 2 1 (\<lambda>t. [word_of_int t]) (map uint))
        (sample_session 5 [7] True) (Some [7]) 1 (Some (str ''cold'')) (None :: unit kv_hooks option)
        (empty_os (\<lambda>_ _. False)) = (True, empty_kc, stored_os)"
      using sample_store by (simp add: sample_kv_def)
    show "map_of (os_fs (empty_os (\<lambda>_ _. False)))
        (q36_kvstore_path_for_sha (kc_dir empty_kc) (q36_kvstore_sha1_bytes_hex [7])) = None"
      by simp
    show "min_tokens (kc_opt empty_kc) \<le> int (length (ss_checkpoint (sample_session 5 [7] True)))"
      by (simp add: cp empty_kc_def)
    fix e'
    assume "e' \<in> set (kv_disk stored_os (kc_dir empty_kc))"
      "e_path e' \<noteq> q36_kvstore_path_for_sha (kc_dir empty_kc) (q36_kvstore_sha1_bytes_hex [7])"
    then show "\<not> kv_usable empty_kc ([7] @ [8]) 1 2 (int (ss_ctx_size (sample_session 6 [1, 2] True))) e'"
      using only by (simp add: sample_path_def)
  qed (use cp small in simp_all)
  then show ?thesis by (simp add: sample_kv_def cp)
qed

lemma sample_load:
  "fst (q36_kvstore_try_load_text empty_kc sample_kv (sample_session 6 [1, 2] True) (Some ([7] @ [8]))
     (None :: unit kv_hooks option) () stored_os) = 1"
proof -
  have f: "map_of (os_fs stored_os) sample_path = Some (kv_file 1 2 1 0 (word_of_nat 1) 0 4 100 100 [7] sample_payload [])"
    by (simp add: stored_os_def stored_file_def)
  have only: "e_path e = sample_path" if "e \<in> set (kv_disk stored_os (str ''c''))" for e
    using kv_disk_paths [OF that] by (simp add: stored_os_def)
  have io: "\<not> os_fail stored_os op p" "kc_dir empty_kc \<in> set (os_dirs stored_os)" for op p
    by (simp_all add: stored_os_def)
  have mt: "min_tokens (kc_opt empty_kc) \<le> int 1" by (simp add: empty_kc_def)
  have "\<exists>i kc2. q36_kvstore_find_text_prefix empty_kc (Some ([7] @ [8])) 1 2 4 stored_os = (Some i, kc2) \<and>
    e_path (kc_entry kc2 ! i) = sample_path \<and> e_sha (kc_entry kc2 ! i) = q36_kvstore_sha1_bytes_hex [7]"
  proof (rule find_stored [OF f])
    fix e
    assume "e \<in> set (kv_disk stored_os (kc_dir empty_kc))" "e_path e \<noteq> sample_path"
    then show "\<not> kv_usable empty_kc ([7] @ [8]) 1 2 4 e" using only by simp
  qed (use io mt in \<open>simp_all add: sample_path_def q36_kvstore_quant_bits_valid_def sample_payload_len\<close>)
  then obtain i kc2 where fd: "q36_kvstore_find_text_prefix empty_kc (Some ([7] @ [8])) 1 2 4 stored_os = (Some i, kc2)"
    "e_path (kc_entry kc2 ! i) = sample_path" "e_sha (kc_entry kc2 ! i) = q36_kvstore_sha1_bytes_hex [7]"
    by blast
  have wf: "kv_session_good sample_engine (sample_session 5 [7] True)"
    "kv_session_good sample_engine (sample_session 6 [1, 2] True)"
    "kv_session_fits (sample_session 5 [7] True) (sample_session 6 [1, 2] True)"
    using sample_wf [of "[7]" 5 True] sample_wf [of "[1, 2]" 6 True]
    by (simp_all add: kv_session_good_def int32_def sample_session_def kv_session_fits_def)
  show ?thesis
    using ks.load_checkpoint [OF wf, of sample_env 2 1 "\<lambda>t. [word_of_int t]" "map uint" sample_payload "[7]" "[7]"
        empty_kc stored_os sample_path 2 1 0 0 4 100 100 "[8]" i kc2 "None :: unit kv_hooks option" "()"]
      sample_stage f fd io
    unfolding sample_kv_def [symmetric] sample_kv_simps
    by (simp add: os_read_def sample_payload_len q36_kvstore_quant_bits_valid_def sample_session_def)
qed

theorem try_load_safe_witness:
  "\<exists>e H T tx rest. e \<in> set (kc_entry (kv_cache_refresh stored_os empty_kc)) \<and>
     map_of (os_fs stored_os) (e_path e) = Some (H @ T @ tx @ rest) \<and> length H = 48 \<and>
     H ! 7 = 1 \<and> starts_with tx [7, 8]"
proof -
  let ?r = "q36_kvstore_try_load_text empty_kc sample_kv (sample_session 6 [1, 2] True) (Some ([7] @ [8]))
     (None :: unit kv_hooks option) () stored_os"
  have r: "?r = (1, snd ?r)" using sample_load by (cases ?r) simp
  have "(0 :: int) < 1" by simp
  from try_load_safe [OF r this] obtain e H T tx rest where
    "e \<in> set (kc_entry (kv_cache_refresh stored_os empty_kc))"
    "map_of (os_fs stored_os) (e_path e) = Some (H @ T @ tx @ rest)" "length H = 48"
    "H ! 7 = word_of_int (en_model_id sample_kv)" "starts_with tx ([7] @ [8])"
    by blast
  then show ?thesis by (force simp: sample_kv_simps)
qed

end
