(* ===== verification/Dist_Wire.thy ===== *)
theory Dist_Wire
  imports Codec
begin

text \<open>
  The wire of the two-stage pipeline (\<^verbatim>\<open>q36_distributed.c\<close>): bounded socket transfers
  (\<^verbatim>\<open>dist_io\<close>), frames (\<^verbatim>\<open>dist_send\<close>, \<^verbatim>\<open>dist_recv\<close>), the hello exchange that accepts a peer
  (\<^verbatim>\<open>dist_hello\<close>), and the bodies of work and result frames.  The socket enters as the list of
  what \<^verbatim>\<open>poll\<close> and \<^verbatim>\<open>send\<close>/\<^verbatim>\<open>recv\<close> answer, in order.  Floats travel as their bit patterns.
\<close>

section \<open>Constants\<close>

definition DIST_MAGIC :: u32 where "DIST_MAGIC = 0x51333644"
definition DIST_VERSION :: u32 where "DIST_VERSION = 3"
definition DIST_MAX_FRAME :: nat where "DIST_MAX_FRAME = 64 * 1024 * 1024"

definition DIST_HELLO :: u32 where "DIST_HELLO = 1"
definition DIST_ERROR :: u32 where "DIST_ERROR = 2"
definition DIST_CREATE :: u32 where "DIST_CREATE = 3"
definition DIST_WORK :: u32 where "DIST_WORK = 4"
definition DIST_RESULT :: u32 where "DIST_RESULT = 5"
definition DIST_FREE :: u32 where "DIST_FREE = 6"
definition DIST_COMMIT :: u32 where "DIST_COMMIT = 7"

definition DIST_RESET :: u32 where "DIST_RESET = 1"
definition DIST_LOGITS :: u32 where "DIST_LOGITS = 2"
definition DIST_ROWS :: u32 where "DIST_ROWS = 4"
definition DIST_SPEC :: u32 where "DIST_SPEC = 8"
definition DIST_BEGIN :: u32 where "DIST_BEGIN = 16"

definition Q36_CONTEXT_ALLOC_MAX :: nat where "Q36_CONTEXT_ALLOC_MAX = 262144 + 1"
definition Q36_DIST_VERIFY_MAX :: nat where "Q36_DIST_VERIFY_MAX = 8"

lemmas dist_type_defs = DIST_HELLO_def DIST_ERROR_def DIST_CREATE_def DIST_WORK_def DIST_RESULT_def
  DIST_FREE_def DIST_COMMIT_def
lemmas dist_flag_defs = DIST_RESET_def DIST_LOGITS_def DIST_ROWS_def DIST_SPEC_def DIST_BEGIN_def

section \<open>Transfers\<close>

datatype dist_errno = ECANCELED | ETIMEDOUT | ECONNRESET | EOTHER

text \<open>
  One round of the transfer loop: what the cancel callback, \<^verbatim>\<open>poll\<close> and \<^verbatim>\<open>send\<close>/\<^verbatim>\<open>recv\<close> said.
  \<open>Timeout late\<close> is a poll without an answer, \<open>late\<close> once the deadline has passed; \<open>Moved n\<close>
  is a transfer of \<open>n\<close> bytes (0 is the end of the stream).
\<close>

datatype dist_io_event = Cancelled | Poll_Intr | Poll_Error | Timeout bool | Io_Again | Io_Error | Moved nat

datatype dist_io_result = Io_Done | Io_Failed dist_errno | Io_Waiting

text \<open>
  \<open>dist_io owned len src evs\<close> transfers \<open>len\<close> bytes from the front of \<open>src\<close> (the sender's buffer,
  or what the peer has sent): the bytes moved, the events left and the result.  \<open>Io_Waiting\<close>: the
  events end while the loop still runs.  The kernel moves no more than asked and than there is.
\<close>

fun dist_io :: "bool \<Rightarrow> nat \<Rightarrow> bytes \<Rightarrow> dist_io_event list \<Rightarrow> bytes \<times> dist_io_event list \<times> dist_io_result" where
  "dist_io owned 0 src evs = ([], evs, Io_Done)"
| "dist_io owned (Suc l) src [] = ([], [], Io_Waiting)"
| "dist_io owned (Suc l) src (ev # evs) =
     (case ev of
        Cancelled \<Rightarrow> if owned then ([], evs, Io_Failed ECANCELED) else dist_io owned (Suc l) src evs
      | Poll_Intr \<Rightarrow> dist_io owned (Suc l) src evs
      | Poll_Error \<Rightarrow> ([], evs, Io_Failed EOTHER)
      | Timeout late \<Rightarrow> if late then ([], evs, Io_Failed ETIMEDOUT) else dist_io owned (Suc l) src evs
      | Io_Again \<Rightarrow> dist_io owned (Suc l) src evs
      | Io_Error \<Rightarrow> ([], evs, Io_Failed EOTHER)
      | Moved n \<Rightarrow>
          let n = min n (min (Suc l) (length src))
          in if n = 0 then ([], evs, Io_Failed ECONNRESET)
             else let (bs, evs, r) = dist_io owned (Suc l - n) (drop n src) evs
                  in (take n src @ bs, evs, r))"

lemma dist_io_moves_prefix:
  "dist_io owned len src evs = (bs, evs', r) \<Longrightarrow>
     prefix bs src \<and> length bs \<le> len \<and> (r = Io_Done \<longleftrightarrow> length bs = len)"
proof (induction owned len src evs arbitrary: bs evs' r rule: dist_io.induct)
  case (3 owned l src ev evs)
  show ?case
  proof (cases ev)
    case (Moved n)
    define k where "k = min n (min (Suc l) (length src))"
    show ?thesis
    proof (cases "k = 0")
      case True
      with Moved "3.prems" show ?thesis by (auto simp: k_def)
    next
      case False
      obtain cs where cs: "dist_io owned (Suc l - k) (drop k src) evs = (cs, evs', r)" "bs = take k src @ cs"
        using Moved "3.prems" False by (auto simp: k_def [symmetric] split: prod.splits)
      have "prefix cs (drop k src)" "length cs \<le> Suc l - k" "r = Io_Done \<longleftrightarrow> length cs = Suc l - k"
        using "3.IH"(5) [OF Moved k_def False cs(1)] by auto
      moreover have "length (take k src) = k" "k \<le> Suc l" by (auto simp: k_def)
      moreover have "prefix (take k src @ cs) src" if "prefix cs (drop k src)"
        using that by (metis append_take_drop_id same_prefix_prefix)
      ultimately show ?thesis unfolding cs(2) by auto
    qed
  qed (use 3 in \<open>auto split: if_splits\<close>)
qed auto

text \<open>A transfer that reports success moved exactly the bytes asked for.\<close>

lemma dist_io_done:
  assumes "dist_io owned len src evs = (bs, evs', Io_Done)"
  shows "bs = take len src" and "len \<le> length src"
proof -
  have "prefix bs src" "length bs = len" using dist_io_moves_prefix [OF assms] by auto
  then show "bs = take len src" "len \<le> length src"
    by (auto simp: prefix_def)
qed

section \<open>Frames\<close>

definition dist_header :: "u32 \<Rightarrow> nat \<Rightarrow> bytes" where
  "dist_header type n = dist_put DIST_MAGIC @ dist_put type @ dist_put (word_of_nat n)"

definition dist_frame :: "u32 \<Rightarrow> bytes \<Rightarrow> bytes" where
  "dist_frame type data = dist_header type (length data) @ data"

text \<open>What a send puts on the wire, and whether it succeeded.\<close>

definition dist_send :: "bool \<Rightarrow> u32 \<Rightarrow> bytes \<Rightarrow> dist_io_event list \<Rightarrow> bytes \<times> dist_io_event list \<times> dist_io_result" where
  "dist_send owned type data evs =
     (case dist_io owned 12 (dist_header type (length data)) evs of
        (hs, evs, Io_Done) \<Rightarrow>
          let (bs, evs, r) = dist_io owned (length data) data evs in (hs @ bs, evs, r)
      | (hs, evs, r) \<Rightarrow> (hs, evs, r))"

datatype dist_received =
    Recv_Transport dist_errno
  | Recv_Invalid
  | Recv_Worker bytes
  | Recv_Frame u32 bytes
  | Recv_Waiting

text \<open>
  A receive from the stream of bytes sent by the peer; the bytes consumed are dropped from it.
\<close>

definition dist_recv :: "bool \<Rightarrow> bytes \<Rightarrow> dist_io_event list \<Rightarrow> bytes \<times> dist_io_event list \<times> dist_received" where
  "dist_recv owned src evs =
     (case dist_io owned 12 src evs of
        (h, evs, Io_Failed e) \<Rightarrow> (drop (length h) src, evs, Recv_Transport e)
      | (h, evs, Io_Waiting) \<Rightarrow> (drop (length h) src, evs, Recv_Waiting)
      | (h, evs, Io_Done) \<Rightarrow>
          let src = drop 12 src; type = dist_get (drop 4 h); n = unat (dist_get (drop 8 h))
          in if dist_get h \<noteq> DIST_MAGIC \<or> n > DIST_MAX_FRAME then (src, evs, Recv_Invalid)
             else case dist_io owned n src evs of
                 (bs, evs, Io_Failed e) \<Rightarrow> (drop (length bs) src, evs, Recv_Transport e)
               | (bs, evs, Io_Waiting) \<Rightarrow> (drop (length bs) src, evs, Recv_Waiting)
               | (bs, evs, Io_Done) \<Rightarrow>
                   if type = DIST_ERROR then (drop n src, evs, Recv_Worker (take 255 bs))
                   else (drop n src, evs, Recv_Frame type bs))"

lemma length_dist_header [simp]: "length (dist_header type n) = 12"
  by (simp add: dist_header_def be32.length_put)

lemma dist_header_fields:
  assumes "n \<le> DIST_MAX_FRAME"
  shows "dist_get (dist_header type n) = DIST_MAGIC"
    and "dist_get (drop 4 (dist_header type n)) = type"
    and "unat (dist_get (drop 8 (dist_header type n))) = n"
proof -
  have drop8: "drop 8 (dist_put a @ dist_put b @ c) = c" for a b c
    by (simp add: be32.length_put)
  have "n < 2 ^ 32" using assms by (simp add: DIST_MAX_FRAME_def)
  then show "unat (dist_get (drop 8 (dist_header type n))) = n"
    unfolding dist_header_def drop8 by (simp add: codec_simps unat_word_of_nat_small)
qed (simp_all add: dist_header_def codec_simps)

lemma dist_send_done:
  assumes "dist_send owned type data evs = (wire, evs', Io_Done)"
  shows "wire = dist_frame type data"
proof -
  obtain h evs1 r1 where io1: "dist_io owned 12 (dist_header type (length data)) evs = (h, evs1, r1)"
    by (metis prod_cases3)
  then have r1: "r1 = Io_Done" using assms by (cases r1) (auto simp: dist_send_def)
  obtain bs evs2 r2 where io2: "dist_io owned (length data) data evs1 = (bs, evs2, r2)"
    by (metis prod_cases3)
  have "wire = h @ bs \<and> r2 = Io_Done" using assms io1 io2 by (simp add: dist_send_def r1)
  moreover have "h = dist_header type (length data)"
    using dist_io_done(1) [OF io1 [unfolded r1]] by simp
  ultimately show ?thesis
    using dist_io_done(1) [of owned "length data" data evs1 bs evs2] io2 by (simp add: dist_frame_def)
qed

text \<open>A frame that arrives is the one that was sent, and the stream stands after it.\<close>

lemma dist_recv_frame_at:
  assumes "length data \<le> DIST_MAX_FRAME" "type \<noteq> DIST_ERROR"
    and w: "take 12 w = dist_header type (length data)" "drop 12 w = data @ rest"
    and recv: "dist_recv owned w evs = (src, evs', r)"
  shows "r = Recv_Frame type data \<and> src = rest \<or> r = Recv_Waiting \<or> (\<exists>e. r = Recv_Transport e)"
proof -
  obtain h evs1 r1 where io1: "dist_io owned 12 w evs = (h, evs1, r1)"
    by (metis prod_cases3)
  show ?thesis
  proof (cases r1)
    case Io_Done
    then have h: "h = dist_header type (length data)"
      using dist_io_done(1) [of owned 12 w] io1 w(1) by simp
    obtain bs evs2 r2 where io2: "dist_io owned (length data) (data @ rest) evs1 = (bs, evs2, r2)"
      by (metis prod_cases3)
    have bs: "r2 = Io_Done \<Longrightarrow> bs = data"
      using dist_io_done(1) io2 by fastforce
    show ?thesis
      using recv io1 io2 Io_Done assms(1,2) w(2) bs
      by (cases r2) (auto simp: dist_recv_def h dist_header_fields [OF assms(1)] Let_def)
  qed (use recv io1 in \<open>auto simp: dist_recv_def\<close>)
qed

lemma dist_recv_frame:
  assumes "length data \<le> DIST_MAX_FRAME" "type \<noteq> DIST_ERROR"
    and "dist_recv owned (dist_frame type data @ rest) evs = (src, evs', r)"
  shows "r = Recv_Frame type data \<and> src = rest \<or> r = Recv_Waiting \<or> (\<exists>e. r = Recv_Transport e)"
  by (rule dist_recv_frame_at [OF assms(1,2) _ _ assms(3)]) (simp_all add: dist_frame_def)

text \<open>When both ends report success the receiver has the sender's frame.\<close>

lemma dist_transfer:
  assumes "length data \<le> DIST_MAX_FRAME" "type \<noteq> DIST_ERROR"
    and "dist_send so type data evs = (wire, evs', Io_Done)"
    and "dist_recv ro (wire @ rest) revs = (src, revs', Recv_Frame type' data')"
  shows "type' = type \<and> data' = data \<and> src = rest"
  using dist_recv_frame [OF assms(1,2)] assms(4) unfolding dist_send_done [OF assms(3)]
  by blast

text \<open>
  A transfer ends: once the peer offers the bytes and the kernel moves at least one of them as
  often as there are bytes to move, with no fatal event in between, the loop reports success.
\<close>

fun dist_io_benign :: "dist_io_event \<Rightarrow> bool" where
  "dist_io_benign Poll_Intr = True"
| "dist_io_benign Io_Again = True"
| "dist_io_benign (Timeout late) = (\<not> late)"
| "dist_io_benign (Moved n) = (0 < n)"
| "dist_io_benign _ = False"

fun dist_io_moves :: "dist_io_event \<Rightarrow> nat" where
  "dist_io_moves (Moved n) = 1"
| "dist_io_moves _ = 0"

lemma dist_io_completes:
  "len \<le> length src \<Longrightarrow> \<forall>ev \<in> set evs. dist_io_benign ev \<Longrightarrow> len \<le> sum_list (map dist_io_moves evs)
   \<Longrightarrow> \<exists>evs'. dist_io owned len src evs = (take len src, evs', Io_Done)"
proof (induction owned len src evs rule: dist_io.induct)
  case (3 owned l src ev evs)
  show ?case
  proof (cases ev)
    case (Moved n)
    define k where "k = min n (min (Suc l) (length src))"
    have k: "0 < k" "k \<le> Suc l" "k \<le> length src"
      using "3.prems" Moved by (auto simp: k_def)
    have "\<exists>evs'. dist_io owned (Suc l - k) (drop k src) evs = (take (Suc l - k) (drop k src), evs', Io_Done)"
      by (rule "3.IH"(5) [OF Moved k_def]) (use "3.prems" k Moved in auto)
    then obtain evs' where "dist_io owned (Suc l - k) (drop k src) evs
        = (take (Suc l - k) (drop k src), evs', Io_Done)" by blast
    moreover have "take k src @ take (Suc l - k) (drop k src) = take (Suc l) src"
      using k by (metis le_add_diff_inverse take_add)
    ultimately show ?thesis
      using k by (simp add: Moved k_def [symmetric] Let_def)
  qed (use 3 in auto)
qed auto

section \<open>Frame bodies\<close>

definition dist_put_all :: "u32 list \<Rightarrow> bytes" where
  "dist_put_all vs = concat (map dist_put vs)"

definition dist_get_all :: "nat \<Rightarrow> bytes \<Rightarrow> u32 list" where
  "dist_get_all n p = map (\<lambda>j. dist_get (drop (4 * j) p)) [0..<n]"

lemma length_dist_put_all [simp]: "length (dist_put_all vs) = 4 * length vs"
  by (simp add: dist_put_all_def be32.length_concat_put)

lemma length_dist_get_all [simp]: "length (dist_get_all n p) = n"
  by (simp add: dist_get_all_def)

lemma dist_get_all_put [simp]: "length vs = n \<Longrightarrow> dist_get_all n (dist_put_all vs @ rest) = vs"
  unfolding dist_get_all_def dist_put_all_def
  by (rule nth_equalityI) (simp_all add: be32.get_nth del: drop_append)

lemma dist_get_all_put_alone [simp]: "length vs = n \<Longrightarrow> dist_get_all n (dist_put_all vs) = vs"
  using dist_get_all_put [of vs n "[]"] by simp

text \<open>The body of a work frame: session id, position, row count, flags, tokens, hidden rows.\<close>

definition dist_work_body :: "u32 \<Rightarrow> nat \<Rightarrow> nat \<Rightarrow> u32 \<Rightarrow> int list \<Rightarrow> u32 list \<Rightarrow> bytes" where
  "dist_work_body sid pos n flags tokens rows =
     dist_put sid @ dist_put (word_of_nat pos) @ dist_put (word_of_nat n) @ dist_put flags @
     dist_put_all (map word_of_int tokens) @ dist_put_all rows"

lemma length_dist_work_body [simp]:
  "length (dist_work_body sid pos n flags tokens rows) = 16 + 4 * length tokens + 4 * length rows"
  by (simp add: dist_work_body_def be32.length_put)

text \<open>The body of a result frame: session id, position reached, rows.\<close>

definition dist_worker_result :: "u32 \<Rightarrow> nat \<Rightarrow> u32 list \<Rightarrow> bytes" where
  "dist_worker_result sid pos rows = dist_put sid @ dist_put (word_of_nat pos) @ dist_put_all rows"

lemma length_dist_worker_result [simp]: "length (dist_worker_result sid pos rows) = 8 + 4 * length rows"
  by (simp add: dist_worker_result_def be32.length_put)

lemma drop_dist_put [simp]:
  "drop 4 (dist_put a @ p) = p" "drop 8 (dist_put a @ p) = drop 4 p" "drop 12 (dist_put a @ p) = drop 8 p"
  "drop 16 (dist_put a @ p) = drop 12 p"
  by (simp_all add: be32.length_put)

lemma dist_put_neq_Nil [simp]: "drop 4 (dist_put a) = []"
  by (simp add: be32.length_put)

lemma dist_work_fields:
  "dist_get (dist_work_body sid pos n flags tokens rows) = sid"
  "dist_get (drop 4 (dist_work_body sid pos n flags tokens rows)) = word_of_nat pos"
  "dist_get (drop 8 (dist_work_body sid pos n flags tokens rows)) = word_of_nat n"
  "dist_get (drop 12 (dist_work_body sid pos n flags tokens rows)) = flags"
  "length tokens = k \<Longrightarrow> dist_get_all k (drop 16 (dist_work_body sid pos n flags tokens rows)) = map word_of_int tokens"
  "length tokens = k \<Longrightarrow> drop (16 + 4 * k) (dist_work_body sid pos n flags tokens rows) = dist_put_all rows"
proof -
  have *: "drop 16 (dist_work_body sid pos n flags tokens rows)
      = dist_put_all (map word_of_int tokens) @ dist_put_all rows"
    by (simp add: dist_work_body_def del: drop_append)
  show "length tokens = k \<Longrightarrow> dist_get_all k (drop 16 (dist_work_body sid pos n flags tokens rows)) = map word_of_int tokens"
    unfolding * by simp
  show "length tokens = k \<Longrightarrow> drop (16 + 4 * k) (dist_work_body sid pos n flags tokens rows) = dist_put_all rows"
    unfolding add.commute [of 16] drop_drop [symmetric] * by simp
qed (simp_all add: dist_work_body_def codec_simps del: drop_append)

lemma dist_result_fields:
  "dist_get (dist_worker_result sid pos rows) = sid"
  "dist_get (drop 4 (dist_worker_result sid pos rows)) = word_of_nat pos"
  "length rows = k \<Longrightarrow> dist_get_all k (drop 8 (dist_worker_result sid pos rows)) = rows"
  by (simp_all add: dist_worker_result_def codec_simps del: drop_append)

section \<open>The hello exchange\<close>

datatype q36_distributed_role = Q36_DISTRIBUTED_NONE | Q36_DISTRIBUTED_COORDINATOR | Q36_DISTRIBUTED_WORKER

record q36_dist_model_info =
  mi_n_layers :: u32
  mi_n_embd :: u32
  mi_n_vocab :: u32
  mi_prefill_cap :: u32
  mi_context_size :: u32
  mi_layer_start :: u32
  mi_layer_end :: u32
  mi_speculation :: bool
  mi_mtp :: bool
  mi_fingerprint :: u64

definition dist_hello_words :: "q36_dist_model_info \<Rightarrow> u32 list" where
  "dist_hello_words i =
     [DIST_VERSION, mi_n_layers i, mi_n_embd i, mi_n_vocab i, mi_layer_start i, mi_layer_end i,
      mi_context_size i, mi_prefill_cap i, ucast (drop_bit 32 (mi_fingerprint i)),
      ucast (mi_fingerprint i), of_bool (mi_speculation i), of_bool (mi_mtp i)]"

datatype dist_hello_error = Hello_Frame | Hello_Mismatch | Hello_Layers | Hello_Mtp

text \<open>The checks on the peer's hello frame, in the code's order; the peer's record on success.\<close>

definition dist_hello_check ::
  "q36_dist_model_info \<Rightarrow> q36_distributed_role \<Rightarrow> u32 \<Rightarrow> bytes \<Rightarrow> dist_hello_error + q36_dist_model_info" where
  "dist_hello_check i role type data =
     (if type \<noteq> DIST_HELLO \<or> length data \<noteq> 48 then Inl Hello_Frame
      else
        let words = dist_hello_words i; peer = dist_get_all 12 data;
            coordinator = (role = Q36_DISTRIBUTED_COORDINATOR)
        in if peer ! 0 \<noteq> DIST_VERSION \<or> peer ! 1 \<noteq> mi_n_layers i \<or> peer ! 2 \<noteq> mi_n_embd i \<or>
              peer ! 3 \<noteq> mi_n_vocab i \<or> peer ! 8 \<noteq> words ! 8 \<or> peer ! 9 \<noteq> words ! 9 \<or>
              peer ! 6 = 0 \<or> unat (peer ! 6) > Q36_CONTEXT_ALLOC_MAX \<or> peer ! 7 = 0 \<or> peer ! 7 > 8192 \<or>
              peer ! 10 > 1 \<or> peer ! 11 > 1
           then Inl Hello_Mismatch
           else if coordinator \<and> (peer ! 4 \<noteq> mi_layer_end i + 1 \<or> peer ! 5 + 1 \<noteq> mi_n_layers i) \<or>
                   \<not> coordinator \<and> (peer ! 4 \<noteq> 0 \<or> peer ! 5 + 1 \<noteq> mi_layer_start i)
           then Inl Hello_Layers
           else if coordinator \<and> peer ! 11 \<noteq> 0 \<or>
                   (mi_mtp i \<or> peer ! 11 \<noteq> 0) \<and> (\<not> mi_speculation i \<or> peer ! 10 = 0)
           then Inl Hello_Mtp
           else Inr \<lparr> mi_n_layers = peer ! 1, mi_n_embd = peer ! 2, mi_n_vocab = peer ! 3,
                      mi_prefill_cap = peer ! 7, mi_context_size = peer ! 6,
                      mi_layer_start = peer ! 4, mi_layer_end = peer ! 5,
                      mi_speculation = (peer ! 10 \<noteq> 0), mi_mtp = (peer ! 11 \<noteq> 0), mi_fingerprint = 0 \<rparr>)"

text \<open>
  The exchange: the return code (2 is a transport error) and the peer's record.  \<open>sent\<close> is the
  result of the send, \<open>polled\<close> of the worker's unbounded wait, \<open>received\<close> of the receive.
\<close>

definition dist_hello ::
  "q36_dist_model_info \<Rightarrow> q36_distributed_role \<Rightarrow> bool \<Rightarrow> bool \<Rightarrow> dist_received \<Rightarrow> nat \<times> q36_dist_model_info option" where
  "dist_hello i role sent polled received =
     (if \<not> sent then (2, None)
      else if role = Q36_DISTRIBUTED_WORKER \<and> \<not> polled then (2, None)
      else case received of
          Recv_Transport e \<Rightarrow> (2, None)
        | Recv_Waiting \<Rightarrow> (2, None)
        | Recv_Invalid \<Rightarrow> (1, None)
        | Recv_Worker m \<Rightarrow> (1, None)
        | Recv_Frame type data \<Rightarrow>
            (case dist_hello_check i role type data of
               Inl e \<Rightarrow> (1, None)
             | Inr peer \<Rightarrow> (0, Some peer)))"

lemma dist_hello_words_length [simp]: "length (dist_hello_words i) = 12"
  by (simp add: dist_hello_words_def)

lemma dist_hello_words_nth:
  "dist_hello_words i ! 0 = DIST_VERSION" "dist_hello_words i ! Suc 0 = mi_n_layers i"
  "dist_hello_words i ! 2 = mi_n_embd i" "dist_hello_words i ! 3 = mi_n_vocab i"
  "dist_hello_words i ! 4 = mi_layer_start i" "dist_hello_words i ! 5 = mi_layer_end i"
  "dist_hello_words i ! 6 = mi_context_size i" "dist_hello_words i ! 7 = mi_prefill_cap i"
  "dist_hello_words i ! 8 = ucast (drop_bit 32 (mi_fingerprint i))"
  "dist_hello_words i ! 9 = ucast (mi_fingerprint i)"
  "dist_hello_words i ! 10 = of_bool (mi_speculation i)" "dist_hello_words i ! 11 = of_bool (mi_mtp i)"
  by (simp_all add: dist_hello_words_def)

text \<open>The fingerprint travels as its two halves and is determined by them.\<close>

lemma fingerprint_halves:
  fixes a b :: u64
  assumes "(ucast (drop_bit 32 a) :: u32) = ucast (drop_bit 32 b)" and "(ucast a :: u32) = ucast b"
  shows "a = b"
proof (rule bit_word_eqI)
  fix n assume n: "n < LENGTH(64)"
  show "bit a n = bit b n"
  proof (cases "n < 32")
    case True
    then show ?thesis
      using arg_cong [OF assms(2), of "\<lambda>w. bit w n"] by (simp add: bit_ucast_iff)
  next
    case False
    then have "n - 32 < 32" using n by simp
    then show ?thesis
      using False n arg_cong [OF assms(1), of "\<lambda>w. bit w (n - 32)"]
      by (simp add: bit_ucast_iff bit_drop_bit_eq)
  qed
qed

lemma dist_hello_accepts:
  assumes "dist_hello_check i role DIST_HELLO (dist_put_all (dist_hello_words w)) = Inr p"
  shows "mi_n_layers w = mi_n_layers i" "mi_n_embd w = mi_n_embd i" "mi_n_vocab w = mi_n_vocab i"
    "mi_fingerprint w = mi_fingerprint i"
    "p = w\<lparr>mi_fingerprint := 0\<rparr>"
    "0 < unat (mi_context_size w)" "unat (mi_context_size w) \<le> Q36_CONTEXT_ALLOC_MAX"
    "0 < unat (mi_prefill_cap w)" "unat (mi_prefill_cap w) \<le> 8192"
    "role = Q36_DISTRIBUTED_COORDINATOR \<Longrightarrow> mi_layer_start w = mi_layer_end i + 1 \<and>
       mi_layer_end w + 1 = mi_n_layers i \<and> \<not> mi_mtp w"
    "role \<noteq> Q36_DISTRIBUTED_COORDINATOR \<Longrightarrow> mi_layer_start w = 0 \<and> mi_layer_end w + 1 = mi_layer_start i"
    "mi_mtp i \<or> mi_mtp w \<Longrightarrow> mi_speculation i \<and> mi_speculation w"
proof -
  note * = assms [unfolded dist_hello_check_def, simplified Let_def dist_hello_words_nth
      length_dist_put_all dist_hello_words_length dist_get_all_put_alone]
  show "mi_fingerprint w = mi_fingerprint i"
    by (rule fingerprint_halves) (use * in \<open>auto simp: dist_hello_words_nth split: if_splits\<close>)
  show "0 < unat (mi_context_size w)" "0 < unat (mi_prefill_cap w)"
    using * by (auto simp: dist_hello_words_nth unat_gt_0 split: if_splits)
  show "unat (mi_prefill_cap w) \<le> 8192"
    using * by (auto simp: dist_hello_words_nth word_le_nat_alt not_less split: if_splits)
qed (use assms in \<open>auto simp: dist_hello_check_def Let_def dist_hello_words_nth split: if_splits\<close>)

end
