(* ===== verification/Dist_Cli.thy ===== *)
theory Dist_Cli
  imports Dist_Wire
begin

text \<open>
  The options of the pipeline (\<^verbatim>\<open>q36_distributed_options\<close>): their command-line parser
  (\<^verbatim>\<open>dist_u32\<close>, \<^verbatim>\<open>q36_dist_parse_cli_arg\<close>) and the check before the engine opens
  (\<^verbatim>\<open>q36_dist_prepare_engine_options\<close>).  Error texts are left out.
\<close>

record q36_distributed_layers =
  la_start :: nat
  la_end :: nat
  la_has_output :: bool
  la_set :: bool

record q36_distributed_options =
  do_role :: q36_distributed_role
  do_layers :: q36_distributed_layers
  do_listen_host :: "bytes option"
  do_listen_port :: nat
  do_coordinator_host :: "bytes option"
  do_coordinator_port :: nat
  do_prefill_chunk :: nat
  do_prefill_window :: nat
  do_debug :: bool

definition dist_options_zero :: q36_distributed_options where
  "dist_options_zero = \<lparr> do_role = Q36_DISTRIBUTED_NONE,
     do_layers = \<lparr> la_start = 0, la_end = 0, la_has_output = False, la_set = False \<rparr>,
     do_listen_host = None, do_listen_port = 0, do_coordinator_host = None, do_coordinator_port = 0,
     do_prefill_chunk = 0, do_prefill_window = 0, do_debug = False \<rparr>"

definition q36_dist_enabled :: "q36_distributed_options \<Rightarrow> bool" where
  "q36_dist_enabled opt \<longleftrightarrow> do_role opt \<noteq> Q36_DISTRIBUTED_NONE"

section \<open>Decimal numbers\<close>

text \<open>The accumulator stays below \<open>2^32\<close>, so it never wraps in its 64 bits.\<close>

fun dist_u32_from :: "nat \<Rightarrow> bytes \<Rightarrow> nat option" where
  "dist_u32_from n [] = Some n"
| "dist_u32_from n (c # p) =
     (if c < 48 \<or> c > 57 then None
      else let n = n * 10 + unat (c - 48)
           in if n > 4294967295 then None else dist_u32_from n p)"

definition dist_u32 :: "bytes \<Rightarrow> nat option" where
  "dist_u32 t = (if t = [] then None else dist_u32_from 0 t)"

section \<open>The parser of one argument\<close>

datatype q36_dist_cli_parse_result = Q36_DIST_CLI_ERROR | Q36_DIST_CLI_NOT_MATCHED | Q36_DIST_CLI_MATCHED

definition parse_role :: "bytes \<Rightarrow> q36_distributed_options \<Rightarrow> bool \<times> q36_distributed_options" where
  "parse_role v opt =
     (if do_role opt \<noteq> Q36_DISTRIBUTED_NONE then (False, opt)
      else if v = str ''coordinator'' then (True, opt\<lparr>do_role := Q36_DISTRIBUTED_COORDINATOR\<rparr>)
      else if v = str ''worker'' then (True, opt\<lparr>do_role := Q36_DISTRIBUTED_WORKER\<rparr>)
      else (False, opt))"

definition parse_layers :: "bytes \<Rightarrow> q36_distributed_options \<Rightarrow> bool \<times> q36_distributed_options" where
  "parse_layers v opt =
     (let start = takeWhile (\<lambda>c. c \<noteq> 58) v; colon = dropWhile (\<lambda>c. c \<noteq> 58) v; l = do_layers opt
      in if colon = [] \<or> start = [] \<or> length start \<ge> 16 \<or> la_set l then (False, opt)
         else case dist_u32 start of
             None \<Rightarrow> (False, opt)
           | Some a \<Rightarrow>
               let l = l\<lparr>la_start := a, la_has_output := (tl colon = str ''output'')\<rparr>
               in if la_has_output l then (True, opt\<lparr>do_layers := l\<lparr>la_set := True\<rparr>\<rparr>)
                  else case dist_u32 (tl colon) of
                      None \<Rightarrow> (False, opt\<lparr>do_layers := l\<rparr>)
                    | Some b \<Rightarrow>
                        if b < a then (False, opt\<lparr>do_layers := l\<lparr>la_end := b\<rparr>\<rparr>)
                        else (True, opt\<lparr>do_layers := l\<lparr>la_end := b, la_set := True\<rparr>\<rparr>))"

text \<open>A port and its host; \<open>index\<close> already stands on the host.\<close>

definition parse_endpoint :: "bool \<Rightarrow> bytes \<Rightarrow> bytes \<Rightarrow> q36_distributed_options \<Rightarrow> bool \<times> q36_distributed_options" where
  "parse_endpoint listen host port opt =
     (case (if host = [] then None else dist_u32 port) of
        None \<Rightarrow> (False, opt)
      | Some n \<Rightarrow>
          if n = 0 \<or> n > 65535 then (False, opt)
          else if listen then
            (if do_listen_host opt \<noteq> None then (False, opt)
             else (True, opt\<lparr>do_listen_host := Some host, do_listen_port := n\<rparr>))
          else if do_coordinator_host opt \<noteq> None then (False, opt)
          else (True, opt\<lparr>do_coordinator_host := Some host, do_coordinator_port := n\<rparr>))"

definition parse_prefill :: "bool \<Rightarrow> bytes \<Rightarrow> q36_distributed_options \<Rightarrow> bool \<times> q36_distributed_options" where
  "parse_prefill window v opt =
     (case dist_u32 v of
        None \<Rightarrow> (False, opt)
      | Some n \<Rightarrow>
          if n = 0 \<or> n > (if window then 64 else 8192) then (False, opt)
          else if window then (True, opt\<lparr>do_prefill_window := n\<rparr>)
          else (True, opt\<lparr>do_prefill_chunk := n\<rparr>))"

text \<open>
  \<open>index\<close> is the position of \<open>arg\<close> in \<open>argv\<close>; the position of the last value consumed is returned.
\<close>

definition q36_dist_parse_cli_arg ::
  "bytes \<Rightarrow> nat \<Rightarrow> bytes list \<Rightarrow> q36_distributed_options \<Rightarrow> q36_dist_cli_parse_result \<times> nat \<times> q36_distributed_options" where
  "q36_dist_parse_cli_arg arg index argv opt =
     (let role = (arg = str ''--role''); layers = (arg = str ''--layers'');
          listen = (arg = str ''--listen''); coord = (arg = str ''--coordinator'');
          chunk = (arg = str ''--dist-prefill-chunk''); window = (arg = str ''--dist-prefill-window'');
          needed = (if listen \<or> coord then 2 else 1);
          result = (\<lambda>i (ok, opt). (if ok then Q36_DIST_CLI_MATCHED else Q36_DIST_CLI_ERROR, i, opt))
      in if arg = str ''--debug'' then (Q36_DIST_CLI_MATCHED, index, opt\<lparr>do_debug := True\<rparr>)
         else if \<not> role \<and> \<not> layers \<and> \<not> listen \<and> \<not> coord \<and> \<not> chunk \<and> \<not> window
         then (Q36_DIST_CLI_NOT_MATCHED, index, opt)
         else if index + needed \<ge> length argv then (Q36_DIST_CLI_ERROR, index, opt)
         else
           let i = index + 1; v = argv ! i
           in if role then result i (parse_role v opt)
              else if layers then result i (parse_layers v opt)
              else if listen \<or> coord then
                result (if v = [] then i else i + 1) (parse_endpoint listen v (argv ! (i + 1)) opt)
              else result i (parse_prefill window v opt))"

section \<open>The check of the whole set of options\<close>

text \<open>\<open>None\<close> refuses the options; \<open>Some\<close> holds what the engine gets (its old options without a role).\<close>

definition q36_dist_prepare_engine_options ::
  "q36_distributed_options \<Rightarrow> q36_distributed_options \<Rightarrow> q36_distributed_options option" where
  "q36_dist_prepare_engine_options opt engine =
     (if \<not> q36_dist_enabled opt then
        (if la_set (do_layers opt) \<or> do_listen_host opt \<noteq> None \<or> do_coordinator_host opt \<noteq> None \<or>
            do_prefill_chunk opt \<noteq> 0 \<or> do_prefill_window opt \<noteq> 0
         then None else Some engine)
      else if \<not> la_set (do_layers opt) \<or>
              (do_role opt \<noteq> Q36_DISTRIBUTED_COORDINATOR \<and> do_role opt \<noteq> Q36_DISTRIBUTED_WORKER) \<or>
              do_prefill_window opt > 64 \<or> do_prefill_chunk opt > 8192 then None
      else if do_role opt = Q36_DISTRIBUTED_COORDINATOR then
        (if do_listen_host opt = None \<or> do_listen_port opt < 1 \<or> do_listen_port opt > 65535 \<or>
            do_coordinator_host opt \<noteq> None \<or> la_start (do_layers opt) \<noteq> 0 \<or> la_has_output (do_layers opt)
         then None else Some opt)
      else if do_coordinator_host opt = None \<or> do_coordinator_port opt < 1 \<or> do_coordinator_port opt > 65535 \<or>
              do_listen_host opt \<noteq> None \<or> la_start (do_layers opt) = 0 \<or> \<not> la_has_output (do_layers opt) \<or>
              do_prefill_chunk opt \<noteq> 0 \<or> do_prefill_window opt \<noteq> 0
      then None else Some opt)"

text \<open>The layers a stage runs, and the ranges an engine opens with (\<^verbatim>\<open>q36_engine_open\<close>).\<close>

definition q36_engine_layers :: "q36_distributed_options \<Rightarrow> nat \<Rightarrow> (nat \<times> nat) option" where
  "q36_engine_layers opt n_layer =
     (if \<not> q36_dist_enabled opt then Some (0, n_layer - 1)
      else let a = la_start (do_layers opt);
               b = (if la_has_output (do_layers opt) then n_layer - 1 else la_end (do_layers opt))
           in if a > b \<or> b \<ge> n_layer \<or>
                 (do_role opt = Q36_DISTRIBUTED_COORDINATOR \<and>
                    (a \<noteq> 0 \<or> la_has_output (do_layers opt) \<or> b + 1 \<ge> n_layer)) \<or>
                 (do_role opt = Q36_DISTRIBUTED_WORKER \<and> (a = 0 \<or> \<not> la_has_output (do_layers opt)))
              then None else Some (a, b))"

section \<open>Facts\<close>

lemma dist_u32_from_Cons:
  "dist_u32_from n (c # p) =
     (if \<not> isdigit c then None else if dec_step n c > 4294967295 then None else dist_u32_from (dec_step n c) p)"
  by (auto simp: isdigit_def dec_step_def Let_def not_less not_le)

lemma dist_u32_from_value:
  "dist_u32_from n t = Some v \<longleftrightarrow>
     list_all isdigit t \<and> foldl dec_step n t = v \<and> (t \<noteq> [] \<longrightarrow> v \<le> 4294967295)"
proof (induction t arbitrary: n)
  case (Cons c t)
  show ?case
    using Cons.IH [of "dec_step n c"] dec_step_ge [of "dec_step n c" t]
    by (auto simp del: dist_u32_from.simps simp add: dist_u32_from_Cons dist_u32_from.simps(1))
qed simp

lemma parse_layers_set:
  "parse_layers v opt = (True, opt') \<Longrightarrow>
     la_set (do_layers opt') \<and> (\<not> la_has_output (do_layers opt') \<longrightarrow>
       la_start (do_layers opt') \<le> la_end (do_layers opt'))"
  by (auto simp: parse_layers_def Let_def split: if_splits option.splits)

end
