(* ===== verification/Dist_Slice.thy ===== *)
theory Dist_Slice
  imports Dist_Wire
begin

text \<open>
  The layer-slice operations a pipeline stage runs on its session (end of \<^verbatim>\<open>q36.c\<close>): each stage
  keeps its own position (\<open>slice_pos\<close>) and, while MTP candidates are verified, the saved frontier
  (\<open>slice_spec_pos\<close>) and the number of candidates run past it.  The numeric state (attention and
  recurrent caches) has an abstract type; the forward pass, the snapshot and the replay of the
  recurrent frontier are functions on it, each saying whether it succeeded.
\<close>

definition Q36_MTP_VERIFY_MAX :: nat where "Q36_MTP_VERIFY_MAX = Q36_DIST_VERIFY_MAX"

record 'k slice_engine =
  se_layer_start :: nat
  se_layer_end :: nat
  se_n_layer :: nat
  se_n_vocab :: nat
  se_vulkan :: bool
  se_vulkan_runtime :: bool
  se_ssd_streaming :: bool
  se_mtp_ready :: bool
  se_prefill_cap :: nat
  se_create :: "nat \<Rightarrow> 'k option"
  se_reset :: "'k \<Rightarrow> 'k"
  se_reserve :: "'k \<Rightarrow> nat \<Rightarrow> nat \<Rightarrow> bool \<times> 'k"
  se_forward :: "'k \<Rightarrow> int list \<Rightarrow> u32 list option \<Rightarrow> nat \<Rightarrow> 'k \<times> u32 list option"
  se_final_hidden :: "'k \<Rightarrow> nat \<Rightarrow> u32 list option"
  se_final_rows :: "'k \<Rightarrow> nat \<Rightarrow> u32 list option"
  se_snapshot :: "'k \<Rightarrow> bool \<times> 'k"
  se_replay :: "'k \<Rightarrow> nat \<Rightarrow> bool \<times> 'k"

record 'k slice_session =
  sl_ctx :: nat
  sl_pos :: nat
  sl_spec_active :: bool
  sl_spec_pos :: nat
  sl_spec_n :: nat
  sl_kv :: 'k

section \<open>The operations\<close>

definition slice_create :: "'k slice_engine \<Rightarrow> nat \<Rightarrow> 'k slice_session option" where
  "slice_create e ctx =
     (if ctx = 0 \<or> ctx > Q36_CONTEXT_ALLOC_MAX then None
      else case se_create e ctx of None \<Rightarrow> None
        | Some k \<Rightarrow> Some \<lparr> sl_ctx = ctx, sl_pos = 0, sl_spec_active = False, sl_spec_pos = 0,
                           sl_spec_n = 0, sl_kv = se_reset e k \<rparr>)"

definition q36_session_layer_slice_reset :: "'k slice_engine \<Rightarrow> 'k slice_session \<Rightarrow> 'k slice_session" where
  "q36_session_layer_slice_reset e s =
     s\<lparr>sl_pos := 0, sl_spec_active := False, sl_spec_n := 0, sl_kv := se_reset e (sl_kv s)\<rparr>"

text \<open>
  Evaluation of a slice: the session afterwards and, on success, the rows it produced.  Logits are
  not asked for by the pipeline (\<open>output_logits\<close> is false in every call).
\<close>

definition q36_session_eval_layer_slice ::
  "'k slice_engine \<Rightarrow> 'k slice_session \<Rightarrow> int list \<Rightarrow> nat \<Rightarrow> nat \<Rightarrow> nat \<Rightarrow> u32 list option
   \<Rightarrow> 'k slice_session \<times> u32 list option" where
  "q36_session_eval_layer_slice e s tokens pos0 layer_start layer_end input =
     (let n = length tokens in
      if n = 0 \<or> layer_start \<noteq> se_layer_start e \<or> layer_end \<noteq> se_layer_end e \<or> pos0 \<noteq> sl_pos s \<or>
         pos0 > sl_ctx s \<or> n > sl_ctx s - pos0 \<or> (layer_start \<noteq> 0 \<and> input = None) \<or>
         \<not> list_all (\<lambda>t. 0 \<le> t \<and> t < int (se_n_vocab e)) tokens
      then (s, None)
      else
        let (ok, k) = se_reserve e (sl_kv s) (pos0 + n) pos0; s = s\<lparr>sl_kv := k\<rparr>
        in if \<not> ok then (s, None)
           else if se_vulkan_runtime e \<and> sl_spec_active s \<and> (n \<noteq> 1 \<or> sl_spec_n s \<ge> Q36_MTP_VERIFY_MAX)
           then (s, None)
           else case se_forward e (sl_kv s) tokens input pos0 of
               (k, None) \<Rightarrow> (s\<lparr>sl_kv := k\<rparr>, None)
             | (k, Some rows) \<Rightarrow>
                 (s\<lparr>sl_kv := k, sl_pos := sl_pos s + n,
                    sl_spec_n := (if sl_spec_active s then sl_spec_n s + n else sl_spec_n s)\<rparr>, Some rows))"

definition q36_session_read_final_hidden :: "'k slice_engine \<Rightarrow> 'k slice_session \<Rightarrow> nat \<Rightarrow> u32 list option" where
  "q36_session_read_final_hidden e s n =
     (if n = 0 \<or> se_layer_end e + 1 \<noteq> se_n_layer e \<or> n > se_prefill_cap e then None
      else se_final_hidden e (sl_kv s) n)"

definition q36_session_read_final_rows :: "'k slice_engine \<Rightarrow> 'k slice_session \<Rightarrow> nat \<Rightarrow> u32 list option" where
  "q36_session_read_final_rows e s n =
     (if n \<noteq> 0 \<and> se_vulkan_runtime e \<and> se_layer_end e + 1 = se_n_layer e \<and> n \<le> se_prefill_cap e
      then se_final_rows e (sl_kv s) n else None)"

definition q36_session_pipeline_spec_begin :: "'k slice_engine \<Rightarrow> 'k slice_session \<Rightarrow> bool \<times> 'k slice_session" where
  "q36_session_pipeline_spec_begin e s =
     (if sl_spec_active s \<or> \<not> se_vulkan e \<or> se_ssd_streaming e then (False, s)
      else let (ok, k) = se_snapshot e (sl_kv s); s = s\<lparr>sl_kv := k\<rparr>
           in if \<not> ok then (False, s)
              else (True, s\<lparr>sl_spec_pos := sl_pos s, sl_spec_n := 0, sl_spec_active := True\<rparr>))"

definition q36_session_pipeline_spec_commit ::
  "'k slice_engine \<Rightarrow> 'k slice_session \<Rightarrow> nat \<Rightarrow> bool \<times> 'k slice_session" where
  "q36_session_pipeline_spec_commit e s count =
     (if \<not> sl_spec_active s \<or> count = 0 \<or> count > sl_spec_n s then (False, s)
      else let (ok, k) = if count < sl_spec_n s then se_replay e (sl_kv s) count else (True, sl_kv s);
               s = s\<lparr>sl_kv := k\<rparr>
           in if \<not> ok then (False, s)
              else (True, s\<lparr>sl_pos := sl_spec_pos s + count, sl_spec_active := False, sl_spec_n := 0\<rparr>))"

section \<open>Their invariant\<close>

text \<open>
  A stage never runs past its context, and while candidates are being verified its position is the
  saved frontier plus the number of candidates run.
\<close>

definition slice_ok :: "'k slice_session \<Rightarrow> bool" where
  "slice_ok s \<longleftrightarrow> sl_ctx s \<le> Q36_CONTEXT_ALLOC_MAX \<and> sl_pos s \<le> sl_ctx s \<and>
     (sl_spec_active s \<longrightarrow> sl_pos s = sl_spec_pos s + sl_spec_n s)"

lemma slice_create_ok: "slice_create e ctx = Some s \<Longrightarrow> slice_ok s \<and> sl_ctx s = ctx \<and> sl_pos s = 0"
  by (auto simp: slice_create_def slice_ok_def split: if_splits option.splits)

lemma slice_reset_ok: "slice_ok s \<Longrightarrow> slice_ok (q36_session_layer_slice_reset e s)"
  by (simp add: slice_ok_def q36_session_layer_slice_reset_def)

lemma slice_eval_ok:
  assumes "slice_ok s" and ev: "q36_session_eval_layer_slice e s tokens pos0 a b input = (s', r)"
  shows "slice_ok s' \<and> sl_ctx s' = sl_ctx s \<and> sl_spec_active s' = sl_spec_active s \<and>
     sl_spec_pos s' = sl_spec_pos s \<and>
     (case r of None \<Rightarrow> sl_pos s' = sl_pos s
      | Some rows \<Rightarrow> pos0 = sl_pos s \<and> sl_pos s' = sl_pos s + length tokens \<and> tokens \<noteq> [])"
  using assms by (auto simp: q36_session_eval_layer_slice_def slice_ok_def Let_def
      split: if_splits prod.splits option.splits)

lemma slice_begin_ok:
  assumes "slice_ok s" "q36_session_pipeline_spec_begin e s = (ok, s')"
  shows "slice_ok s' \<and> sl_ctx s' = sl_ctx s \<and> sl_pos s' = sl_pos s \<and>
    (ok \<longrightarrow> sl_spec_active s' \<and> sl_spec_pos s' = sl_pos s \<and> sl_spec_n s' = 0) \<and>
    (\<not> ok \<longrightarrow> sl_spec_active s' = sl_spec_active s \<and> sl_spec_pos s' = sl_spec_pos s)"
  using assms by (auto simp: q36_session_pipeline_spec_begin_def slice_ok_def Let_def
      split: if_splits prod.splits)

lemma slice_commit_ok:
  assumes "slice_ok s" "q36_session_pipeline_spec_commit e s count = (ok, s')"
  shows "slice_ok s' \<and> sl_ctx s' = sl_ctx s \<and>
    (ok \<longrightarrow> 0 < count \<and> count \<le> sl_spec_n s \<and> \<not> sl_spec_active s' \<and> sl_pos s' = sl_spec_pos s + count) \<and>
    (\<not> ok \<longrightarrow> sl_spec_active s' = sl_spec_active s \<and> sl_spec_pos s' = sl_spec_pos s)"
  using assms by (auto simp: q36_session_pipeline_spec_commit_def slice_ok_def Let_def
      split: if_splits prod.splits)

end
