(* ===== verification/Dist_Worker.thy ===== *)
theory Dist_Worker
  imports Dist_Slice
begin

text \<open>
  The worker of the pipeline (\<^verbatim>\<open>dist_worker_loop\<close> in \<^verbatim>\<open>q36_distributed.c\<close>): its list of sessions
  and the handling of one frame.  A frame that is refused ends the connection; the answer is then
  an error.  Allocation failures are left out.
\<close>

record 'k dist_worker_session =
  ws_id :: u32
  ws_ctx :: nat
  ws_spec_pos :: nat
  ws_spec :: bool
  ws_session :: "'k slice_session"

record 'k dist_stage =
  dw_info :: q36_dist_model_info
  dw_peer :: q36_dist_model_info
  dw_engine :: "'k slice_engine"

datatype dist_worker_error =
    Missing_Id | Context_Exceeded | Create_Failed | Work_Shape | Stage_Failed | Invalid_Operation

section \<open>The session list\<close>

fun ws_find :: "u32 \<Rightarrow> 'k dist_worker_session list \<Rightarrow> 'k dist_worker_session option" where
  "ws_find sid [] = None"
| "ws_find sid (s # ss) = (if ws_id s = sid then Some s else ws_find sid ss)"

fun ws_unlink :: "u32 \<Rightarrow> 'k dist_worker_session list \<Rightarrow> 'k dist_worker_session list" where
  "ws_unlink sid [] = []"
| "ws_unlink sid (s # ss) = (if ws_id s = sid then ss else s # ws_unlink sid ss)"

fun ws_put :: "'k dist_worker_session \<Rightarrow> 'k dist_worker_session list \<Rightarrow> 'k dist_worker_session list" where
  "ws_put t [] = []"
| "ws_put t (s # ss) = (if ws_id s = ws_id t then t # ss else s # ws_put t ss)"

section \<open>The handlers\<close>

definition has_flag :: "u32 \<Rightarrow> u32 \<Rightarrow> bool" where
  "has_flag flags f \<longleftrightarrow> flags AND f \<noteq> 0"

text \<open>The conditions under which a work frame is refused.\<close>

definition dist_work_bad ::
  "'k dist_stage \<Rightarrow> 'k dist_worker_session \<Rightarrow> nat \<Rightarrow> nat \<Rightarrow> nat \<Rightarrow> u32 \<Rightarrow> bool" where
  "dist_work_bad d s bytes pos n flags \<longleftrightarrow>
     n = 0 \<or> n > unat (mi_prefill_cap (dw_info d)) \<or>
     16 + n * (1 + unat (mi_n_embd (dw_info d))) * 4 \<noteq> bytes \<or>
     pos > ws_ctx s \<or> n > ws_ctx s - pos \<or>
     flags AND NOT (DIST_RESET OR DIST_LOGITS OR DIST_ROWS OR DIST_SPEC OR DIST_BEGIN) \<noteq> 0 \<or>
     (has_flag flags DIST_RESET \<and> pos \<noteq> 0) \<or>
     (has_flag flags DIST_ROWS \<and> \<not> mi_mtp (dw_peer d)) \<or>
     (has_flag flags DIST_BEGIN \<and> (\<not> has_flag flags DIST_SPEC \<or> ws_spec s \<or> pos = 0)) \<or>
     (has_flag flags DIST_SPEC \<and>
        (\<not> mi_mtp (dw_peer d) \<or> \<not> mi_speculation (dw_info d) \<or> n \<noteq> 1 \<or> \<not> has_flag flags DIST_ROWS \<or>
         has_flag flags DIST_RESET \<or> (\<not> has_flag flags DIST_BEGIN \<and> \<not> ws_spec s))) \<or>
     (ws_spec s \<and> \<not> has_flag flags DIST_SPEC)"

definition dist_worker_work ::
  "'k dist_stage \<Rightarrow> 'k dist_worker_session \<Rightarrow> bytes \<Rightarrow> 'k dist_worker_session \<times> (dist_worker_error + bytes)" where
  "dist_worker_work d s data =
     (let pos = unat (dist_get (drop 4 data)); n = unat (dist_get (drop 8 data)); flags = dist_get (drop 12 data);
          n_embd = unat (mi_n_embd (dw_info d)); e = dw_engine d
      in if dist_work_bad d s (length data) pos n flags then (s, Inl Work_Shape)
         else
           let returned = (if has_flag flags DIST_ROWS then n else if has_flag flags DIST_LOGITS then 1 else 0);
               tokens = map sint (dist_get_all n (drop 16 data));
               hidden = dist_get_all (n * n_embd) (drop (16 + 4 * n) data);
               s = (if has_flag flags DIST_RESET
                    then s\<lparr>ws_session := q36_session_layer_slice_reset e (ws_session s)\<rparr> else s);
               (ok, s) = (if has_flag flags DIST_BEGIN
                    then case q36_session_pipeline_spec_begin e (ws_session s) of
                        (True, t) \<Rightarrow> (True, s\<lparr>ws_session := t, ws_spec := True, ws_spec_pos := pos\<rparr>)
                      | (False, t) \<Rightarrow> (False, s\<lparr>ws_session := t\<rparr>)
                    else (True, s))
           in if \<not> ok then (s, Inl Stage_Failed)
              else case q36_session_eval_layer_slice e (ws_session s) tokens pos
                     (unat (mi_layer_start (dw_info d))) (unat (mi_layer_end (dw_info d))) (Some hidden) of
                  (t, None) \<Rightarrow> (s\<lparr>ws_session := t\<rparr>, Inl Stage_Failed)
                | (t, Some rows) \<Rightarrow>
                    let s = s\<lparr>ws_session := t\<rparr>
                    in if returned = 0 then (s, Inr (dist_worker_result (ws_id s) (pos + n) []))
                       else case (if has_flag flags DIST_ROWS then q36_session_read_final_rows e t n
                                  else q36_session_read_final_hidden e t n) of
                           None \<Rightarrow> (s, Inl Stage_Failed)
                         | Some result \<Rightarrow>
                             (s, Inr (dist_worker_result (ws_id s) (pos + n) (take (returned * n_embd) result))))"

definition dist_worker_commit ::
  "'k dist_stage \<Rightarrow> 'k dist_worker_session \<Rightarrow> bytes \<Rightarrow> 'k dist_worker_session \<times> (dist_worker_error + bytes)" where
  "dist_worker_commit d s data =
     (let count = unat (dist_get (drop 4 data))
      in case q36_session_pipeline_spec_commit (dw_engine d) (ws_session s) count of
          (False, t) \<Rightarrow> (s\<lparr>ws_session := t\<rparr>, Inl Stage_Failed)
        | (True, t) \<Rightarrow> (s\<lparr>ws_session := t, ws_spec := False\<rparr>,
                       Inr (dist_worker_result (ws_id s) (ws_spec_pos s + count) [])))"

text \<open>One frame: the sessions afterwards and the reply, or the error that ends the connection.\<close>

definition dist_worker_step ::
  "'k dist_stage \<Rightarrow> 'k dist_worker_session list \<Rightarrow> u32 \<Rightarrow> bytes
   \<Rightarrow> 'k dist_worker_session list \<times> (dist_worker_error + bytes)" where
  "dist_worker_step d ss type data =
     (let sid = (if length data \<ge> 4 then dist_get data else 0)
      in if sid = 0 then (ss, Inl Missing_Id)
         else case ws_find sid ss of
             None \<Rightarrow>
               if type = DIST_CREATE \<and> length data = 8 then
                 let ctx = unat (dist_get (drop 4 data))
                 in if ctx = 0 \<or> ctx > unat (mi_context_size (dw_info d)) then (ss, Inl Context_Exceeded)
                    else case slice_create (dw_engine d) ctx of
                        None \<Rightarrow> (ss, Inl Create_Failed)
                      | Some t \<Rightarrow>
                          (ss @ [\<lparr> ws_id = sid, ws_ctx = ctx, ws_spec_pos = 0, ws_spec = False, ws_session = t \<rparr>],
                           Inr (dist_worker_result sid 0 []))
               else (ss, Inl Invalid_Operation)
           | Some s \<Rightarrow>
               if type = DIST_FREE \<and> length data = 4 then (ws_unlink sid ss, Inr (dist_worker_result sid 0 []))
               else if type = DIST_COMMIT \<and> length data = 8 \<and> ws_spec s then
                 let (s, r) = dist_worker_commit d s data in (ws_put s ss, r)
               else if type = DIST_WORK \<and> length data \<ge> 16 then
                 let (s, r) = dist_worker_work d s data in (ws_put s ss, r)
               else (ss, Inl Invalid_Operation))"

text \<open>
  The loop over what is received: the sessions and the answers, in order.  A refused frame, or a
  receive that fails, ends it and the sessions are freed; the text of the error frame is left out.
\<close>

fun dist_worker_loop ::
  "'k dist_stage \<Rightarrow> 'k dist_worker_session list \<Rightarrow> dist_received list
   \<Rightarrow> 'k dist_worker_session list \<times> (dist_worker_error + bytes) list" where
  "dist_worker_loop d ss [] = (ss, [])"
| "dist_worker_loop d ss (r # rs) =
     (case r of
        Recv_Frame type data \<Rightarrow>
          (case dist_worker_step d ss type data of
             (ss, Inl e) \<Rightarrow> ([], [Inl e])
           | (ss, Inr reply) \<Rightarrow>
               let (ss, out) = dist_worker_loop d ss rs in (ss, Inr reply # out))
      | _ \<Rightarrow> ([], []))"

section \<open>Lookup in the session list\<close>

lemma ws_find_Some: "ws_find sid ss = Some s \<Longrightarrow> s \<in> set ss \<and> ws_id s = sid"
  by (induction ss) (auto split: if_splits)

lemma ws_find_None: "ws_find sid ss = None \<longleftrightarrow> sid \<notin> ws_id ` set ss"
  by (induction ss) auto

lemma ws_put_ids [simp]: "map ws_id (ws_put t ss) = map ws_id ss"
  by (induction ss) auto

lemma ws_put_set: "s \<in> set (ws_put t ss) \<Longrightarrow> s = t \<or> s \<in> set ss \<and> ws_id s \<noteq> ws_id t \<or> s \<in> set ss"
  by (induction ss) (auto split: if_splits)

lemma ws_find_put [simp]:
  "ws_find sid (ws_put t ss) = (if sid = ws_id t \<and> ws_find sid ss \<noteq> None then Some t else ws_find sid ss)"
  by (induction ss) auto

lemma ws_unlink_set: "set (ws_unlink sid ss) \<subseteq> set ss"
  by (induction ss) auto

lemma ws_unlink_distinct: "distinct (map ws_id ss) \<Longrightarrow> distinct (map ws_id (ws_unlink sid ss))"
  using ws_unlink_set by (induction ss) (auto dest: set_mp)

lemma ws_find_unlink:
  "distinct (map ws_id ss) \<Longrightarrow> ws_find k (ws_unlink sid ss) = (if k = sid then None else ws_find k ss)"
  by (induction ss) (auto simp: ws_find_None)

lemma ws_find_append:
  "ws_find k (ss @ [s]) = (case ws_find k ss of None \<Rightarrow> if ws_id s = k then Some s else None | Some t \<Rightarrow> Some t)"
  by (induction ss) auto

section \<open>The invariant of the worker\<close>

definition worker_session_ok :: "'k dist_stage \<Rightarrow> 'k dist_worker_session \<Rightarrow> bool" where
  "worker_session_ok d s \<longleftrightarrow> ws_id s \<noteq> 0 \<and> 0 < ws_ctx s \<and> ws_ctx s \<le> unat (mi_context_size (dw_info d)) \<and>
     sl_ctx (ws_session s) = ws_ctx s \<and> slice_ok (ws_session s) \<and>
     sl_spec_active (ws_session s) = ws_spec s \<and>
     (ws_spec s \<longrightarrow> ws_spec_pos s = sl_spec_pos (ws_session s))"

definition worker_ok :: "'k dist_stage \<Rightarrow> 'k dist_worker_session list \<Rightarrow> bool" where
  "worker_ok d ss \<longleftrightarrow> distinct (map ws_id ss) \<and> (\<forall>s \<in> set ss. worker_session_ok d s)"

lemma worker_work_ok:
  assumes ok: "worker_session_ok d s" and w: "dist_worker_work d s data = (s', Inr reply)"
  shows "worker_session_ok d s' \<and> ws_id s' = ws_id s"
proof -
  define pos where "pos = unat (dist_get (drop 4 data))"
  define n where "n = unat (dist_get (drop 8 data))"
  define flags where "flags = dist_get (drop 12 data)"
  define e where "e = dw_engine d"
  define s1 where "s1 = (if has_flag flags DIST_RESET
     then s\<lparr>ws_session := q36_session_layer_slice_reset e (ws_session s)\<rparr> else s)"
  define beg where "beg = (if has_flag flags DIST_BEGIN
     then case q36_session_pipeline_spec_begin e (ws_session s1) of
         (True, t) \<Rightarrow> (True, s1\<lparr>ws_session := t, ws_spec := True, ws_spec_pos := pos\<rparr>)
       | (False, t) \<Rightarrow> (False, s1\<lparr>ws_session := t\<rparr>)
     else (True, s1))"
  note defs = pos_def [symmetric] n_def [symmetric] flags_def [symmetric] e_def [symmetric]
    s1_def [symmetric] beg_def [symmetric]
  have bad: "\<not> dist_work_bad d s (length data) pos n flags"
    using w by (auto simp: dist_worker_work_def Let_def defs)
  obtain s2 where beg: "beg = (True, s2)"
    using w bad by (cases beg) (auto simp: dist_worker_work_def Let_def defs split: if_splits)
  obtain t rows where ev: "q36_session_eval_layer_slice e (ws_session s2)
      (map sint (dist_get_all n (drop 16 data))) pos (unat (mi_layer_start (dw_info d)))
      (unat (mi_layer_end (dw_info d)))
      (Some (dist_get_all (n * unat (mi_n_embd (dw_info d))) (drop (16 + 4 * n) data))) = (t, Some rows)"
    and s': "s' = s2\<lparr>ws_session := t\<rparr>"
    using w bad beg by (auto simp: dist_worker_work_def Let_def defs split: if_splits prod.splits option.splits)
  have s1: "ws_id s1 = ws_id s" "ws_ctx s1 = ws_ctx s" "ws_spec s1 = ws_spec s" "ws_spec_pos s1 = ws_spec_pos s"
    "sl_ctx (ws_session s1) = sl_ctx (ws_session s)" "slice_ok (ws_session s1)"
    "sl_spec_active (ws_session s1) = ws_spec s" "ws_spec s \<Longrightarrow> s1 = s"
    using ok bad slice_reset_ok [of "ws_session s" e]
    by (auto simp: s1_def worker_session_ok_def dist_work_bad_def q36_session_layer_slice_reset_def)
  have s2: "ws_id s2 = ws_id s" "ws_ctx s2 = ws_ctx s" "sl_ctx (ws_session s2) = sl_ctx (ws_session s)"
    "slice_ok (ws_session s2)" "sl_spec_active (ws_session s2) = ws_spec s2"
    "ws_spec s2 \<Longrightarrow> ws_spec_pos s2 = sl_spec_pos (ws_session s2) \<or> pos \<noteq> sl_pos (ws_session s2)"
    using beg s1 slice_begin_ok [OF s1(6)] ok
    by (auto simp: beg_def worker_session_ok_def split: if_splits prod.splits bool.splits)
  have "slice_ok t \<and> sl_ctx t = sl_ctx (ws_session s) \<and> sl_spec_active t = ws_spec s2 \<and>
      sl_spec_pos t = sl_spec_pos (ws_session s2) \<and> pos = sl_pos (ws_session s2)"
    using slice_eval_ok [OF s2(4) ev] s2 by auto
  then show ?thesis
    using s2 ok by (auto simp: s' worker_session_ok_def)
qed

lemma worker_commit_ok:
  assumes "worker_session_ok d s" "dist_worker_commit d s data = (s', Inr reply)"
  shows "worker_session_ok d s' \<and> ws_id s' = ws_id s"
  using assms slice_commit_ok [of "ws_session s"]
  by (auto simp: dist_worker_commit_def worker_session_ok_def Let_def split: prod.splits bool.splits)

lemma worker_ok_put:
  "worker_ok d ss \<Longrightarrow> worker_session_ok d s \<Longrightarrow> worker_ok d (ws_put s ss)"
  unfolding worker_ok_def by (auto dest!: ws_put_set)

lemma worker_ok_unlink: "worker_ok d ss \<Longrightarrow> worker_ok d (ws_unlink sid ss)"
  unfolding worker_ok_def using ws_unlink_set ws_unlink_distinct by fastforce

lemma worker_step_ok:
  assumes ok: "worker_ok d ss" and st: "dist_worker_step d ss type data = (ss', Inr reply)"
  shows "worker_ok d ss'"
proof -
  define sid where "sid = (if length data \<ge> 4 then dist_get data else 0)"
  note st = st [unfolded dist_worker_step_def Let_def, folded sid_def]
  have nz: "sid \<noteq> 0" using st by auto
  show ?thesis
  proof (cases "ws_find sid ss")
    case None
    then obtain t where "type = DIST_CREATE" and t: "slice_create (dw_engine d) (unat (dist_get (drop 4 data))) = Some t"
      and ctx: "0 < unat (dist_get (drop 4 data))" "unat (dist_get (drop 4 data)) \<le> unat (mi_context_size (dw_info d))"
      and ss': "ss' = ss @ [\<lparr> ws_id = sid, ws_ctx = unat (dist_get (drop 4 data)), ws_spec_pos = 0,
                 ws_spec = False, ws_session = t \<rparr>]"
      using st nz by (auto simp: not_less split: if_splits option.splits)
    have "\<not> sl_spec_active t" using t by (auto simp: slice_create_def split: if_splits option.splits)
    then show ?thesis
      using ok ctx nz None slice_create_ok [OF t]
      by (auto simp: ss' worker_ok_def worker_session_ok_def ws_find_None)
  next
    case (Some s)
    then have s: "worker_session_ok d s" using ok ws_find_Some unfolding worker_ok_def by blast
    show ?thesis
      using st nz Some ok worker_ok_unlink worker_work_ok [OF s] worker_commit_ok [OF s] worker_ok_put [OF ok]
      by (auto split: if_splits prod.splits)
  qed
qed

text \<open>A frame that is refused for its shape leaves the sessions as they are.\<close>

lemma ws_put_same: "ws_find sid ss = Some s \<Longrightarrow> ws_put s ss = ss"
  by (induction ss) (auto split: if_splits dest: ws_find_Some)

lemma worker_step_refuses:
  assumes "ws_find (dist_get data) ss = Some s" "16 \<le> length data" "dist_get data \<noteq> 0"
    and "dist_work_bad d s (length data) (unat (dist_get (drop 4 data))) (unat (dist_get (drop 8 data)))
           (dist_get (drop 12 data))"
  shows "dist_worker_step d ss DIST_WORK data = (ss, Inl Work_Shape)"
  using assms by (simp add: dist_worker_step_def dist_type_defs dist_worker_work_def Let_def ws_put_same)

lemma worker_loop_ok:
  "worker_ok d ss \<Longrightarrow> dist_worker_loop d ss rs = (ss', out) \<Longrightarrow> worker_ok d ss'"
proof (induction rs arbitrary: ss out)
  case (Cons r rs)
  then show ?case
  proof (cases r)
    case (Recv_Frame type data)
    then show ?thesis
      using Cons worker_step_ok [OF Cons.prems(1), of type data]
      by (auto simp: worker_ok_def split: prod.splits sum.splits)
  qed (auto simp: worker_ok_def)
qed simp

end
