(* ===== verification/Dist_Span.thy ===== *)
theory Dist_Span
  imports Dist_Cli Dist_Worker
begin

text \<open>
  The coordinator's side of the pipeline: how a span of tokens is cut into work frames that travel
  through a bounded window (\<^verbatim>\<open>dist_eval_span_body\<close> in \<^verbatim>\<open>q36_distributed.c\<close>), and how a result frame
  is checked (\<^verbatim>\<open>dist_result_rows\<close>).  The coordinator's own stage and the connection are values of
  abstract type with the operations the code calls on them; each operation of the stage gives the
  stage afterwards and, on success, its result.  Counters are naturals: a span is at most a
  context long, far below the 32 bits of \<^verbatim>\<open>head\<close>, \<^verbatim>\<open>tail\<close> and \<^verbatim>\<open>pos0 + i\<close>.
\<close>

record 'o owner_ops =
  oo_cancelled :: "'o \<Rightarrow> bool"
  oo_reset :: "'o \<Rightarrow> 'o \<times> bool"
  oo_slice :: "'o \<Rightarrow> int list \<Rightarrow> nat \<Rightarrow> 'o \<times> u32 list option"
  oo_project :: "'o \<Rightarrow> u32 list \<Rightarrow> 'o \<times> u32 list option"
  oo_catchup :: "'o \<Rightarrow> int list \<Rightarrow> nat \<Rightarrow> u32 list \<Rightarrow> 'o \<times> bool"
  oo_top :: "'o \<Rightarrow> u32 list \<Rightarrow> int \<Rightarrow> 'o \<times> int option"
  oo_spec_begin :: "'o \<Rightarrow> 'o \<times> bool"
  oo_spec_commit :: "'o \<Rightarrow> nat \<Rightarrow> 'o \<times> bool"
  oo_read_logits :: "'o \<Rightarrow> 'o \<times> u32 list option"

record 'w wire_ops =
  wo_send :: "'w \<Rightarrow> u32 \<Rightarrow> bytes \<Rightarrow> 'w \<times> bool"
  wo_recv :: "'w \<Rightarrow> 'w \<times> dist_received"

record dist_verify =
  dv_hidden :: "u32 list"
  dv_tops :: "int list"
  dv_excluded :: int
  dv_eos :: int
  dv_count :: nat
  dv_stopped :: bool

text \<open>
  What does not change during a span.  \<open>sc_prepared\<close> is the \<open>final\<close> flag of a prepared batch (its
  rows are in \<open>sp_hidden\<close> from the start and the stage is not called); \<open>sc_logits\<close> says whether
  the caller wants logits.
\<close>

record span_cfg =
  sc_id :: u32
  sc_info :: q36_dist_model_info
  sc_peer :: q36_dist_model_info
  sc_opt :: q36_distributed_options
  sc_tokens :: "int list"
  sc_pos0 :: nat
  sc_prepared :: "bool option"
  sc_logits :: bool
  sc_report :: bool
  sc_cap :: nat

record ('o, 'w) span_state =
  sp_i :: nat
  sp_count :: nat
  sp_head :: nat
  sp_tail :: nat
  sp_ring :: "(nat \<times> nat \<times> nat) list"
  sp_local_start :: nat
  sp_local_end :: nat
  sp_hidden :: "u32 list"
  sp_target :: "u32 list"
  sp_owner :: 'o
  sp_wire :: 'w
  sp_logits :: "u32 list option"
  sp_verify :: "dist_verify option"
  sp_progress :: "(nat \<times> nat) list"

section \<open>A result frame\<close>

text \<open>
  The frame must answer for this session and position with exactly the rows expected; then the
  last row is projected when logits are wanted.  The result: 0 or 1, the connection, the stage,
  the rows and the logits.
\<close>

definition dist_result_rows ::
  "'o owner_ops \<Rightarrow> 'w wire_ops \<Rightarrow> u32 \<Rightarrow> nat \<Rightarrow> 'w \<Rightarrow> 'o \<Rightarrow> nat \<Rightarrow> bool \<Rightarrow> nat
   \<Rightarrow> nat \<times> 'w \<times> 'o \<times> u32 list \<times> u32 list option" where
  "dist_result_rows oo wo sid n_embd w own pos want rows =
     (case wo_recv wo w of
        (w, Recv_Frame type data) \<Rightarrow>
          let values = rows * n_embd
          in if type \<noteq> DIST_RESULT \<or> length data \<noteq> 8 + values * 4 \<or> dist_get data \<noteq> sid \<or>
                dist_get (drop 4 data) \<noteq> word_of_nat pos then (1, w, own, [], None)
             else if rows = 0 then (0, w, own, [], None)
             else
               let hidden = dist_get_all values (drop 8 data)
               in if \<not> want then (0, w, own, hidden, None)
                  else case oo_project oo own (drop ((rows - 1) * n_embd) hidden) of
                      (own, None) \<Rightarrow> (1, w, own, hidden, None)
                    | (own, Some l) \<Rightarrow> (0, w, own, hidden, Some l)
      | (w, _) \<Rightarrow> (1, w, own, [], None))"

definition dist_result ::
  "'o owner_ops \<Rightarrow> 'w wire_ops \<Rightarrow> u32 \<Rightarrow> nat \<Rightarrow> 'w \<Rightarrow> 'o \<Rightarrow> nat \<Rightarrow> nat \<times> 'w" where
  "dist_result oo wo sid n_embd w own pos =
     (case dist_result_rows oo wo sid n_embd w own pos False 0 of (rc, w, _, _, _) \<Rightarrow> (rc, w))"

section \<open>The size of a chunk\<close>

definition dist_frame_cap :: "nat \<Rightarrow> nat" where
  "dist_frame_cap n_embd = (DIST_MAX_FRAME - 16) div ((1 + n_embd) * 4)"

text \<open>The suffix stage's batch: its cap, the option, and what fits a frame.\<close>

definition dist_wire_cap :: "q36_dist_model_info \<Rightarrow> q36_dist_model_info \<Rightarrow> q36_distributed_options \<Rightarrow> nat" where
  "dist_wire_cap info peer opt =
     (let wire = unat (mi_prefill_cap peer);
          wire = (if do_prefill_chunk opt \<noteq> 0 \<and> wire > do_prefill_chunk opt then do_prefill_chunk opt else wire);
          frame = dist_frame_cap (unat (mi_n_embd info))
      in if wire > frame then frame else wire)"

definition dist_span_cap ::
  "q36_dist_model_info \<Rightarrow> q36_dist_model_info \<Rightarrow> q36_distributed_options \<Rightarrow> bool \<Rightarrow> nat \<Rightarrow> nat" where
  "dist_span_cap info peer opt verify count =
     (let cap = (if verify then 1 else unat (mi_prefill_cap info));
          cap = (if cap > count then count else cap);
          cap = (if cap > unat (mi_prefill_cap peer) then unat (mi_prefill_cap peer) else cap);
          cap = (if do_prefill_chunk opt \<noteq> 0 \<and> cap > do_prefill_chunk opt then do_prefill_chunk opt else cap);
          frame = dist_frame_cap (unat (mi_n_embd info))
      in if cap > frame then frame else cap)"

section \<open>One round of the span\<close>

definition span_window :: "span_cfg \<Rightarrow> nat" where
  "span_window c = (if do_prefill_window (sc_opt c) \<noteq> 0 then do_prefill_window (sc_opt c) else 2)"

definition span_n_embd :: "span_cfg \<Rightarrow> nat" where
  "span_n_embd c = unat (mi_n_embd (sc_info c))"

text \<open>Evaluation of the next local batch, when the rows of the last one are all sent.\<close>

definition span_local ::
  "'o owner_ops \<Rightarrow> span_cfg \<Rightarrow> nat \<Rightarrow> ('o, 'w) span_state \<Rightarrow> nat \<times> ('o, 'w) span_state" where
  "span_local oo c local_cap st =
     (if sp_i st \<noteq> sp_local_end st then (0, st)
      else
        let i = sp_i st; batch = min (sp_count st - i) local_cap;
            (own, ok) = (if sc_pos0 c + i = 0 then oo_reset oo (sp_owner st) else (sp_owner st, True));
            st = st\<lparr>sp_owner := own\<rparr>
        in if \<not> ok then (1, st)
           else case oo_slice oo (sp_owner st) (take batch (drop i (sc_tokens c))) (sc_pos0 c + i) of
               (own, None) \<Rightarrow> (1, st\<lparr>sp_owner := own\<rparr>)
             | (own, Some rows) \<Rightarrow>
                 (0, st\<lparr>sp_owner := own, sp_hidden := poke 0 rows (sp_hidden st),
                        sp_local_start := i, sp_local_end := i + batch\<rparr>))"

text \<open>The number of tokens of the next frame, its flags, and its body.\<close>

definition span_n :: "span_cfg \<Rightarrow> ('o, 'w) span_state \<Rightarrow> nat" where
  "span_n c st = min (sp_local_end st - sp_i st) (sc_cap c)"

definition span_last :: "span_cfg \<Rightarrow> bool \<Rightarrow> bool" where
  "span_last c at_end \<longleftrightarrow> at_end \<and> (case sc_prepared c of None \<Rightarrow> True | Some final \<Rightarrow> final)"

definition span_flags :: "span_cfg \<Rightarrow> ('o, 'w) span_state \<Rightarrow> nat \<Rightarrow> u32" where
  "span_flags c st n =
     (let i = sp_i st; last = span_last c (i + n = sp_count st);
          verify = (sp_verify st \<noteq> None);
          flags = (if sc_pos0 c + i = 0 then DIST_RESET else 0) OR (if last \<or> verify then DIST_LOGITS else 0);
          flags = (if mi_mtp (sc_info c) then flags OR DIST_ROWS else flags)
      in if verify then flags OR (DIST_SPEC OR (if i = 0 then DIST_BEGIN else 0)) else flags)"

definition span_body :: "span_cfg \<Rightarrow> ('o, 'w) span_state \<Rightarrow> nat \<Rightarrow> bytes" where
  "span_body c st n =
     dist_work_body (sc_id c) (sc_pos0 c + sp_i st) n (span_flags c st n)
       (take n (drop (sp_i st) (sc_tokens c)))
       (take (n * span_n_embd c) (drop ((sp_i st - sp_local_start st) * span_n_embd c) (sp_hidden st)))"

text \<open>The frame just sent enters the ring of the 64 frames that may be in flight.\<close>

definition span_pushed :: "span_cfg \<Rightarrow> nat \<Rightarrow> ('o, 'w) span_state \<Rightarrow> ('o, 'w) span_state" where
  "span_pushed c n st =
     st\<lparr>sp_ring := (sp_ring st)[sp_tail st mod 64 := (sc_pos0 c + sp_i st + n, n, sp_i st)],
        sp_tail := sp_tail st + 1, sp_i := sp_i st + n\<rparr>"

text \<open>The verification of a candidate once its row is back.\<close>

definition span_verify ::
  "'o owner_ops \<Rightarrow> span_cfg \<Rightarrow> nat \<Rightarrow> u32 list \<Rightarrow> dist_verify \<Rightarrow> ('o, 'w) span_state \<Rightarrow> nat \<times> ('o, 'w) span_state" where
  "span_verify oo c index rows v st =
     (if dv_stopped v then (0, st\<lparr>sp_verify := Some v\<rparr>)
      else case oo_top oo (sp_owner st) rows (dv_excluded v) of
          (own, None) \<Rightarrow> (1, st\<lparr>sp_owner := own, sp_verify := Some v\<rparr>)
        | (own, Some best) \<Rightarrow>
            let v = v\<lparr>dv_tops := (dv_tops v)[index := best]\<rparr>; st = st\<lparr>sp_owner := own\<rparr>
            in if sc_tokens c ! index = dv_eos v \<or>
                  (index + 1 < sp_count st \<and> best \<noteq> sc_tokens c ! (index + 1))
               then (0, st\<lparr>sp_verify := Some (v\<lparr>dv_stopped := True\<rparr>), sp_count := sp_i st\<rparr>)
               else (0, st\<lparr>sp_verify := Some v\<rparr>))"

text \<open>The oldest frame in flight is answered.\<close>

definition span_receive ::
  "'o owner_ops \<Rightarrow> 'w wire_ops \<Rightarrow> span_cfg \<Rightarrow> ('o, 'w) span_state \<Rightarrow> nat \<times> ('o, 'w) span_state" where
  "span_receive oo wo c st =
     (let (end, n, index) = sp_ring st ! (sp_head st mod 64);
          st = st\<lparr>sp_head := sp_head st + 1\<rparr>;
          m = span_n_embd c; mtp = mi_mtp (sc_info c);
          last = span_last c (end = sc_pos0 c + sp_count st);
          returned = (if mtp then n else if last then 1 else 0);
          want = (sp_verify st = None \<and> last \<and> sc_logits c);
          (rc, w, own, rows, logits) = dist_result_rows oo wo (sc_id c) m (sp_wire st) (sp_owner st) end want returned;
          st = st\<lparr>sp_wire := w, sp_owner := own,
                  sp_logits := (if logits = None then sp_logits st else logits)\<rparr>
      in if rc \<noteq> 0 then (1, st)
         else
           let st = (case sc_prepared c of
                   Some final \<Rightarrow> st\<lparr>sp_target := poke (if mtp then index * m else 0) rows (sp_target st)\<rparr>
                 | None \<Rightarrow> (case sp_verify st of
                       Some v \<Rightarrow> st\<lparr>sp_verify := Some (v\<lparr>dv_hidden := poke (index * m) rows (dv_hidden v)\<rparr>)\<rparr>
                     | None \<Rightarrow> st\<lparr>sp_hidden := poke 0 rows (sp_hidden st)\<rparr>));
               (own, ok) = (if sc_prepared c = None \<and> mtp \<and> sp_verify st = None
                   then oo_catchup oo (sp_owner st) (take n (drop index (sc_tokens c))) (sc_pos0 c + index) rows
                   else (sp_owner st, True));
               st = st\<lparr>sp_owner := own\<rparr>
           in if \<not> ok then (1, st)
              else
                let (rc, st) = (case sp_verify st of
                        None \<Rightarrow> (0, st)
                      | Some v \<Rightarrow> span_verify oo c index (take m (drop (index * m) (dv_hidden v))) v st)
                in if rc \<noteq> 0 then (rc, st)
                   else (0, if sc_report c
                            then st\<lparr>sp_progress := sp_progress st @ [(end, sc_pos0 c + sp_count st)]\<rparr> else st))"

text \<open>
  One round of the loop: a frame is sent while the window has room (with MTP the oldest answer is
  taken at the same time, so that it cannot block the sender), otherwise an answer is taken.
\<close>

definition span_round ::
  "'o owner_ops \<Rightarrow> 'w wire_ops \<Rightarrow> span_cfg \<Rightarrow> nat \<Rightarrow> ('o, 'w) span_state \<Rightarrow> nat \<times> ('o, 'w) span_state" where
  "span_round oo wo c local_cap st =
     (if sc_prepared c = None \<and> oo_cancelled oo (sp_owner st) then (2, st)
      else if sp_i st < sp_count st \<and> sp_tail st - sp_head st < span_window c then
        (case span_local oo c local_cap st of
           (Suc rc, st) \<Rightarrow> (Suc rc, st)
         | (0, st) \<Rightarrow>
             let n = span_n c st; both = (mi_mtp (sc_info c) \<and> sp_head st \<noteq> sp_tail st);
                 (w, ok) = wo_send wo (sp_wire st) DIST_WORK (span_body c st n);
                 st = st\<lparr>sp_wire := w\<rparr>
             in if both then
                  (case span_receive oo wo c (span_pushed c n st) of
                     (Suc rc, st) \<Rightarrow> (Suc rc, st)
                   | (0, st) \<Rightarrow> (if ok then 0 else 1, st))
                else if ok then (0, span_pushed c n st) else (1, st))
      else span_receive oo wo c st)"

text \<open>The loop; it may not end, so its result is an option.\<close>

partial_function (option) span_loop ::
  "'o owner_ops \<Rightarrow> 'w wire_ops \<Rightarrow> span_cfg \<Rightarrow> nat \<Rightarrow> ('o, 'w) span_state \<Rightarrow> (nat \<times> ('o, 'w) span_state) option" where
  "span_loop oo wo c local_cap st =
     (if sp_i st < sp_count st \<or> sp_head st \<noteq> sp_tail st then
        (case span_round oo wo c local_cap st of
           (rc, st) \<Rightarrow> if rc \<noteq> 0 then Some (rc, st) else span_loop oo wo c local_cap st)
      else Some (0, st))"

definition span_init ::
  "span_cfg \<Rightarrow> dist_verify option \<Rightarrow> u32 list \<Rightarrow> u32 list \<Rightarrow> 'o \<Rightarrow> 'w \<Rightarrow> ('o, 'w) span_state" where
  "span_init c verify hidden target own w =
     \<lparr> sp_i = 0, sp_count = length (sc_tokens c), sp_head = 0, sp_tail = 0, sp_ring = replicate 64 (0, 0, 0),
       sp_local_start = 0, sp_local_end = (if sc_prepared c = None then 0 else length (sc_tokens c)),
       sp_hidden = hidden, sp_target = target, sp_owner = own, sp_wire = w, sp_logits = None,
       sp_verify = verify, sp_progress = [] \<rparr>"

text \<open>
  \<^verbatim>\<open>dist_eval_span_body\<close>: \<open>prepared\<close> brings the final flag, the rows of the batch and the buffer for
  the answers.  The cap in \<open>c\<close> is set here.
\<close>

definition dist_eval_span_body ::
  "'o owner_ops \<Rightarrow> 'w wire_ops \<Rightarrow> span_cfg \<Rightarrow> dist_verify option \<Rightarrow> (bool \<times> u32 list \<times> u32 list) option
   \<Rightarrow> 'o \<Rightarrow> 'w \<Rightarrow> (nat \<times> ('o, 'w) span_state) option" where
  "dist_eval_span_body oo wo c verify prepared own w =
     (let count = length (sc_tokens c);
          cap = dist_span_cap (sc_info c) (sc_peer c) (sc_opt c) (verify \<noteq> None) count;
          m = unat (mi_n_embd (sc_info c));
          local_cap = (if prepared = None then cap else count);
          c = c\<lparr>sc_cap := cap, sc_prepared := map_option fst prepared\<rparr>;
          (hidden, target) = (case prepared of None \<Rightarrow> (replicate (local_cap * m) 0, [])
                              | Some (_, input, target) \<Rightarrow> (input, target));
          st = span_init c verify hidden target own w
      in if 16 + cap * (1 + m) * 4 > DIST_MAX_FRAME then Some (1, st)
         else map_option (\<lambda>(rc, st). (rc, st\<lparr>sp_verify := map_option (\<lambda>v. v\<lparr>dv_count := sp_i st\<rparr>) (sp_verify st)\<rparr>))
                (span_loop oo wo c local_cap st))"

end
