(* ===== verification/Dist_Pipeline.thy ===== *)
theory Dist_Pipeline
  imports Dist_Span
begin

text \<open>
  The pipelined span against its sequential reading.  The reference evaluates one chunk after the
  other: prefix stage, frame, answer.  The locale \<open>fifo_link\<close> is what the coordinator relies on
  from the connection and the worker behind it (answers come in the order of the requests); inside
  it, the loop with any window of 1 to 64 frames is shown to give what the reference gives.  The
  worker of \<^verbatim>\<open>Dist_Worker\<close> behind a byte stream of frames interprets it.
\<close>

section \<open>The sequential reading\<close>

definition chunk_at :: "span_cfg \<Rightarrow> nat \<Rightarrow> nat" where
  "chunk_at c k = min (k * sc_cap c) (length (sc_tokens c))"

definition chunk_len :: "span_cfg \<Rightarrow> nat \<Rightarrow> nat" where
  "chunk_len c k = chunk_at c (Suc k) - chunk_at c k"

definition chunk_tokens :: "span_cfg \<Rightarrow> nat \<Rightarrow> int list" where
  "chunk_tokens c k = take (chunk_len c k) (drop (chunk_at c k) (sc_tokens c))"

definition chunk_total :: "span_cfg \<Rightarrow> nat" where
  "chunk_total c = (length (sc_tokens c) + sc_cap c - 1) div sc_cap c"

definition chunk_slice ::
  "'o owner_ops \<Rightarrow> span_cfg \<Rightarrow> 'o \<Rightarrow> nat \<Rightarrow> ('o \<times> u32 list) option" where
  "chunk_slice oo c own k =
     (case (if sc_pos0 c + chunk_at c k = 0 then oo_reset oo own else (own, True)) of
        (own, False) \<Rightarrow> None
      | (own, True) \<Rightarrow>
          (case oo_slice oo own (chunk_tokens c k) (sc_pos0 c + chunk_at c k) of
             (own, None) \<Rightarrow> None
           | (own, Some rows) \<Rightarrow>
               if length rows = chunk_len c k * span_n_embd c then Some (own, rows) else None))"

definition chunk_flags :: "span_cfg \<Rightarrow> nat \<Rightarrow> u32" where
  "chunk_flags c k = (if sc_pos0 c + chunk_at c k = 0 then DIST_RESET else 0) OR
     (if Suc k = chunk_total c then DIST_LOGITS else 0)"

definition chunk_body :: "span_cfg \<Rightarrow> nat \<Rightarrow> u32 list \<Rightarrow> bytes" where
  "chunk_body c k rows =
     dist_work_body (sc_id c) (sc_pos0 c + chunk_at c k) (chunk_len c k) (chunk_flags c k) (chunk_tokens c k) rows"

definition chunk_reply_ok :: "span_cfg \<Rightarrow> nat \<Rightarrow> bytes \<Rightarrow> bool" where
  "chunk_reply_ok c k r \<longleftrightarrow>
     length r = 8 + (if Suc k = chunk_total c then span_n_embd c else 0) * 4 \<and> dist_get r = sc_id c \<and>
     dist_get (drop 4 r) = word_of_nat (sc_pos0 c + chunk_at c (Suc k))"

text \<open>
  The first \<open>k\<close> chunks, one after the other, with \<open>answer\<close> for the peer: the stage, the peer and
  the answers; \<open>None\<close> when some operation fails.
\<close>

fun pipe_run ::
  "'o owner_ops \<Rightarrow> ('c \<Rightarrow> bytes \<Rightarrow> ('c \<times> bytes) option) \<Rightarrow> span_cfg \<Rightarrow> 'o \<Rightarrow> 'c \<Rightarrow> nat
   \<Rightarrow> ('o \<times> 'c \<times> bytes list) option" where
  "pipe_run oo answer c own core 0 = Some (own, core, [])"
| "pipe_run oo answer c own core (Suc k) =
     (case pipe_run oo answer c own core k of
        None \<Rightarrow> None
      | Some (own, core, rs) \<Rightarrow>
          (case chunk_slice oo c own k of
             None \<Rightarrow> None
           | Some (own, rows) \<Rightarrow>
               (case answer core (chunk_body c k rows) of
                  None \<Rightarrow> None
                | Some (core, r) \<Rightarrow> if chunk_reply_ok c k r then Some (own, core, rs @ [r]) else None)))"

text \<open>The whole span: the last answer's row is projected.\<close>

definition pipe_span ::
  "'o owner_ops \<Rightarrow> ('c \<Rightarrow> bytes \<Rightarrow> ('c \<times> bytes) option) \<Rightarrow> span_cfg \<Rightarrow> 'o \<Rightarrow> 'c
   \<Rightarrow> ('o \<times> 'c \<times> u32 list) option" where
  "pipe_span oo answer c own core =
     (case pipe_run oo answer c own core (chunk_total c) of
        None \<Rightarrow> None
      | Some (own, core, rs) \<Rightarrow>
          (case oo_project oo own (dist_get_all (span_n_embd c) (drop 8 (last rs))) of
             (own, None) \<Rightarrow> None
           | (own, Some l) \<Rightarrow> Some (own, core, l)))"

text \<open>A span the theorem is about: no MTP, logits wanted, not prepared, a sensible cap and window.\<close>

definition plain_span :: "span_cfg \<Rightarrow> bool" where
  "plain_span c \<longleftrightarrow> \<not> mi_mtp (sc_info c) \<and> sc_prepared c = None \<and> sc_logits c \<and>
     0 < sc_cap c \<and> sc_tokens c \<noteq> [] \<and> span_window c \<le> 64 \<and> 0 < span_n_embd c"

section \<open>Chunks\<close>

lemma chunk_at_0 [simp]: "chunk_at c 0 = 0"
  by (simp add: chunk_at_def)

lemma chunk_at_total [simp]: "0 < sc_cap c \<Longrightarrow> chunk_at c (chunk_total c) = length (sc_tokens c)"
proof -
  assume cap: "0 < sc_cap c"
  define N where "N = length (sc_tokens c)"
  have "N \<le> (N + sc_cap c - 1) div sc_cap c * sc_cap c"
    using cap div_mult_mod_eq [of "N + sc_cap c - 1" "sc_cap c"] mod_less_divisor [OF cap, of "N + sc_cap c - 1"]
    by linarith
  then show ?thesis by (simp add: chunk_at_def chunk_total_def N_def [symmetric])
qed

lemma chunk_before_total:
  assumes "0 < sc_cap c" "k < chunk_total c"
  shows "chunk_at c k = k * sc_cap c" "k * sc_cap c < length (sc_tokens c)"
proof -
  define N where "N = length (sc_tokens c)"
  have "k + 1 \<le> (N + sc_cap c - 1) div sc_cap c"
    using assms(2) by (simp add: chunk_total_def N_def)
  then have "(k + 1) * sc_cap c \<le> (N + sc_cap c - 1) div sc_cap c * sc_cap c"
    by (rule mult_le_mono1)
  also have "\<dots> \<le> N + sc_cap c - 1" by (rule div_times_less_eq_dividend)
  finally show "k * sc_cap c < length (sc_tokens c)"
    using assms(1) by (simp add: N_def algebra_simps)
  then show "chunk_at c k = k * sc_cap c" by (simp add: chunk_at_def)
qed

lemma chunk_len_before:
  assumes "0 < sc_cap c" "k < chunk_total c"
  shows "chunk_len c k = min (length (sc_tokens c) - chunk_at c k) (sc_cap c)"
    and "0 < chunk_len c k" and "chunk_at c k + chunk_len c k = chunk_at c (Suc k)"
    and "chunk_at c k < length (sc_tokens c)" and "length (chunk_tokens c k) = chunk_len c k"
  using chunk_before_total [OF assms] assms(1)
  by (auto simp: chunk_len_def chunk_at_def chunk_tokens_def min_def)

lemma chunk_last_iff:
  assumes "0 < sc_cap c" "k < chunk_total c"
  shows "chunk_at c (Suc k) = length (sc_tokens c) \<longleftrightarrow> Suc k = chunk_total c"
proof
  assume e: "chunk_at c (Suc k) = length (sc_tokens c)"
  show "Suc k = chunk_total c"
  proof (rule ccontr)
    assume "Suc k \<noteq> chunk_total c"
    then have "Suc k < chunk_total c" using assms(2) by simp
    then show False using chunk_before_total [OF assms(1)] e by force
  qed
qed (use assms in \<open>metis chunk_at_total\<close>)

lemma pipe_run_length: "pipe_run oo answer c own core k = Some (own', core', rs) \<Longrightarrow> length rs = k"
  by (induction k arbitrary: own' core' rs) (auto split: option.splits prod.splits if_splits)

lemma pipe_run_reply:
  "pipe_run oo answer c own core k = Some (own', core', rs) \<Longrightarrow> j < k \<Longrightarrow> chunk_reply_ok c j (rs ! j)"
proof (induction k arbitrary: own' core' rs)
  case (Suc k)
  then obtain own1 core1 rs1 r where run: "pipe_run oo answer c own core k = Some (own1, core1, rs1)"
    and rs: "rs = rs1 @ [r]" "chunk_reply_ok c k r"
    by (auto split: option.splits prod.splits if_splits)
  show ?case
    using Suc.IH [OF run] Suc.prems(2) rs pipe_run_length [OF run]
    by (auto simp: nth_append less_Suc_eq)
qed simp

lemma pipe_run_prefix:
  assumes "pipe_run oo answer c own core n = Some x" "k \<le> n"
  shows "\<exists>y. pipe_run oo answer c own core k = Some y"
  using assms(2,1)
proof (induction n arbitrary: x rule: dec_induct)
  case (step n)
  then show ?case by (auto split: option.splits)
qed blast

lemma pipe_run_mono:
  "pipe_run oo answer c own core k = Some (own1, core1, rs1) \<Longrightarrow>
   pipe_run oo answer c own core n = Some (own2, core2, rs2) \<Longrightarrow> k \<le> n \<Longrightarrow> rs1 = take k rs2"
proof (induction n arbitrary: own2 core2 rs2)
  case 0
  then show ?case by simp
next
  case (Suc n)
  show ?case
  proof (cases "k = Suc n")
    case True
    then show ?thesis using Suc.prems pipe_run_length [OF Suc.prems(2)] by simp
  next
    case False
    obtain own3 core3 rs3 r where run: "pipe_run oo answer c own core n = Some (own3, core3, rs3)"
      and rs: "rs2 = rs3 @ [r]"
      using Suc.prems(2) by (auto split: option.splits prod.splits if_splits)
    show ?thesis
      using Suc.IH [OF Suc.prems(1) run] False Suc.prems(3) pipe_run_length [OF run] by (simp add: rs)
  qed
qed

section \<open>The connection's contract and the windowed loop\<close>

text \<open>
  \<open>holds w core rs\<close>: the peer behind connection \<open>w\<close> is in state \<open>core\<close> and the answers \<open>rs\<close> are
  under way, oldest first.
\<close>

locale fifo_link =
  fixes wo :: "'w wire_ops" and answer :: "'c \<Rightarrow> bytes \<Rightarrow> ('c \<times> bytes) option"
    and holds :: "'w \<Rightarrow> 'c \<Rightarrow> bytes list \<Rightarrow> bool"
  assumes send_answered: "holds w core rs \<Longrightarrow> answer core body = Some (core', r) \<Longrightarrow>
      \<exists>w'. wo_send wo w DIST_WORK body = (w', True) \<and> holds w' core' (rs @ [r])"
    and recv_oldest: "holds w core (r # rs) \<Longrightarrow>
      \<exists>w'. wo_recv wo w = (w', Recv_Frame DIST_RESULT r) \<and> holds w' core rs"
begin

text \<open>The loop after \<open>K\<close> frames sent and \<open>H\<close> answered.\<close>

definition span_at ::
  "'o owner_ops \<Rightarrow> span_cfg \<Rightarrow> 'o \<Rightarrow> 'c \<Rightarrow> nat \<Rightarrow> nat \<Rightarrow> ('o, 'w) span_state \<Rightarrow> bool" where
  "span_at oo c own0 core0 H K st \<longleftrightarrow>
     sp_i st = chunk_at c K \<and> sp_count st = length (sc_tokens c) \<and> sp_head st = H \<and> sp_tail st = K \<and>
     H \<le> K \<and> K \<le> chunk_total c \<and> K - H \<le> span_window c \<and> length (sp_ring st) = 64 \<and>
     (\<forall>j. H \<le> j \<and> j < K \<longrightarrow>
        sp_ring st ! (j mod 64) = (sc_pos0 c + chunk_at c (Suc j), chunk_len c j, chunk_at c j)) \<and>
     sp_local_end st = sp_i st \<and> sp_verify st = None \<and> sp_logits st = None \<and>
     (\<exists>core rs. pipe_run oo answer c own0 core0 K = Some (sp_owner st, core, rs) \<and>
        holds (sp_wire st) core (drop H rs))"

lemma span_at_send:
  assumes plain: "plain_span c" and "\<not> oo_cancelled oo (sp_owner st)" and at: "span_at oo c own0 core0 H K st"
    and room: "K < chunk_total c" "K - H < span_window c"
    and all: "pipe_run oo answer c own0 core0 (chunk_total c) \<noteq> None"
  shows "\<exists>st'. span_round oo wo c (sc_cap c) st = (0, st') \<and> span_at oo c own0 core0 H (Suc K) st'"
proof -
  have cap: "0 < sc_cap c" and nomtp: "\<not> mi_mtp (sc_info c)" and noprep: "sc_prepared c = None"
    and win: "span_window c \<le> 64"
    using plain by (auto simp: plain_span_def)
  obtain core rs where run: "pipe_run oo answer c own0 core0 K = Some (sp_owner st, core, rs)"
    and h: "holds (sp_wire st) core (drop H rs)"
    using at unfolding span_at_def by blast
  obtain own2 core2 rs2 where run2: "pipe_run oo answer c own0 core0 (Suc K) = Some (own2, core2, rs2)"
    using pipe_run_prefix [of oo answer c own0 core0 "chunk_total c" _ "Suc K"] all room(1) by fastforce
  then obtain rows r where sl: "chunk_slice oo c (sp_owner st) K = Some (own2, rows)"
    and an: "answer core (chunk_body c K rows) = Some (core2, r)" and rs2: "rs2 = rs @ [r]"
    using run by (auto split: option.splits prod.splits if_splits)
  define own1 where "own1 = fst (if sc_pos0 c + chunk_at c K = 0 then oo_reset oo (sp_owner st) else (sp_owner st, True))"
  have reset: "(if sc_pos0 c + chunk_at c K = 0 then oo_reset oo (sp_owner st) else (sp_owner st, True)) = (own1, True)"
    and slice: "oo_slice oo own1 (chunk_tokens c K) (sc_pos0 c + chunk_at c K) = (own2, Some rows)"
    and len: "length rows = chunk_len c K * span_n_embd c"
    using sl by (auto simp: own1_def chunk_slice_def split: prod.splits bool.splits option.splits if_splits)
  note cl = chunk_len_before [OF cap room(1)]
  have i: "sp_i st = chunk_at c K" "sp_local_end st = chunk_at c K" "sp_count st = length (sc_tokens c)"
    "sp_verify st = None" "sp_head st = H" "sp_tail st = K" "H \<le> K"
    using at by (auto simp: span_at_def)
  have toks: "chunk_tokens c K = take (chunk_len c K) (drop (chunk_at c K) (sc_tokens c))"
    by (simp add: chunk_tokens_def)
  define st1 where "st1 = st\<lparr>sp_owner := own2, sp_hidden := poke 0 rows (sp_hidden st),
      sp_local_start := chunk_at c K, sp_local_end := chunk_at c K + chunk_len c K\<rparr>"
  have local: "span_local oo c (sc_cap c) st = (0, st1)"
    using reset slice toks cl(1)
    by (simp add: span_local_def i Let_def st1_def)
  have n: "span_n c st1 = chunk_len c K"
    using cl(1) by (simp add: span_n_def st1_def i)
  have body: "span_body c st1 (chunk_len c K) = chunk_body c K rows"
  proof -
    have "take (chunk_len c K * span_n_embd c) (poke 0 rows (sp_hidden st)) = rows"
      using len by (simp add: poke_def)
    moreover have "span_last c (chunk_at c K + chunk_len c K = length (sc_tokens c)) \<longleftrightarrow> Suc K = chunk_total c"
      using noprep cl(3) chunk_last_iff [OF cap room(1)] by (simp add: span_last_def)
    ultimately show ?thesis
      using nomtp by (simp add: span_body_def chunk_body_def st1_def i toks [symmetric] span_flags_def
          chunk_flags_def Let_def)
  qed
  obtain w' where send: "wo_send wo (sp_wire st) DIST_WORK (chunk_body c K rows) = (w', True)"
    and h': "holds w' core2 (drop H rs @ [r])"
    using send_answered [OF h an] by blast
  define st2 where "st2 = span_pushed c (chunk_len c K) (st1\<lparr>sp_wire := w'\<rparr>)"
  have sel: "sp_wire st1 = sp_wire st" "sp_head st1 = H" "sp_tail st1 = K"
    by (simp_all add: st1_def i)
  have "span_round oo wo c (sc_cap c) st = (0, st2)"
    using noprep assms(2) room cl(4) nomtp send
    by (simp add: span_round_def i local n body Let_def st2_def sel)
  moreover have "span_at oo c own0 core0 H (Suc K) st2"
  proof -
    have "sp_ring st2 ! (j mod 64) = (sc_pos0 c + chunk_at c (Suc j), chunk_len c j, chunk_at c j)"
      if "H \<le> j" "j < Suc K" for j
    proof (cases "j = K")
      case True
      then show ?thesis using at cl(3) by (simp add: st2_def st1_def span_pushed_def span_at_def i add.assoc)
    next
      case False
      then have "K - j < 64" "j < K" using that room(2) win by linarith+
      then have "j mod 64 \<noteq> K mod 64"
        by (metis (no_types, opaque_lifting) dvd_imp_le less_imp_le_nat linorder_not_less mod_eq_dvd_iff_nat zero_less_diff)
      then show ?thesis using at that False
        by (simp add: st2_def st1_def span_pushed_def span_at_def)
    qed
    moreover have "sp_owner st2 = own2" "sp_wire st2 = w'"
      by (simp_all add: st2_def st1_def span_pushed_def)
    moreover have "drop H rs2 = drop H rs @ [r]"
      using pipe_run_length [OF run] i(7) by (simp add: rs2)
    ultimately show ?thesis
      unfolding span_at_def using at run2 h' room cl(3)
      by (auto simp: st2_def st1_def span_pushed_def span_at_def)
  qed
  ultimately show ?thesis by blast
qed

text \<open>What the receipt of an answer does, from its parts.\<close>

lemma span_receive_plain:
  assumes plain: "plain_span c" and at: "span_at oo c own0 core0 H K st" and lt: "H < K"
  shows "\<exists>w' core rs. pipe_run oo answer c own0 core0 K = Some (sp_owner st, core, rs) \<and>
     wo_recv wo (sp_wire st) = (w', Recv_Frame DIST_RESULT (rs ! H)) \<and> holds w' core (drop (Suc H) rs) \<and>
     chunk_reply_ok c H (rs ! H)"
proof -
  obtain core rs where run: "pipe_run oo answer c own0 core0 K = Some (sp_owner st, core, rs)"
    and h: "holds (sp_wire st) core (drop H rs)"
    using at unfolding span_at_def by blast
  have "drop H rs = rs ! H # drop (Suc H) rs"
    using lt pipe_run_length [OF run] by (simp add: Cons_nth_drop_Suc)
  then show ?thesis
    using recv_oldest [of "sp_wire st" core "rs ! H" "drop (Suc H) rs"] h run pipe_run_reply [OF run lt] by auto
qed

lemma span_at_receive:
  assumes plain: "plain_span c" and nocancel: "\<not> oo_cancelled oo (sp_owner st)"
    and at: "span_at oo c own0 core0 H K st" and lt: "H < K"
    and full: "K = chunk_total c \<or> \<not> K - H < span_window c" and early: "Suc H < chunk_total c"
  shows "\<exists>st'. span_round oo wo c (sc_cap c) st = (0, st') \<and> sp_owner st' = sp_owner st \<and>
    span_at oo c own0 core0 (Suc H) K st'"
proof -
  have cap: "0 < sc_cap c" and nomtp: "\<not> mi_mtp (sc_info c)" and noprep: "sc_prepared c = None"
    using plain by (auto simp: plain_span_def)
  obtain w' core rs where run: "pipe_run oo answer c own0 core0 K = Some (sp_owner st, core, rs)"
    and rec: "wo_recv wo (sp_wire st) = (w', Recv_Frame DIST_RESULT (rs ! H))"
    and h: "holds w' core (drop (Suc H) rs)" and ok: "chunk_reply_ok c H (rs ! H)"
    using span_receive_plain [OF plain at lt] by blast
  have i: "sp_ring st ! (H mod 64) = (sc_pos0 c + chunk_at c (Suc H), chunk_len c H, chunk_at c H)"
    "sp_verify st = None" "sp_count st = length (sc_tokens c)" "sp_head st = H" "sp_tail st = K"
    "sp_i st = chunk_at c K" "sp_logits st = None"
    using at lt by (auto simp: span_at_def)
  have notlast: "chunk_at c (Suc H) \<noteq> length (sc_tokens c)"
    using chunk_last_iff [OF cap, of H] early by simp
  have rows: "dist_result_rows oo wo (sc_id c) (span_n_embd c) (sp_wire st) (sp_owner st)
      (sc_pos0 c + chunk_at c (Suc H)) False 0 = (0, w', sp_owner st, [], None)"
    using ok early rec by (simp add: dist_result_rows_def chunk_reply_ok_def)
  define st1 where "st1 = st\<lparr>sp_head := Suc H, sp_wire := w', sp_logits := None\<rparr>"
  define st2 where "st2 = (if sc_report c then st1\<lparr>sp_progress := sp_progress st1 @
      [(sc_pos0 c + chunk_at c (Suc H), sc_pos0 c + length (sc_tokens c))]\<rparr> else st1)"
  have rcv: "span_receive oo wo c st = (0, st2)"
    using rows notlast nomtp noprep
    by (simp add: span_receive_def i Let_def span_last_def st2_def st1_def poke_def)
  have "\<not> (sp_i st < sp_count st \<and> sp_tail st - sp_head st < span_window c)"
    using full i(3-6) cap by auto
  then have "span_round oo wo c (sc_cap c) st = (0, st2)"
    using rcv nocancel by (simp only: span_round_def if_False simp_thms if_cancel)
  moreover have "sp_owner st2 = sp_owner st" by (simp add: st2_def st1_def)
  moreover have "span_at oo c own0 core0 (Suc H) K st2"
    using at h run lt unfolding span_at_def st2_def st1_def by auto
  ultimately show ?thesis by blast
qed

lemma span_at_last:
  assumes plain: "plain_span c" and nocancel: "\<not> oo_cancelled oo (sp_owner st)"
    and at: "span_at oo c own0 core0 H (chunk_total c) st" and last: "Suc H = chunk_total c"
    and ref: "pipe_span oo answer c own0 core0 = Some (own', core', l)"
  shows "\<exists>st'. span_round oo wo c (sc_cap c) st = (0, st') \<and> sp_i st' = sp_count st' \<and> sp_head st' = sp_tail st' \<and>
    sp_owner st' = own' \<and> sp_logits st' = Some l \<and> holds (sp_wire st') core' []"
proof -
  have cap: "0 < sc_cap c" and nomtp: "\<not> mi_mtp (sc_info c)" and noprep: "sc_prepared c = None"
    and logits: "sc_logits c"
    using plain by (auto simp: plain_span_def)
  have lt: "H < chunk_total c" using last by simp
  obtain w' core rs where run: "pipe_run oo answer c own0 core0 (chunk_total c) = Some (sp_owner st, core, rs)"
    and rec: "wo_recv wo (sp_wire st) = (w', Recv_Frame DIST_RESULT (rs ! H))"
    and h: "holds w' core (drop (Suc H) rs)" and ok: "chunk_reply_ok c H (rs ! H)"
    using span_receive_plain [OF plain at lt] by blast
  have len: "length rs = Suc H" using pipe_run_length [OF run] last by simp
  have "rs \<noteq> []" using len by auto
  then have lastrs: "last rs = rs ! H" by (simp add: last_conv_nth len)
  then have proj: "oo_project oo (sp_owner st) (dist_get_all (span_n_embd c) (drop 8 (rs ! H))) = (own', Some l)"
    and core: "core' = core"
    using ref len unfolding pipe_span_def run by (auto split: prod.splits option.splits)
  have i: "sp_ring st ! (H mod 64) = (sc_pos0 c + length (sc_tokens c), chunk_len c H, chunk_at c H)"
    "sp_verify st = None" "sp_count st = length (sc_tokens c)" "sp_head st = H" "sp_tail st = Suc H"
    "sp_i st = length (sc_tokens c)" "sp_logits st = None"
    using at lt last cap chunk_at_total [OF cap] by (auto simp: span_at_def)
  have rows: "dist_result_rows oo wo (sc_id c) (span_n_embd c) (sp_wire st) (sp_owner st)
      (sc_pos0 c + length (sc_tokens c)) True 1 =
      (0, w', own', dist_get_all (span_n_embd c) (drop 8 (rs ! H)), Some l)"
    using ok last rec proj cap by (simp add: dist_result_rows_def chunk_reply_ok_def)
  define st1 where "st1 = st\<lparr>sp_head := Suc H, sp_wire := w', sp_owner := own', sp_logits := Some l,
      sp_hidden := poke 0 (dist_get_all (span_n_embd c) (drop 8 (rs ! H))) (sp_hidden st)\<rparr>"
  define st2 where "st2 = (if sc_report c then st1\<lparr>sp_progress := sp_progress st1 @
      [(sc_pos0 c + length (sc_tokens c), sc_pos0 c + length (sc_tokens c))]\<rparr> else st1)"
  have rcv: "span_receive oo wo c st = (0, st2)"
    using rows nomtp noprep logits
    by (simp add: span_receive_def i Let_def span_last_def st2_def st1_def)
  have "\<not> (sp_i st < sp_count st \<and> sp_tail st - sp_head st < span_window c)"
    using i by auto
  then have "span_round oo wo c (sc_cap c) st = (0, st2)"
    using rcv nocancel by (simp only: span_round_def if_False simp_thms if_cancel)
  moreover have "holds w' core' []" using h len core by simp
  ultimately show ?thesis
    by (intro exI [of _ st2]) (auto simp: st2_def st1_def i)
qed

text \<open>The loop from any such point ends as the reference does.\<close>

lemma span_loop_windowed:
  assumes plain: "plain_span c" and nocancel: "\<And>own. \<not> oo_cancelled oo own"
    and ref: "pipe_span oo answer c own0 core0 = Some (own', core', l)"
  shows "span_at oo c own0 core0 H K st \<Longrightarrow> H < chunk_total c \<Longrightarrow>
    \<exists>st'. span_loop oo wo c (sc_cap c) st = Some (0, st') \<and> sp_owner st' = own' \<and>
      sp_logits st' = Some l \<and> holds (sp_wire st') core' []"
proof (induction "2 * (chunk_total c - K) + (K - H)" arbitrary: H K st rule: less_induct)
  case less
  have cap: "0 < sc_cap c" and win: "0 < span_window c"
    using plain by (auto simp: plain_span_def span_window_def)
  have all: "pipe_run oo answer c own0 core0 (chunk_total c) \<noteq> None"
    using ref by (auto simp: pipe_span_def split: option.splits)
  have K: "H \<le> K" "K \<le> chunk_total c" "sp_i st = chunk_at c K" "sp_count st = length (sc_tokens c)"
    "sp_head st = H" "sp_tail st = K"
    using less.prems(1) by (auto simp: span_at_def)
  have go: "sp_i st < sp_count st \<or> sp_head st \<noteq> sp_tail st"
    using K less.prems(2) chunk_len_before(4) [OF cap, of K] by (cases "K < chunk_total c") auto
  consider (send) "K < chunk_total c" "K - H < span_window c"
    | (recv) "K = chunk_total c \<or> \<not> K - H < span_window c" "Suc H < chunk_total c"
    | (last) "K = chunk_total c" "Suc H = chunk_total c"
    using K less.prems(2) win by force
  then show ?case
  proof cases
    case send
    obtain st' where st': "span_round oo wo c (sc_cap c) st = (0, st')" "span_at oo c own0 core0 H (Suc K) st'"
      using span_at_send [OF plain nocancel less.prems(1) send all] by blast
    have "2 * (chunk_total c - Suc K) + (Suc K - H) < 2 * (chunk_total c - K) + (K - H)"
      using send K(1) by linarith
    from less.hyps [OF this st'(2) less.prems(2)] show ?thesis
      using go st'(1) by (simp add: span_loop.simps [of oo wo c "sc_cap c" st])
  next
    case recv
    have "H < K" using recv K less.prems(2) win by force
    then obtain st' where st': "span_round oo wo c (sc_cap c) st = (0, st')" "span_at oo c own0 core0 (Suc H) K st'"
      using span_at_receive [OF plain nocancel less.prems(1) _ recv] by blast
    have "2 * (chunk_total c - K) + (K - Suc H) < 2 * (chunk_total c - K) + (K - H)"
      using \<open>H < K\<close> by linarith
    from less.hyps [OF this st'(2) recv(2)] show ?thesis
      using go st'(1) by (simp add: span_loop.simps [of oo wo c "sc_cap c" st])
  next
    case last
    obtain st' where st': "span_round oo wo c (sc_cap c) st = (0, st')" "sp_i st' = sp_count st'"
      "sp_head st' = sp_tail st'" "sp_owner st' = own'" "sp_logits st' = Some l" "holds (sp_wire st') core' []"
      using span_at_last [OF plain nocancel _ last(2) ref] less.prems(1) last(1) by blast
    show ?thesis
      using go st' by (simp add: span_loop.simps [of oo wo c "sc_cap c" st]
          span_loop.simps [of oo wo c "sc_cap c" st'])
  qed
qed

lemma span_loop_from_start:
  assumes plain: "plain_span c" and nocancel: "\<And>own. \<not> oo_cancelled oo own"
    and ref: "pipe_span oo answer c own0 core0 = Some (own', core', l)"
    and conn: "holds w core0 []"
  shows "\<exists>st'. span_loop oo wo c (sc_cap c) (span_init c None hidden target own0 w) = Some (0, st') \<and>
      sp_owner st' = own' \<and> sp_logits st' = Some l \<and> holds (sp_wire st') core' []"
proof (rule span_loop_windowed [OF plain nocancel ref])
  show "span_at oo c own0 core0 0 0 (span_init c None hidden target own0 w)"
    using plain conn by (auto simp: span_at_def span_init_def plain_span_def)
  show "0 < chunk_total c"
    using plain by (cases "sc_tokens c") (auto simp: chunk_total_def plain_span_def div_greater_zero_iff)
qed

text \<open>The whole of \<^verbatim>\<open>dist_eval_span_body\<close>.\<close>

lemma eval_span_windowed:
  assumes nomtp: "\<not> mi_mtp (sc_info c)" and prep: "sc_prepared c = None" and "sc_logits c" "sc_tokens c \<noteq> []"
    and "span_window c \<le> 64" "0 < unat (mi_n_embd (sc_info c))"
    and cap: "dist_span_cap (sc_info c) (sc_peer c) (sc_opt c) False (length (sc_tokens c)) = sc_cap c" "0 < sc_cap c"
    and nocancel: "\<And>own. \<not> oo_cancelled oo own"
    and ref: "pipe_span oo answer c own0 core0 = Some (own', core', l)"
    and conn: "holds w core0 []"
  shows "\<exists>st'. dist_eval_span_body oo wo c None None own0 w = Some (0, st') \<and>
      sp_owner st' = own' \<and> sp_logits st' = Some l \<and> holds (sp_wire st') core' []"
proof -
  have c: "c\<lparr>sc_prepared := None\<rparr> = c"
    using prep by (cases c) simp
  have plain: "plain_span c" using assms by (simp add: plain_span_def span_n_embd_def)
  have "sc_cap c \<le> dist_frame_cap (unat (mi_n_embd (sc_info c)))"
    by (simp add: cap(1) [symmetric] dist_span_cap_def Let_def)
  then have "sc_cap c * ((1 + unat (mi_n_embd (sc_info c))) * 4) \<le> DIST_MAX_FRAME - 16"
    unfolding dist_frame_cap_def using div_times_less_eq_dividend mult_le_mono1 order_trans by blast
  then have fits: "\<not> 16 + sc_cap c * (1 + unat (mi_n_embd (sc_info c))) * 4 > DIST_MAX_FRAME"
    by (simp add: DIST_MAX_FRAME_def mult.assoc algebra_simps)
  obtain st' where "span_loop oo wo c (sc_cap c)
      (span_init c None (replicate (sc_cap c * unat (mi_n_embd (sc_info c))) 0) [] own0 w) = Some (0, st')"
    "sp_owner st' = own'" "sp_logits st' = Some l" "holds (sp_wire st') core' []"
    using span_loop_from_start [OF plain nocancel ref conn] by blast
  then show ?thesis
    using fits by (auto simp: dist_eval_span_body_def Let_def cap(1) c)
qed

end

end
