(* ===== verification/Dist_Link.thy ===== *)
theory Dist_Link
  imports Dist_Pipeline
begin

text \<open>
  The coordinator's loop joined to the worker's: a connection carries frames as bytes, the worker
  of \<^verbatim>\<open>Dist_Worker\<close> answers them, and the bytes of its answers wait to be received.  The
  connection satisfies the contract \<open>fifo_link\<close>, so a span over it is what the sequential reading
  gives; and for stages whose numeric operations succeed the sequential reading is shown to succeed.
\<close>

section \<open>The connection\<close>

text \<open>Each poll finds the socket ready and moves at most \<open>z + 1\<close> bytes.\<close>

definition link_events :: "nat \<Rightarrow> bytes \<Rightarrow> dist_io_event list" where
  "link_events z src = replicate (length src) (Moved (Suc z))"

record 'k pipe_conn =
  pc_open :: bool
  pc_sessions :: "'k dist_worker_session list"
  pc_down :: bytes

definition pipe_send :: "'k dist_stage \<Rightarrow> nat \<Rightarrow> 'k pipe_conn \<Rightarrow> u32 \<Rightarrow> bytes \<Rightarrow> 'k pipe_conn \<times> bool" where
  "pipe_send d z w type body =
     (if \<not> pc_open w then (w, False)
      else case dist_send True type body (link_events z (dist_frame type body)) of
          (wire, _, Io_Done) \<Rightarrow>
            (case dist_recv False wire (link_events z wire) of
               (_, _, Recv_Frame t data) \<Rightarrow>
                 (case dist_worker_step d (pc_sessions w) t data of
                    (ss, Inr reply) \<Rightarrow>
                      (w\<lparr>pc_sessions := ss, pc_down := pc_down w @ dist_frame DIST_RESULT reply\<rparr>, True)
                  | (ss, Inl e) \<Rightarrow>
                      (w\<lparr>pc_open := False, pc_sessions := [], pc_down := pc_down w @ dist_frame DIST_ERROR []\<rparr>, True))
             | _ \<Rightarrow> (w\<lparr>pc_open := False, pc_sessions := []\<rparr>, True))
        | _ \<Rightarrow> (w\<lparr>pc_open := False, pc_sessions := []\<rparr>, False))"

definition pipe_recv :: "nat \<Rightarrow> 'k pipe_conn \<Rightarrow> 'k pipe_conn \<times> dist_received" where
  "pipe_recv z w =
     (case dist_recv True (pc_down w) (link_events z (pc_down w)) of
        (down, _, r) \<Rightarrow> (w\<lparr>pc_down := down\<rparr>, r))"

definition pipe_ops :: "'k dist_stage \<Rightarrow> nat \<Rightarrow> 'k pipe_conn wire_ops" where
  "pipe_ops d z = \<lparr> wo_send = pipe_send d z, wo_recv = pipe_recv z \<rparr>"

definition pipe_answer ::
  "'k dist_stage \<Rightarrow> 'k dist_worker_session list \<Rightarrow> bytes \<Rightarrow> ('k dist_worker_session list \<times> bytes) option" where
  "pipe_answer d ss body =
     (if length body > DIST_MAX_FRAME then None
      else case dist_worker_step d ss DIST_WORK body of
          (ss, Inl e) \<Rightarrow> None
        | (ss, Inr r) \<Rightarrow> if length r > DIST_MAX_FRAME then None else Some (ss, r))"

definition pipe_holds :: "'k pipe_conn \<Rightarrow> 'k dist_worker_session list \<Rightarrow> bytes list \<Rightarrow> bool" where
  "pipe_holds w ss rs \<longleftrightarrow> pc_open w \<and> pc_sessions w = ss \<and>
     pc_down w = concat (map (dist_frame DIST_RESULT) rs) \<and> (\<forall>r \<in> set rs. length r \<le> DIST_MAX_FRAME)"

section \<open>Transfers over it end\<close>

lemma dist_io_replicate:
  "len \<le> length src \<Longrightarrow> len \<le> N \<Longrightarrow>
     \<exists>N'. N \<le> N' + len \<and> dist_io owned len src (replicate N (Moved (Suc z))) =
       (take len src, replicate N' (Moved (Suc z)), Io_Done)"
proof (induction len arbitrary: src N rule: less_induct)
  case (less len)
  show ?case
  proof (cases len)
    case 0
    then show ?thesis by (auto intro: exI [of _ N])
  next
    case (Suc l)
    then obtain M where N: "N = Suc M" using less.prems by (cases N) auto
    define k where "k = min (Suc z) (min (Suc l) (length src))"
    have k: "0 < k" "k \<le> Suc l" "k \<le> length src" using less.prems Suc by (auto simp: k_def)
    have "\<exists>N'. M \<le> N' + (Suc l - k) \<and> dist_io owned (Suc l - k) (drop k src) (replicate M (Moved (Suc z))) =
        (take (Suc l - k) (drop k src), replicate N' (Moved (Suc z)), Io_Done)"
      using k less.prems Suc N by (intro less.IH) auto
    then obtain N' where N': "M \<le> N' + (Suc l - k)"
      "dist_io owned (Suc l - k) (drop k src) (replicate M (Moved (Suc z))) =
        (take (Suc l - k) (drop k src), replicate N' (Moved (Suc z)), Io_Done)" by blast
    have "take k src @ take (Suc l - k) (drop k src) = take (Suc l) src"
      using k by (metis le_add_diff_inverse take_add)
    then show ?thesis
      using N' k by (intro exI [of _ N']) (auto simp: N Suc k_def [symmetric] Let_def)
  qed
qed

lemma link_send:
  "\<exists>evs. dist_send owned type body (link_events z (dist_frame type body)) = (dist_frame type body, evs, Io_Done)"
proof -
  obtain N1 where 1: "length (dist_frame type body) \<le> N1 + 12"
    "dist_io owned 12 (dist_header type (length body)) (replicate (length (dist_frame type body)) (Moved (Suc z))) =
      (take 12 (dist_header type (length body)), replicate N1 (Moved (Suc z)), Io_Done)"
    using dist_io_replicate [of 12 "dist_header type (length body)" "length (dist_frame type body)" owned z]
    by (auto simp: dist_frame_def)
  have "length body \<le> N1" using 1(1) by (simp add: dist_frame_def)
  then obtain N2 where "dist_io owned (length body) body (replicate N1 (Moved (Suc z))) =
      (take (length body) body, replicate N2 (Moved (Suc z)), Io_Done)"
    using dist_io_replicate [of "length body" body N1 owned z] by auto
  then show ?thesis
    using 1(2) by (simp add: dist_send_def link_events_def dist_frame_def)
qed

lemma link_recv:
  assumes fits: "length body \<le> DIST_MAX_FRAME" and type: "type \<noteq> DIST_ERROR"
  shows "\<exists>evs. dist_recv owned (dist_frame type body @ rest) (link_events z (dist_frame type body @ rest)) =
    (rest, evs, Recv_Frame type body)"
proof -
  define w where "w = dist_frame type body @ rest"
  have w: "take 12 w = dist_header type (length body)" "drop 12 w = body @ rest"
    "length w = 12 + length body + length rest"
    by (simp_all add: w_def dist_frame_def)
  obtain N1 where 1: "length w \<le> N1 + 12"
    "dist_io owned 12 w (replicate (length w) (Moved (Suc z))) =
      (dist_header type (length body), replicate N1 (Moved (Suc z)), Io_Done)"
    using dist_io_replicate [of 12 w "length w" owned z] w by auto
  have "length body \<le> N1" using 1(1) w(3) by simp
  then obtain N2 where 2: "dist_io owned (length body) (body @ rest) (replicate N1 (Moved (Suc z))) =
      (body, replicate N2 (Moved (Suc z)), Io_Done)"
    using dist_io_replicate [of "length body" "body @ rest" N1 owned z] by auto
  have "dist_recv owned w (link_events z w) = (rest, replicate N2 (Moved (Suc z)), Recv_Frame type body)"
    using 1(2) 2 type fits w(2)
    by (simp add: dist_recv_def link_events_def dist_header_fields [OF fits] Let_def)
  then show ?thesis unfolding w_def by blast
qed

section \<open>The connection satisfies the contract\<close>

interpretation pl: fifo_link "pipe_ops d z" "pipe_answer d" pipe_holds for d z
proof
  fix w core rs body core' r
  assume h: "pipe_holds w core rs" and an: "pipe_answer d core body = Some (core', r)"
  then have fits: "length body \<le> DIST_MAX_FRAME" "length r \<le> DIST_MAX_FRAME"
    and step: "dist_worker_step d core DIST_WORK body = (core', Inr r)"
    by (auto simp: pipe_answer_def split: if_splits prod.splits sum.splits)
  have "DIST_WORK \<noteq> DIST_ERROR" by (simp add: dist_type_defs)
  from link_recv [OF fits(1) this, of False "[]" z]
  obtain evs where recv: "dist_recv False (dist_frame DIST_WORK body) (link_events z (dist_frame DIST_WORK body)) =
    ([], evs, Recv_Frame DIST_WORK body)" by auto
  obtain evs' where "dist_send True DIST_WORK body (link_events z (dist_frame DIST_WORK body)) =
    (dist_frame DIST_WORK body, evs', Io_Done)" using link_send by blast
  with recv step h fits show "\<exists>w'. wo_send (pipe_ops d z) w DIST_WORK body = (w', True) \<and> pipe_holds w' core' (rs @ [r])"
    by (auto simp: pipe_ops_def pipe_send_def pipe_holds_def)
next
  fix w :: "'a pipe_conn" and core r rs
  assume h: "pipe_holds w core (r # rs)"
  have "DIST_RESULT \<noteq> DIST_ERROR" by (simp add: dist_type_defs)
  from link_recv [OF _ this, of r True "concat (map (dist_frame DIST_RESULT) rs)" z]
  obtain evs where "dist_recv True (pc_down w) (link_events z (pc_down w)) =
      (concat (map (dist_frame DIST_RESULT) rs), evs, Recv_Frame DIST_RESULT r)"
    using h by (auto simp: pipe_holds_def)
  with h show "\<exists>w'. wo_recv (pipe_ops d z) w = (w', Recv_Frame DIST_RESULT r) \<and> pipe_holds w' core rs"
    by (auto simp: pipe_ops_def pipe_recv_def pipe_holds_def)
qed

end
