(* ===== verification/Dist_Coord.thy ===== *)
theory Dist_Coord
  imports Dist_Link Tokens "HOL-Library.Monad_Syntax"
begin

text \<open>
  The coordinator's sessions (\<^verbatim>\<open>q36_distributed.c\<close>): accepting a worker (\<^verbatim>\<open>dist_route\<close>), creating the
  session on it (\<^verbatim>\<open>dist_session_ready\<close>), sync, decode and speculation over it, and what a failure
  does (\<^verbatim>\<open>dist_disconnect\<close>).  The mutex makes each operation atomic.  A loop that may not end gives
  an option, and so does every operation that runs one.
\<close>

text \<open>What the wait for a worker sees, round by round; an accepted socket brings its hello.\<close>

datatype 'w route_event =
    Route_Cancelled
  | Route_Poll_Error
  | Route_Nothing
  | Route_Hello 'w "nat \<times> q36_dist_model_info option"

record 'w q36_dist_engine =
  de_opt :: q36_distributed_options
  de_info :: q36_dist_model_info
  de_peer :: q36_dist_model_info
  de_accepts :: "'w route_event list"
  de_fd :: "'w option"
  de_next_id :: u32
  de_generation :: u32

record q36_dist_session =
  dx_id :: u32
  dx_generation :: u32
  dx_ctx :: nat

section \<open>Connection and session\<close>

definition dist_disconnect :: "'w q36_dist_engine \<Rightarrow> 'w q36_dist_engine" where
  "dist_disconnect d = d\<lparr>de_fd := None\<rparr>"

text \<open>\<open>None\<close>: the wait has not ended when the events do.\<close>

fun dist_route_wait :: "'w route_event list \<Rightarrow> 'w q36_dist_engine \<Rightarrow> (nat \<times> 'w q36_dist_engine) option" where
  "dist_route_wait [] d = None"
| "dist_route_wait (ev # evs) d =
     (case ev of
        Route_Cancelled \<Rightarrow> Some (1, d\<lparr>de_accepts := evs\<rparr>)
      | Route_Poll_Error \<Rightarrow> Some (1, d\<lparr>de_accepts := evs\<rparr>)
      | Route_Nothing \<Rightarrow> dist_route_wait evs d
      | Route_Hello w (rc, peer) \<Rightarrow>
          if rc \<noteq> 0 then Some (1, d\<lparr>de_accepts := evs\<rparr>)
          else Some (0, d\<lparr>de_accepts := evs, de_fd := Some w, de_generation := de_generation d + 1,
                         de_peer := (case peer of None \<Rightarrow> de_peer d | Some p \<Rightarrow> p)\<rparr>))"

definition dist_route :: "'w q36_dist_engine \<Rightarrow> (nat \<times> 'w q36_dist_engine) option" where
  "dist_route d = (if de_fd d \<noteq> None then Some (0, d) else dist_route_wait (de_accepts d) d)"

text \<open>A request that is answered without rows; the connection is replaced by the one after it.\<close>

definition dist_request ::
  "'o owner_ops \<Rightarrow> 'w wire_ops \<Rightarrow> u32 \<Rightarrow> bytes \<Rightarrow> nat \<Rightarrow> q36_dist_session \<Rightarrow> 'w q36_dist_engine \<Rightarrow> 'o
   \<Rightarrow> nat \<times> 'w q36_dist_engine" where
  "dist_request oo wo type body pos s d own =
     (case de_fd d of
        None \<Rightarrow> (1, d)
      | Some w \<Rightarrow>
          (case wo_send wo w type body of
             (w, False) \<Rightarrow> (1, d\<lparr>de_fd := Some w\<rparr>)
           | (w, True) \<Rightarrow>
               (case dist_result oo wo (dx_id s) (unat (mi_n_embd (de_info d))) w own pos of
                  (rc, w) \<Rightarrow> (rc, d\<lparr>de_fd := Some w\<rparr>))))"

definition dist_session_ready ::
  "'o owner_ops \<Rightarrow> 'w wire_ops \<Rightarrow> q36_dist_session \<Rightarrow> 'w q36_dist_engine \<Rightarrow> 'o
   \<Rightarrow> (nat \<times> q36_dist_session \<times> 'w q36_dist_engine) option" where
  "dist_session_ready oo wo s d own =
     (case dist_route d of
        None \<Rightarrow> None
      | Some (rc, d) \<Rightarrow>
          if rc \<noteq> 0 then Some (1, s, d)
          else if dx_generation s = de_generation d then Some (0, s, d)
          else if dx_ctx s > unat (mi_context_size (de_peer d)) then Some (1, s, d)
          else case dist_request oo wo DIST_CREATE (dist_put (dx_id s) @ dist_put (word_of_nat (dx_ctx s))) 0 s d own of
              (rc, d) \<Rightarrow> if rc \<noteq> 0 then Some (1, s, d)
                         else Some (0, s\<lparr>dx_generation := de_generation d\<rparr>, d))"

definition q36_dist_session_create :: "'w q36_dist_engine \<Rightarrow> nat \<Rightarrow> q36_dist_session option \<times> 'w q36_dist_engine" where
  "q36_dist_session_create d ctx =
     (let sid = de_next_id d; d = d\<lparr>de_next_id := de_next_id d + 1\<rparr>
      in if sid = 0 then (None, d)
         else (Some \<lparr> dx_id = sid, dx_generation = 0, dx_ctx = ctx \<rparr>, d))"

definition q36_dist_session_free ::
  "'o owner_ops \<Rightarrow> 'w wire_ops \<Rightarrow> q36_dist_session \<Rightarrow> 'w q36_dist_engine \<Rightarrow> 'o \<Rightarrow> 'w q36_dist_engine" where
  "q36_dist_session_free oo wo s d own =
     (if de_fd d \<noteq> None \<and> dx_generation s = de_generation d then
        (case dist_request oo wo DIST_FREE (dist_put (dx_id s)) 0 s d own of
           (rc, d) \<Rightarrow> if rc \<noteq> 0 then dist_disconnect d else d)
      else d)"

definition q36_dist_engine_open ::
  "q36_distributed_options \<Rightarrow> q36_dist_model_info \<Rightarrow> 'w route_event list \<Rightarrow> bool \<Rightarrow> 'w q36_dist_engine option" where
  "q36_dist_engine_open opt info accepts listening =
     (if do_role opt = Q36_DISTRIBUTED_COORDINATOR \<and> \<not> listening then None
      else Some \<lparr> de_opt = opt, de_info = info,
             de_peer = \<lparr> mi_n_layers = 0, mi_n_embd = 0, mi_n_vocab = 0, mi_prefill_cap = 0, mi_context_size = 0,
                         mi_layer_start = 0, mi_layer_end = 0, mi_speculation = False, mi_mtp = False,
                         mi_fingerprint = 0 \<rparr>,
             de_accepts = accepts, de_fd = None, de_next_id = 1, de_generation = 0 \<rparr>)"

section \<open>Prefill with the prefix stage running ahead\<close>

text \<open>The MTP catch-up in pieces of the wire's size; pieces of size 0 would never end.\<close>

function catchup_pieces ::
  "'o owner_ops \<Rightarrow> int list \<Rightarrow> nat \<Rightarrow> nat \<Rightarrow> nat \<Rightarrow> u32 list \<Rightarrow> nat \<Rightarrow> nat \<Rightarrow> 'o \<Rightarrow> ('o \<times> bool) option" where
  "catchup_pieces oo tokens pos m wire target n j own =
     (if j < n then
        if wire = 0 then None
        else let rows = min (n - j) wire
             in case oo_catchup oo own (take rows (drop j tokens)) (pos + j) (take (rows * m) (drop (j * m) target)) of
                 (own, False) \<Rightarrow> Some (own, False)
               | (own, True) \<Rightarrow> catchup_pieces oo tokens pos m wire target n (j + rows) own
      else Some (own, True))"
  by pat_completeness auto
termination
  by (relation "measure (\<lambda>(oo, tokens, pos, m, wire, target, n, j, own). n - j)") auto

declare catchup_pieces.simps [simp del]

record ('o, 'w) prefill_state =
  pf_i :: nat
  pf_current :: "u32 list"
  pf_target :: "u32 list"
  pf_owner :: 'o
  pf_wire :: 'w
  pf_logits :: "u32 list option"
  pf_progress :: "(nat \<times> nat) list"

text \<open>
  One batch: an I/O thread exchanges the rows already computed while the prefix stage computes the
  next batch; they share no state.  \<open>waited\<close>: the callback asked for a stop while the exchange was
  awaited.
\<close>

definition prefill_round ::
  "'o owner_ops \<Rightarrow> 'w wire_ops \<Rightarrow> span_cfg \<Rightarrow> nat \<Rightarrow> (nat \<Rightarrow> bool) \<Rightarrow> ('o, 'w) prefill_state
   \<Rightarrow> (nat \<times> ('o, 'w) prefill_state) option" where
  "prefill_round oo wo c cap waited st =
     (let count = length (sc_tokens c); i = pf_i st; n = min (count - i) cap; pos = sc_pos0 c + i;
          m = span_n_embd c; mtp = mi_mtp (sc_info c); final = (i + n = count);
          tokens = take n (drop i (sc_tokens c))
      in if oo_cancelled oo (pf_owner st) then Some (2, st)
         else
           do {
             (jrc, js) \<leftarrow> dist_eval_span_body oo wo
                (c\<lparr>sc_tokens := tokens, sc_pos0 := pos, sc_logits := False, sc_report := False\<rparr>)
                None (Some (final, pf_current st, pf_target st)) (pf_owner st) (pf_wire st);
             let following = min (count - i - n) cap;
             let (own, ahead) = (if following = 0 then (pf_owner st, Some [])
                else oo_slice oo (pf_owner st) (take following (drop (i + n) (sc_tokens c))) (pos + n));
             let rc = (if waited i then 2 else if ahead = None then 1 else if jrc \<noteq> 0 then 1 else (0 :: nat));
             let st = st\<lparr>pf_owner := own, pf_wire := sp_wire js, pf_target := sp_target js\<rparr>;
             if rc \<noteq> 0 then Some (rc, st)
             else do {
               (own, ok) \<leftarrow> (if mtp
                  then catchup_pieces oo tokens pos m (dist_wire_cap (sc_info c) (sc_peer c) (sc_opt c))
                         (pf_target st) n 0 (pf_owner st)
                  else Some (pf_owner st, True));
               let st = st\<lparr>pf_owner := own\<rparr>;
               if \<not> ok then Some (1, st)
               else
                 let (own, l) = (if final
                        then oo_project oo (pf_owner st) (take m (drop (if mtp then (n - 1) * m else 0) (pf_target st)))
                        else (pf_owner st, Some []));
                     st = st\<lparr>pf_owner := own\<rparr>
                 in if l = None then Some (1, st)
                    else Some (0, st\<lparr>pf_i := i + n, pf_current := the ahead,
                                     pf_logits := (if final then l else pf_logits st),
                                     pf_progress := (if sc_report c then pf_progress st @ [(pos + n, sc_pos0 c + count)]
                                                     else pf_progress st)\<rparr>)
             }
           })"

partial_function (option) prefill_loop ::
  "'o owner_ops \<Rightarrow> 'w wire_ops \<Rightarrow> span_cfg \<Rightarrow> nat \<Rightarrow> (nat \<Rightarrow> bool) \<Rightarrow> ('o, 'w) prefill_state
   \<Rightarrow> (nat \<times> ('o, 'w) prefill_state) option" where
  "prefill_loop oo wo c cap waited st =
     (if pf_i st < length (sc_tokens c) then
        do { (rc, st) \<leftarrow> prefill_round oo wo c cap waited st;
             if rc \<noteq> 0 then Some (rc, st) else prefill_loop oo wo c cap waited st }
      else Some (0, st))"

text \<open>The results of a span: 0, 1 or 2 (interrupted), the stage, the connection and the logits.\<close>

definition dist_prefill_span ::
  "'o owner_ops \<Rightarrow> 'w wire_ops \<Rightarrow> (nat \<Rightarrow> bool) \<Rightarrow> span_cfg \<Rightarrow> nat \<Rightarrow> 'o \<Rightarrow> 'w
   \<Rightarrow> (nat \<times> 'o \<times> 'w \<times> u32 list option) option" where
  "dist_prefill_span oo wo waited c cap own w =
     (let m = span_n_embd c;
          (own, ok) = (if sc_pos0 c = 0 then oo_reset oo own else (own, True))
      in if \<not> ok then Some (1, own, w, None)
         else case oo_slice oo own (take cap (sc_tokens c)) (sc_pos0 c) of
             (own, None) \<Rightarrow> Some (1, own, w, None)
           | (own, Some rows) \<Rightarrow>
               map_option (\<lambda>(rc, st). (rc, pf_owner st, pf_wire st, pf_logits st))
                 (prefill_loop oo wo c cap waited
                    \<lparr> pf_i = 0, pf_current = rows,
                      pf_target = replicate (if mi_mtp (sc_info c) then cap * m else m) 0,
                      pf_owner = own, pf_wire = w, pf_logits = None, pf_progress = [] \<rparr>))"

section \<open>Spans of a session\<close>

definition span_cfg_of ::
  "q36_dist_session \<Rightarrow> 'w q36_dist_engine \<Rightarrow> int list \<Rightarrow> nat \<Rightarrow> bool \<Rightarrow> bool \<Rightarrow> span_cfg" where
  "span_cfg_of s d tokens pos0 report want =
     \<lparr> sc_id = dx_id s, sc_info = de_info d, sc_peer = de_peer d, sc_opt = de_opt d, sc_tokens = tokens,
       sc_pos0 = pos0, sc_prepared = None, sc_logits = want, sc_report = report, sc_cap = 0 \<rparr>"

definition dist_eval_span ::
  "'o owner_ops \<Rightarrow> 'w wire_ops \<Rightarrow> (nat \<Rightarrow> bool) \<Rightarrow> q36_dist_session \<Rightarrow> int list \<Rightarrow> nat \<Rightarrow> bool \<Rightarrow> bool
   \<Rightarrow> dist_verify option \<Rightarrow> 'w q36_dist_engine \<Rightarrow> 'o
   \<Rightarrow> (nat \<times> 'w q36_dist_engine \<times> 'o \<times> u32 list option \<times> dist_verify option) option" where
  "dist_eval_span oo wo waited s tokens pos0 report want verify d own =
     (case de_fd d of
        None \<Rightarrow> Some (1, d, own, None, verify)
      | Some w \<Rightarrow>
          let c = span_cfg_of s d tokens pos0 report want;
              cap = unat (mi_prefill_cap (de_info d)); wire = dist_wire_cap (de_info d) (de_peer d) (de_opt d)
          in if verify = None \<and> length tokens > cap \<and> cap > wire then
               map_option (\<lambda>(rc, own, w, l). (rc, d\<lparr>de_fd := Some w\<rparr>, own, l, verify))
                 (dist_prefill_span oo wo waited c cap own w)
             else
               map_option (\<lambda>(rc, st). (rc, d\<lparr>de_fd := Some (sp_wire st)\<rparr>, sp_owner st, sp_logits st, sp_verify st))
                 (dist_eval_span_body oo wo c verify None own w))"

text \<open>A failure ends the connection; a cancelled one answers 2.\<close>

definition dist_finish ::
  "'o owner_ops \<Rightarrow> nat \<Rightarrow> 'w q36_dist_engine \<Rightarrow> 'o \<Rightarrow> nat \<times> 'w q36_dist_engine" where
  "dist_finish oo rc d own =
     (if rc \<noteq> 0 then (if oo_cancelled oo own then 2 else rc, dist_disconnect d) else (0, d))"

definition dist_replay :: "q36_dist_session \<Rightarrow> 'w q36_dist_engine \<Rightarrow> bool" where
  "dist_replay s d \<longleftrightarrow> de_fd d = None \<or> dx_generation s \<noteq> de_generation d"

definition q36_dist_session_sync ::
  "'o owner_ops \<Rightarrow> 'w wire_ops \<Rightarrow> (nat \<Rightarrow> bool) \<Rightarrow> int list \<Rightarrow> int list \<Rightarrow> q36_dist_session \<Rightarrow> 'w q36_dist_engine \<Rightarrow> 'o
   \<Rightarrow> (nat \<times> q36_dist_session \<times> 'w q36_dist_engine \<times> 'o \<times> u32 list option) option" where
  "q36_dist_session_sync oo wo waited checkpoint prompt s d own =
     do {
       let replay = dist_replay s d;
       (rc, s, d) \<leftarrow> dist_session_ready oo wo s d own;
       let start = (if replay then 0 else length checkpoint);
       (rc, d, own, l) \<leftarrow>
         (if rc = 0 \<and> start < length prompt
          then map_option (\<lambda>(rc, d, own, l, v). (rc, d, own, l))
                 (dist_eval_span oo wo waited s (drop start prompt) start True True None d own)
          else Some (rc, d, own, None));
       let (rc, d) = dist_finish oo rc d own;
       Some (rc, s, d, own, l)
     }"

definition q36_dist_session_eval ::
  "'o owner_ops \<Rightarrow> 'w wire_ops \<Rightarrow> (nat \<Rightarrow> bool) \<Rightarrow> int list \<Rightarrow> int \<Rightarrow> q36_dist_session \<Rightarrow> 'w q36_dist_engine \<Rightarrow> 'o
   \<Rightarrow> (nat \<times> q36_dist_session \<times> 'w q36_dist_engine \<times> 'o \<times> u32 list option) option" where
  "q36_dist_session_eval oo wo waited checkpoint token s d own =
     do {
       let replay = dist_replay s d;
       (rc, s, d) \<leftarrow> dist_session_ready oo wo s d own;
       (rc, d, own) \<leftarrow>
         (if rc = 0 \<and> replay \<and> checkpoint \<noteq> []
          then map_option (\<lambda>(rc, d, own, l, v). (rc, d, own))
                 (dist_eval_span oo wo waited s checkpoint 0 True True None d own)
          else Some (rc, d, own));
       (rc, d, own, l) \<leftarrow>
         (if rc = 0
          then map_option (\<lambda>(rc, d, own, l, v). (rc, d, own, l))
                 (dist_eval_span oo wo waited s [token] (length checkpoint) False True None d own)
          else Some (rc, d, own, None));
       let (rc, d) = dist_finish oo rc d own;
       Some (rc, s, d, own, l)
     }"

section \<open>Speculation\<close>

function spec_commit_from :: "int list \<Rightarrow> int list \<Rightarrow> int \<Rightarrow> nat \<Rightarrow> nat \<Rightarrow> nat" where
  "spec_commit_from tokens tops eos count commit =
     (if commit < count \<and> tokens ! (commit - 1) \<noteq> eos then
        if tops ! (commit - 1) \<noteq> tokens ! commit then commit
        else spec_commit_from tokens tops eos count (commit + 1)
      else commit)"
  by pat_completeness auto
termination
  by (relation "measure (\<lambda>(tokens, tops, eos, count, commit). count - commit)") auto

declare spec_commit_from.simps [simp del]

text \<open>
  The number of tokens committed, or \<open>None\<close> (the code's -1), with the logits after them.  \<open>room\<close>
  is the refusal before anything is sent; afterwards any failure ends the connection.
\<close>

definition spec_refused :: "q36_dist_session \<Rightarrow> 'w q36_dist_engine \<Rightarrow> int list \<Rightarrow> nat \<Rightarrow> bool" where
  "spec_refused s d checkpoint count \<longleftrightarrow>
     \<not> mi_mtp (de_info d) \<or> checkpoint = [] \<or> count = 0 \<or> count > Q36_DIST_VERIFY_MAX \<or>
     length checkpoint > dx_ctx s \<or> count > dx_ctx s - length checkpoint"

definition spec_commit_phase ::
  "'o owner_ops \<Rightarrow> 'w wire_ops \<Rightarrow> q36_dist_session \<Rightarrow> int list \<Rightarrow> nat \<Rightarrow> nat \<Rightarrow> dist_verify
   \<Rightarrow> 'w q36_dist_engine \<Rightarrow> 'o \<Rightarrow> nat \<times> 'w q36_dist_engine \<times> 'o \<times> u32 list option" where
  "spec_commit_phase oo wo s tokens pos commit v d own =
     (case de_fd d of
        None \<Rightarrow> (1, d, own, None)
      | Some w \<Rightarrow>
          let (w, ok) = wo_send wo w DIST_COMMIT (dist_put (dx_id s) @ dist_put (word_of_nat commit));
              d = d\<lparr>de_fd := Some w\<rparr>
          in if \<not> ok then (1, d, own, None)
             else case oo_spec_commit oo own commit of
                 (own, False) \<Rightarrow> (1, d, own, None)
               | (own, True) \<Rightarrow>
                   (case oo_catchup oo own (take commit tokens) pos
                           (take (commit * unat (mi_n_embd (de_info d))) (dv_hidden v)) of
                      (own, False) \<Rightarrow> (1, d, own, None)
                    | (own, True) \<Rightarrow>
                        (case oo_read_logits oo own of
                           (own, None) \<Rightarrow> (1, d, own, None)
                         | (own, Some l) \<Rightarrow>
                             (case dist_result oo wo (dx_id s) (unat (mi_n_embd (de_info d))) w own (pos + commit) of
                                (rc, w) \<Rightarrow> (rc, d\<lparr>de_fd := Some w\<rparr>, own, Some l)))))"

definition q36_dist_session_speculate ::
  "'o owner_ops \<Rightarrow> 'w wire_ops \<Rightarrow> (nat \<Rightarrow> bool) \<Rightarrow> int list \<Rightarrow> int list \<Rightarrow> int \<Rightarrow> int
   \<Rightarrow> q36_dist_session \<Rightarrow> 'w q36_dist_engine \<Rightarrow> 'o
   \<Rightarrow> (nat option \<times> q36_dist_session \<times> 'w q36_dist_engine \<times> 'o \<times> u32 list option) option" where
  "q36_dist_session_speculate oo wo waited checkpoint tokens eos excluded s d own =
     (let count = length tokens; pos = length checkpoint in
      if spec_refused s d checkpoint count then Some (None, s, d, own, None)
      else do {
        let replay = dist_replay s d;
        (rc, s, d) \<leftarrow> dist_session_ready oo wo s d own;
        (rc, d, own) \<leftarrow>
          (if rc = 0 \<and> replay
           then map_option (\<lambda>(rc, d, own, l, v). (rc, d, own))
                  (dist_eval_span oo wo waited s checkpoint 0 False True None d own)
           else Some (rc, d, own));
        let (own, ok) = (if rc = 0 then oo_spec_begin oo own else (own, False));
        let rc = (if rc = 0 \<and> \<not> ok then 1 else rc);
        let v = \<lparr> dv_hidden = replicate (count * unat (mi_n_embd (de_info d))) 0, dv_tops = replicate Q36_DIST_VERIFY_MAX 0,
                  dv_excluded = excluded, dv_eos = eos, dv_count = 0, dv_stopped = False \<rparr>;
        (rc, d, own, v) \<leftarrow>
          (if rc = 0
           then map_option (\<lambda>(rc, d, own, l, v'). (rc, d, own, case v' of None \<Rightarrow> v | Some v' \<Rightarrow> v'))
                  (dist_eval_span oo wo waited s tokens pos False False (Some v) d own)
           else Some (rc, d, own, v));
        let commit = (if rc = 0 then spec_commit_from tokens (dv_tops v) eos (dv_count v) 1 else 1);
        let (rc, d, own, l) = (if rc = 0 then spec_commit_phase oo wo s tokens pos commit v d own
                               else (rc, d, own, None));
        if rc \<noteq> 0 then Some (None, s, dist_disconnect d, own, None)
        else Some (Some commit, s, d, own, l)
      })"

text \<open>\<^verbatim>\<open>q36_session_verify_pipeline\<close>: the committed tokens join the checkpoint; a failure clears it.\<close>

definition q36_session_verify_pipeline :: "int list \<Rightarrow> int list \<Rightarrow> nat option \<Rightarrow> (int list \<times> bool) \<times> int" where
  "q36_session_verify_pipeline checkpoint tokens committed =
     (case committed of
        None \<Rightarrow> (([], False), - 1)
      | Some n \<Rightarrow> if n < 1 then (([], False), - 1)
                  else ((foldl q36_tokens_push checkpoint (take n tokens), True), int n))"

section \<open>Facts on the connection\<close>

lemma dist_route_cases:
  assumes "dist_route d = Some (rc, d')"
  shows "de_info d' = de_info d \<and> de_opt d' = de_opt d \<and>
    (rc = 0 \<longrightarrow> de_fd d' \<noteq> None \<and> (de_fd d = None \<longrightarrow> de_generation d' = de_generation d + 1) \<and>
       (de_fd d \<noteq> None \<longrightarrow> d' = d))"
proof -
  have "de_info d' = de_info e \<and> de_opt d' = de_opt e \<and>
      (rc = 0 \<longrightarrow> de_fd d' \<noteq> None \<and> de_generation d' = de_generation e + 1)"
    if "dist_route_wait evs e = Some (rc, d')" for evs e
    using that by (induction evs e rule: dist_route_wait.induct) (auto split: route_event.splits prod.splits if_splits)
  from this [of "de_accepts d" d] show ?thesis
    using assms by (auto simp: dist_route_def split: if_splits)
qed

lemma dist_request_engine:
  "dist_request oo wo type body pos s d own = (rc, d') \<Longrightarrow>
     de_generation d' = de_generation d \<and> de_info d' = de_info d \<and> de_peer d' = de_peer d \<and> de_opt d' = de_opt d \<and>
     (de_fd d' = None \<longleftrightarrow> de_fd d = None)"
  by (auto simp: dist_request_def split: option.splits prod.splits bool.splits)

text \<open>A session that is ready belongs to the present connection.\<close>

lemma dist_ready_current:
  assumes "dist_session_ready oo wo s d own = Some (0, s', d')"
  shows "de_fd d' \<noteq> None" and "dx_generation s' = de_generation d'" and "dx_id s' = dx_id s" "dx_ctx s' = dx_ctx s"
    and "de_info d' = de_info d" "de_opt d' = de_opt d"
    and "\<not> dist_replay s d \<Longrightarrow> s' = s \<and> d' = d"
proof -
  obtain d1 where route: "dist_route d = Some (0, d1)"
    and rest: "(dx_generation s = de_generation d1 \<and> s' = s \<and> d' = d1) \<or>
      (dx_generation s \<noteq> de_generation d1 \<and> s' = s\<lparr>dx_generation := de_generation d'\<rparr> \<and>
       (\<exists>body. dist_request oo wo DIST_CREATE body 0 s d1 own = (0, d')))"
    using assms by (auto simp: dist_session_ready_def split: option.splits prod.splits if_splits)
  note r = dist_route_cases [OF route]
  have same: "de_info d' = de_info d1" "de_opt d' = de_opt d1" "de_fd d' = None \<longleftrightarrow> de_fd d1 = None"
    using rest dist_request_engine [of oo wo DIST_CREATE _ 0 s d1 own 0 d'] by auto
  show "de_fd d' \<noteq> None" "de_info d' = de_info d" "de_opt d' = de_opt d" using same r by auto
  show "dx_generation s' = de_generation d'" "dx_id s' = dx_id s" "dx_ctx s' = dx_ctx s"
    using rest by auto
  show "\<not> dist_replay s d \<Longrightarrow> s' = s \<and> d' = d"
    using rest r by (auto simp: dist_replay_def)
qed

lemma dist_span_engine:
  "dist_eval_span oo wo waited s tokens pos0 report want v d own = Some (rc, d', own', l, v') \<Longrightarrow>
     de_fd d \<noteq> None \<Longrightarrow> de_fd d' \<noteq> None \<and> de_generation d' = de_generation d"
  by (auto simp: dist_eval_span_def Let_def split: option.splits if_splits)

text \<open>
  After a sync or a decode the session is on the present connection and that one is up, or the
  operation failed and there is no connection, so that the next one replays from the start.
\<close>

lemma dist_finish_cases:
  "dist_finish oo rc d own = (rc', d') \<Longrightarrow>
     (rc' = 0 \<longleftrightarrow> rc = 0) \<and> (rc = 0 \<longrightarrow> d' = d) \<and> (rc \<noteq> 0 \<longrightarrow> de_fd d' = None)"
  by (auto simp: dist_finish_def dist_disconnect_def split: if_splits)

lemma sync_connection:
  assumes "q36_dist_session_sync oo wo waited checkpoint prompt s d own = Some (rc, s', d', own', l)"
  shows "(rc = 0 \<longrightarrow> de_fd d' \<noteq> None \<and> dx_generation s' = de_generation d' \<and> \<not> dist_replay s' d') \<and>
    (rc \<noteq> 0 \<longrightarrow> de_fd d' = None \<and> dist_replay s' d')"
proof -
  obtain rc1 s1 d1 where ready: "dist_session_ready oo wo s d own = Some (rc1, s1, d1)"
    using assms by (auto simp: q36_dist_session_sync_def bind_eq_Some_conv)
  define start where "start = (if dist_replay s d then 0 else length checkpoint)"
  obtain rc2 d2 own2 l2 where span: "(if rc1 = 0 \<and> start < length prompt
          then map_option (\<lambda>(rc, d, own, l, v). (rc, d, own, l))
                 (dist_eval_span oo wo waited s1 (drop start prompt) start True True None d1 own)
          else Some (rc1, d1, own, None)) = Some (rc2, d2, own2, l2)"
    and fins: "\<forall>x1 x2. dist_finish oo rc2 d2 own2 = (x1, x2) \<longrightarrow> x1 = rc \<and> x2 = d' \<and> s' = s1"
    using assms ready by (fastforce simp: q36_dist_session_sync_def start_def [symmetric] bind_eq_Some_conv)
  have fin: "dist_finish oo rc2 d2 own2 = (rc, d')" and s': "s' = s1"
    using fins by (cases "dist_finish oo rc2 d2 own2", simp)+
  show ?thesis
  proof (cases "rc2 = 0")
    case True
    have "rc1 = 0" using span True by (auto split: if_splits)
    note r = dist_ready_current [OF ready [unfolded this]]
    have "de_fd d2 \<noteq> None \<and> de_generation d2 = de_generation d1"
      using span r(1) True dist_span_engine
      by (fastforce split: if_splits)
    then show ?thesis
      using dist_finish_cases [OF fin] True r by (auto simp: s' dist_replay_def)
  next
    case False
    then show ?thesis
      using dist_finish_cases [OF fin] by (auto simp: dist_replay_def)
  qed
qed

text \<open>How many candidates are committed.\<close>

lemma spec_commit_from_spec:
  assumes "commit \<le> count" "0 < commit"
    and "\<forall>j < commit - 1. tops ! j = tokens ! Suc j \<and> tokens ! j \<noteq> eos"
  shows "commit \<le> spec_commit_from tokens tops eos count commit \<and>
    spec_commit_from tokens tops eos count commit \<le> count \<and>
    (\<forall>j < spec_commit_from tokens tops eos count commit - 1. tops ! j = tokens ! Suc j \<and> tokens ! j \<noteq> eos) \<and>
    (let n = spec_commit_from tokens tops eos count commit
     in n = count \<or> tokens ! (n - 1) = eos \<or> tops ! (n - 1) \<noteq> tokens ! n)"
  using assms
proof (induction tokens tops eos count commit rule: spec_commit_from.induct)
  case (1 tokens tops eos count commit)
  show ?case
  proof (cases "commit < count \<and> tokens ! (commit - 1) \<noteq> eos \<and> tops ! (commit - 1) = tokens ! commit")
    case True
    have "\<forall>j < commit + 1 - 1. tops ! j = tokens ! Suc j \<and> tokens ! j \<noteq> eos"
    proof (intro allI impI)
      fix j assume "j < commit + 1 - 1"
      then show "tops ! j = tokens ! Suc j \<and> tokens ! j \<noteq> eos"
        using True "1.prems" by (cases "j = commit - 1") auto
    qed
    then show ?thesis
      using "1.IH" True by (subst (1 2 3 4) spec_commit_from.simps) (auto simp: Let_def)
  next
    case False
    then have "spec_commit_from tokens tops eos count commit = commit"
      by (subst spec_commit_from.simps) auto
    then show ?thesis using False "1.prems" by (auto simp: Let_def)
  qed
qed

end
