(* ===== verification/Dist_Serve.thy ===== *)
theory Dist_Serve
  imports Dist_Coord
begin

text \<open>
  A whole span served: for stages whose numeric operations succeed, the worker accepts every frame
  the coordinator sends (none is out of shape, position or sequence), so the span ends with the
  logits and both stages stand after its last token.
\<close>

definition stage_total :: "'k slice_engine \<Rightarrow> nat \<Rightarrow> bool" where
  "stage_total e m \<longleftrightarrow> (\<forall>k a b. fst (se_reserve e k a b)) \<and>
     (\<forall>k ts i p. snd (se_forward e k ts i p) \<noteq> None) \<and>
     (\<forall>k n. \<exists>row. se_final_hidden e k n = Some row \<and> length row = m)"

definition owner_total :: "'o owner_ops \<Rightarrow> nat \<Rightarrow> bool" where
  "owner_total oo m \<longleftrightarrow> (\<forall>own. \<not> oo_cancelled oo own \<and> snd (oo_reset oo own)) \<and>
     (\<forall>own ts p. \<exists>own' rows. oo_slice oo own ts p = (own', Some rows) \<and> length rows = length ts * m) \<and>
     (\<forall>own row. snd (oo_project oo own row) \<noteq> None)"

text \<open>The worker's engine runs the layers it announced, up to the output.\<close>

definition stage_layers :: "'k dist_stage \<Rightarrow> bool" where
  "stage_layers d \<longleftrightarrow>
     unat (mi_layer_start (dw_info d)) = se_layer_start (dw_engine d) \<and>
     unat (mi_layer_end (dw_info d)) = se_layer_end (dw_engine d) \<and>
     se_layer_end (dw_engine d) + 1 = se_n_layer (dw_engine d) \<and>
     unat (mi_prefill_cap (dw_info d)) \<le> se_prefill_cap (dw_engine d) \<and>
     se_n_vocab (dw_engine d) < 2 ^ 31"

text \<open>The span fits the worker: its batch, its frame, its vocabulary and its context.\<close>

definition span_fits :: "span_cfg \<Rightarrow> 'k dist_stage \<Rightarrow> nat \<Rightarrow> bool" where
  "span_fits c d ctx \<longleftrightarrow> plain_span c \<and>
     mi_n_embd (dw_info d) = mi_n_embd (sc_info c) \<and> sc_cap c \<le> unat (mi_prefill_cap (dw_info d)) \<and>
     16 + sc_cap c * (1 + span_n_embd c) * 4 \<le> DIST_MAX_FRAME \<and>
     list_all (\<lambda>t. 0 \<le> t \<and> t < int (se_n_vocab (dw_engine d))) (sc_tokens c) \<and>
     sc_pos0 c + length (sc_tokens c) \<le> ctx \<and> ctx \<le> Q36_CONTEXT_ALLOC_MAX"

text \<open>Where the worker's session stands before chunk \<open>k\<close>.\<close>

definition session_at :: "'k dist_stage \<Rightarrow> 'k dist_worker_session list \<Rightarrow> u32 \<Rightarrow> nat \<Rightarrow> nat \<Rightarrow> bool" where
  "session_at d ss sid ctx pos \<longleftrightarrow> (\<exists>s. ws_find sid ss = Some s \<and> worker_session_ok d s \<and> \<not> ws_spec s \<and>
     ws_ctx s = ctx \<and> (pos \<noteq> 0 \<longrightarrow> sl_pos (ws_session s) = pos))"

lemma sint_word_of_int_small:
  "0 \<le> t \<Longrightarrow> t < 2 ^ 31 \<Longrightarrow> sint (word_of_int t :: u32) = t"
  by (simp add: signed_of_int signed_take_bit_int_eq_self)

lemma tokens_over_wire:
  assumes "list_all (\<lambda>t. 0 \<le> t \<and> t < int v) ts" "v < 2 ^ 31"
  shows "map sint (map (word_of_int :: int \<Rightarrow> u32) ts) = ts"
  using assms
proof (induction ts)
  case (Cons t ts)
  have "int v < int (2 ^ 31)" using Cons.prems(2) by (simp only: of_nat_less_iff)
  then have "int v < 2 ^ 31" by simp
  then have "sint (word_of_int t :: u32) = t"
    using Cons.prems(1) by (intro sint_word_of_int_small) auto
  with Cons show ?case by simp
qed simp

lemma span_flags_bits [simp]:
  "has_flag (0 OR DIST_LOGITS) DIST_LOGITS" "\<not> has_flag (DIST_RESET OR 0) DIST_LOGITS" "\<not> has_flag 0 f"
  "\<not> has_flag (0 OR DIST_LOGITS) DIST_RESET" "has_flag (DIST_RESET OR a) DIST_RESET"
  "has_flag (a OR DIST_LOGITS) DIST_LOGITS"
  by (simp_all add: has_flag_def dist_flag_defs bit.conj_disj_distrib2)

definition plain_flags :: "bool \<Rightarrow> bool \<Rightarrow> u32" where
  "plain_flags reset logits = (if reset then DIST_RESET else 0) OR (if logits then DIST_LOGITS else 0)"

lemma plain_flags:
  "has_flag (plain_flags r l) DIST_RESET = r" "has_flag (plain_flags r l) DIST_LOGITS = l"
  "\<not> has_flag (plain_flags r l) DIST_ROWS" "\<not> has_flag (plain_flags r l) DIST_SPEC"
  "\<not> has_flag (plain_flags r l) DIST_BEGIN"
  "plain_flags r l AND NOT (DIST_RESET OR DIST_LOGITS OR DIST_ROWS OR DIST_SPEC OR DIST_BEGIN) = 0"
  by (cases r; cases l; simp add: plain_flags_def has_flag_def dist_flag_defs)+

lemma slice_eval_succeeds:
  assumes "stage_total e m" "n = length ts" "0 < n" "pos = sl_pos s" "pos + n \<le> sl_ctx s" "a = se_layer_start e" "b = se_layer_end e"
    and "list_all (\<lambda>t. 0 \<le> t \<and> t < int (se_n_vocab e)) ts" "\<not> sl_spec_active s"
  shows "\<exists>t rows. q36_session_eval_layer_slice e s ts pos a b (Some i) = (t, Some rows) \<and>
     sl_pos t = pos + n \<and> sl_ctx t = sl_ctx s \<and> \<not> sl_spec_active t"
proof -
  obtain k where res: "se_reserve e (sl_kv s) (pos + n) pos = (True, k)"
    using assms(1) unfolding stage_total_def by (metis prod.collapse)
  obtain k' rows where fwd: "se_forward e k ts (Some i) pos = (k', Some rows)"
    using assms(1) unfolding stage_total_def by (metis prod.collapse not_None_eq)
  show ?thesis
    using assms(2-) res fwd by (auto simp: q36_session_eval_layer_slice_def Let_def)
qed

lemma worker_answers_chunk:
  assumes tot: "stage_total (dw_engine d) (span_n_embd c)" and lay: "stage_layers d"
    and fits: "span_fits c d ctx" and k: "k < chunk_total c"
    and at: "session_at d ss (sc_id c) ctx (sc_pos0 c + chunk_at c k)"
    and rows: "length rows = chunk_len c k * span_n_embd c"
  shows "\<exists>ss' r. pipe_answer d ss (chunk_body c k rows) = Some (ss', r) \<and> chunk_reply_ok c k r \<and>
    session_at d ss' (sc_id c) ctx (sc_pos0 c + chunk_at c (Suc k))"
proof -
  define n where "n = chunk_len c k"
  define pos where "pos = sc_pos0 c + chunk_at c k"
  define m where "m = span_n_embd c"
  define fl where "fl = plain_flags (pos = 0) (Suc k = chunk_total c)"
  define body where "body = dist_work_body (sc_id c) pos n fl (chunk_tokens c k) rows"
  obtain s where s: "ws_find (sc_id c) ss = Some s" "worker_session_ok d s" "\<not> ws_spec s" "ws_ctx s = ctx"
    "pos \<noteq> 0 \<longrightarrow> sl_pos (ws_session s) = pos"
    using at [unfolded session_at_def, folded pos_def] by (elim exE conjE) (rule that)
  have cap: "0 < sc_cap c" using fits by (simp add: span_fits_def plain_span_def)
  note cl = chunk_len_before [OF cap k, folded n_def]
  have body: "chunk_body c k rows = body"
    by (simp add: chunk_body_def body_def n_def pos_def fl_def chunk_flags_def plain_flags_def)
  have m: "unat (mi_n_embd (dw_info d)) = m" "0 < m"
    using fits by (simp_all add: span_fits_def m_def span_n_embd_def plain_span_def)
  have n: "n \<le> sc_cap c" "n \<le> unat (mi_prefill_cap (dw_info d))"
    using fits cl(1) by (auto simp: span_fits_def min_def)
  have ctx: "pos + n \<le> ctx" "ctx \<le> 262145" "pos + n = sc_pos0 c + chunk_at c (Suc k)"
    using fits cl(3,4) chunk_len_before(3) [OF cap k] by (auto simp: span_fits_def pos_def Q36_CONTEXT_ALLOC_MAX_def chunk_at_def)
  have len: "length body = 16 + n * (1 + m) * 4" "length body \<le> DIST_MAX_FRAME"
  proof -
    show *: "length body = 16 + n * (1 + m) * 4"
      using rows cl(5) by (simp add: body_def n_def m_def algebra_simps)
    have "n * (1 + m) * 4 \<le> sc_cap c * (1 + m) * 4" by (intro mult_le_mono1 n(1))
    then show "length body \<le> DIST_MAX_FRAME" using fits * by (simp add: span_fits_def m_def)
  qed
  have fields: "dist_get body = sc_id c" "unat (dist_get (drop 4 body)) = pos" "unat (dist_get (drop 8 body)) = n"
    "dist_get (drop 12 body) = fl" "dist_get_all n (drop 16 body) = map word_of_int (chunk_tokens c k)"
    using ctx cl(5) by (simp_all add: body_def dist_work_fields unat_word_of_nat_small)
  have sid: "sc_id c \<noteq> 0" "ws_id s = sc_id c"
    using s(2) ws_find_Some [OF s(1)] by (simp_all add: worker_session_ok_def)
  have good: "\<not> dist_work_bad d s (length body) pos n fl"
    using cl(2) n(2) len(1) ctx s m by (auto simp: dist_work_bad_def fl_def plain_flags plain_flags(6) [simplified])
  define s1 where "s1 = (if pos = 0 then s\<lparr>ws_session := q36_session_layer_slice_reset (dw_engine d) (ws_session s)\<rparr> else s)"
  have s1: "sl_pos (ws_session s1) = pos" "sl_ctx (ws_session s1) = ctx" "\<not> sl_spec_active (ws_session s1)"
    "ws_id s1 = sc_id c" "ws_spec s1 = False" "ws_ctx s1 = ctx"
    using s sid by (auto simp: s1_def q36_session_layer_slice_reset_def worker_session_ok_def)
  have toks: "map sint (dist_get_all n (drop 16 body)) = chunk_tokens c k"
    and voc: "list_all (\<lambda>t. 0 \<le> t \<and> t < int (se_n_vocab (dw_engine d))) (chunk_tokens c k)"
  proof -
    show voc: "list_all (\<lambda>t. 0 \<le> t \<and> t < int (se_n_vocab (dw_engine d))) (chunk_tokens c k)"
      using fits by (auto simp: span_fits_def chunk_tokens_def list_all_iff dest!: in_set_takeD in_set_dropD)
    show "map sint (dist_get_all n (drop 16 body)) = chunk_tokens c k"
      unfolding fields(5) using tokens_over_wire [OF voc] lay by (simp add: stage_layers_def)
  qed
  have lay': "unat (mi_layer_start (dw_info d)) = se_layer_start (dw_engine d)"
    "unat (mi_layer_end (dw_info d)) = se_layer_end (dw_engine d)"
    using lay by (simp_all add: stage_layers_def)
  obtain t out where ev: "q36_session_eval_layer_slice (dw_engine d) (ws_session s1) (chunk_tokens c k) pos
      (unat (mi_layer_start (dw_info d))) (unat (mi_layer_end (dw_info d)))
      (Some (dist_get_all (n * m) (drop (16 + 4 * n) body))) = (t, Some out)"
    and t: "sl_pos t = pos + n" "\<not> sl_spec_active t"
  proof -
    have "pos + n \<le> sl_ctx (ws_session s1)" using ctx(1) s1(2) by simp
    from slice_eval_succeeds [OF tot cl(5) [symmetric] cl(2) s1(1) [symmetric] this lay' voc s1(3),
        of "dist_get_all (n * m) (drop (16 + 4 * n) body)"]
    show ?thesis using that by (elim exE conjE) (rule that)
  qed
  obtain row where row: "Suc k = chunk_total c \<Longrightarrow> q36_session_read_final_hidden (dw_engine d) t n = Some row"
    "length row = m"
    using tot lay cl(2) n(2) unfolding stage_total_def stage_layers_def q36_session_read_final_hidden_def m_def
    by (metis (no_types, lifting) linorder_not_less order_trans less_irrefl)
  define r where "r = dist_worker_result (sc_id c) (pos + n) (if Suc k = chunk_total c then row else [])"
  have work: "dist_worker_work d s body = (s1\<lparr>ws_session := t\<rparr>, Inr r)"
  proof -
    have "take (1 * m) row = row" using row(2) by simp
    then show ?thesis
      using good row(1) ev m s1(4)
      by (simp add: dist_worker_work_def Let_def fields(1-4) toks m(1) fl_def plain_flags s1_def [symmetric] r_def)
  qed
  have step: "dist_worker_step d ss DIST_WORK body = (ws_put (s1\<lparr>ws_session := t\<rparr>) ss, Inr r)"
    using sid fields(1) s(1) len(1) work
    by (simp add: dist_worker_step_def dist_type_defs s(3))
  have rlen: "length r = 8 + (if Suc k = chunk_total c then m else 0) * 4"
    using row(2) by (simp add: r_def)
  have "m * 4 \<le> n * (1 + m) * 4" using cl(2) by (cases n) auto
  then have "length r \<le> DIST_MAX_FRAME" using rlen len by simp
  then have ans: "pipe_answer d ss body = Some (ws_put (s1\<lparr>ws_session := t\<rparr>) ss, r)"
    using step len(2) by (simp add: pipe_answer_def)
  have "chunk_reply_ok c k r"
    using rlen ctx(3) by (simp add: chunk_reply_ok_def m_def) (simp add: r_def dist_result_fields ctx(3))
  moreover have "session_at d (ws_put (s1\<lparr>ws_session := t\<rparr>) ss) (sc_id c) ctx (pos + n)"
    using worker_work_ok [OF s(2) work] s1 s(1) t by (auto simp: session_at_def)
  ultimately show ?thesis
    using ans ctx(3) unfolding body by (metis pos_def)
qed

text \<open>Hence the sequential reading of the whole span succeeds.\<close>

lemma pipe_run_succeeds:
  assumes tot: "stage_total (dw_engine d) (span_n_embd c)" and lay: "stage_layers d"
    and own: "owner_total oo (span_n_embd c)" and fits: "span_fits c d ctx"
    and at: "session_at d ss (sc_id c) ctx (sc_pos0 c)"
  shows "k \<le> chunk_total c \<Longrightarrow> \<exists>own' ss' rs. pipe_run oo (pipe_answer d) c own0 ss k = Some (own', ss', rs) \<and>
    session_at d ss' (sc_id c) ctx (sc_pos0 c + chunk_at c k)"
proof (induction k)
  case 0
  then show ?case using at by simp
next
  case (Suc k)
  then obtain own1 ss1 rs where run: "pipe_run oo (pipe_answer d) c own0 ss k = Some (own1, ss1, rs)"
    and at1: "session_at d ss1 (sc_id c) ctx (sc_pos0 c + chunk_at c k)" by auto
  have k: "k < chunk_total c" using Suc.prems by simp
  have cap: "0 < sc_cap c" using fits by (simp add: span_fits_def plain_span_def)
  define own2 where "own2 = fst (if sc_pos0 c + chunk_at c k = 0 then oo_reset oo own1 else (own1, True))"
  have reset: "(if sc_pos0 c + chunk_at c k = 0 then oo_reset oo own1 else (own1, True)) = (own2, True)"
    using own by (auto simp: owner_total_def own2_def prod_eq_iff)
  obtain own3 rows where slice: "oo_slice oo own2 (chunk_tokens c k) (sc_pos0 c + chunk_at c k) = (own3, Some rows)"
    and len: "length rows = chunk_len c k * span_n_embd c"
    using own chunk_len_before(5) [OF cap k] unfolding owner_total_def by metis
  have "chunk_slice oo c own1 k = Some (own3, rows)"
    using slice len by (simp only: chunk_slice_def reset prod.case bool.case option.case if_True refl)
  moreover obtain ss2 r where "pipe_answer d ss1 (chunk_body c k rows) = Some (ss2, r)" "chunk_reply_ok c k r"
    "session_at d ss2 (sc_id c) ctx (sc_pos0 c + chunk_at c (Suc k))"
    using worker_answers_chunk [OF tot lay fits k at1 len] by blast
  ultimately show ?case using run by auto
qed

text \<open>And so does the windowed loop over the connection, for any window.\<close>

lemma span_served:
  assumes tot: "stage_total (dw_engine d) (span_n_embd c)" and lay: "stage_layers d"
    and own: "owner_total oo (span_n_embd c)" and fits: "span_fits c d ctx"
    and at: "session_at d ss (sc_id c) ctx (sc_pos0 c)"
    and cap: "dist_span_cap (sc_info c) (sc_peer c) (sc_opt c) False (length (sc_tokens c)) = sc_cap c"
    and conn: "pipe_holds w ss []"
  shows "\<exists>st ss' l. dist_eval_span_body oo (pipe_ops d z) c None None own0 w = Some (0, st) \<and>
      sp_logits st = Some l \<and> pipe_holds (sp_wire st) ss' [] \<and>
      session_at d ss' (sc_id c) ctx (sc_pos0 c + length (sc_tokens c))"
proof -
  have plain: "plain_span c" using fits by (simp add: span_fits_def)
  obtain own1 ss1 rs where run: "pipe_run oo (pipe_answer d) c own0 ss (chunk_total c) = Some (own1, ss1, rs)"
    and at1: "session_at d ss1 (sc_id c) ctx (sc_pos0 c + chunk_at c (chunk_total c))"
    using pipe_run_succeeds [OF tot lay own fits at] by blast
  obtain own2 l where proj: "oo_project oo own1 (dist_get_all (span_n_embd c) (drop 8 (last rs))) = (own2, Some l)"
    using own unfolding owner_total_def by (metis prod.collapse not_None_eq)
  have ref: "pipe_span oo (pipe_answer d) c own0 ss = Some (own2, ss1, l)"
    using run proj by (simp add: pipe_span_def)
  have p: "\<not> mi_mtp (sc_info c)" "sc_prepared c = None" "sc_logits c" "0 < sc_cap c" "sc_tokens c \<noteq> []"
    "span_window c \<le> 64" "0 < unat (mi_n_embd (sc_info c))"
    using plain by (simp_all add: plain_span_def span_n_embd_def)
  have "\<And>own. \<not> oo_cancelled oo own" using own by (simp add: owner_total_def)
  from pl.eval_span_windowed [OF p(1-3,5-7) cap p(4) this ref conn]
  obtain st where "dist_eval_span_body oo (pipe_ops d z) c None None own0 w = Some (0, st)"
    "sp_logits st = Some l" "pipe_holds (sp_wire st) ss1 []" by blast
  with at1 plain show ?thesis by (auto simp: plain_span_def)
qed

end
