(* ===== verification/Dist_Props.thy ===== *)
theory Dist_Props
  imports Dist_Serve
begin

text \<open>
  The properties of the pipeline, with a small two-stage pipeline on which they are applied: four
  layers, one value per row, three tokens in chunks of at most two.
\<close>

section \<open>A concrete pipeline\<close>

definition ex_coordinator :: q36_dist_model_info where
  "ex_coordinator = \<lparr> mi_n_layers = 4, mi_n_embd = 1, mi_n_vocab = 10, mi_prefill_cap = 2, mi_context_size = 16,
     mi_layer_start = 0, mi_layer_end = 1, mi_speculation = False, mi_mtp = False, mi_fingerprint = 77 \<rparr>"

definition ex_worker :: q36_dist_model_info where
  "ex_worker = ex_coordinator\<lparr>mi_layer_start := 2, mi_layer_end := 3\<rparr>"

definition ex_engine :: "unit slice_engine" where
  "ex_engine = \<lparr> se_layer_start = 2, se_layer_end = 3, se_n_layer = 4, se_n_vocab = 10, se_vulkan = False,
     se_vulkan_runtime = False, se_ssd_streaming = False, se_mtp_ready = False, se_prefill_cap = 2,
     se_create = (\<lambda>ctx. Some ()), se_reset = (\<lambda>k. k), se_reserve = (\<lambda>k a b. (True, k)),
     se_forward = (\<lambda>k ts i p. (k, Some (case i of None \<Rightarrow> [] | Some rows \<Rightarrow> rows))),
     se_final_hidden = (\<lambda>k n. Some [of_nat n]), se_final_rows = (\<lambda>k n. None),
     se_snapshot = (\<lambda>k. (False, k)), se_replay = (\<lambda>k n. (False, k)) \<rparr>"

definition ex_stage :: "unit dist_stage" where
  "ex_stage = \<lparr> dw_info = ex_worker, dw_peer = ex_coordinator, dw_engine = ex_engine \<rparr>"

definition ex_owner :: "unit owner_ops" where
  "ex_owner = \<lparr> oo_cancelled = (\<lambda>s. False), oo_reset = (\<lambda>s. (s, True)),
     oo_slice = (\<lambda>s ts p. (s, Some (map (\<lambda>t. word_of_int t) ts))),
     oo_project = (\<lambda>s row. (s, Some (row @ row))), oo_catchup = (\<lambda>s ts p rows. (s, True)),
     oo_top = (\<lambda>s row ex. (s, Some 0)), oo_spec_begin = (\<lambda>s. (s, False)),
     oo_spec_commit = (\<lambda>s n. (s, False)), oo_read_logits = (\<lambda>s. (s, None)) \<rparr>"

definition ex_session :: "unit dist_worker_session" where
  "ex_session = \<lparr> ws_id = 1, ws_ctx = 16, ws_spec_pos = 0, ws_spec = False,
     ws_session = \<lparr> sl_ctx = 16, sl_pos = 0, sl_spec_active = False, sl_spec_pos = 0, sl_spec_n = 0, sl_kv = () \<rparr> \<rparr>"

definition ex_span :: span_cfg where
  "ex_span = \<lparr> sc_id = 1, sc_info = ex_coordinator, sc_peer = ex_worker\<lparr>mi_fingerprint := 0\<rparr>,
     sc_opt = dist_options_zero\<lparr>do_role := Q36_DISTRIBUTED_COORDINATOR, do_prefill_window := 3\<rparr>,
     sc_tokens = [5, 6, 7], sc_pos0 = 0, sc_prepared = None, sc_logits = True, sc_report = True, sc_cap = 2 \<rparr>"

definition ex_conn :: "unit pipe_conn" where
  "ex_conn = \<lparr> pc_open = True, pc_sessions = [ex_session], pc_down = [] \<rparr>"

lemmas ex_info_defs = ex_coordinator_def ex_worker_def
lemmas ex_defs = ex_info_defs ex_engine_def ex_stage_def ex_owner_def ex_session_def ex_span_def ex_conn_def
  dist_options_zero_def

lemma ex_pipeline:
  "stage_total (dw_engine ex_stage) (span_n_embd ex_span)" "stage_layers ex_stage"
  "owner_total ex_owner (span_n_embd ex_span)" "span_fits ex_span ex_stage 16"
  "session_at ex_stage [ex_session] (sc_id ex_span) 16 (sc_pos0 ex_span)"
  "dist_span_cap (sc_info ex_span) (sc_peer ex_span) (sc_opt ex_span) False (length (sc_tokens ex_span)) = sc_cap ex_span"
  "pipe_holds ex_conn [ex_session] []" "plain_span ex_span"
proof -
  show plain: "plain_span ex_span"
    by (simp add: plain_span_def ex_defs span_window_def span_n_embd_def)
  show "span_fits ex_span ex_stage 16"
    using plain by (simp add: span_fits_def) (simp add: ex_defs span_n_embd_def DIST_MAX_FRAME_def Q36_CONTEXT_ALLOC_MAX_def)
  show "session_at ex_stage [ex_session] (sc_id ex_span) 16 (sc_pos0 ex_span)"
    by (simp add: session_at_def ex_defs worker_session_ok_def slice_ok_def Q36_CONTEXT_ALLOC_MAX_def)
qed (simp_all add: stage_total_def stage_layers_def owner_total_def ex_defs span_n_embd_def pipe_holds_def
    dist_span_cap_def dist_frame_cap_def DIST_MAX_FRAME_def)

section \<open>Spans\<close>

text \<open>
  C32. Pipelining does not change a result.  Whenever the sequential reading of a span (one chunk
  after the other through both stages, then the projection of the last row) succeeds, the
  coordinator's loop with a window of up to 64 frames in flight ends with code 0, the same stage,
  the same worker sessions and the same logits, and no answer is left on the connection.
\<close>

theorem pipelined_span_sequential:
  assumes "\<not> mi_mtp (sc_info c)" "sc_prepared c = None" "sc_logits c" "sc_tokens c \<noteq> []"
    and "span_window c \<le> 64" "0 < unat (mi_n_embd (sc_info c))"
    and "dist_span_cap (sc_info c) (sc_peer c) (sc_opt c) False (length (sc_tokens c)) = sc_cap c" "0 < sc_cap c"
    and "\<And>own. \<not> oo_cancelled oo own"
    and "pipe_span oo (pipe_answer d) c own ss = Some (own', ss', l)"
    and "pipe_holds w ss []"
  shows "\<exists>st. dist_eval_span_body oo (pipe_ops d z) c None None own w = Some (0, st) \<and>
      sp_owner st = own' \<and> sp_logits st = Some l \<and> pipe_holds (sp_wire st) ss' []"
  using pl.eval_span_windowed [OF assms] .

theorem pipelined_span_sequential_witness:
  "\<exists>st ss' l. dist_eval_span_body ex_owner (pipe_ops ex_stage 2) ex_span None None () ex_conn = Some (0, st) \<and>
     sp_logits st = Some l \<and> pipe_holds (sp_wire st) ss' []"
proof -
  obtain own1 ss1 rs where run: "pipe_run ex_owner (pipe_answer ex_stage) ex_span () [ex_session] (chunk_total ex_span)
      = Some (own1, ss1, rs)"
    using pipe_run_succeeds [OF ex_pipeline(1-5)] by blast
  have "\<exists>l. pipe_span ex_owner (pipe_answer ex_stage) ex_span () [ex_session] = Some ((), ss1, l)"
    unfolding pipe_span_def run by (simp add: ex_owner_def)
  then obtain l where ref: "pipe_span ex_owner (pipe_answer ex_stage) ex_span () [ex_session] = Some ((), ss1, l)"
    by blast
  have "\<not> mi_mtp (sc_info ex_span)" "sc_prepared ex_span = None" "sc_logits ex_span" "sc_tokens ex_span \<noteq> []"
    "span_window ex_span \<le> 64" "0 < unat (mi_n_embd (sc_info ex_span))" "0 < sc_cap ex_span"
    using ex_pipeline(8) by (simp_all add: plain_span_def span_n_embd_def)
  moreover have "\<And>own. \<not> oo_cancelled ex_owner own" by (simp add: ex_owner_def)
  ultimately show ?thesis
    using pipelined_span_sequential [of ex_span ex_owner ex_stage "()" "[ex_session]" "()" ss1 l ex_conn 2,
        OF _ _ _ _ _ _ ex_pipeline(6) _ _ ref ex_pipeline(7)] by blast
qed

text \<open>
  C33. A span is served.  When the numeric operations of both stages succeed and the span fits the
  worker's session (position, context, vocabulary), every frame the coordinator builds passes the
  worker's checks and every answer passes the coordinator's: the span ends, with code 0 and logits,
  and the worker's session stands right after the last token.
\<close>

theorem pipelined_span_served:
  assumes "stage_total (dw_engine d) (span_n_embd c)" "stage_layers d" "owner_total oo (span_n_embd c)"
    and "span_fits c d ctx" "session_at d ss (sc_id c) ctx (sc_pos0 c)"
    and "dist_span_cap (sc_info c) (sc_peer c) (sc_opt c) False (length (sc_tokens c)) = sc_cap c"
    and "pipe_holds w ss []"
  shows "\<exists>st ss' l. dist_eval_span_body oo (pipe_ops d z) c None None own w = Some (0, st) \<and>
      sp_logits st = Some l \<and> pipe_holds (sp_wire st) ss' [] \<and>
      session_at d ss' (sc_id c) ctx (sc_pos0 c + length (sc_tokens c))"
  using span_served [OF assms] .

theorem pipelined_span_served_witness:
  "\<exists>st ss' l. dist_eval_span_body ex_owner (pipe_ops ex_stage 0) ex_span None None () ex_conn = Some (0, st) \<and>
      sp_logits st = Some l \<and> pipe_holds (sp_wire st) ss' [] \<and> session_at ex_stage ss' 1 16 3"
proof -
  have "sc_id ex_span = 1" "sc_pos0 ex_span + length (sc_tokens ex_span) = 3"
    by (simp_all add: ex_span_def)
  then show ?thesis
    using pipelined_span_served [OF ex_pipeline(1-7), of 0 "()"] by simp
qed

section \<open>The wire\<close>

text \<open>
  Frames arrive whole and unchanged: when a send and the receive at the other end both report
  success, the receiver has the type and the bytes that were sent, and the stream stands at the
  next frame.
\<close>

theorem dist_frame_round_trip:
  assumes "length data \<le> DIST_MAX_FRAME" "type \<noteq> DIST_ERROR"
    and "dist_send so type data evs = (wire, evs', Io_Done)"
    and "dist_recv ro (wire @ rest) revs = (src, revs', Recv_Frame type' data')"
  shows "type' = type \<and> data' = data \<and> src = rest"
  using dist_transfer [OF assms] .

theorem dist_frame_round_trip_witness:
  "\<exists>src evs t d. dist_recv False (dist_frame DIST_RESULT [1, 2, 3] @ [9])
       (link_events 4 (dist_frame DIST_RESULT [1, 2, 3] @ [9])) = (src, evs, Recv_Frame t d) \<and>
     t = DIST_RESULT \<and> d = [1, 2, 3] \<and> src = [9]"
proof -
  have fits: "length [1, 2, 3 :: u8] \<le> DIST_MAX_FRAME" by (simp add: DIST_MAX_FRAME_def)
  have type: "DIST_RESULT \<noteq> DIST_ERROR" by (simp add: dist_type_defs)
  obtain evs where sent: "dist_send True DIST_RESULT [1, 2, 3] (link_events 0 (dist_frame DIST_RESULT [1, 2, 3]))
      = (dist_frame DIST_RESULT [1, 2, 3], evs, Io_Done)"
    using link_send by blast
  obtain evs' where got: "dist_recv False (dist_frame DIST_RESULT [1, 2, 3] @ [9])
       (link_events 4 (dist_frame DIST_RESULT [1, 2, 3] @ [9])) = ([9], evs', Recv_Frame DIST_RESULT [1, 2, 3])"
    using link_recv [OF fits type] by blast
  from dist_frame_round_trip [OF fits type sent got] got show ?thesis by blast
qed

text \<open>
  C34. Two stages that accept each other's hello run the same model (shape and fingerprint) and
  split its layers: each layer is run by exactly one of them.  The hypotheses on the ranges are
  those under which an engine opens with a role.
\<close>

theorem hello_agreement:
  assumes "dist_hello ci Q36_DISTRIBUTED_COORDINATOR True True
      (Recv_Frame DIST_HELLO (dist_put_all (dist_hello_words wi))) = (0, Some pw)"
    and "dist_hello wi Q36_DISTRIBUTED_WORKER True True
      (Recv_Frame DIST_HELLO (dist_put_all (dist_hello_words ci))) = (0, Some pc)"
    and "mi_layer_start wi \<noteq> 0" "mi_layer_start wi \<le> mi_layer_end wi" "0 < mi_n_layers ci"
  shows "mi_n_layers wi = mi_n_layers ci \<and> mi_n_embd wi = mi_n_embd ci \<and> mi_n_vocab wi = mi_n_vocab ci \<and>
    mi_fingerprint wi = mi_fingerprint ci \<and>
    {unat (mi_layer_start ci)..unat (mi_layer_end ci)} \<union> {unat (mi_layer_start wi)..unat (mi_layer_end wi)}
      = {0..<unat (mi_n_layers ci)} \<and>
    {unat (mi_layer_start ci)..unat (mi_layer_end ci)} \<inter> {unat (mi_layer_start wi)..unat (mi_layer_end wi)} = {}"
proof -
  have c: "dist_hello_check ci Q36_DISTRIBUTED_COORDINATOR DIST_HELLO (dist_put_all (dist_hello_words wi)) = Inr pw"
    and w: "dist_hello_check wi Q36_DISTRIBUTED_WORKER DIST_HELLO (dist_put_all (dist_hello_words ci)) = Inr pc"
    using assms(1,2) by (auto simp: dist_hello_def split: sum.splits)
  note a = dist_hello_accepts [OF c] and b = dist_hello_accepts [OF w]
  have start: "mi_layer_start ci = 0" "mi_layer_start wi = mi_layer_end ci + 1" "mi_layer_end wi + 1 = mi_n_layers ci"
    using a(10) b(11) by auto
  have "unat (mi_layer_start wi) = unat (mi_layer_end ci) + 1"
    using start(2) assms(3) unatSuc [of "mi_layer_end ci"] by (simp add: add.commute)
  moreover have "unat (mi_n_layers ci) = unat (mi_layer_end wi) + 1"
    using start(3) assms(5) unatSuc [of "mi_layer_end wi"] by (simp add: add.commute word_neq_0_conv [symmetric])
  moreover have "unat (mi_layer_start wi) \<le> unat (mi_layer_end wi)"
    using assms(4) by (simp add: word_le_nat_alt)
  ultimately show ?thesis
    using a(1-4) start(1) by auto
qed

theorem hello_agreement_witness:
  "{unat (mi_layer_start ex_coordinator)..unat (mi_layer_end ex_coordinator)} \<union>
     {unat (mi_layer_start ex_worker)..unat (mi_layer_end ex_worker)} = {0..<unat (mi_n_layers ex_coordinator)}"
proof -
  have c: "\<exists>pw. dist_hello ex_coordinator Q36_DISTRIBUTED_COORDINATOR True True
      (Recv_Frame DIST_HELLO (dist_put_all (dist_hello_words ex_worker))) = (0, Some pw)"
    by (simp add: dist_hello_def dist_hello_check_def dist_hello_words_def ex_info_defs Q36_CONTEXT_ALLOC_MAX_def
        DIST_VERSION_def Let_def)
  have w: "\<exists>pc. dist_hello ex_worker Q36_DISTRIBUTED_WORKER True True
      (Recv_Frame DIST_HELLO (dist_put_all (dist_hello_words ex_coordinator))) = (0, Some pc)"
    by (simp add: dist_hello_def dist_hello_check_def dist_hello_words_def ex_info_defs Q36_CONTEXT_ALLOC_MAX_def
        DIST_VERSION_def Let_def)
  have "mi_layer_start ex_worker \<noteq> 0" "mi_layer_start ex_worker \<le> mi_layer_end ex_worker" "0 < mi_n_layers ex_coordinator"
    by (simp_all add: ex_info_defs)
  with c w show ?thesis using hello_agreement [of ex_coordinator ex_worker] by blast
qed

section \<open>The worker\<close>

text \<open>
  C35. Whatever frames arrive, after every answered one the worker's sessions have distinct non-zero
  ids, contexts within the worker's own, and stages that never run past them; a session is marked
  as speculating exactly when its stage has a saved frontier, and at the same position.
\<close>

theorem worker_sessions_ok:
  assumes "dist_worker_loop d [] rs = (ss, out)"
  shows "worker_ok d ss"
  using worker_loop_ok [OF _ assms] by (simp add: worker_ok_def)

theorem worker_sessions_ok_witness:
  "\<exists>ss out. dist_worker_loop ex_stage [] [Recv_Frame DIST_CREATE (dist_put 7 @ dist_put 8)] = (ss, out) \<and>
     map ws_id ss = [7] \<and> worker_ok ex_stage ss"
proof -
  obtain ss out where "dist_worker_loop ex_stage [] [Recv_Frame DIST_CREATE (dist_put 7 @ dist_put 8)] = (ss, out)"
    by (metis prod.exhaust)
  moreover have "map ws_id (fst (dist_worker_loop ex_stage [] [Recv_Frame DIST_CREATE (dist_put 7 @ dist_put 8)])) = [7]"
    by (simp add: dist_worker_step_def be32.length_put be32.get_put be32.get_put_alone dist_type_defs ex_defs slice_create_def
        Q36_CONTEXT_ALLOC_MAX_def Let_def del: drop_append)
  ultimately show ?thesis using worker_sessions_ok [of ex_stage "[Recv_Frame DIST_CREATE (dist_put 7 @ dist_put 8)]" ss out] by simp
qed

text \<open>
  A work frame that is out of shape, out of the session's context or out of the speculation
  protocol is refused before anything runs: the sessions are untouched and the answer is an error.
\<close>

theorem worker_refuses_bad_work:
  assumes "ws_find (dist_get data) ss = Some s" "16 \<le> length data" "dist_get data \<noteq> 0"
    and "dist_work_bad d s (length data) (unat (dist_get (drop 4 data))) (unat (dist_get (drop 8 data)))
           (dist_get (drop 12 data))"
  shows "dist_worker_step d ss DIST_WORK data = (ss, Inl Work_Shape)"
  using worker_step_refuses [OF assms] .

theorem worker_refuses_bad_work_witness:
  "dist_worker_step ex_stage [ex_session] DIST_WORK (dist_work_body 1 15 2 0 [1, 2] [3, 4]) = ([ex_session], Inl Work_Shape)"
proof (rule worker_refuses_bad_work)
  show "ws_find (dist_get (dist_work_body 1 15 2 0 [1, 2] [3, 4])) [ex_session] = Some ex_session"
    by (simp add: dist_work_fields ex_session_def)
qed (simp_all add: dist_work_fields dist_work_bad_def ex_session_def)

section \<open>The coordinator\<close>

text \<open>
  A sync leaves either success, with the connection up and the session created on it, or
  failure with no connection, so that the next operation replays the whole prompt from position 0.
\<close>

theorem dist_sync_connection:
  assumes "q36_dist_session_sync oo wo waited checkpoint prompt s d own = Some (rc, s', d', own', l)"
  shows "(rc = 0 \<longrightarrow> de_fd d' \<noteq> None \<and> dx_generation s' = de_generation d' \<and> \<not> dist_replay s' d') \<and>
    (rc \<noteq> 0 \<longrightarrow> de_fd d' = None \<and> dist_replay s' d')"
  using sync_connection [OF assms] .

definition ex_dist_engine :: "unit pipe_conn q36_dist_engine" where
  "ex_dist_engine = \<lparr> de_opt = sc_opt ex_span, de_info = ex_coordinator, de_peer = sc_peer ex_span,
     de_accepts = [Route_Nothing, Route_Cancelled], de_fd = None, de_next_id = 2, de_generation = 1 \<rparr>"

theorem dist_sync_connection_witness:
  "\<exists>rc s' d' own' l. q36_dist_session_sync ex_owner (pipe_ops ex_stage 0) (\<lambda>_. False) [] [5]
       \<lparr> dx_id = 1, dx_generation = 1, dx_ctx = 16 \<rparr> ex_dist_engine () = Some (rc, s', d', own', l) \<and>
     rc \<noteq> 0 \<and> de_fd d' = None \<and> dist_replay s' d'"
proof -
  have "\<exists>rc s' d' own' l. q36_dist_session_sync ex_owner (pipe_ops ex_stage 0) (\<lambda>_. False) [] [5]
       \<lparr> dx_id = 1, dx_generation = 1, dx_ctx = 16 \<rparr> ex_dist_engine () = Some (rc, s', d', own', l) \<and> rc \<noteq> 0"
    by (simp add: q36_dist_session_sync_def dist_session_ready_def dist_route_def ex_dist_engine_def dist_replay_def
        dist_finish_def ex_owner_def dist_disconnect_def)
  then obtain rc s' d' own' l where "q36_dist_session_sync ex_owner (pipe_ops ex_stage 0) (\<lambda>_. False) [] [5]
       \<lparr> dx_id = 1, dx_generation = 1, dx_ctx = 16 \<rparr> ex_dist_engine () = Some (rc, s', d', own', l)" "rc \<noteq> 0"
    by blast
  with dist_sync_connection [OF this(1)] show ?thesis by blast
qed

text \<open>
  The number of candidates committed is the longest verified run: at least one, each further one
  predicted by the model after its predecessor, stopping at an end-of-sequence token.
\<close>

theorem spec_commit_longest:
  assumes "0 < count"
  shows "0 < spec_commit_from tokens tops eos count 1 \<and> spec_commit_from tokens tops eos count 1 \<le> count \<and>
    (\<forall>j < spec_commit_from tokens tops eos count 1 - 1. tops ! j = tokens ! Suc j \<and> tokens ! j \<noteq> eos) \<and>
    (spec_commit_from tokens tops eos count 1 = count \<or>
     tokens ! (spec_commit_from tokens tops eos count 1 - 1) = eos \<or>
     tops ! (spec_commit_from tokens tops eos count 1 - 1) \<noteq> tokens ! spec_commit_from tokens tops eos count 1)"
  using spec_commit_from_spec [of 1 count tops tokens eos] assms by (simp add: Let_def Suc_le_eq)

theorem spec_commit_longest_witness:
  "spec_commit_from [4, 5, 6] [5, 9, 9] 0 3 1 \<le> 3 \<and> spec_commit_from [4, 5, 6] [5, 9, 9] 0 3 1 = 2"
  using spec_commit_longest [of 3 "[4, 5, 6]" "[5, 9, 9]" 0]
  by (simp add: spec_commit_from.simps)

section \<open>Options\<close>

lemma prepared_options:
  assumes "q36_dist_prepare_engine_options opt engine = Some e" "do_role opt = Q36_DISTRIBUTED_COORDINATOR \<or> do_role opt = Q36_DISTRIBUTED_WORKER"
    and "q36_engine_layers e n = Some (a, b)"
  shows "do_prefill_window e \<le> 64 \<and> do_prefill_chunk e \<le> 8192 \<and> a \<le> b \<and> b < n \<and>
    (do_role e = Q36_DISTRIBUTED_COORDINATOR \<longrightarrow> a = 0 \<and> b + 1 < n \<and> do_listen_host e \<noteq> None) \<and>
    (do_role e = Q36_DISTRIBUTED_WORKER \<longrightarrow> 0 < a \<and> b = n - 1 \<and> do_coordinator_host e \<noteq> None)"
  using assms by (auto simp: q36_dist_prepare_engine_options_def q36_engine_layers_def q36_dist_enabled_def Let_def
      split: if_splits)

text \<open>
  Options that pass the check for a role give at most 64 frames in flight (the size of the
  coordinator's ring) and 8192 tokens a chunk; an engine that opens with them runs a non-empty range
  of layers, a proper prefix from layer 0 for the coordinator and a proper suffix up to the output
  for the worker.
\<close>

theorem prepared_options_bounds:
  assumes "q36_dist_prepare_engine_options opt engine = Some e"
    and "do_role opt = Q36_DISTRIBUTED_COORDINATOR \<or> do_role opt = Q36_DISTRIBUTED_WORKER"
    and "q36_engine_layers e n = Some (a, b)"
  shows "do_prefill_window e \<le> 64 \<and> do_prefill_chunk e \<le> 8192 \<and> a \<le> b \<and> b < n \<and>
    (do_role e = Q36_DISTRIBUTED_COORDINATOR \<longrightarrow> a = 0 \<and> b + 1 < n \<and> do_listen_host e \<noteq> None) \<and>
    (do_role e = Q36_DISTRIBUTED_WORKER \<longrightarrow> 0 < a \<and> b = n - 1 \<and> do_coordinator_host e \<noteq> None)"
  using prepared_options [OF assms] .

definition ex_options :: q36_distributed_options where
  "ex_options = dist_options_zero\<lparr>do_role := Q36_DISTRIBUTED_WORKER,
     do_layers := \<lparr> la_start = 2, la_end = 0, la_has_output = True, la_set = True \<rparr>,
     do_coordinator_host := Some (str ''h''), do_coordinator_port := 9000\<rparr>"

theorem prepared_options_bounds_witness:
  "q36_dist_prepare_engine_options ex_options dist_options_zero = Some ex_options \<and>
   q36_engine_layers ex_options 4 = Some (2, 3) \<and> do_prefill_window ex_options \<le> 64"
proof -
  have "q36_dist_prepare_engine_options ex_options dist_options_zero = Some ex_options"
    "q36_engine_layers ex_options 4 = Some (2, 3)" "do_role ex_options = Q36_DISTRIBUTED_WORKER"
    by (simp_all add: q36_dist_prepare_engine_options_def q36_engine_layers_def q36_dist_enabled_def ex_options_def
        dist_options_zero_def)
  then show ?thesis using prepared_options_bounds by blast
qed

end
