(* ===== verification/Str_Table.thy ===== *)
theory Str_Table
  imports Prelude
begin

text \<open>
  The string-to-integer hash table of the tokenizer (\<^verbatim>\<open>table_init\<close>, \<^verbatim>\<open>table_put\<close>, \<^verbatim>\<open>table_get\<close> in
  \<^verbatim>\<open>q36.c\<close>): open addressing with linear probing over a power-of-two array, entries never removed.
  The locale \<open>string_map\<close> is what the tokenizer relies on; the table interprets it.  A probe that
  visits every slot without stopping would go round for ever; it is the value \<open>None\<close>.
\<close>

section \<open>The table\<close>

definition hash_bytes :: "bytes \<Rightarrow> u64" where
  "hash_bytes s = foldl (\<lambda>h c. (h XOR ucast c) * 1099511628211) 1469598103934665603 s"

type_synonym str_i32_table = "(bytes \<times> int) option list"

function next_pow2_from :: "nat \<Rightarrow> nat \<Rightarrow> nat" where
  "next_pow2_from p n = (if 0 < p \<and> p < n then next_pow2_from (2 * p) n else p)"
  by pat_completeness auto
termination
  by (relation "measure (\<lambda>(p, n). n - p)") auto

declare next_pow2_from.simps [simp del]

definition next_pow2 :: "nat \<Rightarrow> nat" where
  "next_pow2 n = next_pow2_from 1 n"

definition table_init :: "nat \<Rightarrow> str_i32_table" where
  "table_init expected = replicate (next_pow2 (expected * 2 + 16)) None"

text \<open>\<^verbatim>\<open>h & (cap - 1)\<close>\<close>

definition table_slot :: "str_i32_table \<Rightarrow> u64 \<Rightarrow> nat" where
  "table_slot t h = unat (h AND (word_of_nat (length t) - 1))"

definition table_next :: "str_i32_table \<Rightarrow> nat \<Rightarrow> nat" where
  "table_next t i = table_slot t (word_of_nat (i + 1))"

fun table_probe :: "str_i32_table \<Rightarrow> bytes \<Rightarrow> nat \<Rightarrow> nat \<Rightarrow> nat option" where
  "table_probe t key i 0 = None"
| "table_probe t key i (Suc n) =
     (case t ! i of None \<Rightarrow> Some i
      | Some (k, v) \<Rightarrow> if k = key then Some i else table_probe t key (table_next t i) n)"

definition table_put :: "str_i32_table \<Rightarrow> bytes \<Rightarrow> int \<Rightarrow> str_i32_table option" where
  "table_put t key value =
     (case table_probe t key (table_slot t (hash_bytes key)) (length t) of
        None \<Rightarrow> None
      | Some i \<Rightarrow> Some (t[i := Some (key, value)]))"

definition table_get :: "str_i32_table \<Rightarrow> bytes \<Rightarrow> int option option" where
  "table_get t key =
     (if t = [] then Some None
      else case table_probe t key (table_slot t (hash_bytes key)) (length t) of
          None \<Rightarrow> None
        | Some i \<Rightarrow> Some (map_option snd (t ! i)))"

section \<open>Slots\<close>

definition table_sized :: "str_i32_table \<Rightarrow> bool" where
  "table_sized t \<longleftrightarrow> (\<exists>k < 64. length t = 2 ^ k)"

lemma table_slot_mod: "table_sized t \<Longrightarrow> table_slot t h = unat h mod length t"
proof -
  assume "table_sized t"
  then obtain k where k: "k < 64" "length t = 2 ^ k" by (auto simp: table_sized_def)
  have "(word_of_nat (length t) :: u64) - 1 = mask k"
    by (simp add: k(2) mask_eq_exp_minus_1)
  then have "table_slot t h = unat (take_bit k h)"
    by (simp only: table_slot_def take_bit_eq_mask)
  also have "\<dots> = take_bit k (unat h)" by (rule unsigned_take_bit_eq)
  also have "\<dots> = unat h mod length t" by (simp add: take_bit_eq_mod k(2))
  finally show ?thesis .
qed

lemma table_next_mod: "table_sized t \<Longrightarrow> i < length t \<Longrightarrow> table_next t i = (i + 1) mod length t"
proof -
  assume t: "table_sized t" and i: "i < length t"
  then obtain k where k: "k < 64" "length t = 2 ^ k" by (auto simp: table_sized_def)
  have "2 ^ k \<le> (2 ^ 63 :: nat)" using k(1) by (intro power_increasing) auto
  then have "i + 1 < 2 ^ 64" using i k(2) by simp
  then show ?thesis
    unfolding table_next_def table_slot_mod [OF t] by (subst unat_word_of_nat_small) simp_all
qed

lemma table_sized_pos: "table_sized t \<Longrightarrow> 0 < length t"
  by (auto simp: table_sized_def)

text \<open>The probe as a walk: slots \<open>(h + d) mod length t\<close>.\<close>

lemma table_probe_walk:
  assumes "table_sized t"
  shows "table_probe t key ((h + d) mod length t) n = Some i \<longleftrightarrow>
    (\<exists>e < n. i = (h + d + e) mod length t \<and> (t ! i = None \<or> (\<exists>v. t ! i = Some (key, v))) \<and>
       (\<forall>e' < e. \<exists>k v. t ! ((h + d + e') mod length t) = Some (k, v) \<and> k \<noteq> key))"
proof (induction n arbitrary: d)
  case (Suc n)
  have lt: "(h + d) mod length t < length t" using table_sized_pos [OF assms] by simp
  have nxt: "table_next t ((h + d) mod length t) = (h + (d + 1)) mod length t"
    using table_next_mod [OF assms lt] by (simp add: mod_Suc_eq)
  let ?here = "t ! ((h + d) mod length t)"
  show ?case
  proof (cases "?here = None \<or> (\<exists>v. ?here = Some (key, v))")
    case True
    then have "table_probe t key ((h + d) mod length t) (Suc n) = Some i \<longleftrightarrow> i = (h + d) mod length t"
      by auto
    also have "\<dots> \<longleftrightarrow> (\<exists>e < Suc n. i = (h + d + e) mod length t \<and> (t ! i = None \<or> (\<exists>v. t ! i = Some (key, v))) \<and>
       (\<forall>e' < e. \<exists>k v. t ! ((h + d + e') mod length t) = Some (k, v) \<and> k \<noteq> key))"
    proof
      assume "i = (h + d) mod length t"
      with True show "\<exists>e < Suc n. i = (h + d + e) mod length t \<and> (t ! i = None \<or> (\<exists>v. t ! i = Some (key, v))) \<and>
         (\<forall>e' < e. \<exists>k v. t ! ((h + d + e') mod length t) = Some (k, v) \<and> k \<noteq> key)"
        by (intro exI [of _ 0]) simp
    next
      assume "\<exists>e < Suc n. i = (h + d + e) mod length t \<and> (t ! i = None \<or> (\<exists>v. t ! i = Some (key, v))) \<and>
         (\<forall>e' < e. \<exists>k v. t ! ((h + d + e') mod length t) = Some (k, v) \<and> k \<noteq> key)"
      then obtain e where e: "i = (h + d + e) mod length t"
        "\<forall>e' < e. \<exists>k v. t ! ((h + d + e') mod length t) = Some (k, v) \<and> k \<noteq> key" by blast
      have "e = 0"
      proof (rule ccontr)
        assume "e \<noteq> 0"
        then obtain k v where "?here = Some (k, v)" "k \<noteq> key" using e(2) [rule_format, of 0] by auto
        with True show False by simp
      qed
      with e(1) show "i = (h + d) mod length t" by simp
    qed
    finally show ?thesis .
  next
    case False
    then obtain k v where here: "?here = Some (k, v)" "k \<noteq> key" by (metis not_None_eq prod.collapse)
    have "table_probe t key ((h + d) mod length t) (Suc n) = Some i \<longleftrightarrow>
        table_probe t key ((h + (d + 1)) mod length t) n = Some i"
      using here nxt by simp
    also have "\<dots> \<longleftrightarrow> (\<exists>e < n. i = (h + (d + 1) + e) mod length t \<and> (t ! i = None \<or> (\<exists>v. t ! i = Some (key, v))) \<and>
       (\<forall>e' < e. \<exists>k v. t ! ((h + (d + 1) + e') mod length t) = Some (k, v) \<and> k \<noteq> key))"
      by (rule Suc.IH)
    also have "\<dots> \<longleftrightarrow> (\<exists>e < Suc n. i = (h + d + e) mod length t \<and> (t ! i = None \<or> (\<exists>v. t ! i = Some (key, v))) \<and>
       (\<forall>e' < e. \<exists>k v. t ! ((h + d + e') mod length t) = Some (k, v) \<and> k \<noteq> key))" (is "?L \<longleftrightarrow> ?R")
    proof
      assume ?L
      then obtain e where e: "e < n" "i = (h + d + Suc e) mod length t" "t ! i = None \<or> (\<exists>v. t ! i = Some (key, v))"
        "\<forall>e' < e. \<exists>k v. t ! ((h + d + Suc e') mod length t) = Some (k, v) \<and> k \<noteq> key" by auto
      have "\<exists>k v. t ! ((h + d + e') mod length t) = Some (k, v) \<and> k \<noteq> key" if "e' < Suc e" for e'
        using that e(4) here by (cases e') auto
      with e show ?R by (intro exI [of _ "Suc e"]) simp
    next
      assume ?R
      then obtain e where e: "e < Suc n" "i = (h + d + e) mod length t" "t ! i = None \<or> (\<exists>v. t ! i = Some (key, v))"
        "\<forall>e' < e. \<exists>k v. t ! ((h + d + e') mod length t) = Some (k, v) \<and> k \<noteq> key" by blast
      have "e \<noteq> 0"
      proof
        assume "e = 0"
        with e(2,3) here show False by simp
      qed
      then obtain e0 where "e = Suc e0" by (cases e) auto
      with e show ?L by (intro exI [of _ e0]) auto
    qed
    finally show ?thesis .
  qed
qed simp

section \<open>The contract\<close>

text \<open>
  \<open>holds t n\<close>: the table is well formed, with at most \<open>n\<close> entries in it and room for one more.
  A later value for a key replaces the earlier one.
\<close>

locale string_map =
  fixes init :: "nat \<Rightarrow> 't" and put :: "'t \<Rightarrow> bytes \<Rightarrow> int \<Rightarrow> 't option" and get :: "'t \<Rightarrow> bytes \<Rightarrow> int option option"
    and room :: "'t \<Rightarrow> nat" and holds :: "'t \<Rightarrow> nat \<Rightarrow> bool" and largest :: nat
  assumes init_holds: "n \<le> largest \<Longrightarrow> holds (init n) 0"
    and init_room: "n \<le> largest \<Longrightarrow> n < room (init n)"
    and init_get: "n \<le> largest \<Longrightarrow> get (init n) k = Some None"
    and put_holds: "holds t n \<Longrightarrow> Suc n < room t \<Longrightarrow>
          \<exists>t'. put t k v = Some t' \<and> holds t' (Suc n) \<and> room t' = room t \<and>
            (\<forall>k'. get t' k' = (if k' = k then Some (Some v) else get t k'))"
begin

fun put_all :: "'t \<Rightarrow> (bytes \<times> int) list \<Rightarrow> 't option" where
  "put_all t [] = Some t"
| "put_all t ((k, v) # ps) = (case put t k v of None \<Rightarrow> None | Some t \<Rightarrow> put_all t ps)"

lemma put_all_from:
  "holds t n \<Longrightarrow> n + length ps < room t \<Longrightarrow>
     \<exists>t'. put_all t ps = Some t' \<and>
       (\<forall>k. get t' k = (case map_of (rev ps) k of None \<Rightarrow> get t k | Some v \<Rightarrow> Some (Some v)))"
proof (induction ps arbitrary: t n)
  case (Cons p ps)
  obtain k v where p: "p = (k, v)" by (cases p)
  obtain t1 where t1: "put t k v = Some t1" "holds t1 (Suc n)" "room t1 = room t"
    "\<forall>k'. get t1 k' = (if k' = k then Some (Some v) else get t k')"
    using put_holds [OF Cons.prems(1), of k v] Cons.prems(2) by auto
  obtain t' where "put_all t1 ps = Some t'"
    "\<forall>k. get t' k = (case map_of (rev ps) k of None \<Rightarrow> get t1 k | Some v \<Rightarrow> Some (Some v))"
    using Cons.IH [OF t1(2)] Cons.prems(2) t1(3) by auto
  then show ?case using t1 by (auto simp: p map_add_def split: option.splits)
qed simp

text \<open>A table filled with no more pairs than announced answers like the map of those pairs.\<close>

lemma put_all_init:
  assumes "length ps \<le> n" "n \<le> largest"
  shows "\<exists>t. put_all (init n) ps = Some t \<and> (\<forall>k. get t k = Some (map_of (rev ps) k))"
proof -
  have "0 + length ps < room (init n)" using assms init_room [OF assms(2)] by simp
  from put_all_from [OF init_holds [OF assms(2)] this] obtain t where t: "put_all (init n) ps = Some t"
    "\<forall>k. get t k = (case map_of (rev ps) k of None \<Rightarrow> get (init n) k | Some v \<Rightarrow> Some (Some v))" by blast
  have "get t k = Some (map_of (rev ps) k)" for k
    using t(2) init_get [OF assms(2)] by (cases "map_of (rev ps) k") simp_all
  with t(1) show ?thesis by blast
qed

end

section \<open>The table satisfies it\<close>

text \<open>Every entry is reached from its home slot over slots taken by other keys.\<close>

definition reached :: "str_i32_table \<Rightarrow> bytes \<Rightarrow> nat \<Rightarrow> bool" where
  "reached t k i \<longleftrightarrow> (\<exists>e < length t. i = (unat (hash_bytes k) + e) mod length t \<and>
     (\<forall>e' < e. \<exists>k' v'. t ! ((unat (hash_bytes k) + e') mod length t) = Some (k', v') \<and> k' \<noteq> k))"

definition table_used :: "str_i32_table \<Rightarrow> nat" where
  "table_used t = card {i. i < length t \<and> t ! i \<noteq> None}"

definition table_ok :: "str_i32_table \<Rightarrow> nat \<Rightarrow> bool" where
  "table_ok t n \<longleftrightarrow> table_sized t \<and> table_used t \<le> n \<and> n < length t \<and>
     (\<forall>i < length t. \<forall>k v. t ! i = Some (k, v) \<longrightarrow> reached t k i)"

lemma table_probe_home:
  assumes "table_sized t"
  shows "table_probe t key (table_slot t (hash_bytes key)) (length t) = Some i \<longleftrightarrow>
    i < length t \<and> (t ! i = None \<or> (\<exists>v. t ! i = Some (key, v))) \<and> reached t key i"
  using table_probe_walk [OF assms, of key "unat (hash_bytes key)" 0 "length t" i] table_sized_pos [OF assms]
  by (auto simp: table_slot_mod [OF assms] reached_def)

lemma reached_unique:
  assumes "reached t k i" "reached t k j" "t ! i = Some (k, v) \<or> t ! i = None" "t ! j = Some (k, w) \<or> t ! j = None"
  shows "i = j"
proof -
  obtain e f where e: "i = (unat (hash_bytes k) + e) mod length t"
      "\<forall>e' < e. \<exists>k' v'. t ! ((unat (hash_bytes k) + e') mod length t) = Some (k', v') \<and> k' \<noteq> k"
    and f: "j = (unat (hash_bytes k) + f) mod length t"
      "\<forall>e' < f. \<exists>k' v'. t ! ((unat (hash_bytes k) + e') mod length t) = Some (k', v') \<and> k' \<noteq> k"
    using assms(1,2) unfolding reached_def by blast
  have "\<not> e < f" using f(2) assms(3) e(1) by force
  moreover have "\<not> f < e" using e(2) assms(4) f(1) by force
  ultimately show ?thesis using e(1) f(1) by (metis linorder_neqE_nat)
qed

lemma free_slot:
  assumes "table_used t < length t"
  shows "\<exists>i < length t. t ! i = None"
proof (rule ccontr)
  assume "\<not> ?thesis"
  then have "{i. i < length t \<and> t ! i \<noteq> None} = {i. i < length t}" by auto
  then show False using assms by (simp add: table_used_def)
qed

lemma offset_exists:
  fixes h j n :: nat
  assumes "j < n"
  shows "\<exists>e < n. j = (h + e) mod n"
proof (intro exI conjI)
  show "(j + (n - h mod n)) mod n < n" using assms by simp
  have "(h + (j + (n - h mod n)) mod n) mod n = (h mod n + (j + (n - h mod n))) mod n"
    by (simp add: mod_simps)
  also have "h mod n + (j + (n - h mod n)) = j + n"
    using assms mod_less_divisor [of n h] by linarith
  finally show "j = (h + (j + (n - h mod n)) mod n) mod n" using assms by simp
qed

lemma table_probe_ends:
  assumes sized: "table_sized t" and free: "table_used t < length t"
  shows "\<exists>i. table_probe t key (table_slot t (hash_bytes key)) (length t) = Some i"
proof -
  define stop where "stop e \<longleftrightarrow> (let x = t ! ((unat (hash_bytes key) + e) mod length t)
    in x = None \<or> (\<exists>v. x = Some (key, v)))" for e
  obtain j where "j < length t" "t ! j = None" using free_slot [OF free] by blast
  then obtain e where e: "e < length t" "stop e"
    using offset_exists [of j "length t" "unat (hash_bytes key)"] by (auto simp: stop_def)
  define e0 where "e0 = (LEAST e. stop e)"
  have e0: "stop e0" "e0 < length t" "\<forall>e' < e0. \<not> stop e'"
    unfolding e0_def
    using LeastI [of stop, OF e(2)] le_less_trans [OF Least_le [of stop, OF e(2)] e(1)] not_less_Least [of _ stop]
    by blast+
  have "reached t key ((unat (hash_bytes key) + e0) mod length t)"
    unfolding reached_def
  proof (intro exI conjI allI impI)
    fix e' assume "e' < e0"
    then have "\<not> stop e'" using e0(3) by blast
    then show "t ! ((unat (hash_bytes key) + e') mod length t) =
        Some (fst (the (t ! ((unat (hash_bytes key) + e') mod length t))), snd (the (t ! ((unat (hash_bytes key) + e') mod length t))))"
      and "fst (the (t ! ((unat (hash_bytes key) + e') mod length t))) \<noteq> key"
      by (auto simp: stop_def Let_def)
  qed (use e0 in auto)
  then show ?thesis
    using e0(1) table_sized_pos [OF sized]
    by (intro exI [of _ "(unat (hash_bytes key) + e0) mod length t"], subst table_probe_home [OF sized])
      (auto simp: stop_def Let_def)
qed

lemma table_get_iff:
  assumes "table_ok t n"
  shows "table_get t k = Some r \<longleftrightarrow>
    (case r of Some v \<Rightarrow> \<exists>i < length t. t ! i = Some (k, v)
     | None \<Rightarrow> \<forall>i < length t. \<forall>v. t ! i \<noteq> Some (k, v))"
proof -
  have sized: "table_sized t" and free: "table_used t < length t"
    and reach: "\<And>i k v. i < length t \<Longrightarrow> t ! i = Some (k, v) \<Longrightarrow> reached t k i"
    using assms by (auto simp: table_ok_def)
  obtain i where i: "table_probe t k (table_slot t (hash_bytes k)) (length t) = Some i"
    using table_probe_ends [OF sized free] by blast
  then have s: "i < length t" "t ! i = None \<or> (\<exists>v. t ! i = Some (k, v))" "reached t k i"
    unfolding table_probe_home [OF sized] by auto
  have uniq: "j = i" if "j < length t" "t ! j = Some (k, v)" for j v
    using reached_unique [OF reach [OF that] s(3)] that(2) s(2) by auto
  have get: "table_get t k = Some (map_option snd (t ! i))"
    using i table_sized_pos [OF sized] by (auto simp: table_get_def)
  show ?thesis
  proof (cases "t ! i")
    case None
    then have "t ! j \<noteq> Some (k, v)" if "j < length t" for j v
      using uniq [OF that] by (metis option.distinct(1))
    then show ?thesis using get None by (auto split: option.splits)
  next
    case (Some x)
    then obtain v where v: "t ! i = Some (k, v)" using s(2) by auto
    then have "t ! j = Some (k, w) \<longleftrightarrow> j = i \<and> w = v" if "j < length t" for j w
      using uniq [OF that, of w] by (metis option.inject prod.inject)
    then show ?thesis using get v s(1) by (auto split: option.splits)
  qed
qed

lemma table_get_ends: "table_ok t n \<Longrightarrow> \<exists>r. table_get t k = Some r"
proof -
  assume ok: "table_ok t n"
  then obtain i where "table_probe t k (table_slot t (hash_bytes k)) (length t) = Some i"
    using table_probe_ends [of t k] by (auto simp: table_ok_def)
  then show ?thesis by (simp add: table_get_def)
qed

lemma table_put_ok:
  assumes ok: "table_ok t n" and n: "Suc n < length t"
  shows "\<exists>t'. table_put t k v = Some t' \<and> table_ok t' (Suc n) \<and> length t' = length t \<and>
    (\<forall>k'. table_get t' k' = (if k' = k then Some (Some v) else table_get t k'))"
proof -
  have sized: "table_sized t" and used: "table_used t \<le> n"
    and reach: "\<And>i k v. i < length t \<Longrightarrow> t ! i = Some (k, v) \<Longrightarrow> reached t k i"
    using ok by (auto simp: table_ok_def)
  obtain i where i: "table_probe t k (table_slot t (hash_bytes k)) (length t) = Some i"
    using table_probe_ends [OF sized] used n by fastforce
  then have s: "i < length t" "t ! i = None \<or> (\<exists>v. t ! i = Some (k, v))" "reached t k i"
    unfolding table_probe_home [OF sized] by auto
  define t' where "t' = t[i := Some (k, v)]"
  have len: "length t' = length t" by (simp add: t'_def)
  have keeps: "reached t' k' j" if old: "reached t k' j" for k' j
  proof -
    obtain e where e: "e < length t" "j = (unat (hash_bytes k') + e) mod length t"
      "\<forall>e' < e. \<exists>k'' v''. t ! ((unat (hash_bytes k') + e') mod length t) = Some (k'', v'') \<and> k'' \<noteq> k'"
      using old unfolding reached_def by blast
    have "\<exists>k'' v''. t' ! ((unat (hash_bytes k') + e') mod length t) = Some (k'', v'') \<and> k'' \<noteq> k'" if "e' < e" for e'
    proof -
      let ?p = "(unat (hash_bytes k') + e') mod length t"
      obtain k'' v'' where p: "t ! ?p = Some (k'', v'')" "k'' \<noteq> k'" using e(3) \<open>e' < e\<close> by blast
      show ?thesis
      proof (cases "?p = i")
        case True
        then have "k'' = k" using s(2) p by auto
        then show ?thesis using True s(1) p by (auto simp: t'_def)
      next
        case False
        then show ?thesis using p by (simp add: t'_def)
      qed
    qed
    then show ?thesis unfolding reached_def len using e(1,2) by blast
  qed
  have ok': "table_ok t' (Suc n)"
  proof -
    have "{j. j < length t' \<and> t' ! j \<noteq> None} \<subseteq> insert i {j. j < length t \<and> t ! j \<noteq> None}"
      by (auto simp: t'_def nth_list_update split: if_splits)
    then have "table_used t' \<le> card (insert i {j. j < length t \<and> t ! j \<noteq> None})"
      unfolding table_used_def by (rule card_mono [rotated]) simp
    also have "\<dots> \<le> Suc (table_used t)"
      unfolding table_used_def by (rule card_insert_le_m1) simp_all
    finally have "table_used t' \<le> Suc (table_used t)" .
    moreover have "reached t' k' j" if "j < length t'" "t' ! j = Some (k', v')" for j k' v'
    proof (cases "j = i")
      case True
      then have "k' = k" using that s(1) by (simp add: t'_def)
      then show ?thesis using keeps [OF s(3)] True by simp
    next
      case False
      then have tj: "j < length t" "t ! j = Some (k', v')" using that by (simp_all add: t'_def)
      have "k' \<noteq> k"
      proof
        assume "k' = k"
        then have "j = i" using reached_unique [OF reach [OF tj] _ _ _, of i v' ] s tj by auto
        with False show False by simp
      qed
      then show ?thesis using keeps [OF reach [OF tj]] False by simp
    qed
    ultimately show ?thesis
      using sized used n by (auto simp: table_ok_def table_sized_def len)
  qed
  have "table_get t' k' = (if k' = k then Some (Some v) else table_get t k')" for k'
  proof (cases "k' = k")
    case True
    have "table_get t' k = Some (Some v)"
      unfolding table_get_iff [OF ok'] using s(1) by (auto simp: t'_def)
    with True show ?thesis by simp
  next
    case False
    obtain r where r: "table_get t k' = Some r"
      using table_get_ends [OF ok] by blast
    have same: "t' ! j = Some (k', w) \<longleftrightarrow> t ! j = Some (k', w)" if "j < length t" for j w
      using that False s by (cases "j = i") (auto simp: t'_def)
    have "table_get t' k' = Some r"
    proof (cases r)
      case None
      with r have "\<forall>i < length t. \<forall>v. t ! i \<noteq> Some (k', v)" unfolding table_get_iff [OF ok] by simp
      with same have "\<forall>i < length t. \<forall>v. t' ! i \<noteq> Some (k', v)" by blast
      with None show ?thesis unfolding table_get_iff [OF ok'] len by simp
    next
      case (Some w)
      with r obtain i where "i < length t" "t ! i = Some (k', w)" unfolding table_get_iff [OF ok] by auto
      with same have "\<exists>i < length t. t' ! i = Some (k', w)" by blast
      with Some show ?thesis unfolding table_get_iff [OF ok'] len by simp
    qed
    then show ?thesis using r False by simp
  qed
  then show ?thesis
    using i ok' len by (auto simp: table_put_def t'_def)
qed

lemma next_pow2_from_power: "p = 2 ^ a \<Longrightarrow> p \<le> 2 ^ 62 \<Longrightarrow> n \<le> 2 ^ 62 \<Longrightarrow>
    \<exists>k < 63. next_pow2_from p n = 2 ^ k \<and> n \<le> 2 ^ k"
proof (induction p n arbitrary: a rule: next_pow2_from.induct)
  case (1 p n)
  show ?case
  proof (cases "p < n")
    case True
    then have "(2 :: nat) ^ a < 2 ^ 62" using "1.prems" by linarith
    then have "a < 62" by (rule power_less_imp_less_exp [rotated]) simp
    then have "(2 :: nat) ^ Suc a \<le> 2 ^ 62" by (intro power_increasing) auto
    then have "2 * p \<le> 2 ^ 62" using "1.prems"(1) by simp
    moreover have "2 * p = 2 ^ Suc a" using "1.prems"(1) by simp
    ultimately show ?thesis
      using "1.IH" [of "Suc a"] True "1.prems" by (subst next_pow2_from.simps) simp
  next
    case False
    have "(2 :: nat) ^ a \<le> 2 ^ 62" using "1.prems"(1,2) by metis
    then have "a \<le> 62" by (rule power_le_imp_le_exp [rotated]) simp
    moreover have "next_pow2_from p n = p" using False by (subst next_pow2_from.simps) simp
    ultimately show ?thesis using False "1.prems"(1) by (intro exI [of _ a]) simp
  qed
qed

lemma table_init_length:
  assumes "n \<le> 2 ^ 60"
  shows "\<exists>k < 63. length (table_init n) = 2 ^ k \<and> n * 2 + 16 \<le> 2 ^ k"
  using next_pow2_from_power [of 1 0 "n * 2 + 16"] assms by (simp add: table_init_def next_pow2_def)

lemma table_init_ok:
  assumes "n \<le> 2 ^ 60"
  shows "table_ok (table_init n) 0 \<and> n < length (table_init n) \<and> table_get (table_init n) k = Some None"
proof -
  obtain j where j: "j < 63" "length (table_init n) = 2 ^ j" "n * 2 + 16 \<le> 2 ^ j"
    using table_init_length [OF assms] by blast
  have none: "\<forall>i < length (table_init n). table_init n ! i = None" by (simp add: table_init_def)
  then have used: "table_used (table_init n) = 0" by (simp add: table_used_def)
  have ok: "table_ok (table_init n) 0"
    using used none j by (auto simp: table_ok_def table_sized_def intro!: exI [of _ j])
  then show ?thesis using none j by (auto simp: table_get_iff)
qed

interpretation st: string_map table_init table_put table_get length table_ok "2 ^ 60"
proof
  show "table_ok t n \<Longrightarrow> Suc n < length t \<Longrightarrow> \<exists>t'. table_put t k v = Some t' \<and> table_ok t' (Suc n) \<and> length t' = length t \<and>
    (\<forall>k'. table_get t' k' = (if k' = k then Some (Some v) else table_get t k'))" for t n k v
    by (rule table_put_ok)
qed (use table_init_ok in auto)

section \<open>Filling a table\<close>

fun table_put_all :: "str_i32_table \<Rightarrow> (bytes \<times> int) list \<Rightarrow> str_i32_table option" where
  "table_put_all t [] = Some t"
| "table_put_all t ((k, v) # ps) = (case table_put t k v of None \<Rightarrow> None | Some t \<Rightarrow> table_put_all t ps)"

lemma table_put_all_st: "table_put_all t ps = st.put_all t ps"
  by (induction t ps rule: table_put_all.induct) (simp_all split: option.splits)

lemma table_put_all_init:
  assumes "length ps \<le> n" "n \<le> 2 ^ 60"
  shows "\<exists>t. table_put_all (table_init n) ps = Some t \<and> (\<forall>k. table_get t k = Some (map_of (rev ps) k))"
  unfolding table_put_all_st by (rule st.put_all_init [OF assms])

text \<open>
  C40. A table made for \<open>n\<close> entries and filled with at most \<open>n\<close> pairs, repeated keys included, is the
  finite map of these pairs: every insertion finds a slot, and every later lookup ends and gives the
  value put last for its key, or nothing for a key never put.
\<close>

theorem table_refines_map:
  assumes "length ps \<le> n" "n \<le> 2 ^ 60"
  shows "\<exists>t. table_put_all (table_init n) ps = Some t \<and> (\<forall>k. table_get t k = Some (map_of (rev ps) k))"
  by (rule table_put_all_init [OF assms])

lemma table_refines_map_witness:
  "\<exists>t. table_put_all (table_init 3) [([104, 105], 7), ([33], 1), ([104, 105], 9)] = Some t \<and>
     table_get t [104, 105] = Some (Some 9) \<and> table_get t [33] = Some (Some 1) \<and> table_get t [63] = Some None"
  using table_refines_map [of "[([104, 105], 7), ([33], 1), ([104, 105], 9)]" 3] by fastforce

end
