(* ===== verification/Bpe.thy ===== *)
theory Bpe
  imports Str_Table Tokens
begin

text \<open>
  The byte-pair tokenizer of \<^verbatim>\<open>q36.c\<close>: the byte alphabet (\<^verbatim>\<open>utf8_put\<close> to \<^verbatim>\<open>byte_encode\<close>), the merge
  loop of \<^verbatim>\<open>bpe_emit_piece\<close>, the cut of a text into pieces in \<^verbatim>\<open>bpe_tokenize_text\<close>, and the text of a
  token (\<^verbatim>\<open>q36_token_text\<close>).  A text is the list of its bytes before the NUL, a position an index
  into it; a read at the end gives the NUL.
\<close>

section \<open>The byte alphabet\<close>

definition utf8_put :: "u32 \<Rightarrow> bytes" where
  "utf8_put cp =
     (if cp \<le> 0x7f then [ucast cp]
      else if cp \<le> 0x7ff then [ucast (0xc0 OR drop_bit 6 cp), ucast (0x80 OR (cp AND 0x3f))]
      else if cp \<le> 0xffff then
        [ucast (0xe0 OR drop_bit 12 cp), ucast (0x80 OR (drop_bit 6 cp AND 0x3f)), ucast (0x80 OR (cp AND 0x3f))]
      else
        [ucast (0xf0 OR drop_bit 18 cp), ucast (0x80 OR (drop_bit 12 cp AND 0x3f)),
         ucast (0x80 OR (drop_bit 6 cp AND 0x3f)), ucast (0x80 OR (cp AND 0x3f))])"

definition printable_byte :: "u32 \<Rightarrow> bool" where
  "printable_byte b \<longleftrightarrow> 33 \<le> b \<and> b \<le> 126 \<or> 161 \<le> b \<and> b \<le> 172 \<or> 174 \<le> b"

text \<open>The loop of \<^verbatim>\<open>gpt2_byte_to_codepoint\<close>: the other bytes are numbered from 256 on.\<close>

fun gpt2_number :: "nat list \<Rightarrow> u32 \<Rightarrow> u32 \<Rightarrow> u32" where
  "gpt2_number [] b n = b"
| "gpt2_number (x # xs) b n =
     (if printable_byte (word_of_nat x) then gpt2_number xs b n
      else if word_of_nat x = b then 256 + n
      else gpt2_number xs b (n + 1))"

definition gpt2_byte_to_codepoint :: "u8 \<Rightarrow> u32" where
  "gpt2_byte_to_codepoint b =
     (if printable_byte (ucast b) then ucast b else gpt2_number [0..<256] (ucast b) 0)"

definition byte_encode :: "bytes \<Rightarrow> bytes" where
  "byte_encode s = concat (map (\<lambda>b. utf8_put (gpt2_byte_to_codepoint b)) s)"

definition utf8_len_from_first_byte :: "u8 \<Rightarrow> nat" where
  "utf8_len_from_first_byte c =
     (if c < 0x80 then 1 else if c AND 0xe0 = 0xc0 then 2 else if c AND 0xf0 = 0xe0 then 3
      else if c AND 0xf8 = 0xf0 then 4 else 1)"

text \<open>\<^verbatim>\<open>utf8_decode_one\<close> gives the code point and the position after it.\<close>

definition utf8_decode_one :: "bytes \<Rightarrow> nat \<Rightarrow> u32 \<times> nat" where
  "utf8_decode_one s pos =
     (let c = s ! pos; b = (\<lambda>i. ucast (s ! (pos + i)) AND 0x3f)
      in if c < 0x80 \<or> length s \<le> pos + 1 then (ucast c, pos + 1)
         else if c AND 0xe0 = 0xc0 \<and> pos + 1 < length s then
           (push_bit 6 (ucast (c AND 0x1f)) OR b 1, pos + 2)
         else if c AND 0xf0 = 0xe0 \<and> pos + 2 < length s then
           (push_bit 12 (ucast (c AND 0x0f)) OR push_bit 6 (b 1) OR b 2, pos + 3)
         else if c AND 0xf8 = 0xf0 \<and> pos + 3 < length s then
           (push_bit 18 (ucast (c AND 0x07)) OR push_bit 12 (b 1) OR push_bit 6 (b 2) OR b 3, pos + 4)
         else (ucast c, pos + 1))"

fun gpt2_unnumber :: "nat list \<Rightarrow> u32 \<Rightarrow> u32 \<Rightarrow> u8 option" where
  "gpt2_unnumber [] cp n = None"
| "gpt2_unnumber (b # bs) cp n =
     (if printable_byte (word_of_nat b) then gpt2_unnumber bs cp n
      else if cp = 256 + n then Some (word_of_nat b)
      else gpt2_unnumber bs cp (n + 1))"

definition gpt2_codepoint_to_byte :: "u32 \<Rightarrow> u8 option" where
  "gpt2_codepoint_to_byte cp =
     (if 33 \<le> cp \<and> cp \<le> 126 \<or> 161 \<le> cp \<and> cp \<le> 172 \<or> 174 \<le> cp \<and> cp \<le> 255 then Some (ucast cp)
      else gpt2_unnumber [0..<256] cp 0)"

text \<open>The decoding loop of \<^verbatim>\<open>q36_token_text\<close>; code points outside the alphabet give nothing.\<close>

lemma utf8_decode_one_pos: "pos < snd (utf8_decode_one s pos)"
  by (simp add: utf8_decode_one_def Let_def)

function byte_decode :: "bytes \<Rightarrow> nat \<Rightarrow> bytes" where
  "byte_decode s pos =
     (if pos < length s then
        (case gpt2_codepoint_to_byte (fst (utf8_decode_one s pos)) of None \<Rightarrow> [] | Some b \<Rightarrow> [b]) @
        byte_decode s (snd (utf8_decode_one s pos))
      else [])"
  by pat_completeness auto
termination
  by (relation "measure (\<lambda>(s, pos). length s - pos)") (auto intro!: diff_less_mono2 utf8_decode_one_pos)

declare byte_decode.simps [simp del]

section \<open>The alphabet is a code\<close>

lemma ucast_word_of_nat: "ucast (word_of_nat x :: u32) = (word_of_nat x :: u8)"
  by (rule bit_word_eqI) (simp add: bit_simps)

lemma number_unnumber:
  assumes "\<not> printable_byte b" "b \<in> set (map word_of_nat xs)"
  shows "\<exists>k < length xs. gpt2_number xs b n = 256 + n + word_of_nat k \<and>
    (length xs + unat n < 2 ^ 31 \<longrightarrow> gpt2_unnumber xs (gpt2_number xs b n) n = Some (ucast b))"
  using assms(2)
proof (induction xs arbitrary: n)
  case (Cons x xs)
  show ?case
  proof (cases "printable_byte (word_of_nat x)")
    case True
    then have "b \<in> set (map word_of_nat xs)" using Cons.prems assms(1) by auto
    then obtain k where "k < length xs" "gpt2_number xs b n = 256 + n + word_of_nat k"
      "length xs + unat n < 2 ^ 31 \<longrightarrow> gpt2_unnumber xs (gpt2_number xs b n) n = Some (ucast b)"
      using Cons.IH [of n] by blast
    then show ?thesis using True by (intro exI [of _ k]) auto
  next
    case np: False
    show ?thesis
    proof (cases "word_of_nat x = b")
      case True
      then show ?thesis using np by (intro exI [of _ 0]) (auto simp: ucast_word_of_nat)
    next
      case False
      then have "b \<in> set (map word_of_nat xs)" using Cons.prems by auto
      then obtain k where k: "k < length xs" "gpt2_number xs b (n + 1) = 256 + (n + 1) + word_of_nat k"
        "length xs + unat (n + 1) < 2 ^ 31 \<longrightarrow> gpt2_unnumber xs (gpt2_number xs b (n + 1)) (n + 1) = Some (ucast b)"
        using Cons.IH [of "n + 1"] by blast
      have "gpt2_unnumber (x # xs) (gpt2_number (x # xs) b n) n = Some (ucast b)"
        if small: "length (x # xs) + unat n < 2 ^ 31"
      proof -
        have s1: "unat (n + 1) = unat n + 1"
          using small by (subst unat_add_no_overflow) simp_all
        have kn: "unat (word_of_nat (Suc k) :: u32) = Suc k"
          using k(1) small by (intro unat_word_of_nat_small) simp
        have "(word_of_nat (Suc k) :: u32) \<noteq> 0" using kn by (metis unat_0 nat.distinct(1))
        then have "gpt2_number xs b (n + 1) \<noteq> 256 + n" unfolding k(2) by (simp add: algebra_simps)
        then show ?thesis using k(3) np False small s1 by simp
      qed
      then show ?thesis
        using np False k(1,2) by (intro exI [of _ "Suc k"]) (auto simp: algebra_simps)
    qed
  qed
qed simp

lemma byte_word: "ucast b = (word_of_nat (unat b) :: u32)" for b :: u8
  by simp

lemma byte_less: "unat b < 256" for b :: u8
  using unsigned_less [of b, where 'a = nat] by simp

lemma byte_range: "ucast (b :: u8) \<in> set (map word_of_nat [0..<256] :: u32 list)"
  unfolding byte_word using byte_less [of b] by (simp only: set_map set_upt) (rule imageI, simp)

lemma ucast_byte: "ucast (ucast (b :: u8) :: u32) = b"
  by (simp only: byte_word ucast_word_of_nat) simp

lemma printable_ucast: "printable_byte (ucast b) \<longleftrightarrow>
    33 \<le> unat b \<and> unat b \<le> 126 \<or> 161 \<le> unat b \<and> unat b \<le> 172 \<or> 174 \<le> unat b" for b :: u8
  by (simp add: printable_byte_def word_le_nat_alt unat_ucast_up)

lemma gpt2_code:
  "gpt2_codepoint_to_byte (gpt2_byte_to_codepoint b) = Some b \<and>
   (gpt2_byte_to_codepoint b = ucast b \<and> 33 \<le> unat b \<and> unat b \<le> 126 \<or>
    128 \<le> unat (gpt2_byte_to_codepoint b) \<and> unat (gpt2_byte_to_codepoint b) < 512 \<and> \<not> (33 \<le> unat b \<and> unat b \<le> 126))"
proof (cases "printable_byte (ucast b)")
  case True
  moreover have "(ucast b :: u32) \<le> 255" using byte_less [of b] by (simp add: word_le_nat_alt unat_ucast_up)
  ultimately show ?thesis
    using byte_less [of b] True [unfolded printable_ucast]
    by (auto simp: gpt2_byte_to_codepoint_def gpt2_codepoint_to_byte_def ucast_byte printable_byte_def unat_ucast_up)
next
  case False
  obtain k where k: "k < 256" "gpt2_byte_to_codepoint b = 256 + word_of_nat k"
    "gpt2_unnumber [0..<256] (gpt2_byte_to_codepoint b) 0 = Some b"
    using number_unnumber [OF False byte_range, of 0] False by (auto simp: gpt2_byte_to_codepoint_def ucast_byte)
  have "unat (word_of_nat k :: u32) = k" using k(1) by (intro unat_word_of_nat_small) simp
  then have u: "unat (gpt2_byte_to_codepoint b) = 256 + k"
    unfolding k(2) using k(1) by (subst unat_add_no_overflow) simp_all
  then have "\<not> gpt2_byte_to_codepoint b \<le> 255" "\<not> gpt2_byte_to_codepoint b \<le> 172" "\<not> gpt2_byte_to_codepoint b \<le> 126"
    by (simp_all add: word_le_nat_alt)
  then show ?thesis using k u False by (auto simp: gpt2_codepoint_to_byte_def printable_ucast)
qed

lemma take_bit_small: "unat w < 2 ^ n \<Longrightarrow> take_bit n w = w" for w :: "'a :: len word"
  by (simp add: word_unat_eq_iff unsigned_take_bit_eq take_bit_nat_eq_self)

lemma and_31: "x AND 0x1f = take_bit 5 x" for x :: u8
  by (simp add: take_bit_eq_mask mask_eq_exp_minus_1)

lemma and_63: "x AND 0x3f = take_bit 6 x" for x :: u32
  by (simp add: take_bit_eq_mask mask_eq_exp_minus_1)

lemma utf8_two_bytes:
  fixes cp :: u32
  assumes "unat cp < 2048"
  defines "c \<equiv> ucast (0xc0 OR drop_bit 6 cp) :: u8" and "d \<equiv> ucast (0x80 OR (cp AND 0x3f)) :: u8"
  shows "c AND 0xe0 = 0xc0" "\<not> c < 0x80" "\<not> d < 0x80"
    "push_bit 6 (ucast (c AND 0x1f)) OR (ucast d AND 0x3f) = cp"
proof -
  have cp: "take_bit 11 cp = cp"
    by (rule take_bit_small) (use assms(1) in simp)
  have hi: "\<not> bit cp n" if "11 \<le> n" for n
    using that cp by (metis bit_take_bit_iff not_le)
  show e: "c AND 0xe0 = 0xc0"
  proof (rule bit_word_eqI)
    fix n assume "n < LENGTH(8)"
    then have "n \<in> {0,1,2,3,4,5,6,7}" by auto
    then show "bit (c AND 0xe0) n \<longleftrightarrow> bit (0xc0 :: u8) n" by (auto simp: c_def bit_simps hi)
  qed
  show "push_bit 6 (ucast (c AND 0x1f)) OR (ucast d AND 0x3f) = cp"
  proof (rule bit_word_eqI)
    fix n assume "n < LENGTH(32)"
    have c: "bit c i \<longleftrightarrow> bit cp (i + 6)" if "i < 5" for i
    proof -
      have "i \<in> {0,1,2,3,4}" using that by auto
      then show ?thesis by (auto simp: c_def bit_simps)
    qed
    have d: "bit d i \<longleftrightarrow> bit cp i" if "i < 6" for i
    proof -
      have "i \<in> {0,1,2,3,4,5}" using that by auto
      then show ?thesis by (auto simp: d_def bit_simps)
    qed
    have "bit (push_bit 6 (ucast (c AND 0x1f)) OR (ucast d AND 0x3f) :: u32) n \<longleftrightarrow>
        6 \<le> n \<and> n - 6 < 5 \<and> bit c (n - 6) \<or> n < 6 \<and> bit d n"
      unfolding and_31 and_63 using \<open>n < LENGTH(32)\<close> by (auto simp: bit_simps dest: bit_imp_le_length)
    also have "\<dots> \<longleftrightarrow> n < 11 \<and> bit cp n"
      using c [of "n - 6"] d [of n] by (cases "n < 6") auto
    also have "\<dots> \<longleftrightarrow> bit cp n" using hi [of n] by (cases "n < 11") auto
    finally show "bit (push_bit 6 (ucast (c AND 0x1f)) OR (ucast d AND 0x3f) :: u32) n \<longleftrightarrow> bit cp n" .
  qed
  show "\<not> c < 0x80"
  proof
    assume "c < 0x80"
    then have "take_bit 7 c = c" by (intro take_bit_small) (simp add: word_less_nat_alt)
    moreover have "bit c 7" by (simp add: c_def bit_simps)
    ultimately show False by (metis bit_take_bit_iff less_irrefl)
  qed
  show "\<not> d < 0x80"
  proof
    assume "d < 0x80"
    then have "take_bit 7 d = d" by (intro take_bit_small) (simp add: word_less_nat_alt)
    moreover have "bit d 7" by (simp add: d_def bit_simps)
    ultimately show False by (metis bit_take_bit_iff less_irrefl)
  qed
qed

text \<open>The encoding of one byte, and what the readers of the encoding make of it.\<close>

definition enc1 :: "u8 \<Rightarrow> bytes" where
  "enc1 b = utf8_put (gpt2_byte_to_codepoint b)"

lemma byte_encode_enc1: "byte_encode s = concat (map enc1 s)"
  by (simp add: byte_encode_def enc1_def [abs_def])

lemma enc1_cases:
  obtains (plain) "enc1 b = [b]" "b < 0x80" "33 \<le> unat b" "unat b \<le> 126"
  | (two) c d where "enc1 b = [c, d]" "c AND 0xe0 = 0xc0" "\<not> c < 0x80" "\<not> d < 0x80"
      "gpt2_codepoint_to_byte (push_bit 6 (ucast (c AND 0x1f)) OR (ucast d AND 0x3f)) = Some b"
      "\<not> (33 \<le> unat b \<and> unat b \<le> 126)"
proof (cases "33 \<le> unat b \<and> unat b \<le> 126")
  case True
  then have "gpt2_byte_to_codepoint b = ucast b" using gpt2_code [of b] by auto
  then have "enc1 b = [b]" using True
    by (simp add: enc1_def utf8_put_def word_le_nat_alt unat_ucast_up ucast_byte)
  then show ?thesis using plain True by (simp add: word_less_nat_alt)
next
  case False
  then have g: "128 \<le> unat (gpt2_byte_to_codepoint b)" "unat (gpt2_byte_to_codepoint b) < 512"
    "gpt2_codepoint_to_byte (gpt2_byte_to_codepoint b) = Some b"
    using gpt2_code [of b] by auto
  from g(1,2) have "enc1 b = [ucast (0xc0 OR drop_bit 6 (gpt2_byte_to_codepoint b)), ucast (0x80 OR (gpt2_byte_to_codepoint b AND 0x3f))]"
    by (simp add: enc1_def utf8_put_def word_le_nat_alt)
  then show ?thesis
    using two False utf8_two_bytes [of "gpt2_byte_to_codepoint b"] g(2,3) by simp
qed

lemma enc1_ne [simp]: "enc1 b \<noteq> []"
  by (rule enc1_cases [of b]) simp_all

lemma enc1_utf8_len: "utf8_len_from_first_byte (hd (enc1 b)) = length (enc1 b)"
  by (rule enc1_cases [of b]) (simp_all add: utf8_len_from_first_byte_def)

lemma byte_decode_enc1: "byte_decode (p @ enc1 b @ r) (length p) = b # byte_decode (p @ enc1 b @ r) (length p + length (enc1 b))"
proof (cases rule: enc1_cases [of b])
  case plain
  then have "gpt2_codepoint_to_byte (ucast b) = Some b"
    using gpt2_code [of b] by auto
  then show ?thesis
    using plain by (subst byte_decode.simps) (simp add: utf8_decode_one_def Let_def)
next
  case (two c d)
  then show ?thesis
    by (subst byte_decode.simps) (simp add: utf8_decode_one_def Let_def nth_append)
qed

lemma byte_decode_encode_from:
  "byte_decode (p @ concat (map enc1 s)) (length p) = s"
proof (induction s arbitrary: p)
  case Nil
  show ?case by (subst byte_decode.simps) simp
next
  case (Cons b s)
  show ?case
    using byte_decode_enc1 [of p b "concat (map enc1 s)"] Cons.IH [of "p @ enc1 b"] by simp
qed

lemma byte_decode_encode: "byte_decode (byte_encode s) 0 = s"
  using byte_decode_encode_from [of "[]" s] by (simp add: byte_encode_enc1)

text \<open>An encoding made of printable ASCII only is the encoding of itself.\<close>

lemma byte_encode_plain:
  "(\<forall>c \<in> set (byte_encode s). 33 \<le> unat c \<and> unat c \<le> 126) \<Longrightarrow> byte_encode s = s"
proof (induction s)
  case (Cons b s)
  have "enc1 b = [b]"
  proof (cases rule: enc1_cases [of b])
    case (two c d)
    then have "33 \<le> unat c \<and> unat c \<le> 126" using Cons.prems by (simp add: byte_encode_enc1)
    then show ?thesis using two(3) by (simp add: word_less_nat_alt)
  qed
  then show ?case using Cons by (simp add: byte_encode_enc1)
qed (simp add: byte_encode_enc1)

section \<open>The merge loop\<close>

text \<open>
  The vocabulary; \<^verbatim>\<open>n_vocab\<close> and \<^verbatim>\<open>n_special\<close> are the lengths of the arrays.
\<close>

record q36_vocab =
  token :: "bytes list"
  special :: "(bytes \<times> int) list"
  bos_id :: int
  eos_id :: int
  im_start_id :: int
  im_end_id :: int
  think_start_id :: int
  think_end_id :: int
  vision_start_id :: int
  vision_end_id :: int
  image_pad_id :: int
  video_pad_id :: int
  add_bos :: bool
  token_to_id :: str_i32_table
  merge_rank :: str_i32_table

text \<open>A lookup in a loaded table ends (\<open>table_put_all_init\<close>), so the case of one that does not is never met.\<close>

definition table_find :: "str_i32_table \<Rightarrow> bytes \<Rightarrow> int option" where
  "table_find t key = (case table_get t key of Some r \<Rightarrow> r | None \<Rightarrow> None)"

definition bpe_rank :: "q36_vocab \<Rightarrow> bytes \<Rightarrow> bytes \<Rightarrow> int" where
  "bpe_rank v a b = (case table_find (merge_rank v) (a @ [32] @ b) of None \<Rightarrow> - 1 | Some rank \<Rightarrow> rank)"

text \<open>The symbols of an encoded piece.\<close>

function utf8_split :: "bytes \<Rightarrow> bytes list" where
  "utf8_split e =
     (if e = [] then []
      else let n = utf8_len_from_first_byte (hd e); n = (if length e < n then 1 else n)
           in take n e # utf8_split (drop n e))"
  by pat_completeness auto
termination
  by (relation "measure length") (auto simp: utf8_len_from_first_byte_def split: if_splits)

declare utf8_split.simps [simp del]

text \<open>The scan for the pair to merge: the index (\<open>None\<close> is \<^verbatim>\<open>-1\<close>) and the rank of the best pair.\<close>

definition bpe_best_step :: "q36_vocab \<Rightarrow> bytes list \<Rightarrow> nat option \<times> int \<Rightarrow> nat \<Rightarrow> nat option \<times> int" where
  "bpe_best_step v syms = (\<lambda>(best_i, best_rank) i.
     let rank = bpe_rank v (syms ! i) (syms ! (i + 1))
     in if 0 \<le> rank \<and> rank < best_rank then (Some i, rank) else (best_i, best_rank))"

definition bpe_best :: "q36_vocab \<Rightarrow> bytes list \<Rightarrow> nat option \<times> int" where
  "bpe_best v syms = foldl (bpe_best_step v syms) (None, 2147483647) [0..<length syms - 1]"

definition bpe_merge_at :: "bytes list \<Rightarrow> nat \<Rightarrow> bytes list" where
  "bpe_merge_at syms i = take i syms @ [syms ! i @ syms ! (i + 1)] @ drop (i + 2) syms"

text \<open>The best pair is the first of those of the lowest rank.\<close>

definition best_upto :: "q36_vocab \<Rightarrow> bytes list \<Rightarrow> nat \<Rightarrow> nat option \<times> int \<Rightarrow> bool" where
  "best_upto v syms n = (\<lambda>(b, r).
     let rank = (\<lambda>j. bpe_rank v (syms ! j) (syms ! (j + 1)))
     in case b of
          None \<Rightarrow> r = 2147483647 \<and> (\<forall>j < n. rank j < 0 \<or> 2147483647 \<le> rank j)
        | Some i \<Rightarrow> i < n \<and> rank i = r \<and> 0 \<le> r \<and> r < 2147483647 \<and>
            (\<forall>j < n. 0 \<le> rank j \<longrightarrow> r \<le> rank j) \<and> (\<forall>j < i. 0 \<le> rank j \<longrightarrow> r < rank j))"

lemma best_upto_step:
  assumes "best_upto v syms n s"
  shows "best_upto v syms (Suc n) (bpe_best_step v syms s n)"
proof -
  obtain b r where s: "s = (b, r)" by (cases s)
  show ?thesis
  proof (cases b)
    case None
    then show ?thesis using assms
      by (auto simp: s best_upto_def bpe_best_step_def Let_def less_Suc_eq split: if_splits)
  next
    case (Some i)
    then show ?thesis using assms
      by (auto simp: s best_upto_def bpe_best_step_def Let_def less_Suc_eq)
  qed
qed

lemma bpe_best_upto: "best_upto v syms (length syms - 1) (bpe_best v syms)"
  unfolding bpe_best_def
  by (rule foldl_upt_invariant [where P = "best_upto v syms"])
    (auto simp: best_upto_step best_upto_def [of _ _ 0])

lemma bpe_best_Some:
  assumes "fst (bpe_best v syms) = Some i"
  shows "i + 1 < length syms" "0 \<le> bpe_rank v (syms ! i) (syms ! (i + 1))"
    "\<And>j. j + 1 < length syms \<Longrightarrow> 0 \<le> bpe_rank v (syms ! j) (syms ! (j + 1)) \<Longrightarrow>
       bpe_rank v (syms ! i) (syms ! (i + 1)) \<le> bpe_rank v (syms ! j) (syms ! (j + 1)) \<and>
       (j < i \<longrightarrow> bpe_rank v (syms ! i) (syms ! (i + 1)) < bpe_rank v (syms ! j) (syms ! (j + 1)))"
proof -
  obtain r where r: "bpe_best v syms = (Some i, r)" using assms by (cases "bpe_best v syms") auto
  show "i + 1 < length syms" "0 \<le> bpe_rank v (syms ! i) (syms ! (i + 1))"
    "\<And>j. j + 1 < length syms \<Longrightarrow> 0 \<le> bpe_rank v (syms ! j) (syms ! (j + 1)) \<Longrightarrow>
       bpe_rank v (syms ! i) (syms ! (i + 1)) \<le> bpe_rank v (syms ! j) (syms ! (j + 1)) \<and>
       (j < i \<longrightarrow> bpe_rank v (syms ! i) (syms ! (i + 1)) < bpe_rank v (syms ! j) (syms ! (j + 1)))"
    using bpe_best_upto [of v syms] by (auto simp: r best_upto_def Let_def)
qed

lemma bpe_best_None:
  assumes "fst (bpe_best v syms) = None" "j + 1 < length syms"
  shows "bpe_rank v (syms ! j) (syms ! (j + 1)) < 0 \<or> 2147483647 \<le> bpe_rank v (syms ! j) (syms ! (j + 1))"
  using bpe_best_upto [of v syms] assms by (cases "bpe_best v syms") (auto simp: best_upto_def Let_def)

function bpe_merge :: "q36_vocab \<Rightarrow> bytes list \<Rightarrow> bytes list" where
  "bpe_merge v syms =
     (case fst (bpe_best v syms) of None \<Rightarrow> syms | Some i \<Rightarrow> bpe_merge v (bpe_merge_at syms i))"
  by pat_completeness auto
termination
  by (relation "measure (\<lambda>(v, syms). length syms)") (auto simp: bpe_merge_at_def dest: bpe_best_Some(1))

declare bpe_merge.simps [simp del]

definition bpe_emit_symbol :: "q36_vocab \<Rightarrow> bytes \<Rightarrow> int list" where
  "bpe_emit_symbol v s =
     (case table_find (token_to_id v) s of
        Some t \<Rightarrow> [t]
      | None \<Rightarrow> concat (map (\<lambda>c. case table_find (token_to_id v) [c] of Some t \<Rightarrow> [t] | None \<Rightarrow> []) s))"

text \<open>The tokens \<^verbatim>\<open>bpe_emit_piece\<close> pushes.\<close>

definition bpe_emit_piece :: "q36_vocab \<Rightarrow> bytes \<Rightarrow> int list" where
  "bpe_emit_piece v raw_piece =
     concat (map (bpe_emit_symbol v) (bpe_merge v (utf8_split (byte_encode raw_piece))))"

section \<open>The cut of a text into pieces\<close>

definition char_at :: "bytes \<Rightarrow> nat \<Rightarrow> u8" where
  "char_at s pos = (if pos < length s then s ! pos else 0)"

definition next_utf8_char :: "bytes \<Rightarrow> nat \<Rightarrow> nat" where
  "next_utf8_char s pos =
     (let n = utf8_len_from_first_byte (char_at s pos); n = (if length s < pos + n then 1 else n) in pos + n)"

definition ascii_alpha :: "u8 \<Rightarrow> bool" where
  "ascii_alpha c \<longleftrightarrow> 65 \<le> c \<and> c \<le> 90 \<or> 97 \<le> c \<and> c \<le> 122"

definition ascii_digit :: "u8 \<Rightarrow> bool" where
  "ascii_digit c \<longleftrightarrow> 48 \<le> c \<and> c \<le> 57"

definition ascii_space :: "u8 \<Rightarrow> bool" where
  "ascii_space c \<longleftrightarrow> c = 32 \<or> c = 9 \<or> c = 10 \<or> c = 13 \<or> c = 11 \<or> c = 12"

definition ascii_newline :: "u8 \<Rightarrow> bool" where
  "ascii_newline c \<longleftrightarrow> c = 10 \<or> c = 13"

definition qwen_letter_like_at :: "bytes \<Rightarrow> nat \<Rightarrow> bool" where
  "qwen_letter_like_at s pos \<longleftrightarrow> (if char_at s pos < 128 then ascii_alpha (char_at s pos) else True)"

definition qwen_punct_symbol_at :: "bytes \<Rightarrow> nat \<Rightarrow> bool" where
  "qwen_punct_symbol_at s pos \<longleftrightarrow>
     (let c = char_at s pos in c < 128 \<and> \<not> ascii_alpha c \<and> \<not> ascii_digit c \<and> \<not> ascii_space c)"

definition qwen_suffixes :: "bytes list" where
  "qwen_suffixes = map str [[CHR 0x27, CHR ''s''], [CHR 0x27, CHR ''t''], [CHR 0x27, CHR ''r'', CHR ''e''],
     [CHR 0x27, CHR ''v'', CHR ''e''], [CHR 0x27, CHR ''m''], [CHR 0x27, CHR ''l'', CHR ''l''], [CHR 0x27, CHR ''d'']]"

text \<open>\<^verbatim>\<open>strncasecmp(s + pos, suffix, n) == 0\<close> for a suffix that fits\<close>

definition suffix_matches :: "bytes \<Rightarrow> nat \<Rightarrow> bytes \<Rightarrow> bool" where
  "suffix_matches s pos suf \<longleftrightarrow>
     pos + length suf \<le> length s \<and> map tolower (take (length suf) (drop pos s)) = map tolower suf"

definition qwen_match_suffix :: "bytes \<Rightarrow> nat \<Rightarrow> nat option" where
  "qwen_match_suffix s pos =
     (if length s \<le> pos \<or> char_at s pos \<noteq> 0x27 then None
      else map_option (\<lambda>suf. pos + length suf) (find (suffix_matches s pos) qwen_suffixes))"

lemma next_utf8_char_gt: "pos < next_utf8_char s pos"
  by (simp add: next_utf8_char_def Let_def utf8_len_from_first_byte_def)

lemma next_utf8_char_le: "pos < length s \<Longrightarrow> next_utf8_char s pos \<le> length s"
  by (simp add: next_utf8_char_def Let_def)

text \<open>The loops, each as a recursion on the position.\<close>

function qwen_consume_letters :: "bytes \<Rightarrow> nat \<Rightarrow> nat" where
  "qwen_consume_letters s pos =
     (if pos < length s \<and> qwen_letter_like_at s pos then qwen_consume_letters s (next_utf8_char s pos) else pos)"
  by pat_completeness auto
termination
  by (relation "measure (\<lambda>(s, pos). length s - pos)") (auto intro!: diff_less_mono2 next_utf8_char_gt)

function skip_punct :: "bytes \<Rightarrow> nat \<Rightarrow> nat" where
  "skip_punct s pos =
     (if pos < length s \<and> qwen_punct_symbol_at s pos then skip_punct s (next_utf8_char s pos) else pos)"
  by pat_completeness auto
termination
  by (relation "measure (\<lambda>(s, pos). length s - pos)") (auto intro!: diff_less_mono2 next_utf8_char_gt)

function skip_slash_newline :: "bytes \<Rightarrow> nat \<Rightarrow> nat" where
  "skip_slash_newline s pos =
     (if pos < length s \<and> (char_at s pos = 47 \<or> ascii_newline (char_at s pos)) then skip_slash_newline s (pos + 1) else pos)"
  by pat_completeness auto
termination
  by (relation "measure (\<lambda>(s, pos). length s - pos)") auto

fun skip_digits :: "bytes \<Rightarrow> nat \<Rightarrow> nat \<Rightarrow> nat" where
  "skip_digits s pos 0 = pos"
| "skip_digits s pos (Suc left) =
     (if pos < length s \<and> ascii_digit (char_at s pos) then skip_digits s (pos + 1) left else pos)"

text \<open>The run of white space: the position after it and the one after its last newline (0 for none).\<close>

function skip_space :: "bytes \<Rightarrow> nat \<Rightarrow> nat \<Rightarrow> nat \<times> nat" where
  "skip_space s p last_newline_end =
     (if p < length s \<and> ascii_space (char_at s p) then
        skip_space s (p + 1) (if ascii_newline (char_at s p) then p + 1 else last_newline_end)
      else (p, last_newline_end))"
  by pat_completeness auto
termination
  by (relation "measure (\<lambda>(s, p, n). length s - p)") auto

declare qwen_consume_letters.simps [simp del] skip_punct.simps [simp del] skip_slash_newline.simps [simp del]
  skip_space.simps [simp del]

text \<open>A word: one character that may stand before it, its letters, a contraction.\<close>

definition take_word :: "bytes \<Rightarrow> nat \<Rightarrow> nat" where
  "take_word s pos =
     (let pos = (if \<not> qwen_letter_like_at s pos then next_utf8_char s pos else pos);
          pos = qwen_consume_letters s pos
      in case qwen_match_suffix s pos of Some after \<Rightarrow> after | None \<Rightarrow> pos)"

definition take_symbols :: "bytes \<Rightarrow> nat \<Rightarrow> nat" where
  "take_symbols s pos = skip_slash_newline s (skip_punct s pos)"

definition word_starts_at :: "bytes \<Rightarrow> nat \<Rightarrow> bool" where
  "word_starts_at s pos \<longleftrightarrow>
     (let c = char_at s pos
      in qwen_letter_like_at s pos \<or>
         (\<not> ascii_newline c \<and> \<not> ascii_digit c \<and> \<not> qwen_letter_like_at s pos \<and> \<not> ascii_space c \<and>
          pos + 1 < length s \<and> qwen_letter_like_at s (pos + 1)))"

definition take_space :: "bytes \<Rightarrow> nat \<Rightarrow> nat" where
  "take_space s pos =
     (let (p, last_newline_end) = skip_space s pos 0
      in if last_newline_end \<noteq> 0 then last_newline_end
         else if p < length s \<and> pos + 1 < p \<and> (qwen_letter_like_at s p \<or> qwen_punct_symbol_at s p) then p - 1
         else p)"

text \<open>
  One round of the loop of \<^verbatim>\<open>bpe_tokenize_text\<close>: where its branches leave \<^verbatim>\<open>pos\<close>, and the end of the
  piece that starts at \<open>start\<close>.
\<close>

definition bpe_piece_scan :: "bytes \<Rightarrow> nat \<Rightarrow> nat" where
  "bpe_piece_scan s start =
     (let c = char_at s start
      in if c = 32 \<and> start + 1 < length s then
           if ascii_digit (char_at s (start + 1)) then skip_digits s (start + 1) 3
           else if word_starts_at s (start + 1) then take_word s (start + 1)
           else if qwen_punct_symbol_at s (start + 1) then take_symbols s (start + 1)
           else start
         else if ascii_digit c then skip_digits s start 3
         else if word_starts_at s start then take_word s start
         else if c = 32 \<and> start + 1 < length s \<and> qwen_punct_symbol_at s (start + 1) \<or> qwen_punct_symbol_at s start
         then take_symbols s (if c = 32 then start + 1 else start)
         else if ascii_space c then take_space s start
         else next_utf8_char s start)"

definition bpe_piece_end :: "bytes \<Rightarrow> nat \<Rightarrow> nat" where
  "bpe_piece_end s start =
     (let pos = bpe_piece_scan s start in if pos = start then next_utf8_char s pos else pos)"

text \<open>Every loop moves forward and stays in the text.\<close>

definition moves :: "bytes \<Rightarrow> nat \<Rightarrow> nat \<Rightarrow> bool" where
  "moves s pos p \<longleftrightarrow> pos \<le> p \<and> p \<le> length s"

lemma moves_refl: "pos \<le> length s \<Longrightarrow> moves s pos pos"
  by (simp add: moves_def)

lemma moves_trans: "moves s a b \<Longrightarrow> moves s b c \<Longrightarrow> moves s a c"
  by (simp add: moves_def)

lemma moves_char: "pos < length s \<Longrightarrow> moves s pos (next_utf8_char s pos)"
  by (simp add: moves_def next_utf8_char_le next_utf8_char_gt [THEN less_imp_le])

lemma moves_letters: "pos \<le> length s \<Longrightarrow> moves s pos (qwen_consume_letters s pos)"
proof (induction s pos rule: qwen_consume_letters.induct)
  case (1 s pos)
  show ?case
    using 1 moves_char [of pos s] moves_trans [of s pos "next_utf8_char s pos"] next_utf8_char_le [of pos s]
    by (subst qwen_consume_letters.simps) (auto simp: moves_refl)
qed

lemma moves_punct: "pos \<le> length s \<Longrightarrow> moves s pos (skip_punct s pos)"
proof (induction s pos rule: skip_punct.induct)
  case (1 s pos)
  show ?case
    using 1 moves_char [of pos s] moves_trans [of s pos "next_utf8_char s pos"] next_utf8_char_le [of pos s]
    by (subst skip_punct.simps) (auto simp: moves_refl)
qed

lemma moves_slash: "pos \<le> length s \<Longrightarrow> moves s pos (skip_slash_newline s pos)"
proof (induction s pos rule: skip_slash_newline.induct)
  case (1 s pos)
  then show ?case
    by (subst skip_slash_newline.simps) (auto simp: moves_def)
qed

lemma moves_digits: "pos \<le> length s \<Longrightarrow> moves s pos (skip_digits s pos n)"
  by (induction s pos n rule: skip_digits.induct) (auto simp: moves_def)

lemma moves_symbols: "pos \<le> length s \<Longrightarrow> moves s pos (take_symbols s pos)"
  using moves_punct [of pos s] moves_slash [of "skip_punct s pos" s]
  by (auto simp: take_symbols_def moves_def)

lemma moves_suffix: "qwen_match_suffix s pos = Some p \<Longrightarrow> moves s pos p"
  by (auto simp: qwen_match_suffix_def moves_def suffix_matches_def find_Some_iff split: if_splits)

lemma moves_word: "pos < length s \<Longrightarrow> moves s pos (take_word s pos)"
proof -
  assume pos: "pos < length s"
  define p where "p = (if \<not> qwen_letter_like_at s pos then next_utf8_char s pos else pos)"
  have p: "moves s pos p" using moves_char [OF pos] pos by (simp add: p_def moves_refl)
  then have "moves s pos (qwen_consume_letters s p)"
    using moves_letters [of p s] moves_trans by (simp add: moves_def)
  then show ?thesis
    using moves_suffix [of s "qwen_consume_letters s p"] moves_trans
    by (auto simp: take_word_def Let_def p_def split: option.split)
qed

lemma skip_space_bounds:
  "p \<le> length s \<Longrightarrow> skip_space s p e = (q, l) \<Longrightarrow> moves s p q \<and> (l = e \<or> moves s p l)"
proof (induction s p e rule: skip_space.induct)
  case (1 s p e)
  then show ?case
    by (subst (asm) (2) skip_space.simps) (fastforce simp: moves_def split: if_splits)
qed

lemma moves_space: "pos < length s \<Longrightarrow> moves s pos (take_space s pos)"
  using skip_space_bounds [of pos s 0] by (auto simp: take_space_def moves_def split: prod.split)

lemma moves_scan:
  assumes "start < length s"
  shows "moves s start (bpe_piece_scan s start)"
proof -
  note here = moves_refl [of start s] moves_digits [of start s 3] moves_word [of start s] moves_symbols [of start s]
    moves_space [of start s] moves_char [of start s]
  have after: "moves s start (skip_digits s (start + 1) 3)" "moves s start (take_word s (start + 1))"
    "moves s start (take_symbols s (start + 1))" if "start + 1 < length s"
    using that moves_digits [of "start + 1" s 3] moves_word [of "start + 1" s] moves_symbols [of "start + 1" s]
    by (simp_all add: moves_def)
  show ?thesis
  proof (cases "char_at s start = 32")
    case True
    then have "\<not> qwen_punct_symbol_at s start"
      by (simp add: qwen_punct_symbol_at_def Let_def ascii_space_def)
    with True show ?thesis using assms here after by (simp add: bpe_piece_scan_def Let_def)
  next
    case False
    with assms here show ?thesis by (simp add: bpe_piece_scan_def Let_def)
  qed
qed

lemma bpe_piece_end_gt:
  assumes "start < length s"
  shows "start < bpe_piece_end s start" "bpe_piece_end s start \<le> length s"
  using moves_scan [OF assms] next_utf8_char_gt [of start s] next_utf8_char_le [OF assms]
  by (auto simp: moves_def bpe_piece_end_def Let_def)

section \<open>Tokenizing a text\<close>

definition sub_string :: "bytes \<Rightarrow> nat \<Rightarrow> nat \<Rightarrow> bytes" where
  "sub_string s start pos = take (pos - start) (drop start s)"

function bpe_tokenize_from :: "q36_vocab \<Rightarrow> bytes \<Rightarrow> nat \<Rightarrow> int list" where
  "bpe_tokenize_from v s pos =
     (if pos < length s then
        bpe_emit_piece v (sub_string s pos (bpe_piece_end s pos)) @ bpe_tokenize_from v s (bpe_piece_end s pos)
      else [])"
  by pat_completeness auto
termination
  by (relation "measure (\<lambda>(v, s, pos). length s - pos)") (auto intro!: diff_less_mono2 bpe_piece_end_gt)

declare bpe_tokenize_from.simps [simp del]

definition bpe_tokenize_text :: "q36_vocab \<Rightarrow> bytes \<Rightarrow> int list" where
  "bpe_tokenize_text v s = bpe_tokenize_from v s 0"

text \<open>The pieces of a text: none is empty, together they are the text.\<close>

function bpe_pieces :: "bytes \<Rightarrow> nat \<Rightarrow> bytes list" where
  "bpe_pieces s pos =
     (if pos < length s then sub_string s pos (bpe_piece_end s pos) # bpe_pieces s (bpe_piece_end s pos) else [])"
  by pat_completeness auto
termination
  by (relation "measure (\<lambda>(s, pos). length s - pos)") (auto intro!: diff_less_mono2 bpe_piece_end_gt)

declare bpe_pieces.simps [simp del]

lemma bpe_tokenize_pieces: "bpe_tokenize_from v s pos = concat (map (bpe_emit_piece v) (bpe_pieces s pos))"
proof (induction v s pos rule: bpe_tokenize_from.induct)
  case (1 v s pos)
  then show ?case
    by (subst bpe_tokenize_from.simps, subst bpe_pieces.simps) simp
qed

lemma bpe_pieces_concat: "pos \<le> length s \<Longrightarrow> concat (bpe_pieces s pos) = drop pos s \<and> [] \<notin> set (bpe_pieces s pos)"
proof (induction s pos rule: bpe_pieces.induct)
  case (1 s pos)
  show ?case
  proof (cases "pos < length s")
    case True
    define e where "e = bpe_piece_end s pos"
    have e: "pos < e" "e \<le> length s" using bpe_piece_end_gt [OF True] by (simp_all add: e_def)
    have "drop (e - pos) (drop pos s) = drop e s" using e(1) by simp
    then have "sub_string s pos e @ drop e s = drop pos s"
      unfolding sub_string_def by (metis append_take_drop_id)
    moreover have "sub_string s pos e \<noteq> []" using e True by (simp add: sub_string_def)
    ultimately show ?thesis
      using "1.IH" [OF True] True e by (subst (1 2) bpe_pieces.simps) (simp flip: e_def)
  next
    case False
    then show ?thesis using "1.prems" by (subst (1 2) bpe_pieces.simps) simp
  qed
qed

section \<open>The text of a token\<close>

definition vocab_token_is_literal_special :: "bytes \<Rightarrow> bool" where
  "vocab_token_is_literal_special s \<longleftrightarrow>
     2 \<le> length s \<and> s ! 0 = 60 \<and> s ! 1 = 124 \<or> s = str ''<think>'' \<or> s = str ''</think>''"

definition q36_token_text :: "q36_vocab \<Rightarrow> int \<Rightarrow> bytes" where
  "q36_token_text v tok =
     (if tok < 0 \<or> int (length (token v)) \<le> tok then []
      else let s = token v ! nat tok
           in if vocab_token_is_literal_special s then s else byte_decode s 0)"

definition tokens_text :: "q36_vocab \<Rightarrow> int list \<Rightarrow> bytes" where
  "tokens_text v toks = concat (map (q36_token_text v) toks)"

lemma tokens_text_append [simp]: "tokens_text v (a @ b) = tokens_text v a @ tokens_text v b"
  by (simp add: tokens_text_def)

lemma tokens_text_Nil [simp]: "tokens_text v [] = []"
  by (simp add: tokens_text_def)

text \<open>
  What the vocabulary has to provide: the table gives positions of the token array, whatever a merge
  makes is a token, and a token that is copied as it stands is printable ASCII.
\<close>

definition printable :: "bytes \<Rightarrow> bool" where
  "printable s \<longleftrightarrow> (\<forall>c \<in> set s. 33 \<le> unat c \<and> unat c \<le> 126)"

definition vocab_closed :: "q36_vocab \<Rightarrow> bool" where
  "vocab_closed v \<longleftrightarrow>
     (\<forall>s t. table_find (token_to_id v) s = Some t \<longrightarrow> 0 \<le> t \<and> t < int (length (token v)) \<and> token v ! nat t = s) \<and>
     (\<forall>a b. 0 \<le> bpe_rank v a b \<longrightarrow> table_find (token_to_id v) (a @ b) \<noteq> None) \<and>
     (\<forall>s \<in> set (token v). vocab_token_is_literal_special s \<longrightarrow> printable s)"

text \<open>Each byte of the text is a token by itself.\<close>

definition vocab_covers :: "q36_vocab \<Rightarrow> bytes \<Rightarrow> bool" where
  "vocab_covers v s \<longleftrightarrow> (\<forall>b \<in> set s. table_find (token_to_id v) (byte_encode [b]) \<noteq> None)"

lemma vocab_covers_append [simp]: "vocab_covers v (a @ b) \<longleftrightarrow> vocab_covers v a \<and> vocab_covers v b"
  by (auto simp: vocab_covers_def)

lemma byte_encode_append: "byte_encode (a @ b) = byte_encode a @ byte_encode b"
  by (simp add: byte_encode_def)

lemma token_text_of_symbol:
  assumes "vocab_closed v" "table_find (token_to_id v) (byte_encode bs) = Some t"
  shows "q36_token_text v t = bs"
proof -
  have t: "0 \<le> t" "t < int (length (token v))" "token v ! nat t = byte_encode bs"
    using assms by (auto simp: vocab_closed_def)
  then have "byte_encode bs \<in> set (token v)" by (metis nat_less_iff nth_mem)
  then have "byte_encode bs = bs" if "vocab_token_is_literal_special (byte_encode bs)"
    using that assms(1) byte_encode_plain [of bs] by (auto simp: vocab_closed_def printable_def)
  then show ?thesis
    using t by (auto simp: q36_token_text_def Let_def byte_decode_encode)
qed

text \<open>The symbols during the merging: encodings of the parts of the piece, each a token.\<close>

definition symbols_of :: "q36_vocab \<Rightarrow> bytes \<Rightarrow> bytes list \<Rightarrow> bool" where
  "symbols_of v s syms \<longleftrightarrow>
     (\<exists>parts. syms = map byte_encode parts \<and> concat parts = s) \<and>
     (\<forall>x \<in> set syms. table_find (token_to_id v) x \<noteq> None)"

lemma utf8_split_enc1: "utf8_split (concat (map enc1 s)) = map enc1 s"
proof (induction s)
  case (Cons b s)
  have "hd (enc1 b @ concat (map enc1 s)) = hd (enc1 b)" by simp
  then show ?case
    using Cons.IH by (subst utf8_split.simps) (simp add: Let_def enc1_utf8_len)
qed (simp add: utf8_split.simps)

lemma symbols_of_split:
  assumes "vocab_covers v s"
  shows "symbols_of v s (utf8_split (byte_encode s))"
proof -
  have "map enc1 s = map byte_encode (map (\<lambda>b. [b]) s)" by (simp add: byte_encode_enc1)
  moreover have "concat (map (\<lambda>b. [b]) s) = s" by simp
  moreover have "\<forall>x \<in> set (map enc1 s). table_find (token_to_id v) x \<noteq> None"
    using assms by (auto simp: vocab_covers_def byte_encode_enc1)
  ultimately show ?thesis
    unfolding symbols_of_def byte_encode_enc1 [of s] utf8_split_enc1 by blast
qed

lemma symbols_of_merge_at:
  assumes "vocab_closed v" "symbols_of v s syms" "fst (bpe_best v syms) = Some i"
  shows "symbols_of v s (bpe_merge_at syms i)"
proof -
  note best = bpe_best_Some [OF assms(3)]
  obtain parts where p: "syms = map byte_encode parts" "concat parts = s"
    using assms(2) by (auto simp: symbols_of_def)
  have i: "i + 1 < length parts" using best(1) p(1) by simp
  have "parts = take i parts @ parts ! i # parts ! (i + 1) # drop (i + 2) parts"
    using i by (metis Cons_nth_drop_Suc Suc_eq_plus1 add_2_eq_Suc' append_take_drop_id add_lessD1)
  then have "concat (bpe_merge_at parts i) = concat parts"
    unfolding bpe_merge_at_def by (metis append_Cons append_Nil append.assoc concat.simps(2) concat_append)
  moreover have "bpe_merge_at syms i = map byte_encode (bpe_merge_at parts i)"
    using i by (simp add: p(1) bpe_merge_at_def take_map drop_map byte_encode_append)
  moreover have "\<forall>x \<in> set (bpe_merge_at syms i). table_find (token_to_id v) x \<noteq> None"
    using assms(1,2) best(2)
    by (auto simp: bpe_merge_at_def symbols_of_def vocab_closed_def dest: in_set_takeD in_set_dropD)
  ultimately show ?thesis
    using p(2) by (auto simp: symbols_of_def simp del: map_map)
qed

lemma symbols_of_merge: "vocab_closed v \<Longrightarrow> symbols_of v s syms \<Longrightarrow> symbols_of v s (bpe_merge v syms)"
proof (induction v syms rule: bpe_merge.induct)
  case (1 v syms)
  then show ?case
    using symbols_of_merge_at by (subst bpe_merge.simps) (auto split: option.split)
qed

lemma emit_symbols_text:
  assumes "vocab_closed v" "symbols_of v s syms"
  shows "tokens_text v (concat (map (bpe_emit_symbol v) syms)) = s"
proof -
  obtain parts where p: "syms = map byte_encode parts" "concat parts = s"
    "\<forall>x \<in> set parts. table_find (token_to_id v) (byte_encode x) \<noteq> None"
    using assms(2) by (auto simp: symbols_of_def)
  have "tokens_text v (concat (map (bpe_emit_symbol v) (map byte_encode parts))) = concat parts"
    using p(3)
  proof (induction parts)
    case (Cons x parts)
    then obtain t where "table_find (token_to_id v) (byte_encode x) = Some t" by auto
    then have "tokens_text v (bpe_emit_symbol v (byte_encode x)) = x"
      using token_text_of_symbol [OF assms(1)] by (simp add: bpe_emit_symbol_def tokens_text_def)
    with Cons show ?case by simp
  qed simp
  with p show ?thesis by simp
qed

lemma emit_piece_text: "vocab_closed v \<Longrightarrow> vocab_covers v s \<Longrightarrow> tokens_text v (bpe_emit_piece v s) = s"
  unfolding bpe_emit_piece_def by (rule emit_symbols_text [OF _ symbols_of_merge [OF _ symbols_of_split]])

lemma tokenize_text_text:
  assumes "vocab_closed v" "vocab_covers v s"
  shows "tokens_text v (bpe_tokenize_text v s) = s"
proof -
  have pieces: "concat (bpe_pieces s 0) = s" using bpe_pieces_concat [of 0 s] by simp
  then have "\<forall>x \<in> set (bpe_pieces s 0). vocab_covers v x"
    using assms(2) unfolding vocab_covers_def by (metis UN_I set_concat)
  moreover have "\<forall>x \<in> set xs. vocab_covers v x \<Longrightarrow> tokens_text v (concat (map (bpe_emit_piece v) xs)) = concat xs" for xs
    by (induction xs) (simp_all add: emit_piece_text [OF assms(1)])
  ultimately have "tokens_text v (concat (map (bpe_emit_piece v) (bpe_pieces s 0))) = concat (bpe_pieces s 0)" by blast
  with pieces show ?thesis by (simp add: bpe_tokenize_text_def bpe_tokenize_pieces)
qed

section \<open>The merge loop against a reference\<close>

text \<open>
  Byte-pair encoding as a relation: one step joins the first of the adjacent pairs of the lowest rank.
\<close>

definition pairs :: "bytes list \<Rightarrow> (bytes \<times> bytes) set" where
  "pairs syms = set (zip syms (tl syms))"

definition mergeable :: "q36_vocab \<Rightarrow> bytes \<Rightarrow> bytes \<Rightarrow> bool" where
  "mergeable v a b \<longleftrightarrow> 0 \<le> bpe_rank v a b \<and> bpe_rank v a b < 2147483647"

inductive bpe_step :: "q36_vocab \<Rightarrow> bytes list \<Rightarrow> bytes list \<Rightarrow> bool" where
  "bpe_step v (xs @ a # b # ys) (xs @ (a @ b) # ys)"
  if "mergeable v a b"
    and "\<forall>(x, y) \<in> pairs (xs @ [a]). mergeable v x y \<longrightarrow> bpe_rank v a b < bpe_rank v x y"
    and "\<forall>(x, y) \<in> pairs (b # ys). mergeable v x y \<longrightarrow> bpe_rank v a b \<le> bpe_rank v x y"

inductive_cases bpe_stepE: "bpe_step v syms z"

lemma pairs_nth: "(x, y) \<in> pairs syms \<longleftrightarrow> (\<exists>i. i + 1 < length syms \<and> x = syms ! i \<and> y = syms ! (i + 1))"
  by (force simp: pairs_def in_set_zip nth_tl)

lemma bpe_best_step_rel:
  assumes "fst (bpe_best v syms) = Some i"
  shows "bpe_step v syms (bpe_merge_at syms i)"
proof -
  obtain r where r: "bpe_best v syms = (Some i, r)" using assms by (cases "bpe_best v syms") auto
  have upto: "best_upto v syms (length syms - 1) (Some i, r)" using bpe_best_upto [of v syms] by (simp add: r)
  note best = bpe_best_Some [OF assms]
  have i: "i + 1 < length syms" by (rule best(1))
  have split: "syms = take i syms @ syms ! i # syms ! (i + 1) # drop (i + 2) syms"
    using i by (metis Cons_nth_drop_Suc Suc_eq_plus1 add_2_eq_Suc' append_take_drop_id add_lessD1)
  have "bpe_step v (take i syms @ syms ! i # syms ! (i + 1) # drop (i + 2) syms)
      (take i syms @ (syms ! i @ syms ! (i + 1)) # drop (i + 2) syms)"
  proof (rule bpe_step.intros)
    show "mergeable v (syms ! i) (syms ! (i + 1))"
      using upto by (simp add: best_upto_def Let_def mergeable_def)
    have "bpe_rank v (syms ! i) (syms ! (i + 1)) < bpe_rank v x y"
      if xy: "(x, y) \<in> pairs (take i syms @ [syms ! i])" "mergeable v x y" for x y
    proof -
      obtain j where "j < i" "x = syms ! j" "y = syms ! (j + 1)"
        using xy(1) i by (auto simp: pairs_nth nth_append less_Suc_eq split: if_splits)
      then show ?thesis using best(3) [of j] i xy(2) by (simp add: mergeable_def)
    qed
    then show "\<forall>(x, y) \<in> pairs (take i syms @ [syms ! i]).
        mergeable v x y \<longrightarrow> bpe_rank v (syms ! i) (syms ! (i + 1)) < bpe_rank v x y" by blast
    have "bpe_rank v (syms ! i) (syms ! (i + 1)) \<le> bpe_rank v x y"
      if xy: "(x, y) \<in> pairs (syms ! (i + 1) # drop (i + 2) syms)" "mergeable v x y" for x y
    proof -
      have "syms ! (i + 1) # drop (i + 2) syms = drop (i + 1) syms" using i by (metis Cons_nth_drop_Suc Suc_eq_plus1 add_2_eq_Suc')
      with xy(1) have "(x, y) \<in> pairs (drop (i + 1) syms)" by simp
      then obtain j where "j + 1 < length (drop (i + 1) syms)" "x = drop (i + 1) syms ! j" "y = drop (i + 1) syms ! (j + 1)"
        unfolding pairs_nth by blast
      then have "j + (i + 1) + 1 < length syms" "x = syms ! (j + (i + 1))" "y = syms ! (j + (i + 1) + 1)"
        by (simp_all add: add.commute)
      then show ?thesis using best(3) [of "j + (i + 1)"] xy(2) by (simp add: mergeable_def)
    qed
    then show "\<forall>(x, y) \<in> pairs (syms ! (i + 1) # drop (i + 2) syms).
        mergeable v x y \<longrightarrow> bpe_rank v (syms ! i) (syms ! (i + 1)) \<le> bpe_rank v x y" by blast
  qed
  then show ?thesis using split by (simp add: bpe_merge_at_def)
qed

lemma bpe_best_no_step:
  assumes "fst (bpe_best v syms) = None"
  shows "\<not> bpe_step v syms z"
proof
  assume "bpe_step v syms z"
  then obtain xs a b ys where "syms = xs @ a # b # ys" "mergeable v a b" by (rule bpe_stepE) blast
  then show False using bpe_best_None [OF assms, of "length xs"] by (auto simp: mergeable_def nth_append)
qed

lemma bpe_merge_steps: "(bpe_step v)\<^sup>*\<^sup>* syms (bpe_merge v syms) \<and> \<not> bpe_step v (bpe_merge v syms) z"
proof (induction v syms rule: bpe_merge.induct)
  case (1 v syms)
  show ?case
  proof (cases "fst (bpe_best v syms)")
    case None
    then show ?thesis using bpe_best_no_step by (subst (1 2) bpe_merge.simps) simp
  next
    case (Some i)
    then show ?thesis
      using "1.IH" [OF Some] bpe_best_step_rel [OF Some]
      by (subst (1 2) bpe_merge.simps) (auto intro: converse_rtranclp_into_rtranclp)
  qed
qed

text \<open>The relation allows one merge at most, so the normal form is the only one.\<close>

lemma bpe_step_det: "bpe_step v syms y \<Longrightarrow> bpe_step v syms z \<Longrightarrow> y = z"
proof (erule bpe_stepE, erule bpe_stepE)
  fix xs a b ys xs' a' b' ys'
  assume s: "syms = xs @ a # b # ys" "y = xs @ (a @ b) # ys" and s': "syms = xs' @ a' # b' # ys'" "z = xs' @ (a' @ b') # ys'"
    and m: "mergeable v a b" "mergeable v a' b'"
    and l: "\<forall>(x, y) \<in> pairs (xs @ [a]). mergeable v x y \<longrightarrow> bpe_rank v a b < bpe_rank v x y"
      "\<forall>(x, y) \<in> pairs (b # ys). mergeable v x y \<longrightarrow> bpe_rank v a b \<le> bpe_rank v x y"
    and l': "\<forall>(x, y) \<in> pairs (xs' @ [a']). mergeable v x y \<longrightarrow> bpe_rank v a' b' < bpe_rank v x y"
      "\<forall>(x, y) \<in> pairs (b' # ys'). mergeable v x y \<longrightarrow> bpe_rank v a' b' \<le> bpe_rank v x y"
  have before: "(a1, b1) \<in> pairs (xs2 @ [a2]) \<and> (a2, b2) \<in> pairs (b1 # ys1)"
    if "xs1 @ a1 # b1 # ys1 = xs2 @ a2 # b2 # ys2" "length xs1 < length xs2"
    for xs1 a1 b1 ys1 xs2 a2 b2 ys2
  proof -
    define us where "us = drop (length xs1) xs2"
    have us: "xs2 = xs1 @ us" "a1 # b1 # ys1 = us @ a2 # b2 # ys2"
      using arg_cong [OF that(1), of "take (length xs1)"] arg_cong [OF that(1), of "drop (length xs1)"] that(2)
        append_take_drop_id [of "length xs1" xs2] by (simp_all add: us_def)
    moreover have "us \<noteq> []" using us(1) that(2) by auto
    ultimately obtain us' where us': "us = a1 # us'" "b1 # ys1 = us' @ a2 # b2 # ys2" by (cases us) auto
    have "(a2, b2) \<in> pairs (us' @ a2 # b2 # ys2)"
      unfolding pairs_nth by (intro exI [of _ "length us'"]) (simp add: nth_append)
    moreover have "b1 = (us' @ [a2]) ! 0" using us'(2) by (cases us') auto
    then have "(a1, b1) \<in> pairs (xs1 @ a1 # us' @ [a2])"
      unfolding pairs_nth by (intro exI [of _ "length xs1"]) (simp add: nth_append)
    ultimately show ?thesis using us(1) us' by simp
  qed
  have "\<not> length xs < length xs'"
    using before [of xs a b ys xs' a' b' ys'] s(1) s'(1) m l l' by fastforce
  moreover have "\<not> length xs' < length xs"
    using before [of xs' a' b' ys' xs a b ys] s(1) s'(1) m l l' by fastforce
  ultimately have "length xs = length xs'" by simp
  then show "y = z" using s s' by simp
qed

lemma bpe_steps_det:
  "(bpe_step v)\<^sup>*\<^sup>* a y \<Longrightarrow> (bpe_step v)\<^sup>*\<^sup>* a z \<Longrightarrow> \<not> (\<exists>x. bpe_step v y x) \<Longrightarrow> \<not> (\<exists>x. bpe_step v z x) \<Longrightarrow> y = z"
proof (induction rule: converse_rtranclp_induct)
  case base
  then show ?case by (metis converse_rtranclpE)
next
  case (step a b)
  from step.prems(1) show ?case
  proof (cases rule: converse_rtranclpE)
    case base
    then show ?thesis using step.hyps(1) step.prems(3) by blast
  next
    case (step c)
    then show ?thesis using step.IH step.prems step.hyps(1) bpe_step_det [of v a b c]
      by (metis \<open>bpe_step v a b\<close> \<open>\<lbrakk>(bpe_step v)\<^sup>*\<^sup>* b z; \<nexists>x. bpe_step v y x; \<nexists>x. bpe_step v z x\<rbrakk> \<Longrightarrow> y = z\<close>)
  qed
qed

text \<open>
  C38. The merge loop is byte-pair encoding: it makes steps of the reference relation, each joining the
  first adjacent pair of the lowest rank, and stops only where none is left; any other way to run these
  steps to their end gives the same symbols.
\<close>

theorem bpe_merge_reference:
  "(bpe_step v)\<^sup>*\<^sup>* syms (bpe_merge v syms) \<and>
   (\<forall>z. (bpe_step v)\<^sup>*\<^sup>* syms z \<and> \<not> (\<exists>y. bpe_step v z y) \<longleftrightarrow> z = bpe_merge v syms)"
proof -
  have normal: "\<not> bpe_step v (bpe_merge v syms) y" for y using bpe_merge_steps by blast
  have "z = bpe_merge v syms" if "(bpe_step v)\<^sup>*\<^sup>* syms z" "\<not> (\<exists>y. bpe_step v z y)" for z
    using that bpe_merge_steps [of v syms] by (metis bpe_steps_det)
  then show ?thesis using bpe_merge_steps [of v syms] normal by blast
qed

end
