(* ===== verification/Gguf.thy ===== *)
theory Gguf
  imports Codec "HOL-Library.Monad_Syntax"
begin

text \<open>
  The GGUF model file (\<^verbatim>\<open>cursor_has\<close> to \<^verbatim>\<open>model_find_tensor\<close> in \<^verbatim>\<open>q36.c\<close>): a cursor over the mapped bytes,
  metadata values, tensor descriptors, and \<^verbatim>\<open>model_open\<close> on the contents of the file.

  \<open>None\<close> is a read that fails, and in the parsers the exit of the process with its message.  Positions
  in the file are natural numbers (the file is shorter than \<open>2 ^ 63\<close> bytes); whatever is read from it
  keeps its width.
\<close>

section \<open>The cursor\<close>

record q36_cursor =
  cu_base :: bytes
  cu_pos :: nat

abbreviation cu_size :: "q36_cursor \<Rightarrow> nat" where
  "cu_size c \<equiv> length (cu_base c)"

definition cursor_has :: "q36_cursor \<Rightarrow> nat \<Rightarrow> bool" where
  "cursor_has c n \<longleftrightarrow> \<not> (n > cu_size c \<or> cu_pos c > cu_size c - n)"

definition cursor_read :: "q36_cursor \<Rightarrow> nat \<Rightarrow> (bytes \<times> q36_cursor) option" where
  "cursor_read c n =
     (if \<not> cursor_has c n then None
      else Some (take n (drop (cu_pos c) (cu_base c)), c\<lparr>cu_pos := cu_pos c + n\<rparr>))"

definition cursor_skip :: "q36_cursor \<Rightarrow> nat \<Rightarrow> q36_cursor option" where
  "cursor_skip c n = (if \<not> cursor_has c n then None else Some (c\<lparr>cu_pos := cu_pos c + n\<rparr>))"

definition cursor_u32 :: "q36_cursor \<Rightarrow> (u32 \<times> q36_cursor) option" where
  "cursor_u32 c = do { (b, c) \<leftarrow> cursor_read c 4; Some (le_get32 b, c) }"

definition cursor_u64 :: "q36_cursor \<Rightarrow> (u64 \<times> q36_cursor) option" where
  "cursor_u64 c = do { (b, c) \<leftarrow> cursor_read c 8; Some (le_get64 b, c) }"

definition cursor_string :: "q36_cursor \<Rightarrow> (bytes \<times> q36_cursor) option" where
  "cursor_string c = do {
     (len, c) \<leftarrow> cursor_u64 c;
     if \<not> cursor_has c (unat len) then None
     else Some (take (unat len) (drop (cu_pos c) (cu_base c)), c\<lparr>cu_pos := cu_pos c + unat len\<rparr>)
   }"

definition align_up :: "u64 \<Rightarrow> u64 \<Rightarrow> u64 option" where
  "align_up v alignment =
     (let rem = v mod alignment
      in if rem = 0 then Some v
         else if v > - 1 - (alignment - rem) then None
         else Some (v + alignment - rem))"

section \<open>Metadata values\<close>

abbreviation "GGUF_VALUE_UINT8 \<equiv> 0 :: u32"
abbreviation "GGUF_VALUE_INT8 \<equiv> 1 :: u32"
abbreviation "GGUF_VALUE_UINT16 \<equiv> 2 :: u32"
abbreviation "GGUF_VALUE_INT16 \<equiv> 3 :: u32"
abbreviation "GGUF_VALUE_UINT32 \<equiv> 4 :: u32"
abbreviation "GGUF_VALUE_INT32 \<equiv> 5 :: u32"
abbreviation "GGUF_VALUE_FLOAT32 \<equiv> 6 :: u32"
abbreviation "GGUF_VALUE_BOOL \<equiv> 7 :: u32"
abbreviation "GGUF_VALUE_STRING \<equiv> 8 :: u32"
abbreviation "GGUF_VALUE_ARRAY \<equiv> 9 :: u32"
abbreviation "GGUF_VALUE_UINT64 \<equiv> 10 :: u32"
abbreviation "GGUF_VALUE_INT64 \<equiv> 11 :: u32"
abbreviation "GGUF_VALUE_FLOAT64 \<equiv> 12 :: u32"

definition scalar_value_size :: "u32 \<Rightarrow> u64" where
  "scalar_value_size ty =
     (if ty \<in> {GGUF_VALUE_UINT8, GGUF_VALUE_INT8, GGUF_VALUE_BOOL} then 1
      else if ty \<in> {GGUF_VALUE_UINT16, GGUF_VALUE_INT16} then 2
      else if ty \<in> {GGUF_VALUE_UINT32, GGUF_VALUE_INT32, GGUF_VALUE_FLOAT32} then 4
      else if ty \<in> {GGUF_VALUE_UINT64, GGUF_VALUE_INT64, GGUF_VALUE_FLOAT64} then 8
      else 0)"

text \<open>\<open>skip_items\<close> is the loop over the items of an array that have no fixed size.\<close>

function skip_value :: "q36_cursor \<Rightarrow> u32 \<Rightarrow> nat \<Rightarrow> q36_cursor option"
  and skip_items :: "q36_cursor \<Rightarrow> u32 \<Rightarrow> nat \<Rightarrow> nat \<Rightarrow> q36_cursor option" where
  "skip_value c ty depth =
     (if depth > 8 then None
      else if scalar_value_size ty \<noteq> 0 then cursor_skip c (unat (scalar_value_size ty))
      else if ty = GGUF_VALUE_STRING then map_option snd (cursor_string c)
      else if ty = GGUF_VALUE_ARRAY then do {
        (item_type, c) \<leftarrow> cursor_u32 c;
        (len, c) \<leftarrow> cursor_u64 c;
        let item_size = scalar_value_size item_type;
        if item_size \<noteq> 0 then
          if len > (- 1) div item_size then None else cursor_skip c (unat (len * item_size))
        else skip_items c item_type (depth + 1) (unat len)
      }
      else None)"
| "skip_items c item_type depth 0 = Some c"
| "skip_items c item_type depth (Suc n) =
     do { c \<leftarrow> skip_value c item_type depth; skip_items c item_type depth n }"
  by pat_completeness auto
termination
  by (relation "measures [\<lambda>x. case x of Inl (c, ty, d) \<Rightarrow> 10 - d | Inr (c, ty, d, n) \<Rightarrow> 10 - d,
      \<lambda>x. case x of Inl _ \<Rightarrow> 0 | Inr (c, ty, d, n) \<Rightarrow> Suc n]") auto

declare skip_value.simps [simp del]

section \<open>Tensor types\<close>

text \<open>The table \<^verbatim>\<open>gguf_types\<close>: elements and bytes of a block.\<close>

definition gguf_types :: "(nat \<times> u32 \<times> u32) list" where
  "gguf_types =
     [(0, 1, 4), (1, 1, 2), (8, 32, 34), (10, 256, 84), (11, 256, 110), (12, 256, 144), (13, 256, 176),
      (14, 256, 210), (15, 256, 292), (16, 256, 66), (17, 256, 74), (18, 256, 98), (19, 256, 50), (20, 32, 18),
      (21, 256, 110), (22, 256, 82), (23, 256, 136), (26, 1, 4), (29, 256, 56), (30, 1, 2)]"

definition tensor_type :: "u32 \<Rightarrow> (u32 \<times> u32) option" where
  "tensor_type ty = map_of gguf_types (unat ty)"

definition tensor_nbytes :: "u32 \<Rightarrow> u64 \<Rightarrow> u64 option" where
  "tensor_nbytes ty elements =
     (case tensor_type ty of
        None \<Rightarrow> None
      | Some (block_elems, block_bytes) \<Rightarrow>
          if block_elems = 0 then None
          else let blocks = (elements + ucast block_elems - 1) div ucast block_elems
               in if blocks > (- 1) div ucast block_bytes then None else Some (blocks * ucast block_bytes))"

section \<open>The model\<close>

record q36_kv =
  kv_key :: bytes
  kv_type :: u32
  kv_value_pos :: nat

record q36_tensor =
  t_name :: bytes
  t_dim :: "u64 list"
  t_type :: u32
  t_rel_offset :: u64
  t_abs_offset :: u64
  t_elements :: u64
  t_bytes :: u64

record q36_model =
  m_map :: bytes
  m_version :: u32
  m_kv :: "q36_kv list"
  m_tensors :: "q36_tensor list"
  m_alignment :: u64
  m_tensor_data_pos :: u64
  m_max_tensor_bytes :: u64

definition cursor_at :: "q36_model \<Rightarrow> nat \<Rightarrow> q36_cursor" where
  "cursor_at m pos = \<lparr>cu_base = m_map m, cu_pos = pos\<rparr>"

definition model_find_kv :: "q36_model \<Rightarrow> bytes \<Rightarrow> q36_kv option" where
  "model_find_kv m key = find (\<lambda>kv. kv_key kv = key) (m_kv m)"

definition model_find_tensor :: "q36_model \<Rightarrow> bytes \<Rightarrow> q36_tensor option" where
  "model_find_tensor m name = find (\<lambda>t. t_name t = name) (m_tensors m)"

definition model_value :: "q36_model \<Rightarrow> bytes \<Rightarrow> u32 \<Rightarrow> q36_cursor option" where
  "model_value m key ty =
     (case model_find_kv m key of None \<Rightarrow> None
      | Some kv \<Rightarrow> if kv_type kv \<noteq> ty then None else Some (cursor_at m (kv_value_pos kv)))"

definition model_get_string :: "q36_model \<Rightarrow> bytes \<Rightarrow> bytes option" where
  "model_get_string m key = do { c \<leftarrow> model_value m key GGUF_VALUE_STRING; map_option fst (cursor_string c) }"

definition model_get_u32 :: "q36_model \<Rightarrow> bytes \<Rightarrow> u32 option" where
  "model_get_u32 m key = do { c \<leftarrow> model_value m key GGUF_VALUE_UINT32; map_option fst (cursor_u32 c) }"

definition model_get_u64_compat :: "q36_model \<Rightarrow> bytes \<Rightarrow> u64 option" where
  "model_get_u64_compat m key =
     (case model_find_kv m key of None \<Rightarrow> None
      | Some kv \<Rightarrow>
          let c = cursor_at m (kv_value_pos kv)
          in if kv_type kv = GGUF_VALUE_UINT64 then map_option fst (cursor_u64 c)
             else if kv_type kv = GGUF_VALUE_UINT32 then map_option (ucast \<circ> fst) (cursor_u32 c)
             else None)"

definition model_get_bool :: "q36_model \<Rightarrow> bytes \<Rightarrow> bool option" where
  "model_get_bool m key = do {
     c \<leftarrow> model_value m key GGUF_VALUE_BOOL; map_option (\<lambda>(b, _). hd b \<noteq> 0) (cursor_read c 1) }"

record q36_array_ref =
  ar_type :: u32
  ar_len :: u64
  ar_data_pos :: nat

definition model_get_array :: "q36_model \<Rightarrow> bytes \<Rightarrow> q36_array_ref option" where
  "model_get_array m key = do {
     c \<leftarrow> model_value m key GGUF_VALUE_ARRAY;
     (ty, c) \<leftarrow> cursor_u32 c;
     (len, c) \<leftarrow> cursor_u64 c;
     Some \<lparr>ar_type = ty, ar_len = len, ar_data_pos = cu_pos c\<rparr>
   }"

definition required_u32 :: "q36_model \<Rightarrow> bytes \<Rightarrow> u32 option" where
  "required_u32 m key = model_get_u32 m key"

section \<open>Opening a model\<close>

text \<open>The sizes of \<^verbatim>\<open>q36_kv\<close> and \<^verbatim>\<open>q36_tensor\<close> on a 64-bit target, for the checks of the array sizes.\<close>

definition sizeof_kv :: u64 where "sizeof_kv = 32"
definition sizeof_tensor :: u64 where "sizeof_tensor = 128"

definition Q36_MAX_DIMS :: u32 where "Q36_MAX_DIMS = 8"
definition Q36_GGUF_MAGIC :: u32 where "Q36_GGUF_MAGIC = 0x46554747"

definition read_alignment :: "q36_model \<Rightarrow> q36_kv \<Rightarrow> u64" where
  "read_alignment m kv =
     (if kv_key kv = str ''general.alignment'' \<and> kv_type kv = GGUF_VALUE_UINT32 then
        case cursor_u32 (cursor_at m (kv_value_pos kv)) of
          Some (align, _) \<Rightarrow> if align \<noteq> 0 then ucast align else m_alignment m
        | None \<Rightarrow> m_alignment m
      else m_alignment m)"

fun parse_kvs :: "nat \<Rightarrow> q36_model \<Rightarrow> q36_cursor \<Rightarrow> (q36_model \<times> q36_cursor) option" where
  "parse_kvs 0 m c = Some (m, c)"
| "parse_kvs (Suc n) m c = do {
     (key, c) \<leftarrow> cursor_string c;
     (ty, c) \<leftarrow> cursor_u32 c;
     let kv = \<lparr>kv_key = key, kv_type = ty, kv_value_pos = cu_pos c\<rparr>;
     c \<leftarrow> skip_value c ty 0;
     parse_kvs n (m\<lparr>m_kv := m_kv m @ [kv], m_alignment := read_alignment m kv\<rparr>) c
   }"

definition parse_metadata :: "q36_model \<Rightarrow> u64 \<Rightarrow> q36_cursor \<Rightarrow> (q36_model \<times> q36_cursor) option" where
  "parse_metadata m n_kv c =
     (if unat n_kv > (cu_size c - cu_pos c) div 12 \<or> n_kv > (- 1) div sizeof_kv then None
      else parse_kvs (unat n_kv) (m\<lparr>m_alignment := 32\<rparr>) c)"

text \<open>The dimensions and the number of elements.\<close>

fun read_dims :: "nat \<Rightarrow> q36_cursor \<Rightarrow> u64 list \<Rightarrow> u64 \<Rightarrow> (u64 list \<times> u64 \<times> q36_cursor) option" where
  "read_dims 0 c dims elements = Some (dims, elements, c)"
| "read_dims (Suc n) c dims elements = do {
     (d, c) \<leftarrow> cursor_u64 c;
     if d \<noteq> 0 \<and> elements > (- 1) div d then None
     else read_dims n c (dims @ [d]) (elements * d)
   }"

definition parse_tensor :: "q36_cursor \<Rightarrow> (q36_tensor \<times> q36_cursor) option" where
  "parse_tensor c = do {
     (name, c) \<leftarrow> cursor_string c;
     (ndim, c) \<leftarrow> cursor_u32 c;
     if ndim = 0 \<or> ndim > Q36_MAX_DIMS then None
     else do {
       (dims, elements, c) \<leftarrow> read_dims (unat ndim) c [] 1;
       (ty, c) \<leftarrow> cursor_u32 c;
       (off, c) \<leftarrow> cursor_u64 c;
       nbytes \<leftarrow> tensor_nbytes ty elements;
       Some (\<lparr>t_name = name, t_dim = dims, t_type = ty, t_rel_offset = off, t_abs_offset = 0,
              t_elements = elements, t_bytes = nbytes\<rparr>, c)
     }
   }"

fun parse_tensor_list :: "nat \<Rightarrow> q36_cursor \<Rightarrow> (q36_tensor list \<times> q36_cursor) option" where
  "parse_tensor_list 0 c = Some ([], c)"
| "parse_tensor_list (Suc n) c = do {
     (t, c) \<leftarrow> parse_tensor c;
     (ts, c) \<leftarrow> parse_tensor_list n c;
     Some (t # ts, c)
   }"

definition place_tensor :: "u64 \<Rightarrow> u64 \<Rightarrow> q36_tensor \<Rightarrow> q36_tensor option" where
  "place_tensor msize data_pos t =
     (if t_rel_offset t > - 1 - data_pos then None
      else let ab = data_pos + t_rel_offset t
           in if t_bytes t \<noteq> 0 \<and> (ab > msize \<or> t_bytes t > msize - ab) then None
              else Some (t\<lparr>t_abs_offset := ab\<rparr>))"

fun place_tensors :: "u64 \<Rightarrow> u64 \<Rightarrow> q36_tensor list \<Rightarrow> q36_tensor list option" where
  "place_tensors msize data_pos [] = Some []"
| "place_tensors msize data_pos (t # ts) = do {
     t \<leftarrow> place_tensor msize data_pos t;
     ts \<leftarrow> place_tensors msize data_pos ts;
     Some (t # ts)
   }"

definition max_bytes :: "q36_tensor list \<Rightarrow> u64" where
  "max_bytes ts = foldl (\<lambda>a t. if t_bytes t > a then t_bytes t else a) 0 ts"

definition parse_tensors :: "q36_model \<Rightarrow> u64 \<Rightarrow> q36_cursor \<Rightarrow> q36_model option" where
  "parse_tensors m n_tensors c =
     (if unat n_tensors > (cu_size c - cu_pos c) div 32 \<or> n_tensors > (- 1) div sizeof_tensor then None
      else do {
        (ts, c) \<leftarrow> parse_tensor_list (unat n_tensors) c;
        data_pos \<leftarrow> align_up (word_of_nat (cu_pos c)) (m_alignment m);
        ts \<leftarrow> place_tensors (word_of_nat (length (m_map m))) data_pos ts;
        Some (m\<lparr>m_tensors := ts, m_tensor_data_pos := data_pos, m_max_tensor_bytes := max_bytes ts\<rparr>)
      })"

text \<open>\<^verbatim>\<open>model_open\<close> on the mapped contents of the file.\<close>

definition model_open :: "bytes \<Rightarrow> q36_model option" where
  "model_open data =
     (if length data < 32 then None
      else do {
        let m = \<lparr>m_map = data, m_version = 0, m_kv = [], m_tensors = [], m_alignment = 0,
                 m_tensor_data_pos = 0, m_max_tensor_bytes = 0\<rparr>;
        let c = cursor_at m 0;
        (magic, c) \<leftarrow> cursor_u32 c;
        if magic \<noteq> Q36_GGUF_MAGIC then None
        else do {
          (version, c) \<leftarrow> cursor_u32 c;
          (n_tensors, c) \<leftarrow> cursor_u64 c;
          (n_kv, c) \<leftarrow> cursor_u64 c;
          if version \<noteq> 3 then None
          else do {
            (m, c) \<leftarrow> parse_metadata (m\<lparr>m_version := version\<rparr>) n_kv c;
            parse_tensors m n_tensors c
          }
        }
      })"

section \<open>What an opened model satisfies\<close>

text \<open>Every read moves the cursor forward within the same bytes.\<close>

definition cursor_moves :: "q36_cursor \<Rightarrow> q36_cursor \<Rightarrow> bool" where
  "cursor_moves c d \<longleftrightarrow> cu_base d = cu_base c \<and> cu_pos c \<le> cu_pos d \<and> cu_pos d \<le> cu_size c"

lemma cursor_moves_trans: "cursor_moves a b \<Longrightarrow> cursor_moves b c \<Longrightarrow> cursor_moves a c"
  by (auto simp: cursor_moves_def)

lemma cursor_moves_advance: "cursor_has c n \<Longrightarrow> cursor_moves c (c\<lparr>cu_pos := cu_pos c + n\<rparr>)"
  by (auto simp: cursor_moves_def cursor_has_def)

lemma cursor_read_moves: "cursor_read c n = Some (b, d) \<Longrightarrow> cursor_moves c d \<and> length b = n"
  by (auto simp: cursor_read_def cursor_moves_advance cursor_has_def split: if_splits)

lemma cursor_skip_moves: "cursor_skip c n = Some d \<Longrightarrow> cursor_moves c d"
  by (auto simp: cursor_skip_def cursor_moves_advance split: if_splits)

lemma cursor_u32_moves: "cursor_u32 c = Some (v, d) \<Longrightarrow> cursor_moves c d \<and> cu_pos d = cu_pos c + 4"
  by (auto simp: cursor_u32_def bind_eq_Some_conv cursor_read_def cursor_moves_advance split: if_splits)

lemma cursor_u64_moves: "cursor_u64 c = Some (v, d) \<Longrightarrow> cursor_moves c d \<and> cu_pos d = cu_pos c + 8"
  by (auto simp: cursor_u64_def bind_eq_Some_conv cursor_read_def cursor_moves_advance split: if_splits)

lemma cursor_string_moves:
  assumes "cursor_string c = Some (s, d)"
  shows "cursor_moves c d"
proof -
  obtain len c1 where c1: "cursor_u64 c = Some (len, c1)" "cursor_has c1 (unat len)"
    "d = c1\<lparr>cu_pos := cu_pos c1 + unat len\<rparr>"
    using assms unfolding cursor_string_def by (auto simp: bind_eq_Some_conv split: if_splits)
  then show ?thesis
    using cursor_moves_trans [of c c1 d] cursor_u64_moves [OF c1(1)] cursor_moves_advance [OF c1(2)] by simp
qed

lemma skip_moves:
  "cu_pos c \<le> cu_size c \<Longrightarrow> skip_value c ty depth = Some d \<Longrightarrow> cursor_moves c d"
  "cu_pos c \<le> cu_size c \<Longrightarrow> skip_items c ty depth n = Some d \<Longrightarrow> cursor_moves c d"
proof (induction c ty depth and c ty depth n arbitrary: d and d rule: skip_value_skip_items.induct)
  case (1 c ty depth)
  have skip: "skip_value c ty depth = Some d" by (rule "1.prems"(2))
  consider (scalar) "cursor_skip c (unat (scalar_value_size ty)) = Some d"
    | (string) s where "cursor_string c = Some (s, d)"
    | (array) it c1 len c2 where "cursor_u32 c = Some (it, c1)" "cursor_u64 c1 = Some (len, c2)"
        "(if scalar_value_size it \<noteq> 0 then
           if len > (- 1) div scalar_value_size it then None else cursor_skip c2 (unat (len * scalar_value_size it))
         else skip_items c2 it (depth + 1) (unat len)) = Some d"
        "\<not> 8 < depth" "scalar_value_size ty = 0" "ty \<noteq> GGUF_VALUE_STRING" "ty = GGUF_VALUE_ARRAY"
  proof -
    show thesis if a: "cursor_skip c (unat (scalar_value_size ty)) = Some d \<Longrightarrow> thesis"
      "\<And>s. cursor_string c = Some (s, d) \<Longrightarrow> thesis"
      "\<And>it c1 len c2. cursor_u32 c = Some (it, c1) \<Longrightarrow> cursor_u64 c1 = Some (len, c2) \<Longrightarrow>
        (if scalar_value_size it \<noteq> 0 then
           if len > (- 1) div scalar_value_size it then None else cursor_skip c2 (unat (len * scalar_value_size it))
         else skip_items c2 it (depth + 1) (unat len)) = Some d \<Longrightarrow>
        \<not> 8 < depth \<Longrightarrow> scalar_value_size ty = 0 \<Longrightarrow> ty \<noteq> GGUF_VALUE_STRING \<Longrightarrow> ty = GGUF_VALUE_ARRAY \<Longrightarrow> thesis"
    proof -
      have nd: "\<not> 8 < depth" using skip by (subst (asm) skip_value.simps) auto
      show thesis
      proof (cases "scalar_value_size ty \<noteq> 0")
        case True
        then show thesis using skip nd a(1) by (subst (asm) skip_value.simps) simp
      next
        case no: False
        show thesis
        proof (cases "ty = GGUF_VALUE_STRING")
          case True
          then show thesis using skip nd no a(2) by (subst (asm) skip_value.simps) auto
        next
          case ns: False
          have arr: "ty = GGUF_VALUE_ARRAY"
            using skip nd no ns by (subst (asm) skip_value.simps) (auto split: if_splits)
          have "do { (item_type, c) \<leftarrow> cursor_u32 c; (len, c) \<leftarrow> cursor_u64 c;
              let item_size = scalar_value_size item_type;
              if item_size \<noteq> 0 then
                if len > (- 1) div item_size then None else cursor_skip c (unat (len * item_size))
              else skip_items c item_type (depth + 1) (unat len) } = Some d"
            using skip nd no ns arr by (subst (asm) skip_value.simps) simp
          then show thesis
            using a(3) nd no ns arr by (auto simp: bind_eq_Some_conv Let_def)
        qed
      qed
    qed
  qed
  then show ?case
  proof cases
    case scalar
    then show ?thesis by (rule cursor_skip_moves)
  next
    case string
    then show ?thesis by (rule cursor_string_moves)
  next
    case array
    then have m: "cursor_moves c c2" using cursor_u32_moves cursor_u64_moves cursor_moves_trans by blast
    have "cursor_moves c2 d"
    proof (cases "scalar_value_size it \<noteq> 0")
      case True
      then show ?thesis using array(3) by (auto intro: cursor_skip_moves split: if_splits)
    next
      case False
      moreover have "cu_pos c2 \<le> cu_size c2" using m by (auto simp: cursor_moves_def)
      ultimately show ?thesis using "1.IH" array by auto
    qed
    with m show ?thesis by (rule cursor_moves_trans)
  qed
next
  case (2 c it depth)
  then show ?case by (simp add: cursor_moves_def)
next
  case (3 c it depth n)
  then obtain c1 where c1: "skip_value c it depth = Some c1" "skip_items c1 it depth n = Some d"
    by (auto simp: bind_eq_Some_conv)
  have m: "cursor_moves c c1" using "3.IH"(1) "3.prems"(1) c1(1) by blast
  then have "cu_pos c1 \<le> cu_size c1" by (auto simp: cursor_moves_def)
  then have "cursor_moves c1 d" using "3.IH"(2) c1 by blast
  with m show ?case by (rule cursor_moves_trans)
qed

lemma parse_kvs_moves:
  assumes "parse_kvs n m c = Some (m', d)" "cu_pos c \<le> cu_size c"
  shows "cursor_moves c d \<and> m_map m' = m_map m \<and> m_tensors m' = m_tensors m \<and> length (m_kv m') = length (m_kv m) + n \<and>
    (\<forall>i < n. \<exists>v. skip_value \<lparr>cu_base = cu_base c, cu_pos = kv_value_pos (m_kv m' ! (length (m_kv m) + i))\<rparr>
        (kv_type (m_kv m' ! (length (m_kv m) + i))) 0 = Some v) \<and>
    (\<forall>i < length (m_kv m). m_kv m' ! i = m_kv m ! i) \<and> (m_alignment m \<noteq> 0 \<longrightarrow> m_alignment m' \<noteq> 0)"
  using assms
proof (induction n arbitrary: m c)
  case 0
  then show ?case by (simp add: cursor_moves_def)
next
  case (Suc n)
  obtain key c1 ty c2 c3 where a: "cursor_string c = Some (key, c1)" "cursor_u32 c1 = Some (ty, c2)"
    "skip_value c2 ty 0 = Some c3"
    "parse_kvs n (m\<lparr>m_kv := m_kv m @ [\<lparr>kv_key = key, kv_type = ty, kv_value_pos = cu_pos c2\<rparr>],
        m_alignment := read_alignment m \<lparr>kv_key = key, kv_type = ty, kv_value_pos = cu_pos c2\<rparr>\<rparr>) c3 = Some (m', d)"
    using Suc.prems(1) by (auto simp: bind_eq_Some_conv Let_def)
  have m12: "cursor_moves c c2" using a(1,2) cursor_string_moves cursor_u32_moves cursor_moves_trans by blast
  then have m23: "cursor_moves c2 c3" using skip_moves(1) [OF _ a(3)] by (auto simp: cursor_moves_def)
  have m13: "cursor_moves c c3" by (rule cursor_moves_trans [OF m12 m23])
  define kv where "kv = \<lparr>kv_key = key, kv_type = ty, kv_value_pos = cu_pos c2\<rparr>"
  define m1 where "m1 = m\<lparr>m_kv := m_kv m @ [kv], m_alignment := read_alignment m kv\<rparr>"
  have c2: "\<lparr>cu_base = cu_base c, cu_pos = cu_pos c2\<rparr> = c2" using m12 by (simp add: cursor_moves_def)
  have al: "m_alignment m \<noteq> 0 \<longrightarrow> m_alignment m1 \<noteq> 0"
    by (auto simp: m1_def read_alignment_def word_unat_eq_iff unat_ucast_up split: option.splits)
  have IH: "cursor_moves c3 d \<and> m_map m' = m_map m1 \<and> m_tensors m' = m_tensors m1 \<and> length (m_kv m') = length (m_kv m1) + n \<and>
    (\<forall>i < n. \<exists>v. skip_value \<lparr>cu_base = cu_base c3, cu_pos = kv_value_pos (m_kv m' ! (length (m_kv m1) + i))\<rparr>
        (kv_type (m_kv m' ! (length (m_kv m1) + i))) 0 = Some v) \<and>
    (\<forall>i < length (m_kv m1). m_kv m' ! i = m_kv m1 ! i) \<and> (m_alignment m1 \<noteq> 0 \<longrightarrow> m_alignment m' \<noteq> 0)"
    using Suc.IH [of m1 c3] a(4) m13 by (simp add: m1_def kv_def cursor_moves_def)
  have here: "m_kv m' ! length (m_kv m) = kv" using IH by (simp add: m1_def nth_append)
  have skip: "\<exists>v. skip_value \<lparr>cu_base = cu_base c, cu_pos = kv_value_pos (m_kv m' ! (length (m_kv m) + i))\<rparr>
        (kv_type (m_kv m' ! (length (m_kv m) + i))) 0 = Some v" if i: "i < Suc n" for i
  proof (cases i)
    case 0
    then show ?thesis using here a(3) c2 by (simp add: kv_def)
  next
    case (Suc j)
    then show ?thesis using IH i m13 by (simp add: m1_def cursor_moves_def)
  qed
  have old: "m_kv m' ! i = m_kv m ! i" if "i < length (m_kv m)" for i
    using IH that by (simp add: m1_def nth_append)
  show ?case
    using IH skip old al cursor_moves_trans [OF m13, of d] by (simp add: m1_def)
qed

lemma read_dims_elements:
  assumes "read_dims n c dims el = Some (dims', el', d)" "unat el = prod_list (map unat dims)" "cu_pos c \<le> cu_size c"
  shows "unat el' = prod_list (map unat dims') \<and> length dims' = length dims + n \<and> cursor_moves c d"
  using assms
proof (induction n arbitrary: c dims el)
  case 0
  then show ?case by (simp add: cursor_moves_def)
next
  case (Suc n)
  obtain x c1 where a: "cursor_u64 c = Some (x, c1)" "x = 0 \<or> \<not> el > (- 1) div x"
    "read_dims n c1 (dims @ [x]) (el * x) = Some (dims', el', d)"
    using Suc.prems(1) by (auto simp: bind_eq_Some_conv split: if_splits)
  have m: "cursor_moves c c1" using cursor_u64_moves [OF a(1)] by simp
  have "unat (el * x) = unat el * unat x"
  proof (cases "x = 0")
    case False
    then have "unat el \<le> (2 ^ 64 - 1) div unat x"
      using a(2) by (simp add: word_less_nat_alt unat_div unsigned_minus_1_eq_mask mask_eq_exp_minus_1)
    then have "unat el * unat x \<le> 2 ^ 64 - 1"
      by (metis div_times_less_eq_dividend le_trans mult_le_mono1)
    then show ?thesis by (simp add: unat_word_ariths)
  qed simp
  then have el: "unat (el * x) = prod_list (map unat (dims @ [x]))" using Suc.prems(2) by simp
  have "cu_pos c1 \<le> cu_size c1" using m by (auto simp: cursor_moves_def)
  then show ?case
    using Suc.IH [OF a(3) el] cursor_moves_trans [OF m] by auto
qed

text \<open>A tensor whose descriptor is sound, and where it lies in the file.\<close>

definition tensor_shaped :: "q36_tensor \<Rightarrow> bool" where
  "tensor_shaped t \<longleftrightarrow>
     1 \<le> length (t_dim t) \<and> length (t_dim t) \<le> 8 \<and>
     unat (t_elements t) = prod_list (map unat (t_dim t)) \<and>
     tensor_nbytes (t_type t) (t_elements t) = Some (t_bytes t)"

definition tensor_placed :: "q36_model \<Rightarrow> q36_tensor \<Rightarrow> bool" where
  "tensor_placed m t \<longleftrightarrow>
     unat (t_abs_offset t) = unat (m_tensor_data_pos m) + unat (t_rel_offset t) \<and>
     (t_bytes t \<noteq> 0 \<longrightarrow> unat (t_abs_offset t) + unat (t_bytes t) \<le> length (m_map m)) \<and>
     t_bytes t \<le> m_max_tensor_bytes m"

lemma parse_tensor_shaped:
  assumes "parse_tensor c = Some (t, d)" "cu_pos c \<le> cu_size c"
  shows "tensor_shaped t \<and> cursor_moves c d"
proof -
  obtain name c1 ndim c2 dims el c3 ty c4 off nb where a:
    "cursor_string c = Some (name, c1)" "cursor_u32 c1 = Some (ndim, c2)" "ndim \<noteq> 0" "\<not> ndim > Q36_MAX_DIMS"
    "read_dims (unat ndim) c2 [] 1 = Some (dims, el, c3)" "cursor_u32 c3 = Some (ty, c4)" "cursor_u64 c4 = Some (off, d)"
    "tensor_nbytes ty el = Some nb"
    "t = \<lparr>t_name = name, t_dim = dims, t_type = ty, t_rel_offset = off, t_abs_offset = 0, t_elements = el, t_bytes = nb\<rparr>"
    using assms(1) unfolding parse_tensor_def by (auto simp: bind_eq_Some_conv split: if_splits)
  have m2: "cursor_moves c c2" using a(1,2) cursor_string_moves cursor_u32_moves cursor_moves_trans by blast
  then have "cu_pos c2 \<le> cu_size c2" by (auto simp: cursor_moves_def)
  from read_dims_elements [OF a(5) _ this]
  have dims: "unat el = prod_list (map unat dims)" "length dims = unat ndim" "cursor_moves c2 c3" by auto
  have "cursor_moves c3 d" using a(6,7) cursor_u32_moves cursor_u64_moves cursor_moves_trans by blast
  then have "cursor_moves c d" using m2 dims(3) cursor_moves_trans by blast
  moreover have "1 \<le> unat ndim" "unat ndim \<le> 8"
    using a(3,4) by (simp_all add: unat_gt_0 Q36_MAX_DIMS_def word_less_nat_alt Suc_le_eq)
  ultimately show ?thesis using a dims by (simp add: tensor_shaped_def)
qed

lemma parse_tensor_list_shaped:
  assumes "parse_tensor_list n c = Some (ts, d)" "cu_pos c \<le> cu_size c"
  shows "(\<forall>t \<in> set ts. tensor_shaped t) \<and> length ts = n \<and> cursor_moves c d"
  using assms
proof (induction n arbitrary: c ts)
  case 0
  then show ?case by (simp add: cursor_moves_def)
next
  case (Suc n)
  obtain t c1 us where a: "parse_tensor c = Some (t, c1)" "parse_tensor_list n c1 = Some (us, d)" "ts = t # us"
    using Suc.prems(1) by (auto simp: bind_eq_Some_conv)
  have t: "tensor_shaped t" "cursor_moves c c1" using parse_tensor_shaped [OF a(1) Suc.prems(2)] by simp_all
  then have "cu_pos c1 \<le> cu_size c1" by (auto simp: cursor_moves_def)
  with Suc.IH [OF a(2)] t a(3) cursor_moves_trans [OF t(2)] show ?case by auto
qed

lemma max_bytes_ge: "t \<in> set ts \<Longrightarrow> t_bytes t \<le> max_bytes ts"
proof -
  have "a \<le> foldl (\<lambda>a t. if t_bytes t > a then t_bytes t else a) a ts \<and>
      (\<forall>t \<in> set ts. t_bytes t \<le> foldl (\<lambda>a t. if t_bytes t > a then t_bytes t else a) a ts)" for a
  proof (induction ts arbitrary: a)
    case (Cons x ts)
    then show ?case by (auto simp: not_less dest: order_trans less_imp_le)
  qed simp
  then show "t \<in> set ts \<Longrightarrow> ?thesis" by (simp add: max_bytes_def)
qed

lemma place_tensor_placed:
  assumes "place_tensor msize pos t = Some u"
  shows "u = t\<lparr>t_abs_offset := pos + t_rel_offset t\<rparr>"
    "unat (t_abs_offset u) = unat pos + unat (t_rel_offset u)"
    "t_bytes u \<noteq> 0 \<Longrightarrow> unat (t_abs_offset u) + unat (t_bytes u) \<le> unat msize"
proof -
  have a: "\<not> t_rel_offset t > - 1 - pos" "u = t\<lparr>t_abs_offset := pos + t_rel_offset t\<rparr>"
    "t_bytes t = 0 \<or> \<not> pos + t_rel_offset t > msize \<and> \<not> t_bytes t > msize - (pos + t_rel_offset t)"
    using assms by (auto simp: place_tensor_def Let_def split: if_splits)
  show "u = t\<lparr>t_abs_offset := pos + t_rel_offset t\<rparr>" by (rule a(2))
  show "unat (t_abs_offset u) = unat pos + unat (t_rel_offset u)"
    using a(1,2) unat_add_le_max [of "t_rel_offset t" pos] by (simp add: not_less)
  show "unat (t_abs_offset u) + unat (t_bytes u) \<le> unat msize" if "t_bytes u \<noteq> 0"
  proof -
    have le: "pos + t_rel_offset t \<le> msize" "t_bytes t \<le> msize - (pos + t_rel_offset t)"
      using a(2,3) that by auto
    then have "unat (t_bytes t) \<le> unat msize - unat (pos + t_rel_offset t)"
      by (simp add: word_le_nat_alt unat_sub)
    moreover have "unat (pos + t_rel_offset t) \<le> unat msize" using le(1) by (simp add: word_le_nat_alt)
    ultimately show ?thesis using a(2) by simp
  qed
qed

lemma place_tensors_set:
  "place_tensors msize pos ts = Some us \<Longrightarrow> u \<in> set us \<Longrightarrow> \<exists>t \<in> set ts. place_tensor msize pos t = Some u"
  by (induction ts arbitrary: us) (auto simp: bind_eq_Some_conv)

lemma align_up_aligned:
  assumes "align_up v al = Some w" "al \<noteq> 0"
  shows "unat w mod unat al = 0 \<and> unat v \<le> unat w \<and> unat w < unat v + unat al"
proof -
  have al: "0 < unat al" using assms(2) by (simp add: unat_gt_0)
  show ?thesis
  proof (cases "v mod al = 0")
    case True
    then have "unat v mod unat al = 0" by (metis unat_mod unsigned_0)
    then show ?thesis using assms(1) True al by (simp add: align_up_def)
  next
    case False
    then have w: "w = v + (al - v mod al)" "\<not> v > - 1 - (al - v mod al)"
      using assms(1) by (auto simp: align_up_def Let_def algebra_simps split: if_splits)
    have m: "unat (v mod al) = unat v mod unat al" "unat v mod unat al < unat al" using al by (simp_all add: unat_mod)
    then have "v mod al \<le> al" by (simp add: word_le_nat_alt)
    then have s: "unat (al - v mod al) = unat al - unat v mod unat al" using m(1) by (simp add: unat_sub)
    have "unat w = unat v + (unat al - unat v mod unat al)"
      unfolding w(1) using w(2) s unat_add_le_max [of v "al - v mod al"] by (simp add: not_less add.commute)
    moreover have "(unat v + (unat al - unat v mod unat al)) mod unat al = 0"
    proof -
      have "unat v + (unat al - unat v mod unat al) = unat al * (unat v div unat al) + unat al"
        using m(2) mult_div_mod_eq [of "unat al" "unat v"] by linarith
      then show ?thesis by simp
    qed
    moreover have "0 < unat v mod unat al"
      using False m(1) by (metis bot_nat_0.not_eq_extremum unat_eq_zero)
    ultimately show ?thesis using m(2) by simp
  qed
qed

lemma model_open_sound:
  assumes "model_open data = Some m" "length data < 2 ^ 63"
  shows "m_map m = data" "\<forall>t \<in> set (m_tensors m). tensor_shaped t \<and> tensor_placed m t"
    "m_alignment m \<noteq> 0" "unat (m_tensor_data_pos m) mod unat (m_alignment m) = 0"
    "\<forall>kv \<in> set (m_kv m). \<exists>c. skip_value (cursor_at m (kv_value_pos kv)) (kv_type kv) 0 = Some c"
proof -
  define m0 where "m0 = \<lparr>m_map = data, m_version = 0, m_kv = [], m_tensors = [], m_alignment = 0,
                 m_tensor_data_pos = 0, m_max_tensor_bytes = 0\<rparr>"
  obtain magic c1 version c2 nt c3 nkv c4 m1 c5 where a:
    "cursor_u32 (cursor_at m0 0) = Some (magic, c1)" "cursor_u32 c1 = Some (version, c2)"
    "cursor_u64 c2 = Some (nt, c3)" "cursor_u64 c3 = Some (nkv, c4)"
    "parse_metadata (m0\<lparr>m_version := version\<rparr>) nkv c4 = Some (m1, c5)" "parse_tensors m1 nt c5 = Some m"
    using assms(1) unfolding model_open_def m0_def [symmetric] Let_def
    by (auto simp: bind_eq_Some_conv split: if_splits)
  have base: "cu_base (cursor_at m0 0) = data" by (simp add: cursor_at_def m0_def)
  have "cursor_moves (cursor_at m0 0) c4"
    using a(1-4) cursor_u32_moves cursor_u64_moves cursor_moves_trans by blast
  then have c4: "cu_base c4 = data" "cu_pos c4 \<le> cu_size c4" using base by (auto simp: cursor_moves_def)
  have kvs: "parse_kvs (unat nkv) (m0\<lparr>m_version := version, m_alignment := 32\<rparr>) c4 = Some (m1, c5)"
    using a(5) by (auto simp: parse_metadata_def m0_def split: if_splits)
  note k = parse_kvs_moves [OF kvs c4(2)]
  have m1: "m_map m1 = data" "m_alignment m1 \<noteq> 0" "cursor_moves c4 c5"
    using k by (simp_all add: m0_def)
  have c5: "cu_base c5 = data" "cu_pos c5 \<le> cu_size c5" using m1(3) c4 by (auto simp: cursor_moves_def)
  obtain ts c6 pos us where t: "parse_tensor_list (unat nt) c5 = Some (ts, c6)"
    "align_up (word_of_nat (cu_pos c6)) (m_alignment m1) = Some pos"
    "place_tensors (word_of_nat (length (m_map m1))) pos ts = Some us"
    "m = m1\<lparr>m_tensors := us, m_tensor_data_pos := pos, m_max_tensor_bytes := max_bytes us\<rparr>"
    using a(6) unfolding parse_tensors_def by (auto simp: bind_eq_Some_conv split: if_splits)
  show "m_map m = data" "m_alignment m \<noteq> 0" using m1 t(4) by simp_all
  show "unat (m_tensor_data_pos m) mod unat (m_alignment m) = 0"
    using align_up_aligned [OF t(2) m1(2)] t(4) by simp
  have size: "unat (word_of_nat (length data) :: u64) = length data"
    using assms(2) by (intro unat_word_of_nat_small) simp
  show "\<forall>t \<in> set (m_tensors m). tensor_shaped t \<and> tensor_placed m t"
  proof
    fix u assume "u \<in> set (m_tensors m)"
    then have u: "u \<in> set us" using t(4) by simp
    then obtain x where x: "x \<in> set ts" "place_tensor (word_of_nat (length data)) pos x = Some u"
      using place_tensors_set [OF t(3)] m1(1) by auto
    have "tensor_shaped x" using parse_tensor_list_shaped [OF t(1) c5(2)] x(1) by blast
    then have "tensor_shaped u" using place_tensor_placed(1) [OF x(2)] by (simp add: tensor_shaped_def)
    moreover have "tensor_placed m u"
      using place_tensor_placed(2,3) [OF x(2)] max_bytes_ge [OF u] t(4) m1(1) size by (simp add: tensor_placed_def)
    ultimately show "tensor_shaped u \<and> tensor_placed m u" by simp
  qed
  have kv: "m_kv m = m_kv m1" "length (m_kv m1) = unat nkv" using k t(4) by (simp_all add: m0_def)
  show "\<forall>kv \<in> set (m_kv m). \<exists>c. skip_value (cursor_at m (kv_value_pos kv)) (kv_type kv) 0 = Some c"
    using k kv m1(1) t(4) c4(1) by (auto simp: in_set_conv_nth cursor_at_def m0_def)
qed

text \<open>
  The size of a tensor: whole blocks.  The count of blocks is computed in 64 bits, so it is the exact one
  only while the elements leave room for one more block; beyond that it starts again from 0.
\<close>

lemma gguf_types_blocks: "tensor_type ty = Some (be, bb) \<Longrightarrow> 1 \<le> unat be \<and> unat be \<le> 256 \<and> 1 \<le> unat bb"
proof -
  assume "tensor_type ty = Some (be, bb)"
  then have "(unat ty, be, bb) \<in> set gguf_types" by (auto simp: tensor_type_def dest: map_of_SomeD)
  moreover have "list_all (\<lambda>(n, be, bb). 1 \<le> unat (be :: u32) \<and> unat be \<le> 256 \<and> 1 \<le> unat (bb :: u32)) gguf_types"
    by code_simp
  ultimately show ?thesis by (auto simp: list_all_iff)
qed

lemma tensor_nbytes_blocks:
  assumes "tensor_nbytes ty el = Some b"
  shows "\<exists>be bb. tensor_type ty = Some (be, bb) \<and>
    unat b = (unat el + unat be - 1) mod 2 ^ 64 div unat be * unat bb"
proof -
  obtain be bb where t: "tensor_type ty = Some (be, bb)"
    "\<not> (el + ucast be - 1) div ucast be > (- 1) div (ucast bb :: u64)"
    "b = (el + ucast be - 1) div ucast be * ucast bb"
    using assms by (auto simp: tensor_nbytes_def Let_def split: option.splits if_splits)
  note bl = gguf_types_blocks [OF t(1)]
  have be: "unat (ucast be :: u64) = unat be" and bb: "unat (ucast bb :: u64) = unat bb"
    by (simp_all add: unat_ucast_up)
  have "el + ucast be - 1 = word_of_nat (unat el + unat be - 1)"
  proof -
    have "word_of_nat (unat el + unat be) = (el + ucast be :: u64)" by simp
    then show ?thesis using bl by (simp add: of_nat_diff)
  qed
  then have n: "unat (el + ucast be - 1) = (unat el + unat be - 1) mod 2 ^ 64"
    by (simp only: unat_of_nat take_bit_eq_mod) simp
  have m1: "unat (- 1 :: u64) = 2 ^ 64 - 1" by (simp add: unsigned_minus_1_eq_mask mask_eq_exp_minus_1)
  have "unat ((el + ucast be - 1) div ucast be) \<le> (2 ^ 64 - 1) div unat bb"
    using t(2) unfolding not_less word_le_nat_alt unat_div bb m1 .
  then have "unat ((el + ucast be - 1) div ucast be) * unat bb \<le> (2 ^ 64 - 1) div unat bb * unat bb"
    by (rule mult_le_mono1)
  also have "\<dots> \<le> 2 ^ 64 - 1" by (rule div_times_less_eq_dividend)
  finally have "unat b = unat ((el + ucast be - 1) div ucast be) * unat bb"
    unfolding t(3) by (simp only: unat_word_ariths bb) simp
  then show ?thesis using t(1) n be by (auto simp: unat_div)
qed

lemma tensor_nbytes_wraps: "tensor_nbytes 12 (- 1) = Some 0"
  by code_simp

section \<open>Properties\<close>

text \<open>
  C36. A model file that is opened keeps every tensor inside it: each has one to eight dimensions whose
  product, as a natural number, is its element count; its size is the whole blocks of that count taken
  modulo \<open>2 ^ 64\<close>; its data starts at an aligned base plus its offset, with no wrap-around, and a tensor
  with data ends before the file does.
\<close>

theorem gguf_tensors_in_file:
  assumes "model_open data = Some m" "length data < 2 ^ 63"
  shows "(\<forall>t \<in> set (m_tensors m).
       1 \<le> length (t_dim t) \<and> length (t_dim t) \<le> 8 \<and> unat (t_elements t) = prod_list (map unat (t_dim t)) \<and>
       (\<exists>be bb. tensor_type (t_type t) = Some (be, bb) \<and>
          unat (t_bytes t) = (unat (t_elements t) + unat be - 1) mod 2 ^ 64 div unat be * unat bb) \<and>
       unat (t_abs_offset t) = unat (m_tensor_data_pos m) + unat (t_rel_offset t) \<and>
       (t_bytes t \<noteq> 0 \<longrightarrow> unat (t_abs_offset t) + unat (t_bytes t) \<le> length data)) \<and>
     0 < unat (m_alignment m) \<and> unat (m_tensor_data_pos m) mod unat (m_alignment m) = 0"
proof -
  note s = model_open_sound [OF assms]
  have "0 < unat (m_alignment m)" using s(3) by (simp add: unat_gt_0)
  moreover have "\<exists>be bb. tensor_type (t_type t) = Some (be, bb) \<and>
      unat (t_bytes t) = (unat (t_elements t) + unat be - 1) mod 2 ^ 64 div unat be * unat bb"
    if "t \<in> set (m_tensors m)" for t
  proof -
    have "tensor_nbytes (t_type t) (t_elements t) = Some (t_bytes t)"
      using s(2) that by (simp add: tensor_shaped_def)
    then show ?thesis by (rule tensor_nbytes_blocks)
  qed
  ultimately show ?thesis using s(1,2,4) by (auto simp: tensor_shaped_def tensor_placed_def)
qed

definition ex_model :: bytes where
  "ex_model = le_put32 Q36_GGUF_MAGIC @ le_put32 3 @ le_put64 1 @ le_put64 1 @
     le_put64 17 @ str ''general.alignment'' @ le_put32 4 @ le_put32 64 @
     le_put64 1 @ [119] @ le_put32 1 @ le_put64 3 @ le_put32 0 @ le_put64 0 @ replicate 50 0"

lemma ex_model_opens:
  "map_option (\<lambda>m. (map (\<lambda>t. (t_dim t, t_abs_offset t, t_bytes t)) (m_tensors m), m_alignment m)) (model_open ex_model) =
     Some ([([3], 128, 12)], 64)" "length ex_model = 140"
  by code_simp+

lemma gguf_tensors_in_file_witness:
  "\<exists>m t. model_open ex_model = Some m \<and> m_tensors m = [t] \<and> unat (t_elements t) = 3 \<and>
     unat (t_abs_offset t) + unat (t_bytes t) \<le> 140 \<and> unat (m_tensor_data_pos m) mod 64 = 0"
proof -
  obtain m where m: "model_open ex_model = Some m" "map (\<lambda>t. (t_dim t, t_abs_offset t, t_bytes t)) (m_tensors m) = [([3], 128, 12)]"
    "m_alignment m = 64"
    using ex_model_opens(1) by auto
  then obtain t where t: "m_tensors m = [t]" "t_dim t = [3]" "t_bytes t = 12" by auto
  from gguf_tensors_in_file [OF m(1)] show ?thesis
    using m(1,3) t ex_model_opens(2) by auto
qed

end
