(* ===== verification/Prompt_Prefix.thy ===== *)
theory Prompt_Prefix
  imports Prelude
begin

text \<open>
  The parser of a prompt prefix file (\<^verbatim>\<open>q36_prompt_prefix.c\<close>): alternating turns introduced by
  \<^verbatim>\<open>USER:\<close> and \<^verbatim>\<open>ASSISTANT:\<close> at the start of a line.  The position in the file is the suffix that
  remains.  Allocation failures and the reading of the file are left out.
\<close>

datatype q36_prompt_prefix_role = Q36_PROMPT_PREFIX_USER | Q36_PROMPT_PREFIX_ASSISTANT

type_synonym q36_prompt_prefix_turn = "q36_prompt_prefix_role \<times> bytes"

datatype prefix_error =
    Prefix_Empty
  | Prefix_Nul
  | Prefix_No_Marker nat
  | Prefix_Expected nat q36_prompt_prefix_role
  | Prefix_Empty_Turn nat q36_prompt_prefix_role
  | Prefix_No_Turns
  | Prefix_Last_Turn

fun prefix_marker :: "q36_prompt_prefix_role \<Rightarrow> bytes" where
  "prefix_marker Q36_PROMPT_PREFIX_USER = str ''USER:''"
| "prefix_marker Q36_PROMPT_PREFIX_ASSISTANT = str ''ASSISTANT:''"

definition prefix_marker_at :: "bytes \<Rightarrow> (q36_prompt_prefix_role \<times> nat) option" where
  "prefix_marker_at s =
     (if starts_with (prefix_marker Q36_PROMPT_PREFIX_USER) s then Some (Q36_PROMPT_PREFIX_USER, 5)
      else if starts_with (prefix_marker Q36_PROMPT_PREFIX_ASSISTANT) s then Some (Q36_PROMPT_PREFIX_ASSISTANT, 10)
      else None)"

text \<open>The turn's text up to the next marker at the start of a line, what follows, and its line.\<close>

fun prefix_scan :: "bytes \<Rightarrow> nat \<Rightarrow> bytes \<times> bytes \<times> nat" where
  "prefix_scan [] line = ([], [], line)"
| "prefix_scan (c # s) line =
     (if c = 10 \<and> s \<noteq> [] \<and> prefix_marker_at s \<noteq> None then ([c], s, line + 1)
      else let (a, r, line) = prefix_scan s (if c = 10 then line + 1 else line) in (c # a, r, line))"

text \<open>The end of the content: one line break, of one or two characters, is dropped.\<close>

definition prefix_trim :: "bytes \<Rightarrow> bytes" where
  "prefix_trim c =
     (if c \<noteq> [] \<and> last c = 10
      then if butlast c \<noteq> [] \<and> last (butlast c) = 13 then butlast (butlast c) else butlast c
      else c)"

definition prefix_skip_blank :: "bytes \<Rightarrow> bytes" where
  "prefix_skip_blank s = (if s \<noteq> [] \<and> (hd s = 32 \<or> hd s = 9) then tl s else s)"

lemma prefix_skip_blank_props:
  "length (prefix_skip_blank s) \<le> length s" "set (prefix_skip_blank s) \<subseteq> set s"
  by (cases s; auto simp: prefix_skip_blank_def)+

lemma prefix_scan_append: "prefix_scan s line = (a, r, line') \<Longrightarrow> a @ r = s"
  by (induction s line arbitrary: a r line' rule: prefix_scan.induct) (auto split: if_splits prod.splits)

lemma prefix_marker_at_length: "prefix_marker_at s = Some (role, n) \<Longrightarrow> n \<le> length s \<and> 0 < n"
  by (auto simp: prefix_marker_at_def starts_with_def split: if_splits)

lemma prefix_scan_shorter:
  assumes "prefix_marker_at s = Some (role, n)" "(raw, rest, l) = prefix_scan (prefix_skip_blank (drop n s)) line"
  shows "length rest < length s"
proof -
  have "length rest \<le> length (prefix_skip_blank (drop n s))"
    using prefix_scan_append [OF assms(2) [symmetric]] by (metis length_append le_add2)
  also have "\<dots> \<le> length (drop n s)" by (rule prefix_skip_blank_props)
  also have "\<dots> < length s" using prefix_marker_at_length [OF assms(1)] by auto
  finally show ?thesis .
qed

function prefix_loop ::
  "q36_prompt_prefix_turn list \<Rightarrow> bytes \<Rightarrow> nat \<Rightarrow> prefix_error + q36_prompt_prefix_turn list" where
  "prefix_loop turns s line =
     (if s = [] then Inr turns
      else case prefix_marker_at s of
          None \<Rightarrow> Inl (Prefix_No_Marker line)
        | Some (role, n) \<Rightarrow>
            let expected = (if length turns mod 2 = 0 then Q36_PROMPT_PREFIX_USER else Q36_PROMPT_PREFIX_ASSISTANT)
            in if role \<noteq> expected then Inl (Prefix_Expected line expected)
               else case prefix_scan (prefix_skip_blank (drop n s)) line of
                   (raw, rest, next_line) \<Rightarrow>
                     if prefix_trim raw = [] then Inl (Prefix_Empty_Turn line role)
                     else prefix_loop (turns @ [(role, prefix_trim raw)]) rest next_line)"
  by pat_completeness auto
termination
  by (relation "measure (\<lambda>(turns, s, line). length s)") (auto intro: prefix_scan_shorter)

declare prefix_loop.simps [simp del]

definition q36_prompt_prefix_parse :: "bytes \<Rightarrow> prefix_error + q36_prompt_prefix_turn list" where
  "q36_prompt_prefix_parse data =
     (if data = [] then Inl Prefix_Empty
      else if 0 \<in> set data then Inl Prefix_Nul
      else case prefix_loop [] (if starts_with [0xef, 0xbb, 0xbf] data then drop 3 data else data) 1 of
          Inl e \<Rightarrow> Inl e
        | Inr turns \<Rightarrow>
            if turns = [] then Inl Prefix_No_Turns
            else if fst (last turns) \<noteq> Q36_PROMPT_PREFIX_ASSISTANT then Inl Prefix_Last_Turn
            else Inr turns)"

section \<open>The shape of what is accepted\<close>

definition turn_role :: "nat \<Rightarrow> q36_prompt_prefix_role" where
  "turn_role i = (if i mod 2 = 0 then Q36_PROMPT_PREFIX_USER else Q36_PROMPT_PREFIX_ASSISTANT)"

definition turns_ok :: "q36_prompt_prefix_turn list \<Rightarrow> bool" where
  "turns_ok ts \<longleftrightarrow> (\<forall>i < length ts. fst (ts ! i) = turn_role i \<and> snd (ts ! i) \<noteq> [] \<and> 0 \<notin> set (snd (ts ! i)))"

lemma prefix_trim_set: "set (prefix_trim c) \<subseteq> set c"
  by (auto simp: prefix_trim_def dest: in_set_butlastD)

lemma prefix_loop_ok:
  "turns_ok turns \<Longrightarrow> 0 \<notin> set s \<Longrightarrow> prefix_loop turns s line = Inr ts \<Longrightarrow> turns_ok ts"
proof (induction turns s line rule: prefix_loop.induct)
  case (1 turns s line)
  show ?case
  proof (cases "s = []")
    case True
    then show ?thesis using 1 by (simp add: prefix_loop.simps)
  next
    case False
    obtain role n where m: "prefix_marker_at s = Some (role, n)"
      using "1.prems"(3) [unfolded prefix_loop.simps [of turns s]] False by (auto split: option.splits)
    obtain raw rest l' where sc: "prefix_scan (prefix_skip_blank (drop n s)) line = (raw, rest, l')"
      by (metis prod_cases3)
    have role: "role = turn_role (length turns)" and ne: "prefix_trim raw \<noteq> []"
      and go: "prefix_loop (turns @ [(role, prefix_trim raw)]) rest l' = Inr ts"
      using "1.prems"(3) [unfolded prefix_loop.simps [of turns s]] False m sc
      by (auto simp: Let_def turn_role_def split: if_splits)
    have sub: "set raw \<union> set rest \<subseteq> set s"
    proof -
      have "set raw \<union> set rest = set (prefix_skip_blank (drop n s))"
        using prefix_scan_append [OF sc] by (metis set_append)
      also have "\<dots> \<subseteq> set s"
        using prefix_skip_blank_props(2) [of "drop n s"] set_drop_subset [of n s] by (rule subset_trans)
      finally show ?thesis .
    qed
    have "turns_ok (turns @ [(role, prefix_trim raw)])"
      using "1.prems"(1,2) role ne sub prefix_trim_set [of raw]
      by (auto simp: turns_ok_def nth_append less_Suc_eq)
    moreover have "0 \<notin> set rest" using "1.prems"(2) sub by auto
    moreover have "role = (if length turns mod 2 = 0 then Q36_PROMPT_PREFIX_USER else Q36_PROMPT_PREFIX_ASSISTANT)"
      using role by (simp add: turn_role_def)
    ultimately show ?thesis
      using "1.IH" [OF False m refl refl _ sc [symmetric] refl ne] go by simp
  qed
qed

lemma prefix_parse_ok:
  assumes "q36_prompt_prefix_parse data = Inr ts"
  shows "turns_ok ts \<and> ts \<noteq> [] \<and> length ts mod 2 = 0"
proof -
  let ?s = "if starts_with [0xef, 0xbb, 0xbf] data then drop 3 data else data"
  have "prefix_loop [] ?s 1 = Inr ts" "ts \<noteq> []" "fst (last ts) = Q36_PROMPT_PREFIX_ASSISTANT"
    "0 \<notin> set data"
    using assms by (auto simp: q36_prompt_prefix_parse_def split: if_splits sum.splits)
  moreover have "0 \<notin> set ?s" using \<open>0 \<notin> set data\<close> by (auto dest: in_set_dropD)
  ultimately have ok: "turns_ok ts" using prefix_loop_ok [of "[]" ?s 1 ts] by (simp add: turns_ok_def)
  have "turn_role (length ts - 1) = Q36_PROMPT_PREFIX_ASSISTANT"
    using ok \<open>ts \<noteq> []\<close> \<open>fst (last ts) = Q36_PROMPT_PREFIX_ASSISTANT\<close> by (simp add: turns_ok_def last_conv_nth)
  then have "(length ts - 1) mod 2 \<noteq> 0" by (auto simp: turn_role_def split: if_splits)
  then show ?thesis using ok \<open>ts \<noteq> []\<close> by (cases "length ts") presburger+
qed

section \<open>Files written for it\<close>

text \<open>
  A file with one marker line per turn is read back as its turns, whatever the contents hold,
  as long as no line inside one starts with a marker and none ends with a carriage return.
\<close>

definition prefix_render :: "q36_prompt_prefix_turn list \<Rightarrow> bytes" where
  "prefix_render ts = concat (map (\<lambda>(r, c). prefix_marker r @ 32 # c @ [10]) ts)"

definition prefix_clean :: "bytes \<Rightarrow> bool" where
  "prefix_clean c \<longleftrightarrow> c \<noteq> [] \<and> last c \<noteq> 13 \<and> 0 \<notin> set c \<and>
     (\<forall>i < length c. c ! i = 10 \<longrightarrow> prefix_marker_at (drop (Suc i) c) = None)"

lemma marker_no_newline: "10 \<notin> set (prefix_marker r)"
  by (cases r) (simp_all add: lit_simps)

lemma starts_with_before_newline:
  "10 \<notin> set m \<Longrightarrow> starts_with m (x @ 10 # y) \<longleftrightarrow> starts_with m x"
proof (induction x arbitrary: m)
  case Nil
  then show ?case by (cases m) auto
next
  case (Cons a x)
  then show ?case by (cases m) auto
qed

lemma prefix_marker_at_newline: "prefix_marker_at (x @ 10 # y) = prefix_marker_at x"
  by (simp only: prefix_marker_at_def starts_with_before_newline [OF marker_no_newline])

lemma prefix_marker_at_marker:
  "prefix_marker_at (prefix_marker r @ x) = Some (r, length (prefix_marker r))"
  by (cases r) (simp_all add: prefix_marker_at_def lit_simps)

lemma prefix_scan_clean:
  "\<forall>i < length c. c ! i = 10 \<longrightarrow> prefix_marker_at (drop (Suc i) c) = None \<Longrightarrow> R = [] \<or> prefix_marker_at R \<noteq> None
   \<Longrightarrow> \<exists>l'. prefix_scan (c @ 10 # R) l = (c @ [10], R, l')"
proof (induction c arbitrary: l)
  case Nil
  then show ?case by auto
next
  case (Cons a c)
  have "\<forall>i < length c. c ! i = 10 \<longrightarrow> prefix_marker_at (drop (Suc i) c) = None"
    using Cons.prems(1) by fastforce
  then obtain l' where l': "prefix_scan (c @ 10 # R) (if a = 10 then l + 1 else l) = (c @ [10], R, l')"
    using Cons.IH Cons.prems(2) by blast
  have "\<not> (a = 10 \<and> prefix_marker_at (c @ 10 # R) \<noteq> None)"
    using Cons.prems(1) by (auto simp: prefix_marker_at_newline)
  with l' show ?case by auto
qed

lemma prefix_trim_clean: "prefix_clean c \<Longrightarrow> prefix_trim (c @ [10]) = c"
  by (auto simp: prefix_clean_def prefix_trim_def)

lemma prefix_loop_render:
  "turns_ok (turns @ ts) \<Longrightarrow> \<forall>t \<in> set ts. prefix_clean (snd t) \<Longrightarrow>
     prefix_loop turns (prefix_render ts) line = Inr (turns @ ts)"
proof (induction ts arbitrary: turns line)
  case Nil
  then show ?case by (simp add: prefix_render_def prefix_loop.simps)
next
  case (Cons t ts)
  obtain r c where t: "t = (r, c)" by (cases t)
  have c: "prefix_clean c"
    using Cons.prems by (auto simp: t)
  have "fst ((turns @ t # ts) ! length turns) = turn_role (length turns)"
    using Cons.prems(1) unfolding turns_ok_def by (metis length_append length_Cons less_add_Suc1 add_Suc_right)
  then have role: "r = turn_role (length turns)" by (simp add: t)
  define R where "R = prefix_render ts"
  have s: "prefix_render (t # ts) = prefix_marker r @ 32 # c @ 10 # R"
    by (simp add: prefix_render_def R_def t)
  have "R = [] \<or> prefix_marker_at R \<noteq> None"
    by (cases ts) (auto simp: R_def prefix_render_def prefix_marker_at_marker)
  then obtain l' where sc: "prefix_scan (c @ 10 # R) line = (c @ [10], R, l')"
    using prefix_scan_clean c unfolding prefix_clean_def by blast
  have "prefix_loop (turns @ [t]) R l' = Inr (turns @ t # ts)"
    unfolding R_def using Cons.IH [of "turns @ [t]" l'] Cons.prems by simp
  moreover have "prefix_clean c \<Longrightarrow> c \<noteq> []" by (simp add: prefix_clean_def)
  ultimately show ?case
    unfolding s using c role sc
    by (subst prefix_loop.simps)
      (auto simp: prefix_marker_at_marker Let_def turn_role_def prefix_skip_blank_def prefix_trim_clean t)
qed

lemma prefix_render_zero: "0 \<notin> set (prefix_render ts)" if "\<forall>t \<in> set ts. prefix_clean (snd t)"
proof -
  have "0 \<notin> set (prefix_marker r)" for r by (cases r) (simp_all add: lit_simps)
  then show ?thesis using that by (auto simp: prefix_render_def prefix_clean_def)
qed

lemma prefix_round_trip:
  assumes "turns_ok ts" "ts \<noteq> []" "length ts mod 2 = 0" "\<forall>t \<in> set ts. prefix_clean (snd t)"
  shows "q36_prompt_prefix_parse (prefix_render ts) = Inr ts"
proof -
  obtain r c ts' where ts: "ts = (r, c) # ts'" using assms(2) by (cases ts) auto
  have "r = Q36_PROMPT_PREFIX_USER" using assms(1) by (auto simp: ts turns_ok_def turn_role_def)
  then obtain x where x: "prefix_render ts = 85 # x"
    by (simp add: prefix_render_def ts lit_simps)
  have "fst (last ts) = Q36_PROMPT_PREFIX_ASSISTANT"
  proof -
    have "0 < length ts" using assms(2) by simp
    then have "(length ts - 1) mod 2 \<noteq> 0" using assms(3) by presburger
    then show ?thesis using assms(1,2) by (simp add: last_conv_nth turns_ok_def turn_role_def)
  qed
  then show ?thesis
    using prefix_loop_render [of "[]" ts 1] prefix_render_zero [OF assms(4)] assms x
    by (simp add: q36_prompt_prefix_parse_def)
qed

section \<open>Properties\<close>

text \<open>
  A prefix file that is accepted holds alternating turns, the first of the user and the last of
  the assistant, none of them empty and none with a NUL byte.
\<close>

theorem prefix_parse_shape:
  assumes "q36_prompt_prefix_parse data = Inr ts"
  shows "turns_ok ts \<and> ts \<noteq> [] \<and> length ts mod 2 = 0"
  using prefix_parse_ok [OF assms] .

text \<open>
  Turns written with their markers are read back unchanged, whatever their contents, unless a
  line inside one starts with a marker or one ends in a carriage return.
\<close>

theorem prefix_parse_round_trip:
  assumes "turns_ok ts" "ts \<noteq> []" "length ts mod 2 = 0" "\<forall>t \<in> set ts. prefix_clean (snd t)"
  shows "q36_prompt_prefix_parse (prefix_render ts) = Inr ts"
  using prefix_round_trip [OF assms] .

definition ex_turns :: "q36_prompt_prefix_turn list" where
  "ex_turns = [(Q36_PROMPT_PREFIX_USER, [104, 10, 105]), (Q36_PROMPT_PREFIX_ASSISTANT, [32, 111, 107])]"

lemma ex_turns_ok: "turns_ok ex_turns" "\<forall>t \<in> set ex_turns. prefix_clean (snd t)"
  by (auto simp: ex_turns_def turns_ok_def less_Suc_eq turn_role_def prefix_clean_def prefix_marker_at_def lit_simps)

theorem prefix_parse_round_trip_witness:
  "q36_prompt_prefix_parse (prefix_render ex_turns) = Inr ex_turns"
  by (rule prefix_parse_round_trip) (use ex_turns_ok in \<open>auto simp: ex_turns_def\<close>)

theorem prefix_parse_shape_witness:
  "q36_prompt_prefix_parse (str ''USER: a'' @ [10] @ str ''ASSISTANT: b'') =
     Inr [(Q36_PROMPT_PREFIX_USER, [97]), (Q36_PROMPT_PREFIX_ASSISTANT, [98])] \<and>
   turns_ok [(Q36_PROMPT_PREFIX_USER, [97]), (Q36_PROMPT_PREFIX_ASSISTANT, [98])]"
proof -
  have "q36_prompt_prefix_parse (str ''USER: a'' @ [10] @ str ''ASSISTANT: b'') =
     Inr [(Q36_PROMPT_PREFIX_USER, [97]), (Q36_PROMPT_PREFIX_ASSISTANT, [98])]"
    by (simp add: q36_prompt_prefix_parse_def prefix_loop.simps prefix_marker_at_def prefix_skip_blank_def
        prefix_trim_def lit_simps)
  then show ?thesis using prefix_parse_shape by blast
qed

end
