(* ===== verification/Chat.thy ===== *)
theory Chat
  imports Bpe Gguf Prompt_Prefix "HOL-Library.Monad_Syntax"
begin

text \<open>
  The vocabulary as it is loaded (\<^verbatim>\<open>vocab_load\<close>), the tokenizer of rendered chat text, which turns the
  special tokens written in it into their ids, and the chat template of \<^verbatim>\<open>q36.c\<close>
  (\<^verbatim>\<open>q36_chat_content_text\<close> to \<^verbatim>\<open>q36_encode_chat_prompt\<close>).

  Each operation gives the tokens it pushes; \<open>None\<close> is a
  process that exits with an error or a loop that does not end.
\<close>

section \<open>Loading the vocabulary\<close>

text \<open>\<^verbatim>\<open>(int)i\<close>\<close>

definition c_int :: "nat \<Rightarrow> int" where
  "c_int i = sint (word_of_nat i :: u32)"

definition indexed :: "bytes list \<Rightarrow> (bytes \<times> int) list" where
  "indexed xs = zip xs (map c_int [0..<length xs])"

definition vocab_lookup :: "str_i32_table \<Rightarrow> string \<Rightarrow> int option" where
  "vocab_lookup t s = table_find t (str s)"

definition special_type :: "u32 \<Rightarrow> bool" where
  "special_type ty \<longleftrightarrow> ty = 3 \<or> ty = 4"

definition vocab_fill ::
  "bytes list \<Rightarrow> u32 list \<Rightarrow> bytes list \<Rightarrow> u32 \<Rightarrow> u32 \<Rightarrow> bool option \<Rightarrow> q36_vocab option" where
  "vocab_fill tokens types merges bos eos add_bos_token =
     (if length tokens > 2147483647 \<or> length types \<noteq> length tokens then None
      else do {
        t2i \<leftarrow> table_put_all (table_init (length tokens)) (indexed tokens);
        ranks \<leftarrow> table_put_all (table_init (length merges)) (indexed merges);
        im_start \<leftarrow> vocab_lookup t2i ''<|im_start|>'';
        im_end \<leftarrow> vocab_lookup t2i ''<|im_end|>'';
        think_start \<leftarrow> vocab_lookup t2i ''<think>'';
        think_end \<leftarrow> vocab_lookup t2i ''</think>'';
        vision_start \<leftarrow> vocab_lookup t2i ''<|vision_start|>'';
        vision_end \<leftarrow> vocab_lookup t2i ''<|vision_end|>'';
        image_pad \<leftarrow> vocab_lookup t2i ''<|image_pad|>'';
        video_pad \<leftarrow> vocab_lookup t2i ''<|video_pad|>'';
        Some \<lparr> token = tokens,
          special = map fst (filter (\<lambda>(_, ty). special_type ty) (zip (indexed tokens) types)),
          bos_id = sint bos, eos_id = sint eos,
          im_start_id = im_start, im_end_id = im_end, think_start_id = think_start, think_end_id = think_end,
          vision_start_id = vision_start, vision_end_id = vision_end, image_pad_id = image_pad, video_pad_id = video_pad,
          add_bos = (case add_bos_token of Some b \<Rightarrow> b | None \<Rightarrow> False),
          token_to_id = t2i, merge_rank = ranks \<rparr>
      })"

text \<open>
  \<open>vocab_fill\<close> is \<^verbatim>\<open>vocab_load\<close> on the arrays, \<open>vocab_load\<close> reads these from the model: every string and
  every type is read in turn, and a read that fails ends the process.
\<close>

fun read_strings :: "nat \<Rightarrow> q36_cursor \<Rightarrow> bytes list option" where
  "read_strings 0 c = Some []"
| "read_strings (Suc n) c = do { (s, c) \<leftarrow> cursor_string c; ss \<leftarrow> read_strings n c; Some (s # ss) }"

fun read_u32s :: "nat \<Rightarrow> q36_cursor \<Rightarrow> u32 list option" where
  "read_u32s 0 c = Some []"
| "read_u32s (Suc n) c = do { (v, c) \<leftarrow> cursor_u32 c; vs \<leftarrow> read_u32s n c; Some (v # vs) }"

definition vocab_load :: "q36_model \<Rightarrow> q36_vocab option" where
  "vocab_load m = do {
     tokens \<leftarrow> model_get_array m (str ''tokenizer.ggml.tokens'');
     token_types \<leftarrow> model_get_array m (str ''tokenizer.ggml.token_type'');
     merges \<leftarrow> model_get_array m (str ''tokenizer.ggml.merges'');
     if ar_type tokens \<noteq> GGUF_VALUE_STRING \<or> ar_len tokens > 2147483647 \<or>
        ar_type token_types \<noteq> GGUF_VALUE_INT32 \<or> ar_len token_types \<noteq> ar_len tokens \<or>
        ar_type merges \<noteq> GGUF_VALUE_STRING
     then None
     else do {
       toks \<leftarrow> read_strings (unat (ar_len tokens)) (cursor_at m (ar_data_pos tokens));
       tys \<leftarrow> read_u32s (unat (ar_len token_types)) (cursor_at m (ar_data_pos token_types));
       mgs \<leftarrow> read_strings (unat (ar_len merges)) (cursor_at m (ar_data_pos merges));
       bos \<leftarrow> required_u32 m (str ''tokenizer.ggml.bos_token_id'');
       eos \<leftarrow> required_u32 m (str ''tokenizer.ggml.eos_token_id'');
       vocab_fill toks tys mgs bos eos (model_get_bool m (str ''tokenizer.ggml.add_bos_token''))
     }
   }"

text \<open>A loaded vocabulary is a filled one, with as many merges as strings fit in the file.\<close>

lemma read_strings_length: "read_strings n c = Some ss \<Longrightarrow> cu_pos c \<le> cu_size c \<Longrightarrow> length ss = n \<and> 8 * n \<le> cu_size c"
proof -
  have "read_strings n c = Some ss \<Longrightarrow> cu_pos c \<le> cu_size c \<Longrightarrow> length ss = n \<and> cu_pos c + 8 * n \<le> cu_size c"
  proof (induction n arbitrary: c ss)
    case (Suc n)
    obtain s c1 us where a: "cursor_string c = Some (s, c1)" "read_strings n c1 = Some us" "ss = s # us"
      using Suc.prems(1) by (auto simp: bind_eq_Some_conv)
    have m: "cursor_moves c c1" by (rule cursor_string_moves [OF a(1)])
    have "cu_pos c + 8 \<le> cu_pos c1"
      using a(1) cursor_u64_moves [of c] unfolding cursor_string_def by (auto simp: bind_eq_Some_conv split: if_splits)
    moreover have "cu_pos c1 \<le> cu_size c1" using m by (auto simp: cursor_moves_def)
    ultimately show ?case using Suc.IH [OF a(2)] a(3) m by (auto simp: cursor_moves_def)
  qed simp
  then show "read_strings n c = Some ss \<Longrightarrow> cu_pos c \<le> cu_size c \<Longrightarrow> ?thesis" by fastforce
qed

lemma model_get_array_pos:
  assumes "model_get_array m key = Some a"
  shows "cu_pos (cursor_at m (ar_data_pos a)) \<le> cu_size (cursor_at m (ar_data_pos a))"
proof -
  obtain c ty c1 len c2 where a: "model_value m key GGUF_VALUE_ARRAY = Some c" "cursor_u32 c = Some (ty, c1)"
    "cursor_u64 c1 = Some (len, c2)" "ar_data_pos a = cu_pos c2"
    using assms by (auto simp: model_get_array_def bind_eq_Some_conv)
  have "cu_base c = m_map m" using a(1) by (auto simp: model_value_def cursor_at_def split: option.splits if_splits)
  then show ?thesis
    using cursor_u32_moves [OF a(2)] cursor_u64_moves [OF a(3)] a(4) by (auto simp: cursor_moves_def cursor_at_def)
qed

lemma vocab_load_filled:
  assumes "vocab_load m = Some v" "length (m_map m) < 2 ^ 63"
  shows "\<exists>tokens types merges bos eos ab. vocab_fill tokens types merges bos eos ab = Some v \<and> length merges \<le> 2 ^ 60"
proof -
  obtain mg mgs toks tys bos eos ab where a: "model_get_array m (str ''tokenizer.ggml.merges'') = Some mg"
    "read_strings (unat (ar_len mg)) (cursor_at m (ar_data_pos mg)) = Some mgs"
    "vocab_fill toks tys mgs bos eos ab = Some v"
    using assms(1) unfolding vocab_load_def by (auto simp: bind_eq_Some_conv split: if_splits)
  have "8 * length mgs \<le> length (m_map m)"
    using read_strings_length [OF a(2) model_get_array_pos [OF a(1)]] by (simp add: cursor_at_def)
  then show ?thesis using a(3) assms(2) by force
qed

lemma c_int_small: "i \<le> 2147483647 \<Longrightarrow> c_int i = int i"
  by (simp add: c_int_def signed_of_nat signed_take_bit_int_eq_self)

text \<open>What the arrays have to provide, so that the loaded vocabulary is closed.\<close>

definition model_vocab :: "bytes list \<Rightarrow> u32 list \<Rightarrow> bytes list \<Rightarrow> bool" where
  "model_vocab tokens types merges \<longleftrightarrow>
     length merges \<le> 2 ^ 60 \<and>
     (\<forall>a b. a @ [32] @ b \<in> set merges \<longrightarrow> a @ b \<in> set tokens) \<and>
     (\<forall>s \<in> set tokens. vocab_token_is_literal_special s \<longrightarrow> printable s) \<and>
     (\<forall>(s, ty) \<in> set (zip tokens types). special_type ty \<longrightarrow> s \<noteq> [] \<and> printable s)"

lemma map_of_indexed:
  assumes "map_of (rev (indexed xs)) k = Some r" "length xs \<le> 2147483647"
  shows "0 \<le> r \<and> r < int (length xs) \<and> xs ! nat r = k"
proof -
  have "(k, r) \<in> set (indexed xs)" using map_of_SomeD [OF assms(1)] by simp
  then show ?thesis using assms(2) by (auto simp: indexed_def set_zip c_int_small)
qed

lemma map_of_indexed_None: "map_of (rev (indexed xs)) k = None \<longleftrightarrow> k \<notin> set xs"
  by (auto simp: map_of_eq_None_iff indexed_def map_fst_zip image_image simp flip: set_map)

lemma vocab_fill_tables:
  assumes "vocab_fill tokens types merges bos eos ab = Some v" "length merges \<le> 2 ^ 60"
  shows "token v = tokens" "length tokens \<le> 2147483647" "length types = length tokens"
    "special v = map fst (filter (\<lambda>(_, ty). special_type ty) (zip (indexed tokens) types))"
    "table_find (token_to_id v) k = map_of (rev (indexed tokens)) k"
    "table_find (merge_rank v) k = map_of (rev (indexed merges)) k"
proof -
  from assms(1) show *: "token v = tokens" "length tokens \<le> 2147483647" "length types = length tokens"
    "special v = map fst (filter (\<lambda>(_, ty). special_type ty) (zip (indexed tokens) types))"
    by (auto simp: vocab_fill_def bind_eq_Some_conv split: if_splits)
  have t: "table_put_all (table_init (length tokens)) (indexed tokens) = Some (token_to_id v)"
    "table_put_all (table_init (length merges)) (indexed merges) = Some (merge_rank v)"
    using assms(1) by (auto simp: vocab_fill_def bind_eq_Some_conv split: if_splits)
  show "table_find (token_to_id v) k = map_of (rev (indexed tokens)) k"
    using table_put_all_init [of "indexed tokens" "length tokens"] t(1) *(2)
    by (auto simp: table_find_def indexed_def)
  show "table_find (merge_rank v) k = map_of (rev (indexed merges)) k"
    using table_put_all_init [of "indexed merges" "length merges"] t(2) assms(2)
    by (auto simp: table_find_def indexed_def)
qed

lemma vocab_fill_closed:
  assumes "vocab_fill tokens types merges bos eos ab = Some v" "model_vocab tokens types merges"
  shows "vocab_closed v"
proof -
  have m: "length merges \<le> 2 ^ 60" using assms(2) by (simp add: model_vocab_def)
  note tab = vocab_fill_tables [OF assms(1) m]
  have "a @ b \<in> set tokens" if "0 \<le> bpe_rank v a b" for a b
  proof -
    have "map_of (rev (indexed merges)) (a @ [32] @ b) \<noteq> None"
      using that by (auto simp: bpe_rank_def tab(6) split: option.splits)
    then have "a @ [32] @ b \<in> set merges" using map_of_indexed_None by metis
    then show ?thesis using assms(2) by (auto simp: model_vocab_def)
  qed
  then show ?thesis
    using map_of_indexed [OF _ tab(2)] assms(2)
    by (auto simp: vocab_closed_def tab(1,5) model_vocab_def map_of_indexed_None simp flip: not_None_eq)
qed

lemma vocab_fill_covers:
  assumes "vocab_fill tokens types merges bos eos ab = Some v" "length merges \<le> 2 ^ 60"
  shows "vocab_covers v s \<longleftrightarrow> (\<forall>b \<in> set s. byte_encode [b] \<in> set tokens)"
  by (simp add: vocab_covers_def vocab_fill_tables(5) [OF assms] map_of_indexed_None)

section \<open>Rendered chat text\<close>

definition special_token_at :: "q36_vocab \<Rightarrow> bytes \<Rightarrow> (int \<times> nat) option" where
  "special_token_at v p =
     map_option (\<lambda>(s, i). (i, length s)) (find (\<lambda>(s, i). starts_with s p) (special v))"

definition tokenize_span :: "q36_vocab \<Rightarrow> bytes \<Rightarrow> int list" where
  "tokenize_span v s = (if s = [] then [] else bpe_tokenize_text v s)"

text \<open>The loop of \<^verbatim>\<open>tokenize_rendered_chat_vocab\<close>; an empty special token would keep it where it is.\<close>

partial_function (option) tokenize_rendered_from :: "q36_vocab \<Rightarrow> bytes \<Rightarrow> nat \<Rightarrow> nat \<Rightarrow> int list option" where
  "tokenize_rendered_from v s span p =
     (if p < length s then
        case special_token_at v (drop p s) of
          Some (tok, len) \<Rightarrow>
            do {
              rest \<leftarrow> tokenize_rendered_from v s (p + len) (p + len);
              Some (tokenize_span v (sub_string s span p) @ q36_tokens_push [] tok @ rest)
            }
        | None \<Rightarrow> tokenize_rendered_from v s span (p + 1)
      else Some (tokenize_span v (sub_string s span (length s))))"

definition q36_tokenize_rendered_chat :: "q36_vocab \<Rightarrow> bytes \<Rightarrow> int list option" where
  "q36_tokenize_rendered_chat v s = tokenize_rendered_from v s 0 0"

lemma byte_encode_printable: "printable s \<Longrightarrow> byte_encode s = s"
proof (induction s)
  case (Cons b s)
  then have "enc1 b = [b]" by (cases rule: enc1_cases [of b]) (auto simp: printable_def)
  with Cons show ?case by (simp add: byte_encode_enc1 printable_def)
qed (simp add: byte_encode_def)

text \<open>A special token stands for its own text and is not empty.\<close>

definition specials_ok :: "q36_vocab \<Rightarrow> bool" where
  "specials_ok v \<longleftrightarrow> (\<forall>(s, i) \<in> set (special v). s \<noteq> [] \<and> q36_token_text v i = s)"

lemma vocab_fill_specials:
  assumes "vocab_fill tokens types merges bos eos ab = Some v" "model_vocab tokens types merges"
  shows "specials_ok v"
proof -
  have m: "length merges \<le> 2 ^ 60" using assms(2) by (simp add: model_vocab_def)
  note tab = vocab_fill_tables [OF assms(1) m]
  have "s \<noteq> [] \<and> q36_token_text v i = s" if si: "(s, i) \<in> set (special v)" for s i
  proof -
    obtain ty where ty: "((s, i), ty) \<in> set (zip (indexed tokens) types)" "special_type ty"
      using si by (auto simp: tab(4))
    then obtain j where j: "j < length tokens" "s = tokens ! j" "i = int j" "ty = types ! j"
      using tab(2,3) by (auto simp: set_zip indexed_def c_int_small)
    then have "(s, ty) \<in> set (zip tokens types)" using tab(3) by (auto simp: set_zip)
    then have s: "s \<noteq> []" "printable s" using assms(2) ty(2) by (auto simp: model_vocab_def)
    then have "byte_decode s 0 = s" using byte_decode_encode [of s] byte_encode_printable by simp
    then show ?thesis using s j tab(1) by (simp add: q36_token_text_def Let_def)
  qed
  then show ?thesis by (auto simp: specials_ok_def)
qed

lemma special_token_at_Some:
  assumes "special_token_at v p = Some (tok, len)" "specials_ok v"
  shows "0 < len" "len \<le> length p" "q36_token_text v tok = take len p"
proof -
  obtain s where s: "(s, tok) \<in> set (special v)" "starts_with s p" "len = length s"
    using assms(1) by (fastforce simp: special_token_at_def find_Some_iff in_set_conv_nth)
  then show "0 < len" "len \<le> length p" "q36_token_text v tok = take len p"
    using assms(2) by (auto simp: specials_ok_def starts_with_def)
qed

lemma tokenize_span_text:
  "vocab_closed v \<Longrightarrow> vocab_covers v s \<Longrightarrow> tokens_text v (tokenize_span v s) = s"
  by (simp add: tokenize_span_def tokenize_text_text)

lemma vocab_covers_sub: "vocab_covers v s \<Longrightarrow> vocab_covers v (sub_string s a b)"
  by (auto simp: vocab_covers_def sub_string_def dest!: in_set_takeD in_set_dropD)

lemma sub_string_join: "a \<le> b \<Longrightarrow> b \<le> c \<Longrightarrow> sub_string s a b @ sub_string s b c = sub_string s a c"
  unfolding sub_string_def
  by (metis (no_types, lifting) Nat.add_diff_assoc2 drop_drop le_add_diff_inverse2 le_add_diff_inverse ordered_cancel_comm_monoid_diff_class.add_diff_assoc2 take_add)

lemma tokenize_rendered_text_from:
  assumes "vocab_closed v" "specials_ok v" "vocab_covers v s" "span \<le> p" "p \<le> length s"
  shows "\<exists>ts. tokenize_rendered_from v s span p = Some ts \<and> tokens_text v ts = sub_string s span (length s)"
  using assms(4,5)
proof (induction "length s - p" arbitrary: span p rule: less_induct)
  case less
  have span_text: "tokens_text v (tokenize_span v (sub_string s a b)) = sub_string s a b" for a b
    using tokenize_span_text [OF assms(1) vocab_covers_sub [OF assms(3)]] .
  show ?case
  proof (cases "p < length s")
    case True
    show ?thesis
    proof (cases "special_token_at v (drop p s)")
      case None
      then show ?thesis
        using less.hyps [of "p + 1" span] less.prems True
        by (subst tokenize_rendered_from.simps) simp
    next
      case (Some x)
      then obtain tok len where x: "special_token_at v (drop p s) = Some (tok, len)" by (cases x) auto
      note sp = special_token_at_Some [OF x assms(2)]
      have len: "p + len \<le> length s" "length s - (p + len) < length s - p" using sp(1,2) True by simp_all
      then obtain ts where ts: "tokenize_rendered_from v s (p + len) (p + len) = Some ts"
        "tokens_text v ts = sub_string s (p + len) (length s)"
        using less.hyps [OF len(2) _ len(1)] by blast
      have "q36_token_text v tok = sub_string s p (p + len)" using sp(3) by (simp add: sub_string_def)
      then have "tokens_text v (tokenize_span v (sub_string s span p) @ q36_tokens_push [] tok @ ts)
          = sub_string s span p @ sub_string s p (p + len) @ sub_string s (p + len) (length s)"
        using ts(2) by (simp add: span_text q36_tokens_push_def) (simp add: tokens_text_def)
      also have "\<dots> = sub_string s span (length s)"
        using less.prems len(1) by (simp add: sub_string_join)
      finally show ?thesis using True x ts(1) by (subst tokenize_rendered_from.simps) simp
    qed
  next
    case False
    then show ?thesis
      by (subst tokenize_rendered_from.simps) (simp add: span_text)
  qed
qed

lemma tokenize_rendered_text:
  assumes "vocab_closed v" "specials_ok v" "vocab_covers v s"
  shows "\<exists>ts. q36_tokenize_rendered_chat v s = Some ts \<and> tokens_text v ts = s"
  using tokenize_rendered_text_from [OF assms, of 0 0]
  by (simp add: q36_tokenize_rendered_chat_def sub_string_def)

section \<open>The chat template\<close>

datatype q36_think_mode =
  Q36_THINK_NONE | Q36_THINK_HIGH | Q36_THINK_MAX | Q36_THINK_LOW | Q36_THINK_MEDIUM | Q36_THINK_XHIGH

definition q36_think_mode_enabled :: "q36_think_mode \<Rightarrow> bool" where
  "q36_think_mode_enabled mode \<longleftrightarrow> mode \<noteq> Q36_THINK_NONE"

definition Q36_REASONING_EFFORT_MAX_PREFIX :: bytes where
  "Q36_REASONING_EFFORT_MAX_PREFIX =
     str ''Reasoning Effort: Absolute maximum with no shortcuts permitted.'' @ [10] @
     str ''You MUST be very thorough in your thinking and comprehensively decompose the problem to resolve the root cause, rigorously stress-testing your logic against all potential paths, edge cases, and adversarial scenarios.'' @ [10] @
     str ''Explicitly write out your entire deliberation process, documenting every intermediate step, considered alternative, and rejected hypothesis to ensure absolutely no assumption is left unchecked.'' @ [10, 10]"

definition think_off :: bytes where "think_off = str ''<|think_off|>''"
definition think_on :: bytes where "think_on = str ''<|think_on|>''"

definition q36_chat_apply_thinking_control :: "bytes option \<Rightarrow> bool \<Rightarrow> bool" where
  "q36_chat_apply_thinking_control content thinking =
     (case content of
        None \<Rightarrow> thinking
      | Some s \<Rightarrow> if strstr s think_off \<noteq> None then False else if strstr s think_on \<noteq> None then True else thinking)"

text \<open>The copy loop of \<^verbatim>\<open>q36_chat_content_text\<close>: the text without the occurrences of a control word.\<close>

function remove_word :: "bytes \<Rightarrow> bytes \<Rightarrow> bytes" where
  "remove_word word s =
     (case strstr s word of
        None \<Rightarrow> s
      | Some n \<Rightarrow> if word = [] then s else take n s @ remove_word word (drop (n + length word) s))"
  by pat_completeness auto
termination
  by (relation "measure (\<lambda>(w, s). length s)") (auto dest!: strstr_bound simp flip: length_greater_0_conv)

declare remove_word.simps [simp del]

definition trim_space :: "bytes \<Rightarrow> bytes" where
  "trim_space s = rev (dropWhile isspace (rev (dropWhile isspace s)))"

definition q36_chat_content_text :: "bytes option \<Rightarrow> bool \<Rightarrow> bytes" where
  "q36_chat_content_text content controls =
     (let s = (case content of Some s \<Rightarrow> s | None \<Rightarrow> []);
          plain = (if controls \<and> strstr s think_off \<noteq> None then remove_word think_off s
                   else if controls \<and> strstr s think_on \<noteq> None then remove_word think_on s
                   else s)
      in trim_space plain)"

definition q36_chat_begin :: "q36_vocab \<Rightarrow> int list" where
  "q36_chat_begin v = (if add_bos v \<and> 0 \<le> bos_id v then [bos_id v] else [])"

definition chat_append_open_role :: "q36_vocab \<Rightarrow> bytes \<Rightarrow> int list option" where
  "chat_append_open_role v role = do {
     a \<leftarrow> q36_tokenize_rendered_chat v (str ''<|im_start|>'');
     Some (a @ bpe_tokenize_text v role @ bpe_tokenize_text v [10])
   }"

definition chat_append_close_role :: "q36_vocab \<Rightarrow> int list option" where
  "chat_append_close_role v = do {
     a \<leftarrow> q36_tokenize_rendered_chat v (str ''<|im_end|>'');
     Some (a @ bpe_tokenize_text v [10])
   }"

definition q36_chat_append_max_effort_prefix :: "q36_vocab \<Rightarrow> int list" where
  "q36_chat_append_max_effort_prefix v = bpe_tokenize_text v Q36_REASONING_EFFORT_MAX_PREFIX"

definition q36_chat_append_message :: "q36_vocab \<Rightarrow> bytes option \<Rightarrow> bytes option \<Rightarrow> int list option" where
  "q36_chat_append_message v role content =
     (let role = (case role of None \<Rightarrow> str ''user'' | Some r \<Rightarrow> r);
          content = (case content of None \<Rightarrow> [] | Some c \<Rightarrow> c);
          role = (if role = str ''developer'' then str ''system'' else role)
      in if role = str ''tool'' \<or> role = str ''function'' then do {
           let s = q36_chat_content_text (Some content) False;
           a \<leftarrow> chat_append_open_role v (str ''user'');
           b \<leftarrow> q36_tokenize_rendered_chat v (str ''<tool_response>'' @ [10]);
           c \<leftarrow> q36_tokenize_rendered_chat v s;
           d \<leftarrow> q36_tokenize_rendered_chat v ([10] @ str ''</tool_response>'');
           e \<leftarrow> chat_append_close_role v;
           Some (a @ b @ c @ d @ e)
         }
         else let controls = (role = str ''system'' \<or> role = str ''user'');
                  s = q36_chat_content_text (Some content) controls
              in if role = str ''system'' \<and> s = [] then Some []
                 else do {
                   a \<leftarrow> chat_append_open_role v role;
                   b \<leftarrow> q36_tokenize_rendered_chat v s;
                   c \<leftarrow> chat_append_close_role v;
                   Some (a @ b @ c)
                 })"

definition q36_chat_append_assistant_prefix :: "q36_vocab \<Rightarrow> q36_think_mode \<Rightarrow> int list option" where
  "q36_chat_append_assistant_prefix v think_mode = do {
     a \<leftarrow> chat_append_open_role v (str ''assistant'');
     if think_mode = Q36_THINK_NONE then do {
       b \<leftarrow> q36_tokenize_rendered_chat v (str ''<think>'' @ [10, 10] @ str ''</think>'' @ [10, 10]);
       Some (a @ b)
     } else do {
       b \<leftarrow> q36_tokenize_rendered_chat v (str ''<think>'' @ [10]);
       Some (a @ b @ (if think_mode = Q36_THINK_MAX then q36_chat_append_max_effort_prefix v else []))
     }
   }"

text \<open>The mode in force after the control words of the system text and of the prompt.\<close>

definition chat_think_mode :: "bytes option \<Rightarrow> bytes option \<Rightarrow> q36_think_mode \<Rightarrow> q36_think_mode" where
  "chat_think_mode system prompt think_mode =
     (let thinking = q36_chat_apply_thinking_control prompt
            (q36_chat_apply_thinking_control system (q36_think_mode_enabled think_mode))
      in if \<not> thinking then Q36_THINK_NONE
         else if think_mode = Q36_THINK_NONE then Q36_THINK_HIGH else think_mode)"

definition q36_encode_chat_prompt ::
  "q36_vocab \<Rightarrow> bytes option \<Rightarrow> bytes option \<Rightarrow> q36_think_mode \<Rightarrow> int list option" where
  "q36_encode_chat_prompt v system prompt think_mode = do {
     let think_mode = chat_think_mode system prompt think_mode;
     let a = q36_chat_begin v;
     b \<leftarrow> (case system of
            Some s \<Rightarrow> if s \<noteq> [] then q36_chat_append_message v (Some (str ''system'')) (Some s) else Some []
          | None \<Rightarrow> Some []);
     c \<leftarrow> q36_chat_append_message v (Some (str ''user'')) (Some (case prompt of Some p \<Rightarrow> p | None \<Rightarrow> []));
     d \<leftarrow> q36_chat_append_assistant_prefix v think_mode;
     Some (a @ b @ c @ d)
   }"

section \<open>The template as text\<close>

text \<open>
  What a chat message and a prompt are as text, and the contract under which the tokens pushed for
  them have that text: both tokenizers keep the text of what they are given.
\<close>

definition message_text :: "bytes \<Rightarrow> bytes \<Rightarrow> bytes" where
  "message_text role body = str ''<|im_start|>'' @ role @ [10] @ body @ str ''<|im_end|>'' @ [10]"

definition chat_message_text :: "bytes option \<Rightarrow> bytes option \<Rightarrow> bytes" where
  "chat_message_text role content =
     (let role = (case role of None \<Rightarrow> str ''user'' | Some r \<Rightarrow> if r = str ''developer'' then str ''system'' else r);
          content = (case content of None \<Rightarrow> [] | Some c \<Rightarrow> c)
      in if role \<in> {str ''tool'', str ''function''} then
           message_text (str ''user'')
             (str ''<tool_response>'' @ [10] @ q36_chat_content_text (Some content) False @ [10] @ str ''</tool_response>'')
         else let body = q36_chat_content_text (Some content) (role \<in> {str ''system'', str ''user''})
              in if role = str ''system'' \<and> body = [] then [] else message_text role body)"

definition assistant_prefix_text :: "q36_think_mode \<Rightarrow> bytes" where
  "assistant_prefix_text mode =
     str ''<|im_start|>'' @ str ''assistant'' @ [10] @
     (case mode of
        Q36_THINK_NONE \<Rightarrow> str ''<think>'' @ [10, 10] @ str ''</think>'' @ [10, 10]
      | Q36_THINK_MAX \<Rightarrow> str ''<think>'' @ [10] @ Q36_REASONING_EFFORT_MAX_PREFIX
      | _ \<Rightarrow> str ''<think>'' @ [10])"

text \<open>A control word in the prompt goes before one in the system text, and in each text \<^verbatim>\<open>off\<close> before \<^verbatim>\<open>on\<close>.\<close>

definition control_of :: "bytes option \<Rightarrow> bool option" where
  "control_of content =
     (case content of None \<Rightarrow> None
      | Some s \<Rightarrow> if sublist (str ''<|think_off|>'') s then Some False
          else if sublist (str ''<|think_on|>'') s then Some True else None)"

definition effective_mode :: "bytes option \<Rightarrow> bytes option \<Rightarrow> q36_think_mode \<Rightarrow> q36_think_mode" where
  "effective_mode system prompt mode =
     (case (case control_of prompt of None \<Rightarrow> control_of system | c \<Rightarrow> c) of
        None \<Rightarrow> mode
      | Some True \<Rightarrow> if mode = Q36_THINK_NONE then Q36_THINK_HIGH else mode
      | Some False \<Rightarrow> Q36_THINK_NONE)"

lemma strstr_sublist: "strstr s needle \<noteq> None \<longleftrightarrow> sublist needle s"
proof (induction s)
  case (Cons c s)
  then show ?case by (auto simp: sublist_Cons_right starts_with_iff_prefix)
qed simp

lemma chat_think_mode_effective: "chat_think_mode system prompt mode = effective_mode system prompt mode"
  unfolding chat_think_mode_def effective_mode_def q36_chat_apply_thinking_control_def control_of_def
    q36_think_mode_enabled_def strstr_sublist think_off_def think_on_def Let_def
  by (simp split: option.split)

definition chat_prompt_text :: "bytes option \<Rightarrow> bytes option \<Rightarrow> q36_think_mode \<Rightarrow> bytes" where
  "chat_prompt_text system prompt mode =
     (if system \<in> {None, Some []} then [] else chat_message_text (Some (str ''system'')) system) @
     chat_message_text (Some (str ''user'')) prompt @
     assistant_prefix_text (effective_mode system prompt mode)"

locale lossless_tokenizer =
  fixes good :: "'v \<Rightarrow> bool" and plain :: "'v \<Rightarrow> bytes \<Rightarrow> int list" and rendered :: "'v \<Rightarrow> bytes \<Rightarrow> int list option"
    and detok :: "'v \<Rightarrow> int list \<Rightarrow> bytes"
  assumes detok_append: "detok v (a @ b) = detok v a @ detok v b"
    and plain_text: "good v \<Longrightarrow> detok v (plain v s) = s"
    and rendered_text: "good v \<Longrightarrow> \<exists>ts. rendered v s = Some ts \<and> detok v ts = s"
begin

text \<open>A computation that gives tokens of a given text; sequences of them compose.\<close>

definition writes :: "'v \<Rightarrow> int list option \<Rightarrow> bytes \<Rightarrow> bool" where
  "writes v m s \<longleftrightarrow> (\<exists>ts. m = Some ts \<and> detok v ts = s)"

lemma writes_rendered [intro]: "good v \<Longrightarrow> writes v (rendered v s) s"
  using rendered_text by (auto simp: writes_def)

lemma writes_plain [intro]: "good v \<Longrightarrow> writes v (Some (plain v s)) s"
  by (simp add: writes_def plain_text)

lemma writes_bind:
  "writes v m s \<Longrightarrow> (\<And>ts. detok v ts = s \<Longrightarrow> writes v (f ts) r) \<Longrightarrow> writes v (m \<bind> f) r"
  by (auto simp: writes_def)

lemma writes_Some: "writes v (Some ts) s \<longleftrightarrow> detok v ts = s"
  by (simp add: writes_def)

end

definition good_vocab :: "q36_vocab \<Rightarrow> bool" where
  "good_vocab v \<longleftrightarrow> vocab_closed v \<and> specials_ok v \<and> (\<forall>s. vocab_covers v s)"

interpretation lt: lossless_tokenizer good_vocab bpe_tokenize_text q36_tokenize_rendered_chat tokens_text
proof
  show "tokens_text v (bpe_tokenize_text v s) = s" if "good_vocab v" for v s
    using that tokenize_text_text by (simp add: good_vocab_def)
  show "\<exists>ts. q36_tokenize_rendered_chat v s = Some ts \<and> tokens_text v ts = s" if "good_vocab v" for v s
    using that tokenize_rendered_text by (simp add: good_vocab_def)
qed simp

lemmas chat_writes = lt.writes_Some lt.plain_text

lemma writes_open: "good_vocab v \<Longrightarrow> lt.writes v (chat_append_open_role v role) (str ''<|im_start|>'' @ role @ [10])"
  unfolding chat_append_open_role_def
  by (rule lt.writes_bind [OF lt.writes_rendered]) (simp_all add: chat_writes)

lemma writes_close: "good_vocab v \<Longrightarrow> lt.writes v (chat_append_close_role v) (str ''<|im_end|>'' @ [10])"
  unfolding chat_append_close_role_def
  by (rule lt.writes_bind [OF lt.writes_rendered]) (simp_all add: chat_writes)

lemma writes_message:
  assumes "good_vocab v"
  shows "lt.writes v (q36_chat_append_message v role content) (chat_message_text role content)"
proof -
  have three: "lt.writes v (do { a \<leftarrow> chat_append_open_role v r; b \<leftarrow> q36_tokenize_rendered_chat v s; c \<leftarrow> chat_append_close_role v; Some (a @ b @ c) })
      (message_text r s)" for r s
    by (rule lt.writes_bind [OF writes_open [OF assms]], rule lt.writes_bind [OF lt.writes_rendered [OF assms]],
        rule lt.writes_bind [OF writes_close [OF assms]]) (simp add: chat_writes message_text_def)
  have five: "lt.writes v (do { a \<leftarrow> chat_append_open_role v r; b \<leftarrow> q36_tokenize_rendered_chat v x; c \<leftarrow> q36_tokenize_rendered_chat v y;
        d \<leftarrow> q36_tokenize_rendered_chat v z; e \<leftarrow> chat_append_close_role v; Some (a @ b @ c @ d @ e) })
      (message_text r (x @ y @ z))" for r x y z
    by (rule lt.writes_bind [OF writes_open [OF assms]], rule lt.writes_bind [OF lt.writes_rendered [OF assms]],
        rule lt.writes_bind [OF lt.writes_rendered [OF assms]], rule lt.writes_bind [OF lt.writes_rendered [OF assms]],
        rule lt.writes_bind [OF writes_close [OF assms]]) (simp add: chat_writes message_text_def)
  define r where "r = (case role of None \<Rightarrow> str ''user'' | Some r \<Rightarrow> r)"
  define r' where "r' = (if r = str ''developer'' then str ''system'' else r)"
  define c where "c = (case content of None \<Rightarrow> [] | Some c \<Rightarrow> c)"
  have r': "(case role of None \<Rightarrow> str ''user'' | Some r \<Rightarrow> if r = str ''developer'' then str ''system'' else r) = r'"
    by (simp add: r'_def r_def str_def split: option.split)
  show ?thesis
    unfolding q36_chat_append_message_def chat_message_text_def Let_def r' r_def [symmetric] r'_def [symmetric] c_def [symmetric]
    using three [of r'] five [of "str ''user''" "str ''<tool_response>'' @ [10]" _ "[10] @ str ''</tool_response>''"]
    by (auto simp: chat_writes)
qed

lemma writes_assistant:
  assumes "good_vocab v"
  shows "lt.writes v (q36_chat_append_assistant_prefix v mode) (assistant_prefix_text mode)"
proof -
  note rest = lt.writes_bind [OF lt.writes_rendered [OF assms]]
  show ?thesis
    unfolding q36_chat_append_assistant_prefix_def assistant_prefix_text_def append_assoc [symmetric]
    by (rule lt.writes_bind [OF writes_open [OF assms]], cases mode)
      (auto intro!: rest simp: chat_writes assms q36_chat_append_max_effort_prefix_def)
qed

lemma encode_chat_prompt_text:
  assumes "good_vocab v"
  shows "\<exists>ts. q36_encode_chat_prompt v system prompt mode = Some ts \<and>
    tokens_text v ts = tokens_text v (q36_chat_begin v) @ chat_prompt_text system prompt mode"
proof -
  have prompt: "chat_message_text (Some (str ''user'')) (Some (case prompt of Some p \<Rightarrow> p | None \<Rightarrow> [])) =
      chat_message_text (Some (str ''user'')) prompt"
    by (simp add: chat_message_text_def split: option.split)
  have sys: "lt.writes v (case system of Some s \<Rightarrow> if s \<noteq> [] then q36_chat_append_message v (Some (str ''system'')) (Some s) else Some []
        | None \<Rightarrow> Some []) (if system \<in> {None, Some []} then [] else chat_message_text (Some (str ''system'')) system)"
    using writes_message [OF assms] by (auto simp: chat_writes split: option.split)
  have "lt.writes v (q36_encode_chat_prompt v system prompt mode)
      (tokens_text v (q36_chat_begin v) @ chat_prompt_text system prompt mode)"
    unfolding q36_encode_chat_prompt_def Let_def chat_prompt_text_def chat_think_mode_effective [symmetric]
    by (rule lt.writes_bind [OF sys], rule lt.writes_bind [OF writes_message [OF assms]], rule lt.writes_bind [OF writes_assistant [OF assms]])
      (simp add: chat_writes prompt)
  then show ?thesis by (simp add: lt.writes_def)
qed

section \<open>Loaded vocabularies\<close>

definition required_tokens :: "string list" where
  "required_tokens = [''<|im_start|>'', ''<|im_end|>'', ''<think>'', ''</think>'', ''<|vision_start|>'', ''<|vision_end|>'',
     ''<|image_pad|>'', ''<|video_pad|>'']"

lemma vocab_fill_iff:
  assumes "length merges \<le> 2 ^ 60"
  shows "(\<exists>v. vocab_fill tokens types merges bos eos ab = Some v) \<longleftrightarrow>
    length tokens \<le> 2147483647 \<and> length types = length tokens \<and> (\<forall>s \<in> set required_tokens. str s \<in> set tokens)"
proof (cases "length tokens \<le> 2147483647 \<and> length types = length tokens")
  case True
  obtain t where t: "table_put_all (table_init (length tokens)) (indexed tokens) = Some t"
    "\<forall>k. table_get t k = Some (map_of (rev (indexed tokens)) k)"
    using table_put_all_init [of "indexed tokens" "length tokens"] True by (auto simp: indexed_def)
  obtain r where r: "table_put_all (table_init (length merges)) (indexed merges) = Some r"
    using table_put_all_init [of "indexed merges" "length merges"] assms by (auto simp: indexed_def)
  have find: "vocab_lookup t s = None \<longleftrightarrow> str s \<notin> set tokens" for s
    by (simp add: vocab_lookup_def table_find_def t(2) map_of_indexed_None)
  have "(\<exists>v. vocab_fill tokens types merges bos eos ab = Some v) \<longleftrightarrow> (\<forall>s \<in> set required_tokens. vocab_lookup t s \<noteq> None)"
    using True by (auto simp: vocab_fill_def t(1) r required_tokens_def bind_eq_Some_conv)
  then show ?thesis using True by (simp only: find) simp
next
  case False
  then show ?thesis by (auto simp: vocab_fill_def)
qed

lemma vocab_fill_good:
  assumes "vocab_fill tokens types merges bos eos ab = Some v" "model_vocab tokens types merges"
    and "\<forall>b. byte_encode [b] \<in> set tokens"
  shows "good_vocab v"
  using vocab_fill_closed [OF assms(1,2)] vocab_fill_specials [OF assms(1,2)] vocab_fill_covers [OF assms(1)] assms(2,3)
  by (auto simp: good_vocab_def model_vocab_def)

text \<open>A small vocabulary: the bytes, the required special tokens, one merge.\<close>

definition small_tokens :: "bytes list" where
  "small_tokens = map (\<lambda>b. byte_encode [word_of_nat b]) [0..<256] @ map str required_tokens @ [str ''hi'']"

definition small_types :: "u32 list" where
  "small_types = replicate 256 1 @ replicate 8 3 @ [1]"

definition small_merges :: "bytes list" where
  "small_merges = [[104, 32, 105]]"

lemma literal_byte: "\<not> vocab_token_is_literal_special (byte_encode [b])"
  by (cases rule: enc1_cases [of b])
    (auto simp: vocab_token_is_literal_special_def byte_encode_enc1 str_def)

lemma required_printable: "list_all printable (map str required_tokens)"
  by (simp add: required_tokens_def printable_def lit_simps)

lemma small_vocab: "model_vocab small_tokens small_types small_merges \<and> (\<forall>b. byte_encode [b] \<in> set small_tokens)"
proof (intro conjI allI)
  show "byte_encode [b] \<in> set small_tokens" for b
    using byte_less [of b] by (auto simp: small_tokens_def intro!: image_eqI [of _ _ "unat b"])
  have h: "a @ [32] @ b = [104, 32, 105] \<Longrightarrow> a = [104] \<and> b = [105]" for a b :: bytes
    by (cases a; cases "tl a"; cases "tl (tl a)") auto
  have lit: "printable s" if "s \<in> set small_tokens" "vocab_token_is_literal_special s" for s
    using that literal_byte required_printable
    by (auto simp: small_tokens_def list_all_iff printable_def lit_simps)
  have sp: "s \<noteq> [] \<and> printable s" if "(s, ty) \<in> set (zip small_tokens small_types)" "special_type ty" for s ty
  proof -
    have "length required_tokens = 8" by (simp add: required_tokens_def)
    then have "zip small_tokens small_types = zip (map (\<lambda>b. byte_encode [word_of_nat b]) [0..<256]) (replicate 256 1) @
        zip (map str required_tokens) (replicate 8 3) @ [(str ''hi'', 1)]"
      by (simp add: small_tokens_def small_types_def)
    with that have "(s, ty) \<in> set (zip (map str required_tokens) (replicate 8 3))"
      by (auto simp: special_type_def dest: set_zip_rightD)
    then have "s \<in> set (map str required_tokens)" by (rule set_zip_leftD)
    moreover from this have "s \<noteq> []" by (auto simp: required_tokens_def str_def)
    ultimately show ?thesis using required_printable unfolding list_all_iff by blast
  qed
  have merge: "str ''hi'' = [104, 105]" by (simp add: lit_simps)
  show "model_vocab small_tokens small_types small_merges"
    unfolding model_vocab_def
  proof (intro conjI)
    show "length small_merges \<le> 2 ^ 60" by (simp add: small_merges_def)
    show "\<forall>a b. a @ [32] @ b \<in> set small_merges \<longrightarrow> a @ b \<in> set small_tokens"
      using h merge by (fastforce simp: small_merges_def small_tokens_def)
  qed (use lit sp in auto)
qed

lemma small_vocab_fills: "\<exists>v. vocab_fill small_tokens small_types small_merges 0 1 None = Some v"
  by (subst vocab_fill_iff) (auto simp: small_merges_def small_tokens_def small_types_def required_tokens_def)

text \<open>
  A vocabulary load succeeds exactly when the two arrays of the GGUF file have the same length,
  within the range of \<^verbatim>\<open>int\<close>, and each of the eight special tokens the engine needs is in it; it exits
  otherwise, and no lookup table ever runs into an endless probe.
\<close>

theorem vocab_fill_succeeds_iff:
  assumes "length merges \<le> 2 ^ 60"
  shows "(\<exists>v. vocab_fill tokens types merges bos eos ab = Some v) \<longleftrightarrow>
    length tokens \<le> 2147483647 \<and> length types = length tokens \<and>
    (\<forall>s \<in> set [''<|im_start|>'', ''<|im_end|>'', ''<think>'', ''</think>'', ''<|vision_start|>'', ''<|vision_end|>'',
       ''<|image_pad|>'', ''<|video_pad|>'']. str s \<in> set tokens)"
  using vocab_fill_iff [OF assms] unfolding required_tokens_def .

lemma vocab_fill_succeeds_witness:
  "(\<exists>v. vocab_fill small_tokens small_types small_merges 0 1 None = Some v) \<and>
   \<not> (\<exists>v. vocab_fill [[104]] [1] [] 0 1 None = Some v)"
  using vocab_fill_succeeds_iff [of small_merges small_tokens small_types 0 1 None]
    vocab_fill_succeeds_iff [of "[]" "[[104]]" "[1]" 0 1 None]
  by (auto simp: small_merges_def small_tokens_def small_types_def required_tokens_def lit_simps)

text \<open>
  C37. Tokenizing loses nothing: with a vocabulary loaded from arrays that hold every byte, in which
  each merge makes a token and the special tokens are printable, the texts of the tokens of any C
  string, read as plain text or as rendered chat, are together that string; and the scan for special
  tokens always ends.
\<close>

theorem tokenize_round_trip:
  assumes "vocab_fill tokens types merges bos eos ab = Some v"
    and "model_vocab tokens types merges" and "\<forall>b. byte_encode [b] \<in> set tokens"
  shows "concat (map (q36_token_text v) (bpe_tokenize_text v s)) = s \<and>
    (\<exists>ts. q36_tokenize_rendered_chat v s = Some ts \<and> concat (map (q36_token_text v) ts) = s)"
  using lt.plain_text lt.rendered_text vocab_fill_good [OF assms] by (simp add: tokens_text_def)

lemma tokenize_round_trip_witness:
  "\<exists>v. vocab_fill small_tokens small_types small_merges 0 1 None = Some v \<and>
     concat (map (q36_token_text v) (bpe_tokenize_text v (str ''hi there''))) = str ''hi there''"
proof -
  obtain v where "vocab_fill small_tokens small_types small_merges 0 1 None = Some v" using small_vocab_fills by blast
  with tokenize_round_trip [OF this] small_vocab show ?thesis by blast
qed

text \<open>
  C39. The prompt encoder implements the chat template: the tokens of \<^verbatim>\<open>q36_encode_chat_prompt\<close> are the
  begin token, where the model wants one, and then tokens whose text is the template filled with the
  system text and the prompt (trimmed, their control words taken out) and the assistant opening of the
  mode the control words leave in force.
\<close>

theorem chat_prompt_refines_template:
  assumes "vocab_fill tokens types merges bos eos ab = Some v"
    and "model_vocab tokens types merges" and "\<forall>b. byte_encode [b] \<in> set tokens"
  shows "\<exists>ts. q36_encode_chat_prompt v system prompt mode = Some (q36_chat_begin v @ ts) \<and>
    concat (map (q36_token_text v) ts) = chat_prompt_text system prompt mode"
proof -
  obtain us where us: "q36_encode_chat_prompt v system prompt mode = Some us"
    "tokens_text v us = tokens_text v (q36_chat_begin v) @ chat_prompt_text system prompt mode"
    using encode_chat_prompt_text [OF vocab_fill_good [OF assms]] by blast
  from us(1) obtain ts where "us = q36_chat_begin v @ ts"
    by (auto simp: q36_encode_chat_prompt_def Let_def bind_eq_Some_conv)
  with us show ?thesis by (auto simp: tokens_text_def)
qed

lemma chat_prompt_witness:
  "\<exists>v ts. vocab_fill small_tokens small_types small_merges 0 1 None = Some v \<and>
     q36_encode_chat_prompt v None (Some (str ''hi'')) Q36_THINK_NONE = Some (q36_chat_begin v @ ts) \<and>
     concat (map (q36_token_text v) ts) = chat_prompt_text None (Some (str ''hi'')) Q36_THINK_NONE"
proof -
  obtain v where "vocab_fill small_tokens small_types small_merges 0 1 None = Some v" using small_vocab_fills by blast
  with chat_prompt_refines_template [OF this] small_vocab show ?thesis by blast
qed

text \<open>
  A run of spaces is cut space by space: where two spaces follow each other, a piece that starts at
  the first one ends after it, so that the branch that keeps a run of white space together is for runs
  that start with another character.
\<close>

theorem spaces_cut_singly:
  "bpe_piece_end (p @ [32, 32] @ s) (length p) = length p + 1"
  by (simp add: bpe_piece_end_def bpe_piece_scan_def char_at_def nth_append ascii_digit_def word_starts_at_def Let_def
      qwen_letter_like_at_def ascii_alpha_def ascii_space_def qwen_punct_symbol_at_def next_utf8_char_def utf8_len_from_first_byte_def)

section \<open>A prefix file before the prompt\<close>

definition turn_role_name :: "q36_prompt_prefix_role \<Rightarrow> bytes" where
  "turn_role_name r = (if r = Q36_PROMPT_PREFIX_ASSISTANT then str ''assistant'' else str ''user'')"

fun q36_prompt_prefix_append :: "q36_vocab \<Rightarrow> q36_prompt_prefix_turn list \<Rightarrow> int list option" where
  "q36_prompt_prefix_append v [] = Some []"
| "q36_prompt_prefix_append v ((role, content) # turns) = do {
     a \<leftarrow> q36_chat_append_message v (Some (turn_role_name role)) (Some content);
     b \<leftarrow> q36_prompt_prefix_append v turns;
     Some (a @ b)
   }"

lemma writes_prefix:
  assumes "good_vocab v"
  shows "lt.writes v (q36_prompt_prefix_append v turns)
    (concat (map (\<lambda>(r, c). message_text (turn_role_name r) (q36_chat_content_text (Some c) (r = Q36_PROMPT_PREFIX_USER))) turns))"
proof (induction turns)
  case Nil
  show ?case by (simp add: chat_writes)
next
  case (Cons t turns)
  obtain r c where t: "t = (r, c)" by (cases t)
  have m: "chat_message_text (Some (turn_role_name r)) (Some c) =
      message_text (turn_role_name r) (q36_chat_content_text (Some c) (r = Q36_PROMPT_PREFIX_USER))"
    by (cases r) (simp_all add: chat_message_text_def turn_role_name_def str_def)
  show ?case
    unfolding t q36_prompt_prefix_append.simps
    by (rule lt.writes_bind [OF writes_message [OF assms]], rule lt.writes_bind [OF Cons.IH]) (simp add: chat_writes m)
qed

text \<open>
  A prefix file becomes a conversation: the turns the parser finds in it are tokenized as
  alternating user and assistant messages, an even number of them, and the text of the tokens is
  these messages in order.
\<close>

theorem prefix_file_conversation:
  assumes "vocab_fill tokens types merges bos eos ab = Some v"
    and "model_vocab tokens types merges" and "\<forall>b. byte_encode [b] \<in> set tokens"
    and "q36_prompt_prefix_parse data = Inr turns"
  shows "even (length turns) \<and>
    (\<exists>ts. q36_prompt_prefix_append v turns = Some ts \<and>
      concat (map (q36_token_text v) ts) =
        concat (map (\<lambda>i. message_text (if even i then str ''user'' else str ''assistant'')
                            (q36_chat_content_text (Some (snd (turns ! i))) (even i))) [0..<length turns]))"
proof -
  have ok: "turns_ok turns" "length turns mod 2 = 0" using prefix_parse_ok [OF assms(4)] by simp_all
  define m where "m = (\<lambda>(r, c). message_text (turn_role_name r) (q36_chat_content_text (Some c) (r = Q36_PROMPT_PREFIX_USER)))"
  have "m (turns ! i) = message_text (if even i then str ''user'' else str ''assistant'')
      (q36_chat_content_text (Some (snd (turns ! i))) (even i))" if "i < length turns" for i
    using ok(1) that
    by (cases "turns ! i") (auto simp: m_def turns_ok_def turn_role_def turn_role_name_def even_iff_mod_2_eq_zero
        dest!: spec [of _ i] split: if_splits)
  then have "map m turns = map (\<lambda>i. message_text (if even i then str ''user'' else str ''assistant'')
      (q36_chat_content_text (Some (snd (turns ! i))) (even i))) [0..<length turns]"
    by (intro nth_equalityI) simp_all
  then show ?thesis
    using writes_prefix [OF vocab_fill_good [OF assms(1-3)], of turns] ok(2)
    by (auto simp: lt.writes_def tokens_text_def m_def even_iff_mod_2_eq_zero)
qed

lemma prefix_file_witness:
  "\<exists>v ts. vocab_fill small_tokens small_types small_merges 0 1 None = Some v \<and>
     q36_prompt_prefix_append v [(Q36_PROMPT_PREFIX_USER, [97]), (Q36_PROMPT_PREFIX_ASSISTANT, [98])] = Some ts \<and>
     concat (map (q36_token_text v) ts) =
       message_text (str ''user'') [97] @ message_text (str ''assistant'') [98]"
proof -
  obtain v where v: "vocab_fill small_tokens small_types small_merges 0 1 None = Some v" using small_vocab_fills by blast
  have p: "q36_prompt_prefix_parse (str ''USER: a'' @ [10] @ str ''ASSISTANT: b'') =
     Inr [(Q36_PROMPT_PREFIX_USER, [97]), (Q36_PROMPT_PREFIX_ASSISTANT, [98])]" by code_simp
  have t: "q36_chat_content_text (Some [97]) True = [97]" "q36_chat_content_text (Some [98]) False = [98]" by code_simp+
  show ?thesis
    using prefix_file_conversation [OF v small_vocab [THEN conjunct1] small_vocab [THEN conjunct2] p] v t by auto
qed

end
