(* ===== verification/Ssd.thy ===== *)
theory Ssd
  imports Prelude
begin

text \<open>
  Memory options of the SSD-streaming engine (\<^verbatim>\<open>q36_ssd.c\<close>): sizes given in GiB or experts, the
  plan of the expert cache, and the lock that simulates used memory.  The system calls of the lock
  enter as what \<^verbatim>\<open>mmap\<close> and each \<^verbatim>\<open>mlock\<close> answer, and come out as a trace.
\<close>

definition Q36_GIB :: u64 where "Q36_GIB = 1024 * 1024 * 1024"

section \<open>Arguments\<close>

text \<open>\<^verbatim>\<open>strtoull\<close> on digits: \<open>None\<close> is its range error.\<close>

definition strtoull_digits :: "bytes \<Rightarrow> nat option" where
  "strtoull_digits s = (let v = foldl dec_step 0 s in if v \<ge> 2 ^ 64 then None else Some v)"

definition gib_suffix :: "bytes \<Rightarrow> bool" where
  "gib_suffix s \<longleftrightarrow> length s > 2 \<and> (s ! (length s - 2) = 103 \<or> s ! (length s - 2) = 71) \<and>
     (s ! (length s - 1) = 98 \<or> s ! (length s - 1) = 66)"

definition q36_parse_gib_arg :: "bytes \<Rightarrow> u64 option" where
  "q36_parse_gib_arg s =
     (if s = [] then None
      else let digits = (if gib_suffix s then take (length s - 2) s else s)
           in if digits = [] \<or> \<not> list_all isdigit digits \<or> length digits \<ge> 32 then None
              else case strtoull_digits digits of
                  None \<Rightarrow> None
                | Some v \<Rightarrow> if v = 0 \<or> v > unat (- 1 div Q36_GIB) then None
                            else Some (word_of_nat v * Q36_GIB))"

text \<open>A number of experts, or with a suffix a number of bytes: \<open>(experts, bytes)\<close>.\<close>

definition q36_parse_streaming_cache_experts_arg :: "bytes \<Rightarrow> (u32 \<times> u64) option" where
  "q36_parse_streaming_cache_experts_arg s =
     (if s = [] then None
      else if gib_suffix s then map_option (\<lambda>b. (0, b)) (q36_parse_gib_arg s)
      else if \<not> list_all isdigit s then None
      else case strtoull_digits s of
          None \<Rightarrow> None
        | Some v \<Rightarrow> if v = 0 \<or> v > unat (- 1 :: u32) then None else Some (word_of_nat v, 0))"

section \<open>The expert cache\<close>

definition q36_ssd_cache_experts_for_byte_budget :: "u64 \<Rightarrow> u64 \<Rightarrow> u32" where
  "q36_ssd_cache_experts_for_byte_budget bytes per_expert_bytes =
     (if bytes = 0 \<or> per_expert_bytes = 0 then 0
      else let experts = bytes div per_expert_bytes
           in if experts = 0 \<or> experts > ucast (- 1 :: u32) then 0 else ucast experts)"

definition q36_ssd_shrink_cache_experts :: "u32 \<Rightarrow> u32" where
  "q36_ssd_shrink_cache_experts experts =
     (if experts = 0 then 0
      else let release = (experts + 9) div 10 in if experts > release then experts - release else 0)"

record q36_ssd_cache_plan =
  pl_model_target_bytes :: u64
  pl_cache_bytes :: u64
  pl_effective_cache_bytes :: u64
  pl_cache_experts :: u32

text \<open>\<open>None\<close>: the arguments are refused.  The percentage is a 32-bit value, widened where it is used.\<close>

definition q36_ssd_auto_cache_plan ::
  "u64 \<Rightarrow> u32 \<Rightarrow> u64 \<Rightarrow> u64 \<Rightarrow> u64 \<Rightarrow> u64 \<Rightarrow> q36_ssd_cache_plan option" where
  "q36_ssd_auto_cache_plan recommended percent model_limit non_routed per_expert max_experts =
     (if recommended = 0 \<or> per_expert = 0 \<or> percent < 50 \<or> percent > 95 then None
      else
        let target = (recommended div 100) * ucast percent + (recommended mod 100) * ucast percent div 100;
            target = (if model_limit \<noteq> 0 \<and> target > model_limit then model_limit else target);
            cache = (if target > non_routed then target - non_routed else 0);
            experts = cache div per_expert;
            experts = (if experts = 0 then 1 else experts);
            experts = (if max_experts \<noteq> 0 \<and> experts > max_experts then max_experts else experts);
            experts = (if experts > ucast (- 1 :: u32) then ucast (- 1 :: u32) else experts)
        in Some \<lparr> pl_model_target_bytes = target, pl_cache_bytes = cache,
                  pl_effective_cache_bytes = experts * per_expert, pl_cache_experts = ucast experts \<rparr>)"

section \<open>The memory lock\<close>

datatype mem_call = Mmap nat | Touch nat | Mlock nat nat | Munlock nat | Munmap nat

text \<open>The pages of a chunk and its last byte are written before it is locked.\<close>

function touch_pages :: "nat \<Rightarrow> nat \<Rightarrow> nat \<Rightarrow> mem_call list" where
  "touch_pages page pos stop = (if pos < stop \<and> 0 < page then Touch pos # touch_pages page (pos + page) stop else [])"
  by pat_completeness auto
termination
  by (relation "measure (\<lambda>(page, pos, stop). stop - pos)") auto

declare touch_pages.simps [simp del]

definition lock_chunk :: nat where "lock_chunk = 256 * 1024 * 1024"

definition lock_calls :: "nat \<Rightarrow> nat \<Rightarrow> nat \<Rightarrow> mem_call list" where
  "lock_calls page n off =
     (let len = min (n - off) lock_chunk
      in touch_pages page off (off + len) @ [Touch (off + len - 1), Mlock off len])"

function lock_loop :: "nat \<Rightarrow> nat \<Rightarrow> (nat \<Rightarrow> bool) \<Rightarrow> nat \<Rightarrow> bool \<times> mem_call list" where
  "lock_loop page n mlock off =
     (if off < n then
        if \<not> mlock off
        then (False, butlast (lock_calls page n off) @ (if off \<noteq> 0 then [Munlock off] else []) @ [Munmap n])
        else let (ok, more_calls) = lock_loop page n mlock (off + lock_chunk)
             in (ok, lock_calls page n off @ more_calls)
      else (True, []))"
  by pat_completeness auto
termination
  by (relation "measure (\<lambda>(page, n, mlock, off). n - off)") (auto simp: lock_chunk_def)

declare lock_loop.simps [simp del]

text \<open>The lock holds the size of its mapping, 0 when it has none.  \<open>locked\<close> is the offset reached.\<close>

definition q36_ssd_memory_lock_acquire ::
  "nat \<Rightarrow> bool \<Rightarrow> (nat \<Rightarrow> bool) \<Rightarrow> nat \<Rightarrow> bool \<times> nat \<times> mem_call list" where
  "q36_ssd_memory_lock_acquire page mmap mlock n =
     (if n = 0 then (True, 0, [])
      else if \<not> mmap then (False, 0, [])
      else case lock_loop page n mlock 0 of
          (False, calls) \<Rightarrow> (False, 0, Mmap n # calls)
        | (True, calls) \<Rightarrow> (True, n, Mmap n # calls))"

definition q36_ssd_memory_lock_release :: "nat \<Rightarrow> nat \<times> mem_call list" where
  "q36_ssd_memory_lock_release held = (if held = 0 then (0, []) else (0, [Munlock held, Munmap held]))"

section \<open>Facts\<close>

text \<open>What a trace leaves mapped and locked.\<close>

fun mem_balance :: "mem_call list \<Rightarrow> int \<times> int" where
  "mem_balance [] = (0, 0)"
| "mem_balance (c # cs) =
     (case mem_balance cs of (m, l) \<Rightarrow>
       (case c of Mmap n \<Rightarrow> (m + int n, l) | Munmap n \<Rightarrow> (m - int n, l) | Touch p \<Rightarrow> (m, l)
        | Mlock off n \<Rightarrow> (m, l + int n) | Munlock n \<Rightarrow> (m, l - int n)))"

lemma mem_balance_append [simp]:
  "mem_balance (cs @ ds) = (fst (mem_balance cs) + fst (mem_balance ds), snd (mem_balance cs) + snd (mem_balance ds))"
  by (induction cs) (auto split: mem_call.splits prod.splits)

lemma mem_balance_touch [simp]: "mem_balance (touch_pages page pos stop) = (0, 0)"
  by (induction page pos stop rule: touch_pages.induct) (subst touch_pages.simps, simp)

lemma lock_loop_balance:
  "lock_loop page n mlock off = (ok, calls) \<Longrightarrow> off < n \<or> ok \<and> calls = [] \<Longrightarrow>
     mem_balance calls = (if ok then (0, int (n - off)) else (- int n, - int off))"
proof (induction page n mlock off arbitrary: ok calls rule: lock_loop.induct)
  case (1 page n mlock off)
  show ?case
  proof (cases "off < n")
    case True
    define len where "len = min (n - off) lock_chunk"
    define pre where "pre = lock_calls page n off"
    have pre: "mem_balance pre = (0, int len)" "mem_balance (butlast pre) = (0, 0)"
      by (simp_all add: pre_def lock_calls_def Let_def butlast_append len_def)
    show ?thesis
    proof (cases "mlock off")
      case False
      then have "ok = False" "calls = butlast pre @ (if off \<noteq> 0 then [Munlock off] else []) @ [Munmap n]"
        using "1.prems"(1) True by (simp_all add: lock_loop.simps [of page n mlock off] pre_def)
      then show ?thesis using pre by simp
    next
      case ml: True
      obtain rest where rest: "lock_loop page n mlock (off + lock_chunk) = (ok, rest)" and calls: "calls = pre @ rest"
        using "1.prems"(1) True ml
        by (auto simp: lock_loop.simps [of page n mlock off] pre_def split: prod.splits)
      show ?thesis
      proof (cases "off + lock_chunk < n")
        case more: True
        have "mem_balance rest = (if ok then (0, int (n - (off + lock_chunk))) else (- int n, - int (off + lock_chunk)))"
          using "1.IH" [OF True _ rest] ml more by simp
        moreover have "len = lock_chunk" using more by (simp add: len_def)
        ultimately show ?thesis using pre more by (simp add: calls)
      next
        case False
        then have "ok" "rest = []" using rest by (auto simp: lock_loop.simps)
        moreover have "len = n - off" using False by (simp add: len_def)
        ultimately show ?thesis using pre by (simp add: calls)
      qed
    qed
  next
    case False
    then show ?thesis using "1.prems" by (auto simp: lock_loop.simps)
  qed
qed

lemma lock_balance:
  assumes "q36_ssd_memory_lock_acquire page mmap mlock n = (ok, held, calls)"
  shows "mem_balance calls = (int held, int held) \<and> held = (if ok then n else 0) \<and>
    mem_balance (calls @ snd (q36_ssd_memory_lock_release held)) = (0, 0)"
proof -
  have "mem_balance calls = (int held, int held) \<and> held = (if ok then n else 0)"
    using assms lock_loop_balance [of page n mlock 0]
    by (auto simp: q36_ssd_memory_lock_acquire_def split: if_splits prod.splits bool.splits)
  then show ?thesis by (auto simp: q36_ssd_memory_lock_release_def)
qed

text \<open>The percentage is taken without overflow.\<close>

lemma percent_split: "(r div 100) * p + (r mod 100) * p div 100 = r * p div (100 :: nat)"
proof -
  have "r * p = (r div 100) * p * 100 + (r mod 100) * p"
    by (metis add_mult_distrib div_mult_mod_eq mult.assoc mult.commute)
  then show ?thesis by simp
qed

lemma plan_target:
  fixes r :: u64 and p :: u32
  assumes "p \<le> 95"
  shows "unat ((r div 100) * ucast p + (r mod 100) * ucast p div 100) = unat r * unat p div 100"
proof -
  have p: "unat p \<le> 95" using assms by (simp add: word_le_nat_alt)
  have r: "unat r < 2 ^ 64" using unsigned_less [of r, where 'a = nat] by simp
  have up: "unat (ucast p :: u64) = unat p" by (simp add: unat_ucast_up)
  have "unat r div 100 * unat p \<le> unat r div 100 * 95" using p by simp
  also have "\<dots> \<le> unat r" by simp
  finally have a: "unat (r div 100 * ucast p) = unat r div 100 * unat p"
    using r by (simp add: unat_word_ariths unat_div up)
  have "unat r mod 100 * unat p \<le> 99 * 95" using p by (intro mult_le_mono) auto
  then have b: "unat (r mod 100 * ucast p div 100) = unat r mod 100 * unat p div 100"
    by (simp add: unat_word_ariths unat_div unat_mod up)
  have "unat r * unat p div 100 \<le> unat r * 95 div 100" using p by (intro div_le_mono mult_le_mono2) auto
  also have "\<dots> \<le> unat r" by simp
  finally have "unat r div 100 * unat p + unat r mod 100 * unat p div 100 < 2 ^ 64"
    using r unfolding percent_split by simp
  then have "unat ((r div 100) * ucast p + (r mod 100) * ucast p div 100)
      = unat r div 100 * unat p + unat r mod 100 * unat p div 100"
    by (subst unat_add_no_overflow) (simp_all add: a b)
  then show ?thesis by (simp only: percent_split)
qed

lemma plan_bounds:
  assumes "q36_ssd_auto_cache_plan r p limit non per maxe = Some pl"
  shows "unat (pl_model_target_bytes pl) \<le> unat r * unat p div 100"
    and "limit \<noteq> 0 \<Longrightarrow> pl_model_target_bytes pl \<le> limit"
    and "unat (pl_cache_bytes pl) = unat (pl_model_target_bytes pl) - unat non"
    and "0 < pl_cache_experts pl"
    and "maxe \<noteq> 0 \<Longrightarrow> unat (pl_cache_experts pl) \<le> unat maxe"
    and "unat (pl_effective_cache_bytes pl) = unat (pl_cache_experts pl) * unat per"
    and "unat (pl_effective_cache_bytes pl) \<le> max (unat (pl_cache_bytes pl)) (unat per)"
proof -
  define raw where "raw = (r div 100) * ucast p + (r mod 100) * ucast p div 100"
  define target where "target = (if limit \<noteq> 0 \<and> raw > limit then limit else raw)"
  define cache where "cache = (if target > non then target - non else 0)"
  define e1 where "e1 = (if cache div per = 0 then 1 else cache div per)"
  define e2 where "e2 = (if maxe \<noteq> 0 \<and> e1 > maxe then maxe else e1)"
  define e3 where "e3 = (if e2 > ucast (- 1 :: u32) then ucast (- 1 :: u32) else e2)"
  have per: "per \<noteq> 0" and p: "p \<le> 95"
    and pl: "pl = \<lparr> pl_model_target_bytes = target, pl_cache_bytes = cache,
       pl_effective_cache_bytes = e3 * per, pl_cache_experts = ucast e3 \<rparr>"
    using assms [unfolded q36_ssd_auto_cache_plan_def Let_def, folded raw_def, folded target_def, folded cache_def,
        folded e1_def, folded e2_def, folded e3_def] by (simp_all add: not_less split: if_splits)
  show "unat (pl_model_target_bytes pl) \<le> unat r * unat p div 100"
    using plan_target [OF p, of r]
    by (auto simp: pl target_def raw_def [symmetric] word_less_nat_alt)
  show "limit \<noteq> 0 \<Longrightarrow> pl_model_target_bytes pl \<le> limit"
    by (auto simp: pl target_def)
  show "unat (pl_cache_bytes pl) = unat (pl_model_target_bytes pl) - unat non"
    by (auto simp: pl cache_def unat_sub word_less_nat_alt word_le_nat_alt)
  have "unat (cache div per) * unat per \<le> unat cache"
    by (simp add: unat_div)
  then have e1: "e1 \<noteq> 0" "unat e1 * unat per \<le> max (unat cache) (unat per)"
    by (cases "cache div per = 0"; simp add: e1_def le_max_iff_disj)+
  have le: "unat e3 \<le> unat e2" "unat e2 \<le> unat e1"
    by (auto simp: e3_def e2_def word_less_nat_alt)
  have "(ucast (- 1 :: u32) :: u64) \<noteq> 0" by code_simp
  then have nz: "e3 \<noteq> 0" using e1(1) by (auto simp: e3_def e2_def)
  have small: "unat e3 \<le> unat (- 1 :: u32)"
    by (auto simp: e3_def word_less_nat_alt unat_ucast_up)
  then have cast: "unat (ucast e3 :: u32) = unat e3"
    by (simp add: unsigned_ucast_eq take_bit_nat_eq_self unsigned_minus_1_eq_mask mask_eq_exp_minus_1)
  show "0 < pl_cache_experts pl"
    using nz cast by (metis pl q36_ssd_cache_plan.select_convs(4) unat_0 unat_eq_zero word_neq_0_conv)
  show "maxe \<noteq> 0 \<Longrightarrow> unat (pl_cache_experts pl) \<le> unat maxe"
    using le(1) by (auto simp: pl cast e2_def word_less_nat_alt split: if_splits)
  have prod: "unat e3 * unat per \<le> max (unat cache) (unat per)"
    using le e1(2) by (meson le_trans mult_le_mono1)
  also have "\<dots> < 2 ^ 64"
    using unsigned_less [of cache, where 'a = nat] unsigned_less [of per, where 'a = nat] by simp
  finally have "unat (e3 * per) = unat e3 * unat per"
    by (simp add: unat_word_ariths)
  then show "unat (pl_effective_cache_bytes pl) = unat (pl_cache_experts pl) * unat per"
    and "unat (pl_effective_cache_bytes pl) \<le> max (unat (pl_cache_bytes pl)) (unat per)"
    using prod by (simp_all add: pl cast)
qed

lemma gib_value:
  assumes "q36_parse_gib_arg s = Some b"
  shows "\<exists>digits. (s = digits \<or> s = digits @ drop (length s - 2) s \<and> gib_suffix s) \<and> digits \<noteq> [] \<and>
    list_all isdigit digits \<and> unat b = foldl dec_step 0 digits * 2 ^ 30 \<and> 0 < unat b"
proof -
  define digits where "digits = (if gib_suffix s then take (length s - 2) s else s)"
  define v where "v = foldl dec_step 0 digits"
  have d: "digits \<noteq> []" "list_all isdigit digits" "v \<noteq> 0" "v \<le> unat (- 1 div Q36_GIB)" "b = word_of_nat v * Q36_GIB"
    using assms by (auto simp: q36_parse_gib_arg_def digits_def [symmetric] v_def strtoull_digits_def Let_def
        split: if_splits)
  have q: "unat (- 1 div Q36_GIB) = 17179869183" "unat Q36_GIB = 2 ^ 30"
    by (simp_all add: Q36_GIB_def unat_div unsigned_minus_1_eq_mask mask_eq_exp_minus_1)
  have "unat (word_of_nat v :: u64) = v"
    using d(4) unfolding q by (intro unat_word_of_nat_small) simp
  then have "unat b = v * 2 ^ 30"
    using d(4) unfolding d(5) q by (simp add: unat_word_ariths q)
  then show ?thesis
    using d(1-3) by (intro exI [of _ digits]) (auto simp: digits_def v_def)
qed

section \<open>Properties\<close>

text \<open>
  The automatic plan never asks for more than the percentage of the recommended memory, nor
  than the model's limit; the cache is what is left after the resident weights; at least one expert
  is cached and no more than the model has; and the bytes it reports are those of its experts, with
  no overflow, within the cache (or one expert, when the cache is smaller than that).
\<close>

theorem ssd_plan_bounds:
  assumes "q36_ssd_auto_cache_plan r p limit non per maxe = Some pl"
  shows "unat (pl_model_target_bytes pl) \<le> unat r * unat p div 100 \<and>
    (limit = 0 \<or> pl_model_target_bytes pl \<le> limit) \<and>
    unat (pl_cache_bytes pl) = unat (pl_model_target_bytes pl) - unat non \<and> 0 < pl_cache_experts pl \<and>
    (maxe = 0 \<or> unat (pl_cache_experts pl) \<le> unat maxe) \<and>
    unat (pl_effective_cache_bytes pl) = unat (pl_cache_experts pl) * unat per \<and>
    unat (pl_effective_cache_bytes pl) \<le> max (unat (pl_cache_bytes pl)) (unat per)"
  using plan_bounds [OF assms] by blast

theorem ssd_plan_bounds_witness:
  "\<exists>pl. q36_ssd_auto_cache_plan 1000 80 0 300 50 4 = Some pl \<and> pl_cache_experts pl = 4 \<and>
     unat (pl_model_target_bytes pl) \<le> 800 \<and> unat (pl_effective_cache_bytes pl) = 4 * 50"
proof -
  have "q36_ssd_auto_cache_plan 1000 80 0 300 50 4 = Some \<lparr> pl_model_target_bytes = 800, pl_cache_bytes = 500,
      pl_effective_cache_bytes = 200, pl_cache_experts = 4 \<rparr>"
    by code_simp
  then obtain pl where pl: "q36_ssd_auto_cache_plan 1000 80 0 300 50 4 = Some pl" "pl_cache_experts pl = 4"
    by simp
  from ssd_plan_bounds [OF pl(1)] pl show ?thesis by simp
qed

text \<open>
  The simulated-memory lock is all or nothing: a failure at any chunk leaves nothing mapped or
  locked, a success leaves exactly the bytes asked for mapped and locked, and the release gives all
  of it back.
\<close>

theorem ssd_lock_balanced:
  assumes "q36_ssd_memory_lock_acquire page mmap mlock n = (ok, held, calls)"
  shows "mem_balance calls = (int held, int held) \<and> held = (if ok then n else 0) \<and>
    mem_balance (calls @ snd (q36_ssd_memory_lock_release held)) = (0, 0)"
  using lock_balance [OF assms] .

theorem ssd_lock_balanced_witness:
  "\<exists>ok held calls. q36_ssd_memory_lock_acquire 4096 True (\<lambda>off. off = 0) 300000000 = (ok, held, calls) \<and>
     ok = False \<and> mem_balance calls = (0, 0)"
proof -
  obtain ok held calls where c: "q36_ssd_memory_lock_acquire 4096 True (\<lambda>off. off = 0) 300000000 = (ok, held, calls)"
    by (metis prod_cases3)
  moreover have "\<not> ok"
    using c by (auto simp: q36_ssd_memory_lock_acquire_def lock_loop.simps lock_chunk_def split: prod.splits bool.splits)
  ultimately show ?thesis using ssd_lock_balanced [OF c] by auto
qed

text \<open>
  A size in GiB that is accepted is a decimal number, with or without its two-letter suffix, and
  the result is that number of GiB without overflow; zero is refused.
\<close>

theorem parse_gib_exact:
  assumes "q36_parse_gib_arg s = Some b"
  shows "\<exists>digits. (s = digits \<or> s = digits @ drop (length s - 2) s \<and> gib_suffix s) \<and> digits \<noteq> [] \<and>
    list_all isdigit digits \<and> unat b = foldl dec_step 0 digits * 2 ^ 30 \<and> 0 < unat b"
  using gib_value [OF assms] .

theorem parse_gib_exact_witness:
  "q36_parse_gib_arg (str ''12gB'') = Some (12 * Q36_GIB) \<and>
   (\<exists>digits. digits \<noteq> [] \<and> unat (12 * Q36_GIB) = foldl dec_step 0 digits * 2 ^ 30)"
proof -
  have "q36_parse_gib_arg (str ''12gB'') = Some (12 * Q36_GIB)"
    by (simp add: q36_parse_gib_arg_def gib_suffix_def strtoull_digits_def dec_step_def isdigit_def lit_simps
        Q36_GIB_def unat_div unsigned_minus_1_eq_mask mask_eq_exp_minus_1)
  then show ?thesis using parse_gib_exact by blast
qed

end
