(* ===== verification/Json.thy ===== *)
theory Json
  imports Prelude "HOL-Library.Monad_Syntax"
begin

text \<open>
  The JSON reader and writer of \<^verbatim>\<open>q36_server.c\<close> (\<^verbatim>\<open>json_ws\<close> to \<^verbatim>\<open>json_raw_value_is_complete\<close>,
  \<^verbatim>\<open>json_escape\<close>, \<^verbatim>\<open>json_args_parse\<close> and what prints arguments back).  A parser takes the text from
  its pointer on and gives the rest of it; \<open>None\<close> is \<^verbatim>\<open>false\<close>, where the C code leaves the pointer
  behind.  A growing \<^verbatim>\<open>buf\<close> is the list of its bytes.
\<close>

section \<open>Strings\<close>

definition json_ws :: "bytes \<Rightarrow> bytes" where
  "json_ws p = dropWhile isspace p"

definition json_lit :: "bytes \<Rightarrow> bytes \<Rightarrow> bytes option" where
  "json_lit p lit = (if starts_with lit p then Some (drop (length lit) p) else None)"

definition json_hex :: "u8 \<Rightarrow> int" where
  "json_hex c =
     (if 48 \<le> c \<and> c \<le> 57 then uint (c - 48)
      else if 97 \<le> c \<and> c \<le> 102 then 10 + uint (c - 97)
      else if 65 \<le> c \<and> c \<le> 70 then 10 + uint (c - 65)
      else - 1)"

definition utf8_put_server :: "u32 \<Rightarrow> bytes" where
  "utf8_put_server cp =
     (let cp = (if cp > 0x10ffff \<or> (cp \<ge> 0xd800 \<and> cp \<le> 0xdfff) then 0xfffd else cp)
      in if cp \<le> 0x7f then [ucast cp]
         else if cp \<le> 0x7ff then [ucast (0xc0 OR drop_bit 6 cp), ucast (0x80 OR (cp AND 0x3f))]
         else if cp \<le> 0xffff then
           [ucast (0xe0 OR drop_bit 12 cp), ucast (0x80 OR (drop_bit 6 cp AND 0x3f)), ucast (0x80 OR (cp AND 0x3f))]
         else
           [ucast (0xf0 OR drop_bit 18 cp), ucast (0x80 OR (drop_bit 12 cp AND 0x3f)),
            ucast (0x80 OR (drop_bit 6 cp AND 0x3f)), ucast (0x80 OR (cp AND 0x3f))])"

fun json_u16_digits :: "nat \<Rightarrow> bytes \<Rightarrow> u32 \<Rightarrow> (u32 \<times> bytes) option" where
  "json_u16_digits 0 p cp = Some (cp, p)"
| "json_u16_digits (Suc n) p cp =
     (let h = json_hex (peek p) in if h < 0 then None else json_u16_digits n (tl p) (push_bit 4 cp OR word_of_int h))"

definition json_u16 :: "bytes \<Rightarrow> (u32 \<times> bytes) option" where
  "json_u16 p =
     (if peek p \<noteq> 92 \<or> peek (tl p) \<noteq> 117 then None else json_u16_digits 4 (drop 2 p) 0)"

text \<open>The bytes of a simple escape.\<close>

definition json_simple_escape :: "u8 \<Rightarrow> u8 option" where
  "json_simple_escape c =
     (if c = 34 then Some 34 else if c = 92 then Some 92 else if c = 47 then Some 47 else if c = 98 then Some 8
      else if c = 102 then Some 12 else if c = 110 then Some 10 else if c = 114 then Some 13
      else if c = 116 then Some 9 else None)"

text \<open>An escaped code point at a backslash, with the low half of a surrogate pair.\<close>

definition json_unicode_escape :: "bytes \<Rightarrow> (bytes \<times> bytes) option" where
  "json_unicode_escape p =
     (case json_u16 p of
        None \<Rightarrow> None
      | Some (cp, p) \<Rightarrow>
          if 0xd800 \<le> cp \<and> cp \<le> 0xdbff then
            (case json_u16 p of
               Some (lo, q) \<Rightarrow>
                 if 0xdc00 \<le> lo \<and> lo \<le> 0xdfff
                 then Some (utf8_put_server (0x10000 + push_bit 10 (cp - 0xd800) + (lo - 0xdc00)), q)
                 else Some (utf8_put_server 0xfffd, p)
             | None \<Rightarrow> Some (utf8_put_server 0xfffd, p))
          else Some (utf8_put_server cp, p))"

lemma json_u16_digits_shorter: "json_u16_digits n p cp = Some (v, q) \<Longrightarrow> length q \<le> length p"
  by (induction n p cp rule: json_u16_digits.induct) (auto simp: Let_def split: if_splits)

lemma json_u16_shorter: "json_u16 p = Some (v, q) \<Longrightarrow> length q < length p"
proof -
  assume a: "json_u16 p = Some (v, q)"
  then have "p \<noteq> []" by (auto simp: json_u16_def)
  moreover have "length q \<le> length (drop 2 p)"
    using a json_u16_digits_shorter [of 4 "drop 2 p" 0 v q] by (simp add: json_u16_def split: if_splits)
  ultimately show ?thesis by (cases p) auto
qed

lemma json_unicode_shorter: "json_unicode_escape p = Some (v, q) \<Longrightarrow> length q < length p"
  by (auto simp: json_unicode_escape_def split: option.splits if_splits dest!: json_u16_shorter)

function json_string_body :: "bytes \<Rightarrow> bytes \<Rightarrow> (bytes \<times> bytes) option" where
  "json_string_body p b =
     (case p of
        [] \<Rightarrow> None
      | c # r \<Rightarrow>
          if c = 34 then Some (b, r)
          else if c \<noteq> 92 then json_string_body r (b @ [c])
          else if r \<noteq> [] \<and> hd r = 117 then
            (case json_unicode_escape p of
               None \<Rightarrow> None
             | Some (bs, q) \<Rightarrow> json_string_body q (b @ bs))
          else
            (case json_simple_escape (peek r) of
               None \<Rightarrow> None
             | Some e \<Rightarrow> json_string_body (tl r) (b @ [e])))"
  by pat_completeness auto
termination
  by (relation "measure (\<lambda>(p, b). length p)") (auto dest: json_unicode_shorter)

declare json_string_body.simps [simp del]

text \<open>
  The result is a C string: an escaped NUL in it ends it for every reader of the pointer.
\<close>

definition c_str :: "bytes \<Rightarrow> bytes" where
  "c_str b = takeWhile (\<lambda>c. c \<noteq> 0) b"

lemma c_str_id [simp]: "0 \<notin> set s \<Longrightarrow> c_str s = s"
  unfolding c_str_def by (rule takeWhile_eq_all_conv [THEN iffD2]) auto

lemma c_str_no_nul: "0 \<notin> set (c_str s)"
  by (auto simp: c_str_def dest: set_takeWhileD)

definition json_string :: "bytes \<Rightarrow> (bytes \<times> bytes) option" where
  "json_string p =
     (let p = json_ws p
      in if peek p \<noteq> 34 then None
         else map_option (\<lambda>(b, q). (c_str b, q)) (json_string_body (tl p) []))"

lemma json_ws_shorter: "length (json_ws p) \<le> length p"
  by (simp add: json_ws_def length_dropWhile_le)

lemma json_string_body_cases:
  assumes "json_string_body p b = Some (v, q)"
  obtains (stop) "p = 34 # q" "v = b"
  | (plain) c r where "p = c # r" "c \<noteq> 34" "c \<noteq> 92" "json_string_body r (b @ [c]) = Some (v, q)"
  | (unicode) bs r where "json_unicode_escape p = Some (bs, r)" "json_string_body r (b @ bs) = Some (v, q)"
  | (simple) r e where "p = 92 # r" "json_simple_escape (peek r) = Some e" "json_string_body (tl r) (b @ [e]) = Some (v, q)"
proof -
  have e: "(case p of
        [] \<Rightarrow> None
      | c # r \<Rightarrow>
          if c = 34 then Some (b, r)
          else if c \<noteq> 92 then json_string_body r (b @ [c])
          else if r \<noteq> [] \<and> hd r = 117 then
            (case json_unicode_escape p of
               None \<Rightarrow> None
             | Some (bs, q) \<Rightarrow> json_string_body q (b @ bs))
          else
            (case json_simple_escape (peek r) of
               None \<Rightarrow> None
             | Some e \<Rightarrow> json_string_body (tl r) (b @ [e]))) = Some (v, q)"
    using assms by (subst (asm) json_string_body.simps)
  then obtain c r where p: "p = c # r" by (cases p) auto
  consider "c = 34" | "c \<noteq> 34" "c \<noteq> 92" | "c = 92" "r \<noteq> [] \<and> hd r = 117" | "c = 92" "\<not> (r \<noteq> [] \<and> hd r = 117)" by blast
  then show thesis
  proof cases
    case 1
    then show thesis using e p stop by simp
  next
    case 2
    then show thesis using e p plain by simp
  next
    case 3
    then show thesis using e p unicode by (auto split: option.splits)
  next
    case 4
    then show thesis using e p simple by (auto split: option.splits)
  qed
qed

lemma json_string_body_shorter: "json_string_body p b = Some (v, q) \<Longrightarrow> length q < length p"
proof (induction "length p" arbitrary: p b rule: less_induct)
  case less
  from less.prems show ?case
  proof (cases rule: json_string_body_cases)
    case (plain c r)
    then show ?thesis using less.hyps [of r "b @ [c]"] by simp
  next
    case (unicode bs r)
    then have "length r < length p" using json_unicode_shorter by blast
    then show ?thesis using less.hyps [OF _ unicode(2)] by simp
  next
    case (simple r e)
    then have "length (tl r) < length p" by simp
    from less.hyps [OF this simple(3)] this show ?thesis by simp
  qed simp
qed

lemma json_string_shorter: "json_string p = Some (v, q) \<Longrightarrow> length q < length p"
proof -
  assume "json_string p = Some (v, q)"
  then obtain b where "json_string_body (tl (json_ws p)) [] = Some (b, q)"
    by (auto simp: json_string_def Let_def split: if_splits)
  then have "length q < length (tl (json_ws p))" by (rule json_string_body_shorter)
  then show ?thesis using json_ws_shorter [of p] by simp
qed

section \<open>Numbers\<close>

text \<open>
  What \<^verbatim>\<open>strtod\<close> reads in the C locale: a sign, a decimal or hexadecimal number with an optional
  fraction and exponent.  The result is the rest of the text and the magnitude \<open>m * base ^ e\<close>.
  Infinities and NaNs are not finite, so \<^verbatim>\<open>json_number\<close> refuses them like a text without a number.
\<close>

definition digits_value :: "nat \<Rightarrow> (u8 \<Rightarrow> nat) \<Rightarrow> bytes \<Rightarrow> nat" where
  "digits_value base dig ds = foldl (\<lambda>a c. a * base + dig c) 0 ds"

definition dec_digit :: "u8 \<Rightarrow> nat" where
  "dec_digit c = unat (c - 48)"

definition float_hex_digit :: "u8 \<Rightarrow> nat" where
  "float_hex_digit c = nat (json_hex c)"

text \<open>An exponent counts only with a digit in it.\<close>

definition scan_exponent :: "u8 \<Rightarrow> bytes \<Rightarrow> int \<times> bytes" where
  "scan_exponent ch r =
     (if r \<noteq> [] \<and> tolower (hd r) = ch then
        let t = tl r;
            sg = (peek t = 45);
            t = (if peek t = 43 \<or> peek t = 45 then tl t else t);
            ds = takeWhile isdigit t
        in if ds = [] then (0, r)
           else ((if sg then - 1 else 1) * int (digits_value 10 dec_digit ds), dropWhile isdigit t)
      else (0, r))"

definition scan_mantissa :: "(u8 \<Rightarrow> bool) \<Rightarrow> bytes \<Rightarrow> (bytes \<times> bytes \<times> bytes) option" where
  "scan_mantissa isd s =
     (let ip = takeWhile isd s; r = dropWhile isd s;
          fp = (if peek r = 46 then takeWhile isd (tl r) else []);
          r' = (if peek r = 46 then dropWhile isd (tl r) else r)
      in if ip = [] \<and> fp = [] then None else Some (ip, fp, r'))"

definition strtod_scan :: "bytes \<Rightarrow> (nat \<times> nat \<times> int \<times> bytes) option" where
  "strtod_scan s =
     (let s = dropWhile isspace s;
          s = (if peek s = 43 \<or> peek s = 45 then tl s else s);
          hex = (if peek s = 48 \<and> tl s \<noteq> [] \<and> tolower (hd (tl s)) = 120 then scan_mantissa isxdigit (drop 2 s) else None)
      in case hex of
           Some (ip, fp, r) \<Rightarrow>
             (case scan_exponent 112 r of
                (e, r) \<Rightarrow> Some (digits_value 16 float_hex_digit (ip @ fp), 2, e - 4 * int (length fp), r))
         | None \<Rightarrow>
             (case scan_mantissa isdigit s of
                None \<Rightarrow> None
              | Some (ip, fp, r) \<Rightarrow>
                  (case scan_exponent 101 r of
                     (e, r) \<Rightarrow> Some (digits_value 10 dec_digit (ip @ fp), 10, e - int (length fp), r))))"

text \<open>A double is finite below the half-way point to \<open>2 ^ 1024\<close>.\<close>

definition double_finite :: "nat \<Rightarrow> nat \<Rightarrow> int \<Rightarrow> bool" where
  "double_finite m base e \<longleftrightarrow>
     (if m = 0 then True
      else if 0 \<le> e then m * base ^ nat e < 2 ^ 1024 - 2 ^ 970
      else m < (2 ^ 1024 - 2 ^ 970) * base ^ nat (- e))"

definition json_number :: "bytes \<Rightarrow> bytes option" where
  "json_number p =
     (case strtod_scan (json_ws p) of
        None \<Rightarrow> None
      | Some (m, base, e, r) \<Rightarrow> if double_finite m base e then Some r else None)"

definition json_bool :: "bytes \<Rightarrow> (bool \<times> bytes) option" where
  "json_bool p =
     (let p = json_ws p
      in case json_lit p (str ''true'') of
           Some r \<Rightarrow> Some (True, r)
         | None \<Rightarrow> (case json_lit p (str ''false'') of Some r \<Rightarrow> Some (False, r) | None \<Rightarrow> None))"

lemma scan_exponent_shorter: "scan_exponent ch r = (e, q) \<Longrightarrow> length q \<le> length r"
  using length_dropWhile_le [of isdigit "tl r"] length_dropWhile_le [of isdigit "tl (tl r)"]
  by (auto simp: scan_exponent_def Let_def split: if_splits)

lemma scan_mantissa_shorter: "scan_mantissa isd s = Some (ip, fp, q) \<Longrightarrow> length q < length s"
proof -
  assume a: "scan_mantissa isd s = Some (ip, fp, q)"
  have s: "length (takeWhile isd s) + length (dropWhile isd s) = length s" by (metis length_append takeWhile_dropWhile_id)
  show ?thesis
  proof (cases "peek (dropWhile isd s) = 46")
    case True
    then obtain r where r: "dropWhile isd s = 46 # r" by (cases "dropWhile isd s") auto
    then have "q = dropWhile isd r" using a by (auto simp: scan_mantissa_def Let_def split: if_splits)
    then show ?thesis using s r length_dropWhile_le [of isd r] by simp
  next
    case False
    then have "q = dropWhile isd s" "takeWhile isd s \<noteq> []" using a by (auto simp: scan_mantissa_def Let_def split: if_splits)
    then show ?thesis using s by (cases "takeWhile isd s") auto
  qed
qed

lemma strtod_scan_shorter: "strtod_scan s = Some (m, base, e, q) \<Longrightarrow> length q < length s"
proof -
  assume a: "strtod_scan s = Some (m, base, e, q)"
  define s1 where "s1 = dropWhile isspace s"
  define s2 where "s2 = (if peek s1 = 43 \<or> peek s1 = 45 then tl s1 else s1)"
  have l: "length s2 \<le> length s" using length_dropWhile_le [of isspace s] by (auto simp: s2_def s1_def)
  note a' = a [unfolded strtod_scan_def Let_def, folded s1_def, folded s2_def]
  have "length q < length s2"
  proof (cases "if peek s2 = 48 \<and> tl s2 \<noteq> [] \<and> tolower (hd (tl s2)) = 120 then scan_mantissa isxdigit (drop 2 s2) else None")
    case None
    then obtain ip fp r where "scan_mantissa isdigit s2 = Some (ip, fp, r)" "scan_exponent 101 r = (e + int (length fp), q)"
      using a' by (auto split: option.splits prod.splits)
    then show ?thesis using scan_mantissa_shorter scan_exponent_shorter le_less_trans by blast
  next
    case (Some x)
    then obtain ip fp r where x: "scan_mantissa isxdigit (drop 2 s2) = Some (ip, fp, r)" "x = (ip, fp, r)"
      by (cases x) (auto split: if_splits)
    then have "\<exists>e. scan_exponent 112 r = (e, q)" using a' Some by (auto split: prod.splits)
    then have "length q \<le> length r" using scan_exponent_shorter by blast
    also have "\<dots> < length (drop 2 s2)" by (rule scan_mantissa_shorter [OF x(1)])
    finally show ?thesis by simp
  qed
  with l show ?thesis by simp
qed

lemma json_number_shorter: "json_number p = Some q \<Longrightarrow> length q < length p"
  using json_ws_shorter [of p]
  by (auto simp: json_number_def split: option.splits if_splits dest!: strtod_scan_shorter)

lemma json_lit_shorter: "json_lit p l = Some q \<Longrightarrow> l \<noteq> [] \<Longrightarrow> length q < length p"
  by (cases l) (auto simp: json_lit_def starts_with_def split: if_splits)

section \<open>Skipping a value\<close>

definition JSON_MAX_NESTING :: nat where "JSON_MAX_NESTING = 256"

lemma json_ws_less: "length (json_ws p) \<noteq> length p \<Longrightarrow> length (json_ws p) < length p"
  using json_ws_shorter [of p] by simp

lemma json_after: "length q < n \<Longrightarrow> length (json_ws q) - Suc 0 < n"
  using json_ws_shorter [of q] by simp

lemma json_string_after: "json_string p = Some (a, q) \<Longrightarrow> length (json_ws q) - Suc 0 < length p"
  by (rule json_after) (rule json_string_shorter)

lemma json_inside: "peek (json_ws p) = c \<Longrightarrow> c \<noteq> 0 \<Longrightarrow> length (json_ws (tl (json_ws p))) < length p"
proof -
  assume "peek (json_ws p) = c" "c \<noteq> 0"
  then have "json_ws p \<noteq> []" by auto
  then have "length (tl (json_ws p)) < length (json_ws p)" by (cases "json_ws p") auto
  then show ?thesis using json_ws_shorter [of p] json_ws_shorter [of "tl (json_ws p)"] by linarith
qed

text \<open>
  The four functions call each other; the loops over array items and object members are functions of
  their own.  The test that a skipped value is not empty, which lets each of them be total, always
  holds (\<open>json_skip_shorter\<close>).
\<close>

function json_skip_value_depth :: "bytes \<Rightarrow> nat \<Rightarrow> bytes option"
  and json_skip_array_depth :: "bytes \<Rightarrow> nat \<Rightarrow> bytes option"
  and json_skip_object_depth :: "bytes \<Rightarrow> nat \<Rightarrow> bytes option"
  and json_skip_items :: "bytes \<Rightarrow> nat \<Rightarrow> bytes option"
  and json_skip_members :: "bytes \<Rightarrow> nat \<Rightarrow> bytes option" where
  "json_skip_value_depth p depth =
     (if peek (json_ws p) = 34 then map_option snd (json_string (json_ws p))
      else if peek (json_ws p) = 123 then json_skip_object_depth (json_ws p) depth
      else if peek (json_ws p) = 91 then json_skip_array_depth (json_ws p) depth
      else case json_lit (json_ws p) (str ''true'') of Some r \<Rightarrow> Some r
        | None \<Rightarrow> (case json_lit (json_ws p) (str ''false'') of Some r \<Rightarrow> Some r
        | None \<Rightarrow> (case json_lit (json_ws p) (str ''null'') of Some r \<Rightarrow> Some r
        | None \<Rightarrow> json_number (json_ws p))))"
| "json_skip_array_depth p depth =
     (if depth \<ge> JSON_MAX_NESTING \<or> peek (json_ws p) \<noteq> 91 then None
      else if peek (json_ws (tl (json_ws p))) = 93 then Some (tl (json_ws (tl (json_ws p))))
      else json_skip_items (json_ws (tl (json_ws p))) depth)"
| "json_skip_object_depth p depth =
     (if depth \<ge> JSON_MAX_NESTING \<or> peek (json_ws p) \<noteq> 123 then None
      else if peek (json_ws (tl (json_ws p))) = 125 then Some (tl (json_ws (tl (json_ws p))))
      else json_skip_members (json_ws (tl (json_ws p))) depth)"
| "json_skip_items p depth =
     (case json_skip_value_depth p (depth + 1) of
        None \<Rightarrow> None
      | Some q \<Rightarrow>
          if peek (json_ws q) = 93 then Some (tl (json_ws q))
          else if peek (json_ws q) \<noteq> 44 then None
          else if length q < length p then json_skip_items (tl (json_ws q)) depth
          else None)"
| "json_skip_members p depth =
     (case json_string p of
        None \<Rightarrow> None
      | Some (key, q) \<Rightarrow>
          if peek (json_ws q) \<noteq> 58 then None
          else
            (case json_skip_value_depth (tl (json_ws q)) (depth + 1) of
               None \<Rightarrow> None
             | Some t \<Rightarrow>
                 if peek (json_ws t) = 125 then Some (tl (json_ws t))
                 else if peek (json_ws t) \<noteq> 44 then None
                 else if length t < length p then json_skip_members (tl (json_ws t)) depth
                 else None))"
  by pat_completeness auto
termination
  by (relation "measures [case_sum (case_sum (length \<circ> fst) (length \<circ> fst)) (case_sum (length \<circ> fst) (case_sum (length \<circ> fst) (length \<circ> fst))),
      case_sum (case_sum (\<lambda>_. 2) (\<lambda>_. 1)) (case_sum (\<lambda>_. 1) (case_sum (\<lambda>_. 3) (\<lambda>_. 3)))]")
    (auto simp: le_less intro: json_inside json_after json_string_after json_ws_less)

declare json_skip_value_depth.simps [simp del] json_skip_array_depth.simps [simp del] json_skip_object_depth.simps [simp del]
  json_skip_items.simps [simp del] json_skip_members.simps [simp del]

definition json_skip_value :: "bytes \<Rightarrow> bytes option" where
  "json_skip_value p = json_skip_value_depth p 0"

definition json_raw_value :: "bytes \<Rightarrow> (bytes \<times> bytes) option" where
  "json_raw_value p =
     (let start = json_ws p
      in case json_skip_value start of
           None \<Rightarrow> None
         | Some q \<Rightarrow> Some (take (length start - length q) start, q))"

fun minify_loop :: "bytes \<Rightarrow> bool \<Rightarrow> bool \<Rightarrow> bytes" where
  "minify_loop [] in_string escape = []"
| "minify_loop (c # s) in_string escape =
     (if in_string then
        c # (if escape then minify_loop s True False
             else if c = 92 then minify_loop s True True
             else if c = 34 then minify_loop s False False
             else minify_loop s True False)
      else if c = 34 then c # minify_loop s True escape
      else if \<not> isspace c then c # minify_loop s False escape
      else minify_loop s False escape)"

definition json_minify_raw_value :: "bytes option \<Rightarrow> bytes" where
  "json_minify_raw_value json =
     (let start = json_ws (case json of Some j \<Rightarrow> j | None \<Rightarrow> str ''null'')
      in case json_skip_value start of
           None \<Rightarrow> (case json of Some j \<Rightarrow> j | None \<Rightarrow> str ''null'')
         | Some q \<Rightarrow> minify_loop (take (length start - length q) start) False False)"

definition json_raw_value_is_complete :: "bytes option \<Rightarrow> bool" where
  "json_raw_value_is_complete json =
     (case json_skip_value (json_ws (case json of Some j \<Rightarrow> j | None \<Rightarrow> [])) of
        None \<Rightarrow> False
      | Some q \<Rightarrow> json_ws q = [])"

section \<open>Writing\<close>

definition hex_char :: "u8 \<Rightarrow> u8" where
  "hex_char n = (if n < 10 then 48 + n else 87 + n)"

definition json_escape_char :: "u8 \<Rightarrow> bytes" where
  "json_escape_char c =
     (if c = 34 \<or> c = 92 then [92, c]
      else if c = 10 then [92, 110]
      else if c = 13 then [92, 114]
      else if c = 9 then [92, 116]
      else if c < 32 then [92, 117, 48, 48, hex_char (drop_bit 4 c), hex_char (c AND 15)]
      else [c])"

definition json_escape :: "bytes \<Rightarrow> bytes" where
  "json_escape s = [34] @ concat (map json_escape_char s) @ [34]"

definition json_escape_n :: "bytes \<Rightarrow> nat \<Rightarrow> bytes" where
  "json_escape_n s n = json_escape (c_str (take n s))"

definition json_escape_fragment_n :: "bytes \<Rightarrow> nat \<Rightarrow> bytes" where
  "json_escape_fragment_n s n = concat (map json_escape_char (take n s))"

section \<open>Facts of the reader\<close>

lemma str_ne: "str s = [] \<longleftrightarrow> s = []"
  by (simp add: str_def)

lemma json_skip_shorter:
  "json_skip_value_depth p depth = Some q \<Longrightarrow> length q < length p"
  "json_skip_array_depth p depth = Some q \<Longrightarrow> length q < length p"
  "json_skip_object_depth p depth = Some q \<Longrightarrow> length q < length p"
  "json_skip_items p depth = Some q \<Longrightarrow> length q < length p"
  "json_skip_members p depth = Some q \<Longrightarrow> length q < length p"
proof (induction p depth and p depth and p depth and p depth and p depth arbitrary: q and q and q and q and q
    rule: json_skip_value_depth_json_skip_array_depth_json_skip_object_depth_json_skip_items_json_skip_members.induct)
  case (1 p depth)
  have "length q < length (json_ws p)"
    using "1.prems" "1.IH"
    by (subst (asm) json_skip_value_depth.simps)
      (auto simp: str_ne split: if_splits option.splits dest!: json_string_shorter json_number_shorter json_lit_shorter)
  then show ?case using json_ws_shorter [of p] by linarith
next
  case (2 p depth)
  have e: "json_skip_array_depth p depth = Some q" by (rule "2.prems")
  then have b: "peek (json_ws p) = 91" by (subst (asm) json_skip_array_depth.simps) (auto split: if_splits)
  note i = json_inside [OF b, simplified]
  show ?case
  proof (cases "peek (json_ws (tl (json_ws p))) = 93")
    case True
    then show ?thesis using e i by (subst (asm) json_skip_array_depth.simps) (auto split: if_splits)
  next
    case False
    then have "length q < length (json_ws (tl (json_ws p)))"
      using e "2.IH" by (subst (asm) json_skip_array_depth.simps) (auto split: if_splits)
    with i show ?thesis by linarith
  qed
next
  case (3 p depth)
  have e: "json_skip_object_depth p depth = Some q" by (rule "3.prems")
  then have b: "peek (json_ws p) = 123" by (subst (asm) json_skip_object_depth.simps) (auto split: if_splits)
  note i = json_inside [OF b, simplified]
  show ?case
  proof (cases "peek (json_ws (tl (json_ws p))) = 125")
    case True
    then show ?thesis using e i by (subst (asm) json_skip_object_depth.simps) (auto split: if_splits)
  next
    case False
    then have "length q < length (json_ws (tl (json_ws p)))"
      using e "3.IH" by (subst (asm) json_skip_object_depth.simps) (auto split: if_splits)
    with i show ?thesis by linarith
  qed
next
  case (4 p depth)
  obtain r where r: "json_skip_value_depth p (depth + 1) = Some r"
    "(if peek (json_ws r) = 93 then Some (tl (json_ws r))
      else if peek (json_ws r) \<noteq> 44 then None
      else if length r < length p then json_skip_items (tl (json_ws r)) depth
      else None) = Some q"
    using "4.prems" by (subst (asm) json_skip_items.simps) (auto split: option.splits)
  have l: "length r < length p" by (rule "4.IH"(1) [OF r(1)])
  have w: "length (tl (json_ws r)) < length p" using json_after [OF l] by simp
  show ?case
  proof (cases "peek (json_ws r) = 93")
    case True
    then show ?thesis using r(2) w by simp
  next
    case False
    then have "length q < length (tl (json_ws r))"
      using r "4.IH"(2) [OF r(1) False] by (auto split: if_splits)
    with w show ?thesis by linarith
  qed
next
  case (5 p depth)
  obtain key s t where r: "json_string p = Some (key, s)" "peek (json_ws s) = 58"
    "json_skip_value_depth (tl (json_ws s)) (depth + 1) = Some t"
    "(if peek (json_ws t) = 125 then Some (tl (json_ws t))
      else if peek (json_ws t) \<noteq> 44 then None
      else if length t < length p then json_skip_members (tl (json_ws t)) depth
      else None) = Some q"
    using "5.prems" by (subst (asm) json_skip_members.simps) (auto split: option.splits if_splits)
  have "length t < length (tl (json_ws s))" using "5.IH"(1) r(1-3) by auto
  then have l: "length t < length p" using json_string_after [OF r(1)] by simp
  have w: "length (tl (json_ws t)) < length p" using json_after [OF l] by simp
  show ?case
  proof (cases "peek (json_ws t) = 125")
    case True
    then show ?thesis using r(4) w by simp
  next
    case False
    then have "length q < length (tl (json_ws t))"
      using r(4) "5.IH"(2) r(1-3) by (auto split: if_splits)
    with w show ?thesis by linarith
  qed
qed

text \<open>An escaped string is read back.\<close>

lemma json_u16_control: "c < 32 \<Longrightarrow>
    json_unicode_escape (92 # 117 # 48 # 48 # hex_char (drop_bit 4 c) # hex_char (c AND 15) # r) = Some ([c], r)"
proof -
  assume c: "c < 32"
  define ok where "ok c \<longleftrightarrow> json_hex (hex_char (drop_bit 4 c)) \<ge> 0 \<and> json_hex (hex_char (c AND 15)) \<ge> 0 \<and>
    push_bit 4 (push_bit 4 (push_bit 4 (push_bit 4 0 OR word_of_int (json_hex 48)) OR word_of_int (json_hex 48)) OR
       word_of_int (json_hex (hex_char (drop_bit 4 c)))) OR word_of_int (json_hex (hex_char (c AND 15))) = (ucast c :: u32)" for c :: u8
  have "list_all (\<lambda>n. ok (word_of_nat n)) [0..<32]" unfolding ok_def by code_simp
  moreover have "c = word_of_nat (unat c)" "unat c < 32" using c by (simp_all add: word_less_nat_alt)
  ultimately have k: "ok c" by (metis (no_types, lifting) list_all_iff atLeastLessThan_iff set_upt zero_le)
  have u: "json_u16 (92 # 117 # 48 # 48 # hex_char (drop_bit 4 c) # hex_char (c AND 15) # r) = Some (ucast c, r)"
  proof -
    have four: "(4 :: nat) = Suc (Suc (Suc (Suc 0)))" by simp
    have zero: "json_hex 48 = 0" by code_simp
    show ?thesis
      using k unfolding json_u16_def ok_def by (simp add: four zero Let_def not_less del: push_bit_eq_mult)
  qed
  have n: "unat (ucast c :: u32) = unat c" by (simp add: unat_ucast_up)
  have "\<not> (0xd800 \<le> (ucast c :: u32))" "(ucast c :: u32) \<le> 0x7f" "\<not> (ucast c :: u32) > 0x10ffff"
    using \<open>unat c < 32\<close> by (simp_all add: word_le_nat_alt word_less_nat_alt n)
  moreover have "ucast (ucast c :: u32) = c" by (rule bit_word_eqI) (simp add: bit_simps)
  ultimately show ?thesis by (simp add: json_unicode_escape_def u utf8_put_server_def Let_def)
qed

lemma json_string_body_char: "json_string_body (json_escape_char c @ r) b = json_string_body r (b @ [c])"
proof -
  consider "c = 34 \<or> c = 92 \<or> c = 10 \<or> c = 13 \<or> c = 9"
    | "\<not> (c = 34 \<or> c = 92 \<or> c = 10 \<or> c = 13 \<or> c = 9)" "c < 32"
    | "\<not> (c = 34 \<or> c = 92 \<or> c = 10 \<or> c = 13 \<or> c = 9)" "\<not> c < 32" by blast
  then show ?thesis
  proof cases
    case 1
    then show ?thesis
      by (elim disjE) (subst json_string_body.simps, simp add: json_escape_char_def json_simple_escape_def)+
  next
    case 2
    then show ?thesis
      by (subst json_string_body.simps) (simp add: json_escape_char_def json_u16_control)
  next
    case 3
    then show ?thesis
      by (subst json_string_body.simps) (simp add: json_escape_char_def)
  qed
qed

lemma json_string_body_escape:
  "json_string_body (concat (map json_escape_char s) @ 34 # r) b = Some (b @ s, r)"
proof (induction s arbitrary: b)
  case Nil
  show ?case by (subst json_string_body.simps) simp
next
  case (Cons c s)
  then show ?case by (simp add: json_string_body_char)
qed

lemma json_string_escape: "0 \<notin> set s \<Longrightarrow> json_string (json_escape s @ r) = Some (s, r)"
proof -
  assume "0 \<notin> set s"
  moreover
  have "json_ws (json_escape s @ r) = json_escape s @ r" by (simp add: json_ws_def json_escape_def isspace_def)
  ultimately show ?thesis by (simp add: json_string_def json_escape_def json_string_body_escape)
qed

section \<open>A value is read the same before a delimiter\<close>

text \<open>A comma or a closing bracket after a text changes nothing in how its front is read.\<close>

definition delim :: "bytes \<Rightarrow> bool" where
  "delim r \<longleftrightarrow> r \<noteq> [] \<and> hd r \<in> {44, 93, 125}"

lemma peek_append_delim: "delim r \<Longrightarrow> c \<notin> {0, 44, 93, 125} \<Longrightarrow> peek (x @ r) = c \<longleftrightarrow> peek x = c"
  by (cases x; cases r) (auto simp: delim_def)

lemma takeWhile_append_delim: "delim r \<Longrightarrow> \<not> f 44 \<Longrightarrow> \<not> f 93 \<Longrightarrow> \<not> f 125 \<Longrightarrow>
    takeWhile f (x @ r) = takeWhile f x \<and> dropWhile f (x @ r) = dropWhile f x @ r"
  by (induction x) (cases r, auto simp: delim_def)+

lemma json_ws_append_delim: "delim r \<Longrightarrow> json_ws (x @ r) = json_ws x @ r"
  unfolding json_ws_def by (rule conjunct2 [OF takeWhile_append_delim]) (simp_all add: isspace_def)

lemma json_ws_append: "json_ws x \<noteq> [] \<Longrightarrow> json_ws (x @ r) = json_ws x @ r"
  by (metis dropWhile_append1 dropWhile_eq_Nil_conv json_ws_def)

lemma not_digit_delim: "\<not> isdigit 44" "\<not> isdigit 93" "\<not> isdigit 125" "\<not> isxdigit 44" "\<not> isxdigit 93" "\<not> isxdigit 125"
  by (simp_all add: isdigit_def isxdigit_def)

lemma tl_append_peek: "peek x \<noteq> 0 \<Longrightarrow> tl (x @ r) = tl x @ r"
  by (cases x) auto

lemma scan_exponent_delim:
  assumes "delim r" "ch \<in> {101, 112}"
  shows "scan_exponent ch (x @ r) = (case scan_exponent ch x of (e, q) \<Rightarrow> (e, q @ r))"
proof (cases x)
  case Nil
  obtain d r' where r: "r = d # r'" "d \<in> {44, 93, 125}" using assms(1) by (cases r) (auto simp: delim_def)
  have "tolower d \<noteq> ch" using r(2) assms(2) by (auto simp: tolower_def)
  then show ?thesis by (simp add: Nil r scan_exponent_def)
next
  case (Cons c t)
  have p: "peek (t @ r) = 43 \<longleftrightarrow> peek t = 43" "peek (t @ r) = 45 \<longleftrightarrow> peek t = 45"
    using peek_append_delim [OF assms(1)] by simp_all
  define t' where "t' = (if peek t = 43 \<or> peek t = 45 then tl t else t)"
  have t': "(if peek (t @ r) = 43 \<or> peek (t @ r) = 45 then tl (t @ r) else t @ r) = t' @ r"
    using tl_append_peek [of t r] by (auto simp: t'_def p)
  have w: "takeWhile isdigit (t' @ r) = takeWhile isdigit t'" "dropWhile isdigit (t' @ r) = dropWhile isdigit t' @ r"
    using takeWhile_append_delim [OF assms(1), of isdigit t'] not_digit_delim by simp_all
  show ?thesis
    unfolding Cons append_Cons scan_exponent_def Let_def list.sel t'
    unfolding t'_def [symmetric] w p by simp
qed

lemma scan_mantissa_delim:
  assumes "delim r" "\<not> isd 44" "\<not> isd 93" "\<not> isd 125"
  shows "scan_mantissa isd (x @ r) = map_option (\<lambda>(ip, fp, q). (ip, fp, q @ r)) (scan_mantissa isd x)"
proof -
  note w = takeWhile_append_delim [where f = isd, OF assms]
  have p: "peek (dropWhile isd x @ r) = 46 \<longleftrightarrow> peek (dropWhile isd x) = 46"
    using peek_append_delim [OF assms(1)] by simp
  have t: "tl (dropWhile isd x @ r) = tl (dropWhile isd x) @ r" if "peek (dropWhile isd x) = 46"
    by (rule tl_append_peek) (simp add: that)
  show ?thesis using t by (simp add: scan_mantissa_def Let_def w p)
qed

lemma strtod_scan_delim:
  assumes "delim r"
  shows "strtod_scan (x @ r) = map_option (\<lambda>(m, base, e, q). (m, base, e, q @ r)) (strtod_scan x)"
proof -
  define y where "y = dropWhile isspace x"
  define z where "z = (if peek y = 43 \<or> peek y = 45 then tl y else y)"
  have y: "dropWhile isspace (x @ r) = y @ r"
    unfolding y_def using json_ws_append_delim [OF assms, of x] by (simp add: json_ws_def)
  have p: "peek (y @ r) = c \<longleftrightarrow> peek y = c" if "c \<in> {43, 45}" for c
    using peek_append_delim [OF assms] that by auto
  have z: "(if peek (y @ r) = 43 \<or> peek (y @ r) = 45 then tl (y @ r) else y @ r) = z @ r"
    using tl_append_peek [of y r] p by (auto simp: z_def)
  define hex where "hex s = (if peek s = 48 \<and> tl s \<noteq> [] \<and> tolower (hd (tl s)) = 120 then scan_mantissa isxdigit (drop 2 s) else None)" for s
  have hex: "hex (z @ r) = map_option (\<lambda>(ip, fp, q). (ip, fp, q @ r)) (hex z)"
  proof (cases z)
    case Nil
    then show ?thesis using peek_append_delim [OF assms, of 48 "[]"] by (simp add: hex_def)
  next
    case (Cons a z1)
    show ?thesis
    proof (cases z1)
      case Nil
      obtain d r' where r: "r = d # r'" "d \<in> {44, 93, 125}" using assms(1) by (cases r) (auto simp: delim_def)
      then have "tolower d \<noteq> 120" by (auto simp: tolower_def)
      then show ?thesis by (simp add: hex_def Cons Nil r)
    next
      case (Cons b z2)
      then show ?thesis
        using scan_mantissa_delim [OF assms, of isxdigit z2] not_digit_delim \<open>z = a # z1\<close> by (simp add: hex_def)
    qed
  qed
  have dec: "scan_mantissa isdigit (z @ r) = map_option (\<lambda>(ip, fp, q). (ip, fp, q @ r)) (scan_mantissa isdigit z)"
    using scan_mantissa_delim [OF assms, of isdigit z] not_digit_delim by simp
  have u: "strtod_scan s = (case hex z' of
           Some (ip, fp, r) \<Rightarrow>
             (case scan_exponent 112 r of
                (e, r) \<Rightarrow> Some (digits_value 16 float_hex_digit (ip @ fp), 2, e - 4 * int (length fp), r))
         | None \<Rightarrow>
             (case scan_mantissa isdigit z' of
                None \<Rightarrow> None
              | Some (ip, fp, r) \<Rightarrow>
                  (case scan_exponent 101 r of
                     (e, r) \<Rightarrow> Some (digits_value 10 dec_digit (ip @ fp), 10, e - int (length fp), r))))"
    if "z' = (let s = dropWhile isspace s in if peek s = 43 \<or> peek s = 45 then tl s else s)" for s z'
    unfolding that strtod_scan_def hex_def Let_def by (rule refl)
  have "strtod_scan (x @ r) = map_option (\<lambda>(m, base, e, q). (m, base, e, q @ r)) (strtod_scan x)"
    unfolding u [of "z @ r" "x @ r", unfolded Let_def y, OF z [symmetric]] u [of z x, unfolded Let_def, folded y_def, OF z_def]
    by (simp add: hex dec scan_exponent_delim [OF assms] split: option.split prod.split)
  then show ?thesis .
qed

lemma json_number_delim: "delim r \<Longrightarrow> json_number p = Some q \<Longrightarrow> json_number (p @ r) = Some (q @ r)"
  by (auto simp: json_number_def json_ws_append_delim strtod_scan_delim split: option.splits if_splits)

lemma json_u16_digits_append:
  "json_u16_digits n p cp = Some (v, q) \<Longrightarrow> json_u16_digits n (p @ r) cp = Some (v, q @ r)"
proof (induction n p cp rule: json_u16_digits.induct)
  case (2 n p cp)
  then have "peek p \<noteq> 0" by (auto simp: json_hex_def Let_def)
  then obtain c t where "p = c # t" by (cases p) auto
  with 2 show ?case by (auto simp: Let_def split: if_splits)
qed simp

lemma json_u16_append: "json_u16 p = Some (v, q) \<Longrightarrow> json_u16 (p @ r) = Some (v, q @ r)"
proof -
  assume a: "json_u16 p = Some (v, q)"
  then obtain t where p: "p = 92 # 117 # t" 
    by (cases p; cases "tl p") (auto simp: json_u16_def split: if_splits)
  then have "json_u16_digits 4 t 0 = Some (v, q)" using a by (simp add: json_u16_def)
  from json_u16_digits_append [OF this] show ?thesis by (simp add: json_u16_def p)
qed

text \<open>Four digits are enough or not, whatever follows; fewer than four stay so where a string goes on.\<close>

lemma json_u16_digits_fail:
  "json_u16_digits n p cp = None \<Longrightarrow> n \<le> length p \<Longrightarrow> json_u16_digits n (p @ r) cp = None"
proof (induction n p cp rule: json_u16_digits.induct)
  case (2 n p cp)
  then obtain c t where "p = c # t" by (cases p) auto
  with 2 show ?case by (auto simp: Let_def split: if_splits)
qed simp

lemma json_u16_digits_quote:
  "q \<in> set (take n p) \<Longrightarrow> json_hex q < 0 \<Longrightarrow> json_u16_digits n (p @ r) cp = None"
proof (induction n p cp rule: json_u16_digits.induct)
  case (2 n p cp)
  then obtain c t where p: "p = c # t" by (cases p) auto
  show ?case
  proof (cases "json_hex c < 0")
    case False
    with 2 p have "q \<in> set (take n t)" by auto
    then show ?thesis using 2 p False by (simp add: Let_def)
  qed (simp add: p Let_def)
qed simp

lemma json_u16_fail:
  assumes "json_u16 p = None" "34 \<in> set p"
  shows "json_u16 (p @ r) = None"
proof -
  have hex: "json_hex 34 < 0" by code_simp
  consider t where "p = 92 # 117 # t" | "peek p \<noteq> 92 \<or> peek (tl p) \<noteq> 117" "p \<noteq> []" "tl p \<noteq> []" | "tl p = []" "p \<noteq> []"
    using assms(2) by (cases p; cases "tl p") auto
  then show ?thesis
  proof cases
    case 1
    then have d: "json_u16_digits 4 t 0 = None" "34 \<in> set t" using assms by (auto simp: json_u16_def)
    show ?thesis
    proof (cases "4 \<le> length t")
      case True
      then show ?thesis using json_u16_digits_fail [OF d(1)] by (simp add: json_u16_def 1)
    next
      case False
      then have "take 4 t = t" by simp
      then show ?thesis using json_u16_digits_quote [OF _ hex, of 4 t r 0] d(2) by (simp add: json_u16_def 1)
    qed
  next
    case 2
    then show ?thesis by (cases p; cases "tl p") (auto simp: json_u16_def)
  next
    case 3
    then have "p = [34]" using assms(2) by (cases p) auto
    then show ?thesis by (simp add: json_u16_def)
  qed
qed

lemma json_string_body_quote: "json_string_body p b = Some (v, q) \<Longrightarrow> 34 \<in> set p"
proof (induction "length p" arbitrary: p b rule: less_induct)
  case less
  from less.prems show ?case
  proof (cases rule: json_string_body_cases)
    case (unicode bs r)
    obtain cp t where u: "json_u16 p = Some (cp, t)" using unicode(1) by (auto simp: json_unicode_escape_def split: option.splits)
    have sub: "set s \<subseteq> set p" if "json_u16 p = Some (w, s)" for w s p
    proof -
      have "json_u16_digits n x c = Some (y, z) \<Longrightarrow> set z \<subseteq> set x" for n x c y z
      proof (induction n x c rule: json_u16_digits.induct)
        case (2 n p cp)
        then show ?case by (cases p) (auto simp: Let_def split: if_splits)
      qed simp
      then show ?thesis using that by (fastforce simp: json_u16_def split: if_splits dest: in_set_dropD)
    qed
    have "set r \<subseteq> set p"
      using unicode(1) sub by (auto simp: json_unicode_escape_def split: option.splits if_splits) blast+
    moreover have "34 \<in> set r" using less.hyps [OF json_unicode_shorter [OF unicode(1)] unicode(2)] .
    ultimately show ?thesis by blast
  next
    case (plain c r)
    then show ?thesis using less.hyps [of r] by simp
  next
    case (simple r e)
    then have "34 \<in> set (tl r)" using less.hyps [of "tl r"] by simp
    then show ?thesis using simple by (cases r) auto
  qed simp
qed

lemma json_unicode_append:
  assumes "json_unicode_escape p = Some (bs, q)" "34 \<in> set q"
  shows "json_unicode_escape (p @ r) = Some (bs, q @ r)"
proof -
  obtain cp t where u: "json_u16 p = Some (cp, t)" using assms(1) by (auto simp: json_unicode_escape_def split: option.splits)
  note ua = json_u16_append [OF u, of r]
  show ?thesis
  proof (cases "0xd800 \<le> cp \<and> cp \<le> 0xdbff")
    case False
    then show ?thesis using assms(1) u ua by (auto simp: json_unicode_escape_def)
  next
    case True
    show ?thesis
    proof (cases "json_u16 t")
      case None
      then have "t = q" using assms(1) u True by (simp add: json_unicode_escape_def)
      then have "json_u16 (t @ r) = None" using json_u16_fail [OF None] assms(2) by simp
      then show ?thesis using None assms(1) u ua True by (simp add: json_unicode_escape_def)
    next
      case (Some x)
      then obtain lo s where "json_u16 t = Some (lo, s)" by (cases x) auto
      then show ?thesis
        using assms(1) u ua True json_u16_append [of t lo s r] by (auto simp: json_unicode_escape_def split: if_splits)
    qed
  qed
qed

lemma json_string_body_append: "json_string_body p b = Some (v, q) \<Longrightarrow> json_string_body (p @ r) b = Some (v, q @ r)"
proof (induction "length p" arbitrary: p b rule: less_induct)
  case less
  from less.prems show ?case
  proof (cases rule: json_string_body_cases)
    case stop
    then show ?thesis by (subst json_string_body.simps) simp
  next
    case (plain c t)
    then show ?thesis using less.hyps [of t] by (subst json_string_body.simps) simp
  next
    case (unicode bs t)
    have e: "json_unicode_escape (p @ r) = Some (bs, t @ r)"
      by (rule json_unicode_append [OF unicode(1) json_string_body_quote [OF unicode(2)]])
    have h: "json_string_body (t @ r) (b @ bs) = Some (v, q @ r)"
      using less.hyps [OF json_unicode_shorter [OF unicode(1)] unicode(2)] .
    obtain x where "p = 92 # 117 # x"
      using unicode(1) by (cases p; cases "tl p") (auto simp: json_unicode_escape_def json_u16_def split: option.splits if_splits)
    then show ?thesis using e h by (subst json_string_body.simps) simp
  next
    case (simple t e)
    then obtain c x where t: "t = c # x" by (cases t) (auto simp: json_simple_escape_def)
    then have "c \<noteq> 117" using simple(2) by (auto simp: json_simple_escape_def split: if_splits)
    moreover have "json_string_body (x @ r) (b @ [e]) = Some (v, q @ r)"
      using less.hyps [of x] simple t by simp
    ultimately show ?thesis using simple t by (subst json_string_body.simps) simp
  qed
qed

lemma json_string_append: "json_string p = Some (v, q) \<Longrightarrow> json_string (p @ r) = Some (v, q @ r)"
proof -
  assume a: "json_string p = Some (v, q)"
  then obtain b where p: "peek (json_ws p) = 34" "json_string_body (tl (json_ws p)) [] = Some (b, q)" "v = c_str b"
    by (auto simp: json_string_def Let_def split: if_splits)
  then have ne: "json_ws p \<noteq> []" by auto
  have "tl (json_ws p @ r) = tl (json_ws p) @ r" using ne by simp
  moreover have "peek (json_ws p @ r) = 34" using p(1) ne by (cases "json_ws p") auto
  ultimately show ?thesis
    using json_string_body_append [OF p(2)] by (simp add: json_string_def Let_def json_ws_append [OF ne] p(3))
qed

lemma json_lit_delim:
  assumes "delim r" "set l \<inter> {44, 93, 125} = {}"
  shows "json_lit (x @ r) l = map_option (\<lambda>q. q @ r) (json_lit x l)"
proof -
  have "starts_with l (x @ r) \<longleftrightarrow> starts_with l x"
    using assms
  proof (induction x arbitrary: l)
    case Nil
    then show ?case by (cases r; cases l) (auto simp: delim_def)
  next
    case (Cons c x)
    then show ?case by (cases l) auto
  qed
  then show ?thesis by (auto simp: json_lit_def starts_with_def)
qed

lemma peek_append: "peek x \<noteq> 0 \<Longrightarrow> peek (x @ r) = peek x"
  by (cases x) auto

lemma peek_tests_delim: "delim r \<Longrightarrow> peek (x @ r) = 34 \<longleftrightarrow> peek x = 34" "delim r \<Longrightarrow> peek (x @ r) = 123 \<longleftrightarrow> peek x = 123"
    "delim r \<Longrightarrow> peek (x @ r) = 91 \<longleftrightarrow> peek x = 91"
  using peek_append_delim [of r] by simp_all

lemma json_string_ws: "json_string (json_ws p) = json_string p"
  by (simp add: json_string_def json_ws_def)

lemma json_skip_delim:
  "json_skip_value_depth p depth = Some q \<Longrightarrow> delim r \<Longrightarrow> json_skip_value_depth (p @ r) depth = Some (q @ r)"
  "json_skip_array_depth p depth = Some q \<Longrightarrow> delim r \<Longrightarrow> json_skip_array_depth (p @ r) depth = Some (q @ r)"
  "json_skip_object_depth p depth = Some q \<Longrightarrow> delim r \<Longrightarrow> json_skip_object_depth (p @ r) depth = Some (q @ r)"
  "json_skip_items p depth = Some q \<Longrightarrow> delim r \<Longrightarrow> json_skip_items (p @ r) depth = Some (q @ r)"
  "json_skip_members p depth = Some q \<Longrightarrow> delim r \<Longrightarrow> json_skip_members (p @ r) depth = Some (q @ r)"
proof (induction p depth and p depth and p depth and p depth and p depth arbitrary: q and q and q and q and q
    rule: json_skip_value_depth_json_skip_array_depth_json_skip_object_depth_json_skip_items_json_skip_members.induct)
  case (1 p depth)
  note w = json_ws_append_delim [OF "1.prems"(2)]
  note t = peek_tests_delim [OF "1.prems"(2)]
  have lits: "json_lit (json_ws p @ r) (str l) = map_option (\<lambda>q. q @ r) (json_lit (json_ws p) (str l))"
    if "l \<in> {''true'', ''false'', ''null''}" for l
    by (rule json_lit_delim [OF "1.prems"(2)]) (use that in \<open>auto simp: lit_simps\<close>)
  have e: "json_skip_value_depth p depth = Some q" by (rule "1.prems"(1))
  consider (string) "peek (json_ws p) = 34" | (object) "peek (json_ws p) = 123" | (array) "peek (json_ws p) = 91"
    | (other) "peek (json_ws p) \<noteq> 34" "peek (json_ws p) \<noteq> 123" "peek (json_ws p) \<noteq> 91" by blast
  then show ?case
  proof cases
    case string
    then obtain v where "json_string (json_ws p) = Some (v, q)"
      using e by (subst (asm) json_skip_value_depth.simps) auto
    from json_string_append [OF this] show ?thesis
      using string by (subst json_skip_value_depth.simps) (simp add: w t)
  next
    case object
    then show ?thesis
      using e "1.IH"(1) "1.prems"(2) by (subst json_skip_value_depth.simps, subst (asm) (2) json_skip_value_depth.simps) (simp add: w t)
  next
    case array
    then show ?thesis
      using e "1.IH"(2) "1.prems"(2) by (subst json_skip_value_depth.simps, subst (asm) (2) json_skip_value_depth.simps) (simp add: w t)
  next
    case other
    then show ?thesis
      using e json_number_delim [OF "1.prems"(2), of "json_ws p" q]
      by (subst json_skip_value_depth.simps, subst (asm) json_skip_value_depth.simps)
        (auto simp: w t lits split: option.splits)
  qed
next
  case (2 p depth)
  note w = json_ws_append_delim [OF "2.prems"(2)]
  note t = peek_tests_delim [OF "2.prems"(2)]
  have e: "json_skip_array_depth p depth = Some q" by (rule "2.prems"(1))
  then have h: "depth < JSON_MAX_NESTING" "peek (json_ws p) = 91"
    by (subst (asm) json_skip_array_depth.simps, auto split: if_splits)+
  then have tl1: "tl (json_ws p @ r) = tl (json_ws p) @ r" by (intro tl_append_peek) simp
  show ?case
  proof (cases "peek (json_ws (tl (json_ws p))) = 93")
    case True
    then show ?thesis using e h tl1 peek_append [of "json_ws (tl (json_ws p))" r] tl_append_peek [of "json_ws (tl (json_ws p))" r]
      by (subst json_skip_array_depth.simps, subst (asm) json_skip_array_depth.simps) (simp add: w t)
  next
    case False
    then have i: "json_skip_items (json_ws (tl (json_ws p))) depth = Some q"
      using e h by (subst (asm) json_skip_array_depth.simps) simp
    have "json_ws (tl (json_ws p)) \<noteq> []"
    proof
      assume "json_ws (tl (json_ws p)) = []"
      with json_skip_shorter(4) [OF i] show False by simp
    qed
    then have "peek (json_ws (tl (json_ws p)) @ r) \<noteq> 93" using False by (cases "json_ws (tl (json_ws p))") auto
    then show ?thesis
      using False h tl1 "2.IH" i "2.prems"(2) by (subst json_skip_array_depth.simps) (simp add: w t)
  qed
next
  case (3 p depth)
  note w = json_ws_append_delim [OF "3.prems"(2)]
  note t = peek_tests_delim [OF "3.prems"(2)]
  have e: "json_skip_object_depth p depth = Some q" by (rule "3.prems"(1))
  then have h: "depth < JSON_MAX_NESTING" "peek (json_ws p) = 123"
    by (subst (asm) json_skip_object_depth.simps, auto split: if_splits)+
  then have tl1: "tl (json_ws p @ r) = tl (json_ws p) @ r" by (intro tl_append_peek) simp
  show ?case
  proof (cases "peek (json_ws (tl (json_ws p))) = 125")
    case True
    then show ?thesis using e h tl1 peek_append [of "json_ws (tl (json_ws p))" r] tl_append_peek [of "json_ws (tl (json_ws p))" r]
      by (subst json_skip_object_depth.simps, subst (asm) json_skip_object_depth.simps) (simp add: w t)
  next
    case False
    then have i: "json_skip_members (json_ws (tl (json_ws p))) depth = Some q"
      using e h by (subst (asm) json_skip_object_depth.simps) simp
    have "json_ws (tl (json_ws p)) \<noteq> []"
    proof
      assume "json_ws (tl (json_ws p)) = []"
      with json_skip_shorter(5) [OF i] show False by simp
    qed
    then have "peek (json_ws (tl (json_ws p)) @ r) \<noteq> 125" using False by (cases "json_ws (tl (json_ws p))") auto
    then show ?thesis
      using False h tl1 "3.IH" i "3.prems"(2) by (subst json_skip_object_depth.simps) (simp add: w t)
  qed
next
  case (4 p depth)
  note w = json_ws_append_delim [OF "4.prems"(2)]
  obtain s where s: "json_skip_value_depth p (depth + 1) = Some s"
    "(if peek (json_ws s) = 93 then Some (tl (json_ws s))
      else if peek (json_ws s) \<noteq> 44 then None
      else if length s < length p then json_skip_items (tl (json_ws s)) depth
      else None) = Some q"
    using "4.prems"(1) by (subst (asm) json_skip_items.simps) (auto split: option.splits)
  have sr: "json_skip_value_depth (p @ r) (depth + 1) = Some (s @ r)" by (rule "4.IH"(1) [OF s(1) "4.prems"(2)])
  have nz: "peek (json_ws s) \<noteq> 0" using s(2) by (auto split: if_splits)
  note pk = peek_append [OF nz, of r] and tls = tl_append_peek [OF nz, of r]
  show ?case
  proof (cases "peek (json_ws s) = 93")
    case True
    then show ?thesis using s sr pk tls by (subst json_skip_items.simps) (simp add: w)
  next
    case False
    then have c: "peek (json_ws s) = 44" "length s < length p" "json_skip_items (tl (json_ws s)) depth = Some q"
      using s(2) by (auto split: if_splits)
    then have "json_skip_items (tl (json_ws s) @ r) depth = Some (q @ r)"
      using "4.IH"(2) [OF s(1) False] "4.prems"(2) by simp
    then show ?thesis using False c sr pk tls by (subst json_skip_items.simps) (simp add: w)
  qed
next
  case (5 p depth)
  note w = json_ws_append_delim [OF "5.prems"(2)]
  obtain key s u where s: "json_string p = Some (key, s)" "peek (json_ws s) = 58"
    "json_skip_value_depth (tl (json_ws s)) (depth + 1) = Some u"
    "(if peek (json_ws u) = 125 then Some (tl (json_ws u))
      else if peek (json_ws u) \<noteq> 44 then None
      else if length u < length p then json_skip_members (tl (json_ws u)) depth
      else None) = Some q"
    using "5.prems"(1) by (subst (asm) json_skip_members.simps) (auto split: option.splits if_splits)
  have sr: "json_string (p @ r) = Some (key, s @ r)" by (rule json_string_append [OF s(1)])
  have s58: "peek (json_ws s @ r) = 58" "tl (json_ws s @ r) = tl (json_ws s) @ r"
    using s(2) peek_append [of "json_ws s" r] tl_append_peek [of "json_ws s" r] by simp_all
  have ur: "json_skip_value_depth (tl (json_ws s) @ r) (depth + 1) = Some (u @ r)"
    using "5.IH"(1) s(1-3) "5.prems"(2) by auto
  have nz: "peek (json_ws u) \<noteq> 0" using s(4) by (auto split: if_splits)
  note pk = peek_append [OF nz, of r] and tls = tl_append_peek [OF nz, of r]
  show ?case
  proof (cases "peek (json_ws u) = 125")
    case True
    then show ?thesis using s sr s58 ur pk tls by (subst json_skip_members.simps) (simp add: w)
  next
    case False
    then have c: "peek (json_ws u) = 44" "length u < length p" "json_skip_members (tl (json_ws u)) depth = Some q"
      using s(4) by (auto split: if_splits)
    then have "json_skip_members (tl (json_ws u) @ r) depth = Some (q @ r)"
      using "5.IH"(2) s(1-3) False "5.prems"(2) by auto
    then show ?thesis using False c s sr s58 ur pk tls by (subst json_skip_members.simps) (simp add: w)
  qed
qed

end
