(* ===== verification/Json_Args.thy ===== *)
theory Json_Args
  imports Json "HOL-Library.Multiset"
begin

text \<open>
  Tool arguments as a list of pairs (\<^verbatim>\<open>json_arg\<close>, \<^verbatim>\<open>json_args_parse\<close>, \<^verbatim>\<open>append_json_arg_pair\<close>,
  \<^verbatim>\<open>qwen_tool_parameters\<close> and \<^verbatim>\<open>append_json_object_or_empty\<close> of \<^verbatim>\<open>q36_server.c\<close>).  A growing array is
  a list; what is appended to a \<^verbatim>\<open>buf\<close> is the list the function returns.
\<close>

record json_arg =
  arg_key :: bytes
  arg_value :: bytes
  arg_is_string :: bool
  arg_used :: bool

fun json_args_find_unused :: "json_arg list \<Rightarrow> bytes \<Rightarrow> nat option" where
  "json_args_find_unused [] k = None"
| "json_args_find_unused (a # as) k =
     (if \<not> arg_used a \<and> arg_key a = k then Some 0 else map_option Suc (json_args_find_unused as k))"

text \<open>The value after the colon: a string, or the compact text of any other value.\<close>

definition json_arg_value :: "bytes \<Rightarrow> (bytes \<times> bool \<times> bytes) option" where
  "json_arg_value p =
     (if peek p = 34 then map_option (\<lambda>(v, q). (v, True, q)) (json_string p)
      else map_option (\<lambda>(raw, q). (json_minify_raw_value (Some raw), False, q)) (json_raw_value p))"

lemma json_raw_value_shorter: "json_raw_value p = Some (raw, q) \<Longrightarrow> length q < length p"
  using json_ws_shorter [of p]
  by (auto simp: json_raw_value_def json_skip_value_def Let_def split: option.splits dest!: json_skip_shorter(1))

lemma json_arg_value_shorter: "json_arg_value p = Some (v, s, q) \<Longrightarrow> length q < length p"
  by (auto simp: json_arg_value_def split: if_splits dest: json_string_shorter json_raw_value_shorter)

lemma json_args_shorter:
  assumes "json_string p = Some (key, p1)" "json_arg_value (json_ws (tl (json_ws p1))) = Some (value, is_string, p2)"
  shows "length (json_ws (tl (json_ws p2))) < length p" "length (json_ws (json_ws p2)) < length p"
proof -
  have "length p1 < length p" "length p2 < length (json_ws (tl (json_ws p1)))"
    using assms json_string_shorter json_arg_value_shorter by blast+
  then show "length (json_ws (tl (json_ws p2))) < length p" "length (json_ws (json_ws p2)) < length p"
    using json_ws_shorter [of p1] json_ws_shorter [of "tl (json_ws p1)"] json_ws_shorter [of p2]
      json_ws_shorter [of "tl (json_ws p2)"] json_ws_shorter [of "json_ws p2"]
    by simp_all
qed

function json_args_loop :: "bytes \<Rightarrow> json_arg list \<Rightarrow> json_arg list option" where
  "json_args_loop p args =
     (if peek p = 0 then None
      else if peek p = 125 then Some args
      else
        (case json_string p of
           None \<Rightarrow> None
         | Some (key, p1) \<Rightarrow>
             if peek (json_ws p1) \<noteq> 58 then None
             else
               (case json_arg_value (json_ws (tl (json_ws p1))) of
                  None \<Rightarrow> None
                | Some (value, is_string, p2) \<Rightarrow>
                    json_args_loop
                      (json_ws (if peek (json_ws p2) = 44 then tl (json_ws p2) else json_ws p2))
                      (args @ [\<lparr>arg_key = key, arg_value = value, arg_is_string = is_string, arg_used = False\<rparr>]))))"
  by pat_completeness auto
termination
  by (relation "measure (\<lambda>(p, args). length p)") (auto intro: json_args_shorter)

declare json_args_loop.simps [simp del]

definition json_args_parse :: "bytes option \<Rightarrow> json_arg list option" where
  "json_args_parse json =
     (let p = json_ws (case json of Some j \<Rightarrow> j | None \<Rightarrow> [])
      in if peek p \<noteq> 123 then None else json_args_loop (json_ws (tl p)) [])"

definition append_json_arg_pair :: "json_arg \<Rightarrow> bytes" where
  "append_json_arg_pair arg =
     json_escape (arg_key arg) @ [58] @ (if arg_is_string arg then json_escape (arg_value arg) else arg_value arg)"

text \<open>The pairs with a comma before each but the first.\<close>

fun append_pairs :: "bool \<Rightarrow> json_arg list \<Rightarrow> bytes" where
  "append_pairs wrote [] = []"
| "append_pairs wrote (a # as) = (if wrote then [44] else []) @ append_json_arg_pair a @ append_pairs True as"

definition append_json_object_or_empty :: "bytes option \<Rightarrow> bytes" where
  "append_json_object_or_empty json =
     (case json_args_parse json of
        None \<Rightarrow> [123, 125]
      | Some args \<Rightarrow> [123] @ append_pairs False args @ [125])"

definition append_json_object_string :: "bytes option \<Rightarrow> bytes" where
  "append_json_object_string json = json_escape (append_json_object_or_empty json)"

text \<open>The pairs in the order of \<open>keys\<close> and then as they come: an argument taken is marked as used.\<close>

fun take_ordered :: "bytes list \<Rightarrow> json_arg list \<Rightarrow> json_arg list \<times> json_arg list" where
  "take_ordered [] args = ([], args)"
| "take_ordered (k # ks) args =
     (case json_args_find_unused args k of
        None \<Rightarrow> take_ordered ks args
      | Some i \<Rightarrow>
          (case take_ordered ks (args[i := (args ! i)\<lparr>arg_used := True\<rparr>]) of
             (out, args') \<Rightarrow> (args ! i # out, args')))"

definition ordered_args :: "bytes list \<Rightarrow> json_arg list \<Rightarrow> json_arg list" where
  "ordered_args keys args = (case take_ordered keys args of (out, args') \<Rightarrow> out @ filter (\<lambda>a. \<not> arg_used a) args')"

definition qwen_tool_parameters :: "bytes \<Rightarrow> bytes" where
  "qwen_tool_parameters schema =
     (case json_args_parse (Some schema) of
        None \<Rightarrow> schema
      | Some args \<Rightarrow>
          [123] @ append_pairs False (ordered_args [str ''type'', str ''required'', str ''properties''] args) @ [125])"

section \<open>Printing and reading back\<close>

text \<open>
  The text of a value other than a string that is complete and has no whitespace to remove: what
  \<^verbatim>\<open>json_minify_raw_value\<close> leaves as it is.
\<close>

definition compact_value :: "bytes \<Rightarrow> bool" where
  "compact_value v \<longleftrightarrow>
     v \<noteq> [] \<and> \<not> isspace (hd v) \<and> hd v \<notin> {0, 34} \<and> json_skip_value v = Some [] \<and>
     minify_loop v False False = v"

text \<open>A pair as the reader makes it.\<close>

definition arg_wf :: "json_arg \<Rightarrow> bool" where
  "arg_wf a \<longleftrightarrow>
     0 \<notin> set (arg_key a) \<and> \<not> arg_used a \<and>
     (if arg_is_string a then 0 \<notin> set (arg_value a) else compact_value (arg_value a))"

lemma compact_no_ws: "compact_value v \<Longrightarrow> json_ws (v @ r) = v @ r"
  by (cases v) (auto simp: compact_value_def json_ws_def)

lemma compact_minify: "compact_value v \<Longrightarrow> json_minify_raw_value (Some v) = v"
  using compact_no_ws [of v "[]"] by (simp add: json_minify_raw_value_def compact_value_def)

lemma compact_raw_value:
  assumes "compact_value v" "delim r"
  shows "json_raw_value (v @ r) = Some (v, r)"
proof -
  have "json_skip_value (v @ r) = Some r"
    using json_skip_delim(1) [of v 0 "[]", OF _ assms(2)] assms(1) by (simp add: compact_value_def json_skip_value_def)
  then show ?thesis by (simp add: json_raw_value_def compact_no_ws [OF assms(1)])
qed

lemma peek_escape [simp]: "peek (json_escape s @ r) = 34" "json_escape s @ r \<noteq> []"
  by (simp_all add: json_escape_def)

lemma json_ws_escape [simp]: "json_ws (json_escape s @ r) = json_escape s @ r"
  by (simp add: json_ws_def json_escape_def isspace_def)

lemma json_ws_plain [simp]: "\<not> isspace c \<Longrightarrow> json_ws (c # r) = c # r"
  by (simp add: json_ws_def)

lemma not_space [simp]: "\<not> isspace 44" "\<not> isspace 58" "\<not> isspace 123" "\<not> isspace 125"
  by (simp_all add: isspace_def)

lemma json_arg_value_wf:
  assumes "arg_wf a" "delim r"
  shows "json_arg_value (json_ws ((if arg_is_string a then json_escape (arg_value a) else arg_value a) @ r)) =
    Some (arg_value a, arg_is_string a, r)"
proof (cases "arg_is_string a")
  case True
  then show ?thesis using assms by (simp add: json_arg_value_def json_string_escape arg_wf_def)
next
  case False
  then have c: "compact_value (arg_value a)" using assms by (simp add: arg_wf_def)
  then have "peek (arg_value a @ r) \<noteq> 34" by (cases "arg_value a") (auto simp: compact_value_def)
  then show ?thesis
    using False c assms(2) by (simp add: json_arg_value_def compact_no_ws compact_raw_value compact_minify)
qed

lemma json_args_loop_pair:
  assumes "arg_wf a" "delim r"
  shows "json_args_loop (append_json_arg_pair a @ r) acc =
    json_args_loop (json_ws (if hd r = 44 then tl r else r)) (acc @ [a])"
proof -
  have r: "json_ws r = r" "peek r = 44 \<longleftrightarrow> hd r = 44"
    using assms(2) by (cases r, auto simp: delim_def isspace_def)+
  have a: "\<lparr>arg_key = arg_key a, arg_value = arg_value a, arg_is_string = arg_is_string a, arg_used = False\<rparr> = a"
    using assms(1) by (cases a) (simp add: arg_wf_def)
  show ?thesis
    using json_arg_value_wf [OF assms] assms(1)
    by (subst json_args_loop.simps)
      (simp add: append_json_arg_pair_def json_string_escape arg_wf_def r a [simplified])
qed

lemma json_args_loop_pairs:
  assumes "\<forall>a\<in>set as. arg_wf a" "as \<noteq> []"
  shows "json_args_loop (append_pairs False as @ 125 # r) acc = Some (acc @ as)"
  using assms
proof (induction as arbitrary: acc)
  case (Cons a as)
  show ?case
  proof (cases as)
    case Nil
    then show ?thesis
      using Cons.prems json_args_loop_pair [of a "125 # r" acc]
      by (simp add: delim_def json_args_loop.simps [of "125 # r"])
  next
    case (Cons b bs)
    have "append_pairs True as = 44 # append_pairs False as" by (simp add: Cons)
    moreover have "json_ws (append_pairs False as @ 125 # r) = append_pairs False as @ 125 # r"
      by (simp add: Cons append_json_arg_pair_def)
    ultimately show ?thesis
      using Cons.prems Cons.IH [of "acc @ [a]"] Cons json_args_loop_pair [of a "44 # append_pairs False as @ 125 # r" acc]
      by (simp add: delim_def)
  qed
qed simp

lemma json_args_parse_object:
  assumes "\<forall>a\<in>set as. arg_wf a"
  shows "json_args_parse (Some ([123] @ append_pairs False as @ [125])) = Some as"
proof (cases as)
  case Nil
  then show ?thesis by (simp add: json_args_parse_def json_args_loop.simps)
next
  case (Cons a bs)
  then have "json_ws (append_pairs False as @ [125]) = append_pairs False as @ [125]"
    by (simp add: append_json_arg_pair_def)
  then show ?thesis
    using json_args_loop_pairs [OF assms, of "[]" "[]"] Cons by (simp add: json_args_parse_def)
qed

section \<open>Reordering keeps the arguments\<close>

lemma find_unused_Some:
  "json_args_find_unused as k = Some i \<Longrightarrow> i < length as \<and> \<not> arg_used (as ! i) \<and> arg_key (as ! i) = k"
  by (induction as k arbitrary: i rule: json_args_find_unused.induct) (auto split: if_splits)

lemma take_ordered_mset:
  "take_ordered ks as = (out, as') \<Longrightarrow>
    mset out + filter_mset (\<lambda>a. \<not> arg_used a) (mset as') = filter_mset (\<lambda>a. \<not> arg_used a) (mset as)"
proof (induction ks as arbitrary: out rule: take_ordered.induct)
  case (2 k ks as)
  show ?case
  proof (cases "json_args_find_unused as k")
    case None
    then show ?thesis using 2 by simp
  next
    case (Some i)
    note i = find_unused_Some [OF Some]
    obtain out' where o: "take_ordered ks (as[i := (as ! i)\<lparr>arg_used := True\<rparr>]) = (out', as')" "out = as ! i # out'"
      using 2(3) Some by (auto split: prod.splits)
    have "as ! i \<in># mset as" using i by simp
    then show ?thesis
      using 2(2) [OF Some o(1)] i o(2) by (simp add: mset_update)
  qed
qed simp

lemma ordered_args_mset:
  assumes "\<forall>a\<in>set as. \<not> arg_used a"
  shows "mset (ordered_args ks as) = mset as"
proof -
  obtain out as' where o: "take_ordered ks as = (out, as')" by (cases "take_ordered ks as")
  have "filter_mset (\<lambda>a. \<not> arg_used a) (mset as) = mset as"
    using assms by (simp add: filter_mset_eq_conv)
  then show ?thesis using take_ordered_mset [OF o] by (simp add: ordered_args_def o mset_filter)
qed

section \<open>Properties\<close>

text \<open>
  The arguments of a call printed as a JSON object are parsed back to the same arguments, in
  the same order, with each string or compact value as it was; printing what was parsed gives the
  same object again.
\<close>

theorem json_args_round_trip:
  assumes "\<forall>a\<in>set as. arg_wf a"
  shows "json_args_parse (Some ([123] @ append_pairs False as @ [125])) = Some as \<and>
    append_json_object_or_empty (Some ([123] @ append_pairs False as @ [125])) = [123] @ append_pairs False as @ [125]"
  using json_args_parse_object [OF assms] by (simp add: append_json_object_or_empty_def)

text \<open>A string with a quote in it, an array and a literal.\<close>

definition sample_args :: "json_arg list" where
  "sample_args =
     [\<lparr>arg_key = str ''path'', arg_value = [97, 34, 10], arg_is_string = True, arg_used = False\<rparr>,
      \<lparr>arg_key = str ''properties'', arg_value = str ''[true,{}]'', arg_is_string = False, arg_used = False\<rparr>,
      \<lparr>arg_key = str ''type'', arg_value = str ''null'', arg_is_string = False, arg_used = False\<rparr>]"

lemma sample_args_wf: "\<forall>a\<in>set sample_args. arg_wf a"
  by code_simp

theorem json_args_round_trip_witness:
  "json_args_parse (Some ([123] @ append_pairs False sample_args @ [125])) = Some sample_args"
  using json_args_round_trip [OF sample_args_wf] by blast

text \<open>
  Moving \<^verbatim>\<open>type\<close>, \<^verbatim>\<open>required\<close> and \<^verbatim>\<open>properties\<close> of a tool's schema to the front loses and
  invents no member: the text \<^verbatim>\<open>qwen_tool_parameters\<close> gives parses to a permutation of what the
  schema held.
\<close>

theorem qwen_tool_parameters_permutes:
  assumes "\<forall>a\<in>set as. arg_wf a"
  shows "\<exists>bs. json_args_parse (Some (qwen_tool_parameters ([123] @ append_pairs False as @ [125]))) = Some bs \<and>
    mset bs = mset as"
proof -
  let ?o = "ordered_args [str ''type'', str ''required'', str ''properties''] as"
  have m: "mset ?o = mset as" by (rule ordered_args_mset) (use assms in \<open>simp add: arg_wf_def\<close>)
  then have "\<forall>a\<in>set ?o. arg_wf a" using assms by (metis set_mset_mset)
  from json_args_parse_object [OF this] m show ?thesis
    using json_args_parse_object [OF assms] by (simp add: qwen_tool_parameters_def)
qed

theorem qwen_tool_parameters_permutes_witness:
  "\<exists>bs. json_args_parse (Some (qwen_tool_parameters ([123] @ append_pairs False sample_args @ [125]))) = Some bs \<and>
    mset bs = mset sample_args"
  by (rule qwen_tool_parameters_permutes [OF sample_args_wf])

end
