(* ===== verification/Tool_Text.thy ===== *)
theory Tool_Text
  imports Prelude
begin

text \<open>
  Text inside a tool-call parameter (\<^verbatim>\<open>q36_tool_text.h\<close>): only the closing delimiter, and spellings
  that look like its escape, are escaped.  The escaping loop is the one of \<^verbatim>\<open>append_qwen_parameter\<close>
  in \<^verbatim>\<open>q36_server.c\<close>.
\<close>

definition AMP :: bytes where "AMP = str ''amp;''"
definition LT :: bytes where "LT = str ''lt;''"
definition Q36_PARAM_END :: bytes where "Q36_PARAM_END = str ''</parameter>''"

lemmas tool_text_lits = AMP_def LT_def lit_simps

function amp_skip :: "bytes \<Rightarrow> bytes" where
  "amp_skip s = (if starts_with AMP s then amp_skip (drop 4 s) else s)"
  by pat_completeness auto
termination
  by (relation "measure length") (auto simp: starts_with_def AMP_def)

declare amp_skip.simps [simp del]

definition q36_tool_text_escaped_close :: "bytes \<Rightarrow> bytes \<Rightarrow> bool" where
  "q36_tool_text_escaped_close s end \<longleftrightarrow>
     (if peek s \<noteq> 38 then False
      else let s = amp_skip (tl s) in starts_with LT s \<and> starts_with (tl end) (drop 3 s))"

definition q36_tool_text_needs_escape :: "bytes \<Rightarrow> bytes \<Rightarrow> bool" where
  "q36_tool_text_needs_escape s end \<longleftrightarrow> starts_with end s \<or> q36_tool_text_escaped_close s end"

text \<open>The output never overtakes the input, so the in-place loop is the function on the text.\<close>

function q36_tool_text_unescape :: "bytes \<Rightarrow> bytes \<Rightarrow> bytes" where
  "q36_tool_text_unescape [] end = []"
| "q36_tool_text_unescape (c # s) end =
     (if q36_tool_text_escaped_close (c # s) end
      then if starts_with (38 # AMP) (c # s) then 38 # q36_tool_text_unescape (drop 4 s) end
           else 60 # q36_tool_text_unescape (drop 3 s) end
      else c # q36_tool_text_unescape s end)"
  by pat_completeness auto
termination
  by (relation "measure (\<lambda>(s, end). length s)") auto

declare q36_tool_text_unescape.simps(2) [simp del]

fun tool_text_escape :: "bytes \<Rightarrow> bytes \<Rightarrow> bytes" where
  "tool_text_escape [] end = []"
| "tool_text_escape (c # s) end =
     (if q36_tool_text_needs_escape (c # s) end
      then (if c = 60 then 38 # LT else 38 # AMP) @ tool_text_escape s end
      else c # tool_text_escape s end)"

text \<open>A fragment of a stream that may still become an escape (\<open>s\<close> is all there is so far).\<close>

definition q36_tool_text_partial_escape :: "bytes \<Rightarrow> bytes \<Rightarrow> bool" where
  "q36_tool_text_partial_escape s end \<longleftrightarrow>
     (if s = [] \<or> peek s \<noteq> 38 then False
      else let s = amp_skip (tl s); n = length s
           in if n < 4 \<and> s = take n AMP then True
              else if n < 3 then s = take n LT
              else if \<not> starts_with LT s then False
              else let s = drop 3 s; n = length s in n < length (tl end) \<and> s = take n (tl end))"

section \<open>Facts\<close>

text \<open>A delimiter: it opens with \<^verbatim>\<open><\<close> and has no further \<^verbatim>\<open><\<close> or \<^verbatim>\<open>&\<close>.\<close>

definition delimiter :: "bytes \<Rightarrow> bool" where
  "delimiter d \<longleftrightarrow> d \<noteq> [] \<and> hd d = 60 \<and> 60 \<notin> set (tl d) \<and> 38 \<notin> set (tl d)"

lemma param_end_delimiter: "delimiter Q36_PARAM_END"
  by (simp add: delimiter_def Q36_PARAM_END_def lit_simps)

lemma AMP_LT_plain: "38 \<notin> set AMP" "60 \<notin> set AMP" "38 \<notin> set LT" "60 \<notin> set LT" "length AMP = 4" "length LT = 3"
  by (simp_all add: tool_text_lits)

definition amps :: "nat \<Rightarrow> bytes" where
  "amps k = concat (replicate k AMP)"

lemma amps_simps [simp]: "amps 0 = []" "amps (Suc k) = AMP @ amps k"
  by (simp_all add: amps_def)

lemma amps_plain: "38 \<notin> set (amps k)" "60 \<notin> set (amps k)"
  using AMP_LT_plain by (induction k) auto

lemma starts_with_append_iff: "starts_with (p @ q) s \<longleftrightarrow> starts_with p s \<and> starts_with q (drop (length p) s)"
proof (induction p arbitrary: s)
  case (Cons a p)
  then show ?case by (cases s) auto
qed simp

lemma amp_skip_amps: "\<exists>k. s = amps k @ amp_skip s \<and> \<not> starts_with AMP (amp_skip s)"
proof (induction s rule: amp_skip.induct)
  case (1 s)
  show ?case
  proof (cases "starts_with AMP s")
    case True
    obtain k where k: "drop 4 s = amps k @ amp_skip (drop 4 s)" "\<not> starts_with AMP (amp_skip (drop 4 s))"
      using 1 True by blast
    have "s = AMP @ drop 4 s"
      using True AMP_LT_plain(5) by (auto simp: starts_with_def) (metis append_take_drop_id)
    with k True show ?thesis
      by (intro exI [of _ "Suc k"]) (simp add: amp_skip.simps [of s])
  next
    case False
    then show ?thesis by (intro exI [of _ 0]) (simp add: amp_skip.simps [of s])
  qed
qed

lemma amp_skip_through: "\<not> starts_with AMP s \<Longrightarrow> amp_skip (amps k @ s) = s"
proof (induction k)
  case 0
  then show ?case by (simp add: amp_skip.simps)
next
  case (Suc k)
  then show ?case
    by (subst amp_skip.simps) (simp add: starts_with_append_iff AMP_LT_plain)
qed

lemma LT_not_AMP: "starts_with LT s \<Longrightarrow> \<not> starts_with AMP s"
  by (cases s) (auto simp: tool_text_lits)

lemma escaped_close_iff:
  "q36_tool_text_escaped_close s d \<longleftrightarrow> (\<exists>k. starts_with (38 # amps k @ LT @ tl d) s)"
proof (cases s)
  case Nil
  then show ?thesis by (simp add: q36_tool_text_escaped_close_def)
next
  case (Cons c r)
  obtain k where k: "r = amps k @ amp_skip r" "\<not> starts_with AMP (amp_skip r)"
    using amp_skip_amps by blast
  have "starts_with LT (amp_skip r) \<and> starts_with (tl d) (drop 3 (amp_skip r)) \<longleftrightarrow>
      (\<exists>k. starts_with (amps k @ LT @ tl d) r)"
  proof
    assume "starts_with LT (amp_skip r) \<and> starts_with (tl d) (drop 3 (amp_skip r))"
    then have "starts_with (amps k @ LT @ tl d) (amps k @ amp_skip r)"
      by (simp add: starts_with_append_iff AMP_LT_plain)
    then show "\<exists>k. starts_with (amps k @ LT @ tl d) r" using k(1) by metis
  next
    assume "\<exists>k. starts_with (amps k @ LT @ tl d) r"
    then obtain j x where r: "r = amps j @ LT @ tl d @ x" by (auto elim!: starts_withE)
    have "amp_skip r = LT @ tl d @ x"
      unfolding r by (rule amp_skip_through) (auto dest: LT_not_AMP simp: tool_text_lits)
    then show "starts_with LT (amp_skip r) \<and> starts_with (tl d) (drop 3 (amp_skip r))"
      by (simp add: AMP_LT_plain)
  qed
  then show ?thesis by (simp add: Cons q36_tool_text_escaped_close_def Let_def)
qed

text \<open>Text without \<^verbatim>\<open>&\<close> and \<^verbatim>\<open><\<close> passes through, and such text in the result was there before.\<close>

lemma needs_escape_head: "delimiter d \<Longrightarrow> q36_tool_text_needs_escape (c # s) d \<Longrightarrow> c = 60 \<or> c = 38"
  by (cases d) (auto simp: q36_tool_text_needs_escape_def escaped_close_iff delimiter_def)

lemma escape_keeps_plain:
  "delimiter d \<Longrightarrow> 38 \<notin> set p \<Longrightarrow> 60 \<notin> set p \<Longrightarrow> tool_text_escape (p @ s) d = p @ tool_text_escape s d"
proof (induction p)
  case (Cons c p)
  then show ?case using needs_escape_head [of d c "p @ s"] by auto
qed simp

lemma escape_plain_prefix:
  "38 \<notin> set p \<Longrightarrow> starts_with p (tool_text_escape s d) \<Longrightarrow> starts_with p s"
proof (induction p arbitrary: s)
  case (Cons c p)
  then show ?case by (cases s) (auto split: if_splits)
qed simp

lemma unescape_escape:
  assumes d: "delimiter d"
  shows "q36_tool_text_unescape (tool_text_escape s d) d = s"
proof (induction s)
  case (Cons c s)
  have tl: "38 \<notin> set (tl d)" "60 \<notin> set (tl d)" "d = 60 # tl d"
    using d by (cases d; auto simp: delimiter_def)+
  show ?case
  proof (cases "q36_tool_text_needs_escape (c # s) d")
    case True
    show ?thesis
    proof (cases "c = 60")
      case c: True
      have "starts_with d (c # s)"
        using True c by (auto simp: q36_tool_text_needs_escape_def escaped_close_iff)
      then obtain x where x: "s = tl d @ x" using tl(3) by (metis c starts_with_Cons(2) starts_withE)
      then have "tool_text_escape s d = tl d @ tool_text_escape x d"
        using escape_keeps_plain [OF d tl(1,2)] by simp
      then have "q36_tool_text_escaped_close (38 # LT @ tool_text_escape s d) d"
        unfolding escaped_close_iff by (intro exI [of _ 0]) (simp add: starts_with_append_iff)
      moreover have "\<not> starts_with AMP (LT @ tool_text_escape s d)" by (simp add: tool_text_lits)
      ultimately show ?thesis
        using True c Cons.IH by (simp add: q36_tool_text_unescape.simps(2) AMP_LT_plain)
    next
      case False
      then have c: "c = 38" using needs_escape_head [OF d True] by simp
      have "\<not> starts_with (60 # tl d) (c # s)" by (simp add: c)
      then have "q36_tool_text_escaped_close (c # s) d"
        using True tl(3) by (simp add: q36_tool_text_needs_escape_def)
      then obtain k x where x: "s = (amps k @ LT @ tl d) @ x"
        unfolding escaped_close_iff by (auto elim!: starts_withE)
      have "tool_text_escape s d = (amps k @ LT @ tl d) @ tool_text_escape x d"
        unfolding x by (rule escape_keeps_plain [OF d]) (use amps_plain AMP_LT_plain tl in auto)
      then have "q36_tool_text_escaped_close (38 # AMP @ tool_text_escape s d) d"
        unfolding escaped_close_iff by (intro exI [of _ "Suc k"]) (simp add: starts_with_append_iff)
      then show ?thesis
        using True c Cons.IH by (simp add: q36_tool_text_unescape.simps(2) AMP_LT_plain)
    qed
  next
    case False
    have "\<not> q36_tool_text_escaped_close (c # tool_text_escape s d) d"
    proof
      assume "q36_tool_text_escaped_close (c # tool_text_escape s d) d"
      then obtain k where "c = 38" "starts_with (amps k @ LT @ tl d) (tool_text_escape s d)"
        by (auto simp: escaped_close_iff)
      moreover have "38 \<notin> set (amps k @ LT @ tl d)"
        using amps_plain AMP_LT_plain tl by auto
      ultimately have "starts_with (38 # amps k @ LT @ tl d) (c # s)"
        using escape_plain_prefix by auto
      then show False using False unfolding q36_tool_text_needs_escape_def escaped_close_iff by blast
    qed
    then show ?thesis using False Cons.IH by (simp add: q36_tool_text_unescape.simps(2))
  qed
qed simp

lemma escape_no_delimiter:
  assumes d: "delimiter d"
  shows "\<not> starts_with d (drop i (tool_text_escape s d))"
proof (induction s arbitrary: i)
  case Nil
  show ?case using d by (cases d) (auto simp: delimiter_def)
next
  case (Cons c s)
  have tl: "38 \<notin> set (tl d)" "d = 60 # tl d" using d by (cases d; auto simp: delimiter_def)+
  have inside: "\<not> starts_with d (drop i (p @ tool_text_escape s d))" if "60 \<notin> set p" for p i
  proof (cases "i < length p")
    case True
    then have "drop i (p @ tool_text_escape s d) = p ! i # drop (Suc i) p @ tool_text_escape s d"
      by (simp add: Cons_nth_drop_Suc [symmetric])
    moreover have "p ! i \<noteq> 60" using that True by (metis nth_mem)
    ultimately show ?thesis using tl(2) by (metis starts_with_Cons(2))
  next
    case False
    then show ?thesis using Cons.IH by simp
  qed
  show ?case
  proof (cases "q36_tool_text_needs_escape (c # s) d")
    case True
    then show ?thesis
      using inside [of "38 # LT" i] inside [of "38 # AMP" i] AMP_LT_plain by (cases "c = 60") auto
  next
    case False
    then have nd: "\<not> starts_with d (c # s)" by (simp add: q36_tool_text_needs_escape_def)
    show ?thesis
    proof (cases i)
      case 0
      have "\<not> starts_with d (c # tool_text_escape s d)"
        using nd tl escape_plain_prefix [OF tl(1), of s d] by (metis starts_with_Cons(2))
      then show ?thesis using False 0 by simp
    next
      case (Suc j)
      then show ?thesis using False Cons.IH by simp
    qed
  qed
qed

section \<open>Properties\<close>

text \<open>
  Escaping a parameter's text and reading it back gives the text, whatever it holds, and the
  escaped text contains the closing delimiter nowhere, so the parameter ends where it should.
\<close>

theorem tool_text_round_trip:
  "q36_tool_text_unescape (tool_text_escape s Q36_PARAM_END) Q36_PARAM_END = s \<and>
   \<not> starts_with Q36_PARAM_END (drop i (tool_text_escape s Q36_PARAM_END))"
  using unescape_escape [OF param_end_delimiter] escape_no_delimiter [OF param_end_delimiter] by blast

end
