(* ===== verification/Tool_Call.thy ===== *)
theory Tool_Call
  imports Json_Args Tool_Text
begin

text \<open>
  Tool calls of \<^verbatim>\<open>q36_server.c\<close>: the schema orders, the text a stored call is rendered to
  (\<^verbatim>\<open>append_qwen_tool_calls_text\<close>), and the parser of a generated message
  (\<^verbatim>\<open>parse_generated_message_ex\<close>, \<^verbatim>\<open>parse_generated_message_for_response\<close>).  A position in the
  raw text is the suffix it points at.
\<close>

definition Q36_TOOL_CALLS_START :: bytes where "Q36_TOOL_CALLS_START = str ''<tool_call>''"
definition Q36_TOOL_CALLS_END :: bytes where "Q36_TOOL_CALLS_END = str ''</tool_call>''"
definition Q36_INVOKE_START :: bytes where "Q36_INVOKE_START = str ''<function=''"
definition Q36_INVOKE_END :: bytes where "Q36_INVOKE_END = str ''</function>''"
definition Q36_PARAM_START :: bytes where "Q36_PARAM_START = str ''<parameter=''"
definition THINK_START :: bytes where "THINK_START = str ''<think>''"
definition THINK_END :: bytes where "THINK_END = str ''</think>''"

lemmas tag_lits = Q36_TOOL_CALLS_START_def Q36_TOOL_CALLS_END_def Q36_INVOKE_START_def Q36_INVOKE_END_def
  Q36_PARAM_START_def Q36_PARAM_END_def THINK_START_def THINK_END_def lit_simps

section \<open>Data\<close>

record tool_call =
  tc_id :: "bytes option"
  tc_name :: "bytes option"
  tc_arguments :: "bytes option"

record tool_calls =
  calls_v :: "tool_call list"
  raw_tool_text :: "bytes option"
  replay_empty_think :: bool

record tool_schema_property =
  prop_name :: bytes
  prop_is_string :: bool

record tool_schema_order =
  order_name :: bytes
  order_prop :: "tool_schema_property list"

fun tool_schema_orders_find_index :: "tool_schema_order list \<Rightarrow> bytes option \<Rightarrow> nat option" where
  "tool_schema_orders_find_index orders None = None"
| "tool_schema_orders_find_index [] (Some name) = None"
| "tool_schema_orders_find_index (o1 # orders) (Some name) =
     (if order_name o1 = name then Some 0 else map_option Suc (tool_schema_orders_find_index orders (Some name)))"

definition tool_schema_orders_push :: "tool_schema_order list \<Rightarrow> tool_schema_order \<Rightarrow> tool_schema_order list" where
  "tool_schema_orders_push orders o1 =
     (case tool_schema_orders_find_index orders (Some (order_name o1)) of
        Some idx \<Rightarrow> orders[idx := o1]
      | None \<Rightarrow> orders @ [o1])"

definition tool_schema_orders_find :: "tool_schema_order list \<Rightarrow> bytes option \<Rightarrow> tool_schema_order option" where
  "tool_schema_orders_find orders name = map_option (\<lambda>i. orders ! i) (tool_schema_orders_find_index orders name)"

definition tool_schema_property_is_string :: "tool_schema_order option \<Rightarrow> bytes \<Rightarrow> bool" where
  "tool_schema_property_is_string order name =
     (case order of
        None \<Rightarrow> False
      | Some o1 \<Rightarrow> (case find (\<lambda>p. prop_name p = name) (order_prop o1) of Some p \<Rightarrow> prop_is_string p | None \<Rightarrow> False))"

section \<open>Rendering\<close>

definition append_qwen_parameter :: "json_arg \<Rightarrow> bytes" where
  "append_qwen_parameter arg =
     Q36_PARAM_START @ arg_key arg @ str ''>'' @ [10] @ tool_text_escape (arg_value arg) Q36_PARAM_END @
     [10] @ str ''</parameter>'' @ [10]"

definition append_qwen_arguments :: "bytes option \<Rightarrow> tool_schema_order option \<Rightarrow> bytes" where
  "append_qwen_arguments json order =
     (case json_args_parse json of
        None \<Rightarrow> (case json of Some j \<Rightarrow> j | None \<Rightarrow> [])
      | Some args \<Rightarrow>
          concat (map append_qwen_parameter
            (ordered_args (case order of Some o1 \<Rightarrow> map prop_name (order_prop o1) | None \<Rightarrow> []) args)))"

definition render_call :: "tool_schema_order list \<Rightarrow> tool_call \<Rightarrow> bytes" where
  "render_call orders tc =
     str ''<tool_call>'' @ [10] @ str ''<function='' @ (case tc_name tc of Some n \<Rightarrow> n | None \<Rightarrow> []) @ str ''>'' @ [10] @
     append_qwen_arguments (tc_arguments tc) (tool_schema_orders_find orders (tc_name tc)) @
     str ''</function>'' @ [10] @ str ''</tool_call>''"

fun render_calls :: "tool_schema_order list \<Rightarrow> tool_call list \<Rightarrow> bytes" where
  "render_calls orders [] = []"
| "render_calls orders [tc] = render_call orders tc"
| "render_calls orders (tc # tcs) = render_call orders tc @ [10] @ render_calls orders tcs"

definition append_qwen_tool_calls_text :: "tool_calls \<Rightarrow> tool_schema_order list \<Rightarrow> bool \<Rightarrow> bytes" where
  "append_qwen_tool_calls_text calls orders content_nonempty =
     (if calls_v calls = [] then []
      else case raw_tool_text calls of
             Some (c # raw) \<Rightarrow> (if content_nonempty then [10, 10] else []) @ c # raw
           | _ \<Rightarrow> (if content_nonempty then [10, 10] else []) @ render_calls orders (calls_v calls))"

section \<open>Reading\<close>

definition trim_tool_separator_ws :: "bytes \<Rightarrow> nat \<Rightarrow> nat \<Rightarrow> nat" where
  "trim_tool_separator_ws raw start limit =
     limit - length (takeWhile isspace (rev (drop start (take limit raw))))"

definition rtrim :: "bytes \<Rightarrow> bytes" where
  "rtrim s = rev (dropWhile isspace (rev s))"

definition qwen_tool_tag_value :: "bytes \<Rightarrow> bytes \<Rightarrow> bytes option" where
  "qwen_tool_tag_value tag prefix1 =
     (if length tag \<le> length prefix1 \<or> \<not> starts_with prefix1 tag \<or> last tag \<noteq> 62 then None
      else let v = rtrim (butlast (drop (length prefix1) tag)) in if v = [] then None else Some v)"

function find_structural_loop :: "bytes \<Rightarrow> bytes \<Rightarrow> bool \<Rightarrow> bytes option \<Rightarrow> bytes option" where
  "find_structural_loop s needle want_last found =
     (if s = [] then found
      else if starts_with needle s \<and> \<not> want_last then Some s
      else
        let found = (if starts_with needle s then Some s else found)
        in if starts_with Q36_PARAM_START s
           then (case dropWhile (\<lambda>c. c \<noteq> 62) s of
                   [] \<Rightarrow> found
                 | _ # t \<Rightarrow>
                     (case strstr t Q36_PARAM_END of
                        None \<Rightarrow> found
                      | Some n \<Rightarrow> find_structural_loop (drop (n + length Q36_PARAM_END) t) needle want_last found))
           else find_structural_loop (tl s) needle want_last found)"
  by pat_completeness auto
termination
  by (relation "measure (\<lambda>(s, _). length s)") (auto dest: dropWhile_Cons_shorter)

declare find_structural_loop.simps [simp del]

definition find_tool_structural_text :: "bytes \<Rightarrow> bytes \<Rightarrow> bool \<Rightarrow> bytes option" where
  "find_tool_structural_text s needle want_last = find_structural_loop s needle want_last None"

definition split_reasoning_content :: "bytes \<Rightarrow> nat \<Rightarrow> bytes \<times> bytes option" where
  "split_reasoning_content txt1 n =
     (let s = take n txt1;
          body = (if starts_with THINK_START s then drop 7 s else s)
      in case find_tool_structural_text body THINK_END False of
           Some think_end \<Rightarrow> (drop 8 think_end, Some (take (length body - length think_end) body))
         | None \<Rightarrow> (s, None))"

definition unterminated_reasoning :: "bytes \<Rightarrow> bytes \<times> bytes option" where
  "unterminated_reasoning txt1 = ([], Some (if starts_with THINK_START txt1 then drop 7 txt1 else txt1))"

definition unterminated_reasoning_before_tool :: "bytes \<Rightarrow> nat \<Rightarrow> bytes \<times> bytes option" where
  "unterminated_reasoning_before_tool txt1 prefix_len =
     (let prefix_len = min prefix_len (length txt1)
      in if 7 \<le> prefix_len \<and> starts_with THINK_START txt1
         then ([], Some (take (prefix_len - 7) (drop 7 txt1)))
         else ([], Some (take prefix_len txt1)))"

definition raw_skip_ascii_ws :: "bytes \<Rightarrow> bytes" where
  "raw_skip_ascii_ws p = dropWhile isspace p"

definition raw_full_lit :: "bytes \<Rightarrow> bytes \<Rightarrow> bool" where
  "raw_full_lit p lit \<longleftrightarrow> length lit \<le> length p \<and> take (length lit) p = lit"

definition find_lit_bounded :: "bytes \<Rightarrow> bytes \<Rightarrow> nat option" where
  "find_lit_bounded s lit =
     (if lit = [] then Some 0
      else if length s < length lit then None
      else find (\<lambda>i. take (length lit) (drop i s) = lit) [0..<length s - length lit + 1])"

text \<open>The tag up to the next \<^verbatim>\<open>>\<close>, and what follows it.\<close>

definition qwen_tool_read_tag :: "bytes \<Rightarrow> (bytes \<times> bytes) option" where
  "qwen_tool_read_tag p =
     (case dropWhile (\<lambda>c. c \<noteq> 62) p of
        [] \<Rightarrow> None
      | c # after \<Rightarrow> Some (takeWhile (\<lambda>c. c \<noteq> 62) p @ [c], after))"

definition qwen_tool_append_json_value :: "bytes \<Rightarrow> bool \<Rightarrow> bytes" where
  "qwen_tool_append_json_value value is_string =
     (let value = (if value \<noteq> [] \<and> hd value = 10 then tl value else value);
          value = (if value \<noteq> [] \<and> last value = 10 then butlast value else value);
          raw = q36_tool_text_unescape value Q36_PARAM_END
      in if \<not> is_string \<and> json_raw_value_is_complete (Some raw) then json_minify_raw_value (Some raw)
         else json_escape raw)"

lemma read_tag_shorter: "qwen_tool_read_tag p = Some (tag, after) \<Longrightarrow> length after < length p"
  by (auto simp: qwen_tool_read_tag_def split: list.splits dest: dropWhile_Cons_shorter)

lemma read_tag_params_shorter: "qwen_tool_read_tag (raw_skip_ascii_ws p) = Some (tag, after) \<Longrightarrow> length after < length p"
  using length_dropWhile_le [of isspace p] by (auto simp: raw_skip_ascii_ws_def dest!: read_tag_shorter)

text \<open>The parameters of a call, up to its closing tag.\<close>

function parse_params :: "tool_schema_order option \<Rightarrow> bytes \<Rightarrow> bytes \<Rightarrow> bool \<Rightarrow> (bytes \<times> bytes) option" where
  "parse_params order p args wrote =
     (if raw_full_lit (raw_skip_ascii_ws p) Q36_INVOKE_END then Some (args, raw_skip_ascii_ws p)
      else if \<not> raw_full_lit (raw_skip_ascii_ws p) Q36_PARAM_START then None
      else
        (case qwen_tool_read_tag (raw_skip_ascii_ws p) of
           None \<Rightarrow> None
         | Some (tag, after) \<Rightarrow>
             (case qwen_tool_tag_value tag Q36_PARAM_START of
                None \<Rightarrow> None
              | Some name \<Rightarrow>
                  (case find_lit_bounded after Q36_PARAM_END of
                     None \<Rightarrow> None
                   | Some n \<Rightarrow>
                       parse_params order (drop (n + length Q36_PARAM_END) after)
                         (args @ (if wrote then [44] else []) @ json_escape name @ [58] @
                          qwen_tool_append_json_value (take n after) (tool_schema_property_is_string order name)) True))))"
  by pat_completeness auto
termination
  by (relation "measure (\<lambda>(order, p, args, wrote). length p)") (auto dest!: read_tag_params_shorter)

declare parse_params.simps [simp del]

text \<open>One call at \<^verbatim>\<open><tool_call>\<close>: the call and what follows its closing tag.\<close>

definition parse_call :: "tool_schema_order list \<Rightarrow> bytes \<Rightarrow> (tool_call \<times> bytes) option" where
  "parse_call orders p =
     (let p = raw_skip_ascii_ws (drop (length Q36_TOOL_CALLS_START) p)
      in if \<not> raw_full_lit p Q36_INVOKE_START then None
         else
           (case qwen_tool_read_tag p of
              None \<Rightarrow> None
            | Some (tag, after) \<Rightarrow>
                (case qwen_tool_tag_value tag Q36_INVOKE_START of
                   None \<Rightarrow> None
                 | Some name \<Rightarrow>
                     (case parse_params (tool_schema_orders_find orders (Some name)) after [123] False of
                        None \<Rightarrow> None
                      | Some (args, p) \<Rightarrow>
                          let p = raw_skip_ascii_ws (drop (length Q36_INVOKE_END) p)
                          in if \<not> raw_full_lit p Q36_TOOL_CALLS_END then None
                             else Some (\<lparr>tc_id = None, tc_name = Some name, tc_arguments = Some (args @ [125])\<rparr>,
                                        drop (length Q36_TOOL_CALLS_END) p)))))"

lemma parse_params_shorter: "parse_params order p args wrote = Some (res, q) \<Longrightarrow> length q \<le> length p"
proof (induction order p args wrote rule: parse_params.induct)
  case (1 order p args wrote)
  have w: "length (raw_skip_ascii_ws p) \<le> length p" by (simp add: raw_skip_ascii_ws_def length_dropWhile_le)
  show ?case
  proof (cases "raw_full_lit (raw_skip_ascii_ws p) Q36_INVOKE_END")
    case True
    then show ?thesis using 1(2) w by (subst (asm) parse_params.simps) simp
  next
    case False
    obtain tag after name n where s: "raw_full_lit (raw_skip_ascii_ws p) Q36_PARAM_START"
      "qwen_tool_read_tag (raw_skip_ascii_ws p) = Some (tag, after)" "qwen_tool_tag_value tag Q36_PARAM_START = Some name"
      "find_lit_bounded after Q36_PARAM_END = Some n"
      "parse_params order (drop (n + length Q36_PARAM_END) after)
         (args @ (if wrote then [44] else []) @ json_escape name @ [58] @
          qwen_tool_append_json_value (take n after) (tool_schema_property_is_string order name)) True = Some (res, q)"
      using 1(2) False by (subst (asm) parse_params.simps) (auto split: if_splits option.splits)
    have "length q \<le> length (drop (n + length Q36_PARAM_END) after)"
      by (rule 1(1) [OF False _ s(2) refl s(3,4,5)]) (use s(1) in simp)
    then show ?thesis using read_tag_params_shorter [OF s(2)] by simp
  qed
qed

lemma parse_call_shorter: "parse_call orders p = Some (tc, q) \<Longrightarrow> p \<noteq> [] \<Longrightarrow> length q < length p"
proof -
  assume a: "parse_call orders p = Some (tc, q)" and ne: "p \<noteq> []"
  let ?p1 = "raw_skip_ascii_ws (drop (length Q36_TOOL_CALLS_START) p)"
  obtain tag after name args p2 where s: "qwen_tool_read_tag ?p1 = Some (tag, after)"
    "parse_params (tool_schema_orders_find orders (Some name)) after [123] False = Some (args, p2)"
    "q = drop (length Q36_TOOL_CALLS_END) (raw_skip_ascii_ws (drop (length Q36_INVOKE_END) p2))"
    using a by (auto simp: parse_call_def Let_def split: if_splits option.splits)
  have "length ?p1 \<le> length p" using length_dropWhile_le [of isspace] by (fastforce simp: raw_skip_ascii_ws_def intro: le_trans)
  moreover have "length q \<le> length p2"
    unfolding s(3) using length_dropWhile_le [of isspace "drop (length Q36_INVOKE_END) p2"] by (simp add: raw_skip_ascii_ws_def)
  ultimately show ?thesis using read_tag_shorter [OF s(1)] parse_params_shorter [OF s(2)] by linarith
qed

text \<open>
  The calls one after the other: the calls, the end of the last one and the position after the
  whitespace that follows it.
\<close>

function parse_calls :: "tool_schema_order list \<Rightarrow> bytes \<Rightarrow> bytes \<Rightarrow> tool_call list \<Rightarrow> (tool_call list \<times> bytes \<times> bytes) option" where
  "parse_calls orders p raw_end calls =
     (if p \<noteq> [] \<and> raw_full_lit p Q36_TOOL_CALLS_START then
        (case parse_call orders p of
           None \<Rightarrow> None
         | Some (tc, q) \<Rightarrow> parse_calls orders (raw_skip_ascii_ws q) q (calls @ [tc]))
      else Some (calls, raw_end, p))"
  by pat_completeness auto
termination
proof (relation "measure (\<lambda>(orders, p, _). length p)", goal_cases)
  case (2 orders p raw_end calls x tc q)
  then show ?case
    using parse_call_shorter [of orders p tc q] length_dropWhile_le [of isspace q] by (simp add: raw_skip_ascii_ws_def)
qed simp

declare parse_calls.simps [simp del]

text \<open>The message around the calls found from \<open>tool_search\<close> on.\<close>

definition parse_at_tool ::
    "bytes \<Rightarrow> tool_schema_order list \<Rightarrow> bytes \<Rightarrow> bool \<Rightarrow> (bytes \<times> bytes option \<times> tool_calls) option" where
  "parse_at_tool txt1 orders tool_search recovered_unclosed_tool =
     (case strstr tool_search Q36_TOOL_CALLS_START of
        None \<Rightarrow>
          (case split_reasoning_content txt1 (length txt1) of
             (content, reasoning) \<Rightarrow>
               Some (content, reasoning, \<lparr>calls_v = [], raw_tool_text = None, replay_empty_think = False\<rparr>))
      | Some n \<Rightarrow>
          let start = drop n tool_search;
              content_len = trim_tool_separator_ws txt1 0 (length txt1 - length start)
          in (case parse_calls orders start start [] of
                None \<Rightarrow> None
              | Some (calls, raw_end, p) \<Rightarrow>
                  if calls = [] then None
                  else if p \<noteq> [] then None
                  else
                    (case (if recovered_unclosed_tool then unterminated_reasoning_before_tool txt1 content_len
                           else split_reasoning_content txt1 content_len) of
                       (content, reasoning) \<Rightarrow>
                         Some (content, reasoning,
                           \<lparr>calls_v = calls, raw_tool_text = Some (take (length start - length raw_end) start),
                            replay_empty_think = False\<rparr>))))"

definition parse_generated_message_ex ::
    "bytes option \<Rightarrow> bool \<Rightarrow> tool_schema_order list \<Rightarrow> (bytes \<times> bytes option \<times> tool_calls) option" where
  "parse_generated_message_ex txt0 thinking orders =
     (let txt1 = (case txt0 of Some t \<Rightarrow> t | None \<Rightarrow> []);
          unterminated =
            (case unterminated_reasoning txt1 of
               (content, reasoning) \<Rightarrow>
                 Some (content, reasoning, \<lparr>calls_v = [], raw_tool_text = None, replay_empty_think = False\<rparr>))
      in if \<not> thinking then parse_at_tool txt1 orders txt1 False
         else
           (case find_tool_structural_text txt1 THINK_END True of
              Some think_end \<Rightarrow> parse_at_tool txt1 orders (drop (length THINK_END) think_end) False
            | None \<Rightarrow>
                (case strstr txt1 Q36_TOOL_CALLS_START of
                   None \<Rightarrow> unterminated
                 | Some n \<Rightarrow>
                     if strstr (drop n txt1) Q36_TOOL_CALLS_END = None then unterminated
                     else parse_at_tool txt1 orders (drop n txt1) True)))"

definition tool_parse_failure_recovery_finish :: "bytes \<Rightarrow> bytes" where
  "tool_parse_failure_recovery_finish finish =
     (if finish = str ''length'' then str ''length'' else str ''stop'')"

text \<open>
  What the caller sees: whether the text parsed, the message, the finish reason and whether a
  broken tool block was recovered as text.
\<close>

record response_parse =
  rp_ok :: bool
  rp_content :: bytes
  rp_reasoning :: "bytes option"
  rp_calls :: tool_calls
  rp_finish :: "bytes option"
  rp_err :: "bytes option"
  rp_recovered :: bool

definition parse_generated_message_for_response ::
    "bytes option \<Rightarrow> bool \<Rightarrow> tool_schema_order list \<Rightarrow> bool \<Rightarrow> bool \<Rightarrow> bytes option \<Rightarrow> response_parse" where
  "parse_generated_message_for_response txt0 thinking orders has_tools saw_tool_start finish_io =
     (let t = (case txt0 of Some t \<Rightarrow> t | None \<Rightarrow> []);
          none = \<lparr>calls_v = [], raw_tool_text = None, replay_empty_think = False\<rparr>
      in case parse_generated_message_ex (Some t) thinking orders of
           Some (content, reasoning, calls) \<Rightarrow>
             \<lparr>rp_ok = True, rp_content = content, rp_reasoning = reasoning, rp_calls = calls,
              rp_finish = finish_io, rp_err = None, rp_recovered = False\<rparr>
         | None \<Rightarrow>
             let finish = (case finish_io of Some f \<Rightarrow> f | None \<Rightarrow> str ''stop'')
             in if has_tools \<and> saw_tool_start \<and> finish \<noteq> str ''error''
                then \<lparr>rp_ok = False, rp_content = t, rp_reasoning = None, rp_calls = none,
                      rp_finish = Some (tool_parse_failure_recovery_finish finish),
                      rp_err = Some (str ''invalid tool call''), rp_recovered = True\<rparr>
                else \<lparr>rp_ok = False, rp_content = t, rp_reasoning = None, rp_calls = none,
                      rp_finish = finish_io, rp_err = None, rp_recovered = False\<rparr>)"


section \<open>Positions\<close>

lemma skip_suffix: "suffix (raw_skip_ascii_ws p) p"
  by (simp add: raw_skip_ascii_ws_def suffix_dropWhile)

lemma skip_idem [simp]: "raw_skip_ascii_ws (raw_skip_ascii_ws p) = raw_skip_ascii_ws p"
  by (simp add: raw_skip_ascii_ws_def)

lemma skip_tag [simp]: "raw_skip_ascii_ws (60 # r) = 60 # r" "raw_skip_ascii_ws (10 # r) = raw_skip_ascii_ws r"
  by (simp_all add: raw_skip_ascii_ws_def isspace_def)

lemma raw_full_lit_starts: "raw_full_lit p lit \<longleftrightarrow> starts_with lit p"
  by (simp add: raw_full_lit_def starts_with_def)

lemma read_tag_suffix: "qwen_tool_read_tag p = Some (tag, after) \<Longrightarrow> suffix after p"
proof -
  assume "qwen_tool_read_tag p = Some (tag, after)"
  then obtain c where "dropWhile (\<lambda>c. c \<noteq> 62) p = c # after" by (auto simp: qwen_tool_read_tag_def split: list.splits)
  then have "suffix (c # after) p" by (metis suffix_dropWhile)
  then show ?thesis by (rule suffix_ConsD)
qed

lemma parse_params_step:
  assumes "parse_params order p args wrote = Some (res, q)"
  obtains (stop) "raw_full_lit (raw_skip_ascii_ws p) Q36_INVOKE_END" "res = args" "q = raw_skip_ascii_ws p"
  | (param) tag after name n where "\<not> raw_full_lit (raw_skip_ascii_ws p) Q36_INVOKE_END"
      "raw_full_lit (raw_skip_ascii_ws p) Q36_PARAM_START"
      "qwen_tool_read_tag (raw_skip_ascii_ws p) = Some (tag, after)" "qwen_tool_tag_value tag Q36_PARAM_START = Some name"
      "find_lit_bounded after Q36_PARAM_END = Some n"
      "parse_params order (drop (n + length Q36_PARAM_END) after)
         (args @ (if wrote then [44] else []) @ json_escape name @ [58] @
          qwen_tool_append_json_value (take n after) (tool_schema_property_is_string order name)) True = Some (res, q)"
  using assms by (subst (asm) parse_params.simps) (auto split: if_splits option.splits)

lemma parse_params_suffix: "parse_params order p args wrote = Some (res, q) \<Longrightarrow> suffix q p"
proof (induction order p args wrote rule: parse_params.induct)
  case (1 order p args wrote)
  from 1(2) show ?case
  proof (cases rule: parse_params_step)
    case stop
    then show ?thesis by (simp add: skip_suffix)
  next
    case (param tag after name n)
    have "suffix q (drop (n + length Q36_PARAM_END) after)"
      by (rule 1(1) [OF param(1) _ param(3) refl param(4-6)]) (use param(2) in simp)
    then show ?thesis
      using read_tag_suffix [OF param(3)] skip_suffix suffix_drop suffix_order.trans by metis
  qed
qed

lemma parse_call_suffix: "parse_call orders p = Some (tc, q) \<Longrightarrow> suffix q p"
proof -
  assume a: "parse_call orders p = Some (tc, q)"
  let ?p1 = "raw_skip_ascii_ws (drop (length Q36_TOOL_CALLS_START) p)"
  obtain tag after name args p2 where s: "qwen_tool_read_tag ?p1 = Some (tag, after)"
    "parse_params (tool_schema_orders_find orders (Some name)) after [123] False = Some (args, p2)"
    "q = drop (length Q36_TOOL_CALLS_END) (raw_skip_ascii_ws (drop (length Q36_INVOKE_END) p2))"
    using a by (auto simp: parse_call_def Let_def split: if_splits option.splits)
  have "suffix q p2" unfolding s(3) by (metis skip_suffix suffix_drop suffix_order.trans)
  also have "suffix p2 after" by (rule parse_params_suffix [OF s(2)])
  also have "suffix after ?p1" by (rule read_tag_suffix [OF s(1)])
  also have "suffix ?p1 p" by (metis skip_suffix suffix_drop suffix_order.trans)
  finally show ?thesis .
qed

text \<open>The loop ends after the last call and the whitespace behind it.\<close>

lemma parse_calls_end:
  "parse_calls orders p raw_end calls = Some (cs, e, q) \<Longrightarrow> p = raw_skip_ascii_ws raw_end \<Longrightarrow>
    q = raw_skip_ascii_ws e \<and> suffix e raw_end \<and> (length calls < length cs \<longrightarrow> length e < length p)"
proof (induction orders p raw_end calls rule: parse_calls.induct)
  case (1 orders p raw_end calls)
  show ?case
  proof (cases "p \<noteq> [] \<and> raw_full_lit p Q36_TOOL_CALLS_START")
    case True
    then obtain tc r where r: "parse_call orders p = Some (tc, r)"
      "parse_calls orders (raw_skip_ascii_ws r) r (calls @ [tc]) = Some (cs, e, q)"
      using 1(2) by (subst (asm) parse_calls.simps) (auto split: option.splits)
    have i: "q = raw_skip_ascii_ws e \<and> suffix e r" using 1(1) [OF True r(1) refl r(2) refl] by simp
    have "suffix r raw_end" using parse_call_suffix [OF r(1)] 1(3) skip_suffix suffix_order.trans by metis
    moreover have "length r < length p" using parse_call_shorter [OF r(1)] True by simp
    ultimately show ?thesis using i suffix_order.trans suffix_length_le [of e r] by fastforce
  next
    case False
    then show ?thesis using 1(2,3) by (subst (asm) parse_calls.simps) auto
  qed
qed

lemma find_structural_suffix:
  "find_structural_loop s needle want_last found = Some r \<Longrightarrow> suffix r s \<or> found = Some r"
proof (induction s needle want_last found rule: find_structural_loop.induct)
  case (1 s needle want_last found)
  let ?f = "if starts_with needle s then Some s else found"
  consider (nil) "s = []" | (hit) "s \<noteq> []" "starts_with needle s \<and> \<not> want_last"
    | (param) "s \<noteq> []" "\<not> (starts_with needle s \<and> \<not> want_last)" "starts_with Q36_PARAM_START s"
    | (plain) "s \<noteq> []" "\<not> (starts_with needle s \<and> \<not> want_last)" "\<not> starts_with Q36_PARAM_START s" by blast
  then show ?case
  proof cases
    case nil
    then show ?thesis using 1(3) by (subst (asm) find_structural_loop.simps) simp
  next
    case hit
    then show ?thesis using 1(3) by (subst (asm) find_structural_loop.simps) simp
  next
    case plain
    have "find_structural_loop (tl s) needle want_last ?f = Some r"
      using 1(3) plain by (subst (asm) find_structural_loop.simps) (simp add: Let_def split: if_splits)
    from 1(2) [OF plain(1,2) refl plain(3) this] show ?thesis
      using suffix_order.trans [OF _ suffix_tl, of r s] by (auto split: if_splits)
  next
    case param
    show ?thesis
    proof (cases "dropWhile (\<lambda>c. c \<noteq> 62) s")
      case Nil
      have "?f = Some r"
        using 1(3) param unfolding find_structural_loop.simps [of s] Nil by (simp add: Let_def split: if_splits)
      then show ?thesis by (simp split: if_splits)
    next
      case (Cons c t)
      have t: "suffix t s" using Cons suffix_dropWhile suffix_ConsD by metis
      show ?thesis
      proof (cases "strstr t Q36_PARAM_END")
        case None
        then show ?thesis using 1(3) param Cons by (subst (asm) find_structural_loop.simps) (auto simp: Let_def split: if_splits)
      next
        case (Some n)
        have "find_structural_loop (drop (n + length Q36_PARAM_END) t) needle want_last ?f = Some r"
          using 1(3) param Cons Some by (subst (asm) find_structural_loop.simps) (simp add: Let_def split: if_splits)
        from 1(1) [OF param(1,2) refl param(3) Cons Some this] show ?thesis
          using suffix_order.trans [OF _ suffix_order.trans [OF suffix_drop t], of r] by (auto split: if_splits)
      qed
    qed
  qed
qed

lemma rtrim_split: "\<exists>ws. p = rtrim p @ ws \<and> (\<forall>c\<in>set ws. isspace c) \<and> length ws = length (takeWhile isspace (rev p))"
proof -
  have "p = rtrim p @ rev (takeWhile isspace (rev p))"
    unfolding rtrim_def by (metis rev_append rev_rev_ident takeWhile_dropWhile_id)
  then show ?thesis by (intro exI [of _ "rev (takeWhile isspace (rev p))"]) (auto dest: set_takeWhileD)
qed

lemma trim_rtrim:
  assumes "k \<le> length t"
  shows "take (trim_tool_separator_ws t 0 k) t = rtrim (take k t)"
proof -
  obtain ws where w: "take k t = rtrim (take k t) @ ws" "length ws = length (takeWhile isspace (rev (take k t)))"
    using rtrim_split by blast
  from arg_cong [OF w(1), of length] have "trim_tool_separator_ws t 0 k = length (rtrim (take k t))"
    using w(2) assms by (simp add: trim_tool_separator_ws_def)
  moreover have "length (rtrim (take k t)) \<le> k" using arg_cong [OF w(1), of length] assms by simp
  ultimately show ?thesis by (metis append_eq_conv_conj min.absorb1 take_take w(1))
qed


section \<open>Replaying a call\<close>

lemma suffix_split: "suffix s t \<Longrightarrow> t = take (length t - length s) t @ s"
  by (auto simp: suffix_def)

text \<open>What the parser found of a call at \<open>search\<close>, with its place in the text.\<close>

lemma calls_place:
  assumes search: "suffix search t"
    and found: "strstr search Q36_TOOL_CALLS_START = Some n" "start = drop n search"
    and calls: "parse_calls orders start start [] = Some (cs, e, [])" "cs \<noteq> []"
    and raw: "raw = take (length start - length e) start"
    and len: "content_len = trim_tool_separator_ws t 0 (length t - length start)"
  shows "\<exists>ws. t = take content_len t @ ws @ raw @ e \<and> (\<forall>c\<in>set ws. isspace c) \<and> (\<forall>c\<in>set e. isspace c) \<and> raw \<noteq> []"
proof -
  have suf: "suffix start t" using search unfolding found(2) by (metis suffix_drop suffix_order.trans)
  have "starts_with Q36_TOOL_CALLS_START start" using strstr_found [OF found(1)] found(2) by simp
  then have "raw_skip_ascii_ws start = start" by (cases start) (auto simp: tag_lits)
  from parse_calls_end [OF calls(1) this [symmetric]]
  have e: "raw_skip_ascii_ws e = []" "suffix e start" "length e < length start" using calls(2) by auto
  then have raws: "start = raw @ e" unfolding raw by (intro suffix_split)
  have ws: "\<forall>c\<in>set e. isspace c" using e(1) by (simp add: raw_skip_ascii_ws_def)
  have c: "take content_len t = rtrim (take (length t - length start) t)" unfolding len by (rule trim_rtrim) simp
  obtain ws where "take (length t - length start) t = take content_len t @ ws" "\<forall>c\<in>set ws. isspace c"
    using rtrim_split [of "take (length t - length start) t"] c by metis
  then show ?thesis using suffix_split [OF suf] raws ws e(3) by (metis append.assoc append_Nil less_irrefl)
qed

lemma split_reasoning_take: "split_reasoning_content t n = split_reasoning_content (take n t) (length (take n t))"
  unfolding split_reasoning_content_def take_all [OF order_refl] by (rule refl)

lemma parse_at_tool_calls:
  assumes "parse_at_tool t orders search recovered = Some (content, reasoning, calls)" "calls_v calls \<noteq> []"
  obtains n cs e where "strstr search Q36_TOOL_CALLS_START = Some n"
    "parse_calls orders (drop n search) (drop n search) [] = Some (cs, e, [])" "cs \<noteq> []"
    "(content, reasoning) = (if recovered
       then unterminated_reasoning_before_tool t (trim_tool_separator_ws t 0 (length t - length (drop n search)))
       else split_reasoning_content t (trim_tool_separator_ws t 0 (length t - length (drop n search))))"
    "calls = \<lparr>calls_v = cs, raw_tool_text = Some (take (length (drop n search) - length e) (drop n search)), replay_empty_think = False\<rparr>"
proof (cases "strstr search Q36_TOOL_CALLS_START")
  case None
  then show thesis using assms by (auto simp: parse_at_tool_def split: prod.splits)
next
  case (Some n)
  then show thesis
    using assms that [OF Some] unfolding parse_at_tool_def Let_def
    by (auto split: option.splits prod.splits if_splits)
qed

lemma parse_generated_at_tool:
  assumes "parse_generated_message_ex (Some t) thinking orders = Some (content, reasoning, calls)" "calls_v calls \<noteq> []"
  obtains search recovered where "parse_at_tool t orders search recovered = Some (content, reasoning, calls)"
    "suffix search t" "recovered \<longrightarrow> thinking"
proof -
  have s: "suffix (drop k r) t" if "suffix r t" for k r
    using that suffix_drop suffix_order.trans by metis
  have f: "suffix r t" if "find_tool_structural_text t THINK_END True = Some r" for r
    using find_structural_suffix that by (fastforce simp: find_tool_structural_text_def)
  have u: "unterminated_reasoning t \<noteq> (content, reasoning) \<or> calls \<noteq> \<lparr>calls_v = [], raw_tool_text = None, replay_empty_think = False\<rparr>"
    using assms(2) by auto
  show thesis
  proof (cases thinking)
    case False
    then show ?thesis using assms(1) that [of t False] by (simp add: parse_generated_message_ex_def)
  next
    case True
    show ?thesis
    proof (cases "find_tool_structural_text t THINK_END True")
      case (Some r)
      then show ?thesis
        using assms(1) True that [of "drop (length THINK_END) r" False] s [OF f [OF Some]]
        by (simp add: parse_generated_message_ex_def)
    next
      case None
      then show ?thesis
        using assms True that [of "drop n t" True for n] s [of t]
        by (auto simp: parse_generated_message_ex_def Let_def unterminated_reasoning_def split: option.splits if_splits)
    qed
  qed
qed

section \<open>Reading back what was rendered\<close>

lemma starts_with_char: "x \<notin> set lit \<Longrightarrow> starts_with lit (c @ x # r) \<longleftrightarrow> starts_with lit c"
proof (induction lit arbitrary: c)
  case (Cons a lit)
  then show ?case by (cases c) auto
qed simp

lemma strstr_char:
  assumes "x \<notin> set lit" "lit \<noteq> []"
  shows "strstr (c @ x # r) lit =
    (case strstr c lit of Some n \<Rightarrow> Some n | None \<Rightarrow> map_option (\<lambda>n. Suc (length c) + n) (strstr r lit))"
proof (induction c)
  case Nil
  show ?case using assms starts_with_char [OF assms(1), of "[]" r] by (cases lit; cases "strstr r lit") auto
next
  case (Cons a c)
  then show ?case
    using assms starts_with_char [OF assms(1), of "a # c" r]
    by (cases "strstr r lit") (auto split: option.split)
qed

lemma strstr_None: "lit \<noteq> [] \<Longrightarrow> (\<And>i. \<not> starts_with lit (drop i s)) \<Longrightarrow> strstr s lit = None"
proof (induction s)
  case (Cons c s)
  have "strstr s lit = None"
    by (rule Cons.IH [OF Cons.prems(1)]) (use Cons.prems(2) [of "Suc i" for i] in simp)
  then show ?case using Cons.prems(2) [of 0] by simp
qed simp

lemma find_lit_strstr: "lit \<noteq> [] \<Longrightarrow> find_lit_bounded s lit = strstr s lit"
proof (induction s)
  case Nil
  then show ?case by (simp add: find_lit_bounded_def)
next
  case (Cons c s)
  show ?case
  proof (cases "length (c # s) < length lit")
    case True
    then show ?thesis using Cons by (auto simp: find_lit_bounded_def starts_with_def)
  next
    case False
    let ?P = "\<lambda>s i. take (length lit) (drop i s) = lit"
    have u: "[0..<length (c # s) - length lit + 1] = 0 # map Suc [0..<length (c # s) - length lit]"
      by (simp add: upt_conv_Cons map_Suc_upt)
    have f: "find (?P (c # s)) (map Suc xs) = map_option Suc (find (?P s) xs)" for xs by (induction xs) auto
    have tail: "find (?P s) [0..<length (c # s) - length lit] = find_lit_bounded s lit"
    proof (cases "length s < length lit")
      case True
      then show ?thesis using False Cons.prems by (simp add: find_lit_bounded_def)
    next
      case False
      then have "length (c # s) - length lit = length s - length lit + 1" by simp
      then show ?thesis using False Cons.prems by (simp add: find_lit_bounded_def)
    qed
    have "starts_with lit (c # s) \<longleftrightarrow> ?P (c # s) 0" using False by (simp add: starts_with_def)
    then show ?thesis
      using Cons False tail unfolding find_lit_bounded_def [of "c # s"] u find.simps f by simp
  qed
qed

text \<open>A name that a tag can carry: no \<^verbatim>\<open>></\<close> in it and no whitespace at its end.\<close>

definition name_ok :: "bytes \<Rightarrow> bool" where
  "name_ok k \<longleftrightarrow> k \<noteq> [] \<and> 62 \<notin> set k \<and> \<not> isspace (last k)"

text \<open>A value the schema gives back with its type.\<close>

definition arg_ok :: "tool_schema_order option \<Rightarrow> json_arg \<Rightarrow> bool" where
  "arg_ok order a \<longleftrightarrow>
     arg_wf a \<and> name_ok (arg_key a) \<and>
     (if arg_is_string a
      then tool_schema_property_is_string order (arg_key a) \<or> \<not> json_raw_value_is_complete (Some (arg_value a))
      else \<not> tool_schema_property_is_string order (arg_key a))"

lemma rtrim_id: "\<not> isspace (last k) \<Longrightarrow> rtrim k = k"
  by (cases k rule: rev_cases) (auto simp: rtrim_def)

lemma read_tag_name:
  assumes "name_ok k" "62 \<notin> set p"
  shows "qwen_tool_read_tag (p @ k @ 62 # r) = Some (p @ k @ [62], r)"
proof -
  have "62 \<notin> set (p @ k)" using assms by (simp add: name_ok_def)
  then have "takeWhile (\<lambda>c. c \<noteq> 62) ((p @ k) @ 62 # r) = p @ k" "dropWhile (\<lambda>c. c \<noteq> 62) ((p @ k) @ 62 # r) = 62 # r"
    by (subst takeWhile_append2 dropWhile_append2; auto)+
  then show ?thesis by (simp add: qwen_tool_read_tag_def)
qed

lemma tag_value_name: "name_ok k \<Longrightarrow> qwen_tool_tag_value (p @ k @ [62]) p = Some k"
  by (auto simp: qwen_tool_tag_value_def name_ok_def rtrim_id butlast_append)

lemma compact_complete: "compact_value v \<Longrightarrow> json_raw_value_is_complete (Some v)"
  using compact_no_ws [of v "[]"] by (simp add: json_raw_value_is_complete_def compact_value_def json_ws_def)

lemma append_json_value_arg:
  assumes "arg_ok order a"
  shows "qwen_tool_append_json_value ([10] @ tool_text_escape (arg_value a) Q36_PARAM_END @ [10])
      (tool_schema_property_is_string order (arg_key a)) =
    (if arg_is_string a then json_escape (arg_value a) else arg_value a)"
proof (cases "arg_is_string a")
  case True
  then show ?thesis
    using assms by (auto simp: qwen_tool_append_json_value_def Let_def unescape_escape [OF param_end_delimiter] arg_ok_def)
next
  case False
  then have "compact_value (arg_value a)" using assms by (simp add: arg_ok_def arg_wf_def)
  then show ?thesis
    using assms False
    by (simp add: qwen_tool_append_json_value_def Let_def unescape_escape [OF param_end_delimiter] arg_ok_def
        compact_complete compact_minify)
qed

lemma param_end_found:
  "strstr ([10] @ tool_text_escape v Q36_PARAM_END @ [10] @ Q36_PARAM_END @ r) Q36_PARAM_END =
    Some (length (tool_text_escape v Q36_PARAM_END) + 2)"
proof -
  let ?e = "tool_text_escape v Q36_PARAM_END"
  have lit: "10 \<notin> set Q36_PARAM_END" "Q36_PARAM_END \<noteq> []" by (simp_all add: tag_lits)
  have "strstr ?e Q36_PARAM_END = None"
    by (rule strstr_None [OF lit(2)]) (rule escape_no_delimiter [OF param_end_delimiter])
  then have e: "strstr (?e @ 10 # Q36_PARAM_END @ r) Q36_PARAM_END = Some (length ?e + 1)"
    using strstr_char [OF lit, of ?e "Q36_PARAM_END @ r"] by (cases "Q36_PARAM_END") (auto simp: tag_lits)
  then show ?thesis using strstr_char [OF lit, of "[]" "?e @ 10 # Q36_PARAM_END @ r"] by (simp add: tag_lits)
qed

lemma parse_params_newline: "parse_params order (10 # p) = parse_params order p"
  by (intro ext) (subst (1 2) parse_params.simps, simp)

lemma parse_params_one:
  assumes "arg_ok order a"
  shows "parse_params order (append_qwen_parameter a @ r) args wrote =
    parse_params order r (args @ (if wrote then [44] else []) @ append_json_arg_pair a) True"
proof -
  let ?e = "tool_text_escape (arg_value a) Q36_PARAM_END"
  let ?after = "[10] @ ?e @ [10] @ Q36_PARAM_END @ 10 # r"
  have n: "name_ok (arg_key a)" using assms by (simp add: arg_ok_def)
  have p: "append_qwen_parameter a @ r = Q36_PARAM_START @ arg_key a @ 62 # ?after"
    by (simp add: append_qwen_parameter_def tag_lits)
  have s: "raw_skip_ascii_ws (Q36_PARAM_START @ x) = Q36_PARAM_START @ x" for x
    by (simp add: tag_lits)
  have ni: "\<not> starts_with Q36_INVOKE_END (Q36_PARAM_START @ x)" for x
    by (simp add: tag_lits)
  have t: "qwen_tool_read_tag (Q36_PARAM_START @ arg_key a @ 62 # ?after) = Some (Q36_PARAM_START @ arg_key a @ [62], ?after)"
    by (rule read_tag_name [OF n]) (simp add: tag_lits)
  have f: "find_lit_bounded ?after Q36_PARAM_END = Some (length ?e + 2)"
    using param_end_found [of "arg_value a" "10 # r"] by (subst find_lit_strstr) (simp_all add: tag_lits)
  have d: "drop (length ?e + 2 + length Q36_PARAM_END) ?after = 10 # r" "take (length ?e + 2) ?after = [10] @ ?e @ [10]"
    by simp_all
  show ?thesis
    unfolding p
    by (subst parse_params.simps)
      (simp only: s ni t f d tag_value_name [OF n] append_json_value_arg [OF assms] parse_params_newline
        append_json_arg_pair_def option.case prod.case raw_full_lit_starts starts_with_append if_True if_False simp_thms append.assoc)
qed

lemma parse_params_all:
  "\<forall>a\<in>set as. arg_ok order a \<Longrightarrow>
    parse_params order (concat (map append_qwen_parameter as) @ Q36_INVOKE_END @ r) args wrote =
      Some (args @ append_pairs wrote as, Q36_INVOKE_END @ r)"
proof (induction as arbitrary: args wrote)
  case Nil
  then show ?case by (subst parse_params.simps) (simp add: raw_full_lit_starts, simp add: tag_lits)
next
  case (Cons a as)
  then show ?case by (simp add: parse_params_one)
qed


text \<open>A stored call that can be rendered and read back, and what it is read back as.\<close>

definition order_keys :: "tool_schema_order option \<Rightarrow> bytes list" where
  "order_keys order = (case order of Some o1 \<Rightarrow> map prop_name (order_prop o1) | None \<Rightarrow> [])"

definition call_ok :: "tool_schema_order list \<Rightarrow> tool_call \<Rightarrow> bool" where
  "call_ok orders tc \<longleftrightarrow>
     (case (tc_name tc, json_args_parse (tc_arguments tc)) of
        (Some name, Some args) \<Rightarrow> name_ok name \<and> (\<forall>a\<in>set args. arg_ok (tool_schema_orders_find orders (Some name)) a)
      | _ \<Rightarrow> False)"

definition norm_call :: "tool_schema_order list \<Rightarrow> tool_call \<Rightarrow> tool_call" where
  "norm_call orders tc =
     tc\<lparr>tc_id := None,
        tc_arguments :=
          map_option (\<lambda>args. [123] @ append_pairs False (ordered_args (order_keys (tool_schema_orders_find orders (tc_name tc))) args) @ [125])
            (json_args_parse (tc_arguments tc))\<rparr>"

lemma call_okE:
  assumes "call_ok orders tc"
  obtains name args where "tc_name tc = Some name" "json_args_parse (tc_arguments tc) = Some args" "name_ok name"
    "\<forall>a\<in>set (ordered_args ks args). arg_ok (tool_schema_orders_find orders (Some name)) a"
proof -
  obtain name args where a: "tc_name tc = Some name" "json_args_parse (tc_arguments tc) = Some args" "name_ok name"
    "\<forall>a\<in>set args. arg_ok (tool_schema_orders_find orders (Some name)) a"
    using assms by (auto simp: call_ok_def split: option.splits)
  have "mset (ordered_args ks args) = mset args"
    by (rule ordered_args_mset) (use a(4) in \<open>simp add: arg_ok_def arg_wf_def\<close>)
  then have "set (ordered_args ks args) = set args" by (metis set_mset_mset)
  then show thesis using that a by metis
qed

lemma parse_call_render:
  assumes "call_ok orders tc"
  shows "parse_call orders (render_call orders tc @ r) = Some (norm_call orders tc, r)"
proof -
  let ?ord = "tool_schema_orders_find orders (tc_name tc)"
  obtain name args where a: "tc_name tc = Some name" "json_args_parse (tc_arguments tc) = Some args" "name_ok name"
    "\<forall>a\<in>set (ordered_args (order_keys ?ord) args). arg_ok (tool_schema_orders_find orders (Some name)) a"
    using call_okE [OF assms] by blast
  let ?as = "ordered_args (order_keys ?ord) args"
  let ?params = "concat (map append_qwen_parameter ?as) @ Q36_INVOKE_END @ 10 # Q36_TOOL_CALLS_END @ r"
  have e: "render_call orders tc @ r = Q36_TOOL_CALLS_START @ 10 # Q36_INVOKE_START @ name @ 62 # 10 # ?params"
    by (simp add: render_call_def append_qwen_arguments_def order_keys_def a tag_lits)
  have s: "raw_skip_ascii_ws (10 # Q36_INVOKE_START @ x) = Q36_INVOKE_START @ x" for x by (simp add: tag_lits)
  have t: "qwen_tool_read_tag (Q36_INVOKE_START @ name @ 62 # 10 # ?params) = Some (Q36_INVOKE_START @ name @ [62], 10 # ?params)"
    by (rule read_tag_name [OF a(3)]) (simp add: tag_lits)
  have p: "parse_params ?ord (10 # ?params) [123] False = Some ([123] @ append_pairs False ?as, Q36_INVOKE_END @ 10 # Q36_TOOL_CALLS_END @ r)"
    using parse_params_all [of ?as ?ord] a by (simp add: parse_params_newline)
  have w: "raw_skip_ascii_ws (Q36_TOOL_CALLS_END @ r) = Q36_TOOL_CALLS_END @ r" by (simp add: tag_lits)
  have d: "drop (length l) (l @ x) = x" for l x :: bytes by simp
  have n: "norm_call orders tc =
      \<lparr>tc_id = None, tc_name = Some name, tc_arguments = Some ([123] @ append_pairs False ?as @ [125])\<rparr>"
    using a(1,2) by (cases tc) (simp add: norm_call_def)
  show ?thesis
    unfolding e parse_call_def Let_def d s t
    using p by (simp add: raw_full_lit_starts tag_value_name [OF a(3)] w n a(1))
qed

lemma parse_calls_render:
  "\<forall>tc\<in>set tcs. call_ok orders tc \<Longrightarrow> tcs \<noteq> [] \<Longrightarrow>
    parse_calls orders (render_calls orders tcs) e calls = Some (calls @ map (norm_call orders) tcs, [], [])"
proof (induction orders tcs arbitrary: e calls rule: render_calls.induct)
  case (2 orders tc)
  have c: "parse_call orders (render_call orders tc) = Some (norm_call orders tc, [])"
    using parse_call_render [of orders tc "[]"] 2 by simp
  have h: "render_call orders tc \<noteq> []" "starts_with Q36_TOOL_CALLS_START (render_call orders tc)"
    by (simp_all add: render_call_def tag_lits)
  show ?case
    by (subst parse_calls.simps) (simp add: c h raw_full_lit_starts raw_skip_ascii_ws_def parse_calls.simps [of orders "[]"])
next
  case (3 orders tc tc2 tcs)
  let ?r = "render_calls orders (tc2 # tcs)"
  have c: "parse_call orders (render_call orders tc @ 10 # ?r) = Some (norm_call orders tc, 10 # ?r)"
    using parse_call_render [of orders tc "10 # ?r"] 3(2) by simp
  have h: "render_call orders tc \<noteq> []" "starts_with Q36_TOOL_CALLS_START (render_call orders tc @ x)" for x
    by (simp_all add: render_call_def tag_lits)
  have r: "raw_skip_ascii_ws ?r = ?r" by (cases tcs) (simp_all add: render_call_def lit_simps)
  show ?case
    using 3 by (subst parse_calls.simps) (simp add: c h r raw_full_lit_starts)
qed simp

lemma render_calls_start: "tcs \<noteq> [] \<Longrightarrow> starts_with Q36_TOOL_CALLS_START (render_calls orders tcs)"
  by (cases tcs; cases "tl tcs") (auto simp: render_call_def tag_lits)

lemma trim_content:
  assumes "t = content @ sep @ s" "\<forall>c\<in>set sep. isspace c" "content = [] \<or> \<not> isspace (last content)"
  shows "trim_tool_separator_ws t 0 (length t - length s) = length content"
proof -
  have "takeWhile isspace (rev sep @ rev content) = rev sep @ takeWhile isspace (rev content)"
    using assms(2) by (intro takeWhile_append2) simp
  moreover have "takeWhile isspace (rev content) = []"
    using assms(3) by (cases content rule: rev_cases) auto
  ultimately show ?thesis by (simp add: trim_tool_separator_ws_def assms(1))
qed

text \<open>The rendered calls behind a text in which the tag was not found, with the separator.\<close>

definition separator :: "bytes \<Rightarrow> bytes" where
  "separator content = (if content \<noteq> [] then [10, 10] else [])"

lemma strstr_rendered:
  assumes "strstr content Q36_TOOL_CALLS_START = None" "tcs \<noteq> []"
  shows "strstr (content @ separator content @ render_calls orders tcs) Q36_TOOL_CALLS_START =
    Some (length content + length (separator content))"
proof -
  have l: "10 \<notin> set Q36_TOOL_CALLS_START" "Q36_TOOL_CALLS_START \<noteq> []" by (simp_all add: tag_lits)
  have z: "strstr (render_calls orders tcs) Q36_TOOL_CALLS_START = Some 0"
    using render_calls_start [OF assms(2), of orders] by (cases "render_calls orders tcs") (auto simp: tag_lits)
  have "strstr (10 # render_calls orders tcs) Q36_TOOL_CALLS_START = Some 1"
    using z by (simp add: tag_lits)
  then show ?thesis
    using z assms(1) strstr_char [OF l, of content "10 # render_calls orders tcs"] by (simp add: separator_def)
qed

definition plain_calls :: "tool_call list \<Rightarrow> tool_calls" where
  "plain_calls tcs = \<lparr>calls_v = tcs, raw_tool_text = None, replay_empty_think = False\<rparr>"

lemma append_calls_plain:
  "tcs \<noteq> [] \<Longrightarrow> append_qwen_tool_calls_text (plain_calls tcs) orders (content \<noteq> []) = separator content @ render_calls orders tcs"
  by (simp add: append_qwen_tool_calls_text_def plain_calls_def separator_def)

section \<open>Properties\<close>

text \<open>
  C16. What the parser keeps of a message with tool calls replays exactly: the generated text is the
  content's text, whitespace, the text \<^verbatim>\<open>append_qwen_tool_calls_text\<close> renders for the calls it
  returned, and trailing whitespace, so a later prompt repeats the sampled bytes.
\<close>

theorem tool_text_replay:
  assumes "parse_generated_message_ex (Some t) thinking orders = Some (content, reasoning, calls)" "calls_v calls \<noteq> []"
  shows "\<exists>pre ws ws'. t = pre @ ws @ append_qwen_tool_calls_text calls orders' False @ ws' \<and>
    (\<forall>c\<in>set (ws @ ws'). isspace c) \<and>
    ((content, reasoning) = split_reasoning_content pre (length pre) \<or> thinking \<and> content = [])"
proof -
  obtain search recovered where p: "parse_at_tool t orders search recovered = Some (content, reasoning, calls)"
      "suffix search t" "recovered \<longrightarrow> thinking"
    using assms by (rule parse_generated_at_tool)
  obtain n cs e where s: "strstr search Q36_TOOL_CALLS_START = Some n"
    "parse_calls orders (drop n search) (drop n search) [] = Some (cs, e, [])" "cs \<noteq> []"
    "(content, reasoning) = (if recovered
       then unterminated_reasoning_before_tool t (trim_tool_separator_ws t 0 (length t - length (drop n search)))
       else split_reasoning_content t (trim_tool_separator_ws t 0 (length t - length (drop n search))))"
    "calls = \<lparr>calls_v = cs, raw_tool_text = Some (take (length (drop n search) - length e) (drop n search)), replay_empty_think = False\<rparr>"
    using p(1) assms(2) by (rule parse_at_tool_calls)
  let ?len = "trim_tool_separator_ws t 0 (length t - length (drop n search))"
  obtain ws where ws: "t = take ?len t @ ws @ take (length (drop n search) - length e) (drop n search) @ e"
      "\<forall>c\<in>set ws. isspace c" "\<forall>c\<in>set e. isspace c" "take (length (drop n search) - length e) (drop n search) \<noteq> []"
    using calls_place [OF p(2) s(1) refl s(2,3) refl refl] by blast
  have r: "append_qwen_tool_calls_text calls orders' False = take (length (drop n search) - length e) (drop n search)"
    using s(3,5) ws(4) by (auto simp: append_qwen_tool_calls_text_def split: list.split)
  have c: "(content, reasoning) = split_reasoning_content (take ?len t) (length (take ?len t)) \<or> thinking \<and> content = []"
    using s(4) p(3) split_reasoning_take [of t ?len]
    by (auto simp: unterminated_reasoning_before_tool_def Let_def split: if_splits)
  show ?thesis
    by (intro exI [of _ "take ?len t"] exI [of _ ws] exI [of _ e] conjI c) (use ws r in auto)
qed


text \<open>
  C15. Rendered tool calls are read back: a message that ends in the text of its calls parses to the
  same content and the same calls, each argument with its name, its type and its value (whatever
  tags, newlines or escapes the strings hold), in the order of the schema.
\<close>

theorem tool_calls_round_trip:
  assumes "tcs \<noteq> []" "\<forall>tc\<in>set tcs. call_ok orders tc"
    and "strstr content Q36_TOOL_CALLS_START = None" "content = [] \<or> \<not> isspace (last content)"
  shows "parse_generated_message_ex
      (Some (content @ append_qwen_tool_calls_text (plain_calls tcs) orders (content \<noteq> []))) False orders =
    (case split_reasoning_content content (length content) of
       (content', reasoning) \<Rightarrow>
         Some (content', reasoning,
           (plain_calls (map (norm_call orders) tcs))\<lparr>raw_tool_text := Some (render_calls orders tcs)\<rparr>))"
proof -
  let ?t = "content @ separator content @ render_calls orders tcs"
  have d: "drop (length content + length (separator content)) ?t = render_calls orders tcs" by simp
  have l: "trim_tool_separator_ws ?t 0 (length ?t - length (render_calls orders tcs)) = length content"
    by (rule trim_content [OF refl _ assms(4)]) (simp add: separator_def isspace_def)
  have s: "split_reasoning_content ?t (length content) = split_reasoning_content content (length content)"
    using split_reasoning_take [of ?t "length content"] by simp
  have p: "parse_calls orders (render_calls orders tcs) (render_calls orders tcs) [] = Some (map (norm_call orders) tcs, [], [])"
    using parse_calls_render [OF assms(2,1)] by simp
  show ?thesis
    unfolding append_calls_plain [OF assms(1)] parse_generated_message_ex_def parse_at_tool_def Let_def
      option.case strstr_rendered [OF assms(3,1)] d l s p prod.case
    using assms(1) by (simp add: plain_calls_def split: prod.split)
qed

text \<open>
  In a message that was thought over, text without tags before and after the end of the thinking.
\<close>

lemma structural_plain:
  "60 \<notin> set p \<Longrightarrow> find_structural_loop (p @ r) THINK_END w found = find_structural_loop r THINK_END w found"
proof (induction p)
  case (Cons c p)
  then have "\<not> starts_with THINK_END ((c # p) @ r)" "\<not> starts_with Q36_PARAM_START ((c # p) @ r)" by (simp_all add: tag_lits)
  then show ?case using Cons by (subst find_structural_loop.simps) simp
qed simp

lemma structural_tag:
  assumes "\<not> starts_with THINK_END (60 # p @ r)" "\<not> starts_with Q36_PARAM_START (60 # p @ r)" "60 \<notin> set p"
  shows "find_structural_loop (60 # p @ r) THINK_END w found = find_structural_loop r THINK_END w found"
  using assms structural_plain [OF assms(3)] by (subst find_structural_loop.simps) simp

lemma structural_nil [simp]: "find_structural_loop [] THINK_END w found = found"
  by (subst find_structural_loop.simps) simp

text \<open>The body of a parameter is passed over, whatever is in it.\<close>

lemma structural_param:
  assumes "62 \<notin> set (arg_key a)"
  shows "find_structural_loop (append_qwen_parameter a @ r) THINK_END w found = find_structural_loop r THINK_END w found"
proof -
  let ?e = "tool_text_escape (arg_value a) Q36_PARAM_END"
  let ?t = "[10] @ ?e @ [10] @ Q36_PARAM_END @ 10 # r"
  have p: "append_qwen_parameter a @ r = Q36_PARAM_START @ arg_key a @ 62 # ?t"
    by (simp add: append_qwen_parameter_def tag_lits)
  have "62 \<notin> set (Q36_PARAM_START @ arg_key a)" using assms by (simp add: tag_lits)
  then have dw: "dropWhile (\<lambda>c. c \<noteq> 62) ((Q36_PARAM_START @ arg_key a) @ 62 # ?t) = 62 # ?t"
    by (subst dropWhile_append2) auto
  have st: "strstr ?t Q36_PARAM_END = Some (length ?e + 2)" by (rule param_end_found)
  have n: "\<not> starts_with THINK_END (Q36_PARAM_START @ x)" "Q36_PARAM_START @ x \<noteq> []" for x by (simp_all add: tag_lits)
  have "find_structural_loop (Q36_PARAM_START @ arg_key a @ 62 # ?t) THINK_END w found =
      find_structural_loop (drop (length ?e + 2 + length Q36_PARAM_END) ?t) THINK_END w found"
    using dw st n by (subst find_structural_loop.simps) simp
  also have "drop (length ?e + 2 + length Q36_PARAM_END) ?t = [10] @ r" by simp
  finally show ?thesis using structural_plain [of "[10]" r w found] by (simp add: p)
qed

lemma structural_params:
  "\<forall>a\<in>set as. 62 \<notin> set (arg_key a) \<Longrightarrow>
    find_structural_loop (concat (map append_qwen_parameter as) @ r) THINK_END w found = find_structural_loop r THINK_END w found"
  by (induction as) (simp_all add: structural_param)

definition name_plain :: "tool_call \<Rightarrow> bool" where
  "name_plain tc \<longleftrightarrow> (case tc_name tc of Some n \<Rightarrow> 60 \<notin> set n | None \<Rightarrow> True)"

lemma structural_call:
  assumes "call_ok orders tc" "name_plain tc"
  shows "find_structural_loop (render_call orders tc @ r) THINK_END w found = find_structural_loop r THINK_END w found"
proof -
  let ?ord = "tool_schema_orders_find orders (tc_name tc)"
  obtain name args where a: "tc_name tc = Some name" "json_args_parse (tc_arguments tc) = Some args" "name_ok name"
    "\<forall>a\<in>set (ordered_args (order_keys ?ord) args). arg_ok (tool_schema_orders_find orders (Some name)) a"
    using call_okE [OF assms(1)] by blast
  let ?as = "ordered_args (order_keys ?ord) args"
  have k: "\<forall>a\<in>set ?as. 62 \<notin> set (arg_key a)" using a(4) by (simp add: arg_ok_def name_ok_def)
  have n: "60 \<notin> set name" using assms(2) a(1) by (simp add: name_plain_def)
  have e: "render_call orders tc @ r =
      60 # (str ''tool_call>'' @ [10]) @ 60 # (str ''function='' @ name @ str ''>'' @ [10]) @
      concat (map append_qwen_parameter ?as) @ 60 # (str ''/function>'' @ [10]) @ 60 # str ''/tool_call>'' @ r"
    by (simp add: render_call_def append_qwen_arguments_def order_keys_def a tag_lits)
  have t: "find_structural_loop (60 # p @ x) THINK_END w found = find_structural_loop x THINK_END w found"
    if "p = str ''tool_call>'' @ [10] \<or> p = str ''/function>'' @ [10] \<or> p = str ''/tool_call>'' \<or>
      p = str ''function='' @ name @ str ''>'' @ [10]" for p x
    by (rule structural_tag) (use that n in \<open>auto simp: tag_lits\<close>)
  show ?thesis unfolding e by (simp only: t structural_params [OF k] simp_thms)
qed

lemma structural_calls:
  "\<forall>tc\<in>set tcs. call_ok orders tc \<and> name_plain tc \<Longrightarrow>
    find_structural_loop (render_calls orders tcs) THINK_END w found = found"
proof (induction orders tcs rule: render_calls.induct)
  case (2 orders tc)
  then show ?case using structural_call [of orders tc "[]"] by simp
next
  case (3 orders tc tc2 tcs)
  then show ?case
    using structural_call [of orders tc "10 # render_calls orders (tc2 # tcs)"]
      structural_plain [of "[10]" "render_calls orders (tc2 # tcs)"] by simp
qed simp

lemma structural_think:
  "find_structural_loop (THINK_END @ r) THINK_END w found =
    (if w then find_structural_loop r THINK_END w (Some (THINK_END @ r)) else Some (THINK_END @ r))"
proof -
  have "\<not> starts_with Q36_PARAM_START (THINK_END @ r)" "THINK_END \<noteq> []" by (simp_all add: tag_lits)
  moreover have "tl (THINK_END @ r) = str ''/think>'' @ r" by (simp add: tag_lits)
  moreover have "find_structural_loop (str ''/think>'' @ r) THINK_END w f = find_structural_loop r THINK_END w f" for f
    by (rule structural_plain) (simp add: lit_simps)
  ultimately show ?thesis by (subst find_structural_loop.simps) (cases w; simp add: Let_def)
qed

text \<open>
  After the thinking, too: where neither the thinking nor the content holds a tag, the message is
  split at the end of the thinking and its calls are read back, even when their strings hold the tags
  that end the thinking or open a call.
\<close>

theorem tool_calls_after_thinking:
  assumes "tcs \<noteq> []" "\<forall>tc\<in>set tcs. call_ok orders tc \<and> name_plain tc"
    and "60 \<notin> set reason" "60 \<notin> set content" "\<not> isspace (last content)" "content \<noteq> []"
  shows "parse_generated_message_ex
      (Some (reason @ THINK_END @ content @ append_qwen_tool_calls_text (plain_calls tcs) orders True)) True orders =
    Some (content, Some reason,
      (plain_calls (map (norm_call orders) tcs))\<lparr>raw_tool_text := Some (render_calls orders tcs)\<rparr>)"
proof -
  let ?calls = "render_calls orders tcs"
  let ?r = "content @ separator content @ ?calls"
  let ?t = "reason @ THINK_END @ ?r"
  have sep: "60 \<notin> set (separator content)" by (simp add: separator_def)
  have f: "find_tool_structural_text ?t THINK_END True = Some (THINK_END @ ?r)"
    using assms(2-4) structural_plain [OF sep]
    by (simp add: find_tool_structural_text_def structural_plain structural_think structural_calls)
  have z: "strstr content Q36_TOOL_CALLS_START = None"
  proof (rule strstr_None)
    show "\<not> starts_with Q36_TOOL_CALLS_START (drop i content)" for i
    proof -
      have "60 \<notin> set (drop i content)" using assms(4) in_set_dropD by metis
      then show ?thesis by (cases "drop i content") (auto simp: tag_lits)
    qed
  qed (simp add: tag_lits)
  have d: "drop (length content + length (separator content)) ?r = ?calls" "drop (length THINK_END) (THINK_END @ ?r) = ?r" by simp_all
  have l: "trim_tool_separator_ws ?t 0 (length ?t - length ?calls) = length (reason @ THINK_END @ content)"
    by (rule trim_content [of _ _ "separator content"])
      (use assms(5,6) in \<open>simp_all add: separator_def isspace_def tag_lits\<close>)
  have s: "split_reasoning_content ?t (length (reason @ THINK_END @ content)) = (content, Some reason)"
  proof -
    have "\<not> starts_with THINK_START (reason @ THINK_END @ content)"
      using assms(3) by (cases reason) (auto simp: tag_lits)
    moreover have "find_tool_structural_text (reason @ THINK_END @ content) THINK_END False = Some (THINK_END @ content)"
      by (simp add: find_tool_structural_text_def structural_plain [OF assms(3)] structural_think)
    moreover have "drop 8 (THINK_END @ content) = content" by (simp add: tag_lits)
    moreover have "take (length (reason @ THINK_END @ content)) ?t = reason @ THINK_END @ content" by simp
    ultimately show ?thesis unfolding split_reasoning_content_def Let_def by simp
  qed
  have p: "parse_calls orders ?calls ?calls [] = Some (map (norm_call orders) tcs, [], [])"
    using parse_calls_render [of tcs orders] assms(1,2) by simp
  have a: "append_qwen_tool_calls_text (plain_calls tcs) orders True = separator content @ ?calls"
    using append_calls_plain [OF assms(1), of orders content] assms(6) by simp
  show ?thesis
    unfolding a parse_generated_message_ex_def parse_at_tool_def Let_def option.case f strstr_rendered [OF z assms(1)] d l s p prod.case
    using assms(1) by (simp add: plain_calls_def)
qed


text \<open>
  A call with a string full of tags, a literal and an object, of a tool whose schema has the string
  second.
\<close>

definition sample_orders :: "tool_schema_order list" where
  "sample_orders =
     [\<lparr>order_name = str ''write'',
       order_prop = [\<lparr>prop_name = str ''n'', prop_is_string = False\<rparr>, \<lparr>prop_name = str ''data'', prop_is_string = True\<rparr>]\<rparr>]"

definition sample_call :: tool_call where
  "sample_call = \<lparr>tc_id = Some (str ''call_1''), tc_name = Some (str ''write''),
     tc_arguments = Some (str ''{ \"data\" : \"</parameter></think><tool_call>&lt;/parameter>'' @ [92, 110] @ str ''\", \"n\":null,\"o\" :{\"a\": true} }'')\<rparr>"

lemma sample_call_ok: "\<forall>tc\<in>set [sample_call]. call_ok sample_orders tc \<and> name_plain tc"
  by code_simp

theorem tool_calls_round_trip_witness:
  "parse_generated_message_ex
     (Some (str ''ok'' @ append_qwen_tool_calls_text (plain_calls [sample_call, sample_call]) sample_orders (str ''ok'' \<noteq> []))) False sample_orders =
   (case split_reasoning_content (str ''ok'') (length (str ''ok'')) of
      (content, reasoning) \<Rightarrow>
        Some (content, reasoning,
          (plain_calls (map (norm_call sample_orders) [sample_call, sample_call]))\<lparr>raw_tool_text :=
             Some (render_calls sample_orders [sample_call, sample_call])\<rparr>))"
  by (rule tool_calls_round_trip) (use sample_call_ok in \<open>simp_all add: tag_lits isspace_def\<close>)

theorem tool_calls_after_thinking_witness:
  "parse_generated_message_ex
     (Some (str ''hm'' @ THINK_END @ str ''ok'' @ append_qwen_tool_calls_text (plain_calls [sample_call]) sample_orders True)) True sample_orders =
   Some (str ''ok'', Some (str ''hm''),
     (plain_calls (map (norm_call sample_orders) [sample_call]))\<lparr>raw_tool_text := Some (render_calls sample_orders [sample_call])\<rparr>)"
  by (rule tool_calls_after_thinking [OF _ sample_call_ok]) (simp_all add: lit_simps isspace_def)

theorem tool_text_replay_witness:
  "\<exists>content reasoning calls pre ws ws'.
     parse_generated_message_ex (Some (str ''a <tool_call><function=f></function></tool_call> '')) False [] = Some (content, reasoning, calls) \<and>
     str ''a <tool_call><function=f></function></tool_call> '' = pre @ ws @ append_qwen_tool_calls_text calls [] False @ ws' \<and>
     (\<forall>c\<in>set (ws @ ws'). isspace c)"
proof -
  let ?p = "parse_generated_message_ex (Some (str ''a <tool_call><function=f></function></tool_call> '')) False []"
  have "case ?p of Some (_, _, calls) \<Rightarrow> calls_v calls \<noteq> [] | None \<Rightarrow> False" by code_simp
  then obtain content reasoning calls where p: "?p = Some (content, reasoning, calls)" "calls_v calls \<noteq> []"
    by (auto split: option.splits)
  from tool_text_replay [OF p, of "[]"] p(1) show ?thesis by blast
qed

lemma strstr_suffix: "suffix s t \<Longrightarrow> starts_with lit s \<Longrightarrow> strstr t lit \<noteq> None"
proof (induction t)
  case (Cons c t)
  then show ?case by (cases "s = c # t") (auto simp: suffix_Cons)
qed (auto simp: starts_with_def)

lemma parse_call_closed:
  "parse_call orders p = Some (tc, q) \<Longrightarrow> \<exists>x. p = x @ Q36_TOOL_CALLS_END @ q"
proof -
  assume a: "parse_call orders p = Some (tc, q)"
  let ?p1 = "raw_skip_ascii_ws (drop (length Q36_TOOL_CALLS_START) p)"
  obtain tag after name args p2 where s: "qwen_tool_read_tag ?p1 = Some (tag, after)"
    "parse_params (tool_schema_orders_find orders (Some name)) after [123] False = Some (args, p2)"
    "raw_full_lit (raw_skip_ascii_ws (drop (length Q36_INVOKE_END) p2)) Q36_TOOL_CALLS_END"
    "q = drop (length Q36_TOOL_CALLS_END) (raw_skip_ascii_ws (drop (length Q36_INVOKE_END) p2))"
    using a by (auto simp: parse_call_def Let_def split: if_splits option.splits)
  have "suffix (raw_skip_ascii_ws (drop (length Q36_INVOKE_END) p2)) p2" by (metis skip_suffix suffix_drop suffix_order.trans)
  also have "suffix p2 after" by (rule parse_params_suffix [OF s(2)])
  also have "suffix after ?p1" by (rule read_tag_suffix [OF s(1)])
  also have "suffix ?p1 p" by (metis skip_suffix suffix_drop suffix_order.trans)
  finally have "suffix (Q36_TOOL_CALLS_END @ q) p"
    using s(3,4) by (metis append_take_drop_id raw_full_lit_def)
  then show ?thesis by (auto simp: suffix_def)
qed

text \<open>A text of calls that parses to its end holds nothing but white space behind its last closing tag.\<close>

lemma parse_calls_ends:
  "parse_calls orders p raw_end calls = Some (cs, raw_end', []) \<Longrightarrow> p \<noteq> [] \<Longrightarrow>
    \<exists>x ws. p = x @ Q36_TOOL_CALLS_END @ ws \<and> (\<forall>c\<in>set ws. isspace c)"
proof (induction orders p raw_end calls rule: parse_calls.induct)
  case (1 orders p raw_end calls)
  have lit: "raw_full_lit p Q36_TOOL_CALLS_START" using 1(2,3) by (subst (asm) parse_calls.simps) (auto split: if_splits)
  obtain tc q where c: "parse_call orders p = Some (tc, q)"
    "parse_calls orders (raw_skip_ascii_ws q) q (calls @ [tc]) = Some (cs, raw_end', [])"
    using 1(2) lit 1(3) by (subst (asm) parse_calls.simps) (auto split: option.splits)
  obtain x where x: "p = x @ Q36_TOOL_CALLS_END @ q" using parse_call_closed [OF c(1)] by blast
  obtain ws where ws: "q = ws @ raw_skip_ascii_ws q" "\<forall>c\<in>set ws. isspace c"
    unfolding raw_skip_ascii_ws_def by (metis takeWhile_dropWhile_id set_takeWhileD)
  show ?case
  proof (cases "raw_skip_ascii_ws q = []")
    case True
    then show ?thesis using x ws by auto
  next
    case False
    obtain y ws' where "raw_skip_ascii_ws q = y @ Q36_TOOL_CALLS_END @ ws'" "\<forall>c\<in>set ws'. isspace c"
      using 1(1) [of "(tc, q)" tc q] c lit 1(3) False by auto
    then show ?thesis using x ws(1) by (metis append.assoc)
  qed
qed

text \<open>So behind every opening tag in it there is a closing one.\<close>

lemma ends_closed:
  assumes "x @ Q36_TOOL_CALLS_END @ ws = a @ Q36_TOOL_CALLS_START @ b" "\<forall>c\<in>set ws. isspace c"
  shows "strstr (Q36_TOOL_CALLS_START @ b) Q36_TOOL_CALLS_END \<noteq> None"
proof -
  consider (in_tail) y where "Q36_TOOL_CALLS_START @ b = y @ Q36_TOOL_CALLS_END @ ws"
    | (inside) i where "0 < i" "Q36_TOOL_CALLS_START @ b = drop i (Q36_TOOL_CALLS_END @ ws)"
  proof (cases "length a \<le> length x")
    case True
    then have "Q36_TOOL_CALLS_START @ b = drop (length a) x @ Q36_TOOL_CALLS_END @ ws"
      using arg_cong [OF assms(1), of "drop (length a)"] by simp
    then show thesis by (rule in_tail)
  next
    case False
    then have "Q36_TOOL_CALLS_START @ b = drop (length a - length x) (Q36_TOOL_CALLS_END @ ws)"
      using arg_cong [OF assms(1), of "drop (length a)"] by (simp del: drop_append) (simp add: drop_append)
    then show thesis using inside [of "length a - length x"] False by simp
  qed
  then show ?thesis
  proof cases
    case (in_tail y)
    have "suffix (Q36_TOOL_CALLS_END @ ws) (y @ Q36_TOOL_CALLS_END @ ws)" by (simp add: suffix_def)
    moreover have "starts_with Q36_TOOL_CALLS_END (Q36_TOOL_CALLS_END @ ws)" by (simp add: starts_with_def)
    ultimately show ?thesis unfolding in_tail by (rule strstr_suffix)
  next
    case (inside i)
    have h: "hd (drop i (Q36_TOOL_CALLS_END @ ws)) = 60" "drop i (Q36_TOOL_CALLS_END @ ws) \<noteq> []"
      unfolding inside(2) [symmetric] by (simp_all add: tag_lits)
    have "i < length (Q36_TOOL_CALLS_END @ ws)" using h(2) by (meson drop_all not_le)
    then have "(Q36_TOOL_CALLS_END @ ws) ! i = 60" using h(1) by (metis hd_drop_conv_nth)
    moreover have "list_all (\<lambda>i. 0 < i \<longrightarrow> Q36_TOOL_CALLS_END ! i \<noteq> 60) [0..<length Q36_TOOL_CALLS_END]"
      unfolding Q36_TOOL_CALLS_END_def by code_simp
    ultimately have "60 \<in> set ws"
      using inside(1) \<open>i < length (Q36_TOOL_CALLS_END @ ws)\<close>
      by (auto simp: list_all_iff nth_append in_set_conv_nth split: if_splits intro!: exI [of _ "i - length Q36_TOOL_CALLS_END"])
    then show ?thesis using assms(2) by (auto simp: isspace_def)
  qed
qed

text \<open>The part of a generated text in which calls are looked for.\<close>

definition call_text :: "bytes \<Rightarrow> bool \<Rightarrow> bytes" where
  "call_text t thinking =
     (if thinking then (case find_tool_structural_text t THINK_END True of None \<Rightarrow> t | Some e \<Rightarrow> drop (length THINK_END) e)
      else t)"

lemma strstr_before: "strstr s lit = Some n \<Longrightarrow> m < n \<Longrightarrow> \<not> starts_with lit (drop m s)"
proof (induction s arbitrary: n m)
  case (Cons c s)
  then show ?case by (cases m) (auto split: if_splits)
qed (auto split: if_splits)

lemma unclosed_fails:
  assumes "s = a @ Q36_TOOL_CALLS_START @ b" "strstr (Q36_TOOL_CALLS_START @ b) Q36_TOOL_CALLS_END = None"
  shows "parse_at_tool t orders s rec = None" "\<exists>n. strstr s Q36_TOOL_CALLS_START = Some n \<and> n \<le> length a"
proof -
  have st: "starts_with Q36_TOOL_CALLS_START (Q36_TOOL_CALLS_START @ b)" by (simp add: starts_with_def)
  have "strstr s Q36_TOOL_CALLS_START \<noteq> None"
    by (rule strstr_suffix [OF _ st]) (simp add: assms(1) suffix_def)
  then obtain n where n: "strstr s Q36_TOOL_CALLS_START = Some n" by blast
  have le: "n \<le> length a"
  proof (rule ccontr)
    assume "\<not> n \<le> length a"
    then have "\<not> starts_with Q36_TOOL_CALLS_START (drop (length a) s)" using strstr_before [OF n] by simp
    then show False using st by (simp add: assms(1))
  qed
  then show "\<exists>n. strstr s Q36_TOOL_CALLS_START = Some n \<and> n \<le> length a" using n by blast
  let ?p = "drop n s"
  have p: "?p = drop n a @ Q36_TOOL_CALLS_START @ b" using le by (simp add: assms(1))
  then have ne: "?p \<noteq> []" by (simp add: tag_lits)
  have "parse_calls orders ?p ?p [] \<noteq> Some (cs, e, [])" for cs e
  proof
    assume "parse_calls orders ?p ?p [] = Some (cs, e, [])"
    from parse_calls_ends [OF this ne] obtain x ws where
      w: "?p = x @ Q36_TOOL_CALLS_END @ ws" "\<forall>c\<in>set ws. isspace c" by blast
    have "x @ Q36_TOOL_CALLS_END @ ws = drop n a @ Q36_TOOL_CALLS_START @ b" using w(1) p by simp
    from ends_closed [OF this w(2)] assms(2) show False by simp
  qed
  then show "parse_at_tool t orders s rec = None"
    by (simp add: parse_at_tool_def n Let_def split: option.split)
qed

text \<open>
  C28. A call that is not closed is never executed.  Take a generated text, in thinking mode or not,
  in whose searched part (all of it, or what follows the last end of thinking) there is an opening
  tag with no closing tag behind it, whatever closed calls stand before it.  Then the response has no
  calls.  If the model was thinking, did not end its thinking and closed no call at all, the text is
  an unterminated reasoning and counts as parsed.  Otherwise it does not parse, and the response is
  the sampled text as plain content; if there are tools, a call was seen to start and generation did
  not end in an error, this is reported as a recovered invalid call under the finish reason
  \<^verbatim>\<open>length\<close> if it was that, else \<^verbatim>\<open>stop\<close>.
\<close>

theorem unclosed_call_is_text:
  assumes "call_text t thinking = a @ Q36_TOOL_CALLS_START @ b"
    and "strstr (Q36_TOOL_CALLS_START @ b) Q36_TOOL_CALLS_END = None"
  shows "parse_generated_message_for_response (Some t) thinking orders has_tools saw_tool_start finish =
    (if thinking \<and> find_tool_structural_text t THINK_END True = None \<and>
        strstr (drop (the (strstr t Q36_TOOL_CALLS_START)) t) Q36_TOOL_CALLS_END = None
     then \<lparr>rp_ok = True, rp_content = [],
       rp_reasoning = Some (if starts_with THINK_START t then drop (length THINK_START) t else t), rp_calls = plain_calls [],
       rp_finish = finish, rp_err = None, rp_recovered = False\<rparr>
     else let recovered = has_tools \<and> saw_tool_start \<and> finish \<noteq> Some (str ''error'')
       in \<lparr>rp_ok = False, rp_content = t, rp_reasoning = None, rp_calls = plain_calls [],
         rp_finish = (if recovered then Some (if finish = Some (str ''length'') then str ''length'' else str ''stop'') else finish),
         rp_err = (if recovered then Some (str ''invalid tool call'') else None), rp_recovered = recovered\<rparr>)"
proof -
  note u = unclosed_fails [OF _ assms(2)]
  let ?early = "thinking \<and> find_tool_structural_text t THINK_END True = None \<and>
    strstr (drop (the (strstr t Q36_TOOL_CALLS_START)) t) Q36_TOOL_CALLS_END = None"
  have len: "length THINK_START = 7" by code_simp
  show ?thesis
  proof (cases ?early)
    case True
    then have "t = a @ Q36_TOOL_CALLS_START @ b" using assms(1) by (simp add: call_text_def)
    then obtain n where "strstr t Q36_TOOL_CALLS_START = Some n" using u(2) by blast
    then show ?thesis using True
      by (simp add: parse_generated_message_for_response_def parse_generated_message_ex_def unterminated_reasoning_def
          plain_calls_def len)
  next
    case False
    have "parse_generated_message_ex (Some t) thinking orders = None"
    proof (cases "thinking \<and> find_tool_structural_text t THINK_END True = None")
      case True
      then have t: "t = a @ Q36_TOOL_CALLS_START @ b" using assms(1) by (simp add: call_text_def)
      obtain n where n: "strstr t Q36_TOOL_CALLS_START = Some n" "n \<le> length a" using u(2) [OF t] by blast
      have "drop n t = drop n a @ Q36_TOOL_CALLS_START @ b" using n(2) by (simp add: t)
      from u(1) [OF this] show ?thesis using True False n(1)
        by (auto simp: parse_generated_message_ex_def)
    next
      case False
      then show ?thesis using u(1) [OF assms(1)]
        by (auto simp: parse_generated_message_ex_def call_text_def Let_def split: if_splits option.splits)
    qed
    then show ?thesis
      using False by (cases finish)
        (auto simp: parse_generated_message_for_response_def tool_parse_failure_recovery_finish_def plain_calls_def Let_def lit_simps)
  qed
qed

theorem unclosed_call_is_text_witness:
  "let t = str ''hm</think>x<tool_call><function=f></function></tool_call><tool_call><function=f>'';
       early = str ''<think>x<tool_call><function=f>''
   in parse_generated_message_for_response (Some t) True [] True True (Some (str ''length'')) =
      \<lparr>rp_ok = False, rp_content = t, rp_reasoning = None, rp_calls = plain_calls [], rp_finish = Some (str ''length''),
       rp_err = Some (str ''invalid tool call''), rp_recovered = True\<rparr> \<and>
     parse_generated_message_for_response (Some early) True [] True True (Some (str ''length'')) =
      \<lparr>rp_ok = True, rp_content = [], rp_reasoning = Some (str ''x<tool_call><function=f>''), rp_calls = plain_calls [],
       rp_finish = Some (str ''length''), rp_err = None, rp_recovered = False\<rparr>"
proof -
  let ?t = "str ''hm</think>x<tool_call><function=f></function></tool_call><tool_call><function=f>''"
  let ?e = "str ''<think>x<tool_call><function=f>''"
  have t: "call_text ?t True = str ''x<tool_call><function=f></function></tool_call>'' @ Q36_TOOL_CALLS_START @ str ''<function=f>''"
    "find_tool_structural_text ?t THINK_END True \<noteq> None"
    and e: "call_text ?e True = str ''<think>x'' @ Q36_TOOL_CALLS_START @ str ''<function=f>''"
    "find_tool_structural_text ?e THINK_END True = None"
    "strstr (drop (the (strstr ?e Q36_TOOL_CALLS_START)) ?e) Q36_TOOL_CALLS_END = None"
    "starts_with THINK_START ?e" "drop (length THINK_START) ?e = str ''x<tool_call><function=f>''"
    and n: "strstr (Q36_TOOL_CALLS_START @ str ''<function=f>'') Q36_TOOL_CALLS_END = None" "str ''length'' \<noteq> str ''error''"
    by code_simp+
  show ?thesis
    using unclosed_call_is_text [OF t(1) n(1), of "[]" True True "Some (str ''length'')"]
      unclosed_call_is_text [OF e(1) n(1), of "[]" True True "Some (str ''length'')"] t(2) e(2-5) n(2)
    by simp
qed

end
