(* ===== verification/Stream_Cut.thy ===== *)
theory Stream_Cut
  imports Tool_Call
begin

text \<open>
  Where a generated text may be cut for streaming (\<^verbatim>\<open>q36_server.c\<close>): the stop list and its hold-back,
  the UTF-8 boundary, the tool syntax that clients must not see (\<^verbatim>\<open>text_stream_safe_limit\<close>), and the
  tracker that says whether the next token is tool syntax or payload.
\<close>

section \<open>Stop sequences\<close>

record stop_list =
  stop_v :: "bytes list"
  stop_max_len :: nat

definition stop_list_clear :: "stop_list \<Rightarrow> stop_list" where
  "stop_list_clear stops = stops\<lparr>stop_v := [], stop_max_len := 0\<rparr>"

definition stop_list_push :: "stop_list \<Rightarrow> bytes option \<Rightarrow> stop_list" where
  "stop_list_push stops s =
     (case s of
        None \<Rightarrow> stops
      | Some s \<Rightarrow>
          if s = [] then stops
          else stops\<lparr>stop_v := stop_v stops @ [s], stop_max_len := max (stop_max_len stops) (length s)\<rparr>)"

text \<open>The array of \<^verbatim>\<open>parse_stop\<close>: strings are taken, other values skipped.\<close>

function parse_stop_items :: "bytes \<Rightarrow> stop_list \<Rightarrow> (stop_list \<times> bytes) option" where
  "parse_stop_items p out =
     (if peek p = 0 then None
      else if peek p = 93 then Some (out, tl p)
      else
        (case (if peek p = 34
               then map_option (\<lambda>(s, q). (stop_list_push out (Some s), q)) (json_string p)
               else map_option (\<lambda>q. (out, q)) (json_skip_value p)) of
           None \<Rightarrow> None
         | Some (out, q) \<Rightarrow>
             parse_stop_items (json_ws (if peek (json_ws q) = 44 then tl (json_ws q) else json_ws q)) out))"
  by pat_completeness auto
termination
proof (relation "measure (\<lambda>(p, _). length p)", goal_cases)
  case (2 p out x out' q)
  then have "length q < length p"
    by (auto simp: json_skip_value_def split: if_splits dest: json_string_shorter json_skip_shorter(1))
  then show ?case
    using json_ws_shorter [of q] json_ws_shorter [of "tl (json_ws q)"] json_ws_shorter [of "json_ws q"]
    by (auto intro: le_less_trans)
qed simp

declare parse_stop_items.simps [simp del]

definition parse_stop :: "bytes \<Rightarrow> stop_list \<Rightarrow> (stop_list \<times> bytes) option" where
  "parse_stop p out =
     (let p = json_ws p; out = stop_list_clear out
      in if peek p = 34 then map_option (\<lambda>(s, q). (stop_list_push out (Some s), q)) (json_string p)
         else if peek p \<noteq> 91 then map_option (\<lambda>q. (out, q)) (json_skip_value p)
         else parse_stop_items (json_ws (tl p)) out)"

text \<open>The stop sequence that starts first; of two at the same place the one listed first.\<close>

fun find_stops :: "bytes list \<Rightarrow> bytes \<Rightarrow> nat \<Rightarrow> (nat \<times> nat) option \<Rightarrow> (nat \<times> nat) option" where
  "find_stops [] txt1 from1 best = best"
| "find_stops (s # ss) txt1 from1 best =
     find_stops ss txt1 from1
       (case strstr (drop from1 txt1) s of
          None \<Rightarrow> best
        | Some n \<Rightarrow>
            (case best of
               None \<Rightarrow> Some (from1 + n, length s)
             | Some (bp, bl) \<Rightarrow> if from1 + n < bp then Some (from1 + n, length s) else best))"

definition stop_list_find_from :: "stop_list \<Rightarrow> bytes option \<Rightarrow> nat \<Rightarrow> (nat \<times> nat) option" where
  "stop_list_find_from stops txt0 from1 =
     (case txt0 of None \<Rightarrow> None | Some t \<Rightarrow> if stop_v stops = [] then None else find_stops (stop_v stops) t from1 None)"

definition stop_list_stream_safe_len :: "stop_list \<Rightarrow> nat \<Rightarrow> nat" where
  "stop_list_stream_safe_len stops text_len =
     (if stop_v stops = [] \<or> stop_max_len stops \<le> 1 then text_len
      else let hold = stop_max_len stops - 1 in if text_len > hold then text_len - hold else 0)"

text \<open>Where the next search starts after one that found nothing in \<open>text_len\<close> bytes.\<close>

definition next_stop_scan :: "stop_list \<Rightarrow> nat \<Rightarrow> nat \<Rightarrow> nat" where
  "next_stop_scan stops text_len stop_scan_from =
     (if stop_max_len stops > 1
      then let hold = stop_max_len stops - 1 in if text_len > hold then text_len - hold else 0
      else stop_scan_from)"

section \<open>UTF-8\<close>

definition utf8_expected_len :: "u8 \<Rightarrow> nat" where
  "utf8_expected_len c =
     (if c < 0x80 then 1
      else if c \<ge> 0xc2 \<and> c \<le> 0xdf then 2
      else if c \<ge> 0xe0 \<and> c \<le> 0xef then 3
      else if c \<ge> 0xf0 \<and> c \<le> 0xf4 then 4
      else 1)"

definition is_cont :: "u8 \<Rightarrow> bool" where
  "is_cont c \<longleftrightarrow> c AND 0xc0 = 0x80"

text \<open>The loop over the continuation bytes at the end: at most four of them.\<close>

fun skip_cont :: "bytes \<Rightarrow> nat \<Rightarrow> nat \<Rightarrow> nat \<Rightarrow> nat" where
  "skip_cont s start 0 cont = 0"
| "skip_cont s start (Suc p) cont =
     (if Suc p > start \<and> cont < 4 \<and> is_cont (s ! p) then skip_cont s start p (cont + 1) else Suc p)"

definition utf8_stream_safe_len :: "bytes option \<Rightarrow> nat \<Rightarrow> nat \<Rightarrow> bool \<Rightarrow> nat" where
  "utf8_stream_safe_len s0 start limit final =
     (case s0 of
        None \<Rightarrow> limit
      | Some s \<Rightarrow>
          if final \<or> limit \<le> start then limit
          else
            let p = skip_cont s start limit 0
            in if p = limit then (if utf8_expected_len (s ! (limit - 1)) > 1 then limit - 1 else limit)
               else if p = start \<and> is_cont (s ! p) then start
               else
                 let lead = p - 1; need = utf8_expected_len (s ! lead)
                 in if limit - lead < need then lead else limit)"

section \<open>Tool syntax\<close>

text \<open>The last \<^verbatim>\<open><\<close> in the last eighty bytes.\<close>

definition last_marker :: "bytes \<Rightarrow> nat \<Rightarrow> nat option" where
  "last_marker raw start =
     (let scan = (if length raw - start > 80 then length raw - 80 else start)
      in find (\<lambda>i. raw ! i = 60) (rev [scan..<length raw]))"

definition text_stream_safe_limit :: "bytes \<Rightarrow> nat \<Rightarrow> bool \<Rightarrow> bool \<Rightarrow> nat" where
  "text_stream_safe_limit raw start has_tools final =
     (if length raw \<le> start then length raw
      else if has_tools then
        (case strstr (drop start raw) Q36_TOOL_CALLS_START of
           Some n \<Rightarrow> utf8_stream_safe_len (Some raw) start (trim_tool_separator_ws raw start (start + n)) True
         | None \<Rightarrow>
             if final then utf8_stream_safe_len (Some raw) start (length raw) final
             else
               let limit = trim_tool_separator_ws raw start (length raw);
                   limit = (case last_marker raw start of Some m \<Rightarrow> if m < limit then m else limit | None \<Rightarrow> limit);
                   limit = trim_tool_separator_ws raw start limit
               in utf8_stream_safe_len (Some raw) start limit final)
      else utf8_stream_safe_len (Some raw) start (length raw) final)"


section \<open>Facts on stops\<close>

text \<open>A stop list as pushing builds it.\<close>

definition stops_wf :: "stop_list \<Rightarrow> bool" where
  "stops_wf stops \<longleftrightarrow> (\<forall>s\<in>set (stop_v stops). s \<noteq> [] \<and> length s \<le> stop_max_len stops)"

lemma stops_wf_clear [simp]: "stops_wf (stop_list_clear stops)"
  by (simp add: stops_wf_def stop_list_clear_def)

lemma stops_wf_push [simp]: "stops_wf stops \<Longrightarrow> stops_wf (stop_list_push stops s)"
  by (auto simp: stops_wf_def stop_list_push_def split: option.split)

lemma parse_stop_items_wf: "parse_stop_items p out = Some (res, q) \<Longrightarrow> stops_wf out \<Longrightarrow> stops_wf res"
proof (induction p out rule: parse_stop_items.induct)
  case (1 p out)
  let ?step = "if peek p = 34 then map_option (\<lambda>(s, q). (stop_list_push out (Some s), q)) (json_string p)
               else map_option (\<lambda>q. (out, q)) (json_skip_value p)"
  show ?case
  proof (cases "peek p = 0 \<or> peek p = 93")
    case True
    then show ?thesis using 1(2,3) by (subst (asm) parse_stop_items.simps) (auto split: if_splits)
  next
    case False
    then obtain out' r where s: "?step = Some (out', r)"
      "parse_stop_items (json_ws (if peek (json_ws r) = 44 then tl (json_ws r) else json_ws r)) out' = Some (res, q)"
      using 1(2) by (subst (asm) parse_stop_items.simps) (simp split: option.splits prod.splits)
    have "stops_wf out'" using s(1) 1(3) by (auto split: if_splits)
    then show ?thesis by (intro 1(1) [OF _ _ s(1) refl s(2)]) (use False in auto)
  qed
qed

lemma parse_stop_wf: "parse_stop p out = Some (res, q) \<Longrightarrow> stops_wf res"
  by (auto simp: parse_stop_def Let_def split: if_splits dest: parse_stop_items_wf)

text \<open>The search gives the least place of a stop sequence.\<close>

definition occurs :: "bytes \<Rightarrow> bytes list \<Rightarrow> nat \<Rightarrow> nat \<Rightarrow> bool" where
  "occurs t ss n l \<longleftrightarrow> (\<exists>s\<in>set ss. l = length s \<and> starts_with s (drop n t))"

lemma strstr_least: "strstr s lit = Some n \<Longrightarrow> m < n \<Longrightarrow> \<not> starts_with lit (drop m s)"
proof (induction s arbitrary: n m)
  case (Cons c s)
  then show ?case by (cases m) (auto split: if_splits)
qed (auto split: if_splits)

lemma strstr_SomeI:
  assumes "starts_with lit (drop n s)" "\<And>m. m < n \<Longrightarrow> \<not> starts_with lit (drop m s)" "n \<le> length s"
  shows "strstr s lit = Some n"
proof -
  have "strstr s lit \<noteq> None" by (rule strstr_suffix [OF suffix_drop assms(1)])
  then obtain k where k: "strstr s lit = Some k" by blast
  then have "k = n" using strstr_least [OF k, of n] assms(1) strstr_found [OF k] assms(2) [of k] by (meson linorder_neqE_nat)
  with k show ?thesis by simp
qed

lemma strstr_None_iff: "strstr s lit = None \<longleftrightarrow> (\<forall>n. \<not> starts_with lit (drop n s))"
proof
  assume "strstr s lit = None"
  then show "\<forall>n. \<not> starts_with lit (drop n s)" using strstr_suffix suffix_drop by metis
next
  assume "\<forall>n. \<not> starts_with lit (drop n s)"
  then show "strstr s lit = None" by (cases "strstr s lit") (auto dest: strstr_found)
qed

lemma find_stops_None:
  "find_stops ss t from1 best = None \<longleftrightarrow> best = None \<and> (\<forall>s\<in>set ss. strstr (drop from1 t) s = None)"
  by (induction ss t from1 best rule: find_stops.induct) (auto split: option.splits)

lemma find_from_None:
  "stop_list_find_from stops (Some t) from1 = None \<longleftrightarrow> (\<forall>s\<in>set (stop_v stops). strstr (drop from1 t) s = None)"
  by (simp add: stop_list_find_from_def find_stops_None)

text \<open>The result depends on the occurrences only: two scans that see the same ones agree.\<close>

lemma find_stops_cong:
  "(\<And>s. s \<in> set ss \<Longrightarrow> map_option (\<lambda>n. f1 + n) (strstr (drop f1 t) s) = map_option (\<lambda>n. f2 + n) (strstr (drop f2 t) s)) \<Longrightarrow>
    find_stops ss t f1 best = find_stops ss t f2 best"
proof (induction ss arbitrary: best)
  case (Cons s ss)
  have "map_option (\<lambda>n. f1 + n) (strstr (drop f1 t) s) = map_option (\<lambda>n. f2 + n) (strstr (drop f2 t) s)"
    using Cons.prems by simp
  then have "(case strstr (drop f1 t) s of None \<Rightarrow> best
        | Some n \<Rightarrow> (case best of None \<Rightarrow> Some (f1 + n, length s) | Some (bp, bl) \<Rightarrow> if f1 + n < bp then Some (f1 + n, length s) else best)) =
      (case strstr (drop f2 t) s of None \<Rightarrow> best
        | Some n \<Rightarrow> (case best of None \<Rightarrow> Some (f2 + n, length s) | Some (bp, bl) \<Rightarrow> if f2 + n < bp then Some (f2 + n, length s) else best))"
    by (cases "strstr (drop f1 t) s"; cases "strstr (drop f2 t) s"; cases best) auto
  then show ?case using Cons by simp
qed simp

lemma strstr_drop:
  assumes "\<forall>n<k. \<not> starts_with lit (drop n t)" "k \<le> length t"
  shows "map_option (\<lambda>n. k + n) (strstr (drop k t) lit) = strstr t lit"
proof (cases "strstr (drop k t) lit")
  case None
  then have "\<not> starts_with lit (drop n t)" for n
    using assms(1) by (cases "n < k") (auto simp: strstr_None_iff drop_drop dest: spec [of _ "n - k"])
  then have "strstr t lit = None" by (simp add: strstr_None_iff)
  then show ?thesis by (simp add: None)
next
  case (Some m)
  have "starts_with lit (drop (k + m) t)" using strstr_found [OF Some] by (simp add: add.commute)
  moreover have "\<not> starts_with lit (drop n t)" if "n < k + m" for n
    using assms(1) strstr_least [OF Some, of "n - k"] that by (cases "n < k") auto
  moreover have "k + m \<le> length t" using strstr_bound [OF Some] assms(2) by simp
  ultimately show ?thesis using strstr_SomeI Some by simp
qed

text \<open>A stop sequence that the text \<open>t\<close> did not hold can only start in its held-back tail.\<close>

lemma stop_in_tail:
  assumes "stops_wf stops" "\<forall>s\<in>set (stop_v stops). strstr t s = None" "s \<in> set (stop_v stops)"
    and "starts_with s (drop n (t @ x))"
  shows "stop_list_stream_safe_len stops (length t) \<le> n"
proof (rule ccontr)
  assume a: "\<not> stop_list_stream_safe_len stops (length t) \<le> n"
  have l: "s \<noteq> []" "length s \<le> stop_max_len stops" using assms(1,3) by (auto simp: stops_wf_def)
  have "0 < length s" using l(1) by simp
  have "stop_v stops \<noteq> []" using assms(3) by auto
  have "n + length s \<le> length t"
  proof (cases "stop_max_len stops \<le> 1")
    case True
    then have "n < length t" using a by (simp add: stop_list_stream_safe_len_def)
    then show ?thesis using True l(2) by linarith
  next
    case False
    then have "n < length t - (stop_max_len stops - 1)"
      using a \<open>stop_v stops \<noteq> []\<close> by (simp add: stop_list_stream_safe_len_def Let_def split: if_splits)
    then show ?thesis using False l(2) by linarith
  qed
  then have "starts_with s (drop n t)" using assms(4) by (simp add: starts_with_def)
  then show False using assms(2,3) by (simp add: strstr_None_iff)
qed


lemma find_stops_Some:
  "find_stops ss t f best = Some (p, l) \<Longrightarrow> best = Some (p, l) \<or> (\<exists>s\<in>set ss. starts_with s (drop p t) \<and> l = length s)"
proof (induction ss t f best rule: find_stops.induct)
  case (2 s ss t f best)
  show ?case
  proof (cases "strstr (drop f t) s")
    case None
    then show ?thesis using 2 by auto
  next
    case (Some n)
    have "starts_with s (drop (f + n) t)" using strstr_found [OF Some] by (simp add: add.commute)
    then show ?thesis using 2 Some by (auto split: option.splits if_splits)
  qed
qed simp

text \<open>
  C30. The stop search goes on where the last one left off and misses nothing: after a scan of \<open>t\<close>
  without a hit, the scan from the held-back tail of the longer text finds exactly what a scan from
  the beginning finds, and a stop found then starts behind everything that may have been streamed.
\<close>

theorem stop_scan_incremental:
  assumes "stops_wf stops" "stop_list_find_from stops (Some t) 0 = None" "from1 \<le> length t"
  shows "stop_list_find_from stops (Some (t @ x)) (next_stop_scan stops (length t) from1) =
      stop_list_find_from stops (Some (t @ x)) 0 \<and>
    (\<forall>pos len. stop_list_find_from stops (Some (t @ x)) 0 = Some (pos, len) \<longrightarrow>
      stop_list_stream_safe_len stops (length t) \<le> pos \<and> pos + len \<le> length (t @ x))"
proof
  have none: "\<forall>s\<in>set (stop_v stops). strstr t s = None" using assms(2) by (simp add: find_from_None)
  note tail = stop_in_tail [OF assms(1) none]
  let ?k = "next_stop_scan stops (length t) from1"
  have k: "?k \<le> length t" using assms(3) by (auto simp: next_stop_scan_def Let_def)
  have "\<not> starts_with s (drop n (t @ x))" if "s \<in> set (stop_v stops)" "n < ?k" for s n
    using tail [OF that(1), of n x] that(2) assms(3) that(1)
    by (auto simp: next_stop_scan_def stop_list_stream_safe_len_def Let_def split: if_splits)
  then have "map_option (\<lambda>n. ?k + n) (strstr (drop ?k (t @ x)) s) = map_option (\<lambda>n. 0 + n) (strstr (drop 0 (t @ x)) s)"
    if "s \<in> set (stop_v stops)" for s
    using strstr_drop [of ?k s "t @ x"] k that by (simp add: option.map_ident)
  then show "stop_list_find_from stops (Some (t @ x)) ?k = stop_list_find_from stops (Some (t @ x)) 0"
    using find_stops_cong [of "stop_v stops" ?k "t @ x" 0] by (simp add: stop_list_find_from_def)
  show "\<forall>pos len. stop_list_find_from stops (Some (t @ x)) 0 = Some (pos, len) \<longrightarrow>
      stop_list_stream_safe_len stops (length t) \<le> pos \<and> pos + len \<le> length (t @ x)"
  proof (intro allI impI)
    fix pos len assume "stop_list_find_from stops (Some (t @ x)) 0 = Some (pos, len)"
    then obtain s where s: "s \<in> set (stop_v stops)" "starts_with s (drop pos (t @ x))" "len = length s"
      by (auto simp: stop_list_find_from_def split: if_splits dest: find_stops_Some)
    have "0 < length s" "length s \<le> length (drop pos (t @ x))"
      using s(1,2) assms(1) by (auto simp: starts_with_def stops_wf_def)
    then have "pos + len \<le> length (t @ x)" using s(3) by (simp only: length_drop)
    then show "stop_list_stream_safe_len stops (length t) \<le> pos \<and> pos + len \<le> length (t @ x)"
      using tail [OF s(1,2)] by simp
  qed
qed

theorem stop_scan_incremental_witness:
  "let stops = stop_list_push (stop_list_push \<lparr>stop_v = [], stop_max_len = 0\<rparr> (Some (str ''END''))) (Some (str ''##''))
   in stop_list_find_from stops (Some (str ''ab E'' @ str ''ND ##'')) (next_stop_scan stops (length (str ''ab E'')) 0) =
        stop_list_find_from stops (Some (str ''ab E'' @ str ''ND ##'')) 0 \<and>
      stop_list_find_from stops (Some (str ''ab E'' @ str ''ND ##'')) 0 = Some (3, 3)"
proof -
  define stops where "stops = stop_list_push (stop_list_push \<lparr>stop_v = [], stop_max_len = 0\<rparr> (Some (str ''END''))) (Some (str ''##''))"
  have "stops_wf stops" unfolding stops_def by code_simp
  moreover have "stop_list_find_from stops (Some (str ''ab E'')) 0 = None" unfolding stops_def by code_simp
  moreover have "stop_list_find_from stops (Some (str ''ab E'' @ str ''ND ##'')) 0 = Some (3, 3)" unfolding stops_def by code_simp
  ultimately show ?thesis
    using stop_scan_incremental [of stops "str ''ab E''" 0 "str ''ND ##''"] by (simp flip: stops_def)
qed

section \<open>Cutting at a character\<close>

definition utf8_char :: "bytes \<Rightarrow> bool" where
  "utf8_char c \<longleftrightarrow> c \<noteq> [] \<and> \<not> is_cont (hd c) \<and> list_all is_cont (tl c) \<and> length c = utf8_expected_len (hd c)"

lemma expected_len_bounds: "1 \<le> utf8_expected_len c" "utf8_expected_len c \<le> 4"
  by (simp_all add: utf8_expected_len_def)

lemma skip_cont_le: "skip_cont s start p k \<le> p"
  by (induction s start p k rule: skip_cont.induct) auto

lemma skip_cont_char:
  "\<lbrakk>list_all is_cont conts; \<not> is_cont l; start \<le> length pre; k + length conts \<le> 4\<rbrakk> \<Longrightarrow>
    skip_cont (pre @ l # conts @ j) start (Suc (length pre) + length conts) k = Suc (length pre)"
proof (induction conts arbitrary: k j rule: rev_induct)
  case (snoc c conts)
  have "(pre @ l # (conts @ [c]) @ j) ! (Suc (length pre) + length conts) = c"
    by (simp add: nth_append)
  then show ?case using snoc.prems snoc.IH [of "Suc k" "c # j"] by simp
qed simp

text \<open>A text that ends within a character: \<open>part\<close> is what there is of it, and more bytes may follow.\<close>

lemma utf8_cut:
  assumes "utf8_char (l # conts @ rest)" "start \<le> length pre"
  shows "utf8_stream_safe_len (Some (pre @ l # conts @ j)) start (length (pre @ l # conts)) False =
    (if rest = [] then length (pre @ l # conts) else length pre)"
proof -
  have c: "\<not> is_cont l" "list_all is_cont conts" "utf8_expected_len l = Suc (length conts + length rest)"
    using assms(1) by (auto simp: utf8_char_def)
  have k: "0 + length conts \<le> 4" using c(3) expected_len_bounds(2) [of l] by simp
  have s: "skip_cont (pre @ l # conts @ j) start (length (pre @ l # conts)) 0 = Suc (length pre)"
    using skip_cont_char [OF c(2,1) assms(2) k, of j] by simp
  have l: "(pre @ l # conts @ j) ! length pre = l" by simp
  have b: "\<not> length (pre @ l # conts) \<le> start" "Suc (length pre) \<noteq> start" using assms(2) by simp_all
  have e: "(pre @ l # conts @ j) ! (length (pre @ l # conts) - 1) = l" if "conts = []" using that by simp
  show ?thesis
    unfolding utf8_stream_safe_len_def option.case Let_def s
    using b c(3) l e by (cases conts; cases rest) simp_all
qed

text \<open>
  Streaming cuts a text only between characters: of a text of whole UTF-8 characters and the
  beginning of one more, the cut is exactly at the end of the whole ones, from wherever between
  characters the previous cut was.
\<close>

theorem utf8_cut_between_characters:
  assumes "\<forall>c\<in>set (cs @ ds). utf8_char c" "part = [] \<or> (\<exists>rest. rest \<noteq> [] \<and> utf8_char (part @ rest))"
  shows "utf8_stream_safe_len (Some (concat (cs @ ds) @ part @ j)) (length (concat cs)) (length (concat (cs @ ds) @ part)) False =
    length (concat (cs @ ds))"
proof (cases part)
  case (Cons l conts)
  then obtain rest where r: "rest \<noteq> []" "utf8_char (l # conts @ rest)" using assms(2) by auto
  show ?thesis using utf8_cut [OF r(2), of "length (concat cs)" "concat (cs @ ds)" j] r(1) Cons by simp
next
  case Nil
  show ?thesis
  proof (cases ds rule: rev_cases)
    case Nil
    then show ?thesis using \<open>part = []\<close> by (simp add: utf8_stream_safe_len_def)
  next
    case (snoc es c)
    then have c: "utf8_char c" using assms(1) by simp
    then obtain l conts where e: "c = l # conts" by (cases c) (auto simp: utf8_char_def)
    show ?thesis
      using utf8_cut [of l conts "[]" "length (concat cs)" "concat (cs @ es)" j] c e snoc \<open>part = []\<close> by simp
  qed
qed

theorem utf8_cut_between_characters_witness:
  "utf8_stream_safe_len (Some (concat ([[104]] @ [[0xc3, 0xa9], [105]]) @ [0xe2, 0x82] @ [])) (length (concat [[104 :: u8]]))
     (length (concat ([[104 :: u8]] @ [[0xc3, 0xa9], [105]]) @ [0xe2, 0x82])) False =
   length (concat ([[104 :: u8]] @ [[0xc3, 0xa9], [105]]))"
proof (rule utf8_cut_between_characters)
  show "\<forall>c\<in>set ([[104]] @ [[0xc3, 0xa9], [105]]). utf8_char c" by code_simp
  have "utf8_char ([0xe2, 0x82] @ [0xac])" by code_simp
  then show "[0xe2, 0x82] = ([] :: bytes) \<or> (\<exists>rest. rest \<noteq> [] \<and> utf8_char ([0xe2, 0x82] @ rest))" by blast
qed

section \<open>Hiding tool syntax\<close>

lemma trim_rev:
  "l \<le> length raw \<Longrightarrow> s \<le> l \<Longrightarrow>
    trim_tool_separator_ws raw s l = (if s < l \<and> isspace (raw ! (l - 1)) then trim_tool_separator_ws raw s (l - 1) else l)"
proof (cases "s < l")
  case True
  assume "l \<le> length raw" "s \<le> l"
  then have "drop s (take l raw) = drop s (take (l - 1) raw) @ [raw ! (l - 1)]"
    using True take_Suc_conv_app_nth [of "l - 1" raw] by simp
  moreover have "length (takeWhile isspace (rev (drop s (take (l - 1) raw)))) \<le> l - 1"
    using length_takeWhile_le [of isspace "rev (drop s (take (l - 1) raw))"] \<open>l \<le> length raw\<close> by simp
  ultimately show ?thesis using True by (simp add: trim_tool_separator_ws_def)
qed (simp add: trim_tool_separator_ws_def)

lemma trim_spec:
  assumes "s \<le> l" "l \<le> length raw"
  shows "s \<le> trim_tool_separator_ws raw s l \<and> trim_tool_separator_ws raw s l \<le> l \<and>
    (\<forall>i. trim_tool_separator_ws raw s l \<le> i \<and> i < l \<longrightarrow> isspace (raw ! i)) \<and>
    (trim_tool_separator_ws raw s l = s \<or> \<not> isspace (raw ! (trim_tool_separator_ws raw s l - 1)))"
  using assms
proof (induction l)
  case 0
  then show ?case by (simp add: trim_tool_separator_ws_def)
next
  case (Suc l)
  show ?case
  proof (cases "s < Suc l \<and> isspace (raw ! l)")
    case True
    then have "trim_tool_separator_ws raw s (Suc l) = trim_tool_separator_ws raw s l" using trim_rev [of "Suc l" raw s] Suc.prems by simp
    then show ?thesis using Suc True by (auto simp: less_Suc_eq)
  next
    case False
    then have "trim_tool_separator_ws raw s (Suc l) = Suc l" using trim_rev [of "Suc l" raw s] Suc.prems by auto
    then show ?thesis using Suc.prems False by auto
  qed
qed

lemma trim_mono:
  assumes "s \<le> l" "l \<le> l'" "l' \<le> length raw"
  shows "trim_tool_separator_ws raw s l \<le> trim_tool_separator_ws raw s l'"
proof (rule ccontr)
  let ?a = "trim_tool_separator_ws raw s l" and ?b = "trim_tool_separator_ws raw s l'"
  assume n: "\<not> ?a \<le> ?b"
  note a = trim_spec [of s l raw] and b = trim_spec [of s l' raw]
  have "s \<le> ?b" "?a \<le> l" using a b assms by auto
  then have i: "?b \<le> ?a - 1 \<and> ?a - 1 < l'" "?a \<noteq> s" using n assms by linarith+
  have "isspace (raw ! (?a - 1))" using b [OF order_trans [OF assms(1,2)] assms(3)] i(1) by blast
  then show False using a assms i(2) by auto
qed

lemma trim_append: "l \<le> length raw \<Longrightarrow> trim_tool_separator_ws (raw @ x) s l = trim_tool_separator_ws raw s l"
  by (simp add: trim_tool_separator_ws_def)

lemma utf8_safe_le: "utf8_stream_safe_len s start limit final \<le> limit"
  using skip_cont_le [of "the s" start limit 0]
  by (auto simp: utf8_stream_safe_len_def Let_def split: option.splits)

lemma last_marker_le:
  assumes "start \<le> p" "p < length raw" "length raw < p + 80" "raw ! p = 60" "\<forall>i. p < i \<and> i < length raw \<longrightarrow> raw ! i \<noteq> 60"
  shows "\<exists>m. last_marker raw start = Some m \<and> m \<le> p"
proof -
  let ?scan = "if length raw - start > 80 then length raw - 80 else start"
  have p: "p \<in> set (rev [?scan..<length raw])" using assms(1-3) by auto
  then have "find (\<lambda>i. raw ! i = 60) (rev [?scan..<length raw]) \<noteq> None"
    using assms(4) by (auto simp: find_None_iff)
  then obtain m where m: "find (\<lambda>i. raw ! i = 60) (rev [?scan..<length raw]) = Some m" by blast
  then have "m < length raw" "raw ! m = 60" by (auto simp: find_Some_iff rev_nth split: if_splits)
  then have "m \<le> p" using assms(5) by (meson not_le)
  then show ?thesis using m by (simp add: last_marker_def Let_def)
qed

lemma starts_with_nth: "starts_with p (drop k s) \<Longrightarrow> i < length p \<Longrightarrow> s ! (k + i) = p ! i"
proof -
  assume a: "starts_with p (drop k s)" "i < length p"
  then obtain r where r: "drop k s = p @ r" by (auto elim: starts_withE)
  have "k \<le> length s" using r a(2) by (cases "k \<le> length s") auto
  then have "s ! (k + i) = drop k s ! i" by simp
  then show ?thesis using a(2) by (simp add: r nth_append)
qed

lemma strstr_append_Some: "strstr s lit = Some n \<Longrightarrow> strstr (s @ x) lit = Some n"
proof -
  assume a: "strstr s lit = Some n"
  have b: "n + length lit \<le> length s" by (rule strstr_bound [OF a])
  have "starts_with lit (drop m (s @ x)) \<longleftrightarrow> starts_with lit (drop m s)" if "m \<le> n" for m
  proof -
    have "length lit \<le> length (drop m s)" using that b by simp
    then show ?thesis using that b by (auto simp: starts_with_def)
  qed
  then show ?thesis using strstr_found [OF a] strstr_least [OF a] b by (intro strstr_SomeI) auto
qed

text \<open>
  C31. What is streamed as text never reaches into a tool call that is still being generated: if the
  text goes on to hold a call, every earlier cut was at or before the end of the content, in front
  of the whitespace that separates it from the call.
\<close>

theorem tool_syntax_hidden:
  assumes "start \<le> length raw" "strstr (drop start (raw @ x)) Q36_TOOL_CALLS_START = Some n"
  shows "text_stream_safe_limit raw start True False \<le> trim_tool_separator_ws (raw @ x) start (start + n)"
proof -
  let ?lit = Q36_TOOL_CALLS_START
  have b: "start + n + length ?lit \<le> length (raw @ x)" using strstr_bound [OF assms(2)] assms(1) by simp
  have lo: "start \<le> trim_tool_separator_ws (raw @ x) start (start + n)"
    using trim_spec [of start "start + n" "raw @ x"] b by simp
  show ?thesis
  proof (cases "length raw \<le> start")
    case True
    then show ?thesis using lo assms(1) by (simp add: text_stream_safe_limit_def)
  next
    case False
    show ?thesis
    proof (cases "strstr (drop start raw) ?lit")
      case (Some m)
      then have "m = n" using strstr_append_Some [OF Some, of x] assms by simp
      then show ?thesis
        using False Some strstr_bound [OF Some]
        by (simp add: text_stream_safe_limit_def utf8_stream_safe_len_def trim_append)
    next
      case None
      define l1 where "l1 = trim_tool_separator_ws raw start (length raw)"
      define l2 where "l2 = (case last_marker raw start of Some m \<Rightarrow> if m < l1 then m else l1 | None \<Rightarrow> l1)"
      have l1: "start \<le> l1" "l1 \<le> length raw" using trim_spec [of start "length raw" raw] assms(1) by (auto simp: l1_def)
      have m: "start \<le> m" if "last_marker raw start = Some m" for m
        using that assms(1) by (auto simp: last_marker_def Let_def find_Some_iff rev_nth split: if_splits)
      have l2: "start \<le> l2" "l2 \<le> l1" using l1 m by (auto simp: l2_def split: option.split)
      have p: "l2 \<le> start + n"
      proof (cases "length raw \<le> start + n")
        case True
        then show ?thesis using l1 l2 by simp
      next
        case below: False
        have f: "starts_with ?lit (drop (start + n) (raw @ x))" using strstr_found [OF assms(2)] by (simp only: drop_drop add.commute [of n start])
        have over: "length raw < start + n + length ?lit"
        proof (rule ccontr)
          assume "\<not> ?thesis"
          then have "starts_with ?lit (drop (start + n) raw)" using f by (auto simp: starts_with_def)
          then have "starts_with ?lit (drop n (drop start raw))" by (simp add: add.commute)
          then show False using None by (simp add: strstr_None_iff)
        qed
        have at: "raw ! (start + n + i) = ?lit ! i" if "i < length ?lit" "start + n + i < length raw" for i
          using starts_with_nth [OF f that(1)] that(2) by (simp add: nth_append)
        have lit: "length ?lit = 11" "?lit ! 0 = 60" by (simp_all add: tag_lits)
        have "\<forall>i<length ?lit. 0 < i \<longrightarrow> ?lit ! i \<noteq> 60" unfolding Q36_TOOL_CALLS_START_def by code_simp
        then have none: "raw ! i \<noteq> 60" if "start + n < i" "i < length raw" for i
          using at [of "i - (start + n)"] that over by auto
        obtain k where "last_marker raw start = Some k" "k \<le> start + n"
          using last_marker_le [of start "start + n" raw] below over lit at [of 0] none by auto
        then show ?thesis by (auto simp: l2_def)
      qed
      have "text_stream_safe_limit raw start True False \<le> trim_tool_separator_ws raw start l2"
        using False None utf8_safe_le by (simp add: text_stream_safe_limit_def Let_def flip: l1_def l2_def)
      also have "\<dots> = trim_tool_separator_ws (raw @ x) start l2" using l1 l2 by (simp add: trim_append)
      also have "\<dots> \<le> trim_tool_separator_ws (raw @ x) start (start + n)" using l2 p b by (intro trim_mono) auto
      finally show ?thesis .
    qed
  qed
qed

theorem tool_syntax_hidden_witness:
  "text_stream_safe_limit (str ''ok  <tool_'') 0 True False \<le> trim_tool_separator_ws (str ''ok  <tool_'' @ str ''call>'') 0 (0 + 4)"
  by (rule tool_syntax_hidden) (simp_all add: tag_lits)

end
