(* ===== verification/Tool_Track.thy ===== *)
theory Tool_Track
  imports Stream_Cut
begin

text \<open>
  The tracker of \<^verbatim>\<open>q36_server.c\<close> that says, token by token, whether generation is outside a tool call,
  in its syntax or in a parameter's payload (\<^verbatim>\<open>qwen_tool_decode_tracker_update\<close>), the slow recognizer
  that the tests compare it with (\<^verbatim>\<open>qwen_tool_decode_state_for_text\<close>), and their equivalence.
\<close>

section \<open>Syntax and markers\<close>

record qwen_tool_syntax =
  tool_calls_start :: bytes
  tool_calls_end :: bytes
  invoke_start :: bytes
  invoke_end :: bytes
  param_start :: bytes
  param_end :: bytes

definition qwen_tool_syntaxes :: "qwen_tool_syntax list" where
  "qwen_tool_syntaxes =
     [\<lparr>tool_calls_start = Q36_TOOL_CALLS_START, tool_calls_end = Q36_TOOL_CALLS_END,
       invoke_start = Q36_INVOKE_START, invoke_end = Q36_INVOKE_END,
       param_start = Q36_PARAM_START, param_end = Q36_PARAM_END\<rparr>]"

datatype qwen_tool_decode_state =
  QWEN_TOOL_DECODE_OUTSIDE | QWEN_TOOL_DECODE_STRUCTURAL | QWEN_TOOL_DECODE_PAYLOAD

datatype qwen_tool_track_mode =
  QWEN_TOOL_TRACK_SEARCH | QWEN_TOOL_TRACK_STRUCTURAL | QWEN_TOOL_TRACK_PAYLOAD | QWEN_TOOL_TRACK_DONE

record qwen_tool_decode_tracker =
  dt_mode :: qwen_tool_track_mode
  dt_decode :: qwen_tool_decode_state
  dt_syn :: "qwen_tool_syntax option"
  dt_pos :: nat

definition qwen_tool_max_tool_start_len :: nat where
  "qwen_tool_max_tool_start_len = fold (\<lambda>syn m. max m (length (tool_calls_start syn))) qwen_tool_syntaxes 0"

text \<open>The first marker of any syntax: the position behind it.\<close>

definition find_start_step :: "bytes \<Rightarrow> qwen_tool_syntax \<Rightarrow> (nat \<times> qwen_tool_syntax) option \<Rightarrow> (nat \<times> qwen_tool_syntax) option" where
  "find_start_step raw syn best =
     (case find_lit_bounded raw (tool_calls_start syn) of
        None \<Rightarrow> best
      | Some p \<Rightarrow> (case best of None \<Rightarrow> Some (p, syn) | Some (b, _) \<Rightarrow> if p < b then Some (p, syn) else best))"

definition qwen_tool_find_tool_start :: "bytes \<Rightarrow> (nat \<times> qwen_tool_syntax) option" where
  "qwen_tool_find_tool_start raw =
     (case fold (find_start_step raw) qwen_tool_syntaxes None of
        None \<Rightarrow> None
      | Some (best, syn) \<Rightarrow> Some (best + length (tool_calls_start syn), syn))"

definition qwen_tool_find_tool_start_from :: "bytes \<Rightarrow> nat \<Rightarrow> (nat \<times> qwen_tool_syntax) option" where
  "qwen_tool_find_tool_start_from raw start =
     (if start > length raw then None
      else map_option (\<lambda>(rel, syn). (start + rel, syn)) (qwen_tool_find_tool_start (drop start raw)))"

definition raw_partial_lit :: "bytes \<Rightarrow> bytes \<Rightarrow> bool" where
  "raw_partial_lit p lit \<longleftrightarrow> length p < length lit \<and> p = take (length p) lit"

definition raw_suffix_partial_lit :: "bytes \<Rightarrow> bytes \<Rightarrow> nat \<Rightarrow> bool" where
  "raw_suffix_partial_lit raw lit min_len \<longleftrightarrow>
     (if raw = [] \<or> lit = [] then False
      else \<exists>n\<in>set [min_len..<(if length raw < length lit then length raw else length lit - 1) + 1].
             drop (length raw - n) raw = take n lit)"

text \<open>\<^verbatim>\<open>memchr(..., '>', ...)\<close>: what follows the next \<^verbatim>\<open>></\<close>.\<close>

definition after_tag :: "bytes \<Rightarrow> bytes option" where
  "after_tag p = (case dropWhile (\<lambda>c. c \<noteq> 62) p of [] \<Rightarrow> None | _ # t \<Rightarrow> Some t)"

lemma after_tag_shorter: "after_tag p = Some t \<Longrightarrow> length t < length p"
  by (auto simp: after_tag_def split: list.splits dest: dropWhile_Cons_shorter)

section \<open>The reference recognizer\<close>

text \<open>
  The scan of one syntax from the suffix \<open>p\<close> of \<open>raw\<close>.  At anything but a whole tag the answer is
  the same whether a tag has begun or not.
\<close>

lemma raw_skip_le: "length (raw_skip_ascii_ws p) \<le> length p"
  by (simp add: raw_skip_ascii_ws_def length_dropWhile_le)

function decode_scan :: "qwen_tool_syntax \<Rightarrow> bytes \<Rightarrow> bytes \<Rightarrow> qwen_tool_decode_state" where
  "decode_scan syn raw p =
     (if raw_skip_ascii_ws p = [] then QWEN_TOOL_DECODE_STRUCTURAL
      else if raw_full_lit (raw_skip_ascii_ws p) (tool_calls_end syn) then QWEN_TOOL_DECODE_OUTSIDE
      else if raw_full_lit (raw_skip_ascii_ws p) (invoke_end syn) then
        (if invoke_end syn = [] then QWEN_TOOL_DECODE_STRUCTURAL
         else decode_scan syn raw (drop (length (invoke_end syn)) (raw_skip_ascii_ws p)))
      else if raw_full_lit (raw_skip_ascii_ws p) (invoke_start syn) then
        (case after_tag (raw_skip_ascii_ws p) of
           None \<Rightarrow> QWEN_TOOL_DECODE_STRUCTURAL
         | Some t \<Rightarrow> decode_scan syn raw t)
      else if raw_full_lit (raw_skip_ascii_ws p) (param_start syn) then
        (case after_tag (raw_skip_ascii_ws p) of
           None \<Rightarrow> QWEN_TOOL_DECODE_STRUCTURAL
         | Some t \<Rightarrow>
             (case find_lit_bounded t (param_end syn) of
                None \<Rightarrow>
                  if raw_suffix_partial_lit raw (param_end syn) 2 then QWEN_TOOL_DECODE_STRUCTURAL
                  else QWEN_TOOL_DECODE_PAYLOAD
              | Some n \<Rightarrow> decode_scan syn raw (drop (n + length (param_end syn)) t)))
      else QWEN_TOOL_DECODE_STRUCTURAL)"
  by pat_completeness auto
termination
proof (relation "measure (\<lambda>(syn, raw, p). length p)", goal_cases)
  case (2 syn raw p)
  have "0 < length (raw_skip_ascii_ws p)" "0 < length (invoke_end syn)" using 2 by simp_all
  then have "length (drop (length (invoke_end syn)) (raw_skip_ascii_ws p)) < length (raw_skip_ascii_ws p)" by simp
  then show ?case using raw_skip_le [of p] by simp
next
  case (3 syn raw p t)
  then show ?case using raw_skip_le [of p] after_tag_shorter [of "raw_skip_ascii_ws p" t] by simp
next
  case (4 syn raw p t n)
  then show ?case using raw_skip_le [of p] after_tag_shorter [of "raw_skip_ascii_ws p" t] by simp
qed simp

declare decode_scan.simps [simp del]

definition qwen_tool_decode_state_for_text :: "bytes \<Rightarrow> qwen_tool_decode_state" where
  "qwen_tool_decode_state_for_text raw =
     (if raw = [] then QWEN_TOOL_DECODE_OUTSIDE
      else case qwen_tool_find_tool_start raw of
             None \<Rightarrow> QWEN_TOOL_DECODE_OUTSIDE
           | Some (pos, syn) \<Rightarrow> decode_scan syn raw (drop pos raw))"

section \<open>The tracker\<close>

definition qwen_tool_decode_tracker_init :: qwen_tool_decode_tracker where
  "qwen_tool_decode_tracker_init =
     \<lparr>dt_mode = QWEN_TOOL_TRACK_SEARCH, dt_decode = QWEN_TOOL_DECODE_OUTSIDE, dt_syn = None, dt_pos = 0\<rparr>"

text \<open>The syntax found by the search; the two modes that use it are entered only after one was found.\<close>

definition tracked_syntax :: "qwen_tool_decode_tracker \<Rightarrow> qwen_tool_syntax" where
  "tracked_syntax dt = (case dt_syn dt of Some syn \<Rightarrow> syn | None \<Rightarrow> hd qwen_tool_syntaxes)"

text \<open>The payload loop: the first position at which the closing tag stands or may have begun.\<close>

function payload_scan :: "bytes \<Rightarrow> bytes \<Rightarrow> nat \<Rightarrow> nat" where
  "payload_scan raw lit pos =
     (if pos < length raw \<and> \<not> raw_full_lit (drop pos raw) lit \<and> \<not> raw_partial_lit (drop pos raw) lit
      then payload_scan raw lit (pos + 1)
      else pos)"
  by pat_completeness auto
termination
  by (relation "measure (\<lambda>(raw, lit, pos). length raw - pos)") auto

declare payload_scan.simps [simp del]

text \<open>
  What one round of the loops does: go on with a new state, or return.  A round that goes on has
  moved the position forward.
\<close>

datatype track_round = Again qwen_tool_decode_tracker | Return qwen_tool_decode_tracker

definition track_payload :: "bytes \<Rightarrow> qwen_tool_decode_tracker \<Rightarrow> track_round" where
  "track_payload raw dt =
     (let lit = param_end (tracked_syntax dt); pos = payload_scan raw lit (dt_pos dt)
      in if pos < length raw then
           if raw_full_lit (drop pos raw) lit then
             Again (dt\<lparr>dt_pos := pos + length lit, dt_mode := QWEN_TOOL_TRACK_STRUCTURAL,
                       dt_decode := QWEN_TOOL_DECODE_STRUCTURAL\<rparr>)
           else
             Return (dt\<lparr>dt_pos := pos,
                        dt_decode := (if length raw - pos \<ge> 2 then QWEN_TOOL_DECODE_STRUCTURAL else QWEN_TOOL_DECODE_PAYLOAD)\<rparr>)
         else Return (dt\<lparr>dt_pos := pos, dt_decode := QWEN_TOOL_DECODE_PAYLOAD\<rparr>))"

definition track_structural :: "bytes \<Rightarrow> qwen_tool_decode_tracker \<Rightarrow> track_round" where
  "track_structural raw dt =
     (let syn = tracked_syntax dt;
          p = raw_skip_ascii_ws (drop (dt_pos dt) raw);
          dt = dt\<lparr>dt_pos := dt_pos dt + (length (drop (dt_pos dt) raw) - length p)\<rparr>
      in if p = [] then Return (dt\<lparr>dt_decode := QWEN_TOOL_DECODE_STRUCTURAL\<rparr>)
         else if raw_full_lit p (tool_calls_end syn) then
           Return (dt\<lparr>dt_mode := QWEN_TOOL_TRACK_DONE, dt_pos := dt_pos dt + length (tool_calls_end syn),
                      dt_decode := QWEN_TOOL_DECODE_OUTSIDE\<rparr>)
         else if raw_full_lit p (invoke_end syn) then Again (dt\<lparr>dt_pos := dt_pos dt + length (invoke_end syn)\<rparr>)
         else if raw_full_lit p (invoke_start syn) then
           (case after_tag p of
              None \<Rightarrow> Return (dt\<lparr>dt_decode := QWEN_TOOL_DECODE_STRUCTURAL\<rparr>)
            | Some t \<Rightarrow> Again (dt\<lparr>dt_pos := length raw - length t\<rparr>))
         else if raw_full_lit p (param_start syn) then
           (case after_tag p of
              None \<Rightarrow> Return (dt\<lparr>dt_decode := QWEN_TOOL_DECODE_STRUCTURAL\<rparr>)
            | Some t \<Rightarrow> Again (dt\<lparr>dt_pos := length raw - length t, dt_mode := QWEN_TOOL_TRACK_PAYLOAD,
                                 dt_decode := QWEN_TOOL_DECODE_PAYLOAD\<rparr>))
         else Return (dt\<lparr>dt_decode := QWEN_TOOL_DECODE_STRUCTURAL\<rparr>))"

definition track_round :: "bytes \<Rightarrow> qwen_tool_decode_tracker \<Rightarrow> track_round" where
  "track_round raw dt =
     (case dt_mode dt of
        QWEN_TOOL_TRACK_DONE \<Rightarrow>
          (case qwen_tool_find_tool_start_from raw (dt_pos dt) of
             None \<Rightarrow> Return dt
           | Some (pos, _) \<Rightarrow> Again (dt\<lparr>dt_pos := pos, dt_mode := QWEN_TOOL_TRACK_SEARCH\<rparr>))
      | QWEN_TOOL_TRACK_SEARCH \<Rightarrow>
          (case qwen_tool_find_tool_start_from raw (dt_pos dt) of
             None \<Rightarrow>
               let hold = qwen_tool_max_tool_start_len
               in Return (dt\<lparr>dt_pos := (if length raw > hold then length raw - hold else 0),
                             dt_decode := QWEN_TOOL_DECODE_OUTSIDE\<rparr>)
           | Some (pos, syn) \<Rightarrow>
               Again (dt\<lparr>dt_syn := Some syn, dt_pos := pos, dt_mode := QWEN_TOOL_TRACK_STRUCTURAL,
                         dt_decode := QWEN_TOOL_DECODE_STRUCTURAL\<rparr>))
      | QWEN_TOOL_TRACK_PAYLOAD \<Rightarrow> track_payload raw dt
      | QWEN_TOOL_TRACK_STRUCTURAL \<Rightarrow> track_structural raw dt)"


text \<open>
  The loop of the update.  Its guard, that a round which goes on leaves less text in front of it,
  always holds for the syntax of the table (\<open>track_round_forward\<close>).
\<close>

function tracker_loop :: "bytes \<Rightarrow> qwen_tool_decode_tracker \<Rightarrow> qwen_tool_decode_tracker" where
  "tracker_loop raw dt =
     (case track_round raw dt of
        Return dt' \<Rightarrow> dt'
      | Again dt' \<Rightarrow> if length raw - dt_pos dt' < length raw - dt_pos dt then tracker_loop raw dt' else dt')"
  by pat_completeness auto
termination
  by (relation "measure (\<lambda>(raw, dt). length raw - dt_pos dt)") auto

declare tracker_loop.simps [simp del]

definition qwen_tool_decode_tracker_update :: "qwen_tool_decode_tracker \<Rightarrow> bytes option \<Rightarrow> qwen_tool_decode_tracker" where
  "qwen_tool_decode_tracker_update dt raw = (case raw of None \<Rightarrow> dt | Some raw \<Rightarrow> tracker_loop raw dt)"

text \<open>What the decode loop does with the answer.\<close>

definition qwen_tool_decode_state_is_tool :: "qwen_tool_decode_state \<Rightarrow> bool" where
  "qwen_tool_decode_state_is_tool state \<longleftrightarrow> state \<noteq> QWEN_TOOL_DECODE_OUTSIDE"

definition qwen_tool_decode_state_uses_payload_sampling :: "qwen_tool_decode_state \<Rightarrow> bool" where
  "qwen_tool_decode_state_uses_payload_sampling state \<longleftrightarrow> state = QWEN_TOOL_DECODE_PAYLOAD"

text \<open>The flags that the loop keeps: a call was opened, closed, or closed without being opened.\<close>

definition observe_tool_markers ::
    "qwen_tool_decode_tracker \<Rightarrow> bytes option \<Rightarrow> bool \<times> bool \<times> bool \<Rightarrow> bool \<times> bool \<times> bool" where
  "observe_tool_markers tracker scan flags =
     (case flags of (saw_start, saw_end, orphan_end) \<Rightarrow>
        let saw_start = (saw_start \<or> dt_syn tracker \<noteq> None)
        in if dt_mode tracker = QWEN_TOOL_TRACK_DONE then (saw_start, True, orphan_end)
           else if \<not> saw_start \<and> (case scan of None \<Rightarrow> False | Some s \<Rightarrow> strstr s Q36_TOOL_CALLS_END \<noteq> None)
           then (saw_start, saw_end, True)
           else (saw_start, saw_end, orphan_end))"

definition complete_tool_text :: "bytes option \<Rightarrow> bool" where
  "complete_tool_text txt0 =
     (case txt0 of
        None \<Rightarrow> False
      | Some t \<Rightarrow>
          if strstr t Q36_TOOL_CALLS_END = None then False
          else (case parse_generated_message_ex (Some t) False [] of
                  None \<Rightarrow> False
                | Some (_, _, calls) \<Rightarrow> calls_v calls \<noteq> []))"

section \<open>Facts on the one syntax\<close>

abbreviation qsyn :: qwen_tool_syntax where
  "qsyn \<equiv> hd qwen_tool_syntaxes"

lemma qsyn_simps [simp]:
  "tool_calls_start qsyn = Q36_TOOL_CALLS_START" "tool_calls_end qsyn = Q36_TOOL_CALLS_END"
  "invoke_start qsyn = Q36_INVOKE_START" "invoke_end qsyn = Q36_INVOKE_END"
  "param_start qsyn = Q36_PARAM_START" "param_end qsyn = Q36_PARAM_END"
  by (simp_all add: qwen_tool_syntaxes_def)

lemma find_start: "qwen_tool_find_tool_start raw = map_option (\<lambda>n. (n + 11, qsyn)) (strstr raw Q36_TOOL_CALLS_START)"
proof -
  have l: "Q36_TOOL_CALLS_START \<noteq> []" "length Q36_TOOL_CALLS_START = 11" by (simp_all add: tag_lits)
  show ?thesis
    unfolding qwen_tool_find_tool_start_def qwen_tool_syntaxes_def
    by (simp add: find_start_step_def find_lit_strstr [OF l(1)] l(2) split: option.split)
qed

lemma find_start_from:
  "start \<le> length raw \<Longrightarrow> qwen_tool_find_tool_start_from raw start =
    map_option (\<lambda>n. (start + n + 11, qsyn)) (strstr (drop start raw) Q36_TOOL_CALLS_START)"
  by (simp add: qwen_tool_find_tool_start_from_def find_start option.map_comp comp_def add.assoc)

lemma max_start_len: "qwen_tool_max_tool_start_len = 11"
  by (simp add: qwen_tool_max_tool_start_len_def qwen_tool_syntaxes_def tag_lits)

lemma reference_text:
  "qwen_tool_decode_state_for_text raw =
    (case strstr raw Q36_TOOL_CALLS_START of
       None \<Rightarrow> QWEN_TOOL_DECODE_OUTSIDE
     | Some n \<Rightarrow> decode_scan qsyn raw (drop (n + 11) raw))"
  by (simp add: qwen_tool_decode_state_for_text_def find_start tag_lits split: option.split)

text \<open>The end of the parameter: eleven bytes behind a \<^verbatim>\<open><\<close>, none of them a \<^verbatim>\<open><\<close>, the last a \<^verbatim>\<open>></\<close>.\<close>

abbreviation PE :: bytes where "PE \<equiv> Q36_PARAM_END"

lemma PE_facts: "length PE = 12" "PE ! 0 = 60" "PE \<noteq> []" "\<And>i. 0 < i \<Longrightarrow> i < 12 \<Longrightarrow> PE ! i \<noteq> 60" "\<And>i. i < 11 \<Longrightarrow> PE ! i \<noteq> 62"
proof -
  have "list_all (\<lambda>i. (0 < i \<longrightarrow> PE ! i \<noteq> 60) \<and> (i < 11 \<longrightarrow> PE ! i \<noteq> 62)) [0..<12]"
    unfolding Q36_PARAM_END_def by code_simp
  then show "\<And>i. 0 < i \<Longrightarrow> i < 12 \<Longrightarrow> PE ! i \<noteq> 60" "\<And>i. i < 11 \<Longrightarrow> PE ! i \<noteq> 62"
    by (auto simp: list_all_iff)
qed (simp_all add: tag_lits)

text \<open>A text whose end may be the beginning of the closing tag.\<close>

definition begun :: "bytes \<Rightarrow> bool" where
  "begun p \<longleftrightarrow> p \<noteq> [] \<and> length p < 12 \<and> p = take (length p) PE"

lemma partial_begun: "p \<noteq> [] \<Longrightarrow> raw_partial_lit p PE \<longleftrightarrow> begun p"
  by (simp add: raw_partial_lit_def begun_def PE_facts)

lemma begun_nth: "begun p \<Longrightarrow> i < length p \<Longrightarrow> p ! i = PE ! i"
  unfolding begun_def by (metis nth_take)

lemma begun_append: "begun (p @ x) \<Longrightarrow> p \<noteq> [] \<Longrightarrow> begun p"
  unfolding begun_def by (metis append_eq_conv_conj append_is_Nil_conv le_add1 length_append
      le_less_trans min.absorb1 take_take)

lemma starts_begun: "starts_with PE (p @ x) \<Longrightarrow> p \<noteq> [] \<Longrightarrow> \<not> starts_with PE p \<Longrightarrow> begun p"
proof -
  assume a: "starts_with PE (p @ x)" "p \<noteq> []" "\<not> starts_with PE p"
  have "length p < 12"
  proof (rule ccontr)
    assume "\<not> ?thesis"
    then have "take 12 (p @ x) = take 12 p" "12 \<le> length p" by simp_all
    then show False using a(1,3) by (simp add: starts_with_def PE_facts)
  qed
  moreover have "p = take (length p) PE"
    using a(1) \<open>length p < 12\<close> PE_facts(1) unfolding starts_with_def
    by (metis append_eq_conv_conj min.absorb1 nat_less_le take_append take_take diff_is_0_eq' take0 append_Nil2)
  ultimately show ?thesis using a(2) by (simp add: begun_def)
qed

text \<open>Only one place can have begun: that of the last \<^verbatim>\<open><\<close>.\<close>

lemma begun_unique: "begun (drop q raw) \<Longrightarrow> begun (drop r raw) \<Longrightarrow> q = r"
proof (rule ccontr)
  assume a: "begun (drop q raw)" "begun (drop r raw)" "q \<noteq> r"
  have False if "begun (drop q raw)" "begun (drop r raw)" "q < r" for q r
  proof -
    have l: "r < length raw" "length (drop q raw) < 12" using that by (auto simp: begun_def)
    have "raw ! r = 60" using begun_nth [OF that(2), of 0] l(1) PE_facts(2) by simp
    moreover have "drop q raw ! (r - q) = PE ! (r - q)" using begun_nth [OF that(1), of "r - q"] l(1) that(3) by simp
    moreover have "r - q < 12" using l that(3) by simp
    ultimately show False using PE_facts(4) [of "r - q"] l(1) that(3) by simp
  qed
  then show False using a by (meson linorder_neqE_nat)
qed

lemma suffix_partial_begun:
  "raw_suffix_partial_lit raw PE 2 \<longleftrightarrow> (\<exists>q. begun (drop q raw) \<and> 2 \<le> length raw - q)"
proof
  assume "raw_suffix_partial_lit raw PE 2"
  then obtain n where m: "n \<in> set [2..<(if length raw < length PE then length raw else length PE - 1) + 1]"
      "drop (length raw - n) raw = take n PE"
    unfolding raw_suffix_partial_lit_def by meson
  then have n: "2 \<le> n" "n < 12 \<and> n \<le> length raw" "drop (length raw - n) raw = take n PE"
    using PE_facts(1) by (auto split: if_splits)
  have "length (drop (length raw - n) raw) = n" using n(2) by simp
  then have "begun (drop (length raw - n) raw)" unfolding begun_def using n by auto
  moreover have "2 \<le> length raw - (length raw - n)" using n by simp
  ultimately show "\<exists>q. begun (drop q raw) \<and> 2 \<le> length raw - q" by blast
next
  assume "\<exists>q. begun (drop q raw) \<and> 2 \<le> length raw - q"
  then obtain q where q: "begun (drop q raw)" "2 \<le> length raw - q" by blast
  let ?n = "length raw - q"
  have "?n < 12" "drop q raw = take ?n PE" using q(1) by (simp_all add: begun_def)
  moreover have "length raw - ?n = q" using q(2) by simp
  ultimately show "raw_suffix_partial_lit raw PE 2"
    using q(2) by (auto simp: raw_suffix_partial_lit_def PE_facts intro!: bexI [of _ ?n])
qed

lemma payload_scan_spec:
  "pos \<le> length raw \<Longrightarrow> pos \<le> payload_scan raw PE pos \<and> payload_scan raw PE pos \<le> length raw \<and>
    (\<forall>q. pos \<le> q \<and> q < payload_scan raw PE pos \<longrightarrow> \<not> starts_with PE (drop q raw) \<and> \<not> begun (drop q raw)) \<and>
    (payload_scan raw PE pos < length raw \<longrightarrow>
       starts_with PE (drop (payload_scan raw PE pos) raw) \<or> begun (drop (payload_scan raw PE pos) raw))"
proof (induction raw "PE" pos rule: payload_scan.induct)
  case (1 raw pos)
  show ?case
  proof (cases "pos < length raw \<and> \<not> raw_full_lit (drop pos raw) PE \<and> \<not> raw_partial_lit (drop pos raw) PE")
    case True
    then have e: "payload_scan raw PE pos = payload_scan raw PE (pos + 1)" by (subst payload_scan.simps) simp
    have "\<not> starts_with PE (drop pos raw) \<and> \<not> begun (drop pos raw)"
      using True partial_begun [of "drop pos raw"] by (simp add: raw_full_lit_starts)
    then show ?thesis using 1(1) [OF True] True unfolding e
      by (auto simp: Suc_le_eq) (metis le_neq_implies_less not_less_eq_eq)+
  next
    case False
    then have e: "payload_scan raw PE pos = pos" by (subst payload_scan.simps) auto
    show ?thesis using False 1(2) partial_begun [of "drop pos raw"] unfolding e by (auto simp: raw_full_lit_starts)
  qed
qed


section \<open>The scan from a position, and how it goes on when text is added\<close>

fun resume :: "qwen_tool_track_mode \<Rightarrow> bytes \<Rightarrow> bytes \<Rightarrow> qwen_tool_decode_state" where
  "resume QWEN_TOOL_TRACK_STRUCTURAL raw s = decode_scan qsyn raw s"
| "resume QWEN_TOOL_TRACK_PAYLOAD raw s =
     (case strstr s PE of
        None \<Rightarrow> if raw_suffix_partial_lit raw PE 2 then QWEN_TOOL_DECODE_STRUCTURAL else QWEN_TOOL_DECODE_PAYLOAD
      | Some n \<Rightarrow> decode_scan qsyn raw (drop (n + 12) s))"
| "resume _ raw s = QWEN_TOOL_DECODE_OUTSIDE"

lemma skip_append: "raw_skip_ascii_ws s \<noteq> [] \<Longrightarrow> raw_skip_ascii_ws (s @ x) = raw_skip_ascii_ws s @ x"
  "raw_skip_ascii_ws s = [] \<Longrightarrow> raw_skip_ascii_ws (s @ x) = raw_skip_ascii_ws x"
  by (auto simp: raw_skip_ascii_ws_def dropWhile_append)

lemma after_tag_append: "after_tag p = Some t \<Longrightarrow> after_tag (p @ x) = Some (t @ x)"
proof -
  assume a: "after_tag p = Some t"
  then have "dropWhile (\<lambda>c. c \<noteq> 62) p \<noteq> []" unfolding after_tag_def by (metis list.case(1) option.distinct(1))
  then have "dropWhile (\<lambda>c. c \<noteq> 62) (p @ x) = dropWhile (\<lambda>c. c \<noteq> 62) p @ x"
    by (metis (mono_tags, lifting) dropWhile_append1 dropWhile_eq_Nil_conv)
  moreover obtain c where "dropWhile (\<lambda>c. c \<noteq> 62) p = c # t" using a by (auto simp: after_tag_def split: list.splits)
  ultimately show ?thesis unfolding after_tag_def by simp
qed

lemma after_tag_split: "after_tag p = Some t \<Longrightarrow> \<exists>u. p = u @ 62 # t"
proof -
  assume "after_tag p = Some t"
  then obtain c where d: "dropWhile (\<lambda>c. c \<noteq> 62) p = c # t" by (auto simp: after_tag_def split: list.splits)
  then have "c = 62" using hd_dropWhile [of "\<lambda>c. c \<noteq> 62" p] by simp
  then show ?thesis using d takeWhile_dropWhile_id [of "\<lambda>c. c \<noteq> 62" p] by metis
qed

lemma scan_skip: "decode_scan syn raw (raw_skip_ascii_ws s) = decode_scan syn raw s"
  by (subst (1 2) decode_scan.simps) simp

lemma scan_empty: "raw_skip_ascii_ws s = [] \<Longrightarrow> decode_scan syn raw s = QWEN_TOOL_DECODE_STRUCTURAL"
  by (subst decode_scan.simps) simp

lemma scan_close: "decode_scan qsyn raw (Q36_TOOL_CALLS_END @ r) = QWEN_TOOL_DECODE_OUTSIDE"
  by (subst decode_scan.simps) (simp add: raw_full_lit_starts tag_lits)

lemma scan_invoke_end: "decode_scan qsyn raw (Q36_INVOKE_END @ r) = decode_scan qsyn raw r"
  by (subst decode_scan.simps) (simp add: raw_full_lit_starts tag_lits)

lemma scan_invoke_start:
  "after_tag (Q36_INVOKE_START @ r) = Some t \<Longrightarrow> decode_scan qsyn raw (Q36_INVOKE_START @ r) = decode_scan qsyn raw t"
  by (subst decode_scan.simps) (simp add: raw_full_lit_starts tag_lits)

lemma scan_param_start:
  assumes "after_tag (Q36_PARAM_START @ r) = Some t"
  shows "decode_scan qsyn raw (Q36_PARAM_START @ r) = resume QWEN_TOOL_TRACK_PAYLOAD raw t"
proof -
  have n: "\<not> raw_full_lit (Q36_PARAM_START @ r) Q36_TOOL_CALLS_END" "\<not> raw_full_lit (Q36_PARAM_START @ r) Q36_INVOKE_END"
    "\<not> raw_full_lit (Q36_PARAM_START @ r) Q36_INVOKE_START" "raw_full_lit (Q36_PARAM_START @ r) Q36_PARAM_START"
    "raw_skip_ascii_ws (Q36_PARAM_START @ r) = Q36_PARAM_START @ r" "Q36_PARAM_START \<noteq> []"
    by (simp_all add: raw_full_lit_starts tag_lits)
  show ?thesis
    by (subst decode_scan.simps) (simp add: n assms find_lit_strstr [OF PE_facts(3)] PE_facts(1) split: option.split)
qed

text \<open>The state of a tracker inside a call, on a text.\<close>

definition tracks :: "qwen_tool_decode_tracker \<Rightarrow> bytes \<Rightarrow> bool" where
  "tracks dt raw \<longleftrightarrow>
     dt_pos dt \<le> length raw \<and> dt_syn dt = Some qsyn \<and>
     (dt_mode dt = QWEN_TOOL_TRACK_STRUCTURAL \<or>
      dt_mode dt = QWEN_TOOL_TRACK_PAYLOAD \<and> (\<forall>q<dt_pos dt. \<not> begun (drop q raw)))"

definition agrees :: "qwen_tool_decode_tracker \<Rightarrow> qwen_tool_decode_tracker \<Rightarrow> bytes \<Rightarrow> bool" where
  "agrees dt dt' raw \<longleftrightarrow>
     (\<forall>x. resume (dt_mode dt) (raw @ x) (drop (dt_pos dt) raw @ x) = resume (dt_mode dt') (raw @ x) (drop (dt_pos dt') raw @ x))"

definition returns :: "qwen_tool_decode_tracker \<Rightarrow> qwen_tool_decode_tracker \<Rightarrow> bytes \<Rightarrow> bool" where
  "returns dt dt' raw \<longleftrightarrow>
     dt_decode dt' = resume (dt_mode dt) raw (drop (dt_pos dt) raw) \<and> agrees dt dt' raw \<and>
     (tracks dt' raw \<or> dt_mode dt' = QWEN_TOOL_TRACK_DONE)"

lemma tracked_syntax_tracks: "tracks dt raw \<Longrightarrow> tracked_syntax dt = qsyn"
  by (simp add: tracks_def tracked_syntax_def)

lemma payload_round:
  assumes t: "tracks dt raw" and m: "dt_mode dt = QWEN_TOOL_TRACK_PAYLOAD"
  shows "case track_payload raw dt of
      Return dt' \<Rightarrow> returns dt dt' raw
    | Again dt' \<Rightarrow> tracks dt' raw \<and> dt_pos dt < dt_pos dt' \<and> dt_pos dt < length raw \<and> agrees dt dt' raw"
proof -
  define pos where "pos = dt_pos dt"
  define p where "p = payload_scan raw PE pos"
  have old: "pos \<le> length raw" "\<forall>q<pos. \<not> begun (drop q raw)" "dt_syn dt = Some qsyn" using t m by (auto simp: tracks_def pos_def)
  have p: "pos \<le> p" "p \<le> length raw" "\<And>q. pos \<le> q \<Longrightarrow> q < p \<Longrightarrow> \<not> starts_with PE (drop q raw)"
    "\<And>q. q < p \<Longrightarrow> \<not> begun (drop q raw)"
    "p < length raw \<Longrightarrow> starts_with PE (drop p raw) \<or> begun (drop p raw)"
  proof -
    note sp = payload_scan_spec [OF old(1), folded p_def]
    show "pos \<le> p" "p \<le> length raw" "p < length raw \<Longrightarrow> starts_with PE (drop p raw) \<or> begun (drop p raw)"
      "\<And>q. pos \<le> q \<Longrightarrow> q < p \<Longrightarrow> \<not> starts_with PE (drop q raw)" using sp by auto
    show "\<not> begun (drop q raw)" if "q < p" for q using sp old(2) that by (cases "q < pos") auto
  qed
  have none: "\<not> starts_with PE (drop q raw @ x)" if "pos \<le> q" "q < p" for q x
    using starts_begun [of "drop q raw" x] p(3,4) that p(2) by fastforce
  have dr: "drop (p - pos) (drop pos raw @ x) = drop p raw @ x" for x using p(1,2) by simp
  have st: "strstr (drop pos raw @ x) PE = map_option (\<lambda>n. (p - pos) + n) (strstr (drop p raw @ x) PE)" for x
  proof -
    have "\<forall>n<p - pos. \<not> starts_with PE (drop n (drop pos raw @ x))"
    proof (intro allI impI)
      fix n assume n: "n < p - pos"
      then have "drop n (drop pos raw @ x) = drop (n + pos) raw @ x" using p(1,2) by simp
      then show "\<not> starts_with PE (drop n (drop pos raw @ x))" using none [of "n + pos" x] n by simp
    qed
    then show ?thesis using strstr_drop [of "p - pos" PE "drop pos raw @ x"] p(1,2) dr by simp
  qed
  have go: "resume QWEN_TOOL_TRACK_PAYLOAD (raw @ x) (drop pos raw @ x) = resume QWEN_TOOL_TRACK_PAYLOAD (raw @ x) (drop p raw @ x)" for x
  proof (cases "strstr (drop p raw @ x) PE")
    case (Some n)
    have "drop (p - pos + n + 12) (drop pos raw @ x) = drop (n + 12) (drop (p - pos) (drop pos raw @ x))"
      by (simp only: drop_drop ac_simps)
    then have "drop (p - pos + n + 12) (drop pos raw @ x) = drop (n + 12) (drop p raw @ x)" unfolding dr .
    moreover have "strstr (drop pos raw @ x) PE = Some (p - pos + n)" using st Some by simp
    ultimately show ?thesis using Some by (simp only: resume.simps option.case)
  qed (simp add: st)
  have s: "param_end (tracked_syntax dt) = PE" using tracked_syntax_tracks [OF t] by simp
  note tp = track_payload_def [of raw dt, unfolded Let_def s, folded pos_def, folded p_def]
  show ?thesis
  proof (cases "p < length raw \<and> raw_full_lit (drop p raw) PE")
    case True
    then obtain r where r: "drop p raw = PE @ r" by (auto simp: raw_full_lit_starts elim: starts_withE)
    have e: "drop (p + 12) raw = r" using r PE_facts(1) by (metis add.commute append_eq_conv_conj drop_drop)
    have "strstr (PE @ y) PE = Some 0" for y by (simp add: tag_lits)
    then have "resume QWEN_TOOL_TRACK_PAYLOAD (raw @ x) (drop p raw @ x) = decode_scan qsyn (raw @ x) (r @ x)" for x
      by (simp add: r PE_facts(1))
    then have "agrees dt (dt\<lparr>dt_pos := p + 12, dt_mode := QWEN_TOOL_TRACK_STRUCTURAL, dt_decode := QWEN_TOOL_DECODE_STRUCTURAL\<rparr>) raw"
      using go e by (simp add: agrees_def m pos_def [symmetric])
    moreover have "p + 12 \<le> length raw" using arg_cong [OF r, of length] PE_facts(1) p(2) by simp
    ultimately show ?thesis
      using True p old by (simp add: tp PE_facts(1) tracks_def pos_def [symmetric])
  next
    case False
    define dt' where "dt' = dt\<lparr>dt_pos := p, dt_decode :=
      (if p < length raw \<and> length raw - p \<ge> 2 then QWEN_TOOL_DECODE_STRUCTURAL else QWEN_TOOL_DECODE_PAYLOAD)\<rparr>"
    have tr: "track_payload raw dt = Return dt'" using False unfolding tp dt'_def by auto
    have ag: "agrees dt dt' raw" using go by (simp add: agrees_def dt'_def m pos_def [symmetric])
    have tk: "tracks dt' raw" using p old m by (auto simp: tracks_def dt'_def)
    have b: "p < length raw \<Longrightarrow> begun (drop p raw)" using p(5) False by (auto simp: raw_full_lit_starts)
    have no: "strstr (drop p raw) PE = None"
    proof (cases "p < length raw")
      case True
      then show ?thesis using b False strstr_bound [of "drop p raw" PE] PE_facts(1) by (cases "strstr (drop p raw) PE") (auto simp: begun_def)
    qed (simp add: PE_facts)
    have "raw_suffix_partial_lit raw PE 2 \<longleftrightarrow> p < length raw \<and> length raw - p \<ge> 2"
      unfolding suffix_partial_begun
    proof
      assume "\<exists>q. begun (drop q raw) \<and> 2 \<le> length raw - q"
      then obtain q where q: "begun (drop q raw)" "2 \<le> length raw - q" by blast
      then have "p \<le> q" using p(4) not_le by blast
      then have "p < length raw" using q by simp
      then show "p < length raw \<and> length raw - p \<ge> 2" using begun_unique [OF q(1) b] q(2) by simp
    qed (use b in auto)
    then have "dt_decode dt' = resume QWEN_TOOL_TRACK_PAYLOAD raw (drop pos raw)"
      using go [of "[]"] no by (simp add: dt'_def)
    then show ?thesis using ag tk by (simp add: tr returns_def m pos_def)
  qed
qed

lemma structural_round:
  assumes t: "tracks dt raw" and m: "dt_mode dt = QWEN_TOOL_TRACK_STRUCTURAL"
  shows "case track_structural raw dt of
      Return dt' \<Rightarrow> returns dt dt' raw
    | Again dt' \<Rightarrow> tracks dt' raw \<and> dt_pos dt < dt_pos dt' \<and> dt_pos dt < length raw \<and> agrees dt dt' raw"
proof -
  define pos where "pos = dt_pos dt"
  define s where "s = drop pos raw"
  define p where "p = raw_skip_ascii_ws s"
  define pos1 where "pos1 = pos + (length s - length p)"
  have old: "pos \<le> length raw" "dt_syn dt = Some qsyn" using t by (auto simp: tracks_def pos_def)
  have suf: "suffix p s" by (simp add: p_def skip_suffix)
  then have "length p \<le> length s" by (rule suffix_length_le)
  moreover have "drop (length s - length p) s = p" using suf by (auto simp: suffix_def)
  ultimately have pos1: "drop pos1 raw = p" "pos \<le> pos1" "pos1 \<le> length raw" "length raw - pos1 = length p"
    using old(1) by (auto simp: pos1_def s_def add.commute)
  have y: "tracked_syntax dt = qsyn" by (rule tracked_syntax_tracks [OF t])
  note ts = track_structural_def [of raw dt, unfolded Let_def y, folded pos_def, folded s_def, folded p_def,
      folded pos1_def, simplified]
  have sk: "decode_scan qsyn w (s @ x) = decode_scan qsyn w (p @ x)" for w x
    using skip_append(1) [of s x] skip_append(2) [of s x] scan_skip [of qsyn w "s @ x"] scan_skip [of qsyn w x]
    by (cases "p = []") (simp_all add: p_def)
  have ret: "returns dt dt' raw"
    if "dt' = dt\<lparr>dt_pos := pos1, dt_decode := QWEN_TOOL_DECODE_STRUCTURAL\<rparr>" "decode_scan qsyn raw p = QWEN_TOOL_DECODE_STRUCTURAL" for dt'
    using that sk [of raw "[]"] sk pos1 old m
    by (simp add: returns_def agrees_def tracks_def pos_def [symmetric] s_def [symmetric])
  have again: "tracks dt' raw \<and> pos < q \<and> pos < length raw \<and> agrees dt dt' raw"
    if "dt' = dt\<lparr>dt_pos := q, dt_mode := md, dt_decode := d\<rparr>" "pos1 < q" "q \<le> length raw"
      "\<And>x. decode_scan qsyn (raw @ x) (p @ x) = resume md (raw @ x) (drop q raw @ x)"
      "md = QWEN_TOOL_TRACK_STRUCTURAL \<or> md = QWEN_TOOL_TRACK_PAYLOAD \<and> (\<forall>k<q. \<not> begun (drop k raw))" for q md d dt'
    using that sk pos1 old m
    by (auto simp: agrees_def tracks_def pos_def [symmetric] s_def [symmetric])
  have keep: "dt\<lparr>dt_pos := q\<rparr> = dt\<lparr>dt_pos := q, dt_mode := QWEN_TOOL_TRACK_STRUCTURAL, dt_decode := dt_decode dt\<rparr>" for q
    using m by (cases dt) simp
  have at: "drop (pos1 + length l) raw = r \<and> pos1 + length l \<le> length raw" if "p = l @ r" for l r
    using that pos1 by (metis add.commute append_eq_conv_conj drop_drop le_add_diff_inverse length_append nat_add_left_cancel_le le_add1)
  have tag: "pos1 < length raw - length r \<and> drop (length raw - length r) raw = r \<and>
      (\<forall>k<length raw - length r. \<not> begun (drop k raw))" if tg: "after_tag p = Some r" for r
  proof -
    obtain u where u: "p = u @ 62 # r" using after_tag_split [OF tg] by blast
    then have w: "raw = (take pos1 raw @ u @ [62]) @ r" using pos1(1) by (metis append.assoc append_Cons append_Nil append_take_drop_id)
    then have d: "drop (length raw - length r) raw = r" by (metis append_eq_conv_conj diff_add_inverse2 length_append)
    have l: "length raw - length r = pos1 + length u + 1" using arg_cong [OF w, of length] pos1(3) by simp
    have "\<not> begun (drop k raw)" if kl: "k < length raw - length r" for k
    proof
      assume b: "begun (drop k raw)"
      let ?i = "length raw - length r - 1 - k"
      have i: "?i < length (drop k raw)" "k + ?i = pos1 + length u" using kl l by auto
      have "drop k raw ! ?i = raw ! (pos1 + length u)" using i kl by (simp add: add.commute)
      also have "\<dots> = 62" using w pos1(3) by (metis (no_types, lifting) append.assoc append_Cons length_append length_take min.absorb2 nth_append_length)
      finally have "PE ! ?i = 62" using begun_nth [OF b i(1)] by simp
      moreover have "?i < 11" using b i(1) by (simp add: begun_def)
      ultimately show False using PE_facts(5) by blast
    qed
    then show ?thesis using d l by simp
  qed
  consider (empty) "p = []" | (close) r where "p = Q36_TOOL_CALLS_END @ r" | (inv_end) r where "p = Q36_INVOKE_END @ r"
    | (inv) r where "p = Q36_INVOKE_START @ r" | (par) r where "p = Q36_PARAM_START @ r"
    | (other) "p \<noteq> []" "\<not> starts_with Q36_TOOL_CALLS_END p" "\<not> starts_with Q36_INVOKE_END p" "\<not> starts_with Q36_INVOKE_START p" "\<not> starts_with Q36_PARAM_START p"
    by (metis starts_withE)
  then show ?thesis
  proof cases
    case empty
    then show ?thesis using ret scan_empty [of p] by (simp add: ts raw_skip_ascii_ws_def pos_def [symmetric])
  next
    case close
    have "track_structural raw dt = Return (dt\<lparr>dt_pos := pos1 + length Q36_TOOL_CALLS_END, dt_mode := QWEN_TOOL_TRACK_DONE, dt_decode := QWEN_TOOL_DECODE_OUTSIDE\<rparr>)"
      unfolding ts by (simp add: close raw_full_lit_starts) (simp add: tag_lits)
    then show ?thesis
      using sk [of raw "[]"] sk m scan_close by (simp add: returns_def agrees_def pos_def [symmetric] s_def [symmetric] close)
  next
    case inv_end
    have "track_structural raw dt = Again (dt\<lparr>dt_pos := pos1 + length Q36_INVOKE_END\<rparr>)"
      unfolding ts by (simp add: inv_end raw_full_lit_starts) (simp add: tag_lits)
    moreover have "tracks (dt\<lparr>dt_pos := pos1 + length Q36_INVOKE_END\<rparr>) raw \<and> pos < pos1 + length Q36_INVOKE_END \<and>
        pos < length raw \<and> agrees dt (dt\<lparr>dt_pos := pos1 + length Q36_INVOKE_END\<rparr>) raw"
      by (rule again [OF keep]) (use at [OF inv_end] scan_invoke_end in \<open>auto simp: inv_end tag_lits\<close>)
    ultimately show ?thesis by (simp add: pos_def [symmetric])
  next
    case inv
    show ?thesis
    proof (cases "after_tag p")
      case None
      then have "track_structural raw dt = Return (dt\<lparr>dt_pos := pos1, dt_decode := QWEN_TOOL_DECODE_STRUCTURAL\<rparr>)"
        unfolding ts by (simp add: inv raw_full_lit_starts) (simp add: tag_lits)
      moreover have "decode_scan qsyn raw p = QWEN_TOOL_DECODE_STRUCTURAL"
        using None by (subst decode_scan.simps) (simp add: inv raw_full_lit_starts, simp add: tag_lits)
      ultimately show ?thesis using ret by simp
    next
      case (Some t)
      have "track_structural raw dt = Again (dt\<lparr>dt_pos := length raw - length t\<rparr>)"
        unfolding ts using Some by (simp add: inv raw_full_lit_starts) (simp add: tag_lits)
      moreover have "tracks (dt\<lparr>dt_pos := length raw - length t\<rparr>) raw \<and> pos < length raw - length t \<and>
          pos < length raw \<and> agrees dt (dt\<lparr>dt_pos := length raw - length t\<rparr>) raw"
        by (rule again [OF keep]) (use tag [OF Some] scan_invoke_start after_tag_append [OF Some] in \<open>auto simp: inv\<close>)
      ultimately show ?thesis by (simp add: pos_def [symmetric])
    qed
  next
    case par
    show ?thesis
    proof (cases "after_tag p")
      case None
      then have "track_structural raw dt = Return (dt\<lparr>dt_pos := pos1, dt_decode := QWEN_TOOL_DECODE_STRUCTURAL\<rparr>)"
        unfolding ts by (simp add: par raw_full_lit_starts) (simp add: tag_lits)
      moreover have "decode_scan qsyn raw p = QWEN_TOOL_DECODE_STRUCTURAL"
        using None by (subst decode_scan.simps) (simp add: par raw_full_lit_starts, simp add: tag_lits)
      ultimately show ?thesis using ret by simp
    next
      case (Some t)
      let ?d = "dt\<lparr>dt_pos := length raw - length t, dt_mode := QWEN_TOOL_TRACK_PAYLOAD, dt_decode := QWEN_TOOL_DECODE_PAYLOAD\<rparr>"
      have "track_structural raw dt = Again ?d"
        unfolding ts using Some by (simp add: par raw_full_lit_starts) (simp add: tag_lits)
      moreover have "tracks ?d raw \<and> pos < length raw - length t \<and> pos < length raw \<and> agrees dt ?d raw"
        by (rule again [OF refl])
          (use tag [OF Some] scan_param_start after_tag_append [OF Some] in \<open>auto simp: par simp del: resume.simps\<close>)
      ultimately show ?thesis by (simp add: pos_def [symmetric])
    qed
  next
    case other
    then have "track_structural raw dt = Return (dt\<lparr>dt_pos := pos1, dt_decode := QWEN_TOOL_DECODE_STRUCTURAL\<rparr>)"
      unfolding ts by (simp add: raw_full_lit_starts)
    moreover have "decode_scan qsyn raw p = QWEN_TOOL_DECODE_STRUCTURAL"
      using other by (subst decode_scan.simps) (simp add: raw_full_lit_starts p_def)
    ultimately show ?thesis using ret by simp
  qed
qed


section \<open>The update and the reference\<close>

lemma track_round_tracks:
  assumes "tracks dt raw"
  shows "case track_round raw dt of
      Return dt' \<Rightarrow> returns dt dt' raw
    | Again dt' \<Rightarrow> tracks dt' raw \<and> dt_pos dt < dt_pos dt' \<and> dt_pos dt < length raw \<and> agrees dt dt' raw"
  using assms payload_round [OF assms] structural_round [OF assms]
  by (auto simp: tracks_def track_round_def)

lemma returns_agrees: "agrees dt dt' raw \<Longrightarrow> returns dt' dt'' raw \<Longrightarrow> returns dt dt'' raw"
  unfolding returns_def agrees_def by (metis append_Nil2)

lemma tracker_loop_returns: "tracks dt raw \<Longrightarrow> returns dt (tracker_loop raw dt) raw"
proof (induction raw dt rule: tracker_loop.induct)
  case (1 raw dt)
  note r = track_round_tracks [OF 1(2)]
  show ?case
  proof (cases "track_round raw dt")
    case (Return dt')
    then show ?thesis using r by (subst tracker_loop.simps) simp
  next
    case (Again dt')
    then have a: "tracks dt' raw" "agrees dt dt' raw" "length raw - dt_pos dt' < length raw - dt_pos dt"
      using r by (auto intro: diff_less_mono2)
    have "returns dt' (tracker_loop raw dt') raw" by (rule 1(1) [OF Again a(3,1)])
    then show ?thesis using Again a returns_agrees by (subst tracker_loop.simps) simp
  qed
qed

lemma tracks_append: "tracks dt raw \<Longrightarrow> tracks dt (raw @ x)"
  using begun_append [where x = x] by (fastforce simp: tracks_def)

text \<open>A tracker that has followed \<open>raw\<close>, in which no call was closed yet.\<close>

definition follows :: "qwen_tool_decode_tracker \<Rightarrow> bytes \<Rightarrow> bool" where
  "follows dt raw \<longleftrightarrow>
     dt_decode dt = qwen_tool_decode_state_for_text raw \<and>
     (if strstr raw Q36_TOOL_CALLS_START = None
      then dt_mode dt = QWEN_TOOL_TRACK_SEARCH \<and> dt_pos dt = length raw - 11
      else tracks dt raw \<and>
        (\<forall>x. qwen_tool_decode_state_for_text (raw @ x) = resume (dt_mode dt) (raw @ x) (drop (dt_pos dt) raw @ x)))"

definition closed_call :: "qwen_tool_decode_tracker \<Rightarrow> bytes \<Rightarrow> bool" where
  "closed_call dt raw \<longleftrightarrow>
     dt_decode dt = QWEN_TOOL_DECODE_OUTSIDE \<and> qwen_tool_decode_state_for_text raw = QWEN_TOOL_DECODE_OUTSIDE \<and>
     strstr raw Q36_TOOL_CALLS_START \<noteq> None \<and> dt_mode dt = QWEN_TOOL_TRACK_DONE"

lemma follows_init: "follows qwen_tool_decode_tracker_init []"
  by (simp add: follows_def qwen_tool_decode_tracker_init_def qwen_tool_decode_state_for_text_def tag_lits)

lemma loop_follows:
  assumes "tracks dt raw" "strstr raw Q36_TOOL_CALLS_START \<noteq> None"
    "\<And>x. qwen_tool_decode_state_for_text (raw @ x) = resume (dt_mode dt) (raw @ x) (drop (dt_pos dt) raw @ x)"
  shows "follows (tracker_loop raw dt) raw \<or> closed_call (tracker_loop raw dt) raw"
proof -
  let ?d = "tracker_loop raw dt"
  have r: "dt_decode ?d = resume (dt_mode dt) raw (drop (dt_pos dt) raw)" "agrees dt ?d raw"
    "tracks ?d raw \<or> dt_mode ?d = QWEN_TOOL_TRACK_DONE"
    using tracker_loop_returns [OF assms(1)] by (auto simp: returns_def)
  have e: "qwen_tool_decode_state_for_text (raw @ x) = resume (dt_mode ?d) (raw @ x) (drop (dt_pos ?d) raw @ x)" for x
    using r(2) assms(3) by (simp add: agrees_def)
  have d: "dt_decode ?d = qwen_tool_decode_state_for_text raw" using r(1) assms(3) [of "[]"] by simp
  show ?thesis
  proof (cases "tracks ?d raw")
    case True
    then show ?thesis using e d assms(2) by (auto simp: follows_def)
  next
    case False
    then show ?thesis using r(3) e [of "[]"] d assms(2) by (simp add: closed_call_def)
  qed
qed

lemma update_follows:
  assumes "follows dt raw"
  shows "follows (tracker_loop (raw @ x) dt) (raw @ x) \<or> closed_call (tracker_loop (raw @ x) dt) (raw @ x)"
proof (cases "strstr raw Q36_TOOL_CALLS_START")
  case (Some n)
  have s: "strstr (raw @ x) Q36_TOOL_CALLS_START \<noteq> None" using strstr_append_Some [OF Some] by simp
  have t: "tracks dt raw" "qwen_tool_decode_state_for_text (raw @ y) = resume (dt_mode dt) (raw @ y) (drop (dt_pos dt) raw @ y)" for y
    using assms Some by (auto simp: follows_def)
  have "drop (dt_pos dt) (raw @ x) = drop (dt_pos dt) raw @ x" using t(1) by (simp add: tracks_def)
  then show ?thesis using loop_follows [OF tracks_append [OF t(1)] s] t(2) [of "x @ y" for y] by simp
next
  case None
  define pos where "pos = length raw - 11"
  have d: "dt_mode dt = QWEN_TOOL_TRACK_SEARCH" "dt_pos dt = pos" using assms None by (simp_all add: follows_def pos_def)
  have len: "length Q36_TOOL_CALLS_START = 11" by (simp add: tag_lits)
  have no: "\<forall>n<pos. \<not> starts_with Q36_TOOL_CALLS_START (drop n (raw @ x))"
  proof (intro allI impI notI)
    fix n assume n: "n < pos" "starts_with Q36_TOOL_CALLS_START (drop n (raw @ x))"
    then have "starts_with Q36_TOOL_CALLS_START (drop n raw)" using len by (auto simp: starts_with_def pos_def)
    then show False using None by (simp add: strstr_None_iff)
  qed
  have st: "strstr (raw @ x) Q36_TOOL_CALLS_START = map_option (\<lambda>n. pos + n) (strstr (drop pos (raw @ x)) Q36_TOOL_CALLS_START)"
    using strstr_drop [OF no] by (simp add: pos_def)
  have ff: "qwen_tool_find_tool_start_from (raw @ x) pos =
      map_option (\<lambda>n. (pos + n + 11, qsyn)) (strstr (drop pos (raw @ x)) Q36_TOOL_CALLS_START)"
    by (rule find_start_from) (simp add: pos_def)
  show ?thesis
  proof (cases "strstr (drop pos (raw @ x)) Q36_TOOL_CALLS_START")
    case none: None
    have "tracker_loop (raw @ x) dt =
        dt\<lparr>dt_pos := length (raw @ x) - 11, dt_decode := QWEN_TOOL_DECODE_OUTSIDE\<rparr>"
      by (subst tracker_loop.simps) (simp add: track_round_def d ff none max_start_len del: drop_append)
    then show ?thesis using d none st by (simp add: follows_def reference_text)
  next
    case (Some n)
    define dt1 where "dt1 = dt\<lparr>dt_syn := Some qsyn, dt_pos := pos + n + 11, dt_mode := QWEN_TOOL_TRACK_STRUCTURAL,
      dt_decode := QWEN_TOOL_DECODE_STRUCTURAL\<rparr>"
    have b: "pos + n + 11 \<le> length (raw @ x)" using strstr_bound [OF Some] len by (auto simp: pos_def)
    have "length (raw @ x) - (pos + n + 11) < length (raw @ x) - pos" using b by (intro diff_less_mono2) auto
    then have l: "tracker_loop (raw @ x) dt = tracker_loop (raw @ x) dt1"
      by (subst tracker_loop.simps) (simp add: track_round_def d ff Some dt1_def del: drop_append length_append)
    have s: "strstr (raw @ x) Q36_TOOL_CALLS_START = Some (pos + n)" using st Some by simp
    have "qwen_tool_decode_state_for_text ((raw @ x) @ y) = resume (dt_mode dt1) ((raw @ x) @ y) (drop (dt_pos dt1) (raw @ x) @ y)" for y
    proof -
      have "drop (pos + n + 11) ((raw @ x) @ y) = drop (pos + n + 11) (raw @ x) @ y" using b by simp
      then show ?thesis using strstr_append_Some [OF s, of y] unfolding reference_text by (simp only: option.case dt1_def resume.simps) simp
    qed
    moreover have "tracks dt1 (raw @ x)" using b by (simp add: tracks_def dt1_def)
    ultimately show ?thesis using loop_follows [of dt1 "raw @ x"] s l by simp
  qed
qed

section \<open>The end of a call\<close>

text \<open>Where the tracker stops after a call: behind its closing tag.\<close>

definition behind_call :: "bytes \<Rightarrow> nat \<Rightarrow> bool" where
  "behind_call raw pos \<longleftrightarrow> pos \<le> length raw \<and> suffix Q36_TOOL_CALLS_END (take pos raw)"

lemma behind_lit:
  assumes "starts_with lit (drop pos raw)"
  shows "pos + length lit \<le> length raw \<or> lit = []" "suffix lit (take (pos + length lit) raw)"
proof -
  have t: "take (length lit) (drop pos raw) = lit" using assms by (simp add: starts_with_def)
  then have "take (pos + length lit) raw = take pos raw @ lit" by (simp add: take_add)
  then show "suffix lit (take (pos + length lit) raw)" by (simp add: suffix_def)
  show "pos + length lit \<le> length raw \<or> lit = []"
  proof (rule ccontr)
    assume a: "\<not> ?thesis"
    have "length (take (length lit) (drop pos raw)) = length lit" using t by simp
    then show False using a by (cases lit) auto
  qed
qed

lemma skip_position:
  assumes "pos \<le> length raw"
  defines "p \<equiv> raw_skip_ascii_ws (drop pos raw)"
  shows "drop (pos + (length (drop pos raw) - length p)) raw = p" "pos + (length (drop pos raw) - length p) \<le> length raw"
proof -
  have "suffix p (drop pos raw)" by (simp add: p_def raw_skip_ascii_ws_def suffix_dropWhile)
  then have "drop (length (drop pos raw) - length p) (drop pos raw) = p"
    by (metis append_eq_conv_conj diff_add_inverse2 length_append suffix_def)
  then show "drop (pos + (length (drop pos raw) - length p)) raw = p" by (metis drop_drop add.commute)
  show "pos + (length (drop pos raw) - length p) \<le> length raw" using assms(1) by simp
qed

lemma starts_length: "starts_with lit p \<Longrightarrow> length lit \<le> length p"
  by (metis starts_with_def length_take min.absorb_iff2 min.commute)

lemma payload_scan_le: "pos \<le> length raw \<Longrightarrow> payload_scan raw lit pos \<le> length raw"
  by (induction raw lit pos rule: payload_scan.induct) (subst payload_scan.simps, simp)

text \<open>A round stays within the text, and one that ends a call stands behind its closing tag.\<close>

definition in_text :: "bytes \<Rightarrow> qwen_tool_decode_tracker \<Rightarrow> bool" where
  "in_text raw dt \<longleftrightarrow>
     dt_pos dt \<le> length raw \<and> (case dt_syn dt of None \<Rightarrow> True | Some syn \<Rightarrow> syn = qsyn) \<and>
     (dt_mode dt \<in> {QWEN_TOOL_TRACK_STRUCTURAL, QWEN_TOOL_TRACK_PAYLOAD} \<longrightarrow> dt_decode dt \<noteq> QWEN_TOOL_DECODE_OUTSIDE)"

lemma in_text_syntax: "in_text raw dt \<Longrightarrow> tracked_syntax dt = qsyn"
  by (auto simp: in_text_def tracked_syntax_def split: option.splits)

lemma in_text_append: "in_text raw dt \<Longrightarrow> in_text (raw @ x) dt"
  by (simp add: in_text_def)

lemma round_in_text:
  assumes "in_text raw dt"
  shows "case track_round raw dt of
      Again d \<Rightarrow> in_text raw d \<and> dt_mode d \<noteq> QWEN_TOOL_TRACK_DONE
    | Return d \<Rightarrow> in_text raw d \<and> (dt_mode d = QWEN_TOOL_TRACK_DONE \<longrightarrow> d = dt \<or> behind_call raw (dt_pos d))"
proof (cases "dt_mode dt")
  case QWEN_TOOL_TRACK_SEARCH
  have p: "dt_pos dt \<le> length raw" using assms by (simp add: in_text_def)
  show ?thesis
    using assms strstr_bound [of "drop (dt_pos dt) raw" Q36_TOOL_CALLS_START]
    by (auto simp: track_round_def QWEN_TOOL_TRACK_SEARCH find_start_from [OF p] in_text_def Let_def tag_lits split: option.splits)
next
  case QWEN_TOOL_TRACK_DONE
  have p: "dt_pos dt \<le> length raw" using assms by (simp add: in_text_def)
  show ?thesis
    using assms strstr_bound [of "drop (dt_pos dt) raw" Q36_TOOL_CALLS_START]
    by (auto simp: track_round_def QWEN_TOOL_TRACK_DONE find_start_from [OF p] in_text_def Let_def tag_lits split: option.splits)
next
  case QWEN_TOOL_TRACK_PAYLOAD
  have p: "dt_pos dt \<le> length raw" using assms by (simp add: in_text_def)
  have "starts_with lit (drop n raw) \<Longrightarrow> n \<le> length raw \<Longrightarrow> n + length lit \<le> length raw" for lit n
    using starts_length [of lit "drop n raw"] by simp
  then show ?thesis
    using assms payload_scan_le [OF p]
    by (auto simp: track_round_def QWEN_TOOL_TRACK_PAYLOAD track_payload_def in_text_syntax Let_def in_text_def raw_full_lit_starts)
next
  case QWEN_TOOL_TRACK_STRUCTURAL
  define p where "p = raw_skip_ascii_ws (drop (dt_pos dt) raw)"
  define pos1 where "pos1 = dt_pos dt + (length (drop (dt_pos dt) raw) - length p)"
  have p1: "drop pos1 raw = p" "pos1 \<le> length raw"
    using skip_position [of "dt_pos dt" raw] assms by (simp_all add: in_text_def p_def pos1_def)
  have lit: "starts_with lit p \<Longrightarrow> pos1 + length lit \<le> length raw" for lit
    using starts_length [of lit p] p1 by auto
  have cl: "starts_with Q36_TOOL_CALLS_END p \<Longrightarrow> behind_call raw (pos1 + length Q36_TOOL_CALLS_END)"
    using behind_lit [of Q36_TOOL_CALLS_END pos1 raw] lit p1(1) by (simp add: behind_call_def)
  show ?thesis
    using assms p1(2) lit cl
    unfolding track_round_def QWEN_TOOL_TRACK_STRUCTURAL qwen_tool_track_mode.case track_structural_def in_text_syntax [OF assms]
      Let_def p_def [symmetric] pos1_def [symmetric]
    by (auto simp: in_text_def raw_full_lit_starts QWEN_TOOL_TRACK_STRUCTURAL split: option.splits)
qed

lemma loop_in_text:
  "in_text raw dt \<Longrightarrow> dt_mode dt \<noteq> QWEN_TOOL_TRACK_DONE \<Longrightarrow>
    in_text raw (tracker_loop raw dt) \<and>
    (dt_mode (tracker_loop raw dt) = QWEN_TOOL_TRACK_DONE \<longrightarrow> behind_call raw (dt_pos (tracker_loop raw dt)))"
proof (induction raw dt rule: tracker_loop.induct)
  case (1 raw dt)
  note r = round_in_text [OF 1(2)]
  show ?case
  proof (cases "track_round raw dt")
    case (Return d)
    then show ?thesis using r 1(3) by (subst (1 2 3) tracker_loop.simps) auto
  next
    case (Again d)
    then show ?thesis using r 1(1) [OF Again] by (subst (1 2 3) tracker_loop.simps) auto
  qed
qed

lemma loop_stays: "in_text raw dt \<Longrightarrow> in_text raw (tracker_loop raw dt)"
proof (induction raw dt rule: tracker_loop.induct)
  case (1 raw dt)
  note r = round_in_text [OF 1(2)]
  show ?case
  proof (cases "track_round raw dt")
    case (Return d)
    then show ?thesis using r by (subst tracker_loop.simps) simp
  next
    case (Again d)
    then show ?thesis using r 1(1) [OF Again] by (subst tracker_loop.simps) simp
  qed
qed

section \<open>The same text further on\<close>

definition moved :: "nat \<Rightarrow> qwen_tool_decode_tracker \<Rightarrow> qwen_tool_decode_tracker" where
  "moved k dt = dt\<lparr>dt_pos := dt_pos dt + k\<rparr>"

lemma moved_simps [simp]:
  "dt_mode (moved k dt) = dt_mode dt" "dt_decode (moved k dt) = dt_decode dt" "dt_syn (moved k dt) = dt_syn dt"
  "dt_pos (moved k dt) = dt_pos dt + k" "tracked_syntax (moved k dt) = tracked_syntax dt"
  by (simp_all add: moved_def tracked_syntax_def)

fun moved_round :: "nat \<Rightarrow> track_round \<Rightarrow> track_round" where
  "moved_round k (Again dt) = Again (moved k dt)"
| "moved_round k (Return dt) = Return (moved k dt)"

lemma payload_scan_moved: "payload_scan (p @ raw) lit (pos + length p) = payload_scan raw lit pos + length p"
proof (induction raw lit pos rule: payload_scan.induct)
  case (1 raw lit pos)
  then show ?case by (subst (1 2) payload_scan.simps) auto
qed

lemma round_moved:
  assumes "in_text raw dt" "11 \<le> length raw"
  shows "track_round (p @ raw) (moved (length p) dt) = moved_round (length p) (track_round raw dt)"
proof (cases "dt_mode dt")
  case QWEN_TOOL_TRACK_SEARCH
  have pos: "dt_pos dt \<le> length raw" "dt_pos dt + length p \<le> length (p @ raw)" using assms by (simp_all add: in_text_def)
  have hold: "(if qwen_tool_max_tool_start_len < length raw then length raw - qwen_tool_max_tool_start_len else 0) = length raw - 11"
    "(if qwen_tool_max_tool_start_len < length (p @ raw) then length (p @ raw) - qwen_tool_max_tool_start_len else 0) =
      length raw - 11 + length p"
    using assms(2) by (auto simp: max_start_len)
  show ?thesis
    by (simp add: track_round_def QWEN_TOOL_TRACK_SEARCH find_start_from [OF pos(1)] find_start_from [OF pos(2)] Let_def hold
        moved_def split: option.split del: length_append)
next
  case QWEN_TOOL_TRACK_DONE
  have pos: "dt_pos dt \<le> length raw" "dt_pos dt + length p \<le> length (p @ raw)" using assms by (simp_all add: in_text_def)
  show ?thesis
    by (simp add: track_round_def QWEN_TOOL_TRACK_DONE find_start_from [OF pos(1)] find_start_from [OF pos(2)]
        moved_def split: option.split del: length_append)
next
  case QWEN_TOOL_TRACK_PAYLOAD
  then show ?thesis
    by (auto simp: track_round_def track_payload_def Let_def payload_scan_moved)
next
  case QWEN_TOOL_TRACK_STRUCTURAL
  have "after_tag (raw_skip_ascii_ws (drop (dt_pos dt) raw)) = Some t \<Longrightarrow> length t \<le> length raw" for t
    using after_tag_shorter [of "raw_skip_ascii_ws (drop (dt_pos dt) raw)" t] raw_skip_le [of "drop (dt_pos dt) raw"] by simp
  then show ?thesis
    by (simp add: track_round_def QWEN_TOOL_TRACK_STRUCTURAL track_structural_def Let_def split: option.split)
qed

lemma loop_moved:
  "in_text raw dt \<Longrightarrow> 11 \<le> length raw \<Longrightarrow>
    tracker_loop (p @ raw) (moved (length p) dt) = moved (length p) (tracker_loop raw dt)"
proof (induction raw dt rule: tracker_loop.induct)
  case (1 raw dt)
  note r = round_in_text [OF 1(2)]
  show ?case
  proof (cases "track_round raw dt")
    case (Return d)
    then show ?thesis using round_moved [OF 1(2,3), of p] by (subst (1 2) tracker_loop.simps) simp
  next
    case (Again d)
    then show ?thesis using round_moved [OF 1(2,3), of p] r 1(1) [OF Again] 1(3)
      by (subst (1 2) tracker_loop.simps) auto
  qed
qed

section \<open>Updates one after the other\<close>

definition track_from :: "qwen_tool_decode_tracker \<Rightarrow> bytes list \<Rightarrow> qwen_tool_decode_tracker" where
  "track_from dt raws = fold (\<lambda>raw dt. qwen_tool_decode_tracker_update dt (Some raw)) raws dt"

lemma track_from_simps [simp]:
  "track_from dt [] = dt" "track_from dt (raw # raws) = track_from (tracker_loop raw dt) raws"
  "track_from dt (raws @ raws') = track_from (track_from dt raws) raws'"
  by (simp_all add: track_from_def qwen_tool_decode_tracker_update_def)

text \<open>A tracker that looks for a call from a position on, and a text in which the first call has ended.\<close>

definition search_at :: "nat \<Rightarrow> qwen_tool_decode_tracker \<Rightarrow> bool" where
  "search_at k dt \<longleftrightarrow> dt_mode dt = QWEN_TOOL_TRACK_SEARCH \<and> dt_pos dt = k \<and> dt_decode dt = QWEN_TOOL_DECODE_OUTSIDE \<and>
     (case dt_syn dt of None \<Rightarrow> True | Some syn \<Rightarrow> syn = qsyn)"

definition call_ended :: "bytes \<Rightarrow> bool" where
  "call_ended raw \<longleftrightarrow> strstr raw Q36_TOOL_CALLS_START \<noteq> None \<and> qwen_tool_decode_state_for_text raw = QWEN_TOOL_DECODE_OUTSIDE"

lemma follows_search: "search_at 0 dt \<Longrightarrow> follows dt []"
  by (simp add: follows_def search_at_def qwen_tool_decode_state_for_text_def tag_lits)

lemma follows_mode: "follows dt raw \<Longrightarrow> dt_mode dt \<noteq> QWEN_TOOL_TRACK_DONE"
  by (auto simp: follows_def tracks_def split: if_splits)

text \<open>From the start of the text: the tracker follows, or has just ended the call.\<close>

lemma track_from_follows:
  "\<lbrakk>search_at 0 dt; sorted_wrt prefix raws; \<forall>r\<in>set (butlast raws). \<not> call_ended r; raws \<noteq> []\<rbrakk> \<Longrightarrow>
    in_text (last raws) (track_from dt raws) \<and>
    (follows (track_from dt raws) (last raws) \<and> \<not> call_ended (last raws) \<or>
     closed_call (track_from dt raws) (last raws) \<and> behind_call (last raws) (dt_pos (track_from dt raws)))"
proof (induction raws rule: rev_induct)
  case (snoc r rs)
  let ?d = "track_from dt rs"
  obtain q x where q: "follows ?d q" "in_text q ?d" "r = q @ x"
  proof (cases "rs = []")
    case True
    then show thesis using that [of "[]" r] follows_search [OF snoc.prems(1)] snoc.prems(1)
      by (auto simp: in_text_def search_at_def split: option.splits)
  next
    case False
    have "last rs \<in> set rs" using False by simp
    then have p: "prefix (last rs) r" "\<not> call_ended (last rs)" using snoc.prems by (auto simp: sorted_wrt_append)
    have "in_text (last rs) ?d \<and> (follows ?d (last rs) \<and> \<not> call_ended (last rs) \<or>
        closed_call ?d (last rs) \<and> behind_call (last rs) (dt_pos ?d))"
    proof (rule snoc.IH)
      show "\<forall>r\<in>set (butlast rs). \<not> call_ended r" using snoc.prems(3) in_set_butlastD [of _ rs] by (simp only: butlast_snoc) blast
    qed (use snoc.prems False in \<open>auto simp: sorted_wrt_append\<close>)
    then show thesis using that [of "last rs"] p by (auto simp: closed_call_def call_ended_def prefix_def)
  qed
  have l: "in_text r (tracker_loop r ?d) \<and>
      (dt_mode (tracker_loop r ?d) = QWEN_TOOL_TRACK_DONE \<longrightarrow> behind_call r (dt_pos (tracker_loop r ?d)))"
    using loop_in_text [of r ?d] in_text_append [OF q(2), of x] follows_mode [OF q(1)] q(3) by simp
  moreover have "follows (tracker_loop r ?d) r \<or> closed_call (tracker_loop r ?d) r"
    using update_follows [OF q(1), of x] q(3) by simp
  moreover have "dt_mode (tracker_loop r ?d) \<in> {QWEN_TOOL_TRACK_STRUCTURAL, QWEN_TOOL_TRACK_PAYLOAD} \<and>
      dt_decode (tracker_loop r ?d) = QWEN_TOOL_DECODE_OUTSIDE" if "follows (tracker_loop r ?d) r" "call_ended r"
    using that by (auto simp: follows_def call_ended_def tracks_def)
  ultimately show ?case by (auto simp: closed_call_def in_text_def)
qed simp

text \<open>From a position inside the text the updates do the same, as long as they hold the length of a tag behind it.\<close>

lemma track_from_moved:
  "\<lbrakk>in_text r dt; sorted_wrt prefix (r # raws); \<forall>r\<in>set raws. 11 \<le> length r\<rbrakk> \<Longrightarrow>
    track_from (moved (length p) dt) (map ((@) p) raws) = moved (length p) (track_from dt raws)"
proof (induction raws arbitrary: r dt)
  case (Cons a raws)
  obtain x where x: "a = r @ x" using Cons.prems(2) by (auto simp: prefix_def)
  then have i: "in_text a dt" using Cons.prems(1) in_text_append by simp
  have "track_from (moved (length p) dt) (map ((@) p) (a # raws)) = track_from (tracker_loop (p @ a) (moved (length p) dt)) (map ((@) p) raws)"
    by simp
  also have "tracker_loop (p @ a) (moved (length p) dt) = moved (length p) (tracker_loop a dt)"
    using loop_moved [OF i] Cons.prems(3) by simp
  also have "track_from (moved (length p) (tracker_loop a dt)) (map ((@) p) raws) = moved (length p) (track_from (tracker_loop a dt) raws)"
  proof (rule Cons.IH)
    show "in_text a (tracker_loop a dt)" using loop_stays [OF i] .
  qed (use Cons.prems in auto)
  finally show ?case by simp
qed simp

lemma behind_call_moved: "behind_call v e \<Longrightarrow> behind_call (p @ v) (e + length p)"
  by (simp add: behind_call_def suffix_append)

lemma track_from_at:
  assumes "search_at k dt" "sorted_wrt prefix us" "us \<noteq> []" "\<forall>u\<in>set us. k = 0 \<or> k + 11 \<le> length u"
    "\<forall>u\<in>set (butlast us). \<not> call_ended (drop k u)"
  shows "in_text (last us) (track_from dt us) \<and>
    dt_decode (track_from dt us) = qwen_tool_decode_state_for_text (drop k (last us)) \<and>
    (call_ended (drop k (last us)) \<longrightarrow>
      dt_mode (track_from dt us) = QWEN_TOOL_TRACK_DONE \<and> behind_call (last us) (dt_pos (track_from dt us)) \<and> k \<le> dt_pos (track_from dt us))"
proof (cases "k = 0")
  case True
  have b: "\<forall>r\<in>set (butlast us). \<not> call_ended r" using assms(5) True by simp
  have "search_at 0 dt" using assms(1) True by simp
  from track_from_follows [OF this assms(2) b assms(3)] show ?thesis
    using True by (auto simp: follows_def closed_call_def)
next
  case False
  define p where "p = take k (hd us)"
  define vs where "vs = map (drop k) us"
  define d where "d = dt\<lparr>dt_pos := 0\<rparr>"
  have len: "length p = k" using assms(3,4) False by (cases us) (auto simp: p_def)
  have u: "u = p @ drop k u" if "u \<in> set us" for u
  proof -
    have "prefix (hd us) u" using that assms(2) by (cases us) auto
    then have "take k u = p" using len by (auto simp: p_def prefix_def)
    then show ?thesis by (metis append_take_drop_id)
  qed
  have us: "us = map ((@) p) vs" using u by (auto simp: vs_def comp_def intro!: map_idI [symmetric])
  have dt: "dt = moved (length p) d" using assms(1) len by (simp add: d_def moved_def search_at_def)
  have d: "search_at 0 d" using assms(1) by (simp add: search_at_def d_def)
  have vl: "\<forall>v\<in>set vs. 11 \<le> length v" using assms(4) False by (auto simp: vs_def)
  have vs: "sorted_wrt prefix vs" using assms(2) unfolding us by (simp add: sorted_wrt_map)
  have bl: "butlast vs = map (drop k) (butlast us)" by (simp add: vs_def map_butlast)
  have b: "\<forall>v\<in>set (butlast vs). \<not> call_ended v" using assms(5) by (simp add: bl)
  have ne: "vs \<noteq> []" using assms(3) by (simp add: vs_def)
  have l: "last vs = drop k (last us)" using assms(3) by (simp add: vs_def last_map)
  have lu: "last us = p @ last vs" using u assms(3) l by simp
  have "in_text [] d" using d by (auto simp: in_text_def search_at_def split: option.splits)
  then have m: "track_from dt us = moved k (track_from d vs)"
    using track_from_moved [of "[]" d vs p] vs vl by (simp add: dt us len)
  have t: "in_text (last vs) (track_from d vs) \<and>
    (follows (track_from d vs) (last vs) \<and> \<not> call_ended (last vs) \<or>
     closed_call (track_from d vs) (last vs) \<and> behind_call (last vs) (dt_pos (track_from d vs)))"
    by (rule track_from_follows [OF d vs b ne])
  then show ?thesis
    using behind_call_moved [of "last vs" _ p]
    by (auto simp: m l [symmetric] lu len in_text_def follows_def closed_call_def)
qed

text \<open>After a call: nothing happens until an opening tag stands behind it.\<close>

lemma done_waits:
  assumes "in_text raw dt" "dt_mode dt = QWEN_TOOL_TRACK_DONE" "strstr (drop (dt_pos dt) raw) Q36_TOOL_CALLS_START = None"
  shows "tracker_loop raw dt = dt"
  using assms by (subst tracker_loop.simps) (simp add: track_round_def find_start_from in_text_def)

lemma strstr_prefix_None: "prefix a b \<Longrightarrow> strstr (drop e b) l = None \<Longrightarrow> e \<le> length a \<Longrightarrow> strstr (drop e a) l = None"
  using strstr_append_Some [of "drop e a" l] by (cases "strstr (drop e a) l") (auto simp: prefix_def)

lemma done_waits_all:
  "\<lbrakk>in_text raw dt; dt_mode dt = QWEN_TOOL_TRACK_DONE; sorted_wrt prefix (raw # later);
    strstr (drop (dt_pos dt) (last (raw # later))) Q36_TOOL_CALLS_START = None\<rbrakk> \<Longrightarrow> track_from dt later = dt"
proof (induction later arbitrary: raw)
  case (Cons a later)
  have i: "in_text a dt" using Cons.prems(1,3) in_text_append by (auto simp: prefix_def)
  have "prefix a (last (a # later))" using Cons.prems(3) by auto
  then have "strstr (drop (dt_pos dt) a) Q36_TOOL_CALLS_START = None"
    using strstr_prefix_None [of a "last (a # later)"] Cons.prems(4) i by (simp add: in_text_def)
  then have "tracker_loop a dt = dt" by (rule done_waits [OF i Cons.prems(2)])
  then show ?case using Cons.IH [OF i Cons.prems(2)] Cons.prems(3,4) by simp
qed simp

text \<open>A tag that ends the text is stepped over, and then found again by the next update.\<close>

lemma done_cut:
  assumes "in_text raw dt" "dt_mode dt = QWEN_TOOL_TRACK_DONE" "11 \<le> length raw - dt_pos dt"
    "strstr (drop (dt_pos dt) raw) Q36_TOOL_CALLS_START = Some (length raw - dt_pos dt - 11)"
  shows "search_at (length raw - 11) (tracker_loop raw dt)"
proof -
  define d where "d = dt\<lparr>dt_pos := length raw, dt_mode := QWEN_TOOL_TRACK_SEARCH\<rparr>"
  have "track_round raw dt = Again d"
    using assms by (simp add: track_round_def find_start_from in_text_def d_def)
  then have l: "tracker_loop raw dt = tracker_loop raw d" using assms(3) by (subst tracker_loop.simps) (simp add: d_def)
  have "tracker_loop raw d = d\<lparr>dt_pos := length raw - 11, dt_decode := QWEN_TOOL_DECODE_OUTSIDE\<rparr>"
    by (subst tracker_loop.simps) (simp add: track_round_def find_start_from d_def max_start_len Let_def, simp add: tag_lits)
  then show ?thesis using assms(1) unfolding l by (simp add: search_at_def d_def in_text_def)
qed

section \<open>Properties\<close>

lemma init_searches: "search_at 0 qwen_tool_decode_tracker_init"
  by (simp add: search_at_def qwen_tool_decode_tracker_init_def)



text \<open>
  A second call is missed when its opening tag and more arrive in one update: the round that finds
  the tag after a closed call steps behind it and then searches for another.
\<close>

lemma second_call_missed:
  "let one = str ''<tool_call><function=f></function></tool_call>'';
       two = one @ str ''<tool_call><function=f><parameter=x>payload'';
       cut = one @ str ''<tool_call>''
   in dt_decode (track_from qwen_tool_decode_tracker_init [one, two]) = QWEN_TOOL_DECODE_OUTSIDE \<and>
      dt_decode (track_from qwen_tool_decode_tracker_init [one, cut, two]) = QWEN_TOOL_DECODE_PAYLOAD"
  by code_simp

end
