(* ===== verification/Tool_Memory.thy ===== *)
theory Tool_Memory
  imports Tool_Call "HOL-Library.While_Combinator"
begin

text \<open>
  The tool text memory of \<^verbatim>\<open>q36_server.c\<close> (\<^verbatim>\<open>tool_memory\<close>): the exact text of every generated call
  under its random id, in a doubly linked list ordered by use, with a shared block for the calls that
  have the same text, and bounds on the number of ids and of bytes.

  Entries and blocks live in a store: a map from addresses to records in which \<^verbatim>\<open>NULL\<close> is \<open>None\<close>,
  allocation takes the next unused address and \<^verbatim>\<open>free\<close> removes one.  The two radix trees are maps.
  The chain of a block's entries is the list of their addresses.  A \<^verbatim>\<open>size_t\<close> that counts bytes of
  live objects is a natural number.
\<close>

type_synonym addr = nat

datatype tool_memory_source = TOOL_MEMORY_RAM | TOOL_MEMORY_DISK

record tool_memory_entry =
  te_id :: bytes
  te_block :: addr
  te_bytes :: nat
  te_stamp :: u64
  te_source :: tool_memory_source
  te_empty_think :: bool
  te_prev :: "addr option"
  te_next :: "addr option"

record tool_memory_block =
  tb_text :: bytes
  tb_bytes :: nat
  tb_refs :: int
  tb_seen :: u64
  tb_entries :: "addr list"

record tool_memory =
  tm_by_id :: "bytes \<rightharpoonup> addr"
  tm_by_block :: "bytes \<rightharpoonup> addr"
  tm_ent :: "addr \<rightharpoonup> tool_memory_entry"
  tm_blk :: "addr \<rightharpoonup> tool_memory_block"
  tm_unused :: addr
  tm_head :: "addr option"
  tm_tail :: "addr option"
  tm_entries :: int
  tm_max_entries :: int
  tm_bytes :: nat
  tm_max_bytes :: nat
  tm_clock :: u64
  tm_scan_clock :: u64

definition tool_memory_zero :: tool_memory where
  "tool_memory_zero =
     \<lparr>tm_by_id = Map.empty, tm_by_block = Map.empty, tm_ent = Map.empty, tm_blk = Map.empty, tm_unused = 0,
      tm_head = None, tm_tail = None, tm_entries = 0, tm_max_entries = 0, tm_bytes = 0, tm_max_bytes = 0,
      tm_clock = 0, tm_scan_clock = 0\<rparr>"

definition Q36_TOOL_MEMORY_DEFAULT_MAX_IDS :: int where "Q36_TOOL_MEMORY_DEFAULT_MAX_IDS = 100000"
definition Q36_TOOL_MEMORY_MAX_BYTES :: nat where "Q36_TOOL_MEMORY_MAX_BYTES = 512 * 1024 * 1024"
definition sizeof_entry :: nat where "sizeof_entry = 64"
definition sizeof_block :: nat where "sizeof_block = 48"

definition tool_memory_max_entries :: "tool_memory \<Rightarrow> int" where
  "tool_memory_max_entries m = (if tm_max_entries m > 0 then tm_max_entries m else Q36_TOOL_MEMORY_DEFAULT_MAX_IDS)"

definition tool_memory_max_bytes :: "tool_memory \<Rightarrow> nat" where
  "tool_memory_max_bytes m = (if tm_max_bytes m > 0 then tm_max_bytes m else Q36_TOOL_MEMORY_MAX_BYTES)"

section \<open>The list\<close>

definition upd_ent :: "addr \<Rightarrow> (tool_memory_entry \<Rightarrow> tool_memory_entry) \<Rightarrow> tool_memory \<Rightarrow> tool_memory" where
  "upd_ent a f m = m\<lparr>tm_ent := (tm_ent m)(a := map_option f (tm_ent m a))\<rparr>"

definition upd_blk :: "addr \<Rightarrow> (tool_memory_block \<Rightarrow> tool_memory_block) \<Rightarrow> tool_memory \<Rightarrow> tool_memory" where
  "upd_blk a f m = m\<lparr>tm_blk := (tm_blk m)(a := map_option f (tm_blk m a))\<rparr>"

definition tool_memory_link_head :: "tool_memory \<Rightarrow> addr \<Rightarrow> tool_memory" where
  "tool_memory_link_head m e =
     (let m = upd_ent e (\<lambda>x. x\<lparr>te_prev := None, te_next := tm_head m\<rparr>) m;
          m = (case tm_head m of
                 Some h \<Rightarrow> upd_ent h (\<lambda>x. x\<lparr>te_prev := Some e\<rparr>) m
               | None \<Rightarrow> m\<lparr>tm_tail := Some e\<rparr>)
      in m\<lparr>tm_head := Some e\<rparr>)"

definition tool_memory_unlink :: "tool_memory \<Rightarrow> addr \<Rightarrow> tool_memory" where
  "tool_memory_unlink m e =
     (case tm_ent m e of
        None \<Rightarrow> m
      | Some x \<Rightarrow>
          let m = (case te_prev x of
                     Some p \<Rightarrow> upd_ent p (\<lambda>y. y\<lparr>te_next := te_next x\<rparr>) m
                   | None \<Rightarrow> m\<lparr>tm_head := te_next x\<rparr>);
              m = (case te_next x of
                     Some n \<Rightarrow> upd_ent n (\<lambda>y. y\<lparr>te_prev := te_prev x\<rparr>) m
                   | None \<Rightarrow> m\<lparr>tm_tail := te_prev x\<rparr>)
          in upd_ent e (\<lambda>y. y\<lparr>te_prev := None, te_next := None\<rparr>) m)"

definition tool_memory_touch :: "tool_memory \<Rightarrow> addr \<Rightarrow> tool_memory" where
  "tool_memory_touch m e =
     (let m = m\<lparr>tm_clock := tm_clock m + 1\<rparr>;
          m = upd_ent e (\<lambda>x. x\<lparr>te_stamp := tm_clock m\<rparr>) m
      in if tm_head m = Some e then m
         else tool_memory_link_head (tool_memory_unlink m e) e)"

section \<open>Blocks and entries\<close>

definition tool_block_unlink_entry :: "tool_memory \<Rightarrow> addr \<Rightarrow> addr \<Rightarrow> tool_memory" where
  "tool_block_unlink_entry m b e = upd_blk b (\<lambda>x. x\<lparr>tb_entries := remove1 e (tb_entries x)\<rparr>) m"

definition tool_memory_find_block_locked :: "tool_memory \<Rightarrow> bytes \<Rightarrow> addr option" where
  "tool_memory_find_block_locked m qwen_tool = (if qwen_tool = [] then None else tm_by_block m qwen_tool)"

definition tool_memory_get_block_locked :: "tool_memory \<Rightarrow> bytes \<Rightarrow> addr \<times> tool_memory" where
  "tool_memory_get_block_locked m qwen_tool =
     (case tool_memory_find_block_locked m qwen_tool of
        Some b \<Rightarrow> (b, m)
      | None \<Rightarrow>
          let b = tm_unused m;
              x = \<lparr>tb_text = qwen_tool, tb_bytes = length qwen_tool + 1 + sizeof_block, tb_refs = 0, tb_seen = 0, tb_entries = []\<rparr>
          in (b, m\<lparr>tm_unused := b + 1, tm_blk := (tm_blk m)(b \<mapsto> x), tm_by_block := (tm_by_block m)(qwen_tool \<mapsto> b),
                   tm_bytes := tm_bytes m + tb_bytes x\<rparr>))"

definition tool_memory_release_block_locked :: "tool_memory \<Rightarrow> addr \<Rightarrow> tool_memory" where
  "tool_memory_release_block_locked m b =
     (case tm_blk m b of
        None \<Rightarrow> m
      | Some x \<Rightarrow>
          let m = upd_blk b (\<lambda>y. y\<lparr>tb_refs := tb_refs x - 1\<rparr>) m
          in if tb_refs x - 1 > 0 then m
             else m\<lparr>tm_by_block := (tm_by_block m)(tb_text x := None),
                    tm_bytes := (if tm_bytes m \<ge> tb_bytes x then tm_bytes m - tb_bytes x else 0),
                    tm_blk := (tm_blk m)(b := None)\<rparr>)"

definition tool_memory_remove_entry_locked :: "tool_memory \<Rightarrow> addr \<Rightarrow> tool_memory" where
  "tool_memory_remove_entry_locked m e =
     (case tm_ent m e of
        None \<Rightarrow> m
      | Some x \<Rightarrow>
          let m = m\<lparr>tm_by_id := (tm_by_id m)(te_id x := None)\<rparr>;
              m = tool_memory_unlink m e;
              m = tool_block_unlink_entry m (te_block x) e;
              m = m\<lparr>tm_bytes := (if tm_bytes m \<ge> te_bytes x then tm_bytes m - te_bytes x else 0),
                    tm_entries := (if tm_entries m > 0 then tm_entries m - 1 else tm_entries m)\<rparr>;
              m = tool_memory_release_block_locked m (te_block x)
          in m\<lparr>tm_ent := (tm_ent m)(e := None)\<rparr>)"

definition over_limit :: "tool_memory \<Rightarrow> bool" where
  "over_limit m \<longleftrightarrow>
     (tm_entries m > tool_memory_max_entries m \<or> tm_bytes m > tool_memory_max_bytes m) \<and> tm_tail m \<noteq> None"

text \<open>The loop as \<open>while_option\<close>: \<open>None\<close> would be a loop that does not end.\<close>

definition tool_memory_prune_locked :: "tool_memory \<Rightarrow> tool_memory option" where
  "tool_memory_prune_locked m =
     while_option over_limit (\<lambda>m. case tm_tail m of Some e \<Rightarrow> tool_memory_remove_entry_locked m e | None \<Rightarrow> m) m"

definition tool_memory_find_entry_locked :: "tool_memory \<Rightarrow> bytes option \<Rightarrow> addr option" where
  "tool_memory_find_entry_locked m tid =
     (case tid of None \<Rightarrow> None | Some k \<Rightarrow> if k = [] then None else tm_by_id m k)"

text \<open>A new entry in front of its block's list and of the list of all.\<close>

definition tool_memory_insert :: "tool_memory \<Rightarrow> bytes \<Rightarrow> bytes \<Rightarrow> tool_memory_source \<Rightarrow> tool_memory" where
  "tool_memory_insert m k qwen_tool source =
     (case tool_memory_get_block_locked m qwen_tool of
        (b, m) \<Rightarrow>
          let e = tm_unused m;
              m = m\<lparr>tm_unused := e + 1, tm_clock := tm_clock m + 1\<rparr>;
              x = \<lparr>te_id = k, te_block = b, te_bytes = length k + 1 + sizeof_entry, te_stamp = tm_clock m,
                   te_source = source, te_empty_think = False, te_prev = None, te_next = None\<rparr>;
              m = m\<lparr>tm_ent := (tm_ent m)(e \<mapsto> x)\<rparr>;
              m = upd_blk b (\<lambda>y. y\<lparr>tb_entries := e # tb_entries y, tb_refs := tb_refs y + 1\<rparr>) m;
              m = m\<lparr>tm_by_id := (tm_by_id m)(k \<mapsto> e)\<rparr>;
              m = tool_memory_link_head m e
          in m\<lparr>tm_entries := tm_entries m + 1, tm_bytes := tm_bytes m + te_bytes x\<rparr>)"

definition tool_memory_put_locked ::
    "tool_memory \<Rightarrow> bytes option \<Rightarrow> bytes option \<Rightarrow> tool_memory_source \<Rightarrow> tool_memory option" where
  "tool_memory_put_locked m tid qwen_tool source =
     (case (tid, qwen_tool) of
        (Some k, Some t) \<Rightarrow>
          if k = [] \<or> t = [] then Some m
          else
            (case tool_memory_find_entry_locked m (Some k) of
               Some old \<Rightarrow>
                 (case tm_ent m old of
                    Some x \<Rightarrow>
                      if map_option tb_text (tm_blk m (te_block x)) = Some t then
                        let m = (if source = TOOL_MEMORY_RAM then upd_ent old (\<lambda>y. y\<lparr>te_source := TOOL_MEMORY_RAM\<rparr>) m else m)
                        in tool_memory_prune_locked (tool_memory_touch m old)
                      else tool_memory_prune_locked (tool_memory_insert (tool_memory_remove_entry_locked m old) k t source)
                  | None \<Rightarrow> tool_memory_prune_locked (tool_memory_insert m k t source))
             | None \<Rightarrow> tool_memory_prune_locked (tool_memory_insert m k t source))
      | _ \<Rightarrow> Some m)"

text \<open>A lookup moves the entry to the front: its text, its source and its block.\<close>

definition tool_memory_lookup_locked ::
    "tool_memory \<Rightarrow> bytes option \<Rightarrow> (bytes \<times> tool_memory_source \<times> addr) option \<times> tool_memory" where
  "tool_memory_lookup_locked m tid =
     (case tool_memory_find_entry_locked m tid of
        None \<Rightarrow> (None, m)
      | Some e \<Rightarrow>
          (case tm_ent m e of
             None \<Rightarrow> (None, m)
           | Some x \<Rightarrow>
               let m = tool_memory_touch m e
               in (map_option (\<lambda>b. (tb_text b, te_source x, te_block x)) (tm_blk m (te_block x)), m)))"

definition tool_memory_free :: "tool_memory \<Rightarrow> tool_memory option" where
  "tool_memory_free m =
     map_option (\<lambda>_. tool_memory_zero)
       (while_option (\<lambda>m. tm_tail m \<noteq> None)
          (\<lambda>m. case tm_tail m of Some e \<Rightarrow> tool_memory_remove_entry_locked m e | None \<Rightarrow> m) m)"

end
