(* ===== verification/Tool_Memory_Inv.thy ===== *)
theory Tool_Memory_Inv
  imports Tool_Memory
begin

text \<open>
  What every operation of the tool text memory keeps: the list is a doubly linked list of the live
  entries (\<open>list_ok\<close>), and the trees, the blocks with their reference counts and the byte count agree
  with the entries (\<open>index_ok\<close>).  The list of addresses \<open>xs\<close> is the witness of the links.
\<close>

section \<open>Doubly linked segments\<close>

definition first :: "'a list \<Rightarrow> 'a option \<Rightarrow> 'a option" where
  "first xs q = (case xs of [] \<Rightarrow> q | a # _ \<Rightarrow> Some a)"

definition final :: "'a option \<Rightarrow> 'a list \<Rightarrow> 'a option" where
  "final p xs = (if xs = [] then p else Some (last xs))"

lemma first_simps [simp]: "first [] q = q" "first (a # xs) q = Some a" "first (xs @ ys) q = first xs (first ys q)"
  by (simp_all add: first_def split: list.split)

lemma final_simps [simp]: "final p [] = p" "final p (xs @ ys) = final (final p xs) ys" "final p (a # xs) = final (Some a) xs"
  by (simp_all add: final_def)

fun lseg :: "(addr \<rightharpoonup> tool_memory_entry) \<Rightarrow> addr option \<Rightarrow> addr list \<Rightarrow> addr option \<Rightarrow> bool" where
  "lseg E p [] q \<longleftrightarrow> True"
| "lseg E p (a # xs) q \<longleftrightarrow> (\<exists>e. E a = Some e \<and> te_prev e = p \<and> te_next e = first xs q) \<and> lseg E (Some a) xs q"

lemma lseg_append: "lseg E p (xs @ ys) q \<longleftrightarrow> lseg E p xs (first ys q) \<and> lseg E (final p xs) ys q"
  by (induction xs arbitrary: p) auto

lemma lseg_other: "a \<notin> set xs \<Longrightarrow> lseg (E(a := v)) p xs q \<longleftrightarrow> lseg E p xs q"
  by (induction xs arbitrary: p) auto

lemma lseg_dom: "lseg E p xs q \<Longrightarrow> a \<in> set xs \<Longrightarrow> E a \<noteq> None"
  by (induction xs arbitrary: p) auto

text \<open>Changing the link behind the last entry, and the one in front of the first.\<close>

lemma lseg_last:
  assumes "lseg E p (xs @ [a]) q" "distinct (xs @ [a])" "E a = Some e"
  shows "lseg (E(a := Some (e\<lparr>te_next := q'\<rparr>))) p (xs @ [a]) q'"
  using assms by (auto simp: lseg_append lseg_other)

lemma lseg_first:
  assumes "lseg E p (a # xs) q" "distinct (a # xs)" "E a = Some e"
  shows "lseg (E(a := Some (e\<lparr>te_prev := p'\<rparr>))) p' (a # xs) q"
  using assms by (auto simp: lseg_other)

definition list_ok :: "tool_memory \<Rightarrow> addr list \<Rightarrow> bool" where
  "list_ok m xs \<longleftrightarrow>
     lseg (tm_ent m) None xs None \<and> distinct xs \<and> tm_head m = first xs None \<and> tm_tail m = final None xs"

lemma list_ok_link_head:
  assumes "list_ok m xs" "e \<notin> set xs" "tm_ent m e \<noteq> None"
  shows "list_ok (tool_memory_link_head m e) (e # xs)"
proof -
  obtain x where x: "tm_ent m e = Some x" using assms(3) by blast
  show ?thesis
  proof (cases xs)
    case Nil
    then show ?thesis using assms x by (simp add: list_ok_def tool_memory_link_head_def upd_ent_def)
  next
    case (Cons h ys)
    obtain y where y: "tm_ent m h = Some y" "te_prev y = None" using assms(1) Cons by (auto simp: list_ok_def)
    have ne: "h \<noteq> e" "h \<notin> set ys" "e \<notin> set ys" using assms(1,2) Cons by (auto simp: list_ok_def)
    let ?E = "(tm_ent m)(e \<mapsto> x\<lparr>te_prev := None, te_next := Some h\<rparr>)"
    have "lseg ?E None (h # ys) None" using assms(1) Cons ne by (simp add: list_ok_def lseg_other)
    then have "lseg (?E(h \<mapsto> y\<lparr>te_prev := Some e\<rparr>)) (Some e) (h # ys) None"
      by (rule lseg_first) (use ne y assms(1) Cons in \<open>auto simp: list_ok_def\<close>)
    then show ?thesis
      using assms(1) Cons x y ne by (simp add: list_ok_def tool_memory_link_head_def upd_ent_def fun_upd_twist)
  qed
qed

lemma list_ok_unlink:
  assumes "list_ok m (ys @ e # zs)"
  shows "list_ok (tool_memory_unlink m e) (ys @ zs)"
proof -
  have d: "distinct (ys @ e # zs)" and l: "lseg (tm_ent m) None ys (Some e)" "lseg (tm_ent m) (Some e) zs None"
    using assms by (auto simp: list_ok_def lseg_append)
  obtain x where x: "tm_ent m e = Some x" "te_prev x = final None ys" "te_next x = first zs None"
    using assms by (auto simp: list_ok_def lseg_append)
  define m1 where "m1 = (case te_prev x of
      Some p \<Rightarrow> upd_ent p (\<lambda>y. y\<lparr>te_next := te_next x\<rparr>) m
    | None \<Rightarrow> m\<lparr>tm_head := te_next x\<rparr>)"
  have m1: "lseg (tm_ent m1) None ys (first zs None)" "lseg (tm_ent m1) (Some e) zs None" "tm_ent m1 e = Some x"
    "tm_head m1 = first (ys @ zs) None" "tm_tail m1 = tm_tail m"
  proof -
    show "lseg (tm_ent m1) None ys (first zs None)"
    proof (cases ys rule: rev_cases)
      case (snoc us u)
      then obtain y where "tm_ent m u = Some y" using l(1) by (auto simp: lseg_append)
      then show ?thesis using lseg_last [of "tm_ent m" None us u "Some e" y "first zs None"] l(1) d x snoc
        by (simp add: m1_def upd_ent_def)
    qed simp
    have "tm_ent m1 = tm_ent m \<or> (\<exists>u v. u \<noteq> e \<and> u \<notin> set zs \<and> tm_ent m1 = (tm_ent m)(u := v))"
    proof (cases ys rule: rev_cases)
      case Nil
      then show ?thesis using x(2) by (simp add: m1_def)
    next
      case (snoc us u)
      then have "te_prev x = Some u" using x(2) by simp
      then have "tm_ent m1 = (tm_ent m)(u := map_option (\<lambda>y. y\<lparr>te_next := te_next x\<rparr>) (tm_ent m u))"
        by (simp add: m1_def upd_ent_def)
      moreover have "u \<noteq> e" "u \<notin> set zs" using d snoc by auto
      ultimately show ?thesis by blast
    qed
    then show "lseg (tm_ent m1) (Some e) zs None" "tm_ent m1 e = Some x"
      using l(2) x(1) by (auto simp: lseg_other)
    show "tm_head m1 = first (ys @ zs) None" "tm_tail m1 = tm_tail m"
    proof -
      have h: "tm_head m = first ys (Some e)" using assms by (simp add: list_ok_def)
      show "tm_head m1 = first (ys @ zs) None"
      proof (cases ys)
        case Nil
        then show ?thesis using x(2,3) by (simp add: m1_def)
      next
        case (Cons a as)
        then have "te_prev x \<noteq> None" using x(2) by (simp add: final_def)
        then show ?thesis using Cons h by (auto simp: m1_def upd_ent_def)
      qed
      show "tm_tail m1 = tm_tail m" by (simp add: m1_def upd_ent_def split: option.split)
    qed
  qed
  define m2 where "m2 = (case te_next x of
      Some n \<Rightarrow> upd_ent n (\<lambda>y. y\<lparr>te_prev := te_prev x\<rparr>) m1
    | None \<Rightarrow> m1\<lparr>tm_tail := te_prev x\<rparr>)"
  have m2: "lseg (tm_ent m2) None ys (first zs None)" "lseg (tm_ent m2) (final None ys) zs None"
    "tm_head m2 = first (ys @ zs) None" "tm_tail m2 = final None (ys @ zs)"
  proof -
    show "lseg (tm_ent m2) None ys (first zs None)"
      using m1(1) x d by (cases zs) (auto simp: m2_def upd_ent_def lseg_other)
    show "lseg (tm_ent m2) (final None ys) zs None"
    proof (cases zs)
      case (Cons z us)
      then obtain y where "tm_ent m1 z = Some y" using m1(2) by auto
      then show ?thesis using lseg_first [of "tm_ent m1" "Some e" z us None y "final None ys"] m1(2) d x Cons
        by (simp add: m2_def upd_ent_def)
    qed simp
    show "tm_head m2 = first (ys @ zs) None" "tm_tail m2 = final None (ys @ zs)"
    proof -
      have t: "tm_tail m = final (Some e) zs" using assms by (simp add: list_ok_def)
      show "tm_tail m2 = final None (ys @ zs)"
      proof (cases zs)
        case Nil
        then show ?thesis using x(2,3) by (simp add: m2_def)
      next
        case (Cons a as)
        then show ?thesis using t x(3) m1(5) by (simp add: m2_def upd_ent_def)
      qed
      show "tm_head m2 = first (ys @ zs) None" using m1(4) by (simp add: m2_def upd_ent_def split: option.split)
    qed
  qed
  have "tool_memory_unlink m e = upd_ent e (\<lambda>y. y\<lparr>te_prev := None, te_next := None\<rparr>) m2"
    unfolding tool_memory_unlink_def x(1) option.case Let_def m2_def m1_def by (rule refl)
  then show ?thesis
    using m2 d by (simp add: list_ok_def upd_ent_def lseg_append lseg_other)
qed

lemma list_ok_stamp: "list_ok m xs \<Longrightarrow> list_ok (upd_ent e (\<lambda>x. x\<lparr>te_stamp := s\<rparr>) (m\<lparr>tm_clock := c\<rparr>)) xs"
proof -
  have "lseg ((tm_ent m)(e := map_option (\<lambda>x. x\<lparr>te_stamp := s\<rparr>) (tm_ent m e))) p xs q = lseg (tm_ent m) p xs q" for p q
    by (induction xs arbitrary: p) auto
  then show "list_ok m xs \<Longrightarrow> ?thesis" by (simp add: list_ok_def upd_ent_def)
qed

lemma upd_ent_dom [simp]: "tm_ent (upd_ent a f m) e = None \<longleftrightarrow> tm_ent m e = None"
  by (simp add: upd_ent_def)

lemma unlink_dom [simp]: "tm_ent (tool_memory_unlink m a) e = None \<longleftrightarrow> tm_ent m e = None"
  by (simp add: tool_memory_unlink_def Let_def upd_ent_def split: option.split)

lemma list_ok_touch:
  assumes "list_ok m xs" "e \<in> set xs"
  shows "list_ok (tool_memory_touch m e) (e # remove1 e xs)"
proof -
  let ?m = "upd_ent e (\<lambda>x. x\<lparr>te_stamp := tm_clock m + 1\<rparr>) (m\<lparr>tm_clock := tm_clock m + 1\<rparr>)"
  have ok: "list_ok ?m xs" by (rule list_ok_stamp [OF assms(1)])
  obtain ys zs where xs: "xs = ys @ e # zs" "e \<notin> set ys" using split_list_first [OF assms(2)] by blast
  have r: "remove1 e xs = ys @ zs" using xs by (simp add: remove1_append)
  have h: "tm_head ?m = first xs None" using ok by (simp add: list_ok_def)
  have d: "distinct (ys @ e # zs)" using ok xs by (simp add: list_ok_def)
  show ?thesis
  proof (cases ys)
    case Nil
    then show ?thesis using ok h xs r by (simp add: tool_memory_touch_def Let_def)
  next
    case (Cons y us)
    then have "tm_head ?m \<noteq> Some e" using h xs by auto
    then have t: "tool_memory_touch m e = tool_memory_link_head (tool_memory_unlink ?m e) e"
      by (simp add: tool_memory_touch_def Let_def)
    have "tm_ent m e \<noteq> None" using assms lseg_dom [of "tm_ent m" None xs None e] by (auto simp: list_ok_def)
    then show ?thesis
      unfolding t r using d list_ok_unlink [of ?m ys e zs] ok xs by (intro list_ok_link_head) auto
  qed
qed


section \<open>Trees, blocks and counts\<close>

text \<open>What the index knows of an entry: everything but its links, its stamp and its flags.\<close>

definition ekey :: "tool_memory_entry \<Rightarrow> bytes \<times> addr \<times> nat" where
  "ekey e = (te_id e, te_block e, te_bytes e)"

definition keys :: "tool_memory \<Rightarrow> addr \<rightharpoonup> bytes \<times> addr \<times> nat" where
  "keys m = (\<lambda>a. map_option ekey (tm_ent m a))"

definition key_bytes :: "(addr \<rightharpoonup> bytes \<times> addr \<times> nat) \<Rightarrow> addr \<Rightarrow> nat" where
  "key_bytes K a = snd (snd (the (K a)))"

definition blk_bytes :: "(addr \<rightharpoonup> tool_memory_block) \<Rightarrow> addr \<Rightarrow> nat" where
  "blk_bytes B b = tb_bytes (the (B b))"

definition entries_ok :: "(addr \<rightharpoonup> bytes \<times> addr \<times> nat) \<Rightarrow> (bytes \<rightharpoonup> addr) \<Rightarrow> (addr \<rightharpoonup> tool_memory_block) \<Rightarrow> bool" where
  "entries_ok K I B \<longleftrightarrow>
     (\<forall>a k b n. K a = Some (k, b, n) \<longrightarrow>
        k \<noteq> [] \<and> I k = Some a \<and> n = length k + 1 + sizeof_entry \<and> (\<exists>x. B b = Some x \<and> a \<in> set (tb_entries x))) \<and>
     (\<forall>k a. I k = Some a \<longrightarrow> (\<exists>b n. K a = Some (k, b, n)))"

definition blocks_ok :: "(addr \<rightharpoonup> bytes \<times> addr \<times> nat) \<Rightarrow> (bytes \<rightharpoonup> addr) \<Rightarrow> (addr \<rightharpoonup> tool_memory_block) \<Rightarrow> bool" where
  "blocks_ok K T B \<longleftrightarrow>
     (\<forall>b x. B b = Some x \<longrightarrow>
        tb_text x \<noteq> [] \<and> T (tb_text x) = Some b \<and> tb_bytes x = length (tb_text x) + 1 + sizeof_block \<and>
        tb_refs x = int (length (tb_entries x)) \<and> tb_entries x \<noteq> [] \<and> distinct (tb_entries x) \<and>
        (\<forall>a\<in>set (tb_entries x). \<exists>k n. K a = Some (k, b, n))) \<and>
     (\<forall>t b. T t = Some b \<longrightarrow> (\<exists>x. B b = Some x \<and> tb_text x = t))"

definition index_ok :: "tool_memory \<Rightarrow> addr set \<Rightarrow> bool" where
  "index_ok m X \<longleftrightarrow>
     finite X \<and> dom (keys m) = X \<and> finite (dom (tm_blk m)) \<and>
     entries_ok (keys m) (tm_by_id m) (tm_blk m) \<and> blocks_ok (keys m) (tm_by_block m) (tm_blk m) \<and>
     tm_entries m = int (card X) \<and>
     tm_bytes m = sum (key_bytes (keys m)) X + sum (blk_bytes (tm_blk m)) (dom (tm_blk m)) \<and>
     (\<forall>a. keys m a \<noteq> None \<or> tm_blk m a \<noteq> None \<longrightarrow> a < tm_unused m)"

definition memory_ok :: "tool_memory \<Rightarrow> addr list \<Rightarrow> bool" where
  "memory_ok m xs \<longleftrightarrow> list_ok m xs \<and> index_ok m (set xs)"

text \<open>Link operations leave the index alone.\<close>

named_theorems link_frame \<open>what the operations on the links leave unchanged\<close>

lemma upd_ent_frame [link_frame]:
  "tm_by_id (upd_ent a f m) = tm_by_id m" "tm_by_block (upd_ent a f m) = tm_by_block m" "tm_blk (upd_ent a f m) = tm_blk m"
  "tm_entries (upd_ent a f m) = tm_entries m" "tm_bytes (upd_ent a f m) = tm_bytes m" "tm_unused (upd_ent a f m) = tm_unused m"
  "tm_max_entries (upd_ent a f m) = tm_max_entries m" "tm_max_bytes (upd_ent a f m) = tm_max_bytes m"
  "tm_tail (upd_ent a f m) = tm_tail m" "tm_head (upd_ent a f m) = tm_head m"
  "tm_clock (upd_ent a f m) = tm_clock m"
  by (simp_all add: upd_ent_def)

lemma keys_upd_ent [link_frame]: "(\<And>e. ekey (f e) = ekey e) \<Longrightarrow> keys (upd_ent a f m) = keys m"
  by (auto simp: keys_def upd_ent_def fun_eq_iff option.map_comp comp_def)

lemma keys_frame [link_frame]: "keys (m\<lparr>tm_head := h\<rparr>) = keys m" "keys (m\<lparr>tm_tail := t\<rparr>) = keys m"
  "keys (m\<lparr>tm_clock := c\<rparr>) = keys m" "keys (m\<lparr>tm_by_id := i\<rparr>) = keys m" "keys (m\<lparr>tm_by_block := i\<rparr>) = keys m"
  "keys (m\<lparr>tm_blk := g\<rparr>) = keys m" "keys (m\<lparr>tm_bytes := n\<rparr>) = keys m" "keys (m\<lparr>tm_entries := j\<rparr>) = keys m"
  "keys (m\<lparr>tm_unused := u\<rparr>) = keys m"
  by (simp_all add: keys_def)

text \<open>Two states with the same index.\<close>

definition same_index :: "tool_memory \<Rightarrow> tool_memory \<Rightarrow> bool" where
  "same_index m m' \<longleftrightarrow>
     keys m' = keys m \<and> tm_by_id m' = tm_by_id m \<and> tm_by_block m' = tm_by_block m \<and> tm_blk m' = tm_blk m \<and>
     tm_entries m' = tm_entries m \<and> tm_bytes m' = tm_bytes m \<and> tm_unused m' = tm_unused m \<and>
     tm_max_entries m' = tm_max_entries m \<and> tm_max_bytes m' = tm_max_bytes m"

lemma same_index_ok: "same_index m m' \<Longrightarrow> index_ok m' X = index_ok m X"
  by (simp add: same_index_def index_ok_def)

lemma same_index_link_head: "same_index m (tool_memory_link_head m e)"
  by (auto simp: tool_memory_link_head_def same_index_def Let_def link_frame ekey_def split: option.split)

lemma same_index_unlink: "same_index m (tool_memory_unlink m e)"
  by (auto simp: tool_memory_unlink_def same_index_def Let_def link_frame ekey_def split: option.split)

lemma same_index_trans: "same_index m m' \<Longrightarrow> same_index m' m'' \<Longrightarrow> same_index m m''"
  by (simp add: same_index_def)

lemma same_index_touch: "same_index m (tool_memory_touch m e)"
proof -
  let ?m = "upd_ent e (\<lambda>x. x\<lparr>te_stamp := tm_clock m + 1\<rparr>) (m\<lparr>tm_clock := tm_clock m + 1\<rparr>)"
  have s: "same_index m ?m" by (simp add: same_index_def link_frame ekey_def)
  have "same_index m (tool_memory_link_head (tool_memory_unlink ?m e) e)"
    by (rule same_index_trans [OF s same_index_trans [OF same_index_unlink same_index_link_head]])
  moreover have "tool_memory_touch m e = (if tm_head ?m = Some e then ?m else tool_memory_link_head (tool_memory_unlink ?m e) e)"
    by (simp add: tool_memory_touch_def Let_def)
  ultimately show ?thesis using s by simp
qed

lemma memory_ok_touch: "memory_ok m xs \<Longrightarrow> e \<in> set xs \<Longrightarrow> memory_ok (tool_memory_touch m e) (e # remove1 e xs)"
proof -
  assume a: "memory_ok m xs" "e \<in> set xs"
  have "set (e # remove1 e xs) = set xs"
    using a by (auto simp: memory_ok_def list_ok_def set_remove1_eq)
  then show ?thesis
    using a list_ok_touch same_index_ok [OF same_index_touch] by (simp add: memory_ok_def)
qed

text \<open>Removing an entry.\<close>

lemma dom_keys: "memory_ok m xs \<Longrightarrow> keys m a \<noteq> None \<longleftrightarrow> a \<in> set xs"
  unfolding memory_ok_def index_ok_def by (metis domIff)

text \<open>The fields after \<^verbatim>\<open>tool_memory_remove_entry_locked\<close>.\<close>

lemma remove_fields:
  assumes "tm_ent m e = Some x" "tm_blk m (te_block x) = Some b"
  shows "let m' = tool_memory_remove_entry_locked m e;
      n1 = tm_bytes m - te_bytes x; gone = tb_refs b - 1 \<le> 0
    in keys m' = (keys m)(e := None) \<and> tm_by_id m' = (tm_by_id m)(te_id x := None) \<and>
      tm_by_block m' = (if gone then (tm_by_block m)(tb_text b := None) else tm_by_block m) \<and>
      tm_blk m' = (tm_blk m)(te_block x := if gone then None
        else Some (b\<lparr>tb_entries := remove1 e (tb_entries b), tb_refs := tb_refs b - 1\<rparr>)) \<and>
      tm_entries m' = (if tm_entries m > 0 then tm_entries m - 1 else tm_entries m) \<and>
      tm_bytes m' = (if gone then n1 - tb_bytes b else n1) \<and>
      tm_unused m' = tm_unused m \<and> tm_max_entries m' = tm_max_entries m \<and> tm_max_bytes m' = tm_max_bytes m \<and>
      tm_head m' = tm_head (tool_memory_unlink m e) \<and> tm_tail m' = tm_tail (tool_memory_unlink m e) \<and>
      tm_ent m' = (tm_ent (tool_memory_unlink m e))(e := None)"
proof -
  let ?m1 = "m\<lparr>tm_by_id := (tm_by_id m)(te_id x := None)\<rparr>"
  let ?u = "tool_memory_unlink ?m1 e"
  have u: "same_index ?m1 ?u" by (rule same_index_unlink)
  have e1: "tm_head ?u = tm_head (tool_memory_unlink m e)" "tm_tail ?u = tm_tail (tool_memory_unlink m e)"
    "tm_ent ?u = tm_ent (tool_memory_unlink m e)"
    using assms(1) by (simp_all add: tool_memory_unlink_def Let_def upd_ent_def split: option.split)
  have kk: "keys ?u = keys m" using u by (simp add: same_index_def link_frame)
  show ?thesis
    using u assms e1 kk
    by (simp add: tool_memory_remove_entry_locked_def tool_block_unlink_entry_def tool_memory_release_block_locked_def
        upd_blk_def same_index_def Let_def link_frame fun_eq_iff)
      (auto simp: keys_def)
qed


lemma sum_keys_remove:
  assumes "finite X" "e \<in> X"
  shows "sum (key_bytes (K(e := v))) (X - {e}) + key_bytes K e = sum (key_bytes K) X"
proof -
  have "sum (key_bytes (K(e := v))) (X - {e}) = sum (key_bytes K) (X - {e})"
    by (rule sum.cong) (auto simp: key_bytes_def)
  then show ?thesis using sum.remove [OF assms, of "key_bytes K"] by simp
qed

lemma sum_blks_upd:
  assumes "finite (dom B)" "B c = Some x"
  shows "sum (blk_bytes (B(c := v))) (dom (B(c := v))) + tb_bytes x =
    sum (blk_bytes B) (dom B) + (case v of Some y \<Rightarrow> tb_bytes y | None \<Rightarrow> 0)"
proof -
  have c: "c \<in> dom B" using assms(2) by auto
  have r: "sum (blk_bytes (B(c := v))) (dom B - {c}) = sum (blk_bytes B) (dom B - {c})"
    by (rule sum.cong) (auto simp: blk_bytes_def)
  have s: "sum (blk_bytes B) (dom B) = tb_bytes x + sum (blk_bytes B) (dom B - {c})"
    using sum.remove [OF assms(1) c, of "blk_bytes B"] assms(2) by (simp add: blk_bytes_def)
  show ?thesis
  proof (cases v)
    case None
    then have "dom (B(c := v)) = dom B - {c}" by auto
    then show ?thesis using r s None by simp
  next
    case (Some y)
    then have "dom (B(c := v)) = dom B" using c by auto
    then show ?thesis
      using sum.remove [OF assms(1) c, of "blk_bytes (B(c := v))"] r s Some by (simp add: blk_bytes_def)
  qed
qed

lemma index_ok_remove:
  assumes ok: "index_ok m X" and e: "tm_ent m e = Some x"
  shows "index_ok (tool_memory_remove_entry_locked m e) (X - {e})"
proof -
  let ?K = "keys m" and ?B = "tm_blk m"
  have Ke: "?K e = Some (te_id x, te_block x, te_bytes x)" using e by (simp add: keys_def ekey_def)
  have X: "finite X" "e \<in> X" "dom ?K = X" using ok Ke by (auto simp: index_ok_def)
  have eo: "entries_ok ?K (tm_by_id m) ?B" and bo: "blocks_ok ?K (tm_by_block m) ?B" and fin: "finite (dom ?B)"
    using ok by (auto simp: index_ok_def)
  obtain b where b: "?B (te_block x) = Some b" "e \<in> set (tb_entries b)" "tm_by_id m (te_id x) = Some e"
    using eo Ke unfolding entries_ok_def by blast
  let ?c = "te_block x"
  have bb: "tm_by_block m (tb_text b) = Some ?c" "tb_refs b = int (length (tb_entries b))" "distinct (tb_entries b)"
    "\<And>a. a \<in> set (tb_entries b) \<Longrightarrow> \<exists>k n. ?K a = Some (k, ?c, n)"
    using bo b(1) unfolding blocks_ok_def by blast+
  let ?gone = "tb_refs b - 1 \<le> 0"
  let ?b' = "b\<lparr>tb_entries := remove1 e (tb_entries b), tb_refs := tb_refs b - 1\<rparr>"
  let ?v = "if ?gone then None else Some ?b'"
  let ?m' = "tool_memory_remove_entry_locked m e"
  note f = remove_fields [OF e b(1), unfolded Let_def]
  have one: "?gone \<longleftrightarrow> tb_entries b = [e]"
    using bb(2) b(2) by (cases "tb_entries b"; cases "tl (tb_entries b)") auto
  have len: "length (tb_entries b) = Suc (length (remove1 e (tb_entries b)))"
    using b(2) by (simp add: length_remove1) (metis Suc_pred length_pos_if_in_set)
  have other: "a \<noteq> e \<Longrightarrow> ?K a = Some (k, ?c, n) \<Longrightarrow> \<not> ?gone \<and> a \<in> set (remove1 e (tb_entries b))" for a k n
    using eo b(1) one bb(3) unfolding entries_ok_def by (fastforce simp: set_remove1_eq)
  have "entries_ok (?K(e := None)) ((tm_by_id m)(te_id x := None)) (?B(?c := ?v))"
    unfolding entries_ok_def
  proof (intro conjI allI impI)
    fix a k c n assume "(?K(e := None)) a = Some (k, c, n)"
    then have a: "a \<noteq> e" "?K a = Some (k, c, n)" by (auto split: if_splits)
    then have k: "k \<noteq> []" "tm_by_id m k = Some a" "n = length k + 1 + sizeof_entry" "\<exists>y. ?B c = Some y \<and> a \<in> set (tb_entries y)"
      using eo unfolding entries_ok_def by blast+
    show "k \<noteq> []" "n = length k + 1 + sizeof_entry" by fact+
    show "((tm_by_id m)(te_id x := None)) k = Some a" using k(2) b(3) a(1) by auto
    show "\<exists>y. (?B(?c := ?v)) c = Some y \<and> a \<in> set (tb_entries y)"
      using k(4) other [OF a(1)] a(2) by (cases "c = ?c") auto
  next
    fix k a assume "((tm_by_id m)(te_id x := None)) k = Some a"
    then have k: "k \<noteq> te_id x" "tm_by_id m k = Some a" by (auto split: if_splits)
    then obtain c n where "?K a = Some (k, c, n)" using eo unfolding entries_ok_def by blast
    then show "\<exists>c n. (?K(e := None)) a = Some (k, c, n)" using k(1) Ke by auto
  qed
  moreover have "blocks_ok (?K(e := None)) (tm_by_block ?m') (?B(?c := ?v))"
  proof -
    have T: "tm_by_block ?m' = (if ?gone then (tm_by_block m)(tb_text b := None) else tm_by_block m)" using f by blast
    show ?thesis
      unfolding blocks_ok_def
    proof (intro conjI allI impI)
      fix c y assume cy: "(?B(?c := ?v)) c = Some y"
      have "tb_text y \<noteq> [] \<and> tm_by_block ?m' (tb_text y) = Some c \<and> tb_bytes y = length (tb_text y) + 1 + sizeof_block \<and>
        tb_refs y = int (length (tb_entries y)) \<and> tb_entries y \<noteq> [] \<and> distinct (tb_entries y) \<and>
        (\<forall>a\<in>set (tb_entries y). \<exists>k n. (?K(e := None)) a = Some (k, c, n))"
      proof (cases "c = ?c")
        case True
        then have y: "\<not> ?gone" "y = ?b'" using cy by (auto split: if_splits)
        have "remove1 e (tb_entries b) \<noteq> []" using y(1) one len by (cases "tb_entries b") (auto split: if_splits)
        moreover have "tb_text b \<noteq> []" "tb_bytes b = length (tb_text b) + 1 + sizeof_block"
          using bo b(1) unfolding blocks_ok_def by blast+
        ultimately show ?thesis
          using y True T bb len by (auto simp: set_remove1_eq)
      next
        case False
        then have "?B c = Some y" using cy by simp
        then have y: "tb_text y \<noteq> []" "tm_by_block m (tb_text y) = Some c" "tb_bytes y = length (tb_text y) + 1 + sizeof_block"
          "tb_refs y = int (length (tb_entries y))" "tb_entries y \<noteq> []" "distinct (tb_entries y)"
          "\<forall>a\<in>set (tb_entries y). \<exists>k n. ?K a = Some (k, c, n)"
          using bo unfolding blocks_ok_def by blast+
        have "tb_text y \<noteq> tb_text b" using y(2) bb(1) False by auto
        moreover have "e \<notin> set (tb_entries y)" using y(7) Ke False by auto
        ultimately show ?thesis using y T by auto
      qed
      then show "tb_text y \<noteq> []" "tm_by_block ?m' (tb_text y) = Some c" "tb_bytes y = length (tb_text y) + 1 + sizeof_block"
        "tb_refs y = int (length (tb_entries y))" "tb_entries y \<noteq> []" "distinct (tb_entries y)"
        "\<forall>a\<in>set (tb_entries y). \<exists>k n. (?K(e := None)) a = Some (k, c, n)" by blast+
    next
      fix t c assume "tm_by_block ?m' t = Some c"
      then have t: "tm_by_block m t = Some c" "?gone \<Longrightarrow> t \<noteq> tb_text b" using T by (auto split: if_splits)
      then obtain y where y: "?B c = Some y" "tb_text y = t" using bo unfolding blocks_ok_def by blast
      show "\<exists>y. (?B(?c := ?v)) c = Some y \<and> tb_text y = t" using y t b(1) by (cases "c = ?c") auto
    qed
  qed
  moreover have "tm_bytes ?m' = sum (key_bytes (?K(e := None))) (X - {e}) + sum (blk_bytes (?B(?c := ?v))) (dom (?B(?c := ?v)))"
  proof -
    have "sum (key_bytes (?K(e := None))) (X - {e}) + te_bytes x = sum (key_bytes ?K) X"
      using sum_keys_remove [OF X(1,2), of ?K None] Ke by (simp add: key_bytes_def)
    moreover have "sum (blk_bytes (?B(?c := ?v))) (dom (?B(?c := ?v))) + tb_bytes b =
        sum (blk_bytes ?B) (dom ?B) + (if ?gone then 0 else tb_bytes b)"
      using sum_blks_upd [OF fin b(1), of ?v] by simp
    moreover have "tm_bytes m = sum (key_bytes ?K) X + sum (blk_bytes ?B) (dom ?B)" using ok by (simp add: index_ok_def)
    moreover have "tm_bytes ?m' = (if ?gone then tm_bytes m - te_bytes x - tb_bytes b else tm_bytes m - te_bytes x)"
      using f by simp
    ultimately show ?thesis by (cases ?gone) auto
  qed
  moreover have "dom (?K(e := None)) = X - {e}" using X(3) by auto
  moreover have "tm_entries ?m' = int (card (X - {e}))"
    using f ok X card_gt_0_iff [of X] by (auto simp: index_ok_def of_nat_diff)
  moreover have "finite (dom (?B(?c := ?v)))" using fin by simp
  moreover have "\<forall>a. (?K(e := None)) a \<noteq> None \<or> (?B(?c := ?v)) a \<noteq> None \<longrightarrow> a < tm_unused m"
    using ok b(1) by (auto simp: index_ok_def)
  ultimately show ?thesis
    unfolding index_ok_def using f X(1) by auto
qed

lemma memory_ok_remove:
  assumes "memory_ok m (ys @ e # zs)"
  shows "memory_ok (tool_memory_remove_entry_locked m e) (ys @ zs)"
proof -
  have ok: "list_ok m (ys @ e # zs)" "index_ok m (set (ys @ e # zs))" using assms by (simp_all add: memory_ok_def)
  obtain x where x: "tm_ent m e = Some x" using ok(1) lseg_dom [of "tm_ent m" None "ys @ e # zs" None e] by (auto simp: list_ok_def)
  have k: "keys m e = Some (te_id x, te_block x, te_bytes x)" using x by (simp add: keys_def ekey_def)
  obtain b where b: "tm_blk m (te_block x) = Some b"
    using ok(2) k unfolding index_ok_def entries_ok_def by blast
  have d: "distinct (ys @ e # zs)" using ok(1) by (simp add: list_ok_def)
  have u: "list_ok (tool_memory_unlink m e) (ys @ zs)" by (rule list_ok_unlink [OF ok(1)])
  have "list_ok (tool_memory_remove_entry_locked m e) (ys @ zs)"
    using u remove_fields [OF x b] d unfolding list_ok_def Let_def by (simp add: lseg_other)
  moreover have "set (ys @ e # zs) - {e} = set (ys @ zs)" using d by auto
  ultimately show ?thesis using index_ok_remove [OF ok(2) x] by (simp add: memory_ok_def)
qed


text \<open>Adding an entry to a block that exists or is new.\<close>

definition grow_block :: "(addr \<rightharpoonup> tool_memory_block) \<Rightarrow> addr \<Rightarrow> bytes \<Rightarrow> addr \<Rightarrow> tool_memory_block" where
  "grow_block B b t e =
     (case B b of
        Some x \<Rightarrow> x\<lparr>tb_entries := e # tb_entries x, tb_refs := tb_refs x + 1\<rparr>
      | None \<Rightarrow> \<lparr>tb_text = t, tb_bytes = length t + 1 + sizeof_block, tb_refs = 1, tb_seen = 0, tb_entries = [e]\<rparr>)"

lemma entries_ok_add:
  assumes "entries_ok K I B" "K e = None" "I k = None" "k \<noteq> []"
  shows "entries_ok (K(e \<mapsto> (k, b, length k + 1 + sizeof_entry))) (I(k \<mapsto> e)) (B(b \<mapsto> grow_block B b t e))"
  unfolding entries_ok_def
proof (intro conjI allI impI)
  fix a j c n assume a: "(K(e \<mapsto> (k, b, length k + 1 + sizeof_entry))) a = Some (j, c, n)"
  have "j \<noteq> [] \<and> (I(k \<mapsto> e)) j = Some a \<and> n = length j + 1 + sizeof_entry \<and>
      (\<exists>x. (B(b \<mapsto> grow_block B b t e)) c = Some x \<and> a \<in> set (tb_entries x))"
  proof (cases "a = e")
    case True
    then show ?thesis using a assms(4) by (auto simp: grow_block_def split: option.split)
  next
    case False
    then have "K a = Some (j, c, n)" using a by simp
    then have o: "j \<noteq> []" "I j = Some a" "n = length j + 1 + sizeof_entry" "\<exists>x. B c = Some x \<and> a \<in> set (tb_entries x)"
      using assms(1) unfolding entries_ok_def by blast+
    then show ?thesis using assms(3) by (auto simp: grow_block_def)
  qed
  then show "j \<noteq> []" "(I(k \<mapsto> e)) j = Some a" "n = length j + 1 + sizeof_entry"
    "\<exists>x. (B(b \<mapsto> grow_block B b t e)) c = Some x \<and> a \<in> set (tb_entries x)" by blast+
next
  fix j a assume "(I(k \<mapsto> e)) j = Some a"
  then show "\<exists>c n. (K(e \<mapsto> (k, b, length k + 1 + sizeof_entry))) a = Some (j, c, n)"
    using assms(1,2) unfolding entries_ok_def by (cases "j = k") fastforce+
qed

lemma blocks_ok_add:
  assumes "blocks_ok K T B" "K e = None" "t \<noteq> []" "T t = Some b \<or> T t = None \<and> B b = None"
  shows "blocks_ok (K(e \<mapsto> (k, b, n))) (T(t \<mapsto> b)) (B(b \<mapsto> grow_block B b t e))"
  unfolding blocks_ok_def
proof (intro conjI allI impI)
  have old: "tb_text x \<noteq> [] \<and> T (tb_text x) = Some c \<and> tb_bytes x = length (tb_text x) + 1 + sizeof_block \<and>
      tb_refs x = int (length (tb_entries x)) \<and> tb_entries x \<noteq> [] \<and> distinct (tb_entries x) \<and>
      (\<forall>a\<in>set (tb_entries x). \<exists>k n. K a = Some (k, c, n))" if "B c = Some x" for c x
    using assms(1) that unfolding blocks_ok_def by blast
  have bt: "tb_text x = t" if "B b = Some x" for x
    using assms(1,4) that unfolding blocks_ok_def by fastforce
  fix c y assume c: "(B(b \<mapsto> grow_block B b t e)) c = Some y"
  have "tb_text y \<noteq> [] \<and> (T(t \<mapsto> b)) (tb_text y) = Some c \<and> tb_bytes y = length (tb_text y) + 1 + sizeof_block \<and>
      tb_refs y = int (length (tb_entries y)) \<and> tb_entries y \<noteq> [] \<and> distinct (tb_entries y) \<and>
      (\<forall>a\<in>set (tb_entries y). \<exists>j i. (K(e \<mapsto> (k, b, n))) a = Some (j, c, i))"
  proof (cases "c = b")
    case True
    then have y: "y = grow_block B b t e" using c by simp
    show ?thesis
    proof (cases "B b")
      case None
      then show ?thesis using y True assms(3) by (simp add: grow_block_def)
    next
      case (Some x)
      have "e \<notin> set (tb_entries x)" using old [OF Some] assms(2) by auto
      then show ?thesis using old [OF Some] bt [OF Some] y Some True by (auto simp: grow_block_def)
    qed
  next
    case False
    then have b: "B c = Some y" using c by simp
    have "tb_text y \<noteq> t" using old [OF b] assms(4) False by auto
    then show ?thesis using old [OF b] assms(2) by auto
  qed
  then show "tb_text y \<noteq> []" "(T(t \<mapsto> b)) (tb_text y) = Some c" "tb_bytes y = length (tb_text y) + 1 + sizeof_block"
    "tb_refs y = int (length (tb_entries y))" "tb_entries y \<noteq> []" "distinct (tb_entries y)"
    "\<forall>a\<in>set (tb_entries y). \<exists>j i. (K(e \<mapsto> (k, b, n))) a = Some (j, c, i)" by blast+
next
  have bt: "tb_text x = t" if "B b = Some x" for x
    using assms(1,4) that unfolding blocks_ok_def by fastforce
  fix s c assume s: "(T(t \<mapsto> b)) s = Some c"
  show "\<exists>x. (B(b \<mapsto> grow_block B b t e)) c = Some x \<and> tb_text x = s"
  proof (cases "s = t")
    case True
    then show ?thesis using s bt by (auto simp: grow_block_def split: option.split)
  next
    case False
    then have "T s = Some c" using s by simp
    then obtain x where x: "B c = Some x" "tb_text x = s" using assms(1) unfolding blocks_ok_def by blast
    then have "c \<noteq> b" using bt False by auto
    then show ?thesis using x by simp
  qed
qed

lemma insert_fields:
  assumes "t \<noteq> []" and g: "tool_memory_get_block_locked m t = (b, m1)"
  shows "let m' = tool_memory_insert m k t source; e = tm_unused m1;
      m2 = m1\<lparr>tm_ent := (tm_ent m1)(e \<mapsto> \<lparr>te_id = k, te_block = b, te_bytes = length k + 1 + sizeof_entry,
        te_stamp = tm_clock m1 + 1, te_source = source, te_empty_think = False, te_prev = None, te_next = None\<rparr>)\<rparr>
    in keys m' = (keys m1)(e \<mapsto> (k, b, length k + 1 + sizeof_entry)) \<and> tm_by_id m' = (tm_by_id m1)(k \<mapsto> e) \<and>
      tm_by_block m' = tm_by_block m1 \<and>
      tm_blk m' = (tm_blk m1)(b := map_option (\<lambda>y. y\<lparr>tb_entries := e # tb_entries y, tb_refs := tb_refs y + 1\<rparr>) (tm_blk m1 b)) \<and>
      tm_entries m' = tm_entries m1 + 1 \<and> tm_bytes m' = tm_bytes m1 + (length k + 1 + sizeof_entry) \<and>
      tm_unused m' = e + 1 \<and> tm_max_entries m' = tm_max_entries m1 \<and> tm_max_bytes m' = tm_max_bytes m1 \<and>
      tm_head m' = tm_head (tool_memory_link_head m2 e) \<and> tm_tail m' = tm_tail (tool_memory_link_head m2 e) \<and>
      tm_ent m' = tm_ent (tool_memory_link_head m2 e)"
proof -
  let ?e = "tm_unused m1"
  let ?x = "\<lparr>te_id = k, te_block = b, te_bytes = length k + 1 + sizeof_entry,
        te_stamp = tm_clock m1 + 1, te_source = source, te_empty_think = False, te_prev = None, te_next = None\<rparr>"
  let ?m2 = "m1\<lparr>tm_ent := (tm_ent m1)(?e \<mapsto> ?x)\<rparr>"
  let ?m3 = "m1\<lparr>tm_unused := ?e + 1, tm_clock := tm_clock m1 + 1, tm_ent := (tm_ent m1)(?e \<mapsto> ?x),
    tm_blk := (tm_blk m1)(b := map_option (\<lambda>y. y\<lparr>tb_entries := ?e # tb_entries y, tb_refs := tb_refs y + 1\<rparr>) (tm_blk m1 b)),
    tm_by_id := (tm_by_id m1)(k \<mapsto> ?e)\<rparr>"
  have i: "tool_memory_insert m k t source = (let m' = tool_memory_link_head ?m3 ?e
      in m'\<lparr>tm_entries := tm_entries m' + 1, tm_bytes := tm_bytes m' + te_bytes ?x\<rparr>)"
    by (simp add: tool_memory_insert_def g Let_def upd_blk_def)
  have s: "same_index ?m3 (tool_memory_link_head ?m3 ?e)" by (rule same_index_link_head)
  have k: "keys ?m3 = (keys m1)(?e \<mapsto> (k, b, length k + 1 + sizeof_entry))" by (auto simp: keys_def ekey_def)
  have l: "tm_head (tool_memory_link_head ?m3 ?e) = tm_head (tool_memory_link_head ?m2 ?e)"
    "tm_tail (tool_memory_link_head ?m3 ?e) = tm_tail (tool_memory_link_head ?m2 ?e)"
    "tm_ent (tool_memory_link_head ?m3 ?e) = tm_ent (tool_memory_link_head ?m2 ?e)"
    by (simp_all add: tool_memory_link_head_def Let_def upd_ent_def split: option.split)
  show ?thesis unfolding i Let_def using s k l by (simp add: same_index_def link_frame)
qed

lemma index_okD:
  assumes "memory_ok m xs"
  shows "list_ok m xs" "index_ok m (set xs)" "entries_ok (keys m) (tm_by_id m) (tm_blk m)"
    "blocks_ok (keys m) (tm_by_block m) (tm_blk m)" "finite (dom (tm_blk m))" "dom (keys m) = set xs"
    "tm_bytes m = sum (key_bytes (keys m)) (set xs) + sum (blk_bytes (tm_blk m)) (dom (tm_blk m))"
    "\<And>a. keys m a \<noteq> None \<or> tm_blk m a \<noteq> None \<Longrightarrow> a < tm_unused m" "tm_entries m = int (card (set xs))"
  using assms unfolding memory_ok_def index_ok_def by blast+

text \<open>The block of an insertion is the one of the text or a new one at an unused address.\<close>

lemma get_block_cases:
  assumes ok: "memory_ok m xs" and t: "t \<noteq> []" and g: "tool_memory_get_block_locked m t = (b, m1)"
  shows "(tm_by_block m t = Some b \<and> m1 = m \<and> (\<exists>x. tm_blk m b = Some x \<and> tb_text x = t)) \<or>
     (tm_by_block m t = None \<and> b = tm_unused m \<and> tm_blk m b = None \<and>
      m1 = m\<lparr>tm_unused := b + 1, tm_blk := (tm_blk m)(b \<mapsto>
        \<lparr>tb_text = t, tb_bytes = length t + 1 + sizeof_block, tb_refs = 0, tb_seen = 0, tb_entries = []\<rparr>),
        tm_by_block := (tm_by_block m)(t \<mapsto> b), tm_bytes := tm_bytes m + (length t + 1 + sizeof_block)\<rparr>)"
proof -
  have "tm_by_block m t = Some b \<Longrightarrow> \<exists>x. tm_blk m b = Some x \<and> tb_text x = t"
    using index_okD(4) [OF ok] unfolding blocks_ok_def by blast
  moreover have "tm_blk m (tm_unused m) = None"
    using index_okD(8) [OF ok, of "tm_unused m"] by (cases "tm_blk m (tm_unused m)") auto
  ultimately show ?thesis
    using g t by (auto simp: tool_memory_get_block_locked_def tool_memory_find_block_locked_def Let_def split: option.splits)
qed

lemma insert_state:
  assumes ok: "memory_ok m xs" and t: "t \<noteq> []" and g: "tool_memory_get_block_locked m t = (b, m1)"
  shows "tm_unused m \<le> tm_unused m1" "b < tm_unused m1 + 1" "keys m (tm_unused m1) = None" "tm_unused m1 \<notin> set xs"
    "tm_by_block m t = Some b \<or> tm_by_block m t = None \<and> tm_blk m b = None"
    "tm_blk (tool_memory_insert m k t src) = (tm_blk m)(b \<mapsto> grow_block (tm_blk m) b t (tm_unused m1))"
    "tm_by_block (tool_memory_insert m k t src) = (tm_by_block m)(t \<mapsto> b)"
    "keys (tool_memory_insert m k t src) = (keys m)(tm_unused m1 \<mapsto> (k, b, length k + 1 + sizeof_entry))"
    "tm_by_id (tool_memory_insert m k t src) = (tm_by_id m)(k \<mapsto> tm_unused m1)"
    "tm_entries (tool_memory_insert m k t src) = tm_entries m + 1"
    "tm_unused (tool_memory_insert m k t src) = tm_unused m1 + 1"
    "tm_max_entries (tool_memory_insert m k t src) = tm_max_entries m"
    "tm_max_bytes (tool_memory_insert m k t src) = tm_max_bytes m"
    "tm_bytes (tool_memory_insert m k t src) = tm_bytes m + (length k + 1 + sizeof_entry) +
      (if tm_blk m b = None then length t + 1 + sizeof_block else 0)"
    "tb_text (grow_block (tm_blk m) b t a) = t"
proof -
  note cs = get_block_cases [OF ok t g]
  note f = insert_fields [OF t g, of k src, unfolded Let_def]
  note un = index_okD(8) [OF ok]
  show le: "tm_unused m \<le> tm_unused m1" using cs by auto
  show "b < tm_unused m1 + 1" using cs un [of b] by fastforce
  show ke: "keys m (tm_unused m1) = None" using un [of "tm_unused m1"] le by (cases "keys m (tm_unused m1)") auto
  show "tm_unused m1 \<notin> set xs" using ke index_okD(6) [OF ok] by auto
  show "tm_by_block m t = Some b \<or> tm_by_block m t = None \<and> tm_blk m b = None" using cs by blast
  show "tm_blk (tool_memory_insert m k t src) = (tm_blk m)(b \<mapsto> grow_block (tm_blk m) b t (tm_unused m1))"
    "tm_by_block (tool_memory_insert m k t src) = (tm_by_block m)(t \<mapsto> b)"
    "tb_text (grow_block (tm_blk m) b t a) = t"
    using f cs by (auto simp: grow_block_def)
  show "keys (tool_memory_insert m k t src) = (keys m)(tm_unused m1 \<mapsto> (k, b, length k + 1 + sizeof_entry))"
    "tm_by_id (tool_memory_insert m k t src) = (tm_by_id m)(k \<mapsto> tm_unused m1)"
    "tm_entries (tool_memory_insert m k t src) = tm_entries m + 1"
    "tm_unused (tool_memory_insert m k t src) = tm_unused m1 + 1"
    "tm_max_entries (tool_memory_insert m k t src) = tm_max_entries m"
    "tm_max_bytes (tool_memory_insert m k t src) = tm_max_bytes m"
    "tm_bytes (tool_memory_insert m k t src) = tm_bytes m + (length k + 1 + sizeof_entry) +
      (if tm_blk m b = None then length t + 1 + sizeof_block else 0)"
    using f cs by (auto simp: link_frame)
qed

lemma grow_block_bytes:
  assumes "finite (dom B)"
  shows "sum (blk_bytes (B(b \<mapsto> grow_block B b t e))) (dom (B(b \<mapsto> grow_block B b t e))) =
    sum (blk_bytes B) (dom B) + (if B b = None then length t + 1 + sizeof_block else 0)"
proof (cases "B b")
  case (Some x)
  then show ?thesis
    using sum_blks_upd [OF assms Some, of "Some (grow_block B b t e)"] by (simp add: grow_block_def)
next
  case None
  then have "sum (blk_bytes (B(b \<mapsto> grow_block B b t e))) (dom B) = sum (blk_bytes B) (dom B)"
    by (intro sum.cong) (auto simp: blk_bytes_def)
  then show ?thesis using None assms by (simp add: blk_bytes_def grow_block_def domIff)
qed

lemma index_ok_insert:
  assumes ok: "memory_ok m xs" and k: "k \<noteq> []" "tm_by_id m k = None" and t: "t \<noteq> []"
    and g: "tool_memory_get_block_locked m t = (b, m1)"
  shows "index_ok (tool_memory_insert m k t src) (set (tm_unused m1 # xs))"
proof -
  let ?e = "tm_unused m1" and ?m' = "tool_memory_insert m k t src"
  note io = index_okD [OF ok]
  note s = insert_state [OF ok t g]
  have "sum (key_bytes (keys ?m')) (set xs) = sum (key_bytes (keys m)) (set xs)"
    using s(4) unfolding s(8) by (intro sum.cong) (auto simp: key_bytes_def)
  then have ks: "sum (key_bytes (keys ?m')) (set (?e # xs)) = length k + 1 + sizeof_entry + sum (key_bytes (keys m)) (set xs)"
    using s(4) by (simp add: s(8) key_bytes_def)
  show ?thesis
    unfolding index_ok_def
  proof (intro conjI)
    show "dom (keys ?m') = set (?e # xs)" using s(8) io(6) by auto
    show "finite (dom (tm_blk ?m'))" using io(5) s(6) by simp
    show "entries_ok (keys ?m') (tm_by_id ?m') (tm_blk ?m')"
      unfolding s(6,8,9) by (rule entries_ok_add [OF io(3) s(3) k(2,1)])
    show "blocks_ok (keys ?m') (tm_by_block ?m') (tm_blk ?m')"
      unfolding s(6,7,8) by (rule blocks_ok_add [OF io(4) s(3) t s(5)])
    show "tm_entries ?m' = int (card (set (?e # xs)))" using s(4,10) io(9) by simp
    show "tm_bytes ?m' = sum (key_bytes (keys ?m')) (set (?e # xs)) + sum (blk_bytes (tm_blk ?m')) (dom (tm_blk ?m'))"
      unfolding ks unfolding s(6,14) grow_block_bytes [OF io(5)] using io(7) by simp
    show "\<forall>a. keys ?m' a \<noteq> None \<or> tm_blk ?m' a \<noteq> None \<longrightarrow> a < tm_unused ?m'"
    proof (intro allI impI)
      fix a assume "keys ?m' a \<noteq> None \<or> tm_blk ?m' a \<noteq> None"
      then have "a = ?e \<or> a = b \<or> keys m a \<noteq> None \<or> tm_blk m a \<noteq> None"
        unfolding s(6,8) by (auto split: if_splits)
      then have "a = ?e \<or> a = b \<or> a < tm_unused m" using io(8) by blast
      then show "a < tm_unused ?m'" using s(1,2,11) by auto
    qed
  qed simp
qed

lemma memory_ok_insert:
  assumes ok: "memory_ok m xs" and k: "k \<noteq> []" "tm_by_id m k = None" and t: "t \<noteq> []"
    and g: "tool_memory_get_block_locked m t = (b, m1)"
  shows "memory_ok (tool_memory_insert m k t src) (tm_unused m1 # xs)"
proof -
  let ?e = "tm_unused m1"
  let ?m2 = "m1\<lparr>tm_ent := (tm_ent m1)(?e \<mapsto> \<lparr>te_id = k, te_block = b, te_bytes = length k + 1 + sizeof_entry,
      te_stamp = tm_clock m1 + 1, te_source = src, te_empty_think = False, te_prev = None, te_next = None\<rparr>)\<rparr>"
  note s = insert_state [OF ok t g]
  have "tm_ent m1 = tm_ent m" "tm_head m1 = tm_head m" "tm_tail m1 = tm_tail m"
    using get_block_cases [OF ok t g] by auto
  then have "list_ok ?m2 xs" using index_okD(1) [OF ok] s(4) by (simp add: list_ok_def lseg_other)
  then have "list_ok (tool_memory_link_head ?m2 ?e) (?e # xs)" by (rule list_ok_link_head [OF _ s(4)]) simp
  then have "list_ok (tool_memory_insert m k t src) (?e # xs)"
    using insert_fields [OF t g, of k src, unfolded Let_def] unfolding list_ok_def by simp
  then show ?thesis using index_ok_insert [OF ok k t g] by (simp add: memory_ok_def)
qed

end
