(* ===== verification/Tool_Memory_Spec.thy ===== *)
theory Tool_Memory_Spec
  imports Tool_Memory_Inv
begin

text \<open>
  The contract of the tool text memory: a list of (id, text) pairs ordered by use.  A put brings its pair
  to the front and drops pairs from the end until the limits hold, a lookup brings its pair to the front.
  \<open>holds\<close> relates the linked structure to that list.
\<close>

section \<open>The list of pairs\<close>

definition lru_cost :: "(bytes \<times> bytes) list \<Rightarrow> nat" where
  "lru_cost l =
     sum_list (map (\<lambda>p. length (fst p) + 1 + sizeof_entry) l) +
     sum_list (map (\<lambda>t. length t + 1 + sizeof_block) (remdups (map snd l)))"

function lru_trim :: "int \<Rightarrow> nat \<Rightarrow> (bytes \<times> bytes) list \<Rightarrow> (bytes \<times> bytes) list" where
  "lru_trim n c l = (if l \<noteq> [] \<and> (int (length l) > n \<or> lru_cost l > c) then lru_trim n c (butlast l) else l)"
  by pat_completeness auto
termination by (relation "measure (\<lambda>(n, c, l). length l)") auto

declare lru_trim.simps [simp del]

definition lru_front :: "bytes \<Rightarrow> bytes \<Rightarrow> (bytes \<times> bytes) list \<Rightarrow> (bytes \<times> bytes) list" where
  "lru_front k t l = (k, t) # filter (\<lambda>p. fst p \<noteq> k) l"

definition lru_put :: "int \<Rightarrow> nat \<Rightarrow> bytes \<Rightarrow> bytes \<Rightarrow> (bytes \<times> bytes) list \<Rightarrow> (bytes \<times> bytes) list" where
  "lru_put n c k t l = (if k = [] \<or> t = [] then l else lru_trim n c (lru_front k t l))"

definition lru_use :: "bytes \<Rightarrow> (bytes \<times> bytes) list \<Rightarrow> (bytes \<times> bytes) list" where
  "lru_use k l = (case map_of l k of None \<Rightarrow> l | Some t \<Rightarrow> lru_front k t l)"

lemma lru_trim_prefix: "\<exists>ys. l = lru_trim n c l @ ys"
proof (induction n c l rule: lru_trim.induct)
  case (1 n c l)
  show ?case
  proof (cases "l \<noteq> [] \<and> (int (length l) > n \<or> lru_cost l > c)")
    case True
    obtain ys where "butlast l = lru_trim n c (butlast l) @ ys" using 1 [OF True] by blast
    then have "l = lru_trim n c (butlast l) @ (ys @ [last l])"
      using True by (metis append.assoc append_butlast_last_id)
    then show ?thesis using lru_trim.simps [of n c l] True by auto
  next
    case False
    then show ?thesis by (subst lru_trim.simps) auto
  qed
qed

lemma lru_trim_within:
  assumes "0 \<le> n"
  shows "int (length (lru_trim n c l)) \<le> n \<and> lru_cost (lru_trim n c l) \<le> c"
  using assms
proof (induction n c l rule: lru_trim.induct)
  case (1 n c l)
  show ?case
  proof (cases "l \<noteq> [] \<and> (int (length l) > n \<or> lru_cost l > c)")
    case True
    then show ?thesis using 1 lru_trim.simps [of n c l] by simp
  next
    case False
    then show ?thesis using 1(2) by (auto simp: lru_trim.simps [of n c l] lru_cost_def)
  qed
qed

text \<open>A head that fits on its own survives.\<close>

lemma lru_trim_head:
  assumes "1 \<le> n" "lru_cost [p] \<le> c"
  shows "\<exists>ys. lru_trim n c (p # l) = p # ys"
proof (induction l rule: rev_induct)
  case Nil
  then show ?case using assms by (simp add: lru_trim.simps)
next
  case (snoc x xs)
  show ?case using snoc by (subst lru_trim.simps) (auto simp: butlast_append)
qed

section \<open>The memory and its list\<close>

definition pair_at :: "tool_memory \<Rightarrow> addr \<Rightarrow> bytes \<times> bytes" where
  "pair_at m a = (case the (keys m a) of (k, b, _) \<Rightarrow> (k, tb_text (the (tm_blk m b))))"

definition holds :: "tool_memory \<Rightarrow> (bytes \<times> bytes) list \<Rightarrow> bool" where
  "holds m l \<longleftrightarrow> (\<exists>xs. memory_ok m xs \<and> l = map (pair_at m) xs)"

definition limits :: "tool_memory \<Rightarrow> int \<times> nat" where
  "limits m = (tool_memory_max_entries m, tool_memory_max_bytes m)"

lemma entry_keys:
  assumes "memory_ok m xs" "a \<in> set xs"
  shows "\<exists>k b n x. keys m a = Some (k, b, n) \<and> tm_by_id m k = Some a \<and> k \<noteq> [] \<and> n = length k + 1 + sizeof_entry \<and>
    tm_blk m b = Some x \<and> a \<in> set (tb_entries x) \<and> tb_text x \<noteq> [] \<and> pair_at m a = (k, tb_text x)"
proof -
  obtain k b n where k: "keys m a = Some (k, b, n)" using dom_keys [OF assms(1), of a] assms(2) by auto
  then obtain x where "tm_by_id m k = Some a" "k \<noteq> []" "n = length k + 1 + sizeof_entry" "tm_blk m b = Some x" "a \<in> set (tb_entries x)"
    using index_okD(3) [OF assms(1)] unfolding entries_ok_def by blast
  moreover from this have "tb_text x \<noteq> []" using index_okD(4) [OF assms(1)] unfolding blocks_ok_def by blast
  ultimately show ?thesis using k by (auto simp: pair_at_def)
qed

lemma distinct_ids: "memory_ok m xs \<Longrightarrow> inj_on (\<lambda>a. fst (pair_at m a)) (set xs)"
  by (intro inj_onI) (metis entry_keys fst_conv option.inject)

lemma distinct_addrs: "memory_ok m xs \<Longrightarrow> distinct xs"
  by (simp add: memory_ok_def list_ok_def)

lemma find_entry:
  assumes "memory_ok m xs" "k \<noteq> []"
  shows "tm_by_id m k = Some a \<longleftrightarrow> a \<in> set xs \<and> fst (pair_at m a) = k"
proof
  assume "tm_by_id m k = Some a"
  then obtain b n where "keys m a = Some (k, b, n)" using index_okD(3) [OF assms(1)] unfolding entries_ok_def by blast
  then show "a \<in> set xs \<and> fst (pair_at m a) = k" using dom_keys [OF assms(1), of a] by (simp add: pair_at_def)
qed (use entry_keys [OF assms(1), of a] in auto)

lemma map_of_pairs:
  assumes "memory_ok m xs" "k \<noteq> []"
  shows "map_of (map (pair_at m) xs) k = map_option (\<lambda>a. snd (pair_at m a)) (tm_by_id m k)"
proof (cases "tm_by_id m k")
  case (Some a)
  then have "(k, snd (pair_at m a)) \<in> set (map (pair_at m) xs)" using find_entry [OF assms] by force
  moreover have "distinct (map fst (map (pair_at m) xs))"
    using distinct_ids [OF assms(1)] distinct_addrs [OF assms(1)] by (simp add: distinct_map comp_def)
  ultimately show ?thesis using Some by simp
next
  case None
  then have "\<forall>a\<in>set xs. fst (pair_at m a) \<noteq> k" using find_entry [OF assms] by auto
  then have "k \<notin> fst ` set (map (pair_at m) xs)" unfolding set_map image_image by blast
  then show ?thesis using None by (simp add: map_of_eq_None_iff)
qed

lemma filter_pairs:
  assumes "memory_ok m (ys @ e # zs)"
  shows "filter (\<lambda>p. fst p \<noteq> fst (pair_at m e)) (map (pair_at m) (ys @ e # zs)) = map (pair_at m) (ys @ zs)"
proof -
  have "fst (pair_at m a) \<noteq> fst (pair_at m e)" if "a \<in> set (ys @ zs)" for a
    using inj_onD [OF distinct_ids [OF assms], of a e] distinct_addrs [OF assms] that by auto
  then show ?thesis by (auto simp: filter_map comp_def intro!: filter_True)
qed

section \<open>Counts and bytes\<close>

lemma holds_length: "memory_ok m xs \<Longrightarrow> tm_entries m = int (length xs)"
  using index_okD(9) distinct_addrs by (metis distinct_card)

text \<open>The blocks are the texts of the list, each once.\<close>

lemma block_texts:
  assumes "memory_ok m xs"
  shows "bij_betw (\<lambda>b. tb_text (the (tm_blk m b))) (dom (tm_blk m)) (set (map snd (map (pair_at m) xs)))"
proof -
  have bo: "\<And>b x. tm_blk m b = Some x \<Longrightarrow> tm_by_block m (tb_text x) = Some b \<and> tb_entries x \<noteq> [] \<and>
      (\<forall>a\<in>set (tb_entries x). \<exists>k n. keys m a = Some (k, b, n))"
    using index_okD(4) [OF assms] unfolding blocks_ok_def by blast
  have "inj_on (\<lambda>b. tb_text (the (tm_blk m b))) (dom (tm_blk m))" using bo by (auto intro!: inj_onI) (metis option.inject)
  moreover have "tb_text x \<in> set (map snd (map (pair_at m) xs))" if b: "tm_blk m b = Some x" for b x
  proof -
    obtain a k n where a: "keys m a = Some (k, b, n)" using bo [OF b] by (cases "tb_entries x") auto
    then have "a \<in> set xs" "snd (pair_at m a) = tb_text x" using dom_keys [OF assms, of a] b by (auto simp: pair_at_def)
    then show ?thesis by force
  qed
  moreover have "snd (pair_at m a) \<in> (\<lambda>b. tb_text (the (tm_blk m b))) ` dom (tm_blk m)" if "a \<in> set xs" for a
    using entry_keys [OF assms that] by (auto simp: image_iff dom_def)
  ultimately show ?thesis by (auto simp: bij_betw_def)
qed

lemma holds_bytes:
  assumes "memory_ok m xs"
  shows "tm_bytes m = lru_cost (map (pair_at m) xs)"
proof -
  let ?l = "map (pair_at m) xs"
  have "sum (key_bytes (keys m)) (set xs) = (\<Sum>a\<in>set xs. length (fst (pair_at m a)) + 1 + sizeof_entry)"
    using entry_keys [OF assms] by (intro sum.cong) (auto simp: key_bytes_def, fastforce)
  also have "\<dots> = sum_list (map (\<lambda>p. length (fst p) + 1 + sizeof_entry) ?l)"
    using distinct_addrs [OF assms] by (simp add: sum_list_distinct_conv_sum_set comp_def)
  finally have k: "sum (key_bytes (keys m)) (set xs) = \<dots>" .
  have "sum (blk_bytes (tm_blk m)) (dom (tm_blk m)) = (\<Sum>b\<in>dom (tm_blk m). length (tb_text (the (tm_blk m b))) + 1 + sizeof_block)"
    using index_okD(4) [OF assms] by (intro sum.cong) (auto simp: blk_bytes_def blocks_ok_def)
  also have "\<dots> = (\<Sum>t\<in>set (map snd ?l). length t + 1 + sizeof_block)"
    by (rule sum.reindex_bij_betw [OF block_texts [OF assms]])
  also have "\<dots> = sum_list (map (\<lambda>t. length t + 1 + sizeof_block) (remdups (map snd ?l)))"
    by (simp add: sum_list_distinct_conv_sum_set del: set_map)
  finally show ?thesis using k index_okD(7) [OF assms] by (simp add: lru_cost_def)
qed

section \<open>The steps\<close>

lemma pair_at_same: "same_index m m' \<Longrightarrow> pair_at m' = pair_at m"
  by (simp add: same_index_def pair_at_def fun_eq_iff)

lemma touch_refines:
  assumes ok: "memory_ok m xs" and e: "e \<in> set xs"
  shows "memory_ok (tool_memory_touch m e) (e # remove1 e xs)"
    "map (pair_at (tool_memory_touch m e)) (e # remove1 e xs) =
       lru_front (fst (pair_at m e)) (snd (pair_at m e)) (map (pair_at m) xs)"
    "limits (tool_memory_touch m e) = limits m"
proof -
  show "memory_ok (tool_memory_touch m e) (e # remove1 e xs)" by (rule memory_ok_touch [OF ok e])
  obtain ys zs where xs: "xs = ys @ e # zs" "e \<notin> set ys" using e by (meson split_list_first)
  then show "map (pair_at (tool_memory_touch m e)) (e # remove1 e xs) =
       lru_front (fst (pair_at m e)) (snd (pair_at m e)) (map (pair_at m) xs)"
    using filter_pairs [of m ys e zs] ok
    by (simp add: pair_at_same [OF same_index_touch] lru_front_def remove1_append)
  show "limits (tool_memory_touch m e) = limits m"
    using same_index_touch [of m e]
    by (simp add: same_index_def limits_def tool_memory_max_entries_def tool_memory_max_bytes_def)
qed

lemma remove_refines:
  assumes ok: "memory_ok m (ys @ e # zs)"
  shows "memory_ok (tool_memory_remove_entry_locked m e) (ys @ zs)"
    "map (pair_at (tool_memory_remove_entry_locked m e)) (ys @ zs) = map (pair_at m) (ys @ zs)"
    "limits (tool_memory_remove_entry_locked m e) = limits m"
proof -
  let ?m' = "tool_memory_remove_entry_locked m e"
  show ok': "memory_ok ?m' (ys @ zs)" by (rule memory_ok_remove [OF ok])
  obtain k c n b where e: "keys m e = Some (k, c, n)" "tm_blk m c = Some b"
    using entry_keys [OF ok, of e] by auto
  then obtain x where x: "tm_ent m e = Some x" "te_block x = c" by (auto simp: keys_def ekey_def)
  note f = remove_fields [OF x(1), unfolded x(2) Let_def, OF e(2)]
  show "limits ?m' = limits m"
    using f by (simp add: limits_def tool_memory_max_entries_def tool_memory_max_bytes_def)
  have "pair_at ?m' a = pair_at m a" if a: "a \<in> set (ys @ zs)" for a
  proof -
    obtain k' b' n' y where k': "keys ?m' a = Some (k', b', n')" "tm_blk ?m' b' = Some y"
      using entry_keys [OF ok' a] by blast
    have "keys m a = Some (k', b', n')" using k'(1) f by (auto split: if_splits)
    moreover have "tb_text y = tb_text (the (tm_blk m b'))" using k'(2) f e(2) by (auto split: if_splits)
    ultimately show ?thesis using k' by (simp add: pair_at_def)
  qed
  then show "map (pair_at ?m') (ys @ zs) = map (pair_at m) (ys @ zs)" by (simp only: map_eq_conv) blast
qed

lemma insert_refines:
  assumes ok: "memory_ok m xs" and k: "k \<noteq> []" "tm_by_id m k = None" and t: "t \<noteq> []"
  shows "\<exists>e. memory_ok (tool_memory_insert m k t src) (e # xs) \<and>
    map (pair_at (tool_memory_insert m k t src)) (e # xs) = (k, t) # map (pair_at m) xs \<and>
    limits (tool_memory_insert m k t src) = limits m"
proof -
  obtain b m1 where g: "tool_memory_get_block_locked m t = (b, m1)" by fastforce
  let ?e = "tm_unused m1" and ?m' = "tool_memory_insert m k t src"
  note s = insert_state [OF ok t g]
  have "pair_at ?m' ?e = (k, t)" unfolding pair_at_def s(6,8) using s(15) by simp
  moreover have "pair_at ?m' a = pair_at m a" if a: "a \<in> set xs" for a
  proof -
    obtain k' b' n' y where k': "keys m a = Some (k', b', n')" "tm_blk m b' = Some y"
      using entry_keys [OF ok a] by blast
    have "a \<noteq> ?e" using a s(4) by blast
    then show ?thesis unfolding pair_at_def s(6,8) using k' by (auto simp: grow_block_def)
  qed
  moreover have "limits ?m' = limits m" using s(12,13) by (simp add: limits_def tool_memory_max_entries_def tool_memory_max_bytes_def)
  ultimately show ?thesis using memory_ok_insert [OF ok k t g] by (auto intro!: exI [of _ ?e])
qed

section \<open>The operations\<close>

text \<open>The list after an operation that keeps the limits.\<close>

definition steps_to :: "tool_memory \<Rightarrow> tool_memory \<Rightarrow> (bytes \<times> bytes) list \<Rightarrow> bool" where
  "steps_to m m' l \<longleftrightarrow> holds m' l \<and> limits m' = limits m"

lemma over_limit_list:
  assumes "memory_ok m xs"
  shows "over_limit m \<longleftrightarrow>
    xs \<noteq> [] \<and> (int (length xs) > fst (limits m) \<or> lru_cost (map (pair_at m) xs) > snd (limits m))"
proof -
  have "tm_tail m = final None xs" using index_okD(1) [OF assms] by (simp add: list_ok_def)
  then show ?thesis
    using holds_length [OF assms] holds_bytes [OF assms] by (auto simp: over_limit_def limits_def final_def)
qed

lemma tail_last: "memory_ok m (ys @ [e]) \<Longrightarrow> tm_tail m = Some e"
  by (simp add: memory_ok_def list_ok_def)

lemma prune_refines:
  "memory_ok m xs \<Longrightarrow>
    \<exists>m'. tool_memory_prune_locked m = Some m' \<and>
      steps_to m m' (lru_trim (fst (limits m)) (snd (limits m)) (map (pair_at m) xs))"
proof (induction xs arbitrary: m rule: rev_induct)
  case Nil
  then show ?case
    by (auto simp: tool_memory_prune_locked_def while_option_unfold [of over_limit] over_limit_list lru_trim.simps
        steps_to_def holds_def)
next
  case (snoc e ys)
  show ?case
  proof (cases "over_limit m")
    case False
    then show ?thesis
      using snoc.prems over_limit_list [OF snoc.prems]
      by (auto simp: tool_memory_prune_locked_def while_option_unfold [of over_limit] lru_trim.simps [of _ _ "_ @ _"]
          steps_to_def holds_def)
  next
    case True
    let ?r = "tool_memory_remove_entry_locked m e"
    have p: "tool_memory_prune_locked m = tool_memory_prune_locked ?r"
      using True tail_last [OF snoc.prems]
      by (simp add: tool_memory_prune_locked_def while_option_unfold [of over_limit _ m])
    have r: "memory_ok ?r ys" "map (pair_at ?r) ys = map (pair_at m) ys" "limits ?r = limits m"
      using remove_refines [of m ys e "[]"] snoc.prems by simp_all
    have "lru_trim (fst (limits m)) (snd (limits m)) (map (pair_at m) (ys @ [e])) =
        lru_trim (fst (limits m)) (snd (limits m)) (map (pair_at m) ys)"
      using True over_limit_list [OF snoc.prems] by (subst lru_trim.simps) (simp add: map_butlast [symmetric])
    then show ?thesis using snoc.IH [OF r(1)] unfolding p r(2,3) by (simp add: steps_to_def r(3))
  qed
qed

lemma drain_free:
  "memory_ok m xs \<Longrightarrow> tool_memory_free m = Some tool_memory_zero"
proof (induction xs arbitrary: m rule: rev_induct)
  case Nil
  then have "tm_tail m = None" by (simp add: memory_ok_def list_ok_def)
  then show ?case by (simp add: tool_memory_free_def while_option_unfold)
next
  case (snoc e ys)
  have "memory_ok (tool_memory_remove_entry_locked m e) ys" using remove_refines(1) [of m ys e "[]"] snoc.prems by simp
  then show ?case
    using snoc.IH tail_last [OF snoc.prems] by (simp add: tool_memory_free_def while_option_unfold [of _ _ m])
qed

text \<open>Marking the source of an entry changes no link and no index.\<close>

lemma source_ok:
  assumes "memory_ok m xs"
  shows "memory_ok (upd_ent a (\<lambda>y. y\<lparr>te_source := s\<rparr>) m) xs" "same_index m (upd_ent a (\<lambda>y. y\<lparr>te_source := s\<rparr>) m)"
proof -
  show i: "same_index m (upd_ent a (\<lambda>y. y\<lparr>te_source := s\<rparr>) m)" by (simp add: same_index_def link_frame ekey_def)
  have "lseg (tm_ent (upd_ent a (\<lambda>y. y\<lparr>te_source := s\<rparr>) m)) p ys q = lseg (tm_ent m) p ys q" for p ys q
    by (induction ys arbitrary: p) (auto simp: upd_ent_def)
  then show "memory_ok (upd_ent a (\<lambda>y. y\<lparr>te_source := s\<rparr>) m) xs"
    using assms same_index_ok [OF i] by (simp add: memory_ok_def list_ok_def) (simp add: upd_ent_def)
qed

lemma put_fresh:
  assumes ok: "memory_ok m xs" and k: "k \<noteq> []" "tm_by_id m k = None" and t: "t \<noteq> []" and l: "limits m = (n, c)"
  shows "\<exists>m'. tool_memory_prune_locked (tool_memory_insert m k t src) = Some m' \<and>
    steps_to m m' (lru_trim n c ((k, t) # map (pair_at m) xs))"
proof -
  let ?i = "tool_memory_insert m k t src"
  from insert_refines [OF ok k t, of src]
  obtain e where e: "memory_ok ?i (e # xs) \<and> map (pair_at ?i) (e # xs) = (k, t) # map (pair_at m) xs \<and> limits ?i = limits m" ..
  then show ?thesis using prune_refines [of ?i "e # xs"] l unfolding e [THEN conjunct2, THEN conjunct1] steps_to_def by simp
qed

lemma put_refines:
  assumes h: "holds m l"
  shows "\<exists>m'. tool_memory_put_locked m (Some k) (Some t) src = Some m' \<and>
    steps_to m m' (lru_put (fst (limits m)) (snd (limits m)) k t l)"
proof (cases "k = [] \<or> t = []")
  case True
  then show ?thesis using h by (auto simp: tool_memory_put_locked_def lru_put_def steps_to_def)
next
  case False
  obtain xs where xs: "memory_ok m xs" "l = map (pair_at m) xs" using h by (auto simp: holds_def)
  obtain n c where nc: "limits m = (n, c)" by fastforce
  show ?thesis
  proof (cases "tm_by_id m k")
    case None
    have "filter (\<lambda>p. fst p \<noteq> k) l = l"
      using find_entry [OF xs(1), of k] False None unfolding xs(2) by (auto intro!: filter_True)
    then show ?thesis
      using put_fresh [OF xs(1) _ None _ nc, of t src] False None nc xs(2)
      by (simp add: tool_memory_put_locked_def tool_memory_find_entry_locked_def lru_put_def lru_front_def)
  next
    case (Some a)
    then have a: "a \<in> set xs" "fst (pair_at m a) = k" using find_entry [OF xs(1), of k a] False by auto
    obtain b y where y: "keys m a = Some (k, b, length k + 1 + sizeof_entry)" "tm_blk m b = Some y" "pair_at m a = (k, tb_text y)"
      using entry_keys [OF xs(1) a(1)] a(2) by (metis fst_conv)
    then obtain x where x: "tm_ent m a = Some x" "te_block x = b" by (auto simp: keys_def ekey_def)
    show ?thesis
    proof (cases "tb_text y = t")
      case True
      let ?s = "if src = TOOL_MEMORY_RAM then upd_ent a (\<lambda>y. y\<lparr>te_source := TOOL_MEMORY_RAM\<rparr>) m else m"
      have s: "memory_ok ?s xs" "pair_at ?s = pair_at m" "limits ?s = limits m"
        using source_ok [OF xs(1)] xs(1) pair_at_same [OF source_ok(2) [OF xs(1)]]
        by (auto simp: same_index_def limits_def tool_memory_max_entries_def tool_memory_max_bytes_def)
      note tr = touch_refines [OF s(1) a(1), unfolded s(2,3)]
      have "tool_memory_put_locked m (Some k) (Some t) src = tool_memory_prune_locked (tool_memory_touch ?s a)"
        using False Some x y(2) True
        by (simp add: tool_memory_put_locked_def tool_memory_find_entry_locked_def Let_def)
      then show ?thesis
        using prune_refines [OF tr(1)] True False y(3)
        unfolding tr(2,3) by (simp add: steps_to_def tr(3) lru_put_def xs(2))
    next
      case neq: False
      obtain ys zs where sp: "xs = ys @ a # zs" using a(1) by (meson split_list)
      note ok = xs(1) [unfolded sp]
      note rr = remove_refines [OF ok]
      let ?r = "tool_memory_remove_entry_locked m a"
      have no: "tm_by_id ?r k = None" using remove_fields [OF x(1), unfolded x(2), OF y(2)] y(1) x by (simp add: Let_def keys_def ekey_def)
      have fr: "lru_front k t l = (k, t) # map (pair_at m) (ys @ zs)"
        using filter_pairs [OF ok] y(3) unfolding lru_front_def xs(2) sp by simp
      have "tool_memory_put_locked m (Some k) (Some t) src = tool_memory_prune_locked (tool_memory_insert ?r k t src)"
        using False Some x y(2) neq by (simp add: tool_memory_put_locked_def tool_memory_find_entry_locked_def)
      moreover have "\<exists>m'. tool_memory_prune_locked (tool_memory_insert ?r k t src) = Some m' \<and>
          steps_to ?r m' (lru_trim n c ((k, t) # map (pair_at ?r) (ys @ zs)))"
        using False rr(3) nc by (intro put_fresh [OF rr(1) _ no]) simp_all
      ultimately show ?thesis
        using False nc unfolding rr(2) lru_put_def fr steps_to_def rr(3) by simp
    qed
  qed
qed

lemma lookup_refines:
  assumes h: "holds m l"
  shows "map_option fst (fst (tool_memory_lookup_locked m (Some k))) = (if k = [] then None else map_of l k) \<and>
    steps_to m (snd (tool_memory_lookup_locked m (Some k))) (if k = [] then l else lru_use k l)"
proof (cases "k = []")
  case True
  then show ?thesis using h by (simp add: tool_memory_lookup_locked_def tool_memory_find_entry_locked_def steps_to_def)
next
  case False
  obtain xs where xs: "memory_ok m xs" "l = map (pair_at m) xs" using h by (auto simp: holds_def)
  note mo = map_of_pairs [OF xs(1) False]
  show ?thesis
  proof (cases "tm_by_id m k")
    case None
    then show ?thesis using h mo False xs(2)
      by (simp add: tool_memory_lookup_locked_def tool_memory_find_entry_locked_def steps_to_def lru_use_def)
  next
    case (Some a)
    then have a: "a \<in> set xs" "fst (pair_at m a) = k" using find_entry [OF xs(1), of k a] False by auto
    obtain b y where y: "keys m a = Some (k, b, length k + 1 + sizeof_entry)" "tm_blk m b = Some y" "pair_at m a = (k, tb_text y)"
      using entry_keys [OF xs(1) a(1)] a(2) by (metis fst_conv)
    then obtain x where x: "tm_ent m a = Some x" "te_block x = b" by (auto simp: keys_def ekey_def)
    note tr = touch_refines [OF xs(1) a(1)]
    have "tm_blk (tool_memory_touch m a) b = Some y" using same_index_touch [of m a] y(2) by (simp add: same_index_def)
    then have "tool_memory_lookup_locked m (Some k) = (Some (tb_text y, te_source x, b), tool_memory_touch m a)"
      using False Some x by (simp add: tool_memory_lookup_locked_def tool_memory_find_entry_locked_def Let_def)
    moreover have "holds (tool_memory_touch m a) (lru_front k (tb_text y) l)"
      using tr y(3) unfolding holds_def xs(2) by (intro exI [of _ "a # remove1 a xs"]) simp
    ultimately show ?thesis using mo Some False y(3) tr(3) xs(2) by (simp add: steps_to_def lru_use_def)
  qed
qed

section \<open>Runs\<close>

datatype tool_op = Put "bytes option" "bytes option" tool_memory_source | Lookup "bytes option"

definition tool_memory_new :: "int \<Rightarrow> nat \<Rightarrow> tool_memory" where
  "tool_memory_new n c = tool_memory_zero\<lparr>tm_max_entries := n, tm_max_bytes := c\<rparr>"

text \<open>The texts that the lookups of a run return, and the memory after it; \<open>None\<close> is a run that does not return.\<close>

fun tool_memory_run :: "tool_op list \<Rightarrow> tool_memory \<Rightarrow> (bytes option list \<times> tool_memory) option" where
  "tool_memory_run [] m = Some ([], m)"
| "tool_memory_run (Put k t src # ops) m =
     (case tool_memory_put_locked m k t src of None \<Rightarrow> None | Some m \<Rightarrow> tool_memory_run ops m)"
| "tool_memory_run (Lookup k # ops) m =
     (case tool_memory_lookup_locked m k of
        (r, m) \<Rightarrow> map_option (\<lambda>(rs, m). (map_option fst r # rs, m)) (tool_memory_run ops m))"

fun lru_run :: "int \<Rightarrow> nat \<Rightarrow> tool_op list \<Rightarrow> (bytes \<times> bytes) list \<Rightarrow> bytes option list \<times> (bytes \<times> bytes) list" where
  "lru_run n c [] l = ([], l)"
| "lru_run n c (Put (Some k) (Some t) src # ops) l = lru_run n c ops (lru_put n c k t l)"
| "lru_run n c (Put None t src # ops) l = lru_run n c ops l"
| "lru_run n c (Put (Some k) None src # ops) l = lru_run n c ops l"
| "lru_run n c (Lookup None # ops) l = apfst (Cons None) (lru_run n c ops l)"
| "lru_run n c (Lookup (Some k) # ops) l =
     (if k = [] then apfst (Cons None) (lru_run n c ops l)
      else apfst (Cons (map_of l k)) (lru_run n c ops (lru_use k l)))"

inductive tool_memory_reach :: "int \<Rightarrow> nat \<Rightarrow> tool_memory \<Rightarrow> bool" for n c where
  new: "tool_memory_reach n c (tool_memory_new n c)"
| put: "tool_memory_reach n c m \<Longrightarrow> tool_memory_put_locked m k t src = Some m' \<Longrightarrow> tool_memory_reach n c m'"
| lookup: "tool_memory_reach n c m \<Longrightarrow> tool_memory_reach n c (snd (tool_memory_lookup_locked m k))"

lemma new_ok: "memory_ok (tool_memory_new n c) []"
  by (auto simp: tool_memory_new_def tool_memory_zero_def memory_ok_def list_ok_def index_ok_def entries_ok_def
      blocks_ok_def keys_def)

lemma limits_pos: "fst (limits m) > 0" "snd (limits m) > 0"
  by (simp_all add: limits_def tool_memory_max_entries_def tool_memory_max_bytes_def
      Q36_TOOL_MEMORY_DEFAULT_MAX_IDS_def Q36_TOOL_MEMORY_MAX_BYTES_def)

lemma put_none: "k = None \<or> t = None \<Longrightarrow> tool_memory_put_locked m k t src = Some m"
  by (auto simp: tool_memory_put_locked_def split: option.split)

lemma lookup_none: "tool_memory_lookup_locked m None = (None, m)"
  by (simp add: tool_memory_lookup_locked_def tool_memory_find_entry_locked_def)

definition within :: "tool_memory \<Rightarrow> (bytes \<times> bytes) list \<Rightarrow> bool" where
  "within m l \<longleftrightarrow> int (length l) \<le> fst (limits m) \<and> lru_cost l \<le> snd (limits m)"

lemma front_cost:
  assumes "map_of l k = Some t"
  shows "length (lru_front k t l) \<le> length l \<and> lru_cost (lru_front k t l) \<le> lru_cost l"
proof -
  obtain ys zs where l: "l = ys @ (k, t) # zs" using map_of_SomeD [OF assms] by (meson split_list)
  let ?e = "\<lambda>p. length (fst p) + 1 + sizeof_entry" and ?f = "filter (\<lambda>p. fst p \<noteq> k)"
  have f: "sum_list (map ?e (?f ys)) \<le> sum_list (map ?e ys)" for ys :: "(bytes \<times> bytes) list" by (induction ys) auto
  have "set (map snd (lru_front k t l)) \<subseteq> set (map snd l)" unfolding l lru_front_def by auto
  then have "sum_list (map (\<lambda>t. length t + 1 + sizeof_block) (remdups (map snd (lru_front k t l)))) \<le>
      sum_list (map (\<lambda>t. length t + 1 + sizeof_block) (remdups (map snd l)))"
    by (simp only: sum_list_distinct_conv_sum_set distinct_remdups set_remdups) (rule sum_mono2, simp_all)
  moreover have "sum_list (map ?e (lru_front k t l)) \<le> sum_list (map ?e l)"
    using f [of ys] f [of zs] by (simp add: l lru_front_def)
  moreover have "length (lru_front k t l) \<le> length l"
    by (simp add: l lru_front_def) (intro add_mono length_filter_le)
  ultimately show ?thesis by (simp add: lru_cost_def)
qed

lemma put_within:
  assumes h: "holds m l" "within m l" and p: "tool_memory_put_locked m k t src = Some m'"
  shows "\<exists>l'. holds m' l' \<and> within m' l' \<and> limits m' = limits m"
proof (cases "\<exists>k' t'. k = Some k' \<and> t = Some t'")
  case True
  then obtain k' t' where kt: "k = Some k'" "t = Some t'" by blast
  have s: "steps_to m m' (lru_put (fst (limits m)) (snd (limits m)) k' t' l)"
    using put_refines [OF h(1), of k' t' src] p kt by simp
  moreover have "within m (lru_put (fst (limits m)) (snd (limits m)) k' t' l)"
    using h(2) lru_trim_within [of "fst (limits m)" "snd (limits m)"] limits_pos(1) [of m] by (simp add: within_def lru_put_def)
  ultimately show ?thesis unfolding steps_to_def within_def by (metis (no_types))
next
  case False
  then have "k = None \<or> t = None" by (metis option.exhaust)
  then show ?thesis using put_none [of k t m src] p h by auto
qed

lemma lookup_within:
  assumes h: "holds m l" "within m l"
  shows "\<exists>l'. holds (snd (tool_memory_lookup_locked m k)) l' \<and> within (snd (tool_memory_lookup_locked m k)) l' \<and>
    limits (snd (tool_memory_lookup_locked m k)) = limits m"
proof (cases k)
  case (Some k')
  have s: "steps_to m (snd (tool_memory_lookup_locked m k)) (if k' = [] then l else lru_use k' l)"
    using lookup_refines [OF h(1), of k'] Some by simp
  have "within m (if k' = [] then l else lru_use k' l)"
    using h(2) front_cost [of l k'] by (auto simp: within_def lru_use_def split: option.split)
  then show ?thesis using s unfolding steps_to_def within_def by (metis (no_types))
qed (use h lookup_none in auto)

lemma reach_holds: "tool_memory_reach n c m \<Longrightarrow> \<exists>l. holds m l \<and> within m l \<and> limits m = limits (tool_memory_new n c)"
proof (induction rule: tool_memory_reach.induct)
  case new
  have "holds (tool_memory_new n c) []" using new_ok unfolding holds_def by fastforce
  then show ?case using limits_pos [of "tool_memory_new n c"] by (fastforce simp: within_def lru_cost_def)
next
  case (put m k t src m')
  then show ?case by (metis put_within)
next
  case (lookup m k)
  then show ?case by (metis lookup_within)
qed

lemma run_refines:
  assumes "holds m l" "limits m = (n, c)"
  shows "\<exists>m'. tool_memory_run ops m = Some (fst (lru_run n c ops l), m') \<and> holds m' (snd (lru_run n c ops l))"
  using assms
proof (induction ops arbitrary: m l)
  case (Cons op ops)
  show ?case
  proof (cases op)
    case (Put k t src)
    show ?thesis
    proof (cases "k = None \<or> t = None")
      case True
      then show ?thesis
        using Cons.IH [OF Cons.prems] put_none [of k t m src] Put by (cases k; cases t) auto
    next
      case False
      then obtain k' t' where kt: "k = Some k'" "t = Some t'" by (cases k; cases t) auto
      obtain m' where m': "tool_memory_put_locked m k t src = Some m'" "holds m' (lru_put n c k' t' l)" "limits m' = (n, c)"
        using put_refines [OF Cons.prems(1), of k' t' src] Cons.prems(2) kt by (auto simp: steps_to_def)
      show ?thesis using Cons.IH [OF m'(2,3)] m'(1) Put kt by simp
    qed
  next
    case (Lookup k)
    show ?thesis
    proof (cases k)
      case None
      then show ?thesis using Cons.IH [OF Cons.prems] lookup_none [of m] Lookup by (auto simp: apfst_def map_prod_def split: prod.split)
    next
      case (Some k')
      obtain r m' where lk: "tool_memory_lookup_locked m k = (r, m')" by fastforce
      have s: "map_option fst r = (if k' = [] then None else map_of l k')"
        "holds m' (if k' = [] then l else lru_use k' l)" "limits m' = (n, c)"
        using lookup_refines [OF Cons.prems(1), of k'] Cons.prems(2) lk Some by (simp_all add: steps_to_def)
      show ?thesis using Cons.IH [OF s(2,3)] s(1) lk Some Lookup by (auto simp: apfst_def map_prod_def split: if_splits prod.splits)
    qed
  qed
qed (use assms in auto)

text \<open>
  C24. For every sequence of puts and lookups, with any limits, the linked and shared structure with its two
  trees answers every lookup as the list of pairs ordered by use does, and ends in a state that holds the
  list's pairs: the eviction loop of every put ends, it drops the least recently used ids first, and a
  text shared by several ids is counted once.
\<close>

theorem tool_memory_refines_lru:
  "\<exists>m'. tool_memory_run ops (tool_memory_new n c) =
      Some (fst (lru_run (tool_memory_max_entries (tool_memory_new n c)) (tool_memory_max_bytes (tool_memory_new n c)) ops []), m') \<and>
    holds m' (snd (lru_run (tool_memory_max_entries (tool_memory_new n c)) (tool_memory_max_bytes (tool_memory_new n c)) ops []))"
proof -
  have "holds (tool_memory_new n c) []" using new_ok unfolding holds_def by fastforce
  then show ?thesis by (rule run_refines) (simp add: limits_def)
qed

text \<open>
  C25. In every state that puts and lookups reach, a put returns, whatever its id, text and source, and so
  does the loop that frees the memory: neither goes on for ever on the list of entries, and freeing leaves
  the zeroed structure.
\<close>

theorem tool_memory_put_terminates:
  assumes "tool_memory_reach n c m"
  shows "tool_memory_put_locked m k t src \<noteq> None \<and> tool_memory_free m = Some tool_memory_zero"
proof -
  obtain l where l: "holds m l" using reach_holds [OF assms] by blast
  have "tool_memory_put_locked m (Some k') (Some t') src \<noteq> None" for k' t'
    using put_refines [OF l, of k' t' src] by auto
  then have "tool_memory_put_locked m k t src \<noteq> None"
    using put_none [of k t m src] by (cases k; cases t) auto
  then show ?thesis using l drain_free by (auto simp: holds_def)
qed

theorem tool_memory_put_terminates_witness:
  "\<exists>m. tool_memory_put_locked (tool_memory_new 1 0) (Some [97]) (Some [60]) TOOL_MEMORY_RAM = Some m \<and>
    tool_memory_put_locked m (Some [98]) (Some [62]) TOOL_MEMORY_DISK \<noteq> None \<and> tool_memory_free m = Some tool_memory_zero"
proof -
  have r: "tool_memory_reach 1 0 (tool_memory_new 1 0)" by (rule tool_memory_reach.new)
  obtain m where m: "tool_memory_put_locked (tool_memory_new 1 0) (Some [97]) (Some [60]) TOOL_MEMORY_RAM = Some m"
    using tool_memory_put_terminates [OF r] by blast
  show ?thesis using m tool_memory_put_terminates [OF tool_memory_reach.put [OF r m]] by blast
qed

text \<open>
  In every state that puts and lookups reach, the number of ids and the bytes are within the limits, the
  links form a doubly linked list of the live entries, each id and each text is in its tree exactly once,
  the reference count of a block is the number of its entries, and the byte count is that of the live
  entries and blocks.
\<close>

theorem tool_memory_reach_ok:
  assumes "tool_memory_reach n c m"
  shows "tm_entries m \<le> tool_memory_max_entries m \<and> tm_bytes m \<le> tool_memory_max_bytes m \<and> (\<exists>xs. memory_ok m xs)"
proof -
  obtain l where l: "holds m l" "within m l" using reach_holds [OF assms] by blast
  then obtain xs where "memory_ok m xs" "l = map (pair_at m) xs" by (auto simp: holds_def)
  then show ?thesis using l(2) holds_length holds_bytes by (auto simp: within_def limits_def)
qed

theorem tool_memory_reach_ok_witness:
  "\<exists>m. tool_memory_put_locked (tool_memory_new 1 0) (Some [97]) (Some [60]) TOOL_MEMORY_RAM = Some m \<and> tm_entries m \<le> 1"
proof -
  have r: "tool_memory_reach 1 0 (tool_memory_new 1 0)" by (rule tool_memory_reach.new)
  obtain l where l: "holds (tool_memory_new 1 0) l" using reach_holds [OF r] by blast
  obtain m where m: "tool_memory_put_locked (tool_memory_new 1 0) (Some [97]) (Some [60]) TOOL_MEMORY_RAM = Some m"
    "limits m = limits (tool_memory_new 1 0)"
    using put_refines [OF l, of "[97]" "[60]" TOOL_MEMORY_RAM] by (auto simp: steps_to_def)
  have "tool_memory_max_entries m = 1" using m(2) by (simp add: limits_def tool_memory_new_def tool_memory_max_entries_def)
  then show ?thesis using m(1) tool_memory_reach_ok [OF tool_memory_reach.put [OF r m(1)]] by auto
qed

text \<open>
  A text put under an id in a reachable state is what the next lookup of that id returns, byte for byte,
  whatever was evicted to make room, as long as the id and the text on their own are within the byte limit.
\<close>

theorem tool_memory_put_lookup:
  assumes "tool_memory_reach n c m" "k \<noteq> []" "t \<noteq> []"
    and "length k + length t + 2 + sizeof_entry + sizeof_block \<le> tool_memory_max_bytes m"
  shows "\<exists>m'. tool_memory_put_locked m (Some k) (Some t) src = Some m' \<and>
    map_option fst (fst (tool_memory_lookup_locked m' (Some k))) = Some t"
proof -
  obtain l where l: "holds m l" using reach_holds [OF assms(1)] by blast
  obtain m' where m': "tool_memory_put_locked m (Some k) (Some t) src = Some m'"
    "holds m' (lru_put (fst (limits m)) (snd (limits m)) k t l)"
    using put_refines [OF l, of k t src] by (auto simp: steps_to_def)
  have "1 \<le> fst (limits m)" "lru_cost [(k, t)] \<le> snd (limits m)"
    using limits_pos [of m] assms(4) by (simp_all add: lru_cost_def limits_def)
  then obtain ys where "lru_put (fst (limits m)) (snd (limits m)) k t l = (k, t) # ys"
    using lru_trim_head [of "fst (limits m)" "(k, t)" "snd (limits m)"] assms(2,3) by (auto simp: lru_put_def lru_front_def)
  then show ?thesis using m' lookup_refines [OF m'(2), of k] assms(2) by (intro exI [of _ m']) simp
qed

theorem tool_memory_put_lookup_witness:
  "\<exists>m. tool_memory_put_locked (tool_memory_new 1 200) (Some [97]) (Some [60, 62]) TOOL_MEMORY_RAM = Some m \<and>
    map_option fst (fst (tool_memory_lookup_locked m (Some [97]))) = Some [60, 62]"
  by (rule tool_memory_put_lookup [OF tool_memory_reach.new])
    (simp_all add: tool_memory_new_def tool_memory_max_bytes_def sizeof_entry_def sizeof_block_def)

end
