(* ===== verification/Tool_Map.thy ===== *)
theory Tool_Map
  imports Tool_Memory_Spec Codec
begin

text \<open>
  What \<^verbatim>\<open>q36_server.c\<close> does with the tool text memory: remembering the calls of a generated message,
  attaching the exact text to the calls that a client sends back, choosing new ids, and the map of ids and
  texts that a KV checkpoint file carries behind its payload (\<^verbatim>\<open>kv_tool_map_write\<close>,
  \<^verbatim>\<open>kv_tool_map_load_from_pos\<close>).

  The server's part of the state is the memory and the flag \<^verbatim>\<open>disable_exact_tool_replay\<close>, the first
  argument.  An output file takes \<open>room\<close> more bytes: a write beyond that is short.
\<close>

section \<open>Remembering\<close>

definition tool_memory_has_id :: "bool \<Rightarrow> tool_memory \<Rightarrow> bytes option \<Rightarrow> bool" where
  "tool_memory_has_id disabled m tid \<longleftrightarrow>
     \<not> disabled \<and> tid \<noteq> None \<and> tid \<noteq> Some [] \<and> tool_memory_find_entry_locked m tid \<noteq> None"

fun remember_calls :: "tool_memory \<Rightarrow> bytes \<Rightarrow> bool \<Rightarrow> tool_call list \<Rightarrow> tool_memory option" where
  "remember_calls m raw empty_think [] = Some m"
| "remember_calls m raw empty_think (c # cs) =
     (case tool_memory_put_locked m (tc_id c) (Some raw) TOOL_MEMORY_RAM of
        None \<Rightarrow> None
      | Some m \<Rightarrow>
          let m = (case tool_memory_find_entry_locked m (tc_id c) of
                     Some e \<Rightarrow> upd_ent e (\<lambda>x. x\<lparr>te_empty_think := empty_think\<rparr>) m
                   | None \<Rightarrow> m)
          in remember_calls m raw empty_think cs)"

definition tool_memory_remember :: "bool \<Rightarrow> tool_memory \<Rightarrow> tool_calls \<Rightarrow> tool_memory option" where
  "tool_memory_remember disabled m calls =
     (if disabled then Some m
      else case raw_tool_text calls of
             Some (x # raw) \<Rightarrow> remember_calls m (x # raw) (replay_empty_think calls) (calls_v calls)
           | _ \<Rightarrow> Some m)"

definition qwen_tool_text_valid :: "bytes \<Rightarrow> bool" where
  "qwen_tool_text_valid t =
     (case parse_generated_message_ex (Some t) False [] of
        Some (_, _, calls) \<Rightarrow> calls_v calls \<noteq> []
      | None \<Rightarrow> False)"

definition tool_memory_put_source ::
    "bool \<Rightarrow> tool_memory \<Rightarrow> bytes option \<Rightarrow> bytes option \<Rightarrow> tool_memory_source \<Rightarrow> tool_memory option" where
  "tool_memory_put_source disabled m tid tool_text source =
     (if disabled \<or> tid = None \<or> tid = Some [] \<or> tool_text = None \<or> tool_text = Some [] \<or>
         \<not> qwen_tool_text_valid (the tool_text) then Some m
      else tool_memory_put_locked m tid tool_text source)"

section \<open>Attaching to the messages of a request\<close>

record tool_replay_stats =
  rs_mem :: int
  rs_disk :: int
  rs_canonical :: int
  rs_missing_ids :: int

record attach_state =
  at_matched :: "addr option"
  at_source :: tool_memory_source
  at_exact :: bool
  at_empty_think :: bool
  at_missing :: int

definition attach_step :: "attach_state \<Rightarrow> bool \<Rightarrow> (bytes \<times> tool_memory_source \<times> addr) option \<Rightarrow> attach_state" where
  "attach_step s et r =
     (let s = s\<lparr>at_empty_think := at_empty_think s \<and> et\<rparr>
      in case r of
           None \<Rightarrow> s\<lparr>at_exact := False, at_missing := at_missing s + 1\<rparr>
         | Some (_, source, block) \<Rightarrow>
             let s = (case at_matched s of
                        None \<Rightarrow> s\<lparr>at_matched := Some block, at_source := source\<rparr>
                      | Some b \<Rightarrow> if b \<noteq> block then s\<lparr>at_exact := False\<rparr> else s)
             in if source = TOOL_MEMORY_RAM then s\<lparr>at_source := TOOL_MEMORY_RAM\<rparr> else s)"

fun attach_calls :: "tool_memory \<Rightarrow> tool_call list \<Rightarrow> attach_state \<Rightarrow> attach_state \<times> tool_memory" where
  "attach_calls m [] s = (s, m)"
| "attach_calls m (c # cs) s =
     (let et = (case tool_memory_find_entry_locked m (tc_id c) of
                  Some e \<Rightarrow> (case tm_ent m e of Some x \<Rightarrow> te_empty_think x | None \<Rightarrow> False)
                | None \<Rightarrow> False)
      in case tool_memory_lookup_locked m (tc_id c) of (r, m) \<Rightarrow> attach_calls m cs (attach_step s et r))"

definition attach_message :: "tool_memory \<Rightarrow> tool_calls \<Rightarrow> tool_replay_stats \<Rightarrow> tool_calls \<times> tool_memory \<times> tool_replay_stats" where
  "attach_message m calls stats =
     (if calls_v calls = [] \<or> raw_tool_text calls \<noteq> None then (calls, m, stats)
      else
        (case attach_calls m (calls_v calls)
               \<lparr>at_matched = None, at_source = TOOL_MEMORY_DISK, at_exact = True, at_empty_think = True, at_missing = 0\<rparr> of
           (s, m) \<Rightarrow>
             (case (at_exact s, at_matched s) of
                (True, Some b) \<Rightarrow>
                  (calls\<lparr>raw_tool_text := map_option tb_text (tm_blk m b), replay_empty_think := at_empty_think s\<rparr>, m,
                   if at_source s = TOOL_MEMORY_RAM then stats\<lparr>rs_mem := rs_mem stats + 1\<rparr>
                   else stats\<lparr>rs_disk := rs_disk stats + 1\<rparr>)
              | _ \<Rightarrow>
                  (calls, m, stats\<lparr>rs_canonical := rs_canonical stats + 1, rs_missing_ids := rs_missing_ids stats + at_missing s\<rparr>))))"

text \<open>The messages of a request are known here by their calls.\<close>

fun attach_messages :: "tool_memory \<Rightarrow> tool_calls list \<Rightarrow> tool_replay_stats \<Rightarrow> tool_calls list \<times> tool_memory \<times> tool_replay_stats" where
  "attach_messages m [] stats = ([], m, stats)"
| "attach_messages m (c # cs) stats =
     (case attach_message m c stats of
        (c', m, stats) \<Rightarrow> (case attach_messages m cs stats of (cs', m, stats) \<Rightarrow> (c' # cs', m, stats)))"

definition count_canonical :: "tool_calls \<Rightarrow> tool_replay_stats \<Rightarrow> tool_replay_stats" where
  "count_canonical calls stats =
     (if calls_v calls = [] \<or> raw_tool_text calls \<noteq> None then stats
      else stats\<lparr>rs_canonical := rs_canonical stats + 1,
                 rs_missing_ids := rs_missing_ids stats + int (length (calls_v calls))\<rparr>)"

definition tool_memory_attach_to_messages ::
    "bool \<Rightarrow> tool_memory \<Rightarrow> tool_calls list \<Rightarrow> tool_replay_stats \<Rightarrow> tool_calls list \<times> tool_memory \<times> tool_replay_stats" where
  "tool_memory_attach_to_messages disabled m msgs stats =
     (if disabled then (msgs, m, fold count_canonical msgs stats) else attach_messages m msgs stats)"

section \<open>New ids\<close>

definition tool_calls_contains_id :: "tool_call list \<Rightarrow> bytes \<Rightarrow> nat \<Rightarrow> bool" where
  "tool_calls_contains_id calls tid lim \<longleftrightarrow> tid \<noteq> [] \<and> (\<exists>c\<in>set (take lim calls). tc_id c = Some tid)"

definition tool_id_prefix :: "bool \<Rightarrow> bytes" where
  "tool_id_prefix anthropic = (if anthropic then str ''toolu_'' else str ''call_'')"

definition id_hex_digit :: "u8 \<Rightarrow> u8" where
  "id_hex_digit v = str ''0123456789abcdef'' ! unat v"

text \<open>An id from 16 random bytes; its 64 bytes of space hold it whole.\<close>

definition random_tool_id :: "bool \<Rightarrow> bytes \<Rightarrow> bytes" where
  "random_tool_id anthropic rnd =
     tool_id_prefix anthropic @ concat (map (\<lambda>b. [id_hex_digit (drop_bit 4 b), id_hex_digit (b AND 15)]) rnd)"

text \<open>The loop draws until an id is new; \<open>None\<close> is a source that ends first.\<close>

fun draw_tool_id :: "(bytes \<Rightarrow> bool) \<Rightarrow> bool \<Rightarrow> bytes list \<Rightarrow> (bytes \<times> bytes list) option" where
  "draw_tool_id used anthropic [] = None"
| "draw_tool_id used anthropic (r # rs) =
     (let tid = random_tool_id anthropic r
      in if \<not> used tid then Some (tid, rs) else draw_tool_id used anthropic rs)"

text \<open>\<open>done\<close> are the calls in front of the loop's index.\<close>

fun assign_ids :: "bool \<Rightarrow> tool_memory \<Rightarrow> bool \<Rightarrow> tool_call list \<Rightarrow> tool_call list \<Rightarrow> bytes list \<Rightarrow> (tool_call list \<times> bytes list) option" where
  "assign_ids disabled m anthropic dn [] rs = Some (dn, rs)"
| "assign_ids disabled m anthropic dn (c # cs) rs =
     (if tc_id c \<noteq> None \<and> tc_id c \<noteq> Some [] then assign_ids disabled m anthropic (dn @ [c]) cs rs
      else
        (case draw_tool_id (\<lambda>tid. tool_calls_contains_id (dn @ c # cs) tid (length dn) \<or>
                               tool_memory_has_id disabled m (Some tid)) anthropic rs of
           None \<Rightarrow> None
         | Some (tid, rs) \<Rightarrow> assign_ids disabled m anthropic (dn @ [c\<lparr>tc_id := Some tid\<rparr>]) cs rs))"

definition assign_tool_call_ids :: "bool \<Rightarrow> tool_memory \<Rightarrow> tool_calls \<Rightarrow> bool \<Rightarrow> bytes list \<Rightarrow> (tool_calls \<times> bytes list) option" where
  "assign_tool_call_ids disabled m calls anthropic rs =
     map_option (\<lambda>(v, rs). (calls\<lparr>calls_v := v\<rparr>, rs)) (assign_ids disabled m anthropic [] (calls_v calls) rs)"

text \<open>Ids that the live stream has sent already are kept.\<close>

definition apply_openai_stream_tool_ids :: "tool_calls \<Rightarrow> bytes option list \<Rightarrow> tool_calls" where
  "apply_openai_stream_tool_ids calls ids =
     calls\<lparr>calls_v := map (\<lambda>i. let c = calls_v calls ! i
        in if i < length ids \<and> (tc_id c = None \<or> tc_id c = Some []) \<and> ids ! i \<noteq> None \<and> ids ! i \<noteq> Some []
           then c\<lparr>tc_id := ids ! i\<rparr> else c) [0..<length (calls_v calls)]\<rparr>"

section \<open>The ids of a request\<close>

definition collect_tool_call_ids :: "tool_calls list \<Rightarrow> bytes set" where
  "collect_tool_call_ids msgs =
     fold (\<lambda>calls ids. fold (\<lambda>c ids. case tc_id c of Some (x # k) \<Rightarrow> insert (x # k) ids | _ \<Rightarrow> ids) (calls_v calls) ids) msgs {}"

definition id_set_contains :: "bytes set \<Rightarrow> bytes \<Rightarrow> bool" where
  "id_set_contains ids tid \<longleftrightarrow> tid \<noteq> [] \<and> tid \<in> ids"

section \<open>Blocks in a text\<close>

text \<open>The offsets of the first block, its newlines in front of it included, and of its end.\<close>

definition find_next_tool_block :: "bytes \<Rightarrow> (nat \<times> nat) option" where
  "find_next_tool_block p =
     (case strstr p Q36_TOOL_CALLS_START of
        None \<Rightarrow> None
      | Some n \<Rightarrow>
          (case strstr (drop n p) Q36_TOOL_CALLS_END of
             None \<Rightarrow> None
           | Some k \<Rightarrow>
               Some (n - length (takeWhile (\<lambda>c. c = 10 \<or> c = 13) (rev (take n p))), n + k + length Q36_TOOL_CALLS_END)))"

lemma find_next_tool_block_end: "find_next_tool_block p = Some (a, e) \<Longrightarrow> 0 < e \<and> p \<noteq> []"
  by (cases p) (auto simp: find_next_tool_block_def tag_lits split: option.splits)

function tool_blocks :: "bytes \<Rightarrow> bytes list" where
  "tool_blocks p =
     (case find_next_tool_block p of
        None \<Rightarrow> []
      | Some (a, e) \<Rightarrow> take (e - a) (drop a p) # tool_blocks (drop e p))"
  by pat_completeness auto
termination
  by (relation "measure length") (auto dest!: find_next_tool_block_end)

declare tool_blocks.simps [simp del]

definition tool_memory_count_blocks_in_text :: "bool \<Rightarrow> tool_memory \<Rightarrow> bytes \<Rightarrow> int" where
  "tool_memory_count_blocks_in_text disabled m t =
     (if disabled \<or> t = [] then 0
      else sum_list (map (\<lambda>x. case tool_memory_find_block_locked m x of
             Some b \<Rightarrow> (case tm_blk m b of Some y \<Rightarrow> tb_refs y | None \<Rightarrow> 0) | None \<Rightarrow> 0) (tool_blocks t)))"

section \<open>Writing the map\<close>

definition KV_TOOL_MAP_HEADER :: nat where "KV_TOOL_MAP_HEADER = 8"
definition KV_TOOL_MAP_MAGIC :: bytes where "KV_TOOL_MAP_MAGIC = str ''KTM'' @ [1]"

text \<open>The entries of a block that this scan has not seen: their ids with the block's text.\<close>

definition scan_block :: "u64 \<Rightarrow> bytes \<Rightarrow> tool_memory \<Rightarrow> (bytes \<times> bytes) list \<times> tool_memory" where
  "scan_block scan t m =
     (case tool_memory_find_block_locked m t of
        None \<Rightarrow> ([], m)
      | Some b \<Rightarrow>
          (case tm_blk m b of
             None \<Rightarrow> ([], m)
           | Some x \<Rightarrow>
               if tb_seen x = scan then ([], m)
               else
                 (filter (\<lambda>p. length (fst p) < 2 ^ 32 \<and> length (snd p) < 2 ^ 32)
                    (map (\<lambda>e. (te_id (the (tm_ent m e)), tb_text x)) (tb_entries x)),
                  upd_blk b (\<lambda>x. x\<lparr>tb_seen := scan\<rparr>) m)))"

definition item_size :: "bytes \<times> bytes \<Rightarrow> u64" where
  "item_size p = 8 + word_of_nat (length (fst p)) + word_of_nat (length (snd p))"

fun map_count :: "u64 \<Rightarrow> bytes list \<Rightarrow> u32 \<Rightarrow> u64 \<Rightarrow> tool_memory \<Rightarrow> u32 \<times> u64 \<times> tool_memory" where
  "map_count scan [] n by m = (n, by, m)"
| "map_count scan (t # ts) n by m =
     (case scan_block scan t m of
        (ps, m) \<Rightarrow> map_count scan ts (n + word_of_nat (length ps)) (by + sum_list (map item_size ps)) m)"

type_synonym out_file = "nat \<times> bytes"

definition fwrite :: "bytes \<Rightarrow> out_file \<Rightarrow> bool \<times> out_file" where
  "fwrite bs fp = (case fp of (room, dat) \<Rightarrow> (length bs \<le> room, room - length bs, dat @ take room bs))"

fun fwrite_all :: "bytes list \<Rightarrow> out_file \<Rightarrow> bool \<times> out_file" where
  "fwrite_all [] fp = (True, fp)"
| "fwrite_all (b # bs) fp = (case fwrite b fp of (ok, fp) \<Rightarrow> if ok then fwrite_all bs fp else (False, fp))"

definition item_fields :: "bytes \<times> bytes \<Rightarrow> bytes list" where
  "item_fields p = [le_put32 (word_of_nat (length (fst p))) @ le_put32 (word_of_nat (length (snd p))), fst p, snd p]"

fun write_items :: "(bytes \<times> bytes) list \<Rightarrow> out_file \<Rightarrow> bool \<times> out_file" where
  "write_items [] fp = (True, fp)"
| "write_items (p # ps) fp =
     (case fwrite_all (item_fields p) fp of (ok, fp) \<Rightarrow> if ok then write_items ps fp else (False, fp))"

fun map_emit :: "u64 \<Rightarrow> bytes list \<Rightarrow> bool \<Rightarrow> out_file \<Rightarrow> tool_memory \<Rightarrow> bool \<times> out_file \<times> tool_memory" where
  "map_emit scan [] ok fp m = (ok, fp, m)"
| "map_emit scan (t # ts) ok fp m =
     (if \<not> ok then (ok, fp, m)
      else
        (case scan_block scan t m of
           (ps, m) \<Rightarrow> (case write_items ps fp of (ok, fp) \<Rightarrow> map_emit scan ts ok fp m)))"

text \<open>Its answer, the bytes it reports, the file and the memory.\<close>

definition kv_tool_map_write ::
    "bool \<Rightarrow> tool_memory \<Rightarrow> bytes \<Rightarrow> out_file \<Rightarrow> bool \<times> u64 \<times> out_file \<times> tool_memory" where
  "kv_tool_map_write disabled m t fp =
     (if disabled \<or> t = [] then (True, 0, fp, m)
      else
        (let m = m\<lparr>tm_scan_clock := tm_scan_clock m + 1\<rparr>
         in case map_count (tm_scan_clock m) (tool_blocks t) 0 (word_of_nat KV_TOOL_MAP_HEADER) m of
              (n, by, m) \<Rightarrow>
                if n = 0 then (True, 0, fp, m)
                else
                  (case fwrite (KV_TOOL_MAP_MAGIC @ le_put32 n) fp of
                     (ok, fp) \<Rightarrow>
                       let m = m\<lparr>tm_scan_clock := tm_scan_clock m + 1\<rparr>
                       in case map_emit (tm_scan_clock m) (tool_blocks t) ok fp m of
                            (ok, fp, m) \<Rightarrow> (ok, if ok then by else 0, fp, m))))"

section \<open>Reading the map\<close>

fun load_items :: "bool \<Rightarrow> bytes set option \<Rightarrow> nat \<Rightarrow> int \<Rightarrow> tool_memory \<Rightarrow> bytes \<Rightarrow> (int \<times> tool_memory) option" where
  "load_items disabled wanted 0 loaded m inp = Some (loaded, m)"
| "load_items disabled wanted (Suc n) loaded m inp =
     (let id_len = unat (le_get32 (take 4 inp)); text_len = unat (le_get32 (take 4 (drop 4 inp)))
      in if length inp < 8 then Some (loaded, m)
         else if id_len = 0 \<or> id_len > 256 \<or> text_len = 0 \<or> text_len > Q36_TOOL_MEMORY_MAX_BYTES then Some (loaded, m)
         else
           (let inp = drop 8 inp; ok = id_len + text_len \<le> length inp;
                tid = c_str (take id_len inp); t = c_str (take text_len (drop id_len inp))
            in if \<not> ok then Some (loaded, m)
               else if wanted = None \<or> id_set_contains (the wanted) tid
               then (case tool_memory_put_source disabled m (Some tid) (Some t) TOOL_MEMORY_DISK of
                       None \<Rightarrow> None
                     | Some m \<Rightarrow> load_items disabled wanted n (loaded + 1) m (drop (id_len + text_len) inp))
               else load_items disabled wanted n loaded m (drop (id_len + text_len) inp)))"

definition kv_tool_map_load_from_pos :: "bool \<Rightarrow> tool_memory \<Rightarrow> bytes set option \<Rightarrow> bytes \<Rightarrow> (int \<times> tool_memory) option" where
  "kv_tool_map_load_from_pos disabled m wanted inp =
     (if disabled \<or> length inp < KV_TOOL_MAP_HEADER \<or> take 4 inp \<noteq> KV_TOOL_MAP_MAGIC then Some (0, m)
      else
        (let count = unat (le_get32 (take 4 (drop 4 inp)))
         in if int count > tool_memory_max_entries m * 4 then Some (0, m)
            else load_items disabled wanted count 0 m (drop 8 inp)))"

end
