(* ===== verification/Tool_Map_Props.thy ===== *)
theory Tool_Map_Props
  imports Tool_Map
begin

text \<open>
  The map of ids and texts in a checkpoint file: what is written is read back, and the calls of a client
  get the exact text they were generated with.
\<close>

section \<open>The records of the map\<close>

definition item_ok :: "bytes \<times> bytes \<Rightarrow> bool" where
  "item_ok p \<longleftrightarrow> fst p \<noteq> [] \<and> length (fst p) \<le> 256 \<and> 0 \<notin> set (fst p) \<and>
     snd p \<noteq> [] \<and> length (snd p) \<le> Q36_TOOL_MEMORY_MAX_BYTES \<and> 0 \<notin> set (snd p)"

fun put_all :: "(bytes \<times> bytes) list \<Rightarrow> tool_memory \<Rightarrow> tool_memory option" where
  "put_all [] m = Some m"
| "put_all (p # ps) m =
     (case tool_memory_put_source False m (Some (fst p)) (Some (snd p)) TOOL_MEMORY_DISK of
        None \<Rightarrow> None | Some m \<Rightarrow> put_all ps m)"

definition items_bytes :: "(bytes \<times> bytes) list \<Rightarrow> bytes" where
  "items_bytes ps = concat (map (\<lambda>p. concat (item_fields p)) ps)"

lemma items_bytes_simps [simp]:
  "items_bytes [] = []" "items_bytes (p # ps) = concat (item_fields p) @ items_bytes ps"
  "items_bytes (ps @ qs) = items_bytes ps @ items_bytes qs"
  by (simp_all add: items_bytes_def)

lemma unat_len: "n < 2 ^ 32 \<Longrightarrow> unat (word_of_nat n :: u32) = n"
  by (rule unat_word_of_nat_small) simp

lemma load_items_read:
  assumes "\<forall>p\<in>set ps. item_ok p"
  shows "load_items False None (length ps) n m (items_bytes ps @ rest) =
    map_option (\<lambda>m'. (n + int (length ps), m')) (put_all ps m)"
  using assms
proof (induction ps arbitrary: n m)
  case (Cons p ps)
  obtain k t where p: "p = (k, t)" by fastforce
  have ok: "k \<noteq> []" "length k \<le> 256" "0 \<notin> set k" "t \<noteq> []" "length t \<le> Q36_TOOL_MEMORY_MAX_BYTES" "0 \<notin> set t"
    using Cons.prems p by (simp_all add: item_ok_def)
  have l: "unat (word_of_nat (length k) :: u32) = length k" "unat (word_of_nat (length t) :: u32) = length t"
    using ok(2,5) by (auto intro!: unat_len simp: Q36_TOOL_MEMORY_MAX_BYTES_def)
  have e: "items_bytes (p # ps) @ rest =
      le_put32 (word_of_nat (length k)) @ le_put32 (word_of_nat (length t)) @ k @ t @ items_bytes ps @ rest"
    by (simp add: p item_fields_def)
  show ?case
    unfolding e
    using Cons ok l
    by (simp add: p codec_simps Let_def ac_simps split: option.split)
qed simp

section \<open>Writing with room\<close>

lemma fwrite_all_room:
  "length (concat bs) \<le> room \<Longrightarrow> fwrite_all bs (room, dat) = (True, room - length (concat bs), dat @ concat bs)"
  by (induction bs arbitrary: room dat) (auto simp: fwrite_def)

lemma write_items_room:
  "length (items_bytes ps) \<le> room \<Longrightarrow>
    write_items ps (room, dat) = (True, room - length (items_bytes ps), dat @ items_bytes ps)"
  by (induction ps arbitrary: room dat) (simp_all add: fwrite_all_room)

text \<open>The blocks of a scan, one after the other.\<close>

fun scan_blocks :: "u64 \<Rightarrow> bytes list \<Rightarrow> tool_memory \<Rightarrow> (bytes \<times> bytes) list \<times> tool_memory" where
  "scan_blocks scan [] m = ([], m)"
| "scan_blocks scan (t # ts) m =
     (case scan_block scan t m of (ps, m) \<Rightarrow> (case scan_blocks scan ts m of (qs, m) \<Rightarrow> (ps @ qs, m)))"

lemma map_count_scan:
  "map_count scan ts n by m =
    (n + word_of_nat (length (fst (scan_blocks scan ts m))), by + sum_list (map item_size (fst (scan_blocks scan ts m))),
     snd (scan_blocks scan ts m))"
  by (induction ts arbitrary: n "by" m) (auto split: prod.split)

lemma map_emit_scan:
  "length (items_bytes (fst (scan_blocks scan ts m))) \<le> room \<Longrightarrow>
    map_emit scan ts True (room, dat) m =
      (True, (room - length (items_bytes (fst (scan_blocks scan ts m))), dat @ items_bytes (fst (scan_blocks scan ts m))),
       snd (scan_blocks scan ts m))"
proof (induction ts arbitrary: room dat m)
  case (Cons t ts)
  obtain ps m' where s: "scan_block scan t m = (ps, m')" by fastforce
  obtain qs m'' where r: "scan_blocks scan ts m' = (qs, m'')" by fastforce
  have "length (items_bytes ps) \<le> room" "length (items_bytes qs) \<le> room - length (items_bytes ps)"
    using Cons.prems s r by simp_all
  then show ?case using Cons.IH [of m' "room - length (items_bytes ps)"] s r by (simp add: write_items_room)
qed simp

section \<open>What a scan finds\<close>

text \<open>The items of a text without the marks, and of several texts, each once.\<close>

definition unseen :: "tool_memory \<Rightarrow> tool_memory" where
  "unseen m = m\<lparr>tm_blk := \<lambda>b. map_option (\<lambda>x. x\<lparr>tb_seen := 0\<rparr>) (tm_blk m b), tm_scan_clock := 0\<rparr>"

definition block_items :: "tool_memory \<Rightarrow> bytes \<Rightarrow> (bytes \<times> bytes) list" where
  "block_items m t = fst (scan_block 1 t (unseen m))"

lemma block_items_eq:
  "block_items m t =
     (case tool_memory_find_block_locked m t of
        None \<Rightarrow> []
      | Some b \<Rightarrow>
          (case tm_blk m b of
             None \<Rightarrow> []
           | Some x \<Rightarrow> filter (\<lambda>p. length (fst p) < 2 ^ 32 \<and> length (snd p) < 2 ^ 32)
               (map (\<lambda>e. (te_id (the (tm_ent m e)), tb_text x)) (tb_entries x))))"
proof -
  have "tool_memory_find_block_locked (unseen m) t = tool_memory_find_block_locked m t"
    by (simp add: unseen_def tool_memory_find_block_locked_def)
  moreover have "tm_blk (unseen m) = (\<lambda>b. map_option (\<lambda>x. x\<lparr>tb_seen := 0\<rparr>) (tm_blk m b))" "tm_ent (unseen m) = tm_ent m"
    by (simp_all add: unseen_def)
  ultimately show ?thesis by (simp add: block_items_def scan_block_def split: option.split)
qed

fun fresh_items :: "(bytes \<Rightarrow> (bytes \<times> bytes) list) \<Rightarrow> bytes set \<Rightarrow> bytes list \<Rightarrow> (bytes \<times> bytes) list" where
  "fresh_items f S [] = []"
| "fresh_items f S (t # ts) = (if t \<in> S then [] else f t) @ fresh_items f (insert t S) ts"

lemma set_fresh_items: "set (fresh_items f S ts) = (\<Union>t\<in>set ts - S. set (f t))"
  by (induction ts arbitrary: S) auto

definition marked :: "tool_memory \<Rightarrow> u64 \<Rightarrow> bytes set \<Rightarrow> bool" where
  "marked m scan S \<longleftrightarrow>
     (\<forall>t b x. t \<noteq> [] \<longrightarrow> tm_by_block m t = Some b \<longrightarrow> tm_blk m b = Some x \<longrightarrow> tb_text x = t \<and> (tb_seen x = scan \<longleftrightarrow> t \<in> S))"

lemma scan_block_items:
  assumes "marked m scan S"
  shows "fst (scan_block scan t m) = (if t \<in> S then [] else block_items m t)"
    "unseen (snd (scan_block scan t m)) = unseen m" "marked (snd (scan_block scan t m)) scan (insert t S)"
proof -
  consider (none) "tool_memory_find_block_locked m t = None" | (dangling) b where "tool_memory_find_block_locked m t = Some b" "tm_blk m b = None"
    | (block) b x where "tool_memory_find_block_locked m t = Some b" "tm_blk m b = Some x"
    by (cases "tool_memory_find_block_locked m t") auto
  note c = this
  have u: "tool_memory_find_block_locked (unseen m) t = tool_memory_find_block_locked m t"
    by (simp add: unseen_def tool_memory_find_block_locked_def)
  show "fst (scan_block scan t m) = (if t \<in> S then [] else block_items m t)"
    using c
  proof cases
    case (block b x)
    then have "t \<noteq> []" "tm_by_block m t = Some b" by (simp_all add: tool_memory_find_block_locked_def split: if_splits)
    then have "tb_seen x = scan \<longleftrightarrow> t \<in> S" using assms block(2) by (simp add: marked_def)
    then show ?thesis using block u by (simp add: scan_block_def block_items_def) (simp add: unseen_def)
  qed (use u in \<open>simp_all add: scan_block_def block_items_def\<close>, simp_all add: unseen_def)
  show "unseen (snd (scan_block scan t m)) = unseen m"
    using c by cases (auto simp: scan_block_def unseen_def upd_blk_def fun_eq_iff)
  show "marked (snd (scan_block scan t m)) scan (insert t S)"
    using c
  proof cases
    case (block b x)
    then have t: "t \<noteq> []" "tm_by_block m t = Some b" by (simp_all add: tool_memory_find_block_locked_def split: if_splits)
    show ?thesis
    proof (cases "tb_seen x = scan")
      case True
      then have "insert t S = S" using assms block(2) t by (auto simp: marked_def)
      then show ?thesis using assms block True by (simp add: scan_block_def)
    next
      case False
      have e: "snd (scan_block scan t m) = upd_blk b (\<lambda>x. x\<lparr>tb_seen := scan\<rparr>) m"
        using False block by (simp add: scan_block_def)
      show ?thesis
        unfolding e marked_def
      proof (intro allI impI)
        fix t' b' y
        assume y: "t' \<noteq> []" "tm_by_block (upd_blk b (\<lambda>x. x\<lparr>tb_seen := scan\<rparr>) m) t' = Some b'"
          "tm_blk (upd_blk b (\<lambda>x. x\<lparr>tb_seen := scan\<rparr>) m) b' = Some y"
        then obtain y0 where y0: "tm_by_block m t' = Some b'" "tm_blk m b' = Some y0"
          "y = (if b' = b then y0\<lparr>tb_seen := scan\<rparr> else y0)" by (auto simp: upd_blk_def split: if_splits)
        have "tb_text y0 = t'" "tb_seen y0 = scan \<longleftrightarrow> t' \<in> S" using assms y(1) y0(1,2) by (simp_all add: marked_def)
        moreover have "tb_text x = t" using assms t block(2) by (simp add: marked_def)
        ultimately show "tb_text y = t' \<and> (tb_seen y = scan \<longleftrightarrow> t' \<in> insert t S)"
          using y0 t block(2) by (cases "b' = b") auto
      qed
    qed
  qed (use assms in \<open>auto simp: scan_block_def marked_def tool_memory_find_block_locked_def\<close>)
qed

lemma scan_blocks_items:
  "marked m scan S \<Longrightarrow>
    fst (scan_blocks scan ts m) = fresh_items (block_items m) S ts \<and> unseen (snd (scan_blocks scan ts m)) = unseen m"
proof (induction ts arbitrary: m S)
  case (Cons t ts)
  obtain ps m' where s: "scan_block scan t m = (ps, m')" by fastforce
  have m': "unseen m' = unseen m" "marked m' scan (insert t S)" "ps = (if t \<in> S then [] else block_items m t)"
    using scan_block_items [OF Cons.prems, of t] s by simp_all
  have "block_items m' = block_items m" using m'(1) by (simp add: block_items_def fun_eq_iff)
  then show ?case using Cons.IH [OF m'(2)] m'(1,3) s by (cases "scan_blocks scan ts m'") simp
qed simp

text \<open>The marks are no part of the invariant.\<close>

lemma blk_bytes_unseen: "b \<in> dom B \<Longrightarrow> blk_bytes (\<lambda>b. map_option (\<lambda>x. x\<lparr>tb_seen := 0\<rparr>) (B b)) b = blk_bytes B b"
  by (auto simp: blk_bytes_def)

lemma unseen_ok: "memory_ok (unseen m) xs \<longleftrightarrow> memory_ok m xs"
proof -
  let ?B = "\<lambda>b. map_option (\<lambda>x. x\<lparr>tb_seen := 0\<rparr>) (tm_blk m b)"
  have f: "tm_blk (unseen m) = ?B" "keys (unseen m) = keys m" "tm_by_id (unseen m) = tm_by_id m"
    "tm_by_block (unseen m) = tm_by_block m" "tm_entries (unseen m) = tm_entries m" "tm_bytes (unseen m) = tm_bytes m"
    "tm_unused (unseen m) = tm_unused m"
    by (simp_all add: unseen_def keys_def)
  have d: "dom ?B = dom (tm_blk m)" by auto
  have s: "sum (blk_bytes ?B) (dom (tm_blk m)) = sum (blk_bytes (tm_blk m)) (dom (tm_blk m))"
    by (rule sum.cong) (simp_all add: blk_bytes_unseen)
  have e: "entries_ok K I ?B = entries_ok K I (tm_blk m)" for K I
  proof -
    have "(\<exists>x. ?B b = Some x \<and> a \<in> set (tb_entries x)) = (\<exists>x. tm_blk m b = Some x \<and> a \<in> set (tb_entries x))" for a b
      by (cases "tm_blk m b") auto
    then show ?thesis unfolding entries_ok_def by simp
  qed
  have b: "blocks_ok K T ?B = blocks_ok K T (tm_blk m)" for K T
    unfolding blocks_ok_def by (rule arg_cong2 [where f = "(\<and>)"]) (auto 0 4)
  have l: "list_ok (unseen m) xs = list_ok m xs" by (simp add: list_ok_def unseen_def)
  show ?thesis unfolding memory_ok_def index_ok_def f d s e b l by simp
qed

lemma unseen_fields:
  assumes "unseen m = unseen m'"
  shows "keys m = keys m'" "tm_by_block m = tm_by_block m'" "limits m = limits m'"
    "map_option (\<lambda>x. x\<lparr>tb_seen := 0\<rparr>) (tm_blk m b) = map_option (\<lambda>x. x\<lparr>tb_seen := 0\<rparr>) (tm_blk m' b)"
proof -
  have f: "tm_ent m = tm_ent m'" "tm_by_block m = tm_by_block m'" "tm_max_entries m = tm_max_entries m'"
      "tm_max_bytes m = tm_max_bytes m'"
      "(\<lambda>b. map_option (\<lambda>x. x\<lparr>tb_seen := 0\<rparr>) (tm_blk m b)) = (\<lambda>b. map_option (\<lambda>x. x\<lparr>tb_seen := 0\<rparr>) (tm_blk m' b))"
    using arg_cong [OF assms, of tm_ent] arg_cong [OF assms, of tm_by_block] arg_cong [OF assms, of tm_max_entries]
      arg_cong [OF assms, of tm_max_bytes] arg_cong [OF assms, of tm_blk] by (simp_all add: unseen_def)
  show "keys m = keys m'" "tm_by_block m = tm_by_block m'" "limits m = limits m'"
    using f(1-4) by (simp_all add: keys_def limits_def tool_memory_max_entries_def tool_memory_max_bytes_def)
  show "map_option (\<lambda>x. x\<lparr>tb_seen := 0\<rparr>) (tm_blk m b) = map_option (\<lambda>x. x\<lparr>tb_seen := 0\<rparr>) (tm_blk m' b)"
    using fun_cong [OF f(5), of b] .
qed

lemma unseen_pair_at:
  assumes "unseen m = unseen m'" "memory_ok m xs" "a \<in> set xs"
  shows "pair_at m a = pair_at m' a"
proof -
  obtain k b n x where k: "keys m a = Some (k, b, n)" "tm_blk m b = Some x" using entry_keys [OF assms(2,3)] by blast
  obtain x' where "tm_blk m' b = Some x'" "x\<lparr>tb_seen := 0\<rparr> = x'\<lparr>tb_seen := 0\<rparr>"
    using unseen_fields(4) [OF assms(1), of b] k(2) by (cases "tm_blk m' b") auto
  moreover from this(2) have "tb_text x = tb_text x'" by (cases x; cases x') simp
  ultimately show ?thesis using k unseen_fields(1) [OF assms(1)] by (simp add: pair_at_def)
qed

lemma unseen_holds:
  assumes "unseen m = unseen m'" "holds m l"
  shows "holds m' l"
proof -
  obtain xs where xs: "memory_ok m xs" "l = map (pair_at m) xs" using assms(2) by (auto simp: holds_def)
  have "memory_ok m' xs" using xs(1) unseen_ok [of m xs] unseen_ok [of m' xs] assms(1) by simp
  moreover have "l = map (pair_at m') xs" using unseen_pair_at [OF assms(1) xs(1)] xs(2) by simp
  ultimately show ?thesis by (auto simp: holds_def)
qed

lemma block_items_set:
  assumes ok: "memory_ok m xs"
  shows "set (block_items m t) = {p \<in> set (map (pair_at m) xs). snd p = t \<and> length (fst p) < 2 ^ 32 \<and> length (snd p) < 2 ^ 32}"
proof (cases "tool_memory_find_block_locked m t")
  case None
  have "snd (pair_at m a) \<noteq> t" if a: "a \<in> set xs" for a
  proof -
    obtain k b n x where k: "tm_blk m b = Some x" "tb_text x \<noteq> []" "pair_at m a = (k, tb_text x)"
      using entry_keys [OF ok a] by blast
    have "tm_by_block m (tb_text x) = Some b" using index_okD(4) [OF ok] k(1) unfolding blocks_ok_def by blast
    then show ?thesis using None k by (auto simp: tool_memory_find_block_locked_def split: if_splits)
  qed
  moreover have "block_items m t = []"
    using None by (simp add: block_items_eq)
  ultimately show ?thesis by (auto simp del: set_map) (metis imageE set_map snd_conv)
next
  case (Some b)
  then have t: "t \<noteq> []" "tm_by_block m t = Some b" by (simp_all add: tool_memory_find_block_locked_def split: if_splits)
  obtain x where x: "tm_blk m b = Some x" "tb_text x = t" "\<forall>a\<in>set (tb_entries x). \<exists>k n. keys m a = Some (k, b, n)"
    using index_okD(4) [OF ok] t(2) unfolding blocks_ok_def by metis
  have i: "block_items m t = filter (\<lambda>p. length (fst p) < 2 ^ 32 \<and> length (snd p) < 2 ^ 32)
      (map (\<lambda>e. (te_id (the (tm_ent m e)), t)) (tb_entries x))"
    using Some x(1,2) by (simp add: block_items_eq)
  have p: "(te_id (the (tm_ent m a)), t) = pair_at m a \<and> a \<in> set xs" if a: "a \<in> set (tb_entries x)" for a
  proof -
    obtain k n where k: "keys m a = Some (k, b, n)" using x(3) a by blast
    then show ?thesis using dom_keys [OF ok, of a] x(1,2) by (auto simp: pair_at_def keys_def ekey_def)
  qed
  have q: "a \<in> set (tb_entries x)" if a: "a \<in> set xs" "snd (pair_at m a) = t" for a
  proof -
    obtain k b' n y where k: "keys m a = Some (k, b', n)" "tm_blk m b' = Some y" "a \<in> set (tb_entries y)" "pair_at m a = (k, tb_text y)"
      using entry_keys [OF ok a(1)] by blast
    have "tm_by_block m (tb_text y) = Some b'" using index_okD(4) [OF ok] k(2) unfolding blocks_ok_def by blast
    then show ?thesis using k x(1) a(2) t(2) by simp
  qed
  have "set (map (\<lambda>e. (te_id (the (tm_ent m e)), t)) (tb_entries x)) = {p \<in> set (map (pair_at m) xs). snd p = t}"
    using p q by (auto simp: image_iff) (metis snd_conv)+
  then show ?thesis unfolding i by auto
qed

section \<open>The map of a text\<close>

text \<open>The marks are at most the clock of the scans.\<close>

definition seen_ok :: "tool_memory \<Rightarrow> bool" where
  "seen_ok m \<longleftrightarrow> (\<forall>b x. tm_blk m b = Some x \<longrightarrow> tb_seen x \<le> tm_scan_clock m)"

lemma scan_block_seen:
  assumes "\<And>b x. tm_blk m b = Some x \<Longrightarrow> tb_seen x \<le> scan" "tm_blk (snd (scan_block scan t m)) b = Some x"
  shows "tb_seen x \<le> scan"
  using assms by (auto simp: scan_block_def upd_blk_def split: option.splits if_splits)

lemma scan_blocks_seen:
  assumes "\<And>b x. tm_blk m b = Some x \<Longrightarrow> tb_seen x \<le> scan" "tm_blk (snd (scan_blocks scan ts m)) b = Some x"
  shows "tb_seen x \<le> scan"
  using assms
proof (induction ts arbitrary: m)
  case (Cons t ts)
  have "tm_blk (snd (scan_blocks scan ts (snd (scan_block scan t m)))) b = Some x"
    using Cons.prems(2) by (simp split: prod.splits)
  then show ?case using Cons.IH [of "snd (scan_block scan t m)"] scan_block_seen [of m scan t] Cons.prems(1) by blast
qed simp

lemma scan_blocks_clock [simp]: "tm_scan_clock (snd (scan_blocks scan ts m)) = tm_scan_clock m"
proof (induction ts arbitrary: m)
  case (Cons t ts)
  have "tm_scan_clock (snd (scan_block scan t m)) = tm_scan_clock m"
    by (simp add: scan_block_def upd_blk_def split: option.split)
  then show ?case using Cons.IH [of "snd (scan_block scan t m)"] by (simp split: prod.split) (metis snd_conv)
qed simp

lemma marked_new:
  assumes "memory_ok m xs" "unseen m' = unseen m" "\<And>b x. tm_blk m' b = Some x \<Longrightarrow> tb_seen x < scan"
  shows "marked m' scan {}"
proof -
  have "memory_ok m' xs" using assms(1,2) unseen_ok [of m xs] unseen_ok [of m' xs] by simp
  then show ?thesis
    using index_okD(4) assms(3) unfolding marked_def blocks_ok_def by (metis emptyE option.inject order_less_irrefl)
qed

lemma word_Suc_less: "x < (2 ^ 64 - 2 :: u64) \<Longrightarrow> x < x + 1 \<and> x + 1 < x + 2"
  by (simp add: word_less_nat_alt unat_word_ariths unat_add_lem [symmetric])

definition map_items :: "tool_memory \<Rightarrow> bytes \<Rightarrow> (bytes \<times> bytes) list" where
  "map_items m t = fresh_items (block_items m) {} (tool_blocks t)"

definition map_bytes :: "(bytes \<times> bytes) list \<Rightarrow> bytes" where
  "map_bytes ps = (if ps = [] then [] else KV_TOOL_MAP_MAGIC @ le_put32 (word_of_nat (length ps)) @ items_bytes ps)"

lemma map_items_set:
  assumes "memory_ok m xs"
  shows "set (map_items m t) = {p \<in> set (map (pair_at m) xs). snd p \<in> set (tool_blocks t) \<and> length (fst p) < 2 ^ 32 \<and> length (snd p) < 2 ^ 32}"
  unfolding map_items_def set_fresh_items using block_items_set [OF assms] by auto

lemma scan_all:
  assumes ok: "memory_ok m xs" and u: "unseen m1 = unseen m"
    and seen: "\<And>b x. tm_blk m1 b = Some x \<Longrightarrow> tb_seen x \<le> tm_scan_clock m1"
    and c: "tm_scan_clock m1 < tm_scan_clock m1 + 1"
  shows "fst (scan_blocks (tm_scan_clock m1 + 1) (tool_blocks t) (m1\<lparr>tm_scan_clock := tm_scan_clock m1 + 1\<rparr>)) = map_items m t"
    "unseen (snd (scan_blocks (tm_scan_clock m1 + 1) (tool_blocks t) (m1\<lparr>tm_scan_clock := tm_scan_clock m1 + 1\<rparr>))) = unseen m"
    "tm_blk (snd (scan_blocks (tm_scan_clock m1 + 1) (tool_blocks t) (m1\<lparr>tm_scan_clock := tm_scan_clock m1 + 1\<rparr>))) b = Some x
      \<Longrightarrow> tb_seen x \<le> tm_scan_clock m1 + 1"
proof -
  let ?m = "m1\<lparr>tm_scan_clock := tm_scan_clock m1 + 1\<rparr>"
  have um: "unseen ?m = unseen m" using u by (simp add: unseen_def)
  have lt: "tb_seen x < tm_scan_clock m1 + 1" if "tm_blk ?m b = Some x" for b x
    using seen [of b x] c that by simp
  have "marked ?m (tm_scan_clock m1 + 1) {}" by (rule marked_new [OF ok um lt])
  note i = scan_blocks_items [OF this, of "tool_blocks t"]
  have "block_items ?m = block_items m" using um by (simp add: block_items_def fun_eq_iff)
  then show "fst (scan_blocks (tm_scan_clock m1 + 1) (tool_blocks t) ?m) = map_items m t" using i by (simp add: map_items_def)
  show "unseen (snd (scan_blocks (tm_scan_clock m1 + 1) (tool_blocks t) ?m)) = unseen m" using i um by simp
  show "tm_blk (snd (scan_blocks (tm_scan_clock m1 + 1) (tool_blocks t) ?m)) b = Some x \<Longrightarrow> tb_seen x \<le> tm_scan_clock m1 + 1"
    by (rule scan_blocks_seen [OF less_imp_le [OF lt]])
qed

lemma item_sizes: "sum_list (map item_size ps) = word_of_nat (length (items_bytes ps))"
  by (induction ps) (simp_all add: item_size_def item_fields_def codec_simps)

lemma write_map:
  assumes ok: "memory_ok m xs" "seen_ok m" "tm_scan_clock m < 2 ^ 64 - 2" and t: "t \<noteq> []"
    and n: "length (map_items m t) < 2 ^ 32" "length (map_bytes (map_items m t)) \<le> room"
  shows "\<exists>by m'. kv_tool_map_write False m t (room, dat) =
      (True, by, (room - length (map_bytes (map_items m t)), dat @ map_bytes (map_items m t)), m') \<and>
    unseen m' = unseen m \<and> seen_ok m' \<and> by = word_of_nat (length (map_bytes (map_items m t)))"
proof -
  let ?ps = "map_items m t" and ?c = "tm_scan_clock m"
  define m2 where "m2 = snd (scan_blocks (?c + 1) (tool_blocks t) (m\<lparr>tm_scan_clock := ?c + 1\<rparr>))"
  define m3 where "m3 = snd (scan_blocks (?c + 2) (tool_blocks t) (m2\<lparr>tm_scan_clock := ?c + 2\<rparr>))"
  have c: "?c < ?c + 1" "?c + 1 < ?c + 1 + 1" using word_Suc_less [OF ok(3)] by (simp_all add: add.assoc)
  have s1: "fst (scan_blocks (?c + 1) (tool_blocks t) (m\<lparr>tm_scan_clock := ?c + 1\<rparr>)) = ?ps"
    using scan_all(1) [OF ok(1) refl, of t] ok(2) c(1) by (auto simp: seen_ok_def)
  have u2: "unseen m2 = unseen m" "\<And>b x. tm_blk m2 b = Some x \<Longrightarrow> tb_seen x \<le> ?c + 1" "tm_scan_clock m2 = ?c + 1"
    using scan_all(2,3) [OF ok(1) refl, of t] ok(2) c(1) by (auto simp: seen_ok_def m2_def)
  have e: "?c + 1 + 1 = ?c + 2" by simp
  have seen2: "\<And>b x. tm_blk m2 b = Some x \<Longrightarrow> tb_seen x \<le> tm_scan_clock m2" and c2: "tm_scan_clock m2 < tm_scan_clock m2 + 1"
    using u2(2,3) c(2) by simp_all
  note a = scan_all [OF ok(1) u2(1) seen2 c2, unfolded u2(3) e]
  have a3: "fst (scan_blocks (?c + 2) (tool_blocks t) (m2\<lparr>tm_scan_clock := ?c + 2\<rparr>)) = ?ps" by (rule a(1))
  have u3: "unseen m3 = unseen m" unfolding m3_def by (rule a(2))
  have v3: "\<And>b x. tm_blk m3 b = Some x \<Longrightarrow> tb_seen x \<le> ?c + 2" 
  proof -
    fix b x assume bx: "tm_blk m3 b = Some x"
    have "tb_seen y \<le> ?c + 2" if y: "tm_blk (m2\<lparr>tm_scan_clock := ?c + 2\<rparr>) b' = Some y" for b' y
    proof -
      have "tm_blk m2 b' = Some y" using y by simp
      from u2(2) [OF this] show ?thesis using c(2) unfolding e by (meson order.trans less_imp_le)
    qed
    then show "tb_seen x \<le> ?c + 2" by (rule scan_blocks_seen [OF _ bx [unfolded m3_def]])
  qed
  have n0: "(word_of_nat (length ?ps) :: u32) = 0 \<longleftrightarrow> ?ps = []"
    unfolding unat_eq_zero [symmetric] unat_len [OF n(1)] by simp
  show ?thesis
  proof (cases "?ps = []")
    case True
    then have "kv_tool_map_write False m t (room, dat) = (True, 0, (room, dat), m2)"
      using t s1 by (simp add: kv_tool_map_write_def map_count_scan m2_def)
    then show ?thesis using True u2 by (simp add: map_bytes_def seen_ok_def)
  next
    case False
    have l: "length (items_bytes ?ps) \<le> room - 8" "8 \<le> room"
      using n(2) False by (simp_all add: map_bytes_def KV_TOOL_MAP_MAGIC_def codec_simps lit_simps)
    have f: "fwrite (KV_TOOL_MAP_MAGIC @ le_put32 (word_of_nat (length ?ps))) (room, dat) =
        (True, (room - 8, dat @ KV_TOOL_MAP_MAGIC @ le_put32 (word_of_nat (length ?ps))))"
      using l(2) by (simp add: fwrite_def KV_TOOL_MAP_MAGIC_def codec_simps lit_simps)
    have s3: "fst (scan_blocks (?c + 2) (tool_blocks t) (m2\<lparr>tm_scan_clock := ?c + 2\<rparr>)) = ?ps" by (rule a3)
    have "map_emit (?c + 2) (tool_blocks t) True (room - 8, dat @ KV_TOOL_MAP_MAGIC @ le_put32 (word_of_nat (length ?ps)))
        (m2\<lparr>tm_scan_clock := ?c + 2\<rparr>) = (True, (room - 8 - length (items_bytes ?ps),
          (dat @ KV_TOOL_MAP_MAGIC @ le_put32 (word_of_nat (length ?ps))) @ items_bytes ?ps), m3)"
      using map_emit_scan [of "?c + 2" "tool_blocks t" "m2\<lparr>tm_scan_clock := ?c + 2\<rparr>"] s3 l(1) by (simp add: m3_def)
    then have em: "map_emit (2 + ?c) (tool_blocks t) True (room - 8, dat @ KV_TOOL_MAP_MAGIC @ le_put32 (word_of_nat (length ?ps)))
        (m2\<lparr>tm_scan_clock := 2 + ?c\<rparr>) = (True, (room - 8 - length (items_bytes ?ps),
          (dat @ KV_TOOL_MAP_MAGIC @ le_put32 (word_of_nat (length ?ps))) @ items_bytes ?ps), m3)"
      unfolding add.commute [of ?c] .
    have "kv_tool_map_write False m t (room, dat) =
        (True, word_of_nat KV_TOOL_MAP_HEADER + sum_list (map item_size ?ps),
         (room - 8 - length (items_bytes ?ps), (dat @ KV_TOOL_MAP_MAGIC @ le_put32 (word_of_nat (length ?ps))) @ items_bytes ?ps), m3)"
      using t s1 False n0 f em u2(3) by (simp add: kv_tool_map_write_def map_count_scan m2_def [symmetric] Let_def)
    moreover have "room - length (map_bytes ?ps) = room - 8 - length (items_bytes ?ps)"
      using False by (simp add: map_bytes_def KV_TOOL_MAP_MAGIC_def codec_simps lit_simps)
    moreover have "seen_ok m3" using v3 by (simp add: seen_ok_def m3_def)
    moreover have "word_of_nat KV_TOOL_MAP_HEADER + sum_list (map item_size ?ps) = (word_of_nat (length (map_bytes ?ps)) :: u64)"
      using False by (simp add: item_sizes map_bytes_def KV_TOOL_MAP_MAGIC_def KV_TOOL_MAP_HEADER_def codec_simps lit_simps)
    ultimately show ?thesis using False u3 by (simp add: map_bytes_def)
  qed
qed

lemma load_map:
  assumes "\<forall>p\<in>set ps. item_ok p" "length ps < 2 ^ 32" "int (length ps) \<le> 4 * tool_memory_max_entries m"
  shows "kv_tool_map_load_from_pos False m None (map_bytes ps) = map_option (\<lambda>m'. (int (length ps), m')) (put_all ps m)"
proof (cases "ps = []")
  case False
  have "take 4 (drop 4 (KV_TOOL_MAP_MAGIC @ le_put32 (word_of_nat (length ps)) @ items_bytes ps)) = le_put32 (word_of_nat (length ps))"
    "drop 8 (KV_TOOL_MAP_MAGIC @ le_put32 (word_of_nat (length ps)) @ items_bytes ps) = items_bytes ps"
    "take 4 (KV_TOOL_MAP_MAGIC @ le_put32 (word_of_nat (length ps)) @ items_bytes ps) = KV_TOOL_MAP_MAGIC"
    by (simp_all add: KV_TOOL_MAP_MAGIC_def codec_simps lit_simps)
  then show ?thesis
    using False assms(3) unat_len [OF assms(2)] load_items_read [OF assms(1), of 0 m "[]"]
    by (simp add: kv_tool_map_load_from_pos_def map_bytes_def codec_simps Let_def) (simp add: KV_TOOL_MAP_MAGIC_def KV_TOOL_MAP_HEADER_def codec_simps lit_simps)
qed (simp add: map_bytes_def kv_tool_map_load_from_pos_def KV_TOOL_MAP_HEADER_def)

text \<open>
  C27. Writing the map of a text and reading it back: for a memory that holds the pairs \<open>l\<close> and a file with
  room, the map holds every pair of \<open>l\<close> whose text is a block of the text, once however often the block occurs,
  reports as many bytes as it wrote and leaves the pairs and their order alone; reading it into any memory puts
  exactly these pairs, in the order written.
\<close>

theorem tool_map_round_trip:
  assumes "holds m l" "seen_ok m" "tm_scan_clock m < 2 ^ 64 - 2" "t \<noteq> []"
    and "length (map_items m t) < 2 ^ 32" "length (map_bytes (map_items m t)) \<le> room" "\<forall>p\<in>set (map_items m t). item_ok p"
    and "int (length (map_items m t)) \<le> 4 * tool_memory_max_entries m2"
  shows "\<exists>by fp m'. kv_tool_map_write False m t (room, []) = (True, by, fp, m') \<and> by = word_of_nat (length (snd fp)) \<and>
    holds m' l \<and> seen_ok m' \<and>
    set (map_items m t) = {p \<in> set l. snd p \<in> set (tool_blocks t) \<and> length (fst p) < 2 ^ 32 \<and> length (snd p) < 2 ^ 32} \<and>
    kv_tool_map_load_from_pos False m2 None (snd fp) =
      map_option (\<lambda>m3. (int (length (map_items m t)), m3)) (put_all (map_items m t) m2)"
proof -
  obtain xs where xs: "memory_ok m xs" "l = map (pair_at m) xs" using assms(1) by (auto simp: holds_def)
  obtain "by" m' where w: "kv_tool_map_write False m t (room, []) =
      (True, by, (room - length (map_bytes (map_items m t)), [] @ map_bytes (map_items m t)), m')"
    "unseen m' = unseen m" "seen_ok m'" "by = word_of_nat (length (map_bytes (map_items m t)))"
    using write_map [OF xs(1) assms(2-6), of "[]"] by blast
  then show ?thesis
    using unseen_holds [OF w(2) [symmetric] assms(1)] map_items_set [OF xs(1), of t, folded xs(2)]
      load_map [OF assms(7,5,8)]
    by simp
qed

definition witness_text :: bytes where
  "witness_text = [10, 10] @ str ''<tool_call>'' @ [10] @ str ''<function=f>'' @ [10] @ str ''</function>'' @ [10] @ str ''</tool_call>''"

lemmas one_entry = tool_memory_insert_def tool_memory_get_block_locked_def tool_memory_find_block_locked_def
  tool_memory_new_def tool_memory_zero_def upd_blk_def upd_ent_def tool_memory_link_head_def

lemma one_entry_memory:
  assumes "k \<noteq> []" "t \<noteq> []" "length k < 2 ^ 32" "length t < 2 ^ 32"
  shows "block_items (tool_memory_insert (tool_memory_new n c) k t src) t = [(k, t)]"
    "holds (tool_memory_insert (tool_memory_new n c) k t src) [(k, t)]"
    "seen_ok (tool_memory_insert (tool_memory_new n c) k t src)"
    "tm_scan_clock (tool_memory_insert (tool_memory_new n c) k t src) = 0"
proof -
  show "block_items (tool_memory_insert (tool_memory_new n c) k t src) t = [(k, t)]"
    using assms by (simp add: block_items_eq one_entry Let_def)
  have "tm_by_id (tool_memory_new n c) k = None" by (simp add: one_entry)
  then show "holds (tool_memory_insert (tool_memory_new n c) k t src) [(k, t)]"
    using insert_refines [OF new_ok assms(1) _ assms(2), of n c src] unfolding holds_def by fastforce
  show "seen_ok (tool_memory_insert (tool_memory_new n c) k t src)"
    "tm_scan_clock (tool_memory_insert (tool_memory_new n c) k t src) = 0"
    using assms(2) by (auto simp: seen_ok_def one_entry Let_def)
qed

lemma witness_text_facts:
  "tool_blocks (65 # witness_text) = [witness_text]" "witness_text \<noteq> []" "length witness_text = 51" "0 \<notin> set witness_text"
  by code_simp (simp_all add: witness_text_def lit_simps)

theorem tool_map_round_trip_witness:
  "\<exists>by fp m' m2. kv_tool_map_write False (tool_memory_insert (tool_memory_new 9 0) [97] witness_text TOOL_MEMORY_RAM)
      (65 # witness_text) (1000, []) = (True, by, fp, m') \<and>
    kv_tool_map_load_from_pos False (tool_memory_new 9 0) None (snd fp) = Some (1, m2)"
proof -
  let ?m = "tool_memory_insert (tool_memory_new 9 0) [97] witness_text TOOL_MEMORY_RAM"
  have o: "block_items ?m witness_text = [([97], witness_text)]" "holds ?m [([97], witness_text)]" "seen_ok ?m" "tm_scan_clock ?m = 0"
    using witness_text_facts by (intro one_entry_memory, simp_all)+
  have i: "map_items ?m (65 # witness_text) = [([97], witness_text)]"
    unfolding map_items_def witness_text_facts(1) by (simp add: o(1))
  have "item_ok ([97], witness_text)"
    using witness_text_facts by (simp add: item_ok_def Q36_TOOL_MEMORY_MAX_BYTES_def)
  moreover have "length (map_bytes [([97 :: u8], witness_text)]) \<le> 1000"
    using witness_text_facts by (simp add: map_bytes_def item_fields_def KV_TOOL_MAP_MAGIC_def codec_simps lit_simps)
  moreover have "holds (tool_memory_new 9 0) []" using new_ok by (fastforce simp: holds_def)
  then have "\<exists>m2. put_all [([97], witness_text)] (tool_memory_new 9 0) = Some m2"
    using put_refines [of "tool_memory_new 9 0" "[]" "[97]" witness_text TOOL_MEMORY_DISK]
    by (auto simp: tool_memory_put_source_def)
  ultimately show ?thesis
    using tool_map_round_trip [OF o(2,3), of "65 # witness_text" 1000 "tool_memory_new 9 0"] o(4) unfolding i
    by (auto simp: tool_memory_max_entries_def tool_memory_new_def)
qed

text \<open>
  A sampled block is remembered from its tag on, and a text is searched for blocks with the newlines in
  front of them: the map of a text in which newlines come before the block is empty.
\<close>

lemma sampled_block_not_found:
  "(case parse_generated_message_ex (Some (65 # witness_text)) False [] of Some (_, _, calls) \<Rightarrow> raw_tool_text calls | None \<Rightarrow> None)
     = Some (drop 2 witness_text)"
  "map_items (tool_memory_insert (tool_memory_new 9 0) [97] (drop 2 witness_text) TOOL_MEMORY_RAM) (65 # witness_text) = []"
proof -
  show "(case parse_generated_message_ex (Some (65 # witness_text)) False [] of Some (_, _, calls) \<Rightarrow> raw_tool_text calls | None \<Rightarrow> None)
     = Some (drop 2 witness_text)" by code_simp
  have "drop 2 witness_text \<noteq> witness_text" "drop 2 witness_text \<noteq> []" by code_simp+
  then show "map_items (tool_memory_insert (tool_memory_new 9 0) [97] (drop 2 witness_text) TOOL_MEMORY_RAM) (65 # witness_text) = []"
    unfolding map_items_def witness_text_facts(1) by (simp add: block_items_eq one_entry Let_def)
qed

section \<open>Exact texts for the calls of a client\<close>

definition remembered :: "(bytes \<times> bytes) list \<Rightarrow> tool_call \<Rightarrow> bytes option" where
  "remembered l c = (case tc_id c of Some k \<Rightarrow> if k = [] then None else map_of l k | None \<Rightarrow> None)"

lemma remembered_cong: "map_of l1 = map_of l \<Longrightarrow> remembered l1 = remembered l"
  by (simp add: remembered_def fun_eq_iff split: option.split)

lemma map_of_use [simp]: "map_of (lru_use k l) = map_of l"
proof -
  have "map_of (filter (\<lambda>p. fst p \<noteq> k) l) k' = map_of l k'" if "k' \<noteq> k" for k'
    using that by (induction l) auto
  then show ?thesis by (auto simp: lru_use_def lru_front_def fun_eq_iff split: option.split)
qed

lemma block_unique:
  assumes "holds m l" "tm_blk m b = Some x" "tm_blk m b' = Some x'" "tb_text x = tb_text x'"
  shows "b = b'"
proof -
  obtain xs where "memory_ok m xs" using assms(1) by (auto simp: holds_def)
  then show ?thesis using index_okD(4) assms(2-4) unfolding blocks_ok_def by (metis option.inject)
qed

lemma lookup_block:
  assumes "holds m l" "tool_memory_lookup_locked m (tc_id c) = (r, m1)"
  shows "tm_blk m1 = tm_blk m" "\<exists>l1. holds m1 l1 \<and> map_of l1 = map_of l"
    "case r of None \<Rightarrow> remembered l c = None
      | Some (t, _, b) \<Rightarrow> remembered l c = Some t \<and> map_option tb_text (tm_blk m b) = Some t"
proof -
  show "tm_blk m1 = tm_blk m"
    using assms(2) same_index_touch [of m]
    by (auto simp: tool_memory_lookup_locked_def same_index_def split: option.splits)
  have b: "r = Some (t, s, b) \<Longrightarrow> map_option tb_text (tm_blk m b) = Some t" for t s b
    using assms(2) same_index_touch [of m]
    by (auto simp: tool_memory_lookup_locked_def same_index_def Let_def split: option.splits)
  show "\<exists>l1. holds m1 l1 \<and> map_of l1 = map_of l"
  proof (cases "tc_id c")
    case None
    then show ?thesis using assms lookup_none [of m] by auto
  next
    case (Some k)
    then show ?thesis
      using lookup_refines [OF assms(1), of k] assms(2) by (auto simp: steps_to_def split: if_splits intro: exI [of _ "lru_use k l"])
  qed
  have "map_option fst r = remembered l c"
    using lookup_refines [OF assms(1), of "the (tc_id c)"] lookup_none [of m] assms(2) by (cases "tc_id c") (auto simp: remembered_def split: if_splits)
  then show "case r of None \<Rightarrow> remembered l c = None
      | Some (t, _, b) \<Rightarrow> remembered l c = Some t \<and> map_option tb_text (tm_blk m b) = Some t"
    using b by (auto split: option.split)
qed

text \<open>The state of the scan: exact so far, with the block of the text \<open>t\<close>.\<close>

definition exact_at :: "tool_memory \<Rightarrow> bytes \<Rightarrow> attach_state \<Rightarrow> bool" where
  "exact_at m t s \<longleftrightarrow> at_exact s \<and> (\<forall>b. at_matched s = Some b \<longrightarrow> map_option tb_text (tm_blk m b) = Some t)"

lemma attach_step_some:
  "at_exact (attach_step s et (Some (t, src, b))) \<longleftrightarrow> at_exact s \<and> (at_matched s = None \<or> at_matched s = Some b)"
  "at_matched (attach_step s et (Some (t, src, b))) = (case at_matched s of None \<Rightarrow> Some b | Some b' \<Rightarrow> Some b')"
  "\<not> at_exact (attach_step s et None)"
  by (auto simp: attach_step_def Let_def split: option.split)

lemma attach_calls_frame:
  assumes "holds m l" "attach_calls m cs s = (s', m')"
  shows "tm_blk m' = tm_blk m \<and> (\<exists>l'. holds m' l' \<and> map_of l' = map_of l)"
  using assms
proof (induction cs arbitrary: m s l)
  case (Cons c cs)
  obtain r m1 where lk: "tool_memory_lookup_locked m (tc_id c) = (r, m1)" by fastforce
  obtain l1 where l1: "holds m1 l1" "map_of l1 = map_of l" "tm_blk m1 = tm_blk m" using lookup_block [OF Cons.prems(1) lk] by blast
  show ?case using Cons.IH [OF l1(1)] Cons.prems(2) l1(2,3) lk by (auto simp: Let_def)
qed auto

lemma attach_calls_exact:
  assumes "holds m l" "attach_calls m cs s = (s', m')" "exact_at m t s" "\<forall>c\<in>set cs. remembered l c = Some t"
  shows "exact_at m t s' \<and> (cs \<noteq> [] \<or> at_matched s \<noteq> None \<longrightarrow> at_matched s' \<noteq> None)"
  using assms
proof (induction cs arbitrary: m s l)
  case (Cons c cs)
  obtain r m1 where lk: "tool_memory_lookup_locked m (tc_id c) = (r, m1)" by fastforce
  obtain l1 where l1: "holds m1 l1" "map_of l1 = map_of l" "tm_blk m1 = tm_blk m" using lookup_block [OF Cons.prems(1) lk] by blast
  obtain src b where r: "r = Some (t, src, b)" "map_option tb_text (tm_blk m b) = Some t"
    using lookup_block(3) [OF Cons.prems(1) lk] Cons.prems(4) by (auto split: option.splits)
  have "at_matched s = None \<or> at_matched s = Some b"
    using Cons.prems(3) r(2) block_unique [OF Cons.prems(1)] by (cases "at_matched s") (auto simp: exact_at_def)
  then have "exact_at m t (attach_step s et r)" for et
    using Cons.prems(3) r by (auto simp: exact_at_def attach_step_some)
  then have e: "exact_at m1 t (attach_step s et r)" for et using l1(3) by (simp add: exact_at_def)
  have "remembered l1 = remembered l" by (rule remembered_cong [OF l1(2)])
  then have q: "\<forall>c\<in>set cs. remembered l1 c = Some t" using Cons.prems(4) by simp
  have "at_matched (attach_step s et r) \<noteq> None" for et using r(1) by (simp add: attach_step_some split: option.split)
  then show ?case
    using Cons.IH [OF l1(1) _ e q] Cons.prems(2) lk l1(3) by (auto simp: Let_def exact_at_def)
qed auto

lemma attach_calls_sound:
  assumes "holds m l" "attach_calls m cs s = (s', m')" "at_exact s'" "at_matched s' = Some b" "map_option tb_text (tm_blk m b) = Some t"
  shows "(\<forall>c\<in>set cs. remembered l c = Some t) \<and> (at_matched s = None \<or> at_matched s = Some b) \<and> at_exact s"
  using assms
proof (induction cs arbitrary: m s l)
  case (Cons c cs)
  obtain r m1 where lk: "tool_memory_lookup_locked m (tc_id c) = (r, m1)" by fastforce
  obtain l1 where l1: "holds m1 l1" "map_of l1 = map_of l" "tm_blk m1 = tm_blk m" using lookup_block [OF Cons.prems(1) lk] by blast
  obtain et where ac: "attach_calls m1 cs (attach_step s et r) = (s', m')" using Cons.prems(2) lk by (auto simp: Let_def)
  have "map_option tb_text (tm_blk m1 b) = Some t" using Cons.prems(5) l1(3) by simp
  note ih = Cons.IH [OF l1(1) ac Cons.prems(3,4) this]
  have rl: "remembered l1 = remembered l" by (rule remembered_cong [OF l1(2)])
  obtain t' src b' where r: "r = Some (t', src, b')" using ih attach_step_some(3) [of s et] by (cases r) auto
  then have "b' = b" "at_exact s" "at_matched s = None \<or> at_matched s = Some b"
    using ih unfolding r attach_step_some by (auto split: option.splits)
  moreover have "remembered l c = Some t'" "map_option tb_text (tm_blk m b') = Some t'"
    using lookup_block(3) [OF Cons.prems(1) lk] r by simp_all
  ultimately show ?case using ih rl Cons.prems(5) by auto
qed auto

definition replayable :: "(bytes \<times> bytes) list \<Rightarrow> tool_calls \<Rightarrow> bytes \<Rightarrow> bool" where
  "replayable l calls t \<longleftrightarrow>
     calls_v calls \<noteq> [] \<and> raw_tool_text calls = None \<and> (\<forall>c\<in>set (calls_v calls). remembered l c = Some t)"

lemma attach_message_text:
  assumes "holds m l" "attach_message m calls stats = (calls', m', stats')"
  shows "raw_tool_text calls' = (if \<exists>t. replayable l calls t then Some (THE t. replayable l calls t) else raw_tool_text calls) \<and>
    calls_v calls' = calls_v calls \<and> (\<exists>l'. holds m' l' \<and> map_of l' = map_of l)"
proof (cases "calls_v calls = [] \<or> raw_tool_text calls \<noteq> None")
  case True
  then show ?thesis using assms by (auto simp: attach_message_def replayable_def)
next
  case False
  let ?s = "\<lparr>at_matched = None, at_source = TOOL_MEMORY_DISK, at_exact = True, at_empty_think = True, at_missing = 0\<rparr>"
  obtain s m1 where a: "attach_calls m (calls_v calls) ?s = (s, m1)" by fastforce
  have fr: "tm_blk m1 = tm_blk m" "\<exists>l'. holds m1 l' \<and> map_of l' = map_of l"
    using attach_calls_frame [OF assms(1) a] by blast+
  have m1: "m' = m1" "calls_v calls' = calls_v calls"
    using assms(2) False a by (auto simp: attach_message_def split: prod.splits bool.splits option.splits)
  have uniq: "replayable l calls t \<Longrightarrow> (THE t. replayable l calls t) = t" for t
    by (rule the_equality) (auto simp: replayable_def neq_Nil_conv)
  have "raw_tool_text calls' = (if \<exists>t. replayable l calls t then Some (THE t. replayable l calls t) else raw_tool_text calls)"
  proof (cases "\<exists>t. replayable l calls t")
    case True
    then obtain t where t: "replayable l calls t" by blast
    have "exact_at m t ?s" by (simp add: exact_at_def)
    from attach_calls_exact [OF assms(1) a this] t
    obtain b where "at_exact s" "at_matched s = Some b" "map_option tb_text (tm_blk m b) = Some t"
      by (auto simp: replayable_def exact_at_def)
    then show ?thesis using assms(2) False a fr(1) t uniq [OF t] by (auto simp: attach_message_def)
  next
    case no: False
    have "\<not> (at_exact s \<and> (\<exists>b t. at_matched s = Some b \<and> map_option tb_text (tm_blk m b) = Some t))"
      using attach_calls_sound [OF assms(1) a] no False by (fastforce simp: replayable_def)
    then show ?thesis using assms(2) False a fr(1) no
      by (cases "at_exact s"; cases "at_matched s") (auto simp: attach_message_def)
  qed
  then show ?thesis using m1 fr(2) by blast
qed

definition exact_text :: "(bytes \<times> bytes) list \<Rightarrow> tool_calls \<Rightarrow> bytes option" where
  "exact_text l calls =
     (case calls_v calls of
        [] \<Rightarrow> None
      | c # cs \<Rightarrow>
          (case remembered l c of
             None \<Rightarrow> None
           | Some t \<Rightarrow> if \<forall>c\<in>set cs. remembered l c = Some t then Some t else None))"

definition wants_text :: "tool_calls \<Rightarrow> bool" where
  "wants_text calls \<longleftrightarrow> calls_v calls \<noteq> [] \<and> raw_tool_text calls = None"

lemma replayable_exact:
  "wants_text calls \<Longrightarrow> (if \<exists>t. replayable l calls t then Some (THE t. replayable l calls t) else raw_tool_text calls) = exact_text l calls"
  by (cases "calls_v calls"; cases "remembered l (hd (calls_v calls))")
    (auto simp: wants_text_def replayable_def exact_text_def)

lemma attach_message_stats:
  "attach_message m calls stats = (calls', m', stats') \<Longrightarrow>
    rs_mem stats' + rs_disk stats' + rs_canonical stats' =
      rs_mem stats + rs_disk stats + rs_canonical stats + (if wants_text calls then 1 else 0)"
  by (auto simp: attach_message_def wants_text_def split: if_splits prod.splits bool.splits option.splits)

lemma attach_messages_texts:
  assumes "holds m l" "attach_messages m msgs stats = (msgs', m', stats')"
  shows "map raw_tool_text msgs' = map (\<lambda>c. if wants_text c then exact_text l c else raw_tool_text c) msgs \<and>
    map calls_v msgs' = map calls_v msgs \<and>
    rs_mem stats' + rs_disk stats' + rs_canonical stats' =
      rs_mem stats + rs_disk stats + rs_canonical stats + int (length (filter wants_text msgs))"
  using assms
proof (induction msgs arbitrary: m l stats msgs' m' stats')
  case (Cons c cs)
  obtain c' m1 st where a: "attach_message m c stats = (c', m1, st)" by (metis prod_cases3)
  obtain cs' m2 st2 where b: "attach_messages m1 cs st = (cs', m2, st2)" by (metis prod_cases3)
  obtain l1 where l1: "holds m1 l1" "map_of l1 = map_of l" using attach_message_text [OF Cons.prems(1) a] by blast
  have "exact_text l1 = exact_text l" unfolding exact_text_def [abs_def] remembered_cong [OF l1(2)] ..
  moreover have "raw_tool_text c' = (if wants_text c then exact_text l c else raw_tool_text c)" "calls_v c' = calls_v c"
    using attach_message_text [OF Cons.prems(1) a] replayable_exact [of c l] by (auto simp: wants_text_def replayable_def)
  ultimately show ?case
    using Cons.IH [OF l1(1) b] attach_message_stats [OF a] Cons.prems(2) a b by auto
qed auto

text \<open>
  C26. A message of a client gets the exact text its calls were generated with if and only if every call's id
  is remembered with one and the same text; a message with an unknown id, or with ids of two different
  texts, is left to the canonical rendering, and each message that needs a text is counted once.
\<close>

theorem tool_text_attached_exactly:
  assumes "holds m l" "tool_memory_attach_to_messages False m msgs stats = (msgs', m', stats')"
  shows "map raw_tool_text msgs' = map (\<lambda>c. if wants_text c then exact_text l c else raw_tool_text c) msgs \<and>
    map calls_v msgs' = map calls_v msgs \<and>
    rs_mem stats' + rs_disk stats' + rs_canonical stats' =
      rs_mem stats + rs_disk stats + rs_canonical stats + int (length (filter wants_text msgs))"
  using attach_messages_texts [OF assms(1)] assms(2) by (simp add: tool_memory_attach_to_messages_def)

definition witness_msg :: tool_calls where
  "witness_msg = \<lparr>calls_v = [\<lparr>tc_id = Some [97], tc_name = None, tc_arguments = None\<rparr>], raw_tool_text = None, replay_empty_think = False\<rparr>"

theorem tool_text_attached_exactly_witness:
  "\<exists>msgs' m' stats'. tool_memory_attach_to_messages False
      (tool_memory_insert (tool_memory_new 9 0) [97] [60, 62] TOOL_MEMORY_RAM) [witness_msg]
      \<lparr>rs_mem = 0, rs_disk = 0, rs_canonical = 0, rs_missing_ids = 0\<rparr> = (msgs', m', stats') \<and>
    map raw_tool_text msgs' = [Some [60, 62]]"
proof -
  let ?m = "tool_memory_insert (tool_memory_new 9 0) [97] [60, 62] TOOL_MEMORY_RAM"
  obtain msgs' m' stats' where a: "tool_memory_attach_to_messages False ?m [witness_msg]
      \<lparr>rs_mem = 0, rs_disk = 0, rs_canonical = 0, rs_missing_ids = 0\<rparr> = (msgs', m', stats')" by (metis prod_cases3)
  have "holds ?m [([97], [60, 62])]" by (rule one_entry_memory) simp_all
  from tool_text_attached_exactly [OF this a] a show ?thesis
    by (auto simp: witness_msg_def wants_text_def exact_text_def remembered_def)
qed

end
