(* ===== verification/Agent_Parse.thy ===== *)
theory Agent_Parse
  imports Tool_Call
begin

text \<open>
  The agent's parser of a streamed tool call (\<^verbatim>\<open>agent_qwen_tool_feed\<close> and its helpers in
  \<^verbatim>\<open>q36_agent.c\<close>): it is fed byte by byte and resumes from the text kept so far.

  The kept text \<open>qp_raw\<close> is NUL-terminated: the C string at a position is \<open>c_str\<close> of the rest.  A
  position is an offset in it, as in the code.
\<close>

section \<open>Data\<close>

record agent_tool_call =
  ac_name :: "bytes option"
  ac_args :: "(bytes \<times> bytes) list"

datatype agent_qwen_tool_state =
  AGENT_QWEN_TOOL_SEARCH | AGENT_QWEN_TOOL_STRUCTURAL | AGENT_QWEN_TOOL_PARAM_VALUE
| AGENT_QWEN_TOOL_DONE | AGENT_QWEN_TOOL_ERROR

record agent_qwen_tool_parser =
  qp_state :: agent_qwen_tool_state
  qp_search_tail :: bytes
  qp_raw :: bytes
  qp_parse_pos :: nat
  qp_current :: agent_tool_call
  qp_param_name :: "bytes option"
  qp_param_value_start :: nat
  qp_param_close_prefix :: bool
  qp_calls :: "agent_tool_call list"
  qp_error :: bytes

definition no_call :: agent_tool_call where
  "no_call = \<lparr>ac_name = None, ac_args = []\<rparr>"

definition agent_qwen_tool_parser_reset :: agent_qwen_tool_parser where
  "agent_qwen_tool_parser_reset =
     \<lparr>qp_state = AGENT_QWEN_TOOL_SEARCH, qp_search_tail = [], qp_raw = [], qp_parse_pos = 0, qp_current = no_call,
      qp_param_name = None, qp_param_value_start = 0, qp_param_close_prefix = False, qp_calls = [], qp_error = []\<rparr>"

definition agent_tool_call_add_arg :: "agent_tool_call \<Rightarrow> bytes \<Rightarrow> bytes \<Rightarrow> agent_tool_call" where
  "agent_tool_call_add_arg c name value = c\<lparr>ac_args := ac_args c @ [(name, value)]\<rparr>"

text \<open>The finished call moves to the list, and an empty one is current.\<close>

definition agent_tool_calls_push :: "agent_qwen_tool_parser \<Rightarrow> agent_qwen_tool_parser" where
  "agent_tool_calls_push p =
     (if ac_name (qp_current p) = None then p
      else p\<lparr>qp_calls := qp_calls p @ [qp_current p], qp_current := no_call\<rparr>)"

definition agent_tool_arg_value :: "agent_tool_call \<Rightarrow> bytes \<Rightarrow> bytes option" where
  "agent_tool_arg_value call name = map_of (ac_args call) name"

definition agent_qwen_tool_set_error :: "agent_qwen_tool_parser \<Rightarrow> bytes \<Rightarrow> agent_qwen_tool_parser" where
  "agent_qwen_tool_set_error p msg = p\<lparr>qp_state := AGENT_QWEN_TOOL_ERROR, qp_error := take 159 msg\<rparr>"

section \<open>Tags\<close>

definition tag_space :: "u8 \<Rightarrow> bool" where
  "tag_space c \<longleftrightarrow> c = 32 \<or> c = 9 \<or> c = 13 \<or> c = 10"

text \<open>The length of the closing tag at the front of a C string.\<close>

definition agent_qwen_tool_close_tag_at :: "bytes \<Rightarrow> bytes \<Rightarrow> nat option" where
  "agent_qwen_tool_close_tag_at s name =
     (let pre = str ''</'' @ name; p = dropWhile tag_space (drop (length pre) s)
      in if \<not> starts_with pre s then None
         else if peek p \<noteq> 62 then None
         else Some (length s - length p + 1))"

text \<open>The first closing tag: its offset and its length.\<close>

fun agent_qwen_tool_find_close_tag :: "bytes \<Rightarrow> bytes \<Rightarrow> (nat \<times> nat) option" where
  "agent_qwen_tool_find_close_tag [] name = None"
| "agent_qwen_tool_find_close_tag (c # s) name =
     (case (if starts_with (str ''</'') (c # s) then agent_qwen_tool_close_tag_at (c # s) name else None) of
        Some n \<Rightarrow> Some (0, n)
      | None \<Rightarrow> map_option (\<lambda>(k, n). (Suc k, n)) (agent_qwen_tool_find_close_tag s name))"

text \<open>\<open>tail\<close> may still become, or is, the closing tag of a parameter.\<close>

definition agent_qwen_tool_parameter_close_tail :: "bytes \<Rightarrow> bool \<times> bool" where
  "agent_qwen_tool_parameter_close_tail tail =
     (let pre = str ''</parameter''
      in if length tail \<le> length pre then (take (length tail) pre = tail, False)
         else if \<not> starts_with pre tail then (False, False)
         else case dropWhile tag_space (drop (length pre) tail) of
                [] \<Rightarrow> (True, False)
              | c # r \<Rightarrow> if c = 62 then (r = [], r = []) else (False, False))"

definition last_lt :: "bytes \<Rightarrow> bytes option" where
  "last_lt value = (if 60 \<in> set value then Some (60 # rev (takeWhile (\<lambda>c. c \<noteq> 60) (rev value))) else None)"

definition agent_qwen_tool_update_param_close_prefix :: "agent_qwen_tool_parser \<Rightarrow> agent_qwen_tool_parser" where
  "agent_qwen_tool_update_param_close_prefix p =
     (let p = p\<lparr>qp_param_close_prefix := False\<rparr>
      in if qp_state p \<noteq> AGENT_QWEN_TOOL_PARAM_VALUE \<or> length (qp_raw p) \<le> qp_param_value_start p then p
         else case last_lt (drop (qp_param_value_start p) (qp_raw p)) of
                None \<Rightarrow> p
              | Some tail \<Rightarrow>
                  if length tail > 64 then p
                  else p\<lparr>qp_param_close_prefix :=
                    length tail \<ge> length (str ''</parameter'') \<and> starts_with (str ''</parameter'') tail \<and>
                    agent_qwen_tool_parameter_close_tail tail = (True, False)\<rparr>)"

definition trim_name :: "bytes \<Rightarrow> bytes" where
  "trim_name s = rev (dropWhile isspace (rev s))"

section \<open>The parser\<close>

definition cstr_at :: "agent_qwen_tool_parser \<Rightarrow> nat \<Rightarrow> bytes" where
  "cstr_at p k = c_str (drop k (qp_raw p))"

text \<open>One newline behind the opening tag and one in front of the closing tag belong to the tags.\<close>

definition trim_value :: "bytes \<Rightarrow> bytes" where
  "trim_value v =
     (let v = (if v \<noteq> [] \<and> peek v = 10 then tl v else v)
      in if v \<noteq> [] \<and> last v = 10 then butlast v else v)"

datatype parse_round = Go agent_qwen_tool_parser | Halt agent_qwen_tool_parser

definition parse_value :: "agent_qwen_tool_parser \<Rightarrow> parse_round" where
  "parse_value p =
     (case agent_qwen_tool_find_close_tag (cstr_at p (qp_param_value_start p)) (str ''parameter'') of
        None \<Rightarrow> Halt p
      | Some (k, n) \<Rightarrow>
          let value = trim_value (take k (drop (qp_param_value_start p) (qp_raw p)));
              name = (case qp_param_name p of Some s \<Rightarrow> s | None \<Rightarrow> [])
          in Go (p\<lparr>qp_current := agent_tool_call_add_arg (qp_current p) name (q36_tool_text_unescape (c_str value) Q36_PARAM_END),
                   qp_param_close_prefix := False, qp_param_name := None,
                   qp_parse_pos := qp_param_value_start p + k + n, qp_state := AGENT_QWEN_TOOL_STRUCTURAL\<rparr>))"

text \<open>An opening tag: \<open>tag\<close> ends with its \<^verbatim>\<open>></\<close>.\<close>

definition parse_open_tag :: "agent_qwen_tool_parser \<Rightarrow> bytes \<Rightarrow> parse_round" where
  "parse_open_tag p tag =
     (if starts_with (str ''<function='') tag then
        (let name = trim_name (butlast (drop (length (str ''<function='')) tag));
             p = p\<lparr>qp_current := \<lparr>ac_name = Some name, ac_args = []\<rparr>\<rparr>
         in if name = [] then Halt (agent_qwen_tool_set_error p (str ''function without name''))
            else Go (p\<lparr>qp_parse_pos := qp_parse_pos p + length tag\<rparr>))
      else if starts_with (str ''<parameter='') tag then
        (if ac_name (qp_current p) = None then Halt (agent_qwen_tool_set_error p (str ''parameter outside function''))
         else
           (let name = trim_name (butlast (drop (length (str ''<parameter='')) tag));
                p = p\<lparr>qp_param_name := Some name\<rparr>
            in if name = [] then Halt (agent_qwen_tool_set_error p (str ''parameter without name''))
               else Go (p\<lparr>qp_parse_pos := qp_parse_pos p + length tag,
                          qp_param_value_start := qp_parse_pos p + length tag,
                          qp_param_close_prefix := False, qp_state := AGENT_QWEN_TOOL_PARAM_VALUE\<rparr>)))
      else Halt (agent_qwen_tool_set_error p (str ''unexpected Qwen tool tag: '' @ take 80 tag)))"

text \<open>A tag at the C string \<open>q\<close>, which the position points at.\<close>

definition structural_at :: "agent_qwen_tool_parser \<Rightarrow> bytes \<Rightarrow> parse_round" where
  "structural_at p q =
     (case agent_qwen_tool_close_tag_at q (str ''tool_call'') of
        Some n \<Rightarrow>
          if ac_name (qp_current p) \<noteq> None then
            Halt (agent_qwen_tool_set_error p (str ''tool call closed before function''))
          else if qp_calls p = [] then Halt (agent_qwen_tool_set_error p (str ''tool call has no function''))
          else Halt (p\<lparr>qp_parse_pos := qp_parse_pos p + n, qp_state := AGENT_QWEN_TOOL_DONE\<rparr>)
      | None \<Rightarrow>
          (case agent_qwen_tool_close_tag_at q (str ''function'') of
             Some n \<Rightarrow>
               if ac_name (qp_current p) = None then
                 Halt (agent_qwen_tool_set_error p (str ''function close without function''))
               else Go ((agent_tool_calls_push p)\<lparr>qp_parse_pos := qp_parse_pos p + n\<rparr>)
           | None \<Rightarrow>
               if 62 \<notin> set q then Halt p
               else parse_open_tag p (takeWhile (\<lambda>c. c \<noteq> 62) q @ [62])))"

definition skip_tag_space :: "agent_qwen_tool_parser \<Rightarrow> agent_qwen_tool_parser" where
  "skip_tag_space p =
     p\<lparr>qp_parse_pos := qp_parse_pos p + length (takeWhile tag_space (drop (qp_parse_pos p) (qp_raw p)))\<rparr>"

definition parse_structural :: "agent_qwen_tool_parser \<Rightarrow> parse_round" where
  "parse_structural p =
     (let p = skip_tag_space p
      in if qp_parse_pos p \<ge> length (qp_raw p) then Halt p else structural_at p (cstr_at p (qp_parse_pos p)))"

definition parse_step :: "agent_qwen_tool_parser \<Rightarrow> parse_round" where
  "parse_step p =
     (case qp_state p of
        AGENT_QWEN_TOOL_PARAM_VALUE \<Rightarrow> parse_value p
      | AGENT_QWEN_TOOL_STRUCTURAL \<Rightarrow> parse_structural p
      | _ \<Rightarrow> Halt p)"

text \<open>
  The loop.  Its guard, that a round which goes on moves the position forward, always holds where the
  parser is used (\<open>parse_step_go\<close> in \<open>Agent_Parse_Props\<close>).
\<close>

function agent_qwen_tool_parse :: "agent_qwen_tool_parser \<Rightarrow> agent_qwen_tool_parser" where
  "agent_qwen_tool_parse p =
     (case parse_step p of
        Halt p' \<Rightarrow> p'
      | Go p' \<Rightarrow>
          if length (qp_raw p') - qp_parse_pos p' < length (qp_raw p) - qp_parse_pos p then agent_qwen_tool_parse p' else p')"
  by pat_completeness auto
termination
  by (relation "measure (\<lambda>p. length (qp_raw p) - qp_parse_pos p)") auto

declare agent_qwen_tool_parse.simps [simp del]

definition agent_qwen_tool_start :: "agent_qwen_tool_parser \<Rightarrow> agent_qwen_tool_parser" where
  "agent_qwen_tool_start p =
     p\<lparr>qp_state := AGENT_QWEN_TOOL_STRUCTURAL, qp_search_tail := [], qp_raw := qp_raw p @ Q36_TOOL_CALLS_START,
       qp_parse_pos := length Q36_TOOL_CALLS_START\<rparr>"

definition feed_search :: "agent_qwen_tool_parser \<Rightarrow> u8 \<Rightarrow> agent_qwen_tool_parser" where
  "feed_search p c =
     (let t = (if length (qp_search_tail p) = 64 then tl (qp_search_tail p) else qp_search_tail p) @ [c];
          p = p\<lparr>qp_search_tail := t\<rparr>
      in if length t \<ge> length Q36_TOOL_CALLS_START \<and>
            drop (length t - length Q36_TOOL_CALLS_START) t = Q36_TOOL_CALLS_START
         then agent_qwen_tool_start p else p)"

definition feed_byte :: "agent_qwen_tool_parser \<Rightarrow> u8 \<Rightarrow> agent_qwen_tool_parser" where
  "feed_byte p c =
     (if qp_state p = AGENT_QWEN_TOOL_SEARCH then feed_search p c
      else
        (let p = agent_qwen_tool_parse (p\<lparr>qp_raw := qp_raw p @ [c]\<rparr>)
         in if qp_state p = AGENT_QWEN_TOOL_PARAM_VALUE then agent_qwen_tool_update_param_close_prefix p
            else p\<lparr>qp_param_close_prefix := False\<rparr>))"

definition agent_qwen_tool_feed :: "agent_qwen_tool_parser \<Rightarrow> bytes \<Rightarrow> agent_qwen_tool_parser" where
  "agent_qwen_tool_feed p s =
     (if qp_state p = AGENT_QWEN_TOOL_DONE \<or> qp_state p = AGENT_QWEN_TOOL_ERROR then p
      else foldl feed_byte p s)"

end
