(* ===== verification/Agent_Parse_Props.thy ===== *)
theory Agent_Parse_Props
  imports Agent_Parse Stream_Cut
begin

text \<open>
  The agent's parser does not depend on how the text is cut into pieces: feeding it byte by byte gives
  what one pass over the whole text gives.  The reason is that every round is stable: a decision made on
  the text so far stands when more text follows.
\<close>

section \<open>Closing tags\<close>

lemma dropWhile_append_stop: "\<exists>c\<in>set r. \<not> P c \<Longrightarrow> dropWhile P (r @ x) = dropWhile P r @ x"
  by (induction r) auto

lemma peek_Cons: "peek s = c \<Longrightarrow> c \<noteq> 0 \<Longrightarrow> \<exists>r. s = c # r"
  by (cases s) auto

lemma close_tag_gt: "agent_qwen_tool_close_tag_at s n = Some k \<Longrightarrow> 62 \<in> set s \<and> 0 < k \<and> k \<le> length s"
proof -
  assume a: "agent_qwen_tool_close_tag_at s n = Some k"
  let ?p = "dropWhile tag_space (drop (length (str ''</'' @ n)) s)"
  have p: "peek ?p = 62" "k = length s - length ?p + 1"
    using a by (auto simp: agent_qwen_tool_close_tag_at_def Let_def split: if_splits)
  obtain r where r: "?p = 62 # r" using peek_Cons [OF p(1)] by auto
  have "62 \<in> set ?p" unfolding r by simp
  then have "62 \<in> set s" by (meson in_set_dropD set_dropWhileD)
  moreover have "length ?p \<le> length s" by (metis length_dropWhile_le length_drop diff_le_self le_trans)
  ultimately show ?thesis using p r by auto
qed

lemma starts_with_extend: "length p \<le> length s \<Longrightarrow> starts_with p (s @ x) = starts_with p s"
  by (simp add: starts_with_def)

lemma close_tag_append:
  assumes "62 \<in> set s" "62 \<notin> set n"
  shows "agent_qwen_tool_close_tag_at (s @ x) n = agent_qwen_tool_close_tag_at s n"
proof (cases "length (str ''</'' @ n) \<le> length s")
  case True
  let ?d = "drop (length (str ''</'' @ n)) s"
  have e: "starts_with (str ''</'' @ n) (s @ x) = starts_with (str ''</'' @ n) s" by (rule starts_with_extend [OF True])
  show ?thesis
  proof (cases "starts_with (str ''</'' @ n) s")
    case sw: True
    have "s = (str ''</'' @ n) @ ?d" using sw by (metis append_take_drop_id starts_with_def)
    then have "62 \<in> set (str ''</'' @ n) \<or> 62 \<in> set ?d" using assms(1) by (metis Un_iff set_append)
    then have "62 \<in> set ?d" using assms(2) by (auto simp: lit_simps)
    then have dw: "dropWhile tag_space (?d @ x) = dropWhile tag_space ?d @ x" "dropWhile tag_space ?d \<noteq> []"
      by (auto intro!: dropWhile_append_stop bexI [of _ 62] simp: tag_space_def)
    have "drop (length (str ''</'' @ n)) (s @ x) = ?d @ x" using True by simp
    moreover have "peek (dropWhile tag_space ?d @ x) = peek (dropWhile tag_space ?d)"
      using dw(2) by (cases "dropWhile tag_space ?d") auto
    ultimately show ?thesis
      using e dw(1) unfolding agent_qwen_tool_close_tag_at_def Let_def by simp
  qed (use e in \<open>simp add: agent_qwen_tool_close_tag_at_def Let_def\<close>)
next
  case False
  have "\<not> starts_with (str ''</'' @ n) (s @ x)"
  proof
    assume a: "starts_with (str ''</'' @ n) (s @ x)"
    then have "take (length (str ''</'' @ n)) (s @ x) = str ''</'' @ n" by (simp add: starts_with_def)
    then have "set s \<subseteq> set (str ''</'' @ n)" using False by (metis nle_le set_append sup_ge1 take_all take_append)
    then show False using assms by (auto simp: lit_simps)
  qed
  moreover have "\<not> starts_with (str ''</'' @ n) s" using False by (simp add: starts_with_def)
  ultimately show ?thesis by (simp add: agent_qwen_tool_close_tag_at_def Let_def)
qed

lemma find_close_bound: "agent_qwen_tool_find_close_tag s n = Some (k, m) \<Longrightarrow> 62 \<in> set s \<and> 0 < m \<and> k + m \<le> length s"
proof (induction s arbitrary: k m)
  case (Cons c s)
  show ?case
  proof (cases "if starts_with (str ''</'') (c # s) then agent_qwen_tool_close_tag_at (c # s) n else None")
    case None
    then obtain k' where "agent_qwen_tool_find_close_tag s n = Some (k', m)" "k = Suc k'" using Cons.prems by auto
    then show ?thesis using Cons.IH [of k' m] by auto
  next
    case (Some m')
    then have "agent_qwen_tool_close_tag_at (c # s) n = Some m" "k = 0" using Cons.prems by (auto split: if_splits)
    then show ?thesis using close_tag_gt by fastforce
  qed
qed simp

lemma find_close_append:
  "62 \<notin> set n \<Longrightarrow> agent_qwen_tool_find_close_tag s n = Some r \<Longrightarrow> agent_qwen_tool_find_close_tag (s @ x) n = Some r"
proof (induction s arbitrary: r)
  case (Cons c s)
  obtain k m where r: "r = (k, m)" by fastforce
  have gt: "62 \<in> set (c # s)" using find_close_bound Cons.prems(2) r by blast
  have ct: "agent_qwen_tool_close_tag_at ((c # s) @ x) n = agent_qwen_tool_close_tag_at (c # s) n"
    by (rule close_tag_append [OF gt Cons.prems(1)])
  show ?case
  proof (cases s)
    case Nil
    have "length (str ''</'') > length [c]" by simp
    then show ?thesis using Cons.prems(2) Nil by (auto simp: starts_with_def)
  next
    case (Cons d t)
    have "starts_with (str ''</'') ((c # s) @ x) = starts_with (str ''</'') (c # s)"
      by (rule starts_with_extend) (simp add: Cons)
    then show ?thesis using ct Cons.prems Cons.IH by (auto split: option.splits if_splits)
  qed
qed simp

section \<open>A round and more text\<close>

definition ext :: "bytes \<Rightarrow> agent_qwen_tool_parser \<Rightarrow> agent_qwen_tool_parser" where
  "ext x p = p\<lparr>qp_raw := qp_raw p @ x\<rparr>"

lemma ext_simps [simp]: "ext [] p = p" "ext x (ext y p) = ext (y @ x) p" "qp_state (ext x p) = qp_state p"
  "qp_raw (ext x p) = qp_raw p @ x" "qp_parse_pos (ext x p) = qp_parse_pos p"
  "qp_param_value_start (ext x p) = qp_param_value_start p" "qp_current (ext x p) = qp_current p"
  "qp_calls (ext x p) = qp_calls p" "qp_param_name (ext x p) = qp_param_name p" "qp_error (ext x p) = qp_error p"
  by (simp_all add: ext_def)

definition parser_ok :: "agent_qwen_tool_parser \<Rightarrow> bool" where
  "parser_ok p \<longleftrightarrow> 0 \<notin> set (qp_raw p) \<and> qp_parse_pos p \<le> length (qp_raw p) \<and>
     (qp_state p = AGENT_QWEN_TOOL_PARAM_VALUE \<longrightarrow> qp_param_value_start p = qp_parse_pos p)"

definition open_state :: "agent_qwen_tool_state \<Rightarrow> bool" where
  "open_state s \<longleftrightarrow> s = AGENT_QWEN_TOOL_STRUCTURAL \<or> s = AGENT_QWEN_TOOL_PARAM_VALUE"

lemma no_nul_drop: "0 \<notin> set s \<Longrightarrow> c_str (drop k s) = drop k s" "0 \<notin> set s \<Longrightarrow> c_str (dropWhile P (drop k s)) = dropWhile P (drop k s)"
  by (auto intro!: c_str_id dest: in_set_dropD set_dropWhileD)

lemma parse_value_go:
  assumes "parser_ok p" "qp_state p = AGENT_QWEN_TOOL_PARAM_VALUE" "parse_value p = Go p'"
  shows "qp_parse_pos p < qp_parse_pos p' \<and> parser_ok p' \<and> qp_raw p' = qp_raw p \<and>
    (0 \<notin> set x \<longrightarrow> parse_value (ext x p) = Go (ext x p'))"
proof -
  let ?v = "drop (qp_parse_pos p) (qp_raw p)"
  have ok: "0 \<notin> set (qp_raw p)" "qp_parse_pos p \<le> length (qp_raw p)" "qp_param_value_start p = qp_parse_pos p"
    using assms(1,2) by (simp_all add: parser_ok_def)
  then have c: "cstr_at p (qp_param_value_start p) = ?v" "cstr_at p (qp_parse_pos p) = ?v" by (simp_all add: cstr_at_def no_nul_drop)
  obtain k n where k: "agent_qwen_tool_find_close_tag ?v (str ''parameter'') = Some (k, n)"
    using assms(3) by (auto simp: parse_value_def c split: option.splits)
  note b = find_close_bound [OF k]
  have kn: "k + n \<le> length ?v" "0 < n" using b by simp_all
  have s: "agent_qwen_tool_find_close_tag (?v @ x) (str ''parameter'') = Some (k, n)"
    by (rule find_close_append [OF _ k]) (simp add: lit_simps)
  have cx: "cstr_at (ext x p) (qp_param_value_start p) = ?v @ x" if "0 \<notin> set x"
    using no_nul_drop(1) [of "qp_raw p @ x" "qp_parse_pos p"] ok that by (simp add: cstr_at_def)
  have "take k (?v @ x) = take k ?v" using kn by simp
  then have "0 \<notin> set x \<longrightarrow> parse_value (ext x p) = Go (ext x p')"
    using assms(3) s cx ok kn by (auto simp: parse_value_def c k Let_def ext_def)
  then show ?thesis
    using assms(3) ok kn by (auto simp: parse_value_def c k Let_def parser_ok_def)
qed

lemma parse_value_halt:
  assumes "parse_value p = Halt p'"
  shows "p' = p"
  using assms by (auto simp: parse_value_def Let_def split: option.splits)

lemma take_to: "c \<in> set s \<Longrightarrow> Suc (length (takeWhile (\<lambda>x. x \<noteq> c) s)) \<le> length s"
  by (induction s) auto

lemma structural_at_go:
  assumes "structural_at p q = Go p'"
  shows "qp_raw p' = qp_raw p \<and> qp_parse_pos p < qp_parse_pos p' \<and> qp_parse_pos p' \<le> qp_parse_pos p + length q \<and>
    (qp_state p' = AGENT_QWEN_TOOL_PARAM_VALUE \<longrightarrow>
      qp_param_value_start p' = qp_parse_pos p' \<or> qp_state p = AGENT_QWEN_TOOL_PARAM_VALUE)"
proof -
  consider (func) n where "agent_qwen_tool_close_tag_at q (str ''function'') = Some n"
      "p' = (agent_tool_calls_push p)\<lparr>qp_parse_pos := qp_parse_pos p + n\<rparr>"
    | (tag) "62 \<in> set q" "parse_open_tag p (takeWhile (\<lambda>c. c \<noteq> 62) q @ [62]) = Go p'"
    using assms by (auto simp: structural_at_def split: option.splits if_splits)
  then show ?thesis
  proof cases
    case func
    then show ?thesis using close_tag_gt [OF func(1)] by (auto simp: agent_tool_calls_push_def)
  next
    case tag
    then show ?thesis
      using take_to [OF tag(1)] by (auto simp: parse_open_tag_def Let_def split: if_splits)
  qed
qed

definition ext_round :: "bytes \<Rightarrow> parse_round \<Rightarrow> parse_round" where
  "ext_round x r = (case r of Go p \<Rightarrow> Go (ext x p) | Halt p \<Rightarrow> Halt (ext x p))"

lemma ext_round_simps [simp]: "ext_round x (Go p) = Go (ext x p)" "ext_round x (Halt p) = Halt (ext x p)"
  by (simp_all add: ext_round_def)

lemma open_tag_ext: "parse_open_tag (ext x p) tag = ext_round x (parse_open_tag p tag)"
  by (simp add: parse_open_tag_def Let_def ext_def agent_qwen_tool_set_error_def)

lemma structural_at_ext:
  assumes "62 \<in> set q"
  shows "structural_at (ext x p) (q @ x) = ext_round x (structural_at p q)"
proof -
  have n: "62 \<notin> set (str ''tool_call'')" "62 \<notin> set (str ''function'')" by (simp_all add: lit_simps)
  note ct = close_tag_append [OF assms n(1)] close_tag_append [OF assms n(2)]
  have tw: "takeWhile (\<lambda>c. c \<noteq> 62) (q @ x) = takeWhile (\<lambda>c. c \<noteq> 62) q" using assms by (simp add: takeWhile_append1)
  have "agent_tool_calls_push (ext x p) = ext x (agent_tool_calls_push p)"
    by (simp add: agent_tool_calls_push_def ext_def)
  then show ?thesis
    using assms by (simp add: structural_at_def ct tw open_tag_ext split: option.split)
      (simp add: ext_def agent_qwen_tool_set_error_def)
qed

lemma structural_at_wait:
  assumes "62 \<notin> set q"
  shows "structural_at p q = Halt p"
proof -
  have "agent_qwen_tool_close_tag_at q n = None" for n
    using close_tag_gt [of q n] assms by (cases "agent_qwen_tool_close_tag_at q n") auto
  then show ?thesis using assms by (simp add: structural_at_def)
qed

lemma takeWhile_stop: "\<exists>c\<in>set d. \<not> P c \<Longrightarrow> takeWhile P (dropWhile P d @ x) = []"
  by (induction d) auto

text \<open>White space that is skipped stays skipped.\<close>

lemma skip_space_facts:
  assumes "parser_ok p"
  shows "parser_ok (skip_tag_space p) \<or> qp_state p = AGENT_QWEN_TOOL_PARAM_VALUE"
    "qp_parse_pos p \<le> qp_parse_pos (skip_tag_space p)" "qp_parse_pos (skip_tag_space p) \<le> length (qp_raw p)"
    "drop (qp_parse_pos (skip_tag_space p)) (qp_raw p) = dropWhile tag_space (drop (qp_parse_pos p) (qp_raw p))"
    "qp_raw (skip_tag_space p) = qp_raw p" "qp_state (skip_tag_space p) = qp_state p"
proof -
  let ?d = "drop (qp_parse_pos p) (qp_raw p)"
  have l: "length (takeWhile tag_space ?d) \<le> length ?d" by (rule length_takeWhile_le)
  then show le: "qp_parse_pos (skip_tag_space p) \<le> length (qp_raw p)"
    using assms unfolding skip_tag_space_def parser_ok_def by (simp, linarith)
  show "qp_parse_pos p \<le> qp_parse_pos (skip_tag_space p)" "qp_raw (skip_tag_space p) = qp_raw p"
    "qp_state (skip_tag_space p) = qp_state p" by (simp_all add: skip_tag_space_def)
  then show "parser_ok (skip_tag_space p) \<or> qp_state p = AGENT_QWEN_TOOL_PARAM_VALUE"
    using assms le by (auto simp: parser_ok_def)
  have "drop (length (takeWhile tag_space ?d)) ?d = dropWhile tag_space ?d"
    by (metis append_eq_conv_conj takeWhile_dropWhile_id)
  then show "drop (qp_parse_pos (skip_tag_space p)) (qp_raw p) = dropWhile tag_space ?d"
    by (simp add: skip_tag_space_def add.commute)
qed

lemma skip_space_ext:
  assumes "parser_ok p" "0 \<notin> set x"
  shows "skip_tag_space (ext x (skip_tag_space p)) = skip_tag_space (ext x p)"
    "qp_parse_pos (skip_tag_space p) < length (qp_raw p) \<Longrightarrow> skip_tag_space (ext x p) = ext x (skip_tag_space p)"
proof -
  let ?d = "drop (qp_parse_pos p) (qp_raw p)"
  have pos: "qp_parse_pos p \<le> length (qp_raw p)" using assms(1) by (simp add: parser_ok_def)
  let ?n = "length (takeWhile tag_space ?d)"
  have n: "?n \<le> length ?d" by (rule length_takeWhile_le)
  have dd: "drop ?n ?d = dropWhile tag_space ?d" by (metis append_eq_conv_conj takeWhile_dropWhile_id)
  have tw: "takeWhile tag_space (?d @ x) = takeWhile tag_space ?d @ takeWhile tag_space (drop ?n ?d @ x)"
  proof (cases "\<forall>c\<in>set ?d. tag_space c")
    case True
    then have t: "takeWhile tag_space ?d = ?d" by (simp add: takeWhile_eq_all_conv)
    have "takeWhile tag_space (?d @ x) = ?d @ takeWhile tag_space x" using True by (simp add: takeWhile_append2)
    then show ?thesis unfolding t by simp
  next
    case False
    then obtain c where c: "c \<in> set ?d" "\<not> tag_space c" by blast
    then have "takeWhile tag_space (?d @ x) = takeWhile tag_space ?d" by (rule takeWhile_append1)
    moreover have "takeWhile tag_space (dropWhile tag_space ?d @ x) = []"
      using c by (intro takeWhile_stop bexI)
    ultimately show ?thesis using dd by simp
  qed
  have e: "drop (qp_parse_pos p) (qp_raw p @ x) = ?d @ x" using pos by simp
  have e': "drop (qp_parse_pos p + ?n) (qp_raw p @ x) = drop ?n ?d @ x" using pos n by (simp add: add.commute)
  show "skip_tag_space (ext x (skip_tag_space p)) = skip_tag_space (ext x p)"
    by (simp add: skip_tag_space_def ext_def e e' tw add.assoc del: drop_append)
  assume lt: "qp_parse_pos (skip_tag_space p) < length (qp_raw p)"
  then have "dropWhile tag_space ?d \<noteq> []" using skip_space_facts(4) [OF assms(1)] by (metis drop_eq_Nil leD)
  then obtain c where "c \<in> set ?d" "\<not> tag_space c" by (metis dropWhile_eq_Nil_conv)
  then have "takeWhile tag_space (?d @ x) = takeWhile tag_space ?d" by (rule takeWhile_append1)
  then show "skip_tag_space (ext x p) = ext x (skip_tag_space p)" by (simp add: skip_tag_space_def ext_def e del: drop_append)
qed

section \<open>The loop and more text\<close>

lemma parse_step_go:
  assumes "parser_ok p" "parse_step p = Go p'"
  shows "qp_parse_pos p < qp_parse_pos p' \<and> parser_ok p' \<and> qp_raw p' = qp_raw p"
proof (cases "qp_state p = AGENT_QWEN_TOOL_PARAM_VALUE")
  case True
  then show ?thesis using parse_value_go [OF assms(1) True] assms(2) by (simp add: parse_step_def)
next
  case False
  then have st: "qp_state p = AGENT_QWEN_TOOL_STRUCTURAL" "parse_structural p = Go p'"
    using assms(2) by (auto simp: parse_step_def split: agent_qwen_tool_state.splits)
  let ?p = "skip_tag_space p"
  note sk = skip_space_facts [OF assms(1)]
  have go: "structural_at ?p (cstr_at ?p (qp_parse_pos ?p)) = Go p'"
    using st(2) by (auto simp: parse_structural_def Let_def split: if_splits)
  have "cstr_at ?p (qp_parse_pos ?p) = drop (qp_parse_pos ?p) (qp_raw p)"
    using assms(1) sk(5) by (simp add: cstr_at_def no_nul_drop parser_ok_def)
  moreover have "qp_parse_pos ?p + length (drop (qp_parse_pos ?p) (qp_raw p)) = length (qp_raw p)" using sk(3) by simp
  ultimately show ?thesis
    using structural_at_go [OF go] sk(2,3,5,6) assms(1) st(1) by (auto simp: parser_ok_def)
qed

text \<open>A halt is final, or it waits for more text.\<close>

lemma parse_step_halt:
  assumes ok: "parser_ok p" and h: "parse_step p = Halt p'" and x: "0 \<notin> set x"
  shows "(open_state (qp_state p') \<longrightarrow> parser_ok p' \<and> parse_step (ext x p') = parse_step (ext x p) \<and> qp_raw p' = qp_raw p \<and>
      qp_parse_pos p \<le> qp_parse_pos p') \<and>
    (\<not> open_state (qp_state p') \<longrightarrow> parse_step (ext x p) = Halt (ext x p'))"
proof -
  consider (val) "qp_state p = AGENT_QWEN_TOOL_PARAM_VALUE" | (structural) "qp_state p = AGENT_QWEN_TOOL_STRUCTURAL"
    | (closed) "\<not> open_state (qp_state p)" by (auto simp: open_state_def)
  then show ?thesis
  proof cases
    case val
    then show ?thesis using h parse_value_halt [of p p'] ok by (auto simp: parse_step_def open_state_def)
  next
    case closed
    then show ?thesis using h
      by (auto simp: parse_step_def open_state_def split: agent_qwen_tool_state.splits)
  next
    case structural
    let ?p = "skip_tag_space p"
    note sk = skip_space_facts [OF ok]
    let ?q = "drop (qp_parse_pos ?p) (qp_raw p)"
    have nn: "0 \<notin> set (qp_raw p)" using ok by (simp add: parser_ok_def)
    have c: "cstr_at ?p (qp_parse_pos ?p) = ?q" using nn sk(5) by (simp add: cstr_at_def no_nul_drop)
    have st: "parse_structural p = Halt p'" using h structural by (simp add: parse_step_def)
    show ?thesis
    proof (cases "62 \<in> set ?q")
      case False
      then have "p' = ?p" using st structural_at_wait c sk(5) by (auto simp: parse_structural_def Let_def split: if_splits)
      moreover have "parser_ok ?p" using sk(1) structural by auto
      moreover have "parse_step (ext x ?p) = parse_step (ext x p)"
        using skip_space_ext(1) [OF ok x] sk(6) structural by (simp add: parse_step_def parse_structural_def)
      ultimately show ?thesis using sk structural by (simp add: open_state_def)
    next
      case True
      then have lt: "qp_parse_pos ?p < length (qp_raw p)" by (metis drop_eq_Nil empty_iff empty_set leI)
      then have h': "structural_at ?p ?q = Halt p'" using st c sk(5) by (simp add: parse_structural_def Let_def)
      have cl: "\<not> open_state (qp_state p')"
        using h' True
        by (auto simp: structural_at_def parse_open_tag_def Let_def agent_qwen_tool_set_error_def open_state_def
            split: option.splits if_splits)
      have cx: "cstr_at (ext x ?p) (qp_parse_pos ?p) = ?q @ x"
        using no_nul_drop(1) [of "qp_raw p @ x" "qp_parse_pos ?p"] nn x lt sk(5) by (simp add: cstr_at_def)
      have "parse_structural (ext x p) = structural_at (ext x ?p) (?q @ x)"
        using skip_space_ext(2) [OF ok x lt] lt cx sk(5) by (simp add: parse_structural_def)
      then show ?thesis using structural_at_ext [OF True, of x ?p] h' cl structural by (simp add: parse_step_def)
    qed
  qed
qed

lemma parse_step_go_ext:
  assumes ok: "parser_ok p" and g: "parse_step p = Go p'" and x: "0 \<notin> set x"
  shows "parse_step (ext x p) = Go (ext x p')"
proof (cases "qp_state p = AGENT_QWEN_TOOL_PARAM_VALUE")
  case True
  then show ?thesis using parse_value_go [OF ok True] g x by (simp add: parse_step_def)
next
  case False
  then have st: "qp_state p = AGENT_QWEN_TOOL_STRUCTURAL" "parse_structural p = Go p'"
    using g by (auto simp: parse_step_def split: agent_qwen_tool_state.splits)
  let ?p = "skip_tag_space p"
  note sk = skip_space_facts [OF ok]
  let ?q = "drop (qp_parse_pos ?p) (qp_raw p)"
  have nn: "0 \<notin> set (qp_raw p)" using ok by (simp add: parser_ok_def)
  have c: "cstr_at ?p (qp_parse_pos ?p) = ?q" using nn sk(5) by (simp add: cstr_at_def no_nul_drop)
  have lt: "qp_parse_pos ?p < length (qp_raw p)" and g': "structural_at ?p ?q = Go p'"
    using st(2) c sk(5) by (auto simp: parse_structural_def Let_def split: if_splits)
  have q: "62 \<in> set ?q" using g' structural_at_wait [of ?q ?p] by auto
  have cx: "cstr_at (ext x ?p) (qp_parse_pos ?p) = ?q @ x"
    using no_nul_drop(1) [of "qp_raw p @ x" "qp_parse_pos ?p"] nn x lt sk(5) by (simp add: cstr_at_def)
  have "parse_structural (ext x p) = structural_at (ext x ?p) (?q @ x)"
    using skip_space_ext(2) [OF ok x lt] lt cx sk(5) by (simp add: parse_structural_def)
  then show ?thesis using structural_at_ext [OF q, of x ?p] g' st(1) by (simp add: parse_step_def)
qed

lemma parse_eq:
  "parser_ok p \<Longrightarrow> agent_qwen_tool_parse p = (case parse_step p of Halt p' \<Rightarrow> p' | Go p' \<Rightarrow> agent_qwen_tool_parse p')"
proof (cases "parse_step p")
  case (Go p')
  assume "parser_ok p"
  then have "length (qp_raw p') - qp_parse_pos p' < length (qp_raw p) - qp_parse_pos p"
    using parse_step_go [OF _ Go] by (auto simp: parser_ok_def)
  then show ?thesis using Go by (subst agent_qwen_tool_parse.simps) simp
next
  case (Halt p')
  then show ?thesis by (subst agent_qwen_tool_parse.simps) simp
qed

lemma parse_ext:
  assumes "parser_ok p" "0 \<notin> set x"
  shows "agent_qwen_tool_parse (ext x (agent_qwen_tool_parse p)) = agent_qwen_tool_parse (ext x p)"
  using assms
proof (induction p rule: agent_qwen_tool_parse.induct)
  case (1 p)
  have okx: "parser_ok q \<Longrightarrow> parser_ok (ext x q)" for q using 1(3) by (auto simp: parser_ok_def)
  show ?case
  proof (cases "parse_step p")
    case (Halt p')
    note h = parse_step_halt [OF 1(2) Halt 1(3)]
    have pp: "agent_qwen_tool_parse p = p'" using parse_eq [OF 1(2)] Halt by simp
    show ?thesis
    proof (cases "open_state (qp_state p')")
      case True
      then show ?thesis using h parse_eq [OF okx, of p'] parse_eq [OF okx [OF 1(2)]] unfolding pp by simp
    next
      case False
      then have "parse_step (ext x p') = Halt (ext x p')"
        by (auto simp: parse_step_def open_state_def split: agent_qwen_tool_state.split)
      then have "agent_qwen_tool_parse (ext x p') = ext x p'" by (subst agent_qwen_tool_parse.simps) simp
      then show ?thesis using h False parse_eq [OF okx [OF 1(2)]] unfolding pp by simp
    qed
  next
    case (Go p')
    note g = parse_step_go [OF 1(2) Go]
    have "agent_qwen_tool_parse p = agent_qwen_tool_parse p'" using parse_eq [OF 1(2)] Go by simp
    moreover have "agent_qwen_tool_parse (ext x p) = agent_qwen_tool_parse (ext x p')"
      using parse_step_go_ext [OF 1(2) Go 1(3)] parse_eq [OF okx [OF 1(2)]] by simp
    moreover have "length (qp_raw p') - qp_parse_pos p' < length (qp_raw p) - qp_parse_pos p"
      using g by (auto simp: parser_ok_def)
    ultimately show ?thesis using 1(1) [OF Go] g 1(3) by simp
  qed
qed

section \<open>Feeding\<close>

text \<open>All but the display's mark of a partial closing tag and the window of the search.\<close>

definition core :: "agent_qwen_tool_parser \<Rightarrow> agent_qwen_tool_parser" where
  "core p = p\<lparr>qp_param_close_prefix := False, qp_search_tail := []\<rparr>"

definition core_round :: "parse_round \<Rightarrow> parse_round" where
  "core_round r = (case r of Go p \<Rightarrow> Go (core p) | Halt p \<Rightarrow> Halt (core p))"

lemma core_simps [simp]: "qp_state (core p) = qp_state p" "qp_raw (core p) = qp_raw p" "qp_parse_pos (core p) = qp_parse_pos p"
  "core (core p) = core p" "core (ext x p) = ext x (core p)" "parser_ok (core p) = parser_ok p"
  "core_round (Go p) = Go (core p)" "core_round (Halt p) = Halt (core p)" "core (p\<lparr>qp_param_close_prefix := b\<rparr>) = core p"
  by (simp_all add: core_def ext_def parser_ok_def core_round_def)

lemma parse_step_core: "parse_step (core p) = core_round (parse_step p)"
proof -
  have o: "parse_open_tag (core q) tag = core_round (parse_open_tag q tag)" for q tag
    by (simp add: parse_open_tag_def Let_def agent_qwen_tool_set_error_def core_def core_round_def)
  have u: "agent_qwen_tool_set_error (core q) e = core (agent_qwen_tool_set_error q e)"
    "(agent_tool_calls_push (core q))\<lparr>qp_parse_pos := k\<rparr> = core ((agent_tool_calls_push q)\<lparr>qp_parse_pos := k\<rparr>)"
    "(core q)\<lparr>qp_parse_pos := k, qp_state := st\<rparr> = core (q\<lparr>qp_parse_pos := k, qp_state := st\<rparr>)"
    "ac_name (qp_current (core q)) = ac_name (qp_current q)" "qp_calls (core q) = qp_calls q" for q e k st
    by (simp_all add: agent_tool_calls_push_def agent_qwen_tool_set_error_def core_def)
  have st: "structural_at (core q) s = core_round (structural_at q s)" for q s
    by (cases "agent_qwen_tool_close_tag_at s (str ''tool_call'')"; cases "agent_qwen_tool_close_tag_at s (str ''function'')")
      (simp_all add: structural_at_def o u)
  have "skip_tag_space (core p) = core (skip_tag_space p)" by (simp add: skip_tag_space_def core_def)
  then have "parse_structural (core p) = core_round (parse_structural p)"
    by (simp add: parse_structural_def Let_def st) (simp add: cstr_at_def)
  moreover have "parse_value (core p) = core_round (parse_value p)"
    by (simp add: parse_value_def Let_def cstr_at_def split: option.split) (simp add: core_def cstr_at_def)
  ultimately show ?thesis by (simp add: parse_step_def split: agent_qwen_tool_state.split)
qed

lemma parse_core: "agent_qwen_tool_parse (core p) = core (agent_qwen_tool_parse p)"
proof (induction p rule: agent_qwen_tool_parse.induct)
  case (1 p)
  show ?case
  proof (cases "parse_step p")
    case (Go p')
    then show ?thesis
      using 1 [OF Go] by (subst (1 2) agent_qwen_tool_parse.simps) (simp add: parse_step_core)
  next
    case (Halt p')
    then show ?thesis by (subst (1 2) agent_qwen_tool_parse.simps) (simp add: parse_step_core)
  qed
qed

lemma parse_not_search: "qp_state p \<noteq> AGENT_QWEN_TOOL_SEARCH \<Longrightarrow> qp_state (agent_qwen_tool_parse p) \<noteq> AGENT_QWEN_TOOL_SEARCH"
proof (induction p rule: agent_qwen_tool_parse.induct)
  case (1 p)
  have "qp_state p' \<noteq> AGENT_QWEN_TOOL_SEARCH" if "parse_step p = Go p' \<or> parse_step p = Halt p'" for p'
    using that 1(2)
    by (auto simp: parse_step_def parse_value_def parse_structural_def structural_at_def parse_open_tag_def Let_def
        agent_tool_calls_push_def agent_qwen_tool_set_error_def skip_tag_space_def
        split: agent_qwen_tool_state.splits option.splits if_splits)
  then show ?case using 1 by (subst agent_qwen_tool_parse.simps) (simp split: parse_round.split)
qed

lemma close_prefix_core: "core (agent_qwen_tool_update_param_close_prefix p) = core p"
  by (simp add: agent_qwen_tool_update_param_close_prefix_def Let_def split: option.split)

lemma feed_byte_open:
  assumes "qp_state p \<noteq> AGENT_QWEN_TOOL_SEARCH"
  shows "core (feed_byte p c) = core (agent_qwen_tool_parse (ext [c] p))" "qp_state (feed_byte p c) \<noteq> AGENT_QWEN_TOOL_SEARCH"
proof -
  show e: "core (feed_byte p c) = core (agent_qwen_tool_parse (ext [c] p))"
    using assms by (simp add: feed_byte_def Let_def close_prefix_core ext_def)
  have "qp_state (core (feed_byte p c)) = qp_state (core (agent_qwen_tool_parse (ext [c] p)))" unfolding e ..
  then show "qp_state (feed_byte p c) \<noteq> AGENT_QWEN_TOOL_SEARCH" using parse_not_search [of "ext [c] p"] assms by simp
qed

lemma feed_open:
  assumes "parser_ok p" "qp_state p \<noteq> AGENT_QWEN_TOOL_SEARCH" "agent_qwen_tool_parse p = p" "0 \<notin> set s"
  shows "core (foldl feed_byte p s) = core (agent_qwen_tool_parse (ext s p)) \<and> qp_state (foldl feed_byte p s) \<noteq> AGENT_QWEN_TOOL_SEARCH"
  using assms(4)
proof (induction s rule: rev_induct)
  case Nil
  then show ?case using assms by simp
next
  case (snoc c s)
  let ?q = "foldl feed_byte p s"
  have ih: "core ?q = core (agent_qwen_tool_parse (ext s p))" "qp_state ?q \<noteq> AGENT_QWEN_TOOL_SEARCH" using snoc by simp_all
  have ok: "parser_ok (ext s p)" using assms(1) snoc.prems by (auto simp: parser_ok_def)
  have "core (feed_byte ?q c) = core (agent_qwen_tool_parse (ext [c] ?q))" by (rule feed_byte_open [OF ih(2)])
  also have "\<dots> = agent_qwen_tool_parse (ext [c] (core ?q))" by (simp add: parse_core [symmetric])
  also have "\<dots> = core (agent_qwen_tool_parse (ext [c] (agent_qwen_tool_parse (ext s p))))"
    unfolding ih(1) by (simp add: parse_core [symmetric])
  also have "\<dots> = core (agent_qwen_tool_parse (ext [c] (ext s p)))" using parse_ext [OF ok, of "[c]"] snoc.prems by simp
  finally show ?case using feed_byte_open(2) [OF ih(2)] by simp
qed

section \<open>The search\<close>

lemma strstr_snoc:
  assumes "lit \<noteq> []" "strstr s lit = None"
  shows "strstr (s @ [c]) lit =
    (if length lit \<le> Suc (length s) \<and> drop (Suc (length s) - length lit) (s @ [c]) = lit then Some (Suc (length s) - length lit) else None)"
proof -
  have n: "\<not> starts_with lit (drop m s)" for m using assms(2) strstr_None_iff by blast
  have m: "starts_with lit (drop m (s @ [c])) \<longleftrightarrow> m + length lit = Suc (length s) \<and> drop m (s @ [c]) = lit" for m
  proof
    assume a: "starts_with lit (drop m (s @ [c]))"
    have le: "m + length lit \<le> Suc (length s)"
      using a assms(1) by (cases "m \<le> Suc (length s)") (auto simp: starts_with_def)
    have "\<not> m + length lit \<le> length s"
      using a n [of m] by (auto simp: starts_with_def)
    then have "m + length lit = Suc (length s)" using le by simp
    then show "m + length lit = Suc (length s) \<and> drop m (s @ [c]) = lit"
      using a by (auto simp: starts_with_def simp del: drop_append)
  qed (simp add: starts_with_def del: drop_append)
  show ?thesis
  proof (cases "length lit \<le> Suc (length s) \<and> drop (Suc (length s) - length lit) (s @ [c]) = lit")
    case True
    have "strstr (s @ [c]) lit = Some (Suc (length s) - length lit)"
    proof (rule strstr_SomeI)
      show "starts_with lit (drop (Suc (length s) - length lit) (s @ [c]))" unfolding m using True by simp
      show "\<not> starts_with lit (drop k (s @ [c]))" if "k < Suc (length s) - length lit" for k unfolding m using that by auto
      show "Suc (length s) - length lit \<le> length (s @ [c])" by simp
    qed
    then show ?thesis using True by simp
  next
    case False
    have "\<not> starts_with lit (drop k (s @ [c]))" for k using False m [of k] by (auto simp del: drop_append)
    then have "strstr (s @ [c]) lit = None" using strstr_None_iff by blast
    then show ?thesis using False by (simp only: if_False)
  qed
qed

definition window :: "bytes \<Rightarrow> bytes" where
  "window s = drop (length s - 64) s"

lemma window_snoc: "window (s @ [c]) = (if length (window s) = 64 then tl (window s) else window s) @ [c]"
proof (cases "length s \<le> 63")
  case False
  then have "length (window s) = 64" "Suc (length s) - 64 = Suc (length s - 64)" by (auto simp: window_def)
  then show ?thesis using False by (simp add: window_def tl_drop drop_Suc [symmetric] Suc_diff_le)
qed (auto simp: window_def)

lemma window_end:
  "11 \<le> length (window s) \<and> drop (length (window s) - 11) (window s) = l \<longleftrightarrow> 11 \<le> length s \<and> drop (length s - 11) s = l"
proof -
  have "11 \<le> length (window s) \<longleftrightarrow> 11 \<le> length s" by (auto simp: window_def)
  moreover have "11 \<le> length s \<Longrightarrow> drop (length (window s) - 11) (window s) = drop (length s - 11) s"
    by (auto simp: window_def)
  ultimately show ?thesis by auto
qed

lemma feed_search_window:
  "feed_byte (agent_qwen_tool_parser_reset\<lparr>qp_search_tail := window s\<rparr>) c =
    (if 11 \<le> length (s @ [c]) \<and> drop (length (s @ [c]) - 11) (s @ [c]) = Q36_TOOL_CALLS_START
     then agent_qwen_tool_start agent_qwen_tool_parser_reset
     else agent_qwen_tool_parser_reset\<lparr>qp_search_tail := window (s @ [c])\<rparr>)"
proof -
  have l: "length Q36_TOOL_CALLS_START = 11" by (simp add: tag_lits)
  have st: "qp_state (agent_qwen_tool_parser_reset\<lparr>qp_search_tail := window s\<rparr>) = AGENT_QWEN_TOOL_SEARCH"
    "qp_search_tail (agent_qwen_tool_parser_reset\<lparr>qp_search_tail := window s\<rparr>) = window s"
    by (simp_all add: agent_qwen_tool_parser_reset_def)
  have "agent_qwen_tool_start (agent_qwen_tool_parser_reset\<lparr>qp_search_tail := t\<rparr>) = agent_qwen_tool_start agent_qwen_tool_parser_reset" for t
    by (simp add: agent_qwen_tool_start_def agent_qwen_tool_parser_reset_def)
  then show ?thesis
    unfolding feed_byte_def st feed_search_def Let_def window_snoc [symmetric] l window_end by simp
qed

lemma feed_search_none:
  "strstr s Q36_TOOL_CALLS_START = None \<Longrightarrow>
    foldl feed_byte agent_qwen_tool_parser_reset s = agent_qwen_tool_parser_reset\<lparr>qp_search_tail := window s\<rparr>"
proof (induction s rule: rev_induct)
  case Nil
  then show ?case by (simp add: window_def agent_qwen_tool_parser_reset_def)
next
  case (snoc c s)
  have l: "Q36_TOOL_CALLS_START \<noteq> []" "length Q36_TOOL_CALLS_START = 11" by (simp_all add: tag_lits)
  have n: "strstr s Q36_TOOL_CALLS_START = None"
    using snoc.prems strstr_append_Some [of s Q36_TOOL_CALLS_START _ "[c]"] by (cases "strstr s Q36_TOOL_CALLS_START") auto
  have "\<not> (11 \<le> length (s @ [c]) \<and> drop (length (s @ [c]) - 11) (s @ [c]) = Q36_TOOL_CALLS_START)"
    using strstr_snoc [OF l(1) n, of c] snoc.prems l(2) by (auto simp del: drop_append split: if_splits)
  then show ?case using snoc.IH [OF n] feed_search_window [of s c] by (simp only: foldl_append foldl_Cons foldl_Nil if_False)
qed

lemma feed_search_found:
  assumes "strstr s Q36_TOOL_CALLS_START = None" "strstr (s @ [c]) Q36_TOOL_CALLS_START \<noteq> None"
  shows "foldl feed_byte agent_qwen_tool_parser_reset (s @ [c]) = agent_qwen_tool_start agent_qwen_tool_parser_reset"
proof -
  have l: "Q36_TOOL_CALLS_START \<noteq> []" "length Q36_TOOL_CALLS_START = 11" by (simp_all add: tag_lits)
  have "11 \<le> length (s @ [c]) \<and> drop (length (s @ [c]) - 11) (s @ [c]) = Q36_TOOL_CALLS_START"
    using strstr_snoc [OF l(1) assms(1), of c] assms(2) l(2) by (auto simp del: drop_append split: if_splits)
  then show ?thesis
    using feed_search_none [OF assms(1)] feed_search_window [of s c] by (simp only: foldl_append foldl_Cons foldl_Nil if_True simp_thms)
qed

section \<open>One pass over a whole text\<close>

definition parse_whole :: "bytes \<Rightarrow> agent_qwen_tool_parser" where
  "parse_whole s =
     (case strstr s Q36_TOOL_CALLS_START of
        None \<Rightarrow> agent_qwen_tool_parser_reset
      | Some n \<Rightarrow>
          agent_qwen_tool_parse (agent_qwen_tool_parser_reset\<lparr>qp_state := AGENT_QWEN_TOOL_STRUCTURAL, qp_raw := drop n s,
            qp_parse_pos := length Q36_TOOL_CALLS_START\<rparr>))"

lemma start_fixed:
  "agent_qwen_tool_parse (agent_qwen_tool_start agent_qwen_tool_parser_reset) = agent_qwen_tool_start agent_qwen_tool_parser_reset"
  "parser_ok (agent_qwen_tool_start agent_qwen_tool_parser_reset)"
  by (subst agent_qwen_tool_parse.simps)
    (auto simp: parse_step_def parse_structural_def skip_tag_space_def agent_qwen_tool_start_def agent_qwen_tool_parser_reset_def
      parser_ok_def Let_def tag_lits)

lemma feed_whole:
  assumes "0 \<notin> set s"
  shows "core (foldl feed_byte agent_qwen_tool_parser_reset s) = core (parse_whole s)"
proof (cases "strstr s Q36_TOOL_CALLS_START")
  case None
  then show ?thesis by (simp add: feed_search_none parse_whole_def) (simp add: core_def)
next
  case (Some n)
  have l: "length Q36_TOOL_CALLS_START = 11" "Q36_TOOL_CALLS_START \<noteq> []" by (simp_all add: tag_lits)
  have b: "n + 11 \<le> length s" using strstr_bound [OF Some] l by simp
  define w where "w = take (n + 10) s"
  have "\<not> starts_with Q36_TOOL_CALLS_START (drop m w)" for m
  proof
    assume a: "starts_with Q36_TOOL_CALLS_START (drop m w)"
    then have m: "m + 11 \<le> n + 10" using l b by (auto simp: starts_with_def w_def)
    have "starts_with Q36_TOOL_CALLS_START (drop m w @ drop (n + 10) s)" using a by (auto simp: starts_with_def)
    moreover have "drop m w = take (n + 10 - m) (drop m s)" "drop (n + 10) s = drop (n + 10 - m) (drop m s)"
      using m by (simp_all add: w_def drop_take)
    then have "drop m w @ drop (n + 10) s = drop m s" by (simp only: append_take_drop_id)
    ultimately show False using strstr_least [OF Some, of m] m by simp
  qed
  then have wn: "strstr w Q36_TOOL_CALLS_START = None" using strstr_None_iff by blast
  have sw: "s = w @ [s ! (n + 10)] @ drop (n + 11) s"
    using id_take_nth_drop [of "n + 10" s] b by (simp add: w_def add.commute [of 11 n])
  have "take (n + 11) s = w @ [s ! (n + 10)]"
    using take_Suc_conv_app_nth [of "n + 10" s] b by (simp add: w_def add.commute [of 11 n])
  moreover have "strstr (take (n + 11) s) Q36_TOOL_CALLS_START \<noteq> None"
    using strstr_found [OF Some] l b unfolding strstr_None_iff
    by (auto simp: starts_with_def drop_take intro!: exI [of _ n])
  ultimately have "foldl feed_byte agent_qwen_tool_parser_reset (w @ [s ! (n + 10)]) = agent_qwen_tool_start agent_qwen_tool_parser_reset"
    using feed_search_found [OF wn] by simp
  then have f: "foldl feed_byte agent_qwen_tool_parser_reset s =
      foldl feed_byte (agent_qwen_tool_start agent_qwen_tool_parser_reset) (drop (n + 11) s)"
    by (subst sw) simp
  have "drop n s = Q36_TOOL_CALLS_START @ drop (n + 11) s"
    using strstr_found [OF Some] l(1) by (auto simp: starts_with_def) (metis append_take_drop_id drop_drop add.commute)
  then have "ext (drop (n + 11) s) (agent_qwen_tool_start agent_qwen_tool_parser_reset) =
      agent_qwen_tool_parser_reset\<lparr>qp_state := AGENT_QWEN_TOOL_STRUCTURAL, qp_raw := drop n s, qp_parse_pos := length Q36_TOOL_CALLS_START\<rparr>"
    by (simp add: ext_def agent_qwen_tool_start_def agent_qwen_tool_parser_reset_def)
  moreover have "0 \<notin> set (drop (n + 11) s)" using assms by (meson in_set_dropD)
  ultimately show ?thesis
    using feed_open [OF start_fixed(2) _ start_fixed(1), of "drop (n + 11) s"] f Some
    by (simp add: parse_whole_def agent_qwen_tool_start_def)
qed

definition parsed ::
    "agent_qwen_tool_parser \<Rightarrow> agent_qwen_tool_state \<times> agent_tool_call list \<times> agent_tool_call \<times> bytes option \<times> bytes" where
  "parsed p = (qp_state p, qp_calls p, qp_current p, qp_param_name p, qp_error p)"

lemma parsed_core: "core p = core q \<Longrightarrow> parsed p = parsed q"
proof -
  have "parsed (core p) = parsed p" for p by (simp add: parsed_def core_def)
  then show "core p = core q \<Longrightarrow> parsed p = parsed q" by metis
qed

definition closed_state :: "agent_qwen_tool_parser \<Rightarrow> bool" where
  "closed_state p \<longleftrightarrow> qp_state p = AGENT_QWEN_TOOL_DONE \<or> qp_state p = AGENT_QWEN_TOOL_ERROR"

lemma closed_feed: "closed_state p \<Longrightarrow> closed_state (foldl feed_byte p s) \<and> parsed (foldl feed_byte p s) = parsed p"
proof (induction s arbitrary: p)
  case (Cons c s)
  have "parse_step (p\<lparr>qp_raw := qp_raw p @ [c]\<rparr>) = Halt (p\<lparr>qp_raw := qp_raw p @ [c]\<rparr>)"
    using Cons.prems by (auto simp: parse_step_def closed_state_def)
  then have "agent_qwen_tool_parse (p\<lparr>qp_raw := qp_raw p @ [c]\<rparr>) = p\<lparr>qp_raw := qp_raw p @ [c]\<rparr>"
    by (subst agent_qwen_tool_parse.simps) simp
  then have "closed_state (feed_byte p c) \<and> parsed (feed_byte p c) = parsed p"
    using Cons.prems by (auto simp: feed_byte_def Let_def closed_state_def parsed_def)
  then show ?case using Cons.IH [of "feed_byte p c"] by simp
qed simp

lemma feed_pieces:
  "foldl agent_qwen_tool_feed p css = foldl feed_byte p (concat css) \<or>
    closed_state (foldl agent_qwen_tool_feed p css) \<and>
    closed_state (foldl feed_byte p (concat css)) \<and>
    parsed (foldl agent_qwen_tool_feed p css) = parsed (foldl feed_byte p (concat css))"
proof (induction css rule: rev_induct)
  case (snoc cs css)
  let ?P = "foldl agent_qwen_tool_feed p css" and ?Q = "foldl feed_byte p (concat css)"
  show ?case
  proof (cases "closed_state ?P")
    case True
    then have "agent_qwen_tool_feed ?P cs = ?P" by (auto simp: agent_qwen_tool_feed_def closed_state_def)
    moreover have "closed_state ?Q" "parsed ?P = parsed ?Q" using snoc True by auto
    ultimately show ?thesis using closed_feed [of ?Q cs] True by simp
  next
    case False
    then have "agent_qwen_tool_feed ?P cs = foldl feed_byte ?P cs" by (auto simp: agent_qwen_tool_feed_def closed_state_def)
    then show ?thesis using snoc False by auto
  qed
qed simp

lemma agent_feed_whole:
  "0 \<notin> set (concat css) \<Longrightarrow>
    parsed (foldl agent_qwen_tool_feed agent_qwen_tool_parser_reset css) = parsed (parse_whole (concat css))"
  using feed_pieces [of agent_qwen_tool_parser_reset css] parsed_core [OF feed_whole [of "concat css"]] by auto

text \<open>
  C18. However the sampled text is cut into pieces, the agent's parser, fed piece by piece and resuming from the
  position it reached, ends in the state, the calls, the call being read and the error that one pass of the
  parser over the whole text gives.
\<close>

theorem agent_feed_streaming:
  assumes "0 \<notin> set (concat css)"
  shows "parsed (foldl agent_qwen_tool_feed agent_qwen_tool_parser_reset css) = parsed (parse_whole (concat css))"
  by (rule agent_feed_whole [OF assms])

theorem agent_feed_streaming_witness:
  "parsed (foldl agent_qwen_tool_feed agent_qwen_tool_parser_reset [str ''a<tool_'', str ''call><fun'', str ''ction=f ></function></tool_call>'']) =
    (AGENT_QWEN_TOOL_DONE, [\<lparr>ac_name = Some (str ''f''), ac_args = []\<rparr>], no_call, None, [])"
proof -
  have w: "parsed (parse_whole (concat [str ''a<tool_'', str ''call><fun'', str ''ction=f ></function></tool_call>''])) =
    (AGENT_QWEN_TOOL_DONE, [\<lparr>ac_name = Some (str ''f''), ac_args = []\<rparr>], no_call, None, [])"
    by code_simp
  show ?thesis unfolding w [symmetric] by (rule agent_feed_streaming) (simp add: lit_simps)
qed

end
