(* ===== verification/Agent_Round.thy ===== *)
theory Agent_Round
  imports Agent_Parse_Props
begin

text \<open>
  The two ends of the tool format agree: a call that the server renders is read by the agent's parser as
  the same call, however the text is cut into pieces.
\<close>

section \<open>A state in front of some text\<close>

definition mk :: "bytes \<Rightarrow> bytes \<Rightarrow> agent_tool_call \<Rightarrow> agent_tool_call list \<Rightarrow> nat \<Rightarrow> agent_qwen_tool_parser" where
  "mk R T cur cs vs =
     agent_qwen_tool_parser_reset\<lparr>qp_state := AGENT_QWEN_TOOL_STRUCTURAL, qp_raw := R @ T, qp_parse_pos := length R,
       qp_current := cur, qp_calls := cs, qp_param_value_start := vs\<rparr>"

definition spaces :: "bytes \<Rightarrow> bool" where
  "spaces w \<longleftrightarrow> (\<forall>c\<in>set w. tag_space c)"

lemma mk_ok: "0 \<notin> set (R @ T) \<Longrightarrow> parser_ok (mk R T cur cs vs)"
  by (simp add: mk_def parser_ok_def agent_qwen_tool_parser_reset_def)

lemma mk_skip:
  assumes "spaces w" "q = [] \<or> \<not> tag_space (hd q)"
  shows "skip_tag_space (mk R (w @ q) cur cs vs) = mk (R @ w) q cur cs vs"
proof -
  have "takeWhile tag_space q = []" using assms(2) by (cases q) auto
  then have "takeWhile tag_space (w @ q) = w" using assms(1) by (simp add: spaces_def takeWhile_append2)
  then show ?thesis by (simp add: skip_tag_space_def mk_def agent_qwen_tool_parser_reset_def)
qed

lemma mk_step:
  assumes "spaces w" "q \<noteq> []" "\<not> tag_space (hd q)" "0 \<notin> set q"
  shows "parse_step (mk R (w @ q) cur cs vs) = structural_at (mk (R @ w) q cur cs vs) q"
proof -
  have s: "skip_tag_space (mk R (w @ q) cur cs vs) = mk (R @ w) q cur cs vs" by (rule mk_skip [OF assms(1)]) (use assms(3) in simp)
  have "cstr_at (mk (R @ w) q cur cs vs) (qp_parse_pos (mk (R @ w) q cur cs vs)) = q"
    using assms(4) by (simp add: cstr_at_def mk_def)
  moreover have "qp_parse_pos (mk (R @ w) q cur cs vs) < length (qp_raw (mk (R @ w) q cur cs vs))"
    using assms(2) by (simp add: mk_def)
  moreover have "qp_state (mk R (w @ q) cur cs vs) = AGENT_QWEN_TOOL_STRUCTURAL" by (simp add: mk_def)
  ultimately show ?thesis unfolding parse_step_def parse_structural_def Let_def s by simp
qed

definition tag_name_ok :: "bytes \<Rightarrow> bool" where
  "tag_name_ok n \<longleftrightarrow> n \<noteq> [] \<and> 62 \<notin> set n \<and> 0 \<notin> set n \<and> \<not> isspace (last n)"

lemma trim_name_ok: "tag_name_ok n \<Longrightarrow> trim_name n = n"
  by (cases n rule: rev_cases) (auto simp: trim_name_def tag_name_ok_def)

lemma no_close_open: "starts_with [60, 102] q \<or> starts_with [60, 112] q \<Longrightarrow> agent_qwen_tool_close_tag_at q n = None"
  by (cases q; cases "tl q") (auto simp: agent_qwen_tool_close_tag_at_def Let_def lit_simps)

lemma take_to_gt: "62 \<notin> set p \<Longrightarrow> takeWhile (\<lambda>c. c \<noteq> 62) (p @ 62 # T) = p"
  by (induction p) auto

lemma open_function:
  assumes "spaces w" "tag_name_ok n" "0 \<notin> set T"
  shows "parse_step (mk R (w @ str ''<function='' @ n @ [62] @ T) cur cs vs) =
    Go (mk (R @ w @ str ''<function='' @ n @ [62]) T \<lparr>ac_name = Some n, ac_args = []\<rparr> cs vs)"
proof -
  let ?q = "str ''<function='' @ n @ [62] @ T"
  have n: "n \<noteq> []" "62 \<notin> set n" "0 \<notin> set n" using assms(2) by (simp_all add: tag_name_ok_def)
  have z: "0 \<notin> set ?q" "hd ?q = 60" "62 \<notin> set (str ''<function='' @ n)" using n assms(3) by (simp_all add: lit_simps)
  have tw: "takeWhile (\<lambda>c. c \<noteq> 62) ?q @ [62] = str ''<function='' @ n @ [62]"
    using take_to_gt [OF z(3), of T] by simp
  have "agent_qwen_tool_close_tag_at ?q m = None" for m by (rule no_close_open) (simp add: lit_simps)
  then have "structural_at (mk (R @ w) ?q cur cs vs) ?q = parse_open_tag (mk (R @ w) ?q cur cs vs) (str ''<function='' @ n @ [62])"
    unfolding structural_at_def tw by simp
  also have "\<dots> = Go (mk (R @ w @ str ''<function='' @ n @ [62]) T \<lparr>ac_name = Some n, ac_args = []\<rparr> cs vs)"
    using n(1) trim_name_ok [OF assms(2)]
    by (simp add: parse_open_tag_def Let_def mk_def agent_qwen_tool_parser_reset_def butlast_append)
  finally show ?thesis using mk_step [OF assms(1), of ?q R cur cs vs] z by (simp add: lit_simps tag_space_def)
qed

definition in_value :: "bytes \<Rightarrow> bytes \<Rightarrow> bytes \<Rightarrow> agent_tool_call \<Rightarrow> agent_tool_call list \<Rightarrow> agent_qwen_tool_parser" where
  "in_value R T k cur cs =
     agent_qwen_tool_parser_reset\<lparr>qp_state := AGENT_QWEN_TOOL_PARAM_VALUE, qp_raw := R @ T, qp_parse_pos := length R,
       qp_current := cur, qp_calls := cs, qp_param_value_start := length R, qp_param_name := Some k\<rparr>"

lemma open_parameter:
  assumes "spaces w" "tag_name_ok k" "0 \<notin> set T" "ac_name cur \<noteq> None"
  shows "parse_step (mk R (w @ str ''<parameter='' @ k @ [62] @ T) cur cs vs) = Go (in_value (R @ w @ str ''<parameter='' @ k @ [62]) T k cur cs)"
proof -
  let ?q = "str ''<parameter='' @ k @ [62] @ T"
  have n: "k \<noteq> []" "62 \<notin> set k" "0 \<notin> set k" using assms(2) by (simp_all add: tag_name_ok_def)
  have z: "0 \<notin> set ?q" "hd ?q = 60" "62 \<notin> set (str ''<parameter='' @ k)" using n assms(3) by (simp_all add: lit_simps)
  have tw: "takeWhile (\<lambda>c. c \<noteq> 62) ?q @ [62] = str ''<parameter='' @ k @ [62]"
    using take_to_gt [OF z(3), of T] by simp
  have nf: "\<not> starts_with (str ''<function='') (str ''<parameter='' @ k @ [62])" by (simp add: lit_simps)
  have "agent_qwen_tool_close_tag_at ?q m = None" for m by (rule no_close_open) (simp add: lit_simps)
  then have "structural_at (mk (R @ w) ?q cur cs vs) ?q = parse_open_tag (mk (R @ w) ?q cur cs vs) (str ''<parameter='' @ k @ [62])"
    unfolding structural_at_def tw by simp
  also have "\<dots> = Go (in_value (R @ w @ str ''<parameter='' @ k @ [62]) T k cur cs)"
    using n(1) trim_name_ok [OF assms(2)] assms(4) nf
    by (simp add: parse_open_tag_def Let_def mk_def in_value_def agent_qwen_tool_parser_reset_def butlast_append)
  finally show ?thesis using mk_step [OF assms(1), of ?q R cur cs vs] z by (simp add: lit_simps tag_space_def)
qed

section \<open>The value\<close>

lemma find_close_None: "agent_qwen_tool_find_close_tag s n = None \<Longrightarrow> agent_qwen_tool_close_tag_at (drop i s) n = None"
proof (induction s arbitrary: i)
  case Nil
  then show ?case using close_tag_gt [of "[]" n] by (cases "agent_qwen_tool_close_tag_at [] n") auto
next
  case (Cons c s)
  have sw: "agent_qwen_tool_close_tag_at (c # s) n \<noteq> None \<Longrightarrow> starts_with (str ''</'') (c # s)"
    by (auto simp: agent_qwen_tool_close_tag_at_def Let_def starts_with_append_iff split: if_splits)
  let ?x = "if starts_with (str ''</'') (c # s) then agent_qwen_tool_close_tag_at (c # s) n else None"
  have x: "?x = None"
  proof (rule ccontr)
    assume "?x \<noteq> None"
    then obtain m where "?x = Some m" by blast
    then show False using Cons.prems by (simp only: agent_qwen_tool_find_close_tag.simps option.case option.distinct)
  qed
  then have "agent_qwen_tool_find_close_tag s n = None"
    using Cons.prems by (simp only: agent_qwen_tool_find_close_tag.simps option.case option.map_disc_iff)
  moreover have "agent_qwen_tool_close_tag_at (c # s) n = None" using x sw by (simp only: if_True split: if_splits) blast
  ultimately have "agent_qwen_tool_close_tag_at (c # s) n = None" "agent_qwen_tool_find_close_tag s n = None" by simp_all
  then show ?case using Cons.IH by (cases i) simp_all
qed

lemma find_close_skip:
  "(\<And>i. i < length e \<Longrightarrow> agent_qwen_tool_close_tag_at (drop i e @ r) n = None) \<Longrightarrow>
    agent_qwen_tool_find_close_tag (e @ r) n = map_option (\<lambda>(k, m). (length e + k, m)) (agent_qwen_tool_find_close_tag r n)"
proof (induction e)
  case Nil
  then show ?case by (cases "agent_qwen_tool_find_close_tag r n") auto
next
  case (Cons c e)
  have "agent_qwen_tool_close_tag_at (c # e @ r) n = None" using Cons.prems [of 0] by simp
  moreover have "agent_qwen_tool_find_close_tag (e @ r) n = map_option (\<lambda>(k, m). (length e + k, m)) (agent_qwen_tool_find_close_tag r n)"
    by (rule Cons.IH) (use Cons.prems [of "Suc i" for i] in simp)
  ultimately show ?case by (cases "agent_qwen_tool_find_close_tag r n") auto
qed

text \<open>A text that ends with a newline cannot have begun a closing tag that a following tag completes.\<close>

lemma close_tag_newline:
  assumes "agent_qwen_tool_close_tag_at d n = None" "d \<noteq> []" "last d = 10" "10 \<notin> set n" "62 \<notin> set n"
  shows "agent_qwen_tool_close_tag_at (d @ 60 # x) n = None"
proof (cases "62 \<in> set d")
  case True
  then show ?thesis using close_tag_append [OF True assms(5)] assms(1) by simp
next
  case False
  let ?pre = "str ''</'' @ n"
  show ?thesis
  proof (cases "starts_with ?pre (d @ 60 # x)")
    case sw: True
    have le: "length ?pre \<le> length d"
    proof (rule ccontr)
      assume "\<not> length ?pre \<le> length d"
      then have "take (length d) (take (length ?pre) (d @ 60 # x)) = d" by simp
      then have "take (length d) ?pre = d" using sw by (simp only: starts_with_def)
      then have "last d \<in> set ?pre" using assms(2) by (metis in_set_takeD last_in_set)
      then show False using assms(3,4) by (auto simp: lit_simps)
    qed
    let ?r = "drop (length ?pre) d"
    have r: "62 \<notin> set ?r" using False by (meson in_set_dropD)
    have "peek (dropWhile tag_space (?r @ 60 # x)) \<noteq> 62"
    proof (cases "\<forall>c\<in>set ?r. tag_space c")
      case True
      then have "dropWhile tag_space (?r @ 60 # x) = 60 # x" by (simp add: dropWhile_append2 tag_space_def)
      then show ?thesis by simp
    next
      case False
      then have "dropWhile tag_space (?r @ 60 # x) = dropWhile tag_space ?r @ 60 # x" "dropWhile tag_space ?r \<noteq> []"
        using dropWhile_append_stop [of ?r tag_space] by (auto simp: dropWhile_eq_Nil_conv)
      moreover have "set (dropWhile tag_space ?r) \<subseteq> set ?r" by (meson set_dropWhileD subsetI)
      ultimately show ?thesis using r by (cases "dropWhile tag_space ?r") auto
    qed
    then show ?thesis using le by (simp add: agent_qwen_tool_close_tag_at_def Let_def)
  qed (simp add: agent_qwen_tool_close_tag_at_def Let_def)
qed

definition value_ok :: "bytes \<Rightarrow> bool" where
  "value_ok e \<longleftrightarrow> 0 \<notin> set e \<and> agent_qwen_tool_find_close_tag e (str ''parameter'') = None"

lemma close_in_value:
  assumes "agent_qwen_tool_find_close_tag e n = None" "10 \<notin> set n" "62 \<notin> set n" "i < length ([10] @ e @ [10])"
  shows "agent_qwen_tool_close_tag_at (drop i ([10] @ e @ [10]) @ 60 # x) n = None"
proof (rule close_tag_newline [OF _ _ _ assms(2,3)])
  show "agent_qwen_tool_close_tag_at (drop i ([10] @ e @ [10])) n = None"
  proof (cases i)
    case 0
    then show ?thesis by (simp add: agent_qwen_tool_close_tag_at_def Let_def lit_simps)
  next
    case (Suc j)
    then have d: "drop i ([10] @ e @ [10]) = drop j e @ [10]" using assms(4) by simp
    show ?thesis
    proof (cases "62 \<in> set (drop j e)")
      case True
      then show ?thesis unfolding d using close_tag_append [OF True assms(3)] find_close_None [OF assms(1)] by simp
    next
      case False
      then show ?thesis unfolding d using close_tag_gt [of "drop j e @ [10]" n]
        by (cases "agent_qwen_tool_close_tag_at (drop j e @ [10]) n") auto
    qed
  qed
  show "drop i ([10] @ e @ [10]) \<noteq> []" using assms(4) by simp
  show "last (drop i ([10] @ e @ [10])) = 10" using assms(4) by (simp add: last_drop)
qed

lemma close_parameter:
  assumes "value_ok e" "0 \<notin> set T"
  shows "parse_step (in_value R ([10] @ e @ [10] @ str ''</parameter>'' @ T) k cur cs) =
    Go (mk (R @ [10] @ e @ [10] @ str ''</parameter>'') T (agent_tool_call_add_arg cur k (q36_tool_text_unescape e Q36_PARAM_END)) cs (length R))"
proof -
  let ?v = "[10] @ e @ [10]" and ?r = "str ''</parameter>'' @ T"
  let ?p = "in_value R (?v @ ?r) k cur cs"
  have r: "?r = 60 # drop 1 ?r" by (simp add: lit_simps)
  have e: "0 \<notin> set e" "agent_qwen_tool_find_close_tag e (str ''parameter'') = None" using assms(1) by (simp_all add: value_ok_def)
  have "agent_qwen_tool_find_close_tag ?r (str ''parameter'') = Some (0, 12)"
    by (simp add: agent_qwen_tool_close_tag_at_def Let_def lit_simps tag_space_def)
  moreover have "agent_qwen_tool_find_close_tag (?v @ ?r) (str ''parameter'') =
      map_option (\<lambda>(k, m). (length ?v + k, m)) (agent_qwen_tool_find_close_tag ?r (str ''parameter''))"
  proof (rule find_close_skip)
    fix i assume i: "i < length ?v"
    show "agent_qwen_tool_close_tag_at (drop i ?v @ ?r) (str ''parameter'') = None"
      by (subst r, rule close_in_value [OF e(2) _ _ i]) (simp_all add: lit_simps)
  qed
  ultimately have f: "agent_qwen_tool_find_close_tag (?v @ ?r) (str ''parameter'') = Some (length ?v, 12)" by simp
  have c: "cstr_at ?p (qp_param_value_start ?p) = ?v @ ?r"
    using e(1) assms(2) by (simp add: cstr_at_def in_value_def) (auto intro!: c_str_id simp: lit_simps)
  have t: "trim_value ?v = e" by (simp add: trim_value_def)
  have d: "drop (qp_param_value_start ?p) (qp_raw ?p) = ?v @ ?r" by (simp add: in_value_def)
  have "parse_value ?p = Go (mk (R @ ?v @ str ''</parameter>'') T (agent_tool_call_add_arg cur k (q36_tool_text_unescape e Q36_PARAM_END)) cs (length R))"
    unfolding parse_value_def c f d using e(1) t
    by (simp add: Let_def) (simp add: in_value_def mk_def agent_qwen_tool_parser_reset_def lit_simps)
  then show ?thesis by (simp add: parse_step_def) (simp add: in_value_def)
qed

lemma step_go: "parser_ok p \<Longrightarrow> parse_step p = Go p' \<Longrightarrow> agent_qwen_tool_parse p = agent_qwen_tool_parse p'"
  by (simp add: parse_eq)

text \<open>A parameter as the server writes it, and a list of them.\<close>

definition arg_text_ok :: "json_arg \<Rightarrow> bool" where
  "arg_text_ok a \<longleftrightarrow> tag_name_ok (arg_key a) \<and> value_ok (tool_text_escape (arg_value a) Q36_PARAM_END)"

lemma parameter_text:
  assumes "spaces w" "arg_text_ok a" "0 \<notin> set (R @ w)" "0 \<notin> set T" "ac_name cur \<noteq> None"
  shows "\<exists>R' vs'. 0 \<notin> set R' \<and> agent_qwen_tool_parse (mk R (w @ append_qwen_parameter a @ T) cur cs vs) =
    agent_qwen_tool_parse (mk R' ([10] @ T) (agent_tool_call_add_arg cur (arg_key a) (arg_value a)) cs vs')"
proof -
  let ?e = "tool_text_escape (arg_value a) Q36_PARAM_END"
  have a: "tag_name_ok (arg_key a)" "value_ok ?e" using assms(2) by (simp_all add: arg_text_ok_def)
  have n: "0 \<notin> set (arg_key a)" "0 \<notin> set ?e" using a by (simp_all add: tag_name_ok_def value_ok_def)
  have e: "append_qwen_parameter a @ T = str ''<parameter='' @ arg_key a @ [62] @ ([10] @ ?e @ [10] @ str ''</parameter>'' @ [10] @ T)"
    by (simp add: append_qwen_parameter_def Q36_PARAM_START_def lit_simps)
  let ?T = "[10] @ ?e @ [10] @ str ''</parameter>'' @ [10] @ T"
  let ?R = "R @ w @ str ''<parameter='' @ arg_key a @ [62]"
  have z: "0 \<notin> set ?T" "0 \<notin> set ?R" using n assms(3,4) by (simp_all add: lit_simps)
  have "parser_ok (mk R (w @ str ''<parameter='' @ arg_key a @ [62] @ ?T) cur cs vs)"
    using z n assms(3) by (intro mk_ok) (simp add: lit_simps)
  then have "agent_qwen_tool_parse (mk R (w @ append_qwen_parameter a @ T) cur cs vs) = agent_qwen_tool_parse (in_value ?R ?T (arg_key a) cur cs)"
    unfolding e by (rule step_go [OF _ open_parameter [OF assms(1) a(1) z(1) assms(5)]])
  also have "\<dots> = agent_qwen_tool_parse (mk (?R @ [10] @ ?e @ [10] @ str ''</parameter>'') ([10] @ T)
      (agent_tool_call_add_arg cur (arg_key a) (q36_tool_text_unescape ?e Q36_PARAM_END)) cs (length ?R))"
  proof (rule step_go)
    show "parser_ok (in_value ?R ?T (arg_key a) cur cs)" using z by (simp add: in_value_def parser_ok_def)
    show "parse_step (in_value ?R ?T (arg_key a) cur cs) = Go (mk (?R @ [10] @ ?e @ [10] @ str ''</parameter>'') ([10] @ T)
      (agent_tool_call_add_arg cur (arg_key a) (q36_tool_text_unescape ?e Q36_PARAM_END)) cs (length ?R))"
      by (rule close_parameter [OF a(2)]) (use assms(4) in simp)
  qed
  also have "q36_tool_text_unescape ?e Q36_PARAM_END = arg_value a" by (rule unescape_escape [OF param_end_delimiter])
  finally have "agent_qwen_tool_parse (mk R (w @ append_qwen_parameter a @ T) cur cs vs) =
      agent_qwen_tool_parse (mk (?R @ [10] @ ?e @ [10] @ str ''</parameter>'') ([10] @ T)
        (agent_tool_call_add_arg cur (arg_key a) (arg_value a)) cs (length ?R))" .
  moreover have "0 \<notin> set (?R @ [10] @ ?e @ [10] @ str ''</parameter>'')" using z n by (simp add: lit_simps)
  ultimately show ?thesis by blast
qed

lemma parameters_text:
  assumes "spaces w" "\<forall>a\<in>set as. arg_text_ok a" "0 \<notin> set (R @ w)" "0 \<notin> set T"
  shows "\<exists>R' w' vs'. spaces w' \<and> 0 \<notin> set (R' @ w') \<and>
    agent_qwen_tool_parse (mk R (w @ concat (map append_qwen_parameter as) @ T) \<lparr>ac_name = Some n, ac_args = l\<rparr> cs vs) =
    agent_qwen_tool_parse (mk R' (w' @ T) \<lparr>ac_name = Some n, ac_args = l @ map (\<lambda>a. (arg_key a, arg_value a)) as\<rparr> cs vs')"
  using assms
proof (induction "as" arbitrary: w R l vs)
  case Nil
  then show ?case by auto
next
  case (Cons a as)
  have T: "0 \<notin> set (concat (map append_qwen_parameter as) @ T)"
    using Cons.prems(2,4) by (auto simp: append_qwen_parameter_def arg_text_ok_def tag_name_ok_def value_ok_def Q36_PARAM_START_def lit_simps)
  obtain R' vs' where R': "0 \<notin> set R'"
    "agent_qwen_tool_parse (mk R (w @ append_qwen_parameter a @ (concat (map append_qwen_parameter as) @ T)) \<lparr>ac_name = Some n, ac_args = l\<rparr> cs vs) =
     agent_qwen_tool_parse (mk R' ([10] @ (concat (map append_qwen_parameter as) @ T))
       (agent_tool_call_add_arg \<lparr>ac_name = Some n, ac_args = l\<rparr> (arg_key a) (arg_value a)) cs vs')"
    using parameter_text [OF Cons.prems(1) _ Cons.prems(3) T, of a "\<lparr>ac_name = Some n, ac_args = l\<rparr>" cs vs] Cons.prems(2) by auto
  have "spaces [10]" "0 \<notin> set (R' @ [10])" using R'(1) by (simp_all add: spaces_def tag_space_def)
  from Cons.IH [OF this(1) _ this(2) Cons.prems(4), of "l @ [(arg_key a, arg_value a)]" vs'] Cons.prems(2) R'(2)
  show ?case by (simp add: agent_tool_call_add_arg_def)
qed

section \<open>A whole call\<close>

lemma close_function:
  assumes "spaces w" "0 \<notin> set T"
  shows "parse_step (mk R (w @ str ''</function>'' @ T) \<lparr>ac_name = Some n, ac_args = l\<rparr> cs vs) =
    Go (mk (R @ w @ str ''</function>'') T no_call (cs @ [\<lparr>ac_name = Some n, ac_args = l\<rparr>]) vs)"
proof -
  let ?q = "str ''</function>'' @ T"
  have "agent_qwen_tool_close_tag_at ?q (str ''tool_call'') = None" "agent_qwen_tool_close_tag_at ?q (str ''function'') = Some 11"
    by (simp_all add: agent_qwen_tool_close_tag_at_def Let_def lit_simps tag_space_def)
  then have "structural_at (mk (R @ w) ?q \<lparr>ac_name = Some n, ac_args = l\<rparr> cs vs) ?q =
      Go (mk (R @ w @ str ''</function>'') T no_call (cs @ [\<lparr>ac_name = Some n, ac_args = l\<rparr>]) vs)"
    by (simp add: structural_at_def mk_def agent_tool_calls_push_def agent_qwen_tool_parser_reset_def)
  moreover have "?q \<noteq> []" "\<not> tag_space (hd ?q)" "0 \<notin> set ?q" using assms(2) by (simp_all add: lit_simps tag_space_def)
  ultimately show ?thesis using mk_step [OF assms(1)] by simp
qed

lemma close_tool_call:
  assumes "spaces w" "0 \<notin> set (R @ w)" "cs \<noteq> []"
  shows "parsed (agent_qwen_tool_parse (mk R (w @ str ''</tool_call>'') no_call cs vs)) = (AGENT_QWEN_TOOL_DONE, cs, no_call, None, [])"
proof -
  let ?q = "str ''</tool_call>''" and ?p = "mk R (w @ str ''</tool_call>'') no_call cs vs"
  have "agent_qwen_tool_close_tag_at ?q (str ''tool_call'') = Some 12"
    by (simp add: agent_qwen_tool_close_tag_at_def Let_def lit_simps tag_space_def)
  moreover have "?q \<noteq> []" "\<not> tag_space (hd ?q)" "0 \<notin> set ?q" by (simp_all add: lit_simps tag_space_def)
  ultimately have "\<exists>p'. parse_step ?p = Halt p' \<and> parsed p' = (AGENT_QWEN_TOOL_DONE, cs, no_call, None, [])"
    using mk_step [OF assms(1), of ?q R no_call cs vs] assms(3)
    by (simp add: structural_at_def) (simp add: parsed_def mk_def no_call_def agent_qwen_tool_parser_reset_def)
  then obtain p' where p': "parse_step ?p = Halt p'" "parsed p' = (AGENT_QWEN_TOOL_DONE, cs, no_call, None, [])" by blast
  have "agent_qwen_tool_parse ?p = p'" using p'(1) by (subst agent_qwen_tool_parse.simps) simp
  then show ?thesis using p'(2) by simp
qed

lemma whole_call:
  assumes n: "tag_name_ok n" and a: "\<forall>a\<in>set as. arg_text_ok a"
  shows "parsed (agent_qwen_tool_parse (mk Q36_TOOL_CALLS_START
      ([10] @ str ''<function='' @ n @ [62] @ [10] @ concat (map append_qwen_parameter as) @ str ''</function>'' @ [10] @ str ''</tool_call>'')
      no_call [] 0)) =
    (AGENT_QWEN_TOOL_DONE, [\<lparr>ac_name = Some n, ac_args = map (\<lambda>a. (arg_key a, arg_value a)) as\<rparr>], no_call, None, [])"
proof -
  let ?R = "Q36_TOOL_CALLS_START" and ?c = "\<lparr>ac_name = Some n, ac_args = map (\<lambda>a. (arg_key a, arg_value a)) as\<rparr>"
  let ?E = "str ''</function>'' @ [10] @ str ''</tool_call>''"
  let ?T = "[10] @ concat (map append_qwen_parameter as) @ ?E"
  have s: "spaces [10]" by (simp add: spaces_def tag_space_def)
  have E: "0 \<notin> set ?E" "0 \<notin> set ?R" "0 \<notin> set n" using n by (simp_all add: lit_simps tag_lits tag_name_ok_def)
  have T: "0 \<notin> set ?T"
    using a E by (auto simp: append_qwen_parameter_def arg_text_ok_def tag_name_ok_def value_ok_def Q36_PARAM_START_def lit_simps)
  let ?R1 = "?R @ [10] @ str ''<function='' @ n @ [62]"
  have R1: "0 \<notin> set (?R1 @ [10])" using E by (simp add: lit_simps)
  have "agent_qwen_tool_parse (mk ?R ([10] @ str ''<function='' @ n @ [62] @ ?T) no_call [] 0) =
      agent_qwen_tool_parse (mk ?R1 ?T \<lparr>ac_name = Some n, ac_args = []\<rparr> [] 0)"
    using T E by (intro step_go [OF mk_ok open_function [OF s n T]]) (simp add: lit_simps)
  moreover obtain R2 w2 v2 where r2: "spaces w2" "0 \<notin> set (R2 @ w2)"
      "agent_qwen_tool_parse (mk ?R1 ?T \<lparr>ac_name = Some n, ac_args = []\<rparr> [] 0) = agent_qwen_tool_parse (mk R2 (w2 @ ?E) ?c [] v2)"
    using parameters_text [OF s a R1 E(1), of n "[]" "[]" 0] by auto
  moreover have "agent_qwen_tool_parse (mk R2 (w2 @ ?E) ?c [] v2) =
      agent_qwen_tool_parse (mk (R2 @ w2 @ str ''</function>'') ([10] @ str ''</tool_call>'') no_call ([] @ [?c]) v2)"
    using r2(2) E(1) by (intro step_go [OF mk_ok close_function [OF r2(1)]]) (simp_all add: lit_simps)
  moreover have "parsed (agent_qwen_tool_parse (mk (R2 @ w2 @ str ''</function>'') ([10] @ str ''</tool_call>'') no_call ([] @ [?c]) v2)) =
      (AGENT_QWEN_TOOL_DONE, [] @ [?c], no_call, None, [])"
    by (rule close_tool_call [OF s]) (use r2(2) in \<open>simp_all add: lit_simps\<close>)
  ultimately show ?thesis by simp
qed

text \<open>
  C17. A call with JSON arguments that the server renders for a template is read by the agent's parser, in pieces of
  any size, as one finished call with the same name and the same arguments, in the rendered order: newlines
  and closing tags inside the values survive.  The names have no \<^verbatim>\<open>></\<close> and no space at the end, and no
  value holds the agent's looser spelling of the closing tag, which the escape of the server does not cover.
\<close>

theorem agent_reads_server_call:
  assumes name: "tc_name tc = Some n" "tag_name_ok n"
    and args: "json_args_parse (tc_arguments tc) = Some args0"
      "args = ordered_args (case tool_schema_orders_find orders (Some n) of Some o1 \<Rightarrow> map prop_name (order_prop o1) | None \<Rightarrow> []) args0"
      "\<forall>a\<in>set args. arg_text_ok a"
    and content: "strstr content Q36_TOOL_CALLS_START = None" "0 \<notin> set content"
    and css: "concat css = content @ append_qwen_tool_calls_text (plain_calls [tc]) orders (content \<noteq> [])"
  shows "parsed (foldl agent_qwen_tool_feed agent_qwen_tool_parser_reset css) =
    (AGENT_QWEN_TOOL_DONE, [\<lparr>ac_name = Some n, ac_args = map (\<lambda>a. (arg_key a, arg_value a)) args\<rparr>], no_call, None, [])"
proof -
  let ?body = "[10] @ str ''<function='' @ n @ [62] @ [10] @ concat (map append_qwen_parameter args) @ str ''</function>'' @ [10] @ str ''</tool_call>''"
  have r: "render_call orders tc = Q36_TOOL_CALLS_START @ ?body"
    using name(1) args(1,2) by (simp add: render_call_def append_qwen_arguments_def tag_lits)
  have t: "concat css = content @ separator content @ Q36_TOOL_CALLS_START @ ?body"
    unfolding css append_qwen_tool_calls_text_def by (simp add: plain_calls_def separator_def r)
  have f: "strstr (concat css) Q36_TOOL_CALLS_START = Some (length content + length (separator content))"
    using strstr_rendered [OF content(1), of "[tc]" orders] by (simp add: t r)
  have "0 \<notin> set (concat css)"
    using content(2) args(3) name(2) unfolding t
    by (auto simp: separator_def tag_lits append_qwen_parameter_def arg_text_ok_def tag_name_ok_def value_ok_def lit_simps)
  then have "parsed (foldl agent_qwen_tool_feed agent_qwen_tool_parser_reset css) = parsed (parse_whole (concat css))"
    by (rule agent_feed_whole)
  also have "parse_whole (concat css) = agent_qwen_tool_parse (mk Q36_TOOL_CALLS_START ?body no_call [] 0)"
    unfolding parse_whole_def f by (simp add: t mk_def) (simp add: agent_qwen_tool_parser_reset_def)
  finally show ?thesis using whole_call [OF name(2) args(3)] by simp
qed

lemma sample_call_args:
  "ordered_args [str ''n'', str ''data''] (the (json_args_parse (tc_arguments sample_call))) =
     [\<lparr>arg_key = str ''n'', arg_value = str ''null'', arg_is_string = False, arg_used = False\<rparr>,
      \<lparr>arg_key = str ''data'', arg_value = str ''</parameter></think><tool_call>&lt;/parameter>'' @ [10], arg_is_string = True, arg_used = False\<rparr>,
      \<lparr>arg_key = str ''o'', arg_value = str ''{\"a\":true}'', arg_is_string = False, arg_used = False\<rparr>]"
  by code_simp

theorem agent_reads_server_call_witness:
  "parsed (foldl agent_qwen_tool_feed agent_qwen_tool_parser_reset
      [str ''ok'', append_qwen_tool_calls_text (plain_calls [sample_call]) sample_orders (str ''ok'' \<noteq> [])]) =
   (AGENT_QWEN_TOOL_DONE,
    [\<lparr>ac_name = Some (str ''write''),
      ac_args = [(str ''n'', str ''null''), (str ''data'', str ''</parameter></think><tool_call>&lt;/parameter>'' @ [10]), (str ''o'', str ''{\"a\":true}'')]\<rparr>],
    no_call, None, [])"
proof -
  let ?as = "ordered_args [str ''n'', str ''data''] (the (json_args_parse (tc_arguments sample_call)))"
  have "parsed (foldl agent_qwen_tool_feed agent_qwen_tool_parser_reset
      [str ''ok'', append_qwen_tool_calls_text (plain_calls [sample_call]) sample_orders (str ''ok'' \<noteq> [])]) =
    (AGENT_QWEN_TOOL_DONE, [\<lparr>ac_name = Some (str ''write''), ac_args = map (\<lambda>a. (arg_key a, arg_value a)) ?as\<rparr>], no_call, None, [])"
  proof (rule agent_reads_server_call)
    show "tc_name sample_call = Some (str ''write'')" by (simp add: sample_call_def)
    show "tag_name_ok (str ''write'')" by code_simp
    show "json_args_parse (tc_arguments sample_call) = Some (the (json_args_parse (tc_arguments sample_call)))" by code_simp
    show "?as = ordered_args (case tool_schema_orders_find sample_orders (Some (str ''write'')) of
        Some o1 \<Rightarrow> map prop_name (order_prop o1) | None \<Rightarrow> []) (the (json_args_parse (tc_arguments sample_call)))"
      by code_simp
    show "\<forall>a\<in>set ?as. arg_text_ok a" unfolding sample_call_args by code_simp
    show "strstr (str ''ok'') Q36_TOOL_CALLS_START = None" by code_simp
    show "0 \<notin> set (str ''ok'')" by code_simp
    show "concat [str ''ok'', append_qwen_tool_calls_text (plain_calls [sample_call]) sample_orders (str ''ok'' \<noteq> [])] =
      str ''ok'' @ append_qwen_tool_calls_text (plain_calls [sample_call]) sample_orders (str ''ok'' \<noteq> [])" by simp
  qed
  then show ?thesis unfolding sample_call_args by simp
qed

text \<open>
  The looser closing tag of the agent is not covered by the escape: a value with \<^verbatim>\<open></parameter >\<close>
  that the server renders verbatim is cut there.
\<close>

definition loose_call :: tool_call where
  "loose_call = \<lparr>tc_id = None, tc_name = Some (str ''f''), tc_arguments = Some (str ''{\"k\":\"a</parameter >b\"}'')\<rparr>"

lemma loose_close_cuts_value:
  "case qp_calls (parse_whole (append_qwen_tool_calls_text (plain_calls [loose_call]) [] False)) of
     [] \<Rightarrow> True | c # _ \<Rightarrow> agent_tool_arg_value c (str ''k'') \<noteq> Some (str ''a</parameter >b'')"
  "agent_tool_arg_value (qp_current (parse_whole (append_qwen_tool_calls_text (plain_calls [loose_call]) [] False))) (str ''k'') =
     Some (str ''a'')"
  by code_simp+

end
