(* ===== verification/Agent_Buf.thy ===== *)
theory Agent_Buf
  imports Stream_Cut
begin

text \<open>
  The agent's byte buffers (\<^verbatim>\<open>q36_agent.c\<close>): \<^verbatim>\<open>agent_buf\<close>, which cuts its text at a limit between two
  characters, and \<^verbatim>\<open>agent_tail_capture\<close>, a ring that keeps the last bytes of what is written to it.
\<close>

section \<open>Growing buffers with a limit\<close>

text \<open>A limit of 0 is no limit; the capacity of the allocation is not part of the model.\<close>

record agent_buf =
  ab_text :: bytes
  ab_limit :: nat
  ab_truncated :: bool

definition buf_empty :: "nat \<Rightarrow> agent_buf" where
  "buf_empty limit = \<lparr>ab_text = [], ab_limit = limit, ab_truncated = False\<rparr>"

text \<open>Back from a position to the first byte of a character.\<close>

fun back_to_start :: "bytes \<Rightarrow> nat \<Rightarrow> nat" where
  "back_to_start s 0 = 0"
| "back_to_start s (Suc n) = (if is_cont (s ! Suc n) then back_to_start s n else Suc n)"

definition agent_buf_append :: "agent_buf \<Rightarrow> bytes \<Rightarrow> agent_buf" where
  "agent_buf_append b s =
     (if s = [] \<or> ab_truncated b then b
      else if ab_limit b \<noteq> 0 \<and> length s > ab_limit b - length (ab_text b)
      then b\<lparr>ab_text := ab_text b @ take (back_to_start s (ab_limit b - length (ab_text b))) s, ab_truncated := True\<rparr>
      else b\<lparr>ab_text := ab_text b @ s\<rparr>)"

definition agent_buf_take :: "agent_buf \<Rightarrow> bytes" where
  "agent_buf_take b =
     (if ab_truncated b
      then ab_text b @ [10] @ str ''[Output truncated at the tool byte limit. Narrow the request.]'' @ [10]
      else ab_text b)"

lemma back_to_start_le: "back_to_start s n \<le> n"
  by (induction s n rule: back_to_start.induct) auto

lemma back_to_start_char: "back_to_start s n = 0 \<or> \<not> is_cont (s ! back_to_start s n)"
  by (induction s n rule: back_to_start.induct) auto

lemma back_to_start_skips: "back_to_start s n < i \<Longrightarrow> i \<le> n \<Longrightarrow> is_cont (s ! i)"
  by (induction s n rule: back_to_start.induct) (auto simp: le_Suc_eq split: if_splits)

lemma agent_buf_append_limit:
  "ab_limit b \<noteq> 0 \<Longrightarrow> length (ab_text b) \<le> ab_limit b \<Longrightarrow> length (ab_text (agent_buf_append b s)) \<le> ab_limit b"
  using back_to_start_le [of s "ab_limit b - length (ab_text b)"] by (auto simp: agent_buf_append_def)

lemma agent_buf_append_keeps [simp]: "ab_limit (agent_buf_append b s) = ab_limit b"
  by (simp add: agent_buf_append_def)

lemma agent_buf_append_unlimited [simp]:
  "ab_limit b = 0 \<Longrightarrow> \<not> ab_truncated b \<Longrightarrow> agent_buf_append b s = b\<lparr>ab_text := ab_text b @ s\<rparr>"
  by (cases b) (simp add: agent_buf_append_def)

text \<open>What a buffer holds of a sequence of writes: all of it, or a prefix that ends in front of a character.\<close>

definition buf_holds :: "agent_buf \<Rightarrow> nat \<Rightarrow> bytes \<Rightarrow> bool" where
  "buf_holds b limit w \<longleftrightarrow>
     ab_limit b = limit \<and> (if ab_truncated b then limit \<noteq> 0 \<and> ab_text b \<noteq> w \<and> prefix (ab_text b) w else ab_text b = w)"

lemma buf_holds_append:
  assumes "buf_holds b limit w"
  shows "buf_holds (agent_buf_append b s) limit (w @ s)"
proof (cases "s = [] \<or> ab_truncated b \<or> \<not> (limit \<noteq> 0 \<and> length s > limit - length (ab_text b))")
  case True
  then show ?thesis using assms by (auto simp: buf_holds_def agent_buf_append_def prefix_def split: if_splits)
next
  case False
  let ?n = "back_to_start s (limit - length (ab_text b))"
  have "take ?n s \<noteq> s" using False back_to_start_le [of s "limit - length (ab_text b)"]
    by (metis length_take linorder_not_less min.absorb_iff2 min.cobounded2 order_trans)
  moreover have "prefix (take ?n s) s" by (rule take_is_prefix)
  ultimately show ?thesis using False assms by (auto simp: buf_holds_def agent_buf_append_def)
qed

lemma agent_buf_writes: "buf_holds (foldl agent_buf_append (buf_empty limit) ss) limit (concat ss)"
  by (induction ss rule: rev_induct) (simp_all add: buf_holds_append, simp add: buf_holds_def buf_empty_def)

section \<open>Keeping the end of a stream\<close>

text \<open>\<^verbatim>\<open>buf\<close> is \<open>[]\<close> before it is allocated; a new allocation is modelled as zeros.\<close>

record agent_tail_capture =
  cap_buf :: bytes
  cap_size :: nat
  cap_start :: nat
  cap_len :: nat
  cap_total :: nat

text \<open>The part that fills a ring with room: it may wrap around once.\<close>

definition tail_fill :: "agent_tail_capture \<Rightarrow> bytes \<Rightarrow> agent_tail_capture \<times> bytes" where
  "tail_fill t s =
     (if cap_len t < cap_size t then
        (let n = min (length s) (cap_size t - cap_len t);
             pos = (cap_start t + cap_len t) mod cap_size t;
             chunk = min n (cap_size t - pos);
             buf = poke pos (take chunk s) (cap_buf t);
             buf = (if n > chunk then poke 0 (take (n - chunk) (drop chunk s)) buf else buf)
         in (t\<lparr>cap_buf := buf, cap_len := cap_len t + n\<rparr>, drop n s))
      else (t, s))"

text \<open>The loop that overwrites the oldest bytes of a full ring.\<close>

function tail_overwrite :: "agent_tail_capture \<Rightarrow> bytes \<Rightarrow> agent_tail_capture" where
  "tail_overwrite t s =
     (if s = [] \<or> cap_size t = 0 then t
      else
        (let pos = (cap_start t + cap_len t) mod cap_size t;
             chunk = min (length s) (cap_size t - pos)
         in tail_overwrite (t\<lparr>cap_buf := poke pos (take chunk s) (cap_buf t),
                              cap_start := (cap_start t + chunk) mod cap_size t\<rparr>) (drop chunk s)))"
  by pat_completeness auto
termination
  by (relation "measure (\<lambda>(t, s). length s)") (auto simp: min_def)

declare tail_overwrite.simps [simp del]

definition agent_tail_capture_append :: "agent_tail_capture \<Rightarrow> bytes \<Rightarrow> agent_tail_capture" where
  "agent_tail_capture_append t s =
     (if s = [] \<or> cap_size t = 0 then t
      else
        (let t = (if cap_buf t = [] then t\<lparr>cap_buf := replicate (cap_size t) 0\<rparr> else t);
             t = t\<lparr>cap_total := cap_total t + length s\<rparr>
         in if length s \<ge> cap_size t
            then t\<lparr>cap_buf := poke 0 (drop (length s - cap_size t) s) (cap_buf t), cap_start := 0, cap_len := cap_size t\<rparr>
            else (case tail_fill t s of (t, s) \<Rightarrow> tail_overwrite t s)))"

definition agent_tail_capture_take :: "agent_tail_capture \<Rightarrow> bytes" where
  "agent_tail_capture_take t =
     (let n = cap_len t; first = min n (cap_size t - cap_start t)
      in take first (drop (cap_start t) (cap_buf t)) @ take (n - first) (cap_buf t))"

definition capture_empty :: "nat \<Rightarrow> agent_tail_capture" where
  "capture_empty n = \<lparr>cap_buf = [], cap_size = n, cap_start = 0, cap_len = 0, cap_total = 0\<rparr>"

definition capture_ok :: "agent_tail_capture \<Rightarrow> bool" where
  "capture_ok t \<longleftrightarrow>
     cap_size t > 0 \<and> length (cap_buf t) = cap_size t \<and> cap_start t < cap_size t \<and> cap_len t \<le> cap_size t \<and>
     (cap_len t < cap_size t \<longrightarrow> cap_start t = 0)"

definition last_bytes :: "nat \<Rightarrow> bytes \<Rightarrow> bytes" where
  "last_bytes n s = drop (length s - n) s"

lemma capture_take_full:
  "capture_ok t \<Longrightarrow> cap_len t = cap_size t \<Longrightarrow>
     agent_tail_capture_take t = drop (cap_start t) (cap_buf t) @ take (cap_start t) (cap_buf t)"
  by (simp add: agent_tail_capture_take_def capture_ok_def)

lemma capture_take_partial:
  "capture_ok t \<Longrightarrow> cap_len t < cap_size t \<Longrightarrow> agent_tail_capture_take t = take (cap_len t) (cap_buf t)"
  by (simp add: agent_tail_capture_take_def capture_ok_def)

lemma length_capture_take: "capture_ok t \<Longrightarrow> length (agent_tail_capture_take t) = cap_len t"
  by (cases "cap_len t = cap_size t") (auto simp: capture_take_full capture_take_partial capture_ok_def)

lemma tail_overwrite_take:
  assumes "capture_ok t" "cap_len t = cap_size t"
  shows "capture_ok (tail_overwrite t s)" "cap_len (tail_overwrite t s) = cap_size t" "cap_size (tail_overwrite t s) = cap_size t"
    "cap_total (tail_overwrite t s) = cap_total t"
    "agent_tail_capture_take (tail_overwrite t s) = last_bytes (cap_size t) (agent_tail_capture_take t @ s)"
proof -
  have "capture_ok (tail_overwrite t s) \<and> cap_len (tail_overwrite t s) = cap_size t \<and> cap_size (tail_overwrite t s) = cap_size t \<and>
     cap_total (tail_overwrite t s) = cap_total t \<and>
     agent_tail_capture_take (tail_overwrite t s) = last_bytes (cap_size t) (agent_tail_capture_take t @ s)"
    using assms
  proof (induction t s rule: tail_overwrite.induct)
    case (1 t s)
    have z: "cap_size t > 0" "cap_start t < cap_size t" "length (cap_buf t) = cap_size t" using 1(2) by (simp_all add: capture_ok_def)
    show ?case
    proof (cases "s = []")
      case True
      then show ?thesis using 1(2,3) length_capture_take [OF 1(2)] by (simp add: tail_overwrite.simps [of t] last_bytes_def)
    next
      case False
      define k where "k = min (length s) (cap_size t - cap_start t)"
      have k: "k \<le> length s" "cap_start t + k \<le> cap_size t" using z by (simp_all add: k_def)
      let ?t = "t\<lparr>cap_buf := poke (cap_start t) (take k s) (cap_buf t), cap_start := (cap_start t + k) mod cap_size t\<rparr>"
      have pos: "(cap_start t + cap_len t) mod cap_size t = cap_start t" using 1(3) z by simp
      have ok: "capture_ok ?t" using z 1(3) k by (simp add: capture_ok_def poke_def)
      have len: "cap_len ?t = cap_size ?t" using 1(3) by simp
      have step: "agent_tail_capture_take ?t = drop k (agent_tail_capture_take t) @ take k s"
      proof (cases "cap_start t + k < cap_size t")
        case True
        then show ?thesis unfolding capture_take_full [OF ok len] capture_take_full [OF 1(2,3)]
          using z k by (simp add: poke_def add.commute)
      next
        case False
        then have e: "cap_start t + k = cap_size t" using k by simp
        then have "drop k (drop (cap_start t) (cap_buf t)) = []" using z by simp
        then show ?thesis unfolding capture_take_full [OF ok len] capture_take_full [OF 1(2,3)]
          using z k e by (simp add: poke_def)
      qed
      have IH: "capture_ok (tail_overwrite ?t (drop k s)) \<and> cap_len (tail_overwrite ?t (drop k s)) = cap_size t \<and>
          cap_size (tail_overwrite ?t (drop k s)) = cap_size t \<and> cap_total (tail_overwrite ?t (drop k s)) = cap_total t \<and>
          agent_tail_capture_take (tail_overwrite ?t (drop k s)) = last_bytes (cap_size t) (agent_tail_capture_take ?t @ drop k s)"
        using 1(1) [of "cap_start t" k] False z pos ok len by (simp add: k_def)
      have "tail_overwrite t s = tail_overwrite ?t (drop k s)"
        using False z pos by (simp add: tail_overwrite.simps [of t] Let_def k_def)
      moreover have "last_bytes (cap_size t) (agent_tail_capture_take ?t @ drop k s) =
          last_bytes (cap_size t) (agent_tail_capture_take t @ s)"
      proof -
        have l: "length (agent_tail_capture_take t) = cap_size t" using length_capture_take [OF 1(2)] 1(3) by simp
        have "agent_tail_capture_take ?t @ drop k s = drop k (agent_tail_capture_take t @ s)"
          unfolding step using l k by simp
        then show ?thesis using l k by (simp add: last_bytes_def)
      qed
      ultimately show ?thesis using IH by simp
    qed
  qed
  then show "capture_ok (tail_overwrite t s)" "cap_len (tail_overwrite t s) = cap_size t" "cap_size (tail_overwrite t s) = cap_size t"
    "cap_total (tail_overwrite t s) = cap_total t"
    "agent_tail_capture_take (tail_overwrite t s) = last_bytes (cap_size t) (agent_tail_capture_take t @ s)"
    by blast+
qed

lemma tail_fill_take:
  assumes "capture_ok t" "tail_fill t s = (t', s')"
  shows "capture_ok t'" "cap_size t' = cap_size t" "cap_total t' = cap_total t" "s' \<noteq> [] \<Longrightarrow> cap_len t' = cap_size t"
    "agent_tail_capture_take t' @ s' = agent_tail_capture_take t @ s"
proof -
  have "capture_ok t' \<and> cap_size t' = cap_size t \<and> cap_total t' = cap_total t \<and> (s' \<noteq> [] \<longrightarrow> cap_len t' = cap_size t) \<and>
    agent_tail_capture_take t' @ s' = agent_tail_capture_take t @ s"
  proof (cases "cap_len t < cap_size t")
    case False
    then show ?thesis using assms by (auto simp: tail_fill_def capture_ok_def)
  next
    case True
    then have z: "cap_start t = 0" "length (cap_buf t) = cap_size t" using assms(1) by (simp_all add: capture_ok_def)
    define n where "n = min (length s) (cap_size t - cap_len t)"
    have n: "n \<le> length s" "cap_len t + n \<le> cap_size t" using True by (simp_all add: n_def)
    let ?t = "t\<lparr>cap_buf := poke (cap_len t) (take n s) (cap_buf t), cap_len := cap_len t + n\<rparr>"
    have e: "t' = ?t" "s' = drop n s"
      using assms(2) True z by (simp_all add: tail_fill_def Let_def n_def)
    have ok: "capture_ok ?t" using z n True by (simp add: capture_ok_def)
    have "agent_tail_capture_take ?t = agent_tail_capture_take t @ take n s"
    proof (cases "cap_len t + n < cap_size t")
      case True
      then show ?thesis using z n capture_take_partial [OF ok] capture_take_partial [OF assms(1)]
        by (simp add: poke_def)
    next
      case False
      then have "cap_len ?t = cap_size ?t" using n by simp
      from capture_take_full [OF ok this] show ?thesis using z n True False capture_take_partial [OF assms(1) True]
        by (simp add: poke_def)
    qed
    moreover have "drop n s \<noteq> [] \<longrightarrow> cap_len t + n = cap_size t" using n by (auto simp: n_def)
    ultimately show ?thesis using e ok by simp
  qed
  then show "capture_ok t'" "cap_size t' = cap_size t" "cap_total t' = cap_total t" "s' \<noteq> [] \<Longrightarrow> cap_len t' = cap_size t"
    "agent_tail_capture_take t' @ s' = agent_tail_capture_take t @ s" by blast+
qed

lemma last_bytes_short: "length s \<le> n \<Longrightarrow> last_bytes n s = s"
  by (simp add: last_bytes_def)

lemma last_bytes_append: "last_bytes n (last_bytes n a @ b) = last_bytes n (a @ b)"
  by (cases "length a \<le> n") (auto simp: last_bytes_def add.commute)

text \<open>The ring refines the last bytes of the text written so far.\<close>

definition captures :: "agent_tail_capture \<Rightarrow> nat \<Rightarrow> bytes \<Rightarrow> bool" where
  "captures t n w \<longleftrightarrow>
     cap_size t = n \<and> cap_total t = (if n = 0 then 0 else length w) \<and> (t = capture_empty n \<or> capture_ok t) \<and>
     agent_tail_capture_take t = last_bytes n w"

lemma captures_empty: "captures (capture_empty n) n []"
  by (simp add: captures_def capture_empty_def agent_tail_capture_take_def last_bytes_def)

lemma captures_append:
  assumes "captures t n w"
  shows "captures (agent_tail_capture_append t s) n (w @ s)"
proof (cases "s = [] \<or> n = 0")
  case True
  then show ?thesis using assms
    by (auto simp: captures_def agent_tail_capture_append_def last_bytes_def)
next
  case False
  define t0 where "t0 = (if cap_buf t = [] then t\<lparr>cap_buf := replicate (cap_size t) 0\<rparr> else t)\<lparr>cap_total := cap_total t + length s\<rparr>"
  have t0: "capture_ok t0" "cap_size t0 = n" "agent_tail_capture_take t0 = last_bytes n w" "cap_total t0 = length (w @ s)"
  proof -
    have "t = capture_empty n \<or> capture_ok t" using assms by (simp add: captures_def)
    moreover have "capture_ok t \<Longrightarrow> cap_buf t \<noteq> []" by (auto simp: capture_ok_def)
    ultimately consider (new) "t = capture_empty n" | (old) "capture_ok t" "cap_buf t \<noteq> []" by blast
    then show "capture_ok t0" "cap_size t0 = n" "agent_tail_capture_take t0 = last_bytes n w" "cap_total t0 = length (w @ s)"
      using assms False unfolding captures_def t0_def
      by (cases; simp add: capture_ok_def agent_tail_capture_take_def capture_empty_def)+
  qed
  have a: "agent_tail_capture_append t s = (if length s \<ge> n
      then t0\<lparr>cap_buf := poke 0 (drop (length s - n) s) (cap_buf t0), cap_start := 0, cap_len := n\<rparr>
      else (case tail_fill t0 s of (t, s) \<Rightarrow> tail_overwrite t s))"
    using False assms t0(2) by (simp add: agent_tail_capture_append_def t0_def captures_def Let_def)
  show ?thesis
  proof (cases "length s \<ge> n")
    case True
    let ?t = "t0\<lparr>cap_buf := poke 0 (drop (length s - n) s) (cap_buf t0), cap_start := 0, cap_len := n\<rparr>"
    have ok: "capture_ok ?t" using True t0(1,2) False by (simp add: capture_ok_def poke_def)
    have "agent_tail_capture_take ?t = drop (length s - n) s"
      using True t0(1,2) False by (simp add: agent_tail_capture_take_def poke_def capture_ok_def)
    then show ?thesis using True ok t0 False a by (simp add: captures_def last_bytes_def)
  next
    case l: False
    obtain t1 s1 where f: "tail_fill t0 s = (t1, s1)" by fastforce
    note f' = tail_fill_take [OF t0(1) f]
    have r: "agent_tail_capture_append t s = tail_overwrite t1 s1" using a l f by simp
    show ?thesis
    proof (cases "s1 = []")
      case True
      have "length (agent_tail_capture_take t1) \<le> n"
        using length_capture_take [OF f'(1)] f'(1,2) t0(2) by (simp add: capture_ok_def)
      then have "last_bytes n (agent_tail_capture_take t1) = agent_tail_capture_take t1" by (simp add: last_bytes_def)
      then have "agent_tail_capture_take t1 = last_bytes n (last_bytes n w @ s)"
        using f'(5) True t0(3) by simp
      then show ?thesis using r True f' t0 False by (simp add: captures_def last_bytes_append tail_overwrite.simps [of t1])
    next
      case s1: False
      note o = tail_overwrite_take [OF f'(1), of s1]
      have "cap_len t1 = cap_size t1" using f'(2,4) s1 by simp
      then show ?thesis using r o f' t0 False by (simp add: captures_def last_bytes_append)
    qed
  qed
qed

text \<open>
  Whatever the sizes of the pieces, the ring of a tail capture ends with exactly the last bytes of the
  whole text, as many as it has room for, and the length of that text.
\<close>

theorem tail_capture_last_bytes:
  "agent_tail_capture_take (foldl agent_tail_capture_append (capture_empty n) ss) = last_bytes n (concat ss)"
  "cap_total (foldl agent_tail_capture_append (capture_empty n) ss) = (if n = 0 then 0 else length (concat ss))"
proof -
  have "captures (foldl agent_tail_capture_append (capture_empty n) ss) n (concat ss)"
    by (induction ss rule: rev_induct) (simp_all add: captures_empty captures_append)
  then show "agent_tail_capture_take (foldl agent_tail_capture_append (capture_empty n) ss) = last_bytes n (concat ss)"
    "cap_total (foldl agent_tail_capture_append (capture_empty n) ss) = (if n = 0 then 0 else length (concat ss))"
    by (simp_all add: captures_def)
qed

end
