(* ===== verification/Agent_File.thy ===== *)
theory Agent_File
  imports Agent_Buf
begin

text \<open>
  The file operations under the agent's tools: \<^verbatim>\<open>agent_expand_home_path\<close>, \<^verbatim>\<open>agent_read_file_bytes\<close> and
  \<^verbatim>\<open>agent_replace_file\<close> of \<^verbatim>\<open>q36_agent.c\<close>.

  The file system is shared: in front of every system call other programs may change it, and every call
  may fail.  What a call saw is kept in a log, so that the theorems can speak of the moment of a check.
\<close>

section \<open>Decimal numbers\<close>

fun decimal :: "nat \<Rightarrow> bytes" where
  "decimal n = (if n < 10 then [] else decimal (n div 10)) @ [48 + word_of_nat (n mod 10)]"

declare decimal.simps [simp del]

section \<open>The shared file system\<close>

text \<open>
  An inode has a stamp, its times of modification and of status change.  A path has one canonical
  spelling (\<open>fs_canon\<close>), which symbolic links and directories decide; \<open>fs_symlink\<close> says that its last
  component is a link, dangling or not.
\<close>

record inode =
  in_regular :: bool
  in_nlink :: nat
  in_owner :: "nat \<times> nat"
  in_mode :: nat
  in_xattrs :: "(bytes \<times> bytes) list"
  in_data :: bytes
  in_stamp :: nat

record fs =
  fs_node :: "nat \<Rightarrow> inode"
  fs_name :: "bytes \<Rightarrow> nat option"
  fs_canon :: "bytes \<Rightarrow> bytes"
  fs_symlink :: "bytes \<Rightarrow> bool"

datatype fcall =
  F_open_read | F_fread | F_lstat | F_realpath | F_open | F_fstat | F_read | F_mkstemp | F_unlink_new | F_open_new | F_write
| F_fchown | F_fchmod | F_xattrs | F_fsync | F_close | F_realpath_again | F_stat | F_rename | F_link | F_unlink_temp

text \<open>
  What other programs do in front of a call, and the text of \<^verbatim>\<open>strerror\<close> when the call fails; the inode
  and the six letters that \<^verbatim>\<open>mkstemp\<close> chooses, the mode that the umask leaves of 0666, how much of
  a failing write reaches the file, and the home directory.
\<close>

record osys =
  os_env :: "fcall \<Rightarrow> fs \<Rightarrow> fs"
  os_err :: "fcall \<Rightarrow> bytes option"
  os_ino :: nat
  os_six :: bytes
  os_new_mode :: nat
  os_stamp :: nat
  os_part :: nat
  os_home :: "bytes option"

record world =
  w_fs :: fs
  w_log :: "(fcall \<times> fs) list"

definition call_at :: "osys \<Rightarrow> fcall \<Rightarrow> world \<Rightarrow> world" where
  "call_at y c w = (let s = os_env y c (w_fs w) in \<lparr>w_fs = s, w_log = w_log w @ [(c, s)]\<rparr>)"

definition lookup_path :: "fs \<Rightarrow> bytes \<Rightarrow> nat option" where
  "lookup_path s p = fs_name s (fs_canon s p)"

definition set_node :: "nat \<Rightarrow> inode \<Rightarrow> fs \<Rightarrow> fs" where
  "set_node i n s = s\<lparr>fs_node := (fs_node s)(i := n)\<rparr>"

text \<open>Setting or removing a directory entry: a symbolic link is replaced, not followed.\<close>

definition set_name :: "bytes \<Rightarrow> nat option \<Rightarrow> fs \<Rightarrow> fs" where
  "set_name p i s =
     (let q = (if fs_symlink s p then p else fs_canon s p)
      in s\<lparr>fs_name := (fs_name s)(q := i), fs_canon := (fs_canon s)(p := q), fs_symlink := (fs_symlink s)(p := False)\<rparr>)"

section \<open>Reading a file\<close>

definition PATH_MAX :: nat where "PATH_MAX = 4096"

definition AGENT_FILE_MAX_BYTES :: nat where "AGENT_FILE_MAX_BYTES = 16 * 1024 * 1024"

definition agent_expand_home_path :: "osys \<Rightarrow> bytes \<Rightarrow> bytes option" where
  "agent_expand_home_path y path =
     (let out = (case os_home y of
            Some home \<Rightarrow>
              if peek path \<noteq> 126 \<or> (peek (tl path) \<noteq> 47 \<and> peek (tl path) \<noteq> 0) \<or> home = [] then path
              else home @ tl path
          | None \<Rightarrow> path)
      in if length out < PATH_MAX then Some out else None)"

text \<open>The messages are cut by \<^verbatim>\<open>snprintf\<close> to the size of the caller's buffer.\<close>

definition ENAMETOOLONG_TEXT :: bytes where "ENAMETOOLONG_TEXT = str ''File name too long''"
definition EINVAL_TEXT :: bytes where "EINVAL_TEXT = str ''Invalid argument''"
definition ENOENT_TEXT :: bytes where "ENOENT_TEXT = str ''No such file or directory''"
definition EEXIST_TEXT :: bytes where "EEXIST_TEXT = str ''File exists''"
definition ELOOP_TEXT :: bytes where "ELOOP_TEXT = str ''Too many levels of symbolic links''"

definition agent_open_regular_file :: "osys \<Rightarrow> bytes \<Rightarrow> world \<Rightarrow> (bytes + nat) \<times> world" where
  "agent_open_regular_file y path w =
     (case agent_expand_home_path y path of
        None \<Rightarrow> (Inl ENAMETOOLONG_TEXT, w)
      | Some p \<Rightarrow>
          let w = call_at y F_open_read w
          in case os_err y F_open_read of
               Some e \<Rightarrow> (Inl e, w)
             | None \<Rightarrow>
                 (case lookup_path (w_fs w) p of
                    None \<Rightarrow> (Inl ENOENT_TEXT, w)
                  | Some i \<Rightarrow> if in_regular (fs_node (w_fs w) i) then (Inr i, w) else (Inl EINVAL_TEXT, w)))"

definition agent_read_file_bytes :: "osys \<Rightarrow> bytes \<Rightarrow> world \<Rightarrow> (bytes + bytes) \<times> world" where
  "agent_read_file_bytes y path w =
     (case agent_open_regular_file y path w of
        (Inl e, w) \<Rightarrow> (Inl (str ''open '' @ path @ str '': '' @ e), w)
      | (Inr i, w) \<Rightarrow>
          let w = call_at y F_fread w; data = in_data (fs_node (w_fs w) i)
          in if length data > AGENT_FILE_MAX_BYTES
             then (Inl (str ''file too large: '' @ path @ str '' exceeds '' @ decimal AGENT_FILE_MAX_BYTES @ str '' bytes''), w)
             else case os_err y F_fread of
               Some e \<Rightarrow> (Inl (str ''read '' @ path @ str '': '' @ e), w)
             | None \<Rightarrow> (Inr data, w))"

section \<open>Replacing a file\<close>

datatype replace_error = Path_Too_Long | Refused | Changed | Failed bytes

definition replace_error_text :: "bytes \<Rightarrow> replace_error \<Rightarrow> bytes" where
  "replace_error_text path e =
     (case e of
        Path_Too_Long \<Rightarrow> str ''path is too long''
      | Refused \<Rightarrow> str ''refusing to replace non-regular or hard-linked file: '' @ take 160 path
      | Changed \<Rightarrow> str ''file changed while editing; read it again: '' @ take 160 path
      | Failed e \<Rightarrow> str ''replace '' @ take 160 path @ str '': '' @ take 64 e)"

text \<open>A call: others act first; then it fails, or is done.\<close>

definition fcall :: "osys \<Rightarrow> fcall \<Rightarrow> world \<Rightarrow> (replace_error + unit) \<times> world" where
  "fcall y c w = (let w = call_at y c w in case os_err y c of Some e \<Rightarrow> (Inl (Failed e), w) | None \<Rightarrow> (Inr (), w))"

definition agent_same_file_version :: "nat \<times> inode \<Rightarrow> nat \<times> inode \<Rightarrow> bool" where
  "agent_same_file_version a b \<longleftrightarrow>
     fst a = fst b \<and> length (in_data (snd a)) = length (in_data (snd b)) \<and> in_nlink (snd a) = in_nlink (snd b) \<and>
     in_stamp (snd a) = in_stamp (snd b)"

text \<open>
  The first part: the target is the file behind the path, with its status and its content as
  expected, or a new name.
\<close>

definition replace_open :: "osys \<Rightarrow> bytes \<Rightarrow> bytes option \<Rightarrow> world \<Rightarrow> (replace_error + bytes \<times> (nat \<times> inode) option) \<times> world" where
  "replace_open y path expected w =
     (case fcall y F_lstat w of
        (Inl e, w) \<Rightarrow> (Inl e, w)
      | (Inr _, w) \<Rightarrow>
          if \<not> fs_symlink (w_fs w) path \<and> lookup_path (w_fs w) path = None then
            (if expected \<noteq> None then (Inl Changed, w) else (Inr (path, None), w))
          else
            (case fcall y F_realpath w of
               (Inl e, w) \<Rightarrow> (Inl e, w)
             | (Inr _, w) \<Rightarrow>
                 if lookup_path (w_fs w) path = None then (Inl (Failed ENOENT_TEXT), w)
                 else let target = fs_canon (w_fs w) path in
                 (case fcall y F_open w of
                    (Inl e, w) \<Rightarrow> (Inl e, w)
                  | (Inr _, w) \<Rightarrow>
                      if fs_symlink (w_fs w) target then (Inl (Failed ELOOP_TEXT), w)
                      else case lookup_path (w_fs w) target of
                        None \<Rightarrow> (Inl (Failed ENOENT_TEXT), w)
                      | Some i \<Rightarrow>
                          (case fcall y F_fstat w of
                             (Inl e, w) \<Rightarrow> (Inl e, w)
                           | (Inr _, w) \<Rightarrow>
                               let before = fs_node (w_fs w) i in
                               if \<not> in_regular before \<or> in_nlink before \<noteq> 1 then (Inl Refused, w)
                               else case expected of
                                 None \<Rightarrow> (Inr (target, Some (i, before)), w)
                               | Some old \<Rightarrow>
                                   if length (in_data before) \<noteq> length old then (Inl Changed, w)
                                   else (case fcall y F_read w of
                                     (Inl e, w) \<Rightarrow> (Inl e, w)
                                   | (Inr _, w) \<Rightarrow>
                                       if take (length old) (in_data (fs_node (w_fs w) i)) \<noteq> old then (Inl Changed, w)
                                       else (Inr (target, Some (i, before)), w))))))"

text \<open>The next call, when the one before succeeded.\<close>

definition fthen :: "('e + 'a) \<times> world \<Rightarrow> ('a \<Rightarrow> world \<Rightarrow> ('e + 'b) \<times> world) \<Rightarrow> ('e + 'b) \<times> world" where
  "fthen r k = (case r of (Inl e, w) \<Rightarrow> (Inl e, w) | (Inr x, w) \<Rightarrow> k x w)"

text \<open>A call that changes the file system when it succeeds, and may do so a little when it fails.\<close>

definition fdo :: "osys \<Rightarrow> fcall \<Rightarrow> (fs \<Rightarrow> fs) \<Rightarrow> (fs \<Rightarrow> fs) \<Rightarrow> world \<Rightarrow> (replace_error + unit) \<times> world" where
  "fdo y c good bad w =
     (case fcall y c w of
        (Inl e, w) \<Rightarrow> (Inl e, w\<lparr>w_fs := bad (w_fs w)\<rparr>)
      | (Inr _, w) \<Rightarrow> (Inr (), w\<lparr>w_fs := good (w_fs w)\<rparr>))"

definition new_inode :: "osys \<Rightarrow> nat \<Rightarrow> inode" where
  "new_inode y mode = \<lparr>in_regular = True, in_nlink = 1, in_owner = (0, 0), in_mode = mode, in_xattrs = [], in_data = [],
     in_stamp = os_stamp y\<rparr>"

definition set_data :: "nat \<Rightarrow> bytes \<Rightarrow> fs \<Rightarrow> fs" where
  "set_data i d s = set_node i ((fs_node s i)\<lparr>in_data := d\<rparr>) s"

definition temp_path :: "osys \<Rightarrow> bytes \<Rightarrow> bytes" where
  "temp_path y target = target @ str ''.q36-'' @ os_six y"

text \<open>
  The temporary file beside the target.  The flag of an error says whether the cleanup removes the
  name \<open>temp\<close>: it is cleared where the code empties it.
\<close>

definition replace_temp :: "osys \<Rightarrow> bytes \<Rightarrow> bool \<Rightarrow> world \<Rightarrow> ((replace_error \<times> bool) + unit) \<times> world" where
  "replace_temp y target exists w =
     (let temp = temp_path y target
      in if length temp \<ge> PATH_MAX then (Inl (Failed ENAMETOOLONG_TEXT, False), w)
         else case fdo y F_mkstemp (\<lambda>s. set_name temp (Some (os_ino y)) (set_node (os_ino y) (new_inode y 0x180) s)) (\<lambda>s. s) w of
           (Inl e, w) \<Rightarrow> (Inl (e, False), w)
         | (Inr _, w) \<Rightarrow>
             if exists then (Inr (), w)
             else case fdo y F_unlink_new (set_name temp None) (\<lambda>s. s) w of
               (Inl e, w) \<Rightarrow> (Inl (e, True), w)
             | (Inr _, w) \<Rightarrow>
                 (case fcall y F_open_new w of
                    (Inl e, w) \<Rightarrow> (Inl (e, False), w)
                  | (Inr _, w) \<Rightarrow>
                      if lookup_path (w_fs w) temp \<noteq> None \<or> fs_symlink (w_fs w) temp then (Inl (Failed EEXIST_TEXT, False), w)
                      else (Inr (), w\<lparr>w_fs := set_name temp (Some (os_ino y))
                             (set_node (os_ino y) (new_inode y (os_new_mode y)) (w_fs w))\<rparr>)))"

text \<open>
  Its content, and for an existing target owner, mode and attributes, through the descriptor.  Attributes
  copied before a copy fails are not modelled; the temporary file is removed then.
\<close>

definition replace_fill :: "osys \<Rightarrow> bytes \<Rightarrow> (nat \<times> inode) option \<Rightarrow> world \<Rightarrow> (replace_error + unit) \<times> world" where
  "replace_fill y data ex w =
     fthen (fdo y F_write (set_data (os_ino y) data) (set_data (os_ino y) (take (os_part y) data)) w) (\<lambda>_ w.
     fthen (case ex of
         None \<Rightarrow> (Inr (), w)
       | Some (i, before) \<Rightarrow>
           fthen (fdo y F_fchown (\<lambda>s. set_node (os_ino y) ((fs_node s (os_ino y))\<lparr>in_owner := in_owner before\<rparr>) s) (\<lambda>s. s) w) (\<lambda>_ w.
           fthen (fdo y F_fchmod (\<lambda>s. set_node (os_ino y) ((fs_node s (os_ino y))\<lparr>in_mode := in_mode before\<rparr>) s) (\<lambda>s. s) w) (\<lambda>_ w.
             fdo y F_xattrs (\<lambda>s. set_node (os_ino y) ((fs_node s (os_ino y))\<lparr>in_xattrs := in_xattrs (fs_node s i)\<rparr>) s) (\<lambda>s. s) w))) (\<lambda>_ w.
     fthen (fcall y F_fsync w) (\<lambda>_ w. fcall y F_close w)))"

text \<open>A failure of one of the two calls of the last check counts as a change.\<close>

definition replace_check :: "osys \<Rightarrow> bytes \<Rightarrow> bytes \<Rightarrow> nat \<times> inode \<Rightarrow> world \<Rightarrow> (replace_error + unit) \<times> world" where
  "replace_check y path target before w =
     (case fcall y F_realpath_again w of
        (Inl _, w) \<Rightarrow> (Inl Changed, w)
      | (Inr _, w) \<Rightarrow>
          if lookup_path (w_fs w) path = None \<or> fs_canon (w_fs w) path \<noteq> target then (Inl Changed, w)
          else case fcall y F_stat w of
            (Inl _, w) \<Rightarrow> (Inl Changed, w)
          | (Inr _, w) \<Rightarrow>
              (case lookup_path (w_fs w) target of
                 None \<Rightarrow> (Inl Changed, w)
               | Some j \<Rightarrow>
                   if agent_same_file_version before (j, fs_node (w_fs w) j) then (Inr (), w) else (Inl Changed, w)))"

text \<open>
  The new name: \<^verbatim>\<open>rename\<close> replaces the target, \<^verbatim>\<open>link\<close> refuses one that has appeared in the
  meantime.
\<close>

definition replace_commit :: "osys \<Rightarrow> bytes \<Rightarrow> bool \<Rightarrow> world \<Rightarrow> (replace_error + unit) \<times> world" where
  "replace_commit y target exists w =
     (let temp = temp_path y target
      in if exists then
           fthen (fcall y F_rename w) (\<lambda>_ w.
             case lookup_path (w_fs w) temp of
               None \<Rightarrow> (Inl (Failed ENOENT_TEXT), w)
             | Some t \<Rightarrow> (Inr (), w\<lparr>w_fs := set_name temp None (set_name target (Some t) (w_fs w))\<rparr>))
         else
           fthen (fcall y F_link w) (\<lambda>_ w.
             if lookup_path (w_fs w) target \<noteq> None \<or> fs_symlink (w_fs w) target then (Inl (Failed EEXIST_TEXT), w)
             else case lookup_path (w_fs w) temp of
               None \<Rightarrow> (Inl (Failed ENOENT_TEXT), w)
             | Some t \<Rightarrow>
                 let w = w\<lparr>w_fs := set_name target (Some t) (w_fs w)\<rparr>
                 in (Inr (), snd (fdo y F_unlink_temp (set_name temp None) (\<lambda>s. s) w))))"

definition agent_replace_file :: "osys \<Rightarrow> bytes \<Rightarrow> bytes \<Rightarrow> bytes option \<Rightarrow> world \<Rightarrow> (replace_error + unit) \<times> world" where
  "agent_replace_file y path data expected w =
     (case agent_expand_home_path y path of
        None \<Rightarrow> (Inl Path_Too_Long, w)
      | Some path \<Rightarrow>
          fthen (replace_open y path expected w) (\<lambda>(target, ex) w.
            case replace_temp y target (ex \<noteq> None) w of
              (Inl (e, clean), w) \<Rightarrow>
                (Inl e, if clean then snd (fdo y F_unlink_temp (set_name (temp_path y target) None) (\<lambda>s. s) w) else w)
            | (Inr _, w) \<Rightarrow>
                (case fthen (replace_fill y data ex w) (\<lambda>_ w.
                        fthen (case ex of None \<Rightarrow> (Inr (), w) | Some before \<Rightarrow> replace_check y path target before w) (\<lambda>_ w.
                          replace_commit y target (ex \<noteq> None) w)) of
                   (Inl e, w) \<Rightarrow> (Inl e, snd (fdo y F_unlink_temp (set_name (temp_path y target) None) (\<lambda>s. s) w))
                 | (Inr _, w) \<Rightarrow> (Inr (), w))))"

section \<open>A failed replacement leaves the files alone\<close>

text \<open>Everything but temporary names and the temporary inode is as before.\<close>

definition only_temp :: "osys \<Rightarrow> fs \<Rightarrow> fs \<Rightarrow> bool" where
  "only_temp y s s' \<longleftrightarrow>
     fs_canon s' = fs_canon s \<and> fs_symlink s' = fs_symlink s \<and>
     (\<forall>j. j \<noteq> os_ino y \<longrightarrow> fs_node s' j = fs_node s j) \<and>
     (\<forall>p. (\<forall>t. p \<noteq> fs_canon s (temp_path y t)) \<longrightarrow> fs_name s' p = fs_name s p)"

definition temps_plain :: "osys \<Rightarrow> fs \<Rightarrow> bool" where
  "temps_plain y s \<longleftrightarrow> (\<forall>t. \<not> fs_symlink s (temp_path y t))"

lemma only_temp_refl [simp]: "only_temp y s s"
  by (simp add: only_temp_def)

lemma only_temp_trans: "only_temp y a b \<Longrightarrow> only_temp y b c \<Longrightarrow> only_temp y a c"
  by (auto simp: only_temp_def)

lemma only_temp_plain: "only_temp y s s' \<Longrightarrow> temps_plain y s \<Longrightarrow> temps_plain y s'"
  by (simp add: only_temp_def temps_plain_def)

lemma only_temp_node [simp]: "only_temp y s (set_node (os_ino y) n s)"
  by (simp add: only_temp_def set_node_def)

lemma only_temp_data [simp]: "only_temp y s (set_data (os_ino y) d s)"
  by (simp add: set_data_def)

lemma only_temp_name: "temps_plain y s \<Longrightarrow> only_temp y s (set_name (temp_path y t) i s)"
  by (auto simp: only_temp_def set_name_def temps_plain_def fun_upd_idem)

text \<open>An operation that keeps to this, when nobody else writes.\<close>

definition keeps_to_temp :: "osys \<Rightarrow> (world \<Rightarrow> 'r \<times> world) \<Rightarrow> bool" where
  "keeps_to_temp y f \<longleftrightarrow> (\<forall>w. temps_plain y (w_fs w) \<longrightarrow> only_temp y (w_fs w) (w_fs (snd (f w))))"

named_theorems temp_rules \<open>operations that touch nothing but the temporary file\<close>

lemma keepsD:
  assumes "keeps_to_temp y f" "temps_plain y (w_fs w)" "f w = (r, w')"
  shows "only_temp y (w_fs w) (w_fs w')" "temps_plain y (w_fs w')"
proof -
  have "only_temp y (w_fs w) (w_fs (snd (f w)))" using assms(1,2) by (simp add: keeps_to_temp_def)
  then show "only_temp y (w_fs w) (w_fs w')" by (simp add: assms(3))
  then show "temps_plain y (w_fs w')" using assms(2) by (rule only_temp_plain)
qed

lemma keeps_return [temp_rules]: "keeps_to_temp y (\<lambda>w. (r, w))"
  by (simp add: keeps_to_temp_def)

lemma keeps_fcall [temp_rules]: "\<forall>c s. os_env y c s = s \<Longrightarrow> keeps_to_temp y (fcall y c)"
  by (simp add: keeps_to_temp_def fcall_def call_at_def Let_def split: option.split)

lemma keeps_fdo:
  assumes "\<forall>c s. os_env y c s = s" "\<And>s. temps_plain y s \<Longrightarrow> only_temp y s (good s)" "\<And>s. temps_plain y s \<Longrightarrow> only_temp y s (bad s)"
  shows "keeps_to_temp y (fdo y c good bad)"
  using assms by (auto simp: keeps_to_temp_def fdo_def fcall_def call_at_def Let_def split: option.split)

lemma keeps_fthen [temp_rules]:
  assumes "keeps_to_temp y f" "\<And>x. keeps_to_temp y (k x)"
  shows "keeps_to_temp y (\<lambda>w. fthen (f w) k)"
  unfolding keeps_to_temp_def
proof (intro allI impI)
  fix w :: world assume w: "temps_plain y (w_fs w)"
  obtain r w1 where f: "f w = (r, w1)" by fastforce
  note 1 = keepsD [OF assms(1) w f]
  show "only_temp y (w_fs w) (w_fs (snd (fthen (f w) k)))"
  proof (cases r)
    case (Inr x)
    obtain r2 w2 where k: "k x w1 = (r2, w2)" by fastforce
    then show ?thesis using f Inr only_temp_trans [OF 1(1) keepsD(1) [OF assms(2) 1(2) k]] by (simp add: fthen_def)
  qed (use f 1(1) in \<open>simp add: fthen_def\<close>)
qed

lemma keeps_open:
  assumes "\<forall>c s. os_env y c s = s"
  shows "w_fs (snd (replace_open y path expected w)) = w_fs w"
  using assms unfolding replace_open_def fcall_def call_at_def Let_def
  by (simp split: option.split)

lemma keeps_temp:
  assumes "\<forall>c s. os_env y c s = s"
  shows "keeps_to_temp y (replace_temp y target exists)"
proof -
  have e: "snd (fcall y c w) = \<lparr>w_fs = w_fs w, w_log = w_log w @ [(c, w_fs w)]\<rparr>" for c w
    using assms by (simp add: fcall_def call_at_def Let_def split: option.split)
  have name: "temps_plain y s \<Longrightarrow> only_temp y s (set_name (temp_path y target) i (set_node (os_ino y) n s))" for i n s
    by (rule only_temp_trans [OF only_temp_node only_temp_name]) (simp add: temps_plain_def set_node_def)
  show ?thesis unfolding keeps_to_temp_def
  proof (intro allI impI)
    fix w :: world assume w: "temps_plain y (w_fs w)"
    obtain r1 w1 where 1: "fdo y F_mkstemp (\<lambda>s. set_name (temp_path y target) (Some (os_ino y)) (set_node (os_ino y) (new_inode y 0x180) s)) (\<lambda>s. s) w = (r1, w1)"
      by fastforce
    have t1: "only_temp y (w_fs w) (w_fs w1)"
      by (rule keepsD(1) [OF keeps_fdo [OF assms name only_temp_refl] w 1])
    note w1 = only_temp_plain [OF t1 w]
    obtain r2 w2 where 2: "fdo y F_unlink_new (set_name (temp_path y target) None) (\<lambda>s. s) w1 = (r2, w2)" by fastforce
    have t2: "only_temp y (w_fs w) (w_fs w2)"
      by (rule only_temp_trans [OF t1 keepsD(1) [OF keeps_fdo [OF assms only_temp_name only_temp_refl] w1 2]])
    obtain r3 w3 where 3: "fcall y F_open_new w2 = (r3, w3)" by fastforce
    have t3: "w_fs w3 = w_fs w2" using e [of F_open_new w2] 3 by simp
    have t4: "only_temp y (w_fs w) (set_name (temp_path y target) i (set_node (os_ino y) n (w_fs w2)))" for i n
      by (rule only_temp_trans [OF t2 name [OF only_temp_plain [OF t2 w]]])
    show "only_temp y (w_fs w) (w_fs (snd (replace_temp y target exists w)))"
      unfolding replace_temp_def Let_def 1 prod.case
      using t1 t2 t3 t4 by (auto simp: 2 3 split: sum.split)
  qed
qed

lemma keeps_fill:
  assumes "\<forall>c s. os_env y c s = s"
  shows "keeps_to_temp y (replace_fill y data ex)"
proof -
  note n = keeps_fdo [OF assms only_temp_node only_temp_refl] keeps_fdo [OF assms only_temp_data only_temp_data]
  have m: "keeps_to_temp y (\<lambda>w. case ex of None \<Rightarrow> (Inr (), w) | Some (i, before) \<Rightarrow> f i before w)"
    if "\<And>i before. keeps_to_temp y (f i before)" for f :: "nat \<Rightarrow> inode \<Rightarrow> world \<Rightarrow> (replace_error + unit) \<times> world"
    using that by (cases ex) (auto simp: keeps_to_temp_def)
  show ?thesis
    unfolding replace_fill_def [abs_def] fun_eq_iff
    by (intro keeps_fthen m n keeps_fcall assms)
qed

lemma fcall_quiet: "\<forall>c s. os_env y c s = s \<Longrightarrow> w_fs (snd (fcall y c w)) = w_fs w"
  by (simp add: fcall_def call_at_def Let_def split: option.split)

lemma keeps_check:
  assumes "\<forall>c s. os_env y c s = s"
  shows "w_fs (snd (replace_check y path target before w)) = w_fs w"
  using assms unfolding replace_check_def fcall_def call_at_def Let_def
  by (simp split: option.split)

lemma keeps_failed_commit:
  assumes "\<forall>c s. os_env y c s = s" "replace_commit y target exists w = (Inl e, w')"
  shows "w_fs w' = w_fs w"
  using assms by (auto simp: replace_commit_def fthen_def fcall_def call_at_def Let_def split: if_splits option.splits)

lemma keeps_cleanup:
  assumes "\<forall>c s. os_env y c s = s"
  shows "keeps_to_temp y (fdo y F_unlink_temp (set_name (temp_path y target) None) (\<lambda>s. s))"
  by (rule keeps_fdo [OF assms only_temp_name only_temp_refl])

text \<open>
  C20. A replacement that fails, at whatever call, leaves every file as it was: its name, content, owner, mode
  and attributes.  Only the name of the temporary file and its new inode may differ.
\<close>

theorem replace_failure_keeps_files:
  assumes quiet: "\<forall>c s. os_env y c s = s" and plain: "temps_plain y (w_fs w)"
    and r: "agent_replace_file y path data expected w = (Inl e, w')"
  shows "only_temp y (w_fs w) (w_fs w')"
proof (cases "agent_expand_home_path y path")
  case None
  then show ?thesis using r by (simp add: agent_replace_file_def)
next
  case (Some p)
  obtain r1 w1 where o: "replace_open y p expected w = (r1, w1)" by fastforce
  have w1: "w_fs w1 = w_fs w" using keeps_open [OF quiet, of p expected w] o by simp
  show ?thesis
  proof (cases r1)
    case (Inl e1)
    then show ?thesis using r Some o w1 by (simp add: agent_replace_file_def fthen_def)
  next
    case (Inr te)
    obtain target ex where te: "te = (target, ex)" by fastforce
    obtain r2 w2 where t: "replace_temp y target (ex \<noteq> None) w1 = (r2, w2)" by fastforce
    note 2 = keepsD [OF keeps_temp [OF quiet] plain [folded w1] t, unfolded w1]
    note clean = keeps_cleanup [OF quiet, unfolded keeps_to_temp_def, rule_format, of _ target]
    show ?thesis
    proof (cases r2)
      case (Inl e2)
      then show ?thesis using r Some o Inr te t 2 only_temp_trans [OF 2(1) clean [OF 2(2)]]
        by (cases e2) (auto simp: agent_replace_file_def fthen_def split: if_splits)
    next
      case i2: (Inr u)
      define body where "body = fthen (replace_fill y data ex w2) (\<lambda>_ w.
          fthen (case ex of None \<Rightarrow> (Inr (), w) | Some before \<Rightarrow> replace_check y p target before w) (\<lambda>_ w.
            replace_commit y target (ex \<noteq> None) w))"
      obtain e3 w3 where b: "body = (Inl e3, w3)" and w': "w' = snd (fdo y F_unlink_temp (set_name (temp_path y target) None) (\<lambda>s. s) w3)"
        using r Some o Inr te t i2 by (auto simp: agent_replace_file_def fthen_def body_def split: sum.splits prod.splits)
      have "only_temp y (w_fs w2) (w_fs w3)"
      proof -
        obtain r4 w4 where f: "replace_fill y data ex w2 = (r4, w4)" by fastforce
        have 4: "only_temp y (w_fs w2) (w_fs w4)" by (rule keepsD(1) [OF keeps_fill [OF quiet] 2(2) f])
        obtain r5 w5 where c: "(case ex of None \<Rightarrow> (Inr (), w4) | Some before \<Rightarrow> replace_check y p target before w4) = (r5, w5)" by fastforce
        have 5: "w_fs w5 = w_fs w4" using c keeps_check [OF quiet, of p target "the ex" w4] by (cases ex) (simp, metis option.case(2) option.sel snd_conv)
        show ?thesis
        proof (cases "isl r4 \<or> isl r5")
          case True
          then show ?thesis using b f c 4 5 unfolding body_def fthen_def by (cases r4; cases r5) auto
        next
          case False
          then have "replace_commit y target (ex \<noteq> None) w5 = (Inl e3, w3)"
            using b f c unfolding body_def fthen_def by (cases r4; cases r5) auto
          from keeps_failed_commit [OF quiet this] show ?thesis using 4 5 by simp
        qed
      qed
      from only_temp_trans [OF 2(1) this] only_temp_plain [OF this 2(2)] show ?thesis
        unfolding w' using only_temp_trans clean by blast
    qed
  qed
qed

end
