(* ===== verification/Agent_Edit.thy ===== *)
theory Agent_Edit
  imports Agent_File Agent_Parse
begin

text \<open>
  The agent's edit tool (\<^verbatim>\<open>agent_split_lines\<close> to \<^verbatim>\<open>agent_tool_edit\<close> of \<^verbatim>\<open>q36_agent.c\<close>): finding the old
  text in a file by exact and unique match, also between a head and a tail anchor, splicing in the new
  text, and the report with the lines around the edit.

  Offsets into the file are naturals; a line number is counted from 1.
\<close>

section \<open>Lines\<close>

record agent_line_span =
  sp_start :: nat
  sp_content_end :: nat
  sp_end :: nat

definition is_eol :: "u8 \<Rightarrow> bool" where
  "is_eol c \<longleftrightarrow> c = 10 \<or> c = 13"

definition line_at :: "bytes \<Rightarrow> nat \<Rightarrow> agent_line_span" where
  "line_at data pos =
     (let ce = pos + length (takeWhile (\<lambda>c. \<not> is_eol c) (drop pos data));
          e = (if ce < length data then
                 (if data ! ce = 13 \<and> ce + 1 < length data \<and> data ! (ce + 1) = 10 then ce + 2 else ce + 1)
               else ce)
      in \<lparr>sp_start = pos, sp_content_end = ce, sp_end = e\<rparr>)"

lemma line_at_moves: "pos < length data \<Longrightarrow> pos < sp_end (line_at data pos)"
proof -
  assume p: "pos < length data"
  then obtain c r where d: "drop pos data = c # r" by (metis Cons_nth_drop_Suc)
  then have n: "data ! pos = c" using p by (metis nth_via_drop)
  show ?thesis
    using p d n by (auto simp: line_at_def Let_def)
qed

function agent_split_lines :: "bytes \<Rightarrow> nat \<Rightarrow> agent_line_span list" where
  "agent_split_lines data pos =
     (if pos < length data then line_at data pos # agent_split_lines data (sp_end (line_at data pos)) else [])"
  by pat_completeness auto
termination
  by (relation "measure (\<lambda>(data, pos). length data - pos)") (auto simp: diff_less_mono2 line_at_moves)

declare agent_split_lines.simps [simp del]

definition split_lines :: "bytes \<Rightarrow> agent_line_span list" where
  "split_lines data = agent_split_lines data 0"

text \<open>The number of the first line that ends behind the offset.\<close>

fun line_for_offset_from :: "agent_line_span list \<Rightarrow> nat \<Rightarrow> nat \<Rightarrow> nat" where
  "line_for_offset_from [] off n = n"
| "line_for_offset_from (s # ss) off n = (if off < sp_end s then n + 1 else line_for_offset_from ss off (n + 1))"

definition agent_line_for_offset :: "agent_line_span list \<Rightarrow> nat \<Rightarrow> nat" where
  "agent_line_for_offset spans off = (if spans = [] then 1 else line_for_offset_from spans off 0)"

text \<open>First and last touched line of the old text, and by how many lines the rest moves.\<close>

definition agent_old_new_line_effect :: "bytes \<Rightarrow> bytes \<Rightarrow> nat \<Rightarrow> nat \<Rightarrow> (nat \<times> nat \<times> int) option" where
  "agent_old_new_line_effect old new off replaced =
     (let os = split_lines old; ns = split_lines new;
          last0 = (if replaced > 0 then off + replaced - 1 else off);
          last1 = (if last0 \<ge> length old then (if old \<noteq> [] then length old - 1 else 0) else last0)
      in if os = [] then None
         else Some (agent_line_for_offset os off, agent_line_for_offset os last1, int (length ns) - int (length os)))"

section \<open>Anchors\<close>

datatype anchor = Old_Text | Old_Head | Old_Tail | Old_Prefix

fun anchor_label :: "anchor \<Rightarrow> bytes" where
  "anchor_label Old_Text = str ''old text''"
| "anchor_label Old_Head = str ''old head''"
| "anchor_label Old_Tail = str ''old tail''"
| "anchor_label Old_Prefix = str ''old prefix''"

text \<open>The hint names a line of the file, its indentation and that of the old text, in spaces and tabs.\<close>

datatype edit_error =
  Anchor_Empty anchor
| Anchor_Missing anchor bool
| Anchor_Ambiguous anchor bool
| Search_Outside anchor
| Two_Markers
| No_Tail
| Indent_Hint nat nat nat nat nat

text \<open>The flag says that the search started behind the head.\<close>

fun edit_error_text :: "edit_error \<Rightarrow> bytes" where
  "edit_error_text (Anchor_Empty a) = anchor_label a @ str '' anchor is empty''"
| "edit_error_text (Anchor_Missing a after) = anchor_label a @ str '' anchor not found'' @ (if after then str '' after old head'' else [])"
| "edit_error_text (Anchor_Ambiguous a after) = anchor_label a @ str '' anchor is not unique'' @ (if after then str '' after old head'' else [])"
| "edit_error_text (Search_Outside a) = anchor_label a @ str '' search starts outside file''"
| "edit_error_text Two_Markers = str ''old text contains more than one [upto] marker''"
| "edit_error_text No_Tail = str ''old text after [upto] must include a unique tail anchor''"
| "edit_error_text (Indent_Hint line fs ft sp tb) =
     str ''old text anchor not found. File line '' @ decimal line @ str '' has '' @ decimal fs @ str '' leading spaces and '' @
     decimal ft @ str '' tabs; old has '' @ decimal sp @ str '' spaces and '' @ decimal tb @
     str '' tabs. Read raw=true and copy the indentation exactly.''"

definition agent_memmem_simple :: "bytes \<Rightarrow> bytes \<Rightarrow> nat option" where
  "agent_memmem_simple hay needle =
     (if needle = [] then Some 0
      else if length needle > length hay then None
      else find (\<lambda>i. starts_with needle (drop i hay)) [0..<length hay - length needle + 1])"

definition agent_find_unique :: "bytes \<Rightarrow> bytes \<Rightarrow> anchor \<Rightarrow> edit_error + nat" where
  "agent_find_unique data needle label =
     (if needle = [] then Inl (Anchor_Empty label)
      else case agent_memmem_simple data needle of
        None \<Rightarrow> Inl (Anchor_Missing label False)
      | Some first \<Rightarrow>
          if first + 1 \<le> length data \<and> agent_memmem_simple (drop (first + 1) data) needle \<noteq> None
          then Inl (Anchor_Ambiguous label False)
          else Inr first)"

definition agent_find_unique_after :: "bytes \<Rightarrow> nat \<Rightarrow> bytes \<Rightarrow> anchor \<Rightarrow> edit_error + nat" where
  "agent_find_unique_after data start needle label =
     (if needle = [] then Inl (Anchor_Empty label)
      else if start > length data then Inl (Search_Outside label)
      else case agent_memmem_simple (drop start data) needle of
        None \<Rightarrow> Inl (Anchor_Missing label True)
      | Some off \<Rightarrow>
          let first = start + off
          in if first + 1 \<le> length data \<and> agent_memmem_simple (drop (first + 1) data) needle \<noteq> None
             then Inl (Anchor_Ambiguous label True)
             else Inr first)"

definition agent_span_has_nonspace :: "bytes \<Rightarrow> bool" where
  "agent_span_has_nonspace s \<longleftrightarrow> list_ex (\<lambda>c. \<not> isspace c) s"

section \<open>The hint on indentation\<close>

text \<open>Lines that end at a newline; a carriage return belongs to the line.\<close>

function lf_lines :: "bytes \<Rightarrow> bytes list" where
  "lf_lines s =
     (if s = [] then [] else takeWhile (\<lambda>c. c \<noteq> 10) s # lf_lines (drop (length (takeWhile (\<lambda>c. c \<noteq> 10) s) + 1) s))"
  by pat_completeness auto
termination
  by (relation "measure length") auto

declare lf_lines.simps [simp del]

definition is_blank :: "u8 \<Rightarrow> bool" where
  "is_blank c \<longleftrightarrow> c = 32 \<or> c = 9"

definition indent_of :: "bytes \<Rightarrow> nat \<times> nat" where
  "indent_of l = (let b = takeWhile is_blank l in (length (filter (\<lambda>c. c = 32) b), length (filter (\<lambda>c. c \<noteq> 32) b)))"

text \<open>The file's lines, with their numbers, that agree with a line of the old text but for the indentation.\<close>

definition indent_matches :: "bytes \<Rightarrow> bytes \<Rightarrow> (nat \<times> bytes) list" where
  "indent_matches data l =
     filter (\<lambda>(n, m). dropWhile is_blank m = dropWhile is_blank l) (zip [1..<length (lf_lines data) + 1] (lf_lines data))"

definition indent_hint_line :: "bytes \<Rightarrow> bytes \<Rightarrow> edit_error option" where
  "indent_hint_line data l =
     (if dropWhile is_blank l = [] then None
      else case indent_matches data l of
        [(n, m)] \<Rightarrow>
          if indent_of m \<noteq> indent_of l
          then Some (Indent_Hint n (fst (indent_of m)) (snd (indent_of m)) (fst (indent_of l)) (snd (indent_of l)))
          else None
      | _ \<Rightarrow> None)"

fun first_hint :: "bytes \<Rightarrow> bytes list \<Rightarrow> edit_error option" where
  "first_hint data [] = None"
| "first_hint data (l # ls) = (case indent_hint_line data l of Some e \<Rightarrow> Some e | None \<Rightarrow> first_hint data ls)"

definition agent_edit_indent_hint :: "bytes \<Rightarrow> bytes \<Rightarrow> edit_error option" where
  "agent_edit_indent_hint data old = first_hint data (take 16 (lf_lines old))"

section \<open>The old span\<close>

definition UPTO :: bytes where "UPTO = str ''[upto]''"

definition upto_tail :: "bytes \<Rightarrow> nat \<Rightarrow> bytes" where
  "upto_tail old u = dropWhile is_eol (drop (u + length UPTO) old)"

text \<open>Offset and length of the match, and whether it lies between two anchors.\<close>

definition find_anchored :: "bytes \<Rightarrow> bytes \<Rightarrow> nat \<Rightarrow> edit_error + nat \<times> nat \<times> bool" where
  "find_anchored data old u =
     (if strstr (drop (u + length UPTO) old) UPTO \<noteq> None then Inl Two_Markers
      else if \<not> agent_span_has_nonspace (upto_tail old u) then Inl No_Tail
      else case agent_find_unique data (take u old) Old_Head of
        Inl e \<Rightarrow> Inl e
      | Inr h \<Rightarrow>
          (case agent_find_unique_after data (h + u) (upto_tail old u) Old_Tail of
             Inl e \<Rightarrow> Inl e
           | Inr t \<Rightarrow> Inr (h, t - h + length (upto_tail old u), True)))"

definition agent_edit_find_old_span :: "bytes \<Rightarrow> bytes \<Rightarrow> bool \<Rightarrow> edit_error + nat \<times> nat \<times> bool" where
  "agent_edit_find_old_span data old allow_upto =
     (case (if allow_upto then strstr old UPTO else None) of
        None \<Rightarrow>
          (case agent_find_unique data old Old_Text of
             Inl e \<Rightarrow>
               Inl (if old \<noteq> [] \<and> agent_memmem_simple data old = None
                    then (case agent_edit_indent_hint data old of Some h \<Rightarrow> h | None \<Rightarrow> e) else e)
           | Inr m \<Rightarrow> Inr (m, length old, False))
      | Some u \<Rightarrow> find_anchored data old u)"

end
