(* ===== verification/Agent_File_Race.thy ===== *)
theory Agent_File_Race
  imports Agent_File
begin

text \<open>
  Replacing a file while other programs write: a replacement that succeeds has replaced exactly the content
  that was expected, whatever the others did up to the last check.
\<close>

section \<open>What the others may do\<close>

text \<open>
  The stamp of an inode only grows, and grows with every change.  Nobody touches the temporary file or
  makes the target a path to it.
\<close>

definition honest_at :: "nat \<Rightarrow> fs \<Rightarrow> fs \<Rightarrow> bool" where
  "honest_at i s s' \<longleftrightarrow>
     in_stamp (fs_node s i) \<le> in_stamp (fs_node s' i) \<and>
     (in_stamp (fs_node s i) = in_stamp (fs_node s' i) \<longrightarrow> fs_node s' i = fs_node s i)"

definition honest_env :: "osys \<Rightarrow> bool" where
  "honest_env y \<longleftrightarrow> (\<forall>c s i. honest_at i s (os_env y c s))"

definition private_temp :: "osys \<Rightarrow> bytes \<Rightarrow> bool" where
  "private_temp y target \<longleftrightarrow>
     (\<forall>c s. let s' = os_env y c s; temp = temp_path y target in
        fs_node s' (os_ino y) = fs_node s (os_ino y) \<and> fs_name s' temp = fs_name s temp \<and>
        fs_canon s' temp = fs_canon s temp \<and> fs_symlink s' temp = fs_symlink s temp \<and>
        (fs_canon s' target = temp \<longrightarrow> fs_canon s target = temp))"

text \<open>The name that \<^verbatim>\<open>mkstemp\<close> chooses is new: it is its own canonical spelling, and not the target's.\<close>

definition fresh_temp :: "osys \<Rightarrow> bytes \<Rightarrow> fs \<Rightarrow> bool" where
  "fresh_temp y target s \<longleftrightarrow>
     (let temp = temp_path y target in fs_canon s temp = temp \<and> \<not> fs_symlink s temp \<and> fs_canon s target \<noteq> temp)"

lemma honest_refl [simp]: "honest_at i s s"
  by (simp add: honest_at_def)

lemma honest_trans: "honest_at i a b \<Longrightarrow> honest_at i b c \<Longrightarrow> honest_at i a c"
  unfolding honest_at_def by (metis dual_order.antisym order_trans)

lemma honest_between:
  "honest_at i a b \<Longrightarrow> honest_at i b c \<Longrightarrow> in_stamp (fs_node a i) = in_stamp (fs_node c i) \<Longrightarrow>
     fs_node b i = fs_node a i \<and> fs_node c i = fs_node a i"
  unfolding honest_at_def by (metis dual_order.antisym)

section \<open>Time passes\<close>

definition later :: "nat \<Rightarrow> world \<Rightarrow> world \<Rightarrow> bool" where
  "later i w w' \<longleftrightarrow> honest_at i (w_fs w) (w_fs w') \<and> prefix (w_log w) (w_log w')"

lemma later_refl [simp]: "later i w w"
  by (simp add: later_def)

lemma later_trans: "later i a b \<Longrightarrow> later i b c \<Longrightarrow> later i a c"
  by (auto simp: later_def intro: honest_trans)

lemma later_log: "later i w w' \<Longrightarrow> x \<in> set (w_log w) \<Longrightarrow> x \<in> set (w_log w')"
  by (auto simp: later_def prefix_def)

lemma fcall_log: "(c, w_fs (snd (fcall y c w))) \<in> set (w_log (snd (fcall y c w)))"
  by (simp add: fcall_def call_at_def Let_def split: option.split)

lemma fcall_state: "w_fs (snd (fcall y c w)) = os_env y c (w_fs w)"
  by (simp add: fcall_def call_at_def Let_def split: option.split)

lemma fcall_later: "honest_env y \<Longrightarrow> later i w (snd (fcall y c w))"
  by (simp add: fcall_def call_at_def Let_def later_def honest_env_def split: option.split)

lemma fcall_laterD: "honest_env y \<Longrightarrow> fcall y c w = (r, w') \<Longrightarrow> later i w w'"
  by (metis fcall_later snd_conv)

lemma fdo_ok:
  assumes "fdo y c good bad w = (Inr x, w')"
  obtains w1 where "fcall y c w = (Inr (), w1)" "w' = w1\<lparr>w_fs := good (w_fs w1)\<rparr>"
  using assms by (auto simp: fdo_def split: sum.splits prod.splits)

lemma fthen_ok:
  assumes "fthen r k = (Inr x, w')"
  obtains a w1 where "r = (Inr a, w1)" "k a w1 = (Inr x, w')"
  using assms by (auto simp: fthen_def split: sum.splits prod.splits)

lemma later_change: "later i w w1 \<Longrightarrow> fs_node (f (w_fs w1)) i = fs_node (w_fs w1) i \<Longrightarrow> later i w (w1\<lparr>w_fs := f (w_fs w1)\<rparr>)"
  by (simp add: later_def honest_at_def)

lemma node_other [simp]:
  "i \<noteq> j \<Longrightarrow> fs_node (set_node j n s) i = fs_node s i" "fs_node (set_name p k s) i = fs_node s i"
  "i \<noteq> j \<Longrightarrow> fs_node (set_data j d s) i = fs_node s i"
  by (simp_all add: set_node_def set_name_def set_data_def Let_def)

section \<open>The temporary file\<close>

definition temp_is :: "osys \<Rightarrow> bytes \<Rightarrow> inode \<Rightarrow> fs \<Rightarrow> bool" where
  "temp_is y target n s \<longleftrightarrow>
     fresh_temp y target s \<and> fs_node s (os_ino y) = n \<and> fs_name s (temp_path y target) = Some (os_ino y)"

lemma temp_is_env: "private_temp y target \<Longrightarrow> temp_is y target n s \<Longrightarrow> temp_is y target n (os_env y c s)"
  by (auto simp: temp_is_def private_temp_def fresh_temp_def Let_def)

lemma temp_is_node: "temp_is y target n s \<Longrightarrow> temp_is y target m (set_node (os_ino y) m s)"
  by (simp add: temp_is_def set_node_def fresh_temp_def)

lemma temp_is_get: "temp_is y target n s \<Longrightarrow> fs_node s (os_ino y) = n"
  by (simp add: temp_is_def)

lemma temp_path_neq: "temp_path y target \<noteq> target"
  by (auto simp: temp_path_def lit_simps)

lemma temp_is_new:
  assumes "fresh_temp y target s"
  shows "temp_is y target n (set_name (temp_path y target) (Some (os_ino y)) (set_node (os_ino y) n s))"
  using assms temp_path_neq [of y target]
  by (auto simp: temp_is_def fresh_temp_def set_name_def set_node_def Let_def)

lemma temp_is_lookup: "temp_is y target n s \<Longrightarrow> lookup_path s (temp_path y target) = Some (os_ino y)"
  by (simp add: temp_is_def fresh_temp_def lookup_path_def Let_def)

text \<open>A change of the temporary inode through the descriptor.\<close>

lemma fdo_temp:
  assumes "honest_env y" "private_temp y target" "temp_is y target n (w_fs w)" "i \<noteq> os_ino y"
    and "fdo y c (\<lambda>s. set_node (os_ino y) (f s (fs_node s (os_ino y))) s) bad w = (Inr x, w')"
  shows "later i w w'" "\<exists>s. (c, s) \<in> set (w_log w') \<and> honest_at i (w_fs w) s \<and> honest_at i s (w_fs w') \<and> temp_is y target (f s n) (w_fs w')"
proof -
  obtain w1 where 1: "fcall y c w = (Inr (), w1)" "w' = w1\<lparr>w_fs := set_node (os_ino y) (f (w_fs w1) (fs_node (w_fs w1) (os_ino y))) (w_fs w1)\<rparr>"
    using assms(5) by (rule fdo_ok)
  have l: "later i w w1" using fcall_laterD [OF assms(1) 1(1)] .
  then show "later i w w'" unfolding 1(2) by (rule later_change) (use assms(4) in simp)
  have s: "w_fs w1 = os_env y c (w_fs w)" using fcall_state [of y c w] 1(1) by simp
  have t: "temp_is y target n (w_fs w1)" unfolding s by (rule temp_is_env [OF assms(2,3)])
  have "(c, w_fs w1) \<in> set (w_log w')" using fcall_log [of c y w] 1 by simp
  moreover have "temp_is y target (f (w_fs w1) n) (w_fs w')"
    using temp_is_node [OF t] temp_is_get [OF t] by (simp add: 1(2))
  moreover have "honest_at i (w_fs w1) (w_fs w')" using assms(4) by (simp add: 1(2) honest_at_def)
  ultimately show "\<exists>s. (c, s) \<in> set (w_log w') \<and> honest_at i (w_fs w) s \<and> honest_at i s (w_fs w') \<and> temp_is y target (f s n) (w_fs w')"
    using l by (auto simp: later_def)
qed

lemma fcall_temp:
  assumes "honest_env y" "private_temp y target" "temp_is y target n (w_fs w)" "fcall y c w = (r, w')"
  shows "later i w w'" "temp_is y target n (w_fs w')"
  using fcall_laterD [OF assms(1,4)] fcall_state [of y c w] assms(4) temp_is_env [OF assms(2,3)] by simp_all

section \<open>The parts, when they succeed\<close>

lemma open_succeeds:
  assumes "honest_env y" "replace_open y p (Some old) w = (Inr (target, ex), w')"
  obtains i before sr so sf where "ex = Some (i, before)"
    "(F_realpath, sr) \<in> set (w_log w')" "target = fs_canon sr p"
    "(F_open, so) \<in> set (w_log w')" "fs_name so (fs_canon so target) = Some i"
    "before = fs_node sf i" "in_regular before" "in_nlink before = 1" "length (in_data before) = length old"
    "take (length old) (in_data (fs_node (w_fs w') i)) = old" "honest_at i sf (w_fs w')"
proof -
  obtain w1 where 1: "fcall y F_lstat w = (Inr (), w1)" "\<not> (\<not> fs_symlink (w_fs w1) p \<and> lookup_path (w_fs w1) p = None)"
    using assms(2) by (auto simp: replace_open_def split: sum.splits prod.splits if_splits)
  obtain w2 where 2: "fcall y F_realpath w1 = (Inr (), w2)" "lookup_path (w_fs w2) p \<noteq> None"
    using assms(2) 1 by (auto simp: replace_open_def split: sum.splits prod.splits if_splits)
  obtain w3 i where 3: "fcall y F_open w2 = (Inr (), w3)" "lookup_path (w_fs w3) (fs_canon (w_fs w2) p) = Some i"
    using assms(2) 1 2 by (auto simp: replace_open_def Let_def split: sum.splits prod.splits if_splits option.splits)
  obtain w4 where 4: "fcall y F_fstat w3 = (Inr (), w4)"
    using assms(2) 1 2 3 by (auto simp: replace_open_def Let_def split: sum.splits prod.splits if_splits)
  let ?b = "fs_node (w_fs w4) i"
  obtain w5 where 5: "fcall y F_read w4 = (Inr (), w5)"
    and b: "in_regular ?b" "in_nlink ?b = 1" "length (in_data ?b) = length old"
      "take (length old) (in_data (fs_node (w_fs w5) i)) = old"
    and res: "target = fs_canon (w_fs w2) p" "ex = Some (i, ?b)" "w' = w5"
    using assms(2) 1 2 3 4 by (auto simp: replace_open_def Let_def split: sum.splits prod.splits if_splits)
  have l: "later i w2 w3" "later i w3 w4" "later i w4 w5"
    using fcall_laterD [OF assms(1)] 3(1) 4 5 by blast+
  have "(F_realpath, w_fs w2) \<in> set (w_log w5)" "(F_open, w_fs w3) \<in> set (w_log w5)"
    using fcall_log [of F_realpath y w1] fcall_log [of F_open y w2] 2(1) 3(1) l later_log by fastforce+
  then show thesis
    using that [of i ?b "w_fs w2" "w_fs w3" "w_fs w4"] res b 3(2) l(3) by (simp add: lookup_path_def later_def)
qed

lemma temp_succeeds:
  assumes "honest_env y" "replace_temp y target True w = (Inr x, w')" "i \<noteq> os_ino y"
    and "\<And>s. (F_mkstemp, s) \<in> set (w_log w') \<Longrightarrow> fresh_temp y target s"
  shows "later i w w'" "temp_is y target (new_inode y 0x180) (w_fs w')"
proof -
  obtain w1 where m: "fcall y F_mkstemp w = (Inr (), w1)"
    "w' = w1\<lparr>w_fs := set_name (temp_path y target) (Some (os_ino y)) (set_node (os_ino y) (new_inode y 0x180) (w_fs w1))\<rparr>"
    using assms(2) by (auto simp: replace_temp_def Let_def split: sum.splits prod.splits if_splits elim!: fdo_ok)
  show "later i w w'" unfolding m(2) using assms(3)
    by (intro later_change fcall_laterD [OF assms(1) m(1)]) simp
  have "(F_mkstemp, w_fs w1) \<in> set (w_log w')" using fcall_log [of F_mkstemp y w] m by simp
  from temp_is_new [OF assms(4) [OF this]] show "temp_is y target (new_inode y 0x180) (w_fs w')" by (simp add: m(2))
qed

lemma fill_succeeds:
  assumes "honest_env y" "private_temp y target" "temp_is y target n (w_fs w)" "i \<noteq> os_ino y"
    and "replace_fill y data (Some (i, before)) w = (Inr x, w')"
  obtains s where "honest_at i (w_fs w) s" "honest_at i s (w_fs w')" "later i w w'"
    "temp_is y target (n\<lparr>in_data := data, in_owner := in_owner before, in_mode := in_mode before, in_xattrs := in_xattrs (fs_node s i)\<rparr>) (w_fs w')"
proof -
  obtain w1 w2 w3 w4 w5 where
      1: "fdo y F_write (\<lambda>s. set_node (os_ino y) ((fs_node s (os_ino y))\<lparr>in_data := data\<rparr>) s) (set_data (os_ino y) (take (os_part y) data)) w = (Inr (), w1)"
    and 2: "fdo y F_fchown (\<lambda>s. set_node (os_ino y) ((fs_node s (os_ino y))\<lparr>in_owner := in_owner before\<rparr>) s) (\<lambda>s. s) w1 = (Inr (), w2)"
    and 3: "fdo y F_fchmod (\<lambda>s. set_node (os_ino y) ((fs_node s (os_ino y))\<lparr>in_mode := in_mode before\<rparr>) s) (\<lambda>s. s) w2 = (Inr (), w3)"
    and 4: "fdo y F_xattrs (\<lambda>s. set_node (os_ino y) ((fs_node s (os_ino y))\<lparr>in_xattrs := in_xattrs (fs_node s i)\<rparr>) s) (\<lambda>s. s) w3 = (Inr (), w4)"
    and 5: "fcall y F_fsync w4 = (Inr (), w5)" "fcall y F_close w5 = (Inr (), w')"
    using assms(5) by (auto simp: replace_fill_def set_data_def [abs_def] elim!: fthen_ok)
  note t = fdo_temp [OF assms(1,2) _ assms(4)]
  note t1 = t [where f = "\<lambda>_ m. m\<lparr>in_data := data\<rparr>", OF assms(3) 1]
  from t1 have 1: "later i w w1" "temp_is y target (n\<lparr>in_data := data\<rparr>) (w_fs w1)" by auto
  note t2 = t [where f = "\<lambda>_ m. m\<lparr>in_owner := in_owner before\<rparr>", OF 1(2) 2]
  from t2 have 2: "later i w1 w2" "temp_is y target (n\<lparr>in_data := data, in_owner := in_owner before\<rparr>) (w_fs w2)" by auto
  note t3 = t [where f = "\<lambda>_ m. m\<lparr>in_mode := in_mode before\<rparr>", OF 2(2) 3]
  from t3 have 3: "later i w2 w3"
    "temp_is y target (n\<lparr>in_data := data, in_owner := in_owner before, in_mode := in_mode before\<rparr>) (w_fs w3)" by auto
  let ?m = "\<lambda>s. n\<lparr>in_data := data, in_owner := in_owner before, in_mode := in_mode before, in_xattrs := in_xattrs (fs_node s i)\<rparr>"
  note t4 = t [where f = "\<lambda>s m. m\<lparr>in_xattrs := in_xattrs (fs_node s i)\<rparr>", OF 3(2) 4]
  from t4 obtain s where 4: "later i w3 w4" "honest_at i (w_fs w3) s" "honest_at i s (w_fs w4)"
    "temp_is y target (?m s) (w_fs w4)" by auto
  note 5 = fcall_temp [OF assms(1,2) 4(4) 5(1)] 5(2)
  note 6 = fcall_temp [OF assms(1,2) 5(2,3)]
  show thesis
  proof (rule that [of s])
    show "honest_at i (w_fs w) s" using 1(1) 2(1) 3(1) 4(2) honest_trans by (metis later_def)
    show "honest_at i s (w_fs w')" using 4(3) 5(1) 6(1) honest_trans by (metis later_def)
    show "later i w w'" using 1(1) 2(1) 3(1) 4(1) 5(1) 6(1) later_trans by metis
    show "temp_is y target (?m s) (w_fs w')" by (rule 6(2))
  qed
qed

lemma check_succeeds:
  assumes "honest_env y" "private_temp y target" "temp_is y target n (w_fs w)"
    and "replace_check y p target (i, before) w = (Inr x, w')"
  shows "later i w w'" "temp_is y target n (w_fs w')" "(F_stat, w_fs w') \<in> set (w_log w')"
    "lookup_path (w_fs w') target = Some i" "agent_same_file_version (i, before) (i, fs_node (w_fs w') i)"
proof -
  obtain w1 where 1: "fcall y F_realpath_again w = (Inr (), w1)"
      "\<not> (lookup_path (w_fs w1) p = None \<or> fs_canon (w_fs w1) p \<noteq> target)"
    using assms(4) by (auto simp: replace_check_def split: sum.splits prod.splits if_splits)
  have 2: "fcall y F_stat w1 = (Inr (), w')" "lookup_path (w_fs w') target = Some i"
    "agent_same_file_version (i, before) (i, fs_node (w_fs w') i)"
    using assms(4) 1 by (auto simp: replace_check_def agent_same_file_version_def split: sum.splits prod.splits if_splits option.splits)
  note c1 = fcall_temp [OF assms(1-3) 1(1)]
  note c2 = fcall_temp [OF assms(1,2) c1(2) 2(1)]
  show "later i w w'" using later_trans [OF c1(1) c2(1)] .
  show "temp_is y target n (w_fs w')" by (rule c2(2))
  show "(F_stat, w_fs w') \<in> set (w_log w')" using fcall_log [of F_stat y w1] 2(1) by simp
  show "lookup_path (w_fs w') target = Some i" "agent_same_file_version (i, before) (i, fs_node (w_fs w') i)" by (rule 2)+
qed

lemma commit_succeeds:
  assumes "private_temp y target" "temp_is y target n (w_fs w)" "replace_commit y target True w = (Inr x, w')"
  shows "prefix (w_log w) (w_log w')" "lookup_path (w_fs w') target = Some (os_ino y)" "fs_node (w_fs w') (os_ino y) = n"
    "w_fs w' = set_name (temp_path y target) None (set_name target (Some (os_ino y)) (os_env y F_rename (w_fs w)))"
proof -
  let ?s = "os_env y F_rename (w_fs w)"
  have t: "temp_is y target n ?s" by (rule temp_is_env [OF assms(1,2)])
  obtain w1 where 1: "fcall y F_rename w = (Inr (), w1)"
      "w' = w1\<lparr>w_fs := set_name (temp_path y target) None (set_name target (Some (os_ino y)) (w_fs w1))\<rparr>"
    using assms(3) temp_is_lookup [OF t] fcall_state [of y F_rename w]
    by (auto simp: replace_commit_def Let_def elim!: fthen_ok split: option.splits)
  have s: "w_fs w1 = ?s" using fcall_state [of y F_rename w] 1(1) by simp
  then show e: "w_fs w' = set_name (temp_path y target) None (set_name target (Some (os_ino y)) ?s)" by (simp add: 1(2))
  show "lookup_path (w_fs w') target = Some (os_ino y)" "fs_node (w_fs w') (os_ino y) = n"
    using t temp_path_neq [of y target] unfolding e
    by (auto simp: temp_is_def fresh_temp_def lookup_path_def set_name_def Let_def)
  show "prefix (w_log w) (w_log w')" using 1
    by (auto simp: fcall_def call_at_def Let_def split: option.splits)
qed

section \<open>No update is lost\<close>

text \<open>
  However other programs write in between, a replacement that succeeds has at its last check found the
  very content the edit was made from, and puts in its place the new content with the owner, mode and
  attributes of the old file; no other name or file changes in that step.
\<close>

theorem replace_never_loses_update:
  assumes env: "honest_env y" "private_temp y target" and path: "agent_expand_home_path y path = Some p"
    and run: "agent_replace_file y path data (Some old) w = (Inr (), w')"
    and resolved: "\<forall>s. (F_realpath, s) \<in> set (w_log w') \<longrightarrow> fs_canon s p = target"
    and fresh: "\<forall>s. (F_mkstemp, s) \<in> set (w_log w') \<longrightarrow> fresh_temp y target s"
      "\<forall>s q. (F_open, s) \<in> set (w_log w') \<longrightarrow> fs_name s q \<noteq> Some (os_ino y)"
  shows "\<exists>i s. (F_stat, s) \<in> set (w_log w') \<and> lookup_path s target = Some i \<and> in_data (fs_node s i) = old \<and>
    w_fs w' = set_name (temp_path y target) None (set_name target (Some (os_ino y)) (os_env y F_rename s)) \<and>
    lookup_path (w_fs w') target = Some (os_ino y) \<and>
    fs_node (w_fs w') (os_ino y) = (fs_node s i)\<lparr>in_data := data, in_stamp := os_stamp y\<rparr>"
proof -
  obtain t0 ex w1 where 1: "replace_open y p (Some old) w = (Inr (t0, ex), w1)"
    using run path by (auto simp: agent_replace_file_def elim!: fthen_ok)
  obtain i before sr so sf where o: "ex = Some (i, before)" "(F_realpath, sr) \<in> set (w_log w1)" "t0 = fs_canon sr p"
      "(F_open, so) \<in> set (w_log w1)" "fs_name so (fs_canon so t0) = Some i"
      "before = fs_node sf i" "in_regular before" "in_nlink before = 1" "length (in_data before) = length old"
      "take (length old) (in_data (fs_node (w_fs w1) i)) = old" "honest_at i sf (w_fs w1)"
    by (rule open_succeeds [OF env(1) 1])
  obtain w2 w3 w4 where 2: "replace_temp y t0 True w1 = (Inr (), w2)" and 3: "replace_fill y data ex w2 = (Inr (), w3)"
    and 4: "replace_check y p t0 (i, before) w3 = (Inr (), w4)" and 5: "replace_commit y t0 True w4 = (Inr (), w')"
    using run path 1 o(1)
    by (auto simp: agent_replace_file_def fthen_def split: sum.splits prod.splits if_splits)
  have l5: "prefix (w_log w4) (w_log w')"
    using 5 by (auto simp: replace_commit_def fcall_def call_at_def Let_def elim!: fthen_ok split: option.splits)
  have l4: "prefix (w_log w3) (w_log w4)" using 4
    by (auto simp: replace_check_def fcall_def call_at_def Let_def split: option.splits if_splits)
  have l3: "prefix (w_log w2) (w_log w3)" using 3 o(1)
    by (auto simp: replace_fill_def fdo_def fcall_def call_at_def Let_def elim!: fthen_ok split: option.splits)
  have l2: "prefix (w_log w1) (w_log w2)" using 2
    by (auto simp: replace_temp_def fdo_def fcall_def call_at_def Let_def split: option.splits if_splits)
  have log: "set (w_log w1) \<subseteq> set (w_log w')" "set (w_log w2) \<subseteq> set (w_log w')" "set (w_log w4) \<subseteq> set (w_log w')"
    using l2 l3 l4 l5 by (auto simp: prefix_def)
  have t0: "t0 = target" using resolved o(2,3) log(1) by auto
  have i: "i \<noteq> os_ino y" using fresh(2) o(4,5) log(1) by blast
  note t = temp_succeeds [OF env(1) 2 [unfolded t0] i] 
  have "fresh_temp y target s" if "(F_mkstemp, s) \<in> set (w_log w2)" for s using that fresh(1) log(2) by blast
  note t = t [OF this]
  obtain s where f: "honest_at i (w_fs w2) s" "honest_at i s (w_fs w3)"
      "temp_is y target ((new_inode y 0x180)\<lparr>in_data := data, in_owner := in_owner before, in_mode := in_mode before,
         in_xattrs := in_xattrs (fs_node s i)\<rparr>) (w_fs w3)"
    by (rule fill_succeeds [OF env t(2) i 3 [unfolded o(1)]]) blast
  note c = check_succeeds [OF env f(3) 4 [unfolded t0]]
  note m = commit_succeeds [OF env(2) c(2) 5 [unfolded t0]]
  have h: "honest_at i (w_fs w1) s" "honest_at i s (w_fs w4)"
    using honest_trans [OF _ f(1)] honest_trans [OF f(2)] t(1) c(1) by (simp_all add: later_def)
  have st: "in_stamp (fs_node sf i) = in_stamp (fs_node (w_fs w4) i)"
    using c(5) by (simp add: agent_same_file_version_def o(6))
  have s: "fs_node s i = before \<and> fs_node (w_fs w4) i = before"
    unfolding o(6) by (rule honest_between [OF honest_trans [OF o(11) h(1)] h(2) st])
  have "fs_node (w_fs w1) i = before"
    unfolding o(6) using honest_between [OF o(11) honest_trans [OF h] st] by simp
  then have "in_data (fs_node (w_fs w4) i) = old" using s o(9,10) by simp
  moreover have "fs_node (w_fs w') (os_ino y) = (fs_node (w_fs w4) i)\<lparr>in_data := data, in_stamp := os_stamp y\<rparr>"
    using s o(7,8) unfolding m(3) by (simp add: new_inode_def)
  ultimately show ?thesis using c(3,4) m(2,4) log(3) by blast
qed

text \<open>A file \<open>/a\<close> that is replaced while another program rewrites \<open>/b\<close>.\<close>

definition sample_inode :: "bytes \<Rightarrow> inode" where
  "sample_inode d = \<lparr>in_regular = True, in_nlink = 1, in_owner = (7, 7), in_mode = 0x1A4, in_xattrs = [], in_data = d, in_stamp = 3\<rparr>"

definition sample_fs :: fs where
  "sample_fs = \<lparr>fs_node = (\<lambda>i. sample_inode (if i = 1 then str ''old'' else str ''b'')),
     fs_name = (\<lambda>p. if p = str ''/a'' then Some 1 else if p = str ''/b'' then Some 2 else None),
     fs_canon = (\<lambda>p. p), fs_symlink = (\<lambda>_. False)\<rparr>"

definition sample_env :: "fcall \<Rightarrow> fs \<Rightarrow> fs" where
  "sample_env c s = (if c = F_write then set_node 2 ((fs_node s 2)\<lparr>in_data := str ''new b'', in_stamp := in_stamp (fs_node s 2) + 1\<rparr>) s else s)"

definition sample_sys :: osys where
  "sample_sys = \<lparr>os_env = sample_env, os_err = (\<lambda>_. None), os_ino = 9, os_six = str ''abcdef'', os_new_mode = 0x1A4,
     os_stamp = 5, os_part = 0, os_home = None\<rparr>"

definition sample_world :: world where
  "sample_world = \<lparr>w_fs = sample_fs, w_log = []\<rparr>"

lemma sample_honest: "honest_env sample_sys"
  by (auto simp: honest_env_def honest_at_def sample_sys_def sample_env_def set_node_def)

lemma sample_private: "private_temp sample_sys t"
  by (auto simp: private_temp_def sample_sys_def sample_env_def set_node_def Let_def)

lemmas sample_run =
  agent_replace_file_def replace_open_def replace_temp_def replace_fill_def replace_check_def replace_commit_def
  agent_expand_home_path_def fthen_def fdo_def fcall_def call_at_def sample_sys_def sample_env_def sample_world_def sample_fs_def
  sample_inode_def lookup_path_def set_node_def set_name_def set_data_def new_inode_def temp_path_def PATH_MAX_def
  agent_same_file_version_def Let_def

lemma sample_replace:
  "fst (agent_replace_file sample_sys (str ''/a'') (str ''new'') (Some (str ''old'')) sample_world) = Inr ()"
  by (simp add: sample_run lit_simps)

lemma sample_log:
  "\<forall>(c, s)\<in>set (w_log (snd (agent_replace_file sample_sys (str ''/a'') (str ''new'') (Some (str ''old'')) sample_world))).
     (c = F_realpath \<longrightarrow> fs_canon s (str ''/a'') = str ''/a'') \<and> (c = F_mkstemp \<longrightarrow> fresh_temp sample_sys (str ''/a'') s) \<and>
     (c = F_open \<longrightarrow> (\<forall>q. fs_name s q \<noteq> Some (os_ino sample_sys)))"
  by (simp add: sample_run fresh_temp_def lit_simps)

theorem replace_never_loses_update_witness:
  "\<exists>i s. (F_stat, s) \<in> set (w_log (snd (agent_replace_file sample_sys (str ''/a'') (str ''new'') (Some (str ''old'')) sample_world))) \<and>
    lookup_path s (str ''/a'') = Some i \<and> in_data (fs_node s i) = str ''old'' \<and>
    w_fs (snd (agent_replace_file sample_sys (str ''/a'') (str ''new'') (Some (str ''old'')) sample_world)) =
      set_name (temp_path sample_sys (str ''/a'')) None (set_name (str ''/a'') (Some (os_ino sample_sys)) (os_env sample_sys F_rename s)) \<and>
    lookup_path (w_fs (snd (agent_replace_file sample_sys (str ''/a'') (str ''new'') (Some (str ''old'')) sample_world))) (str ''/a'') =
      Some (os_ino sample_sys) \<and>
    fs_node (w_fs (snd (agent_replace_file sample_sys (str ''/a'') (str ''new'') (Some (str ''old'')) sample_world))) (os_ino sample_sys) =
      (fs_node s i)\<lparr>in_data := str ''new'', in_stamp := os_stamp sample_sys\<rparr>"
proof (rule replace_never_loses_update [OF sample_honest sample_private])
  show "agent_expand_home_path sample_sys (str ''/a'') = Some (str ''/a'')" by (simp add: sample_run)
  show "agent_replace_file sample_sys (str ''/a'') (str ''new'') (Some (str ''old'')) sample_world =
      (Inr (), snd (agent_replace_file sample_sys (str ''/a'') (str ''new'') (Some (str ''old'')) sample_world))"
    using sample_replace by (simp add: prod_eq_iff)
qed (use sample_log in fast)+

theorem replace_failure_keeps_files_witness:
  "only_temp (sample_sys\<lparr>os_env := \<lambda>_ s. s, os_err := (\<lambda>c. if c = F_rename then Some (str ''Permission denied'') else None)\<rparr>)
     (w_fs sample_world)
     (w_fs (snd (agent_replace_file
        (sample_sys\<lparr>os_env := \<lambda>_ s. s, os_err := (\<lambda>c. if c = F_rename then Some (str ''Permission denied'') else None)\<rparr>)
        (str ''/a'') (str ''new'') (Some (str ''old'')) sample_world)))"
proof -
  let ?y = "sample_sys\<lparr>os_env := \<lambda>_ s. s, os_err := (\<lambda>c. if c = F_rename then Some (str ''Permission denied'') else None)\<rparr>"
  let ?r = "agent_replace_file ?y (str ''/a'') (str ''new'') (Some (str ''old'')) sample_world"
  have e: "fst ?r = Inl (Failed (str ''Permission denied''))" by (simp add: sample_run lit_simps)
  show ?thesis
  proof (rule replace_failure_keeps_files)
    show "\<forall>c s. os_env ?y c s = s" by simp
    show "temps_plain ?y (w_fs sample_world)" by (simp add: temps_plain_def sample_world_def sample_fs_def)
    show "?r = (Inl (Failed (str ''Permission denied'')), snd ?r)" using e by (simp add: prod_eq_iff)
  qed
qed

end
