(* ===== verification/Agent_Edit_Tool.thy ===== *)
theory Agent_Edit_Tool
  imports Agent_Edit Agent_File_Race
begin

text \<open>
  The edit and write tools on files (\<^verbatim>\<open>agent_edit_result\<close>, \<^verbatim>\<open>agent_apply_file_splice\<close>,
  \<^verbatim>\<open>agent_tool_edit\<close>, \<^verbatim>\<open>agent_tool_write\<close>, \<^verbatim>\<open>agent_preflight_edit_old\<close>) and the forcer that cuts short
  the typing of a long old text (\<^verbatim>\<open>agent_edit_upto_forcer_should_replace\<close>).
\<close>

section \<open>The report\<close>

definition AGENT_TOOL_MAX_BYTES :: nat where "AGENT_TOOL_MAX_BYTES = 128 * 1024"

definition signed_decimal :: "int \<Rightarrow> bytes" where
  "signed_decimal i = (if i < 0 then 45 # decimal (nat (- i)) else 43 # decimal (nat i))"

definition int_decimal :: "int \<Rightarrow> bytes" where
  "int_decimal i = (if i < 0 then 45 # decimal (nat (- i)) else decimal (nat i))"

definition context_line :: "bytes \<Rightarrow> agent_line_span list \<Rightarrow> int \<Rightarrow> bytes list" where
  "context_line data spans line =
     (let sp = spans ! nat (line - 1)
      in [int_decimal line @ [32], take (sp_content_end sp - sp_start sp) (drop (sp_start sp) data), [10]])"

definition context_lines :: "bytes \<Rightarrow> agent_line_span list \<Rightarrow> int \<Rightarrow> int \<Rightarrow> bytes list" where
  "context_lines data spans from till = concat (map (context_line data spans) [from..till])"

text \<open>
  The clamped anchors; the first and last line that are shown; five lines before, eight behind, and of
  more than 36 edited lines the first and the last 18.
\<close>

definition context_anchor :: "int \<Rightarrow> int \<Rightarrow> int \<Rightarrow> int \<times> int" where
  "context_anchor n a b =
     (let a = (if a < 1 then 1 else a); a = (if a > n then n else a);
          b = (if b < a then a else b); b = (if b > n then n else b)
      in (a, b))"

definition agent_edit_result_append_context :: "bytes \<Rightarrow> bytes \<Rightarrow> int \<Rightarrow> int \<Rightarrow> bytes list" where
  "agent_edit_result_append_context path data anchor_start anchor_end =
     (let spans = split_lines data; n = int (length spans); (a, b) = context_anchor n anchor_start anchor_end;
          from = (if a - 5 < 1 then 1 else a - 5); till = (if b + 8 > n then n else b + 8);
          header = take (PATH_MAX + 159) (str ''Current file around edit: '' @ path @ str '' lines '' @ int_decimal from @ [45] @
            int_decimal till @ str '' of '' @ int_decimal n @ [10])
      in if spans = [] then []
         else if b - a + 1 \<le> 36 then header # context_lines data spans from till
         else header # context_lines data spans from (a + 17) @
              [str ''... '' @ int_decimal (b - 17 - (a + 17) - 1) @ str '' edited lines omitted ...'' @ [10]] @
              context_lines data spans (b - 17) till)"

definition agent_edit_result :: "bytes \<Rightarrow> (nat \<times> nat \<times> int) option \<Rightarrow> bytes \<Rightarrow> bytes \<Rightarrow> bytes" where
  "agent_edit_result path effect new_data kind =
     (let cut = take (PATH_MAX + 179);
          touched = (case effect of
             None \<Rightarrow> []
           | Some (start, last1, delta) \<Rightarrow>
               if start > 0 \<and> last1 \<ge> start then
                 [cut (str ''Touched old lines '' @ decimal start @ [45] @ decimal last1 @
                    str ''; current post-edit context follows.'' @ [10])] @
                 (if delta \<noteq> 0 then
                    [cut (str ''Line shift: old lines after '' @ decimal last1 @ str '' moved by '' @ signed_decimal delta @
                       str '' (old line '' @ decimal (last1 + 1) @ str '' is now line '' @ int_decimal (int last1 + 1 + delta) @
                       str ''). Re-read before relying on old line numbers there.'' @ [10])]
                  else []) @
                 agent_edit_result_append_context path new_data (int start)
                   (if int last1 + delta < int start then int start else int last1 + delta)
               else [])
      in agent_buf_take (foldl agent_buf_append (buf_empty AGENT_TOOL_MAX_BYTES)
           (cut (str ''Edited '' @ path @ str '' using '' @ kind @ [10]) # touched)))"

section \<open>The tools\<close>

datatype tool_error =
  Needs bytes | Not_Read bytes | Not_Found edit_error | Not_Replaced bytes replace_error

text \<open>The error buffers of the tools have 256 bytes.\<close>

fun tool_error_text :: "bytes \<Rightarrow> tool_error \<Rightarrow> bytes" where
  "tool_error_text tool (Needs what) = str ''Tool error: '' @ tool @ str '' requires '' @ what @ [10]"
| "tool_error_text tool (Not_Read e) = str ''Tool error: '' @ take 255 e @ [10]"
| "tool_error_text tool (Not_Found e) = str ''Tool error: '' @ take 255 (edit_error_text e) @ [10]"
| "tool_error_text tool (Not_Replaced path e) = str ''Tool error: '' @ take 255 (replace_error_text path e) @ [10]"

definition splice_text :: "bytes \<Rightarrow> nat \<Rightarrow> nat \<Rightarrow> bytes \<Rightarrow> bytes" where
  "splice_text data off remove new = take off data @ new @ drop (off + remove) data"

definition agent_apply_file_splice ::
    "osys \<Rightarrow> bytes \<Rightarrow> bytes \<Rightarrow> nat \<Rightarrow> nat \<Rightarrow> bytes \<Rightarrow> bytes \<Rightarrow> world \<Rightarrow> (tool_error + bytes) \<times> world" where
  "agent_apply_file_splice y path data off remove new kind w =
     (let out = splice_text data off remove new
      in case agent_replace_file y path out (Some data) w of
           (Inl e, w) \<Rightarrow> (Inl (Not_Replaced path e), w)
         | (Inr _, w) \<Rightarrow> (Inr (agent_edit_result path (agent_old_new_line_effect data out off remove) out kind), w))"

definition edit_kind :: "bool \<Rightarrow> bytes" where
  "edit_kind anchored = (if anchored then str ''anchored old/new replacement'' else str ''old/new replacement'')"

definition edit_file :: "osys \<Rightarrow> bool \<Rightarrow> bytes \<Rightarrow> bytes \<Rightarrow> bytes \<Rightarrow> world \<Rightarrow> (tool_error + bytes) \<times> world" where
  "edit_file y allow_upto path old new w =
     (case agent_read_file_bytes y path w of
        (Inl e, w) \<Rightarrow> (Inl (Not_Read e), w)
      | (Inr data, w) \<Rightarrow>
          (case agent_edit_find_old_span data old allow_upto of
             Inl e \<Rightarrow> (Inl (Not_Found e), w)
           | Inr (m, n, anchored) \<Rightarrow> agent_apply_file_splice y path data m n new (edit_kind anchored) w))"

definition arg_missing :: "bytes option \<Rightarrow> bool" where
  "arg_missing a \<longleftrightarrow> a = None \<or> a = Some []"

definition agent_tool_edit :: "osys \<Rightarrow> bool \<Rightarrow> agent_tool_call \<Rightarrow> world \<Rightarrow> (tool_error + bytes) \<times> world" where
  "agent_tool_edit y allow_upto call w =
     (let path = agent_tool_arg_value call (str ''path''); old = agent_tool_arg_value call (str ''old'');
          new = agent_tool_arg_value call (str ''new'')
      in if arg_missing path then (Inl (Needs (str ''path'')), w)
         else if arg_missing old then (Inl (Needs (str ''non-empty old text'')), w)
         else if new = None then (Inl (Needs (str ''new text'')), w)
         else edit_file y allow_upto (the path) (the old) (the new) w)"

definition agent_tool_write :: "osys \<Rightarrow> agent_tool_call \<Rightarrow> world \<Rightarrow> (tool_error + bytes) \<times> world" where
  "agent_tool_write y call w =
     (let path = agent_tool_arg_value call (str ''path''); content = agent_tool_arg_value call (str ''content'')
      in if arg_missing path then (Inl (Needs (str ''path'')), w)
         else if content = None then (Inl (Needs (str ''content'')), w)
         else case agent_replace_file y (the path) (the content) None w of
           (Inl e, w) \<Rightarrow> (Inl (Not_Replaced (the path) e), w)
         | (Inr _, w) \<Rightarrow>
             (Inr (take (PATH_MAX + 159) (str ''Wrote '' @ decimal (length (the content)) @ str '' bytes to '' @ the path @ [10])), w))"

text \<open>Before the whole call has arrived: whether its old text could be found; an error ends the call early.\<close>

definition agent_preflight_edit_old :: "osys \<Rightarrow> bool \<Rightarrow> agent_tool_call \<Rightarrow> world \<Rightarrow> (tool_error + unit) \<times> world" where
  "agent_preflight_edit_old y allow_upto call w =
     (let path = agent_tool_arg_value call (str ''path''); old = agent_tool_arg_value call (str ''old'')
      in if arg_missing path then (Inr (), w)
         else if arg_missing old then (Inl (Needs (str ''non-empty old text'')), w)
         else case agent_read_file_bytes y (the path) w of
           (Inl e, w) \<Rightarrow> (Inl (Not_Read e), w)
         | (Inr data, w) \<Rightarrow>
             (case agent_edit_find_old_span data (the old) allow_upto of
                Inl e \<Rightarrow> (Inl (Not_Found e), w)
              | Inr _ \<Rightarrow> (Inr (), w)))"

section \<open>Cutting short the typing of the old text\<close>

record agent_edit_upto_forcer =
  uf_active :: bool
  uf_done :: bool

definition edit_space :: "u8 \<Rightarrow> bool" where
  "edit_space c \<longleftrightarrow> c = 32 \<or> c = 9 \<or> c = 13 \<or> c = 10"

definition agent_edit_old_may_be_closing_tag :: "bytes \<Rightarrow> bool" where
  "agent_edit_old_may_be_closing_tag text \<longleftrightarrow> (case dropWhile edit_space text of c # _ \<Rightarrow> c = 60 | [] \<Rightarrow> False)"

definition agent_edit_old_is_only_space :: "bytes \<Rightarrow> bool" where
  "agent_edit_old_is_only_space text \<longleftrightarrow> list_all edit_space text"

text \<open>The finished lines with a character that is no space.\<close>

fun nonempty_lines :: "bytes \<Rightarrow> bool \<Rightarrow> nat" where
  "nonempty_lines [] has_text = 0"
| "nonempty_lines (c # s) has_text =
     (if c = 10 then (if has_text then 1 else 0) + nonempty_lines s False
      else nonempty_lines s (has_text \<or> \<not> isspace c))"

definition agent_edit_old_prefix_mature_for_upto :: "bytes \<Rightarrow> bool" where
  "agent_edit_old_prefix_mature_for_upto old \<longleftrightarrow> length old \<ge> 64 \<and> nonempty_lines old False \<ge> 2"

definition agent_edit_old_ready_for_upto :: "bytes \<Rightarrow> bool" where
  "agent_edit_old_ready_for_upto old \<longleftrightarrow>
     old \<noteq> [] \<and> strstr old UPTO = None \<and> agent_edit_old_prefix_mature_for_upto old \<and>
     (let r = dropWhile (\<lambda>c. c = 32 \<or> c = 9 \<or> c = 13) (rev old) in r \<noteq> [] \<and> hd r = 10)"

definition in_edit_old :: "agent_qwen_tool_parser \<Rightarrow> bool" where
  "in_edit_old p \<longleftrightarrow>
     qp_state p = AGENT_QWEN_TOOL_PARAM_VALUE \<and> ac_name (qp_current p) = Some (str ''edit'') \<and> qp_param_name p = Some (str ''old'')"

definition typed_old :: "agent_qwen_tool_parser \<Rightarrow> bytes" where
  "typed_old p = drop (qp_param_value_start p) (qp_raw p)"

definition agent_edit_upto_forcer_should_replace ::
    "osys \<Rightarrow> agent_edit_upto_forcer \<Rightarrow> agent_qwen_tool_parser \<Rightarrow> bytes \<Rightarrow> world \<Rightarrow> (bool \<times> agent_edit_upto_forcer) \<times> world" where
  "agent_edit_upto_forcer_should_replace y f p next_text w =
     (if \<not> in_edit_old p then ((False, \<lparr>uf_active = False, uf_done = False\<rparr>), w)
      else
        let f = (if uf_active f then f else \<lparr>uf_active = True, uf_done = False\<rparr>);
            path = agent_tool_arg_value (qp_current p) (str ''path'')
        in if uf_done f \<or> agent_edit_old_may_be_closing_tag next_text \<or> agent_edit_old_is_only_space next_text then ((False, f), w)
           else if arg_missing path \<or> qp_param_value_start p > length (qp_raw p) then ((False, f), w)
           else if \<not> agent_edit_old_ready_for_upto (typed_old p) then ((False, f), w)
           else case agent_read_file_bytes y (the path) w of
             (Inl _, w) \<Rightarrow> ((False, f), w)
           | (Inr data, w) \<Rightarrow>
               if isl (agent_find_unique data (typed_old p) Old_Prefix) then ((False, f), w)
               else ((True, f\<lparr>uf_done := True\<rparr>), w))"

end
