(* ===== verification/Agent_Read.thy ===== *)
theory Agent_Read
  imports Agent_Edit_Tool
begin

text \<open>
  The agent's read tool (\<^verbatim>\<open>agent_parse_int_default\<close>, \<^verbatim>\<open>agent_parse_bool_default\<close>,
  \<^verbatim>\<open>agent_worker_set_more\<close>, \<^verbatim>\<open>agent_read_range_from\<close>, \<^verbatim>\<open>agent_tool_read\<close> and \<^verbatim>\<open>agent_tool_more\<close> of
  \<^verbatim>\<open>q36_agent.c\<close>): a page of a file by lines, cut at a limit of bytes, and the position from which
  \<^verbatim>\<open>more\<close> continues.

  The position of the stream is an offset into the file; \<^verbatim>\<open>ungetc\<close> leaves it where it was.
\<close>

section \<open>Arguments\<close>

definition INT_MAX :: int where "INT_MAX = 2 ^ 31 - 1"

text \<open>\<^verbatim>\<open>strtol\<close> in base 10: spaces, a sign, digits; the value saturates; no digits, no number.\<close>

definition strtol10 :: "bytes \<Rightarrow> (int \<times> bytes) option" where
  "strtol10 s =
     (let s = dropWhile isspace s; neg = (peek s = 45); s = (if peek s = 43 \<or> peek s = 45 then tl s else s);
          d = takeWhile isdigit s; v = int (foldl dec_step 0 d); v = (if neg then - v else v)
      in if d = [] then None
         else Some (max (- (2 ^ 63)) (min (2 ^ 63 - 1) v), drop (length d) s))"

definition agent_parse_int_default :: "bytes option \<Rightarrow> int \<Rightarrow> int \<Rightarrow> int \<Rightarrow> int" where
  "agent_parse_int_default s def lo hi =
     (if arg_missing s then def
      else case strtol10 (the s) of
        None \<Rightarrow> def
      | Some (v, rest) \<Rightarrow>
          if dropWhile edit_space rest \<noteq> [] then def
          else (let v = (if v < lo then lo else v) in if v > hi then hi else v))"

definition strcase_eq :: "bytes \<Rightarrow> bytes \<Rightarrow> bool" where
  "strcase_eq a b \<longleftrightarrow> map tolower a = map tolower b"

definition agent_parse_bool_default :: "bytes option \<Rightarrow> bool \<Rightarrow> bool" where
  "agent_parse_bool_default s def =
     (if arg_missing s then def
      else if strcase_eq (the s) (str ''true'') \<or> strcase_eq (the s) (str ''yes'') \<or> the s = str ''1'' then True
      else if strcase_eq (the s) (str ''false'') \<or> strcase_eq (the s) (str ''no'') \<or> the s = str ''0'' then False
      else def)"

section \<open>Where to continue\<close>

record more_state =
  more_path :: bytes
  more_next_line :: int
  more_bare :: bool
  more_valid :: bool
  more_byte_offset :: nat
  more_mid_line :: bool

definition agent_worker_set_more :: "bytes option \<Rightarrow> int \<Rightarrow> bool \<Rightarrow> more_state" where
  "agent_worker_set_more path next_line bare =
     \<lparr>more_path = (case path of Some p \<Rightarrow> take (PATH_MAX - 1) p | None \<Rightarrow> []), more_next_line = next_line, more_bare = bare,
      more_valid = (path \<noteq> None \<and> path \<noteq> Some [] \<and> next_line > 0), more_byte_offset = 0, more_mid_line = False\<rparr>"

section \<open>One page\<close>

text \<open>The end of the line break at a position that holds one.\<close>

definition after_char :: "bytes \<Rightarrow> nat \<Rightarrow> nat" where
  "after_char data pos =
     (if data ! pos = 13 \<and> pos + 1 < length data \<and> data ! (pos + 1) = 10 then pos + 2 else pos + 1)"

function skip_to_line :: "bytes \<Rightarrow> nat \<Rightarrow> int \<Rightarrow> int \<Rightarrow> nat \<times> int" where
  "skip_to_line data pos line start =
     (if line < start \<and> pos < length data
      then skip_to_line data (after_char data pos) (if is_eol (data ! pos) then line + 1 else line) start
      else (pos, line))"
  by pat_completeness auto
termination
  by (relation "measure (\<lambda>(data, pos, _). length data - pos)") (auto simp: after_char_def)

record page =
  pg_pos :: nat
  pg_line :: int
  pg_lines :: int
  pg_body :: bytes
  pg_beginning :: bool
  pg_prefix :: bool
  pg_last :: int

datatype page_result = Page page | Binary | Line_Overflow

definition page_limit :: nat where "page_limit = AGENT_TOOL_MAX_BYTES - 4096"

definition line_label :: "int \<Rightarrow> bool \<Rightarrow> bytes" where
  "line_label line beginning = int_decimal line @ (if beginning then [] else str '' (continued)'') @ [32]"

text \<open>The character at the position joins the body; a line break in another spelling is shown as a newline.\<close>

definition read_char :: "bool \<Rightarrow> bytes \<Rightarrow> page \<Rightarrow> page" where
  "read_char bare data p =
     (let c = data ! pg_pos p; next = after_char data (pg_pos p); crlf = (next = pg_pos p + 2);
          body = pg_body p @ (if pg_prefix p \<and> \<not> bare then line_label (pg_line p) (pg_beginning p) else []);
          body = body @ (if c = 13 then (if bare then [13] else []) @ (if crlf \<or> \<not> bare then [10] else []) else [c]);
          p = p\<lparr>pg_last := pg_line p, pg_prefix := False, pg_beginning := False, pg_body := body, pg_pos := next\<rparr>
      in if is_eol c
         then p\<lparr>pg_line := pg_line p + 1, pg_lines := pg_lines p + 1, pg_beginning := True, pg_prefix := True\<rparr>
         else p)"

definition page_full :: "u8 \<Rightarrow> nat \<Rightarrow> bool" where
  "page_full c n \<longleftrightarrow> n \<ge> page_limit \<and> (\<not> is_cont c \<or> n \<ge> page_limit + 3)"

function read_page :: "bool \<Rightarrow> bool \<Rightarrow> int \<Rightarrow> bytes \<Rightarrow> page \<Rightarrow> page_result" where
  "read_page whole bare max_lines data p =
     (if (whole \<or> pg_lines p < max_lines) \<and> pg_pos p < length data then
        let c = data ! pg_pos p
        in if page_full c (length (pg_body p)) then Page p
           else if c = 0 then Binary
           else if is_eol c \<and> pg_line p = INT_MAX then Line_Overflow
           else read_page whole bare max_lines data (read_char bare data p)
      else Page p)"
  by pat_completeness auto
termination
  by (relation "measure (\<lambda>(_, _, _, data, p). length data - pg_pos p)") (auto simp: read_char_def after_char_def Let_def)

declare skip_to_line.simps [simp del] read_page.simps [simp del]

section \<open>The tools\<close>

text \<open>What a read returns to the model: an error, or a header, the text, and the note that more follows.\<close>

datatype read_result = Read_Error bytes | Read_Text bytes bytes bytes

fun read_text :: "read_result \<Rightarrow> bytes" where
  "read_text (Read_Error e) = e"
| "read_text (Read_Text h b n) = h @ b @ n"

definition no_more :: more_state where
  "no_more = agent_worker_set_more None 0 False"

definition truncated_note :: "int \<Rightarrow> nat \<Rightarrow> bool \<Rightarrow> bytes" where
  "truncated_note line off beginning =
     [10] @ str ''[Read truncated. continue_offset='' @ int_decimal line @ str ''; continue_byte_offset='' @ decimal off @
     (if beginning then [] else str '' (within line)'') @ str ''. Call more to continue.]'' @ [10]"

definition page_header :: "bytes \<Rightarrow> int \<Rightarrow> int \<Rightarrow> bool \<Rightarrow> bytes" where
  "page_header path start last1 partial =
     take (PATH_MAX + 127) (path @ str '': lines '' @ int_decimal (if last1 \<noteq> 0 then start else 0) @ [45] @ int_decimal last1 @
       (if partial then str '' (partial read)'' else str '' (end of file)'') @ [10])"

definition finish_page :: "bytes \<Rightarrow> bytes \<Rightarrow> int \<Rightarrow> bool \<Rightarrow> bool \<Rightarrow> page \<Rightarrow> read_result \<times> more_state" where
  "finish_page path data start whole bare p =
     (let rest = (pg_pos p < length data)
      in if whole \<and> rest then
           (Read_Error (str ''Tool error: whole read exceeds the 128 KiB output limit; use read and more for chunks'' @ [10]), no_more)
         else
           (Read_Text (if bare then [] else page_header path start (pg_last p) rest) (pg_body p)
              (if rest then truncated_note (pg_line p) (pg_pos p) (pg_beginning p) else []),
            (agent_worker_set_more (if rest then Some path else None) (if rest then pg_line p else 0) bare)
              \<lparr>more_byte_offset := pg_pos p, more_mid_line := \<not> pg_beginning p\<rparr>))"

text \<open>The 500 lines of a default read.\<close>

definition AGENT_READ_DEFAULT_LINES :: int where "AGENT_READ_DEFAULT_LINES = 500"

definition read_data :: "bytes \<Rightarrow> bytes \<Rightarrow> int \<Rightarrow> int \<Rightarrow> bool \<Rightarrow> bool \<Rightarrow> nat \<Rightarrow> bool \<Rightarrow> read_result \<times> more_state" where
  "read_data path data start max_lines whole bare offset mid_line =
     (let start = (if start < 1 then 1 else start);
          max_lines = (if max_lines \<le> 0 then AGENT_READ_DEFAULT_LINES else max_lines);
          (pos, line) = (if offset > 0 then (offset, start) else skip_to_line data 0 1 start)
      in case read_page whole bare max_lines data
           \<lparr>pg_pos = pos, pg_line = line, pg_lines = 0, pg_body = [], pg_beginning = \<not> mid_line, pg_prefix = True, pg_last = 0\<rparr> of
           Page p \<Rightarrow> finish_page path data start whole bare p
         | Binary \<Rightarrow> (Read_Error (str ''Tool error: read encountered binary data'' @ [10]), no_more)
         | Line_Overflow \<Rightarrow>
             (Read_Error (str ''Tool error: read failed: Value too large for defined data type'' @ [10]), no_more))"

definition agent_read_range_from ::
    "osys \<Rightarrow> bytes option \<Rightarrow> int \<Rightarrow> int \<Rightarrow> bool \<Rightarrow> bool \<Rightarrow> nat \<Rightarrow> bool \<Rightarrow> more_state \<Rightarrow> world \<Rightarrow> (read_result \<times> more_state) \<times> world" where
  "agent_read_range_from y path start max_lines whole bare offset mid_line st w =
     (if arg_missing path then ((Read_Error (str ''Tool error: read requires path'' @ [10]), st), w)
      else case agent_open_regular_file y (the path) w of
        (Inl e, w) \<Rightarrow> ((Read_Error (str ''Tool error: read failed: '' @ e @ [10]), no_more), w)
      | (Inr i, w) \<Rightarrow>
          let w = call_at y F_fread w
          in case os_err y F_fread of
               Some e \<Rightarrow> ((Read_Error (str ''Tool error: read failed: '' @ e @ [10]), no_more), w)
             | None \<Rightarrow> (read_data (the path) (in_data (fs_node (w_fs w) i)) start max_lines whole bare offset mid_line, w))"

definition agent_tool_read :: "osys \<Rightarrow> agent_tool_call \<Rightarrow> more_state \<Rightarrow> world \<Rightarrow> (read_result \<times> more_state) \<times> world" where
  "agent_tool_read y call st w =
     agent_read_range_from y (agent_tool_arg_value call (str ''path''))
       (agent_parse_int_default (agent_tool_arg_value call (str ''start_line'')) 1 1 INT_MAX)
       (agent_parse_int_default (agent_tool_arg_value call (str ''max_lines'')) AGENT_READ_DEFAULT_LINES 1 INT_MAX)
       (agent_parse_bool_default (agent_tool_arg_value call (str ''whole'')) False)
       (agent_parse_bool_default (agent_tool_arg_value call (str ''raw'')) False) 0 False st w"

definition agent_tool_more :: "osys \<Rightarrow> agent_tool_call \<Rightarrow> more_state \<Rightarrow> world \<Rightarrow> (read_result \<times> more_state) \<times> world" where
  "agent_tool_more y call st w =
     (if \<not> more_valid st then ((Read_Error (str ''Tool error: no previous output to continue'' @ [10]), st), w)
      else agent_read_range_from y (Some (more_path st)) (more_next_line st)
        (agent_parse_int_default (agent_tool_arg_value call (str ''count'')) AGENT_READ_DEFAULT_LINES 1 INT_MAX)
        False (more_bare st) (more_byte_offset st) (more_mid_line st) st w)"

end
