(* ===== verification/Agent_Edit_Props.thy ===== *)
theory Agent_Edit_Props
  imports Agent_Edit_Tool
begin

text \<open>
  What the edit tool promises: the old text is found exactly when it occurs once, an anchored span lies
  between two such places, the file is changed there and nowhere else, and the lines of the report are
  those of the edit.
\<close>

section \<open>Occurrences\<close>

definition occurs_at :: "bytes \<Rightarrow> bytes \<Rightarrow> nat \<Rightarrow> bool" where
  "occurs_at data needle i \<longleftrightarrow> starts_with needle (drop i data)"

lemma occurs_bound: "occurs_at data needle i \<Longrightarrow> needle \<noteq> [] \<Longrightarrow> i + length needle \<le> length data"
  by (cases "i \<le> length data") (auto simp: occurs_at_def starts_with_def)

lemma occurs_split: "occurs_at data needle i \<Longrightarrow> needle \<noteq> [] \<Longrightarrow> data = take i data @ needle @ drop (i + length needle) data"
proof -
  assume o: "occurs_at data needle i" "needle \<noteq> []"
  then obtain r where r: "drop i data = needle @ r" by (auto simp: occurs_at_def elim: starts_withE)
  then have "drop (i + length needle) data = r" by (metis add.commute append_eq_conv_conj drop_drop)
  then show ?thesis using r by (metis append_take_drop_id)
qed

lemma memmem_Some:
  assumes "needle \<noteq> []"
  shows "agent_memmem_simple hay needle = Some i \<longleftrightarrow> occurs_at hay needle i \<and> (\<forall>j<i. \<not> occurs_at hay needle j)"
proof (cases "length needle > length hay")
  case True
  then show ?thesis using assms occurs_bound [of hay needle i] by (auto simp: agent_memmem_simple_def)
next
  case False
  have b: "occurs_at hay needle i \<Longrightarrow> i < length hay - length needle + 1" using occurs_bound [of hay needle i] assms by simp
  show ?thesis
    using False assms b
    by (auto simp: agent_memmem_simple_def find_Some_iff occurs_at_def simp del: upt_Suc)
qed

lemma memmem_None: "needle \<noteq> [] \<Longrightarrow> agent_memmem_simple hay needle = None \<longleftrightarrow> (\<forall>i. \<not> occurs_at hay needle i)"
proof
  assume n: "needle \<noteq> []" and "agent_memmem_simple hay needle = None"
  then have l: "length needle > length hay \<or> find (\<lambda>i. starts_with needle (drop i hay)) [0..<length hay - length needle + 1] = None"
    by (auto simp: agent_memmem_simple_def split: if_splits)
  show "\<forall>i. \<not> occurs_at hay needle i"
  proof (intro allI notI)
    fix i assume o: "occurs_at hay needle i"
    from occurs_bound [OF o n] have "i < length hay - length needle + 1" "length needle \<le> length hay" by auto
    then have "i \<in> set [0..<length hay - length needle + 1]" "starts_with needle (drop i hay)"
      using o by (auto simp: occurs_at_def simp del: upt_Suc)
    with l \<open>length needle \<le> length hay\<close> show False unfolding find_None_iff by (meson linorder_not_less)
  qed
next
  assume "needle \<noteq> []" "\<forall>i. \<not> occurs_at hay needle i"
  then show "agent_memmem_simple hay needle = None" using memmem_Some by (metis not_Some_eq)
qed

lemma occurs_drop: "occurs_at (drop k data) needle i \<longleftrightarrow> occurs_at data needle (k + i)"
  by (simp add: occurs_at_def add.commute)

text \<open>The second search, behind the first byte of the match, looks for another occurrence.\<close>

lemma second_None:
  assumes "needle \<noteq> []" "occurs_at data needle m"
  shows "Suc m \<le> length data \<and> agent_memmem_simple (drop (Suc m) data) needle \<noteq> None \<longleftrightarrow> (\<exists>j>m. occurs_at data needle j)"
proof -
  have "m + length needle \<le> length data" "length needle > 0" using occurs_bound [OF assms(2,1)] assms(1) by simp_all
  then have "Suc m \<le> length data" by linarith
  moreover have "(\<exists>i. occurs_at data needle (Suc m + i)) \<longleftrightarrow> (\<exists>j>m. occurs_at data needle j)"
    by (metis add_Suc less_iff_Suc_add)
  ultimately show ?thesis using assms(1) by (simp add: memmem_None occurs_drop del: not_None_eq)
qed

lemma find_unique_Inr:
  "agent_find_unique data needle a = Inr m \<longleftrightarrow> needle \<noteq> [] \<and> (\<forall>i. occurs_at data needle i \<longleftrightarrow> i = m)"
proof (cases "needle = []")
  case False
  show ?thesis
  proof (cases "agent_memmem_simple data needle")
    case None
    then show ?thesis using False memmem_None [OF False, of data] by (auto simp: agent_find_unique_def)
  next
    case (Some k)
    then have k: "occurs_at data needle k" "\<forall>j<k. \<not> occurs_at data needle j" using memmem_Some [OF False] by auto
    have "agent_find_unique data needle a = Inr m \<longleftrightarrow> m = k \<and> \<not> (\<exists>j>k. occurs_at data needle j)"
      using False unfolding agent_find_unique_def Some option.case Suc_eq_plus1 [symmetric] second_None [OF False k(1)] by auto
    then show ?thesis using False k by (metis linorder_neqE_nat)
  qed
qed (simp add: agent_find_unique_def)

lemma find_unique_after_Inr:
  "agent_find_unique_after data start needle a = Inr m \<longleftrightarrow>
     needle \<noteq> [] \<and> start \<le> length data \<and> start \<le> m \<and> (\<forall>i\<ge>start. occurs_at data needle i \<longleftrightarrow> i = m)"
proof (cases "needle = [] \<or> start > length data")
  case False
  show ?thesis
  proof (cases "agent_memmem_simple (drop start data) needle")
    case None
    then have "\<forall>i. \<not> occurs_at data needle (start + i)" using False memmem_None by (simp add: occurs_drop)
    then show ?thesis using False None by (auto simp: agent_find_unique_after_def le_iff_add)
  next
    case (Some k)
    then have k: "occurs_at data needle (start + k)" "\<forall>j<k. \<not> occurs_at data needle (start + j)"
      using memmem_Some [of needle "drop start data" k] False by (auto simp: occurs_drop)
    have n: "needle \<noteq> []" using False by simp
    have "agent_find_unique_after data start needle a = Inr m \<longleftrightarrow> m = start + k \<and> \<not> (\<exists>j>start + k. occurs_at data needle j)"
      using False unfolding agent_find_unique_after_def Let_def Some option.case Suc_eq_plus1 [symmetric] second_None [OF n k(1)] by auto
    moreover have "(\<forall>i\<ge>start. occurs_at data needle i \<longleftrightarrow> i = m) \<and> start \<le> m \<longleftrightarrow> m = start + k \<and> \<not> (\<exists>j>start + k. occurs_at data needle j)"
    proof
      assume l: "(\<forall>i\<ge>start. occurs_at data needle i \<longleftrightarrow> i = m) \<and> start \<le> m"
      then have "m = start + k" using k(1) by simp
      moreover have "\<not> occurs_at data needle j" if "j > start + k" for j using l that \<open>m = start + k\<close> by simp
      ultimately show "m = start + k \<and> \<not> (\<exists>j>start + k. occurs_at data needle j)" by blast
    next
      assume l: "m = start + k \<and> \<not> (\<exists>j>start + k. occurs_at data needle j)"
      have "j = m" if j: "j \<ge> start" "occurs_at data needle j" for j
      proof -
        obtain d where "j = start + d" using j(1) le_iff_add by blast
        then show ?thesis using j(2) k(2) l by (metis linorder_neqE_nat add_less_cancel_left)
      qed
      then show "(\<forall>i\<ge>start. occurs_at data needle i \<longleftrightarrow> i = m) \<and> start \<le> m" using l k(1) by auto
    qed
    ultimately show ?thesis using False by auto
  qed
qed (auto simp: agent_find_unique_after_def)

text \<open>An error of the search means that there is no occurrence, or more than one.\<close>

lemma find_unique_Inl:
  assumes "needle \<noteq> []"
  shows "agent_find_unique data needle a = Inl e \<longleftrightarrow>
    (e = Anchor_Missing a False \<and> (\<forall>i. \<not> occurs_at data needle i)) \<or>
    (e = Anchor_Ambiguous a False \<and> (\<exists>i j. i \<noteq> j \<and> occurs_at data needle i \<and> occurs_at data needle j))"
proof (cases "agent_memmem_simple data needle")
  case None
  then show ?thesis using assms memmem_None [OF assms, of data] by (auto simp: agent_find_unique_def)
next
  case (Some k)
  then have k: "occurs_at data needle k" "\<forall>j<k. \<not> occurs_at data needle j" using memmem_Some [OF assms] by auto
  have "agent_find_unique data needle a = Inl e \<longleftrightarrow> e = Anchor_Ambiguous a False \<and> (\<exists>j>k. occurs_at data needle j)"
    using assms unfolding agent_find_unique_def Some option.case Suc_eq_plus1 [symmetric] second_None [OF assms k(1)] by auto
  then show ?thesis using k by (metis linorder_neqE_nat nat_neq_iff)
qed

section \<open>The old span\<close>

definition only_at :: "bytes \<Rightarrow> bytes \<Rightarrow> nat \<Rightarrow> bool" where
  "only_at data needle m \<longleftrightarrow> needle \<noteq> [] \<and> (\<forall>i. occurs_at data needle i \<longleftrightarrow> i = m)"

definition only_after :: "bytes \<Rightarrow> nat \<Rightarrow> bytes \<Rightarrow> nat \<Rightarrow> bool" where
  "only_after data start needle m \<longleftrightarrow>
     needle \<noteq> [] \<and> start \<le> m \<and> occurs_at data needle m \<and> (\<forall>i. start \<le> i \<and> occurs_at data needle i \<longrightarrow> i = m)"

lemma find_only_at: "agent_find_unique data needle a = Inr m \<longleftrightarrow> only_at data needle m"
  by (simp add: find_unique_Inr only_at_def)

lemma find_only_after: "agent_find_unique_after data start needle a = Inr m \<longleftrightarrow> only_after data start needle m"
proof -
  have "only_after data start needle m \<Longrightarrow> start \<le> length data"
    using occurs_bound [of data needle m] by (auto simp: only_after_def)
  then show ?thesis unfolding find_unique_after_Inr by (auto simp: only_after_def)
qed

lemma only_at_bound: "only_at data needle m \<Longrightarrow> m + length needle \<le> length data"
  by (auto simp: only_at_def intro: occurs_bound)

lemma only_after_bound: "only_after data start needle m \<Longrightarrow> m + length needle \<le> length data"
  by (auto simp: only_after_def intro: occurs_bound)

lemma find_anchored_iff:
  assumes "strstr old UPTO = Some u"
  shows "find_anchored data old u = Inr (m, n, anchored) \<longleftrightarrow>
    anchored \<and> strstr (drop (u + length UPTO) old) UPTO = None \<and> agent_span_has_nonspace (upto_tail old u) \<and>
    only_at data (take u old) m \<and> (\<exists>t. only_after data (m + u) (upto_tail old u) t \<and> n = t - m + length (upto_tail old u))"
  unfolding find_anchored_def
  by (auto simp: find_only_at [symmetric, where a = Old_Head] find_only_after [symmetric, where a = Old_Tail] split: sum.split)

text \<open>
  C21. The edit tool finds an old text iff it occurs exactly once in the file; with a marker, iff its head occurs
  once and its tail occurs once behind the head, and the span then runs from the head to the end of
  the tail.
\<close>

theorem old_span_found_iff:
  "agent_edit_find_old_span data old allow_upto = Inr (m, n, anchored) \<longleftrightarrow>
    (case (if allow_upto then strstr old UPTO else None) of
       None \<Rightarrow> \<not> anchored \<and> only_at data old m \<and> n = length old
     | Some u \<Rightarrow>
         anchored \<and> strstr (drop (u + length UPTO) old) UPTO = None \<and> agent_span_has_nonspace (upto_tail old u) \<and>
         only_at data (take u old) m \<and>
         (\<exists>t. only_after data (m + u) (upto_tail old u) t \<and> n = t + length (upto_tail old u) - m))"
proof (cases "if allow_upto then strstr old UPTO else None")
  case None
  then show ?thesis unfolding agent_edit_find_old_span_def
    by (auto simp: find_only_at [symmetric, of data old m Old_Text] split: sum.split)
next
  case (Some u)
  then have u: "strstr old UPTO = Some u" by (simp split: if_splits)
  have "t - m + length (upto_tail old u) = t + length (upto_tail old u) - m" if "only_after data (m + u) (upto_tail old u) t" for t
    using that by (simp add: only_after_def)
  then show ?thesis using Some find_anchored_iff [OF u, of data m n anchored] by (auto simp: agent_edit_find_old_span_def)
qed

lemma old_span_bound:
  assumes "agent_edit_find_old_span data old allow_upto = Inr (m, n, anchored)"
  shows "m + n \<le> length data" "n > 0"
proof -
  have "m + n \<le> length data \<and> n > 0"
  proof (cases "if allow_upto then strstr old UPTO else None")
    case None
    then have "agent_find_unique data old Old_Text = Inr m \<and> n = length old"
      using assms by (auto simp: agent_edit_find_old_span_def split: sum.splits)
    then have o: "only_at data old m \<and> n = length old" unfolding find_only_at .
    then show ?thesis using only_at_bound [of data old m] by (auto simp: only_at_def)
  next
    case (Some u)
    then have u: "strstr old UPTO = Some u" by (simp split: if_splits)
    obtain t where t: "only_after data (m + u) (upto_tail old u) t" "n = t - m + length (upto_tail old u)"
      using assms Some find_anchored_iff [OF u, of data m n anchored] by (auto simp: agent_edit_find_old_span_def)
    moreover have "m + u \<le> t" "length (upto_tail old u) > 0" using t(1) by (simp_all add: only_after_def)
    ultimately show ?thesis using only_after_bound [OF t(1)] by linarith
  qed
  then show "m + n \<le> length data" "n > 0" by simp_all
qed

section \<open>Lines\<close>

definition span_text :: "bytes \<Rightarrow> agent_line_span \<Rightarrow> bytes" where
  "span_text data sp = take (sp_end sp - sp_start sp) (drop (sp_start sp) data)"

lemma line_at_fields [simp]: "sp_start (line_at data pos) = pos"
  by (simp add: line_at_def Let_def)

lemma line_content: "pos + length (takeWhile (\<lambda>c. \<not> is_eol c) (drop pos data)) \<le> length data" if "pos \<le> length data"
  using that length_takeWhile_le [of "\<lambda>c. \<not> is_eol c" "drop pos data"] by simp

lemma line_at_end: "pos \<le> length data \<Longrightarrow> sp_end (line_at data pos) \<le> length data"
  using line_content [of pos data] by (auto simp: line_at_def Let_def)

lemma line_at_content:
  assumes "pos \<le> length data"
  shows "sp_start (line_at data pos) \<le> sp_content_end (line_at data pos)" "sp_content_end (line_at data pos) \<le> sp_end (line_at data pos)"
    "\<forall>c\<in>set (take (sp_content_end (line_at data pos) - pos) (drop pos data)). \<not> is_eol c"
proof -
  show "sp_start (line_at data pos) \<le> sp_content_end (line_at data pos)" "sp_content_end (line_at data pos) \<le> sp_end (line_at data pos)"
    by (auto simp: line_at_def Let_def)
  have "take (sp_content_end (line_at data pos) - pos) (drop pos data) = takeWhile (\<lambda>c. \<not> is_eol c) (drop pos data)"
    by (simp add: line_at_def Let_def takeWhile_eq_take [symmetric])
  then show "\<forall>c\<in>set (take (sp_content_end (line_at data pos) - pos) (drop pos data)). \<not> is_eol c"
    by (auto dest: set_takeWhileD)
qed

lemma split_lines_from:
  "pos \<le> length data \<Longrightarrow> concat (map (span_text data) (agent_split_lines data pos)) = drop pos data"
proof (induction data pos rule: agent_split_lines.induct)
  case (1 data pos)
  show ?case
  proof (cases "pos < length data")
    case True
    let ?l = "line_at data pos"
    have e: "pos < sp_end ?l" "sp_end ?l \<le> length data" using line_at_moves [OF True] line_at_end [OF 1(2)] by auto
    have "concat (map (span_text data) (agent_split_lines data pos)) = take (sp_end ?l - pos) (drop pos data) @ drop (sp_end ?l) data"
      using 1(1) [OF True e(2)] True by (subst agent_split_lines.simps) (simp add: span_text_def [of data "line_at data pos"])
    also have "\<dots> = drop pos data" using e by (metis append_take_drop_id drop_drop le_add_diff_inverse2 less_imp_le)
    finally show ?thesis .
  next
    case False
    then show ?thesis using 1(2) by (subst agent_split_lines.simps) simp
  qed
qed

text \<open>Every line of the list is the line at its start.\<close>

lemma split_lines_line: "sp \<in> set (agent_split_lines data pos) \<Longrightarrow> sp = line_at data (sp_start sp) \<and> pos \<le> sp_start sp \<and> sp_start sp < length data"
proof (induction data pos rule: agent_split_lines.induct)
  case (1 data pos)
  from 1(2) have p: "pos < length data" by (subst (asm) agent_split_lines.simps) (simp split: if_splits)
  from 1(2) consider "sp = line_at data pos" | "sp \<in> set (agent_split_lines data (sp_end (line_at data pos)))"
    using p by (subst (asm) agent_split_lines.simps) auto
  then show ?case
  proof cases
    case 2
    from 1(1) [OF p 2] show ?thesis using line_at_moves [OF p] by simp
  qed (use p in simp)
qed

lemma line_for_offset_from:
  assumes "pos \<le> off" "off < length data"
  shows "line_for_offset_from (agent_split_lines data pos) off n > n \<and>
    line_for_offset_from (agent_split_lines data pos) off n - n \<le> length (agent_split_lines data pos) \<and>
    (let sp = agent_split_lines data pos ! (line_for_offset_from (agent_split_lines data pos) off n - n - 1)
     in sp_start sp \<le> off \<and> off < sp_end sp)"
  using assms
proof (induction data pos arbitrary: n rule: agent_split_lines.induct)
  case (1 data pos)
  then have p: "pos < length data" by simp
  let ?l = "line_at data pos" and ?r = "agent_split_lines data (sp_end (line_at data pos))"
  have s: "agent_split_lines data pos = ?l # ?r" using p by (subst agent_split_lines.simps) simp
  show ?case
  proof (cases "off < sp_end ?l")
    case True
    then show ?thesis unfolding s using 1(2) by simp
  next
    case False
    from 1(1) [OF p, of "n + 1"] False 1(3)
    have IH: "line_for_offset_from ?r off (n + 1) > n + 1 \<and> line_for_offset_from ?r off (n + 1) - (n + 1) \<le> length ?r \<and>
      (let sp = ?r ! (line_for_offset_from ?r off (n + 1) - (n + 1) - 1) in sp_start sp \<le> off \<and> off < sp_end sp)" by simp
    moreover obtain k where "line_for_offset_from ?r off (n + 1) = n + 2 + k" using IH less_iff_Suc_add by fastforce
    ultimately show ?thesis unfolding s using False by simp
  qed
qed

text \<open>
  The lines of a file, each with its line end, make up the file; no line has an end inside, and the number
  that the report gives for an offset is that of the line the offset lies in.
\<close>

theorem lines_partition:
  "concat (map (span_text data) (split_lines data)) = data \<and>
   (\<forall>sp\<in>set (split_lines data). \<forall>c\<in>set (take (sp_content_end sp - sp_start sp) (drop (sp_start sp) data)). \<not> is_eol c) \<and>
   (\<forall>off<length data. \<exists>k<length (split_lines data). agent_line_for_offset (split_lines data) off = k + 1 \<and>
      sp_start (split_lines data ! k) \<le> off \<and> off < sp_end (split_lines data ! k))"
proof (intro conjI ballI allI impI)
  show "concat (map (span_text data) (split_lines data)) = data"
    using split_lines_from [of 0 data] by (simp add: split_lines_def)
  show "\<not> is_eol c" if "sp \<in> set (split_lines data)" "c \<in> set (take (sp_content_end sp - sp_start sp) (drop (sp_start sp) data))" for sp c
    using split_lines_line [OF that(1) [unfolded split_lines_def]] line_at_content(3) [of "sp_start sp" data] that(2)
    by (metis less_imp_le)
  show "\<exists>k<length (split_lines data). agent_line_for_offset (split_lines data) off = k + 1 \<and>
      sp_start (split_lines data ! k) \<le> off \<and> off < sp_end (split_lines data ! k)" if "off < length data" for off
  proof (rule exI)
    have "split_lines data \<noteq> []" using that unfolding split_lines_def by (subst agent_split_lines.simps) auto
    then show "agent_line_for_offset (split_lines data) off - 1 < length (split_lines data) \<and>
        agent_line_for_offset (split_lines data) off = agent_line_for_offset (split_lines data) off - 1 + 1 \<and>
        sp_start (split_lines data ! (agent_line_for_offset (split_lines data) off - 1)) \<le> off \<and>
        off < sp_end (split_lines data ! (agent_line_for_offset (split_lines data) off - 1))"
      using line_for_offset_from [of 0 off data 0] that
      by (simp add: split_lines_def agent_line_for_offset_def Let_def) linarith
  qed
qed

theorem lines_partition_witness:
  "length (split_lines (str ''ab'' @ [13, 10] @ str ''c'')) = 2 \<and>
   concat (map (span_text (str ''ab'' @ [13, 10] @ str ''c'')) (split_lines (str ''ab'' @ [13, 10] @ str ''c''))) = str ''ab'' @ [13, 10] @ str ''c'' \<and>
   (\<forall>sp\<in>set (split_lines (str ''ab'' @ [13, 10] @ str ''c'')).
      \<forall>c\<in>set (take (sp_content_end sp - sp_start sp) (drop (sp_start sp) (str ''ab'' @ [13, 10] @ str ''c''))). \<not> is_eol c) \<and>
   (\<forall>off<length (str ''ab'' @ [13, 10] @ str ''c''). \<exists>k<length (split_lines (str ''ab'' @ [13, 10] @ str ''c'')).
      agent_line_for_offset (split_lines (str ''ab'' @ [13, 10] @ str ''c'')) off = k + 1 \<and>
      sp_start (split_lines (str ''ab'' @ [13, 10] @ str ''c'') ! k) \<le> off \<and> off < sp_end (split_lines (str ''ab'' @ [13, 10] @ str ''c'') ! k))"
proof -
  have "length (split_lines (str ''ab'' @ [13, 10] @ str ''c'')) = 2" by code_simp
  then show ?thesis using lines_partition [of "str ''ab'' @ [13, 10] @ str ''c''"] by blast
qed

section \<open>The edit\<close>

lemma read_file_succeeds:
  assumes "agent_read_file_bytes y path w = (Inr data, w')"
  shows "length data \<le> AGENT_FILE_MAX_BYTES"
  using assms by (auto simp: agent_read_file_bytes_def Let_def split: sum.splits prod.splits if_splits option.splits)

text \<open>
  C19. An edit that reports success has replaced exactly the span of the old text by the new text: at its last
  check the file still held the bytes in which the span was found, and afterwards it holds the same bytes
  with the span replaced, under the same owner, mode and attributes, however other programs wrote to it
  in the meantime.
\<close>

theorem edit_changes_only_the_span:
  assumes env: "honest_env y" "private_temp y target"
    and path: "agent_tool_arg_value call (str ''path'') = Some path" "agent_expand_home_path y path = Some p"
    and args: "agent_tool_arg_value call (str ''old'') = Some old" "agent_tool_arg_value call (str ''new'') = Some new"
    and run: "agent_tool_edit y allow_upto call w = (Inr report, w')"
    and resolved: "\<forall>s. (F_realpath, s) \<in> set (w_log w') \<longrightarrow> fs_canon s p = target"
    and fresh: "\<forall>s. (F_mkstemp, s) \<in> set (w_log w') \<longrightarrow> fresh_temp y target s"
      "\<forall>s q. (F_open, s) \<in> set (w_log w') \<longrightarrow> fs_name s q \<noteq> Some (os_ino y)"
  shows "\<exists>data m n anchored i s.
    agent_edit_find_old_span data old allow_upto = Inr (m, n, anchored) \<and> m + n \<le> length data \<and>
    (F_stat, s) \<in> set (w_log w') \<and> lookup_path s target = Some i \<and> in_data (fs_node s i) = data \<and>
    lookup_path (w_fs w') target = Some (os_ino y) \<and>
    fs_node (w_fs w') (os_ino y) =
      (fs_node s i)\<lparr>in_data := take m data @ new @ drop (m + n) data, in_stamp := os_stamp y\<rparr>"
proof -
  have e: "edit_file y allow_upto path old new w = (Inr report, w')"
    using run path(1) args by (auto simp: agent_tool_edit_def Let_def split: if_splits)
  then obtain data w1 where r: "agent_read_file_bytes y path w = (Inr data, w1)"
    by (auto simp: edit_file_def split: sum.splits prod.splits)
  obtain m n anchored where f: "agent_edit_find_old_span data old allow_upto = Inr (m, n, anchored)"
    using e r by (auto simp: edit_file_def split: sum.splits prod.splits)
  have "agent_apply_file_splice y path data m n new (edit_kind anchored) w1 = (Inr report, w')"
    using e r f by (simp add: edit_file_def)
  then have "agent_replace_file y path (splice_text data m n new) (Some data) w1 = (Inr (), w')"
    by (auto simp: agent_apply_file_splice_def Let_def split: sum.splits prod.splits)
  from replace_never_loses_update [OF env path(2) this resolved fresh]
  obtain i s where "(F_stat, s) \<in> set (w_log w')" "lookup_path s target = Some i" "in_data (fs_node s i) = data"
    "lookup_path (w_fs w') target = Some (os_ino y)"
    "fs_node (w_fs w') (os_ino y) = (fs_node s i)\<lparr>in_data := splice_text data m n new, in_stamp := os_stamp y\<rparr>" by blast
  then show ?thesis using f old_span_bound(1) [OF f] unfolding splice_text_def by blast
qed

definition sample_edit :: agent_tool_call where
  "sample_edit = \<lparr>ac_name = Some (str ''edit''),
     ac_args = [(str ''path'', str ''/a''), (str ''old'', str ''l''), (str ''new'', str ''dd'')]\<rparr>"

definition sample_read_world :: world where
  "sample_read_world = call_at sample_sys F_fread (call_at sample_sys F_open_read sample_world)"

definition sample_edited :: world where
  "sample_edited = snd (agent_replace_file sample_sys (str ''/a'') (splice_text (str ''old'') 1 1 (str ''dd'')) (Some (str ''old'')) sample_read_world)"

lemma sample_edit_replace:
  "fst (agent_replace_file sample_sys (str ''/a'') (splice_text (str ''old'') 1 1 (str ''dd'')) (Some (str ''old'')) sample_read_world) = Inr ()"
  by (simp add: sample_read_world_def sample_run lit_simps)

lemma sample_edit_log:
  "\<forall>(c, s)\<in>set (w_log sample_edited).
     (c = F_realpath \<longrightarrow> fs_canon s (str ''/a'') = str ''/a'') \<and> (c = F_mkstemp \<longrightarrow> fresh_temp sample_sys (str ''/a'') s) \<and>
     (c = F_open \<longrightarrow> (\<forall>q. fs_name s q \<noteq> Some (os_ino sample_sys)))"
  by (simp add: sample_edited_def sample_read_world_def sample_run fresh_temp_def lit_simps)

lemma sample_edit_runs:
  obtains report where "agent_tool_edit sample_sys True sample_edit sample_world = (Inr report,
    sample_edited)"
proof -
  have f: "agent_edit_find_old_span (str ''old'') (str ''l'') True = Inr (1, 1, False)" by code_simp
  have r: "agent_read_file_bytes sample_sys (str ''/a'') sample_world = (Inr (str ''old''), sample_read_world)"
    by (simp add: sample_read_world_def agent_read_file_bytes_def agent_open_regular_file_def sample_run lit_simps AGENT_FILE_MAX_BYTES_def)
  obtain w where w: "agent_replace_file sample_sys (str ''/a'') (splice_text (str ''old'') 1 1 (str ''dd'')) (Some (str ''old'')) sample_read_world = (Inr (), w)"
    using sample_edit_replace by (metis prod.collapse)
  have "agent_tool_edit sample_sys True sample_edit sample_world =
      edit_file sample_sys True (str ''/a'') (str ''l'') (str ''dd'') sample_world"
    by (simp add: agent_tool_edit_def sample_edit_def agent_tool_arg_value_def arg_missing_def lit_simps)
  then show thesis using that unfolding edit_file_def r f prod.case sum.case agent_apply_file_splice_def Let_def sample_edited_def w by simp
qed

theorem edit_changes_only_the_span_witness:
  "\<exists>data m n anchored i s.
    agent_edit_find_old_span data (str ''l'') True = Inr (m, n, anchored) \<and> m + n \<le> length data \<and>
    (F_stat, s) \<in> set (w_log sample_edited) \<and> lookup_path s (str ''/a'') = Some i \<and> in_data (fs_node s i) = data \<and>
    lookup_path (w_fs sample_edited) (str ''/a'') = Some (os_ino sample_sys) \<and>
    fs_node (w_fs sample_edited) (os_ino sample_sys) =
      (fs_node s i)\<lparr>in_data := take m data @ str ''dd'' @ drop (m + n) data, in_stamp := os_stamp sample_sys\<rparr>"
proof -
  obtain report where run: "agent_tool_edit sample_sys True sample_edit sample_world = (Inr report, sample_edited)" by (rule sample_edit_runs)
  show ?thesis
  proof (rule edit_changes_only_the_span [OF sample_honest sample_private _ _ _ _ run])
    show "agent_tool_arg_value sample_edit (str ''path'') = Some (str ''/a'')" "agent_tool_arg_value sample_edit (str ''old'') = Some (str ''l'')"
      "agent_tool_arg_value sample_edit (str ''new'') = Some (str ''dd'')"
      by (simp_all add: sample_edit_def agent_tool_arg_value_def lit_simps)
    show "agent_expand_home_path sample_sys (str ''/a'') = Some (str ''/a'')" by (simp add: sample_run)
  qed (use sample_edit_log in fast)+
qed

text \<open>The example of the source's own test: the newline behind the marker is no part of the tail.\<close>

definition make_data :: bytes where
  "make_data = str ''CFLAGS = -g'' @ [10, 10] @ str ''all: bc'' @ [10, 10] @ str ''clean:'' @ [10, 9] @ str ''rm -f bc'' @ [10]"

definition make_old :: bytes where
  "make_old = str ''CFLAGS = -g'' @ [10] @ UPTO @ [10] @ str ''clean:'' @ [10]"

theorem old_span_found_iff_witness:
  "only_at make_data (take 12 make_old) 0 \<and> only_after make_data 12 (upto_tail make_old 12) 22 \<and>
   agent_edit_find_old_span make_data make_old True = Inr (0, 29, True)"
proof -
  have r: "agent_edit_find_old_span make_data make_old True = Inr (0, 29, True)" by code_simp
  have u: "strstr make_old UPTO = Some 12" by code_simp
  have t: "agent_find_unique_after make_data 12 (upto_tail make_old 12) Old_Tail = Inr 22" by code_simp
  from old_span_found_iff [of make_data make_old True 0 29 True] r u show ?thesis
    using t unfolding find_only_after by simp
qed

text \<open>
  The forcer looks for the typed text with the newline behind the opening tag, which the parser removes
  from the finished argument.  A prefix that is unique only with that newline is cut short, and the edit
  then fails on an ambiguous head.
\<close>

definition forced_head :: bytes where
  "forced_head = str ''int count_the_words_of_a_line(char *s);'' @ [10] @ str ''int count_the_lines_of_a_text(char *s);'' @ [10]"

definition forced_data :: bytes where
  "forced_data = str ''extern '' @ forced_head @ [10] @ forced_head @ str ''end'' @ [10]"

lemma forced_head_ambiguous:
  "agent_edit_old_ready_for_upto (10 # forced_head)"
  "agent_find_unique forced_data (10 # forced_head) Old_Prefix = Inr 87"
  "trim_value (10 # forced_head @ UPTO @ [10] @ str ''end'') = forced_head @ UPTO @ [10] @ str ''end''"
  "agent_edit_find_old_span forced_data (forced_head @ UPTO @ [10] @ str ''end'') True = Inl (Anchor_Ambiguous Old_Head False)"
  by code_simp+

end
