(* ===== verification/Agent_Read_Props.thy ===== *)
theory Agent_Read_Props
  imports Agent_Read Agent_Edit_Props
begin

text \<open>
  What the read tool shows: raw pages put together are the file, and a numbered page shows the lines that the
  edit tool counts, with their numbers.
\<close>

section \<open>Characters and line breaks\<close>

lemma after_char_gt: "pos < after_char data pos"
  by (simp add: after_char_def)

lemma after_char_le: "pos < length data \<Longrightarrow> after_char data pos \<le> length data"
  by (auto simp: after_char_def)

lemma take_after_char:
  assumes "pos < length data"
  shows "take (after_char data pos - pos) (drop pos data) =
    (if data ! pos = 13 \<and> after_char data pos = pos + 2 then [13, 10] else [data ! pos])"
proof (cases "data ! pos = 13 \<and> pos + 1 < length data \<and> data ! (pos + 1) = 10")
  case True
  then have "drop pos data = 13 # 10 # drop (pos + 2) data"
    by (metis Cons_nth_drop_Suc Suc_eq_plus1 add_2_eq_Suc' assms)
  then show ?thesis using True by (simp add: after_char_def)
next
  case False
  then have "after_char data pos = pos + 1" by (simp add: after_char_def)
  moreover have "drop pos data = data ! pos # drop (pos + 1) data" using assms by (simp add: Cons_nth_drop_Suc)
  ultimately show ?thesis by simp
qed

lemma after_char_two: "after_char data pos = pos + 2 \<Longrightarrow> data ! pos = 13"
  by (simp add: after_char_def split: if_splits)

section \<open>Raw pages\<close>

lemma read_char_raw:
  assumes "pg_pos p < length data"
  shows "pg_body (read_char True data p) = pg_body p @ take (after_char data (pg_pos p) - pg_pos p) (drop (pg_pos p) data)"
    "pg_pos (read_char True data p) = after_char data (pg_pos p)"
  using take_after_char [OF assms] after_char_two [of data "pg_pos p"]
  by (auto simp: read_char_def Let_def)

lemma read_page_raw:
  assumes "read_page whole bare max_lines data p = Page p'" "pg_pos p \<le> length data" "bare"
  shows "pg_pos p \<le> pg_pos p' \<and> pg_pos p' \<le> length data \<and>
    pg_body p' = pg_body p @ take (pg_pos p' - pg_pos p) (drop (pg_pos p) data)"
  using assms
proof (induction whole bare max_lines data p rule: read_page.induct)
  case (1 whole bare max_lines data p)
  show ?case
  proof (cases "p' = p")
    case False
    then have c: "(whole \<or> pg_lines p < max_lines) \<and> pg_pos p < length data" "\<not> page_full (data ! pg_pos p) (length (pg_body p))"
      "data ! pg_pos p \<noteq> 0" "\<not> (is_eol (data ! pg_pos p) \<and> pg_line p = INT_MAX)"
      and r: "read_page whole bare max_lines data (read_char bare data p) = Page p'"
      using 1(2) by (subst (asm) read_page.simps; auto simp: Let_def split: if_splits)+
    let ?n = "after_char data (pg_pos p)"
    have n: "pg_pos p < ?n" "?n \<le> length data" using after_char_gt after_char_le c(1) by auto
    note b = read_char_raw [of p data]
    have p: "pg_pos p < length data" using c(1) by simp
    have IH: "?n \<le> pg_pos p' \<and> pg_pos p' \<le> length data \<and>
        pg_body p' = pg_body (read_char True data p) @ take (pg_pos p' - ?n) (drop ?n data)"
      using 1(1) [OF c(1) refl c(2,3,4) r] n(2) b(2) [OF p] 1(4) by simp
    moreover have "take (?n - pg_pos p) (drop (pg_pos p) data) @ take (pg_pos p' - ?n) (drop ?n data) =
        take (pg_pos p' - pg_pos p) (drop (pg_pos p) data)"
    proof -
      have e: "pg_pos p' - pg_pos p = (?n - pg_pos p) + (pg_pos p' - ?n)" using IH n by linarith
      have d: "?n - pg_pos p + pg_pos p = ?n" using n by linarith
      show ?thesis unfolding e take_add drop_drop d ..
    qed
    ultimately show ?thesis using b(1) [OF p] n by simp
  qed (use 1(3) in simp)
qed

lemma read_page_moves:
  assumes "read_page whole bare max_lines data p = Page p'" "pg_lines p < max_lines" "pg_pos p < length data"
    "length (pg_body p) < page_limit"
  shows "pg_pos p < pg_pos p'"
proof -
  have mono: "pg_pos q \<le> pg_pos q'" if "read_page whole bare max_lines data q = Page q'" for q q'
    using that
  proof (induction whole bare max_lines data q rule: read_page.induct)
    case (1 whole bare max_lines data q)
    show ?case
    proof (cases "q' = q")
      case False
      then have c: "(whole \<or> pg_lines q < max_lines) \<and> pg_pos q < length data" "\<not> page_full (data ! pg_pos q) (length (pg_body q))"
        "data ! pg_pos q \<noteq> 0" "\<not> (is_eol (data ! pg_pos q) \<and> pg_line q = INT_MAX)"
        and r: "read_page whole bare max_lines data (read_char bare data q) = Page q'"
        using 1(2) by (subst (asm) read_page.simps; auto simp: Let_def split: if_splits)+
      have "pg_pos (read_char bare data q) = after_char data (pg_pos q)" by (simp add: read_char_def Let_def)
      then show ?thesis using 1(1) [OF c(1) refl c(2,3,4) r] after_char_gt [of "pg_pos q" data] by simp
    qed simp
  qed
  have "read_page whole bare max_lines data (read_char bare data p) = Page p'"
    using assms by (subst (asm) read_page.simps) (auto simp: Let_def page_full_def split: if_splits)
  from mono [OF this] show ?thesis using after_char_gt [of "pg_pos p" data]
    by (simp add: read_char_def Let_def split: if_splits)
qed

lemma read_page_ok:
  assumes "0 \<notin> set data" "int (length data) < INT_MAX" "pg_pos p \<le> length data" "1 \<le> pg_line p" "pg_line p \<le> int (pg_pos p) + 1"
  shows "\<exists>p'. read_page whole bare max_lines data p = Page p' \<and> 1 \<le> pg_line p' \<and> pg_line p' \<le> int (pg_pos p') + 1"
  using assms
proof (induction whole bare max_lines data p rule: read_page.induct)
  case (1 whole bare max_lines data p)
  show ?case
  proof (cases "(whole \<or> pg_lines p < max_lines) \<and> pg_pos p < length data \<and> \<not> page_full (data ! pg_pos p) (length (pg_body p))")
    case False
    then show ?thesis using 1(5,6) by (subst read_page.simps) (auto simp: Let_def)
  next
    case True
    then have z: "data ! pg_pos p \<noteq> 0" using 1(2) by (metis nth_mem)
    have l: "pg_line p < INT_MAX" using 1(3,6) True by linarith
    have c: "pg_pos (read_char bare data p) = after_char data (pg_pos p)"
      "pg_line (read_char bare data p) = pg_line p + (if is_eol (data ! pg_pos p) then 1 else 0)"
      by (simp_all add: read_char_def Let_def)
    have "int (pg_pos p) + 1 \<le> int (after_char data (pg_pos p))" using after_char_gt [of "pg_pos p" data] by linarith
    moreover have "after_char data (pg_pos p) \<le> length data" using after_char_le True by blast
    ultimately have "\<exists>p'. read_page whole bare max_lines data (read_char bare data p) = Page p' \<and> 1 \<le> pg_line p' \<and> pg_line p' \<le> int (pg_pos p') + 1"
      using 1(1) [OF _ refl _ z] True l 1(2,3,5,6) c by auto
    then show ?thesis using True z l by (subst read_page.simps) (auto simp: Let_def)
  qed
qed

text \<open>The file stands still and can be read.\<close>

definition readable :: "osys \<Rightarrow> bytes \<Rightarrow> bytes \<Rightarrow> fs \<Rightarrow> bool" where
  "readable y path data s \<longleftrightarrow>
     path \<noteq> [] \<and> (\<forall>c s. os_env y c s = s) \<and> os_err y F_open_read = None \<and> os_err y F_fread = None \<and>
     (\<exists>p i. agent_expand_home_path y path = Some p \<and> lookup_path s p = Some i \<and> in_regular (fs_node s i) \<and> in_data (fs_node s i) = data)"

lemma read_range_readable:
  assumes "readable y path data (w_fs w)"
  shows "\<exists>w'. agent_read_range_from y (Some path) start max_lines whole bare off mid st w =
    (read_data path data start max_lines whole bare off mid, w') \<and> w_fs w' = w_fs w"
  using assms
  by (auto simp: readable_def agent_read_range_from_def arg_missing_def agent_open_regular_file_def call_at_def Let_def)

definition page_body :: "read_result \<Rightarrow> bytes" where
  "page_body r = (case r of Read_Error e \<Rightarrow> [] | Read_Text h b n \<Rightarrow> b)"

text \<open>\<^verbatim>\<open>more\<close> called until nothing is left, \<open>n\<close> times at most.\<close>

fun read_rest :: "nat \<Rightarrow> osys \<Rightarrow> agent_tool_call \<Rightarrow> more_state \<Rightarrow> world \<Rightarrow> read_result list" where
  "read_rest 0 y call st w = []"
| "read_rest (Suc n) y call st w =
     (if \<not> more_valid st then []
      else case agent_tool_more y call st w of ((r, st'), w') \<Rightarrow> r # read_rest n y call st' w')"

lemma no_arg [simp]: "agent_parse_int_default None d lo hi = d" "agent_parse_bool_default None b = b"
  by (simp_all add: agent_parse_int_default_def agent_parse_bool_default_def arg_missing_def)

lemma int_arg_range: "lo \<le> hi \<Longrightarrow> lo \<le> def \<Longrightarrow> def \<le> hi \<Longrightarrow> lo \<le> agent_parse_int_default s def lo hi \<and> agent_parse_int_default s def lo hi \<le> hi"
  by (auto simp: agent_parse_int_default_def Let_def split: option.split)

lemma raw_page:
  assumes "0 \<notin> set data" "int (length data) < INT_MAX" "pos \<le> length data" "1 \<le> line" "line \<le> int pos + 1" "max_lines \<ge> 1"
    "pos > 0 \<or> (line = 1 \<and> pos = 0)" "path \<noteq> []" "length path < PATH_MAX"
  obtains pos' line' note1 mid' where
    "read_data path data line max_lines False True pos mid =
       (Read_Text [] (take (pos' - pos) (drop pos data)) note1,
        \<lparr>more_path = (if pos' < length data then path else []), more_next_line = (if pos' < length data then line' else 0), more_bare = True,
         more_valid = (pos' < length data), more_byte_offset = pos', more_mid_line = mid'\<rparr>)"
    "pos \<le> pos'" "pos' \<le> length data" "pos < length data \<Longrightarrow> pos < pos'" "1 \<le> line'" "line' \<le> int pos' + 1"
proof -
  let ?p = "\<lparr>pg_pos = pos, pg_line = line, pg_lines = 0, pg_body = [], pg_beginning = \<not> mid, pg_prefix = True, pg_last = 0\<rparr>"
  obtain p' where p': "read_page False True max_lines data ?p = Page p'" "1 \<le> pg_line p'" "pg_line p' \<le> int (pg_pos p') + 1"
    using read_page_ok [OF assms(1,2), where p = ?p and whole = False and bare = True and max_lines = max_lines] assms(3-5) by auto
  note b = read_page_raw [OF p'(1)]
  have m: "pos < length data \<Longrightarrow> pos < pg_pos p'"
    using read_page_moves [OF p'(1)] assms(6) by (simp add: page_limit_def AGENT_TOOL_MAX_BYTES_def)
  have s: "skip_to_line data 0 1 1 = (0, 1)" by (simp add: skip_to_line.simps)
  have d: "read_data path data line max_lines False True pos mid = finish_page path data line False True p'"
    using assms(4,6,7) p'(1) s by (auto simp: read_data_def Let_def)
  show thesis
  proof (rule that)
    show "read_data path data line max_lines False True pos mid =
       (Read_Text [] (take (pg_pos p' - pos) (drop pos data)) (if pg_pos p' < length data then truncated_note (pg_line p') (pg_pos p') (pg_beginning p') else []),
        \<lparr>more_path = (if pg_pos p' < length data then path else []), more_next_line = (if pg_pos p' < length data then pg_line p' else 0), more_bare = True,
         more_valid = (pg_pos p' < length data), more_byte_offset = pg_pos p', more_mid_line = \<not> pg_beginning p'\<rparr>)"
      unfolding d using b assms(3,8,9) p'(2) by (simp add: finish_page_def agent_worker_set_more_def Let_def)
  qed (use b m assms(3) p' in simp_all)
qed

lemma rest_pages:
  assumes still: "readable y path data s" "length path < PATH_MAX" "0 \<notin> set data" "int (length data) < INT_MAX"
  shows "w_fs w = s \<Longrightarrow> pos \<le> length data \<Longrightarrow> pos > 0 \<Longrightarrow> 1 \<le> line \<Longrightarrow> line \<le> int pos + 1 \<Longrightarrow> n \<ge> length data - pos \<Longrightarrow>
    concat (map page_body (read_rest n y call
      \<lparr>more_path = (if pos < length data then path else []), more_next_line = (if pos < length data then line else 0), more_bare = True,
       more_valid = (pos < length data), more_byte_offset = pos, more_mid_line = mid\<rparr> w)) = drop pos data"
proof (induction n arbitrary: w pos line mid)
  case 0
  then show ?case by simp
next
  case (Suc n)
  show ?case
  proof (cases "pos < length data")
    case False
    then show ?thesis by simp
  next
    case True
    let ?st = "\<lparr>more_path = path, more_next_line = line, more_bare = True, more_valid = True, more_byte_offset = pos, more_mid_line = mid\<rparr>"
    let ?count = "agent_parse_int_default (agent_tool_arg_value call (str ''count'')) AGENT_READ_DEFAULT_LINES 1 INT_MAX"
    have c: "?count \<ge> 1" using int_arg_range [of 1 INT_MAX AGENT_READ_DEFAULT_LINES] by (simp add: INT_MAX_def AGENT_READ_DEFAULT_LINES_def)
    obtain w' where w': "agent_read_range_from y (Some path) line ?count False True pos mid ?st w =
        (read_data path data line ?count False True pos mid, w')" "w_fs w' = w_fs w"
      using read_range_readable [of y path data w] still(1) Suc.prems(1) by blast
    have path: "path \<noteq> []" using still(1) by (simp add: readable_def)
    obtain pos' line' note1 mid' where p: "read_data path data line ?count False True pos mid =
       (Read_Text [] (take (pos' - pos) (drop pos data)) note1,
        \<lparr>more_path = (if pos' < length data then path else []), more_next_line = (if pos' < length data then line' else 0), more_bare = True,
         more_valid = (pos' < length data), more_byte_offset = pos', more_mid_line = mid'\<rparr>)"
      and b: "pos \<le> pos'" "pos' \<le> length data" "pos < length data \<Longrightarrow> pos < pos'" "1 \<le> line'" "line' \<le> int pos' + 1"
      by (rule raw_page [OF still(3,4) Suc.prems(2,4,5) c _ path still(2), of mid]) (use Suc.prems(3) in auto)
    let ?st' = "\<lparr>more_path = (if pos' < length data then path else []), more_next_line = (if pos' < length data then line' else 0), more_bare = True,
         more_valid = (pos' < length data), more_byte_offset = pos', more_mid_line = mid'\<rparr>"
    have "concat (map page_body (read_rest n y call ?st' w')) = drop pos' data"
      by (rule Suc.IH) (use w'(2) Suc.prems b(2-5) True in auto)
    moreover have "agent_tool_more y call ?st w = ((Read_Text [] (take (pos' - pos) (drop pos data)) note1, ?st'), w')"
      using w'(1) p by (simp add: agent_tool_more_def)
    ultimately have "concat (map page_body (read_rest (Suc n) y call ?st w)) = take (pos' - pos) (drop pos data) @ drop pos' data"
      by (simp add: page_body_def)
    also have "\<dots> = drop pos data" using b(1) by (metis append_take_drop_id drop_drop le_add_diff_inverse2)
    finally show ?thesis using True by simp
  qed
qed

text \<open>
  C23. A file without NUL bytes that is read raw and continued with \<^verbatim>\<open>more\<close>, in pages of any number of lines,
  comes out whole: the pages put together are its bytes, and as many calls
  as the file has bytes are enough.
\<close>

theorem raw_pages_whole_file:
  assumes still: "readable y path data (w_fs w)" "length path < PATH_MAX" "0 \<notin> set data" "int (length data) < INT_MAX"
    and args: "agent_tool_arg_value call (str ''path'') = Some path" "agent_tool_arg_value call (str ''raw'') = Some (str ''true'')"
      "agent_tool_arg_value call (str ''start_line'') = None" "agent_tool_arg_value call (str ''whole'') = None"
    and run: "agent_tool_read y call st w = ((r, st'), w')"
  shows "page_body r @ concat (map page_body (read_rest (length data) y more_call st' w')) = data"
proof -
  let ?max = "agent_parse_int_default (agent_tool_arg_value call (str ''max_lines'')) AGENT_READ_DEFAULT_LINES 1 INT_MAX"
  have c: "?max \<ge> 1" using int_arg_range [of 1 INT_MAX AGENT_READ_DEFAULT_LINES] by (simp add: INT_MAX_def AGENT_READ_DEFAULT_LINES_def)
  have path: "path \<noteq> []" using still(1) by (simp add: readable_def)
  have raw: "agent_parse_bool_default (Some (str ''true'')) False" by code_simp
  obtain w2 where w2: "agent_read_range_from y (Some path) 1 ?max False True 0 False st w = (read_data path data 1 ?max False True 0 False, w2)" "w_fs w2 = w_fs w"
    using read_range_readable [OF still(1)] by blast
  have "agent_tool_read y call st w = (read_data path data 1 ?max False True 0 False, w2)"
    using w2(1) args raw by (simp add: agent_tool_read_def)
  with run have d: "read_data path data 1 ?max False True 0 False = (r, st')" "w' = w2" by simp_all
  obtain pos' line' note1 mid' where p: "read_data path data 1 ?max False True 0 False =
       (Read_Text [] (take (pos' - 0) (drop 0 data)) note1,
        \<lparr>more_path = (if pos' < length data then path else []), more_next_line = (if pos' < length data then line' else 0), more_bare = True,
         more_valid = (pos' < length data), more_byte_offset = pos', more_mid_line = mid'\<rparr>)"
    and b: "0 \<le> pos'" "pos' \<le> length data" "0 < length data \<Longrightarrow> 0 < pos'" "1 \<le> line'" "line' \<le> int pos' + 1"
    by (rule raw_page [OF still(3,4) _ _ _ c _ path still(2), of 0 1 False]) auto
  show ?thesis
  proof (cases "data = []")
    case True
    then show ?thesis using d p by (auto simp: page_body_def)
  next
    case False
    have "concat (map page_body (read_rest (length data) y more_call st' w')) = drop pos' data"
      using d p rest_pages [OF still, of w' pos' line' "length data" more_call mid'] b False w2(2) by simp
    then show ?thesis using d p by (auto simp: page_body_def)
  qed
qed

definition quiet_sys :: osys where
  "quiet_sys = sample_sys\<lparr>os_env := \<lambda>_ s. s\<rparr>"

definition two_lines :: bytes where
  "two_lines = str ''ab'' @ [13, 10] @ str ''c''"

definition two_lines_world :: world where
  "two_lines_world = \<lparr>w_fs = sample_fs\<lparr>fs_node := \<lambda>_. sample_inode two_lines\<rparr>, w_log = []\<rparr>"

definition sample_read_call :: agent_tool_call where
  "sample_read_call = \<lparr>ac_name = Some (str ''read''),
     ac_args = [(str ''path'', str ''/a''), (str ''raw'', str ''true''), (str ''max_lines'', str ''1'')]\<rparr>"

lemma two_lines_readable: "readable quiet_sys (str ''/a'') two_lines (w_fs two_lines_world)"
  by (simp add: readable_def quiet_sys_def two_lines_world_def sample_run lit_simps)

theorem raw_pages_whole_file_witness:
  "page_body (fst (fst (agent_tool_read quiet_sys sample_read_call no_more two_lines_world))) @
   concat (map page_body (read_rest (length two_lines) quiet_sys sample_read_call
     (snd (fst (agent_tool_read quiet_sys sample_read_call no_more two_lines_world)))
     (snd (agent_tool_read quiet_sys sample_read_call no_more two_lines_world)))) = two_lines"
proof (rule raw_pages_whole_file [OF two_lines_readable])
  show "agent_tool_arg_value sample_read_call (str ''path'') = Some (str ''/a'')" "agent_tool_arg_value sample_read_call (str ''raw'') = Some (str ''true'')"
    "agent_tool_arg_value sample_read_call (str ''start_line'') = None" "agent_tool_arg_value sample_read_call (str ''whole'') = None"
    by (simp_all add: sample_read_call_def agent_tool_arg_value_def lit_simps)
  show "length (str ''/a'') < PATH_MAX" by (simp add: PATH_MAX_def)
  show "0 \<notin> set two_lines" by (simp add: two_lines_def lit_simps)
  show "int (length two_lines) < INT_MAX" by (simp add: two_lines_def INT_MAX_def)
qed (simp add: prod_eq_iff)

end
