(* ===== verification/Agent_Read_Lines.thy ===== *)
theory Agent_Read_Lines
  imports Agent_Read_Props
begin

text \<open>
  A numbered page shows the lines of the file as the edit tool counts them (\<open>split_lines\<close>): each with its
  number, its content and a newline in place of its line end.
\<close>

definition shown_line :: "bytes \<Rightarrow> int \<times> agent_line_span \<Rightarrow> bytes" where
  "shown_line data nl =
     (case nl of (n, sp) \<Rightarrow>
        line_label n True @ take (sp_content_end sp - sp_start sp) (drop (sp_start sp) data) @
        (if sp_content_end sp < sp_end sp then [10] else []))"

fun numbered :: "int \<Rightarrow> 'a list \<Rightarrow> (int \<times> 'a) list" where
  "numbered n [] = []"
| "numbered n (x # xs) = (n, x) # numbered (n + 1) xs"

section \<open>One line\<close>

lemma page_step:
  assumes "whole \<or> pg_lines p < max_lines" "pg_pos p < length data" "length (pg_body p) < page_limit"
    "data ! pg_pos p \<noteq> 0" "is_eol (data ! pg_pos p) \<longrightarrow> pg_line p \<noteq> INT_MAX"
  shows "read_page whole bare max_lines data p = read_page whole bare max_lines data (read_char bare data p)"
  by (subst read_page.simps) (use assms in \<open>auto simp: Let_def page_full_def\<close>)

lemma read_content:
  assumes "\<forall>c\<in>set cs. \<not> is_eol c \<and> c \<noteq> 0"
  shows "drop (pg_pos p) data = cs @ rest \<Longrightarrow> \<not> pg_prefix p \<Longrightarrow> \<not> pg_beginning p \<Longrightarrow> pg_last p = pg_line p \<Longrightarrow>
    length (pg_body p) + length cs \<le> page_limit \<Longrightarrow> whole \<or> pg_lines p < max_lines \<Longrightarrow>
    read_page whole False max_lines data p =
      read_page whole False max_lines data (p\<lparr>pg_pos := pg_pos p + length cs, pg_body := pg_body p @ cs\<rparr>)"
  using assms
proof (induction cs arbitrary: p)
  case (Cons c cs)
  have pos: "pg_pos p < length data" using Cons.prems(1) by (metis append_Cons drop_eq_Nil linorder_not_le list.distinct(1))
  have n: "data ! pg_pos p = c" using Cons.prems(1) pos by (metis append_Cons nth_via_drop)
  have c: "\<not> is_eol c" "c \<noteq> 0" "c \<noteq> 13" using Cons.prems(7) by (auto simp: is_eol_def)
  have a: "after_char data (pg_pos p) = pg_pos p + 1" using n c by (simp add: after_char_def)
  let ?q = "p\<lparr>pg_pos := pg_pos p + 1, pg_body := pg_body p @ [c]\<rparr>"
  have q: "read_char False data p = ?q"
    using Cons.prems(2-4) n c a by (cases p) (simp add: read_char_def Let_def)
  have "read_page whole False max_lines data p = read_page whole False max_lines data ?q"
    unfolding q [symmetric] by (rule page_step) (use Cons.prems(5,6) pos n c in auto)
  also have "\<dots> = read_page whole False max_lines data (?q\<lparr>pg_pos := pg_pos ?q + length cs, pg_body := pg_body ?q @ cs\<rparr>)"
  proof (rule Cons.IH)
    have "drop (pg_pos p + 1) data = tl (drop (pg_pos p) data)" by (simp add: drop_Suc tl_drop)
    then show "drop (pg_pos ?q) data = cs @ rest" using Cons.prems(1) by simp
  qed (use Cons.prems in auto)
  finally show ?case by simp
qed simp

lemma line_parts:
  assumes "pos < length data" "0 \<notin> set data"
  obtains cs where "\<forall>c\<in>set cs. \<not> is_eol c \<and> c \<noteq> 0" "sp_content_end (line_at data pos) = pos + length cs"
    "drop pos data = cs @ drop (pos + length cs) data" "pos + length cs \<le> length data"
    "pos + length cs < length data \<Longrightarrow> is_eol (data ! (pos + length cs)) \<and> sp_end (line_at data pos) = after_char data (pos + length cs)"
    "pos + length cs = length data \<Longrightarrow> sp_end (line_at data pos) = length data"
proof -
  let ?cs = "takeWhile (\<lambda>c. \<not> is_eol c) (drop pos data)"
  have d: "drop pos data = ?cs @ drop (pos + length ?cs) data"
    by (metis add.commute drop_drop dropWhile_eq_drop takeWhile_dropWhile_id)
  have ce: "sp_content_end (line_at data pos) = pos + length ?cs" by (simp add: line_at_def Let_def)
  have b: "pos + length ?cs \<le> length data" using line_content [of pos data] assms(1) by simp
  have e: "is_eol (data ! (pos + length ?cs))" if "pos + length ?cs < length data"
  proof -
    have "\<not> \<not> is_eol (drop pos data ! length ?cs)" by (rule nth_length_takeWhile) (use that assms(1) in simp)
    then show ?thesis using assms(1) by simp
  qed
  show thesis
  proof (rule that [OF _ ce d b])
    show "\<forall>c\<in>set ?cs. \<not> is_eol c \<and> c \<noteq> 0"
      using assms(2) by (auto dest!: set_takeWhileD in_set_dropD)
    show "is_eol (data ! (pos + length ?cs)) \<and> sp_end (line_at data pos) = after_char data (pos + length ?cs)"
      if "pos + length ?cs < length data"
      using e [OF that] that by (simp add: line_at_def Let_def after_char_def)
    show "sp_end (line_at data pos) = length data" if "pos + length ?cs = length data"
      using that by (simp add: line_at_def Let_def)
  qed
qed

text \<open>The state behind a line.\<close>

definition behind_line :: "bytes \<Rightarrow> page \<Rightarrow> page" where
  "behind_line data p =
     (let sp = line_at data (pg_pos p); broken = (sp_content_end sp < sp_end sp)
      in p\<lparr>pg_pos := sp_end sp, pg_body := pg_body p @ shown_line data (pg_line p, sp), pg_last := pg_line p,
           pg_line := (if broken then pg_line p + 1 else pg_line p), pg_lines := (if broken then pg_lines p + 1 else pg_lines p),
           pg_beginning := broken, pg_prefix := broken\<rparr>)"

lemma read_line:
  assumes "0 \<notin> set data" "pg_pos p < length data" "pg_prefix p" "pg_beginning p" "whole \<or> pg_lines p < max_lines" "pg_line p < INT_MAX"
    and fits: "length (pg_body p) + length (shown_line data (pg_line p, line_at data (pg_pos p))) \<le> page_limit"
  shows "read_page whole False max_lines data p = read_page whole False max_lines data (behind_line data p)"
proof -
  let ?sp = "line_at data (pg_pos p)"
  obtain cs where cs: "\<forall>c\<in>set cs. \<not> is_eol c \<and> c \<noteq> 0" "sp_content_end ?sp = pg_pos p + length cs"
    "drop (pg_pos p) data = cs @ drop (pg_pos p + length cs) data" "pg_pos p + length cs \<le> length data"
    "pg_pos p + length cs < length data \<Longrightarrow> is_eol (data ! (pg_pos p + length cs)) \<and> sp_end ?sp = after_char data (pg_pos p + length cs)"
    "pg_pos p + length cs = length data \<Longrightarrow> sp_end ?sp = length data"
    using line_parts [OF assms(2,1)] by blast
  have t: "take (length cs) (drop (pg_pos p) data) = cs" by (metis cs(3) append_eq_conv_conj)
  let ?l = "line_label (pg_line p) True"
  have sh: "shown_line data (pg_line p, ?sp) = ?l @ cs @ (if pg_pos p + length cs < sp_end ?sp then [10] else [])"
    using cs(2) t by (simp add: shown_line_def)
  let ?e = "pg_pos p + length cs"
  have body: "read_page whole False max_lines data p = read_page whole False max_lines data
      (p\<lparr>pg_pos := ?e, pg_body := pg_body p @ ?l @ cs, pg_last := pg_line p, pg_beginning := False, pg_prefix := False\<rparr>)" if ne: "cs \<noteq> []"
  proof -
    obtain c r where c: "cs = c # r" using ne by (cases cs) auto
    have n: "data ! pg_pos p = c" using cs(3) c assms(2) by (metis append_Cons nth_via_drop)
    have g: "\<not> is_eol c" "c \<noteq> 0" "c \<noteq> 13" using cs(1) c by (auto simp: is_eol_def)
    have a: "after_char data (pg_pos p) = pg_pos p + 1" using n g by (simp add: after_char_def)
    let ?q = "p\<lparr>pg_pos := pg_pos p + 1, pg_body := pg_body p @ ?l @ [c], pg_last := pg_line p, pg_beginning := False, pg_prefix := False\<rparr>"
    have q: "read_char False data p = ?q" using assms(3,4) n g a by (cases p) (simp add: read_char_def Let_def)
    have d: "drop (pg_pos p + 1) data = r @ drop ?e data"
    proof -
      have "drop (pg_pos p + 1) data = tl (drop (pg_pos p) data)" by (simp add: drop_Suc tl_drop)
      then show ?thesis by (subst (asm) cs(3)) (simp add: c)
    qed
    have "read_page whole False max_lines data p = read_page whole False max_lines data ?q"
      unfolding q [symmetric] by (rule page_step) (use assms(2,5) fits sh c n g in \<open>auto split: if_splits\<close>)
    also have "\<dots> = read_page whole False max_lines data (?q\<lparr>pg_pos := pg_pos ?q + length r, pg_body := pg_body ?q @ r\<rparr>)"
      by (rule read_content [of r _ _ "drop ?e data"]) (use cs(1) c d fits sh assms(5) in auto)
    finally show ?thesis by (cases p) (simp add: c)
  qed
  show ?thesis
  proof (cases "?e < length data")
    case True
    let ?n = "after_char data ?e"
    have e: "is_eol (data ! ?e)" "sp_end ?sp = ?n" using cs(5) [OF True] by auto
    have br: "?e < ?n" by (rule after_char_gt)
    have z: "data ! ?e \<noteq> 0" using assms(1) True by (metis nth_mem)
    have ch: "(if data ! ?e = 13 then (if False then [13] else []) @ (if ?n = ?e + 2 \<or> \<not> False then [10] else []) else [data ! ?e]) = [10]"
      using e(1) by (auto simp: is_eol_def)
    let ?p = "if cs = [] then p else p\<lparr>pg_pos := ?e, pg_body := pg_body p @ ?l @ cs, pg_last := pg_line p, pg_beginning := False, pg_prefix := False\<rparr>"
    have "read_page whole False max_lines data p = read_page whole False max_lines data ?p" using body by auto
    also have "\<dots> = read_page whole False max_lines data (read_char False data ?p)"
      by (rule page_step) (use True z assms(5,6) fits sh br e in \<open>auto split: if_splits\<close>)
    also have "read_char False data ?p = behind_line data p"
      using e br sh ch assms(3,4) cs(2) by (cases p) (auto simp: read_char_def behind_line_def Let_def)
    finally show ?thesis .
  next
    case False
    then have l: "?e = length data" using cs(4) by simp
    then have "cs \<noteq> []" using assms(2) by auto
    from body [OF this] show ?thesis using cs(2,6) l sh
      by (cases p) (simp add: behind_line_def Let_def)
  qed
qed

section \<open>Many lines\<close>

lemma span_after:
  assumes "pos < length data" "0 \<notin> set data"
  shows "pos < sp_end (line_at data pos)" "sp_end (line_at data pos) \<le> length data"
    "sp_content_end (line_at data pos) = sp_end (line_at data pos) \<Longrightarrow> sp_end (line_at data pos) = length data"
proof -
  show "pos < sp_end (line_at data pos)" "sp_end (line_at data pos) \<le> length data"
    using line_at_moves [OF assms(1)] line_at_end [of pos data] assms(1) by auto
  show "sp_end (line_at data pos) = length data" if e: "sp_content_end (line_at data pos) = sp_end (line_at data pos)"
  proof -
    obtain cs where cs: "\<forall>c\<in>set cs. \<not> is_eol c \<and> c \<noteq> 0" "sp_content_end (line_at data pos) = pos + length cs"
      "drop pos data = cs @ drop (pos + length cs) data" "pos + length cs \<le> length data"
      "pos + length cs < length data \<Longrightarrow> is_eol (data ! (pos + length cs)) \<and> sp_end (line_at data pos) = after_char data (pos + length cs)"
      "pos + length cs = length data \<Longrightarrow> sp_end (line_at data pos) = length data"
      using line_parts [OF assms] by blast
    note cs = cs(2,4-6)
    then show ?thesis using e after_char_gt [of "pos + length cs" data] by (cases "pos + length cs < length data") auto
  qed
qed

lemma page_ends: "\<not> ((whole \<or> pg_lines p < max_lines) \<and> pg_pos p < length data) \<Longrightarrow> read_page whole bare max_lines data p = Page p"
  by (subst read_page.simps) auto

lemma take_nat_Suc: "0 < k \<Longrightarrow> take (nat k) (x # xs) = x # take (nat (k - 1)) xs"
  by (cases "nat k") (auto simp: nat_diff_distrib')

lemma read_lines:
  assumes "0 \<notin> set data"
  shows "pg_pos p = pos \<Longrightarrow> pos \<le> length data \<Longrightarrow> pg_prefix p \<Longrightarrow> pg_beginning p \<Longrightarrow> pg_line p + int (length data - pos) < INT_MAX \<Longrightarrow>
    length (pg_body p) + length (concat (map (shown_line data) (take (nat (max_lines - pg_lines p)) (numbered (pg_line p) (agent_split_lines data pos))))) \<le> page_limit \<Longrightarrow>
    \<exists>p'. read_page False False max_lines data p = Page p' \<and>
      pg_body p' = pg_body p @ concat (map (shown_line data) (take (nat (max_lines - pg_lines p)) (numbered (pg_line p) (agent_split_lines data pos))))"
  using assms
proof (induction data pos arbitrary: p rule: agent_split_lines.induct)
  case (1 data pos)
  let ?sp = "line_at data pos" and ?k = "max_lines - pg_lines p"
  show ?case
  proof (cases "pos < length data \<and> pg_lines p < max_lines")
    case False
    then have "read_page False False max_lines data p = Page p" using 1(2) by (intro page_ends) auto
    moreover have t: "take (nat ?k) (numbered (pg_line p) (agent_split_lines data pos)) = []"
      using False by (subst agent_split_lines.simps) auto
    ultimately show ?thesis unfolding t by simp
  next
    case True
    then have pos: "pos < length data" and mx: "0 < ?k" by auto
    have sl: "agent_split_lines data pos = ?sp # agent_split_lines data (sp_end ?sp)" using pos by (subst agent_split_lines.simps) simp
    note e = span_after [OF pos 1(8)]
    let ?t = "concat (map (shown_line data) (take (nat (?k - 1)) (numbered (pg_line p + 1) (agent_split_lines data (sp_end ?sp)))))"
    have t: "concat (map (shown_line data) (take (nat ?k) (numbered (pg_line p) (agent_split_lines data pos)))) =
        shown_line data (pg_line p, ?sp) @ ?t"
      unfolding sl numbered.simps take_nat_Suc [OF mx] by simp
    have fits: "length (pg_body p) + length (shown_line data (pg_line p, ?sp) @ ?t) \<le> page_limit" using 1(7) unfolding t .
    have r: "read_page False False max_lines data p = read_page False False max_lines data (behind_line data p)"
      by (rule read_line) (use 1(2,4,5,6,8) pos True fits in auto)
    show ?thesis
    proof (cases "sp_content_end ?sp < sp_end ?sp")
      case br: True
      let ?q = "behind_line data p"
      have q: "pg_pos ?q = sp_end ?sp" "pg_prefix ?q" "pg_beginning ?q" "pg_line ?q = pg_line p + 1" "pg_lines ?q = pg_lines p + 1"
        "pg_body ?q = pg_body p @ shown_line data (pg_line p, ?sp)"
        using br 1(2) by (simp_all add: behind_line_def Let_def)
      have k: "max_lines - pg_lines ?q = ?k - 1" using q(5) by simp
      have "\<exists>p'. read_page False False max_lines data ?q = Page p' \<and>
        pg_body p' = pg_body ?q @ concat (map (shown_line data) (take (nat (max_lines - pg_lines ?q)) (numbered (pg_line ?q) (agent_split_lines data (sp_end ?sp)))))"
      proof (rule 1(1) [OF pos q(1) e(2) q(2,3) _ _ 1(8)])
        show "pg_line ?q + int (length data - sp_end ?sp) < INT_MAX" using 1(6) e(1,2) q(4) by linarith
        show "length (pg_body ?q) + length (concat (map (shown_line data) (take (nat (max_lines - pg_lines ?q)) (numbered (pg_line ?q) (agent_split_lines data (sp_end ?sp)))))) \<le> page_limit"
          using fits unfolding k q(4,6) by simp
      qed
      then show ?thesis unfolding r t k q(4,6) by simp
    next
      case False
      then have end1: "sp_end ?sp = length data" using e(3) line_at_content(2) [of pos data] pos by simp
      then have "agent_split_lines data (sp_end ?sp) = []" by (subst agent_split_lines.simps) simp
      then have "?t = []" by simp
      moreover have "read_page False False max_lines data (behind_line data p) = Page (behind_line data p)"
        using end1 1(2) by (intro page_ends) (simp add: behind_line_def Let_def)
      ultimately show ?thesis unfolding r t using 1(2) by (simp add: behind_line_def Let_def)
    qed
  qed
qed

section \<open>The first line\<close>

lemma skip_content:
  "\<forall>c\<in>set cs. \<not> is_eol c \<Longrightarrow> drop pos data = cs @ rest \<Longrightarrow> line < start \<Longrightarrow>
     skip_to_line data pos line start = skip_to_line data (pos + length cs) line start"
proof (induction cs arbitrary: pos)
  case (Cons c cs)
  have pos: "pos < length data" using Cons.prems(2) by (metis append_Cons drop_eq_Nil linorder_not_le list.distinct(1))
  have n: "data ! pos = c" using Cons.prems(2) pos by (metis append_Cons nth_via_drop)
  have c: "\<not> is_eol c" "c \<noteq> 13" using Cons.prems(1) by (auto simp: is_eol_def)
  have "drop (pos + 1) data = tl (drop pos data)" by (simp add: drop_Suc tl_drop)
  then have d: "drop (pos + 1) data = cs @ rest" using Cons.prems(2) by simp
  have "skip_to_line data pos line start = skip_to_line data (pos + 1) line start"
    by (subst skip_to_line.simps) (use pos n c Cons.prems(3) in \<open>simp add: after_char_def\<close>)
  also have "\<dots> = skip_to_line data (pos + 1 + length cs) line start" by (rule Cons.IH) (use Cons.prems d in auto)
  finally show ?case by simp
qed simp

lemma skip_line:
  assumes "pos < length data" "0 \<notin> set data" "line < start"
  shows "skip_to_line data pos line start =
    skip_to_line data (sp_end (line_at data pos)) (if sp_content_end (line_at data pos) < sp_end (line_at data pos) then line + 1 else line) start"
proof -
  obtain cs where cs: "\<forall>c\<in>set cs. \<not> is_eol c \<and> c \<noteq> 0" "sp_content_end (line_at data pos) = pos + length cs"
    "drop pos data = cs @ drop (pos + length cs) data" "pos + length cs \<le> length data"
    "pos + length cs < length data \<Longrightarrow> is_eol (data ! (pos + length cs)) \<and> sp_end (line_at data pos) = after_char data (pos + length cs)"
    "pos + length cs = length data \<Longrightarrow> sp_end (line_at data pos) = length data"
    using line_parts [OF assms(1,2)] by blast
  have "skip_to_line data pos line start = skip_to_line data (pos + length cs) line start"
    by (rule skip_content [OF _ cs(3) assms(3)]) (use cs(1) in blast)
  also have "\<dots> = skip_to_line data (sp_end (line_at data pos)) (if sp_content_end (line_at data pos) < sp_end (line_at data pos) then line + 1 else line) start"
  proof (cases "pos + length cs < length data")
    case True
    then show ?thesis using cs(2) cs(5) [OF True] after_char_gt [of "pos + length cs" data] assms(3)
      by (subst skip_to_line.simps) simp
  next
    case False
    then show ?thesis using cs(2,4,6) by simp
  qed
  finally show ?thesis .
qed

lemma skip_lines:
  assumes "0 \<notin> set data"
  shows "pos \<le> length data \<Longrightarrow> line \<le> start \<Longrightarrow> skip_to_line data pos line start = (pos', line') \<Longrightarrow>
    pos' \<le> length data \<and> agent_split_lines data pos' = drop (nat (start - line)) (agent_split_lines data pos) \<and>
    (pos' < length data \<longrightarrow> line' = start) \<and> line' + int (length data - pos') \<le> line + int (length data - pos)"
  using assms
proof (induction data pos arbitrary: line rule: agent_split_lines.induct)
  case (1 data pos)
  let ?sp = "line_at data pos"
  show ?case
  proof (cases "pos < length data \<and> line < start")
    case False
    then have "pos' = pos" "line' = line" using 1(4) by (auto simp: skip_to_line.simps [of data pos] split: if_splits)
    then show ?thesis using False 1(2,3) by (subst (2) agent_split_lines.simps) (auto simp: agent_split_lines.simps [of data pos])
  next
    case True
    then have pos: "pos < length data" and l: "line < start" by auto
    note e = span_after [OF pos 1(5)]
    have sl: "agent_split_lines data pos = ?sp # agent_split_lines data (sp_end ?sp)" using pos by (subst agent_split_lines.simps) simp
    have d: "nat (start - line) = Suc (nat (start - (line + 1)))" using l by simp
    show ?thesis
    proof (cases "sp_content_end ?sp < sp_end ?sp")
      case br: True
      then have "skip_to_line data (sp_end ?sp) (line + 1) start = (pos', line')" using skip_line [OF pos 1(5) l] 1(4) by simp
      note IH1 = 1(1) [OF pos e(2) _ this 1(5)]
      have IH: "pos' \<le> length data \<and>
        agent_split_lines data pos' = drop (nat (start - (line + 1))) (agent_split_lines data (sp_end ?sp)) \<and>
        (pos' < length data \<longrightarrow> line' = start) \<and> line' + int (length data - pos') \<le> line + 1 + int (length data - sp_end ?sp)" by (rule IH1) (use l in simp)
      then show ?thesis unfolding sl d drop_Suc_Cons using e(1,2) by auto
    next
      case False
      then have end1: "sp_end ?sp = length data" using e(3) line_at_content(2) [of pos data] pos by simp
      then have "(pos', line') = (length data, line)"
        using skip_line [OF pos 1(5) l] 1(4) False by (simp add: skip_to_line.simps [of data "length data"])
      moreover have "agent_split_lines data (length data) = []" by (subst agent_split_lines.simps) simp
      ultimately show ?thesis unfolding sl d using end1 pos by simp
    qed
  qed
qed

text \<open>
  C22. A page that is not raw and within the byte limit shows exactly the asked lines: of the lines that the edit
  tool counts, those from the first one on, at most as many as asked, each under the number the edit
  report uses for it.
\<close>

theorem read_shows_numbered_lines:
  assumes still: "readable y path data (w_fs w)" "0 \<notin> set data" "int (length data) + 1 < INT_MAX"
    and args: "agent_tool_arg_value call (str ''path'') = Some path" "agent_tool_arg_value call (str ''raw'') = None"
      "agent_tool_arg_value call (str ''whole'') = None"
    and start: "start = agent_parse_int_default (agent_tool_arg_value call (str ''start_line'')) 1 1 INT_MAX"
    and mx: "mx = agent_parse_int_default (agent_tool_arg_value call (str ''max_lines'')) AGENT_READ_DEFAULT_LINES 1 INT_MAX"
    and text1: "text1 = concat (map (shown_line data) (take (nat mx) (numbered start (drop (nat (start - 1)) (split_lines data)))))"
      "length text1 \<le> page_limit"
    and run: "agent_tool_read y call st w = ((r, st'), w')"
  shows "\<exists>header note1. r = Read_Text header text1 note1"
proof -
  have s: "start \<ge> 1" using int_arg_range [of 1 INT_MAX 1] by (simp add: start INT_MAX_def)
  have c: "mx \<ge> 1" using int_arg_range [of 1 INT_MAX AGENT_READ_DEFAULT_LINES] by (simp add: mx INT_MAX_def AGENT_READ_DEFAULT_LINES_def)
  obtain w2 where w2: "agent_read_range_from y (Some path) start mx False False 0 False st w = (read_data path data start mx False False 0 False, w2)"
    using read_range_readable [OF still(1)] by blast
  then have d: "read_data path data start mx False False 0 False = (r, st')"
    using run args start mx by (simp add: agent_tool_read_def)
  obtain pos line where k: "skip_to_line data 0 1 start = (pos, line)" by fastforce
  have sk: "pos \<le> length data" "agent_split_lines data pos = drop (nat (start - 1)) (split_lines data)"
      "pos < length data \<Longrightarrow> line = start" "line + int (length data - pos) \<le> 1 + int (length data)"
    using skip_lines [OF still(2) _ s k] unfolding split_lines_def by auto
  let ?p = "\<lparr>pg_pos = pos, pg_line = line, pg_lines = 0, pg_body = [], pg_beginning = True, pg_prefix = True, pg_last = 0\<rparr>"
  have n: "numbered line (agent_split_lines data pos) = numbered start (drop (nat (start - 1)) (split_lines data))"
  proof (cases "pos < length data")
    case False
    then have "agent_split_lines data pos = []" by (subst agent_split_lines.simps) simp
    then show ?thesis using sk(2) by simp
  qed (use sk in simp)
  have e: "take (nat (mx - pg_lines ?p)) (numbered (pg_line ?p) (agent_split_lines data pos)) =
      take (nat mx) (numbered start (drop (nat (start - 1)) (split_lines data)))"
    using n by simp
  have "\<exists>p'. read_page False False mx data ?p = Page p' \<and>
      pg_body p' = pg_body ?p @ concat (map (shown_line data) (take (nat (mx - pg_lines ?p)) (numbered (pg_line ?p) (agent_split_lines data pos))))"
    by (rule read_lines [OF still(2)]) (use sk still(3) text1 e in simp_all)
  then obtain p' where "read_page False False mx data ?p = Page p'" "pg_body p' = text1"
    unfolding e text1(1) by auto
  then have "(r, st') = finish_page path data start False False p'"
    using d s c k by (simp add: read_data_def Let_def)
  then show ?thesis using \<open>pg_body p' = text1\<close> by (auto simp: finish_page_def Let_def)
qed

definition sample_lines_call :: agent_tool_call where
  "sample_lines_call = \<lparr>ac_name = Some (str ''read''), ac_args = [(str ''path'', str ''/a''), (str ''max_lines'', str '' 7 '')]\<rparr>"

theorem read_shows_numbered_lines_witness:
  "\<exists>header note1. fst (fst (agent_tool_read quiet_sys sample_lines_call no_more two_lines_world)) =
     Read_Text header (str ''1 ab'' @ [10] @ str ''2 c'') note1"
proof (rule read_shows_numbered_lines [OF two_lines_readable])
  let ?c = "agent_tool_arg_value sample_lines_call"
  have a: "?c (str ''path'') = Some (str ''/a'')" "?c (str ''raw'') = None" "?c (str ''whole'') = None" "?c (str ''start_line'') = None"
      "?c (str ''max_lines'') = Some (str '' 7 '')"
    by (simp_all add: sample_lines_call_def agent_tool_arg_value_def lit_simps)
  show "?c (str ''path'') = Some (str ''/a'')" "?c (str ''raw'') = None" "?c (str ''whole'') = None" by (fact a)+
  show "(1 :: int) = agent_parse_int_default (?c (str ''start_line'')) 1 1 INT_MAX" by (simp add: a)
  show "(7 :: int) = agent_parse_int_default (?c (str ''max_lines'')) AGENT_READ_DEFAULT_LINES 1 INT_MAX" unfolding a by code_simp
  show "0 \<notin> set two_lines" by (simp add: two_lines_def lit_simps)
  show "int (length two_lines) + 1 < INT_MAX" by (simp add: two_lines_def INT_MAX_def)
  show "str ''1 ab'' @ [10] @ str ''2 c'' =
    concat (map (shown_line two_lines) (take (nat 7) (numbered 1 (drop (nat (1 - 1)) (split_lines two_lines)))))" by code_simp
  show "length (str ''1 ab'' @ [10] @ str ''2 c'') \<le> page_limit" by (simp add: page_limit_def AGENT_TOOL_MAX_BYTES_def)
qed (simp add: prod_eq_iff)

end
