(* ===== verification/Server_Jobs.thy ===== *)
theory Server_Jobs
  imports Session
begin

text \<open>
  The job queue of the HTTP server (\<^verbatim>\<open>src/q36_server.c\<close>, from \<^verbatim>\<open>job_slot_score_values\<close> to
  \<^verbatim>\<open>slot_worker_main\<close>).  Client threads enqueue requests; in batched mode every resident session has a
  worker thread of its own and a request goes to the free session that keeps most of its prompt, otherwise
  one worker takes the requests in order.  Everything here happens under the mutex \<^verbatim>\<open>s->mu\<close>, so a step is
  the code from one lock of it, or one return of \<^verbatim>\<open>pthread_cond_wait\<close>, to the next unlock or wait.  The
  linked list \<^verbatim>\<open>head\<close>/\<^verbatim>\<open>tail\<close>/\<^verbatim>\<open>next\<close> is a list of jobs.  Workers that wait on the condition variable are
  asleep and stay so until a broadcast (or a spurious wake-up), so that a missing broadcast would show.
\<close>

subsection \<open>Data\<close>

datatype api_style = API_OPENAI | API_ANTHROPIC | API_RESPONSES

text \<open>An image in a prompt: its place, its token grid and the fingerprint of its embedding.\<close>

record q36_vision_span =
  vs_token_start :: nat
  vs_token_count :: nat
  vs_grid_width :: nat
  vs_grid_height :: nat
  vs_fingerprint :: string

text \<open>The fields of \<^verbatim>\<open>request\<close> that the dispatch reads.\<close>

record request =
  rq_api :: api_style
  rq_prompt :: "int list"
  rq_images :: "q36_vision_span list"
  rq_continuation_ids :: "string list"
  rq_tool_schema_key :: "string option"

record job =
  jb_fd :: int
  jb_req :: request

text \<open>
  A slot: its session with the images of the session, the tool calls its last answer waits for, the job
  handed to it and its busy flag.
\<close>

record server_slot =
  sl_session :: q36_session
  sl_vision_spans :: "q36_vision_span list"
  sl_pending_ids :: "string list"
  sl_pending_pos :: nat
  sl_pending_api :: api_style
  sl_pending_tools :: string
  sl_assigned :: "job option"
  sl_busy :: bool

subsection \<open>The score of a slot\<close>

definition slot_pending_clear :: "server_slot \<Rightarrow> server_slot" where
  "slot_pending_clear slot = slot\<lparr>sl_pending_ids := [], sl_pending_tools := [], sl_pending_pos := 0\<rparr>"

text \<open>The loop over the ids of a continuation: each is new and belongs to a pending call.\<close>

fun continuation_matches :: "string list \<Rightarrow> string list \<Rightarrow> string list \<Rightarrow> bool" where
  "continuation_matches pending seen [] = True"
| "continuation_matches pending seen (i # is) =
     (i \<notin> set seen \<and> i \<in> set pending \<and> continuation_matches pending (i # seen) is)"

definition slot_pending_matches :: "server_slot \<Rightarrow> request \<Rightarrow> bool" where
  "slot_pending_matches slot r =
     (if sl_pending_ids slot = [] \<or> length (sl_pending_ids slot) \<noteq> length (rq_continuation_ids r) \<or>
         sl_pending_api slot \<noteq> rq_api r \<or> sl_pending_pos slot \<noteq> q36_session_pos (sl_session slot) \<or>
         sl_pending_tools slot \<noteq> (case rq_tool_schema_key r of None \<Rightarrow> [] | Some k \<Rightarrow> k)
      then False
      else continuation_matches (sl_pending_ids slot) [] (rq_continuation_ids r))"

definition same_span :: "q36_vision_span \<Rightarrow> q36_vision_span \<Rightarrow> bool" where
  "same_span a b \<longleftrightarrow> vs_token_start a = vs_token_start b \<and> vs_token_count a = vs_token_count b \<and>
     vs_grid_width a = vs_grid_width b \<and> vs_grid_height a = vs_grid_height b \<and>
     take 32 (vs_fingerprint a) = take 32 (vs_fingerprint b)"

definition q36_session_vision_prefix_matches :: "server_slot \<Rightarrow> q36_vision_span list \<Rightarrow> bool" where
  "q36_session_vision_prefix_matches slot images =
     (let spans = sl_vision_spans slot in
      if \<not> ss_checkpoint_valid (sl_session slot) then False
      else if length images < length spans then False
      else if \<not> list_all2 same_span spans (take (length spans) images) then False
      else if ss_vision_state (sl_session slot) \<and> spans = [] then False
      else list_all (\<lambda>b. vs_token_start b \<noteq> 0 \<and>
             \<not> vs_token_start b - 1 < length (ss_checkpoint (sl_session slot))) (drop (length spans) images))"

definition INT_MAX :: int where "INT_MAX = 2147483647"
definition INT_MIN :: int where "INT_MIN = - 2147483648"

definition job_slot_score_values :: "bool \<Rightarrow> bool \<Rightarrow> int \<Rightarrow> int \<Rightarrow> int" where
  "job_slot_score_values busy assigned common live =
     (if busy \<or> assigned then INT_MIN
      else if common = live \<and> live > 0 then INT_MAX div 2 + live
      else common)"

definition job_slot_score :: "server_slot \<Rightarrow> job \<Rightarrow> int" where
  "job_slot_score slot j =
     (if sl_busy slot \<or> sl_assigned slot \<noteq> None then INT_MIN
      else if slot_pending_matches slot (jb_req j) then INT_MAX
      else let common = q36_session_common_prefix (sl_session slot) (rq_prompt (jb_req j));
               common = (if common \<noteq> 0 \<and> \<not> q36_session_vision_prefix_matches slot (rq_images (jb_req j))
                         then 0 else common)
           in job_slot_score_values False False (int common) (int (q36_session_pos (sl_session slot))))"

subsection \<open>Dispatch\<close>

text \<open>The inner loop of \<^verbatim>\<open>dispatch_jobs_locked\<close>: the first slot of the greatest score above \<^verbatim>\<open>INT_MIN\<close>.\<close>

fun best_slot_from :: "nat \<Rightarrow> int \<Rightarrow> nat option \<Rightarrow> server_slot list \<Rightarrow> job \<Rightarrow> nat option" where
  "best_slot_from i best_score best [] j = best"
| "best_slot_from i best_score best (slot # slots) j =
     (let score = job_slot_score slot j in
      if score > best_score then best_slot_from (i + 1) score (Some i) slots j
      else best_slot_from (i + 1) best_score best slots j)"

definition best_slot :: "server_slot list \<Rightarrow> job \<Rightarrow> nat option" where
  "best_slot slots j = best_slot_from 0 INT_MIN None slots j"

text \<open>The outer loop: the first queued job that some slot can take, and the queue without it.\<close>

fun choose_job :: "server_slot list \<Rightarrow> job list \<Rightarrow> (job \<times> nat \<times> job list) option" where
  "choose_job slots [] = None"
| "choose_job slots (j # js) =
     (case best_slot slots j of
        Some i \<Rightarrow> Some (j, i, js)
      | None \<Rightarrow> (case choose_job slots js of
           None \<Rightarrow> None
         | Some (c, i, rest) \<Rightarrow> Some (c, i, j # rest)))"

definition assign_job :: "job \<Rightarrow> server_slot \<Rightarrow> server_slot" where
  "assign_job j slot = slot\<lparr>sl_assigned := Some j, sl_busy := True\<rparr>"

lemma choose_job_shorter:
  "choose_job slots q = Some (c, i, rest) \<Longrightarrow> length rest < length q"
  by (induction q arbitrary: c i rest) (auto split: option.splits)

text \<open>The outermost loop, until no job can be placed; the third value lists the placements made.\<close>

function dispatch_loop :: "server_slot list \<Rightarrow> job list \<Rightarrow> server_slot list \<times> job list \<times> (job \<times> nat) list" where
  "dispatch_loop slots q =
     (case choose_job slots q of
        None \<Rightarrow> (slots, q, [])
      | Some (c, i, rest) \<Rightarrow>
          (case dispatch_loop (slots[i := assign_job c (slots ! i)]) rest of
             (slots', q', placed) \<Rightarrow> (slots', q', (c, i) # placed)))"
  by pat_completeness auto
termination
  by (relation "measure (\<lambda>(slots, q). length q)") (auto dest: choose_job_shorter)

declare dispatch_loop.simps [simp del]

subsection \<open>The server and its threads\<close>

text \<open>
  Where a worker thread stands: about to look at the shared state, asleep in \<^verbatim>\<open>pthread_cond_wait\<close>, inside
  \<^verbatim>\<open>generate_job\<close>, between the completion signal and the release of its slot, or returned.
\<close>

datatype worker_pc = Ready | Asleep | Running job | Signalled | Exited

text \<open>
  The shared state; the last three fields are history: the jobs accepted by \<^verbatim>\<open>enqueue\<close>, the jobs handed
  out, and the jobs whose \<^verbatim>\<open>done\<close> flag is set.
\<close>

record job_server =
  sv_slots :: "server_slot list"
  sv_queue :: "job list"
  sv_batched :: bool
  sv_stopping :: bool
  sv_workers :: "worker_pc list"
  sv_accepted :: "job list"
  sv_dispatched :: "job list"
  sv_done :: "job list"

definition wake :: "worker_pc list \<Rightarrow> worker_pc list" where
  "wake ws = map (\<lambda>w. if w = Asleep then Ready else w) ws"

definition dispatch_jobs_locked :: "job_server \<Rightarrow> job_server" where
  "dispatch_jobs_locked sv =
     (if \<not> sv_batched sv then sv
      else (case dispatch_loop (sv_slots sv) (sv_queue sv) of
        (slots, q, placed) \<Rightarrow>
          sv\<lparr>sv_slots := slots, sv_queue := q, sv_dispatched := sv_dispatched sv @ List.map fst placed,
             sv_workers := (if placed = [] then sv_workers sv else wake (sv_workers sv))\<rparr>))"

text \<open>
  Without batching \<^verbatim>\<open>enqueue\<close> signals one waiter; the only thread that ever waits on \<^verbatim>\<open>s->cv\<close> is then the
  one worker.
\<close>

definition enqueue :: "job_server \<Rightarrow> job \<Rightarrow> job_server \<times> bool" where
  "enqueue sv j =
     (if sv_stopping sv then (sv, False)
      else let sv1 = sv\<lparr>sv_queue := sv_queue sv @ [j], sv_accepted := sv_accepted sv @ [j]\<rparr> in
        if sv_batched sv1
        then (let sv2 = dispatch_jobs_locked sv1 in (sv2\<lparr>sv_workers := wake (sv_workers sv2)\<rparr>, True))
        else (sv1\<lparr>sv_workers := wake (sv_workers sv1)\<rparr>, True))"

text \<open>One pass of the loop of \<^verbatim>\<open>dequeue\<close>, by the worker of the server without batching.\<close>

definition dequeue :: "job_server \<Rightarrow> job_server" where
  "dequeue sv =
     (case sv_queue sv of
        [] \<Rightarrow> sv\<lparr>sv_workers := [if sv_stopping sv then Exited else Asleep]\<rparr>
      | j # q \<Rightarrow> sv\<lparr>sv_queue := q, sv_dispatched := sv_dispatched sv @ [j], sv_workers := [Running j]\<rparr>)"

text \<open>One pass of the wait loop of \<^verbatim>\<open>slot_worker_main\<close>, with the exit test and the taking of the job.\<close>

definition slot_worker_check :: "nat \<Rightarrow> job_server \<Rightarrow> job_server" where
  "slot_worker_check i sv =
     (let slot = sv_slots sv ! i in
      case sl_assigned slot of
        None \<Rightarrow> (if \<not> sv_stopping sv \<or> sv_queue sv \<noteq> []
                 then sv\<lparr>sv_workers := (sv_workers sv)[i := Asleep]\<rparr>
                 else sv\<lparr>sv_workers := (sv_workers sv)[i := Exited]\<rparr>)
      | Some j \<Rightarrow> sv\<lparr>sv_slots := (sv_slots sv)[i := slot\<lparr>sl_assigned := None\<rparr>],
                     sv_workers := (sv_workers sv)[i := Running j]\<rparr>)"

definition slot_worker_release :: "nat \<Rightarrow> job_server \<Rightarrow> job_server" where
  "slot_worker_release i sv =
     dispatch_jobs_locked
       (sv\<lparr>sv_slots := (sv_slots sv)[i := (sv_slots sv ! i)\<lparr>sl_busy := False\<rparr>],
           sv_workers := (sv_workers sv)[i := Ready]\<rparr>)"

text \<open>
  \<^verbatim>\<open>generate_job\<close> and the completion signal.  The job may leave any session and any pending calls in its
  slot; it touches neither the assignment nor the busy flag.
\<close>

definition job_finish :: "nat \<Rightarrow> job \<Rightarrow> server_slot \<Rightarrow> job_server \<Rightarrow> job_server" where
  "job_finish i j after sv =
     (let slot = sv_slots sv ! i in
      sv\<lparr>sv_slots := (sv_slots sv)[i := after\<lparr>sl_assigned := sl_assigned slot, sl_busy := sl_busy slot\<rparr>],
         sv_done := sv_done sv @ [j],
         sv_workers := (sv_workers sv)[i := (if sv_batched sv then Signalled else Ready)]\<rparr>)"

datatype job_event = Enqueue job | Stop | Spurious nat | Check nat | Finish nat | Release nat

inductive server_step :: "job_server \<Rightarrow> job_event \<Rightarrow> job_server \<Rightarrow> bool" where
  enqueue: "server_step sv (Enqueue j) (fst (enqueue sv j))"
| stop: "server_step sv Stop (sv\<lparr>sv_stopping := True, sv_workers := wake (sv_workers sv)\<rparr>)"
| spurious: "i < length (sv_workers sv) \<Longrightarrow> sv_workers sv ! i = Asleep \<Longrightarrow>
    server_step sv (Spurious i) (sv\<lparr>sv_workers := (sv_workers sv)[i := Ready]\<rparr>)"
| check: "sv_batched sv \<Longrightarrow> i < length (sv_workers sv) \<Longrightarrow> sv_workers sv ! i = Ready \<Longrightarrow>
    server_step sv (Check i) (slot_worker_check i sv)"
| serial: "\<not> sv_batched sv \<Longrightarrow> sv_workers sv = [Ready] \<Longrightarrow> server_step sv (Check 0) (dequeue sv)"
| finish: "i < length (sv_workers sv) \<Longrightarrow> sv_workers sv ! i = Running j \<Longrightarrow>
    server_step sv (Finish i) (job_finish i j after sv)"
| release: "i < length (sv_workers sv) \<Longrightarrow> sv_workers sv ! i = Signalled \<Longrightarrow>
    server_step sv (Release i) (slot_worker_release i sv)"

inductive_cases server_stepE: "server_step sv e sv'"

text \<open>The state set up by \<^verbatim>\<open>main\<close>: one worker per slot, or a single one without batching.\<close>

definition jobs_start :: "bool \<Rightarrow> server_slot list \<Rightarrow> job_server" where
  "jobs_start batched slots =
     \<lparr>sv_slots = List.map (\<lambda>s. s\<lparr>sl_assigned := None, sl_busy := False\<rparr>) slots, sv_queue = [],
      sv_batched = batched, sv_stopping = False,
      sv_workers = (if batched then List.map (\<lambda>s. Ready) slots else [Ready]),
      sv_accepted = [], sv_dispatched = [], sv_done = []\<rparr>"

inductive server_run :: "job_server \<Rightarrow> job_event list \<Rightarrow> job_server \<Rightarrow> bool" where
  run_nil: "server_run sv [] sv"
| run_snoc: "server_run sv es sv1 \<Longrightarrow> server_step sv1 e sv2 \<Longrightarrow> server_run sv (es @ [e]) sv2"

end
