(* ===== verification/Server_Jobs_Props.thy ===== *)
theory Server_Jobs_Props
  imports Server_Jobs Session_Witness "HOL-Library.Multiset"
begin

text \<open>
  What the job queue promises: a request goes to the best free session, no accepted job is lost or run
  twice, jobs start in the order in which they came, no worker sleeps through work, and after a shutdown
  request every accepted job is still finished before the workers return.
\<close>

subsection \<open>The choice of a slot\<close>

definition slot_free :: "server_slot \<Rightarrow> bool" where
  "slot_free s \<longleftrightarrow> \<not> sl_busy s \<and> sl_assigned s = None"

lemma job_slot_score_taken [simp]: "\<not> slot_free s \<Longrightarrow> job_slot_score s j = INT_MIN"
  by (auto simp: job_slot_score_def slot_free_def)

lemma job_slot_score_free: "slot_free s \<Longrightarrow> 0 \<le> job_slot_score s j"
  by (auto simp: job_slot_score_def slot_free_def job_slot_score_values_def Let_def INT_MAX_def)

lemma job_slot_score_free_min: "slot_free s \<Longrightarrow> INT_MIN < job_slot_score s j"
  using job_slot_score_free [of s j] by (simp add: INT_MIN_def)

lemma assign_job_not_free [simp]: "\<not> slot_free (assign_job j s)"
  by (simp add: slot_free_def assign_job_def)

text \<open>A slot is an argmax of the scores, and the first one.\<close>

definition first_best :: "(nat \<Rightarrow> int) \<Rightarrow> nat \<Rightarrow> nat \<Rightarrow> bool" where
  "first_best f n k \<longleftrightarrow> k < n \<and> (\<forall>m<n. f m \<le> f k) \<and> (\<forall>m<k. f m < f k)"

lemma best_slot_from_cases:
  "(best_slot_from i b best slots j = best \<and> (\<forall>s\<in>set slots. job_slot_score s j \<le> b)) \<or>
   (\<exists>k. best_slot_from i b best slots j = Some (i + k) \<and> b < job_slot_score (slots ! k) j \<and>
      first_best (\<lambda>m. job_slot_score (slots ! m) j) (length slots) k)"
proof (induction slots arbitrary: i b best)
  case Nil
  then show ?case by simp
next
  case (Cons s slots)
  show ?case
  proof (cases "b < job_slot_score s j")
    case True
    consider "best_slot_from (i + 1) (job_slot_score s j) (Some i) slots j = Some i"
        "\<forall>t\<in>set slots. job_slot_score t j \<le> job_slot_score s j"
      | k where "best_slot_from (i + 1) (job_slot_score s j) (Some i) slots j = Some (i + Suc k)"
        "job_slot_score s j < job_slot_score (slots ! k) j"
        "first_best (\<lambda>m. job_slot_score (slots ! m) j) (length slots) k"
      using Cons.IH [of "i + 1" "job_slot_score s j" "Some i"] by auto
    then show ?thesis
    proof cases
      case 1
      then have "first_best (\<lambda>m. job_slot_score ((s # slots) ! m) j) (length (s # slots)) 0"
        by (auto simp: first_best_def nth_Cons split: nat.splits)
      with 1 True show ?thesis by (intro disjI2 exI [of _ 0]) simp
    next
      case (2 k)
      then have "first_best (\<lambda>m. job_slot_score ((s # slots) ! m) j) (length (s # slots)) (Suc k)"
        by (auto simp: first_best_def nth_Cons split: nat.splits)
      with 2 True show ?thesis by (intro disjI2 exI [of _ "Suc k"]) simp
    qed
  next
    case False
    consider "best_slot_from (i + 1) b best slots j = best" "\<forall>t\<in>set slots. job_slot_score t j \<le> b"
      | k where "best_slot_from (i + 1) b best slots j = Some (i + Suc k)"
        "b < job_slot_score (slots ! k) j"
        "first_best (\<lambda>m. job_slot_score (slots ! m) j) (length slots) k"
      using Cons.IH [of "i + 1" b best] by auto
    then show ?thesis
    proof cases
      case 1
      with False show ?thesis by simp
    next
      case (2 k)
      with False have "first_best (\<lambda>m. job_slot_score ((s # slots) ! m) j) (length (s # slots)) (Suc k)"
        by (auto simp: first_best_def nth_Cons split: nat.splits)
      with 2 False show ?thesis by (intro disjI2 exI [of _ "Suc k"]) simp
    qed
  qed
qed

lemma best_slot_None: "best_slot slots j = None \<longleftrightarrow> (\<forall>s\<in>set slots. \<not> slot_free s)"
proof
  assume none: "best_slot slots j = None"
  then have "\<forall>s\<in>set slots. job_slot_score s j \<le> INT_MIN"
    using best_slot_from_cases [of 0 INT_MIN None slots j] by (auto simp: best_slot_def)
  then show "\<forall>s\<in>set slots. \<not> slot_free s" by (meson job_slot_score_free_min not_less)
next
  assume "\<forall>s\<in>set slots. \<not> slot_free s"
  then have "\<forall>s\<in>set slots. job_slot_score s j = INT_MIN" by simp
  then show "best_slot slots j = None"
    using best_slot_from_cases [of 0 INT_MIN None slots j] 
    by (auto simp: best_slot_def first_best_def)
qed

lemma best_slot_Some:
  assumes "best_slot slots j = Some i"
  shows "first_best (\<lambda>m. job_slot_score (slots ! m) j) (length slots) i"
    and "i < length slots" and "slot_free (slots ! i)"
proof -
  from assms have *: "INT_MIN < job_slot_score (slots ! i) j"
      "first_best (\<lambda>m. job_slot_score (slots ! m) j) (length slots) i"
    using best_slot_from_cases [of 0 INT_MIN None slots j] by (auto simp: best_slot_def)
  then show "first_best (\<lambda>m. job_slot_score (slots ! m) j) (length slots) i" "i < length slots"
    by (auto simp: first_best_def)
  from *(1) show "slot_free (slots ! i)"
    by (metis job_slot_score_taken less_irrefl)
qed

subsection \<open>The dispatch loop\<close>

lemma choose_job_none:
  "\<forall>s\<in>set slots. \<not> slot_free s \<Longrightarrow> choose_job slots q = None"
  by (induction q) (auto simp: best_slot_None split: option.splits)

lemma dispatch_loop_Nil [simp]: "dispatch_loop slots [] = (slots, [], [])"
  by (simp add: dispatch_loop.simps)

text \<open>Only the head of the queue is ever placed: a job that finds no slot finds all slots taken.\<close>

lemma dispatch_loop_Cons:
  "dispatch_loop slots (j # q) =
     (case best_slot slots j of
        None \<Rightarrow> (slots, j # q, [])
      | Some i \<Rightarrow> (case dispatch_loop (slots[i := assign_job j (slots ! i)]) q of
          (slots', q', placed) \<Rightarrow> (slots', q', (j, i) # placed)))"
proof (cases "best_slot slots j")
  case None
  then have "choose_job slots q = None" by (intro choose_job_none) (simp add: best_slot_None)
  with None show ?thesis by (subst dispatch_loop.simps) simp
next
  case (Some i)
  then show ?thesis by (subst dispatch_loop.simps) simp
qed

lemma dispatch_loop_queue:
  "dispatch_loop slots q = (slots', q', placed) \<Longrightarrow> q = List.map fst placed @ q'"
  by (induction q arbitrary: slots slots' q' placed)
     (auto simp: dispatch_loop_Cons split: option.splits prod.splits)

lemma dispatch_loop_length:
  "dispatch_loop slots q = (slots', q', placed) \<Longrightarrow> length slots' = length slots"
  by (induction q arbitrary: slots slots' q' placed)
     (fastforce simp: dispatch_loop_Cons split: option.splits prod.splits)+

lemma dispatch_loop_full:
  "dispatch_loop slots q = (slots', q', placed) \<Longrightarrow> q' \<noteq> [] \<Longrightarrow> \<forall>s\<in>set slots'. \<not> slot_free s"
  by (induction q arbitrary: slots slots' q' placed)
     (fastforce simp: dispatch_loop_Cons best_slot_None split: option.splits prod.splits)+

lemma dispatch_loop_unplaced:
  "dispatch_loop slots q = (slots', q', []) \<Longrightarrow> slots' = slots \<and> q' = q"
  by (cases q) (auto simp: dispatch_loop_Cons split: option.splits prod.splits)

lemma dispatch_loop_slot:
  "dispatch_loop slots q = (slots', q', placed) \<Longrightarrow> i < length slots \<Longrightarrow>
   (i \<notin> snd ` set placed \<and> slots' ! i = slots ! i) \<or>
   (slot_free (slots ! i) \<and> (\<exists>j. (j, i) \<in> set placed \<and> slots' ! i = assign_job j (slots ! i)))"
proof (induction q arbitrary: slots slots' q' placed)
  case Nil
  then show ?case by simp
next
  case (Cons j q)
  show ?case
  proof (cases "best_slot slots j")
    case None
    with Cons.prems show ?thesis by (auto simp: dispatch_loop_Cons)
  next
    case (Some k)
    obtain placed1 where loop: "dispatch_loop (slots[k := assign_job j (slots ! k)]) q = (slots', q', placed1)"
      and placed: "placed = (j, k) # placed1"
      using Cons.prems(1) Some by (auto simp: dispatch_loop_Cons split: prod.splits)
    note IH = Cons.IH [OF loop]
    show ?thesis
    proof (cases "i = k")
      case True
      then show ?thesis
        using IH best_slot_Some [OF Some] placed Cons.prems(2) by (auto simp: image_iff)
    next
      case False
      then show ?thesis using IH placed Cons.prems(2) by (auto simp: image_iff)
    qed
  qed
qed

subsection \<open>Where the jobs are\<close>

lemma sum_list_map_update:
  "i < length xs \<Longrightarrow>
   sum_list (map f (xs[i := y])) + f (xs ! i) = (sum_list (map f xs) + f y :: 'a :: comm_monoid_add)"
  by (induction xs arbitrary: i) (auto simp: ac_simps split: nat.splits)

definition slot_bag :: "server_slot \<Rightarrow> job multiset" where
  "slot_bag s = (case sl_assigned s of None \<Rightarrow> {#} | Some j \<Rightarrow> {#j#})"

fun worker_bag :: "worker_pc \<Rightarrow> job multiset" where
  "worker_bag (Running j) = {#j#}"
| "worker_bag w = {#}"

lemma worker_bag_wake [simp]: "map worker_bag (wake ws) = map worker_bag ws"
  by (simp add: wake_def)

lemma slot_bag_free [simp]: "slot_free s \<Longrightarrow> slot_bag s = {#}"
  by (simp add: slot_bag_def slot_free_def)

lemma slot_bag_assign [simp]: "slot_bag (assign_job j s) = {#j#}"
  by (simp add: slot_bag_def assign_job_def)

lemma dispatch_loop_bag:
  "dispatch_loop slots q = (slots', q', placed) \<Longrightarrow>
   sum_list (map slot_bag slots') = sum_list (map slot_bag slots) + mset (List.map fst placed)"
proof (induction q arbitrary: slots slots' q' placed)
  case Nil
  then show ?case by simp
next
  case (Cons j q)
  show ?case
  proof (cases "best_slot slots j")
    case None
    with Cons.prems show ?thesis by (auto simp: dispatch_loop_Cons)
  next
    case (Some k)
    obtain placed1 where loop: "dispatch_loop (slots[k := assign_job j (slots ! k)]) q = (slots', q', placed1)"
      and placed: "placed = (j, k) # placed1"
      using Cons.prems Some by (auto simp: dispatch_loop_Cons split: prod.splits)
    show ?thesis
      using Cons.IH [OF loop] sum_list_map_update [of k slots slot_bag "assign_job j (slots ! k)"]
        best_slot_Some [OF Some] placed by simp
  qed
qed

subsection \<open>The invariant\<close>

definition slot_ok :: "server_slot \<Rightarrow> worker_pc \<Rightarrow> bool" where
  "slot_ok s w \<longleftrightarrow>
     (sl_assigned s \<noteq> None \<longrightarrow> w = Ready) \<and>
     (sl_busy s \<longleftrightarrow> sl_assigned s \<noteq> None \<or> w = Signalled \<or> (\<exists>j. w = Running j))"

definition worker_ok :: "job_server \<Rightarrow> worker_pc \<Rightarrow> bool" where
  "worker_ok sv w \<longleftrightarrow>
     (w = Asleep \<longrightarrow> sv_queue sv = [] \<and> \<not> sv_stopping sv) \<and>
     (w = Exited \<longrightarrow> sv_queue sv = [] \<and> sv_stopping sv)"

definition jobs_conserved :: "job_server \<Rightarrow> bool" where
  "jobs_conserved sv \<longleftrightarrow> sv_accepted sv = sv_dispatched sv @ sv_queue sv \<and>
     mset (sv_dispatched sv) = sum_list (map slot_bag (sv_slots sv)) +
       sum_list (map worker_bag (sv_workers sv)) + mset (sv_done sv)"

definition slots_ok :: "job_server \<Rightarrow> bool" where
  "slots_ok sv \<longleftrightarrow> length (sv_workers sv) = length (sv_slots sv) \<and>
     (\<forall>i < length (sv_slots sv). slot_ok (sv_slots sv ! i) (sv_workers sv ! i))"

definition jobs_ok :: "job_server \<Rightarrow> bool" where
  "jobs_ok sv \<longleftrightarrow> sv_slots sv \<noteq> [] \<and>
     (if sv_batched sv
      then slots_ok sv \<and> (sv_queue sv \<noteq> [] \<longrightarrow> (\<forall>s\<in>set (sv_slots sv). \<not> slot_free s))
      else length (sv_workers sv) = 1 \<and> sv_workers sv ! 0 \<noteq> Signalled \<and>
           (\<forall>s\<in>set (sv_slots sv). slot_free s)) \<and>
     (\<forall>w\<in>set (sv_workers sv). worker_ok sv w) \<and> jobs_conserved sv"

lemma set_wake: "w \<in> set (wake ws) \<Longrightarrow> w \<noteq> Asleep \<and> (w = Ready \<or> w \<in> set ws)"
  by (auto simp: wake_def)

lemma wake_nth: "i < length ws \<Longrightarrow> wake ws ! i = (if ws ! i = Asleep then Ready else ws ! i)"
  by (simp add: wake_def)

lemma length_wake [simp]: "length (wake ws) = length ws"
  by (simp add: wake_def)

lemma slot_ok_wake: "slot_ok s w \<Longrightarrow> slot_ok s (if w = Asleep then Ready else w)"
  by (auto simp: slot_ok_def)

text \<open>What the dispatch needs of the state it starts from, and what it establishes.\<close>

definition dispatch_pre :: "job_server \<Rightarrow> bool" where
  "dispatch_pre sv \<longleftrightarrow> sv_slots sv \<noteq> [] \<and> sv_batched sv \<and> slots_ok sv \<and> jobs_conserved sv \<and>
     (\<forall>w\<in>set (sv_workers sv). (w = Asleep \<longrightarrow> \<not> sv_stopping sv) \<and>
        (w = Exited \<longrightarrow> sv_queue sv = [] \<and> sv_stopping sv))"

lemma dispatch_jobs_slots:
  assumes pre: "dispatch_pre sv"
    and loop: "dispatch_loop (sv_slots sv) (sv_queue sv) = (slots, q, placed)"
  shows "\<forall>i < length slots. slot_ok (slots ! i)
    ((if placed = [] then sv_workers sv else wake (sv_workers sv)) ! i)"
proof (intro allI impI)
  fix i assume i: "i < length slots"
  have len: "length slots = length (sv_slots sv)" using loop by (rule dispatch_loop_length)
  have ok: "slot_ok (sv_slots sv ! i) (sv_workers sv ! i)" and lenw: "length (sv_workers sv) = length (sv_slots sv)"
    using pre i len by (auto simp: dispatch_pre_def slots_ok_def)
  show "slot_ok (slots ! i) ((if placed = [] then sv_workers sv else wake (sv_workers sv)) ! i)"
  proof (cases "slots ! i = sv_slots sv ! i")
    case True
    with ok slot_ok_wake [OF ok] i len lenw show ?thesis by (simp add: wake_nth)
  next
    case False
    then obtain j where free: "slot_free (sv_slots sv ! i)" and j: "(j, i) \<in> set placed"
        "slots ! i = assign_job j (sv_slots sv ! i)"
      using dispatch_loop_slot [OF loop, of i] i len by auto
    have "sv_queue sv \<noteq> []" using j(1) dispatch_loop_queue [OF loop] by auto
    then have "sv_workers sv ! i \<noteq> Exited"
      using pre i len lenw by (auto simp: dispatch_pre_def)
    with ok free have "sv_workers sv ! i = Ready \<or> sv_workers sv ! i = Asleep"
      by (cases "sv_workers sv ! i") (auto simp: slot_ok_def slot_free_def)
    with j i len lenw show ?thesis by (auto simp: wake_nth slot_ok_def assign_job_def)
  qed
qed

lemma slots_ok_taken:
  assumes "slots_ok sv" "\<forall>s\<in>set (sv_slots sv). \<not> slot_free s"
  shows "Asleep \<notin> set (sv_workers sv)"
proof
  assume "Asleep \<in> set (sv_workers sv)"
  then obtain i where i: "i < length (sv_workers sv)" "sv_workers sv ! i = Asleep"
    by (auto simp: in_set_conv_nth)
  then have "slot_ok (sv_slots sv ! i) Asleep" "\<not> slot_free (sv_slots sv ! i)"
    using assms by (auto simp: slots_ok_def)
  then show False by (auto simp: slot_ok_def slot_free_def)
qed

lemma dispatch_jobs_ok:
  assumes pre: "dispatch_pre sv"
  shows "jobs_ok (dispatch_jobs_locked sv)"
proof -
  obtain slots q placed where loop: "dispatch_loop (sv_slots sv) (sv_queue sv) = (slots, q, placed)"
    by (cases "dispatch_loop (sv_slots sv) (sv_queue sv)") auto
  define ws where "ws = (if placed = [] then sv_workers sv else wake (sv_workers sv))"
  define sv' where "sv' = sv\<lparr>sv_slots := slots, sv_queue := q,
    sv_dispatched := sv_dispatched sv @ List.map fst placed, sv_workers := ws\<rparr>"
  have b: "sv_batched sv" using pre by (simp add: dispatch_pre_def)
  then have sv': "dispatch_jobs_locked sv = sv'"
    by (simp add: dispatch_jobs_locked_def loop sv'_def ws_def)
  have len: "length slots = length (sv_slots sv)" using loop by (rule dispatch_loop_length)
  have so: "slots_ok sv'"
    using dispatch_jobs_slots [OF pre loop] pre len
    by (auto simp: slots_ok_def sv'_def ws_def dispatch_pre_def)
  have full: "q \<noteq> [] \<Longrightarrow> \<forall>s\<in>set slots. \<not> slot_free s"
    using dispatch_loop_full [OF loop] .
  have queue: "sv_queue sv = List.map fst placed @ q" using loop by (rule dispatch_loop_queue)
  have wok: "worker_ok sv' w" if w: "w \<in> set ws" for w
  proof -
    have "w = Asleep \<longrightarrow> \<not> sv_stopping sv" "w = Exited \<longrightarrow> sv_queue sv = [] \<and> sv_stopping sv"
      using pre w by (auto simp: dispatch_pre_def ws_def dest: set_wake split: if_splits)
    moreover have "w = Asleep \<Longrightarrow> q = []"
      using slots_ok_taken [OF so] full w by (auto simp: sv'_def)
    ultimately show ?thesis by (auto simp: worker_ok_def sv'_def queue)
  qed
  have "jobs_conserved sv'"
    using pre dispatch_loop_bag [OF loop] queue
    by (auto simp: jobs_conserved_def dispatch_pre_def sv'_def ws_def ac_simps)
  moreover have "slots \<noteq> []" using pre len by (auto simp: dispatch_pre_def)
  ultimately show ?thesis
    using so full wok b by (simp add: jobs_ok_def sv' ) (simp add: sv'_def)
qed

subsection \<open>Every step keeps the invariant\<close>

lemma jobs_ok_start: "slots \<noteq> [] \<Longrightarrow> jobs_ok (jobs_start b slots)"
  by (auto simp: jobs_ok_def jobs_start_def slots_ok_def slot_ok_def worker_ok_def jobs_conserved_def
        slot_free_def o_def slot_bag_def)

lemma jobs_ok_wake:
  assumes "jobs_ok sv"
  shows "jobs_ok (sv\<lparr>sv_workers := wake (sv_workers sv)\<rparr>)"
  using assms slot_ok_wake
  by (auto simp: jobs_ok_def slots_ok_def jobs_conserved_def wake_nth worker_ok_def dest: set_wake)

lemma jobs_ok_stop:
  assumes "jobs_ok sv"
  shows "jobs_ok (sv\<lparr>sv_stopping := True, sv_workers := wake (sv_workers sv)\<rparr>)"
  using assms slot_ok_wake
  by (auto simp: jobs_ok_def slots_ok_def jobs_conserved_def wake_nth worker_ok_def dest: set_wake)

lemma dispatch_fields [simp]:
  "sv_batched (dispatch_jobs_locked sv) = sv_batched sv"
  "sv_stopping (dispatch_jobs_locked sv) = sv_stopping sv"
  "sv_accepted (dispatch_jobs_locked sv) = sv_accepted sv"
  "sv_done (dispatch_jobs_locked sv) = sv_done sv"
  by (auto simp: dispatch_jobs_locked_def split: prod.splits)

lemma jobs_ok_enqueue:
  assumes "jobs_ok sv"
  shows "jobs_ok (fst (enqueue sv j))"
proof (cases "sv_stopping sv")
  case True
  with assms show ?thesis by (simp add: enqueue_def)
next
  case run: False
  define sv1 where "sv1 = sv\<lparr>sv_queue := sv_queue sv @ [j], sv_accepted := sv_accepted sv @ [j]\<rparr>"
  show ?thesis
  proof (cases "sv_batched sv")
    case True
    with assms run have "dispatch_pre sv1"
      by (auto simp: dispatch_pre_def jobs_ok_def sv1_def slots_ok_def jobs_conserved_def worker_ok_def)
    then have "jobs_ok (dispatch_jobs_locked sv1)" by (rule dispatch_jobs_ok)
    then show ?thesis using True run by (simp add: enqueue_def sv1_def jobs_ok_wake Let_def)
  next
    case False
    with assms run show ?thesis
      by (auto simp: enqueue_def jobs_ok_def jobs_conserved_def worker_ok_def wake_nth dest: set_wake)
  qed
qed

lemma worker_bag_update:
  "i < length ws \<Longrightarrow> sum_list (map worker_bag (ws[i := w])) + worker_bag (ws ! i) =
     sum_list (map worker_bag ws) + worker_bag w"
  by (rule sum_list_map_update)

lemma slot_bag_update:
  "i < length ss \<Longrightarrow> sum_list (map slot_bag (ss[i := s])) + slot_bag (ss ! i) =
     sum_list (map slot_bag ss) + slot_bag s"
  by (rule sum_list_map_update)

lemma slots_ok_update:
  assumes "slots_ok sv" "i < length (sv_slots sv)" "slot_ok s w"
  shows "slots_ok (sv\<lparr>sv_slots := (sv_slots sv)[i := s], sv_workers := (sv_workers sv)[i := w]\<rparr>)"
  using assms by (auto simp: slots_ok_def nth_list_update)

lemma slots_ok_worker:
  assumes "slots_ok sv" "i < length (sv_slots sv)" "slot_ok (sv_slots sv ! i) w"
  shows "slots_ok (sv\<lparr>sv_workers := (sv_workers sv)[i := w]\<rparr>)"
  using slots_ok_update [OF assms] by (simp add: slots_ok_def)

lemma jobs_ok_spurious:
  assumes "jobs_ok sv" "i < length (sv_workers sv)" "sv_workers sv ! i = Asleep"
  shows "jobs_ok (sv\<lparr>sv_workers := (sv_workers sv)[i := Ready]\<rparr>)"
proof -
  have "sum_list (map worker_bag ((sv_workers sv)[i := Ready])) = sum_list (map worker_bag (sv_workers sv))"
    using worker_bag_update [OF assms(2), of Ready] assms(3) by simp
  moreover have "slots_ok (sv\<lparr>sv_workers := (sv_workers sv)[i := Ready]\<rparr>)" if "slots_ok sv"
    using that assms by (intro slots_ok_worker) (auto simp: slots_ok_def slot_ok_def)
  ultimately show ?thesis
    using assms by (auto simp: jobs_ok_def jobs_conserved_def worker_ok_def nth_list_update
        dest!: set_update_subset_insert [THEN subsetD])
qed

lemma jobs_ok_check:
  assumes ok: "jobs_ok sv" and b: "sv_batched sv" and i: "i < length (sv_workers sv)"
    and ready: "sv_workers sv ! i = Ready"
  shows "jobs_ok (slot_worker_check i sv)"
proof -
  have sok: "slots_ok sv" and len: "i < length (sv_slots sv)" using ok b i by (auto simp: jobs_ok_def slots_ok_def)
  then have s: "slot_ok (sv_slots sv ! i) Ready" using ready by (auto simp: slots_ok_def)
  show ?thesis
  proof (cases "sl_assigned (sv_slots sv ! i)")
    case None
    then have free: "slot_free (sv_slots sv ! i)" using s by (auto simp: slot_ok_def slot_free_def)
    then have q: "sv_queue sv = []" using ok b len by (auto simp: jobs_ok_def)
    define w where "w = (if \<not> sv_stopping sv then Asleep else Exited)"
    have eq: "slot_worker_check i sv = sv\<lparr>sv_workers := (sv_workers sv)[i := w]\<rparr>"
      using None q by (simp add: slot_worker_check_def w_def)
    have "sum_list (map worker_bag ((sv_workers sv)[i := w])) = sum_list (map worker_bag (sv_workers sv))"
      using worker_bag_update [OF i, of w] ready by (simp add: w_def split: if_splits)
    moreover have "slots_ok (sv\<lparr>sv_workers := (sv_workers sv)[i := w]\<rparr>)"
      using sok free len by (intro slots_ok_worker) (auto simp: slot_ok_def slot_free_def w_def)
    ultimately show ?thesis
      using ok b q unfolding eq
      by (auto simp: jobs_ok_def jobs_conserved_def worker_ok_def w_def
          dest!: set_update_subset_insert [THEN subsetD])
  next
    case (Some j)
    define s' where "s' = (sv_slots sv ! i)\<lparr>sl_assigned := None\<rparr>"
    have eq: "slot_worker_check i sv =
        sv\<lparr>sv_slots := (sv_slots sv)[i := s'], sv_workers := (sv_workers sv)[i := Running j]\<rparr>"
      using Some by (simp add: slot_worker_check_def s'_def)
    have s': "slot_ok s' (Running j)" "\<not> slot_free s'" "slot_bag s' = {#}"
      using s Some by (auto simp: slot_ok_def s'_def slot_free_def slot_bag_def)
    have bag: "slot_bag (sv_slots sv ! i) = {#j#}" using Some by (simp add: slot_bag_def)
    have "sum_list (map slot_bag ((sv_slots sv)[i := s'])) +
          sum_list (map worker_bag ((sv_workers sv)[i := Running j])) =
        sum_list (map slot_bag (sv_slots sv)) + sum_list (map worker_bag (sv_workers sv))"
      using worker_bag_update [OF i, of "Running j"] slot_bag_update [OF len, of s'] ready s'(3) bag
      by (simp add: ac_simps)
    then show ?thesis
      using ok b slots_ok_update [OF sok len s'(1)] s'(2) unfolding eq
      by (auto simp: jobs_ok_def jobs_conserved_def worker_ok_def
          dest!: set_update_subset_insert [THEN subsetD])
  qed
qed

lemma jobs_ok_finish:
  assumes ok: "jobs_ok sv" and i: "i < length (sv_workers sv)" and run: "sv_workers sv ! i = Running j"
  shows "jobs_ok (job_finish i j after sv)"
proof -
  define s' where "s' = after\<lparr>sl_assigned := sl_assigned (sv_slots sv ! i), sl_busy := sl_busy (sv_slots sv ! i)\<rparr>"
  define w where "w = (if sv_batched sv then Signalled else Ready)"
  have eq: "job_finish i j after sv = sv\<lparr>sv_slots := (sv_slots sv)[i := s'], sv_done := sv_done sv @ [j],
      sv_workers := (sv_workers sv)[i := w]\<rparr>"
    by (simp add: job_finish_def s'_def w_def Let_def)
  have len: "i < length (sv_slots sv)"
    using ok i by (cases "sv_batched sv") (auto simp: jobs_ok_def slots_ok_def)
  have same: "slot_bag s' = slot_bag (sv_slots sv ! i)" "slot_free s' = slot_free (sv_slots sv ! i)"
    by (simp_all add: s'_def slot_bag_def slot_free_def)
  have upd: "\<forall>s\<in>set ((sv_slots sv)[i := s']). P (slot_free s)"
    if "\<forall>s\<in>set (sv_slots sv). P (slot_free s)" for P
  proof
    fix t assume "t \<in> set ((sv_slots sv)[i := s'])"
    then have "t = s' \<or> t \<in> set (sv_slots sv)" by (auto dest: set_update_subset_insert [THEN subsetD])
    moreover have "P (slot_free s')" using that len same(2) by simp
    ultimately show "P (slot_free t)" using that by auto
  qed
  define sv' where "sv' = sv\<lparr>sv_slots := (sv_slots sv)[i := s'], sv_done := sv_done sv @ [j],
      sv_workers := (sv_workers sv)[i := w]\<rparr>"
  have "sum_list (map slot_bag ((sv_slots sv)[i := s'])) = sum_list (map slot_bag (sv_slots sv))"
    using slot_bag_update [OF len, of s'] same by simp
  moreover have "sum_list (map worker_bag (sv_workers sv)) =
      add_mset j (sum_list (map worker_bag ((sv_workers sv)[i := w])))"
    using worker_bag_update [OF i, of w] run by (simp add: w_def split: if_splits)
  ultimately have cons: "jobs_conserved sv'"
    using ok by (simp add: jobs_ok_def jobs_conserved_def sv'_def)
  have sok: "slots_ok sv'" if "sv_batched sv"
  proof -
    have sok: "slots_ok sv" using ok that by (auto simp: jobs_ok_def)
    then have "slot_ok (sv_slots sv ! i) (Running j)" using run len by (auto simp: slots_ok_def)
    then have "slot_ok s' w" using that by (auto simp: slot_ok_def s'_def w_def)
    with sok len show ?thesis using slots_ok_update [OF sok len] by (simp add: slots_ok_def sv'_def)
  qed
  have wok: "\<forall>v\<in>set (sv_workers sv'). worker_ok sv' v"
    using ok by (auto simp: jobs_ok_def worker_ok_def sv'_def w_def dest!: set_update_subset_insert [THEN subsetD])
  have [simp]: "sv_batched sv' = sv_batched sv" "sv_queue sv' = sv_queue sv"
    "sv_slots sv' = (sv_slots sv)[i := s']" "sv_workers sv' = (sv_workers sv)[i := w]"
    by (simp_all add: sv'_def)
  have "jobs_ok sv'"
  proof (cases "sv_batched sv")
    case True
    then show ?thesis using ok sok wok cons upd [of Not] by (simp add: jobs_ok_def)
  next
    case False
    then have "w = Ready" "i = 0" using ok i by (auto simp: w_def jobs_ok_def)
    then show ?thesis using False ok wok cons upd [of "\<lambda>x. x"] by (simp add: jobs_ok_def)
  qed
  then show ?thesis by (simp add: eq sv'_def)
qed

lemma jobs_ok_release:
  assumes ok: "jobs_ok sv" and i: "i < length (sv_workers sv)" and sig: "sv_workers sv ! i = Signalled"
  shows "jobs_ok (slot_worker_release i sv)"
proof -
  have b: "sv_batched sv"
    using ok i sig by (cases "sv_batched sv") (auto simp: jobs_ok_def)
  have sok: "slots_ok sv" and len: "i < length (sv_slots sv)"
    using ok b i by (auto simp: jobs_ok_def slots_ok_def)
  define s' where "s' = (sv_slots sv ! i)\<lparr>sl_busy := False\<rparr>"
  define sv1 where "sv1 = sv\<lparr>sv_slots := (sv_slots sv)[i := s'], sv_workers := (sv_workers sv)[i := Ready]\<rparr>"
  have none: "sl_assigned (sv_slots sv ! i) = None"
    using sok len sig by (auto simp: slots_ok_def slot_ok_def)
  then have "slot_ok s' Ready" by (simp add: slot_ok_def s'_def)
  then have "slots_ok sv1" using slots_ok_update [OF sok len] by (simp add: sv1_def)
  moreover have "jobs_conserved sv1"
    using ok worker_bag_update [OF i, of Ready] slot_bag_update [OF len, of s'] sig none
    by (auto simp: jobs_ok_def jobs_conserved_def sv1_def s'_def slot_bag_def)
  ultimately have "dispatch_pre sv1"
    using ok b by (auto simp: dispatch_pre_def sv1_def jobs_ok_def worker_ok_def
        dest!: set_update_subset_insert [THEN subsetD])
  then show ?thesis
    using dispatch_jobs_ok by (simp add: slot_worker_release_def sv1_def s'_def)
qed

lemma jobs_ok_dequeue:
  assumes ok: "jobs_ok sv" and serial: "\<not> sv_batched sv" "sv_workers sv = [Ready]"
  shows "jobs_ok (dequeue sv)"
  using assms
  by (cases "sv_queue sv") (auto simp: dequeue_def jobs_ok_def jobs_conserved_def worker_ok_def)

lemma jobs_ok_step: "server_step sv e sv' \<Longrightarrow> jobs_ok sv \<Longrightarrow> jobs_ok sv'"
  by (induction rule: server_step.induct)
     (auto intro: jobs_ok_enqueue jobs_ok_stop jobs_ok_spurious jobs_ok_check jobs_ok_dequeue
        jobs_ok_finish jobs_ok_release)

lemma jobs_ok_run: "server_run sv es sv' \<Longrightarrow> jobs_ok sv \<Longrightarrow> jobs_ok sv'"
  by (induction rule: server_run.induct) (auto intro: jobs_ok_step)

subsection \<open>The best free session\<close>

lemma dispatch_loop_choice:
  "dispatch_loop slots q = (slots', q', placed) \<Longrightarrow> placed = before @ (j, i) # after \<Longrightarrow>
   i \<notin> snd ` set before \<and> i < length slots \<and> slot_free (slots ! i) \<and>
   (\<forall>k < length slots. slot_free (slots ! k) \<and> k \<notin> snd ` set before \<longrightarrow>
      job_slot_score (slots ! k) j \<le> job_slot_score (slots ! i) j \<and>
      (k < i \<longrightarrow> job_slot_score (slots ! k) j < job_slot_score (slots ! i) j))"
proof (induction q arbitrary: slots slots' q' placed before)
  case Nil
  then show ?case by simp
next
  case (Cons j0 q)
  obtain k placed1 where best: "best_slot slots j0 = Some k"
    and loop: "dispatch_loop (slots[k := assign_job j0 (slots ! k)]) q = (slots', q', placed1)"
    and placed: "placed = (j0, k) # placed1"
    using Cons.prems by (auto simp: dispatch_loop_Cons split: option.splits prod.splits)
  note bs = best_slot_Some [OF best]
  show ?case
  proof (cases before)
    case Nil
    with placed Cons.prems(2) bs show ?thesis by (auto simp: first_best_def)
  next
    case (Cons p before1)
    with placed Cons.prems(2) have b: "before = (j0, k) # before1" "placed1 = before1 @ (j, i) # after" by auto
    note IH = Cons.IH [OF loop b(2)]
    have "i \<noteq> k" using IH bs by (auto simp: nth_list_update)
    then show ?thesis using IH bs b(1) by (auto simp: nth_list_update)
  qed
qed

text \<open>
  Where a request goes: each time the dispatch places a job, the slot it takes is free, no slot that is
  still free at that moment has a higher score for the job, and among equal scores the slot is the first.
  Jobs are placed from the front of the queue, and dispatch stops only when the queue is empty or no slot is
  free.
\<close>

theorem dispatch_takes_best_slot:
  assumes "dispatch_loop slots q = (slots', q', placed)"
  shows "q = List.map fst placed @ q' \<and> (q' \<noteq> [] \<longrightarrow> (\<forall>s\<in>set slots'. \<not> slot_free s)) \<and>
    (\<forall>before j i after. placed = before @ (j, i) # after \<longrightarrow>
       i < length slots \<and> i \<notin> snd ` set before \<and> slot_free (slots ! i) \<and> 
       (\<forall>k < length slots. slot_free (slots ! k) \<and> k \<notin> snd ` set before \<longrightarrow>
          job_slot_score (slots ! k) j \<le> job_slot_score (slots ! i) j \<and>
          (k < i \<longrightarrow> job_slot_score (slots ! k) j < job_slot_score (slots ! i) j)))"
  using dispatch_loop_queue [OF assms] dispatch_loop_full [OF assms] dispatch_loop_choice [OF assms]
  by blast

definition ex_slot :: "int list \<Rightarrow> server_slot" where
  "ex_slot tokens = \<lparr>sl_session = sample_session 0 tokens True, sl_vision_spans = [],
     sl_pending_ids = [], sl_pending_pos = 0, sl_pending_api = API_OPENAI, sl_pending_tools = [],
     sl_assigned = None, sl_busy = False\<rparr>"

definition ex_slots :: "server_slot list" where
  "ex_slots = [ex_slot [1, 2, 3], ex_slot [1, 2]]"

definition ex_job :: job where
  "ex_job = \<lparr>jb_fd = 4, jb_req = \<lparr>rq_api = API_OPENAI, rq_prompt = [1, 2, 7], rq_images = [],
     rq_continuation_ids = [], rq_tool_schema_key = None\<rparr>\<rparr>"

lemma ex_scores:
  "List.map (\<lambda>s. job_slot_score s ex_job) ex_slots = [2, 1073741825]"
  by code_simp

lemma ex_dispatch:
  "dispatch_loop ex_slots [ex_job] = (ex_slots[1 := assign_job ex_job (ex_slots ! 1)], [], [(ex_job, 1)])"
  using ex_scores by (auto simp: dispatch_loop_Cons best_slot_def ex_slots_def INT_MIN_def Let_def)

text \<open>The longer session keeps as many tokens, but the job continues the shorter one exactly.\<close>

theorem dispatch_takes_best_slot_witness:
  "job_slot_score (ex_slots ! 0) ex_job = 2 \<and>
   job_slot_score (ex_slots ! 0) ex_job \<le> job_slot_score (ex_slots ! 1) ex_job"
proof -
  have "slot_free (ex_slots ! 0)" by (simp add: ex_slots_def ex_slot_def slot_free_def)
  then have "job_slot_score (ex_slots ! 0) ex_job \<le> job_slot_score (ex_slots ! 1) ex_job"
    using dispatch_takes_best_slot [OF ex_dispatch] by (fastforce simp: ex_slots_def)
  then show ?thesis using ex_scores by (simp add: ex_slots_def)
qed

subsection \<open>No job is lost or doubled\<close>

text \<open>
  C11.  In every state the server can reach, the accepted jobs are those handed out followed by those still
  queued, so jobs start in the order of arrival; and a job handed out is in exactly one place, assigned to a
  slot, run by a worker or done.  While a job is queued in batched mode no slot is free, and a worker sleeps
  on the condition variable only while the queue is empty and no stop was asked, so no wake-up is missed.
\<close>

theorem jobs_kept_in_order:
  assumes "slots \<noteq> []" "server_run (jobs_start batched slots) es sv"
  shows "sv_accepted sv = sv_dispatched sv @ sv_queue sv \<and>
    mset (sv_dispatched sv) = sum_list (List.map slot_bag (sv_slots sv)) +
      sum_list (List.map worker_bag (sv_workers sv)) + mset (sv_done sv) \<and>
    (sv_batched sv \<and> sv_queue sv \<noteq> [] \<longrightarrow> (\<forall>s\<in>set (sv_slots sv). \<not> slot_free s)) \<and>
    (Asleep \<in> set (sv_workers sv) \<longrightarrow> sv_queue sv = [] \<and> \<not> sv_stopping sv)"
proof -
  have "jobs_ok sv" using jobs_ok_run [OF assms(2)] jobs_ok_start [OF assms(1)] by blast
  then show ?thesis by (auto simp: jobs_ok_def jobs_conserved_def worker_ok_def)
qed

text \<open>A request arrives, the worker of slot 1 takes it, and a second request follows.\<close>

lemma ex_run:
  fixes sv0 sv1 sv2 sv3 :: job_server
  defines "sv0 \<equiv> jobs_start True ex_slots"
  defines "sv1 \<equiv> fst (enqueue sv0 ex_job)"
  defines "sv2 \<equiv> slot_worker_check 1 sv1"
  defines "sv3 \<equiv> sv2\<lparr>sv_stopping := True, sv_workers := wake (sv_workers sv2)\<rparr>"
  shows "sv_workers sv2 = [Ready, Running ex_job]"
    and "server_run (jobs_start True ex_slots) [Enqueue ex_job, Check 1] sv2"
    and "server_run (jobs_start True ex_slots) [Enqueue ex_job, Check 1, Stop] sv3"
    and "server_run sv3 [Finish 1] (job_finish 1 ex_job (ex_slot []) sv3)"
proof -
  have start: "sv0 = \<lparr>sv_slots = ex_slots, sv_queue = [], sv_batched = True, sv_stopping = False,
      sv_workers = [Ready, Ready], sv_accepted = [], sv_dispatched = [], sv_done = []\<rparr>"
    by (simp add: sv0_def jobs_start_def ex_slots_def ex_slot_def)
  have sv1: "sv1 = \<lparr>sv_slots = ex_slots[1 := assign_job ex_job (ex_slots ! 1)], sv_queue = [], sv_batched = True,
      sv_stopping = False, sv_workers = [Ready, Ready], sv_accepted = [ex_job], sv_dispatched = [ex_job],
      sv_done = []\<rparr>"
    by (simp add: sv1_def start enqueue_def dispatch_jobs_locked_def ex_dispatch wake_def)
  then show w2: "sv_workers sv2 = [Ready, Running ex_job]"
    by (simp add: sv2_def slot_worker_check_def ex_slots_def assign_job_def)
  have "server_run sv0 ([] @ [Enqueue ex_job]) sv1"
    unfolding sv1_def by (rule run_snoc [OF run_nil server_step.enqueue])
  moreover have "server_step sv1 (Check 1) sv2"
    unfolding sv2_def by (rule server_step.check) (simp_all add: sv1)
  ultimately show run2: "server_run (jobs_start True ex_slots) [Enqueue ex_job, Check 1] sv2"
    using run_snoc [of sv0 "[Enqueue ex_job]" sv1 "Check 1" sv2] by (simp add: sv0_def)
  have "server_step sv2 Stop sv3" unfolding sv3_def by (rule server_step.stop)
  with run2 show "server_run (jobs_start True ex_slots) [Enqueue ex_job, Check 1, Stop] sv3"
    using run_snoc [of _ "[Enqueue ex_job, Check 1]" sv2 Stop sv3] by simp
  have "server_step sv3 (Finish 1) (job_finish 1 ex_job (ex_slot []) sv3)"
    by (rule server_step.finish) (simp_all add: sv3_def w2 wake_def)
  then show "server_run sv3 [Finish 1] (job_finish 1 ex_job (ex_slot []) sv3)"
    using run_snoc [OF run_nil] by fastforce
qed

theorem jobs_kept_in_order_witness:
  "\<exists>sv :: job_server. sv_workers sv = [Ready, Running ex_job] \<and> sv_accepted sv = sv_dispatched sv @ sv_queue sv"
proof -
  define sv where "sv = slot_worker_check 1 (fst (enqueue (jobs_start True ex_slots) ex_job))"
  have "sv_workers sv = [Ready, Running ex_job]"
    and run: "server_run (jobs_start True ex_slots) [Enqueue ex_job, Check 1] sv"
    unfolding sv_def by (rule ex_run(1), rule ex_run(2))
  moreover have "sv_accepted sv = sv_dispatched sv @ sv_queue sv"
    using jobs_kept_in_order [OF _ run] by (simp add: ex_slots_def)
  ultimately show ?thesis by blast
qed

subsection \<open>Shutdown\<close>

definition slot_work :: "server_slot \<Rightarrow> nat" where
  "slot_work s = (case sl_assigned s of None \<Rightarrow> 0 | Some j \<Rightarrow> 3)"

fun worker_work :: "worker_pc \<Rightarrow> nat" where
  "worker_work (Running j) = 3"
| "worker_work Signalled = 2"
| "worker_work Ready = 1"
| "worker_work Asleep = 1"
| "worker_work Exited = 0"

text \<open>The steps the workers can still make once the server stops.\<close>

definition shutdown_work :: "job_server \<Rightarrow> nat" where
  "shutdown_work sv = 3 * length (sv_queue sv) + sum_list (List.map slot_work (sv_slots sv)) +
     sum_list (List.map worker_work (sv_workers sv))"

fun worker_event :: "job_event \<Rightarrow> bool" where
  "worker_event (Enqueue j) = False"
| "worker_event Stop = False"
| "worker_event _ = True"

lemma worker_work_wake [simp]: "map worker_work (wake ws) = map worker_work ws"
  by (simp add: wake_def)

lemma slot_work_simps [simp]:
  "slot_free s \<Longrightarrow> slot_work s = 0" "slot_work (assign_job j s) = 3"
  by (simp_all add: slot_work_def slot_free_def assign_job_def)

lemma dispatch_loop_work:
  "dispatch_loop slots q = (slots', q', placed) \<Longrightarrow>
   3 * length q' + sum_list (map slot_work slots') = 3 * length q + sum_list (map slot_work slots)"
proof (induction q arbitrary: slots slots' q' placed)
  case Nil
  then show ?case by simp
next
  case (Cons j q)
  show ?case
  proof (cases "best_slot slots j")
    case None
    with Cons.prems show ?thesis by (auto simp: dispatch_loop_Cons)
  next
    case (Some k)
    obtain placed1 where loop: "dispatch_loop (slots[k := assign_job j (slots ! k)]) q = (slots', q', placed1)"
      using Cons.prems Some by (auto simp: dispatch_loop_Cons split: prod.splits)
    show ?thesis
      using Cons.IH [OF loop] sum_list_map_update [of k slots slot_work "assign_job j (slots ! k)"]
        best_slot_Some [OF Some] by simp
  qed
qed

lemma dispatch_jobs_work: "shutdown_work (dispatch_jobs_locked sv) = shutdown_work sv"
  using dispatch_loop_work
  by (fastforce simp: shutdown_work_def dispatch_jobs_locked_def split: prod.splits)

lemma worker_work_update:
  "i < length ws \<Longrightarrow> sum_list (map worker_work (ws[i := w])) + worker_work (ws ! i) =
     sum_list (map worker_work ws) + worker_work w"
  by (rule sum_list_map_update)

lemma slot_work_update:
  "i < length ss \<Longrightarrow> sum_list (map slot_work (ss[i := s])) + slot_work (ss ! i) =
     sum_list (map slot_work ss) + slot_work s"
  by (rule sum_list_map_update)

lemma check_work:
  assumes "jobs_ok sv" "sv_batched sv" "sv_stopping sv" "i < length (sv_workers sv)" "sv_workers sv ! i = Ready"
  shows "shutdown_work (slot_worker_check i sv) < shutdown_work sv"
proof (cases "sl_assigned (sv_slots sv ! i)")
  case None
  have len: "i < length (sv_slots sv)" and "slot_ok (sv_slots sv ! i) Ready"
    using assms by (auto simp: jobs_ok_def slots_ok_def)
  with None have "slot_free (sv_slots sv ! i)" by (auto simp: slot_ok_def slot_free_def)
  then have "sv_queue sv = []" using assms len by (auto simp: jobs_ok_def)
  then show ?thesis
    using None assms worker_work_update [OF assms(4), of Exited]
    by (simp add: slot_worker_check_def shutdown_work_def)
next
  case (Some j)
  have len: "i < length (sv_slots sv)" using assms by (auto simp: jobs_ok_def slots_ok_def)
  show ?thesis
    using Some assms(5) worker_work_update [OF assms(4), of "Running j"]
      slot_work_update [OF len, of "(sv_slots sv ! i)\<lparr>sl_assigned := None\<rparr>"]
    by (simp add: slot_worker_check_def shutdown_work_def slot_work_def Let_def del: sum_list_eq_0_iff)
qed

lemma finish_work:
  assumes "jobs_ok sv" "i < length (sv_workers sv)" "sv_workers sv ! i = Running j"
  shows "shutdown_work (job_finish i j after sv) < shutdown_work sv"
proof -
  have len: "i < length (sv_slots sv)"
    using assms by (cases "sv_batched sv") (auto simp: jobs_ok_def slots_ok_def)
  define s' where "s' = after\<lparr>sl_assigned := sl_assigned (sv_slots sv ! i), sl_busy := sl_busy (sv_slots sv ! i)\<rparr>"
  define w where "w = (if sv_batched sv then Signalled else Ready)"
  have "sum_list (map slot_work ((sv_slots sv)[i := s'])) = sum_list (map slot_work (sv_slots sv))"
    using slot_work_update [OF len, of s'] by (simp add: s'_def slot_work_def)
  moreover have "worker_work w < 3" by (simp add: w_def)
  ultimately show ?thesis
    using worker_work_update [OF assms(2), of w] assms(3)
    by (simp add: job_finish_def shutdown_work_def Let_def s'_def w_def)
qed

lemma release_work:
  assumes "jobs_ok sv" "i < length (sv_workers sv)" "sv_workers sv ! i = Signalled"
  shows "shutdown_work (slot_worker_release i sv) < shutdown_work sv"
proof -
  have len: "i < length (sv_slots sv)"
    using assms by (cases "sv_batched sv") (auto simp: jobs_ok_def slots_ok_def)
  show ?thesis
    using assms(3) worker_work_update [OF assms(2), of Ready]
      slot_work_update [OF len, of "(sv_slots sv ! i)\<lparr>sl_busy := False\<rparr>"]
    unfolding slot_worker_release_def dispatch_jobs_work
    by (simp add: shutdown_work_def slot_work_def)
qed

lemma dequeue_work:
  "sv_stopping sv \<Longrightarrow> sv_workers sv = [Ready] \<Longrightarrow> shutdown_work (dequeue sv) < shutdown_work sv"
  by (cases "sv_queue sv") (simp_all add: dequeue_def shutdown_work_def)

text \<open>Once the server stops, a worker step uses up work, and nothing adds any.\<close>

lemma stopping_step:
  assumes step: "server_step sv e sv'" and ok: "jobs_ok sv" and stop: "sv_stopping sv"
  shows "(if worker_event e then 1 else 0) + shutdown_work sv' \<le> shutdown_work sv \<and>
    sv_stopping sv' \<and> sv_accepted sv' = sv_accepted sv"
  using step
proof cases
  case (spurious i)
  then have "worker_ok sv Asleep" using ok by (metis jobs_ok_def nth_mem)
  with stop show ?thesis by (simp add: worker_ok_def)
next
  case (check i)
  then show ?thesis using check_work [OF ok _ stop] 
    by (auto simp: slot_worker_check_def Let_def Suc_le_eq stop split: option.splits)
next
  case serial
  then show ?thesis using dequeue_work [OF stop] stop by (auto simp: dequeue_def Suc_le_eq split: list.splits)
next
  case (finish i j after)
  then show ?thesis using finish_work [OF ok] stop by (auto simp: job_finish_def Let_def Suc_le_eq)
next
  case (release i)
  then show ?thesis using release_work [OF ok] stop
    by (auto simp: Suc_le_eq slot_worker_release_def)
qed (use stop in \<open>auto simp: enqueue_def shutdown_work_def\<close>)

lemma stopping_run:
  assumes "server_run sv es sv'" "jobs_ok sv" "sv_stopping sv"
  shows "length (List.filter worker_event es) + shutdown_work sv' \<le> shutdown_work sv \<and>
    sv_stopping sv' \<and> sv_accepted sv' = sv_accepted sv"
  using assms
proof (induction rule: server_run.induct)
  case (run_snoc sv es sv1 e sv2)
  then have "jobs_ok sv1" by (blast intro: jobs_ok_run)
  with run_snoc show ?case using stopping_step [of sv1 e sv2] by (auto split: if_splits)
qed simp

text \<open>A server in which no worker can move has finished every job.\<close>

lemma worker_moves:
  assumes ok: "jobs_ok sv" and w: "w \<in> set (sv_workers sv)" and live: "w \<noteq> Asleep" "w \<noteq> Exited"
  shows "\<exists>e sv'. worker_event e \<and> server_step sv e sv'"
proof -
  obtain i where i: "i < length (sv_workers sv)" "sv_workers sv ! i = w"
    using w by (auto simp: in_set_conv_nth)
  show ?thesis
  proof (cases w)
    case Ready
    show ?thesis
    proof (cases "sv_batched sv")
      case True
      with i Ready show ?thesis by (metis server_step.check worker_event.simps(4))
    next
      case False
      with ok i Ready have "sv_workers sv = [Ready]"
        by (auto simp: jobs_ok_def length_Suc_conv)
      with False show ?thesis by (metis server_step.serial worker_event.simps(4))
    qed
  next
    case (Running j)
    with i show ?thesis by (metis server_step.finish worker_event.simps(5))
  next
    case Signalled
    with i show ?thesis by (metis server_step.release worker_event.simps(6))
  qed (use live in auto)
qed

lemma quiet_done:
  assumes ok: "jobs_ok sv" and quiet: "\<forall>w\<in>set (sv_workers sv). w = Asleep \<or> w = Exited"
  shows "mset (sv_done sv) = mset (sv_accepted sv)"
proof -
  have "sv_workers sv \<noteq> []" using ok by (auto simp: jobs_ok_def slots_ok_def split: if_splits)
  then have q: "sv_queue sv = []"
    using ok quiet by (cases "sv_workers sv") (auto simp: jobs_ok_def worker_ok_def)
  have "worker_bag w = {#}" if "w \<in> set (sv_workers sv)" for w
    using quiet that by auto
  then have "sum_list (map worker_bag (sv_workers sv)) = {#}" by (simp add: sum_list_0 cong: map_cong)
  moreover have "slot_bag s = {#}" if s: "s \<in> set (sv_slots sv)" for s
  proof -
    obtain i where i: "i < length (sv_slots sv)" "sv_slots sv ! i = s" using s by (auto simp: in_set_conv_nth)
    show ?thesis
    proof (cases "sv_batched sv")
      case True
      then have "slot_ok s (sv_workers sv ! i)" "i < length (sv_workers sv)"
        using ok i by (auto simp: jobs_ok_def slots_ok_def)
      then have "sl_assigned s = None" using quiet by (fastforce simp: slot_ok_def dest: nth_mem)
      then show ?thesis by (simp add: slot_bag_def)
    next
      case False
      then show ?thesis using ok s by (auto simp: jobs_ok_def)
    qed
  qed
  then have "sum_list (map slot_bag (sv_slots sv)) = {#}" by (simp add: sum_list_0 cong: map_cong)
  ultimately show ?thesis using ok q by (simp add: jobs_ok_def jobs_conserved_def)
qed

text \<open>
  C12.  Shutdown: from any reachable state in which a stop was asked, no further request is accepted, the
  workers together make at most \<^verbatim>\<open>shutdown_work\<close> more steps whatever the order, and as long as some worker
  has not returned some worker can step; when all have returned, every request that was ever accepted has
  been answered, exactly once.  (A job in \<^verbatim>\<open>generate_job\<close> is taken to return.)
\<close>

theorem shutdown_answers_all:
  assumes "slots \<noteq> []" "server_run (jobs_start batched slots) es sv" "sv_stopping sv"
    and "server_run sv es' sv'"
  shows "length (List.filter worker_event es') + shutdown_work sv' \<le> shutdown_work sv \<and>
    sv_accepted sv' = sv_accepted sv \<and>
    ((\<exists>e sv''. worker_event e \<and> server_step sv' e sv'') \<or>
     ((\<forall>w\<in>set (sv_workers sv'). w = Exited) \<and> mset (sv_done sv') = mset (sv_accepted sv)))"
proof -
  have ok: "jobs_ok sv" using jobs_ok_run [OF assms(2)] jobs_ok_start [OF assms(1)] by blast
  then have ok': "jobs_ok sv'" using assms(4) by (blast intro: jobs_ok_run)
  note run = stopping_run [OF assms(4) ok assms(3)]
  have "w = Exited" if "\<not> (\<exists>e sv''. worker_event e \<and> server_step sv' e sv'')" "w \<in> set (sv_workers sv')" for w
    using worker_moves [OF ok' that(2)] that(1) ok' that(2) run by (auto simp: jobs_ok_def worker_ok_def)
  then show ?thesis using run quiet_done [OF ok'] by metis
qed

theorem shutdown_answers_all_witness:
  "\<exists>sv sv'. sv_stopping sv \<and> server_run sv [Finish 1] sv' \<and> 1 + shutdown_work sv' \<le> shutdown_work sv"
proof -
  define sv where "sv = (let sv2 = slot_worker_check 1 (fst (enqueue (jobs_start True ex_slots) ex_job))
    in sv2\<lparr>sv_stopping := True, sv_workers := wake (sv_workers sv2)\<rparr>)"
  have "server_run (jobs_start True ex_slots) [Enqueue ex_job, Check 1, Stop] sv"
    and run: "server_run sv [Finish 1] (job_finish 1 ex_job (ex_slot []) sv)"
    unfolding sv_def Let_def by (rule ex_run(3), rule ex_run(4))
  moreover have "sv_stopping sv" by (simp add: sv_def Let_def)
  ultimately have "length (List.filter worker_event [Finish 1]) +
      shutdown_work (job_finish 1 ex_job (ex_slot []) sv) \<le> shutdown_work sv"
    using shutdown_answers_all [of ex_slots True "[Enqueue ex_job, Check 1, Stop]" sv "[Finish 1]"
        "job_finish 1 ex_job (ex_slot []) sv"] by (simp add: ex_slots_def)
  then show ?thesis using run \<open>sv_stopping sv\<close> by auto
qed

end
