(* ===== verification/Server_Gate.thy ===== *)
theory Server_Gate
  imports Prelude
begin

text \<open>
  The gate in front of the model (\<^verbatim>\<open>src/q36_server.c\<close>, \<^verbatim>\<open>server_next_prefill_slot_locked\<close> to
  \<^verbatim>\<open>decode_worker_main\<close>, and the shutdown of \<^verbatim>\<open>main\<close>).  In batched mode the session threads share one
  model: prompts are evaluated by one session at a time, in round-robin order, and the tokens of all
  sessions that are generating go through one decode thread in batches.  All of it is guarded by
  \<^verbatim>\<open>s->model_mu\<close>; a step is the code between two points where the mutex is free.  Threads in
  \<^verbatim>\<open>pthread_cond_wait\<close> are asleep until a broadcast.  The evaluation of a batch is an event with its return
  code and error text.
\<close>

subsection \<open>The shared state\<close>

record gate_slot =
  prefill_waiting :: bool
  decode_pending :: bool
  decode_in_flight :: bool
  decode_done :: bool
  decode_token :: int
  decode_rc :: int
  decode_err :: string

text \<open>The fields of \<^verbatim>\<open>server\<close> under \<^verbatim>\<open>model_mu\<close>; \<^verbatim>\<open>gt_pending\<close> is \<^verbatim>\<open>s->decode_pending\<close>.\<close>

record model_gate =
  gt_slots :: "gate_slot list"
  gt_busy :: bool
  gt_stopping :: bool
  gt_pending :: int
  gt_generations :: int
  gt_last :: nat

definition upd_slot :: "nat \<Rightarrow> (gate_slot \<Rightarrow> gate_slot) \<Rightarrow> model_gate \<Rightarrow> model_gate" where
  "upd_slot i f g = g\<lparr>gt_slots := (gt_slots g)[i := f (gt_slots g ! i)]\<rparr>"

definition server_next_prefill_slot_locked :: "model_gate \<Rightarrow> nat option" where
  "server_next_prefill_slot_locked g =
     (let count = length (gt_slots g) in
      List.find (\<lambda>id. prefill_waiting (gt_slots g ! id))
        (List.map (\<lambda>n. (gt_last g + n) mod count) [1..<count + 1]))"

text \<open>The condition of the wait loop in \<^verbatim>\<open>server_prefill_enter\<close>, apart from the stop flag.\<close>

definition prefill_blocked :: "model_gate \<Rightarrow> nat \<Rightarrow> bool" where
  "prefill_blocked g i \<longleftrightarrow>
     gt_busy g \<or> 0 < gt_pending g \<or> server_next_prefill_slot_locked g \<noteq> Some i"

definition server_cancel_decode_waiters_locked :: "model_gate \<Rightarrow> model_gate" where
  "server_cancel_decode_waiters_locked g0 =
     fold (\<lambda>i g. if decode_pending (gt_slots g ! i)
        then (upd_slot i (\<lambda>s. s\<lparr>decode_pending := False, decode_done := True, decode_rc := 1,
                decode_err := ''decode cancelled''\<rparr>) g)
             \<lparr>gt_pending := (if 0 < gt_pending g then gt_pending g - 1 else gt_pending g)\<rparr>
        else g) [0..<length (gt_slots g0)] g0"

text \<open>The loop of \<^verbatim>\<open>decode_worker_main\<close> that takes every pending token into a batch.\<close>

definition decode_collect :: "model_gate \<Rightarrow> (nat \<times> int) list \<times> model_gate" where
  "decode_collect g0 =
     fold (\<lambda>i (members, g). if decode_pending (gt_slots g ! i)
        then (members @ [(i, decode_token (gt_slots g ! i))],
              (upd_slot i (\<lambda>s. s\<lparr>decode_pending := False, decode_in_flight := True\<rparr>) g)
              \<lparr>gt_pending := gt_pending g - 1\<rparr>)
        else (members, g)) [0..<length (gt_slots g0)] ([], g0)"

definition batch_error :: "string \<Rightarrow> string" where
  "batch_error err = (if err \<noteq> [] then take 159 err else ''batched decode failed'')"

text \<open>The loop that hands the result of the batch to its members.\<close>

definition decode_finish :: "(nat \<times> int) list \<Rightarrow> int \<Rightarrow> string \<Rightarrow> model_gate \<Rightarrow> model_gate" where
  "decode_finish members rc err g0 =
     fold (\<lambda>(i, tok). upd_slot i (\<lambda>s. s\<lparr>decode_in_flight := False, decode_rc := rc,
        decode_err := (if rc \<noteq> 0 then batch_error err else decode_err s), decode_done := True\<rparr>))
       members (g0\<lparr>gt_busy := False\<rparr>)"

subsection \<open>Threads\<close>

text \<open>
  A session thread: outside the gate, waiting for its turn to evaluate a prompt (the flag says whether it is
  asleep), evaluating it, waiting for a token, or returned.
\<close>

datatype slot_pc = Idle | Prefill_Wait bool | Prefilling | Eval_Wait bool | Returned

text \<open>
  The decode thread: at the top of its loop, at the wait that gathers more sessions, at the wait for the
  model, in \<^verbatim>\<open>q36_sessions_eval_batch\<close>, or returned.
\<close>

datatype decode_pc = D_Top bool | D_Coalesce bool | D_Busy bool | D_Running "(nat \<times> int) list" | D_Exited

record gate_sys =
  sy_gate :: model_gate
  sy_stop :: bool
  sy_shut :: bool
  sy_coalesce :: bool
  sy_slots :: "slot_pc list"
  sy_decode :: decode_pc
  sy_calls :: "(nat \<times> int) list"
  sy_log :: "(nat \<times> int \<times> int \<times> string) list"
  sy_answers :: "(nat \<times> int \<times> int \<times> string) list"
  sy_bypass :: "nat list"

text \<open>
  \<^verbatim>\<open>sy_stop\<close> is \<^verbatim>\<open>g_stop_requested\<close>, set by a signal; \<^verbatim>\<open>sy_shut\<close> says that \<^verbatim>\<open>main\<close> has cancelled the waiters.
  The last four fields are history: the tokens passed to \<^verbatim>\<open>server_eval_token\<close>, the tokens evaluated with the
  result of their batch, the results returned, and for each session how many other sessions were let in
  since it began to wait.
\<close>

fun wake_slot :: "slot_pc \<Rightarrow> slot_pc" where
  "wake_slot (Prefill_Wait a) = Prefill_Wait False"
| "wake_slot (Eval_Wait a) = Eval_Wait False"
| "wake_slot p = p"

fun wake_decode :: "decode_pc \<Rightarrow> decode_pc" where
  "wake_decode (D_Top a) = D_Top False"
| "wake_decode (D_Coalesce a) = D_Coalesce False"
| "wake_decode (D_Busy a) = D_Busy False"
| "wake_decode p = p"

definition broadcast :: "gate_sys \<Rightarrow> gate_sys" where
  "broadcast y = y\<lparr>sy_slots := List.map wake_slot (sy_slots y), sy_decode := wake_decode (sy_decode y)\<rparr>"

definition set_pc :: "nat \<Rightarrow> slot_pc \<Rightarrow> gate_sys \<Rightarrow> gate_sys" where
  "set_pc i p y = y\<lparr>sy_slots := (sy_slots y)[i := p]\<rparr>"

subsection \<open>Prompts\<close>

text \<open>One pass of the wait loop of \<^verbatim>\<open>server_prefill_enter\<close> and what follows it.\<close>

definition count_bypass :: "nat \<Rightarrow> nat list \<Rightarrow> nat list" where
  "count_bypass i bs = List.map (\<lambda>(k, b). if k = i then b else b + 1) (zip [0..<length bs] bs)"

definition prefill_try :: "nat \<Rightarrow> gate_sys \<Rightarrow> gate_sys" where
  "prefill_try i y =
     (let g = sy_gate y in
      if sy_stop y
      then set_pc i Idle (y\<lparr>sy_gate := upd_slot i (\<lambda>s. s\<lparr>prefill_waiting := False\<rparr>) g\<rparr>)
      else if prefill_blocked g i then set_pc i (Prefill_Wait True) y
      else set_pc i Prefilling
        (y\<lparr>sy_gate := (upd_slot i (\<lambda>s. s\<lparr>prefill_waiting := False\<rparr>) g)\<lparr>gt_last := i, gt_busy := True\<rparr>,
           sy_bypass := count_bypass i (sy_bypass y)\<rparr>))"

definition server_prefill_enter :: "nat \<Rightarrow> gate_sys \<Rightarrow> gate_sys" where
  "server_prefill_enter i y =
     prefill_try i (broadcast (y\<lparr>sy_gate := upd_slot i (\<lambda>s. s\<lparr>prefill_waiting := True\<rparr>) (sy_gate y),
                                 sy_bypass := (sy_bypass y)[i := 0]\<rparr>))"

definition server_prefill_leave :: "nat \<Rightarrow> gate_sys \<Rightarrow> gate_sys" where
  "server_prefill_leave i y = set_pc i Idle (broadcast (y\<lparr>sy_gate := (sy_gate y)\<lparr>gt_busy := False\<rparr>\<rparr>))"

definition server_generation_enter :: "gate_sys \<Rightarrow> gate_sys" where
  "server_generation_enter y =
     broadcast (y\<lparr>sy_gate := (sy_gate y)\<lparr>gt_generations := gt_generations (sy_gate y) + 1\<rparr>\<rparr>)"

definition server_generation_leave :: "gate_sys \<Rightarrow> gate_sys" where
  "server_generation_leave y =
     broadcast (y\<lparr>sy_gate := (sy_gate y)\<lparr>gt_generations :=
       (if 0 < gt_generations (sy_gate y) then gt_generations (sy_gate y) - 1
        else gt_generations (sy_gate y))\<rparr>\<rparr>)"

subsection \<open>Tokens\<close>

text \<open>One pass of the wait loop of \<^verbatim>\<open>server_eval_token\<close>, and its return.\<close>

definition eval_try :: "nat \<Rightarrow> gate_sys \<Rightarrow> gate_sys" where
  "eval_try i y =
     (let s = gt_slots (sy_gate y) ! i in
      if \<not> decode_done s \<and> \<not> sy_stop y then set_pc i (Eval_Wait True) y
      else let rc = (if decode_done s then decode_rc s else 1);
               err = (if rc = 0 then [] else if decode_err s \<noteq> [] then decode_err s else ''decode interrupted'')
           in set_pc i Idle
             (y\<lparr>sy_gate := upd_slot i (\<lambda>s. s\<lparr>decode_done := False\<rparr>) (sy_gate y),
                sy_answers := sy_answers y @ [(i, decode_token s, rc, err)]\<rparr>))"

definition server_eval_token :: "nat \<Rightarrow> int \<Rightarrow> gate_sys \<Rightarrow> gate_sys" where
  "server_eval_token i token y =
     (let s = gt_slots (sy_gate y) ! i;
          y = y\<lparr>sy_calls := sy_calls y @ [(i, token)]\<rparr> in
      if decode_pending s \<or> decode_in_flight s
      then y\<lparr>sy_answers := sy_answers y @ [(i, token, 1, ''session already has a decode in flight'')]\<rparr>
      else eval_try i (broadcast (y\<lparr>sy_gate :=
        (upd_slot i (\<lambda>s. s\<lparr>decode_token := token, decode_rc := 1, decode_err := [], decode_done := False,
           decode_pending := True\<rparr>) (sy_gate y))\<lparr>gt_pending := gt_pending (sy_gate y) + 1\<rparr>\<rparr>)))"

subsection \<open>The decode thread\<close>

text \<open>
  The three waits of the loop, from the last to the first, each going on to the next.  An empty batch goes
  back to the top.
\<close>

definition decode_busy :: "gate_sys \<Rightarrow> gate_sys" where
  "decode_busy y =
     (if gt_busy (sy_gate y) then y\<lparr>sy_decode := D_Busy True\<rparr>
      else (case decode_collect (sy_gate y) of (members, g) \<Rightarrow>
        if members = [] then y\<lparr>sy_gate := g, sy_decode := D_Top False\<rparr>
        else y\<lparr>sy_gate := g\<lparr>gt_busy := True\<rparr>, sy_decode := D_Running members\<rparr>))"

definition decode_coalesce :: "gate_sys \<Rightarrow> gate_sys" where
  "decode_coalesce y =
     (let g = sy_gate y in
      if \<not> gt_stopping g \<and> gt_pending g < int (length (gt_slots g)) \<and> gt_pending g < gt_generations g
      then y\<lparr>sy_decode := D_Coalesce True\<rparr> else decode_busy y)"

definition decode_top :: "gate_sys \<Rightarrow> gate_sys" where
  "decode_top y =
     (let g = sy_gate y in
      if gt_pending g = 0 \<and> \<not> gt_stopping g then y\<lparr>sy_decode := D_Top True\<rparr>
      else if gt_pending g = 0 \<and> gt_stopping g then y\<lparr>sy_decode := D_Exited\<rparr>
      else if sy_coalesce y \<and> gt_pending g < int (length (gt_slots g)) then decode_coalesce y
      else decode_busy y)"

text \<open>The batch returns: its results are handed out and the loop starts again.\<close>

definition decode_return :: "int \<Rightarrow> string \<Rightarrow> gate_sys \<Rightarrow> gate_sys" where
  "decode_return rc err y =
     (case sy_decode y of
        D_Running members \<Rightarrow>
          broadcast (y\<lparr>sy_gate := decode_finish members rc err (sy_gate y), sy_decode := D_Top False,
            sy_log := sy_log y @ List.map (\<lambda>(i, tok). (i, tok, rc, if rc \<noteq> 0 then batch_error err else []))
              members\<rparr>)
      | _ \<Rightarrow> y)"

subsection \<open>The system\<close>

datatype gate_event =
    Enter nat | Retry nat | Leave nat | Eval nat int | Return_Slot nat
  | Gen_Enter | Gen_Leave | Decode | Timeout | Batch int string
  | Signal | Shut | Stop_Model | Spur_Slot nat | Spur_Decode

definition all_returned :: "gate_sys \<Rightarrow> bool" where
  "all_returned y \<longleftrightarrow> list_all (\<lambda>p. p = Returned) (sy_slots y)"

inductive gate_step :: "gate_sys \<Rightarrow> gate_event \<Rightarrow> gate_sys \<Rightarrow> bool" where
  enter: "i < length (sy_slots y) \<Longrightarrow> sy_slots y ! i = Idle \<Longrightarrow>
    gate_step y (Enter i) (server_prefill_enter i y)"
| retry_prefill: "i < length (sy_slots y) \<Longrightarrow> sy_slots y ! i = Prefill_Wait False \<Longrightarrow>
    gate_step y (Retry i) (prefill_try i y)"
| leave: "i < length (sy_slots y) \<Longrightarrow> sy_slots y ! i = Prefilling \<Longrightarrow>
    gate_step y (Leave i) (server_prefill_leave i y)"
| eval: "i < length (sy_slots y) \<Longrightarrow> sy_slots y ! i = Idle \<Longrightarrow>
    gate_step y (Eval i token) (server_eval_token i token y)"
| retry_eval: "i < length (sy_slots y) \<Longrightarrow> sy_slots y ! i = Eval_Wait False \<Longrightarrow>
    gate_step y (Retry i) (eval_try i y)"
| return_slot: "i < length (sy_slots y) \<Longrightarrow> sy_slots y ! i = Idle \<Longrightarrow> sy_stop y \<Longrightarrow>
    gate_step y (Return_Slot i) (set_pc i Returned y)"
| gen_enter: "gate_step y Gen_Enter (server_generation_enter y)"
| gen_leave: "gate_step y Gen_Leave (server_generation_leave y)"
| decode_top: "sy_decode y = D_Top False \<Longrightarrow> gate_step y Decode (decode_top y)"
| decode_coalesce: "sy_decode y = D_Coalesce False \<Longrightarrow> gate_step y Decode (decode_coalesce y)"
| decode_busy: "sy_decode y = D_Busy False \<Longrightarrow> gate_step y Decode (decode_busy y)"
| timeout: "sy_decode y = D_Coalesce True \<Longrightarrow> gate_step y Timeout (decode_busy y)"
| batch: "sy_decode y = D_Running members \<Longrightarrow> gate_step y (Batch rc err) (decode_return rc err y)"
| signal: "gate_step y Signal (y\<lparr>sy_stop := True\<rparr>)"
| shut: "sy_stop y \<Longrightarrow> \<not> sy_shut y \<Longrightarrow> gate_step y Shut
    (broadcast (y\<lparr>sy_gate := server_cancel_decode_waiters_locked (sy_gate y), sy_shut := True\<rparr>))"
| stop_model: "sy_shut y \<Longrightarrow> all_returned y \<Longrightarrow> gate_step y Stop_Model
    (broadcast (y\<lparr>sy_gate := (sy_gate y)\<lparr>gt_stopping := True\<rparr>\<rparr>))"
| spur_slot: "i < length (sy_slots y) \<Longrightarrow>
    gate_step y (Spur_Slot i) (set_pc i (wake_slot (sy_slots y ! i)) y)"
| spur_decode: "gate_step y Spur_Decode (y\<lparr>sy_decode := wake_decode (sy_decode y)\<rparr>)"

text \<open>The state set up by \<^verbatim>\<open>main\<close> for \<^verbatim>\<open>n\<close> slots.\<close>

definition gate_slot0 :: gate_slot where
  "gate_slot0 = \<lparr>prefill_waiting = False, decode_pending = False, decode_in_flight = False,
     decode_done = False, decode_token = 0, decode_rc = 0, decode_err = []\<rparr>"

definition gate_start :: "nat \<Rightarrow> bool \<Rightarrow> gate_sys" where
  "gate_start n coalesce =
     \<lparr>sy_gate = \<lparr>gt_slots = replicate n gate_slot0, gt_busy = False, gt_stopping = False,
        gt_pending = 0, gt_generations = 0, gt_last = n - 1\<rparr>,
      sy_stop = False, sy_shut = False, sy_coalesce = coalesce, sy_slots = replicate n Idle,
      sy_decode = D_Top False, sy_calls = [], sy_log = [], sy_answers = [], sy_bypass = replicate n 0\<rparr>"

inductive gate_reach :: "nat \<Rightarrow> bool \<Rightarrow> gate_sys \<Rightarrow> bool" for n coalesce where
  reach_start: "gate_reach n coalesce (gate_start n coalesce)"
| reach_step: "gate_reach n coalesce y \<Longrightarrow> gate_step y e y' \<Longrightarrow> gate_reach n coalesce y'"

end
