(* ===== verification/Server_Gate_Inv.thy ===== *)
theory Server_Gate_Inv
  imports Server_Gate
begin

text \<open>
  The invariants of the model gate: the flags of a slot agree with where its thread stands, one owner of the
  model at a time, the counter of pending tokens, the members of a batch, which threads may be asleep, the
  history of the tokens, and how often a waiting session was passed over.
\<close>

subsection \<open>The loops over the slots\<close>

definition npend :: "gate_slot list \<Rightarrow> nat" where
  "npend ss = length (List.filter decode_pending ss)"

definition cancel_slot :: "gate_slot \<Rightarrow> gate_slot" where
  "cancel_slot s = (if decode_pending s
     then s\<lparr>decode_pending := False, decode_done := True, decode_rc := 1, decode_err := ''decode cancelled''\<rparr>
     else s)"

definition collect_slot :: "gate_slot \<Rightarrow> gate_slot" where
  "collect_slot s = (if decode_pending s then s\<lparr>decode_pending := False, decode_in_flight := True\<rparr> else s)"

lemma cancel_slot_simps:
  "decode_pending s \<Longrightarrow> s\<lparr>decode_pending := False, decode_done := True, decode_rc := 1,
     decode_err := ''decode cancelled''\<rparr> = cancel_slot s"
  "\<not> decode_pending s \<Longrightarrow> cancel_slot s = s"
  by (simp_all add: cancel_slot_def)

lemma collect_slot_simps:
  "decode_pending s \<Longrightarrow> s\<lparr>decode_pending := False, decode_in_flight := True\<rparr> = collect_slot s"
  "\<not> decode_pending s \<Longrightarrow> collect_slot s = s"
  by (simp_all add: collect_slot_def)

lemma take_Suc_nth: "m < length xs \<Longrightarrow> take (Suc m) xs = take m xs @ [xs ! m]"
  by (rule take_Suc_conv_app_nth)

lemma update_at_split:
  "m < length xs \<Longrightarrow> length ys = m \<Longrightarrow> (ys @ drop m xs)[m := z] = (ys @ [z]) @ drop (Suc m) xs"
  by (simp add: list_update_append Cons_nth_drop_Suc [symmetric])

lemma cancel_prefix:
  assumes "int (npend (gt_slots g)) \<le> gt_pending g" "m \<le> length (gt_slots g)"
  shows "fold (\<lambda>i g. if decode_pending (gt_slots g ! i)
        then (upd_slot i (\<lambda>s. s\<lparr>decode_pending := False, decode_done := True, decode_rc := 1,
                decode_err := ''decode cancelled''\<rparr>) g)
             \<lparr>gt_pending := (if 0 < gt_pending g then gt_pending g - 1 else gt_pending g)\<rparr>
        else g) [0..<m] g =
     g\<lparr>gt_slots := List.map cancel_slot (take m (gt_slots g)) @ drop m (gt_slots g),
       gt_pending := gt_pending g - int (npend (take m (gt_slots g)))\<rparr>"
  using assms(2)
proof (induction m)
  case 0
  then show ?case by (simp add: npend_def)
next
  case (Suc m)
  have m: "m < length (gt_slots g)" using Suc.prems by simp
  have "npend (gt_slots g) = npend (take m (gt_slots g)) + npend (drop m (gt_slots g))"
    by (metis append_take_drop_id filter_append length_append npend_def)
  moreover have "0 < npend (drop m (gt_slots g))" if "decode_pending (gt_slots g ! m)"
    using m that by (simp add: npend_def Cons_nth_drop_Suc [symmetric])
  ultimately have pos: "0 < gt_pending g - int (npend (take m (gt_slots g)))"
    if "decode_pending (gt_slots g ! m)" using assms(1) that by linarith
  have now: "(map cancel_slot (take m (gt_slots g)) @ drop m (gt_slots g)) ! m = gt_slots g ! m"
    using m by (simp add: nth_append)
  show ?case
    using Suc m pos update_at_split [OF m, of "map cancel_slot (take m (gt_slots g))"]
    by (cases "decode_pending (gt_slots g ! m)")
       (simp_all add: now upd_slot_def take_Suc_nth npend_def cancel_slot_simps Cons_nth_drop_Suc)
qed

lemma cancel_waiters:
  assumes "gt_pending g = int (npend (gt_slots g))"
  shows "server_cancel_decode_waiters_locked g =
    g\<lparr>gt_slots := List.map cancel_slot (gt_slots g), gt_pending := 0\<rparr>"
  using cancel_prefix [of g "length (gt_slots g)"] assms by (simp add: server_cancel_decode_waiters_locked_def)

definition pending_items :: "gate_slot list \<Rightarrow> (nat \<times> int) list" where
  "pending_items ss = List.map (\<lambda>i. (i, decode_token (ss ! i)))
     (List.filter (\<lambda>i. decode_pending (ss ! i)) [0..<length ss])"

lemma collect_prefix:
  assumes "m \<le> length (gt_slots g)"
  shows "fold (\<lambda>i (members, g). if decode_pending (gt_slots g ! i)
        then (members @ [(i, decode_token (gt_slots g ! i))],
              (upd_slot i (\<lambda>s. s\<lparr>decode_pending := False, decode_in_flight := True\<rparr>) g)
              \<lparr>gt_pending := gt_pending g - 1\<rparr>)
        else (members, g)) [0..<m] ([], g) =
     (List.map (\<lambda>i. (i, decode_token (gt_slots g ! i)))
        (List.filter (\<lambda>i. decode_pending (gt_slots g ! i)) [0..<m]),
      g\<lparr>gt_slots := List.map collect_slot (take m (gt_slots g)) @ drop m (gt_slots g),
        gt_pending := gt_pending g - int (npend (take m (gt_slots g)))\<rparr>)"
  using assms
proof (induction m)
  case 0
  then show ?case by (simp add: npend_def)
next
  case (Suc m)
  have m: "m < length (gt_slots g)" using Suc.prems by simp
  have now: "(map collect_slot (take m (gt_slots g)) @ drop m (gt_slots g)) ! m = gt_slots g ! m"
    using m by (simp add: nth_append)
  show ?case
    using Suc m update_at_split [OF m, of "map collect_slot (take m (gt_slots g))"]
    by (cases "decode_pending (gt_slots g ! m)")
       (simp_all add: now upd_slot_def take_Suc_nth npend_def collect_slot_simps Cons_nth_drop_Suc)
qed

lemma decode_collect_eq:
  "decode_collect g = (pending_items (gt_slots g),
     g\<lparr>gt_slots := List.map collect_slot (gt_slots g), gt_pending := gt_pending g - int (npend (gt_slots g))\<rparr>)"
  using collect_prefix [of "length (gt_slots g)" g] by (simp add: decode_collect_def pending_items_def)

definition finish_slot :: "int \<Rightarrow> string \<Rightarrow> gate_slot \<Rightarrow> gate_slot" where
  "finish_slot rc err s = s\<lparr>decode_in_flight := False, decode_rc := rc,
     decode_err := (if rc \<noteq> 0 then batch_error err else decode_err s), decode_done := True\<rparr>"

lemma fold_upd_slot:
  assumes "distinct (List.map fst ms)" "\<forall>i\<in>fst ` set ms. i < length (gt_slots h)"
  shows "fold (\<lambda>(i, tok). upd_slot i f) ms h = h\<lparr>gt_slots := List.map
    (\<lambda>i. if i \<in> fst ` set ms then f (gt_slots h ! i) else gt_slots h ! i) [0..<length (gt_slots h)]\<rparr>"
  using assms
proof (induction ms arbitrary: h)
  case Nil
  then show ?case by (simp add: map_nth)
next
  case (Cons p ms)
  have i: "fst p \<notin> fst ` set ms" "fst p < length (gt_slots h)" using Cons.prems by auto
  define h1 where "h1 = upd_slot (fst p) f h"
  have h1: "gt_slots h1 = (gt_slots h)[fst p := f (gt_slots h ! fst p)]" "h1 = h\<lparr>gt_slots := gt_slots h1\<rparr>"
    by (simp_all add: h1_def upd_slot_def)
  have "fold (\<lambda>(i, tok). upd_slot i f) (p # ms) h = fold (\<lambda>(i, tok). upd_slot i f) ms h1"
    by (simp add: h1_def case_prod_beta)
  also have "\<dots> = h1\<lparr>gt_slots := List.map
      (\<lambda>i. if i \<in> fst ` set ms then f (gt_slots h1 ! i) else gt_slots h1 ! i) [0..<length (gt_slots h1)]\<rparr>"
    using Cons.prems h1 by (intro Cons.IH) auto
  also have "List.map (\<lambda>i. if i \<in> fst ` set ms then f (gt_slots h1 ! i) else gt_slots h1 ! i)
        [0..<length (gt_slots h1)] =
      List.map (\<lambda>i. if i \<in> fst ` set (p # ms) then f (gt_slots h ! i) else gt_slots h ! i)
        [0..<length (gt_slots h)]"
    using i h1 by (auto intro!: nth_equalityI simp: nth_list_update)
  finally show ?case by (subst (asm) h1(2)) simp
qed

lemma decode_finish_slots:
  assumes "distinct (List.map fst ms)" "\<forall>i\<in>fst ` set ms. i < length (gt_slots g)"
  shows "decode_finish ms rc err g = g\<lparr>gt_busy := False, gt_slots := List.map
    (\<lambda>i. if i \<in> fst ` set ms then finish_slot rc err (gt_slots g ! i) else gt_slots g ! i)
    [0..<length (gt_slots g)]\<rparr>"
  using fold_upd_slot [of ms "g\<lparr>gt_busy := False\<rparr>" "finish_slot rc err"] assms
  by (simp add: decode_finish_def finish_slot_def [abs_def])

lemma pending_items_Nil:
  assumes "pending_items ss = []"
  shows "npend ss = 0" and "List.map collect_slot ss = ss"
proof -
  from assms have "\<forall>i<length ss. \<not> decode_pending (ss ! i)"
    by (auto simp: pending_items_def filter_empty_conv)
  then have "\<forall>s\<in>set ss. \<not> decode_pending s" by (auto simp: in_set_conv_nth)
  then show "npend ss = 0" "List.map collect_slot ss = ss"
    by (auto simp: npend_def filter_empty_conv collect_slot_def intro: map_idI)
qed

lemma npend_update:
  "i < length ss \<Longrightarrow> npend (ss[i := s]) + (if decode_pending (ss ! i) then 1 else 0) =
     npend ss + (if decode_pending s then 1 else 0)"
proof (induction ss arbitrary: i)
  case (Cons t ss)
  show ?case
  proof (cases i)
    case 0
    then show ?thesis by (simp add: npend_def)
  next
    case (Suc k)
    then show ?thesis using Cons.IH [of k] Cons.prems by (simp add: npend_def)
  qed
qed simp

lemma npend_flags: "npend ss = length (List.filter (\<lambda>b. b) (List.map decode_pending ss))"
  by (simp add: npend_def filter_map comp_def)

lemma npend_same:
  "decode_pending s = decode_pending (ss ! i) \<Longrightarrow> npend (ss[i := s]) = npend ss"
  using npend_update [of i ss s] by (cases "i < length ss") (auto simp: list_update_beyond split: if_splits)

lemma npend_map: "(\<And>s. s \<in> set ss \<Longrightarrow> \<not> decode_pending (f s)) \<Longrightarrow> npend (List.map f ss) = 0"
  by (auto simp: npend_def filter_empty_conv)

lemma not_pending_changed [simp]:
  "\<not> decode_pending (cancel_slot s)" "\<not> decode_pending (collect_slot s)"
  "prefill_waiting (cancel_slot s) = prefill_waiting s"
  "prefill_waiting (collect_slot s) = prefill_waiting s"
  "prefill_waiting (finish_slot rc err s) = prefill_waiting s"
  "decode_pending (finish_slot rc err s) = decode_pending s"
  "decode_token (finish_slot rc err s) = decode_token s"
  "decode_token (collect_slot s) = decode_token s"
  "decode_done (collect_slot s) = decode_done s"
  "decode_in_flight (collect_slot s) = (decode_pending s \<or> decode_in_flight s)"
  by (auto simp: cancel_slot_def collect_slot_def finish_slot_def)

subsection \<open>Round robin\<close>

text \<open>How many slots come before slot \<^verbatim>\<open>k\<close> in the order that starts after \<^verbatim>\<open>prev\<close>.\<close>

definition rr_dist :: "nat \<Rightarrow> nat \<Rightarrow> nat \<Rightarrow> nat" where
  "rr_dist n prev k = (if prev < k then k - 1 - prev else k + n - 1 - prev)"

lemma rr_dist_less: "prev < n \<Longrightarrow> k < n \<Longrightarrow> rr_dist n prev k < n"
  by (auto simp: rr_dist_def)

lemma rr_dist_at: "prev < n \<Longrightarrow> m < n \<Longrightarrow> rr_dist n prev ((prev + Suc m) mod n) = m"
  by (cases "prev + Suc m < n") (auto simp: rr_dist_def mod_if)

lemma rr_dist_slot: "prev < n \<Longrightarrow> k < n \<Longrightarrow> (prev + Suc (rr_dist n prev k)) mod n = k"
  by (auto simp: rr_dist_def mod_if)

lemma rr_dist_next:
  "prev < n \<Longrightarrow> i < n \<Longrightarrow> j < n \<Longrightarrow> i \<noteq> j \<Longrightarrow> rr_dist n prev j \<le> rr_dist n prev i \<Longrightarrow>
   rr_dist n j i < rr_dist n prev i"
  by (auto simp: rr_dist_def split: if_splits)

lemma next_prefill_Some:
  assumes "server_next_prefill_slot_locked g = Some j" "gt_last g < length (gt_slots g)"
  shows "j < length (gt_slots g)" and "prefill_waiting (gt_slots g ! j)"
    and "k < length (gt_slots g) \<Longrightarrow> prefill_waiting (gt_slots g ! k) \<Longrightarrow>
      rr_dist (length (gt_slots g)) (gt_last g) j \<le> rr_dist (length (gt_slots g)) (gt_last g) k"
proof -
  define n where "n = length (gt_slots g)"
  define xs where "xs = List.map (\<lambda>m. (gt_last g + m) mod n) [1..<n + 1]"
  have n: "gt_last g < n" using assms(2) by (simp add: n_def)
  have xs: "m < n \<Longrightarrow> xs ! m = (gt_last g + Suc m) mod n" "length xs = n" for m
    by (simp_all add: xs_def del: upt_Suc)
  obtain m where m: "m < n" "prefill_waiting (gt_slots g ! (xs ! m))" "j = xs ! m"
      "\<forall>l<m. \<not> prefill_waiting (gt_slots g ! (xs ! l))"
    using assms(1) xs(2) by (auto simp: server_next_prefill_slot_locked_def Let_def find_Some_iff xs_def n_def)
  then show "j < length (gt_slots g)" "prefill_waiting (gt_slots g ! j)"
    using n xs by (auto simp: n_def [symmetric])
  have dj: "rr_dist n (gt_last g) j = m" using rr_dist_at [OF n m(1)] m(1,3) xs by simp
  show "rr_dist (length (gt_slots g)) (gt_last g) j \<le> rr_dist (length (gt_slots g)) (gt_last g) k"
    if k: "k < length (gt_slots g)" "prefill_waiting (gt_slots g ! k)"
  proof -
    define d where "d = rr_dist n (gt_last g) k"
    have "d < n" "xs ! d = k" using rr_dist_less [OF n] rr_dist_slot [OF n] k xs by (auto simp: d_def n_def)
    then have "\<not> d < m" using m(4) k(2) by auto
    then show ?thesis using dj by (simp add: d_def n_def)
  qed
qed

lemma next_prefill_None:
  assumes "server_next_prefill_slot_locked g = None" "gt_last g < length (gt_slots g)"
    "k < length (gt_slots g)"
  shows "\<not> prefill_waiting (gt_slots g ! k)"
proof -
  define n where "n = length (gt_slots g)"
  have n: "gt_last g < n" "k < n" using assms by (simp_all add: n_def)
  have "(gt_last g + Suc (rr_dist n (gt_last g) k)) mod n = k" using rr_dist_slot [OF n] .
  moreover have "\<not> prefill_waiting (gt_slots g ! ((gt_last g + m) mod n))" if "m \<in> set [1..<n + 1]" for m
    using assms(1) that unfolding server_next_prefill_slot_locked_def Let_def find_None_iff n_def by auto
  moreover have "Suc (rr_dist n (gt_last g) k) \<in> set [1..<n + 1]"
    using rr_dist_less [OF n] by (auto simp: less_Suc_eq)
  ultimately show ?thesis by metis
qed

lemma next_prefill_cong:
  assumes "List.map prefill_waiting (gt_slots g) = List.map prefill_waiting (gt_slots g')"
    "gt_last g = gt_last g'"
  shows "server_next_prefill_slot_locked g = server_next_prefill_slot_locked g'"
proof -
  have len: "length (gt_slots g) = length (gt_slots g')" using assms(1) by (rule map_eq_imp_length_eq)
  show ?thesis
  proof (cases "gt_slots g = []")
    case True
    with len show ?thesis by (simp add: server_next_prefill_slot_locked_def)
  next
    case False
    have "prefill_waiting (gt_slots g ! k) = prefill_waiting (gt_slots g' ! k)"
      if "k < length (gt_slots g)" for k
      using assms(1) that len by (metis nth_map)
    then have "find (\<lambda>id. prefill_waiting (gt_slots g ! id)) xs =
        find (\<lambda>id. prefill_waiting (gt_slots g' ! id)) xs"
      if "\<forall>x\<in>set xs. x < length (gt_slots g)" for xs
      using that by (induction xs) auto
    from this [of "List.map (\<lambda>n. (gt_last g + n) mod length (gt_slots g)) [1..<length (gt_slots g) + 1]"]
    moreover have "0 < length (gt_slots g')" using False len by auto
    ultimately show ?thesis
      using len assms(2)
      by (simp add: server_next_prefill_slot_locked_def Let_def del: upt_Suc)
  qed
qed

subsection \<open>The invariant\<close>

fun batch_of :: "decode_pc \<Rightarrow> (nat \<times> int) list" where
  "batch_of (D_Running ms) = ms"
| "batch_of d = []"

fun waits_prefill :: "slot_pc \<Rightarrow> bool" where
  "waits_prefill (Prefill_Wait a) = True"
| "waits_prefill p = False"

fun waits_eval :: "slot_pc \<Rightarrow> bool" where
  "waits_eval (Eval_Wait a) = True"
| "waits_eval p = False"

text \<open>The flags of a slot, where its thread stands, and whether the running batch has its token.\<close>

definition slot_inv :: "bool \<Rightarrow> bool \<Rightarrow> gate_slot \<Rightarrow> slot_pc \<Rightarrow> bool \<Rightarrow> bool" where
  "slot_inv stop shut s p inb \<longleftrightarrow>
     (prefill_waiting s \<longleftrightarrow> waits_prefill p) \<and>
     (decode_in_flight s \<longleftrightarrow> inb) \<and>
     \<not> (decode_pending s \<and> decode_in_flight s) \<and>
     (decode_done s \<longrightarrow> \<not> decode_pending s \<and> \<not> decode_in_flight s) \<and>
     (\<not> stop \<longrightarrow> ((decode_pending s \<or> decode_in_flight s \<or> decode_done s) \<longleftrightarrow> waits_eval p)) \<and>
     (p = Eval_Wait True \<longrightarrow> \<not> decode_done s) \<and>
     (shut \<longrightarrow> stop \<and> p \<noteq> Prefill_Wait True \<and> p \<noteq> Eval_Wait True)"

definition slots_inv :: "bool \<Rightarrow> bool \<Rightarrow> gate_slot list \<Rightarrow> slot_pc list \<Rightarrow> nat set \<Rightarrow> bool" where
  "slots_inv stop shut ss ps b \<longleftrightarrow> length ss = length ps \<and>
     (\<forall>i < length ps. slot_inv stop shut (ss ! i) (ps ! i) (i \<in> b))"

definition count_inv :: "model_gate \<Rightarrow> bool" where
  "count_inv g \<longleftrightarrow> gt_last g < length (gt_slots g) \<and> gt_pending g = int (npend (gt_slots g))"

text \<open>One owner of the model: a session that evaluates its prompt, or the decode thread.\<close>

definition owner_inv :: "bool \<Rightarrow> slot_pc list \<Rightarrow> decode_pc \<Rightarrow> bool" where
  "owner_inv busy ps d \<longleftrightarrow>
     (busy \<longleftrightarrow> Prefilling \<in> set ps \<or> (\<exists>ms. d = D_Running ms)) \<and>
     (\<forall>i < length ps. \<forall>j < length ps. ps ! i = Prefilling \<longrightarrow> ps ! j = Prefilling \<longrightarrow> i = j) \<and>
     ((\<exists>ms. d = D_Running ms) \<longrightarrow> Prefilling \<notin> set ps)"

definition batch_inv :: "gate_slot list \<Rightarrow> decode_pc \<Rightarrow> bool" where
  "batch_inv ss d \<longleftrightarrow> d \<noteq> D_Running [] \<and> distinct (List.map fst (batch_of d)) \<and>
     (\<forall>(i, tok) \<in> set (batch_of d). i < length ss \<and> tok = decode_token (ss ! i))"

text \<open>A sleeping thread has nothing to do; the stopping of the decode thread comes last.\<close>

definition sleep_inv :: "gate_sys \<Rightarrow> bool" where
  "sleep_inv y \<longleftrightarrow>
     (\<not> sy_stop y \<longrightarrow> (\<forall>i < length (sy_slots y). sy_slots y ! i = Prefill_Wait True \<longrightarrow>
        prefill_blocked (sy_gate y) i)) \<and>
     (sy_decode y = D_Top True \<longrightarrow> gt_pending (sy_gate y) = 0 \<and> \<not> gt_stopping (sy_gate y)) \<and>
     (sy_decode y = D_Busy True \<longrightarrow> gt_busy (sy_gate y)) \<and>
     (sy_decode y = D_Exited \<longrightarrow> gt_stopping (sy_gate y)) \<and>
     (gt_stopping (sy_gate y) \<longrightarrow> sy_shut y \<and> all_returned y)"

definition gate_inv :: "gate_sys \<Rightarrow> bool" where
  "gate_inv y \<longleftrightarrow> count_inv (sy_gate y) \<and>
     slots_inv (sy_stop y) (sy_shut y) (gt_slots (sy_gate y)) (sy_slots y) (fst ` set (batch_of (sy_decode y))) \<and>
     owner_inv (gt_busy (sy_gate y)) (sy_slots y) (sy_decode y) \<and>
     batch_inv (gt_slots (sy_gate y)) (sy_decode y) \<and> sleep_inv y"

subsubsection \<open>Waking up\<close>

lemma batch_of_wake [simp]: "batch_of (wake_decode d) = batch_of d"
  by (cases d) auto

lemma wake_decode_running [simp]: "wake_decode d = D_Running ms \<longleftrightarrow> d = D_Running ms"
  by (cases d) auto

lemma wake_decode_asleep [simp]:
  "wake_decode d \<noteq> D_Top True" "wake_decode d \<noteq> D_Busy True" "wake_decode d = D_Exited \<longleftrightarrow> d = D_Exited"
  by (cases d; simp)+

lemma wake_slot_simps [simp]:
  "wake_slot p \<noteq> Prefill_Wait True" "wake_slot p \<noteq> Eval_Wait True"
  "wake_slot p = Prefilling \<longleftrightarrow> p = Prefilling" "Prefilling = wake_slot p \<longleftrightarrow> p = Prefilling"
  "wake_slot p = Idle \<longleftrightarrow> p = Idle" "wake_slot p = Returned \<longleftrightarrow> p = Returned"
  "waits_prefill (wake_slot p) = waits_prefill p" "waits_eval (wake_slot p) = waits_eval p"
  by (cases p; simp)+

lemma slot_inv_wake: "slot_inv st sh s p b \<Longrightarrow> slot_inv st sh s (wake_slot p) b"
  by (auto simp: slot_inv_def)

lemma slots_inv_wake: "slots_inv st sh ss ps b \<Longrightarrow> slots_inv st sh ss (List.map wake_slot ps) b"
  by (simp add: slots_inv_def slot_inv_wake)

lemma owner_inv_wake: "owner_inv busy ps d \<Longrightarrow> owner_inv busy (List.map wake_slot ps) (wake_decode d)"
  by (auto simp: owner_inv_def image_iff)

lemma batch_inv_wake: "batch_inv ss d \<Longrightarrow> batch_inv ss (wake_decode d)"
  by (simp add: batch_inv_def)

lemma slots_inv_upd:
  assumes "slots_inv st sh ss ps b" "i < length ps \<Longrightarrow> slot_inv st sh s p (i \<in> b)"
  shows "slots_inv st sh (ss[i := s]) (ps[i := p]) b"
  using assms unfolding slots_inv_def by (metis length_list_update nth_list_update_eq nth_list_update_neq)

lemma slots_inv_pc:
  assumes "slots_inv st sh ss ps b" "i < length ps \<Longrightarrow> slot_inv st sh (ss ! i) p (i \<in> b)"
  shows "slots_inv st sh ss (ps[i := p]) b"
  using assms unfolding slots_inv_def by (metis length_list_update nth_list_update_eq nth_list_update_neq)

lemma batch_inv_upd:
  assumes "batch_inv ss d" "i \<in> fst ` set (batch_of d) \<Longrightarrow> decode_token s = decode_token (ss ! i)"
  shows "batch_inv (ss[i := s]) d"
proof -
  have "tok = decode_token (ss[i := s] ! k)" if "(k, tok) \<in> set (batch_of d)" for k tok
  proof (cases "k = i")
    case True
    then have "i \<in> fst ` set (batch_of d)" using that by force
    then show ?thesis using assms that True by (fastforce simp: batch_inv_def)
  next
    case False
    then show ?thesis using assms(1) that by (fastforce simp: batch_inv_def)
  qed
  then show ?thesis using assms(1) by (fastforce simp: batch_inv_def)
qed

lemma owner_inv_pc:
  assumes "owner_inv busy ps d" "i < length ps" "ps ! i \<noteq> Prefilling" "p \<noteq> Prefilling"
  shows "owner_inv busy (ps[i := p]) d"
proof -
  have "Prefilling \<in> set (ps[i := p]) \<longleftrightarrow> Prefilling \<in> set ps"
    using assms(2-4) by (auto simp: in_set_conv_nth nth_list_update)
  then show ?thesis using assms by (auto simp: owner_inv_def nth_list_update)
qed

subsubsection \<open>Prompts\<close>

lemma gate_invD:
  assumes "gate_inv y"
  shows "count_inv (sy_gate y)"
    "slots_inv (sy_stop y) (sy_shut y) (gt_slots (sy_gate y)) (sy_slots y) (fst ` set (batch_of (sy_decode y)))"
    "owner_inv (gt_busy (sy_gate y)) (sy_slots y) (sy_decode y)"
    "batch_inv (gt_slots (sy_gate y)) (sy_decode y)" "sleep_inv y"
  using assms by (simp_all add: gate_inv_def)

lemma gate_inv_slot:
  assumes "gate_inv y" "i < length (sy_slots y)"
  shows "slot_inv (sy_stop y) (sy_shut y) (gt_slots (sy_gate y) ! i) (sy_slots y ! i)
      (i \<in> fst ` set (batch_of (sy_decode y)))"
    and "i < length (gt_slots (sy_gate y))"
  using gate_invD(2) [OF assms(1)] assms(2) by (simp_all add: slots_inv_def)

lemma prefill_blocked_cong:
  assumes "gt_busy g = gt_busy g'" "gt_pending g = gt_pending g'" "gt_last g = gt_last g'"
    "List.map prefill_waiting (gt_slots g) = List.map prefill_waiting (gt_slots g')"
  shows "prefill_blocked g k = prefill_blocked g' k"
  using assms next_prefill_cong [OF assms(4,3)] by (simp add: prefill_blocked_def)

lemma map_waiting_upd:
  "prefill_waiting s = prefill_waiting (ss ! i) \<Longrightarrow>
   List.map prefill_waiting (ss[i := s]) = List.map prefill_waiting ss"
  by (cases "i < length ss") (auto simp: map_update list_update_same_conv list_update_beyond)

lemma not_stopping:
  assumes "gate_inv y" "i < length (sy_slots y)" "sy_slots y ! i \<noteq> Returned"
  shows "\<not> gt_stopping (sy_gate y)"
  using gate_invD(5) [OF assms(1)] assms(2,3)
  by (auto simp: sleep_inv_def all_returned_def list_all_length)

lemma count_inv_slot:
  assumes "count_inv g" "decode_pending s = decode_pending (gt_slots g ! i)"
  shows "count_inv (g\<lparr>gt_slots := (gt_slots g)[i := s]\<rparr>)"
  using assms by (simp add: count_inv_def npend_same)

lemma owner_inv_enter:
  assumes "owner_inv False ps d" "i < length ps"
  shows "owner_inv True (ps[i := Prefilling]) d"
proof -
  have "Prefilling \<in> set (ps[i := Prefilling])" using assms(2) by (simp add: set_update_memI)
  moreover have none: "Prefilling \<notin> set ps" and "\<not> (\<exists>ms. d = D_Running ms)"
    using assms(1) by (simp_all add: owner_inv_def)
  moreover have "k = i" if "k < length ps" "ps[i := Prefilling] ! k = Prefilling" for k
    using none that nth_mem [of k ps] by (cases "k = i") auto
  ultimately show ?thesis using assms(2) unfolding owner_inv_def by (metis length_list_update)
qed

lemma gate_inv_prefill_try:
  assumes inv: "gate_inv y" and i: "i < length (sy_slots y)" and p: "waits_prefill (sy_slots y ! i)"
  shows "gate_inv (prefill_try i y)"
proof -
  note D = gate_invD [OF inv] and S = gate_inv_slot [OF inv i]
  have ns: "\<not> gt_stopping (sy_gate y)" by (rule not_stopping [OF inv i]) (use p in auto)
  have np: "sy_slots y ! i \<noteq> Prefilling" using p by auto
  define s where "s = (gt_slots (sy_gate y) ! i)\<lparr>prefill_waiting := False\<rparr>"
  define g where "g = (sy_gate y)\<lparr>gt_slots := (gt_slots (sy_gate y))[i := s]\<rparr>"
  have gcount: "count_inv g" unfolding g_def s_def by (rule count_inv_slot [OF D(1)]) simp
  have gbatch: "batch_inv (gt_slots g) (sy_decode y)"
    unfolding g_def s_def by (simp add: batch_inv_upd [OF D(4)])
  have upd: "upd_slot i (\<lambda>s. s\<lparr>prefill_waiting := False\<rparr>) (sy_gate y) = g"
    by (simp add: upd_slot_def g_def s_def)
  consider (stop) "sy_stop y" | (block) "\<not> sy_stop y" "prefill_blocked (sy_gate y) i"
    | (enter) "\<not> sy_stop y" "\<not> prefill_blocked (sy_gate y) i" by blast
  then show ?thesis
  proof cases
    case stop
    then have eq: "prefill_try i y = y\<lparr>sy_gate := g, sy_slots := (sy_slots y)[i := Idle]\<rparr>"
      by (simp add: prefill_try_def set_pc_def upd Let_def)
    have "slot_inv (sy_stop y) (sy_shut y) s Idle (i \<in> fst ` set (batch_of (sy_decode y)))"
      using S(1) p stop by (auto simp: slot_inv_def s_def)
    from slots_inv_upd [OF D(2) this]
    have "slots_inv (sy_stop y) (sy_shut y) (gt_slots g) ((sy_slots y)[i := Idle])
        (fst ` set (batch_of (sy_decode y)))" by (simp add: g_def)
    moreover have "sleep_inv (prefill_try i y)"
      using D(5) ns stop unfolding eq by (simp add: sleep_inv_def g_def)
    ultimately show ?thesis
      using owner_inv_pc [OF D(3) i np, of Idle] gcount gbatch by (simp add: gate_inv_def eq g_def)
  next
    case block
    then have eq: "prefill_try i y = y\<lparr>sy_slots := (sy_slots y)[i := Prefill_Wait True]\<rparr>"
      by (simp add: prefill_try_def set_pc_def)
    have "slot_inv (sy_stop y) (sy_shut y) (gt_slots (sy_gate y) ! i) (Prefill_Wait True)
        (i \<in> fst ` set (batch_of (sy_decode y)))"
      using S(1) p block by (cases "sy_slots y ! i") (auto simp: slot_inv_def)
    from slots_inv_pc [OF D(2) this]
    have "slots_inv (sy_stop y) (sy_shut y) (gt_slots (sy_gate y)) ((sy_slots y)[i := Prefill_Wait True])
        (fst ` set (batch_of (sy_decode y)))" by simp
    moreover have "prefill_blocked (sy_gate y) k"
      if "k < length (sy_slots y)" "(sy_slots y)[i := Prefill_Wait True] ! k = Prefill_Wait True" for k
      using D(5) block that by (cases "k = i") (auto simp: sleep_inv_def)
    then have "sleep_inv (prefill_try i y)"
      using D(5) ns unfolding eq by (simp add: sleep_inv_def)
    ultimately show ?thesis
      using owner_inv_pc [OF D(3) i np, of "Prefill_Wait True"] D(1,4) by (simp add: gate_inv_def eq)
  next
    case enter
    then have eq: "prefill_try i y = y\<lparr>sy_gate := g\<lparr>gt_last := i, gt_busy := True\<rparr>,
        sy_slots := (sy_slots y)[i := Prefilling], sy_bypass := count_bypass i (sy_bypass y)\<rparr>"
      by (simp add: prefill_try_def set_pc_def upd Let_def)
    have free: "\<not> gt_busy (sy_gate y)" using enter(2) by (simp add: prefill_blocked_def)
    have "slot_inv (sy_stop y) (sy_shut y) s Prefilling (i \<in> fst ` set (batch_of (sy_decode y)))"
      using S(1) p by (cases "sy_slots y ! i") (auto simp: slot_inv_def s_def)
    from slots_inv_upd [OF D(2) this]
    have "slots_inv (sy_stop y) (sy_shut y) (gt_slots g) ((sy_slots y)[i := Prefilling])
        (fst ` set (batch_of (sy_decode y)))" by (simp add: g_def)
    moreover have "sleep_inv (prefill_try i y)"
      using D(5) ns unfolding eq by (simp add: sleep_inv_def g_def prefill_blocked_def)
    moreover have "count_inv (g\<lparr>gt_last := i, gt_busy := True\<rparr>)"
      using gcount S(2) by (simp add: count_inv_def g_def)
    moreover have "owner_inv True ((sy_slots y)[i := Prefilling]) (sy_decode y)"
      using owner_inv_enter [OF _ i] D(3) free by simp
    ultimately show ?thesis using gbatch by (simp add: gate_inv_def eq)
  qed
qed

text \<open>What is left to check of a step that ends with a broadcast.\<close>

definition awake_inv :: "gate_sys \<Rightarrow> bool" where
  "awake_inv y \<longleftrightarrow> count_inv (sy_gate y) \<and>
     slots_inv (sy_stop y) (sy_shut y) (gt_slots (sy_gate y)) (List.map wake_slot (sy_slots y))
       (fst ` set (batch_of (sy_decode y))) \<and>
     owner_inv (gt_busy (sy_gate y)) (sy_slots y) (sy_decode y) \<and>
     batch_inv (gt_slots (sy_gate y)) (sy_decode y) \<and>
     (sy_decode y = D_Exited \<longrightarrow> gt_stopping (sy_gate y)) \<and>
     (gt_stopping (sy_gate y) \<longrightarrow> sy_shut y \<and> all_returned y)"

lemma gate_inv_broadcast: "awake_inv y \<Longrightarrow> gate_inv (broadcast y)"
  by (simp add: awake_inv_def gate_inv_def broadcast_def owner_inv_wake batch_inv_wake)
     (auto simp: sleep_inv_def all_returned_def list_all_length)

lemma gate_inv_awake: "gate_inv y \<Longrightarrow> awake_inv y"
  by (auto simp: gate_inv_def awake_inv_def sleep_inv_def slots_inv_wake)

lemma set_pc_broadcast: "wake_slot p = p \<Longrightarrow> set_pc i p (broadcast y) = broadcast (set_pc i p y)"
  by (simp add: set_pc_def broadcast_def map_update)

lemma awake_slots_upd:
  assumes "slots_inv st sh ss ps b" "i < length ps \<Longrightarrow> slot_inv st sh s p (i \<in> b)"
  shows "slots_inv st sh (ss[i := s]) (List.map wake_slot (ps[i := p])) b"
  using slots_inv_wake [OF slots_inv_upd [OF assms]] by simp

text \<open>
  A call of \<^verbatim>\<open>server_prefill_enter\<close> announces itself and then makes a first pass of the wait loop.
\<close>

definition enter_begin :: "nat \<Rightarrow> gate_sys \<Rightarrow> gate_sys" where
  "enter_begin i y = broadcast (y\<lparr>sy_gate := (sy_gate y)\<lparr>gt_slots := (gt_slots (sy_gate y))
       [i := (gt_slots (sy_gate y) ! i)\<lparr>prefill_waiting := True\<rparr>]\<rparr>,
     sy_slots := (sy_slots y)[i := Prefill_Wait False], sy_bypass := (sy_bypass y)[i := 0]\<rparr>)"

lemma enter_begin_try: "server_prefill_enter i y = prefill_try i (enter_begin i y)"
  by (auto simp: server_prefill_enter_def prefill_try_def set_pc_def broadcast_def upd_slot_def
      enter_begin_def Let_def map_update)

lemma enter_begin_pc:
  "i < length (sy_slots y) \<Longrightarrow> i < length (sy_slots (enter_begin i y)) \<and>
     waits_prefill (sy_slots (enter_begin i y) ! i)"
  by (simp add: enter_begin_def broadcast_def)

lemma gate_inv_enter_begin:
  assumes inv: "gate_inv y" and i: "i < length (sy_slots y)" and p: "sy_slots y ! i = Idle"
  shows "gate_inv (enter_begin i y)"
proof -
  note D = gate_invD [OF inv] and S = gate_inv_slot [OF inv i]
  have ns: "\<not> gt_stopping (sy_gate y)" by (rule not_stopping [OF inv i]) (use p in auto)
  define s where "s = (gt_slots (sy_gate y) ! i)\<lparr>prefill_waiting := True\<rparr>"
  have "slot_inv (sy_stop y) (sy_shut y) s (Prefill_Wait False) (i \<in> fst ` set (batch_of (sy_decode y)))"
    using S(1) p by (auto simp: slot_inv_def s_def)
  from awake_slots_upd [OF D(2) this] show ?thesis
    using D(1,4,5) ns p i owner_inv_pc [OF D(3) i, of "Prefill_Wait False"]
      count_inv_slot [OF D(1), of s i] batch_inv_upd [OF D(4), of i s]
    unfolding enter_begin_def
    by (intro gate_inv_broadcast) (simp add: awake_inv_def s_def sleep_inv_def)
qed

lemma gate_inv_enter:
  assumes inv: "gate_inv y" and i: "i < length (sy_slots y)" and p: "sy_slots y ! i = Idle"
  shows "gate_inv (server_prefill_enter i y)"
  unfolding enter_begin_try
  using gate_inv_prefill_try [OF gate_inv_enter_begin [OF assms]] enter_begin_pc [OF i] by blast

lemma gate_inv_leave:
  assumes inv: "gate_inv y" and i: "i < length (sy_slots y)" and p: "sy_slots y ! i = Prefilling"
  shows "gate_inv (server_prefill_leave i y)"
proof -
  note D = gate_invD [OF inv] and S = gate_inv_slot [OF inv i]
  have ns: "\<not> gt_stopping (sy_gate y)" by (rule not_stopping [OF inv i]) (use p in auto)
  define y1 where "y1 = y\<lparr>sy_gate := (sy_gate y)\<lparr>gt_busy := False\<rparr>, sy_slots := (sy_slots y)[i := Idle]\<rparr>"
  have eq: "server_prefill_leave i y = broadcast y1"
    by (simp add: server_prefill_leave_def set_pc_broadcast) (simp add: set_pc_def y1_def)
  have "slot_inv (sy_stop y) (sy_shut y) (gt_slots (sy_gate y) ! i) Idle (i \<in> fst ` set (batch_of (sy_decode y)))"
    using S(1) p by (auto simp: slot_inv_def)
  from awake_slots_upd [OF D(2) this]
  have slots: "slots_inv (sy_stop y) (sy_shut y) (gt_slots (sy_gate y))
      (List.map wake_slot ((sy_slots y)[i := Idle])) (fst ` set (batch_of (sy_decode y)))" by simp
  have "Prefilling \<in> set (sy_slots y)" using i p by (metis nth_mem)
  then have run: "\<not> (\<exists>ms. sy_decode y = D_Running ms)" using D(3) by (auto simp: owner_inv_def)
  have "k = i" if "k < length (sy_slots y)" "sy_slots y ! k = Prefilling" for k
    using D(3) i p that by (auto simp: owner_inv_def)
  then have "Prefilling \<notin> set ((sy_slots y)[i := Idle])"
    using i by (auto simp: in_set_conv_nth nth_list_update split: if_splits)
  then have "owner_inv False ((sy_slots y)[i := Idle]) (sy_decode y)"
    using run unfolding owner_inv_def by (metis nth_mem)
  then show ?thesis
    unfolding eq using slots D(1,4,5) ns
    by (intro gate_inv_broadcast) (simp add: awake_inv_def y1_def sleep_inv_def count_inv_def)
qed

lemma gate_inv_generation:
  assumes inv: "gate_inv y"
  shows "gate_inv (server_generation_enter y)" "gate_inv (server_generation_leave y)"
  using gate_inv_awake [OF inv]
  by (auto simp: server_generation_enter_def server_generation_leave_def awake_inv_def count_inv_def
      all_returned_def intro!: gate_inv_broadcast)

subsubsection \<open>Tokens\<close>

definition answer_of :: "nat \<Rightarrow> gate_slot \<Rightarrow> nat \<times> int \<times> int \<times> string" where
  "answer_of i s = (let rc = (if decode_done s then decode_rc s else 1) in
     (i, decode_token s, rc,
      if rc = 0 then [] else if decode_err s \<noteq> [] then decode_err s else ''decode interrupted''))"

lemma eval_try_return:
  assumes "decode_done (gt_slots (sy_gate y) ! i) \<or> sy_stop y"
  shows "eval_try i y = y\<lparr>sy_gate := (sy_gate y)\<lparr>gt_slots := (gt_slots (sy_gate y))[i :=
      (gt_slots (sy_gate y) ! i)\<lparr>decode_done := False\<rparr>]\<rparr>, sy_slots := (sy_slots y)[i := Idle],
    sy_answers := sy_answers y @ [answer_of i (gt_slots (sy_gate y) ! i)]\<rparr>"
  using assms by (auto simp: eval_try_def answer_of_def set_pc_def upd_slot_def Let_def)

lemma gate_inv_eval_try:
  assumes inv: "gate_inv y" and i: "i < length (sy_slots y)" and p: "waits_eval (sy_slots y ! i)"
  shows "gate_inv (eval_try i y)"
proof -
  note D = gate_invD [OF inv] and S = gate_inv_slot [OF inv i]
  have ns: "\<not> gt_stopping (sy_gate y)" by (rule not_stopping [OF inv i]) (use p in auto)
  have np: "sy_slots y ! i \<noteq> Prefilling" using p by auto
  show ?thesis
  proof (cases "\<not> decode_done (gt_slots (sy_gate y) ! i) \<and> \<not> sy_stop y")
    case True
    then have eq: "eval_try i y = y\<lparr>sy_slots := (sy_slots y)[i := Eval_Wait True]\<rparr>"
      by (simp add: eval_try_def set_pc_def)
    have "slot_inv (sy_stop y) (sy_shut y) (gt_slots (sy_gate y) ! i) (Eval_Wait True)
        (i \<in> fst ` set (batch_of (sy_decode y)))"
      using S(1) p True by (cases "sy_slots y ! i") (auto simp: slot_inv_def)
    from slots_inv_pc [OF D(2) this]
    have "slots_inv (sy_stop y) (sy_shut y) (gt_slots (sy_gate y)) ((sy_slots y)[i := Eval_Wait True])
        (fst ` set (batch_of (sy_decode y)))" .
    moreover have "prefill_blocked (sy_gate y) k" if "\<not> sy_stop y"
      "k < length (sy_slots y)" "(sy_slots y)[i := Eval_Wait True] ! k = Prefill_Wait True" for k
      using D(5) that by (cases "k = i") (auto simp: sleep_inv_def)
    then have "sleep_inv (eval_try i y)"
      using D(5) ns unfolding eq by (simp add: sleep_inv_def)
    ultimately show ?thesis
      using owner_inv_pc [OF D(3) i np, of "Eval_Wait True"] D(1,4) by (simp add: gate_inv_def eq)
  next
    case False
    define s where "s = (gt_slots (sy_gate y) ! i)\<lparr>decode_done := False\<rparr>"
    define g where "g = (sy_gate y)\<lparr>gt_slots := (gt_slots (sy_gate y))[i := s]\<rparr>"
    have eq: "eval_try i y = y\<lparr>sy_gate := g, sy_slots := (sy_slots y)[i := Idle],
        sy_answers := sy_answers y @ [answer_of i (gt_slots (sy_gate y) ! i)]\<rparr>"
      using eval_try_return [of y i] False by (simp add: g_def s_def)
    have "slot_inv (sy_stop y) (sy_shut y) s Idle (i \<in> fst ` set (batch_of (sy_decode y)))"
      using S(1) p False by (cases "sy_slots y ! i") (auto simp: slot_inv_def s_def)
    from slots_inv_upd [OF D(2) this]
    have "slots_inv (sy_stop y) (sy_shut y) (gt_slots g) ((sy_slots y)[i := Idle])
        (fst ` set (batch_of (sy_decode y)))" by (simp add: g_def)
    moreover have block: "prefill_blocked g k = prefill_blocked (sy_gate y) k" for k
      by (rule prefill_blocked_cong) (simp_all add: g_def s_def map_waiting_upd)
    have "prefill_blocked g k" if "\<not> sy_stop y"
      "k < length (sy_slots y)" "(sy_slots y)[i := Idle] ! k = Prefill_Wait True" for k
      using D(5) that by (cases "k = i") (auto simp: sleep_inv_def block)
    then have "sleep_inv (eval_try i y)"
      using D(5) ns unfolding eq by (simp add: sleep_inv_def) (simp add: g_def)
    moreover have "count_inv g" unfolding g_def s_def by (rule count_inv_slot [OF D(1)]) simp
    moreover have "batch_inv (gt_slots g) (sy_decode y)"
      unfolding g_def s_def by (simp add: batch_inv_upd [OF D(4)])
    ultimately show ?thesis
      using owner_inv_pc [OF D(3) i np, of Idle] by (simp add: gate_inv_def eq) (simp add: g_def)
  qed
qed

definition eval_begin :: "nat \<Rightarrow> int \<Rightarrow> gate_sys \<Rightarrow> gate_sys" where
  "eval_begin i token y = broadcast (y\<lparr>sy_gate := (sy_gate y)\<lparr>gt_slots := (gt_slots (sy_gate y))
       [i := (gt_slots (sy_gate y) ! i)\<lparr>decode_token := token, decode_rc := 1, decode_err := [],
          decode_done := False, decode_pending := True\<rparr>],
       gt_pending := gt_pending (sy_gate y) + 1\<rparr>,
     sy_slots := (sy_slots y)[i := Eval_Wait False], sy_calls := sy_calls y @ [(i, token)]\<rparr>)"

lemma eval_begin_try:
  assumes "\<not> (decode_pending (gt_slots (sy_gate y) ! i) \<or> decode_in_flight (gt_slots (sy_gate y) ! i))"
  shows "server_eval_token i token y = eval_try i (eval_begin i token y)"
  using assms by (auto simp: server_eval_token_def eval_try_def set_pc_def broadcast_def upd_slot_def
        eval_begin_def Let_def map_update)

lemma eval_begin_pc:
  "i < length (sy_slots y) \<Longrightarrow> i < length (sy_slots (eval_begin i token y)) \<and>
     waits_eval (sy_slots (eval_begin i token y) ! i)"
  by (simp add: eval_begin_def broadcast_def)

lemma gate_inv_eval_begin:
  assumes inv: "gate_inv y" and i: "i < length (sy_slots y)" and p: "sy_slots y ! i = Idle"
    and no: "\<not> (decode_pending (gt_slots (sy_gate y) ! i) \<or> decode_in_flight (gt_slots (sy_gate y) ! i))"
  shows "gate_inv (eval_begin i token y)"
proof -
  note D = gate_invD [OF inv] and S = gate_inv_slot [OF inv i]
  have ns: "\<not> gt_stopping (sy_gate y)" by (rule not_stopping [OF inv i]) (use p in auto)
  define s where "s = (gt_slots (sy_gate y) ! i)\<lparr>decode_token := token, decode_rc := 1, decode_err := [],
    decode_done := False, decode_pending := True\<rparr>"
  define g where "g = (sy_gate y)\<lparr>gt_slots := (gt_slots (sy_gate y))[i := s],
    gt_pending := gt_pending (sy_gate y) + 1\<rparr>"
  have "slot_inv (sy_stop y) (sy_shut y) s (Eval_Wait False) (i \<in> fst ` set (batch_of (sy_decode y)))"
    using S(1) p no by (auto simp: slot_inv_def s_def)
  from awake_slots_upd [OF D(2) this]
  have slots: "slots_inv (sy_stop y) (sy_shut y) (gt_slots g) (List.map wake_slot ((sy_slots y)[i := Eval_Wait False]))
      (fst ` set (batch_of (sy_decode y)))" by (simp add: g_def)
  have "i \<notin> fst ` set (batch_of (sy_decode y))" using S(1) no by (auto simp: slot_inv_def)
  then have "batch_inv (gt_slots g) (sy_decode y)" using batch_inv_upd [OF D(4), of i s] by (simp add: g_def)
  moreover have "count_inv g"
    using D(1) npend_update [OF S(2), of s] no by (simp add: count_inv_def g_def s_def)
  ultimately have "awake_inv (y\<lparr>sy_gate := g, sy_slots := (sy_slots y)[i := Eval_Wait False], sy_calls := cs\<rparr>)"
    for cs
    using slots D(5) ns p i owner_inv_pc [OF D(3) i, of "Eval_Wait False"]
    by (simp add: awake_inv_def sleep_inv_def) (simp add: g_def)
  then show ?thesis unfolding eval_begin_def g_def s_def by (rule gate_inv_broadcast)
qed

lemma gate_inv_eval:
  assumes inv: "gate_inv y" and i: "i < length (sy_slots y)" and p: "sy_slots y ! i = Idle"
  shows "gate_inv (server_eval_token i token y)"
proof (cases "decode_pending (gt_slots (sy_gate y) ! i) \<or> decode_in_flight (gt_slots (sy_gate y) ! i)")
  case True
  with inv show ?thesis
    by (simp add: server_eval_token_def gate_inv_def sleep_inv_def all_returned_def)
next
  case False
  show ?thesis
    unfolding eval_begin_try [OF False]
    using gate_inv_eval_try [OF gate_inv_eval_begin [OF assms False]] eval_begin_pc [OF i] by blast
qed

lemma gate_inv_return:
  assumes inv: "gate_inv y" and i: "i < length (sy_slots y)" and p: "sy_slots y ! i = Idle"
  shows "gate_inv (set_pc i Returned y)"
proof -
  note D = gate_invD [OF inv] and S = gate_inv_slot [OF inv i]
  have ns: "\<not> gt_stopping (sy_gate y)" by (rule not_stopping [OF inv i]) (use p in auto)
  have "slot_inv (sy_stop y) (sy_shut y) (gt_slots (sy_gate y) ! i) Returned
      (i \<in> fst ` set (batch_of (sy_decode y)))"
    using S(1) p by (auto simp: slot_inv_def)
  from slots_inv_pc [OF D(2) this]
  have "slots_inv (sy_stop y) (sy_shut y) (gt_slots (sy_gate y)) ((sy_slots y)[i := Returned])
      (fst ` set (batch_of (sy_decode y)))" .
  moreover have "prefill_blocked (sy_gate y) k" if "\<not> sy_stop y"
    "k < length (sy_slots y)" "(sy_slots y)[i := Returned] ! k = Prefill_Wait True" for k
    using D(5) that by (cases "k = i") (auto simp: sleep_inv_def)
  then have "sleep_inv (set_pc i Returned y)"
    using D(5) ns by (simp add: sleep_inv_def set_pc_def)
  ultimately show ?thesis
    using owner_inv_pc [OF D(3) i, of Returned] p D(1,4) by (simp add: gate_inv_def set_pc_def)
qed

subsubsection \<open>The decode thread\<close>

lemma pending_items_fst: "fst ` set (pending_items ss) = {i. i < length ss \<and> decode_pending (ss ! i)}"
  by (force simp: pending_items_def)

lemma distinct_pending_items: "distinct (List.map fst (pending_items ss))"
  by (simp add: pending_items_def comp_def)

lemma owner_inv_decode:
  assumes "owner_inv busy ps d" "\<not> (\<exists>ms. d = D_Running ms)" "\<not> (\<exists>ms. d' = D_Running ms)"
  shows "owner_inv busy ps d'"
  using assms by (simp add: owner_inv_def)

text \<open>A decode thread that goes to sleep or ends, with the shared state as it was.\<close>

lemma gate_inv_decode_pc:
  assumes inv: "gate_inv y" and d: "batch_of (sy_decode y) = []" "\<not> (\<exists>ms. sy_decode y = D_Running ms)"
    and d': "batch_of d' = []" "\<not> (\<exists>ms. d' = D_Running ms)"
    and ok: "d' = D_Top True \<Longrightarrow> gt_pending (sy_gate y) = 0 \<and> \<not> gt_stopping (sy_gate y)"
      "d' = D_Busy True \<Longrightarrow> gt_busy (sy_gate y)" "d' = D_Exited \<Longrightarrow> gt_stopping (sy_gate y)"
  shows "gate_inv (y\<lparr>sy_decode := d'\<rparr>)"
proof -
  note D = gate_invD [OF inv]
  have "batch_inv (gt_slots (sy_gate y)) d'" using d' by (auto simp: batch_inv_def)
  then show ?thesis
    using D(1,2,5) owner_inv_decode [OF D(3) d(2) d'(2)] d(1) d'(1) ok
    by (simp add: gate_inv_def sleep_inv_def all_returned_def)
qed

lemma slot_inv_collect:
  assumes "slot_inv st sh s p False"
  shows "slot_inv st sh (collect_slot s) p (decode_pending s)"
  using assms by (auto simp: slot_inv_def collect_slot_def)

lemma gate_inv_decode_busy:
  assumes inv: "gate_inv y" and d: "batch_of (sy_decode y) = []" "\<not> (\<exists>ms. sy_decode y = D_Running ms)"
  shows "gate_inv (decode_busy y)"
proof (cases "gt_busy (sy_gate y)")
  case True
  then show ?thesis
    using gate_inv_decode_pc [OF inv d, of "D_Busy True"] by (simp add: decode_busy_def)
next
  case False
  note D = gate_invD [OF inv]
  define ss where "ss = gt_slots (sy_gate y)"
  have count: "gt_pending (sy_gate y) = int (npend ss)" using D(1) by (simp add: count_inv_def ss_def)
  show ?thesis
  proof (cases "pending_items ss = []")
    case True
    have "sy_gate y\<lparr>gt_slots := List.map collect_slot ss, gt_pending := 0\<rparr> = sy_gate y"
      using pending_items_Nil [OF True] count by (simp add: ss_def)
    then have "decode_busy y = y\<lparr>sy_decode := D_Top False\<rparr>"
      using False True count by (simp add: decode_busy_def decode_collect_eq ss_def [symmetric])
    then show ?thesis using gate_inv_decode_pc [OF inv d, of "D_Top False"] by simp
  next
    case some: False
    define g where "g = (sy_gate y)\<lparr>gt_slots := List.map collect_slot ss, gt_pending := 0, gt_busy := True\<rparr>"
    have eq: "decode_busy y = y\<lparr>sy_gate := g, sy_decode := D_Running (pending_items ss)\<rparr>"
      using False some count by (simp add: decode_busy_def decode_collect_eq ss_def [symmetric] g_def)
    have len: "length ss = length (sy_slots y)" using D(2) by (simp add: slots_inv_def ss_def)
    have "slot_inv (sy_stop y) (sy_shut y) (collect_slot (ss ! i)) (sy_slots y ! i)
        (i \<in> fst ` set (pending_items ss))" if "i < length ss" for i
      using D(2) slot_inv_collect that d(1) len by (simp add: slots_inv_def ss_def [symmetric] pending_items_fst)
    then have "slots_inv (sy_stop y) (sy_shut y) (gt_slots g) (sy_slots y) (fst ` set (pending_items ss))"
      using len by (simp add: slots_inv_def g_def)
    moreover have "owner_inv True (sy_slots y) (D_Running (pending_items ss))"
      using D(3) False by (auto simp: owner_inv_def)
    moreover have "batch_inv (gt_slots g) (D_Running (pending_items ss))"
      using distinct_pending_items [of ss] some by (auto simp: batch_inv_def g_def pending_items_def)
    moreover have "count_inv g"
      using D(1) by (simp add: count_inv_def g_def ss_def npend_map)
    moreover have "sleep_inv (decode_busy y)"
      using D(5) unfolding eq by (simp add: sleep_inv_def prefill_blocked_def all_returned_def g_def)
    ultimately show ?thesis by (simp add: gate_inv_def eq) (simp add: g_def)
  qed
qed

lemma gate_inv_decode_coalesce:
  assumes "gate_inv y" "batch_of (sy_decode y) = []" "\<not> (\<exists>ms. sy_decode y = D_Running ms)"
  shows "gate_inv (decode_coalesce y)"
  using gate_inv_decode_busy [OF assms] gate_inv_decode_pc [OF assms, of "D_Coalesce True"]
  by (simp add: decode_coalesce_def Let_def)

lemma gate_inv_decode_top:
  assumes "gate_inv y" "batch_of (sy_decode y) = []" "\<not> (\<exists>ms. sy_decode y = D_Running ms)"
  shows "gate_inv (decode_top y)"
  using gate_inv_decode_busy [OF assms] gate_inv_decode_coalesce [OF assms]
    gate_inv_decode_pc [OF assms, of "D_Top True"] gate_inv_decode_pc [OF assms, of D_Exited]
  by (simp add: decode_top_def Let_def)

lemma slot_inv_finish:
  assumes "slot_inv st sh s p b" "\<not> b \<longrightarrow> s' = s" "b \<longrightarrow> s' = finish_slot rc err s"
  shows "slot_inv st sh s' (wake_slot p) False"
  using assms by (cases b) (auto simp: slot_inv_def finish_slot_def)

lemma gate_inv_decode_return:
  assumes inv: "gate_inv y" and run: "sy_decode y = D_Running ms"
  shows "gate_inv (decode_return rc err y)"
proof -
  note D = gate_invD [OF inv]
  define ss where "ss = gt_slots (sy_gate y)"
  define ss' where "ss' = List.map (\<lambda>i. if i \<in> fst ` set ms then finish_slot rc err (ss ! i) else ss ! i)
    [0..<length ss]"
  define g where "g = (sy_gate y)\<lparr>gt_busy := False, gt_slots := ss'\<rparr>"
  have ms: "distinct (List.map fst ms)" "\<forall>i\<in>fst ` set ms. i < length ss"
    using D(4) run by (auto simp: batch_inv_def ss_def)
  have fin: "decode_finish ms rc err (sy_gate y) = g"
    using decode_finish_slots [of ms "sy_gate y" rc err] ms by (simp add: ss_def g_def ss'_def)
  have len: "length ss = length (sy_slots y)" using D(2) by (simp add: slots_inv_def ss_def)
  have "slot_inv (sy_stop y) (sy_shut y) (ss' ! i) (wake_slot (sy_slots y ! i)) False" if "i < length ss" for i
  proof -
    have "slot_inv (sy_stop y) (sy_shut y) (ss ! i) (sy_slots y ! i) (i \<in> fst ` set ms)"
      using D(2) that len run by (simp add: slots_inv_def ss_def)
    then show ?thesis by (rule slot_inv_finish [where rc = rc and err = err]) (use that in \<open>simp_all add: ss'_def\<close>)
  qed
  then have "slots_inv (sy_stop y) (sy_shut y) (gt_slots g) (List.map wake_slot (sy_slots y)) {}"
    using len by (simp add: slots_inv_def g_def ss'_def)
  moreover have "List.map decode_pending ss' = List.map decode_pending ss"
    by (intro nth_equalityI) (auto simp: ss'_def)
  then have "npend ss' = npend ss"
    by (simp add: npend_flags)
  then have "count_inv g" using D(1) by (simp add: count_inv_def g_def ss_def ss'_def)
  moreover have "owner_inv False (sy_slots y) (D_Top False)"
    using D(3) run by (auto simp: owner_inv_def)
  ultimately have "awake_inv (y\<lparr>sy_gate := g, sy_decode := D_Top False, sy_log := l\<rparr>)" for l
    using D(5) run by (simp add: awake_inv_def batch_inv_def sleep_inv_def all_returned_def) (simp add: g_def)
  then show ?thesis using run by (simp add: decode_return_def fin gate_inv_broadcast)
qed

subsubsection \<open>Every step\<close>

lemma slot_inv_signal: "slot_inv st sh s p b \<Longrightarrow> slot_inv True sh s p b"
  by (auto simp: slot_inv_def)

lemma slot_inv_shut:
  "slot_inv True sh s p b \<Longrightarrow> slot_inv True True (cancel_slot s) (wake_slot p) b"
  by (auto simp: slot_inv_def cancel_slot_def)

lemma gate_inv_signal: "gate_inv y \<Longrightarrow> gate_inv (y\<lparr>sy_stop := True\<rparr>)"
  by (auto simp: gate_inv_def slots_inv_def sleep_inv_def all_returned_def intro: slot_inv_signal)

lemma gate_inv_shut:
  assumes inv: "gate_inv y" and stop: "sy_stop y"
  shows "gate_inv (broadcast (y\<lparr>sy_gate := server_cancel_decode_waiters_locked (sy_gate y), sy_shut := True\<rparr>))"
proof -
  note D = gate_invD [OF inv]
  define g where "g = (sy_gate y)\<lparr>gt_slots := List.map cancel_slot (gt_slots (sy_gate y)), gt_pending := 0\<rparr>"
  have g: "server_cancel_decode_waiters_locked (sy_gate y) = g"
    using D(1) cancel_waiters by (simp add: count_inv_def g_def)
  have "slots_inv True True (gt_slots g) (List.map wake_slot (sy_slots y)) (fst ` set (batch_of (sy_decode y)))"
    using D(2) stop by (auto simp: slots_inv_def g_def intro: slot_inv_shut)
  moreover have "decode_token (cancel_slot s) = decode_token s" for s by (simp add: cancel_slot_def)
  then have "batch_inv (gt_slots g) (sy_decode y)"
    using D(4) by (fastforce simp: batch_inv_def g_def)
  moreover have "count_inv g" using D(1) by (simp add: count_inv_def g_def npend_map)
  ultimately have "awake_inv (y\<lparr>sy_gate := g, sy_shut := True\<rparr>)"
    using D(3,5) stop by (simp add: awake_inv_def sleep_inv_def all_returned_def) (simp add: g_def)
  then show ?thesis unfolding g by (rule gate_inv_broadcast)
qed

lemma gate_inv_stop_model:
  assumes inv: "gate_inv y" and "sy_shut y" "all_returned y"
  shows "gate_inv (broadcast (y\<lparr>sy_gate := (sy_gate y)\<lparr>gt_stopping := True\<rparr>\<rparr>))"
  using gate_inv_awake [OF inv] assms(2,3)
  by (intro gate_inv_broadcast) (simp add: awake_inv_def count_inv_def all_returned_def)

lemma gate_inv_spur_slot:
  assumes inv: "gate_inv y" and i: "i < length (sy_slots y)"
  shows "gate_inv (set_pc i (wake_slot (sy_slots y ! i)) y)"
proof -
  note D = gate_invD [OF inv] and S = gate_inv_slot [OF inv i]
  have "slots_inv (sy_stop y) (sy_shut y) (gt_slots (sy_gate y)) ((sy_slots y)[i := wake_slot (sy_slots y ! i)])
      (fst ` set (batch_of (sy_decode y)))"
    using slots_inv_pc [OF D(2) slot_inv_wake [OF S(1)]] .
  moreover have "owner_inv (gt_busy (sy_gate y)) ((sy_slots y)[i := wake_slot (sy_slots y ! i)]) (sy_decode y)"
  proof (cases "sy_slots y ! i = Prefilling")
    case True
    then have "(sy_slots y)[i := wake_slot (sy_slots y ! i)] = sy_slots y"
      by (metis wake_slot_simps(3) list_update_id)
    with D(3) show ?thesis by simp
  next
    case False
    then show ?thesis using owner_inv_pc [OF D(3) i False] by simp
  qed
  moreover have "sleep_inv (set_pc i (wake_slot (sy_slots y ! i)) y)"
    using D(5) by (auto simp: sleep_inv_def set_pc_def all_returned_def list_all_length
        nth_list_update [OF i])
  ultimately show ?thesis using D(1,4) by (simp add: gate_inv_def set_pc_def)
qed

lemma gate_inv_spur_decode: "gate_inv y \<Longrightarrow> gate_inv (y\<lparr>sy_decode := wake_decode (sy_decode y)\<rparr>)"
  by (auto simp: gate_inv_def batch_inv_wake owner_inv_def sleep_inv_def all_returned_def)

lemma gate_inv_step: "gate_step y e y' \<Longrightarrow> gate_inv y \<Longrightarrow> gate_inv y'"
  by (induction rule: gate_step.induct)
     (simp_all add: gate_inv_enter gate_inv_prefill_try gate_inv_leave gate_inv_eval gate_inv_eval_try
        gate_inv_return gate_inv_generation gate_inv_decode_top gate_inv_decode_coalesce
        gate_inv_decode_busy gate_inv_decode_return gate_inv_signal gate_inv_shut gate_inv_stop_model
        gate_inv_spur_slot gate_inv_spur_decode)

lemma gate_inv_start: "0 < n \<Longrightarrow> gate_inv (gate_start n c)"
  by (auto simp: gate_inv_def gate_start_def count_inv_def npend_def gate_slot0_def slots_inv_def slot_inv_def
        owner_inv_def batch_inv_def sleep_inv_def)

lemma gate_inv_reach: "gate_reach n c y \<Longrightarrow> 0 < n \<Longrightarrow> gate_inv y"
  by (induction rule: gate_reach.induct) (auto intro: gate_inv_start gate_inv_step)

end
