(* ===== verification/Server_Gate_Props.thy ===== *)
theory Server_Gate_Props
  imports Server_Gate_Inv
begin

text \<open>
  What the model gate promises: one user of the model at a time, a result for every token in order, no
  session passed over more than once by each other session, and every call that was made returns.
\<close>

subsection \<open>One owner\<close>

text \<open>
  C13.  In every reachable state at most one session evaluates a prompt, none does while a batch is being
  decoded, \<^verbatim>\<open>model_busy\<close> says exactly whether one of the two happens, \<^verbatim>\<open>s->decode_pending\<close> is the number of
  slots with a pending token, and a slot is in flight exactly when the running batch has its token, which is
  the one the slot asked for.
\<close>

theorem model_has_one_user:
  assumes "0 < n" "gate_reach n coalesce y"
  shows "(\<forall>i < length (sy_slots y). \<forall>j < length (sy_slots y).
      sy_slots y ! i = Prefilling \<longrightarrow> sy_slots y ! j = Prefilling \<longrightarrow> i = j) \<and>
    (batch_of (sy_decode y) \<noteq> [] \<longrightarrow> Prefilling \<notin> set (sy_slots y)) \<and>
    (gt_busy (sy_gate y) \<longleftrightarrow> Prefilling \<in> set (sy_slots y) \<or> (\<exists>ms. sy_decode y = D_Running ms)) \<and>
    gt_pending (sy_gate y) = int (length (List.filter decode_pending (gt_slots (sy_gate y)))) \<and>
    (\<forall>i < length (sy_slots y). decode_in_flight (gt_slots (sy_gate y) ! i) \<longleftrightarrow>
       (i, decode_token (gt_slots (sy_gate y) ! i)) \<in> set (batch_of (sy_decode y)))"
proof -
  note inv = gate_inv_reach [OF assms(2,1)]
  note D = gate_invD [OF inv]
  have "decode_in_flight (gt_slots (sy_gate y) ! i) \<longleftrightarrow>
      (i, decode_token (gt_slots (sy_gate y) ! i)) \<in> set (batch_of (sy_decode y))"
    if i: "i < length (sy_slots y)" for i
    using gate_inv_slot(1) [OF inv i] D(4) by (force simp: slot_inv_def batch_inv_def)
  moreover have "batch_of d \<noteq> [] \<Longrightarrow> \<exists>ms. d = D_Running ms" for d by (cases d) auto
  ultimately show ?thesis using D(1,3) unfolding owner_inv_def count_inv_def npend_def by blast
qed

text \<open>Two sessions: the first evaluates its prompt, the second waits for its turn.\<close>

definition two_prompts :: gate_sys where
  "two_prompts = server_prefill_enter 1 (server_prefill_enter 0 (gate_start 2 False))"

lemma two_prompts_reach: "gate_reach 2 False two_prompts"
proof -
  have "gate_reach 2 False (server_prefill_enter 0 (gate_start 2 False))"
    by (rule reach_step [OF reach_start gate_step.enter]) code_simp+
  then show ?thesis unfolding two_prompts_def
    by (rule reach_step [OF _ gate_step.enter]) code_simp+
qed

lemma two_prompts_pcs: "sy_slots two_prompts = [Prefilling, Prefill_Wait True]" "gt_busy (sy_gate two_prompts)"
  by code_simp+

theorem model_has_one_user_witness:
  "sy_slots two_prompts = [Prefilling, Prefill_Wait True] \<and> \<not> (\<exists>ms. sy_decode two_prompts = D_Running ms \<and> ms \<noteq> [])"
  using model_has_one_user [OF _ two_prompts_reach] two_prompts_pcs by auto

subsection \<open>Every call returns\<close>

definition slot_todo :: "slot_pc \<Rightarrow> gate_slot \<Rightarrow> nat" where
  "slot_todo p s = (case p of Prefill_Wait a \<Rightarrow> 2 | Prefilling \<Rightarrow> 1 | Eval_Wait a \<Rightarrow> 1 | _ \<Rightarrow> 0) +
     (if decode_pending s then 2 else 0) + (if decode_in_flight s then 1 else 0)"

definition todo :: "gate_sys \<Rightarrow> nat" where
  "todo y = (\<Sum>i < length (sy_slots y). slot_todo (sy_slots y ! i) (gt_slots (sy_gate y) ! i)) +
     (if sy_shut y then 0 else 1)"

definition slot_awake :: "slot_pc \<Rightarrow> nat" where
  "slot_awake p = (if p = Prefill_Wait False \<or> p = Eval_Wait False then 1 else 0)"

text \<open>How many passes the decode thread can make before it sleeps or starts a batch.\<close>

fun decode_awake :: "bool \<Rightarrow> decode_pc \<Rightarrow> nat" where
  "decode_awake pend (D_Top a) = (if a then 0 else if pend then 3 else 1)"
| "decode_awake pend (D_Coalesce a) = (if a then 2 else 3)"
| "decode_awake pend (D_Busy a) = (if a then 1 else 3)"
| "decode_awake pend d = 0"

definition awake :: "gate_sys \<Rightarrow> nat" where
  "awake y = (\<Sum>i < length (sy_slots y). slot_awake (sy_slots y ! i)) +
     decode_awake (0 < gt_pending (sy_gate y)) (sy_decode y)"

text \<open>A bound on the steps of the threads until no thread can move.\<close>

definition gate_work :: "gate_sys \<Rightarrow> nat" where
  "gate_work y = (length (sy_slots y) + 4) * todo y + awake y"

lemma decode_awake_le: "decode_awake b d \<le> 3"
  by (cases d) auto

lemma awake_le: "awake y \<le> length (sy_slots y) + 3"
proof -
  have "(\<Sum>i < length (sy_slots y). slot_awake (sy_slots y ! i)) \<le> (\<Sum>i < length (sy_slots y). 1)"
    by (intro sum_mono) (simp add: slot_awake_def)
  then show ?thesis using decode_awake_le by (simp add: awake_def add_mono)
qed

lemma gate_work_todo:
  assumes "length (sy_slots y') = length (sy_slots y)" "todo y' < todo y"
  shows "gate_work y' < gate_work y"
proof -
  have "(length (sy_slots y) + 4) * Suc (todo y') \<le> (length (sy_slots y) + 4) * todo y"
    using assms(2) by (intro mult_le_mono2) simp
  then show ?thesis using awake_le [of y'] assms(1) by (simp add: gate_work_def)
qed

lemma gate_work_awake:
  assumes "length (sy_slots y') = length (sy_slots y)" "todo y' = todo y" "awake y' < awake y"
  shows "gate_work y' < gate_work y"
  using assms by (simp add: gate_work_def)

text \<open>A step that brings one slot forward and no slot back.\<close>

lemma todo_less:
  assumes "length (sy_slots y') = length (sy_slots y)" "sy_shut y' = sy_shut y"
    and "\<And>k. k < length (sy_slots y) \<Longrightarrow>
      slot_todo (sy_slots y' ! k) (gt_slots (sy_gate y') ! k) \<le> slot_todo (sy_slots y ! k) (gt_slots (sy_gate y) ! k)"
    and "i < length (sy_slots y)"
      "slot_todo (sy_slots y' ! i) (gt_slots (sy_gate y') ! i) < slot_todo (sy_slots y ! i) (gt_slots (sy_gate y) ! i)"
  shows "todo y' < todo y"
proof -
  have "(\<Sum>k < length (sy_slots y). slot_todo (sy_slots y' ! k) (gt_slots (sy_gate y') ! k)) <
      (\<Sum>k < length (sy_slots y). slot_todo (sy_slots y ! k) (gt_slots (sy_gate y) ! k))"
    using assms(3-5) by (intro sum_strict_mono_ex1) auto
  then show ?thesis using assms(1,2) by (simp add: todo_def)
qed

lemma todo_same:
  assumes "length (sy_slots y') = length (sy_slots y)" "sy_shut y' = sy_shut y"
    and "\<And>k. k < length (sy_slots y) \<Longrightarrow>
      slot_todo (sy_slots y' ! k) (gt_slots (sy_gate y') ! k) = slot_todo (sy_slots y ! k) (gt_slots (sy_gate y) ! k)"
  shows "todo y' = todo y"
proof -
  have "(\<Sum>k < length (sy_slots y). slot_todo (sy_slots y' ! k) (gt_slots (sy_gate y') ! k)) =
      (\<Sum>k < length (sy_slots y). slot_todo (sy_slots y ! k) (gt_slots (sy_gate y) ! k))"
    using assms(3) by (intro sum.cong) auto
  then show ?thesis using assms(1,2) by (simp add: todo_def)
qed

lemma slot_todo_wake [simp]: "slot_todo (wake_slot p) s = slot_todo p s"
  by (cases p) (simp_all add: slot_todo_def)

lemma broadcast_fields [simp]:
  "sy_gate (broadcast y) = sy_gate y" "sy_stop (broadcast y) = sy_stop y" "sy_shut (broadcast y) = sy_shut y"
  "length (sy_slots (broadcast y)) = length (sy_slots y)" "sy_calls (broadcast y) = sy_calls y"
  "sy_log (broadcast y) = sy_log y" "sy_answers (broadcast y) = sy_answers y"
  "sy_bypass (broadcast y) = sy_bypass y" "batch_of (sy_decode (broadcast y)) = batch_of (sy_decode y)"
  by (simp_all add: broadcast_def)

lemma broadcast_pc [simp]:
  "k < length (sy_slots y) \<Longrightarrow> sy_slots (broadcast y) ! k = wake_slot (sy_slots y ! k)"
  by (simp add: broadcast_def)

text \<open>The three ways a pass of \<^verbatim>\<open>server_prefill_enter\<close> can end.\<close>

lemma prefill_try_cases:
  obtains (stop) "sy_stop y" "prefill_try i y = y\<lparr>sy_gate := (sy_gate y)\<lparr>gt_slots := (gt_slots (sy_gate y))
        [i := (gt_slots (sy_gate y) ! i)\<lparr>prefill_waiting := False\<rparr>]\<rparr>, sy_slots := (sy_slots y)[i := Idle]\<rparr>"
  | (block) "\<not> sy_stop y" "prefill_blocked (sy_gate y) i"
      "prefill_try i y = y\<lparr>sy_slots := (sy_slots y)[i := Prefill_Wait True]\<rparr>"
  | (enter) "\<not> sy_stop y" "\<not> prefill_blocked (sy_gate y) i"
      "prefill_try i y = y\<lparr>sy_gate := (sy_gate y)\<lparr>gt_slots := (gt_slots (sy_gate y))
          [i := (gt_slots (sy_gate y) ! i)\<lparr>prefill_waiting := False\<rparr>], gt_last := i, gt_busy := True\<rparr>,
        sy_slots := (sy_slots y)[i := Prefilling], sy_bypass := count_bypass i (sy_bypass y)\<rparr>"
  by (cases "sy_stop y"; cases "prefill_blocked (sy_gate y) i")
     (auto simp: prefill_try_def set_pc_def upd_slot_def Let_def)

text \<open>Changing one slot and its thread.\<close>

lemma slot_todo_upd:
  assumes "i < length ps" "i < length ss" "slot_todo p s < slot_todo (ps ! i) (ss ! i)"
  shows "slot_todo (ps[i := p] ! k) (ss[i := s] ! k) \<le> slot_todo (ps ! k) (ss ! k)"
    and "slot_todo (ps[i := p] ! i) (ss[i := s] ! i) < slot_todo (ps ! i) (ss ! i)"
  using assms by (cases "k = i"; simp)+

lemma todo_slot_less:
  assumes "y' = y\<lparr>sy_gate := g\<lparr>gt_slots := (gt_slots (sy_gate y))[i := s]\<rparr>, sy_slots := (sy_slots y)[i := p],
      sy_answers := a, sy_bypass := b\<rparr>"
    and "i < length (sy_slots y)" "i < length (gt_slots (sy_gate y))"
    and "slot_todo p s < slot_todo (sy_slots y ! i) (gt_slots (sy_gate y) ! i)"
  shows "gate_work y' < gate_work y"
proof (rule gate_work_todo)
  show len: "length (sy_slots y') = length (sy_slots y)" by (simp add: assms(1))
  show "todo y' < todo y"
    by (rule todo_less [OF len, of i]) (use assms slot_todo_upd [OF assms(2-4)] in simp_all)
qed

lemma awake_slot_less:
  assumes "y' = y\<lparr>sy_slots := (sy_slots y)[i := p]\<rparr>" "i < length (sy_slots y)"
    and "slot_todo p (gt_slots (sy_gate y) ! i) = slot_todo (sy_slots y ! i) (gt_slots (sy_gate y) ! i)"
    and "slot_awake p < slot_awake (sy_slots y ! i)"
  shows "gate_work y' < gate_work y"
proof (rule gate_work_awake)
  show len: "length (sy_slots y') = length (sy_slots y)" by (simp add: assms(1))
  show "todo y' = todo y"
    by (rule todo_same [OF len]) (use assms in \<open>auto simp: nth_list_update\<close>)
  have "(\<Sum>k < length (sy_slots y). slot_awake (sy_slots y' ! k)) < (\<Sum>k < length (sy_slots y). slot_awake (sy_slots y ! k))"
    using assms by (intro sum_strict_mono_ex1) (auto simp: nth_list_update)
  then show "awake y' < awake y" by (simp add: awake_def assms(1))
qed

lemma prefill_try_work:
  assumes inv: "gate_inv y" and i: "i < length (sy_slots y)" and p: "sy_slots y ! i = Prefill_Wait False"
  shows "gate_work (prefill_try i y) < gate_work y"
proof -
  note S = gate_inv_slot [OF inv i]
  define s where "s = (gt_slots (sy_gate y) ! i)\<lparr>prefill_waiting := False\<rparr>"
  show ?thesis
  proof (cases rule: prefill_try_cases [where y = y and i = i])
    case stop
    show ?thesis
      by (rule todo_slot_less [OF _ i S(2), where g = "sy_gate y" and s = s and p = Idle
            and a = "sy_answers y" and b = "sy_bypass y"])
         (use stop p in \<open>simp_all add: s_def slot_todo_def\<close>)
  next
    case block
    then show ?thesis
      using awake_slot_less [OF block(3) i] p by (simp add: slot_todo_def slot_awake_def)
  next
    case enter
    show ?thesis
      by (rule todo_slot_less [OF _ i S(2), where g = "(sy_gate y)\<lparr>gt_last := i, gt_busy := True\<rparr>" and s = s
            and p = Prefilling and a = "sy_answers y" and b = "count_bypass i (sy_bypass y)"])
         (use enter p in \<open>simp_all add: s_def slot_todo_def\<close>)
  qed
qed

lemma eval_try_work:
  assumes inv: "gate_inv y" and i: "i < length (sy_slots y)" and p: "sy_slots y ! i = Eval_Wait False"
  shows "gate_work (eval_try i y) < gate_work y"
proof -
  note S = gate_inv_slot [OF inv i]
  show ?thesis
  proof (cases "decode_done (gt_slots (sy_gate y) ! i) \<or> sy_stop y")
    case True
    show ?thesis
      by (rule todo_slot_less [OF _ i S(2), where g = "sy_gate y" and p = Idle
            and s = "(gt_slots (sy_gate y) ! i)\<lparr>decode_done := False\<rparr>"
            and a = "sy_answers y @ [answer_of i (gt_slots (sy_gate y) ! i)]" and b = "sy_bypass y"])
         (use p eval_try_return [OF True] in \<open>simp_all add: slot_todo_def\<close>)
  next
    case False
    then have "eval_try i y = y\<lparr>sy_slots := (sy_slots y)[i := Eval_Wait True]\<rparr>"
      by (simp add: eval_try_def set_pc_def)
    then show ?thesis
      using awake_slot_less [OF _ i, of "eval_try i y" "Eval_Wait True"] p
      by (simp add: slot_todo_def slot_awake_def)
  qed
qed

lemma todo_leave [simp]: "slot_todo Idle s < slot_todo Prefilling s" "slot_todo Idle s \<le> slot_todo Prefilling s"
  by (simp_all add: slot_todo_def)

lemma leave_work:
  assumes inv: "gate_inv y" and i: "i < length (sy_slots y)" and p: "sy_slots y ! i = Prefilling"
  shows "gate_work (server_prefill_leave i y) < gate_work y"
proof (rule gate_work_todo)
  have eq: "server_prefill_leave i y =
      broadcast (y\<lparr>sy_gate := (sy_gate y)\<lparr>gt_busy := False\<rparr>, sy_slots := (sy_slots y)[i := Idle]\<rparr>)"
    by (simp add: server_prefill_leave_def set_pc_broadcast) (simp add: set_pc_def)
  show "length (sy_slots (server_prefill_leave i y)) = length (sy_slots y)" by (simp add: eq)
  show "todo (server_prefill_leave i y) < todo y"
    by (rule todo_less [of _ _ i]) (use p i in \<open>auto simp: eq nth_list_update todo_leave\<close>)
qed

text \<open>The three ways the wait for the model can end.\<close>

lemma decode_busy_cases:
  assumes inv: "gate_inv y"
  obtains (busy) "decode_busy y = y\<lparr>sy_decode := D_Busy True\<rparr>"
  | (none) "gt_pending (sy_gate y) = 0" "decode_busy y = y\<lparr>sy_decode := D_Top False\<rparr>"
  | (run) "pending_items (gt_slots (sy_gate y)) \<noteq> []"
      "decode_busy y = y\<lparr>sy_gate := (sy_gate y)\<lparr>gt_slots := List.map collect_slot (gt_slots (sy_gate y)),
          gt_pending := 0, gt_busy := True\<rparr>, sy_decode := D_Running (pending_items (gt_slots (sy_gate y)))\<rparr>"
proof -
  define ss where "ss = gt_slots (sy_gate y)"
  have count: "gt_pending (sy_gate y) = int (npend ss)"
    using gate_invD(1) [OF inv] by (simp add: count_inv_def ss_def)
  show ?thesis
  proof (cases "gt_busy (sy_gate y)")
    case True
    then show ?thesis by (intro busy) (simp add: decode_busy_def)
  next
    case free: False
    show ?thesis
    proof (cases "pending_items ss = []")
      case True
      have "sy_gate y\<lparr>gt_slots := List.map collect_slot ss, gt_pending := 0\<rparr> = sy_gate y"
        using pending_items_Nil [OF True] count by (simp add: ss_def)
      then show ?thesis
        using free True count pending_items_Nil(1) [OF True]
        by (intro none) (simp_all add: decode_busy_def decode_collect_eq ss_def [symmetric])
    next
      case False
      with free count show ?thesis
        by (intro run) (simp_all add: decode_busy_def decode_collect_eq ss_def [symmetric])
    qed
  qed
qed

lemma decode_pc_work:
  assumes "y' = y\<lparr>sy_decode := d\<rparr>"
    and "decode_awake (0 < gt_pending (sy_gate y)) d < decode_awake (0 < gt_pending (sy_gate y)) (sy_decode y)"
  shows "gate_work y' < gate_work y"
  using assms by (simp add: gate_work_def todo_def awake_def)

lemma decode_busy_work:
  assumes inv: "gate_inv y"
    and d: "(\<exists>a. sy_decode y = D_Coalesce a) \<or> sy_decode y = D_Busy False \<or>
      (sy_decode y = D_Top False \<and> 0 < gt_pending (sy_gate y))"
  shows "gate_work (decode_busy y) < gate_work y"
proof (cases rule: decode_busy_cases [OF inv])
  case 1
  then show ?thesis using d by (intro decode_pc_work [where y = y and d = "D_Busy True"]) auto
next
  case 2
  then show ?thesis using d by (intro decode_pc_work [where y = y and d = "D_Top False"]) auto
next
  case 3
  obtain i where i: "i < length (gt_slots (sy_gate y))" "decode_pending (gt_slots (sy_gate y) ! i)"
    using 3(1) by (auto simp: pending_items_def filter_empty_conv)
  have len: "length (gt_slots (sy_gate y)) = length (sy_slots y)"
    using gate_invD(2) [OF inv] by (simp add: slots_inv_def)
  have less: "slot_todo p (collect_slot s) \<le> slot_todo p s"
    "decode_pending s \<Longrightarrow> \<not> decode_in_flight s \<Longrightarrow> slot_todo p (collect_slot s) < slot_todo p s" for p s
    by (simp_all add: slot_todo_def collect_slot_def)
  have "\<not> decode_in_flight (gt_slots (sy_gate y) ! i)"
    using gate_inv_slot(1) [OF inv, of i] i len by (auto simp: slot_inv_def)
  then show ?thesis
    using i len by (intro gate_work_todo todo_less [of _ _ i]) (simp_all add: 3(2) less)
qed

lemma decode_coalesce_work:
  assumes inv: "gate_inv y"
    and d: "sy_decode y = D_Coalesce False \<or> (sy_decode y = D_Top False \<and> 0 < gt_pending (sy_gate y))"
  shows "gate_work (decode_coalesce y) < gate_work y"
  using decode_busy_work [OF inv] decode_pc_work [where y' = "y\<lparr>sy_decode := D_Coalesce True\<rparr>" and y = y and d = "D_Coalesce True"] d
  by (auto simp: decode_coalesce_def Let_def)

lemma decode_top_work:
  assumes inv: "gate_inv y" and d: "sy_decode y = D_Top False"
  shows "gate_work (decode_top y) < gate_work y"
proof (cases "gt_pending (sy_gate y) = 0")
  case True
  then show ?thesis
    using decode_pc_work [where y' = "y\<lparr>sy_decode := D_Top True\<rparr>" and y = y and d = "D_Top True"]
      decode_pc_work [where y' = "y\<lparr>sy_decode := D_Exited\<rparr>" and y = y and d = D_Exited] d
    by (simp add: decode_top_def Let_def)
next
  case False
  then have "0 < gt_pending (sy_gate y)" using gate_invD(1) [OF inv] by (simp add: count_inv_def)
  then show ?thesis
    using decode_busy_work [OF inv] decode_coalesce_work [OF inv] d by (simp add: decode_top_def Let_def)
qed

lemma decode_return_eq:
  assumes inv: "gate_inv y" and run: "sy_decode y = D_Running ms"
  shows "decode_return rc err y = broadcast (y\<lparr>sy_gate := (sy_gate y)\<lparr>gt_busy := False, gt_slots := List.map
      (\<lambda>i. if i \<in> fst ` set ms then finish_slot rc err (gt_slots (sy_gate y) ! i) else gt_slots (sy_gate y) ! i)
      [0..<length (gt_slots (sy_gate y))]\<rparr>, sy_decode := D_Top False,
    sy_log := sy_log y @ List.map (\<lambda>(i, tok). (i, tok, rc, if rc \<noteq> 0 then batch_error err else [])) ms\<rparr>)"
proof -
  have "distinct (List.map fst ms)" "\<forall>i\<in>fst ` set ms. i < length (gt_slots (sy_gate y))"
    using gate_invD(4) [OF inv] run by (auto simp: batch_inv_def)
  then show ?thesis using decode_finish_slots [of ms "sy_gate y" rc err] run
    by (simp add: decode_return_def)
qed

lemma decode_return_work:
  assumes inv: "gate_inv y" and run: "sy_decode y = D_Running ms"
  shows "gate_work (decode_return rc err y) < gate_work y"
proof (rule gate_work_todo)
  note eq = decode_return_eq [OF inv run, of rc err]
  have ms: "ms \<noteq> []" "\<forall>i\<in>fst ` set ms. i < length (gt_slots (sy_gate y))"
    using gate_invD(4) [OF inv] run by (auto simp: batch_inv_def)
  have len: "length (gt_slots (sy_gate y)) = length (sy_slots y)"
    using gate_invD(2) [OF inv] by (simp add: slots_inv_def)
  obtain i where i: "i \<in> fst ` set ms" using ms(1) by (cases ms) auto
  have fin: "slot_todo p (finish_slot rc err s) \<le> slot_todo p s"
    "decode_in_flight s \<Longrightarrow> slot_todo p (finish_slot rc err s) < slot_todo p s" for p s
    by (simp_all add: slot_todo_def finish_slot_def)
  have il: "i < length (sy_slots y)" using i ms(2) len by auto
  then have flight: "decode_in_flight (gt_slots (sy_gate y) ! i)"
    using gate_inv_slot(1) [OF inv, of i] i run by (simp add: slot_inv_def)
  show "length (sy_slots (decode_return rc err y)) = length (sy_slots y)" by (simp add: eq)
  show "todo (decode_return rc err y) < todo y"
    by (rule todo_less [of _ _ i]) (use il i len fin flight in \<open>simp_all add: eq\<close>)
qed

lemma shut_work:
  assumes inv: "gate_inv y" and "\<not> sy_shut y"
  shows "gate_work (broadcast (y\<lparr>sy_gate := server_cancel_decode_waiters_locked (sy_gate y), sy_shut := True\<rparr>))
    < gate_work y"
proof (rule gate_work_todo)
  have g: "server_cancel_decode_waiters_locked (sy_gate y) =
      (sy_gate y)\<lparr>gt_slots := List.map cancel_slot (gt_slots (sy_gate y)), gt_pending := 0\<rparr>"
    using gate_invD(1) [OF inv] cancel_waiters by (simp add: count_inv_def)
  have len: "length (gt_slots (sy_gate y)) = length (sy_slots y)"
    using gate_invD(2) [OF inv] by (simp add: slots_inv_def)
  have "slot_todo p (cancel_slot s) \<le> slot_todo p s" for p s
    by (simp add: slot_todo_def cancel_slot_def)
  then have "(\<Sum>i < length (sy_slots y). slot_todo (sy_slots y ! i) (cancel_slot (gt_slots (sy_gate y) ! i))) \<le>
      (\<Sum>i < length (sy_slots y). slot_todo (sy_slots y ! i) (gt_slots (sy_gate y) ! i))"
    by (intro sum_mono)
  then show "todo (broadcast (y\<lparr>sy_gate := server_cancel_decode_waiters_locked (sy_gate y), sy_shut := True\<rparr>)) < todo y"
    using assms(2) len by (simp add: todo_def g)
qed simp

text \<open>
  The steps the threads inside the gate make on their own: a waiting thread looks again, a session finishes
  its prompt, the decode thread goes on, its timed wait ends, a batch returns, and \<^verbatim>\<open>main\<close> cancels the waiters
  after a stop.
\<close>

fun thread_event :: "gate_event \<Rightarrow> bool" where
  "thread_event (Retry i) = True"
| "thread_event (Leave i) = True"
| "thread_event Decode = True"
| "thread_event Timeout = True"
| "thread_event (Batch rc err) = True"
| "thread_event Shut = True"
| "thread_event e = False"

inductive thread_run :: "gate_sys \<Rightarrow> gate_event list \<Rightarrow> gate_sys \<Rightarrow> bool" where
  run_done: "thread_run y [] y"
| run_step: "gate_step y e y' \<Longrightarrow> thread_event e \<Longrightarrow> thread_run y' es y'' \<Longrightarrow> thread_run y (e # es) y''"

lemma thread_step_work: "gate_step y e y' \<Longrightarrow> thread_event e \<Longrightarrow> gate_inv y \<Longrightarrow> gate_work y' < gate_work y"
proof (induction rule: gate_step.induct)
  case (decode_coalesce y)
  then show ?case by (intro decode_coalesce_work) auto
next
  case (timeout y)
  then show ?case by (intro decode_busy_work) auto
next
  case (decode_busy y)
  then show ?case by (intro decode_busy_work) auto
qed (simp_all add: prefill_try_work eval_try_work leave_work decode_top_work decode_return_work shut_work)

lemma thread_run_work: "thread_run y es y' \<Longrightarrow> gate_inv y \<Longrightarrow> gate_inv y' \<and> length es + gate_work y' \<le> gate_work y"
proof (induction rule: thread_run.induct)
  case (run_step y e y' es y'')
  then show ?case using thread_step_work [of y e y'] gate_inv_step [of y e y'] by fastforce
qed simp

lemma slot_pc_cases:
  obtains (idle) "p = Idle" | (returned) "p = Returned" | (prefilling) "p = Prefilling"
  | (awake) "p = Prefill_Wait False \<or> p = Eval_Wait False" | (prefill) "p = Prefill_Wait True" | (eval) "p = Eval_Wait True"
  by (cases p) (metis (full_types))+

text \<open>When none of these steps is possible, no session is inside the gate.\<close>

lemma stuck_all_out:
  assumes inv: "gate_inv y" and stuck: "\<And>e y'. gate_step y e y' \<Longrightarrow> \<not> thread_event e" and i: "i < length (sy_slots y)"
  shows "sy_slots y ! i \<in> {Idle, Returned}"
proof -
  note D = gate_invD [OF inv]
  have moving: "sy_slots y ! k \<noteq> Prefilling" "sy_slots y ! k \<noteq> Prefill_Wait False" "sy_slots y ! k \<noteq> Eval_Wait False"
    if "k < length (sy_slots y)" for k
    using stuck [OF gate_step.leave [OF that]] stuck [OF gate_step.retry_prefill [OF that]] stuck [OF gate_step.retry_eval [OF that]]
    by auto
  have no_prefill: "Prefilling \<notin> set (sy_slots y)" using moving(1) by (auto simp: in_set_conv_nth)
  have dec: "sy_decode y \<noteq> D_Top False" "sy_decode y \<noteq> D_Coalesce a" "sy_decode y \<noteq> D_Busy False" "sy_decode y \<noteq> D_Running ms" for a ms
  proof -
    show "sy_decode y \<noteq> D_Top False" using stuck [OF gate_step.decode_top] by (metis thread_event.simps(3))
    show "sy_decode y \<noteq> D_Coalesce a" using stuck [OF gate_step.decode_coalesce] stuck [OF gate_step.timeout]
      by (cases a) (metis thread_event.simps(3,4))+
    show "sy_decode y \<noteq> D_Busy False" using stuck [OF gate_step.decode_busy] by (metis thread_event.simps(3))
    show "sy_decode y \<noteq> D_Running ms" using stuck [OF gate_step.batch] by (metis thread_event.simps(5))
  qed
  have shut: "sy_stop y \<Longrightarrow> sy_shut y" using stuck [OF gate_step.shut] by auto
  have busy: "\<not> gt_busy (sy_gate y)" using D(3) no_prefill dec(4) by (auto simp: owner_inv_def)
  have sleep: "sleep_inv y" using inv by (simp add: gate_inv_def)
  then have "sy_decode y \<noteq> D_Busy True" using busy by (auto simp: sleep_inv_def)
  with dec have d: "sy_decode y = D_Top True \<or> sy_decode y = D_Exited" by (cases "sy_decode y") (metis (full_types))+
  then have none: "batch_of (sy_decode y) = []" by auto
  have len: "length (gt_slots (sy_gate y)) = length (sy_slots y)" using D(2) by (simp add: slots_inv_def)
  note S = gate_inv_slot(1) [OF inv]
  show ?thesis
  proof (cases "sy_decode y = D_Exited")
    case True
    then have "all_returned y" using sleep by (simp add: sleep_inv_def)
    then show ?thesis using i by (simp add: all_returned_def list_all_length)
  next
    case False
    then have pend: "gt_pending (sy_gate y) = 0" using d sleep by (auto simp: sleep_inv_def)
    then have np: "\<not> decode_pending (gt_slots (sy_gate y) ! k)" if "k < length (sy_slots y)" for k
      using D(1) that len by (auto simp: count_inv_def npend_def filter_empty_conv)
    have last: "gt_last (sy_gate y) < length (gt_slots (sy_gate y))" using D(1) by (simp add: count_inv_def)
    have asleep: "prefill_blocked (sy_gate y) k" if "k < length (sy_slots y)" "sy_slots y ! k = Prefill_Wait True" for k
    proof -
      have "\<not> sy_stop y" using S [OF that(1)] shut that(2) by (auto simp: slot_inv_def)
      then show ?thesis using sleep that by (auto simp: sleep_inv_def)
    qed
    show ?thesis
    proof (cases "sy_slots y ! i" rule: slot_pc_cases)
      case eval
      then have "\<not> sy_stop y" using S [OF i] shut by (auto simp: slot_inv_def)
      then show ?thesis using S [OF i] eval np [OF i] none by (auto simp: slot_inv_def)
    next
      case prefill
      have w: "prefill_waiting (gt_slots (sy_gate y) ! i)" using S [OF i] prefill by (auto simp: slot_inv_def)
      then obtain j where j: "server_next_prefill_slot_locked (sy_gate y) = Some j"
        using next_prefill_None [OF _ last, of i] i len by (cases "server_next_prefill_slot_locked (sy_gate y)") auto
      have jl: "j < length (sy_slots y)" "prefill_waiting (gt_slots (sy_gate y) ! j)"
        using next_prefill_Some(1,2) [OF j last] len by simp_all
      then have "waits_prefill (sy_slots y ! j)" using S by (auto simp: slot_inv_def)
      then have "sy_slots y ! j = Prefill_Wait True" using moving(2) [OF jl(1)] by (cases "sy_slots y ! j") auto
      then show ?thesis using asleep [OF jl(1)] busy pend j by (simp add: prefill_blocked_def)
    qed (use moving [OF i] in auto)
  qed
qed

text \<open>
  C14.  Every call returns.  From a reachable state the threads inside the gate can make at most
  \<^verbatim>\<open>gate_work\<close> steps on their own, in any order, whatever the batches return; and as long as a session is
  inside the gate, waiting for its turn, evaluating a prompt or waiting for a token, one of these steps is
  possible.  So no wake-up is lost and no two threads wait for each other.
\<close>

theorem gate_calls_return:
  assumes "0 < n" "gate_reach n coalesce y" "thread_run y es y'"
  shows "length es + gate_work y' \<le> gate_work y \<and>
    ((\<exists>i < length (sy_slots y'). sy_slots y' ! i \<notin> {Idle, Returned}) \<longrightarrow> (\<exists>e y''. gate_step y' e y'' \<and> thread_event e))"
  using thread_run_work [OF assms(3) gate_inv_reach [OF assms(2,1)]] stuck_all_out by blast

theorem gate_calls_return_witness:
  "\<exists>y'. thread_run two_prompts [Leave 0, Retry 1] y' \<and> sy_slots y' = [Idle, Prefilling] \<and>
    2 + gate_work y' \<le> gate_work two_prompts \<and> (\<exists>e y''. gate_step y' e y'' \<and> thread_event e)"
proof -
  define y1 where "y1 = server_prefill_leave 0 two_prompts"
  define y2 where "y2 = prefill_try 1 y1"
  have "gate_step two_prompts (Leave 0) y1" "gate_step y1 (Retry 1) y2" and e: "sy_slots y2 = [Idle, Prefilling]"
    unfolding y1_def y2_def by (rule gate_step.leave gate_step.retry_prefill | code_simp)+
  then have r: "thread_run two_prompts [Leave 0, Retry 1] y2" by (intro run_step [OF _ _ run_step [OF _ _ run_done]]) auto
  have "\<exists>i < length (sy_slots y2). sy_slots y2 ! i \<notin> {Idle, Returned}" by (rule exI [of _ 1]) (simp add: e)
  then show ?thesis using gate_calls_return [OF _ two_prompts_reach r] r e by auto
qed

subsection \<open>Turns\<close>

definition fair_inv :: "gate_sys \<Rightarrow> bool" where
  "fair_inv y \<longleftrightarrow> length (sy_bypass y) = length (gt_slots (sy_gate y)) \<and>
     (\<forall>i < length (gt_slots (sy_gate y)). prefill_waiting (gt_slots (sy_gate y) ! i) \<longrightarrow>
        sy_bypass y ! i + rr_dist (length (gt_slots (sy_gate y))) (gt_last (sy_gate y)) i < length (gt_slots (sy_gate y)))"

text \<open>Only what the round-robin order reads matters.\<close>

lemma fair_inv_same:
  assumes "sy_bypass y' = sy_bypass y" "gt_last (sy_gate y') = gt_last (sy_gate y)"
    "List.map prefill_waiting (gt_slots (sy_gate y')) = List.map prefill_waiting (gt_slots (sy_gate y))"
  shows "fair_inv y' = fair_inv y"
proof -
  have len: "length (gt_slots (sy_gate y')) = length (gt_slots (sy_gate y))" using assms(3) by (rule map_eq_imp_length_eq)
  have "prefill_waiting (gt_slots (sy_gate y') ! k) = prefill_waiting (gt_slots (sy_gate y) ! k)"
    if "k < length (gt_slots (sy_gate y))" for k
    using arg_cong [OF assms(3), of "\<lambda>xs. xs ! k"] that len by simp
  then show ?thesis using assms(1,2) len by (auto simp: fair_inv_def)
qed

lemma count_bypass_nth: "k < length bs \<Longrightarrow> count_bypass i bs ! k = (if k = i then bs ! k else bs ! k + 1)"
  by (simp add: count_bypass_def)

lemma length_count_bypass [simp]: "length (count_bypass i bs) = length bs"
  by (simp add: count_bypass_def)

lemma fair_prefill_try:
  assumes fair: "fair_inv y" and inv: "gate_inv y" and i: "i < length (sy_slots y)"
  shows "fair_inv (prefill_try i y)"
proof -
  define n where "n = length (gt_slots (sy_gate y))"
  have n: "i < n" "gt_last (sy_gate y) < n"
    using gate_invD(1,2) [OF inv] i by (simp_all add: count_inv_def slots_inv_def n_def)
  show ?thesis
  proof (cases rule: prefill_try_cases [where y = y and i = i])
    case stop
    have "prefill_waiting (gt_slots (sy_gate y) ! k)"
      if "prefill_waiting ((gt_slots (sy_gate y))[i := (gt_slots (sy_gate y) ! i)\<lparr>prefill_waiting := False\<rparr>] ! k)" for k
      using that n(1) by (cases "k = i") (simp_all add: n_def)
    then show ?thesis using fair unfolding stop(2) by (auto simp: fair_inv_def)
  next
    case block
    then show ?thesis using fair by (simp add: fair_inv_def)
  next
    case enter
    have next_i: "server_next_prefill_slot_locked (sy_gate y) = Some i" using enter(2) by (simp add: prefill_blocked_def)
    have "count_bypass i (sy_bypass y) ! k + rr_dist n i k < n"
      if k: "k < n" "k \<noteq> i" "prefill_waiting (gt_slots (sy_gate y) ! k)" for k
    proof -
      have "rr_dist n (gt_last (sy_gate y)) i \<le> rr_dist n (gt_last (sy_gate y)) k"
        using next_prefill_Some(3) [OF next_i _ _ k(3)] n k(1) by (simp add: n_def)
      then have "rr_dist n i k < rr_dist n (gt_last (sy_gate y)) k" using rr_dist_next [of _ n k i] n k by simp
      moreover have "sy_bypass y ! k + rr_dist n (gt_last (sy_gate y)) k < n" "length (sy_bypass y) = n"
        using fair k by (simp_all add: fair_inv_def n_def)
      ultimately show ?thesis using k by (simp add: count_bypass_nth)
    qed
    then show ?thesis using fair enter(3) n(1) by (auto simp: fair_inv_def nth_list_update n_def)
  qed
qed

lemma fair_enter:
  assumes fair: "fair_inv y" and inv: "gate_inv y" and i: "i < length (sy_slots y)" and p: "sy_slots y ! i = Idle"
  shows "fair_inv (server_prefill_enter i y)"
proof -
  have l: "gt_last (sy_gate y) < length (gt_slots (sy_gate y))" "length (gt_slots (sy_gate y)) = length (sy_slots y)"
    using gate_invD(1,2) [OF inv] by (simp_all add: count_inv_def slots_inv_def)
  then have "fair_inv (enter_begin i y)"
    using fair rr_dist_less [OF l(1)] i by (auto simp: fair_inv_def enter_begin_def nth_list_update)
  moreover have "i < length (sy_slots (enter_begin i y))" using enter_begin_pc [OF i] by simp
  ultimately show ?thesis
    unfolding enter_begin_try using fair_prefill_try gate_inv_enter_begin [OF inv i p] by blast
qed

lemma fair_eval_try: "fair_inv y \<Longrightarrow> fair_inv (eval_try i y)"
  by (auto simp: eval_try_def set_pc_def upd_slot_def Let_def map_waiting_upd
      elim!: fair_inv_same [THEN iffD2, rotated -1])

lemma fair_decode_busy:
  assumes "fair_inv y" "gate_inv y"
  shows "fair_inv (decode_busy y)"
  by (cases rule: decode_busy_cases [OF assms(2)])
    (use assms(1) in \<open>auto simp: comp_def collect_slot_def elim!: fair_inv_same [THEN iffD2, rotated -1]\<close>)

lemma fair_decode_coalesce: "fair_inv y \<Longrightarrow> gate_inv y \<Longrightarrow> fair_inv (decode_coalesce y)"
  using fair_inv_same [of "y\<lparr>sy_decode := d\<rparr>" y for d] by (auto simp: decode_coalesce_def Let_def fair_decode_busy)

lemma fair_decode_top: "fair_inv y \<Longrightarrow> gate_inv y \<Longrightarrow> fair_inv (decode_top y)"
  using fair_inv_same [of "y\<lparr>sy_decode := d\<rparr>" y for d]
  by (auto simp: decode_top_def Let_def fair_decode_busy fair_decode_coalesce)

lemma fair_decode_return:
  assumes "fair_inv y" "gate_inv y" "sy_decode y = D_Running ms"
  shows "fair_inv (decode_return rc err y)"
  using assms(1) unfolding decode_return_eq [OF assms(2,3)]
  by (elim fair_inv_same [THEN iffD2, rotated -1]) (auto simp: finish_slot_def intro!: nth_equalityI split: if_splits)

lemma fair_step: "gate_step y e y' \<Longrightarrow> gate_inv y \<Longrightarrow> fair_inv y \<Longrightarrow> fair_inv y'"
proof (induction rule: gate_step.induct)
  case (eval i y token)
  have "fair_inv (eval_begin i token y)"
    using eval(4) by (elim fair_inv_same [THEN iffD2, rotated -1]) (auto simp: eval_begin_def map_waiting_upd)
  then have "fair_inv (eval_try i (eval_begin i token y))" by (rule fair_eval_try)
  moreover have "fair_inv (y\<lparr>sy_calls := c, sy_answers := a\<rparr>)" for c a
    using eval(4) by (simp add: fair_inv_def)
  ultimately show ?case
    by (cases "decode_pending (gt_slots (sy_gate y) ! i) \<or> decode_in_flight (gt_slots (sy_gate y) ! i)")
       (auto simp: eval_begin_try, simp_all add: server_eval_token_def)
next
  case (shut y)
  have "server_cancel_decode_waiters_locked (sy_gate y) =
      (sy_gate y)\<lparr>gt_slots := List.map cancel_slot (gt_slots (sy_gate y)), gt_pending := 0\<rparr>"
    using gate_invD(1) [OF shut(3)] cancel_waiters by (simp add: count_inv_def)
  then show ?case using shut(4) by (elim fair_inv_same [THEN iffD2, rotated -1]) (auto simp: cancel_slot_def)
qed (auto simp: fair_enter fair_prefill_try fair_eval_try fair_decode_busy fair_decode_coalesce fair_decode_top fair_decode_return
    server_prefill_leave_def server_generation_enter_def server_generation_leave_def set_pc_def
    elim!: fair_inv_same [THEN iffD2, rotated -1])

lemma slots_step: "gate_step y e y' \<Longrightarrow> gate_inv y \<Longrightarrow> length (sy_slots y') = length (sy_slots y)"
proof (induction rule: gate_step.induct)
  case (batch y ms rc err)
  then show ?case by (simp add: decode_return_def)
qed (auto simp: server_prefill_enter_def prefill_try_def server_prefill_leave_def server_eval_token_def eval_try_def set_pc_def
    server_generation_enter_def server_generation_leave_def decode_top_def decode_coalesce_def decode_busy_def Let_def
    broadcast_def split: prod.splits)

lemma fair_reach: "gate_reach n c y \<Longrightarrow> 0 < n \<Longrightarrow> fair_inv y \<and> length (sy_slots y) = n"
proof (induction rule: gate_reach.induct)
  case reach_start
  then show ?case by (simp add: fair_inv_def gate_start_def gate_slot0_def)
next
  case (reach_step y e y')
  then show ?case using fair_step slots_step gate_inv_reach by metis
qed

text \<open>
  Turns are fair: from the moment a session announces that it wants to evaluate a prompt, at most
  \<open>n - 1\<close> prompts of other sessions are let in before it, each session's turn ending the wait of the
  next one in the ring.
\<close>

theorem prefill_turn_bounded:
  assumes "0 < n" "gate_reach n coalesce y" "i < n" "sy_slots y ! i = Prefill_Wait asleep"
  shows "sy_bypass y ! i < n"
proof -
  note f = fair_reach [OF assms(2,1)] and inv = gate_inv_reach [OF assms(2,1)]
  have "prefill_waiting (gt_slots (sy_gate y) ! i)"
    using gate_inv_slot(1) [OF inv, of i] assms(3,4) f by (auto simp: slot_inv_def)
  then show ?thesis using f assms(3) gate_invD(2) [OF inv] by (auto simp: fair_inv_def slots_inv_def)
qed

theorem prefill_turn_bounded_witness:
  "sy_slots two_prompts ! 1 = Prefill_Wait True \<and> sy_bypass two_prompts ! 1 < 2"
  using prefill_turn_bounded [OF _ two_prompts_reach, of 1 True] two_prompts_pcs by simp

end
