(* ===== verification/Spec2Isabelle.thy ===== *)
theory Spec2Isabelle
  imports Kv_Witness Dist_Props Chat Ssd Tool_Track Tool_Map_Props Agent_Round Agent_Read_Lines Server_Jobs_Props Server_Gate_Props
begin

text \<open>
  QuarkStar (q36) runs one family of language models from a GGUF file.  \<^verbatim>\<open>src/q36.c\<close> is the engine: it opens
  the model file, loads the vocabulary, turns chat messages into tokens and keeps sessions, whose state is the
  list of tokens evaluated so far and the caches of every layer.  \<^verbatim>\<open>src/q36_kvstore.c\<close> keeps checkpoints of
  sessions in a directory of limited size, found again by the text they were made from;
  \<^verbatim>\<open>src/q36_distributed.c\<close> splits the layers over two machines.  \<^verbatim>\<open>src/q36_server.c\<close> serves HTTP clients: it
  parses what the model generates into tool calls, remembers the exact text of every call under an id that it
  hands out, and streams text while it holds back what may still turn out to be tool syntax.
  \<^verbatim>\<open>src/q36_agent.c\<close> is a terminal agent on the same engine with its own parser of tool calls and the tools
  themselves.  Both ends share the escape of \<^verbatim>\<open>src/q36_tool_text.h\<close>.

  Everything is modelled from these sources as HOL functions, one per C function or per part of one, under the
  name it has there.  Bytes are \<^verbatim>\<open>8 word\<close>, unsigned fields keep their width, a C string is the list of bytes
  in front of its NUL, a pointer into it the suffix it points at or an offset; errors, refusals and exits are
  values of a sum or option type; what the code only calls (system calls, the forward pass, strtod) enters as
  an argument or a field of a record of functions.
\<close>

section \<open>Theories and sources\<close>

text \<open>
  \<^item> Base: \<open>Prelude\<close> (C types, C strings, character classes, list facts and the collections \<open>lit_simps\<close>,
    \<open>codec_simps\<close>, \<open>frame_simps\<close>), \<open>Codec\<close> (little-endian and network-order integers, locales \<open>codec\<close> and
    \<open>codec_onto\<close> with their three interpretations), \<open>Tokens\<close>, \<open>Os\<close> (files, clock and failing calls as the
    KV store sees them).
  \<^item> KV store (\<^verbatim>\<open>q36_kvstore.c\<close>): \<open>Kv_Sha1\<close> (the streaming hash refines the one-shot definition),
    \<open>Kv_Format\<close> (header, names, sizes), \<open>Kv_Index\<close> (directory scan, policy, eviction loop, lookup),
    \<open>Kv_Evict\<close> and \<open>Kv_Lookup\<close> (what eviction and lookup guarantee), \<open>Kv_Store\<close> (store and load on a file
    system whose calls may fail).
  \<^item> Session (\<^verbatim>\<open>q36.c\<close>): \<open>Session\<close> (operations on the CPU backend), \<open>Session_Inv\<close> (runs of operations and
    invariant: a valid checkpoint means the runtime is the one the forward pass computes for its tokens),
    \<open>Session_Payload\<close> (serialised form).  \<open>Kv_Session\<close> joins store and session: locale \<open>kv_session\<close> is what
    the store relies on, interpreted on the session by its payload round trip.
  \<^item> Pipeline (\<^verbatim>\<open>q36_distributed.c\<close>): \<open>Dist_Wire\<close>, \<open>Dist_Slice\<close>, \<open>Dist_Worker\<close>, \<open>Dist_Cli\<close>, \<open>Dist_Span\<close>
    (the operations), \<open>Dist_Pipeline\<close> (locale \<open>fifo_link\<close>: any window gives what the sequential reading gives),
    \<open>Dist_Link\<close> (the worker behind a byte stream interprets it), \<open>Dist_Coord\<close>, \<open>Dist_Serve\<close> (a span is served),
    \<open>Dist_Props\<close>.
  \<^item> Model file and tokenizer (\<^verbatim>\<open>q36.c\<close>): \<open>Gguf\<close>, \<open>Str_Table\<close> (locale \<open>string_map\<close>), \<open>Bpe\<close>, \<open>Chat\<close> (locale
    \<open>lossless_tokenizer\<close>).  \<open>Prompt_Prefix\<close> and \<open>Ssd\<close> are the files of that name.
  \<^item> Server (\<^verbatim>\<open>q36_server.c\<close>): \<open>Json\<close>, \<open>Json_Args\<close>, \<open>Tool_Text\<close>, \<open>Tool_Call\<close> (rendering and parsing of calls),
    \<open>Stream_Cut\<close> (stop strings and cuts of a stream), \<open>Tool_Track\<close> (incremental tracker against the slow
    recognizer), \<open>Tool_Memory\<close>, \<open>Tool_Memory_Inv\<close>, \<open>Tool_Memory_Spec\<close> (a linked store of entries and shared
    blocks refines a list of pairs in the order of use), \<open>Tool_Map\<close> and \<open>Tool_Map_Props\<close> (the map of ids behind
    a checkpoint).
  \<^item> Threads of the server: \<open>Server_Jobs\<close> (the job queue, the choice of a session, the worker threads, as steps
    under \<^verbatim>\<open>s->mu\<close>) with \<open>Server_Jobs_Props\<close>; \<open>Server_Gate\<close> (the gate in front of the model: turns of prompts,
    tokens and the decode thread, as steps under \<^verbatim>\<open>s->model_mu\<close>) with \<open>Server_Gate_Inv\<close> and
    \<open>Server_Gate_Props\<close>.
  \<^item> Agent (\<^verbatim>\<open>q36_agent.c\<close>): \<open>Agent_Parse\<close> and \<open>Agent_Parse_Props\<close> (the streaming parser of tool calls),
    \<open>Agent_Round\<close> (it reads what the server renders), \<open>Agent_Buf\<close> (buffers with a limit, the ring that keeps
    the end of a stream), \<open>Agent_File\<close> and \<open>Agent_File_Race\<close> (reading and replacing files that others may
    write), \<open>Agent_Edit\<close>, \<open>Agent_Edit_Tool\<close> and \<open>Agent_Edit_Props\<close> (the edit and write tools),
    \<open>Agent_Read\<close>, \<open>Agent_Read_Props\<close> and \<open>Agent_Read_Lines\<close> (the read and more tools).
\<close>

section \<open>What the lemma groups show\<close>

text \<open>
  \<^item> Storage: a checkpoint that is stored is found and restored with its tokens; a failed write never becomes
    visible; a lookup takes the longest stored prefix; eviction ends within the budget and removes nothing else;
    a payload is read back exactly.
  \<^item> Sessions: after any run of operations a valid checkpoint and the runtime belong together, if decode steps and
    rewrites, which do not check the mark, are called on valid checkpoints only; a sync ends with exactly the
    requested tokens.
  \<^item> Pipeline: frames survive the socket, peers that accept each other agree on model and layers, a pipelined
    span computes what a sequential one does and is served to its end, speculation commits the longest
    accepted prefix.
  \<^item> Text: tokenizing loses nothing and byte-pair merging agrees with its reference; rendered prompts refine the
    chat template; calls that the server renders are read back by the server, whatever string arguments they
    hold, and by the agent, however the stream is cut, unless an argument holds a closing tag with spaces in it,
    which the agent accepts and the shared escape does not cover; a call that is not closed never becomes a
    call; a call the client sends back is replaced by the sampled text exactly when all its ids belong to that
    text.
  \<^item> Threads: no accepted request is lost or answered twice, a stop drains the queue; the model has one user at a
    time, sessions take turns (\<open>prefill_turn_bounded\<close>), and every wait at the gate ends.
  \<^item> Agent tools: an edit that succeeds has replaced exactly the span it found, in the bytes it had read, even when
    other programs write to the file; one that fails leaves every file alone; numbered pages show the lines
    that the edit tool counts, and raw pages continued with more are the whole file.
  The theorems marked \<^verbatim>\<open>C1\<close>, \<^verbatim>\<open>C2\<close>, \<dots> are the properties; each one with hypotheses has a witness that applies it.
\<close>

section \<open>Bounds and fuel\<close>

text \<open>
  \<^item> The hash table holds at most \<^verbatim>\<open>2^60\<close> slots and the model file has fewer than \<^verbatim>\<open>2^63\<close> bytes: both exceed what
    an address space allows.  A probe of the table has as much fuel as there are slots, so running out means that
    every slot was seen.
  \<^item> Loops that might not end are options (\<open>while_option\<close>, \<open>partial_function\<close>); that they return is proved as such
    (\<open>tool_memory_put_terminates\<close>, \<open>evict_meets_budget\<close>, \<open>tokenize_round_trip\<close>, \<open>table_refines_map\<close>).
  \<^item> The runs of the threads have a measure that every step of their own lowers (\<open>shutdown_work\<close>, \<open>gate_work\<close>); that a
    thread inside \<^verbatim>\<open>generate_job\<close>, a prompt evaluation or a batch returns is taken for granted, and a spurious
    wake-up is a step from outside.
  \<^item> Where a recursive definition guards its step by progress (the skip loop of \<open>Json\<close>, \<open>tracker_loop\<close>,
    \<open>agent_qwen_tool_parse\<close>), the guard is shown to hold wherever the code reaches it.
  \<^item> Floating-point comparisons of the eviction score enter as functions; the one fact that needs them to order
    the scores states that as the locale \<open>dbl_order\<close>, interpreted on the reals.
  \<^item> The file system of the agent's tools is shared: every call may be preceded by any action of other programs,
    and may fail.  The theorem on edits assumes that a change of a file moves its time stamps and that the
    temporary file, whose name and inode are new, is left alone.
\<close>

section \<open>Not modelled\<close>

text \<open>
  \<^item> Tensor kernels, dequantization, sampling, MTP drafting and the GPU backends (\<^verbatim>\<open>q36_vulkan.c\<close>,
    \<^verbatim>\<open>q36_metal.m\<close>, most of \<^verbatim>\<open>q36.c\<close>): floating-point code whose meaning is numerical; the sessions take the
    forward pass as a function.
  \<^item> Sockets and client threads of the server, most of its request objects, \<^verbatim>\<open>generate_job\<close> and the reply formats,
    the recursive mutexes \<^verbatim>\<open>inference_mu\<close> and \<^verbatim>\<open>kv_mu\<close> that are held within single operations; the terminal
    interface of the agent, its shell tools and its web tool (\<^verbatim>\<open>q36_web.c\<close>): input and output whose
    effects lie outside the program.
  \<^item> The command line tools (\<^verbatim>\<open>q36_cli.c\<close>, \<^verbatim>\<open>q36_bench.c\<close>, \<^verbatim>\<open>q36_help.c\<close>) and the evaluation suite: tables of
    options, cases and texts.
  \<^item> Image decoding (\<^verbatim>\<open>q36_image.c\<close>): calls vendored decoders and resamples in floating point.  The vendored line
    editor and radix tree (\<^verbatim>\<open>linenoise.c\<close>, \<^verbatim>\<open>rax.c\<close>); the trees of the tool memory are maps.
  \<^item> Memory allocation and its failures, log lines, and error texts except where a tool returns them to the
    model.
\<close>

end
